(* ===== verification/Prelude.thy ===== *)
theory Prelude
  imports "HOL-Library.Word"
begin

unbundle bit_operations_syntax

text \<open>
  Shared vocabulary of the development: the error codes of
  \<^verbatim>\<open>kern/include/kern/errno.h\<close>, the outcome of a kernel call, the C integer
  types at their width, and the generic lemmas on lists and words that the
  component theories use.

  A kernel call either returns normally (\<open>Ok\<close>, the C return value 0 or a value
  handed back through a pointer), returns an error code (\<open>Err\<close>), or does not
  return: \<open>Panic\<close> is a failed \<^verbatim>\<open>KASSERT\<close> or a call of \<^verbatim>\<open>panic()\<close>,
  \<open>Fault\<close> an access outside the object a pointer refers to (undefined behaviour
  in C), and \<open>Hang\<close> a loop that never ends. \<open>Ok\<close> and \<open>Err\<close> carry the state after
  the call, because C code that fails has often changed the state already.
\<close>

subsection \<open>C integer types\<close>

type_synonym u8 = "8 word"
type_synonym u16 = "16 word"
type_synonym u32 = "32 word"
type_synonym u64 = "64 word"
type_synonym byte = "8 word"

subsection \<open>Error codes and outcomes\<close>

datatype errno =
    ENOSYS | ENOMEM | EFAULT | ENAMETOOLONG | EINVAL | ENOEXEC | ENOTDIR | EISDIR
  | ENOENT | EEXIST | EXDEV | ENODEV | ENXIO | EBUSY | EIO | ENOSPC | EFBIG | EIOCTL

datatype ('a, 's) res = Ok 'a 's | Err errno 's | Panic | Fault | Hang

fun kbind :: "('a, 's) res \<Rightarrow> ('a \<Rightarrow> 's \<Rightarrow> ('b, 's) res) \<Rightarrow> ('b, 's) res" where
  "kbind (Ok x s) f = f x s"
| "kbind (Err e s) f = Err e s"
| "kbind Panic f = Panic"
| "kbind Fault f = Fault"
| "kbind Hang f = Hang"

definition kassert :: "bool \<Rightarrow> ('a, 's) res \<Rightarrow> ('a, 's) res" where
  "kassert b r = (if b then r else Panic)"

text \<open>
  Access to a C array: reading or writing outside it is a \<open>Fault\<close>.
\<close>

definition rd :: "'a list \<Rightarrow> nat \<Rightarrow> ('a \<Rightarrow> ('b, 's) res) \<Rightarrow> ('b, 's) res" where
  "rd xs i k = (if i < length xs then k (xs ! i) else Fault)"

definition wr :: "'a list \<Rightarrow> nat \<Rightarrow> 'a \<Rightarrow> ('a list \<Rightarrow> ('b, 's) res) \<Rightarrow> ('b, 's) res" where
  "wr xs i x k = (if i < length xs then k (xs[i := x]) else Fault)"

text \<open>The macro \<^verbatim>\<open>DIVROUNDUP\<close> of \<^verbatim>\<open>lib.h\<close> at \<^verbatim>\<open>unsigned\<close> width.\<close>

definition DIVROUNDUP :: "u32 \<Rightarrow> u32 \<Rightarrow> u32" where
  "DIVROUNDUP a b = (a + b - 1) div b"

text \<open>Division of signed C integers truncates towards zero.\<close>

definition cdiv :: "int \<Rightarrow> int \<Rightarrow> int" where
  "cdiv a b = sgn a * sgn b * (\<bar>a\<bar> div \<bar>b\<bar>)"

definition cmod :: "int \<Rightarrow> int \<Rightarrow> int" where
  "cmod a b = a - cdiv a b * b"

subsection \<open>Collections and generic lemmas\<close>

named_theorems kcalls \<comment> \<open>unfolding rules for outcomes of kernel calls\<close>

lemma cdiv_nonneg [simp]: "0 \<le> a \<Longrightarrow> 0 < b \<Longrightarrow> cdiv a b = a div b"
  by (cases "a = 0") (simp_all add: cdiv_def)

lemma cmod_nonneg [simp]: "0 \<le> a \<Longrightarrow> 0 < b \<Longrightarrow> cmod a b = a mod b"
  by (simp add: cmod_def minus_div_mult_eq_mod)

lemma kbind_Ok_iff:
  "kbind r f = Ok y t \<longleftrightarrow> (\<exists>x s. r = Ok x s \<and> f x s = Ok y t)"
  by (cases r) auto

lemma kassert_Ok_iff [simp, kcalls]: "kassert b r = Ok x s \<longleftrightarrow> b \<and> r = Ok x s"
  by (simp add: kassert_def)

lemma kassert_Err_iff [simp, kcalls]: "kassert b r = Err e s \<longleftrightarrow> b \<and> r = Err e s"
  by (simp add: kassert_def)

lemma kassert_True [simp, kcalls]: "kassert True r = r"
  by (simp add: kassert_def)

lemma kassert_False [simp, kcalls]: "kassert False r = Panic"
  by (simp add: kassert_def)

lemma rd_in [simp, kcalls]: "i < length xs \<Longrightarrow> rd xs i k = k (xs ! i)"
  by (simp add: rd_def)

lemma rd_cong [fundef_cong]:
  "xs = ys \<Longrightarrow> i = j \<Longrightarrow> (\<And>x. j < length ys \<Longrightarrow> x = ys ! j \<Longrightarrow> k x = k' x) \<Longrightarrow> rd xs i k = rd ys j k'"
  by (simp add: rd_def)

lemma kbind_cong:
  "r = r' \<Longrightarrow> (\<And>x s. r' = Ok x s \<Longrightarrow> f x s = f' x s) \<Longrightarrow> kbind r f = kbind r' f'"
  by (cases r') simp_all

lemma wr_in [simp, kcalls]: "i < length xs \<Longrightarrow> wr xs i x k = k (xs[i := x])"
  by (simp add: wr_def)

lemma take_slide:
  assumes "i < n" "n \<le> length v"
  shows "take (n - 1) (take i v @ take (n - Suc i) (drop (Suc i) v) @ w) =
         take i (take n v) @ drop (Suc i) (take n v)"
proof -
  have "length (take i v @ take (n - Suc i) (drop (Suc i) v)) = n - 1"
    using assms by simp
  then have "take (n - 1) ((take i v @ take (n - Suc i) (drop (Suc i) v)) @ w) =
             take i v @ take (n - Suc i) (drop (Suc i) v)"
    by (metis append_eq_conv_conj)
  then show ?thesis using assms by (simp add: drop_take min_def)
qed

lemma unat_Suc_le: "unat (x :: u32) < n \<Longrightarrow> n < 2 ^ 32 \<Longrightarrow> unat (x + 1) = Suc (unat x)"
  by (simp add: unat_word_ariths)

lemma unat_add_small:
  "unat (a :: u32) + unat b < 2 ^ 32 \<Longrightarrow> unat (a + b) = unat a + unat b"
  by (simp add: unat_word_ariths)

lemma unat_mult_small:
  "unat (a :: u32) * unat b < 2 ^ 32 \<Longrightarrow> unat (a * b) = unat a * unat b"
  by (simp add: unat_word_ariths)

lemma unat_diff_small:
  "(b :: u32) \<le> a \<Longrightarrow> unat (a - b) = unat a - unat b"
  by (simp add: unat_sub)

lemma unat_of_nat_u32: "n < 2 ^ 32 \<Longrightarrow> unat (word_of_nat n :: u32) = n"
  by (simp add: unat_of_nat take_bit_nat_eq_self)

lemma unat_u32_less: "unat (x :: u32) < 2 ^ 32"
  using unsigned_less [of x, where 'a = nat] by simp

lemma u32_le_iff: "(a :: u32) \<le> b \<longleftrightarrow> unat a \<le> unat b"
  by (rule word_le_nat_alt)

lemma u32_less_iff: "(a :: u32) < b \<longleftrightarrow> unat a < unat b"
  by (rule word_less_nat_alt)

lemma u32_eq_iff: "(a :: u32) = b \<longleftrightarrow> unat a = unat b"
  by (simp add: word_unat_eq_iff)

lemmas u32_order = u32_le_iff u32_less_iff

end
