(* ===== verification/Karray.thy ===== *)
theory Karray
  imports Prelude
begin

text \<open>
  The resizeable pointer array of \<^verbatim>\<open>kern/lib/array.c\<close> and
  \<^verbatim>\<open>kern/include/array.h\<close>, which holds the kernel's tables (CPUs, known devices,
  loaded vnodes). The storage \<^verbatim>\<open>v\<close> is the list of slots of the allocated block;
  slots beyond \<^verbatim>\<open>num\<close> hold whatever the allocator left there. \<^verbatim>\<open>kmalloc\<close> is the
  parameter \<open>km\<close>: for a byte count it fails or hands back the slots of a block.

  The theory shows that the growth loop of \<^verbatim>\<open>array_preallocate\<close> ends exactly for
  requests up to \<open>2^31\<close> elements, that every operation keeps the array well formed and
  stays inside its block for arrays of up to \<open>2^29\<close> elements, and that the operations
  implement append, indexing, update and removal on the list of the first \<^verbatim>\<open>num\<close>
  slots. The interface locale \<open>vector\<close> states that contract for the clients.
\<close>

subsection \<open>Model\<close>

record 'a karray =
  arr_v :: "'a list"
  arr_num :: u32
  arr_max :: u32

type_synonym 'a kmem = "u32 \<Rightarrow> 'a list option"

definition array_init :: "'a karray" where
  "array_init = \<lparr>arr_v = [], arr_num = 0, arr_max = 0\<rparr>"

definition array_create :: "bool \<Rightarrow> 'a karray option" where
  "array_create ok = (if ok then Some array_init else None)"

definition array_cleanup :: "'a karray \<Rightarrow> (unit, 'a karray) res" where
  "array_cleanup a = kassert (arr_num a = 0) (Ok () (a\<lparr>arr_v := []\<rparr>))"

definition array_destroy :: "'a karray \<Rightarrow> (unit, 'a karray) res" where
  "array_destroy a = kbind (array_cleanup a) (\<lambda>_ a'. Ok () a')"

definition array_num :: "'a karray \<Rightarrow> u32" where
  "array_num a = arr_num a"

definition array_get :: "'a karray \<Rightarrow> u32 \<Rightarrow> ('a, 'a karray) res" where
  "array_get a index = kassert (index < arr_num a) (rd (arr_v a) (unat index) (\<lambda>x. Ok x a))"

definition array_set :: "'a karray \<Rightarrow> u32 \<Rightarrow> 'a \<Rightarrow> (unit, 'a karray) res" where
  "array_set a index val =
     kassert (index < arr_num a) (wr (arr_v a) (unat index) val (\<lambda>v. Ok () (a\<lparr>arr_v := v\<rparr>)))"

text \<open>The loop \<^verbatim>\<open>while (num > newmax)\<close>: doubling wraps to 0 above \<open>2^31\<close>.\<close>

partial_function (option) array_newmax :: "u32 \<Rightarrow> u32 \<Rightarrow> u32 option" where
  "array_newmax num newmax =
     (if num > newmax then array_newmax num (if newmax \<noteq> 0 then newmax * 2 else 4)
      else Some newmax)"

text \<open>\<^verbatim>\<open>memcpy\<close> of \<open>bytes\<close> bytes between blocks of 4-byte slots.\<close>

definition memcpy_slots ::
    "'a list \<Rightarrow> 'a list \<Rightarrow> u32 \<Rightarrow> ('a list \<Rightarrow> ('b, 's) res) \<Rightarrow> ('b, 's) res" where
  "memcpy_slots dst src bytes k =
     (let n = unat bytes div 4 in
      if n \<le> length dst \<and> n \<le> length src then k (take n src @ drop n dst) else Fault)"

definition array_preallocate ::
    "'a kmem \<Rightarrow> 'a karray \<Rightarrow> u32 \<Rightarrow> (unit, 'a karray) res" where
  "array_preallocate km a num =
     (if num > arr_max a then
        (case array_newmax num (arr_max a) of
           None \<Rightarrow> Hang
         | Some newmax \<Rightarrow>
             (case km (newmax * 4) of
                None \<Rightarrow> Err ENOMEM a
              | Some newptr \<Rightarrow>
                  memcpy_slots newptr (arr_v a) (arr_num a * 4)
                    (\<lambda>v. Ok () (a\<lparr>arr_v := v, arr_max := newmax\<rparr>))))
      else Ok () a)"

definition array_setsize ::
    "'a kmem \<Rightarrow> 'a karray \<Rightarrow> u32 \<Rightarrow> (unit, 'a karray) res" where
  "array_setsize km a num =
     kbind (array_preallocate km a num) (\<lambda>_ a'. Ok () (a'\<lparr>arr_num := num\<rparr>))"

definition array_add :: "'a kmem \<Rightarrow> 'a karray \<Rightarrow> 'a \<Rightarrow> (u32, 'a karray) res" where
  "array_add km a val =
     (let index = arr_num a in
      kbind (array_setsize km a (index + 1))
        (\<lambda>_ a'. wr (arr_v a') (unat index) val (\<lambda>v. Ok index (a'\<lparr>arr_v := v\<rparr>))))"

definition array_remove :: "'a karray \<Rightarrow> u32 \<Rightarrow> (unit, 'a karray) res" where
  "array_remove a index =
     kassert (arr_num a \<le> arr_max a) (kassert (index < arr_num a)
       (let num_to_move = unat (arr_num a - (index + 1)); i = unat index; v = arr_v a in
        if i + 1 + num_to_move \<le> length v
        then Ok () (a\<lparr>arr_v := take i v @ take num_to_move (drop (i + 1) v) @ drop (i + num_to_move) v,
                      arr_num := arr_num a - 1\<rparr>)
        else Fault))"

subsection \<open>Specification\<close>

text \<open>Capacities the code can produce: 0, or a power of two from 4 up to \<open>2^31\<close>.\<close>

definition arr_capacity :: "u32 \<Rightarrow> bool" where
  "arr_capacity m \<longleftrightarrow> m = 0 \<or> (\<exists>j. 2 \<le> j \<and> j \<le> 31 \<and> unat m = 2 ^ j)"

definition arr_ok :: "'a karray \<Rightarrow> bool" where
  "arr_ok a \<longleftrightarrow> arr_capacity (arr_max a) \<and> arr_num a \<le> arr_max a \<and>
     unat (arr_max a) \<le> length (arr_v a)"

definition arr_list :: "'a karray \<Rightarrow> 'a list" where
  "arr_list a = take (unat (arr_num a)) (arr_v a)"

text \<open>What \<^verbatim>\<open>kmalloc\<close> promises: a block of at least the requested size.\<close>

definition kmalloc_gives :: "'a kmem \<Rightarrow> bool" where
  "kmalloc_gives km \<longleftrightarrow> (\<forall>sz blk. km sz = Some blk \<longrightarrow> unat sz \<le> 4 * length blk)"

subsection \<open>The growth loop\<close>

lemma array_newmax_step:
  "num > m \<Longrightarrow> array_newmax num m = array_newmax num (if m \<noteq> 0 then m * 2 else 4)"
  by (subst array_newmax.simps) simp

lemma array_newmax_stop: "num \<le> m \<Longrightarrow> array_newmax num m = Some m"
  by (subst array_newmax.simps) (auto simp: not_less [symmetric])

lemma unat_double: "unat (m :: u32) = 2 ^ j \<Longrightarrow> j \<le> 30 \<Longrightarrow> unat (m * 2) = 2 ^ Suc j"
proof -
  assume m: "unat m = 2 ^ j" and j: "j \<le> 30"
  have "(2::nat) ^ Suc j \<le> 2 ^ 31" using j by (intro power_increasing) auto
  then show ?thesis using m by (subst unat_mult_small) (auto simp: mult.commute)
qed

lemma unat_wrap: "unat (m :: u32) = 2 ^ 31 \<Longrightarrow> m * 2 = 0"
  by (simp add: word_unat_eq_iff unat_word_ariths)

lemma array_newmax_power:
  assumes "unat num \<le> 2 ^ 31" "unat m = 2 ^ j" "2 \<le> j" "j \<le> 31"
  shows "\<exists>n i. array_newmax num m = Some n \<and> j \<le> i \<and> i \<le> 31 \<and> unat n = 2 ^ i \<and>
           num \<le> n \<and> (i = j \<or> 2 ^ (i - 1) < unat num)"
  using assms
proof (induction "31 - j" arbitrary: j m)
  case 0
  then have "num \<le> m" by (simp add: u32_order)
  with 0 show ?case by (intro exI [of _ m] exI [of _ j]) (simp add: array_newmax_stop)
next
  case (Suc k)
  show ?case
  proof (cases "num \<le> m")
    case True
    with Suc.prems show ?thesis
      by (intro exI [of _ m] exI [of _ j]) (simp add: array_newmax_stop)
  next
    case False
    from Suc have d: "unat (m * 2) = 2 ^ Suc j" by (intro unat_double) auto
    from Suc.hyps(2) Suc.prems(3) have k: "k = 31 - Suc j" "Suc j \<le> 31" "2 \<le> Suc j"
      by arith+
    from Suc.hyps(1) [OF k(1) Suc.prems(1) d k(3,2)]
    obtain n i where n: "array_newmax num (m * 2) = Some n" "Suc j \<le> i" "i \<le> 31"
        "unat n = 2 ^ i" "num \<le> n" "i = Suc j \<or> 2 ^ (i - 1) < unat num"
      by blast
    have "m \<noteq> 0" using Suc.prems(2) by auto
    with False n(1) have "array_newmax num m = Some n"
      by (simp add: array_newmax_step not_le)
    moreover have "2 ^ (i - 1) < unat num"
      using n(6) False Suc.prems(2) by (auto simp: u32_order)
    ultimately show ?thesis using n by (intro exI [of _ n] exI [of _ i]) auto
  qed
qed

lemma arr_capacity_cases:
  assumes "arr_capacity m"
  obtains (zero) "m = 0"
  | (grow) j where "m \<noteq> 0" "2 \<le> j" "j \<le> 30" "unat m = 2 ^ j"
  | (top) "m \<noteq> 0" "unat m = 2 ^ 31"
proof (cases "m = 0")
  case False
  with assms obtain j where j: "2 \<le> j" "j \<le> 31" "unat m = 2 ^ j"
    by (auto simp: arr_capacity_def)
  then show ?thesis using grow [of j] top False by (cases "j = 31") auto
qed (rule zero)

lemma arr_capacity_double:
  assumes "arr_capacity m"
  shows "arr_capacity (if m \<noteq> 0 then m * 2 else 4)"
  using assms
proof (cases rule: arr_capacity_cases)
  case zero
  then show ?thesis by (auto simp: arr_capacity_def intro!: exI [of _ 2])
next
  case (grow j)
  then show ?thesis using unat_double [of m j]
    by (auto simp: arr_capacity_def intro!: exI [of _ "Suc j"])
next
  case top
  then show ?thesis by (simp add: arr_capacity_def unat_wrap)
qed

lemma array_newmax_result:
  assumes "array_newmax num m = Some r"
  shows "arr_capacity m \<longrightarrow> arr_capacity r \<and> num \<le> r"
proof (rule array_newmax.raw_induct [OF _ assms])
  fix f :: "u32 \<Rightarrow> u32 \<Rightarrow> u32 option" and num m r :: u32
  assume IH: "\<And>num m r. f num m = Some r \<Longrightarrow> arr_capacity m \<longrightarrow> arr_capacity r \<and> num \<le> r"
    and eq: "(if m < num then f num (if m \<noteq> 0 then m * 2 else 4) else Some m) = Some r"
  show "arr_capacity m \<longrightarrow> arr_capacity r \<and> num \<le> r"
  proof (cases "m < num")
    case True
    with eq have "f num (if m \<noteq> 0 then m * 2 else 4) = Some r" by simp
    from IH [OF this] show ?thesis using arr_capacity_double by blast
  next
    case False
    with eq show ?thesis by auto
  qed
qed

lemma arr_capacity_le: "arr_capacity m \<Longrightarrow> unat m \<le> 2 ^ 31"
  using power_increasing [of _ 31 "2::nat"] by (auto simp: arr_capacity_def)

lemma array_newmax_hangs:
  "arr_capacity m \<Longrightarrow> unat num > 2 ^ 31 \<Longrightarrow> array_newmax num m = None"
  using array_newmax_result arr_capacity_le by (cases "array_newmax num m") (fastforce simp: u32_order)+

lemma array_newmax_small:
  assumes "arr_capacity m" "m < num" "unat num \<le> 2 ^ 31"
  shows "\<exists>n i. array_newmax num m = Some n \<and> 2 \<le> i \<and> i \<le> 31 \<and> unat n = 2 ^ i \<and> num \<le> n \<and>
           (i = 2 \<or> 2 ^ (i - 1) < unat num)"
  using assms(1)
proof (cases rule: arr_capacity_cases)
  case zero
  then have "array_newmax num m = array_newmax num 4"
    using assms(2) by (simp add: array_newmax_step)
  then show ?thesis using array_newmax_power [OF assms(3), of 4 2] by auto
next
  case (grow j)
  have j: "2 ^ j < unat num" "j \<le> 31" using grow assms(2) by (simp_all add: u32_order)
  obtain n i where n: "array_newmax num m = Some n" "j \<le> i" "i \<le> 31" "unat n = 2 ^ i"
      "num \<le> n" "i = j \<or> 2 ^ (i - 1) < unat num"
    using array_newmax_power [OF assms(3) grow(4,2) j(2)] by blast
  have "(2::nat) ^ (j - 1) \<le> 2 ^ j" by (intro power_increasing) auto
  with n(6) j(1) have "2 ^ (i - 1) < unat num" by (metis le_less_trans)
  with n grow(2) show ?thesis by (intro exI [of _ n] exI [of _ i]) auto
next
  case top
  then show ?thesis using assms(2,3) by (simp add: u32_order)
qed

text \<open>
  The capacity search of \<^verbatim>\<open>array_preallocate\<close> returns exactly for requests of at most
  \<open>2^31\<close> elements; the capacity it finds then holds the request, is a power of two, and is
  less than twice the request unless it is the minimum of 4. Above \<open>2^31\<close> the doubling wraps
  to 0 and the loop never ends.
\<close>

theorem array_newmax_returns_iff:
  assumes "arr_capacity m" "m < num"
  shows "(array_newmax num m \<noteq> None \<longleftrightarrow> unat num \<le> 2 ^ 31) \<and>
    (\<forall>n. array_newmax num m = Some n \<longrightarrow>
       num \<le> n \<and> arr_capacity n \<and> (n = 4 \<or> unat n < 2 * unat num))"
proof (cases "unat num \<le> 2 ^ 31")
  case False
  then show ?thesis using array_newmax_hangs [OF assms(1)] by simp
next
  case True
  then obtain n i where n: "array_newmax num m = Some n" "2 \<le> i" "i \<le> 31" "unat n = 2 ^ i"
      "num \<le> n" "i = 2 \<or> 2 ^ (i - 1) < unat num"
    using array_newmax_small [OF assms] by blast
  have "n = 4 \<or> unat n < 2 * unat num"
  proof (cases "i = 2")
    case True
    then show ?thesis using n(4) by (simp add: word_unat_eq_iff)
  next
    case False
    with n(6) have "2 * 2 ^ (i - 1) < 2 * unat num" by simp
    with n(2,4) show ?thesis by (simp add: power_eq_if)
  qed
  with n True show ?thesis by (auto simp: arr_capacity_def)
qed

theorem array_newmax_returns_iff_witness:
  "arr_capacity 4 \<and> (4::u32) < 5 \<and> (\<exists>n. array_newmax 5 4 = Some n \<and> 5 \<le> n \<and> unat n < 10)"
proof -
  have c: "arr_capacity 4" by (auto simp: arr_capacity_def intro!: exI [of _ 2])
  have "array_newmax 5 4 \<noteq> None"
    using array_newmax_returns_iff [OF c, of 5] by simp
  then obtain n where n: "array_newmax 5 4 = Some n" by blast
  then show ?thesis
    using array_newmax_returns_iff [OF c, of 5] c by (auto simp: u32_order)
qed

subsection \<open>The operations on well-formed arrays\<close>

text \<open>Arrays below this bound never overflow the byte count \<^verbatim>\<open>newmax*sizeof(*a->v)\<close>.\<close>

definition arr_limit :: nat where
  "arr_limit = 2 ^ 29"

lemma array_preallocate_ok:
  assumes ok: "arr_ok a" and km: "kmalloc_gives km" and lim: "unat num \<le> arr_limit"
  shows "array_preallocate km a num = Err ENOMEM a \<or>
    (\<exists>a'. array_preallocate km a num = Ok () a' \<and> arr_ok a' \<and> num \<le> arr_max a' \<and>
          arr_num a' = arr_num a \<and> arr_list a' = arr_list a)"
proof (cases "num > arr_max a")
  case False
  then show ?thesis using ok by (auto simp: array_preallocate_def)
next
  case True
  from lim have lim31: "unat num \<le> 2 ^ 31" by (simp add: arr_limit_def)
  from ok have cap: "arr_capacity (arr_max a)" by (simp add: arr_ok_def)
  from array_newmax_small [OF cap True lim31] obtain n i where
    n: "array_newmax num (arr_max a) = Some n" "2 \<le> i" "i \<le> 31" "unat n = 2 ^ i" "num \<le> n"
      "i = 2 \<or> 2 ^ (i - 1) < unat num" by blast
  have "i \<le> 29"
  proof (rule ccontr)
    assume "\<not> i \<le> 29"
    then have "(2::nat) ^ 29 \<le> 2 ^ (i - 1)" by (intro power_increasing) auto
    with n(6) \<open>\<not> i \<le> 29\<close> lim show False by (auto simp: arr_limit_def)
  qed
  then have "(2::nat) ^ i \<le> 2 ^ 29" by (intro power_increasing) auto
  with n(4) have bytes: "unat (n * 4) = 4 * unat n"
    by (subst unat_mult_small) auto
  have numn: "unat (arr_num a) < unat n" "unat (arr_num a) \<le> length (arr_v a)"
    using ok True n(5) by (auto simp: arr_ok_def u32_order)
  have num4: "unat (arr_num a * 4) = 4 * unat (arr_num a)"
    using numn(1) n(4) \<open>2 ^ i \<le> 2 ^ 29\<close> by (subst unat_mult_small) auto
  show ?thesis
  proof (cases "km (n * 4)")
    case None
    then show ?thesis using True n(1) by (simp add: array_preallocate_def)
  next
    case (Some blk)
    then have len: "unat n \<le> length blk" using km bytes by (force simp: kmalloc_gives_def)
    let ?a' = "a\<lparr>arr_v := take (unat (arr_num a)) (arr_v a) @ drop (unat (arr_num a)) blk,
               arr_max := n\<rparr>"
    have "array_preallocate km a num = Ok () ?a'"
      using True n(1) Some len numn num4
      by (simp add: array_preallocate_def memcpy_slots_def Let_def)
    moreover have "arr_ok ?a'"
      using len numn n by (auto simp: arr_ok_def arr_capacity_def u32_order)
    ultimately show ?thesis using n(5) numn by (auto simp: arr_list_def)
  qed
qed

lemma array_add_ok:
  assumes ok: "arr_ok a" and km: "kmalloc_gives km" and lim: "unat (arr_num a) < arr_limit"
  shows "array_add km a x = Err ENOMEM a \<or>
    (\<exists>a'. array_add km a x = Ok (arr_num a) a' \<and> arr_ok a' \<and> arr_list a' = arr_list a @ [x])"
proof -
  have s: "unat (arr_num a + 1) = Suc (unat (arr_num a))"
    using lim by (intro unat_Suc_le [of _ "arr_limit"]) (auto simp: arr_limit_def)
  then have "unat (arr_num a + 1) \<le> arr_limit" using lim by simp
  from array_preallocate_ok [OF ok km this] show ?thesis
  proof (elim disjE exE conjE)
    assume "array_preallocate km a (arr_num a + 1) = Err ENOMEM a"
    then show ?thesis by (simp add: array_add_def array_setsize_def)
  next
    fix a' assume a': "array_preallocate km a (arr_num a + 1) = Ok () a'" "arr_ok a'"
      "arr_num a + 1 \<le> arr_max a'" "arr_num a' = arr_num a" "arr_list a' = arr_list a"
    then have len: "unat (arr_num a) < length (arr_v a')"
      using s by (auto simp: arr_ok_def u32_order)
    let ?r = "a'\<lparr>arr_num := arr_num a + 1, arr_v := (arr_v a')[unat (arr_num a) := x]\<rparr>"
    have "array_add km a x = Ok (arr_num a) ?r"
      using a'(1) len by (simp add: array_add_def array_setsize_def Let_def)
    moreover have "arr_ok ?r" using a' by (auto simp: arr_ok_def)
    moreover have "arr_list ?r = arr_list a @ [x]"
      using a'(4,5) len s by (simp add: arr_list_def take_Suc_conv_app_nth)
    ultimately show ?thesis by blast
  qed
qed

lemma array_setsize_shrink:
  "arr_ok a \<Longrightarrow> n \<le> arr_num a \<Longrightarrow>
   \<exists>a'. array_setsize km a n = Ok () a' \<and> arr_ok a' \<and> arr_list a' = take (unat n) (arr_list a)"
  by (auto simp: array_setsize_def array_preallocate_def arr_ok_def arr_list_def u32_order min_def)

lemma array_get_ok:
  "arr_ok a \<Longrightarrow> i < arr_num a \<Longrightarrow> array_get a i = Ok (arr_list a ! unat i) a"
  by (auto simp: array_get_def arr_ok_def arr_list_def u32_order)

lemma array_set_ok:
  "arr_ok a \<Longrightarrow> i < arr_num a \<Longrightarrow>
   \<exists>a'. array_set a i x = Ok () a' \<and> arr_ok a' \<and> arr_num a' = arr_num a \<and>
        arr_list a' = (arr_list a)[unat i := x]"
  by (auto simp: array_set_def arr_ok_def arr_list_def u32_order take_update_swap)

lemma array_remove_ok:
  assumes ok: "arr_ok a" and i: "i < arr_num a"
  shows "\<exists>a'. array_remove a i = Ok () a' \<and> arr_ok a' \<and> arr_num a' = arr_num a - 1 \<and>
    arr_list a' = take (unat i) (arr_list a) @ drop (Suc (unat i)) (arr_list a)"
proof -
  let ?n = "unat (arr_num a)" and ?i = "unat i"
  have lt: "?i < ?n" "?n \<le> length (arr_v a)" "arr_num a \<le> arr_max a"
    using ok i by (auto simp: arr_ok_def u32_order)
  have "unat (i + 1) = Suc ?i"
    using lt(1) unat_u32_less [of "arr_num a"] by (intro unat_Suc_le [of _ ?n]) auto
  moreover have "i + 1 \<le> arr_num a" using calculation lt by (simp add: u32_order)
  ultimately have mv: "unat (arr_num a - (i + 1)) = ?n - Suc ?i"
    by (simp add: unat_diff_small)
  have "(1::u32) \<le> arr_num a" using lt(1) by (simp add: u32_order)
  then have n1: "unat (arr_num a - 1) = ?n - 1" by (simp add: unat_diff_small)
  let ?v = "take ?i (arr_v a) @ take (?n - Suc ?i) (drop (Suc ?i) (arr_v a)) @
            drop (?i + (?n - Suc ?i)) (arr_v a)"
  let ?a' = "a\<lparr>arr_v := ?v, arr_num := arr_num a - 1\<rparr>"
  have "array_remove a i = Ok () ?a'"
    using lt i mv by (simp add: array_remove_def Let_def)
  moreover have "arr_ok ?a'"
    using ok lt n1 by (auto simp: arr_ok_def u32_order)
  moreover have "arr_list ?a' = take ?i (arr_list a) @ drop (Suc ?i) (arr_list a)"
    using n1 take_slide [OF lt(1,2)] by (simp add: arr_list_def)
  ultimately show ?thesis by auto
qed

subsection \<open>The vector interface\<close>

text \<open>
  What the clients of the array rely on (the tables of CPUs, devices and vnodes): a
  finite sequence \<open>elems\<close> with append, indexing, update and removal; an append may fail for
  lack of memory and then changes nothing.
\<close>

locale vector =
  fixes inv :: "'v \<Rightarrow> bool"
    and elems :: "'v \<Rightarrow> 'a list"
    and limit :: nat
    and num :: "'v \<Rightarrow> u32"
    and get :: "'v \<Rightarrow> u32 \<Rightarrow> ('a, 'v) res"
    and set_elem :: "'v \<Rightarrow> u32 \<Rightarrow> 'a \<Rightarrow> (unit, 'v) res"
    and add :: "'v \<Rightarrow> 'a \<Rightarrow> (u32, 'v) res"
    and remove :: "'v \<Rightarrow> u32 \<Rightarrow> (unit, 'v) res"
  assumes num_elems: "inv v \<Longrightarrow> unat (num v) = length (elems v)"
    and get_elem: "inv v \<Longrightarrow> i < num v \<Longrightarrow> get v i = Ok (elems v ! unat i) v"
    and get_panics: "inv v \<Longrightarrow> \<not> i < num v \<Longrightarrow> get v i = Panic"
    and set_law: "inv v \<Longrightarrow> i < num v \<Longrightarrow>
          \<exists>v'. set_elem v i x = Ok () v' \<and> inv v' \<and> elems v' = (elems v)[unat i := x]"
    and add_law: "inv v \<Longrightarrow> length (elems v) < limit \<Longrightarrow>
          add v x = Err ENOMEM v \<or>
          (\<exists>v'. add v x = Ok (num v) v' \<and> inv v' \<and> elems v' = elems v @ [x])"
    and remove_law: "inv v \<Longrightarrow> i < num v \<Longrightarrow>
          \<exists>v'. remove v i = Ok () v' \<and> inv v' \<and>
               elems v' = take (unat i) (elems v) @ drop (Suc (unat i)) (elems v)"
begin

lemma add_result:
  assumes "inv v" "length (elems v) < limit" "add v x = Ok i v'"
  shows "i = num v \<and> inv v' \<and> elems v' = elems v @ [x] \<and> unat (num v') = Suc (unat (num v))"
  using add_law [OF assms(1,2), of x] assms num_elems by auto

lemma add_get:
  assumes "inv v" "length (elems v) < limit" "add v x = Ok i v'"
  shows "get v' i = Ok x v'"
  using add_result [OF assms] num_elems [OF assms(1)] get_elem [of v' i]
  by (auto simp: u32_order nth_append)

lemma add_get_old:
  assumes "inv v" "length (elems v) < limit" "add v x = Ok i v'" "j < num v"
  shows "get v' j = Ok (elems v ! unat j) v'"
  using add_result [OF assms(1-3)] num_elems [OF assms(1)] get_elem [of v' j] assms(4)
  by (auto simp: u32_order nth_append)

lemma remove_mset:
  assumes "inv v" "i < num v" "remove v i = Ok () v'"
  shows "elems v = take (unat i) (elems v') @ (elems v ! unat i) # drop (unat i) (elems v')"
proof -
  have "unat i < length (elems v)" using assms(2) num_elems [OF assms(1)] by (simp add: u32_order)
  then show ?thesis
    using remove_law [OF assms(1,2)] assms(3) by (auto simp: min_def id_take_nth_drop)
qed

end

interpretation karr: vector "\<lambda>a. kmalloc_gives km \<and> arr_ok a" arr_list arr_limit
    array_num array_get array_set "array_add km" array_remove for km
proof (unfold_locales, goal_cases)
  case (1 v)
  then show ?case by (auto simp: arr_ok_def arr_list_def array_num_def u32_order)
next
  case (2 v i)
  then show ?case by (simp add: array_get_ok array_num_def)
next
  case (3 v i)
  then show ?case by (simp add: array_get_def array_num_def)
next
  case (4 v i x)
  then show ?case using array_set_ok [of v i x] by (auto simp: array_num_def)
next
  case (5 v x)
  then have "unat (arr_num v) < arr_limit"
    by (auto simp: arr_ok_def arr_list_def u32_order)
  with 5 show ?case using array_add_ok [of v km x] by (auto simp: array_num_def)
next
  case (6 v i)
  then show ?case using array_remove_ok [of v i] by (auto simp: array_num_def)
qed

lemma array_init_ok [simp]: "arr_ok array_init" "arr_list array_init = []"
  by (simp_all add: array_init_def arr_ok_def arr_list_def arr_capacity_def)

text \<open>
  Removing the entry at an index hands back the array without that entry and with
  the rest in order, and appending puts the new value last at the index handed back while
  every earlier index reads as before; neither operation leaves its block.
\<close>

theorem array_add_remove_sequence:
  assumes "kmalloc_gives km" "arr_ok a" "length (arr_list a) < arr_limit"
    and "array_add km a x = Ok i a'"
  shows "arr_ok a' \<and> arr_list a' = arr_list a @ [x] \<and> array_get a' i = Ok x a' \<and>
    (\<forall>j < arr_num a. array_get a' j = Ok (arr_list a ! unat j) a' \<and>
      (\<exists>a''. array_remove a' j = Ok () a'' \<and> arr_ok a'' \<and>
         arr_list a'' = take (unat j) (arr_list a) @ drop (Suc (unat j)) (arr_list a) @ [x]))"
proof (intro conjI allI impI)
  note r = karr.add_result [OF conjI [OF assms(1,2)] assms(3,4)]
  show "arr_ok a'" "arr_list a' = arr_list a @ [x]" using r by simp_all
  show "array_get a' i = Ok x a'"
    using karr.add_get [OF conjI [OF assms(1,2)] assms(3,4)] .
  fix j assume j: "j < arr_num a"
  then have j': "j < array_num a'" "unat j < length (arr_list a)"
    using r karr.num_elems [of km a] assms(1,2) by (auto simp: array_num_def u32_order)
  show "array_get a' j = Ok (arr_list a ! unat j) a'"
    using karr.add_get_old [OF conjI [OF assms(1,2)] assms(3,4), of j] j by (simp add: array_num_def)
  show "\<exists>a''. array_remove a' j = Ok () a'' \<and> arr_ok a'' \<and>
      arr_list a'' = take (unat j) (arr_list a) @ drop (Suc (unat j)) (arr_list a) @ [x]"
    using karr.remove_law [of km a' j] r assms(1) j' by auto
qed

theorem array_add_remove_sequence_witness:
  "\<exists>a'. array_add (\<lambda>sz. Some (replicate (unat sz) (0::nat))) array_init 7 = Ok 0 a' \<and>
     arr_list a' = [7] \<and> array_get a' 0 = Ok 7 a'"
proof -
  let ?km = "\<lambda>sz. Some (replicate (unat sz) (0::nat))"
  have km: "kmalloc_gives ?km" by (simp add: kmalloc_gives_def)
  have new: "array_newmax 1 0 = Some 4" by (simp add: array_newmax_step array_newmax_stop)
  obtain a' where a': "array_add ?km array_init (7::nat) = Ok 0 a'"
    by (simp add: array_add_def array_setsize_def array_preallocate_def array_init_def new
        memcpy_slots_def Let_def)
  have lim: "length (arr_list (array_init :: nat karray)) < arr_limit"
    by (simp add: arr_limit_def)
  show ?thesis
    using array_add_remove_sequence [OF km array_init_ok(1) lim a'] a' by auto
qed

text \<open>A request of more than \<open>2^29\<close> elements: the byte count is 0.\<close>

lemma array_preallocate_zero:
  assumes ok: "arr_ok a" and big: "arr_max a < num" "arr_limit < unat num" "unat num \<le> 2 ^ 31"
  shows "\<exists>n. num \<le> n \<and> array_preallocate km a num =
    (case km 0 of
       None \<Rightarrow> Err ENOMEM a
     | Some blk \<Rightarrow> memcpy_slots blk (arr_v a) (arr_num a * 4) (\<lambda>v. Ok () (a\<lparr>arr_v := v, arr_max := n\<rparr>)))"
proof -
  have cap: "arr_capacity (arr_max a)" using ok by (simp add: arr_ok_def)
  obtain n i where n: "array_newmax num (arr_max a) = Some n" "i \<le> 31" "unat n = 2 ^ i" "num \<le> n"
    using array_newmax_small [OF cap big(1,3)] by blast
  have "(2::nat) ^ 29 < 2 ^ i" using n(3,4) big(2) by (simp add: arr_limit_def u32_order)
  then have "29 < i" by (rule power_less_imp_less_exp [rotated]) simp
  then obtain k where k: "i = 30 + k" using less_iff_Suc_add [of 29 i] by auto
  have "unat (n * 4) = (2 ^ i * 4) mod 2 ^ 32" using n(3) by (simp add: unat_word_ariths)
  also have "\<dots> = (2 ^ 32 * 2 ^ k) mod 2 ^ 32" by (simp add: k power_add)
  also have "\<dots> = 0" by (simp only: mod_mult_self1_is_0)
  finally have "n * 4 = 0" by (simp add: word_unat_eq_iff)
  then show ?thesis using big(1) n(1,4) by (intro exI [of _ n]) (simp add: array_preallocate_def)
qed

text \<open>
  \<^bold>\<open>C40.\<close> Growing a well-formed array beyond its capacity, for all requests. Up to \<open>2^29\<close> elements the call fails with
  \<^verbatim>\<open>ENOMEM\<close> and changes nothing, or gives a well-formed array with the capacity asked for and the same elements. From there up to
  \<open>2^31\<close> the byte count \<^verbatim>\<open>newmax*sizeof(*a->v)\<close> wraps to 0: \<^verbatim>\<open>kmalloc\<close> is asked for 0
  bytes, and unless the block it gives for that happens to hold the elements asked for, the call does not
  succeed with a well-formed array: when it succeeds, it records a capacity beyond the block. Above
  \<open>2^31\<close> the call never returns.
\<close>

theorem array_preallocate_wraps:
  assumes ok: "arr_ok a" and km: "kmalloc_gives km" and grow: "arr_max a < num"
  shows "(unat num \<le> 2 ^ 29 \<longrightarrow>
      array_preallocate km a num = Err ENOMEM a \<or>
      (\<exists>a'. array_preallocate km a num = Ok () a' \<and> arr_ok a' \<and> num \<le> arr_max a' \<and> arr_list a' = arr_list a)) \<and>
    (2 ^ 29 < unat num \<and> unat num \<le> 2 ^ 31 \<longrightarrow>
      (km 0 = None \<longrightarrow> array_preallocate km a num = Err ENOMEM a) \<and>
      (\<forall>blk. km 0 = Some blk \<and> unat (arr_num a) \<le> length blk \<longrightarrow>
         (\<exists>a'. array_preallocate km a num = Ok () a' \<and> length (arr_v a') = length blk \<and> num \<le> arr_max a' \<and>
            (length blk < unat num \<longrightarrow> \<not> arr_ok a')))) \<and>
    (2 ^ 31 < unat num \<longrightarrow> array_preallocate km a num = Hang)"
proof (intro conjI impI)
  assume "unat num \<le> 2 ^ 29"
  then show "array_preallocate km a num = Err ENOMEM a \<or>
      (\<exists>a'. array_preallocate km a num = Ok () a' \<and> arr_ok a' \<and> num \<le> arr_max a' \<and> arr_list a' = arr_list a)"
    using array_preallocate_ok [OF ok km, of num] by (auto simp: arr_limit_def)
next
  assume "2 ^ 31 < unat num"
  moreover have "arr_capacity (arr_max a)" using ok by (simp add: arr_ok_def)
  ultimately show "array_preallocate km a num = Hang" using array_newmax_hangs grow by (simp add: array_preallocate_def)
next
  assume big: "2 ^ 29 < unat num \<and> unat num \<le> 2 ^ 31"
  then obtain n where n: "num \<le> n" "array_preallocate km a num =
    (case km 0 of
       None \<Rightarrow> Err ENOMEM a
     | Some blk \<Rightarrow> memcpy_slots blk (arr_v a) (arr_num a * 4) (\<lambda>v. Ok () (a\<lparr>arr_v := v, arr_max := n\<rparr>)))"
    using array_preallocate_zero [OF ok grow, of km] by (auto simp: arr_limit_def)
  show "array_preallocate km a num = Err ENOMEM a" if "km 0 = None" using n(2) that by simp
  show "\<forall>blk. km 0 = Some blk \<and> unat (arr_num a) \<le> length blk \<longrightarrow>
         (\<exists>a'. array_preallocate km a num = Ok () a' \<and> length (arr_v a') = length blk \<and> num \<le> arr_max a' \<and>
            (length blk < unat num \<longrightarrow> \<not> arr_ok a'))"
  proof (intro allI impI)
    fix blk assume blk: "km 0 = Some blk \<and> unat (arr_num a) \<le> length blk"
    let ?k = "unat (arr_num a * 4) div 4"
    have "unat (arr_num a * 4) \<le> unat (arr_num a) * 4" by (simp add: unat_word_ariths)
    then have "?k \<le> unat (arr_num a)" by (simp add: div_le_mono [of _ "unat (arr_num a) * 4" 4, simplified])
    then have k: "?k \<le> length blk" "?k \<le> length (arr_v a)" using blk ok by (auto simp: arr_ok_def u32_order)
    then have "array_preallocate km a num = Ok () (a\<lparr>arr_v := take ?k (arr_v a) @ drop ?k blk, arr_max := n\<rparr>)"
      using n(2) blk by (simp add: memcpy_slots_def Let_def)
    moreover have "length (take ?k (arr_v a) @ drop ?k blk) = length blk" using k by simp
    ultimately show "\<exists>a'. array_preallocate km a num = Ok () a' \<and> length (arr_v a') = length blk \<and> num \<le> arr_max a' \<and>
            (length blk < unat num \<longrightarrow> \<not> arr_ok a')"
      using n(1) by (auto simp: arr_ok_def u32_order)
  qed
qed

theorem array_preallocate_wraps_witness:
  "\<exists>a'. array_preallocate (\<lambda>sz. if sz = 0 then Some [0::nat, 0, 0, 0] else None) array_init (2 ^ 29 + 1) = Ok () a' \<and>
     length (arr_v a') = length [0::nat, 0, 0, 0] \<and> 2 ^ 29 + 1 \<le> arr_max a' \<and> \<not> arr_ok a'"
proof -
  let ?km = "\<lambda>sz :: u32. if sz = 0 then Some [0::nat, 0, 0, 0] else None"
  have km: "kmalloc_gives ?km" by (simp add: kmalloc_gives_def)
  have u: "unat (2 ^ 29 + 1 :: u32) = 2 ^ 29 + 1" by simp
  have "arr_max (array_init :: nat karray) < 2 ^ 29 + 1" by (simp add: array_init_def)
  from array_preallocate_wraps [OF array_init_ok(1) km this] show ?thesis unfolding u by (simp add: array_init_def)
qed

end
