(* ===== verification/Kbitmap.thy ===== *)
theory Kbitmap
  imports Prelude
begin

text \<open>
  The fixed-size bitmap of \<^verbatim>\<open>kern/lib/bitmap.c\<close>, from which SFS allocates its disk
  blocks. The storage is a list of bytes; bit \<open>i\<close> of the map is bit \<open>i mod 8\<close> of byte
  \<open>i div 8\<close>, and the bits beyond \<^verbatim>\<open>nbits\<close> in the last byte are kept set so that the
  allocator never hands them out.

  The theory shows that the byte-and-offset search of \<^verbatim>\<open>bitmap_alloc\<close> finds the least
  free index, fails exactly when the map is full and never trips its assertions, and that
  \<^verbatim>\<open>bitmap_mark\<close>, \<^verbatim>\<open>bitmap_unmark\<close> and \<^verbatim>\<open>bitmap_isset\<close> implement insertion, deletion
  and membership of a finite set of indices. The locale \<open>slot_allocator\<close> is the contract
  that SFS block allocation uses.
\<close>

subsection \<open>Model\<close>

record bitmap =
  bm_nbits :: u32
  bm_v :: "u8 list"

definition BITS_PER_WORD :: u32 where
  "BITS_PER_WORD = 8"

definition WORD_ALLBITS :: u8 where
  "WORD_ALLBITS = 0xff"

function bitmap_overbits :: "nat \<Rightarrow> u8 \<Rightarrow> u8" where
  "bitmap_overbits j w = (if j < 8 then bitmap_overbits (Suc j) (w OR push_bit j 1) else w)"
  by pat_completeness auto
termination by (relation "measure (\<lambda>(j, w). 8 - j)") auto

definition bitmap_create :: "bool \<Rightarrow> bool \<Rightarrow> u32 \<Rightarrow> (bitmap option, unit) res" where
  "bitmap_create ok1 ok2 nbits =
     (let words = DIVROUNDUP nbits BITS_PER_WORD in
      if \<not> ok1 then Ok None ()
      else if \<not> ok2 then Ok None ()
      else
        let v = replicate (unat words) 0 in
        if words > nbits div BITS_PER_WORD then
          let ix = words - 1; overbits = nbits - ix * BITS_PER_WORD in
          kassert (nbits div BITS_PER_WORD = words - 1)
            (kassert (overbits > 0 \<and> overbits < BITS_PER_WORD)
              (rd v (unat ix) (\<lambda>w. wr v (unat ix) (bitmap_overbits (unat overbits) w)
                 (\<lambda>v'. Ok (Some \<lparr>bm_nbits = nbits, bm_v = v'\<rparr>) ()))))
        else Ok (Some \<lparr>bm_nbits = nbits, bm_v = v\<rparr>) ())"

definition bitmap_getdata :: "bitmap \<Rightarrow> u8 list" where
  "bitmap_getdata b = bm_v b"

text \<open>The inner loop over the bits of one byte: the first clear bit.\<close>

function bitmap_scanbyte :: "u8 \<Rightarrow> nat \<Rightarrow> nat option" where
  "bitmap_scanbyte w offset =
     (if offset < 8 then
        (if w AND push_bit offset 1 = 0 then Some offset else bitmap_scanbyte w (Suc offset))
      else None)"
  by pat_completeness auto
termination by (relation "measure (\<lambda>(w, offset). 8 - offset)") auto

function bitmap_allocfrom :: "bitmap \<Rightarrow> nat \<Rightarrow> (u32, bitmap) res" where
  "bitmap_allocfrom b ix =
     (if ix < unat (DIVROUNDUP (bm_nbits b) BITS_PER_WORD) then
        rd (bm_v b) ix (\<lambda>w.
          if w \<noteq> WORD_ALLBITS then
            (case bitmap_scanbyte w 0 of
               None \<Rightarrow> Panic
             | Some offset \<Rightarrow>
                 (let index = word_of_nat (ix * 8 + offset) in
                  kassert (index < bm_nbits b)
                    (Ok index (b\<lparr>bm_v := (bm_v b)[ix := w OR push_bit offset 1]\<rparr>))))
          else bitmap_allocfrom b (Suc ix))
      else Err ENOSPC b)"
  by pat_completeness auto
termination
  by (relation "measure (\<lambda>(b, ix). unat (DIVROUNDUP (bm_nbits b) BITS_PER_WORD) - ix)") auto

definition bitmap_alloc :: "bitmap \<Rightarrow> (u32, bitmap) res" where
  "bitmap_alloc b = bitmap_allocfrom b 0"

definition bitmap_translate :: "u32 \<Rightarrow> nat \<times> u8" where
  "bitmap_translate bitno =
     (unat (bitno div BITS_PER_WORD), push_bit (unat (bitno mod BITS_PER_WORD)) 1)"

definition bitmap_mark :: "bitmap \<Rightarrow> u32 \<Rightarrow> (unit, bitmap) res" where
  "bitmap_mark b index =
     kassert (index < bm_nbits b)
       (case bitmap_translate index of (ix, msk) \<Rightarrow>
          rd (bm_v b) ix (\<lambda>w. kassert (w AND msk = 0)
            (Ok () (b\<lparr>bm_v := (bm_v b)[ix := w OR msk]\<rparr>))))"

definition bitmap_unmark :: "bitmap \<Rightarrow> u32 \<Rightarrow> (unit, bitmap) res" where
  "bitmap_unmark b index =
     kassert (index < bm_nbits b)
       (case bitmap_translate index of (ix, msk) \<Rightarrow>
          rd (bm_v b) ix (\<lambda>w. kassert (w AND msk \<noteq> 0)
            (Ok () (b\<lparr>bm_v := (bm_v b)[ix := w AND NOT msk]\<rparr>))))"

definition bitmap_isset :: "bitmap \<Rightarrow> u32 \<Rightarrow> (bool, bitmap) res" where
  "bitmap_isset b index =
     (case bitmap_translate index of (ix, msk) \<Rightarrow>
        rd (bm_v b) ix (\<lambda>w. Ok (w AND msk \<noteq> 0) b))"

definition bitmap_destroy :: "bitmap \<Rightarrow> unit" where
  "bitmap_destroy b = ()"

declare bitmap_overbits.simps [simp del] bitmap_scanbyte.simps [simp del]
  bitmap_allocfrom.simps [simp del]

subsection \<open>Specification\<close>

definition bm_bit :: "bitmap \<Rightarrow> nat \<Rightarrow> bool" where
  "bm_bit b i \<longleftrightarrow> bit (bm_v b ! (i div 8)) (i mod 8)"

definition bm_used :: "bitmap \<Rightarrow> nat set" where
  "bm_used b = {i. i < unat (bm_nbits b) \<and> bm_bit b i}"

definition bm_ok :: "bitmap \<Rightarrow> bool" where
  "bm_ok b \<longleftrightarrow> unat (bm_nbits b) + 8 \<le> 2 ^ 32 \<and>
     length (bm_v b) = (unat (bm_nbits b) + 7) div 8 \<and>
     (\<forall>i. unat (bm_nbits b) \<le> i \<and> i < 8 * length (bm_v b) \<longrightarrow> bm_bit b i)"

subsection \<open>Bits of a byte\<close>

lemma bit_exp_u8: "bit ((2 :: u8) ^ n) m \<longleftrightarrow> m = n \<and> n < 8"
  by (auto simp: bit_exp_iff)

lemma bit_set: "n < 8 \<Longrightarrow> bit (w OR (2 :: u8) ^ n) m \<longleftrightarrow> bit w m \<or> m = n"
  by (simp add: bit_or_iff bit_exp_u8)

lemma bit_clear: "n < 8 \<Longrightarrow> m < 8 \<Longrightarrow> bit (w AND NOT ((2 :: u8) ^ n)) m \<longleftrightarrow> bit w m \<and> m \<noteq> n"
  by (auto simp: bit_and_iff bit_not_iff bit_exp_u8)

lemma and_mask_eq_0: "n < 8 \<Longrightarrow> w AND (2 :: u8) ^ n = 0 \<longleftrightarrow> \<not> bit w n"
  using bit_eq_iff [of "w AND 2 ^ n" 0] by (auto simp: bit_and_iff bit_exp_u8)

lemma allbits_iff: "w = WORD_ALLBITS \<longleftrightarrow> (\<forall>n < 8. bit w n)"
proof -
  have "bit (WORD_ALLBITS) n \<longleftrightarrow> n < 8" for n
    using bit_mask_iff [of 8 n, where 'a = u8]
    by (simp add: WORD_ALLBITS_def mask_eq_exp_minus_1)
  then show ?thesis by (auto simp: bit_eq_iff dest: bit_imp_le_length)
qed

lemma bit_overbits: "m < 8 \<Longrightarrow> bit (bitmap_overbits j w) m \<longleftrightarrow> bit w m \<or> j \<le> m"
proof (induction j w rule: bitmap_overbits.induct)
  case (1 j w)
  then show ?case
    by (subst bitmap_overbits.simps) (auto simp: bit_set)
qed

lemma scanbyte_unfold:
  "bitmap_scanbyte w k =
     (if k < 8 then (if bit w k then bitmap_scanbyte w (Suc k) else Some k) else None)"
  by (subst bitmap_scanbyte.simps) (simp add: and_mask_eq_0)

lemma scanbyte_result:
  fixes w :: u8 and k :: nat
  shows "case bitmap_scanbyte w k of
     None \<Rightarrow> \<forall>m. k \<le> m \<and> m < 8 \<longrightarrow> bit w m
   | Some n \<Rightarrow> k \<le> n \<and> n < 8 \<and> \<not> bit w n \<and> (\<forall>m. k \<le> m \<and> m < n \<longrightarrow> bit w m)"
proof (induction w k rule: bitmap_scanbyte.induct)
  case (1 w k)
  show ?case
  proof (cases "k < 8 \<and> bit w k")
    case True
    have step: "bit w m" if "\<forall>m. Suc k \<le> m \<and> m < n \<longrightarrow> bit w m" "k \<le> m" "m < n" for m n :: nat
      using that True by (cases "m = k") auto
    from True "1.IH" show ?thesis
      by (subst scanbyte_unfold) (auto simp: and_mask_eq_0 split: option.splits intro: step)
  next
    case False
    then show ?thesis by (subst scanbyte_unfold) auto
  qed
qed

lemma scanbyte_first:
  "w \<noteq> WORD_ALLBITS \<Longrightarrow>
   \<exists>n < 8. bitmap_scanbyte w 0 = Some n \<and> \<not> bit w n \<and> (\<forall>m < n. bit w m)"
  using scanbyte_result [where k = 0 and w = w] by (auto simp: allbits_iff split: option.splits)

subsection \<open>The allocator\<close>

lemma bm_words:
  assumes "bm_ok b"
  shows "unat (DIVROUNDUP (bm_nbits b) BITS_PER_WORD) = length (bm_v b)"
proof -
  have "unat (bm_nbits b + 8 - 1) = unat (bm_nbits b) + 7"
    using assms by (simp add: bm_ok_def unat_word_ariths)
  then show ?thesis using assms
    by (simp add: DIVROUNDUP_def BITS_PER_WORD_def bm_ok_def unat_div)
qed

lemma bm_index_in: "bm_ok b \<Longrightarrow> i < unat (bm_nbits b) \<Longrightarrow> i div 8 < length (bm_v b)"
  by (auto simp: bm_ok_def)

lemma bm_tail: "bm_ok b \<Longrightarrow> i < 8 * length (bm_v b) \<Longrightarrow> unat (bm_nbits b) \<le> i \<Longrightarrow> bm_bit b i"
  by (simp add: bm_ok_def)

lemma divup_8: "m mod 8 \<noteq> 0 \<Longrightarrow> (m + 7) div 8 = Suc (m div 8)" for m :: nat
  using minus_mod_eq_mult_div [of m 8] mod_less_eq_dividend [of m 8]
  by (intro div_nat_eqI) auto

lemma byte_cases:
  fixes i n :: nat
  assumes "i < 8 * Suc (n div 8)"
  obtains "i div 8 = n div 8" "n \<le> i \<longleftrightarrow> n mod 8 \<le> i mod 8" | "i div 8 < n div 8" "i < n"
proof (cases "i div 8 = n div 8")
  case True
  then have "n \<le> i \<longleftrightarrow> n mod 8 \<le> i mod 8"
    using div_mult_mod_eq [of i 8] div_mult_mod_eq [of n 8] by linarith
  with True show ?thesis by (rule that(1))
next
  case False
  moreover have "i div 8 < Suc (n div 8)"
    using assms by (intro less_mult_imp_div_less) (simp add: mult.commute)
  ultimately have "i div 8 < n div 8" by simp
  moreover then have "i < n" using div_le_mono [of n i 8] by linarith
  ultimately show ?thesis by (rule that(2))
qed

lemma bm_bit_update:
  assumes "ix < length (bm_v b)"
  shows "bm_bit (b\<lparr>bm_v := (bm_v b)[ix := w]\<rparr>) i \<longleftrightarrow>
           (if i div 8 = ix then bit w (i mod 8) else bm_bit b i)"
  using assms by (simp add: bm_bit_def nth_list_update)

lemma bm_set_bit:
  assumes "ix < length (bm_v b)" "off < 8"
  shows "bm_bit (b\<lparr>bm_v := (bm_v b)[ix := bm_v b ! ix OR 2 ^ off]\<rparr>) i \<longleftrightarrow>
           bm_bit b i \<or> i = ix * 8 + off"
proof -
  have "i = ix * 8 + off \<longleftrightarrow> i div 8 = ix \<and> i mod 8 = off" using assms(2) by auto
  then show ?thesis
    using assms by (auto simp: bm_bit_update bit_set) (auto simp: bm_bit_def)
qed

lemma bm_clear_bit:
  assumes "ix < length (bm_v b)" "off < 8"
  shows "bm_bit (b\<lparr>bm_v := (bm_v b)[ix := bm_v b ! ix AND NOT (2 ^ off)]\<rparr>) i \<longleftrightarrow>
           bm_bit b i \<and> i \<noteq> ix * 8 + off"
proof -
  have "i = ix * 8 + off \<longleftrightarrow> i div 8 = ix \<and> i mod 8 = off" using assms(2) by auto
  then show ?thesis
    using assms by (auto simp: bm_bit_update bit_clear) (auto simp: bm_bit_def)
qed

lemma bm_ok_set:
  "bm_ok b \<Longrightarrow> ix < length (bm_v b) \<Longrightarrow> off < 8 \<Longrightarrow>
   bm_ok (b\<lparr>bm_v := (bm_v b)[ix := bm_v b ! ix OR 2 ^ off]\<rparr>)"
  unfolding bm_ok_def by (simp add: bm_set_bit)

lemma bm_ok_clear:
  "bm_ok b \<Longrightarrow> ix * 8 + off < unat (bm_nbits b) \<Longrightarrow> off < 8 \<Longrightarrow>
   bm_ok (b\<lparr>bm_v := (bm_v b)[ix := bm_v b ! ix AND NOT (2 ^ off)]\<rparr>)"
proof -
  assume a: "bm_ok b" "ix * 8 + off < unat (bm_nbits b)" "off < 8"
  then have "ix < length (bm_v b)" using bm_index_in [OF a(1,2)] by simp
  with a show ?thesis unfolding bm_ok_def by (auto simp: bm_clear_bit)
qed

lemma bm_byte_full:
  "bm_v b ! ix = WORD_ALLBITS \<Longrightarrow> i div 8 = ix \<Longrightarrow> bm_bit b i"
  by (simp add: bm_bit_def allbits_iff)

lemma bitmap_allocfrom_result:
  assumes ok: "bm_ok b" and prefix: "\<forall>i < 8 * ix. bm_bit b i" and "ix \<le> length (bm_v b)"
  shows "(bitmap_allocfrom b ix = Err ENOSPC b \<and> (\<forall>i < 8 * length (bm_v b). bm_bit b i)) \<or>
    (\<exists>i b'. bitmap_allocfrom b ix = Ok (word_of_nat i) b' \<and> i < unat (bm_nbits b) \<and>
       \<not> bm_bit b i \<and> (\<forall>j < i. bm_bit b j) \<and> bm_ok b' \<and> bm_nbits b' = bm_nbits b \<and>
       (\<forall>j. bm_bit b' j \<longleftrightarrow> bm_bit b j \<or> j = i))"
  using assms
proof (induction "length (bm_v b) - ix" arbitrary: ix)
  case 0
  then show ?case by (subst (1) bitmap_allocfrom.simps) (auto simp: bm_words)
next
  case (Suc k)
  then have ix: "ix < length (bm_v b)" by simp
  let ?w = "bm_v b ! ix"
  show ?case
  proof (cases "?w = WORD_ALLBITS")
    case True
    have "\<forall>i < 8 * Suc ix. bm_bit b i"
    proof (intro allI impI)
      fix i assume "i < 8 * Suc ix"
      then show "bm_bit b i"
        using Suc.prems(2) bm_byte_full [OF True, of i] by (cases "i < 8 * ix") auto
    qed
    moreover have "bitmap_allocfrom b ix = bitmap_allocfrom b (Suc ix)"
      by (subst bitmap_allocfrom.simps) (use True ix ok in \<open>simp add: bm_words\<close>)
    ultimately show ?thesis using Suc.hyps(1) [of "Suc ix"] Suc.hyps(2) ix ok by simp
  next
    case False
    then obtain n where n: "n < 8" "bitmap_scanbyte ?w 0 = Some n" "\<not> bit ?w n" "\<forall>m < n. bit ?w m"
      using scanbyte_first by blast
    let ?i = "ix * 8 + n" and ?b = "b\<lparr>bm_v := (bm_v b)[ix := ?w OR 2 ^ n]\<rparr>"
    have free: "\<not> bm_bit b ?i" using n by (simp add: bm_bit_def)
    have "?i < 8 * length (bm_v b)" using ix n(1) by simp
    then have lt: "?i < unat (bm_nbits b)"
      using bm_tail [OF ok, of ?i] free by linarith
    have u: "unat (word_of_nat ?i :: u32) = ?i"
      using lt unat_u32_less [of "bm_nbits b"] by (intro unat_of_nat_u32) linarith
    have "bitmap_allocfrom b ix = Ok (word_of_nat ?i) ?b"
      using n ix ok False u lt
      by (subst bitmap_allocfrom.simps) (simp add: bm_words Let_def u32_order)
    moreover have "\<forall>j < ?i. bm_bit b j"
    proof (intro allI impI)
      fix j assume "j < ?i"
      then have "j < 8 * ix \<or> (j div 8 = ix \<and> j mod 8 < n)"
        using n(1) div_nat_eqI [of 8 ix j] div_mult_mod_eq [of j 8]
        by (cases "j < 8 * ix") auto
      then show "bm_bit b j" using Suc.prems(2) n(4) by (auto simp: bm_bit_def)
    qed
    moreover have "bm_ok ?b" by (rule bm_ok_set [OF ok ix n(1)])
    ultimately show ?thesis
      using free lt bm_set_bit [OF ix n(1)] by (intro disjI2 exI [of _ ?i] exI [of _ ?b]) simp
  qed
qed

lemma bm_used_full: "bm_ok b \<Longrightarrow> \<forall>i < 8 * length (bm_v b). bm_bit b i \<Longrightarrow> bm_used b = {..<unat (bm_nbits b)}"
  by (auto simp: bm_used_def bm_ok_def)

lemma bm_used_bounded: "bm_used b \<subseteq> {..<unat (bm_nbits b)}"
  by (auto simp: bm_used_def)

lemma bitmap_alloc_ok:
  assumes "bm_ok b"
  shows "(bm_used b = {..<unat (bm_nbits b)} \<and> bitmap_alloc b = Err ENOSPC b) \<or>
    (\<exists>i b'. bitmap_alloc b = Ok i b' \<and> i < bm_nbits b \<and> unat i \<notin> bm_used b \<and>
       {..<unat i} \<subseteq> bm_used b \<and> bm_ok b' \<and> bm_nbits b' = bm_nbits b \<and>
       bm_used b' = insert (unat i) (bm_used b))"
proof -
  consider "bitmap_alloc b = Err ENOSPC b" "\<forall>i < 8 * length (bm_v b). bm_bit b i"
    | i b' where "bitmap_alloc b = Ok (word_of_nat i) b'" "i < unat (bm_nbits b)"
        "\<not> bm_bit b i" "\<forall>j < i. bm_bit b j" "bm_ok b'" "bm_nbits b' = bm_nbits b"
        "\<forall>j. bm_bit b' j \<longleftrightarrow> bm_bit b j \<or> j = i"
    using bitmap_allocfrom_result [OF assms, of 0] by (auto simp: bitmap_alloc_def)
  then show ?thesis
  proof cases
    case 1
    then show ?thesis using bm_used_full [OF assms] by simp
  next
    case (2 i b')
    have "unat (word_of_nat i :: u32) = i"
      using 2(2) unat_u32_less [of "bm_nbits b"] by (intro unat_of_nat_u32) linarith
    with 2 show ?thesis
      by (intro disjI2 exI [of _ "word_of_nat i"] exI [of _ b'])
        (auto simp: bm_used_def u32_order)
  qed
qed

subsection \<open>Marking, unmarking and testing\<close>

lemma bitmap_translate_nat:
  "bitmap_translate i = (unat i div 8, 2 ^ (unat i mod 8))"
  by (simp add: bitmap_translate_def BITS_PER_WORD_def unat_div unat_mod)

lemma bm_and_bit: "bm_v b ! (i div 8) AND 2 ^ (i mod 8) = 0 \<longleftrightarrow> \<not> bm_bit b i"
  by (simp add: bm_bit_def and_mask_eq_0)

lemma bitmap_mark_ok:
  assumes "bm_ok b" "i < bm_nbits b"
  shows "(unat i \<in> bm_used b \<and> bitmap_mark b i = Panic) \<or>
    (unat i \<notin> bm_used b \<and> (\<exists>b'. bitmap_mark b i = Ok () b' \<and> bm_ok b' \<and>
        bm_nbits b' = bm_nbits b \<and> bm_used b' = insert (unat i) (bm_used b)))"
proof -
  have ix: "unat i div 8 < length (bm_v b)" "unat i < unat (bm_nbits b)"
    using assms bm_index_in [of b "unat i"] by (simp_all add: u32_order)
  let ?b = "b\<lparr>bm_v := (bm_v b)[unat i div 8 := bm_v b ! (unat i div 8) OR 2 ^ (unat i mod 8)]\<rparr>"
  have i: "unat i div 8 * 8 + unat i mod 8 = unat i" by simp
  have "bm_ok ?b" using bm_ok_set [OF assms(1) ix(1), of "unat i mod 8"] by simp
  moreover have "bm_used ?b = insert (unat i) (bm_used b)"
    using bm_set_bit [OF ix(1), of "unat i mod 8"] i ix(2) by (auto simp: bm_used_def)
  moreover have "bitmap_mark b i = (if bm_bit b (unat i) then Panic else Ok () ?b)"
    using assms(2) ix bm_and_bit [of b "unat i"] by (simp add: bitmap_mark_def bitmap_translate_nat)
  moreover have "unat i \<in> bm_used b \<longleftrightarrow> bm_bit b (unat i)" using ix by (simp add: bm_used_def)
  ultimately show ?thesis by (cases "bm_bit b (unat i)") simp_all
qed

lemma bitmap_unmark_ok:
  assumes "bm_ok b" "i < bm_nbits b"
  shows "(unat i \<notin> bm_used b \<and> bitmap_unmark b i = Panic) \<or>
    (unat i \<in> bm_used b \<and> (\<exists>b'. bitmap_unmark b i = Ok () b' \<and> bm_ok b' \<and>
        bm_nbits b' = bm_nbits b \<and> bm_used b' = bm_used b - {unat i}))"
proof -
  have ix: "unat i div 8 < length (bm_v b)" "unat i < unat (bm_nbits b)"
    using assms bm_index_in [of b "unat i"] by (simp_all add: u32_order)
  let ?b = "b\<lparr>bm_v := (bm_v b)[unat i div 8 := bm_v b ! (unat i div 8) AND NOT (2 ^ (unat i mod 8))]\<rparr>"
  have i: "unat i div 8 * 8 + unat i mod 8 = unat i" by simp
  have "bm_ok ?b" using bm_ok_clear [OF assms(1), of "unat i div 8" "unat i mod 8"] ix i by simp
  moreover have "bm_used ?b = bm_used b - {unat i}"
    using bm_clear_bit [OF ix(1), of "unat i mod 8"] i by (auto simp: bm_used_def)
  moreover have "bitmap_unmark b i = (if bm_bit b (unat i) then Ok () ?b else Panic)"
    using assms(2) ix bm_and_bit [of b "unat i"] by (simp add: bitmap_unmark_def bitmap_translate_nat)
  moreover have "unat i \<in> bm_used b \<longleftrightarrow> bm_bit b (unat i)" using ix by (simp add: bm_used_def)
  ultimately show ?thesis by (cases "bm_bit b (unat i)") simp_all
qed

lemma bitmap_isset_ok:
  "bm_ok b \<Longrightarrow> i < bm_nbits b \<Longrightarrow> bitmap_isset b i = Ok (unat i \<in> bm_used b) b"
  using bm_index_in [of b "unat i"] bm_and_bit [of b "unat i"]
  by (simp add: bitmap_isset_def bitmap_translate_nat bm_used_def u32_order)

subsection \<open>Creation\<close>

lemma bitmap_create_ok:
  assumes "unat nbits + 8 \<le> 2 ^ 32"
  shows "\<exists>b. bitmap_create True True nbits = Ok (Some b) () \<and> bm_ok b \<and>
           bm_nbits b = nbits \<and> bm_used b = {}"
proof -
  let ?n = "unat nbits" and ?w = "DIVROUNDUP nbits BITS_PER_WORD"
  have w: "unat ?w = (?n + 7) div 8"
    using assms by (simp add: DIVROUNDUP_def BITS_PER_WORD_def unat_div unat_word_ariths)
  have q: "unat (nbits div BITS_PER_WORD) = ?n div 8" by (simp add: BITS_PER_WORD_def unat_div)
  show ?thesis
  proof (cases "?n mod 8 = 0")
    case True
    then have "\<not> ?w > nbits div BITS_PER_WORD" "8 * ((?n + 7) div 8) = ?n"
      using w q by (auto simp: u32_order)
    then show ?thesis using assms w
      by (auto simp: bitmap_create_def bm_ok_def bm_used_def bm_bit_def)
  next
    case False
    then have w': "unat ?w = Suc (?n div 8)" using w divup_8 by simp
    have gt: "?w > nbits div BITS_PER_WORD" using w' q by (simp add: u32_order)
    have ix: "unat (?w - 1) = ?n div 8" using w' by (simp add: unat_sub u32_le_iff)
    have m: "unat ((?w - 1) * BITS_PER_WORD) = ?n div 8 * 8"
      using ix assms by (subst unat_mult_small) (auto simp: BITS_PER_WORD_def)
    then have ob: "unat (nbits - (?w - 1) * BITS_PER_WORD) = ?n mod 8"
      by (subst unat_diff_small) (auto simp: u32_le_iff minus_div_mult_eq_mod)
    let ?b = "\<lparr>bm_nbits = nbits,
               bm_v = (replicate (unat ?w) 0)[?n div 8 := bitmap_overbits (?n mod 8) 0]\<rparr>"
    have a1: "nbits div BITS_PER_WORD = ?w - 1" using ix q by (simp add: u32_eq_iff)
    have a2: "nbits - (?w - 1) * BITS_PER_WORD > 0 \<and> nbits - (?w - 1) * BITS_PER_WORD < BITS_PER_WORD"
      using ob False by (simp add: u32_less_iff) (simp add: BITS_PER_WORD_def)
    have "bitmap_create True True nbits = Ok (Some ?b) ()"
      unfolding bitmap_create_def Let_def
      using gt a1 a2 by (simp only: if_True kassert_True ix ob not_True_eq_False if_False rd_def wr_def
          length_replicate w' lessI nth_replicate simp_thms)
    moreover have bit: "bm_bit ?b i \<longleftrightarrow> ?n \<le> i" if "i < 8 * Suc (?n div 8)" for i
      using that
    proof (cases rule: byte_cases)
      case 1
      then show ?thesis using w' by (simp add: bm_bit_def bit_overbits del: replicate_Suc)
    next
      case 2
      then show ?thesis using w' by (simp add: bm_bit_def del: replicate_Suc)
    qed
    moreover have "bm_ok ?b"
      using assms w w' bit unfolding bm_ok_def by simp
    moreover have "bm_used ?b = {}" unfolding bm_used_def using bit by auto
    ultimately show ?thesis by auto
  qed
qed

subsection \<open>The slot allocator interface\<close>

text \<open>
  The contract on which SFS builds block allocation: a finite set of slots below \<open>size\<close>;
  an allocation takes a free slot or reports that none is left.
\<close>

locale slot_allocator =
  fixes inv :: "'s \<Rightarrow> bool"
    and size :: "'s \<Rightarrow> u32"
    and used :: "'s \<Rightarrow> nat set"
    and alloc :: "'s \<Rightarrow> (u32, 's) res"
    and unmark :: "'s \<Rightarrow> u32 \<Rightarrow> (unit, 's) res"
    and isset :: "'s \<Rightarrow> u32 \<Rightarrow> (bool, 's) res"
  assumes used_bound: "used s \<subseteq> {..<unat (size s)}"
    and alloc_law: "inv s \<Longrightarrow>
          (used s = {..<unat (size s)} \<and> alloc s = Err ENOSPC s) \<or>
          (\<exists>i s'. alloc s = Ok i s' \<and> i < size s \<and> unat i \<notin> used s \<and> inv s' \<and>
             size s' = size s \<and> used s' = insert (unat i) (used s))"
    and unmark_law: "inv s \<Longrightarrow> i < size s \<Longrightarrow> unat i \<in> used s \<Longrightarrow>
          \<exists>s'. unmark s i = Ok () s' \<and> inv s' \<and> size s' = size s \<and> used s' = used s - {unat i}"
    and isset_law: "inv s \<Longrightarrow> i < size s \<Longrightarrow> isset s i = Ok (unat i \<in> used s) s"
begin

lemma alloc_result:
  assumes "inv s" "alloc s = Ok i s'"
  shows "i < size s \<and> unat i \<notin> used s \<and> inv s' \<and> size s' = size s \<and>
         used s' = insert (unat i) (used s)"
  using alloc_law [OF assms(1)] assms(2) by auto

lemma alloc_full_iff: "inv s \<Longrightarrow> alloc s = Err ENOSPC s \<longleftrightarrow> used s = {..<unat (size s)}"
  using alloc_law [of s] by (auto simp: u32_less_iff)

lemma alloc_free:
  assumes "inv s" "used s \<noteq> {..<unat (size s)}"
  obtains i s' where "alloc s = Ok i s'"
  using alloc_law [OF assms(1)] assms(2) by blast

lemma finite_used: "finite (used s)"
  using used_bound by (rule finite_subset) simp

lemma alloc_unmark:
  assumes "inv s" "alloc s = Ok i s'"
  shows "\<exists>s''. unmark s' i = Ok () s'' \<and> inv s'' \<and> size s'' = size s \<and> used s'' = used s"
proof -
  note r = alloc_result [OF assms]
  have "i < size s'" "inv s'" "unat i \<in> used s'" using r by auto
  from unmark_law [OF this(2,1,3)] show ?thesis using r by auto
qed

end

text \<open>A run of allocations, as the clients make them one after another.\<close>

fun alloc_n :: "('s \<Rightarrow> (u32, 's) res) \<Rightarrow> nat \<Rightarrow> 's \<Rightarrow> (u32 list, 's) res" where
  "alloc_n f 0 s = Ok [] s"
| "alloc_n f (Suc n) s = kbind (f s) (\<lambda>i s'. kbind (alloc_n f n s') (\<lambda>is s''. Ok (i # is) s''))"

context slot_allocator
begin

lemma alloc_n_result:
  assumes "inv s" "n + card (used s) \<le> unat (size s)"
  shows "\<exists>is s'. alloc_n alloc n s = Ok is s' \<and> length is = n \<and> distinct is \<and>
    unat ` set is \<inter> used s = {} \<and> inv s' \<and> size s' = size s \<and>
    used s' = unat ` set is \<union> used s"
  using assms
proof (induction n arbitrary: s)
  case 0
  then show ?case by simp
next
  case (Suc n)
  from Suc.prems have "used s \<noteq> {..<unat (size s)}" by (metis card_lessThan add_Suc le_add2 not_less_eq_eq)
  then obtain i s1 where a: "alloc s = Ok i s1" using alloc_free [OF Suc.prems(1)] by blast
  note r = alloc_result [OF Suc.prems(1) a]
  have "card (used s1) = Suc (card (used s))" using r finite_used by simp
  then obtain js s2 where js: "alloc_n alloc n s1 = Ok js s2" "length js = n" "distinct js"
      "unat ` set js \<inter> used s1 = {}" "inv s2" "size s2 = size s1" "used s2 = unat ` set js \<union> used s1"
    using Suc.IH [of s1] Suc.prems r by auto
  then show ?case using a r by auto
qed

end

interpretation kbm: slot_allocator bm_ok bm_nbits bm_used bitmap_alloc bitmap_unmark bitmap_isset
proof (unfold_locales, goal_cases)
  case (1 s)
  then show ?case by (rule bm_used_bounded)
next
  case (2 s)
  then show ?case using bitmap_alloc_ok [of s] by auto
next
  case (3 s i)
  then show ?case using bitmap_unmark_ok [of s i] by auto
next
  case (4 s i)
  then show ?case by (rule bitmap_isset_ok)
qed

text \<open>
  \<^bold>\<open>C5.\<close> On a well-formed bitmap \<^verbatim>\<open>bitmap_alloc\<close> marks and hands back the least free index, which
  is below \<^verbatim>\<open>nbits\<close>, or returns \<^verbatim>\<open>ENOSPC\<close> and changes nothing, exactly when every index is in
  use; neither of its assertions can fail and it never leaves the byte array.
\<close>

theorem bitmap_alloc_least:
  assumes "bm_ok b"
  shows "if bm_used b = {..<unat (bm_nbits b)} then bitmap_alloc b = Err ENOSPC b
         else \<exists>b'. bitmap_alloc b = Ok (word_of_nat (LEAST i. i \<notin> bm_used b)) b' \<and> bm_ok b' \<and>
                bm_nbits b' = bm_nbits b \<and> bm_used b' = insert (LEAST i. i \<notin> bm_used b) (bm_used b)"
proof (cases "bm_used b = {..<unat (bm_nbits b)}")
  case True
  then show ?thesis using kbm.alloc_full_iff [OF assms] by simp
next
  case False
  then obtain i b' where r: "bitmap_alloc b = Ok i b'" "unat i \<notin> bm_used b"
      "{..<unat i} \<subseteq> bm_used b" "bm_ok b'" "bm_nbits b' = bm_nbits b"
      "bm_used b' = insert (unat i) (bm_used b)"
    using bitmap_alloc_ok [OF assms] by auto
  have "(LEAST i. i \<notin> bm_used b) = unat i"
    using r(2,3) by (intro Least_equality) (auto simp: not_less [symmetric])
  with r False show ?thesis by auto
qed

theorem bitmap_alloc_least_witness:
  "\<exists>b b'. bitmap_create True True 11 = Ok (Some b) () \<and> bitmap_alloc b = Ok 0 b' \<and>
     bm_used b' = {0}"
proof -
  obtain b where b: "bitmap_create True True 11 = Ok (Some b) ()" "bm_ok b" "bm_nbits b = 11"
      "bm_used b = {}"
    using bitmap_create_ok [of 11] by auto
  have "{} \<noteq> {..<11::nat}" by (metis lessThan_iff emptyE zero_less_numeral)
  moreover have "(LEAST i. i \<notin> ({} :: nat set)) = 0" by (rule Least_equality) auto
  ultimately show ?thesis using bitmap_alloc_least [OF b(2)] b by auto
qed

text \<open>
  A bitmap created for \<open>n\<close> bits is empty, and the first \<open>k \<le> n\<close> allocations from it all
  succeed with pairwise distinct indices below \<open>n\<close>, each of which then reads as set; when
  \<open>k = n\<close> the next allocation reports \<^verbatim>\<open>ENOSPC\<close>, and unmarking one index makes it available
  again.
\<close>

theorem bitmap_create_alloc_all:
  assumes "unat n + 8 \<le> 2 ^ 32" "k \<le> unat n"
  shows "\<exists>b is b'. bitmap_create True True n = Ok (Some b) () \<and>
    alloc_n bitmap_alloc k b = Ok is b' \<and> length is = k \<and> distinct is \<and>
    (\<forall>i \<in> set is. i < n \<and> bitmap_isset b' i = Ok True b' \<and>
       (\<exists>b2 b3 j. bitmap_unmark b' i = Ok () b2 \<and> bitmap_alloc b2 = Ok j b3)) \<and>
    (k = unat n \<longrightarrow> bitmap_alloc b' = Err ENOSPC b')"
proof -
  obtain b where b: "bitmap_create True True n = Ok (Some b) ()" "bm_ok b" "bm_nbits b = n"
      "bm_used b = {}"
    using bitmap_create_ok [OF assms(1)] by blast
  then obtain "is" b' where r: "alloc_n bitmap_alloc k b = Ok is b'" "length is = k" "distinct is"
      "bm_ok b'" "bm_nbits b' = n" "bm_used b' = unat ` set is"
    using kbm.alloc_n_result [OF b(2), of k] assms(2) by auto
  have lt: "i < n" if "i \<in> set is" for i
    using that kbm.used_bound [of b'] r(5,6) by (auto simp: u32_less_iff)
  have again: "\<exists>b2 b3 j. bitmap_unmark b' i = Ok () b2 \<and> bitmap_alloc b2 = Ok j b3" if i: "i \<in> set is" for i
  proof -
    obtain b2 where b2: "bitmap_unmark b' i = Ok () b2" "bm_ok b2" "bm_nbits b2 = n"
        "bm_used b2 = unat ` set is - {unat i}"
      using kbm.unmark_law [of b' i] r lt [OF i] i by auto
    have "unat i < unat n" using lt [OF i] by (simp add: u32_less_iff)
    then have "bm_used b2 \<noteq> {..<unat (bm_nbits b2)}" using b2(3,4) by auto
    from kbm.alloc_free [OF b2(2) this] show ?thesis using b2(1) by metis
  qed
  have "inj_on unat (set is)" by (simp add: inj_on_def u32_eq_iff)
  then have "card (bm_used b') = k" using r by (simp add: card_image distinct_card)
  then have full: "k = unat n \<Longrightarrow> bitmap_alloc b' = Err ENOSPC b'"
    using kbm.alloc_full_iff [OF r(4)] kbm.used_bound [of b'] r(5)
    by (simp add: card_subset_eq)
  have set: "bitmap_isset b' i = Ok True b'" if "i \<in> set is" for i
    using kbm.isset_law [OF r(4), of i] lt [OF that] r(5,6) that by auto
  show ?thesis using b(1) r(1-3) lt again full set by auto
qed

theorem bitmap_create_alloc_all_witness:
  "\<exists>b is b'. bitmap_create True True 3 = Ok (Some b) () \<and> alloc_n bitmap_alloc 3 b = Ok is b' \<and>
     distinct is \<and> bitmap_alloc b' = Err ENOSPC b'"
  using bitmap_create_alloc_all [of 3 3] by auto

text \<open>
  \<^verbatim>\<open>bitmap_mark\<close> succeeds exactly for a free index in range and \<^verbatim>\<open>bitmap_unmark\<close> exactly for
  a used one (anything else fails the assertion), and marking followed by unmarking restores
  the set of used indices.
\<close>

theorem bitmap_mark_unmark:
  assumes "bm_ok b"
  shows "(i < bm_nbits b \<and> unat i \<notin> bm_used b \<longrightarrow>
      (\<exists>b1 b2. bitmap_mark b i = Ok () b1 \<and> bm_used b1 = insert (unat i) (bm_used b) \<and>
         bitmap_mark b1 i = Panic \<and> bitmap_unmark b1 i = Ok () b2 \<and> bm_ok b2 \<and>
         bm_used b2 = bm_used b \<and> bitmap_unmark b2 i = Panic)) \<and>
    (\<not> i < bm_nbits b \<longrightarrow> bitmap_mark b i = Panic \<and> bitmap_unmark b i = Panic)"
proof (intro conjI impI)
  assume i: "i < bm_nbits b \<and> unat i \<notin> bm_used b"
  then obtain b1 where b1: "bitmap_mark b i = Ok () b1" "bm_ok b1" "bm_nbits b1 = bm_nbits b"
      "bm_used b1 = insert (unat i) (bm_used b)"
    using bitmap_mark_ok [OF assms, of i] by auto
  then obtain b2 where b2: "bitmap_unmark b1 i = Ok () b2" "bm_ok b2" "bm_nbits b2 = bm_nbits b"
      "bm_used b2 = bm_used b"
    using bitmap_unmark_ok [OF b1(2), of i] i by auto
  have "bitmap_mark b1 i = Panic" "bitmap_unmark b2 i = Panic"
    using bitmap_mark_ok [OF b1(2), of i] bitmap_unmark_ok [OF b2(2), of i] b1 b2 i by auto
  with b1 b2 show "\<exists>b1 b2. bitmap_mark b i = Ok () b1 \<and> bm_used b1 = insert (unat i) (bm_used b) \<and>
         bitmap_mark b1 i = Panic \<and> bitmap_unmark b1 i = Ok () b2 \<and> bm_ok b2 \<and>
         bm_used b2 = bm_used b \<and> bitmap_unmark b2 i = Panic"
    by blast
qed (simp_all add: bitmap_mark_def bitmap_unmark_def)

theorem bitmap_mark_unmark_witness:
  "\<exists>b b1 b2. bitmap_create True True 9 = Ok (Some b) () \<and> bitmap_mark b 8 = Ok () b1 \<and>
     bitmap_unmark b1 8 = Ok () b2 \<and> bm_used b2 = {} \<and> bitmap_mark b 9 = Panic"
proof -
  obtain b where b: "bitmap_create True True 9 = Ok (Some b) ()" "bm_ok b" "bm_nbits b = 9"
      "bm_used b = {}"
    using bitmap_create_ok [of 9] by auto
  then show ?thesis
    using bitmap_mark_unmark [OF b(2), of 8] bitmap_mark_unmark [OF b(2), of 9] by auto
qed

end
