(* ===== verification/Threadlist.thy ===== *)
theory Threadlist
  imports Prelude
begin

text \<open>
  The doubly linked thread lists of \<^verbatim>\<open>kern/thread/threadlist.c\<close>, which carry the run
  queues, the wait channels and the zombie list. The nodes live in an explicit heap of
  pointers: a list has two bookend nodes and every thread embeds one node, so that a
  thread is on at most one list. Following a null pointer is a \<open>Fault\<close>.

  The abstraction \<open>tl_inv\<close> relates a heap to the sequence of threads of each list; every
  operation is shown to implement the list operation its name promises, to leave the
  other lists of the heap alone and to stay clear of null pointers. The locale
  \<open>thread_deque\<close> is the interface the scheduler and the wait channels use.
\<close>

subsection \<open>Model\<close>

datatype tnode = Head nat | Tail nat | TNode nat

record tlheap =
  tln_prev :: "tnode \<Rightarrow> tnode option"
  tln_next :: "tnode \<Rightarrow> tnode option"
  tln_self :: "tnode \<Rightarrow> nat option"
  tl_count :: "nat \<Rightarrow> u32"

definition set_prev :: "tnode \<Rightarrow> tnode option \<Rightarrow> tlheap \<Rightarrow> tlheap" where
  "set_prev n p h = h\<lparr>tln_prev := (tln_prev h)(n := p)\<rparr>"

definition set_next :: "tnode \<Rightarrow> tnode option \<Rightarrow> tlheap \<Rightarrow> tlheap" where
  "set_next n p h = h\<lparr>tln_next := (tln_next h)(n := p)\<rparr>"

definition set_self :: "tnode \<Rightarrow> nat option \<Rightarrow> tlheap \<Rightarrow> tlheap" where
  "set_self n t h = h\<lparr>tln_self := (tln_self h)(n := t)\<rparr>"

definition set_count :: "nat \<Rightarrow> u32 \<Rightarrow> tlheap \<Rightarrow> tlheap" where
  "set_count l c h = h\<lparr>tl_count := (tl_count h)(l := c)\<rparr>"

definition deref :: "tnode option \<Rightarrow> (tnode \<Rightarrow> ('a, 's) res) \<Rightarrow> ('a, 's) res" where
  "deref p k = (case p of None \<Rightarrow> Fault | Some n \<Rightarrow> k n)"

definition threadlistnode_init :: "tnode \<Rightarrow> nat option \<Rightarrow> tlheap \<Rightarrow> (unit, tlheap) res" where
  "threadlistnode_init tln t h =
     kassert (t \<noteq> None) (Ok () (set_self tln t (set_prev tln None (set_next tln None h))))"

definition threadlistnode_cleanup :: "tnode \<Rightarrow> tlheap \<Rightarrow> (unit, tlheap) res" where
  "threadlistnode_cleanup tln h =
     kassert (tln_next h tln = None) (kassert (tln_prev h tln = None)
       (kassert (tln_self h tln \<noteq> None) (Ok () h)))"

definition threadlist_init :: "nat \<Rightarrow> tlheap \<Rightarrow> tlheap" where
  "threadlist_init l h =
     (let h = set_next (Head l) (Some (Tail l)) h;
          h = set_prev (Head l) None h;
          h = set_next (Tail l) None h;
          h = set_prev (Tail l) (Some (Head l)) h;
          h = set_self (Head l) None h;
          h = set_self (Tail l) None h
      in set_count l 0 h)"

definition threadlist_isempty :: "nat \<Rightarrow> tlheap \<Rightarrow> bool" where
  "threadlist_isempty l h \<longleftrightarrow> tl_count h l = 0"

definition threadlist_cleanup :: "nat \<Rightarrow> tlheap \<Rightarrow> (unit, tlheap) res" where
  "threadlist_cleanup l h =
     kassert (threadlist_isempty l h) (kassert (tl_count h l = 0) (Ok () h))"

definition threadlist_insertafternode :: "tnode \<Rightarrow> nat \<Rightarrow> tlheap \<Rightarrow> (unit, tlheap) res" where
  "threadlist_insertafternode onlist t h =
     (let addee = TNode t;
          h = set_prev addee (Some onlist) h;
          h = set_next addee (tln_next h onlist) h
      in deref (tln_prev h addee) (\<lambda>p.
           let h = set_next p (Some addee) h in
           deref (tln_next h addee) (\<lambda>n. Ok () (set_prev n (Some addee) h))))"

definition threadlist_insertbeforenode :: "nat \<Rightarrow> tnode \<Rightarrow> tlheap \<Rightarrow> (unit, tlheap) res" where
  "threadlist_insertbeforenode t onlist h =
     (let addee = TNode t;
          h = set_prev addee (tln_prev h onlist) h;
          h = set_next addee (Some onlist) h
      in deref (tln_prev h addee) (\<lambda>p.
           let h = set_next p (Some addee) h in
           deref (tln_next h addee) (\<lambda>n. Ok () (set_prev n (Some addee) h))))"

definition threadlist_removenode :: "tnode \<Rightarrow> tlheap \<Rightarrow> (unit, tlheap) res" where
  "threadlist_removenode tln h =
     deref (tln_prev h tln) (\<lambda>p.
       let h = set_next p (tln_next h tln) h in
       deref (tln_next h tln) (\<lambda>n.
         let h = set_prev n (tln_prev h tln) h;
             h = set_prev tln None h
         in Ok () (set_next tln None h)))"

definition threadlist_addhead :: "nat \<Rightarrow> nat \<Rightarrow> tlheap \<Rightarrow> (unit, tlheap) res" where
  "threadlist_addhead l t h =
     kbind (threadlist_insertafternode (Head l) t h) (\<lambda>_ h. Ok () (set_count l (tl_count h l + 1) h))"

definition threadlist_addtail :: "nat \<Rightarrow> nat \<Rightarrow> tlheap \<Rightarrow> (unit, tlheap) res" where
  "threadlist_addtail l t h =
     kbind (threadlist_insertbeforenode t (Tail l) h) (\<lambda>_ h. Ok () (set_count l (tl_count h l + 1) h))"

definition threadlist_remhead :: "nat \<Rightarrow> tlheap \<Rightarrow> (nat option, tlheap) res" where
  "threadlist_remhead l h =
     deref (tln_next h (Head l)) (\<lambda>tln.
       if tln_next h tln = None then Ok None h
       else kbind (threadlist_removenode tln h)
              (\<lambda>_ h. let h = set_count l (tl_count h l - 1) h in Ok (tln_self h tln) h))"

definition threadlist_remtail :: "nat \<Rightarrow> tlheap \<Rightarrow> (nat option, tlheap) res" where
  "threadlist_remtail l h =
     deref (tln_prev h (Tail l)) (\<lambda>tln.
       if tln_prev h tln = None then Ok None h
       else kbind (threadlist_removenode tln h)
              (\<lambda>_ h. let h = set_count l (tl_count h l - 1) h in Ok (tln_self h tln) h))"

definition threadlist_insertafter :: "nat \<Rightarrow> nat \<Rightarrow> nat \<Rightarrow> tlheap \<Rightarrow> (unit, tlheap) res" where
  "threadlist_insertafter l onlist addee h =
     kbind (threadlist_insertafternode (TNode onlist) addee h)
       (\<lambda>_ h. Ok () (set_count l (tl_count h l + 1) h))"

definition threadlist_insertbefore :: "nat \<Rightarrow> nat \<Rightarrow> nat \<Rightarrow> tlheap \<Rightarrow> (unit, tlheap) res" where
  "threadlist_insertbefore l addee onlist h =
     kbind (threadlist_insertbeforenode addee (TNode onlist) h)
       (\<lambda>_ h. Ok () (set_count l (tl_count h l + 1) h))"

definition threadlist_remove :: "nat \<Rightarrow> nat \<Rightarrow> tlheap \<Rightarrow> (unit, tlheap) res" where
  "threadlist_remove l t h =
     kbind (threadlist_removenode (TNode t) h) (\<lambda>_ h. Ok () (set_count l (tl_count h l - 1) h))"

text \<open>
  The macro \<^verbatim>\<open>THREADLIST_FORALL\<close>: the threads met when following \<^verbatim>\<open>tln_next\<close> from the head
  until a node without a thread. \<open>fuel\<close> bounds the number of iterations; running out of it
  is \<open>Hang\<close>.
\<close>

fun threadlist_forall_from :: "nat \<Rightarrow> tnode option \<Rightarrow> tlheap \<Rightarrow> (nat list, tlheap) res" where
  "threadlist_forall_from 0 p h = Hang"
| "threadlist_forall_from (Suc fuel) p h =
     deref p (\<lambda>n.
       case tln_self h n of
         None \<Rightarrow> Ok [] h
       | Some t \<Rightarrow> kbind (threadlist_forall_from fuel (tln_next h (TNode t)) h)
                     (\<lambda>ts h. Ok (t # ts) h))"

definition threadlist_forall :: "nat \<Rightarrow> nat \<Rightarrow> tlheap \<Rightarrow> (nat list, tlheap) res" where
  "threadlist_forall fuel l h = threadlist_forall_from fuel (tln_next h (Head l)) h"

lemmas heap_upd = set_prev_def set_next_def set_self_def set_count_def deref_def

subsection \<open>Linked chains\<close>

fun linked :: "tlheap \<Rightarrow> tnode list \<Rightarrow> bool" where
  "linked h (x # y # zs) \<longleftrightarrow> tln_next h x = Some y \<and> tln_prev h y = Some x \<and> linked h (y # zs)"
| "linked h _ \<longleftrightarrow> True"

lemma linked_append:
  "linked h (xs @ ys) \<longleftrightarrow> linked h xs \<and> linked h ys \<and>
     (xs \<noteq> [] \<and> ys \<noteq> [] \<longrightarrow> tln_next h (last xs) = Some (hd ys) \<and> tln_prev h (hd ys) = Some (last xs))"
proof (induction h xs rule: linked.induct)
  case (1 h x y zs)
  then show ?case by (cases zs) auto
qed (cases ys; auto)+

lemma linked_cong:
  "(\<forall>x \<in> set (butlast xs). tln_next h' x = tln_next h x) \<Longrightarrow>
   (\<forall>x \<in> set (tl xs). tln_prev h' x = tln_prev h x) \<Longrightarrow> linked h' xs = linked h xs"
  by (induction h xs rule: linked.induct) auto

lemma in_set_tlD: "x \<in> set (tl xs) \<Longrightarrow> x \<in> set xs"
  by (cases xs) auto

lemma linked_frame:
  "(\<forall>x \<in> set xs. tln_next h' x = tln_next h x \<and> tln_prev h' x = tln_prev h x) \<Longrightarrow>
   linked h' xs = linked h xs"
  by (rule linked_cong) (auto dest: in_set_butlastD in_set_tlD)

lemma last_notin_butlast: "distinct xs \<Longrightarrow> xs \<noteq> [] \<Longrightarrow> last xs \<notin> set (butlast xs)"
  by (induction xs) auto

lemma hd_notin_tl: "distinct xs \<Longrightarrow> xs \<noteq> [] \<Longrightarrow> hd xs \<notin> set (tl xs)"
  by (cases xs) auto


text \<open>Splicing a node in between two neighbours, and taking one out.\<close>

definition splice :: "tnode \<Rightarrow> tnode \<Rightarrow> tnode \<Rightarrow> tlheap \<Rightarrow> tlheap" where
  "splice p a n h = h\<lparr>tln_next := (tln_next h)(a := Some n, p := Some a),
                      tln_prev := (tln_prev h)(a := Some p, n := Some a)\<rparr>"

definition unlink :: "tnode \<Rightarrow> tnode \<Rightarrow> tnode \<Rightarrow> tlheap \<Rightarrow> tlheap" where
  "unlink p a n h = h\<lparr>tln_next := (tln_next h)(p := Some n, a := None),
                      tln_prev := (tln_prev h)(n := Some p, a := None)\<rparr>"

lemma linked_splice:
  assumes "linked h (xs @ ys)" "xs \<noteq> []" "ys \<noteq> []" "distinct (xs @ ys)" "a \<notin> set (xs @ ys)"
  shows "linked (splice (last xs) a (hd ys) h) (xs @ a # ys)"
proof -
  let ?h = "splice (last xs) a (hd ys) h"
  have last_ys: "last xs \<notin> set ys"
    using last_in_set [OF assms(2)] assms(4) unfolding distinct_append by blast
  have "linked ?h xs = linked h xs"
    using assms last_notin_butlast [of xs]
    by (intro linked_cong) (auto simp: splice_def dest: in_set_butlastD in_set_tlD)
  moreover have "linked ?h ys = linked h ys"
    using assms hd_notin_tl [of ys] last_ys
    by (intro linked_cong) (auto simp: splice_def dest: in_set_butlastD in_set_tlD)
  moreover have "linked ?h (a # ys) \<longleftrightarrow> linked ?h ys"
    using assms(2,3,5) by (cases ys) (auto simp: splice_def)
  moreover have "last xs \<noteq> hd ys" using last_ys hd_in_set [OF assms(3)] by metis
  moreover have "last xs \<noteq> a" "hd ys \<noteq> a"
    using assms last_in_set [of xs] hd_in_set [of ys] by auto
  ultimately show ?thesis using assms(1-3) by (auto simp: linked_append splice_def)
qed

lemma linked_unlink:
  assumes "linked h (xs @ a # ys)" "xs \<noteq> []" "ys \<noteq> []" "distinct (xs @ a # ys)"
  shows "linked (unlink (last xs) a (hd ys) h) (xs @ ys)"
proof -
  let ?h = "unlink (last xs) a (hd ys) h"
  have last_ys: "last xs \<notin> set ys"
    using last_in_set [OF assms(2)] assms(4) unfolding distinct_append set_simps by blast
  have "linked ?h xs = linked h xs"
    using assms last_notin_butlast [of xs]
    by (intro linked_cong) (auto simp: unlink_def dest: in_set_butlastD in_set_tlD)
  moreover have "linked ?h ys = linked h ys"
    using assms hd_notin_tl [of ys] last_ys
    by (intro linked_cong) (auto simp: unlink_def dest: in_set_butlastD in_set_tlD)
  moreover have "last xs \<noteq> hd ys" using last_ys hd_in_set [OF assms(3)] by metis
  moreover have "last xs \<noteq> a" "hd ys \<noteq> a"
    using assms last_in_set [of xs] hd_in_set [of ys] by auto
  moreover have "linked h (a # ys) \<longrightarrow> linked h ys" by (cases ys) auto
  ultimately show ?thesis using assms(1-3) by (auto simp: linked_append unlink_def)
qed

lemma insertafternode_splice:
  "tln_next h p = Some n \<Longrightarrow> TNode t \<noteq> p \<Longrightarrow> TNode t \<noteq> n \<Longrightarrow>
   threadlist_insertafternode p t h = Ok () (splice p (TNode t) n h)"
  by (simp add: threadlist_insertafternode_def heap_upd splice_def Let_def)

lemma insertbeforenode_splice:
  "tln_prev h n = Some p \<Longrightarrow> TNode t \<noteq> p \<Longrightarrow> TNode t \<noteq> n \<Longrightarrow>
   threadlist_insertbeforenode t n h = Ok () (splice p (TNode t) n h)"
  by (simp add: threadlist_insertbeforenode_def heap_upd splice_def Let_def)

lemma removenode_unlink:
  "tln_next h a = Some n \<Longrightarrow> tln_prev h a = Some p \<Longrightarrow> a \<noteq> p \<Longrightarrow> a \<noteq> n \<Longrightarrow>
   threadlist_removenode a h = Ok () (unlink p a n h)"
  by (simp add: threadlist_removenode_def heap_upd unlink_def Let_def)

subsection \<open>Sequences of threads\<close>

definition chain :: "nat \<Rightarrow> nat list \<Rightarrow> tnode list" where
  "chain l ts = Head l # map TNode ts @ [Tail l]"

definition tl_seq :: "tlheap \<Rightarrow> nat \<Rightarrow> nat list \<Rightarrow> bool" where
  "tl_seq h l ts \<longleftrightarrow> linked h (chain l ts) \<and> distinct ts \<and>
     tln_prev h (Head l) = None \<and> tln_next h (Tail l) = None \<and>
     tln_self h (Head l) = None \<and> tln_self h (Tail l) = None \<and>
     length ts < 2 ^ 32 \<and> unat (tl_count h l) = length ts"

definition on_lists :: "nat set \<Rightarrow> (nat \<Rightarrow> nat list) \<Rightarrow> nat set" where
  "on_lists S L = (\<Union>l \<in> S. set (L l))"

definition tl_inv :: "nat set \<Rightarrow> (nat \<Rightarrow> nat list) \<Rightarrow> tlheap \<Rightarrow> bool" where
  "tl_inv S L h \<longleftrightarrow> (\<forall>l \<in> S. tl_seq h l (L l)) \<and>
     (\<forall>l \<in> S. \<forall>m \<in> S. l \<noteq> m \<longrightarrow> set (L l) \<inter> set (L m) = {}) \<and>
     (\<forall>t. tln_self h (TNode t) = Some t) \<and>
     (\<forall>t. t \<notin> on_lists S L \<longrightarrow> tln_prev h (TNode t) = None \<and> tln_next h (TNode t) = None)"

lemma set_chain: "set (chain l ts) = insert (Head l) (insert (Tail l) (TNode ` set ts))"
  by (auto simp: chain_def)

lemma distinct_chain: "distinct (chain l ts) = distinct ts"
  by (auto simp: chain_def distinct_map inj_on_def)

lemma linked_count: "linked (set_count l c h) xs = linked h xs"
  by (rule linked_frame) (simp add: set_count_def)


lemma tl_seq_frame:
  assumes "\<And>x. x \<in> set (chain l ts) \<Longrightarrow>
      tln_next h' x = tln_next h x \<and> tln_prev h' x = tln_prev h x \<and> tln_self h' x = tln_self h x"
    and "tl_count h' l = tl_count h l"
  shows "tl_seq h' l ts = tl_seq h l ts"
  using assms linked_frame [of "chain l ts" h' h] by (simp add: tl_seq_def set_chain)

lemma chain_split: "chain l (as @ bs) = (Head l # map TNode as) @ (map TNode bs @ [Tail l])"
  by (simp add: chain_def)

lemma last_front: "last (Head l # map TNode as) = (if as = [] then Head l else TNode (last as))"
  by (simp add: last_map)

lemma hd_back: "hd (map TNode bs @ [Tail l]) = (if bs = [] then Tail l else TNode (hd bs))"
  by (cases bs) auto

text \<open>The two ways in which an operation changes one list of the heap.\<close>

definition tl_insert :: "nat \<Rightarrow> nat list \<Rightarrow> nat \<Rightarrow> nat list \<Rightarrow> tlheap \<Rightarrow> tlheap" where
  "tl_insert l as t bs h =
     set_count l (tl_count h l + 1)
       (splice (if as = [] then Head l else TNode (last as)) (TNode t)
               (if bs = [] then Tail l else TNode (hd bs)) h)"

definition tl_delete :: "nat \<Rightarrow> nat list \<Rightarrow> nat \<Rightarrow> nat list \<Rightarrow> tlheap \<Rightarrow> tlheap" where
  "tl_delete l as t bs h =
     set_count l (tl_count h l - 1)
       (unlink (if as = [] then Head l else TNode (last as)) (TNode t)
               (if bs = [] then Tail l else TNode (hd bs)) h)"

lemma tl_seq_insert:
  assumes "tl_seq h l (as @ bs)" "t \<notin> set (as @ bs)" "length (as @ bs) < 2 ^ 32 - 1"
  shows "tl_seq (tl_insert l as t bs h) l (as @ t # bs)"
proof -
  let ?xs = "Head l # map TNode as" and ?ys = "map TNode bs @ [Tail l]"
  have d: "distinct (?xs @ ?ys)" "TNode t \<notin> set (?xs @ ?ys)" "linked h (?xs @ ?ys)"
    using assms distinct_chain [of l "as @ bs"] by (auto simp: tl_seq_def chain_split)
  have "linked (splice (last ?xs) (TNode t) (hd ?ys) h) (?xs @ TNode t # ?ys)"
    by (rule linked_splice [OF d(3) _ _ d(1,2)]) auto
  then have "linked (tl_insert l as t bs h) (chain l (as @ t # bs))"
    unfolding tl_insert_def last_front hd_back by (simp add: linked_count chain_def)
  moreover have "unat (tl_count h l + 1) = Suc (length (as @ bs))"
    using assms by (simp add: tl_seq_def unat_word_ariths)
  ultimately show ?thesis
    using assms by (auto simp: tl_seq_def tl_insert_def splice_def set_count_def)
qed

lemma tl_seq_delete:
  assumes "tl_seq h l (as @ t # bs)"
  shows "tl_seq (tl_delete l as t bs h) l (as @ bs)"
proof -
  let ?xs = "Head l # map TNode as" and ?ys = "map TNode bs @ [Tail l]"
  have d: "distinct (?xs @ TNode t # ?ys)" "linked h (?xs @ TNode t # ?ys)"
    using assms distinct_chain [of l "as @ t # bs"] by (auto simp: tl_seq_def chain_def)
  have "linked (unlink (last ?xs) (TNode t) (hd ?ys) h) (?xs @ ?ys)"
    by (rule linked_unlink [OF d(2) _ _ d(1)]) auto
  then have "linked (tl_delete l as t bs h) (chain l (as @ bs))"
    unfolding tl_delete_def last_front hd_back by (simp add: linked_count chain_def)
  moreover have "unat (tl_count h l - 1) = length (as @ bs)"
    using assms by (subst unat_diff_small) (auto simp: tl_seq_def u32_le_iff)
  ultimately show ?thesis
    using assms by (auto simp: tl_seq_def tl_delete_def unlink_def set_count_def)
qed

lemma tl_inv_other:
  assumes inv: "tl_inv S L h" and m: "m \<in> S" "l \<in> S" "m \<noteq> l" and t: "t \<notin> set (L m)"
    and h': "h' = tl_insert l as t bs h \<or> h' = tl_delete l as t bs h"
    and sub: "set (as @ bs) \<subseteq> set (L l)"
  shows "tl_seq h' m (L m)"
proof -
  have disj: "set (L m) \<inter> set (L l) = {}" using inv m by (auto simp: tl_inv_def)
  have "last as \<in> set (L l)" if "as \<noteq> []" using that sub by auto
  moreover have "hd bs \<in> set (L l)" if "bs \<noteq> []" using that sub by auto
  ultimately have "tl_seq h' m (L m) = tl_seq h m (L m)"
    using h' m t disj
    by (intro tl_seq_frame)
      (auto simp: tl_insert_def tl_delete_def splice_def unlink_def set_count_def set_chain split: if_splits)
  then show ?thesis using inv m by (simp add: tl_inv_def)
qed

lemma tl_change_node:
  assumes "h' = tl_insert l as t bs h \<or> h' = tl_delete l as t bs h" "u \<notin> set (as @ t # bs)"
  shows "tln_prev h' (TNode u) = tln_prev h (TNode u) \<and> tln_next h' (TNode u) = tln_next h (TNode u)"
proof -
  have "as \<noteq> [] \<longrightarrow> last as \<noteq> u" "bs \<noteq> [] \<longrightarrow> hd bs \<noteq> u" "t \<noteq> u"
    using assms(2) by auto
  then show ?thesis
    using assms(1) by (auto simp: tl_insert_def tl_delete_def splice_def unlink_def set_count_def)
qed

lemma tl_inv_seq: "tl_inv S L h \<Longrightarrow> l \<in> S \<Longrightarrow> tl_seq h l (L l)"
  by (simp add: tl_inv_def)

lemma on_lists_updD:
  assumes "u \<notin> on_lists S (L(l := ts))" "l \<in> S"
  shows "u \<notin> set ts" "u \<notin> set (L l) \<Longrightarrow> u \<notin> on_lists S L"
proof -
  have a: "u \<notin> set ((L(l := ts)) m)" if "m \<in> S" for m
    using assms(1) that unfolding on_lists_def by blast
  show "u \<notin> set ts" using a [OF assms(2)] by simp
  assume "u \<notin> set (L l)"
  then have "u \<notin> set (L m)" if "m \<in> S" for m using a [OF that] by (cases "m = l") simp_all
  then show "u \<notin> on_lists S L" unfolding on_lists_def by blast
qed

lemma tl_invI:
  assumes "tl_inv S L h" "l \<in> S" "tl_seq h' l ts"
    and "\<And>m. m \<in> S \<Longrightarrow> m \<noteq> l \<Longrightarrow> tl_seq h' m (L m) \<and> set ts \<inter> set (L m) = {}"
    and "tln_self h' = tln_self h"
    and "\<And>u. u \<notin> on_lists S (L(l := ts)) \<Longrightarrow> tln_prev h' (TNode u) = None \<and> tln_next h' (TNode u) = None"
  shows "tl_inv S (L(l := ts)) h'"
  unfolding tl_inv_def
proof (intro conjI ballI allI impI)
  fix m assume "m \<in> S"
  then show "tl_seq h' m ((L(l := ts)) m)" using assms(3,4) by simp
next
  fix m k assume mk: "m \<in> S" "k \<in> S" "m \<noteq> k"
  then have "set (L m) \<inter> set (L k) = {}" using assms(1) by (simp add: tl_inv_def)
  then show "set ((L(l := ts)) m) \<inter> set ((L(l := ts)) k) = {}"
    using mk assms(4) [of m] assms(4) [of k] by (cases "m = l"; cases "k = l") auto
next
  fix t show "tln_self h' (TNode t) = Some t" using assms(1,5) by (simp add: tl_inv_def)
qed (use assms(6) in auto)

lemma tl_inv_insert:
  assumes inv: "tl_inv S L h" and l: "l \<in> S" "L l = as @ bs" and t: "t \<notin> on_lists S L"
    and len: "length (L l) < 2 ^ 32 - 1"
  shows "tl_inv S (L(l := as @ t # bs)) (tl_insert l as t bs h)"
proof (rule tl_invI [OF inv l(1)])
  have tm: "t \<notin> set (L m)" if "m \<in> S" for m using t that by (auto simp: on_lists_def)
  show "tl_seq (tl_insert l as t bs h) l (as @ t # bs)"
    using tl_inv_seq [OF inv l(1)] l(2) len tm [OF l(1)] by (intro tl_seq_insert) simp_all
  show "tln_self (tl_insert l as t bs h) = tln_self h"
    by (simp add: tl_insert_def splice_def set_count_def)
  fix m assume m: "m \<in> S" "m \<noteq> l"
  then have "set (L l) \<inter> set (L m) = {}" using inv l(1) by (simp add: tl_inv_def)
  then have "set (as @ t # bs) \<inter> set (L m) = {}" using l(2) tm [OF m(1)] by auto
  moreover have "tl_seq (tl_insert l as t bs h) m (L m)"
    by (rule tl_inv_other [OF inv m(1) l(1) m(2) tm [OF m(1)], where as = as and bs = bs])
      (simp_all add: l(2))
  ultimately show "tl_seq (tl_insert l as t bs h) m (L m) \<and> set (as @ t # bs) \<inter> set (L m) = {}"
    by blast
next
  fix u assume "u \<notin> on_lists S (L(l := as @ t # bs))"
  then have "u \<notin> on_lists S L" "u \<notin> set (as @ t # bs)"
    using on_lists_updD [OF _ l(1), of u L "as @ t # bs"] l(2) by simp_all
  then show "tln_prev (tl_insert l as t bs h) (TNode u) = None \<and>
             tln_next (tl_insert l as t bs h) (TNode u) = None"
    using inv tl_change_node [of "tl_insert l as t bs h" l as t bs h u] by (simp add: tl_inv_def)
qed

lemma tl_inv_delete:
  assumes inv: "tl_inv S L h" and l: "l \<in> S" "L l = as @ t # bs"
  shows "tl_inv S (L(l := as @ bs)) (tl_delete l as t bs h)"
proof (rule tl_invI [OF inv l(1)])
  show "tl_seq (tl_delete l as t bs h) l (as @ bs)"
    using tl_inv_seq [OF inv l(1)] l(2) by (intro tl_seq_delete) simp
  show "tln_self (tl_delete l as t bs h) = tln_self h"
    by (simp add: tl_delete_def unlink_def set_count_def)
  fix m assume m: "m \<in> S" "m \<noteq> l"
  then have dis: "set (L l) \<inter> set (L m) = {}" using inv l(1) by (simp add: tl_inv_def)
  then have "t \<notin> set (L m)" using l(2) by auto
  then have "tl_seq (tl_delete l as t bs h) m (L m)"
    by (rule tl_inv_other [OF inv m(1) l(1) m(2), where as = as and bs = bs])
      (simp, simp only: l(2), auto)
  moreover have "set (as @ bs) \<inter> set (L m) = {}" using dis l(2) by auto
  ultimately show "tl_seq (tl_delete l as t bs h) m (L m) \<and> set (as @ bs) \<inter> set (L m) = {}"
    by blast
next
  fix u assume u: "u \<notin> on_lists S (L(l := as @ bs))"
  show "tln_prev (tl_delete l as t bs h) (TNode u) = None \<and>
        tln_next (tl_delete l as t bs h) (TNode u) = None"
  proof (cases "u = t")
    case True
    then show ?thesis by (simp add: tl_delete_def unlink_def set_count_def)
  next
    case False
    then have "u \<notin> on_lists S L" "u \<notin> set (as @ t # bs)"
      using on_lists_updD [OF u l(1)] l(2) by simp_all
    then show ?thesis
      using inv tl_change_node [of "tl_delete l as t bs h" l as t bs h u] by (simp add: tl_inv_def)
  qed
qed


subsection \<open>The operations on the sequences\<close>

lemma tl_seq_edges:
  assumes "tl_seq h l (as @ bs)"
  shows "tln_next h (if as = [] then Head l else TNode (last as)) =
           Some (if bs = [] then Tail l else TNode (hd bs))"
    and "tln_prev h (if bs = [] then Tail l else TNode (hd bs)) =
           Some (if as = [] then Head l else TNode (last as))"
proof -
  let ?xs = "Head l # map TNode as" and ?ys = "map TNode bs @ [Tail l]"
  have "linked h (?xs @ ?ys)" using assms by (simp only: tl_seq_def chain_split)
  then have "tln_next h (last ?xs) = Some (hd ?ys) \<and> tln_prev h (hd ?ys) = Some (last ?xs)"
    unfolding linked_append by simp
  then show "tln_next h (if as = [] then Head l else TNode (last as)) =
           Some (if bs = [] then Tail l else TNode (hd bs))"
    and "tln_prev h (if bs = [] then Tail l else TNode (hd bs)) =
           Some (if as = [] then Head l else TNode (last as))"
    unfolding last_front hd_back by simp_all
qed

lemma tl_seq_around:
  assumes "tl_seq h l (as @ t # bs)"
  shows "tln_next h (TNode t) = Some (if bs = [] then Tail l else TNode (hd bs))"
    and "tln_prev h (TNode t) = Some (if as = [] then Head l else TNode (last as))"
  using tl_seq_edges(1) [of h l "as @ [t]" bs] tl_seq_edges(2) [of h l as "t # bs"] assms by auto

lemma removenode_delete:
  assumes "tl_seq h l (as @ t # bs)"
  shows "kbind (threadlist_removenode (TNode t) h) (\<lambda>_ h. k (set_count l (tl_count h l - 1) h)) =
    k (tl_delete l as t bs h)"
proof -
  have "distinct (as @ t # bs)" using assms by (simp add: tl_seq_def)
  then have "TNode t \<noteq> (if as = [] then Head l else TNode (last as))"
    "TNode t \<noteq> (if bs = [] then Tail l else TNode (hd bs))" by auto
  from removenode_unlink [OF tl_seq_around [OF assms] this]
  show ?thesis by (simp add: tl_delete_def) (simp add: unlink_def)
qed

lemma splice_count: "tl_count (splice p a n h) = tl_count h"
  by (simp add: splice_def)

lemma threadlist_addhead_ok:
  assumes "tl_inv S L h" "l \<in> S" "t \<notin> on_lists S L" "length (L l) < 2 ^ 32 - 1"
  shows "\<exists>h'. threadlist_addhead l t h = Ok () h' \<and> tl_inv S (L(l := t # L l)) h'"
proof -
  have e: "tln_next h (Head l) = Some (if L l = [] then Tail l else TNode (hd (L l)))"
    using tl_seq_edges(1) [of h l "[]" "L l"] tl_inv_seq [OF assms(1,2)] by simp
  have "L l \<noteq> [] \<longrightarrow> t \<noteq> hd (L l)" using assms(2,3) by (force simp: on_lists_def)
  then have "threadlist_addhead l t h = Ok () (tl_insert l [] t (L l) h)"
    using insertafternode_splice [OF e, of t] by (simp add: threadlist_addhead_def tl_insert_def splice_count)
  then show ?thesis using tl_inv_insert [OF assms(1,2) _ assms(3,4), of "[]" "L l"] by simp
qed

lemma threadlist_addtail_ok:
  assumes "tl_inv S L h" "l \<in> S" "t \<notin> on_lists S L" "length (L l) < 2 ^ 32 - 1"
  shows "\<exists>h'. threadlist_addtail l t h = Ok () h' \<and> tl_inv S (L(l := L l @ [t])) h'"
proof -
  have e: "tln_prev h (Tail l) = Some (if L l = [] then Head l else TNode (last (L l)))"
    using tl_seq_edges(2) [of h l "L l" "[]"] tl_inv_seq [OF assms(1,2)] by simp
  have "L l \<noteq> [] \<longrightarrow> t \<noteq> last (L l)" using assms(2,3) by (force simp: on_lists_def)
  then have "threadlist_addtail l t h = Ok () (tl_insert l (L l) t [] h)"
    using insertbeforenode_splice [OF e, of t] by (simp add: threadlist_addtail_def tl_insert_def splice_count)
  then show ?thesis using tl_inv_insert [OF assms(1,2) _ assms(3,4), of "L l" "[]"] by simp
qed

lemma threadlist_insertafter_ok:
  assumes "tl_inv S L h" "l \<in> S" "t \<notin> on_lists S L" "length (L l) < 2 ^ 32 - 1" "L l = as @ p # bs"
  shows "\<exists>h'. threadlist_insertafter l p t h = Ok () h' \<and> tl_inv S (L(l := as @ p # t # bs)) h'"
proof -
  have e: "tln_next h (TNode p) = Some (if bs = [] then Tail l else TNode (hd bs))"
    using tl_seq_around(1) [of h l as p bs] tl_inv_seq [OF assms(1,2)] assms(5) by simp
  have "t \<notin> set (L l)" using assms(2,3) by (auto simp: on_lists_def)
  then have "t \<noteq> p" "bs \<noteq> [] \<longrightarrow> t \<noteq> hd bs" using assms(5) by auto
  then have "threadlist_insertafter l p t h = Ok () (tl_insert l (as @ [p]) t bs h)"
    using insertafternode_splice [OF e, of t] by (simp add: threadlist_insertafter_def tl_insert_def splice_count)
  then show ?thesis using tl_inv_insert [OF assms(1,2) _ assms(3,4), of "as @ [p]" bs] assms(5) by simp
qed

lemma threadlist_insertbefore_ok:
  assumes "tl_inv S L h" "l \<in> S" "t \<notin> on_lists S L" "length (L l) < 2 ^ 32 - 1" "L l = as @ p # bs"
  shows "\<exists>h'. threadlist_insertbefore l t p h = Ok () h' \<and> tl_inv S (L(l := as @ t # p # bs)) h'"
proof -
  have e: "tln_prev h (TNode p) = Some (if as = [] then Head l else TNode (last as))"
    using tl_seq_around(2) [of h l as p bs] tl_inv_seq [OF assms(1,2)] assms(5) by simp
  have "t \<notin> set (L l)" using assms(2,3) by (auto simp: on_lists_def)
  then have "t \<noteq> p" "as \<noteq> [] \<longrightarrow> t \<noteq> last as" using assms(5) by auto
  then have "threadlist_insertbefore l t p h = Ok () (tl_insert l as t (p # bs) h)"
    using insertbeforenode_splice [OF e, of t] by (simp add: threadlist_insertbefore_def tl_insert_def splice_count)
  then show ?thesis using tl_inv_insert [OF assms(1,2) _ assms(3,4), of as "p # bs"] assms(5) by simp
qed

lemma threadlist_remove_ok:
  assumes "tl_inv S L h" "l \<in> S" "L l = as @ t # bs"
  shows "\<exists>h'. threadlist_remove l t h = Ok () h' \<and> tl_inv S (L(l := as @ bs)) h'"
  using removenode_delete [of h l as t bs "Ok ()"] tl_inv_seq [OF assms(1,2)] tl_inv_delete [OF assms] assms(3)
  by (simp add: threadlist_remove_def)

lemma tl_delete_self: "tl_inv S L h \<Longrightarrow> tln_self (tl_delete l as u bs h) (TNode t) = Some t"
  by (simp add: tl_inv_def tl_delete_def unlink_def set_count_def)

lemma threadlist_remhead_ok:
  assumes "tl_inv S L h" "l \<in> S"
  shows "case L l of [] \<Rightarrow> threadlist_remhead l h = Ok None h
         | t # ts \<Rightarrow> \<exists>h'. threadlist_remhead l h = Ok (Some t) h' \<and> tl_inv S (L(l := ts)) h'"
proof (cases "L l")
  case Nil
  then show ?thesis using tl_inv_seq [OF assms]
    by (simp add: threadlist_remhead_def tl_seq_def chain_def deref_def)
next
  case (Cons t ts)
  have seq: "tl_seq h l ([] @ t # ts)" using tl_inv_seq [OF assms] Cons by simp
  have "tln_next h (Head l) = Some (TNode t)" using tl_seq_edges(1) [of h l "[]"] seq by force
  moreover have "tln_next h (TNode t) \<noteq> None" using tl_seq_around(1) [OF seq] by simp
  ultimately have "threadlist_remhead l h = Ok (Some t) (tl_delete l [] t ts h)"
    using removenode_delete [OF seq, of "\<lambda>h. Ok (tln_self h (TNode t)) h"] tl_delete_self [OF assms(1)]
    by (simp add: threadlist_remhead_def deref_def Let_def)
  then show ?thesis using Cons tl_inv_delete [OF assms, of "[]" t ts] by simp
qed

lemma threadlist_remtail_ok:
  assumes "tl_inv S L h" "l \<in> S"
  shows "if L l = [] then threadlist_remtail l h = Ok None h
         else \<exists>h'. threadlist_remtail l h = Ok (Some (last (L l))) h' \<and>
                   tl_inv S (L(l := butlast (L l))) h'"
proof (cases "L l" rule: rev_cases)
  case Nil
  then show ?thesis using tl_inv_seq [OF assms]
    by (simp add: threadlist_remtail_def tl_seq_def chain_def deref_def)
next
  case (snoc ts t)
  have seq: "tl_seq h l (ts @ t # [])" using tl_inv_seq [OF assms] snoc by simp
  have "tln_prev h (Tail l) = Some (TNode t)" using tl_seq_edges(2) [of h l "ts @ [t]" "[]"] seq by force
  moreover have "tln_prev h (TNode t) \<noteq> None" using tl_seq_around(2) [OF seq] by simp
  ultimately have "threadlist_remtail l h = Ok (Some t) (tl_delete l ts t [] h)"
    using removenode_delete [OF seq, of "\<lambda>h. Ok (tln_self h (TNode t)) h"] tl_delete_self [OF assms(1)]
    by (simp add: threadlist_remtail_def deref_def Let_def)
  then show ?thesis using snoc tl_inv_delete [OF assms, of ts t "[]"] by simp
qed


lemma threadlist_forall_from_ok:
  assumes "tl_seq h l (as @ bs)" "\<forall>t. tln_self h (TNode t) = Some t" "length bs < fuel"
  shows "threadlist_forall_from fuel (Some (if bs = [] then Tail l else TNode (hd bs))) h = Ok bs h"
  using assms
proof (induction bs arbitrary: as fuel)
  case Nil
  then show ?case by (cases fuel) (auto simp: tl_seq_def deref_def)
next
  case (Cons t bs)
  then obtain f where f: "fuel = Suc f" by (cases fuel) auto
  show ?case
    using Cons.IH [of "as @ [t]" f] Cons.prems tl_seq_around(1) [of h l as t bs] f
    by (simp add: deref_def)
qed

lemma threadlist_forall_ok:
  assumes "tl_inv S L h" "l \<in> S" "length (L l) < fuel"
  shows "threadlist_forall fuel l h = Ok (L l) h"
proof -
  have seq: "tl_seq h l ([] @ L l)" using tl_inv_seq [OF assms(1,2)] by simp
  show ?thesis
    using threadlist_forall_from_ok [OF seq _ assms(3)] tl_seq_edges(1) [OF seq] assms(1)
    by (simp add: threadlist_forall_def tl_inv_def)
qed

lemma threadlist_isempty_ok:
  "tl_inv S L h \<Longrightarrow> l \<in> S \<Longrightarrow> threadlist_isempty l h \<longleftrightarrow> L l = []"
  using tl_inv_seq [of S L h l] by (auto simp: threadlist_isempty_def tl_seq_def u32_eq_iff)

lemma threadlist_cleanup_ok:
  "tl_inv S L h \<Longrightarrow> l \<in> S \<Longrightarrow> threadlist_cleanup l h = (if L l = [] then Ok () h else Panic)"
  using threadlist_isempty_ok [of S L h l] by (auto simp: threadlist_cleanup_def threadlist_isempty_def)

text \<open>A heap in which every node of a thread is initialized and the lists of \<open>S\<close> are empty.\<close>

definition tl_heap0 :: tlheap where
  "tl_heap0 = \<lparr>tln_prev = \<lambda>_. None, tln_next = \<lambda>_. None,
     tln_self = (\<lambda>n. case n of TNode t \<Rightarrow> Some t | _ \<Rightarrow> None), tl_count = \<lambda>_. 0\<rparr>"

lemma tl_inv_heap0: "tl_inv {} L tl_heap0"
  by (simp add: tl_inv_def tl_heap0_def on_lists_def)

lemma threadlist_init_ok:
  assumes "tl_inv S L h" "l \<notin> S"
  shows "tl_inv (insert l S) (L(l := [])) (threadlist_init l h)"
proof -
  let ?h = "threadlist_init l h"
  have same: "x \<noteq> Head l \<Longrightarrow> x \<noteq> Tail l \<Longrightarrow> tln_next ?h x = tln_next h x \<and>
      tln_prev ?h x = tln_prev h x \<and> tln_self ?h x = tln_self h x" for x
    by (simp add: threadlist_init_def heap_upd Let_def)
  have "tl_seq ?h m (L m)" if "m \<in> S" for m
  proof -
    have "m \<noteq> l" using that assms(2) by auto
    then have "tl_seq ?h m (L m) = tl_seq h m (L m)"
      using same by (intro tl_seq_frame)
        (auto simp: set_chain threadlist_init_def heap_upd Let_def)
    then show ?thesis using tl_inv_seq [OF assms(1) that] by simp
  qed
  moreover have "tl_seq ?h l []"
    by (simp add: tl_seq_def chain_def threadlist_init_def heap_upd Let_def)
  moreover have "on_lists (insert l S) (L(l := [])) = on_lists S L"
    using assms(2) by (auto simp: on_lists_def split: if_splits)
  ultimately show ?thesis using assms same by (auto simp: tl_inv_def)
qed

subsection \<open>The deque interface\<close>

text \<open>
  What the scheduler and the wait channels rely on: a family of disjoint sequences of
  threads with insertion and removal at the ends and removal from the middle.
\<close>

locale thread_deque =
  fixes inv :: "nat set \<Rightarrow> (nat \<Rightarrow> nat list) \<Rightarrow> 'h \<Rightarrow> bool"
    and limit :: nat
    and addhead addtail remove :: "nat \<Rightarrow> nat \<Rightarrow> 'h \<Rightarrow> (unit, 'h) res"
    and remhead remtail :: "nat \<Rightarrow> 'h \<Rightarrow> (nat option, 'h) res"
  assumes addhead_law: "inv S L h \<Longrightarrow> l \<in> S \<Longrightarrow> t \<notin> on_lists S L \<Longrightarrow> length (L l) < limit \<Longrightarrow>
          \<exists>h'. addhead l t h = Ok () h' \<and> inv S (L(l := t # L l)) h'"
    and addtail_law: "inv S L h \<Longrightarrow> l \<in> S \<Longrightarrow> t \<notin> on_lists S L \<Longrightarrow> length (L l) < limit \<Longrightarrow>
          \<exists>h'. addtail l t h = Ok () h' \<and> inv S (L(l := L l @ [t])) h'"
    and remhead_law: "inv S L h \<Longrightarrow> l \<in> S \<Longrightarrow>
          (case L l of [] \<Rightarrow> remhead l h = Ok None h
           | t # ts \<Rightarrow> \<exists>h'. remhead l h = Ok (Some t) h' \<and> inv S (L(l := ts)) h')"
    and remtail_law: "inv S L h \<Longrightarrow> l \<in> S \<Longrightarrow>
          (if L l = [] then remtail l h = Ok None h
           else \<exists>h'. remtail l h = Ok (Some (last (L l))) h' \<and> inv S (L(l := butlast (L l))) h')"
    and remove_law: "inv S L h \<Longrightarrow> l \<in> S \<Longrightarrow> L l = as @ t # bs \<Longrightarrow>
          \<exists>h'. remove l t h = Ok () h' \<and> inv S (L(l := as @ bs)) h'"
    and inv_disjoint: "inv S L h \<Longrightarrow> l \<in> S \<Longrightarrow> m \<in> S \<Longrightarrow> l \<noteq> m \<Longrightarrow> set (L l) \<inter> set (L m) = {}"
    and inv_distinct: "inv S L h \<Longrightarrow> l \<in> S \<Longrightarrow> distinct (L l)"

text \<open>
  Moving all threads of one list to the end of another, as \<^verbatim>\<open>wchan_wakeall\<close> does with the
  sleepers of a channel; \<open>fuel\<close> bounds the loop.
\<close>

fun tl_moveall :: "(nat \<Rightarrow> 'h \<Rightarrow> (nat option, 'h) res) \<Rightarrow> (nat \<Rightarrow> nat \<Rightarrow> 'h \<Rightarrow> (unit, 'h) res) \<Rightarrow>
    nat \<Rightarrow> nat \<Rightarrow> nat \<Rightarrow> 'h \<Rightarrow> (unit, 'h) res" where
  "tl_moveall rem add 0 l m h = Hang"
| "tl_moveall rem add (Suc fuel) l m h =
     kbind (rem l h) (\<lambda>r h.
       case r of
         None \<Rightarrow> Ok () h
       | Some t \<Rightarrow> kbind (add m t h) (\<lambda>_ h. tl_moveall rem add fuel l m h))"

context thread_deque
begin

lemma off_list_after_remhead:
  assumes "inv S L h" "l \<in> S" "L l = t # ts"
  shows "t \<notin> on_lists S (L(l := ts))"
proof -
  have "t \<notin> set ((L(l := ts)) m)" if "m \<in> S" for m
    using inv_disjoint [OF assms(1,2) that] inv_distinct [OF assms(1,2)] assms(3)
    by (cases "m = l") auto
  then show ?thesis unfolding on_lists_def by blast
qed

lemma moveall_law:
  assumes "inv S L h" "l \<in> S" "m \<in> S" "l \<noteq> m" "length (L l) < fuel"
    and "length (L l) + length (L m) \<le> limit"
  shows "\<exists>h'. tl_moveall remhead addtail fuel l m h = Ok () h' \<and>
              inv S (L(l := [], m := L m @ L l)) h'"
  using assms
proof (induction fuel arbitrary: L h)
  case (Suc fuel)
  show ?case
  proof (cases "L l")
    case Nil
    then have eq: "L(l := [], m := L m @ L l) = L" by auto
    show ?thesis unfolding eq using remhead_law [OF Suc.prems(1,2)] Nil Suc.prems(1) by simp
  next
    case (Cons t ts)
    obtain h1 where h1: "remhead l h = Ok (Some t) h1" "inv S (L(l := ts)) h1"
      using remhead_law [OF Suc.prems(1,2)] Cons by auto
    let ?L = "L(l := ts)"
    have "length (?L m) < limit" using Suc.prems(4,6) Cons by simp
    then obtain h2 where h2: "addtail m t h1 = Ok () h2" "inv S (?L(m := ?L m @ [t])) h2"
      using addtail_law [OF h1(2) Suc.prems(3) off_list_after_remhead [OF Suc.prems(1,2) Cons]] by blast
    let ?M = "?L(m := ?L m @ [t])"
    have eq: "?M(l := [], m := ?M m @ ?M l) = L(l := [], m := L m @ L l)"
      using Suc.prems(4) Cons by auto
    have "length (?M l) < fuel" "length (?M l) + length (?M m) \<le> limit"
      using Suc.prems(4-6) Cons by simp_all
    from Suc.IH [OF h2(2) Suc.prems(2-4) this] show ?thesis
      unfolding eq tl_moveall.simps h1(1) kbind.simps option.case h2(1) .
  qed
qed simp

end

interpretation tlq: thread_deque tl_inv "2 ^ 32 - 1" threadlist_addhead threadlist_addtail
  threadlist_remove threadlist_remhead threadlist_remtail
proof (unfold_locales, goal_cases)
  case (1 S L h l t) then show ?case by (rule threadlist_addhead_ok)
next
  case (2 S L h l t) then show ?case by (rule threadlist_addtail_ok)
next
  case (3 S L h l) then show ?case by (rule threadlist_remhead_ok)
next
  case (4 S L h l) then show ?case by (rule threadlist_remtail_ok)
next
  case (5 S L h l as t bs) then show ?case by (rule threadlist_remove_ok)
next
  case (6 S L h l m) then show ?case by (simp add: tl_inv_def)
next
  case (7 S L h l) then show ?case using tl_inv_seq [of S L h l] by (simp add: tl_seq_def)
qed

text \<open>
  \<^bold>\<open>C4.\<close> In a heap whose lists hold the sequences \<open>L\<close>, putting an unlisted thread at the tail
  (or head) of a list and taking the head off implement append (or cons) and tail on that
  list's sequence, leave every other list as it was, never follow a null pointer, and
  iterating the list with \<^verbatim>\<open>THREADLIST_FORALL\<close> meets exactly its threads in order.
\<close>

theorem threadlist_queue_refines:
  assumes "tl_inv S L h" "l \<in> S" "t \<notin> on_lists S L" "length (L l) < 2 ^ 32 - 1"
  shows "(\<exists>h'. threadlist_addtail l t h = Ok () h' \<and> tl_inv S (L(l := L l @ [t])) h' \<and>
      threadlist_forall (length (L l) + 2) l h' = Ok (L l @ [t]) h') \<and>
    (\<exists>h'. threadlist_addhead l t h = Ok () h' \<and> tl_inv S (L(l := t # L l)) h' \<and>
      (\<exists>h''. threadlist_remhead l h' = Ok (Some t) h'' \<and> tl_inv S L h''))"
proof
  obtain h' where h': "threadlist_addtail l t h = Ok () h'" "tl_inv S (L(l := L l @ [t])) h'"
    using tlq.addtail_law [OF assms] by blast
  then show "\<exists>h'. threadlist_addtail l t h = Ok () h' \<and> tl_inv S (L(l := L l @ [t])) h' \<and>
      threadlist_forall (length (L l) + 2) l h' = Ok (L l @ [t]) h'"
    using threadlist_forall_ok [OF h'(2) assms(2), of "length (L l) + 2"] by auto
  obtain h1 where h1: "threadlist_addhead l t h = Ok () h1" "tl_inv S (L(l := t # L l)) h1"
    using tlq.addhead_law [OF assms] by blast
  then show "\<exists>h'. threadlist_addhead l t h = Ok () h' \<and> tl_inv S (L(l := t # L l)) h' \<and>
      (\<exists>h''. threadlist_remhead l h' = Ok (Some t) h'' \<and> tl_inv S L h'')"
    using tlq.remhead_law [OF h1(2) assms(2)] by (simp add: fun_upd_idem)
qed

lemma two_lists_inv: "tl_inv {0, 1} (\<lambda>_. []) (threadlist_init 0 (threadlist_init 1 tl_heap0))"
proof -
  have "tl_inv {0, 1} ((\<lambda>_. [])(1 := [], 0 := [])) (threadlist_init 0 (threadlist_init 1 tl_heap0))"
    by (intro threadlist_init_ok tl_inv_heap0) auto
  then show ?thesis by (simp add: fun_upd_idem)
qed

theorem threadlist_queue_refines_witness:
  "\<exists>h'. threadlist_addtail 0 5 (threadlist_init 0 (threadlist_init 1 tl_heap0)) = Ok () h' \<and>
     threadlist_forall (Suc (Suc 0)) 0 h' = Ok [5] h'"
  using threadlist_queue_refines [OF two_lists_inv, of 0 5] by (auto simp: on_lists_def)

text \<open>
  Removing a thread from anywhere in its list takes out exactly that thread, after
  which it can be put on another list; removal at the tail returns the last thread, removal
  from an empty list returns null and changes nothing, and cleaning up a list that still has
  threads fails its assertion.
\<close>

theorem threadlist_remove_refines:
  assumes "tl_inv S L h" "l \<in> S"
  shows "(\<forall>as t bs. L l = as @ t # bs \<longrightarrow>
       (\<exists>h'. threadlist_remove l t h = Ok () h' \<and> tl_inv S (L(l := as @ bs)) h' \<and>
          t \<notin> on_lists S (L(l := as @ bs)))) \<and>
    (L l \<noteq> [] \<longrightarrow> threadlist_cleanup l h = Panic \<and>
       (\<exists>h'. threadlist_remtail l h = Ok (Some (last (L l))) h' \<and> tl_inv S (L(l := butlast (L l))) h')) \<and>
    (L l = [] \<longrightarrow> threadlist_cleanup l h = Ok () h \<and>
       threadlist_remhead l h = Ok None h \<and> threadlist_remtail l h = Ok None h)"
proof (intro conjI allI impI)
  fix as t bs assume eq: "L l = as @ t # bs"
  have "t \<notin> set ((L(l := as @ bs)) m)" if "m \<in> S" for m
    using tlq.inv_disjoint [OF assms that] tlq.inv_distinct [OF assms] eq by (cases "m = l") auto
  then have "t \<notin> on_lists S (L(l := as @ bs))" unfolding on_lists_def by blast
  then show "\<exists>h'. threadlist_remove l t h = Ok () h' \<and> tl_inv S (L(l := as @ bs)) h' \<and>
          t \<notin> on_lists S (L(l := as @ bs))"
    using tlq.remove_law [OF assms eq] by blast
qed (use threadlist_cleanup_ok [OF assms] tlq.remhead_law [OF assms] tlq.remtail_law [OF assms] in auto)

theorem threadlist_remove_refines_witness:
  "threadlist_remhead 0 (threadlist_init 0 (threadlist_init 1 tl_heap0)) =
     Ok None (threadlist_init 0 (threadlist_init 1 tl_heap0))"
  using threadlist_remove_refines [OF two_lists_inv, of 0] by auto

end
