(* ===== verification/Spinlock.thy ===== *)
theory Spinlock
  imports Prelude
begin

text \<open>
  The machine state of the thread system and its lowest layer: interrupt levels
  (\<^verbatim>\<open>kern/thread/spl.c\<close>) and spinlocks (\<^verbatim>\<open>kern/thread/spinlock.c\<close>).

  A \<open>machine\<close> holds the thread structures, the CPU structures, the spinlocks and the wait
  channels. An operation takes the number of the CPU it runs on, whose \<^verbatim>\<open>c_curthread\<close> is
  \<^verbatim>\<open>curthread\<close>; \<^verbatim>\<open>CURCPU_EXISTS()\<close> holds throughout, as it does from the first
  \<^verbatim>\<open>cpu_create\<close> on. The linked lists are sequences of thread numbers here (theory
  \<open>Threadlist\<close> shows that the code implements those). A spinlock held by another CPU makes
  the acquiring code spin: with no other CPU running that is \<open>Hang\<close>.

  The theory shows that interrupts are off exactly while a spinlock is held or the level
  is raised, however acquisitions, releases and level changes interleave, and, for the
  test-test-and-set loop run by any number of CPUs one memory access at a time, mutual
  exclusion and the accuracy of \<^verbatim>\<open>splk_holder\<close>.
\<close>

subsection \<open>The machine state\<close>

datatype threadstate = S_RUN | S_READY | S_SLEEP | S_ZOMBIE

text \<open>
  The saved register context: none yet, the initial context that \<^verbatim>\<open>switchframe_init\<close> builds
  for a new thread (it will start in \<^verbatim>\<open>thread_startup\<close>), or a thread suspended inside
  \<^verbatim>\<open>thread_switch\<close> with its local variable \<^verbatim>\<open>spl\<close>.
\<close>

datatype tcontext = NoContext | NewThread | Suspended int

record thread =
  t_wchan_name :: "string option"
  t_state :: threadstate
  t_stack :: "u32 list option"
  t_context :: tcontext
  t_cpu :: nat
  t_proc :: "nat option"
  t_in_interrupt :: bool
  t_curspl :: int
  t_iplhigh_count :: int

record cpu =
  c_number :: u32
  c_curthread :: nat
  c_zombies :: "nat list"
  c_hardclocks :: u32
  c_spinlocks :: u32
  c_isidle :: bool
  c_runqueue :: "nat list"
  c_ipi_pending :: u32
  c_shootdown :: "nat list"
  c_irqon :: bool
  c_ipi_signalled :: bool

record spinlock =
  splk_lock :: u32
  splk_holder :: "nat option"

datatype lockid = RunqueueLock nat | IpiLock nat | ProcLock nat | Lk nat

record wchan =
  wc_name :: string
  wc_threads :: "nat list"

record machine =
  m_threads :: "nat \<Rightarrow> thread option"
  m_cpus :: "nat \<Rightarrow> cpu"
  m_allcpus :: "nat list"
  m_locks :: "lockid \<Rightarrow> spinlock"
  m_wchans :: "nat \<Rightarrow> wchan"
  m_numthreads :: "nat \<Rightarrow> u32"

definition curthread :: "nat \<Rightarrow> machine \<Rightarrow> nat" where
  "curthread me m = c_curthread (m_cpus m me)"

definition getthread :: "nat \<Rightarrow> machine \<Rightarrow> (thread \<Rightarrow> ('a, machine) res) \<Rightarrow> ('a, machine) res" where
  "getthread t m k = (case m_threads m t of None \<Rightarrow> Fault | Some th \<Rightarrow> k th)"

definition upd_cpu :: "nat \<Rightarrow> (cpu \<Rightarrow> cpu) \<Rightarrow> machine \<Rightarrow> machine" where
  "upd_cpu c f m = m\<lparr>m_cpus := (m_cpus m)(c := f (m_cpus m c))\<rparr>"

definition upd_thread :: "nat \<Rightarrow> (thread \<Rightarrow> thread) \<Rightarrow> machine \<Rightarrow> machine" where
  "upd_thread t f m = m\<lparr>m_threads := (m_threads m)(t := map_option f (m_threads m t))\<rparr>"

definition upd_lock :: "lockid \<Rightarrow> (spinlock \<Rightarrow> spinlock) \<Rightarrow> machine \<Rightarrow> machine" where
  "upd_lock l f m = m\<lparr>m_locks := (m_locks m)(l := f (m_locks m l))\<rparr>"

definition upd_wchan :: "nat \<Rightarrow> (wchan \<Rightarrow> wchan) \<Rightarrow> machine \<Rightarrow> machine" where
  "upd_wchan w f m = m\<lparr>m_wchans := (m_wchans m)(w := f (m_wchans m w))\<rparr>"

lemmas machine_upd = curthread_def getthread_def upd_cpu_def upd_thread_def upd_lock_def upd_wchan_def

subsection \<open>Interrupt levels\<close>

definition IPL_NONE :: int where "IPL_NONE = 0"
definition IPL_HIGH :: int where "IPL_HIGH = 1"

definition splraise :: "nat \<Rightarrow> int \<Rightarrow> int \<Rightarrow> machine \<Rightarrow> (unit, machine) res" where
  "splraise me oldspl newspl m =
     (let cur = curthread me m in
      kassert (oldspl = IPL_NONE) (kassert (newspl = IPL_HIGH)
        (getthread cur m (\<lambda>th.
           let m = (if t_iplhigh_count th = 0 then upd_cpu me (\<lambda>c. c\<lparr>c_irqon := False\<rparr>) m else m)
           in Ok () (upd_thread cur (\<lambda>t. t\<lparr>t_iplhigh_count := t_iplhigh_count t + 1\<rparr>) m)))))"

definition spllower :: "nat \<Rightarrow> int \<Rightarrow> int \<Rightarrow> machine \<Rightarrow> (unit, machine) res" where
  "spllower me oldspl newspl m =
     (let cur = curthread me m in
      kassert (oldspl = IPL_HIGH) (kassert (newspl = IPL_NONE)
        (let m = upd_thread cur (\<lambda>t. t\<lparr>t_iplhigh_count := t_iplhigh_count t - 1\<rparr>) m in
         getthread cur m (\<lambda>th.
           Ok () (if t_iplhigh_count th = 0 then upd_cpu me (\<lambda>c. c\<lparr>c_irqon := True\<rparr>) m else m)))))"

definition splx :: "nat \<Rightarrow> int \<Rightarrow> machine \<Rightarrow> (int, machine) res" where
  "splx me spl m =
     (let cur = curthread me m in
      getthread cur m (\<lambda>th.
        if t_curspl th < spl then
          kbind (splraise me (t_curspl th) spl m) (\<lambda>_ m.
            let ret = t_curspl th;
                m = upd_thread cur (\<lambda>t. t\<lparr>t_curspl := spl\<rparr>) m
            in Ok ret m)
        else if t_curspl th > spl then
          (let ret = t_curspl th;
               m = upd_thread cur (\<lambda>t. t\<lparr>t_curspl := spl\<rparr>) m
           in kbind (spllower me ret spl m) (\<lambda>_ m. Ok ret m))
        else Ok spl m))"

definition spl0 :: "nat \<Rightarrow> machine \<Rightarrow> (int, machine) res" where
  "spl0 me m = splx me IPL_NONE m"

definition splhigh :: "nat \<Rightarrow> machine \<Rightarrow> (int, machine) res" where
  "splhigh me m = splx me IPL_HIGH m"

subsection \<open>Spinlocks\<close>

definition spinlock_init :: spinlock where
  "spinlock_init = \<lparr>splk_lock = 0, splk_holder = None\<rparr>"

definition spinlock_cleanup :: "lockid \<Rightarrow> machine \<Rightarrow> (unit, machine) res" where
  "spinlock_cleanup l m =
     kassert (splk_holder (m_locks m l) = None) (kassert (splk_lock (m_locks m l) = 0) (Ok () m))"

definition spinlock_acquire :: "nat \<Rightarrow> lockid \<Rightarrow> machine \<Rightarrow> (unit, machine) res" where
  "spinlock_acquire me l m =
     kbind (splraise me IPL_NONE IPL_HIGH m) (\<lambda>_ m.
       if splk_holder (m_locks m l) = Some me then Panic
       else
         let m = upd_cpu me (\<lambda>c. c\<lparr>c_spinlocks := c_spinlocks c + 1\<rparr>) m in
         if splk_lock (m_locks m l) \<noteq> 0 then Hang
         else Ok () (upd_lock l (\<lambda>s. s\<lparr>splk_lock := 1, splk_holder := Some me\<rparr>) m))"

definition spinlock_release :: "nat \<Rightarrow> lockid \<Rightarrow> machine \<Rightarrow> (unit, machine) res" where
  "spinlock_release me l m =
     kassert (splk_holder (m_locks m l) = Some me) (kassert (c_spinlocks (m_cpus m me) > 0)
       (let m = upd_cpu me (\<lambda>c. c\<lparr>c_spinlocks := c_spinlocks c - 1\<rparr>) m;
            m = upd_lock l (\<lambda>s. s\<lparr>splk_lock := 0, splk_holder := None\<rparr>) m
        in spllower me IPL_HIGH IPL_NONE m))"

definition spinlock_do_i_hold :: "nat \<Rightarrow> lockid \<Rightarrow> machine \<Rightarrow> bool" where
  "spinlock_do_i_hold me l m \<longleftrightarrow> splk_holder (m_locks m l) = Some me"

subsection \<open>The interrupt invariant\<close>

text \<open>
  For the CPU \<open>me\<close> and the spinlocks \<open>held\<close> on it: the level count of the current thread is
  the number of held spinlocks plus one while \<^verbatim>\<open>t_curspl\<close> is high, and interrupts are on
  exactly when the count is 0.
\<close>

definition spl_inv :: "nat \<Rightarrow> lockid set \<Rightarrow> machine \<Rightarrow> bool" where
  "spl_inv me held m \<longleftrightarrow> finite held \<and> card held < 2 ^ 32 \<and>
     (\<forall>l. l \<in> held \<longleftrightarrow> splk_holder (m_locks m l) = Some me) \<and>
     (\<forall>l. splk_lock (m_locks m l) = 0 \<longleftrightarrow> splk_holder (m_locks m l) = None) \<and>
     unat (c_spinlocks (m_cpus m me)) = card held \<and>
     (\<exists>th. m_threads m (curthread me m) = Some th \<and> t_curspl th \<in> {IPL_NONE, IPL_HIGH} \<and>
        t_iplhigh_count th = int (card held) + t_curspl th \<and>
        (c_irqon (m_cpus m me) \<longleftrightarrow> t_iplhigh_count th = 0))"

definition curspl :: "nat \<Rightarrow> machine \<Rightarrow> int" where
  "curspl me m = (case m_threads m (curthread me m) of None \<Rightarrow> 0 | Some th \<Rightarrow> t_curspl th)"

lemma spl_inv_irq:
  "spl_inv me held m \<Longrightarrow> c_irqon (m_cpus m me) \<longleftrightarrow> held = {} \<and> curspl me m = IPL_NONE"
  by (auto simp: spl_inv_def curspl_def IPL_NONE_def IPL_HIGH_def)

lemma spinlock_acquire_ok:
  assumes "spl_inv me held m" "splk_holder (m_locks m l) = None" "card held < 2 ^ 32 - 1"
  shows "\<exists>m'. spinlock_acquire me l m = Ok () m' \<and> spl_inv me (insert l held) m' \<and>
    curspl me m' = curspl me m \<and> spinlock_do_i_hold me l m'"
proof -
  obtain th where th: "m_threads m (c_curthread (m_cpus m me)) = Some th"
      "t_curspl th \<in> {IPL_NONE, IPL_HIGH}" "t_iplhigh_count th = int (card held) + t_curspl th"
      "c_irqon (m_cpus m me) \<longleftrightarrow> t_iplhigh_count th = 0"
    using assms(1) by (auto simp: spl_inv_def curthread_def)
  have l: "l \<notin> held" "splk_lock (m_locks m l) = 0" "finite held"
    using assms(1,2) by (auto simp: spl_inv_def)
  have u: "unat (c_spinlocks (m_cpus m me) + 1) = Suc (card held)"
    using assms by (simp add: spl_inv_def unat_word_ariths)
  show ?thesis
    using assms(1,2,3) th l u
    by (auto simp: spinlock_acquire_def splraise_def Let_def machine_upd spl_inv_def curspl_def
        spinlock_do_i_hold_def IPL_NONE_def IPL_HIGH_def)
qed

lemma spinlock_acquire_panics:
  assumes "spl_inv me held m" "l \<in> held"
  shows "spinlock_acquire me l m = Panic"
  using assms
  by (auto simp: spinlock_acquire_def splraise_def Let_def machine_upd spl_inv_def)

lemma spinlock_release_ok:
  assumes "spl_inv me held m" "l \<in> held"
  shows "\<exists>m'. spinlock_release me l m = Ok () m' \<and> spl_inv me (held - {l}) m' \<and>
    curspl me m' = curspl me m"
proof -
  obtain th where th: "m_threads m (c_curthread (m_cpus m me)) = Some th"
      "t_curspl th \<in> {IPL_NONE, IPL_HIGH}" "t_iplhigh_count th = int (card held) + t_curspl th"
      "c_irqon (m_cpus m me) \<longleftrightarrow> t_iplhigh_count th = 0"
    using assms(1) by (auto simp: spl_inv_def curthread_def)
  have fin: "finite held" and hold: "splk_holder (m_locks m l) = Some me"
    using assms by (auto simp: spl_inv_def)
  have pos: "0 < card held" using fin assms(2) card_gt_0_iff by blast
  have c: "card (held - {l}) = card held - 1" using fin assms(2) by simp
  have u: "c_spinlocks (m_cpus m me) > 0" "unat (c_spinlocks (m_cpus m me) - 1) = card held - 1"
    using assms(1) pos by (auto simp: spl_inv_def u32_less_iff u32_le_iff unat_diff_small)
  let ?t = "c_curthread (m_cpus m me)"
  let ?m = "upd_lock l (\<lambda>s. s\<lparr>splk_lock := 0, splk_holder := None\<rparr>)
              (upd_cpu me (\<lambda>c. c\<lparr>c_spinlocks := c_spinlocks c - 1\<rparr>) m)"
  let ?m' = "upd_thread ?t (\<lambda>t. t\<lparr>t_iplhigh_count := t_iplhigh_count t - 1\<rparr>) ?m"
  let ?m'' = "if t_iplhigh_count th = 1 then upd_cpu me (\<lambda>c. c\<lparr>c_irqon := True\<rparr>) ?m' else ?m'"
  have "spinlock_release me l m = Ok () ?m''"
    using hold u(1) th(1) by (simp add: spinlock_release_def spllower_def Let_def machine_upd)
  moreover have "curspl me ?m'' = curspl me m"
    using th(1) by (simp add: curspl_def machine_upd)
  moreover have "spl_inv me (held - {l}) ?m''"
    unfolding spl_inv_def
  proof (intro conjI)
    show "\<forall>k. (k \<in> held - {l}) = (splk_holder (m_locks ?m'' k) = Some me)"
      using assms(1) by (auto simp: spl_inv_def machine_upd)
    show "\<forall>k. (splk_lock (m_locks ?m'' k) = 0) = (splk_holder (m_locks ?m'' k) = None)"
      using assms(1) by (auto simp: spl_inv_def machine_upd)
    show "\<exists>th. m_threads ?m'' (curthread me ?m'') = Some th \<and> t_curspl th \<in> {IPL_NONE, IPL_HIGH} \<and>
        t_iplhigh_count th = int (card (held - {l})) + t_curspl th \<and>
        c_irqon (m_cpus ?m'' me) = (t_iplhigh_count th = 0)"
      using th pos c by (auto simp: machine_upd of_nat_diff IPL_NONE_def IPL_HIGH_def)
    show "unat (c_spinlocks (m_cpus ?m'' me)) = card (held - {l})"
      using u(2) c by (simp add: machine_upd)
  qed (use fin c pos assms(1) in \<open>auto simp: spl_inv_def\<close>)
  ultimately show ?thesis by blast
qed

lemma spl_inv_level:
  assumes "spl_inv me held m" "m_locks m' = m_locks m"
    and "c_spinlocks (m_cpus m' me) = c_spinlocks (m_cpus m me)"
    and "m_threads m' (curthread me m') = Some th" "t_curspl th = s" "s = IPL_NONE \<or> s = IPL_HIGH"
    and "t_iplhigh_count th = int (card held) + s"
    and "c_irqon (m_cpus m' me) \<longleftrightarrow> t_iplhigh_count th = 0"
  shows "spl_inv me held m' \<and> curspl me m' = s"
  using assms unfolding spl_inv_def curspl_def by simp

lemma splx_ok:
  assumes "spl_inv me held m" "spl = IPL_NONE \<or> spl = IPL_HIGH"
  shows "\<exists>m'. splx me spl m = Ok (curspl me m) m' \<and> spl_inv me held m' \<and> curspl me m' = spl"
proof -
  let ?t = "c_curthread (m_cpus m me)"
  obtain th where th: "m_threads m ?t = Some th"
      "t_curspl th = IPL_NONE \<or> t_curspl th = IPL_HIGH" "t_iplhigh_count th = int (card held) + t_curspl th"
      "c_irqon (m_cpus m me) \<longleftrightarrow> t_iplhigh_count th = 0"
    using assms(1) by (auto simp: spl_inv_def curthread_def)
  have cs: "curspl me m = t_curspl th" using th(1) by (simp add: curspl_def curthread_def)
  note ipl = IPL_NONE_def IPL_HIGH_def
  consider "t_curspl th = spl" | (up) "t_curspl th = IPL_NONE" "spl = IPL_HIGH"
    | (down) "t_curspl th = IPL_HIGH" "spl = IPL_NONE"
    using th(2) assms(2) by blast
  then show ?thesis
  proof cases
    case 1
    then have "splx me spl m = Ok (curspl me m) m"
      using th(1) cs by (simp add: splx_def Let_def machine_upd)
    then show ?thesis using assms(1) 1 cs by simp
  next
    case up
    let ?m = "if t_iplhigh_count th = 0 then upd_cpu me (\<lambda>c. c\<lparr>c_irqon := False\<rparr>) m else m"
    let ?m' = "upd_thread ?t (\<lambda>t. t\<lparr>t_curspl := IPL_HIGH\<rparr>)
                 (upd_thread ?t (\<lambda>t. t\<lparr>t_iplhigh_count := t_iplhigh_count t + 1\<rparr>) ?m)"
    have "splx me spl m = Ok (curspl me m) ?m'"
      using th(1) cs up by (simp add: splx_def splraise_def Let_def machine_upd ipl)
    moreover have "spl_inv me held ?m' \<and> curspl me ?m' = IPL_HIGH"
      by (rule spl_inv_level [OF assms(1), where th = "th\<lparr>t_iplhigh_count := t_iplhigh_count th + 1, t_curspl := IPL_HIGH\<rparr>"])
        (use th up in \<open>auto simp: machine_upd ipl\<close>)
    ultimately show ?thesis using up by blast
  next
    case down
    let ?m = "upd_thread ?t (\<lambda>t. t\<lparr>t_iplhigh_count := t_iplhigh_count t - 1\<rparr>)
                (upd_thread ?t (\<lambda>t. t\<lparr>t_curspl := IPL_NONE\<rparr>) m)"
    let ?m' = "if t_iplhigh_count th = 1 then upd_cpu me (\<lambda>c. c\<lparr>c_irqon := True\<rparr>) ?m else ?m"
    have "splx me spl m = Ok (curspl me m) ?m'"
      using th(1) cs down by (simp add: splx_def spllower_def Let_def machine_upd ipl)
    moreover have "spl_inv me held ?m' \<and> curspl me ?m' = IPL_NONE"
      by (rule spl_inv_level [OF assms(1), where th = "th\<lparr>t_iplhigh_count := t_iplhigh_count th - 1, t_curspl := IPL_NONE\<rparr>"])
        (use th down in \<open>auto simp: machine_upd ipl\<close>)
    ultimately show ?thesis using down by blast
  qed
qed

subsection \<open>Sequences of acquisitions, releases and level changes\<close>

datatype splop = Acq lockid | Rel lockid | Spl int

fun run_splop :: "nat \<Rightarrow> splop \<Rightarrow> machine \<Rightarrow> (unit, machine) res" where
  "run_splop me (Acq l) m = spinlock_acquire me l m"
| "run_splop me (Rel l) m = spinlock_release me l m"
| "run_splop me (Spl s) m = kbind (splx me s m) (\<lambda>_ m. Ok () m)"

fun run_splops :: "nat \<Rightarrow> splop list \<Rightarrow> machine \<Rightarrow> (unit, machine) res" where
  "run_splops me [] m = Ok () m"
| "run_splops me (x # xs) m = kbind (run_splop me x m) (\<lambda>_ m. run_splops me xs m)"

text \<open>The locks held and the level after a sequence, with its legality.\<close>

fun splops_legal :: "lockid set \<Rightarrow> splop list \<Rightarrow> bool" where
  "splops_legal H [] \<longleftrightarrow> True"
| "splops_legal H (Acq l # xs) \<longleftrightarrow> l \<notin> H \<and> splops_legal (insert l H) xs"
| "splops_legal H (Rel l # xs) \<longleftrightarrow> l \<in> H \<and> splops_legal (H - {l}) xs"
| "splops_legal H (Spl s # xs) \<longleftrightarrow> (s = IPL_NONE \<or> s = IPL_HIGH) \<and> splops_legal H xs"

fun splops_held :: "lockid set \<Rightarrow> splop list \<Rightarrow> lockid set" where
  "splops_held H [] = H"
| "splops_held H (Acq l # xs) = splops_held (insert l H) xs"
| "splops_held H (Rel l # xs) = splops_held (H - {l}) xs"
| "splops_held H (Spl s # xs) = splops_held H xs"

fun splops_level :: "int \<Rightarrow> splop list \<Rightarrow> int" where
  "splops_level s [] = s"
| "splops_level s (Spl s' # xs) = splops_level s' xs"
| "splops_level s (x # xs) = splops_level s xs"

definition locks_private :: "nat \<Rightarrow> machine \<Rightarrow> bool" where
  "locks_private me m \<longleftrightarrow> (\<forall>l. splk_holder (m_locks m l) \<in> {None, Some me})"

lemma run_splop_private:
  "run_splop me x m = Ok u m' \<Longrightarrow> locks_private me m \<Longrightarrow> locks_private me m'"
  by (cases x)
    (auto simp: locks_private_def spinlock_acquire_def spinlock_release_def splx_def splraise_def
      spllower_def Let_def machine_upd kbind_Ok_iff split: option.splits if_splits)

lemma run_splops_ok:
  assumes "spl_inv me H m" "locks_private me m" "splops_legal H xs"
    and "card H + length xs < 2 ^ 32 - 1"
  shows "\<exists>m'. run_splops me xs m = Ok () m' \<and> spl_inv me (splops_held H xs) m' \<and>
    curspl me m' = splops_level (curspl me m) xs"
  using assms
proof (induction xs arbitrary: H m)
  case Nil
  then show ?case by simp
next
  case (Cons x xs)
  have fin: "finite H" using Cons.prems(1) by (simp add: spl_inv_def)
  have step: "\<exists>m1 H1. run_splop me x m = Ok () m1 \<and> spl_inv me H1 m1 \<and> splops_legal H1 xs \<and>
      splops_held H (x # xs) = splops_held H1 xs \<and> card H1 \<le> Suc (card H) \<and>
      splops_level (curspl me m) (x # xs) = splops_level (curspl me m1) xs"
  proof (cases x)
    case (Acq l)
    have "splk_holder (m_locks m l) = None"
      using Cons.prems(1-3) Acq by (auto simp: locks_private_def spl_inv_def)
    from spinlock_acquire_ok [OF Cons.prems(1) this] Cons.prems(4)
    obtain m1 where "spinlock_acquire me l m = Ok () m1" "spl_inv me (insert l H) m1"
        "curspl me m1 = curspl me m"
      by auto
    then show ?thesis
      using Cons.prems(3) Acq fin by (intro exI [of _ m1] exI [of _ "insert l H"]) (auto simp: card_insert_if)
  next
    case (Rel l)
    then obtain m1 where "spinlock_release me l m = Ok () m1" "spl_inv me (H - {l}) m1"
        "curspl me m1 = curspl me m"
      using spinlock_release_ok [OF Cons.prems(1), of l] Cons.prems(3) by auto
    then show ?thesis
      using Cons.prems(3) Rel fin by (intro exI [of _ m1] exI [of _ "H - {l}"]) auto
  next
    case (Spl s)
    then obtain m1 where "splx me s m = Ok (curspl me m) m1" "spl_inv me H m1" "curspl me m1 = s"
      using splx_ok [OF Cons.prems(1), of s] Cons.prems(3) by auto
    then show ?thesis
      using Cons.prems(3) Spl by (intro exI [of _ m1] exI [of _ H]) auto
  qed
  then obtain m1 H1 where s1: "run_splop me x m = Ok () m1" "spl_inv me H1 m1" "splops_legal H1 xs"
      "splops_held H (x # xs) = splops_held H1 xs" "card H1 \<le> Suc (card H)"
      "splops_level (curspl me m) (x # xs) = splops_level (curspl me m1) xs" by blast
  have "card H1 + length xs < 2 ^ 32 - 1" using s1(5) Cons.prems(4) by simp
  from Cons.IH [OF s1(2) run_splop_private [OF s1(1) Cons.prems(2)] s1(3) this]
  show ?case using s1(1,4,6) by simp
qed

text \<open>
  \<^bold>\<open>C36.\<close> Whatever the interleaving of spinlock acquisitions and releases and interrupt level
  changes on a CPU (they need not nest), no assertion fails, and interrupts are on afterwards
  exactly when no spinlock is held and the level last set is \<^verbatim>\<open>IPL_NONE\<close>. Acquiring a
  spinlock the CPU already holds panics instead of deadlocking.
\<close>

theorem spl_spinlock_interrupts:
  assumes "spl_inv me H m" "locks_private me m" "splops_legal H xs"
    and "card H + length xs < 2 ^ 32 - 1"
  shows "\<exists>m'. run_splops me xs m = Ok () m' \<and>
    (c_irqon (m_cpus m' me) \<longleftrightarrow>
       splops_held H xs = {} \<and> splops_level (curspl me m) xs = IPL_NONE) \<and>
    (\<forall>l \<in> splops_held H xs. spinlock_acquire me l m' = Panic)"
proof -
  obtain m' where "run_splops me xs m = Ok () m'" "spl_inv me (splops_held H xs) m'"
      "curspl me m' = splops_level (curspl me m) xs"
    using run_splops_ok [OF assms] by blast
  then show ?thesis using spl_inv_irq spinlock_acquire_panics by auto
qed

definition boot_thread :: thread where
  "boot_thread = \<lparr>t_wchan_name = None, t_state = S_RUN, t_stack = None, t_context = NoContext, t_cpu = 0, t_proc = Some 0,
     t_in_interrupt = False, t_curspl = IPL_NONE, t_iplhigh_count = 0\<rparr>"

definition boot_cpu :: cpu where
  "boot_cpu = \<lparr>c_number = 0, c_curthread = 0, c_zombies = [], c_hardclocks = 0, c_spinlocks = 0,
     c_isidle = False, c_runqueue = [], c_ipi_pending = 0, c_shootdown = [], c_irqon = True,
     c_ipi_signalled = False\<rparr>"

definition boot_machine :: machine where
  "boot_machine = \<lparr>m_threads = [0 \<mapsto> boot_thread], m_cpus = \<lambda>_. boot_cpu, m_allcpus = [0],
     m_locks = \<lambda>_. spinlock_init, m_wchans = \<lambda>_. \<lparr>wc_name = [], wc_threads = []\<rparr>,
     m_numthreads = \<lambda>_. 1\<rparr>"

lemma boot_spl_inv: "spl_inv 0 {} boot_machine" "locks_private 0 boot_machine"
  by (auto simp: spl_inv_def locks_private_def boot_machine_def boot_cpu_def boot_thread_def
      spinlock_init_def curthread_def IPL_NONE_def)

text \<open>The example of the comment in \<^verbatim>\<open>spl.c\<close>: red, splhigh, blue, splx, release red.\<close>

theorem spl_spinlock_interrupts_witness:
  "\<exists>m'. run_splops 0 [Acq (Lk 0), Spl IPL_HIGH, Acq (Lk 1), Spl IPL_NONE, Rel (Lk 0)] boot_machine =
      Ok () m' \<and> \<not> c_irqon (m_cpus m' 0)"
proof -
  have legal: "splops_legal {} [Acq (Lk 0), Spl IPL_HIGH, Acq (Lk 1), Spl IPL_NONE, Rel (Lk 0)]"
    by simp
  have "splops_held {} [Acq (Lk 0), Spl IPL_HIGH, Acq (Lk 1), Spl IPL_NONE, Rel (Lk 0)] = {Lk 1}"
    by auto
  then show ?thesis using spl_spinlock_interrupts [OF boot_spl_inv legal] by fastforce
qed

subsection \<open>The test-test-and-set loop on several CPUs\<close>

text \<open>
  One spinlock and any number of CPUs, one memory access per step. \<open>SEnter\<close> is the start of
  \<^verbatim>\<open>spinlock_acquire\<close> before the self-deadlock check, \<open>STest\<close> the read of the lock word,
  \<open>STas\<close> the test-and-set, \<open>SGot\<close> the point between winning the test-and-set and storing
  \<^verbatim>\<open>splk_holder\<close>, \<open>SHeld\<close> the critical section and \<open>SRel\<close> the point in \<^verbatim>\<open>spinlock_release\<close>
  between clearing \<^verbatim>\<open>splk_holder\<close> and clearing the lock word. \<open>SPanic\<close> is a panic or failed
  assertion on that CPU.
\<close>

datatype spc = SIdle | SEnter | STest | STas | SGot | SHeld | SRel | SPanic

record spinstate =
  sp_lock :: spinlock
  sp_pc :: "nat \<Rightarrow> spc"

definition goto :: "nat \<Rightarrow> spc \<Rightarrow> spinstate \<Rightarrow> spinstate" where
  "goto c p s = s\<lparr>sp_pc := (sp_pc s)(c := p)\<rparr>"

definition setlock :: "(spinlock \<Rightarrow> spinlock) \<Rightarrow> spinstate \<Rightarrow> spinstate" where
  "setlock f s = s\<lparr>sp_lock := f (sp_lock s)\<rparr>"

inductive spin_step :: "spinstate \<Rightarrow> spinstate \<Rightarrow> bool" where
  call: "sp_pc s c = SIdle \<Longrightarrow> spin_step s (goto c SEnter s)"
| self: "sp_pc s c = SEnter \<Longrightarrow> splk_holder (sp_lock s) = Some c \<Longrightarrow> spin_step s (goto c SPanic s)"
| enter: "sp_pc s c = SEnter \<Longrightarrow> splk_holder (sp_lock s) \<noteq> Some c \<Longrightarrow> spin_step s (goto c STest s)"
| test_busy: "sp_pc s c = STest \<Longrightarrow> splk_lock (sp_lock s) \<noteq> 0 \<Longrightarrow> spin_step s s"
| test_free: "sp_pc s c = STest \<Longrightarrow> splk_lock (sp_lock s) = 0 \<Longrightarrow> spin_step s (goto c STas s)"
| tas_lost: "sp_pc s c = STas \<Longrightarrow> splk_lock (sp_lock s) \<noteq> 0 \<Longrightarrow> spin_step s (goto c STest s)"
| tas_sc_failed: "sp_pc s c = STas \<Longrightarrow> spin_step s (goto c STest s)"
| tas_won: "sp_pc s c = STas \<Longrightarrow> splk_lock (sp_lock s) = 0 \<Longrightarrow>
    spin_step s (goto c SGot (setlock (\<lambda>l. l\<lparr>splk_lock := 1\<rparr>) s))"
| holder: "sp_pc s c = SGot \<Longrightarrow>
    spin_step s (goto c SHeld (setlock (\<lambda>l. l\<lparr>splk_holder := Some c\<rparr>) s))"
| rel_bad: "sp_pc s c = SHeld \<Longrightarrow> splk_holder (sp_lock s) \<noteq> Some c \<Longrightarrow> spin_step s (goto c SPanic s)"
| rel: "sp_pc s c = SHeld \<Longrightarrow> splk_holder (sp_lock s) = Some c \<Longrightarrow>
    spin_step s (goto c SRel (setlock (\<lambda>l. l\<lparr>splk_holder := None\<rparr>) s))"
| unlock: "sp_pc s c = SRel \<Longrightarrow>
    spin_step s (goto c SIdle (setlock (\<lambda>l. l\<lparr>splk_lock := 0\<rparr>) s))"

definition spin_init :: spinstate where
  "spin_init = \<lparr>sp_lock = spinlock_init, sp_pc = \<lambda>_. SIdle\<rparr>"

text \<open>Inside: between winning the test-and-set and clearing the lock word.\<close>

definition spin_inside :: "spc \<Rightarrow> bool" where
  "spin_inside p \<longleftrightarrow> p = SGot \<or> p = SHeld \<or> p = SRel"

definition spin_inv :: "spinstate \<Rightarrow> bool" where
  "spin_inv s \<longleftrightarrow>
     (\<forall>c d. spin_inside (sp_pc s c) \<longrightarrow> spin_inside (sp_pc s d) \<longrightarrow> c = d) \<and>
     (splk_lock (sp_lock s) = 0 \<longleftrightarrow> (\<forall>c. \<not> spin_inside (sp_pc s c))) \<and>
     (\<forall>c. splk_holder (sp_lock s) = Some c \<longleftrightarrow> sp_pc s c = SHeld) \<and>
     (\<forall>c. sp_pc s c \<noteq> SPanic)"

lemma spin_inv_init: "spin_inv spin_init"
  by (simp add: spin_inv_def spin_init_def spinlock_init_def spin_inside_def)

lemma spin_inv_outside:
  assumes "spin_inv s" "\<not> spin_inside (sp_pc s c)" "\<not> spin_inside p" "p \<noteq> SPanic"
  shows "spin_inv (goto c p s)"
proof -
  have "sp_pc s c \<noteq> SHeld" "p \<noteq> SHeld" using assms by (auto simp: spin_inside_def)
  then show ?thesis using assms unfolding spin_inv_def goto_def by simp metis
qed

lemma spin_inv_holder: "spin_inv s \<Longrightarrow> splk_holder (sp_lock s) = Some c \<longleftrightarrow> sp_pc s c = SHeld"
  unfolding spin_inv_def by blast

lemma spin_invI_inside:
  assumes "\<And>d. d \<noteq> c \<Longrightarrow> \<not> spin_inside (sp_pc s d)" "spin_inside (sp_pc s c)"
    and "splk_lock (sp_lock s) \<noteq> 0" "\<And>d. sp_pc s d \<noteq> SPanic"
    and "splk_holder (sp_lock s) = (if sp_pc s c = SHeld then Some c else None)"
  shows "spin_inv s"
  unfolding spin_inv_def
proof (intro conjI allI impI)
  fix d e assume "spin_inside (sp_pc s d)" "spin_inside (sp_pc s e)"
  then show "d = e" using assms(1) by metis
next
  fix d
  have "sp_pc s d = SHeld \<longrightarrow> d = c" using assms(1) spin_inside_def by metis
  then show "(splk_holder (sp_lock s) = Some d) = (sp_pc s d = SHeld)"
    using assms(5) by (auto split: if_splits)
qed (use assms in blast)+

lemma spin_inv_inside:
  assumes "spin_inv s" "spin_inside (sp_pc s c)"
  shows "d \<noteq> c \<Longrightarrow> \<not> spin_inside (sp_pc s d)" "splk_lock (sp_lock s) \<noteq> 0"
    and "splk_holder (sp_lock s) = (if sp_pc s c = SHeld then Some c else None)"
    and "sp_pc s d \<noteq> SPanic"
proof -
  show out: "\<not> spin_inside (sp_pc s d)" if "d \<noteq> c" for d
    using assms that unfolding spin_inv_def by blast
  show "splk_holder (sp_lock s) = (if sp_pc s c = SHeld then Some c else None)"
    using out spin_inv_holder [OF assms(1)] spin_inside_def
    by (cases "splk_holder (sp_lock s)") metis+
qed (use assms in \<open>auto simp: spin_inv_def\<close>)

lemma spin_inv_step:
  assumes "spin_step s s'" "spin_inv s"
  shows "spin_inv s'"
  using assms(1)
proof (cases rule: spin_step.cases)
  case (self c)
  then have "sp_pc s c = SHeld" using spin_inv_holder [OF assms(2)] by blast
  with self show ?thesis by simp
next
  case (rel_bad c)
  then show ?thesis using spin_inv_holder [OF assms(2)] by blast
next
  case (tas_won c)
  have out: "\<not> spin_inside (sp_pc s d)" "sp_pc s d \<noteq> SPanic" for d
    using assms(2) tas_won(3) unfolding spin_inv_def by blast+
  then have "splk_holder (sp_lock s) = None"
    using spin_inv_holder [OF assms(2)] spin_inside_def by (cases "splk_holder (sp_lock s)") metis+
  then show ?thesis using out tas_won
    by (intro spin_invI_inside [of c]) (simp_all add: goto_def setlock_def spin_inside_def)
next
  case (holder c)
  have "spin_inside (sp_pc s c)" using holder by (simp add: spin_inside_def)
  note i = spin_inv_inside [OF assms(2) this]
  show ?thesis using i holder
    by (intro spin_invI_inside [of c]) (simp_all add: goto_def setlock_def spin_inside_def)
next
  case (rel c)
  have "spin_inside (sp_pc s c)" using rel by (simp add: spin_inside_def)
  note i = spin_inv_inside [OF assms(2) this]
  show ?thesis using i rel
    by (intro spin_invI_inside [of c]) (simp_all add: goto_def setlock_def spin_inside_def)
next
  case (unlock c)
  have "spin_inside (sp_pc s c)" using unlock by (simp add: spin_inside_def)
  note i = spin_inv_inside [OF assms(2) this]
  have "\<not> spin_inside (sp_pc s' d)" "sp_pc s' d \<noteq> SPanic" for d
    using i(1,4) [of d] unlock by (auto simp: goto_def setlock_def spin_inside_def)
  moreover have "splk_holder (sp_lock s') = None" "splk_lock (sp_lock s') = 0"
    using i(3) unlock by (simp_all add: goto_def setlock_def)
  moreover have "sp_pc s' d \<noteq> SHeld" for d
    using calculation(1) [of d] by (auto simp: spin_inside_def)
  ultimately show ?thesis unfolding spin_inv_def by simp
qed (use assms(2) spin_inv_outside in \<open>simp_all add: spin_inside_def\<close>)

lemma spin_inv_reachable: "spin_step\<^sup>*\<^sup>* spin_init s \<Longrightarrow> spin_inv s"
  by (induction rule: rtranclp_induct) (auto intro: spin_inv_init spin_inv_step)

text \<open>
  \<^bold>\<open>C3.\<close> In every reachable state of any number of CPUs contending for a spinlock, at most one
  CPU is past the test-and-set and not yet out of \<^verbatim>\<open>spinlock_release\<close>; the holder field names
  exactly the CPU in the critical section, so neither the self-deadlock panic nor the
  ownership assertion of the release can fire for CPUs that call acquire and release in turn;
  and whenever the lock word is set some CPU is inside and able to proceed to releasing it.
\<close>

theorem spinlock_mutual_exclusion:
  assumes "spin_step\<^sup>*\<^sup>* spin_init s"
  shows "(\<forall>c d. spin_inside (sp_pc s c) \<and> spin_inside (sp_pc s d) \<longrightarrow> c = d) \<and>
    (\<forall>c. splk_holder (sp_lock s) = Some c \<longleftrightarrow> sp_pc s c = SHeld) \<and>
    (\<forall>c. sp_pc s c \<noteq> SPanic) \<and>
    (splk_lock (sp_lock s) \<noteq> 0 \<longrightarrow>
       (\<exists>c s'. spin_inside (sp_pc s c) \<and> spin_step s s' \<and> sp_pc s' c \<noteq> sp_pc s c \<and> sp_pc s' c \<noteq> SPanic))"
proof -
  have inv: "spin_inv s" by (rule spin_inv_reachable [OF assms])
  have "\<exists>c s'. spin_inside (sp_pc s c) \<and> spin_step s s' \<and> sp_pc s' c \<noteq> sp_pc s c \<and> sp_pc s' c \<noteq> SPanic"
    if "splk_lock (sp_lock s) \<noteq> 0"
  proof -
    obtain c where c: "spin_inside (sp_pc s c)" using inv \<open>splk_lock (sp_lock s) \<noteq> 0\<close> by (auto simp: spin_inv_def)
    then consider "sp_pc s c = SGot" | "sp_pc s c = SHeld" | "sp_pc s c = SRel"
      by (auto simp: spin_inside_def)
    then show ?thesis
    proof cases
      case 1
      show ?thesis
        by (rule exI [of _ c], rule exI, intro conjI c, rule spin_step.holder [OF 1])
          (simp_all add: goto_def 1)
    next
      case 2
      then have "splk_holder (sp_lock s) = Some c" using inv by (simp add: spin_inv_def)
      show ?thesis
        by (rule exI [of _ c], rule exI, intro conjI c, rule spin_step.rel [OF 2 \<open>splk_holder (sp_lock s) = Some c\<close>])
          (simp_all add: goto_def 2)
    next
      case 3
      show ?thesis
        by (rule exI [of _ c], rule exI, intro conjI c, rule spin_step.unlock [OF 3])
          (simp_all add: goto_def 3)
    qed
  qed
  then show ?thesis using inv unfolding spin_inv_def by blast
qed

theorem spinlock_mutual_exclusion_witness:
  "\<exists>s. spin_step\<^sup>*\<^sup>* spin_init s \<and> sp_pc s 1 = SEnter \<and> splk_holder (sp_lock s) = None"
proof -
  let ?s = "goto 1 SEnter spin_init"
  have "spin_step\<^sup>*\<^sup>* spin_init ?s"
    by (intro r_into_rtranclp spin_step.call) (simp add: spin_init_def)
  moreover from spinlock_mutual_exclusion [OF this]
  have "splk_holder (sp_lock ?s) = Some c \<longleftrightarrow> sp_pc ?s c = SHeld" for c by blast
  then have "splk_holder (sp_lock ?s) \<noteq> Some c" for c by (simp add: goto_def spin_init_def)
  then have "splk_holder (sp_lock ?s) = None" by (cases "splk_holder (sp_lock ?s)") simp_all
  ultimately show ?thesis by (intro exI [of _ ?s]) (simp add: goto_def)
qed

end
