(* ===== verification/Synch.thy ===== *)
theory Synch
  imports Spinlock
begin

text \<open>
  Semaphores and locks (\<^verbatim>\<open>kern/thread/synch.c\<close>) used by any number of threads at once.
  Each operation is broken at the points where other threads can interfere, that is where it
  acquires or releases the spinlock of the object or sleeps; a program counter per thread says
  where in \<^verbatim>\<open>P\<close>, \<^verbatim>\<open>V\<close>, \<^verbatim>\<open>lock_acquire\<close> or \<^verbatim>\<open>lock_release\<close> it is. Spinlock acquisition is
  one step that is enabled while the spinlock is free (theory \<open>Spinlock\<close> shows the
  test-and-set loop gives that); sleeping puts the thread on the channel and frees the
  spinlock in one step, because \<^verbatim>\<open>thread_switch\<close> keeps the spinlock until the thread is on
  the list; waking moves the first sleeper back to the re-acquisition of the spinlock.

  The theory shows, for every reachable state, that semaphores conserve their count and locks
  exclude each other, that no assertion fails, and that no wakeup is lost: a thread never
  sleeps on while the count is positive (the lock free) unless another thread is already on
  its way to take it.
\<close>

subsection \<open>Creation and destruction\<close>

record semaphore =
  sem_name :: string
  sem_wchan :: "nat list"
  sem_lock :: spinlock
  sem_count :: u32

definition sem_create :: "bool \<Rightarrow> bool \<Rightarrow> bool \<Rightarrow> string \<Rightarrow> u32 \<Rightarrow> semaphore option" where
  "sem_create ok1 ok2 ok3 name initial_count =
     (if \<not> ok1 then None
      else if \<not> ok2 then None
      else if \<not> ok3 then None
      else Some \<lparr>sem_name = name, sem_wchan = [], sem_lock = spinlock_init,
                 sem_count = initial_count\<rparr>)"

definition sem_destroy :: "semaphore option \<Rightarrow> (unit, unit) res" where
  "sem_destroy sem =
     (case sem of None \<Rightarrow> Panic
      | Some s \<Rightarrow> kassert (splk_holder (sem_lock s) = None) (kassert (splk_lock (sem_lock s) = 0)
          (kassert (sem_wchan s = []) (Ok () ()))))"

record klock =
  lk_name :: string
  lk_wchan :: "nat list"
  lk_spinlock :: spinlock
  lk_thread :: "nat option"

definition lock_create :: "bool \<Rightarrow> bool \<Rightarrow> bool \<Rightarrow> string \<Rightarrow> klock option" where
  "lock_create ok1 ok2 ok3 name =
     (if \<not> ok1 then None
      else if \<not> ok2 then None
      else if \<not> ok3 then None
      else Some \<lparr>lk_name = name, lk_wchan = [], lk_spinlock = spinlock_init, lk_thread = None\<rparr>)"

definition lock_destroy :: "klock option \<Rightarrow> (unit, unit) res" where
  "lock_destroy lock =
     (case lock of None \<Rightarrow> Panic
      | Some l \<Rightarrow> kassert (lk_thread l = None) (kassert (splk_holder (lk_spinlock l) = None)
          (kassert (splk_lock (lk_spinlock l) = 0) (kassert (lk_wchan l = []) (Ok () ())))))"

definition lock_do_i_hold :: "nat \<Rightarrow> klock option \<Rightarrow> (bool, unit) res" where
  "lock_do_i_hold me lock =
     (case lock of None \<Rightarrow> Panic | Some l \<Rightarrow> Ok (lk_thread l = Some me) ())"

text \<open>
  Condition variables: the operations are empty in this tree, and the structure holds only
  a name.
\<close>

record cv =
  cv_name :: string

definition cv_create :: "bool \<Rightarrow> bool \<Rightarrow> string \<Rightarrow> cv option" where
  "cv_create ok1 ok2 name = (if \<not> ok1 then None else if \<not> ok2 then None else Some \<lparr>cv_name = name\<rparr>)"

definition cv_destroy :: "cv option \<Rightarrow> (unit, unit) res" where
  "cv_destroy cv = (case cv of None \<Rightarrow> Panic | Some c \<Rightarrow> Ok () ())"

definition cv_wait :: "cv \<Rightarrow> klock \<Rightarrow> (unit, klock) res" where
  "cv_wait cv lock = Ok () lock"

definition cv_signal :: "cv \<Rightarrow> klock \<Rightarrow> (unit, klock) res" where
  "cv_signal cv lock = Ok () lock"

definition cv_broadcast :: "cv \<Rightarrow> klock \<Rightarrow> (unit, klock) res" where
  "cv_broadcast cv lock = Ok () lock"

subsection \<open>Semaphores under interleaving\<close>

datatype sempc =
    SemIdle
  | P_lock    \<comment> \<open>about to take the spinlock, on entry or after waking up\<close>
  | P_loop    \<comment> \<open>at the test of the while loop\<close>
  | P_asleep
  | P_take    \<comment> \<open>after the loop, before the decrement\<close>
  | P_unlock
  | V_lock
  | V_inc
  | V_wake
  | V_unlock
  | SemPanic

text \<open>
  The semaphore, the program counters and the interrupt flags of the threads, and two
  counters of completed increments and decrements that the code does not have.
\<close>

record semstate =
  ss_count :: u32
  ss_holder :: "nat option"
  ss_wchan :: "nat list"
  ss_pc :: "nat \<Rightarrow> sempc"
  ss_intr :: "nat \<Rightarrow> bool"
  ss_incs :: nat
  ss_decs :: nat

definition sgoto :: "nat \<Rightarrow> sempc \<Rightarrow> semstate \<Rightarrow> semstate" where
  "sgoto t p s = s\<lparr>ss_pc := (ss_pc s)(t := p)\<rparr>"

definition slock :: "nat option \<Rightarrow> semstate \<Rightarrow> semstate" where
  "slock h s = s\<lparr>ss_holder := h\<rparr>"

inductive P_step :: "nat \<Rightarrow> semstate \<Rightarrow> semstate \<Rightarrow> bool" for t where
  P_call: "ss_pc s t = SemIdle \<Longrightarrow> \<not> ss_intr s t \<Longrightarrow> P_step t s (sgoto t P_lock s)"
| P_intr: "ss_pc s t = SemIdle \<Longrightarrow> ss_intr s t \<Longrightarrow> P_step t s (sgoto t SemPanic s)"
| P_acquire: "ss_pc s t = P_lock \<Longrightarrow> ss_holder s = None \<Longrightarrow>
    P_step t s (sgoto t P_loop (slock (Some t) s))"
| P_sleep: "ss_pc s t = P_loop \<Longrightarrow> ss_count s = 0 \<Longrightarrow>
    P_step t s (sgoto t P_asleep (slock None (s\<lparr>ss_wchan := ss_wchan s @ [t]\<rparr>)))"
| P_exit_loop: "ss_pc s t = P_loop \<Longrightarrow> ss_count s \<noteq> 0 \<Longrightarrow> P_step t s (sgoto t P_take s)"
| P_assert: "ss_pc s t = P_take \<Longrightarrow> \<not> ss_count s > 0 \<Longrightarrow> P_step t s (sgoto t SemPanic s)"
| P_dec: "ss_pc s t = P_take \<Longrightarrow> ss_count s > 0 \<Longrightarrow>
    P_step t s (sgoto t P_unlock (s\<lparr>ss_count := ss_count s - 1, ss_decs := Suc (ss_decs s)\<rparr>))"
| P_release: "ss_pc s t = P_unlock \<Longrightarrow> P_step t s (sgoto t SemIdle (slock None s))"

inductive V_step :: "nat \<Rightarrow> semstate \<Rightarrow> semstate \<Rightarrow> bool" for t where
  V_call: "ss_pc s t = SemIdle \<Longrightarrow> V_step t s (sgoto t V_lock s)"
| V_acquire: "ss_pc s t = V_lock \<Longrightarrow> ss_holder s = None \<Longrightarrow>
    V_step t s (sgoto t V_inc (slock (Some t) s))"
| V_increment: "ss_pc s t = V_inc \<Longrightarrow> ss_count s + 1 > 0 \<Longrightarrow>
    V_step t s (sgoto t V_wake (s\<lparr>ss_count := ss_count s + 1, ss_incs := Suc (ss_incs s)\<rparr>))"
| V_overflow: "ss_pc s t = V_inc \<Longrightarrow> \<not> ss_count s + 1 > 0 \<Longrightarrow>
    V_step t s (sgoto t SemPanic (s\<lparr>ss_count := ss_count s + 1, ss_incs := Suc (ss_incs s)\<rparr>))"
| V_wakeone: "ss_pc s t = V_wake \<Longrightarrow> ss_wchan s = u # us \<Longrightarrow>
    V_step t s (sgoto t V_unlock (sgoto u P_lock (s\<lparr>ss_wchan := us\<rparr>)))"
| V_wakenone: "ss_pc s t = V_wake \<Longrightarrow> ss_wchan s = [] \<Longrightarrow> V_step t s (sgoto t V_unlock s)"
| V_release: "ss_pc s t = V_unlock \<Longrightarrow> V_step t s (sgoto t SemIdle (slock None s))"

definition sem_step :: "semstate \<Rightarrow> semstate \<Rightarrow> bool" where
  "sem_step s s' \<longleftrightarrow> (\<exists>t. P_step t s s' \<or> V_step t s s')"

definition sem_init :: "u32 \<Rightarrow> (nat \<Rightarrow> bool) \<Rightarrow> semstate" where
  "sem_init n intr = \<lparr>ss_count = n, ss_holder = None, ss_wchan = [], ss_pc = \<lambda>_. SemIdle,
     ss_intr = intr, ss_incs = 0, ss_decs = 0\<rparr>"

definition sem_crit :: "sempc \<Rightarrow> bool" where
  "sem_crit p \<longleftrightarrow> p \<in> {P_loop, P_take, P_unlock, V_inc, V_wake, V_unlock}"

text \<open>Threads that are on their way to the test of the loop or to a wakeup.\<close>

definition sem_coming :: "sempc \<Rightarrow> bool" where
  "sem_coming p \<longleftrightarrow> p \<in> {P_lock, P_loop, P_take, V_wake}"

text \<open>
  The invariant, in parts. \<open>sem_inv\<close> assumes that the increments so far do not overflow the
  counter.
\<close>

definition sem_excl :: "semstate \<Rightarrow> bool" where
  "sem_excl s \<longleftrightarrow> (\<forall>t. ss_holder s = Some t \<longleftrightarrow> sem_crit (ss_pc s t))"

definition sem_sleepers :: "semstate \<Rightarrow> bool" where
  "sem_sleepers s \<longleftrightarrow> distinct (ss_wchan s) \<and> (\<forall>t. t \<in> set (ss_wchan s) \<longleftrightarrow> ss_pc s t = P_asleep)"

definition sem_balance :: "u32 \<Rightarrow> semstate \<Rightarrow> bool" where
  "sem_balance n s \<longleftrightarrow> unat (ss_count s) + ss_decs s = unat n + ss_incs s \<and>
     (\<forall>t. ss_pc s t = P_take \<longrightarrow> ss_count s \<noteq> 0) \<and> (\<forall>t. ss_pc s t = SemPanic \<longrightarrow> ss_intr s t)"

definition sem_active :: "semstate \<Rightarrow> nat set" where
  "sem_active s = {t. sem_coming (ss_pc s t)}"

definition sem_nolost :: "semstate \<Rightarrow> bool" where
  "sem_nolost s \<longleftrightarrow> finite (sem_active s) \<and>
     (ss_wchan s \<noteq> [] \<longrightarrow> unat (ss_count s) \<le> card (sem_active s))"

lemmas sem_upd = sgoto_def slock_def

lemma sem_crit_simps [simp]:
  "\<not> sem_crit SemIdle" "\<not> sem_crit P_lock" "sem_crit P_loop" "\<not> sem_crit P_asleep" "sem_crit P_take"
  "sem_crit P_unlock" "\<not> sem_crit V_lock" "sem_crit V_inc" "sem_crit V_wake" "sem_crit V_unlock"
  "\<not> sem_crit SemPanic"
  by (simp_all add: sem_crit_def)

lemma sem_coming_simps [simp]:
  "\<not> sem_coming SemIdle" "sem_coming P_lock" "sem_coming P_loop" "\<not> sem_coming P_asleep"
  "sem_coming P_take" "\<not> sem_coming P_unlock" "\<not> sem_coming V_lock" "\<not> sem_coming V_inc"
  "sem_coming V_wake" "\<not> sem_coming V_unlock" "\<not> sem_coming SemPanic"
  by (simp_all add: sem_coming_def)

lemma sgoto_fields [simp]:
  "ss_count (sgoto t p s) = ss_count s" "ss_holder (sgoto t p s) = ss_holder s"
  "ss_wchan (sgoto t p s) = ss_wchan s" "ss_intr (sgoto t p s) = ss_intr s"
  "ss_incs (sgoto t p s) = ss_incs s" "ss_decs (sgoto t p s) = ss_decs s"
  "ss_pc (sgoto t p s) = (ss_pc s)(t := p)"
  by (simp_all add: sgoto_def)

lemma slock_fields [simp]:
  "ss_count (slock h s) = ss_count s" "ss_holder (slock h s) = h"
  "ss_wchan (slock h s) = ss_wchan s" "ss_intr (slock h s) = ss_intr s"
  "ss_incs (slock h s) = ss_incs s" "ss_decs (slock h s) = ss_decs s" "ss_pc (slock h s) = ss_pc s"
  by (simp_all add: slock_def)

lemma sem_active_sgoto:
  "sem_active (sgoto t p s) = (if sem_coming p then insert t (sem_active s) else sem_active s - {t})"
  by (auto simp: sem_active_def)

lemma sem_active_cong [simp]:
  "sem_active (slock h s) = sem_active s"
  "sem_active (s\<lparr>ss_wchan := w\<rparr>) = sem_active s"
  "sem_active (s\<lparr>ss_count := c, ss_incs := i\<rparr>) = sem_active s"
  "sem_active (s\<lparr>ss_count := c, ss_decs := i\<rparr>) = sem_active s"
  by (simp_all add: sem_active_def)

definition sem_inv :: "u32 \<Rightarrow> semstate \<Rightarrow> bool" where
  "sem_inv n s \<longleftrightarrow> sem_excl s \<and> sem_sleepers s \<and> sem_balance n s \<and> sem_nolost s"

lemma sem_excl_enter:
  "sem_excl s \<Longrightarrow> ss_holder s = None \<Longrightarrow> sem_crit p \<Longrightarrow> sem_excl (sgoto t p (slock (Some t) s))"
  by (auto simp: sem_excl_def)

lemma sem_excl_only:
  "sem_excl s \<Longrightarrow> sem_crit (ss_pc s t) \<Longrightarrow> sem_crit (ss_pc s u) \<Longrightarrow> u = t"
  unfolding sem_excl_def by (metis option.inject)

lemma sem_excl_leave:
  "sem_excl s \<Longrightarrow> sem_crit (ss_pc s t) \<Longrightarrow> \<not> sem_crit p \<Longrightarrow> sem_excl (sgoto t p (slock None s))"
proof -
  assume a: "sem_excl s" "sem_crit (ss_pc s t)" "\<not> sem_crit p"
  have "\<not> sem_crit (((ss_pc s)(t := p)) u)" for u
    using a(3) sem_excl_only [OF a(1,2), of u] by (cases "u = t") auto
  then show ?thesis by (simp add: sem_excl_def)
qed

lemma sem_excl_stay:
  "sem_excl s \<Longrightarrow> sem_crit (ss_pc s t) = sem_crit p \<Longrightarrow> sem_excl (sgoto t p s)"
  by (auto simp: sem_excl_def)

lemma sem_sleepers_stay:
  "sem_sleepers s \<Longrightarrow> ss_pc s t \<noteq> P_asleep \<Longrightarrow> p \<noteq> P_asleep \<Longrightarrow> sem_sleepers (sgoto t p s)"
  by (auto simp: sem_sleepers_def)

lemma sem_count_dec: "c > 0 \<Longrightarrow> unat (c - 1 :: u32) = unat c - 1"
  by (subst unat_diff_small) (auto simp: u32_order)

lemma P_step_inv:
  assumes "P_step t s s'" "sem_inv n s"
  shows "sem_inv n s'"
proof -
  from assms(2) have ex: "sem_excl s" and sl: "sem_sleepers s" and ba: "sem_balance n s"
    and nl: "sem_nolost s" by (auto simp: sem_inv_def)
  have fin: "finite (sem_active s)" using nl by (simp add: sem_nolost_def)
  show ?thesis
    using assms(1)
  proof (cases rule: P_step.cases)
    case P_call
    moreover have "card (sem_active s) \<le> card (insert t (sem_active s))"
      using fin by (intro card_mono) auto
    ultimately show ?thesis using sl ba nl sem_excl_stay [OF ex, of t P_lock]
      sem_sleepers_stay [OF sl, of t P_lock]
      by (auto simp: sem_inv_def sem_balance_def sem_nolost_def sem_active_sgoto)
  next
    case P_intr
    then have "t \<notin> sem_active s" by (simp add: sem_active_def)
    then show ?thesis using P_intr sl ba nl sem_excl_stay [OF ex, of t SemPanic]
      sem_sleepers_stay [OF sl, of t SemPanic]
      by (auto simp: sem_inv_def sem_balance_def sem_nolost_def sem_active_sgoto)
  next
    case P_acquire
    then have "t \<in> sem_active s" by (simp add: sem_active_def)
    then show ?thesis using P_acquire ba nl sl sem_excl_enter [OF ex, of P_loop t]
      by (auto simp: sem_inv_def sem_balance_def sem_nolost_def sem_active_sgoto sem_sleepers_def
          insert_absorb)
  next
    case P_sleep
    then have "t \<notin> set (ss_wchan s)" using sl by (simp add: sem_sleepers_def)
    moreover have "sem_excl (s\<lparr>ss_wchan := ss_wchan s @ [t]\<rparr>)" using ex by (simp add: sem_excl_def)
    from sem_excl_leave [OF this, of t P_asleep]
    have "sem_excl s'" using P_sleep by simp
    ultimately show ?thesis using P_sleep ba nl sl
      by (auto simp: sem_inv_def sem_balance_def sem_nolost_def sem_active_sgoto sem_sleepers_def)
  next
    case P_exit_loop
    then have "t \<in> sem_active s" by (simp add: sem_active_def)
    then show ?thesis using P_exit_loop ba nl sl sem_excl_stay [OF ex, of t P_take]
      by (auto simp: sem_inv_def sem_balance_def sem_nolost_def sem_active_sgoto sem_sleepers_def
          insert_absorb)
  next
    case P_assert
    then show ?thesis using ba by (auto simp: sem_balance_def word_gt_0)
  next
    case P_dec
    then have t: "t \<in> sem_active s" by (simp add: sem_active_def)
    have "ss_pc s u \<noteq> P_take" if "u \<noteq> t" for u
      using sem_excl_only [OF ex, of t u] P_dec that by auto
    moreover have "sem_excl (s\<lparr>ss_count := ss_count s - 1, ss_decs := Suc (ss_decs s)\<rparr>)"
      using ex by (simp add: sem_excl_def)
    from sem_excl_stay [OF this, of t P_unlock] have "sem_excl s'" using P_dec by simp
    moreover have "unat (ss_count s) > 0" using P_dec by (simp add: u32_less_iff)
    ultimately show ?thesis using P_dec ba nl sl t sem_count_dec [of "ss_count s"]
      by (auto simp: sem_inv_def sem_balance_def sem_nolost_def sem_active_sgoto sem_sleepers_def
          card_Diff_singleton_if)
  next
    case P_release
    then have "t \<notin> sem_active s" by (simp add: sem_active_def)
    then show ?thesis using P_release ba nl sl sem_excl_leave [OF ex, of t SemIdle]
      by (auto simp: sem_inv_def sem_balance_def sem_nolost_def sem_active_sgoto sem_sleepers_def)
  qed
qed

lemma V_step_inv:
  assumes "V_step t s s'" "sem_inv n s" "unat n + ss_incs s' < 2 ^ 32"
  shows "sem_inv n s'"
proof -
  from assms(2) have ex: "sem_excl s" and sl: "sem_sleepers s" and ba: "sem_balance n s"
    and nl: "sem_nolost s" by (auto simp: sem_inv_def)
  have fin: "finite (sem_active s)" using nl by (simp add: sem_nolost_def)
  show ?thesis
    using assms(1)
  proof (cases rule: V_step.cases)
    case V_call
    then have "t \<notin> sem_active s" by (simp add: sem_active_def)
    then show ?thesis using V_call sl ba nl sem_excl_stay [OF ex, of t V_lock]
      by (auto simp: sem_inv_def sem_balance_def sem_nolost_def sem_active_sgoto sem_sleepers_def)
  next
    case V_acquire
    then have "t \<notin> sem_active s" by (simp add: sem_active_def)
    then show ?thesis using V_acquire ba nl sl sem_excl_enter [OF ex, of V_inc t]
      by (auto simp: sem_inv_def sem_balance_def sem_nolost_def sem_active_sgoto sem_sleepers_def)
  next
    case V_increment
    have "unat (ss_count s) < 2 ^ 32 - 1"
      using assms(3) ba V_increment by (simp add: sem_balance_def)
    then have c: "unat (ss_count s + 1) = Suc (unat (ss_count s))" by (simp add: unat_word_ariths)
    have t: "t \<notin> sem_active s" using V_increment by (simp add: sem_active_def)
    have "sem_excl (s\<lparr>ss_count := ss_count s + 1, ss_incs := Suc (ss_incs s)\<rparr>)"
      using ex by (simp add: sem_excl_def)
    from sem_excl_stay [OF this, of t V_wake] have "sem_excl s'" using V_increment by simp
    moreover have "ss_count s + 1 \<noteq> 0" using c by (metis nat.distinct(1) unat_0)
    ultimately show ?thesis using V_increment ba nl sl t c fin
      by (auto simp: sem_inv_def sem_balance_def sem_nolost_def sem_active_sgoto sem_sleepers_def)
  next
    case V_overflow
    have "unat (ss_count s) < 2 ^ 32 - 1"
      using assms(3) ba V_overflow by (simp add: sem_balance_def)
    then have "unat (ss_count s + 1) = Suc (unat (ss_count s))" by (simp add: unat_word_ariths)
    then show ?thesis using V_overflow by (simp add: u32_less_iff)
  next
    case (V_wakeone u us)
    have u: "ss_pc s u = P_asleep" "u \<notin> set us" "distinct us"
      using V_wakeone sl by (auto simp: sem_sleepers_def)
    then have ut: "u \<noteq> t" "u \<notin> sem_active s" and t: "t \<in> sem_active s"
      using V_wakeone by (auto simp: sem_active_def)
    let ?s = "sgoto u P_lock (s\<lparr>ss_wchan := us\<rparr>)"
    have "sem_excl (s\<lparr>ss_wchan := us\<rparr>)" using ex by (simp add: sem_excl_def)
    from sem_excl_stay [OF this, of u P_lock] u(1) have "sem_excl ?s" by simp
    from sem_excl_stay [OF this, of t V_unlock] have "sem_excl s'" using V_wakeone ut(1) by simp
    moreover have "card (insert u (sem_active s) - {t}) = card (sem_active s)"
      using ut t fin by simp
    moreover have "v \<in> set us \<longleftrightarrow> v \<noteq> u \<and> ss_pc s v = P_asleep" for v
      using sl V_wakeone u(2) by (auto simp: sem_sleepers_def)
    ultimately show ?thesis using V_wakeone ba nl u ut
      by (auto simp: sem_inv_def sem_balance_def sem_nolost_def sem_active_sgoto sem_sleepers_def)
  next
    case V_wakenone
    then show ?thesis using V_wakenone ba nl sl sem_excl_stay [OF ex, of t V_unlock]
      by (auto simp: sem_inv_def sem_balance_def sem_nolost_def sem_active_sgoto sem_sleepers_def)
  next
    case V_release
    then have "t \<notin> sem_active s" by (simp add: sem_active_def)
    then show ?thesis using V_release ba nl sl sem_excl_leave [OF ex, of t SemIdle]
      by (auto simp: sem_inv_def sem_balance_def sem_nolost_def sem_active_sgoto sem_sleepers_def)
  qed
qed

lemma sem_incs_mono: "sem_step s s' \<Longrightarrow> ss_incs s \<le> ss_incs s'"
  by (auto simp: sem_step_def elim!: P_step.cases V_step.cases)

lemma sem_intr_const: "sem_step s s' \<Longrightarrow> ss_intr s' = ss_intr s"
  by (auto simp: sem_step_def elim!: P_step.cases V_step.cases)

lemma sem_inv_reachable:
  assumes "sem_step\<^sup>*\<^sup>* (sem_init n intr) s" "unat n + ss_incs s < 2 ^ 32"
  shows "sem_inv n s"
  using assms
proof (induction rule: rtranclp_induct)
  case base
  then show ?case
    by (simp add: sem_init_def sem_inv_def sem_excl_def sem_sleepers_def sem_balance_def
        sem_nolost_def sem_active_def)
next
  case (step s s')
  then have "sem_inv n s" using sem_incs_mono by fastforce
  then show ?case using step P_step_inv V_step_inv by (auto simp: sem_step_def)
qed

text \<open>
  \<^bold>\<open>C2.\<close> However the calls of \<^verbatim>\<open>P\<close> and \<^verbatim>\<open>V\<close> of any number of threads interleave (with fewer than
  \<open>2^32\<close> increments in all), the count is the initial count plus completed \<^verbatim>\<open>V\<close> increments
  minus completed \<^verbatim>\<open>P\<close> decrements, so no more \<^verbatim>\<open>P\<close> calls get through than were allowed; at most
  one thread is between acquiring and releasing the semaphore's spinlock; and only a call of
  \<^verbatim>\<open>P\<close> from an interrupt handler can fail an assertion.
\<close>

theorem semaphore_conservation:
  assumes "sem_step\<^sup>*\<^sup>* (sem_init n intr) s" "unat n + ss_incs s < 2 ^ 32"
  shows "unat (ss_count s) + ss_decs s = unat n + ss_incs s \<and> ss_decs s \<le> unat n + ss_incs s \<and>
    (\<forall>t u. sem_crit (ss_pc s t) \<and> sem_crit (ss_pc s u) \<longrightarrow> t = u) \<and>
    (\<forall>t. ss_pc s t = SemPanic \<longrightarrow> ss_intr s t)"
proof -
  have "sem_inv n s" by (rule sem_inv_reachable [OF assms])
  then have b: "sem_balance n s" and e: "sem_excl s" by (simp_all add: sem_inv_def)
  then show ?thesis using sem_excl_only [OF e] by (auto simp: sem_balance_def)
qed

lemma sem_step_P: "P_step t s s' \<Longrightarrow> sem_step s s'"
  by (auto simp: sem_step_def)

lemma sem_P_run:
  "\<exists>s. sem_step\<^sup>*\<^sup>* (sem_init 0 (\<lambda>_. False)) s \<and> ss_pc s 1 = P_asleep \<and> ss_wchan s = [1] \<and>
     ss_incs s = 0 \<and> (\<forall>t. t \<noteq> 1 \<longrightarrow> ss_pc s t = SemIdle)"
proof -
  let ?s0 = "sem_init 0 (\<lambda>_. False)"
  let ?s1 = "sgoto 1 P_lock ?s0"
  let ?s2 = "sgoto 1 P_loop (slock (Some 1) ?s1)"
  let ?s3 = "sgoto 1 P_asleep (slock None (?s2\<lparr>ss_wchan := ss_wchan ?s2 @ [1]\<rparr>))"
  have a: "sem_step ?s0 ?s1" by (rule sem_step_P, rule P_step.P_call) (simp_all add: sem_init_def)
  have b: "sem_step ?s1 ?s2" by (rule sem_step_P, rule P_step.P_acquire) (simp_all add: sem_init_def)
  have c: "sem_step ?s2 ?s3" by (rule sem_step_P, rule P_step.P_sleep) (simp_all add: sem_init_def)
  have "sem_step\<^sup>*\<^sup>* ?s0 ?s3"
    by (rule converse_rtranclp_into_rtranclp [of sem_step, OF a], rule converse_rtranclp_into_rtranclp [of sem_step, OF b],
        rule r_into_rtranclp [of sem_step, OF c])
  then show ?thesis by (intro exI [of _ ?s3]) (simp add: sem_init_def)
qed

theorem semaphore_conservation_witness:
  "\<exists>s. sem_step\<^sup>*\<^sup>* (sem_init 0 (\<lambda>_. False)) s \<and> ss_pc s 1 = P_asleep \<and> ss_decs s = 0"
proof -
  obtain s where s: "sem_step\<^sup>*\<^sup>* (sem_init 0 (\<lambda>_. False)) s" "ss_pc s 1 = P_asleep" "ss_incs s = 0"
    using sem_P_run by blast
  then show ?thesis using semaphore_conservation [OF s(1)] by auto
qed

text \<open>
  \<^bold>\<open>C6.\<close> No wakeup of a semaphore is lost: while threads sleep on the channel, the count is at
  most the number of threads that are already on their way to take it or to wake a sleeper.
  In particular, once every thread is either outside the operations or asleep, a thread sleeps
  only if the count is 0.
\<close>

theorem semaphore_no_lost_wakeup:
  assumes "sem_step\<^sup>*\<^sup>* (sem_init n intr) s" "unat n + ss_incs s < 2 ^ 32"
    and "ss_pc s t = P_asleep"
  shows "unat (ss_count s) \<le> card {u. sem_coming (ss_pc s u)} \<and>
    ((\<forall>u. ss_pc s u = SemIdle \<or> ss_pc s u = P_asleep) \<longrightarrow> ss_count s = 0)"
proof -
  have inv: "sem_inv n s" by (rule sem_inv_reachable [OF assms(1,2)])
  then have "ss_wchan s \<noteq> []" using assms(3) by (auto simp: sem_inv_def sem_sleepers_def)
  with inv have le: "unat (ss_count s) \<le> card {u. sem_coming (ss_pc s u)}"
    by (simp add: sem_inv_def sem_nolost_def sem_active_def)
  moreover have "{u. sem_coming (ss_pc s u)} = {}"
    if "\<forall>u. ss_pc s u = SemIdle \<or> ss_pc s u = P_asleep"
    using that sem_coming_simps(1,4) by (metis (mono_tags, lifting) Collect_empty_eq)
  ultimately show ?thesis by (auto simp: u32_eq_iff)
qed

theorem semaphore_no_lost_wakeup_witness:
  "\<exists>s. sem_step\<^sup>*\<^sup>* (sem_init 0 (\<lambda>_. False)) s \<and> ss_pc s 1 = P_asleep \<and> ss_count s = 0"
proof -
  obtain s where s: "sem_step\<^sup>*\<^sup>* (sem_init 0 (\<lambda>_. False)) s" "ss_pc s 1 = P_asleep" "ss_incs s = 0"
      "\<forall>t. t \<noteq> 1 \<longrightarrow> ss_pc s t = SemIdle"
    using sem_P_run by blast
  then have "\<forall>u. ss_pc s u = SemIdle \<or> ss_pc s u = P_asleep" by metis
  then show ?thesis using semaphore_no_lost_wakeup [OF s(1), of 1] s by auto
qed

subsection \<open>Locks under interleaving\<close>

datatype lkpc =
    LkIdle
  | A_lock    \<comment> \<open>\<^verbatim>\<open>lock_acquire\<close>: about to take the spinlock, on entry or after waking up\<close>
  | A_loop
  | A_asleep
  | A_take
  | A_unlock
  | B_lock    \<comment> \<open>the same three points when the owner of the lock calls \<^verbatim>\<open>lock_acquire\<close> again\<close>
  | B_loop
  | B_asleep
  | LkHeld    \<comment> \<open>returned from \<^verbatim>\<open>lock_acquire\<close>\<close>
  | R_lock    \<comment> \<open>\<^verbatim>\<open>lock_release\<close>, after its ownership assertion\<close>
  | R_clear
  | R_wake
  | R_unlock
  | LkPanic

record lkstate =
  ls_thread :: "nat option"
  ls_holder :: "nat option"
  ls_wchan :: "nat list"
  ls_pc :: "nat \<Rightarrow> lkpc"

definition lgoto :: "nat \<Rightarrow> lkpc \<Rightarrow> lkstate \<Rightarrow> lkstate" where
  "lgoto t p s = s\<lparr>ls_pc := (ls_pc s)(t := p)\<rparr>"

text \<open>
  \<^verbatim>\<open>lock_acquire\<close> does not ask whether the caller owns the lock already. The steps of such a call are the
  same; its program points have names of their own so that the owner can be told from the program points.
  Threads call outside interrupt handlers and hold no other spinlock, so that the assertions of
  \<^verbatim>\<open>wchan_sleep\<close> hold.
\<close>

fun lk_woken :: "lkpc \<Rightarrow> lkpc" where
  "lk_woken B_asleep = B_lock" | "lk_woken _ = A_lock"

inductive lock_acquire_step :: "nat \<Rightarrow> lkstate \<Rightarrow> lkstate \<Rightarrow> bool" for t where
  A_call: "ls_pc s t = LkIdle \<Longrightarrow> lock_acquire_step t s (lgoto t A_lock s)"
| A_acquire: "ls_pc s t = A_lock \<Longrightarrow> ls_holder s = None \<Longrightarrow>
    lock_acquire_step t s (lgoto t A_loop (s\<lparr>ls_holder := Some t\<rparr>))"
| A_sleep: "ls_pc s t = A_loop \<Longrightarrow> ls_thread s \<noteq> None \<Longrightarrow>
    lock_acquire_step t s (lgoto t A_asleep (s\<lparr>ls_holder := None, ls_wchan := ls_wchan s @ [t]\<rparr>))"
| B_call: "ls_pc s t = LkHeld \<Longrightarrow> lock_acquire_step t s (lgoto t B_lock s)"
| B_acquire: "ls_pc s t = B_lock \<Longrightarrow> ls_holder s = None \<Longrightarrow>
    lock_acquire_step t s (lgoto t B_loop (s\<lparr>ls_holder := Some t\<rparr>))"
| B_sleep: "ls_pc s t = B_loop \<Longrightarrow> ls_thread s \<noteq> None \<Longrightarrow>
    lock_acquire_step t s (lgoto t B_asleep (s\<lparr>ls_holder := None, ls_wchan := ls_wchan s @ [t]\<rparr>))"
| B_exit_loop: "ls_pc s t = B_loop \<Longrightarrow> ls_thread s = None \<Longrightarrow>
    lock_acquire_step t s (lgoto t A_take s)"
| A_exit_loop: "ls_pc s t = A_loop \<Longrightarrow> ls_thread s = None \<Longrightarrow>
    lock_acquire_step t s (lgoto t A_take s)"
| A_assert: "ls_pc s t = A_take \<Longrightarrow> ls_thread s \<noteq> None \<Longrightarrow>
    lock_acquire_step t s (lgoto t LkPanic s)"
| A_set: "ls_pc s t = A_take \<Longrightarrow> ls_thread s = None \<Longrightarrow>
    lock_acquire_step t s (lgoto t A_unlock (s\<lparr>ls_thread := Some t\<rparr>))"
| A_release: "ls_pc s t = A_unlock \<Longrightarrow>
    lock_acquire_step t s (lgoto t LkHeld (s\<lparr>ls_holder := None\<rparr>))"

text \<open>
  \<^verbatim>\<open>lock_release\<close> may be called by a thread that holds the lock or, wrongly, by one that
  does not.
\<close>

inductive lock_release_step :: "nat \<Rightarrow> lkstate \<Rightarrow> lkstate \<Rightarrow> bool" for t where
  R_call: "ls_pc s t = LkHeld \<or> ls_pc s t = LkIdle \<Longrightarrow> ls_thread s = Some t \<Longrightarrow>
    lock_release_step t s (lgoto t R_lock s)"
| R_notmine: "ls_pc s t = LkHeld \<or> ls_pc s t = LkIdle \<Longrightarrow> ls_thread s \<noteq> Some t \<Longrightarrow>
    lock_release_step t s (lgoto t LkPanic s)"
| R_acquire: "ls_pc s t = R_lock \<Longrightarrow> ls_holder s = None \<Longrightarrow>
    lock_release_step t s (lgoto t R_clear (s\<lparr>ls_holder := Some t\<rparr>))"
| R_reset: "ls_pc s t = R_clear \<Longrightarrow>
    lock_release_step t s (lgoto t R_wake (s\<lparr>ls_thread := None\<rparr>))"
| R_wakeone: "ls_pc s t = R_wake \<Longrightarrow> ls_wchan s = u # us \<Longrightarrow>
    lock_release_step t s (lgoto t R_unlock (lgoto u (lk_woken (ls_pc s u)) (s\<lparr>ls_wchan := us\<rparr>)))"
| R_wakenone: "ls_pc s t = R_wake \<Longrightarrow> ls_wchan s = [] \<Longrightarrow>
    lock_release_step t s (lgoto t R_unlock s)"
| R_release: "ls_pc s t = R_unlock \<Longrightarrow>
    lock_release_step t s (lgoto t LkIdle (s\<lparr>ls_holder := None\<rparr>))"

definition lock_step :: "lkstate \<Rightarrow> lkstate \<Rightarrow> bool" where
  "lock_step s s' \<longleftrightarrow> (\<exists>t. lock_acquire_step t s s' \<or> lock_release_step t s s')"

definition lock_init :: lkstate where
  "lock_init = \<lparr>ls_thread = None, ls_holder = None, ls_wchan = [], ls_pc = \<lambda>_. LkIdle\<rparr>"

text \<open>Program points inside the spinlock, points that own the lock, and points on the way to it.\<close>

fun lk_crit :: "lkpc \<Rightarrow> bool" where
  "lk_crit A_loop = True" | "lk_crit B_loop = True" | "lk_crit A_take = True" | "lk_crit A_unlock = True"
| "lk_crit R_clear = True" | "lk_crit R_wake = True" | "lk_crit R_unlock = True"
| "lk_crit _ = False"

fun lk_owns :: "lkpc \<Rightarrow> bool" where
  "lk_owns A_unlock = True" | "lk_owns B_lock = True" | "lk_owns B_loop = True" | "lk_owns B_asleep = True" | "lk_owns LkHeld = True" | "lk_owns R_lock = True"
| "lk_owns R_clear = True" | "lk_owns _ = False"

fun lk_coming :: "lkpc \<Rightarrow> bool" where
  "lk_coming A_lock = True" | "lk_coming A_loop = True" | "lk_coming A_take = True"
| "lk_coming R_wake = True" | "lk_coming _ = False"

text \<open>
  The part of the invariant about one thread, given whether it holds the spinlock and whether
  it owns the lock; and the global part: sleepers are distinct, and a free lock with sleepers
  has a thread coming.
\<close>

definition lk_thread_ok :: "lkstate \<Rightarrow> nat \<Rightarrow> bool" where
  "lk_thread_ok s t \<longleftrightarrow>
     (ls_holder s = Some t \<longleftrightarrow> lk_crit (ls_pc s t)) \<and>
     (ls_thread s = Some t \<longleftrightarrow> lk_owns (ls_pc s t)) \<and>
     (t \<in> set (ls_wchan s) \<longleftrightarrow> ls_pc s t = A_asleep \<or> ls_pc s t = B_asleep) \<and>
     (ls_pc s t = A_take \<or> ls_pc s t = R_wake \<longrightarrow> ls_thread s = None)"

definition lk_inv :: "lkstate \<Rightarrow> bool" where
  "lk_inv s \<longleftrightarrow> (\<forall>t. lk_thread_ok s t) \<and> distinct (ls_wchan s) \<and>
     (ls_wchan s \<noteq> [] \<and> ls_thread s = None \<longrightarrow> (\<exists>t. lk_coming (ls_pc s t)))"

lemma lgoto_fields [simp]:
  "ls_thread (lgoto t p s) = ls_thread s" "ls_holder (lgoto t p s) = ls_holder s"
  "ls_wchan (lgoto t p s) = ls_wchan s" "ls_pc (lgoto t p s) = (ls_pc s)(t := p)"
  by (simp_all add: lgoto_def)

lemma lk_invI:
  assumes "\<And>u. lk_thread_ok s u" "distinct (ls_wchan s)"
    and "ls_wchan s \<noteq> [] \<Longrightarrow> ls_thread s = None \<Longrightarrow> \<exists>t. lk_coming (ls_pc s t)"
  shows "lk_inv s"
  using assms by (simp add: lk_inv_def)

lemma lk_alone:
  assumes "lk_inv s"
  shows "lk_crit (ls_pc s t) \<Longrightarrow> lk_crit (ls_pc s u) \<Longrightarrow> u = t"
    and "lk_owns (ls_pc s t) \<Longrightarrow> lk_owns (ls_pc s u) \<Longrightarrow> u = t"
  using assms unfolding lk_inv_def lk_thread_ok_def by (metis option.inject)+

text \<open>Steps in which only the thread itself moves and the channel stays.\<close>

lemma lk_inv_own_move:
  assumes inv: "lk_inv s"
    and s': "ls_wchan s' = ls_wchan s" "ls_pc s' = (ls_pc s)(t := p)"
    and t: "lk_thread_ok s' t"
    and others: "\<And>u. u \<noteq> t \<Longrightarrow> (ls_holder s' = Some u \<longleftrightarrow> ls_holder s = Some u) \<and>
        (ls_thread s' = Some u \<longleftrightarrow> ls_thread s = Some u) \<and> (ls_pc s u = A_take \<or> ls_pc s u = R_wake \<longrightarrow> ls_thread s' = None)"
    and coming: "ls_wchan s \<noteq> [] \<Longrightarrow> ls_thread s' = None \<Longrightarrow>
        lk_coming p \<or> (\<not> lk_coming (ls_pc s t) \<and> ls_thread s = None)"
  shows "lk_inv s'"
proof (rule lk_invI)
  fix u show "lk_thread_ok s' u"
  proof (cases "u = t")
    case False
    then show ?thesis using inv others [OF False] s' by (simp add: lk_inv_def lk_thread_ok_def)
  qed (use t in simp)
next
  show "distinct (ls_wchan s')" using inv s' by (simp add: lk_inv_def)
next
  assume w: "ls_wchan s' \<noteq> []" "ls_thread s' = None"
  then consider "lk_coming p" | "\<not> lk_coming (ls_pc s t)" "ls_thread s = None"
    using coming s' by auto
  then show "\<exists>u. lk_coming (ls_pc s' u)"
  proof cases
    case 1
    then show ?thesis using s'(2) by (intro exI [of _ t]) simp
  next
    case 2
    then obtain u where u: "lk_coming (ls_pc s u)" using inv w s'(1) by (auto simp: lk_inv_def)
    then have "u \<noteq> t" using 2 by auto
    then show ?thesis using u s'(2) by (intro exI [of _ u]) simp
  qed
qed

lemma lk_ok: "lk_inv s \<Longrightarrow> lk_thread_ok s t"
  by (simp add: lk_inv_def)

lemma lk_take: "lk_inv s \<Longrightarrow> ls_pc s t = A_take \<Longrightarrow> ls_thread s = None" "lk_inv s \<Longrightarrow> ls_pc s t = R_wake \<Longrightarrow> ls_thread s = None"
  using lk_ok [of s t] by (simp_all add: lk_thread_ok_def)

lemma lk_notake: "lk_inv s \<Longrightarrow> lk_crit (ls_pc s t) \<Longrightarrow> u \<noteq> t \<Longrightarrow> ls_pc s u \<noteq> A_take \<and> ls_pc s u \<noteq> R_wake"
  using lk_alone(1) [of s t u] by auto

lemma lock_acquire_step_inv:
  assumes "lock_acquire_step t s s'" "lk_inv s"
  shows "lk_inv s'"
  using assms(1)
proof (cases rule: lock_acquire_step.cases)
  case A_sleep
  note ok = lk_ok [OF assms(2)]
  show ?thesis
  proof (rule lk_invI)
    fix u show "lk_thread_ok s' u"
      using A_sleep ok [of u] ok [of t] lk_alone(1) [OF assms(2), of t u]
      by (cases "u = t") (auto simp: lk_thread_ok_def)
  next
    show "distinct (ls_wchan s')"
      using A_sleep ok [of t] assms(2) by (auto simp: lk_thread_ok_def lk_inv_def)
  qed (use A_sleep in simp)
next
  case B_sleep
  note ok = lk_ok [OF assms(2)]
  show ?thesis
  proof (rule lk_invI)
    fix u show "lk_thread_ok s' u"
      using B_sleep ok [of u] ok [of t] lk_alone(1) [OF assms(2), of t u]
      by (cases "u = t") (auto simp: lk_thread_ok_def)
  next
    show "distinct (ls_wchan s')"
      using B_sleep ok [of t] assms(2) by (auto simp: lk_thread_ok_def lk_inv_def)
  qed (use B_sleep in simp)
next
  case B_exit_loop
  then show ?thesis using lk_ok [OF assms(2), of t] by (simp add: lk_thread_ok_def)
next
  case B_call
  then show ?thesis using lk_ok [OF assms(2), of t] lk_take [OF assms(2)]
    by (intro lk_inv_own_move [OF assms(2), of s' t B_lock]) (auto simp: lk_thread_ok_def)
next
  case B_acquire
  then show ?thesis using lk_ok [OF assms(2), of t] lk_take [OF assms(2)]
    by (intro lk_inv_own_move [OF assms(2), of s' t B_loop]) (auto simp: lk_thread_ok_def)
next
  case A_assert
  then show ?thesis using lk_ok [OF assms(2), of t] by (simp add: lk_thread_ok_def)
next
  case A_call
  then show ?thesis using lk_ok [OF assms(2), of t] lk_take [OF assms(2)]
    by (intro lk_inv_own_move [OF assms(2), of s' t A_lock]) (simp_all add: lk_thread_ok_def)
next
  case A_acquire
  then show ?thesis using lk_ok [OF assms(2), of t] lk_take [OF assms(2)]
    by (intro lk_inv_own_move [OF assms(2), of s' t A_loop]) (simp_all add: lk_thread_ok_def)
next
  case A_exit_loop
  then show ?thesis using lk_ok [OF assms(2), of t] lk_take [OF assms(2)]
    by (intro lk_inv_own_move [OF assms(2), of s' t A_take]) (simp_all add: lk_thread_ok_def)
next
  case A_set
  then show ?thesis using lk_ok [OF assms(2), of t] lk_take [OF assms(2)] lk_notake [OF assms(2), of t]
    by (intro lk_inv_own_move [OF assms(2), of s' t A_unlock]) (simp_all add: lk_thread_ok_def)
next
  case A_release
  then show ?thesis using lk_ok [OF assms(2), of t] lk_take [OF assms(2)] lk_notake [OF assms(2), of t]
    by (intro lk_inv_own_move [OF assms(2), of s' t LkHeld]) (simp_all add: lk_thread_ok_def)
qed

lemma lock_release_step_inv:
  assumes "lock_release_step t s s'" "lk_inv s"
  shows "lk_inv s'"
  using assms(1)
proof (cases rule: lock_release_step.cases)
  case R_call
  then have "ls_pc s t = LkHeld" using lk_ok [OF assms(2), of t] by (auto simp: lk_thread_ok_def)
  then show ?thesis using R_call lk_ok [OF assms(2), of t] lk_take [OF assms(2)]
    by (intro lk_inv_own_move [OF assms(2), of s' t R_lock]) (auto simp: lk_thread_ok_def)
next
  case R_notmine
  then have "ls_pc s t = LkIdle" using lk_ok [OF assms(2), of t] by (auto simp: lk_thread_ok_def)
  then show ?thesis using R_notmine lk_ok [OF assms(2), of t] lk_take [OF assms(2)]
    by (intro lk_inv_own_move [OF assms(2), of s' t LkPanic]) (auto simp: lk_thread_ok_def)
next
  case R_acquire
  then show ?thesis using lk_ok [OF assms(2), of t] lk_take [OF assms(2)]
    by (intro lk_inv_own_move [OF assms(2), of s' t R_clear]) (auto simp: lk_thread_ok_def)
next
  case R_reset
  then show ?thesis using lk_ok [OF assms(2), of t] lk_take [OF assms(2)]
    by (intro lk_inv_own_move [OF assms(2), of s' t R_wake]) (auto simp: lk_thread_ok_def)
next
  case (R_wakeone u us)
  note ok = lk_ok [OF assms(2)]
  have "ls_thread s = None" using R_wakeone lk_take(2) [OF assms(2), of t] by simp
  then have "ls_pc s u \<noteq> B_asleep" using ok [of u] by (auto simp: lk_thread_ok_def)
  moreover have "u \<in> set (ls_wchan s)" "distinct (u # us)" using R_wakeone(3) assms(2) by (simp_all add: lk_inv_def)
  ultimately have u: "ls_pc s u = A_asleep" "u \<notin> set us" "distinct us" using ok [of u] by (simp_all add: lk_thread_ok_def)
  then have ut: "u \<noteq> t" using R_wakeone(2) by auto
  show ?thesis
  proof (rule lk_invI)
    fix v
    show "lk_thread_ok s' v"
      using R_wakeone ok [of v] u ut by (cases "v = t"; cases "v = u") (auto simp: lk_thread_ok_def)
  next
    show "distinct (ls_wchan s')" using R_wakeone u by simp
  next
    show "\<exists>v. lk_coming (ls_pc s' v)" using R_wakeone u ut by (intro exI [of _ u]) simp
  qed
next
  case R_wakenone
  then show ?thesis using lk_ok [OF assms(2), of t] lk_take [OF assms(2)]
    by (intro lk_inv_own_move [OF assms(2), of s' t R_unlock]) (auto simp: lk_thread_ok_def)
next
  case R_release
  then show ?thesis using lk_ok [OF assms(2), of t] lk_take [OF assms(2)]
    by (intro lk_inv_own_move [OF assms(2), of s' t LkIdle]) (auto simp: lk_thread_ok_def)
qed

lemma lk_inv_reachable: "lock_step\<^sup>*\<^sup>* lock_init s \<Longrightarrow> lk_inv s"
proof (induction rule: rtranclp_induct)
  case base
  then show ?case by (simp add: lk_inv_def lk_thread_ok_def lock_init_def)
next
  case (step s s')
  then show ?case using lock_acquire_step_inv lock_release_step_inv by (auto simp: lock_step_def)
qed

text \<open>
  \<^bold>\<open>C1.\<close> Locks exclude each other: in every reachable state at most one thread is between
  setting \<^verbatim>\<open>lk_thread\<close> in \<^verbatim>\<open>lock_acquire\<close> and clearing it in \<^verbatim>\<open>lock_release\<close>, it is the thread
  \<^verbatim>\<open>lk_thread\<close> names (so \<^verbatim>\<open>lock_do_i_hold\<close> answers truthfully), and the assertion of
  \<^verbatim>\<open>lock_acquire\<close> never fails; the one of \<^verbatim>\<open>lock_release\<close> stops exactly threads that do not own
  the lock.
\<close>

theorem lock_mutual_exclusion:
  assumes "lock_step\<^sup>*\<^sup>* lock_init s"
  shows "(\<forall>t u. lk_owns (ls_pc s t) \<and> lk_owns (ls_pc s u) \<longrightarrow> t = u) \<and>
    (\<forall>t. lock_do_i_hold t (Some \<lparr>lk_name = [], lk_wchan = ls_wchan s, lk_spinlock = spinlock_init,
            lk_thread = ls_thread s\<rparr>) = Ok (lk_owns (ls_pc s t)) ()) \<and>
    (\<forall>t s'. lock_acquire_step t s s' \<longrightarrow> ls_pc s' t \<noteq> LkPanic) \<and>
    (\<forall>t s'. lock_release_step t s s' \<and> ls_pc s' t = LkPanic \<longrightarrow> \<not> lk_owns (ls_pc s t))"
proof -
  have inv: "lk_inv s" by (rule lk_inv_reachable [OF assms])
  have "ls_pc s' t \<noteq> LkPanic" if "lock_acquire_step t s s'" for t s'
    using that lk_ok [OF inv, of t] by (cases rule: lock_acquire_step.cases) (auto simp: lk_thread_ok_def)
  moreover have "\<not> lk_owns (ls_pc s t)" if "lock_release_step t s s'" "ls_pc s' t = LkPanic" for t s'
    using that lk_ok [OF inv, of t] by (cases rule: lock_release_step.cases) (auto simp: lk_thread_ok_def)
  moreover have "lock_do_i_hold t (Some \<lparr>lk_name = [], lk_wchan = ls_wchan s, lk_spinlock = spinlock_init,
            lk_thread = ls_thread s\<rparr>) = Ok (lk_owns (ls_pc s t)) ()" for t
    using lk_ok [OF inv, of t] by (auto simp: lock_do_i_hold_def lk_thread_ok_def)
  ultimately show ?thesis using lk_alone(2) [OF inv] by blast
qed

text \<open>A run in which thread 1 takes the lock and thread 2 goes to sleep on it.\<close>

lemma lock_run_reaches:
  "\<exists>s. lock_step\<^sup>*\<^sup>* lock_init s \<and> ls_pc s 1 = LkHeld \<and> ls_pc s 2 = A_asleep \<and> ls_wchan s = [2]"
proof -
  have acq: "lock_step\<^sup>*\<^sup>* s0 s' \<Longrightarrow> lock_acquire_step t s' s'' \<Longrightarrow> lock_step\<^sup>*\<^sup>* s0 s''" for s0 s' s'' t
    unfolding lock_step_def by (rule rtranclp.rtrancl_into_rtrancl) auto
  define s1 where "s1 = lgoto 1 A_lock lock_init"
  define s2 where "s2 = lgoto 1 A_loop (s1\<lparr>ls_holder := Some 1\<rparr>)"
  define s3 where "s3 = lgoto 1 A_take s2"
  define s4 where "s4 = lgoto 1 A_unlock (s3\<lparr>ls_thread := Some 1\<rparr>)"
  define s5 where "s5 = lgoto 1 LkHeld (s4\<lparr>ls_holder := None\<rparr>)"
  define s6 where "s6 = lgoto 2 A_lock s5"
  define s7 where "s7 = lgoto 2 A_loop (s6\<lparr>ls_holder := Some 2\<rparr>)"
  define s8 where "s8 = lgoto 2 A_asleep (s7\<lparr>ls_holder := None, ls_wchan := ls_wchan s7 @ [2]\<rparr>)"
  note defs = s1_def s2_def s3_def s4_def s5_def s6_def s7_def lock_init_def
  have "lock_acquire_step 1 lock_init s1" unfolding s1_def by (rule A_call) (simp add: lock_init_def)
  moreover have "lock_acquire_step 1 s1 s2" unfolding s2_def by (rule A_acquire) (simp_all add: defs)
  moreover have "lock_acquire_step 1 s2 s3" unfolding s3_def by (rule A_exit_loop) (simp_all add: defs)
  moreover have "lock_acquire_step 1 s3 s4" unfolding s4_def by (rule A_set) (simp_all add: defs)
  moreover have "lock_acquire_step 1 s4 s5" unfolding s5_def by (rule A_release) (simp_all add: defs)
  moreover have "lock_acquire_step 2 s5 s6" unfolding s6_def by (rule A_call) (simp_all add: defs)
  moreover have "lock_acquire_step 2 s6 s7" unfolding s7_def by (rule A_acquire) (simp_all add: defs)
  moreover have "lock_acquire_step 2 s7 s8" unfolding s8_def by (rule A_sleep) (simp_all add: defs)
  ultimately have "lock_step\<^sup>*\<^sup>* lock_init s8"
    using acq [OF rtranclp.rtrancl_refl] acq by meson
  then show ?thesis by (intro exI [of _ s8]) (simp add: s8_def defs)
qed

theorem lock_mutual_exclusion_witness:
  "\<exists>s. lock_step\<^sup>*\<^sup>* lock_init s \<and> ls_pc s 1 = LkHeld \<and> \<not> lk_owns (ls_pc s 2)"
proof -
  obtain s where s: "lock_step\<^sup>*\<^sup>* lock_init s" "ls_pc s 1 = LkHeld"
    using lock_run_reaches by blast
  have "1 = (2 :: nat)" if "lk_owns (ls_pc s 2)"
    using lock_mutual_exclusion [OF s(1)] s(2) that by (metis lk_owns.simps(5))
  then have "\<not> lk_owns (ls_pc s 2)" by auto
  then show ?thesis using s by blast
qed

lemma lk_crit_step:
  assumes "lk_inv s" "lk_crit (ls_pc s t)"
  shows "\<exists>s'. (lock_acquire_step t s s' \<or> lock_release_step t s s') \<and> ls_pc s' t \<noteq> LkPanic"
proof (cases "ls_pc s t")
  case A_loop
  then show ?thesis
    using lock_acquire_step.A_sleep [OF A_loop] lock_acquire_step.A_exit_loop [OF A_loop]
    by (cases "ls_thread s") fastforce+
next
  case B_loop
  then show ?thesis
    using lock_acquire_step.B_sleep [OF B_loop] lock_acquire_step.B_exit_loop [OF B_loop]
    by (cases "ls_thread s") fastforce+
next
  case A_take
  then have "ls_thread s = None" using lk_ok [OF assms(1), of t] by (simp add: lk_thread_ok_def)
  then show ?thesis using lock_acquire_step.A_set [OF A_take] by fastforce
next
  case A_unlock
  then show ?thesis using lock_acquire_step.A_release [OF A_unlock] by fastforce
next
  case R_clear
  then show ?thesis using lock_release_step.R_reset [OF R_clear] by fastforce
next
  case R_wake
  then show ?thesis
    using lock_release_step.R_wakenone [OF R_wake] lock_release_step.R_wakeone [OF R_wake]
    by (cases "ls_wchan s") fastforce+
next
  case R_unlock
  then show ?thesis using lock_release_step.R_release [OF R_unlock] by fastforce
qed (use assms(2) in simp_all)

lemma lk_free_step:
  assumes "lk_inv s" "ls_holder s = None" "\<not> lk_crit (ls_pc s t)"
    and "lk_owns (ls_pc s t) \<or> lk_coming (ls_pc s t)" "ls_pc s t \<noteq> B_asleep"
  shows "\<exists>s'. (lock_acquire_step t s s' \<or> lock_release_step t s s') \<and> ls_pc s' t \<noteq> LkPanic"
proof (cases "ls_pc s t")
  case A_lock
  then show ?thesis using lock_acquire_step.A_acquire [OF A_lock assms(2)] by fastforce
next
  case LkHeld
  then have "ls_thread s = Some t" using lk_ok [OF assms(1), of t] by (simp add: lk_thread_ok_def)
  then show ?thesis using lock_release_step.R_call [of s t] LkHeld by fastforce
next
  case R_lock
  then show ?thesis using lock_release_step.R_acquire [OF R_lock assms(2)] by fastforce
next
  case B_lock
  then show ?thesis using lock_acquire_step.B_acquire [OF B_lock assms(2)] by fastforce
qed (use assms(3-5) in simp_all)

text \<open>An owner that waits for its own lock waits for ever.\<close>

lemma lk_self_deadlock_step:
  assumes "lk_inv s" "ls_pc s u = B_asleep" "lock_step s s'"
  shows "ls_pc s' u = B_asleep"
proof -
  have th: "ls_thread s = Some u" using lk_ok [OF assms(1), of u] assms(2) by (simp add: lk_thread_ok_def)
  from assms(3) obtain t where "lock_acquire_step t s s' \<or> lock_release_step t s s'" by (auto simp: lock_step_def)
  then show ?thesis
  proof
    assume "lock_acquire_step t s s'"
    then show ?thesis using assms(2) by (cases rule: lock_acquire_step.cases) auto
  next
    assume "lock_release_step t s s'"
    then show ?thesis using assms(2) th lk_take [OF assms(1), of t] by (cases rule: lock_release_step.cases) auto
  qed
qed

lemma lk_self_deadlock:
  assumes "lock_step\<^sup>*\<^sup>* s s'" "lk_inv s" "ls_pc s u = B_asleep"
  shows "ls_pc s' u = B_asleep \<and> lk_inv s'"
  using assms
proof (induction rule: rtranclp_induct)
  case (step y z)
  then have "lk_inv z" using lock_acquire_step_inv lock_release_step_inv by (auto simp: lock_step_def)
  then show ?case using step lk_self_deadlock_step [of y u z] by blast
qed simp

text \<open>
  \<^bold>\<open>C7.\<close> No wakeup of a lock is lost: while a thread sleeps in \<^verbatim>\<open>lock_acquire\<close>, the lock is owned
  or some thread is on its way to take it or to wake a sleeper; and unless the owner itself sleeps in a
  second call of \<^verbatim>\<open>lock_acquire\<close>, one of the threads that own the lock, are on that way or are inside
  the spinlock can take its next step without failing an assertion. An owner that sleeps
  in a second call keeps the lock and sleeps in every later state: the code has no test against this.
\<close>

theorem lock_no_lost_wakeup:
  assumes "lock_step\<^sup>*\<^sup>* lock_init s" "ls_pc s t = A_asleep \<or> ls_pc s t = B_asleep"
  shows "(\<exists>u. lk_owns (ls_pc s u) \<or> lk_coming (ls_pc s u)) \<and>
    ((\<exists>u. ls_thread s = Some u \<and> ls_pc s u = B_asleep) \<or>
     (\<exists>u s'. (lk_owns (ls_pc s u) \<or> lk_coming (ls_pc s u) \<or> lk_crit (ls_pc s u)) \<and>
       (lock_acquire_step u s s' \<or> lock_release_step u s s') \<and> ls_pc s' u \<noteq> LkPanic)) \<and>
    (\<forall>u s'. ls_pc s u = B_asleep \<and> lock_step\<^sup>*\<^sup>* s s' \<longrightarrow> ls_pc s' u = B_asleep \<and> ls_thread s' = Some u)"
proof -
  have inv: "lk_inv s" by (rule lk_inv_reachable [OF assms(1)])
  have w: "ls_wchan s \<noteq> []" using lk_ok [OF inv, of t] assms(2) by (auto simp: lk_thread_ok_def)
  obtain u where u: "lk_owns (ls_pc s u) \<or> lk_coming (ls_pc s u)"
    using inv w lk_ok [OF inv] by (cases "ls_thread s") (auto simp: lk_inv_def lk_thread_ok_def)
  have self: "ls_pc s' v = B_asleep \<and> ls_thread s' = Some v" if "ls_pc s v = B_asleep" "lock_step\<^sup>*\<^sup>* s s'" for v s'
    using lk_self_deadlock [OF that(2) inv that(1)] lk_ok [of s' v] by (auto simp: lk_thread_ok_def)
  have "(\<exists>v s'. (lk_owns (ls_pc s v) \<or> lk_coming (ls_pc s v) \<or> lk_crit (ls_pc s v)) \<and>
       (lock_acquire_step v s s' \<or> lock_release_step v s s') \<and> ls_pc s' v \<noteq> LkPanic) \<or> ls_pc s u = B_asleep"
  proof (cases "ls_holder s")
    case None
    then have "\<not> lk_crit (ls_pc s u)" using lk_ok [OF inv, of u] by (simp add: lk_thread_ok_def)
    then show ?thesis using u None lk_free_step [OF inv] by blast
  next
    case (Some h)
    then have h: "lk_crit (ls_pc s h)" using lk_ok [OF inv, of h] by (simp add: lk_thread_ok_def)
    then show ?thesis using lk_crit_step [OF inv h] by blast
  qed
  then show ?thesis using u self [of _ s] self by blast
qed

theorem lock_no_lost_wakeup_witness:
  "\<exists>s. lock_step\<^sup>*\<^sup>* lock_init s \<and> ls_pc s 2 = A_asleep \<and>
     (\<exists>u. lk_owns (ls_pc s u) \<or> lk_coming (ls_pc s u))"
proof -
  obtain s where s: "lock_step\<^sup>*\<^sup>* lock_init s" "ls_pc s 2 = A_asleep"
    using lock_run_reaches by blast
  then show ?thesis using lock_no_lost_wakeup [OF s(1), of 2] by blast
qed

end
