(* ===== verification/Hangman.thy ===== *)
theory Hangman
  imports Prelude
begin

text \<open>
  The deadlock detector of \<^verbatim>\<open>kern/thread/hangman.c\<close>: each actor waits for at most one
  lockable and each lockable is held by at most one actor. The three hooks run under
  \<^verbatim>\<open>hangman_lock\<close>, whose own lockable they skip, so each is one atomic operation here. The
  search of \<^verbatim>\<open>hangman_check\<close> follows the waits-for graph and would run forever on a cycle
  that avoids its target; \<open>None\<close> stands for that.

  The theory shows that the hooks keep the graph acyclic, that the search therefore ends, and
  that \<^verbatim>\<open>hangman_wait\<close> panics exactly when the wait would close a cycle.
\<close>

subsection \<open>Model\<close>

record hangman =
  a_waiting :: "nat \<Rightarrow> nat option"
  l_holding :: "nat \<Rightarrow> nat option"

text \<open>The lockable of \<^verbatim>\<open>hangman_lock\<close> itself.\<close>

definition hangman_self :: nat where
  "hangman_self = 0"

partial_function (option) hangman_loop :: "hangman \<Rightarrow> nat option \<Rightarrow> nat \<Rightarrow> bool option" where
  "hangman_loop h cur target =
     (case cur of
        None \<Rightarrow> Some False
      | Some c \<Rightarrow>
          if c = target then Some True
          else (case a_waiting h c of
                  None \<Rightarrow> Some False
                | Some l \<Rightarrow> hangman_loop h (l_holding h l) target))"

definition hangman_check :: "nat \<Rightarrow> nat \<Rightarrow> hangman \<Rightarrow> (unit, hangman) res" where
  "hangman_check start target h =
     (case hangman_loop h (l_holding h start) target of
        None \<Rightarrow> Hang
      | Some True \<Rightarrow> Panic
      | Some False \<Rightarrow> Ok () h)"

definition hangman_wait :: "nat \<Rightarrow> nat \<Rightarrow> hangman \<Rightarrow> (unit, hangman) res" where
  "hangman_wait a l h =
     (if l = hangman_self then Ok () h
      else if a_waiting h a \<noteq> None then Panic
      else kbind (hangman_check l a h) (\<lambda>_ h. Ok () (h\<lparr>a_waiting := (a_waiting h)(a := Some l)\<rparr>)))"

definition hangman_acquire :: "nat \<Rightarrow> nat \<Rightarrow> hangman \<Rightarrow> (unit, hangman) res" where
  "hangman_acquire a l h =
     (if l = hangman_self then Ok () h
      else if a_waiting h a \<noteq> Some l then Panic
      else if l_holding h l \<noteq> None then Panic
      else Ok () (h\<lparr>l_holding := (l_holding h)(l := Some a), a_waiting := (a_waiting h)(a := None)\<rparr>))"

definition hangman_release :: "nat \<Rightarrow> nat \<Rightarrow> hangman \<Rightarrow> (unit, hangman) res" where
  "hangman_release a l h =
     (if l = hangman_self then Ok () h
      else if a_waiting h a \<noteq> None then Panic
      else if l_holding h l \<noteq> Some a then Panic
      else Ok () (h\<lparr>l_holding := (l_holding h)(l := None)\<rparr>))"

subsection \<open>The waits-for graph\<close>

definition waits_for :: "hangman \<Rightarrow> (nat \<times> nat) set" where
  "waits_for h = {(a, b). \<exists>l. a_waiting h a = Some l \<and> l_holding h l = Some b}"

definition hangman_ok :: "hangman \<Rightarrow> bool" where
  "hangman_ok h \<longleftrightarrow> finite {a. a_waiting h a \<noteq> None} \<and> acyclic (waits_for h)"

lemma waits_for_finite:
  assumes "finite {a. a_waiting h a \<noteq> None}"
  shows "finite (waits_for h)"
proof -
  let ?f = "\<lambda>a. (a, the (l_holding h (the (a_waiting h a))))"
  have "waits_for h \<subseteq> ?f ` {a. a_waiting h a \<noteq> None}" by (force simp: waits_for_def)
  then show ?thesis using assms finite_surj by blast
qed

lemma hangman_wf: "hangman_ok h \<Longrightarrow> wf ((waits_for h)\<inverse>)"
  using finite_acyclic_wf_converse waits_for_finite by (auto simp: hangman_ok_def)

lemma hangman_loop_result:
  assumes "hangman_ok h"
  shows "hangman_loop h (Some c) target = Some ((c, target) \<in> (waits_for h)\<^sup>*)"
  using hangman_wf [OF assms]
proof (induction c rule: wf_induct_rule)
  case (less c)
  show ?case
  proof (cases "c = target")
    case True
    then show ?thesis by (subst hangman_loop.simps) simp
  next
    case False
    show ?thesis
    proof (cases "a_waiting h c")
      case None
      then have "(c, d) \<notin> waits_for h" for d by (simp add: waits_for_def)
      then have "(c, target) \<notin> (waits_for h)\<^sup>*" using False by (metis converse_rtranclE)
      then show ?thesis using False None by (subst hangman_loop.simps) simp
    next
      case (Some l)
      show ?thesis
      proof (cases "l_holding h l")
        case None
        then have "(c, d) \<notin> waits_for h" for d using Some by (simp add: waits_for_def)
        then have "(c, target) \<notin> (waits_for h)\<^sup>*" using False by (metis converse_rtranclE)
        then show ?thesis using False None Some
          by (subst hangman_loop.simps) (simp add: hangman_loop.simps)
      next
        case (Some b)
        note l = \<open>a_waiting h c = Some l\<close>
        have cb: "(c, b) \<in> waits_for h" using l Some by (auto simp: waits_for_def)
        have "d = b" if "(c, d) \<in> waits_for h" for d using that l Some by (auto simp: waits_for_def)
        then have "(c, target) \<in> (waits_for h)\<^sup>* \<longleftrightarrow> (b, target) \<in> (waits_for h)\<^sup>*"
          using False cb by (metis converse_rtranclE converse_rtrancl_into_rtrancl)
        moreover have "hangman_loop h (Some c) target = hangman_loop h (Some b) target"
          using False l Some by (subst hangman_loop.simps) simp
        ultimately show ?thesis using less.IH [of b] cb by simp
      qed
    qed
  qed
qed

lemma hangman_loop_None: "hangman_loop h None target = Some False"
  by (subst hangman_loop.simps) simp

lemma hangman_check_result:
  assumes "hangman_ok h"
  shows "hangman_check l a h =
    (if \<exists>b. l_holding h l = Some b \<and> (b, a) \<in> (waits_for h)\<^sup>* then Panic else Ok () h)"
  using hangman_loop_result [OF assms] hangman_loop_None
  by (cases "l_holding h l") (auto simp: hangman_check_def)

lemma waits_for_wait:
  "a_waiting h a = None \<Longrightarrow>
   waits_for (h\<lparr>a_waiting := (a_waiting h)(a := Some l)\<rparr>) =
     (case l_holding h l of None \<Rightarrow> waits_for h | Some b \<Rightarrow> insert (a, b) (waits_for h))"
  by (auto simp: waits_for_def split: option.splits if_splits)

lemma hangman_wait_ok:
  assumes "hangman_ok h" "l \<noteq> hangman_self" "a_waiting h a = None"
  shows "if \<exists>b. l_holding h l = Some b \<and> (b, a) \<in> (waits_for h)\<^sup>*
    then hangman_wait a l h = Panic
    else \<exists>h'. hangman_wait a l h = Ok () h' \<and> hangman_ok h' \<and> a_waiting h' a = Some l"
proof (cases "\<exists>b. l_holding h l = Some b \<and> (b, a) \<in> (waits_for h)\<^sup>*")
  case True
  then show ?thesis using assms hangman_check_result [OF assms(1), of l a] by (simp add: hangman_wait_def)
next
  case False
  let ?h = "h\<lparr>a_waiting := (a_waiting h)(a := Some l)\<rparr>"
  have "acyclic (waits_for ?h)"
    using assms False by (auto simp: waits_for_wait hangman_ok_def split: option.splits)
  moreover have "finite {x. a_waiting ?h x \<noteq> None}"
  proof (rule finite_subset)
    show "{x. a_waiting ?h x \<noteq> None} \<subseteq> insert a {x. a_waiting h x \<noteq> None}" by auto
  qed (use assms(1) in \<open>simp add: hangman_ok_def\<close>)
  ultimately have "hangman_ok ?h" by (simp add: hangman_ok_def)
  then show ?thesis using False assms hangman_check_result [OF assms(1), of l a]
    by (simp add: hangman_wait_def)
qed

lemma acyclic_into_sink:
  assumes "acyclic r" "\<And>x. (a, x) \<notin> r" "s \<subseteq> r \<union> {(x, a) |x. x \<noteq> a}"
  shows "acyclic s"
proof -
  have "y = a \<or> (x, y) \<in> r\<^sup>+" if "(x, y) \<in> s\<^sup>+" for x y
    using that
  proof induction
    case (base y)
    then show ?case using assms(3) by auto
  next
    case (step y z)
    then show ?case using assms(2,3) by (cases "z = a") (auto intro: trancl_into_trancl)
  qed
  then have step: "(x, x) \<in> s\<^sup>+ \<Longrightarrow> x \<noteq> a \<Longrightarrow> (x, x) \<in> r\<^sup>+" for x by blast
  have "(a, y) \<notin> s" for y using assms(2,3) by auto
  then have "(a, a) \<notin> s\<^sup>+" by (meson tranclD)
  then show ?thesis using step assms(1) unfolding acyclic_def by metis
qed


lemma hangman_acquire_ok:
  assumes "hangman_ok h" "l \<noteq> hangman_self" "a_waiting h a = Some l" "l_holding h l = None"
  shows "\<exists>h'. hangman_acquire a l h = Ok () h' \<and> hangman_ok h' \<and> l_holding h' l = Some a \<and>
    a_waiting h' a = None"
proof -
  let ?h = "h\<lparr>l_holding := (l_holding h)(l := Some a), a_waiting := (a_waiting h)(a := None)\<rparr>"
  have "acyclic (waits_for ?h)"
  proof (rule acyclic_into_sink)
    show "acyclic (waits_for h)" using assms(1) by (simp add: hangman_ok_def)
    show "(a, x) \<notin> waits_for h" for x using assms(3,4) by (simp add: waits_for_def)
    show "waits_for ?h \<subseteq> waits_for h \<union> {(x, a) |x. x \<noteq> a}"
      by (auto simp: waits_for_def split: if_splits)
  qed
  moreover have "finite {x. a_waiting ?h x \<noteq> None}"
  proof (rule finite_subset)
    show "{x. a_waiting ?h x \<noteq> None} \<subseteq> {x. a_waiting h x \<noteq> None}" by auto
  qed (use assms(1) in \<open>simp add: hangman_ok_def\<close>)
  ultimately show ?thesis using assms by (auto simp: hangman_acquire_def hangman_ok_def)
qed

lemma hangman_release_ok:
  assumes "hangman_ok h" "l \<noteq> hangman_self" "a_waiting h a = None" "l_holding h l = Some a"
  shows "\<exists>h'. hangman_release a l h = Ok () h' \<and> hangman_ok h' \<and> l_holding h' l = None"
proof -
  let ?h = "h\<lparr>l_holding := (l_holding h)(l := None)\<rparr>"
  have "waits_for ?h \<subseteq> waits_for h" by (auto simp: waits_for_def split: if_splits)
  then have "acyclic (waits_for ?h)" using assms(1) acyclic_subset by (auto simp: hangman_ok_def)
  then show ?thesis using assms by (simp add: hangman_release_def hangman_ok_def)
qed

subsection \<open>Runs of the detector\<close>

datatype hangop = HWait nat nat | HAcquire nat nat | HRelease nat nat

fun run_hangop :: "hangop \<Rightarrow> hangman \<Rightarrow> (unit, hangman) res" where
  "run_hangop (HWait a l) h = hangman_wait a l h"
| "run_hangop (HAcquire a l) h = hangman_acquire a l h"
| "run_hangop (HRelease a l) h = hangman_release a l h"

fun run_hangops :: "hangop list \<Rightarrow> hangman \<Rightarrow> (unit, hangman) res" where
  "run_hangops [] h = Ok () h"
| "run_hangops (x # xs) h = kbind (run_hangop x h) (\<lambda>_ h. run_hangops xs h)"

definition hangman_init :: hangman where
  "hangman_init = \<lparr>a_waiting = \<lambda>_. None, l_holding = \<lambda>_. None\<rparr>"

lemma hangman_init_ok: "hangman_ok hangman_init"
  by (simp add: hangman_ok_def hangman_init_def waits_for_def acyclic_def)

lemma run_hangop_cases:
  assumes "hangman_ok h"
  shows "run_hangop x h = Panic \<or> (\<exists>h'. run_hangop x h = Ok () h' \<and> hangman_ok h')"
proof (cases x)
  case (HWait a l)
  then show ?thesis
    using assms hangman_wait_ok [OF assms, of l a]
    by (cases "l = hangman_self"; cases "a_waiting h a") (auto simp: hangman_wait_def split: if_splits)
next
  case (HAcquire a l)
  then show ?thesis
    using assms hangman_acquire_ok [OF assms, of l a] by (auto simp: hangman_acquire_def)
next
  case (HRelease a l)
  then show ?thesis
    using assms hangman_release_ok [OF assms, of l a] by (auto simp: hangman_release_def)
qed

lemma run_hangops_cases:
  "hangman_ok h \<Longrightarrow> run_hangops xs h = Panic \<or> (\<exists>h'. run_hangops xs h = Ok () h' \<and> hangman_ok h')"
proof (induction xs arbitrary: h)
  case (Cons x xs)
  then consider "run_hangop x h = Panic" | h' where "run_hangop x h = Ok () h'" "hangman_ok h'"
    using run_hangop_cases by blast
  then show ?case
  proof cases
    case (2 h')
    then show ?thesis using Cons.IH [OF 2(2)] by simp
  qed simp
qed simp

text \<open>
  \<^bold>\<open>C8.\<close> After any sequence of hook calls that has not panicked, the waits-for graph has no cycle,
  so the search of the next \<^verbatim>\<open>hangman_wait\<close> always ends; that call panics exactly when the
  actor already waits for something or the wait would close a cycle in the graph, and
  otherwise records the wait and leaves the graph acyclic.
\<close>

theorem hangman_detects_exactly:
  assumes "run_hangops xs hangman_init = Ok () h" "l \<noteq> hangman_self"
  shows "acyclic (waits_for h) \<and> hangman_wait a l h \<noteq> Hang \<and>
    (hangman_wait a l h = Panic \<longleftrightarrow>
       a_waiting h a \<noteq> None \<or> (\<exists>b. l_holding h l = Some b \<and> (b, a) \<in> (waits_for h)\<^sup>*)) \<and>
    (\<forall>h'. hangman_wait a l h = Ok () h' \<longrightarrow> a_waiting h' a = Some l \<and> acyclic (waits_for h'))"
proof -
  have ok: "hangman_ok h" using run_hangops_cases [OF hangman_init_ok, of xs] assms(1) by auto
  then have ac: "acyclic (waits_for h)" by (simp add: hangman_ok_def)
  show ?thesis
  proof (cases "a_waiting h a")
    case None
    then show ?thesis using hangman_wait_ok [OF ok assms(2) None] ac
      by (auto simp: hangman_ok_def split: if_splits)
  next
    case (Some m)
    then show ?thesis using ac assms(2) by (simp add: hangman_wait_def)
  qed
qed

text \<open>Two actors that hold one lock each: the second wait closes the cycle.\<close>

theorem hangman_detects_exactly_witness:
  "\<exists>h. run_hangops [HWait 1 1, HAcquire 1 1, HWait 2 2, HAcquire 2 2, HWait 1 2] hangman_init = Ok () h \<and>
     hangman_wait 2 1 h = Panic"
proof -
  obtain h where h: "run_hangops [HWait 1 1, HAcquire 1 1, HWait 2 2, HAcquire 2 2, HWait 1 2] hangman_init = Ok () h"
      "a_waiting h 1 = Some 2" "l_holding h 2 = Some 2" "l_holding h 1 = Some 1"
    by (simp add: hangman_wait_def hangman_acquire_def hangman_check_def hangman_init_def
        hangman_self_def hangman_loop.simps)
  then have "(1, 2) \<in> waits_for h" by (auto simp: waits_for_def)
  then show ?thesis
    using hangman_detects_exactly [OF h(1), of 1 2] h by (auto simp: hangman_self_def)
qed

end
