(* ===== verification/Sched.thy ===== *)
theory Sched
  imports Spinlock
begin

text \<open>
  Threads, run queues, context switches, wait channels, thread migration and interprocessor
  interrupts: \<^verbatim>\<open>kern/thread/thread.c\<close>, \<^verbatim>\<open>kern/thread/clock.c\<close> and the thread part of
  \<^verbatim>\<open>kern/proc/proc.c\<close>, on the machine state of theory \<open>Spinlock\<close>.

  A context switch leaves the code of one thread in the middle of \<^verbatim>\<open>thread_switch\<close> and
  continues another one there (or in \<^verbatim>\<open>thread_startup\<close>): \<open>thread_switch\<close> runs the part up to
  \<^verbatim>\<open>switchframe_switch\<close> for the old thread and then the rest for the thread it resumes, whose
  saved context says where it was. While a CPU idles the other CPUs and its interrupt handlers
  change the machine; \<open>env\<close> lists what they do during each wait, and an idle CPU for which
  nothing more happens is \<open>Hang\<close>. Memory allocation is a parameter of the operations that
  allocate.
\<close>

subsection \<open>Stack guards\<close>

definition THREAD_STACK_MAGIC :: u32 where
  "THREAD_STACK_MAGIC = 0xbaadf00d"

definition stack_guard_init :: "u32 list \<Rightarrow> u32 list" where
  "stack_guard_init st = replicate 4 THREAD_STACK_MAGIC @ drop 4 st"

definition thread_checkstack_init :: "nat \<Rightarrow> machine \<Rightarrow> (unit, machine) res" where
  "thread_checkstack_init t m =
     getthread t m (\<lambda>th.
       case t_stack th of
         None \<Rightarrow> Fault
       | Some st \<Rightarrow>
           if length st < 4 then Fault
           else Ok () (upd_thread t (\<lambda>th. th\<lparr>t_stack := Some (stack_guard_init st)\<rparr>) m))"

definition thread_checkstack :: "nat \<Rightarrow> machine \<Rightarrow> (unit, machine) res" where
  "thread_checkstack t m =
     getthread t m (\<lambda>th.
       case t_stack th of
         None \<Rightarrow> Ok () m
       | Some st \<Rightarrow>
           rd st 0 (\<lambda>a. kassert (a = THREAD_STACK_MAGIC)
             (rd st 1 (\<lambda>b. kassert (b = THREAD_STACK_MAGIC)
               (rd st 2 (\<lambda>c. kassert (c = THREAD_STACK_MAGIC)
                 (rd st 3 (\<lambda>d. kassert (d = THREAD_STACK_MAGIC) (Ok () m)))))))))"

subsection \<open>Processes and threads\<close>

definition proc_addthread :: "nat \<Rightarrow> nat \<Rightarrow> nat \<Rightarrow> machine \<Rightarrow> (unit, machine) res" where
  "proc_addthread me p t m =
     getthread t m (\<lambda>th.
       kassert (t_proc th = None)
         (kbind (spinlock_acquire me (ProcLock p) m) (\<lambda>_ m.
            let m = m\<lparr>m_numthreads := (m_numthreads m)(p := m_numthreads m p + 1)\<rparr> in
            kbind (spinlock_release me (ProcLock p) m) (\<lambda>_ m.
              kbind (splhigh me m) (\<lambda>spl m.
                let m = upd_thread t (\<lambda>th. th\<lparr>t_proc := Some p\<rparr>) m in
                kbind (splx me spl m) (\<lambda>_ m. Ok () m))))))"

definition proc_remthread :: "nat \<Rightarrow> nat \<Rightarrow> machine \<Rightarrow> (unit, machine) res" where
  "proc_remthread me t m =
     getthread t m (\<lambda>th.
       case t_proc th of
         None \<Rightarrow> Panic
       | Some p \<Rightarrow>
           kbind (spinlock_acquire me (ProcLock p) m) (\<lambda>_ m.
             kassert (m_numthreads m p > 0)
               (let m = m\<lparr>m_numthreads := (m_numthreads m)(p := m_numthreads m p - 1)\<rparr> in
                kbind (spinlock_release me (ProcLock p) m) (\<lambda>_ m.
                  kbind (splhigh me m) (\<lambda>spl m.
                    let m = upd_thread t (\<lambda>th. th\<lparr>t_proc := None\<rparr>) m in
                    kbind (splx me spl m) (\<lambda>_ m. Ok () m))))))"

text \<open>\<open>nt\<close> is the address \<^verbatim>\<open>kmalloc\<close> gives the structure, if any; \<open>okname\<close> the result of \<^verbatim>\<open>kstrdup\<close>.\<close>

definition thread_create :: "nat option \<Rightarrow> bool \<Rightarrow> machine \<Rightarrow> (nat option, machine) res" where
  "thread_create nt okname m =
     (case nt of
        None \<Rightarrow> Ok None m
      | Some t \<Rightarrow>
          if \<not> okname then Ok None m
          else Ok (Some t) (m\<lparr>m_threads := (m_threads m)(t \<mapsto>
            \<lparr>t_wchan_name = Some ''NEW'', t_state = S_READY, t_stack = None, t_context = NoContext,
             t_cpu = 0, t_proc = None, t_in_interrupt = False, t_curspl = IPL_HIGH,
             t_iplhigh_count = 1\<rparr>)\<rparr>))"

definition thread_destroy :: "nat \<Rightarrow> nat \<Rightarrow> machine \<Rightarrow> (unit, machine) res" where
  "thread_destroy me t m =
     kassert (t \<noteq> curthread me m)
       (getthread t m (\<lambda>th.
          kassert (t_state th \<noteq> S_RUN)
            (kassert (t_proc th = None)
              (Ok () (m\<lparr>m_threads := (m_threads m)(t := None)\<rparr>)))))"

text \<open>The loop of \<^verbatim>\<open>exorcise\<close>: \<open>zs\<close> is the zombie list of the CPU.\<close>

fun exorcise_loop :: "nat \<Rightarrow> nat list \<Rightarrow> machine \<Rightarrow> (unit, machine) res" where
  "exorcise_loop me [] m = Ok () m"
| "exorcise_loop me (z # zs) m =
     (let m = upd_cpu me (\<lambda>c. c\<lparr>c_zombies := zs\<rparr>) m in
      kassert (z \<noteq> curthread me m)
        (getthread z m (\<lambda>th.
           kassert (t_state th = S_ZOMBIE)
             (kbind (thread_destroy me z m) (\<lambda>_ m. exorcise_loop me zs m)))))"

definition exorcise :: "nat \<Rightarrow> machine \<Rightarrow> (unit, machine) res" where
  "exorcise me m = exorcise_loop me (c_zombies (m_cpus m me)) m"

subsection \<open>Interprocessor interrupts\<close>

definition IPI_PANIC :: nat where "IPI_PANIC = 0"
definition IPI_OFFLINE :: nat where "IPI_OFFLINE = 1"
definition IPI_UNIDLE :: nat where "IPI_UNIDLE = 2"
definition IPI_TLBSHOOTDOWN :: nat where "IPI_TLBSHOOTDOWN = 3"
definition TLBSHOOTDOWN_MAX :: nat where "TLBSHOOTDOWN_MAX = 16"

definition ipi_send :: "nat \<Rightarrow> nat \<Rightarrow> nat \<Rightarrow> machine \<Rightarrow> (unit, machine) res" where
  "ipi_send me target code m =
     kassert (code < 32)
       (kbind (spinlock_acquire me (IpiLock target) m) (\<lambda>_ m.
          let m = upd_cpu target (\<lambda>c. c\<lparr>c_ipi_pending := c_ipi_pending c OR push_bit code 1\<rparr>) m;
              m = upd_cpu target (\<lambda>c. c\<lparr>c_ipi_signalled := True\<rparr>) m
          in spinlock_release me (IpiLock target) m))"

fun ipi_broadcast_loop :: "nat \<Rightarrow> nat \<Rightarrow> nat list \<Rightarrow> machine \<Rightarrow> (unit, machine) res" where
  "ipi_broadcast_loop me code [] m = Ok () m"
| "ipi_broadcast_loop me code (c # cs) m =
     (if c \<noteq> me then kbind (ipi_send me c code m) (\<lambda>_ m. ipi_broadcast_loop me code cs m)
      else ipi_broadcast_loop me code cs m)"

definition ipi_broadcast :: "nat \<Rightarrow> nat \<Rightarrow> machine \<Rightarrow> (unit, machine) res" where
  "ipi_broadcast me code m = ipi_broadcast_loop me code (m_allcpus m) m"

definition ipi_tlbshootdown :: "nat \<Rightarrow> nat \<Rightarrow> nat \<Rightarrow> machine \<Rightarrow> (unit, machine) res" where
  "ipi_tlbshootdown me target mapping m =
     kbind (spinlock_acquire me (IpiLock target) m) (\<lambda>_ m.
       if length (c_shootdown (m_cpus m target)) = TLBSHOOTDOWN_MAX then Panic
       else
         let m = upd_cpu target (\<lambda>c. c\<lparr>c_shootdown := c_shootdown c @ [mapping]\<rparr>) m;
             m = upd_cpu target (\<lambda>c. c\<lparr>c_ipi_pending := c_ipi_pending c OR push_bit IPI_TLBSHOOTDOWN 1\<rparr>) m;
             m = upd_cpu target (\<lambda>c. c\<lparr>c_ipi_signalled := True\<rparr>) m
         in spinlock_release me (IpiLock target) m)"

text \<open>
  \<^verbatim>\<open>cpu_halt\<close> does not return (\<open>Hang\<close>). \<open>shootdown\<close> is \<^verbatim>\<open>vm_tlbshootdown\<close>, machine-dependent
  code; dumbvm's version panics.
\<close>

fun shootdown_loop :: "(nat \<Rightarrow> machine \<Rightarrow> (unit, machine) res) \<Rightarrow> nat list \<Rightarrow> machine \<Rightarrow> (unit, machine) res" where
  "shootdown_loop shootdown [] m = Ok () m"
| "shootdown_loop shootdown (x # xs) m = kbind (shootdown x m) (\<lambda>_ m. shootdown_loop shootdown xs m)"

definition interprocessor_interrupt ::
    "(nat \<Rightarrow> machine \<Rightarrow> (unit, machine) res) \<Rightarrow> nat \<Rightarrow> machine \<Rightarrow> (unit, machine) res" where
  "interprocessor_interrupt shootdown me m =
     kbind (spinlock_acquire me (IpiLock me) m) (\<lambda>_ m.
       let bits = c_ipi_pending (m_cpus m me) in
       if bits AND push_bit IPI_PANIC 1 \<noteq> 0 then
         kbind (spinlock_release me (IpiLock me) m) (\<lambda>_ m. Hang)
       else if bits AND push_bit IPI_OFFLINE 1 \<noteq> 0 then
         kbind (spinlock_release me (IpiLock me) m) (\<lambda>_ m.
           kbind (spinlock_acquire me (RunqueueLock me) m) (\<lambda>_ m.
             kbind (spinlock_release me (RunqueueLock me) m) (\<lambda>_ m. Hang)))
       else
         kbind (if bits AND push_bit IPI_TLBSHOOTDOWN 1 \<noteq> 0
                then kbind (shootdown_loop shootdown (c_shootdown (m_cpus m me)) m)
                       (\<lambda>_ m. Ok () (upd_cpu me (\<lambda>c. c\<lparr>c_shootdown := []\<rparr>) m))
                else Ok () m) (\<lambda>_ m.
           let m = upd_cpu me (\<lambda>c. c\<lparr>c_ipi_pending := 0\<rparr>) m
           in spinlock_release me (IpiLock me) m))"

subsection \<open>Run queues and the context switch\<close>

definition thread_make_runnable :: "nat \<Rightarrow> nat \<Rightarrow> bool \<Rightarrow> machine \<Rightarrow> (unit, machine) res" where
  "thread_make_runnable me target already_have_lock m =
     getthread target m (\<lambda>th.
       let targetcpu = t_cpu th in
       kbind (if already_have_lock
              then kassert (spinlock_do_i_hold me (RunqueueLock targetcpu) m) (Ok () m)
              else spinlock_acquire me (RunqueueLock targetcpu) m) (\<lambda>_ m.
         let m = upd_thread target (\<lambda>th. th\<lparr>t_state := S_READY\<rparr>) m;
             m = upd_cpu targetcpu (\<lambda>c. c\<lparr>c_runqueue := c_runqueue c @ [target]\<rparr>) m
         in kbind (if c_isidle (m_cpus m targetcpu) \<and> targetcpu \<noteq> me
                   then ipi_send me targetcpu IPI_UNIDLE m else Ok () m) (\<lambda>_ m.
              if \<not> already_have_lock then spinlock_release me (RunqueueLock targetcpu) m
              else Ok () m)))"

text \<open>The loop that picks the next thread, idling while there is none.\<close>

fun switch_pick :: "(machine \<Rightarrow> machine) list \<Rightarrow> nat \<Rightarrow> machine \<Rightarrow> (nat, machine) res" where
  "switch_pick env me m =
     (case c_runqueue (m_cpus m me) of
        t # ts \<Rightarrow> Ok t (upd_cpu me (\<lambda>c. c\<lparr>c_runqueue := ts\<rparr>) m)
      | [] \<Rightarrow>
          kbind (spinlock_release me (RunqueueLock me) m) (\<lambda>_ m.
            case env of
              [] \<Rightarrow> Hang
            | f # env' \<Rightarrow>
                kbind (spinlock_acquire me (RunqueueLock me) (f m)) (\<lambda>_ m. switch_pick env' me m)))"

text \<open>
  The tail of \<^verbatim>\<open>thread_switch\<close>, run by the thread that has just been resumed, and the
  beginning of \<^verbatim>\<open>thread_startup\<close>, run by a new one; \<^verbatim>\<open>as_activate\<close> only touches the MMU.
\<close>

definition switch_resume :: "nat \<Rightarrow> int \<Rightarrow> machine \<Rightarrow> (unit, machine) res" where
  "switch_resume me spl m =
     (let cur = curthread me m;
          m = upd_thread cur (\<lambda>th. th\<lparr>t_wchan_name := None\<rparr>) m;
          m = upd_thread cur (\<lambda>th. th\<lparr>t_state := S_RUN\<rparr>) m
      in kbind (spinlock_release me (RunqueueLock me) m) (\<lambda>_ m.
           kbind (exorcise me m) (\<lambda>_ m.
             kbind (splx me spl m) (\<lambda>_ m. Ok () m))))"

definition thread_startup :: "nat \<Rightarrow> machine \<Rightarrow> (unit, machine) res" where
  "thread_startup me m =
     (let cur = curthread me m;
          m = upd_thread cur (\<lambda>th. th\<lparr>t_wchan_name := None\<rparr>) m;
          m = upd_thread cur (\<lambda>th. th\<lparr>t_state := S_RUN\<rparr>) m
      in kbind (spinlock_release me (RunqueueLock me) m) (\<lambda>_ m.
           kbind (exorcise me m) (\<lambda>_ m.
             kbind (spl0 me m) (\<lambda>_ m. Ok () m))))"

definition switchframe_switch :: "nat \<Rightarrow> nat \<Rightarrow> nat \<Rightarrow> int \<Rightarrow> machine \<Rightarrow> (unit, machine) res" where
  "switchframe_switch me cur next spl m =
     (let m = upd_thread cur (\<lambda>th. th\<lparr>t_context := Suspended spl\<rparr>) m in
      getthread next m (\<lambda>th.
        case t_context th of
          NoContext \<Rightarrow> Fault
        | NewThread \<Rightarrow> thread_startup me m
        | Suspended spl' \<Rightarrow> switch_resume me spl' m))"

definition switch_place :: "nat \<Rightarrow> nat \<Rightarrow> threadstate \<Rightarrow> nat option \<Rightarrow> lockid option \<Rightarrow> machine \<Rightarrow> (unit, machine) res" where
  "switch_place me cur newstate wc lk m =
     (case newstate of
        S_RUN \<Rightarrow> Panic
      | S_READY \<Rightarrow> thread_make_runnable me cur True m
      | S_SLEEP \<Rightarrow>
          (case (wc, lk) of
             (Some w, Some l) \<Rightarrow>
               (let m = upd_thread cur (\<lambda>th. th\<lparr>t_wchan_name := Some (wc_name (m_wchans m w))\<rparr>) m;
                    m = upd_wchan w (\<lambda>c. c\<lparr>wc_threads := wc_threads c @ [cur]\<rparr>) m
                in spinlock_release me l m)
           | _ \<Rightarrow> Fault)
      | S_ZOMBIE \<Rightarrow>
          (let m = upd_thread cur (\<lambda>th. th\<lparr>t_wchan_name := Some ''ZOMBIE''\<rparr>) m
           in Ok () (upd_cpu me (\<lambda>c. c\<lparr>c_zombies := c_zombies c @ [cur]\<rparr>) m)))"

definition thread_switch ::
    "(machine \<Rightarrow> machine) list \<Rightarrow> nat \<Rightarrow> threadstate \<Rightarrow> nat option \<Rightarrow> lockid option \<Rightarrow> machine \<Rightarrow> (unit, machine) res" where
  "thread_switch env me newstate wc lk m =
     kbind (splhigh me m) (\<lambda>spl m.
       let cur = curthread me m in
       if c_isidle (m_cpus m me) then kbind (splx me spl m) (\<lambda>_ m. Ok () m)
       else
         kbind (thread_checkstack cur m) (\<lambda>_ m.
           kbind (spinlock_acquire me (RunqueueLock me) m) (\<lambda>_ m.
             if newstate = S_READY \<and> c_runqueue (m_cpus m me) = [] then
               kbind (spinlock_release me (RunqueueLock me) m) (\<lambda>_ m.
                 kbind (splx me spl m) (\<lambda>_ m. Ok () m))
             else
               kbind (switch_place me cur newstate wc lk m) (\<lambda>_ m.
                 let m = upd_thread cur (\<lambda>th. th\<lparr>t_state := newstate\<rparr>) m;
                     m = upd_cpu me (\<lambda>c. c\<lparr>c_isidle := True\<rparr>) m
                 in kbind (switch_pick env me m) (\<lambda>next m.
                      let m = upd_cpu me (\<lambda>c. c\<lparr>c_isidle := False\<rparr>) m;
                          m = upd_cpu me (\<lambda>c. c\<lparr>c_curthread := next\<rparr>) m
                      in switchframe_switch me cur next spl m)))))"

definition thread_yield :: "(machine \<Rightarrow> machine) list \<Rightarrow> nat \<Rightarrow> machine \<Rightarrow> (unit, machine) res" where
  "thread_yield env me m = thread_switch env me S_READY None None m"

text \<open>
  A zombie is not resumed; if \<^verbatim>\<open>thread_switch\<close> comes back to it (an idle CPU), the code
  panics.
\<close>

definition thread_exit :: "(machine \<Rightarrow> machine) list \<Rightarrow> nat \<Rightarrow> machine \<Rightarrow> (unit, machine) res" where
  "thread_exit env me m =
     (let cur = curthread me m in
      kbind (proc_remthread me cur m) (\<lambda>_ m.
        getthread cur m (\<lambda>th.
          kassert (t_proc th = None)
            (kbind (thread_checkstack cur m) (\<lambda>_ m.
               kbind (splhigh me m) (\<lambda>_ m.
                 kbind (thread_switch env me S_ZOMBIE None None m) (\<lambda>_ m.
                   if curthread me m = cur then Panic else Ok () m)))))))"

definition thread_fork ::
    "nat option \<Rightarrow> bool \<Rightarrow> u32 list option \<Rightarrow> nat \<Rightarrow> nat option \<Rightarrow> machine \<Rightarrow> (unit, machine) res" where
  "thread_fork nt okname stk me proc m =
     kbind (thread_create nt okname m) (\<lambda>r m.
       case r of
         None \<Rightarrow> Err ENOMEM m
       | Some new \<Rightarrow>
           (case stk of
              None \<Rightarrow> kbind (thread_destroy me new m) (\<lambda>_ m. Err ENOMEM m)
            | Some st \<Rightarrow>
                let m = upd_thread new (\<lambda>th. th\<lparr>t_stack := Some st\<rparr>) m in
                kbind (thread_checkstack_init new m) (\<lambda>_ m.
                  getthread (curthread me m) m (\<lambda>cur.
                    let m = upd_thread new (\<lambda>th. th\<lparr>t_cpu := t_cpu cur\<rparr>) m;
                        p = (case proc of None \<Rightarrow> t_proc cur | Some p \<Rightarrow> Some p)
                    in case p of
                         None \<Rightarrow> Fault
                       | Some p \<Rightarrow>
                           kbind (proc_addthread me p new m) (\<lambda>_ m.
                             let m = upd_thread new (\<lambda>th. th\<lparr>t_iplhigh_count := t_iplhigh_count th + 1\<rparr>) m;
                                 m = upd_thread new (\<lambda>th. th\<lparr>t_context := NewThread\<rparr>) m
                             in thread_make_runnable me new False m)))))"

subsection \<open>Wait channels\<close>

definition wchan_create :: "bool \<Rightarrow> nat \<Rightarrow> string \<Rightarrow> machine \<Rightarrow> (nat option, machine) res" where
  "wchan_create ok w name m =
     (if \<not> ok then Ok None m
      else Ok (Some w) (upd_wchan w (\<lambda>_. \<lparr>wc_name = name, wc_threads = []\<rparr>) m))"

definition wchan_destroy :: "nat \<Rightarrow> machine \<Rightarrow> (unit, machine) res" where
  "wchan_destroy w m = kassert (wc_threads (m_wchans m w) = []) (Ok () m)"

text \<open>
  \<^verbatim>\<open>wchan_sleep\<close> up to the context switch; the re-acquisition of the spinlock that follows in
  the code runs when the sleeping thread is resumed, which theory \<open>Synch\<close> interleaves.
\<close>

definition wchan_sleep ::
    "(machine \<Rightarrow> machine) list \<Rightarrow> nat \<Rightarrow> nat \<Rightarrow> lockid \<Rightarrow> machine \<Rightarrow> (unit, machine) res" where
  "wchan_sleep env me w lk m =
     getthread (curthread me m) m (\<lambda>th.
       kassert (\<not> t_in_interrupt th)
         (kassert (spinlock_do_i_hold me lk m)
           (kassert (c_spinlocks (m_cpus m me) = 1)
             (thread_switch env me S_SLEEP (Some w) (Some lk) m))))"

definition wchan_wakeone :: "nat \<Rightarrow> nat \<Rightarrow> lockid \<Rightarrow> machine \<Rightarrow> (unit, machine) res" where
  "wchan_wakeone me w lk m =
     kassert (spinlock_do_i_hold me lk m)
       (case wc_threads (m_wchans m w) of
          [] \<Rightarrow> Ok () m
        | target # ts \<Rightarrow>
            (let m = upd_wchan w (\<lambda>c. c\<lparr>wc_threads := ts\<rparr>) m
             in thread_make_runnable me target False m))"

fun wake_list :: "nat \<Rightarrow> nat list \<Rightarrow> machine \<Rightarrow> (unit, machine) res" where
  "wake_list me [] m = Ok () m"
| "wake_list me (t # ts) m = kbind (thread_make_runnable me t False m) (\<lambda>_ m. wake_list me ts m)"

definition wchan_wakeall :: "nat \<Rightarrow> nat \<Rightarrow> lockid \<Rightarrow> machine \<Rightarrow> (unit, machine) res" where
  "wchan_wakeall me w lk m =
     kassert (spinlock_do_i_hold me lk m)
       (let list = wc_threads (m_wchans m w);
            m = upd_wchan w (\<lambda>c. c\<lparr>wc_threads := []\<rparr>) m
        in wake_list me list m)"

definition wchan_isempty :: "nat \<Rightarrow> nat \<Rightarrow> lockid \<Rightarrow> machine \<Rightarrow> (bool, machine) res" where
  "wchan_isempty me w lk m =
     kassert (spinlock_do_i_hold me lk m) (Ok (wc_threads (m_wchans m w) = []) m)"

subsection \<open>Migration and the clock\<close>

text \<open>
  The three loops of \<^verbatim>\<open>thread_consider_migration\<close>; \<open>victims\<close> is its private list. The model
  runs the function without interference from other CPUs between its critical sections.
\<close>

definition tl_length :: "nat list \<Rightarrow> u32" where
  "tl_length q = word_of_nat (length q)"

fun migration_count :: "nat \<Rightarrow> nat list \<Rightarrow> u32 \<Rightarrow> u32 \<Rightarrow> machine \<Rightarrow> (u32 \<times> u32, machine) res" where
  "migration_count me [] my tot m = Ok (my, tot) m"
| "migration_count me (c # cs) my tot m =
     kbind (spinlock_acquire me (RunqueueLock c) m) (\<lambda>_ m.
       let n = tl_length (c_runqueue (m_cpus m c));
           tot = tot + n;
           my = (if c = me then n else my)
       in kbind (spinlock_release me (RunqueueLock c) m) (\<lambda>_ m. migration_count me cs my tot m))"

fun migration_take :: "nat \<Rightarrow> nat \<Rightarrow> nat list \<Rightarrow> machine \<Rightarrow> (nat list, machine) res" where
  "migration_take me 0 victims m = Ok victims m"
| "migration_take me (Suc n) victims m =
     (let q = c_runqueue (m_cpus m me) in
      if q = [] then Fault
      else migration_take me n (last q # victims) (upd_cpu me (\<lambda>c. c\<lparr>c_runqueue := butlast q\<rparr>) m))"

fun migration_fill ::
    "nat \<Rightarrow> nat \<Rightarrow> u32 \<Rightarrow> nat \<Rightarrow> nat list \<Rightarrow> machine \<Rightarrow> (nat \<times> nat list, machine) res" where
  "migration_fill me c one_share 0 victims m = Ok (0, victims) m"
| "migration_fill me c one_share (Suc to_send) victims m =
     (if tl_length (c_runqueue (m_cpus m c)) < one_share then
        (case victims of
           [] \<Rightarrow> Fault
         | t # vs \<Rightarrow>
             if t = curthread me m then migration_fill me c one_share to_send (vs @ [t]) m
             else
               let m = upd_thread t (\<lambda>th. th\<lparr>t_cpu := c\<rparr>) m;
                   m = upd_cpu c (\<lambda>cp. cp\<lparr>c_runqueue := c_runqueue cp @ [t]\<rparr>) m
               in kbind (if c_isidle (m_cpus m c) then ipi_send me c IPI_UNIDLE m else Ok () m)
                    (\<lambda>_ m. migration_fill me c one_share to_send vs m))
      else Ok (Suc to_send, victims) m)"

fun migration_send ::
    "nat \<Rightarrow> u32 \<Rightarrow> nat list \<Rightarrow> nat \<Rightarrow> nat list \<Rightarrow> machine \<Rightarrow> (nat list, machine) res" where
  "migration_send me one_share [] to_send victims m = Ok victims m"
| "migration_send me one_share (c # cs) to_send victims m =
     (if to_send = 0 then Ok victims m
      else if c = me then migration_send me one_share cs to_send victims m
      else kbind (spinlock_acquire me (RunqueueLock c) m) (\<lambda>_ m.
             kbind (migration_fill me c one_share to_send victims m) (\<lambda>(to_send, victims) m.
               kbind (spinlock_release me (RunqueueLock c) m) (\<lambda>_ m.
                 migration_send me one_share cs to_send victims m))))"

definition thread_consider_migration :: "nat \<Rightarrow> machine \<Rightarrow> (unit, machine) res" where
  "thread_consider_migration me m =
     kbind (migration_count me (m_allcpus m) 0 0 m) (\<lambda>(my_count, total_count) m.
       let one_share = DIVROUNDUP total_count (tl_length (m_allcpus m)) in
       if my_count < one_share then Ok () m
       else
         let to_send = my_count - one_share in
         kbind (spinlock_acquire me (RunqueueLock me) m) (\<lambda>_ m.
           kbind (migration_take me (unat to_send) [] m) (\<lambda>victims m.
             kbind (spinlock_release me (RunqueueLock me) m) (\<lambda>_ m.
               kbind (migration_send me one_share (m_allcpus m) (unat to_send) victims m) (\<lambda>victims m.
                 if victims \<noteq> [] then
                   kbind (spinlock_acquire me (RunqueueLock me) m) (\<lambda>_ m.
                     let m = upd_cpu me (\<lambda>c. c\<lparr>c_runqueue := c_runqueue c @ victims\<rparr>) m
                     in spinlock_release me (RunqueueLock me) m)
                 else Ok () m)))))"

definition SCHEDULE_HARDCLOCKS :: u32 where "SCHEDULE_HARDCLOCKS = 4"
definition MIGRATE_HARDCLOCKS :: u32 where "MIGRATE_HARDCLOCKS = 16"

definition schedule :: "machine \<Rightarrow> (unit, machine) res" where
  "schedule m = Ok () m"

definition hardclock :: "(machine \<Rightarrow> machine) list \<Rightarrow> nat \<Rightarrow> machine \<Rightarrow> (unit, machine) res" where
  "hardclock env me m =
     (let m = upd_cpu me (\<lambda>c. c\<lparr>c_hardclocks := c_hardclocks c + 1\<rparr>) m in
      kbind (if c_hardclocks (m_cpus m me) mod MIGRATE_HARDCLOCKS = 0
             then thread_consider_migration me m else Ok () m) (\<lambda>_ m.
        kbind (if c_hardclocks (m_cpus m me) mod SCHEDULE_HARDCLOCKS = 0
               then schedule m else Ok () m) (\<lambda>_ m.
          thread_yield env me m)))"

definition timerclock :: "nat \<Rightarrow> nat \<Rightarrow> lockid \<Rightarrow> machine \<Rightarrow> (unit, machine) res" where
  "timerclock me lbolt lbolt_lock m =
     kbind (spinlock_acquire me lbolt_lock m) (\<lambda>_ m.
       kbind (wchan_wakeall me lbolt lbolt_lock m) (\<lambda>_ m.
         spinlock_release me lbolt_lock m))"

subsection \<open>What the lock and level operations leave alone\<close>

text \<open>
  \<open>frame me m m'\<close>: the two machines differ at most in the spinlocks, in the interrupt fields of
  the CPU \<open>me\<close> and in the interrupt fields of its current thread.
\<close>

definition same_thread :: "thread \<Rightarrow> thread \<Rightarrow> bool" where
  "same_thread a b \<longleftrightarrow> t_wchan_name b = t_wchan_name a \<and> t_state b = t_state a \<and>
     t_stack b = t_stack a \<and> t_context b = t_context a \<and> t_cpu b = t_cpu a \<and> t_proc b = t_proc a \<and>
     t_in_interrupt b = t_in_interrupt a"

definition same_cpu :: "cpu \<Rightarrow> cpu \<Rightarrow> bool" where
  "same_cpu a b \<longleftrightarrow> c_curthread b = c_curthread a \<and> c_zombies b = c_zombies a \<and>
     c_isidle b = c_isidle a \<and> c_runqueue b = c_runqueue a \<and> c_hardclocks b = c_hardclocks a"

definition frame :: "nat \<Rightarrow> machine \<Rightarrow> machine \<Rightarrow> bool" where
  "frame me m m' \<longleftrightarrow> (\<forall>c. same_cpu (m_cpus m c) (m_cpus m' c)) \<and>
     m_wchans m' = m_wchans m \<and> m_allcpus m' = m_allcpus m \<and> m_numthreads m' = m_numthreads m \<and>
     (\<forall>t. t \<noteq> curthread me m \<longrightarrow> m_threads m' t = m_threads m t) \<and>
     (\<exists>a b. m_threads m (curthread me m) = Some a \<and> m_threads m' (curthread me m) = Some b \<and>
        same_thread a b)"

lemma same_refl [simp]: "same_thread a a" "same_cpu c c"
  by (simp_all add: same_thread_def same_cpu_def)

lemma frame_cur: "frame me m m' \<Longrightarrow> curthread me m' = curthread me m"
  by (simp add: frame_def same_cpu_def curthread_def)

lemma frame_trans: "frame me m m' \<Longrightarrow> frame me m' m'' \<Longrightarrow> frame me m m''"
  using frame_cur [of me m m'] unfolding frame_def same_cpu_def same_thread_def by force

lemma splraise_frame: "splraise me a b m = Ok u m' \<Longrightarrow> frame me m m'"
  by (auto simp: splraise_def Let_def machine_upd frame_def same_cpu_def same_thread_def
      split: option.splits if_splits)

lemma spllower_frame: "spllower me a b m = Ok u m' \<Longrightarrow> frame me m m'"
  by (auto simp: spllower_def Let_def machine_upd frame_def same_cpu_def same_thread_def
      split: option.splits if_splits)

lemma curspl_frame:
  "m_threads m t = Some a \<Longrightarrow> t = curthread me m \<Longrightarrow> frame me m (upd_thread t (\<lambda>th. th\<lparr>t_curspl := s\<rparr>) m)"
  by (auto simp: machine_upd frame_def same_thread_def)

lemma lock_frame:
  "m_threads m (curthread me m) = Some a \<Longrightarrow>
   frame me m (upd_lock l f (upd_cpu me (\<lambda>c. c\<lparr>c_spinlocks := g c\<rparr>) m))"
  by (auto simp: machine_upd frame_def same_cpu_def)

lemma frame_thread: "frame me m m' \<Longrightarrow> \<exists>a. m_threads m' (curthread me m') = Some a"
  using frame_cur [of me m m'] by (auto simp: frame_def)

lemma spinlock_acquire_frame:
  assumes "spinlock_acquire me l m = Ok u m'" shows "frame me m m'"
proof -
  obtain m1 where m1: "splraise me IPL_NONE IPL_HIGH m = Ok () m1"
      "m' = upd_lock l (\<lambda>s. s\<lparr>splk_lock := 1, splk_holder := Some me\<rparr>)
              (upd_cpu me (\<lambda>c. c\<lparr>c_spinlocks := c_spinlocks c + 1\<rparr>) m1)"
    using assms by (auto simp: spinlock_acquire_def kbind_Ok_iff Let_def split: if_splits)
  have f: "frame me m m1" by (rule splraise_frame [OF m1(1)])
  obtain a where "m_threads m1 (curthread me m1) = Some a" using frame_thread [OF f] by blast
  from lock_frame [OF this] show ?thesis unfolding m1(2) by (rule frame_trans [OF f])
qed

lemma spinlock_release_frame:
  assumes "spinlock_release me l m = Ok u m'" shows "frame me m m'"
proof -
  let ?m = "upd_lock l (\<lambda>s. s\<lparr>splk_lock := 0, splk_holder := None\<rparr>)
              (upd_cpu me (\<lambda>c. c\<lparr>c_spinlocks := c_spinlocks c - 1\<rparr>) m)"
  have l: "spllower me IPL_HIGH IPL_NONE ?m = Ok u m'"
    using assms by (auto simp: spinlock_release_def Let_def)
  note f = spllower_frame [OF l]
  have "m_threads ?m = m_threads m" "curthread me ?m = curthread me m" by (simp_all add: machine_upd)
  then obtain a where "m_threads m (curthread me m) = Some a" using f by (auto simp: frame_def)
  from lock_frame [OF this] show ?thesis by (rule frame_trans [OF _ f])
qed

lemma splx_frame:
  assumes "splx me s m = Ok r m'" shows "frame me m m'"
proof -
  obtain a where a: "m_threads m (curthread me m) = Some a"
    using assms by (auto simp: splx_def getthread_def Let_def split: option.splits)
  then have self: "frame me m m" by (auto simp: frame_def)
  let ?t = "curthread me m"
  consider "t_curspl a < s" | "t_curspl a > s" | "t_curspl a = s" by linarith
  then show ?thesis
  proof cases
    case 1
    then obtain m1 where m1: "splraise me (t_curspl a) s m = Ok () m1"
        "m' = upd_thread ?t (\<lambda>t. t\<lparr>t_curspl := s\<rparr>) m1"
      using assms a by (auto simp: splx_def getthread_def Let_def kbind_Ok_iff)
    note f = splraise_frame [OF m1(1)]
    obtain b where "m_threads m1 (curthread me m1) = Some b" using frame_thread [OF f] by blast
    then have "frame me m1 m'" unfolding m1(2) frame_cur [OF f, symmetric] by (rule curspl_frame) simp
    with f show ?thesis by (rule frame_trans)
  next
    case 2
    then have "spllower me (t_curspl a) s (upd_thread ?t (\<lambda>t. t\<lparr>t_curspl := s\<rparr>) m) = Ok () m'"
      using assms a by (auto simp: splx_def getthread_def Let_def kbind_Ok_iff)
    from curspl_frame [OF a refl] spllower_frame [OF this] show ?thesis by (rule frame_trans)
  next
    case 3
    then have "m' = m" using assms a by (simp add: splx_def getthread_def Let_def)
    then show ?thesis using self by simp
  qed
qed

subsection \<open>The context switch\<close>

text \<open>
  A suspended or new thread carries the interrupt state of the middle of \<^verbatim>\<open>thread_switch\<close>: the
  level is high and it accounts for the run queue lock.
\<close>

fun context_level :: "tcontext \<Rightarrow> int" where
  "context_level (Suspended spl) = spl"
| "context_level _ = IPL_NONE"

definition resumable :: "thread \<Rightarrow> bool" where
  "resumable th \<longleftrightarrow> t_curspl th = IPL_HIGH \<and> t_iplhigh_count th = 2 \<and> t_context th \<noteq> NoContext \<and>
     (context_level (t_context th) = IPL_NONE \<or> context_level (t_context th) = IPL_HIGH)"

definition guarded :: "thread \<Rightarrow> bool" where
  "guarded th \<longleftrightarrow> (case t_stack th of None \<Rightarrow> True
     | Some st \<Rightarrow> 4 \<le> length st \<and> take 4 st = replicate 4 THREAD_STACK_MAGIC)"

lemma checkstack_ok:
  assumes "m_threads m t = Some th" "guarded th"
  shows "thread_checkstack t m = Ok () m"
proof (cases "t_stack th")
  case None
  then show ?thesis using assms by (simp add: thread_checkstack_def getthread_def)
next
  case (Some st)
  have len: "4 \<le> length st" and magic: "take 4 st = replicate 4 THREAD_STACK_MAGIC"
    using assms(2) Some by (simp_all add: guarded_def)
  have "st ! i = THREAD_STACK_MAGIC" if "i < 4" for i
    using arg_cong [OF magic, of "\<lambda>xs. xs ! i"] that by simp
  then show ?thesis using assms(1) Some len
    by (auto simp: thread_checkstack_def getthread_def rd_def)
qed

lemma checkstack_init_guards:
  assumes "m_threads m t = Some th" "t_stack th = Some st" "4 \<le> length st"
  shows "\<exists>m'. thread_checkstack_init t m = Ok () m' \<and> thread_checkstack t m' = Ok () m'"
proof -
  let ?m = "upd_thread t (\<lambda>th. th\<lparr>t_stack := Some (stack_guard_init st)\<rparr>) m"
  have "thread_checkstack_init t m = Ok () ?m"
    using assms by (simp add: thread_checkstack_init_def getthread_def)
  moreover have "thread_checkstack t ?m = Ok () ?m"
    using assms by (intro checkstack_ok) (auto simp: machine_upd guarded_def stack_guard_init_def)
  ultimately show ?thesis by blast
qed

text \<open>The last part of a switch, in the thread being resumed.\<close>

lemma spl_inv_thread_fields:
  assumes "spl_inv me H m" "m_locks m' = m_locks m"
    and "c_spinlocks (m_cpus m' me) = c_spinlocks (m_cpus m me)"
    and "c_irqon (m_cpus m' me) = c_irqon (m_cpus m me)" "curthread me m' = curthread me m"
    and "m_threads m (curthread me m) = Some a" "m_threads m' (curthread me m) = Some b"
    and "t_curspl b = t_curspl a" "t_iplhigh_count b = t_iplhigh_count a"
  shows "spl_inv me H m' \<and> curspl me m' = curspl me m"
  using assms unfolding spl_inv_def curspl_def by simp

lemma resume_tail:
  assumes inv: "spl_inv me {RunqueueLock me} m" and z: "c_zombies (m_cpus m me) = []"
    and spl: "spl = IPL_NONE \<or> spl = IPL_HIGH"
  shows "\<exists>m'. switch_resume me spl m = Ok () m' \<and> spl_inv me {} m' \<and> curspl me m' = spl \<and>
    frame me (upd_thread (curthread me m) (\<lambda>th. th\<lparr>t_wchan_name := None, t_state := S_RUN\<rparr>) m) m'"
proof -
  let ?t = "curthread me m"
  let ?m = "upd_thread ?t (\<lambda>th. th\<lparr>t_state := S_RUN\<rparr>) (upd_thread ?t (\<lambda>th. th\<lparr>t_wchan_name := None\<rparr>) m)"
  have eq: "?m = upd_thread ?t (\<lambda>th. th\<lparr>t_wchan_name := None, t_state := S_RUN\<rparr>) m"
    by (simp add: upd_thread_def map_option.compositionality comp_def)
  obtain a where a: "m_threads m ?t = Some a" using inv by (auto simp: spl_inv_def)
  have i1: "spl_inv me {RunqueueLock me} ?m"
    using spl_inv_thread_fields [OF inv, of ?m a] a by (simp add: machine_upd)
  obtain m1 where m1: "spinlock_release me (RunqueueLock me) ?m = Ok () m1" "spl_inv me {} m1"
    using spinlock_release_ok [OF i1, of "RunqueueLock me"] by auto
  note f1 = spinlock_release_frame [OF m1(1)]
  have "c_zombies (m_cpus m1 me) = []"
    using f1 z by (simp add: frame_def same_cpu_def machine_upd)
  then have "exorcise me m1 = Ok () m1" by (simp add: exorcise_def)
  moreover obtain m2 where m2: "splx me spl m1 = Ok (curspl me m1) m2" "spl_inv me {} m2" "curspl me m2 = spl"
    using splx_ok [OF m1(2) spl] by blast
  ultimately have "switch_resume me spl m = Ok () m2"
    using m1(1) by (simp add: switch_resume_def Let_def)
  moreover have "frame me ?m m2" using frame_trans [OF f1 splx_frame [OF m2(1)]] .
  ultimately show ?thesis using m2 eq by auto
qed

lemma startup_resume: "thread_startup me m = switch_resume me IPL_NONE m"
  by (simp add: thread_startup_def switch_resume_def spl0_def)

lemma switchframe_ok:
  assumes inv: "spl_inv me {RunqueueLock me} m" and cur: "curthread me m = next" "next \<noteq> cur"
    and th: "m_threads m next = Some th" "resumable th" and z: "c_zombies (m_cpus m me) = []"
    and a: "m_threads m cur = Some a"
  shows "\<exists>m'. switchframe_switch me cur next spl m = Ok () m' \<and> spl_inv me {} m' \<and>
    curspl me m' = context_level (t_context th) \<and>
    frame me (upd_thread next (\<lambda>th. th\<lparr>t_wchan_name := None, t_state := S_RUN\<rparr>)
      (upd_thread cur (\<lambda>th. th\<lparr>t_context := Suspended spl\<rparr>) m)) m'"
proof -
  let ?m = "upd_thread cur (\<lambda>th. th\<lparr>t_context := Suspended spl\<rparr>) m"
  have i: "spl_inv me {RunqueueLock me} ?m"
    using spl_inv_thread_fields [OF inv, of ?m th th] th cur by (simp add: machine_upd)
  have n: "m_threads ?m next = Some th" "curthread me ?m = next" "c_zombies (m_cpus ?m me) = []"
    using th cur z by (simp_all add: machine_upd)
  have "switchframe_switch me cur next spl m = switch_resume me (context_level (t_context th)) ?m"
    using n th(2) by (cases "t_context th")
      (simp_all add: switchframe_switch_def getthread_def resumable_def startup_resume Let_def)
  moreover have "context_level (t_context th) = IPL_NONE \<or> context_level (t_context th) = IPL_HIGH"
    using th(2) by (simp add: resumable_def)
  ultimately show ?thesis
    using resume_tail [OF i n(3)] n(2) by (simp add: curthread_def)
qed

text \<open>
  A CPU between two context switches: its current thread runs, its run queue holds other,
  resumable threads, and no spinlock is held.
\<close>

definition sched_ok :: "nat \<Rightarrow> machine \<Rightarrow> bool" where
  "sched_ok me m \<longleftrightarrow> spl_inv me {} m \<and> locks_private me m \<and> \<not> c_isidle (m_cpus m me) \<and>
     c_zombies (m_cpus m me) = [] \<and> distinct (curthread me m # c_runqueue (m_cpus m me)) \<and>
     (\<exists>a. m_threads m (curthread me m) = Some a \<and> guarded a \<and> t_cpu a = me \<and> t_state a = S_RUN) \<and>
     (\<forall>t \<in> set (c_runqueue (m_cpus m me)).
        \<exists>th. m_threads m t = Some th \<and> resumable th \<and> guarded th \<and> t_cpu th = me \<and> t_state th = S_READY)"

lemma acquire_private: "spinlock_acquire me l m = Ok () m' \<Longrightarrow> locks_private me m \<Longrightarrow> locks_private me m'"
  using run_splop_private [of me "Acq l" m "()" m'] by simp

lemma release_private: "spinlock_release me l m = Ok () m' \<Longrightarrow> locks_private me m \<Longrightarrow> locks_private me m'"
  using run_splop_private [of me "Rel l" m "()" m'] by simp

lemma splx_private: "splx me s m = Ok r m' \<Longrightarrow> locks_private me m \<Longrightarrow> locks_private me m'"
  using run_splop_private [of me "Spl s" m "()" m'] by simp

lemma private_free: "locks_private me m \<Longrightarrow> spl_inv me H m \<Longrightarrow> l \<notin> H \<Longrightarrow> splk_holder (m_locks m l) = None"
  by (auto simp: locks_private_def spl_inv_def)

lemma spl_inv_ipl:
  "spl_inv me H m \<Longrightarrow> m_threads m (curthread me m) = Some a \<Longrightarrow>
   t_curspl a = curspl me m \<and> t_iplhigh_count a = int (card H) + curspl me m \<and>
   (c_irqon (m_cpus m me) \<longleftrightarrow> t_iplhigh_count a = 0)"
  by (auto simp: spl_inv_def curspl_def)

lemma frame_thread_cur:
  assumes "frame me m m'" "m_threads m (curthread me m) = Some a"
  shows "\<exists>b. m_threads m' (curthread me m) = Some b \<and> same_thread a b"
  using assms by (auto simp: frame_def)

text \<open>Level raised and run queue locked.\<close>

lemma switch_enter:
  assumes "spl_inv me H m" "locks_private me m" "RunqueueLock me \<notin> H" "card H < 2 ^ 31"
  shows "\<exists>m1 m2. splhigh me m = Ok (curspl me m) m1 \<and> spinlock_acquire me (RunqueueLock me) m1 = Ok () m2 \<and>
    spl_inv me (insert (RunqueueLock me) H) m2 \<and> locks_private me m2 \<and> curspl me m2 = IPL_HIGH \<and>
    frame me m m1 \<and> frame me m m2"
proof -
  obtain m1 where m1: "splx me IPL_HIGH m = Ok (curspl me m) m1" "spl_inv me H m1" "curspl me m1 = IPL_HIGH"
    using splx_ok [OF assms(1), of IPL_HIGH] by blast
  note p1 = splx_private [OF m1(1) assms(2)]
  have free: "splk_holder (m_locks m1 (RunqueueLock me)) = None"
    by (rule private_free [OF p1 m1(2) assms(3)])
  have "card H < 2 ^ 32 - 1" using assms(4) by simp
  from spinlock_acquire_ok [OF m1(2) free this] obtain m2 where
    m2: "spinlock_acquire me (RunqueueLock me) m1 = Ok () m2" "spl_inv me (insert (RunqueueLock me) H) m2"
      "curspl me m2 = IPL_HIGH"
    using m1(3) by auto
  have "frame me m m2" by (rule frame_trans [OF splx_frame [OF m1(1)] spinlock_acquire_frame [OF m2(1)]])
  then show ?thesis
    using m1(1) m2 acquire_private [OF m2(1) p1] splx_frame [OF m1(1)]
    by (intro exI [of _ m1] exI [of _ m2]) (simp add: splhigh_def)
qed

text \<open>Handing the CPU to the first thread of the run queue.\<close>

definition hand_over :: "nat \<Rightarrow> nat \<Rightarrow> nat list \<Rightarrow> threadstate \<Rightarrow> machine \<Rightarrow> machine" where
  "hand_over me next ts st m =
     upd_cpu me (\<lambda>c. c\<lparr>c_runqueue := ts, c_isidle := False, c_curthread := next\<rparr>)
       (upd_thread (curthread me m) (\<lambda>th. th\<lparr>t_state := st\<rparr>) m)"

lemma hand_over_inv:
  assumes "spl_inv me {RunqueueLock me} m" "curspl me m = IPL_HIGH" "next \<noteq> curthread me m"
    and "m_threads m next = Some th" "resumable th"
  shows "spl_inv me {RunqueueLock me} (hand_over me next ts st m)"
proof -
  obtain a where a: "m_threads m (curthread me m) = Some a" using assms(1) by (auto simp: spl_inv_def)
  have "\<not> c_irqon (m_cpus m me)"
    using spl_inv_ipl [OF assms(1) a] assms(2) by (simp add: IPL_HIGH_def)
  moreover have "m_threads (hand_over me next ts st m) (curthread me (hand_over me next ts st m)) = Some th"
    using assms(3,4) by (simp add: hand_over_def machine_upd)
  ultimately show ?thesis
    using assms(1,5) unfolding spl_inv_def
    by (simp add: hand_over_def machine_upd resumable_def IPL_HIGH_def)
qed

lemma yield_body:
  assumes ok: "sched_ok me m" and q: "c_runqueue (m_cpus m me) = n # ts"
  shows "\<exists>m2. frame me m m2 \<and> spl_inv me {RunqueueLock me} m2 \<and> locks_private me m2 \<and> curspl me m2 = IPL_HIGH \<and>
    thread_yield env me m =
      switchframe_switch me (curthread me m) n (curspl me m)
        (hand_over me n (ts @ [curthread me m]) S_READY m2)"
proof -
  let ?t = "curthread me m"
  obtain a where a: "m_threads m ?t = Some a" "guarded a" "t_cpu a = me"
    using ok by (auto simp: sched_ok_def)
  have "spl_inv me {} m" "locks_private me m" using ok by (auto simp: sched_ok_def)
  then obtain m1 m2 where m12: "splhigh me m = Ok (curspl me m) m1"
      "spinlock_acquire me (RunqueueLock me) m1 = Ok () m2" "spl_inv me {RunqueueLock me} m2"
      "locks_private me m2" "curspl me m2 = IPL_HIGH" "frame me m m1" "frame me m m2"
    using switch_enter [of me "{}" m] by auto
  obtain a1 where a1: "m_threads m1 ?t = Some a1" "same_thread a a1"
    using frame_thread_cur [OF m12(6) a(1)] by blast
  obtain a2 where a2: "m_threads m2 ?t = Some a2" "same_thread a a2"
    using frame_thread_cur [OF m12(7) a(1)] by blast
  have c1: "curthread me m1 = ?t" "curthread me m2 = ?t" using m12(6,7) frame_cur by auto
  have i1: "\<not> c_isidle (m_cpus m1 me)" and q2: "c_runqueue (m_cpus m2 me) = n # ts" "\<not> c_isidle (m_cpus m2 me)"
    using m12(6,7) ok q by (simp_all add: frame_def same_cpu_def sched_ok_def)
  have chk: "thread_checkstack ?t m1 = Ok () m1"
    using a1 a(2) by (intro checkstack_ok [of _ _ a1]) (auto simp: guarded_def same_thread_def)
  have hold: "spinlock_do_i_hold me (RunqueueLock me) m2"
    using m12(3) unfolding spl_inv_def spinlock_do_i_hold_def by blast
  let ?m3 = "upd_cpu me (\<lambda>c. c\<lparr>c_runqueue := n # ts @ [?t]\<rparr>) (upd_thread ?t (\<lambda>th. th\<lparr>t_state := S_READY\<rparr>) m2)"
  have place: "switch_place me ?t S_READY None None m2 = Ok () ?m3"
    using a2 a(3) q2 hold
    by (simp add: switch_place_def thread_make_runnable_def getthread_def same_thread_def Let_def)
      (simp add: machine_upd)
  let ?m4 = "upd_cpu me (\<lambda>c. c\<lparr>c_isidle := True\<rparr>) (upd_thread ?t (\<lambda>th. th\<lparr>t_state := S_READY\<rparr>) ?m3)"
  have pick: "switch_pick env me ?m4 = Ok n (upd_cpu me (\<lambda>c. c\<lparr>c_runqueue := ts @ [?t]\<rparr>) ?m4)"
    by (subst switch_pick.simps) (simp add: machine_upd)
  have eq: "upd_cpu me (\<lambda>c. c\<lparr>c_curthread := n\<rparr>) (upd_cpu me (\<lambda>c. c\<lparr>c_isidle := False\<rparr>)
      (upd_cpu me (\<lambda>c. c\<lparr>c_runqueue := ts @ [?t]\<rparr>) ?m4)) = hand_over me n (ts @ [?t]) S_READY m2"
    using a2 c1 by (simp add: hand_over_def machine_upd)
  have "thread_yield env me m = switchframe_switch me ?t n (curspl me m) (hand_over me n (ts @ [?t]) S_READY m2)"
    unfolding thread_yield_def thread_switch_def
    by (simp add: m12(1,2) c1(1) i1 chk q2 place pick eq Let_def del: switch_pick.simps)
  then show ?thesis using m12 by blast
qed

lemma switchframe_private:
  "switchframe_switch me cur next spl m = Ok () m' \<Longrightarrow> locks_private me m \<Longrightarrow>
   c_zombies (m_cpus m me) = [] \<Longrightarrow> locks_private me m'"
proof -
  assume r: "switchframe_switch me cur next spl m = Ok () m'" and p: "locks_private me m"
    and z: "c_zombies (m_cpus m me) = []"
  let ?m = "upd_thread cur (\<lambda>th. th\<lparr>t_context := Suspended spl\<rparr>) m"
  obtain s where "switch_resume me s ?m = Ok () m'"
    using r by (auto simp: switchframe_switch_def getthread_def startup_resume Let_def
        split: option.splits tcontext.splits)
  moreover define m0 where "m0 = upd_thread (curthread me ?m) (\<lambda>th. th\<lparr>t_state := S_RUN\<rparr>)
      (upd_thread (curthread me ?m) (\<lambda>th. th\<lparr>t_wchan_name := None\<rparr>) ?m)"
  ultimately obtain m1 m2 r2 where ms0: "spinlock_release me (RunqueueLock me) m0 = Ok () m1"
      "exorcise me m1 = Ok () m2" "splx me s m2 = Ok r2 m'"
    by (auto simp: switch_resume_def kbind_Ok_iff Let_def)
  have "m_locks m0 = m_locks m" "m_cpus m0 = m_cpus m" by (simp_all add: m0_def machine_upd)
  note ms = this ms0
  have "c_zombies (m_cpus m1 me) = []"
    using spinlock_release_frame [OF ms(3)] z ms(2) by (simp add: frame_def same_cpu_def)
  then have "m2 = m1" using ms(4) by (simp add: exorcise_def)
  moreover have "locks_private me m1"
    using release_private [OF ms(3)] p ms(1) by (simp add: locks_private_def)
  ultimately show "locks_private me m'" using splx_private [OF ms(5)] by simp
qed

lemma thread_yield_ok:
  assumes ok: "sched_ok me m" and q: "c_runqueue (m_cpus m me) = n # ts"
  shows "\<exists>m' th. thread_yield env me m = Ok () m' \<and> sched_ok me m' \<and> curthread me m' = n \<and>
    c_runqueue (m_cpus m' me) = ts @ [curthread me m] \<and>
    m_threads m n = Some th \<and> curspl me m' = context_level (t_context th) \<and>
    (\<exists>a. m_threads m' (curthread me m) = Some a \<and> t_context a = Suspended (curspl me m))"
proof -
  let ?t = "curthread me m"
  obtain m2 where m2: "frame me m m2" "spl_inv me {RunqueueLock me} m2" "locks_private me m2"
      "curspl me m2 = IPL_HIGH"
      "thread_yield env me m = switchframe_switch me ?t n (curspl me m) (hand_over me n (ts @ [?t]) S_READY m2)"
    using yield_body [OF ok q] by blast
  let ?h = "hand_over me n (ts @ [?t]) S_READY m2"
  have c2: "curthread me m2 = ?t" using frame_cur [OF m2(1)] .
  have nt: "n \<noteq> ?t" and dist: "distinct (?t # n # ts)" using ok q by (auto simp: sched_ok_def)
  obtain th where th: "m_threads m n = Some th" "resumable th" "guarded th" "t_cpu th = me"
    using ok q by (auto simp: sched_ok_def)
  have th2: "m_threads m2 n = Some th" using m2(1) nt th(1) by (simp add: frame_def)
  obtain a where a: "m_threads m ?t = Some a" "guarded a" "t_cpu a = me" using ok by (auto simp: sched_ok_def)
  obtain a2 where a2: "m_threads m2 ?t = Some a2" "same_thread a a2"
    using frame_thread_cur [OF m2(1) a(1)] by blast
  have h: "curthread me ?h = n" "m_threads ?h n = Some th" "c_zombies (m_cpus ?h me) = []"
      "m_threads ?h ?t = Some (a2\<lparr>t_state := S_READY\<rparr>)"
    using nt th2 a2 c2 m2(1) ok
    by (simp_all add: hand_over_def machine_upd frame_def same_cpu_def sched_ok_def)
  have hinv: "spl_inv me {RunqueueLock me} ?h"
    using hand_over_inv [OF m2(2,4)] nt c2 th2 th(2) by simp
  obtain m' where m': "switchframe_switch me ?t n (curspl me m) ?h = Ok () m'" "spl_inv me {} m'"
      "curspl me m' = context_level (t_context th)"
      "frame me (upd_thread n (\<lambda>th. th\<lparr>t_wchan_name := None, t_state := S_RUN\<rparr>)
         (upd_thread ?t (\<lambda>th. th\<lparr>t_context := Suspended (curspl me m)\<rparr>) ?h)) m'"
    using switchframe_ok [OF hinv h(1) nt h(2) th(2) h(3,4)] by blast
  let ?f = "upd_thread n (\<lambda>th. th\<lparr>t_wchan_name := None, t_state := S_RUN\<rparr>)
         (upd_thread ?t (\<lambda>th. th\<lparr>t_context := Suspended (curspl me m)\<rparr>) ?h)"
  have fc: "m_cpus ?f = m_cpus ?h" "curthread me ?f = n" using h(1) by (simp_all add: machine_upd)
  have cpu: "c_runqueue (m_cpus m' me) = ts @ [?t]" "\<not> c_isidle (m_cpus m' me)" "curthread me m' = n"
      "c_zombies (m_cpus m' me) = []"
    using m'(4) fc h(3) frame_cur [OF m'(4)]
    by (simp_all add: frame_def same_cpu_def) (simp_all add: hand_over_def machine_upd)
  have other: "m_threads m' t = m_threads m t" if "t \<noteq> n" "t \<noteq> ?t" for t
    using m'(4) fc(2) that m2(1) c2 by (simp add: frame_def) (simp add: hand_over_def machine_upd)
  have mt: "m_threads m' ?t = Some (a2\<lparr>t_state := S_READY, t_context := Suspended (curspl me m)\<rparr>)"
    using m'(4) fc(2) nt h(4) by (simp add: frame_def) (simp add: machine_upd)
  have "\<exists>b. m_threads ?f n = Some (th\<lparr>t_wchan_name := None, t_state := S_RUN\<rparr>) \<and> m_threads m' n = Some b \<and>
      same_thread (th\<lparr>t_wchan_name := None, t_state := S_RUN\<rparr>) b"
    using m'(4) fc(2) nt h(2) frame_thread_cur [OF m'(4)] by (simp add: machine_upd)
  then obtain b where b: "m_threads m' n = Some b" "same_thread (th\<lparr>t_wchan_name := None, t_state := S_RUN\<rparr>) b"
    by blast
  have lvl: "curspl me m = IPL_NONE \<or> curspl me m = IPL_HIGH"
    using ok a(1) by (auto simp: sched_ok_def spl_inv_def curspl_def)
  have "resumable (a2\<lparr>t_state := S_READY, t_context := Suspended (curspl me m)\<rparr>)"
    using spl_inv_ipl [OF m2(2), of a2] a2(1) c2 m2(4) lvl by (simp add: resumable_def IPL_HIGH_def)
  moreover have "guarded (a2\<lparr>t_state := S_READY, t_context := Suspended (curspl me m)\<rparr>)" "t_cpu a2 = me"
    using a a2(2) by (simp_all add: guarded_def same_thread_def)
  ultimately have tail: "\<exists>th. m_threads m' t = Some th \<and> resumable th \<and> guarded th \<and> t_cpu th = me \<and> t_state th = S_READY"
    if "t \<in> set (ts @ [?t])" for t
  proof (cases "t = ?t")
    case False
    then have "t \<in> set ts" using that by simp
    moreover then have "m_threads m' t = m_threads m t" using other [of t] False dist by auto
    ultimately show ?thesis using ok q unfolding sched_ok_def by simp
  qed (use mt in simp)
  have "locks_private me ?h" using m2(3) by (simp add: hand_over_def machine_upd locks_private_def)
  then have "locks_private me m'" using switchframe_private [OF m'(1)] h(3) by simp
  moreover have "guarded b" "t_cpu b = me" "t_state b = S_RUN"
    using b(2) th by (simp_all add: guarded_def same_thread_def)
  ultimately have "sched_ok me m'"
    unfolding sched_ok_def using m'(2) cpu b(1) tail dist by simp
  then show ?thesis using m2(5) m' cpu th mt by auto
qed

fun yields :: "nat \<Rightarrow> nat \<Rightarrow> machine \<Rightarrow> (unit, machine) res" where
  "yields 0 me m = Ok () m"
| "yields (Suc k) me m = kbind (thread_yield [] me m) (\<lambda>_ m. yields k me m)"

lemma yields_rotate:
  assumes "sched_ok me m" "c_runqueue (m_cpus m me) \<noteq> []"
  shows "\<exists>m'. yields k me m = Ok () m' \<and> sched_ok me m' \<and>
    curthread me m' # c_runqueue (m_cpus m' me) = rotate k (curthread me m # c_runqueue (m_cpus m me))"
  using assms
proof (induction k arbitrary: m)
  case 0
  then show ?case by simp
next
  case (Suc k)
  then obtain n ts where q: "c_runqueue (m_cpus m me) = n # ts" by (cases "c_runqueue (m_cpus m me)") auto
  obtain m1 where m1: "thread_yield [] me m = Ok () m1" "sched_ok me m1" "curthread me m1 = n"
      "c_runqueue (m_cpus m1 me) = ts @ [curthread me m]"
    using thread_yield_ok [OF Suc.prems(1) q] by blast
  have "rotate k (n # ts @ [curthread me m]) = rotate (Suc k) (curthread me m # n # ts)"
    by (simp add: rotate1_rotate_swap)
  then show ?case using Suc.IH [OF m1(2)] m1 q by simp
qed

text \<open>
  \<^bold>\<open>C17.\<close> \<^verbatim>\<open>thread_yield\<close> is a round-robin scheduler: from a CPU whose current thread is \<open>t\<close> and whose
  run queue is \<open>q\<close>, after \<open>k\<close> context switches the current thread and run queue are \<open>t # q\<close>
  rotated by \<open>k\<close>, so every thread runs again within \<open>length q + 1\<close> switches; each switch saves
  the interrupt level of the thread it suspends, hands the resumed thread its own level back,
  marks the two threads ready and running, and leaves no spinlock held.
\<close>

theorem thread_yield_round_robin:
  assumes "sched_ok me m" "c_runqueue (m_cpus m me) \<noteq> []"
  shows "\<exists>m'. yields k me m = Ok () m' \<and> sched_ok me m' \<and>
    curthread me m' # c_runqueue (m_cpus m' me) = rotate k (curthread me m # c_runqueue (m_cpus m me)) \<and>
    (k = 1 \<longrightarrow> (\<exists>th a. m_threads m (curthread me m') = Some th \<and>
       curspl me m' = context_level (t_context th) \<and>
       m_threads m' (curthread me m) = Some a \<and> t_context a = Suspended (curspl me m) \<and>
       t_state a = S_READY))"
proof -
  obtain m' where m': "yields k me m = Ok () m'" "sched_ok me m'"
      "curthread me m' # c_runqueue (m_cpus m' me) = rotate k (curthread me m # c_runqueue (m_cpus m me))"
    using yields_rotate [OF assms] by blast
  have "\<exists>th a. m_threads m (curthread me m') = Some th \<and> curspl me m' = context_level (t_context th) \<and>
       m_threads m' (curthread me m) = Some a \<and> t_context a = Suspended (curspl me m) \<and>
       t_state a = S_READY" if "k = 1"
  proof -
    obtain n ts where q: "c_runqueue (m_cpus m me) = n # ts" using assms(2) by (cases "c_runqueue (m_cpus m me)") auto
    obtain m1 th where m1: "thread_yield [] me m = Ok () m1" "sched_ok me m1" "curthread me m1 = n"
        "c_runqueue (m_cpus m1 me) = ts @ [curthread me m]" "m_threads m n = Some th"
        "curspl me m1 = context_level (t_context th)"
        "\<exists>a. m_threads m1 (curthread me m) = Some a \<and> t_context a = Suspended (curspl me m)"
      using thread_yield_ok [OF assms(1) q] by blast
    have "m' = m1" using m'(1) m1(1) that by simp
    moreover have "\<exists>th. m_threads m1 (curthread me m) = Some th \<and> t_state th = S_READY"
      using m1(2,4) unfolding sched_ok_def by auto
    ultimately show ?thesis using m1 by auto
  qed
  then show ?thesis using m' by blast
qed

text \<open>A CPU with two ready threads, one new and one suspended with interrupts on.\<close>

definition ready_thread :: "tcontext \<Rightarrow> thread" where
  "ready_thread c = \<lparr>t_wchan_name = None, t_state = S_READY, t_stack = None, t_context = c, t_cpu = 0,
     t_proc = Some 0, t_in_interrupt = False, t_curspl = IPL_HIGH, t_iplhigh_count = 2\<rparr>"

definition demo_machine :: machine where
  "demo_machine = boot_machine\<lparr>
     m_threads := [0 \<mapsto> boot_thread, 1 \<mapsto> ready_thread NewThread, 2 \<mapsto> ready_thread (Suspended IPL_NONE)],
     m_cpus := \<lambda>_. boot_cpu\<lparr>c_runqueue := [1, 2]\<rparr>\<rparr>"

lemma demo_sched_ok: "sched_ok 0 demo_machine"
  unfolding sched_ok_def
  by (auto simp: demo_machine_def boot_machine_def boot_cpu_def boot_thread_def ready_thread_def
      spl_inv_def locks_private_def spinlock_init_def curthread_def guarded_def resumable_def
      IPL_NONE_def IPL_HIGH_def)

theorem thread_yield_round_robin_witness:
  "\<exists>m'. yields 4 0 demo_machine = Ok () m' \<and> curthread 0 m' = 1 \<and> c_runqueue (m_cpus m' 0) = [2, 0]"
proof -
  have "curthread 0 demo_machine # c_runqueue (m_cpus demo_machine 0) = [0, 1, 2]"
    by (simp add: demo_machine_def boot_machine_def boot_cpu_def curthread_def)
  moreover have "rotate 4 [0, 1, 2 :: nat] = [1, 2, 0]" by (simp add: eval_nat_numeral)
  ultimately show ?thesis
    using thread_yield_round_robin [OF demo_sched_ok, of 4] by force
qed

end
