(* ===== verification/Uio.thy ===== *)
theory Uio
  imports Prelude
begin

text \<open>
  Scatter-gather transfers: \<^verbatim>\<open>kern/lib/uio.c\<close>. An I/O region is the list of the bytes its
  buffers hold from the current position on, buffer by buffer; a transfer out of the kernel
  appends to \<open>uio_out\<close>, the bytes stored so far in consecutive buffer positions, and one into the
  kernel takes bytes from the front. The outcome of \<^verbatim>\<open>copyin\<close> and \<^verbatim>\<open>copyout\<close> on user buffers is
  the field \<open>uio_ucopy\<close>, which may fail any piece of a transfer given by its start and size.
  Offsets (\<^verbatim>\<open>off_t\<close>) are integers, the residual count a 32-bit word.

  The theory shows that \<^verbatim>\<open>uiomove\<close> moves exactly the requested number of bytes across buffer
  boundaries, in order, and advances the counters by it.
\<close>

subsection \<open>Model\<close>

datatype uio_rw = UIO_READ | UIO_WRITE

datatype uio_seg = UIO_USERISPACE | UIO_USERSPACE | UIO_SYSSPACE

record uio =
  uio_iov :: "byte list list"
  uio_offset :: int
  uio_resid :: u32
  uio_segflg :: uio_seg
  uio_rw :: uio_rw
  uio_space :: "nat option"
  uio_out :: "byte list"
  uio_moved :: nat
  uio_ucopy :: "nat \<Rightarrow> nat \<Rightarrow> errno option"

definition uio_copyresult :: "uio \<Rightarrow> nat \<Rightarrow> errno option" where
  "uio_copyresult u sz =
     (case uio_segflg u of
        UIO_SYSSPACE \<Rightarrow> None
      | _ \<Rightarrow> uio_ucopy u (uio_moved u) sz)"

text \<open>One piece of a transfer: what the counters and buffers are afterwards.\<close>

definition uio_advance :: "byte list \<Rightarrow> nat \<Rightarrow> uio \<Rightarrow> uio" where
  "uio_advance ptr sz u =
     (case uio_iov u of
        [] \<Rightarrow> u
      | iov # rest \<Rightarrow>
          u\<lparr>uio_iov := drop sz iov # rest,
            uio_resid := uio_resid u - word_of_nat sz,
            uio_offset := uio_offset u + int sz,
            uio_out := (if uio_rw u = UIO_READ then uio_out u @ take sz ptr else uio_out u),
            uio_moved := uio_moved u + sz\<rparr>)"

function uiomove_loop :: "byte list \<Rightarrow> nat \<Rightarrow> uio \<Rightarrow> (byte list, uio) res" where
  "uiomove_loop ptr n u =
     (if n = 0 \<or> uio_resid u = 0 then Ok ptr u
      else
        case uio_iov u of
          [] \<Rightarrow> Fault
        | iov # rest \<Rightarrow>
            let sz = min (length iov) n in
            if sz = 0 then
              (if rest = [] then Panic else uiomove_loop ptr n (u\<lparr>uio_iov := rest\<rparr>))
            else if length ptr < sz then Fault
            else
              (case uio_copyresult u sz of
                 Some e \<Rightarrow> Err e u
               | None \<Rightarrow>
                   kbind (uiomove_loop (drop sz ptr) (n - sz) (uio_advance ptr sz u)) (\<lambda>ptr' u'.
                     Ok ((if uio_rw u = UIO_READ then take sz ptr else take sz iov) @ ptr') u')))"
  by pat_completeness auto
termination
  by (relation "measure (\<lambda>(ptr, n, u). n + length (uio_iov u))") (auto simp: uio_advance_def)

declare uiomove_loop.simps [simp del]

text \<open>\<open>curas\<close> is the address space of the current process.\<close>

definition uiomove :: "nat option \<Rightarrow> byte list \<Rightarrow> nat \<Rightarrow> uio \<Rightarrow> (byte list, uio) res" where
  "uiomove curas ptr n u =
     kassert (if uio_segflg u = UIO_SYSSPACE then uio_space u = None else uio_space u = curas)
       (uiomove_loop ptr n u)"

function uiomovezeros :: "nat option \<Rightarrow> nat \<Rightarrow> uio \<Rightarrow> (unit, uio) res" where
  "uiomovezeros curas n u =
     kassert (uio_rw u = UIO_READ)
       (if n > 0 then
          (let amt = min 16 n in
           kbind (uiomove curas (replicate 16 0) amt u) (\<lambda>_ u. uiomovezeros curas (n - amt) u))
        else Ok () u)"
  by pat_completeness auto
termination by (relation "measure (\<lambda>(c, n, u). n)") (auto simp: min_def)

declare uiomovezeros.simps [simp del]

definition uio_kinit :: "byte list \<Rightarrow> int \<Rightarrow> uio_rw \<Rightarrow> uio" where
  "uio_kinit kbuf pos rw =
     \<lparr>uio_iov = [kbuf], uio_offset = pos, uio_resid = word_of_nat (length kbuf),
      uio_segflg = UIO_SYSSPACE, uio_rw = rw, uio_space = None, uio_out = [], uio_moved = 0,
      uio_ucopy = \<lambda>_ _. None\<rparr>"

subsection \<open>Whole transfers\<close>

definition uio_ok :: "uio \<Rightarrow> bool" where
  "uio_ok u \<longleftrightarrow> unat (uio_resid u) \<le> length (concat (uio_iov u))"

definition uio_nofault :: "uio \<Rightarrow> bool" where
  "uio_nofault u \<longleftrightarrow> uio_segflg u = UIO_SYSSPACE \<or> (\<forall>a n. uio_ucopy u a n = None)"

lemma uio_nofault_copy: "uio_nofault u \<Longrightarrow> uio_copyresult u n = None"
  by (auto simp: uio_nofault_def uio_copyresult_def split: uio_seg.splits)

text \<open>The region after \<open>n\<close> more bytes have been moved.\<close>

definition uio_after :: "byte list \<Rightarrow> nat \<Rightarrow> uio \<Rightarrow> uio \<Rightarrow> bool" where
  "uio_after ptr n u u' \<longleftrightarrow>
     concat (uio_iov u') = drop n (concat (uio_iov u)) \<and>
     uio_resid u' = uio_resid u - word_of_nat n \<and> uio_offset u' = uio_offset u + int n \<and>
     uio_moved u' = uio_moved u + n \<and>
     uio_out u' = (if uio_rw u = UIO_READ then uio_out u @ take n ptr else uio_out u) \<and>
     uio_rw u' = uio_rw u \<and> uio_segflg u' = uio_segflg u \<and> uio_space u' = uio_space u \<and>
     uio_ucopy u' = uio_ucopy u"

lemma uiomove_loop_ok:
  assumes "n \<le> length ptr" "n \<le> unat (uio_resid u)" "uio_ok u" "uio_nofault u"
  shows "\<exists>u'. uiomove_loop ptr n u =
      Ok (if uio_rw u = UIO_READ then ptr else take n (concat (uio_iov u)) @ drop n ptr) u' \<and>
    uio_after ptr n u u'"
  using assms
proof (induction ptr n u rule: uiomove_loop.induct)
  case (1 ptr n u)
  show ?case
  proof (cases "n = 0")
    case True
    then show ?thesis by (subst uiomove_loop.simps) (auto simp: uio_after_def)
  next
    case False
    then have r0: "uio_resid u \<noteq> 0" using "1.prems"(2) by auto
    have tot: "n \<le> length (concat (uio_iov u))" using "1.prems"(2,3) by (simp add: uio_ok_def)
    then obtain iov rest where iov: "uio_iov u = iov # rest" using False by (cases "uio_iov u") auto
    show ?thesis
    proof (cases "iov = []")
      case True
      then have "rest \<noteq> []" using tot iov False by auto
      let ?u = "u\<lparr>uio_iov := rest\<rparr>"
      have "uiomove_loop ptr n u = uiomove_loop ptr n ?u"
        using False r0 iov True \<open>rest \<noteq> []\<close> by (subst uiomove_loop.simps) simp
      moreover have "uio_ok ?u" "uio_nofault ?u"
        using "1.prems"(3,4) iov True by (simp_all add: uio_ok_def uio_nofault_def)
      ultimately show ?thesis
        using "1.IH"(1) [of iov rest "min (length iov) n"] False r0 iov True \<open>rest \<noteq> []\<close> "1.prems"
        by (auto simp: uio_after_def)
    next
      case ne: False
      let ?s = "min (length iov) n"
      have s: "?s \<noteq> 0" "\<not> length ptr < ?s" "?s \<le> n" using ne False "1.prems"(1) by auto
      let ?u = "uio_advance ptr ?s u"
      have u: "?u = u\<lparr>uio_iov := drop ?s iov # rest, uio_resid := uio_resid u - word_of_nat ?s,
          uio_offset := uio_offset u + int ?s,
          uio_out := (if uio_rw u = UIO_READ then uio_out u @ take ?s ptr else uio_out u),
          uio_moved := uio_moved u + ?s\<rparr>"
        using iov by (simp add: uio_advance_def)
      have res: "unat (uio_resid u - word_of_nat ?s) = unat (uio_resid u) - ?s"
      proof (subst unat_diff_small)
        have w: "unat (word_of_nat ?s :: u32) = ?s"
          using s(3) "1.prems"(2) unat_u32_less [of "uio_resid u"] by (intro unat_of_nat_u32) linarith
        show "word_of_nat ?s \<le> uio_resid u" using w s(3) "1.prems"(2) by (simp add: u32_le_iff)
        show "unat (uio_resid u) - unat (word_of_nat ?s :: u32) = unat (uio_resid u) - ?s" using w by simp
      qed
      have ok: "uio_ok ?u" using "1.prems"(3) iov res u by (simp add: uio_ok_def min_def)
      have nf: "uio_nofault ?u" using "1.prems"(4) u by (simp add: uio_nofault_def)
      have "n - ?s \<le> length (drop ?s ptr)" "n - ?s \<le> unat (uio_resid ?u)"
        using "1.prems"(1,2) res u by simp_all
      from "1.IH"(2) [OF _ iov refl s(1,2) uio_nofault_copy [OF "1.prems"(4)] this ok nf] False r0
      obtain u' where u': "uiomove_loop (drop ?s ptr) (n - ?s) ?u =
          Ok (if uio_rw u = UIO_READ then drop ?s ptr
              else take (n - ?s) (concat (uio_iov ?u)) @ drop (n - ?s) (drop ?s ptr)) u'"
          "uio_after (drop ?s ptr) (n - ?s) ?u u'"
        using u by auto
      have step: "uiomove_loop ptr n u =
          Ok ((if uio_rw u = UIO_READ then take ?s ptr else take ?s iov) @
              (if uio_rw u = UIO_READ then drop ?s ptr
               else take (n - ?s) (concat (uio_iov ?u)) @ drop (n - ?s) (drop ?s ptr))) u'"
        by (subst uiomove_loop.simps)
          (simp only: False r0 simp_thms if_False iov list.case Let_def s(1,2) option.case u'(1)
            uio_nofault_copy [OF "1.prems"(4)] kbind.simps)
      have conc: "take ?s iov @ take (n - ?s) (drop ?s iov @ concat rest) = take n (iov @ concat rest)"
        by (simp add: min_def)
      have dr: "drop (n - ?s) (drop ?s iov @ concat rest) = drop n (iov @ concat rest)"
        by (simp add: min_def)
      have tk: "take ?s ptr @ take (n - ?s) (drop ?s ptr) = take n ptr"
        using s(3) by (metis le_add_diff_inverse take_add)
      have wd: "uio_resid u - word_of_nat ?s - word_of_nat (n - ?s) = uio_resid u - (word_of_nat n :: u32)"
        using s(3) by (simp add: of_nat_diff)
      have "uio_after ptr n u u'"
        using u'(2) u iov dr tk wd s(3) by (simp add: uio_after_def)
      moreover have "drop (n - ?s) (drop ?s ptr) = drop n ptr" using s(3) by simp
      ultimately show ?thesis using step u iov conc by simp
    qed
  qed
qed

definition uio_space_ok :: "nat option \<Rightarrow> uio \<Rightarrow> bool" where
  "uio_space_ok curas u \<longleftrightarrow>
     (if uio_segflg u = UIO_SYSSPACE then uio_space u = None else uio_space u = curas)"

lemma uiomove_ok:
  assumes "uio_space_ok curas u" "n \<le> length ptr" "n \<le> unat (uio_resid u)" "uio_ok u" "uio_nofault u"
  shows "\<exists>u'. uiomove curas ptr n u =
      Ok (if uio_rw u = UIO_READ then ptr else take n (concat (uio_iov u)) @ drop n ptr) u' \<and>
    uio_after ptr n u u'"
  using uiomove_loop_ok [OF assms(2-5)] assms(1) by (simp add: uiomove_def uio_space_ok_def)

lemma uio_after_ok:
  assumes "uio_after ptr n u u'" "uio_ok u" "n \<le> unat (uio_resid u)"
  shows "uio_ok u'" "unat (uio_resid u') = unat (uio_resid u) - n"
proof -
  have w: "unat (word_of_nat n :: u32) = n"
    using assms(3) unat_u32_less [of "uio_resid u"] by (intro unat_of_nat_u32) linarith
  then have "word_of_nat n \<le> uio_resid u" using assms(3) by (simp add: u32_le_iff)
  then show r: "unat (uio_resid u') = unat (uio_resid u) - n"
    using assms(1) w by (simp add: uio_after_def unat_diff_small)
  show "uio_ok u'" using assms(1,2) r by (simp add: uio_after_def uio_ok_def)
qed

lemma uio_after_fields:
  "uio_after ptr n u u' \<Longrightarrow> uio_nofault u' = uio_nofault u \<and> uio_space_ok c u' = uio_space_ok c u \<and>
     uio_rw u' = uio_rw u"
  by (simp add: uio_after_def uio_nofault_def uio_space_ok_def)

lemma uiomovezeros_ok:
  assumes "uio_space_ok curas u" "n \<le> unat (uio_resid u)" "uio_ok u" "uio_nofault u" "uio_rw u = UIO_READ"
  shows "\<exists>u'. uiomovezeros curas n u = Ok () u' \<and> uio_after (replicate n 0) n u u'"
  using assms
proof (induction curas n u rule: uiomovezeros.induct)
  case (1 curas n u)
  show ?case
  proof (cases "n = 0")
    case True
    then show ?thesis using "1.prems"(5) by (subst uiomovezeros.simps) (auto simp: uio_after_def)
  next
    case False
    let ?a = "min 16 n" and ?z = "replicate 16 (0::byte)"
    have a: "?a \<le> length ?z" "?a \<le> unat (uio_resid u)" "0 < ?a" "?a \<le> n" using "1.prems"(2) False by auto
    obtain u1 where u1: "uiomove curas ?z ?a u = Ok ?z u1" "uio_after ?z ?a u u1"
      using uiomove_ok [OF "1.prems"(1) a(1,2) "1.prems"(3,4)] "1.prems"(5) by auto
    note f = uio_after_fields [OF u1(2)] and o = uio_after_ok [OF u1(2) "1.prems"(3) a(2)]
    have "\<exists>u'. uiomovezeros curas (n - ?a) u1 = Ok () u' \<and> uio_after (replicate (n - ?a) 0) (n - ?a) u1 u'"
      using "1.IH" [of ?a u1] False "1.prems" u1(1) f o a by auto
    then obtain u' where u': "uiomovezeros curas (n - ?a) u1 = Ok () u'"
        "uio_after (replicate (n - ?a) 0) (n - ?a) u1 u'" by blast
    have "uiomovezeros curas n u = Ok () u'"
      using False "1.prems"(5) u1(1) u'(1) by (subst uiomovezeros.simps) (simp add: Let_def)
    moreover have "uio_after (replicate n 0) n u u'"
    proof -
      have "take ?a ?z @ replicate (n - ?a) 0 = replicate n (0::byte)"
        using a(4) by (simp add: replicate_add [symmetric])
      then show ?thesis using u1(2) u'(2) a(4) "1.prems"(5)
        by (simp add: uio_after_def of_nat_diff)
    qed
    ultimately show ?thesis by blast
  qed
qed

text \<open>
  A request beyond the residual count. The code bounds a piece by the buffer and the request only, not by
  \<^verbatim>\<open>uio_resid\<close>; it stops in time because \<^verbatim>\<open>uio_resid\<close> is the total length of the buffers.
\<close>

definition uio_exact :: "uio \<Rightarrow> bool" where
  "uio_exact u \<longleftrightarrow> unat (uio_resid u) = length (concat (uio_iov u))"

lemma uiomove_loop_beyond:
  assumes "uio_exact u" "unat (uio_resid u) \<le> n"
  shows "uiomove_loop ptr n u = uiomove_loop ptr (unat (uio_resid u)) u"
  using assms
proof (induction ptr n u rule: uiomove_loop.induct)
  case (1 ptr n u)
  show ?case
  proof (cases "uio_resid u = 0")
    case True
    then show ?thesis by (simp add: uiomove_loop.simps [of ptr n u] uiomove_loop.simps [of ptr 0 u])
  next
    case r0: False
    then have n: "n \<noteq> 0" "unat (uio_resid u) \<noteq> 0" using "1.prems"(2) by (auto simp: u32_eq_iff)
    obtain iov rest where iov: "uio_iov u = iov # rest" using "1.prems"(1) n(2) by (cases "uio_iov u") (auto simp: uio_exact_def)
    note run = uiomove_loop.simps [of ptr n u] uiomove_loop.simps [of ptr "unat (uio_resid u)" u]
    have len: "min (length iov) n = length iov" "min (length iov) (unat (uio_resid u)) = length iov"
      using "1.prems" iov by (auto simp: uio_exact_def)
    show ?thesis
    proof (cases "iov = []")
      case True
      let ?u = "u\<lparr>uio_iov := rest\<rparr>"
      have "rest \<noteq> []" "uio_exact ?u" using "1.prems"(1) n(2) iov True by (auto simp: uio_exact_def)
      moreover from this have "uiomove_loop ptr n ?u = uiomove_loop ptr (unat (uio_resid u)) ?u"
        using "1.IH"(1) [of iov rest "min (length iov) n"] n r0 iov True "1.prems"(2) by simp
      ultimately show ?thesis using n r0 iov True by (simp add: run)
    next
      case False
      let ?l = "length iov" and ?u = "uio_advance ptr (length iov) u"
      have w: "word_of_nat ?l \<le> uio_resid u" "unat (word_of_nat ?l :: u32) = ?l"
        using "1.prems"(1) iov unat_u32_less [of "uio_resid u"] unat_of_nat_u32 [of ?l] by (auto simp: uio_exact_def u32_le_iff)
      then have res: "unat (uio_resid ?u) = unat (uio_resid u) - ?l" using iov by (simp add: uio_advance_def unat_diff_small)
      then have ex: "uio_exact ?u" using "1.prems"(1) iov by (simp add: uio_exact_def uio_advance_def)
      have "uiomove_loop (drop ?l ptr) (n - ?l) ?u = uiomove_loop (drop ?l ptr) (unat (uio_resid u) - ?l) ?u"
        if "\<not> length ptr < ?l" "uio_copyresult u ?l = None"
        using "1.IH"(2) [OF _ iov refl] that n r0 False res "1.prems"(2) ex by (simp add: len(1))
      then show ?thesis unfolding run using n r0 iov False len by (auto simp: Let_def split: option.split)
    qed
  qed
qed

lemma uiomove_any:
  assumes "uio_space_ok curas u" "min n (unat (uio_resid u)) \<le> length ptr" "uio_ok u" "uio_nofault u"
    "n \<le> unat (uio_resid u) \<or> uio_exact u"
  shows "\<exists>u'. uiomove curas ptr n u =
      Ok (if uio_rw u = UIO_READ then ptr else take (min n (unat (uio_resid u))) (concat (uio_iov u)) @ drop (min n (unat (uio_resid u))) ptr) u' \<and>
    uio_after ptr (min n (unat (uio_resid u))) u u'"
proof -
  have "uiomove curas ptr n u = uiomove curas ptr (min n (unat (uio_resid u))) u"
    using assms(5) uiomove_loop_beyond [of u n ptr] by (cases "n \<le> unat (uio_resid u)") (simp_all add: uiomove_def min_def)
  then show ?thesis using uiomove_ok [OF assms(1,2) _ assms(3,4)] by simp
qed

lemma uio_after_exact:
  assumes "uio_after ptr n u u'" "uio_exact u" "n \<le> unat (uio_resid u)"
  shows "uio_exact u'"
  using uio_after_ok(2) [OF assms(1) _ assms(3)] assms by (simp add: uio_after_def uio_exact_def uio_ok_def)

lemma uiomovezeros_any:
  assumes "uio_space_ok curas u" "uio_exact u" "uio_nofault u" "uio_rw u = UIO_READ"
  shows "\<exists>u'. uiomovezeros curas n u = Ok () u' \<and> uio_out u' = uio_out u @ replicate (min n (unat (uio_resid u))) 0"
  using assms
proof (induction curas n u rule: uiomovezeros.induct)
  case (1 curas n u)
  show ?case
  proof (cases "n = 0")
    case True
    then show ?thesis using "1.prems"(4) by (subst uiomovezeros.simps) simp
  next
    case False
    let ?a = "min 16 n" and ?z = "replicate 16 (0::byte)" and ?r = "unat (uio_resid u)"
    have min_le: "min ?a ?r \<le> length ?z" by simp
    have ok: "uio_ok u" using "1.prems"(2) by (simp add: uio_exact_def uio_ok_def)
    obtain u1 where u1: "uiomove curas ?z ?a u = Ok ?z u1" "uio_after ?z (min ?a ?r) u u1"
      using uiomove_any [OF "1.prems"(1) min_le ok "1.prems"(3)] "1.prems"(2,4) by auto
    note f = uio_after_fields [OF u1(2)] and o = uio_after_ok(2) [OF u1(2) ok]
    have ex: "uio_exact u1" by (rule uio_after_exact [OF u1(2) "1.prems"(2)]) simp
    have "\<exists>u'. uiomovezeros curas (n - ?a) u1 = Ok () u' \<and> uio_out u' = uio_out u1 @ replicate (min (n - ?a) (unat (uio_resid u1))) 0"
      using "1.IH" [of ?a u1] False "1.prems" u1(1) f ex by auto
    then obtain u' where u': "uiomovezeros curas (n - ?a) u1 = Ok () u'"
        "uio_out u' = uio_out u1 @ replicate (min (n - ?a) (unat (uio_resid u1))) 0" by blast
    have "uiomovezeros curas n u = Ok () u'"
      using False "1.prems"(4) u1(1) u'(1) by (subst uiomovezeros.simps) (simp add: Let_def)
    moreover have "take (min ?a ?r) ?z @ replicate (min (n - ?a) (unat (uio_resid u1))) 0 = replicate (min n ?r) (0::byte)"
    proof -
      have "take (min ?a ?r) ?z = replicate (min ?a ?r) 0" by simp
      moreover have "min ?a ?r + min (n - ?a) (unat (uio_resid u1)) = min n ?r" unfolding o [OF min.cobounded2] by linarith
      ultimately show ?thesis by (metis replicate_add)
    qed
    ultimately show ?thesis using u'(2) u1(2) "1.prems"(4) by (simp add: uio_after_def)
  qed
qed

text \<open>
  \<^bold>\<open>C37.\<close> For a region with at least \<^verbatim>\<open>uio_resid\<close> bytes of buffers and no fault, \<^verbatim>\<open>uiomove\<close> of \<open>n\<close>
  bytes moves exactly \<open>m\<close> bytes, the smaller of \<open>n\<close> and \<^verbatim>\<open>uio_resid\<close>, whatever the split into buffers:
  reading appends the first \<open>m\<close> kernel bytes to what the buffers hold, writing replaces the
  first \<open>m\<close> bytes of the kernel buffer by the next \<open>m\<close> bytes of the buffers, and the residual
  count and the offset move by \<open>m\<close>. It never runs out of buffers, and \<^verbatim>\<open>uiomovezeros\<close>
  delivers \<open>m\<close> zeros. When more is asked for than \<^verbatim>\<open>uio_resid\<close>, the buffers must hold exactly
  \<^verbatim>\<open>uio_resid\<close> bytes: the code does not limit a piece by \<^verbatim>\<open>uio_resid\<close>.
\<close>

theorem uiomove_transfers:
  assumes "uio_space_ok curas u" "uio_ok u" "uio_nofault u" "n \<le> unat (uio_resid u) \<or> uio_exact u"
    and m: "m = min n (unat (uio_resid u))" "m \<le> length ptr"
  shows "\<exists>ptr' u'. uiomove curas ptr n u = Ok ptr' u' \<and>
      concat (uio_iov u') = drop m (concat (uio_iov u)) \<and>
      unat (uio_resid u') = unat (uio_resid u) - m \<and> uio_offset u' = uio_offset u + int m \<and>
      (uio_rw u = UIO_READ \<longrightarrow> ptr' = ptr \<and> uio_out u' = uio_out u @ take m ptr \<and>
         (\<exists>u''. uiomovezeros curas n u = Ok () u'' \<and> uio_out u'' = uio_out u @ replicate m 0)) \<and>
      (uio_rw u = UIO_WRITE \<longrightarrow> ptr' = take m (concat (uio_iov u)) @ drop m ptr \<and> uio_out u' = uio_out u)"
proof -
  obtain u' where u': "uiomove curas ptr n u =
      Ok (if uio_rw u = UIO_READ then ptr else take m (concat (uio_iov u)) @ drop m ptr) u'"
      "uio_after ptr m u u'"
    using uiomove_any [OF assms(1) _ assms(2-4)] m by blast
  have "\<exists>u''. uiomovezeros curas n u = Ok () u'' \<and> uio_out u'' = uio_out u @ replicate m 0"
    if "uio_rw u = UIO_READ"
  proof (cases "n \<le> unat (uio_resid u)")
    case True
    then show ?thesis using uiomovezeros_ok [OF assms(1) True assms(2,3) that] that m(1) by (auto simp: uio_after_def)
  next
    case False
    then have "uio_exact u" using assms(4) by simp
    from uiomovezeros_any [OF assms(1) this assms(3) that, of n] show ?thesis unfolding m(1) .
  qed
  then show ?thesis using u' uio_after_ok [OF u'(2) assms(2)] m(1)
    by (auto simp: uio_after_def)
qed

theorem uiomove_transfers_witness:
  "\<exists>u'. uiomove None [1, 2, 3, 4, 5, 6] 6 (uio_kinit [0, 0, 0, 0] 100 UIO_READ) = Ok [1, 2, 3, 4, 5, 6] u' \<and>
     uio_out u' = [1, 2, 3, 4] \<and> unat (uio_resid u') = 0 \<and> uio_offset u' = 104"
proof -
  let ?u = "uio_kinit [0, 0, 0, 0] 100 UIO_READ"
  have h: "uio_space_ok None ?u" "uio_ok ?u" "uio_nofault ?u" "uio_exact ?u" and f: "unat (uio_resid ?u) = 4"
    "uio_rw ?u = UIO_READ" "uio_out ?u = []" "uio_offset ?u = 100"
    by (simp_all add: uio_kinit_def uio_space_ok_def uio_ok_def uio_nofault_def uio_exact_def)
  have "4 = min 6 (unat (uio_resid ?u))" "4 \<le> length [1, 2, 3, 4, 5, 6 :: byte]" by (simp_all add: f(1))
  from uiomove_transfers [OF h(1-3) disjI2 [OF h(4)] this] show ?thesis unfolding f by fastforce
qed

end
