(* ===== verification/SfsDisk.thy ===== *)
theory SfsDisk
  imports Uio Kbitmap
begin

text \<open>
  The bottom of the file system: the disk driver's transfer routine (\<^verbatim>\<open>lhd_io\<close> in
  \<^verbatim>\<open>kern/dev/lamebus/lhd.c\<close>), the on-disk structures of \<^verbatim>\<open>kern/include/kern/sfs.h\<close> with
  their byte layout (big-endian, the byte order of the machine), the in-memory volume of
  \<^verbatim>\<open>kern/include/sfs.h\<close> and block I/O with retries (\<^verbatim>\<open>sfs_rwblock\<close>, \<^verbatim>\<open>sfs_readblock\<close> and
  \<^verbatim>\<open>sfs_writeblock\<close> in \<^verbatim>\<open>kern/fs/sfs/sfs_io.c\<close>).

  The disk hardware is a list of sectors and the list \<open>lh_codes\<close> of completion codes it will
  report for the coming operations (success once the list is used up); an operation that
  reports an error has not changed the disk. The driver is used by one thread at a time.

  The theory shows that the layouts of the structures are inverted by reading them back, that
  a block read survives up to ten media errors in a row, and that a block write does not:
  after a failed transfer the retry finds nothing left to transfer and reports success.
\<close>

subsection \<open>The disk driver\<close>

datatype lhdcode = LHD_OK | LHD_INVSECT | LHD_MEDIA

definition LHD_SECTSIZE :: nat where
  "LHD_SECTSIZE = 512"

record lhd =
  lh_blocks :: u32
  lh_data :: "u32 \<Rightarrow> byte list"
  lh_codes :: "lhdcode list"
  lh_buf :: "byte list"

fun lhd_code_to_errno :: "lhdcode \<Rightarrow> errno option" where
  "lhd_code_to_errno LHD_OK = None"
| "lhd_code_to_errno LHD_INVSECT = Some EINVAL"
| "lhd_code_to_errno LHD_MEDIA = Some EIO"

text \<open>One sector operation of the hardware, from starting it to its completion interrupt.\<close>

definition lhd_sector :: "uio_rw \<Rightarrow> u32 \<Rightarrow> lhd \<Rightarrow> errno option \<times> lhd" where
  "lhd_sector rw sector d =
     (let code = (case lh_codes d of [] \<Rightarrow> LHD_OK | c # _ \<Rightarrow> c);
          d = d\<lparr>lh_codes := tl (lh_codes d)\<rparr>
      in (lhd_code_to_errno code,
          if code \<noteq> LHD_OK then d
          else if rw = UIO_WRITE then d\<lparr>lh_data := (lh_data d)(sector := lh_buf d)\<rparr>
          else d\<lparr>lh_buf := lh_data d sector\<rparr>))"

fun lhd_io_loop :: "nat option \<Rightarrow> nat \<Rightarrow> u32 \<Rightarrow> lhd \<times> uio \<Rightarrow> (unit, lhd \<times> uio) res" where
  "lhd_io_loop curas 0 sector (d, u) = Ok () (d, u)"
| "lhd_io_loop curas (Suc n) sector (d, u) =
     (case (if uio_rw u = UIO_WRITE then uiomove curas (lh_buf d) LHD_SECTSIZE u else Ok (lh_buf d) u) of
        Ok buf u \<Rightarrow>
          (case lhd_sector (uio_rw u) sector (d\<lparr>lh_buf := buf\<rparr>) of
             (Some e, d) \<Rightarrow> Err e (d, u)
           | (None, d) \<Rightarrow>
               (case (if uio_rw u = UIO_READ then uiomove curas (lh_buf d) LHD_SECTSIZE u else Ok (lh_buf d) u) of
                  Ok _ u \<Rightarrow> lhd_io_loop curas n (sector + 1) (d, u)
                | Err e u \<Rightarrow> Err e (d, u)
                | Panic \<Rightarrow> Panic | Fault \<Rightarrow> Fault | Hang \<Rightarrow> Hang))
      | Err e u \<Rightarrow> Err e (d, u)
      | Panic \<Rightarrow> Panic | Fault \<Rightarrow> Fault | Hang \<Rightarrow> Hang)"

definition lhd_io :: "nat option \<Rightarrow> lhd \<times> uio \<Rightarrow> (unit, lhd \<times> uio) res" where
  "lhd_io curas du =
     (case du of (d, u) \<Rightarrow>
        let sector = word_of_int (cdiv (uio_offset u) 512) :: u32;
            sectoff = word_of_int (cmod (uio_offset u) 512) :: u32;
            len = uio_resid u div 512;
            lenoff = uio_resid u mod 512
        in if sectoff \<noteq> 0 \<or> lenoff \<noteq> 0 then Err EINVAL (d, u)
           else if sector + len > lh_blocks d then Err EINVAL (d, u)
           else lhd_io_loop curas (unat len) sector (d, u))"

subsection \<open>On-disk structures\<close>

definition SFS_MAGIC :: u32 where "SFS_MAGIC = 0xabadf001"
definition SFS_BLOCKSIZE :: nat where "SFS_BLOCKSIZE = 512"
definition SFS_VOLNAME_SIZE :: nat where "SFS_VOLNAME_SIZE = 32"
definition SFS_NDIRECT :: nat where "SFS_NDIRECT = 15"
definition SFS_NINDIRECT :: nat where "SFS_NINDIRECT = 1"
definition SFS_DBPERIDB :: nat where "SFS_DBPERIDB = 128"
definition SFS_NAMELEN :: nat where "SFS_NAMELEN = 60"
definition SFS_SUPER_BLOCK :: u32 where "SFS_SUPER_BLOCK = 0"
definition SFS_FREEMAP_START :: u32 where "SFS_FREEMAP_START = 2"
definition SFS_NOINO :: u32 where "SFS_NOINO = 0"
definition SFS_ROOTDIR_INO :: u32 where "SFS_ROOTDIR_INO = 1"
definition SFS_TYPE_INVAL :: u16 where "SFS_TYPE_INVAL = 0"
definition SFS_TYPE_FILE :: u16 where "SFS_TYPE_FILE = 1"
definition SFS_TYPE_DIR :: u16 where "SFS_TYPE_DIR = 2"
definition SFS_BITSPERBLOCK :: u32 where "SFS_BITSPERBLOCK = 4096"

definition SFS_FREEMAPBITS :: "u32 \<Rightarrow> u32" where
  "SFS_FREEMAPBITS nblocks = (nblocks + SFS_BITSPERBLOCK - 1) div SFS_BITSPERBLOCK * SFS_BITSPERBLOCK"

definition SFS_FREEMAPBLOCKS :: "u32 \<Rightarrow> u32" where
  "SFS_FREEMAPBLOCKS nblocks = SFS_FREEMAPBITS nblocks div SFS_BITSPERBLOCK"

lemmas sfs_consts = SFS_BLOCKSIZE_def SFS_VOLNAME_SIZE_def SFS_NDIRECT_def SFS_NINDIRECT_def
  SFS_DBPERIDB_def SFS_NAMELEN_def LHD_SECTSIZE_def

record sfs_superblock =
  sb_magic :: u32
  sb_nblocks :: u32
  sb_volname :: "byte list"
  sb_reserved :: "byte list"

record sfs_dinode =
  sfi_size :: u32
  sfi_type :: u16
  sfi_linkcount :: u16
  sfi_direct :: "u32 list"
  sfi_indirect :: u32
  sfi_waste :: "byte list"

record sfs_direntry =
  sfd_ino :: u32
  sfd_name :: "byte list"

definition be16 :: "u16 \<Rightarrow> byte list" where
  "be16 w = [ucast (drop_bit 8 w), ucast w]"

definition de16 :: "byte list \<Rightarrow> u16" where
  "de16 bs = push_bit 8 (ucast (bs ! 0)) OR ucast (bs ! 1)"

definition be32 :: "u32 \<Rightarrow> byte list" where
  "be32 w = [ucast (drop_bit 24 w), ucast (drop_bit 16 w), ucast (drop_bit 8 w), ucast w]"

definition de32 :: "byte list \<Rightarrow> u32" where
  "de32 bs = push_bit 24 (ucast (bs ! 0)) OR push_bit 16 (ucast (bs ! 1)) OR
     push_bit 8 (ucast (bs ! 2)) OR ucast (bs ! 3)"

definition enc_words :: "u32 list \<Rightarrow> byte list" where
  "enc_words ws = concat (map be32 ws)"

definition dec_words :: "nat \<Rightarrow> byte list \<Rightarrow> u32 list" where
  "dec_words n bs = map (\<lambda>i. de32 (take 4 (drop (4 * i) bs))) [0..<n]"

definition enc_superblock :: "sfs_superblock \<Rightarrow> byte list" where
  "enc_superblock sb = be32 (sb_magic sb) @ be32 (sb_nblocks sb) @ sb_volname sb @ sb_reserved sb"

definition dec_superblock :: "byte list \<Rightarrow> sfs_superblock" where
  "dec_superblock bs =
     \<lparr>sb_magic = de32 (take 4 bs), sb_nblocks = de32 (take 4 (drop 4 bs)),
      sb_volname = take 32 (drop 8 bs), sb_reserved = drop 40 bs\<rparr>"

definition enc_dinode :: "sfs_dinode \<Rightarrow> byte list" where
  "enc_dinode di = be32 (sfi_size di) @ be16 (sfi_type di) @ be16 (sfi_linkcount di) @
     enc_words (sfi_direct di) @ be32 (sfi_indirect di) @ sfi_waste di"

definition dec_dinode :: "byte list \<Rightarrow> sfs_dinode" where
  "dec_dinode bs =
     \<lparr>sfi_size = de32 (take 4 bs), sfi_type = de16 (take 2 (drop 4 bs)),
      sfi_linkcount = de16 (take 2 (drop 6 bs)), sfi_direct = dec_words 15 (drop 8 bs),
      sfi_indirect = de32 (take 4 (drop 68 bs)), sfi_waste = drop 72 bs\<rparr>"

definition enc_direntry :: "sfs_direntry \<Rightarrow> byte list" where
  "enc_direntry sd = be32 (sfd_ino sd) @ sfd_name sd"

definition dec_direntry :: "byte list \<Rightarrow> sfs_direntry" where
  "dec_direntry bs = \<lparr>sfd_ino = de32 (take 4 bs), sfd_name = drop 4 bs\<rparr>"

definition sb_ok :: "sfs_superblock \<Rightarrow> bool" where
  "sb_ok sb \<longleftrightarrow> length (sb_volname sb) = 32 \<and> length (sb_reserved sb) = 472"

definition dinode_ok :: "sfs_dinode \<Rightarrow> bool" where
  "dinode_ok di \<longleftrightarrow> length (sfi_direct di) = 15 \<and> length (sfi_waste di) = 440"

definition direntry_ok :: "sfs_direntry \<Rightarrow> bool" where
  "direntry_ok sd \<longleftrightarrow> length (sfd_name sd) = 60"

lemma length_be [simp]: "length (be16 w) = 2" "length (be32 x) = 4"
  by (simp_all add: be16_def be32_def)

lemma length_enc_words [simp]: "length (enc_words ws) = 4 * length ws"
  by (simp add: enc_words_def length_concat comp_def sum_list_triv)

lemma length_enc [simp]:
  "sb_ok sb \<Longrightarrow> length (enc_superblock sb) = 512"
  "dinode_ok di \<Longrightarrow> length (enc_dinode di) = 512"
  "direntry_ok sd \<Longrightarrow> length (enc_direntry sd) = 64"
  by (simp_all add: enc_superblock_def enc_dinode_def enc_direntry_def sb_ok_def dinode_ok_def
      direntry_ok_def)

lemma de16_be16 [simp]: "de16 (be16 w) = w"
  by (rule bit_eqI) (auto simp: de16_def be16_def bit_simps)

lemma de32_be32 [simp]: "de32 (be32 w) = w"
proof (rule bit_word_eqI)
  fix n assume "n < LENGTH(32)"
  then consider "n < 8" | "8 \<le> n" "n < 16" | "16 \<le> n" "n < 24" | "24 \<le> n" "n < 32" by fastforce
  then show "bit (de32 (be32 w)) n = bit w n"
    by cases (auto simp: de32_def be32_def bit_simps)
qed

lemma enc_words_mid: "enc_words (xs @ y # ys) = enc_words xs @ be32 y @ enc_words ys"
  by (simp add: enc_words_def)

lemma dec_words_enc: "length ws = n \<Longrightarrow> dec_words n (enc_words ws @ bs) = ws"
proof (rule nth_equalityI)
  assume n: "length ws = n"
  then show "length (dec_words n (enc_words ws @ bs)) = length ws" by (simp add: dec_words_def)
  fix i assume "i < length (dec_words n (enc_words ws @ bs))"
  then have i: "i < length ws" using n by (simp add: dec_words_def)
  have "enc_words ws = enc_words (take i ws) @ be32 (ws ! i) @ enc_words (drop (Suc i) ws)"
    unfolding enc_words_mid [symmetric] id_take_nth_drop [OF i, symmetric] ..
  moreover have "length (enc_words (take i ws)) = 4 * i" using i by simp
  ultimately have "take 4 (drop (4 * i) (enc_words ws @ bs)) = be32 (ws ! i)" by simp
  then show "dec_words n (enc_words ws @ bs) ! i = ws ! i" using i n by (simp add: dec_words_def)
qed

lemma dec_enc_superblock: "sb_ok sb \<Longrightarrow> dec_superblock (enc_superblock sb) = sb"
  by (simp add: dec_superblock_def enc_superblock_def sb_ok_def)

lemma dec_enc_dinode: "dinode_ok di \<Longrightarrow> dec_dinode (enc_dinode di) = di"
  by (simp add: dec_dinode_def enc_dinode_def dinode_ok_def dec_words_enc)

lemma dec_enc_direntry: "dec_direntry (enc_direntry sd) = sd"
  by (simp add: dec_direntry_def enc_direntry_def)


subsection \<open>The volume in memory\<close>

text \<open>
  \<open>vn_refcount\<close> is the reference count of the abstract vnode, an \<^verbatim>\<open>int\<close> in the code and a natural
  number here: it counts the owners of the vnode (\<open>VfsSfs\<close>) and would have to reach \<open>2 ^ 31\<close>
  of them to overflow. A pointer to an \<^verbatim>\<open>sfs_vnode\<close> is
  its inode number, under which the volume's table holds it at most once. \<open>biglock\<close> is
  \<^verbatim>\<open>vfs_biglock_depth\<close>: positive exactly while the current thread holds the big lock, which is
  recursive. \<open>curas\<close> is the address space of the current process.
\<close>

record sfs_vnode =
  vn_refcount :: nat
  sv_i :: sfs_dinode
  sv_ino :: u32
  sv_dirty :: bool

record sfs_fs =
  sfs_sb :: sfs_superblock
  sfs_superdirty :: bool
  sfs_device :: lhd
  sfs_vnodes :: "sfs_vnode list"
  sfs_freemap :: bitmap
  sfs_freemapdirty :: bool
  biglock :: nat
  curas :: "nat option"

definition vfs_biglock_do_i_hold :: "sfs_fs \<Rightarrow> bool" where
  "vfs_biglock_do_i_hold s \<longleftrightarrow> biglock s > 0"

definition vfs_biglock_acquire :: "sfs_fs \<Rightarrow> sfs_fs" where
  "vfs_biglock_acquire s = s\<lparr>biglock := Suc (biglock s)\<rparr>"

definition vfs_biglock_release :: "sfs_fs \<Rightarrow> (unit, sfs_fs) res" where
  "vfs_biglock_release s =
     kassert (vfs_biglock_do_i_hold s) (kassert (biglock s > 0) (Ok () (s\<lparr>biglock := biglock s - 1\<rparr>)))"

subsection \<open>Block I/O\<close>

fun sfs_rwblock_try :: "nat \<Rightarrow> sfs_fs \<times> uio \<Rightarrow> (unit, sfs_fs \<times> uio) res" where
  "sfs_rwblock_try fuel (s, u) =
     (case lhd_io (curas s) (sfs_device s, u) of
        Ok _ (d, u) \<Rightarrow> Ok () (s\<lparr>sfs_device := d\<rparr>, u)
      | Err EINVAL _ \<Rightarrow> Panic
      | Err EIO (d, u) \<Rightarrow>
          (case fuel of
             0 \<Rightarrow> Err EIO (s\<lparr>sfs_device := d\<rparr>, u)
           | Suc fuel \<Rightarrow> sfs_rwblock_try fuel (s\<lparr>sfs_device := d\<rparr>, u))
      | Err e (d, u) \<Rightarrow> Err e (s\<lparr>sfs_device := d\<rparr>, u)
      | Panic \<Rightarrow> Panic | Fault \<Rightarrow> Fault | Hang \<Rightarrow> Hang)"

text \<open>The retry counter of the code allows ten retries after the first attempt.\<close>

definition sfs_rwblock :: "sfs_fs \<times> uio \<Rightarrow> (unit, sfs_fs \<times> uio) res" where
  "sfs_rwblock su = kassert (vfs_biglock_do_i_hold (fst su)) (sfs_rwblock_try 10 su)"

definition sfs_readblock :: "u32 \<Rightarrow> sfs_fs \<Rightarrow> (byte list, sfs_fs) res" where
  "sfs_readblock block s =
     (case sfs_rwblock (s, uio_kinit (replicate 512 0) (uint block * 512) UIO_READ) of
        Ok _ (s, u) \<Rightarrow> Ok (uio_out u) s
      | Err e (s, u) \<Rightarrow> Err e s
      | Panic \<Rightarrow> Panic | Fault \<Rightarrow> Fault | Hang \<Rightarrow> Hang)"

definition sfs_writeblock :: "u32 \<Rightarrow> byte list \<Rightarrow> sfs_fs \<Rightarrow> (unit, sfs_fs) res" where
  "sfs_writeblock block data s =
     kassert (length data = SFS_BLOCKSIZE)
       (case sfs_rwblock (s, uio_kinit data (uint block * 512) UIO_WRITE) of
          Ok _ (s, u) \<Rightarrow> Ok () s
        | Err e (s, u) \<Rightarrow> Err e s
        | Panic \<Rightarrow> Panic | Fault \<Rightarrow> Fault | Hang \<Rightarrow> Hang)"

subsection \<open>Block transfers\<close>

definition dev_ok :: "lhd \<Rightarrow> bool" where
  "dev_ok d \<longleftrightarrow> (\<forall>b. length (lh_data d b) = 512) \<and> length (lh_buf d) = 512"

lemma kinit_ok:
  assumes "length buf = 512"
  shows "uio_ok (uio_kinit buf p rw)" "uio_nofault (uio_kinit buf p rw)"
    "uio_space_ok c (uio_kinit buf p rw)" "unat (uio_resid (uio_kinit buf p rw)) = 512"
    "uio_resid (uio_kinit buf p rw) = 512"
  using assms by (simp_all add: uio_kinit_def uio_ok_def uio_nofault_def uio_space_ok_def)

lemma sector_of:
  "word_of_int (uint (b :: u32) * 512 div 512) = b" "word_of_int (uint (b :: u32) * 512 mod 512) = (0 :: u32)"
  by simp_all

text \<open>One attempt at reading a block.\<close>

lemma lhd_io_read:
  assumes "dev_ok d" "b < lh_blocks d" "length buf = 512"
  shows "case lh_codes d of
      LHD_MEDIA # cs \<Rightarrow> lhd_io c (d, uio_kinit buf (uint b * 512) UIO_READ) =
        Err EIO (d\<lparr>lh_codes := cs\<rparr>, uio_kinit buf (uint b * 512) UIO_READ)
    | LHD_INVSECT # cs \<Rightarrow> True
    | _ \<Rightarrow> \<exists>u. lhd_io c (d, uio_kinit buf (uint b * 512) UIO_READ) =
        Ok () (d\<lparr>lh_codes := tl (lh_codes d), lh_buf := lh_data d b\<rparr>, u) \<and> uio_out u = lh_data d b"
proof -
  let ?u = "uio_kinit buf (uint b * 512) UIO_READ"
  let ?d = "d\<lparr>lh_codes := tl (lh_codes d), lh_buf := lh_data d b\<rparr>"
  have bound: "\<not> b + 1 > lh_blocks d"
    using assms(2) unat_u32_less [of "lh_blocks d"]
    by (simp add: u32_order unat_word_ariths)
  have off: "uio_offset ?u = uint b * 512" "uio_rw ?u = UIO_READ" by (simp_all add: uio_kinit_def)
  have io: "lhd_io c (d, ?u) = lhd_io_loop c 1 b (d, ?u)"
    using bound by (simp add: lhd_io_def Let_def kinit_ok(5) [OF assms(3)] off)
  have len: "512 \<le> length (lh_data d b)" using assms(1) by (simp add: dev_ok_def)
  obtain u where u: "uiomove c (lh_data d b) 512 ?u = Ok (lh_data d b) u" "uio_after (lh_data d b) 512 ?u u"
    using uiomove_ok [of c ?u 512 "lh_data d b"] kinit_ok [OF assms(3)] len off by auto
  have out: "uio_out u = lh_data d b"
    using u(2) assms(1) off by (simp add: uio_after_def uio_kinit_def dev_ok_def)
  show ?thesis
    using io u(1) out off
    by (auto simp: lhd_sector_def LHD_SECTSIZE_def split: list.splits lhdcode.splits)
qed


text \<open>
  One attempt at writing a block. Whatever the outcome, the region has been consumed; a second
  attempt then transfers nothing and succeeds.
\<close>

lemma lhd_io_write:
  assumes "dev_ok d" "b < lh_blocks d" "length data = 512"
  shows "\<exists>u. uio_resid u = 0 \<and> uio_offset u = (uint b + 1) * 512 \<and> uio_rw u = UIO_WRITE \<and>
    (case lh_codes d of
      LHD_MEDIA # cs \<Rightarrow> lhd_io c (d, uio_kinit data (uint b * 512) UIO_WRITE) =
        Err EIO (d\<lparr>lh_buf := data, lh_codes := cs\<rparr>, u)
    | LHD_INVSECT # cs \<Rightarrow> True
    | _ \<Rightarrow> lhd_io c (d, uio_kinit data (uint b * 512) UIO_WRITE) =
        Ok () (d\<lparr>lh_buf := data, lh_codes := tl (lh_codes d), lh_data := (lh_data d)(b := data)\<rparr>, u))"
proof -
  let ?u = "uio_kinit data (uint b * 512) UIO_WRITE"
  have bound: "\<not> b + 1 > lh_blocks d"
    using assms(2) unat_u32_less [of "lh_blocks d"] by (simp add: u32_order unat_word_ariths)
  have off: "uio_offset ?u = uint b * 512" "uio_rw ?u = UIO_WRITE" "concat (uio_iov ?u) = data"
    by (simp_all add: uio_kinit_def)
  have io: "lhd_io c (d, ?u) = lhd_io_loop c 1 b (d, ?u)"
    using bound by (simp add: lhd_io_def Let_def kinit_ok(5) [OF assms(3)] off)
  have len: "512 \<le> length (lh_buf d)" "drop 512 (lh_buf d) = []" using assms(1) by (simp_all add: dev_ok_def)
  obtain u where u: "uiomove c (lh_buf d) 512 ?u = Ok data u" "uio_after (lh_buf d) 512 ?u u"
    using uiomove_ok [of c ?u 512 "lh_buf d"] kinit_ok [OF assms(3)] len off assms(3) by auto
  have f: "uio_resid u = 0" "uio_offset u = (uint b + 1) * 512" "uio_rw u = UIO_WRITE"
    using u(2) off kinit_ok(5) [OF assms(3)] by (simp_all add: uio_after_def)
  show ?thesis
    using io u(1) f off
    by (intro exI [of _ u]) (auto simp: lhd_sector_def LHD_SECTSIZE_def split: list.splits lhdcode.splits)
qed

lemma lhd_io_empty:
  assumes "uio_resid u = 0" "uio_offset u = (uint b + 1) * 512" "b < lh_blocks d"
  shows "lhd_io c (d, u) = Ok () (d, u)"
proof -
  have "(uint b + 1) * 512 div 512 = uint b + 1" "(uint b + 1) * 512 mod 512 = 0" by simp_all
  moreover have "\<not> b + 1 > lh_blocks d"
    using assms(3) unat_u32_less [of "lh_blocks d"] by (simp add: u32_order unat_word_ariths)
  moreover have "word_of_int (uint b + 1) = b + 1" by simp
  ultimately show ?thesis using assms by (simp add: lhd_io_def Let_def)
qed

definition fs_dev_ok :: "sfs_fs \<Rightarrow> bool" where
  "fs_dev_ok s \<longleftrightarrow> dev_ok (sfs_device s) \<and> biglock s > 0"

lemma rwblock_read:
  assumes "fs_dev_ok s" "b < lh_blocks (sfs_device s)" "length buf = 512"
    and "lh_codes (sfs_device s) = replicate k LHD_MEDIA @ LHD_OK # cs" "k \<le> n"
  shows "\<exists>s' u. sfs_rwblock_try n (s, uio_kinit buf (uint b * 512) UIO_READ) = Ok () (s', u) \<and>
    uio_out u = lh_data (sfs_device s) b \<and> lh_data (sfs_device s') = lh_data (sfs_device s) \<and>
    lh_codes (sfs_device s') = cs \<and> s' = s\<lparr>sfs_device := sfs_device s'\<rparr> \<and> fs_dev_ok s' \<and>
    lh_blocks (sfs_device s') = lh_blocks (sfs_device s)"
  using assms
proof (induction n arbitrary: s k)
  case 0
  then obtain u where u: "lhd_io (curas s) (sfs_device s, uio_kinit buf (uint b * 512) UIO_READ) =
      Ok () ((sfs_device s)\<lparr>lh_codes := cs, lh_buf := lh_data (sfs_device s) b\<rparr>, u)"
      "uio_out u = lh_data (sfs_device s) b"
    using lhd_io_read [of "sfs_device s" b buf "curas s"] by (auto simp: fs_dev_ok_def)
  then show ?case using "0.prems"(1) by (auto simp: fs_dev_ok_def dev_ok_def)
next
  case (Suc n)
  show ?case
  proof (cases k)
    case 0
    then obtain u where u: "lhd_io (curas s) (sfs_device s, uio_kinit buf (uint b * 512) UIO_READ) =
        Ok () ((sfs_device s)\<lparr>lh_codes := cs, lh_buf := lh_data (sfs_device s) b\<rparr>, u)"
        "uio_out u = lh_data (sfs_device s) b"
      using lhd_io_read [of "sfs_device s" b buf "curas s"] Suc.prems by (auto simp: fs_dev_ok_def)
    then show ?thesis using Suc.prems(1) by (auto simp: fs_dev_ok_def dev_ok_def)
  next
    case (Suc j)
    let ?s = "s\<lparr>sfs_device := (sfs_device s)\<lparr>lh_codes := replicate j LHD_MEDIA @ LHD_OK # cs\<rparr>\<rparr>"
    have "lhd_io (curas s) (sfs_device s, uio_kinit buf (uint b * 512) UIO_READ) =
        Err EIO (sfs_device ?s, uio_kinit buf (uint b * 512) UIO_READ)"
      using lhd_io_read [of "sfs_device s" b buf "curas s"] Suc.prems Suc by (auto simp: fs_dev_ok_def)
    then have "sfs_rwblock_try (Suc n) (s, uio_kinit buf (uint b * 512) UIO_READ) =
        sfs_rwblock_try n (?s, uio_kinit buf (uint b * 512) UIO_READ)" by simp
    moreover have "fs_dev_ok ?s" using Suc.prems(1) by (simp add: fs_dev_ok_def dev_ok_def)
    moreover have "j \<le> n" using Suc.prems(5) Suc by simp
    ultimately show ?thesis using Suc.IH [of ?s j] Suc.prems(2,3) by auto
  qed
qed

lemma rwblock_read_gives_up:
  assumes "fs_dev_ok s" "b < lh_blocks (sfs_device s)" "length buf = 512"
    and "lh_codes (sfs_device s) = replicate (Suc n) LHD_MEDIA @ cs"
  shows "\<exists>s' u. sfs_rwblock_try n (s, uio_kinit buf (uint b * 512) UIO_READ) = Err EIO (s', u)"
  using assms
proof (induction n arbitrary: s)
  case 0
  then show ?case using lhd_io_read [of "sfs_device s" b buf "curas s"] by (auto simp: fs_dev_ok_def)
next
  case (Suc n)
  let ?s = "s\<lparr>sfs_device := (sfs_device s)\<lparr>lh_codes := replicate (Suc n) LHD_MEDIA @ cs\<rparr>\<rparr>"
  have "lhd_io (curas s) (sfs_device s, uio_kinit buf (uint b * 512) UIO_READ) =
      Err EIO (sfs_device ?s, uio_kinit buf (uint b * 512) UIO_READ)"
    using lhd_io_read [of "sfs_device s" b buf "curas s"] Suc.prems by (auto simp: fs_dev_ok_def)
  then have "sfs_rwblock_try (Suc n) (s, uio_kinit buf (uint b * 512) UIO_READ) =
      sfs_rwblock_try n (?s, uio_kinit buf (uint b * 512) UIO_READ)" by simp
  moreover have "fs_dev_ok ?s" using Suc.prems(1) by (simp add: fs_dev_ok_def dev_ok_def)
  ultimately show ?case using Suc.IH [of ?s] Suc.prems(2,3) by auto
qed

subsection \<open>Reading and writing blocks\<close>

definition blk :: "sfs_fs \<Rightarrow> u32 \<Rightarrow> byte list" where
  "blk s b = lh_data (sfs_device s) b"

text \<open>
  \<^verbatim>\<open>sfs_readblock\<close> returns the contents of the block whenever at most ten media errors
  precede a good read, leaving the disk as it was, and reports \<^verbatim>\<open>EIO\<close> after the eleventh error.
\<close>

theorem sfs_readblock_retries:
  assumes "fs_dev_ok s" "b < lh_blocks (sfs_device s)"
  shows "(\<forall>k cs. lh_codes (sfs_device s) = replicate k LHD_MEDIA @ LHD_OK # cs \<and> k \<le> 10 \<longrightarrow>
      (\<exists>s'. sfs_readblock b s = Ok (blk s b) s' \<and> blk s' = blk s \<and> lh_codes (sfs_device s') = cs)) \<and>
    (\<forall>cs. lh_codes (sfs_device s) = replicate 11 LHD_MEDIA @ cs \<longrightarrow> (\<exists>s'. sfs_readblock b s = Err EIO s'))"
proof (intro conjI allI impI)
  let ?u = "uio_kinit (replicate 512 0) (uint b * 512) UIO_READ"
  have hold: "vfs_biglock_do_i_hold s" using assms(1) by (simp add: fs_dev_ok_def vfs_biglock_do_i_hold_def)
  {
    fix k cs assume "lh_codes (sfs_device s) = replicate k LHD_MEDIA @ LHD_OK # cs \<and> k \<le> 10"
    then obtain s' u where "sfs_rwblock_try 10 (s, ?u) = Ok () (s', u)" "uio_out u = blk s b"
        "lh_data (sfs_device s') = lh_data (sfs_device s)" "lh_codes (sfs_device s') = cs"
      using rwblock_read [OF assms, of "replicate 512 0" k cs 10] by (auto simp: blk_def)
    then show "\<exists>s'. sfs_readblock b s = Ok (blk s b) s' \<and> blk s' = blk s \<and> lh_codes (sfs_device s') = cs"
      using hold by (auto simp: sfs_readblock_def sfs_rwblock_def blk_def fun_eq_iff simp del: sfs_rwblock_try.simps)
  next
    fix cs assume "lh_codes (sfs_device s) = replicate 11 LHD_MEDIA @ cs"
    then have "lh_codes (sfs_device s) = replicate (Suc 10) LHD_MEDIA @ cs" by simp
    then obtain s' u where "sfs_rwblock_try 10 (s, ?u) = Err EIO (s', u)"
      using rwblock_read_gives_up [OF assms, of "replicate 512 0" 10 cs] by auto
    then show "\<exists>s'. sfs_readblock b s = Err EIO s'"
      using hold by (auto simp: sfs_readblock_def sfs_rwblock_def simp del: sfs_rwblock_try.simps)
  }
qed

definition demo_fs :: "lhdcode list \<Rightarrow> sfs_fs" where
  "demo_fs codes = \<lparr>sfs_sb = \<lparr>sb_magic = SFS_MAGIC, sb_nblocks = 8, sb_volname = replicate 32 0,
     sb_reserved = replicate 472 0\<rparr>, sfs_superdirty = False,
     sfs_device = \<lparr>lh_blocks = 8, lh_data = \<lambda>b. replicate 512 (ucast b), lh_codes = codes,
       lh_buf = replicate 512 0\<rparr>,
     sfs_vnodes = [], sfs_freemap = \<lparr>bm_nbits = 8, bm_v = [7]\<rparr>, sfs_freemapdirty = False, biglock = 1,
     curas = None\<rparr>"

lemma demo_fs_ok: "fs_dev_ok (demo_fs codes)" "lh_blocks (sfs_device (demo_fs codes)) = 8"
  "lh_codes (sfs_device (demo_fs codes)) = codes"
  by (simp_all add: demo_fs_def fs_dev_ok_def dev_ok_def)

theorem sfs_readblock_retries_witness:
  "\<exists>s'. sfs_readblock 3 (demo_fs [LHD_MEDIA, LHD_MEDIA, LHD_OK]) = Ok (replicate 512 3) s'"
proof -
  let ?s = "demo_fs [LHD_MEDIA, LHD_MEDIA, LHD_OK]"
  have "lh_codes (sfs_device ?s) = replicate 2 LHD_MEDIA @ LHD_OK # []"
    by (simp add: demo_fs_ok numeral_2_eq_2)
  then have "\<exists>s'. sfs_readblock 3 ?s = Ok (blk ?s 3) s'"
    using sfs_readblock_retries [OF demo_fs_ok(1), of 3 "[LHD_MEDIA, LHD_MEDIA, LHD_OK]"] by (force simp: demo_fs_ok(2))
  moreover have "blk ?s 3 = replicate 512 3" unfolding blk_def demo_fs_def by simp
  ultimately show ?thesis by simp
qed

lemma writeblock_io:
  assumes "fs_dev_ok s" "b < lh_blocks (sfs_device s)" "length data = 512"
  shows "case lh_codes (sfs_device s) of
      LHD_MEDIA # cs \<Rightarrow> sfs_writeblock b data s =
        Ok () (s\<lparr>sfs_device := (sfs_device s)\<lparr>lh_buf := data, lh_codes := cs\<rparr>\<rparr>)
    | LHD_INVSECT # cs \<Rightarrow> True
    | _ \<Rightarrow> sfs_writeblock b data s =
        Ok () (s\<lparr>sfs_device := (sfs_device s)\<lparr>lh_buf := data, lh_codes := tl (lh_codes (sfs_device s)),
          lh_data := (lh_data (sfs_device s))(b := data)\<rparr>\<rparr>)"
proof -
  let ?d = "sfs_device s" and ?u = "uio_kinit data (uint b * 512) UIO_WRITE"
  have hold: "vfs_biglock_do_i_hold s" and dev: "dev_ok ?d"
    using assms(1) by (simp_all add: fs_dev_ok_def vfs_biglock_do_i_hold_def)
  obtain u where u: "uio_resid u = 0" "uio_offset u = (uint b + 1) * 512"
    "case lh_codes ?d of
      LHD_MEDIA # cs \<Rightarrow> lhd_io (curas s) (?d, ?u) = Err EIO (?d\<lparr>lh_buf := data, lh_codes := cs\<rparr>, u)
    | LHD_INVSECT # cs \<Rightarrow> True
    | _ \<Rightarrow> lhd_io (curas s) (?d, ?u) =
        Ok () (?d\<lparr>lh_buf := data, lh_codes := tl (lh_codes ?d), lh_data := (lh_data ?d)(b := data)\<rparr>, u)"
    using lhd_io_write [OF dev assms(2,3), of "curas s"] by blast
  have again: "lhd_io c (d', u) = Ok () (d', u)" if "lh_blocks d' = lh_blocks ?d" for c d'
    using lhd_io_empty [OF u(1,2)] that assms(2) by simp
  show ?thesis
    using u(3) again hold assms(3)
    by (auto simp: sfs_writeblock_def sfs_rwblock_def SFS_BLOCKSIZE_def eval_nat_numeral
        split: list.splits lhdcode.splits)
qed

text \<open>
  \<^bold>\<open>C38.\<close> A media error while writing a block is lost: the driver has consumed the request before
  the transfer, so the retry of \<^verbatim>\<open>sfs_rwblock\<close> asks for zero sectors and succeeds.
  \<^verbatim>\<open>sfs_writeblock\<close> then reports success although the block on disk is unchanged, whatever the
  hardware would report for later attempts. Without an error it writes the block.
\<close>

theorem sfs_writeblock_loses_error:
  assumes "fs_dev_ok s" "b < lh_blocks (sfs_device s)" "length data = 512"
  shows "(\<forall>cs. lh_codes (sfs_device s) = LHD_MEDIA # cs \<longrightarrow>
      (\<exists>s'. sfs_writeblock b data s = Ok () s' \<and> blk s' = blk s \<and> lh_codes (sfs_device s') = cs)) \<and>
    (\<forall>cs. lh_codes (sfs_device s) = LHD_OK # cs \<longrightarrow>
      (\<exists>s'. sfs_writeblock b data s = Ok () s' \<and> blk s' = (blk s)(b := data)))"
  using writeblock_io [OF assms] by (auto simp: blk_def fun_eq_iff)

theorem sfs_writeblock_loses_error_witness:
  "\<exists>s'. sfs_writeblock 3 (replicate 512 9) (demo_fs [LHD_MEDIA, LHD_MEDIA]) = Ok () s' \<and>
     blk s' 3 = replicate 512 3"
proof -
  let ?s = "demo_fs [LHD_MEDIA, LHD_MEDIA]"
  have "\<exists>s'. sfs_writeblock 3 (replicate 512 9) ?s = Ok () s' \<and> blk s' = blk ?s"
    using sfs_writeblock_loses_error [OF demo_fs_ok(1), of 3 "[LHD_MEDIA, LHD_MEDIA]" "replicate 512 9"]
    by (force simp: demo_fs_ok)
  moreover have "blk ?s 3 = replicate 512 3" unfolding blk_def demo_fs_def by simp
  ultimately show ?thesis by metis
qed

subsection \<open>A working disk\<close>

text \<open>
  On a disk that reports no errors, reading and writing a block are these two functions, which
  differ from the identity and from an update of the block only in the controller's buffer.
\<close>

definition touch :: "byte list \<Rightarrow> sfs_fs \<Rightarrow> sfs_fs" where
  "touch data s = s\<lparr>sfs_device := (sfs_device s)\<lparr>lh_buf := data\<rparr>\<rparr>"

definition setblk :: "u32 \<Rightarrow> byte list \<Rightarrow> sfs_fs \<Rightarrow> sfs_fs" where
  "setblk b data s = s\<lparr>sfs_device := (sfs_device s)\<lparr>lh_buf := data, lh_data := (lh_data (sfs_device s))(b := data)\<rparr>\<rparr>"

definition healthy :: "sfs_fs \<Rightarrow> bool" where
  "healthy s \<longleftrightarrow> fs_dev_ok s \<and> lh_codes (sfs_device s) = []"

lemma touch_fields [simp]:
  "blk (touch x s) = blk s" "sfs_sb (touch x s) = sfs_sb s" "sfs_superdirty (touch x s) = sfs_superdirty s"
  "sfs_vnodes (touch x s) = sfs_vnodes s" "sfs_freemap (touch x s) = sfs_freemap s"
  "sfs_freemapdirty (touch x s) = sfs_freemapdirty s" "biglock (touch x s) = biglock s"
  "curas (touch x s) = curas s" "lh_blocks (sfs_device (touch x s)) = lh_blocks (sfs_device s)"
  "length x = 512 \<Longrightarrow> healthy s \<Longrightarrow> healthy (touch x s)"
  by (auto simp: touch_def blk_def fun_eq_iff healthy_def fs_dev_ok_def dev_ok_def)


lemma setblk_fields [simp]:
  "blk (setblk b x s) = (blk s)(b := x)" "sfs_sb (setblk b x s) = sfs_sb s"
  "sfs_superdirty (setblk b x s) = sfs_superdirty s"
  "sfs_vnodes (setblk b x s) = sfs_vnodes s" "sfs_freemap (setblk b x s) = sfs_freemap s"
  "sfs_freemapdirty (setblk b x s) = sfs_freemapdirty s" "biglock (setblk b x s) = biglock s"
  "curas (setblk b x s) = curas s" "lh_blocks (sfs_device (setblk b x s)) = lh_blocks (sfs_device s)"
  "length x = 512 \<Longrightarrow> healthy s \<Longrightarrow> healthy (setblk b x s)"
  by (auto simp: setblk_def blk_def fun_eq_iff healthy_def fs_dev_ok_def dev_ok_def)

lemma length_blk [simp]: "healthy s \<Longrightarrow> length (blk s b) = 512"
  by (simp add: healthy_def fs_dev_ok_def dev_ok_def blk_def)

lemma readblock_healthy:
  assumes "healthy s" "b < lh_blocks (sfs_device s)"
  shows "sfs_readblock b s = Ok (blk s b) (touch (blk s b) s)"
proof -
  let ?u = "uio_kinit (replicate 512 0) (uint b * 512) UIO_READ"
  obtain u where "lhd_io (curas s) (sfs_device s, ?u) =
      Ok () ((sfs_device s)\<lparr>lh_codes := [], lh_buf := lh_data (sfs_device s) b\<rparr>, u)"
      "uio_out u = lh_data (sfs_device s) b"
    using lhd_io_read [of "sfs_device s" b "replicate 512 0" "curas s"] assms
    by (auto simp: healthy_def fs_dev_ok_def)
  moreover have "(sfs_device s)\<lparr>lh_codes := []\<rparr> = sfs_device s" using assms by (simp add: healthy_def)
  ultimately show ?thesis using assms(1)
    by (simp add: sfs_readblock_def sfs_rwblock_def vfs_biglock_do_i_hold_def healthy_def fs_dev_ok_def
        touch_def blk_def)
qed

lemma writeblock_healthy:
  assumes "healthy s" "b < lh_blocks (sfs_device s)" "length data = 512"
  shows "sfs_writeblock b data s = Ok () (setblk b data s)"
proof -
  have "(sfs_device s)\<lparr>lh_buf := data, lh_codes := []\<rparr> = (sfs_device s)\<lparr>lh_buf := data\<rparr>"
    using assms(1) by (simp add: healthy_def)
  then show ?thesis using writeblock_io [OF _ assms(2,3)] assms(1) by (simp add: healthy_def setblk_def)
qed

text \<open>
  The on-disk structures round-trip: a superblock or inode of the right field sizes fills
  exactly one 512-byte block, a directory entry 64 bytes, an indirect block of 128 block numbers
  one block, and reading any of them back from those bytes gives the same structure.
\<close>

theorem sfs_layout_roundtrip:
  "(sb_ok sb \<longrightarrow> length (enc_superblock sb) = SFS_BLOCKSIZE \<and> dec_superblock (enc_superblock sb) = sb) \<and>
   (dinode_ok di \<longrightarrow> length (enc_dinode di) = SFS_BLOCKSIZE \<and> dec_dinode (enc_dinode di) = di) \<and>
   (direntry_ok sd \<longrightarrow> length (enc_direntry sd) = 64 \<and> dec_direntry (enc_direntry sd) = sd) \<and>
   (length ws = SFS_DBPERIDB \<longrightarrow>
      length (enc_words ws) = SFS_BLOCKSIZE \<and> dec_words SFS_DBPERIDB (enc_words ws) = ws)"
  using dec_words_enc [of ws SFS_DBPERIDB "[]"]
  by (simp add: SFS_BLOCKSIZE_def dec_enc_superblock dec_enc_dinode dec_enc_direntry SFS_DBPERIDB_def)

theorem sfs_layout_roundtrip_witness:
  "dec_words SFS_DBPERIDB (enc_words (replicate 128 7)) = replicate 128 7"
proof -
  have "length (replicate 128 (7::u32)) = SFS_DBPERIDB" by (simp add: SFS_DBPERIDB_def)
  then show ?thesis using sfs_layout_roundtrip [where ws = "replicate 128 7"] by blast
qed

end
