(* ===== verification/SfsBlock.thy ===== *)
theory SfsBlock
  imports SfsDisk
begin

text \<open>
  Block allocation and the mapping from file blocks to disk blocks:
  \<^verbatim>\<open>kern/fs/sfs/sfs_balloc.c\<close> and \<^verbatim>\<open>kern/fs/sfs/sfs_bmap.c\<close>.

  The abstraction of an inode is its block map \<open>fmap\<close>, a function from file block numbers to
  disk block numbers (0 for a hole). The theory shows that \<^verbatim>\<open>sfs_balloc\<close> hands out a free,
  zeroed block, that \<^verbatim>\<open>sfs_bmap\<close> reads the map and, when allocating, changes it in exactly one
  place to a fresh block, and what \<^verbatim>\<open>sfs_itrunc\<close> does to the map: it keeps one block too many
  when the new end lies in the indirect range.
\<close>

subsection \<open>Vnodes of a volume\<close>

definition getv :: "u32 \<Rightarrow> sfs_fs \<Rightarrow> (sfs_vnode \<Rightarrow> ('a, 't) res) \<Rightarrow> ('a, 't) res" where
  "getv ino s k = (case find (\<lambda>v. sv_ino v = ino) (sfs_vnodes s) of None \<Rightarrow> Fault | Some v \<Rightarrow> k v)"

definition updv :: "u32 \<Rightarrow> (sfs_vnode \<Rightarrow> sfs_vnode) \<Rightarrow> sfs_fs \<Rightarrow> sfs_fs" where
  "updv ino f s = s\<lparr>sfs_vnodes := map (\<lambda>v. if sv_ino v = ino then f v else v) (sfs_vnodes s)\<rparr>"

definition upd_inode :: "u32 \<Rightarrow> (sfs_dinode \<Rightarrow> sfs_dinode) \<Rightarrow> sfs_fs \<Rightarrow> sfs_fs" where
  "upd_inode ino f s = updv ino (\<lambda>v. v\<lparr>sv_i := f (sv_i v), sv_dirty := True\<rparr>) s"

subsection \<open>Block allocation\<close>

definition sfs_clearblock :: "u32 \<Rightarrow> sfs_fs \<Rightarrow> (unit, sfs_fs) res" where
  "sfs_clearblock block s = sfs_writeblock block (replicate SFS_BLOCKSIZE 0) s"

definition sfs_balloc :: "sfs_fs \<Rightarrow> (u32, sfs_fs) res" where
  "sfs_balloc s =
     (case bitmap_alloc (sfs_freemap s) of
        Ok diskblock b \<Rightarrow>
          (let s = s\<lparr>sfs_freemap := b, sfs_freemapdirty := True\<rparr> in
           if diskblock \<ge> sb_nblocks (sfs_sb s) then Panic
           else
             (case sfs_clearblock diskblock s of
                Ok _ s \<Rightarrow> Ok diskblock s
              | Err e s \<Rightarrow>
                  (case bitmap_unmark (sfs_freemap s) diskblock of
                     Ok _ b \<Rightarrow> Err e (s\<lparr>sfs_freemap := b\<rparr>)
                   | Err e' b \<Rightarrow> Err e' (s\<lparr>sfs_freemap := b\<rparr>)
                   | Panic \<Rightarrow> Panic | Fault \<Rightarrow> Fault | Hang \<Rightarrow> Hang)
              | Panic \<Rightarrow> Panic | Fault \<Rightarrow> Fault | Hang \<Rightarrow> Hang))
      | Err e b \<Rightarrow> Err e (s\<lparr>sfs_freemap := b\<rparr>)
      | Panic \<Rightarrow> Panic | Fault \<Rightarrow> Fault | Hang \<Rightarrow> Hang)"

definition sfs_bfree :: "u32 \<Rightarrow> sfs_fs \<Rightarrow> (unit, sfs_fs) res" where
  "sfs_bfree diskblock s =
     (case bitmap_unmark (sfs_freemap s) diskblock of
        Ok _ b \<Rightarrow> Ok () (s\<lparr>sfs_freemap := b, sfs_freemapdirty := True\<rparr>)
      | Err e b \<Rightarrow> Err e (s\<lparr>sfs_freemap := b\<rparr>)
      | Panic \<Rightarrow> Panic | Fault \<Rightarrow> Fault | Hang \<Rightarrow> Hang)"

definition sfs_bused :: "u32 \<Rightarrow> sfs_fs \<Rightarrow> (bool, sfs_fs) res" where
  "sfs_bused diskblock s =
     (if diskblock \<ge> sb_nblocks (sfs_sb s) then Panic
      else
        (case bitmap_isset (sfs_freemap s) diskblock of
           Ok r b \<Rightarrow> Ok r s
         | Err e b \<Rightarrow> Err e s
         | Panic \<Rightarrow> Panic | Fault \<Rightarrow> Fault | Hang \<Rightarrow> Hang))"

subsection \<open>The block map\<close>

text \<open>The end of \<^verbatim>\<open>sfs_bmap\<close>, shared by its two branches: check that the block is marked in use.\<close>

definition bmap_handback :: "u32 \<Rightarrow> sfs_fs \<Rightarrow> (u32, sfs_fs) res" where
  "bmap_handback block s =
     (if block \<noteq> 0 then kbind (sfs_bused block s) (\<lambda>used s. if \<not> used then Panic else Ok block s)
      else Ok block s)"

definition bmap_indirect :: "u32 \<Rightarrow> u32 \<Rightarrow> nat \<Rightarrow> bool \<Rightarrow> u32 list \<Rightarrow> sfs_fs \<Rightarrow> (u32, sfs_fs) res" where
  "bmap_indirect ino idblock idoff doalloc idbuf s =
     rd idbuf idoff (\<lambda>block.
       if block = 0 \<and> doalloc then
         kbind (sfs_balloc s) (\<lambda>block s.
           kbind (sfs_writeblock idblock (enc_words (idbuf[idoff := block])) s) (\<lambda>_ s.
             bmap_handback block s))
       else bmap_handback block s)"

definition sfs_bmap :: "u32 \<Rightarrow> u32 \<Rightarrow> bool \<Rightarrow> sfs_fs \<Rightarrow> (u32, sfs_fs) res" where
  "sfs_bmap ino fileblock doalloc s =
     kassert (vfs_biglock_do_i_hold s)
       (getv ino s (\<lambda>sv.
          if unat fileblock < SFS_NDIRECT then
            rd (sfi_direct (sv_i sv)) (unat fileblock) (\<lambda>block.
              if block = 0 \<and> doalloc then
                kbind (sfs_balloc s) (\<lambda>block s.
                  let s = upd_inode ino (\<lambda>i. i\<lparr>sfi_direct := (sfi_direct i)[unat fileblock := block]\<rparr>) s
                  in bmap_handback block s)
              else bmap_handback block s)
          else
            let fileblock = unat fileblock - SFS_NDIRECT;
                idnum = fileblock div SFS_DBPERIDB;
                idoff = fileblock mod SFS_DBPERIDB
            in if idnum \<ge> SFS_NINDIRECT then Err EFBIG s
               else
                 let idblock = sfi_indirect (sv_i sv) in
                 if idblock = 0 \<and> \<not> doalloc then Ok 0 s
                 else if idblock = 0 then
                   kbind (sfs_balloc s) (\<lambda>idblock s.
                     let s = upd_inode ino (\<lambda>i. i\<lparr>sfi_indirect := idblock\<rparr>) s
                     in bmap_indirect ino idblock idoff doalloc (replicate SFS_DBPERIDB 0) s)
                 else
                   kbind (sfs_readblock idblock s) (\<lambda>data s.
                     bmap_indirect ino idblock idoff doalloc (dec_words SFS_DBPERIDB data) s)))"

subsection \<open>Truncation\<close>

fun itrunc_direct :: "u32 \<Rightarrow> u32 \<Rightarrow> nat list \<Rightarrow> sfs_fs \<Rightarrow> (unit, sfs_fs) res" where
  "itrunc_direct ino blocklen [] s = Ok () s"
| "itrunc_direct ino blocklen (i # is) s =
     getv ino s (\<lambda>sv.
       rd (sfi_direct (sv_i sv)) i (\<lambda>block.
         if i \<ge> unat blocklen \<and> block \<noteq> 0 then
           kbind (sfs_bfree block s) (\<lambda>_ s.
             let s = upd_inode ino (\<lambda>di. di\<lparr>sfi_direct := (sfi_direct di)[i := 0]\<rparr>) s
             in itrunc_direct ino blocklen is s)
         else itrunc_direct ino blocklen is s))"

text \<open>The loop over the indirect block: the buffer, \<^verbatim>\<open>hasnonzero\<close> and \<^verbatim>\<open>iddirty\<close> afterwards.\<close>

fun itrunc_indirect ::
    "u32 \<Rightarrow> nat list \<Rightarrow> u32 list \<Rightarrow> bool \<Rightarrow> bool \<Rightarrow> sfs_fs \<Rightarrow> (u32 list \<times> bool \<times> bool, sfs_fs) res" where
  "itrunc_indirect blocklen [] idbuf hasnonzero iddirty s = Ok (idbuf, hasnonzero, iddirty) s"
| "itrunc_indirect blocklen (j # js) idbuf hasnonzero iddirty s =
     rd idbuf j (\<lambda>b.
       if unat blocklen < SFS_NDIRECT + j \<and> b \<noteq> 0 then
         kbind (sfs_bfree b s) (\<lambda>_ s.
           itrunc_indirect blocklen js (idbuf[j := 0]) hasnonzero True s)
       else itrunc_indirect blocklen js idbuf (hasnonzero \<or> b \<noteq> 0) iddirty s)"

definition sfs_itrunc :: "u32 \<Rightarrow> int \<Rightarrow> sfs_fs \<Rightarrow> (unit, sfs_fs) res" where
  "sfs_itrunc ino len s =
     (let blocklen = word_of_int (cdiv (len + 512 - 1) 512) :: u32;
          s = vfs_biglock_acquire s
      in kbind (itrunc_direct ino blocklen [0..<SFS_NDIRECT] s) (\<lambda>_ s.
           getv ino s (\<lambda>sv.
             let idblock = sfi_indirect (sv_i sv);
                 highblock = SFS_NDIRECT + SFS_DBPERIDB - 1;
                 finish = (\<lambda>s.
                   let s = upd_inode ino (\<lambda>di. di\<lparr>sfi_size := word_of_int len\<rparr>) s
                   in vfs_biglock_release s);
                 fail = (\<lambda>e s. kbind (vfs_biglock_release s) (\<lambda>_ s. Err e s))
             in if unat blocklen < highblock \<and> idblock \<noteq> 0 then
                  (case sfs_readblock idblock s of
                     Ok data s \<Rightarrow>
                       kbind (itrunc_indirect blocklen [0..<SFS_DBPERIDB] (dec_words SFS_DBPERIDB data) False False s)
                         (\<lambda>(idbuf, hasnonzero, iddirty) s.
                            if \<not> hasnonzero then
                              kbind (sfs_bfree idblock s) (\<lambda>_ s.
                                finish (upd_inode ino (\<lambda>di. di\<lparr>sfi_indirect := 0\<rparr>) s))
                            else if iddirty then
                              (case sfs_writeblock idblock (enc_words idbuf) s of
                                 Ok _ s \<Rightarrow> finish s
                               | Err e s \<Rightarrow> fail e s
                               | Panic \<Rightarrow> Panic | Fault \<Rightarrow> Fault | Hang \<Rightarrow> Hang)
                            else finish s)
                   | Err e s \<Rightarrow> fail e s
                   | Panic \<Rightarrow> Panic | Fault \<Rightarrow> Fault | Hang \<Rightarrow> Hang)
                else finish s)))"

subsection \<open>Specification\<close>

definition vn :: "sfs_fs \<Rightarrow> u32 \<Rightarrow> sfs_vnode option" where
  "vn s ino = find (\<lambda>v. sv_ino v = ino) (sfs_vnodes s)"

text \<open>The block map of an inode.\<close>

definition fmap :: "sfs_fs \<Rightarrow> sfs_dinode \<Rightarrow> nat \<Rightarrow> u32" where
  "fmap s di i =
     (if i < 15 then sfi_direct di ! i
      else if i < 143 \<and> sfi_indirect di \<noteq> 0 then dec_words 128 (blk s (sfi_indirect di)) ! (i - 15)
      else 0)"

text \<open>
  The disk blocks of a file as numbered slots: the block of the inode itself, the indirect
  block and the mapped blocks.
\<close>

fun slot :: "sfs_fs \<Rightarrow> sfs_vnode \<Rightarrow> nat \<Rightarrow> u32" where
  "slot s v 0 = sv_ino v"
| "slot s v (Suc 0) = sfi_indirect (sv_i v)"
| "slot s v (Suc (Suc i)) = fmap s (sv_i v) i"

definition used :: "sfs_fs \<Rightarrow> nat set" where
  "used s = bm_used (sfs_freemap s)"

text \<open>
  A volume in order: the disk works and is as big as the file system, the free map covers it,
  marks block 0 and everything past the end as used, and all loaded inodes own their blocks,
  which are marked used, exclusively.
\<close>

definition fs_ok :: "sfs_fs \<Rightarrow> bool" where
  "fs_ok s \<longleftrightarrow> healthy s \<and> bm_ok (sfs_freemap s) \<and> sb_nblocks (sfs_sb s) \<le> lh_blocks (sfs_device s) \<and>
     sb_nblocks (sfs_sb s) \<le> bm_nbits (sfs_freemap s) \<and>
     {unat (sb_nblocks (sfs_sb s))..<unat (bm_nbits (sfs_freemap s))} \<subseteq> used s \<and> 0 \<in> used s \<and>
     distinct (map sv_ino (sfs_vnodes s)) \<and>
     (\<forall>v \<in> set (sfs_vnodes s). dinode_ok (sv_i v) \<and>
        (\<forall>k. slot s v k \<noteq> 0 \<longrightarrow> slot s v k < sb_nblocks (sfs_sb s) \<and> unat (slot s v k) \<in> used s) \<and>
        (\<forall>w \<in> set (sfs_vnodes s). \<forall>k l. slot s v k = slot s w l \<and> slot s v k \<noteq> 0 \<longrightarrow>
           sv_ino v = sv_ino w \<and> k = l))"

lemma vn_in: "vn s ino = Some v \<Longrightarrow> v \<in> set (sfs_vnodes s) \<and> sv_ino v = ino"
  unfolding vn_def find_Some_iff by auto

lemma getv_vn: "vn s ino = Some v \<Longrightarrow> getv ino s k = k v"
  by (simp add: getv_def vn_def)

lemma vn_touch [simp]: "vn (touch x s) = vn s" and vn_setblk [simp]: "vn (setblk b x s) = vn s"
  by (simp_all add: vn_def fun_eq_iff)

lemma find_map_upd:
  assumes "\<And>v. sv_ino (f v) = sv_ino v"
  shows "find (\<lambda>v. sv_ino v = i) (map (\<lambda>v. if sv_ino v = ino then f v else v) vs) =
    (if i = ino then map_option f (find (\<lambda>v. sv_ino v = i) vs) else find (\<lambda>v. sv_ino v = i) vs)"
  by (induction vs) (auto simp: assms)

lemma vn_updv:
  "(\<And>v. sv_ino (f v) = sv_ino v) \<Longrightarrow>
   vn (updv ino f s) i = (if i = ino then map_option f (vn s i) else vn s i)"
  unfolding vn_def updv_def by (simp add: find_map_upd)

lemma vn_upd_inode:
  "vn (upd_inode ino f s) i =
     (if i = ino then map_option (\<lambda>v. v\<lparr>sv_i := f (sv_i v), sv_dirty := True\<rparr>) (vn s i) else vn s i)"
  by (simp add: upd_inode_def vn_updv)

lemma upd_inode_fields [simp]:
  "sfs_sb (upd_inode ino f s) = sfs_sb s" "sfs_device (upd_inode ino f s) = sfs_device s"
  "sfs_freemap (upd_inode ino f s) = sfs_freemap s" "biglock (upd_inode ino f s) = biglock s"
  "blk (upd_inode ino f s) = blk s" "healthy (upd_inode ino f s) = healthy s"
  "used (upd_inode ino f s) = used s" "map sv_ino (sfs_vnodes (upd_inode ino f s)) = map sv_ino (sfs_vnodes s)"
  by (auto simp: upd_inode_def updv_def blk_def fun_eq_iff healthy_def fs_dev_ok_def used_def)

lemma used_touch [simp]: "used (touch x s) = used s" and used_setblk [simp]: "used (setblk b x s) = used s"
  by (simp_all add: used_def)

lemma fmap_cong: "sfi_indirect di \<noteq> 0 \<Longrightarrow> blk s' (sfi_indirect di) = blk s (sfi_indirect di) \<Longrightarrow> fmap s' di = fmap s di"
  by (auto simp: fmap_def fun_eq_iff)

lemma fmap_noind: "sfi_indirect di = 0 \<Longrightarrow> fmap s' di = fmap s di"
  by (auto simp: fmap_def fun_eq_iff)

lemma fmap_blk: "blk s' = blk s \<Longrightarrow> fmap s' = fmap s"
  by (simp add: fmap_def fun_eq_iff)

lemma slot_cases:
  obtains "k = 0" | "k = 1" | i where "k = Suc (Suc i)"
  by (cases k; cases "k - 1") auto

lemma slot_blk: "blk s' = blk s \<Longrightarrow> slot s' v k = slot s v k"
  using fmap_blk [of s' s] by (cases k rule: slot_cases) simp_all

lemma slot_cong:
  assumes "sfi_indirect (sv_i v) = 0 \<or> blk s' (sfi_indirect (sv_i v)) = blk s (sfi_indirect (sv_i v))"
  shows "slot s' v k = slot s v k"
proof -
  have "fmap s' (sv_i v) = fmap s (sv_i v)" using assms fmap_cong fmap_noind by blast
  then show ?thesis by (cases k rule: slot_cases) auto
qed

lemma fs_okD:
  assumes "fs_ok s"
  shows "healthy s" "bm_ok (sfs_freemap s)" "sb_nblocks (sfs_sb s) \<le> lh_blocks (sfs_device s)"
    "sb_nblocks (sfs_sb s) \<le> bm_nbits (sfs_freemap s)" "0 \<in> used s" "distinct (map sv_ino (sfs_vnodes s))"
    "{unat (sb_nblocks (sfs_sb s))..<unat (bm_nbits (sfs_freemap s))} \<subseteq> used s"
  using assms by (simp_all add: fs_ok_def)

lemma fs_ok_slot:
  assumes "fs_ok s" "v \<in> set (sfs_vnodes s)" "slot s v k \<noteq> 0"
  shows "slot s v k < sb_nblocks (sfs_sb s)" "unat (slot s v k) \<in> used s"
  using assms by (simp_all add: fs_ok_def)

lemma fs_ok_slot_inj:
  assumes "fs_ok s" "v \<in> set (sfs_vnodes s)" "w \<in> set (sfs_vnodes s)" "slot s v k = slot s w l" "slot s v k \<noteq> 0"
  shows "sv_ino v = sv_ino w" "k = l"
  using assms unfolding fs_ok_def by blast+

lemma fs_ok_dinode: "fs_ok s \<Longrightarrow> v \<in> set (sfs_vnodes s) \<Longrightarrow> dinode_ok (sv_i v)"
  by (simp add: fs_ok_def)

subsection \<open>Allocation on a volume in order\<close>

lemma sfs_balloc_ok:
  assumes "fs_ok s"
  shows "(sfs_balloc s = Err ENOSPC s \<and> used s = {..<unat (bm_nbits (sfs_freemap s))}) \<or>
    (\<exists>b fm. sfs_balloc s = Ok b (setblk b (replicate 512 0) (s\<lparr>sfs_freemap := fm, sfs_freemapdirty := True\<rparr>)) \<and>
       b \<noteq> 0 \<and> b < sb_nblocks (sfs_sb s) \<and> unat b \<notin> used s \<and> bm_ok fm \<and>
       bm_nbits fm = bm_nbits (sfs_freemap s) \<and> bm_used fm = insert (unat b) (used s))"
proof (cases "bm_used (sfs_freemap s) = {..<unat (bm_nbits (sfs_freemap s))}")
  case True
  then have "bitmap_alloc (sfs_freemap s) = Err ENOSPC (sfs_freemap s)"
    using kbm.alloc_full_iff [OF fs_okD(2) [OF assms]] by simp
  then show ?thesis using True by (simp add: sfs_balloc_def used_def)
next
  case False
  then obtain b fm where a: "bitmap_alloc (sfs_freemap s) = Ok b fm"
    using kbm.alloc_free [OF fs_okD(2) [OF assms]] by blast
  note r = kbm.alloc_result [OF fs_okD(2) [OF assms] a]
  have "b < sb_nblocks (sfs_sb s)"
  proof (rule ccontr)
    assume "\<not> b < sb_nblocks (sfs_sb s)"
    then have "unat b \<in> {unat (sb_nblocks (sfs_sb s))..<unat (bm_nbits (sfs_freemap s))}"
      using r by (simp add: u32_order)
    then show False using fs_okD(7) [OF assms] r by (auto simp: used_def)
  qed
  moreover have "b \<noteq> 0" using r fs_okD(5) [OF assms] by (auto simp: used_def)
  moreover have "healthy (s\<lparr>sfs_freemap := fm, sfs_freemapdirty := True\<rparr>)"
    using fs_okD(1) [OF assms] by (simp add: healthy_def fs_dev_ok_def)
  moreover have "b < lh_blocks (sfs_device s)" using calculation(1) fs_okD(3) [OF assms] by simp
  ultimately have "sfs_balloc s = Ok b (setblk b (replicate 512 0) (s\<lparr>sfs_freemap := fm, sfs_freemapdirty := True\<rparr>))"
    using a by (simp add: sfs_balloc_def sfs_clearblock_def SFS_BLOCKSIZE_def writeblock_healthy Let_def not_le)
  then show ?thesis using r \<open>b < sb_nblocks (sfs_sb s)\<close> \<open>b \<noteq> 0\<close> by (auto simp: used_def)
qed

lemma handback_used:
  assumes "healthy s" "bm_ok (sfs_freemap s)" "sb_nblocks (sfs_sb s) \<le> bm_nbits (sfs_freemap s)"
    and "b = 0 \<or> b < sb_nblocks (sfs_sb s) \<and> unat b \<in> used s"
  shows "bmap_handback b s = Ok b s"
proof (cases "b = 0")
  case False
  then have b: "b < sb_nblocks (sfs_sb s)" "unat b \<in> bm_used (sfs_freemap s)" using assms(4) by (auto simp: used_def)
  then have "bitmap_isset (sfs_freemap s) b = Ok True (sfs_freemap s)"
    using kbm.isset_law [OF assms(2), of b] assms(3) by auto
  then show ?thesis using b False by (simp add: bmap_handback_def sfs_bused_def not_le)
qed (simp add: bmap_handback_def)

lemma fs_ok_handback:
  assumes "fs_ok s" "v \<in> set (sfs_vnodes s)"
  shows "bmap_handback (slot s v k) s = Ok (slot s v k) s"
  using fs_okD [OF assms(1)] fs_ok_slot [OF assms, of k] by (intro handback_used) auto

lemma fs_ok_touch: "fs_ok s \<Longrightarrow> length x = 512 \<Longrightarrow> fs_ok (touch x s)"
  using slot_blk [of "touch x s" s] unfolding fs_ok_def by simp blast

text \<open>Lookup without allocation.\<close>

lemma index_split: "unat (fb :: u32) = i \<Longrightarrow> \<not> i < 15 \<Longrightarrow> i < 143 \<Longrightarrow> (i - 15) div 128 = 0 \<and> (i - 15) mod 128 = i - 15"
  by simp

lemma sfs_bmap_lookup:
  assumes ok: "fs_ok s" and v: "vn s ino = Some v"
  shows "if unat fb < 143 then \<exists>s'. sfs_bmap ino fb False s = Ok (fmap s (sv_i v) (unat fb)) s' \<and>
           (s' = s \<or> (\<exists>x. length x = 512 \<and> s' = touch x s))
         else sfs_bmap ino fb False s = Err EFBIG s"
proof -
  have vin: "v \<in> set (sfs_vnodes s)" using vn_in [OF v] by simp
  have hold: "vfs_biglock_do_i_hold s"
    using fs_okD(1) [OF ok] by (simp add: healthy_def fs_dev_ok_def vfs_biglock_do_i_hold_def)
  have len: "length (sfi_direct (sv_i v)) = 15" using fs_ok_dinode [OF ok vin] by (simp add: dinode_ok_def)
  let ?i = "unat fb"
  consider (direct) "?i < 15" | (big) "143 \<le> ?i" | (hole) "15 \<le> ?i" "?i < 143" "sfi_indirect (sv_i v) = 0"
    | (ind) "15 \<le> ?i" "?i < 143" "sfi_indirect (sv_i v) \<noteq> 0" by linarith
  then show ?thesis
  proof cases
    case direct
    have "fmap s (sv_i v) ?i = sfi_direct (sv_i v) ! ?i" using direct by (simp add: fmap_def)
    then have "sfs_bmap ino fb False s = bmap_handback (slot s v (Suc (Suc ?i))) s"
      using direct hold len by (simp add: sfs_bmap_def getv_vn [OF v] sfs_consts)
    then show ?thesis using fs_ok_handback [OF ok vin, of "Suc (Suc ?i)"] direct by auto
  next
    case big
    then have "1 \<le> (?i - 15) div 128" by linarith
    then show ?thesis using big hold by (simp add: sfs_bmap_def getv_vn [OF v] sfs_consts Let_def)
  next
    case hole
    then show ?thesis using hold index_split [of fb ?i]
      by (simp add: sfs_bmap_def getv_vn [OF v] sfs_consts Let_def fmap_def)
  next
    case ind
    let ?b = "sfi_indirect (sv_i v)"
    have "?b < sb_nblocks (sfs_sb s)" using fs_ok_slot(1) [OF ok vin, of 1] ind by simp
    then have rb: "sfs_readblock ?b s = Ok (blk s ?b) (touch (blk s ?b) s)"
      using fs_okD(1,3) [OF ok] by (intro readblock_healthy) auto
    let ?s = "touch (blk s ?b) s"
    have sok: "fs_ok ?s" using ok fs_okD(1) [OF ok] by (intro fs_ok_touch) simp_all
    have eq: "dec_words 128 (blk s ?b) ! (?i - 15) = slot ?s v (Suc (Suc ?i))"
      using ind by (simp add: fmap_def)
    have lt: "?i - 15 < length (dec_words 128 (blk s ?b))" using ind by (simp add: dec_words_def)
    have "sfs_bmap ino fb False s = bmap_indirect ino ?b (?i - 15) False (dec_words 128 (blk s ?b)) ?s"
      using ind hold index_split [of fb ?i] rb
      by (simp add: sfs_bmap_def getv_vn [OF v] sfs_consts Let_def)
    then have "sfs_bmap ino fb False s = bmap_handback (slot ?s v (Suc (Suc ?i))) ?s"
      using lt unfolding eq [symmetric] by (simp add: bmap_indirect_def)
    moreover have "fmap ?s (sv_i v) ?i = fmap s (sv_i v) ?i" by (simp add: fmap_def)
    ultimately have "sfs_bmap ino fb False s = Ok (fmap s (sv_i v) ?i) ?s"
      using fs_ok_handback [OF sok, of v "Suc (Suc ?i)"] vin by simp
    moreover have "length (blk s ?b) = 512" using fs_okD(1) [OF ok] by simp
    ultimately show ?thesis using ind by auto
  qed
qed

subsection \<open>Adding one block to a file\<close>

lemma vn_unique:
  assumes "fs_ok s" "v \<in> set (sfs_vnodes s)"
  shows "vn s (sv_ino v) = Some v"
proof -
  have d: "distinct (map sv_ino (sfs_vnodes s))" by (rule fs_okD(6) [OF assms(1)])
  obtain w where w: "vn s (sv_ino v) = Some w"
    using assms(2) by (cases "vn s (sv_ino v)") (auto simp: vn_def find_None_iff)
  then have "w \<in> set (sfs_vnodes s)" "sv_ino w = sv_ino v" using vn_in by auto
  then have "w = v" using d assms(2) by (metis (mono_tags, lifting) distinct_map inj_onD)
  then show ?thesis using w by simp
qed

text \<open>
  A volume that differs from one in order by one more used block, entered in a free slot of
  one file, is in order.
\<close>

lemma fs_ok_add_slot:
  assumes ok: "fs_ok s" and v: "vn s ino = Some v"
    and h: "healthy s'" "sfs_sb s' = sfs_sb s" "lh_blocks (sfs_device s') = lh_blocks (sfs_device s)"
    and fm: "bm_ok (sfs_freemap s')" "bm_nbits (sfs_freemap s') = bm_nbits (sfs_freemap s)"
      "used s' = insert (unat b) (used s)"
    and b: "b < sb_nblocks (sfs_sb s)" "unat b \<notin> used s"
    and vs: "sfs_vnodes s' = map (\<lambda>w. if sv_ino w = ino then v' else w) (sfs_vnodes s)"
    and v': "sv_ino v' = ino" "dinode_ok (sv_i v')"
    and slots: "\<And>k. slot s' v' k = ((slot s v)(pos := b)) k"
    and others: "\<And>w k. w \<in> set (sfs_vnodes s) \<Longrightarrow> sv_ino w \<noteq> ino \<Longrightarrow> slot s' w k = slot s w k"
  shows "fs_ok s'"
proof -
  have vin: "v \<in> set (sfs_vnodes s)" "sv_ino v = ino" using vn_in [OF v] by auto
  have mem: "w = v' \<or> (w \<in> set (sfs_vnodes s) \<and> sv_ino w \<noteq> ino)" if "w \<in> set (sfs_vnodes s')" for w
    using that vs v'(1) by auto
  have b0: "b \<noteq> 0" using b(2) fs_okD(5) [OF ok] by auto
  have notb: "slot s w k \<noteq> b" if "w \<in> set (sfs_vnodes s)" for w k
    using fs_ok_slot(2) [OF ok that, of k] b(2) b0 by auto
  define g where "g w k = (if w = v' then ((slot s v)(pos := b)) k else slot s w k)" for w k
  have sg: "slot s' w k = g w k" if "w \<in> set (sfs_vnodes s')" for w k
    using mem [OF that] slots others v'(1) by (auto simp: g_def)
  define orig where "orig w = (if w = v' then v else w)" for w
  have og: "orig w \<in> set (sfs_vnodes s) \<and> sv_ino (orig w) = sv_ino w" if "w \<in> set (sfs_vnodes s')" for w
    using mem [OF that] vin v'(1) by (auto simp: orig_def)
  have gb: "g w k = (if w = v' \<and> k = pos then b else slot s (orig w) k)" for w k
    by (auto simp: g_def orig_def)
  have inj: "sv_ino w = sv_ino u \<and> k = l"
    if wu: "w \<in> set (sfs_vnodes s')" "u \<in> set (sfs_vnodes s')" and eq: "g w k = g u l" "g w k \<noteq> 0" for w u k l
  proof -
    have ow: "orig w \<in> set (sfs_vnodes s)" "sv_ino (orig w) = sv_ino w" using og [OF wu(1)] by simp_all
    have ou: "orig u \<in> set (sfs_vnodes s)" "sv_ino (orig u) = sv_ino u" using og [OF wu(2)] by simp_all
    show ?thesis
    proof (cases "w = v' \<and> k = pos")
      case True
      then have "g u l = b" using eq gb [of w k] by simp
      then show ?thesis using gb [of u l] notb [OF ou(1), of l] True by (cases "u = v' \<and> l = pos") simp_all
    next
      case False
      then have e: "g w k = slot s (orig w) k" unfolding gb by (rule if_not_P)
      show ?thesis
      proof (cases "u = v' \<and> l = pos")
        case True
        then show ?thesis using e eq(1) gb [of u l] notb [OF ow(1), of k] by simp
      next
        case False
        then have "g u l = slot s (orig u) l" unfolding gb by (rule if_not_P)
        then have "slot s (orig w) k = slot s (orig u) l" "slot s (orig w) k \<noteq> 0"
          using e eq by simp_all
        from fs_ok_slot_inj [OF ok ow(1) ou(1) this] show ?thesis using ow ou by simp
      qed
    qed
  qed
  have "dinode_ok (sv_i w)" if "w \<in> set (sfs_vnodes s')" for w
    using mem [OF that] v'(2) fs_ok_dinode [OF ok] by auto
  moreover have rng: "g w k < sb_nblocks (sfs_sb s) \<and> unat (g w k) \<in> used s'"
    if "w \<in> set (sfs_vnodes s')" "g w k \<noteq> 0" for w k
    using that og [OF that(1)] fs_ok_slot [OF ok, of "orig w" k] b(1) fm(3) gb [of w k]
    by (cases "w = v' \<and> k = pos") simp_all
  moreover have "map sv_ino (sfs_vnodes s') = map sv_ino (sfs_vnodes s)" using vs v'(1) by auto
  moreover have "{unat (sb_nblocks (sfs_sb s))..<unat (bm_nbits (sfs_freemap s))} \<subseteq> used s'" "0 \<in> used s'"
    using fs_okD(5,7) [OF ok] fm(3) by auto
  ultimately show ?thesis
    unfolding fs_ok_def using h fm(1,2) fs_okD(3,4,6) [OF ok] inj sg by (intro conjI ballI) (simp_all, metis)
qed

subsection \<open>Mapping with allocation\<close>

text \<open>
  What a successful \<^verbatim>\<open>sfs_bmap\<close> with allocation leaves: file block \<open>i\<close> of inode \<open>ino\<close> is mapped to
  \<open>b\<close>, everything else of every file is as before, and a newly used block is zeroed.
\<close>

definition meta_eq :: "sfs_dinode \<Rightarrow> sfs_dinode \<Rightarrow> bool" where
  "meta_eq a b \<longleftrightarrow> sfi_size b = sfi_size a \<and> sfi_type b = sfi_type a \<and> sfi_linkcount b = sfi_linkcount a"

definition mapped :: "sfs_fs \<Rightarrow> sfs_vnode \<Rightarrow> u32 \<Rightarrow> nat \<Rightarrow> u32 \<Rightarrow> sfs_fs \<Rightarrow> bool" where
  "mapped s v ino i b s' \<longleftrightarrow> b \<noteq> 0 \<and> fs_ok s' \<and> sfs_sb s' = sfs_sb s \<and> biglock s' = biglock s \<and>
     curas s' = curas s \<and>
     (\<exists>v'. vn s' ino = Some v' \<and> fmap s' (sv_i v') = (fmap s (sv_i v))(i := b) \<and>
        meta_eq (sv_i v) (sv_i v') \<and> vn_refcount v' = vn_refcount v \<and>
        (sfi_indirect (sv_i v') = sfi_indirect (sv_i v) \<or> unat (sfi_indirect (sv_i v')) \<notin> used s)) \<and>
     (\<forall>j. j \<noteq> ino \<longrightarrow> vn s' j = vn s j \<and> (\<forall>w. vn s j = Some w \<longrightarrow> fmap s' (sv_i w) = fmap s (sv_i w))) \<and>
     used s \<subseteq> used s' \<and>
     (if fmap s (sv_i v) i \<noteq> 0 then b = fmap s (sv_i v) i \<and> blk s' = blk s
      else unat b \<notin> used s \<and> blk s' b = replicate 512 0) \<and>
     (\<forall>c. unat c \<in> used s \<and> (c \<noteq> sfi_indirect (sv_i v) \<or> c = 0) \<longrightarrow> blk s' c = blk s c)"

lemma mapped_same:
  assumes "fs_ok s" "vn s ino = Some v" "fmap s (sv_i v) i \<noteq> 0" "length x = 512 \<or> x = []"
    and "s' = (if x = [] then s else touch x s)"
  shows "mapped s v ino i (fmap s (sv_i v) i) s'"
proof -
  have f: "fmap s' = fmap s" "vn s' = vn s" "blk s' = blk s" "used s' = used s" "sfs_sb s' = sfs_sb s"
    "biglock s' = biglock s" "curas s' = curas s"
    using assms(5) fmap_blk [of "touch x s" s] by (auto simp: fun_eq_iff)
  moreover have "fs_ok s'" using assms(1,4,5) fs_ok_touch by auto
  ultimately show ?thesis using assms(2,3) by (auto simp: mapped_def meta_eq_def)
qed

definition fs_full :: "sfs_fs \<Rightarrow> bool" where
  "fs_full s \<longleftrightarrow> used s = {..<unat (bm_nbits (sfs_freemap s))}"

lemma fs_full_touch [simp]: "fs_full (touch x s) = fs_full s"
  by (simp add: fs_full_def)

text \<open>The state after taking block \<open>b\<close> from the free map and clearing it.\<close>

definition took :: "u32 \<Rightarrow> bitmap \<Rightarrow> sfs_fs \<Rightarrow> sfs_fs" where
  "took b fm s = setblk b (replicate 512 0) (s\<lparr>sfs_freemap := fm, sfs_freemapdirty := True\<rparr>)"

lemma took_fields [simp]:
  "blk (took b fm s) = (blk s)(b := replicate 512 0)" "sfs_sb (took b fm s) = sfs_sb s"
  "sfs_vnodes (took b fm s) = sfs_vnodes s" "sfs_freemap (took b fm s) = fm" "biglock (took b fm s) = biglock s"
  "curas (took b fm s) = curas s" "lh_blocks (sfs_device (took b fm s)) = lh_blocks (sfs_device s)"
  "healthy s \<Longrightarrow> healthy (took b fm s)" "vn (took b fm s) = vn s" "used (took b fm s) = bm_used fm"
proof -
  have h: "healthy s \<Longrightarrow> healthy (s\<lparr>sfs_freemap := fm, sfs_freemapdirty := True\<rparr>)"
    by (simp add: healthy_def fs_dev_ok_def)
  have bk: "blk (s\<lparr>sfs_freemap := fm, sfs_freemapdirty := True\<rparr>) = blk s" by (simp add: blk_def fun_eq_iff)
  show "healthy s \<Longrightarrow> healthy (took b fm s)" using h by (simp add: took_def)
  show "blk (took b fm s) = (blk s)(b := replicate 512 0)" using bk by (simp add: took_def)
qed (simp_all add: took_def vn_def used_def fun_eq_iff)

lemma balloc_took:
  assumes "fs_ok s"
  shows "sfs_balloc s = Err ENOSPC s \<and> fs_full s \<or>
    (\<exists>b fm. sfs_balloc s = Ok b (took b fm s) \<and> b \<noteq> 0 \<and> b < sb_nblocks (sfs_sb s) \<and> unat b \<notin> used s \<and>
       bm_ok fm \<and> bm_nbits fm = bm_nbits (sfs_freemap s) \<and> bm_used fm = insert (unat b) (used s))"
  using sfs_balloc_ok [OF assms] by (auto simp: took_def fs_full_def)

lemma fmap_indirect:
  "sfi_indirect di \<noteq> 0 \<Longrightarrow> 15 \<le> i \<Longrightarrow> i < 143 \<Longrightarrow> fmap s di i = dec_words 128 (blk s (sfi_indirect di)) ! (i - 15)"
  by (simp add: fmap_def)

lemma length_dec_words [simp]: "length (dec_words n bs) = n"
  by (simp add: dec_words_def)

lemma others_keep:
  assumes ok: "fs_ok s" and w: "w \<in> set (sfs_vnodes s)"
    and "\<And>c. unat c \<in> used s \<Longrightarrow> c \<noteq> x \<Longrightarrow> blk s' c = blk s c" "sfi_indirect (sv_i w) \<noteq> x \<or> x = 0"
  shows "slot s' w k = slot s w k" "fmap s' (sv_i w) = fmap s (sv_i w)"
proof -
  have "sfi_indirect (sv_i w) = 0 \<or> blk s' (sfi_indirect (sv_i w)) = blk s (sfi_indirect (sv_i w))"
    using fs_ok_slot(2) [OF ok w, of 1] assms(3,4) by auto
  then show "slot s' w k = slot s w k" "fmap s' (sv_i w) = fmap s (sv_i w)"
    using slot_cong fmap_cong fmap_noind by blast+
qed

lemma slot_upd:
  assumes "sv_ino v' = sv_ino v" "sfi_indirect (sv_i v') = sfi_indirect (sv_i v)"
    and "fmap s' (sv_i v') = (fmap s (sv_i v))(i := b)"
  shows "slot s' v' k = ((slot s v)(Suc (Suc i) := b)) k"
  using assms by (cases k rule: slot_cases) auto

lemma enter_indirect:
  assumes ok: "fs_ok s" and v: "vn s ino = Some v" and ib: "sfi_indirect (sv_i v) \<noteq> 0"
    and i: "15 \<le> i" "i < 143" and hole: "fmap s (sv_i v) i = 0"
    and b: "b \<noteq> 0" "b < sb_nblocks (sfs_sb s)" "unat b \<notin> used s"
    and fm: "bm_ok fm" "bm_nbits fm = bm_nbits (sfs_freemap s)" "bm_used fm = insert (unat b) (used s)"
    and s': "s' = setblk (sfi_indirect (sv_i v))
        (enc_words ((dec_words 128 (blk s (sfi_indirect (sv_i v))))[i - 15 := b])) (took b fm s)"
  shows "mapped s v ino i b s'"
proof -
  let ?ib = "sfi_indirect (sv_i v)" and ?ws = "dec_words 128 (blk s (sfi_indirect (sv_i v)))"
  have vin: "v \<in> set (sfs_vnodes s)" "sv_ino v = ino" using vn_in [OF v] by auto
  have ibu: "unat ?ib \<in> used s" using fs_ok_slot(2) [OF ok vin(1), of 1] ib by simp
  then have bib: "b \<noteq> ?ib" using b(3) by auto
  have data: "dec_words 128 (enc_words (?ws[i - 15 := b])) = ?ws[i - 15 := b]"
    using dec_words_enc [of "?ws[i - 15 := b]" 128 "[]"] by simp
  have bib': "blk s' ?ib = enc_words (?ws[i - 15 := b])" using s' by simp
  have fmap': "fmap s' (sv_i v) = (fmap s (sv_i v))(i := b)"
  proof
    fix j show "fmap s' (sv_i v) j = ((fmap s (sv_i v))(i := b)) j"
      using ib i bib' data by (auto simp: fmap_def nth_list_update)
  qed
  have keep: "blk s' c = blk s c" if "unat c \<in> used s" "c \<noteq> ?ib" for c
    using that b(3) s' by auto
  have oth: "sfi_indirect (sv_i w) \<noteq> ?ib \<or> ?ib = 0" if "w \<in> set (sfs_vnodes s)" "sv_ino w \<noteq> ino" for w
    using fs_ok_slot_inj(1) [OF ok that(1) vin(1), of 1 1] ib that vin(2) by auto
  have vs: "sfs_vnodes s' = map (\<lambda>w. if sv_ino w = ino then v else w) (sfs_vnodes s)"
  proof -
    have "(if sv_ino w = ino then v else w) = w" if "w \<in> set (sfs_vnodes s)" for w
      using vn_unique [OF ok that] v by auto
    then show ?thesis using s' by (simp add: map_idI)
  qed
  have us: "used s' = insert (unat b) (used s)" using s' fm(3) by simp
  have "fs_ok s'"
  proof (rule fs_ok_add_slot [OF ok v, where b = b and pos = "Suc (Suc i)" and v' = v])
    show "healthy s'" using fs_okD(1) [OF ok] s' by simp
    show "slot s' v k = ((slot s v)(Suc (Suc i) := b)) k" for k using fmap' by (intro slot_upd) auto
    show "slot s' w k = slot s w k" if "w \<in> set (sfs_vnodes s)" "sv_ino w \<noteq> ino" for w k
      by (rule others_keep(1) [OF ok that(1) keep oth [OF that]])
  qed (use s' fm b us vs vin fs_ok_dinode [OF ok vin(1)] in \<open>auto\<close>)
  moreover have "fmap s' (sv_i w) = fmap s (sv_i w)" if "j \<noteq> ino" "vn s j = Some w" for j w
    using others_keep(2) [OF ok _ keep oth] vn_in [OF that(2)] that(1) by blast
  moreover have "vn s' = vn s" using s' by simp
  ultimately show ?thesis
    unfolding mapped_def using s' b v fmap' us keep hole bib ib by (auto simp: meta_eq_def)
qed

lemma upd_inode_vnodes:
  assumes "fs_ok s" "vn s ino = Some v" "sfs_vnodes t = sfs_vnodes s"
  shows "sfs_vnodes (upd_inode ino f t) =
    map (\<lambda>w. if sv_ino w = ino then v\<lparr>sv_i := f (sv_i v), sv_dirty := True\<rparr> else w) (sfs_vnodes s)"
proof -
  have "w = v" if "w \<in> set (sfs_vnodes s)" "sv_ino w = ino" for w
    using vn_unique [OF assms(1) that(1)] assms(2) that(2) by simp
  then show ?thesis unfolding upd_inode_def updv_def using assms(3) by auto
qed

lemma upd_inode_curas [simp]: "curas (upd_inode ino f s) = curas s"
  by (simp add: upd_inode_def updv_def)

lemma fmap_eqI: "blk s' = blk s \<Longrightarrow> fmap s' di = fmap s di"
  by (simp add: fmap_def fun_eq_iff)

lemma enter_direct:
  assumes ok: "fs_ok s" and v: "vn s ino = Some v"
    and i: "i < 15" and hole: "fmap s (sv_i v) i = 0"
    and b: "b \<noteq> 0" "b < sb_nblocks (sfs_sb s)" "unat b \<notin> used s"
    and fm: "bm_ok fm" "bm_nbits fm = bm_nbits (sfs_freemap s)" "bm_used fm = insert (unat b) (used s)"
    and s': "s' = upd_inode ino (\<lambda>d. d\<lparr>sfi_direct := (sfi_direct d)[i := b]\<rparr>) (took b fm s)"
  shows "mapped s v ino i b s'"
proof -
  define f where "f = (\<lambda>d :: sfs_dinode. d\<lparr>sfi_direct := (sfi_direct d)[i := b]\<rparr>)"
  define v' where "v' = v\<lparr>sv_i := f (sv_i v), sv_dirty := True\<rparr>"
  have vin: "v \<in> set (sfs_vnodes s)" "sv_ino v = ino" using vn_in [OF v] by auto
  have dok: "dinode_ok (sv_i v)" by (rule fs_ok_dinode [OF ok vin(1)])
  have blk': "blk s' = (blk s)(b := replicate 512 0)" using s' by simp
  have keep: "blk s' c = blk s c" if "unat c \<in> used s" "c \<noteq> 0" for c using that b(3) blk' by auto
  have fk: "fmap s' (sv_i w) = fmap s (sv_i w)" "slot s' w k = slot s w k" if "w \<in> set (sfs_vnodes s)" for w k
    using others_keep [OF ok that keep, of 0] by auto
  have fmap': "fmap s' (sv_i v') = (fmap s (sv_i v))(i := b)"
  proof
    fix j
    have "fmap s' (sv_i v') j = (if j < 15 then (sfi_direct (sv_i v))[i := b] ! j else fmap s' (sv_i v) j)"
      by (simp add: v'_def f_def fmap_def)
    moreover have "fmap s (sv_i v) j = sfi_direct (sv_i v) ! j" if "j < 15" using that by (simp add: fmap_def)
    ultimately show "fmap s' (sv_i v') j = ((fmap s (sv_i v))(i := b)) j"
      using i dok fk(1) [OF vin(1)] by (auto simp: nth_list_update dinode_ok_def)
  qed
  have us: "used s' = insert (unat b) (used s)" using s' fm(3) by simp
  have vs: "sfs_vnodes s' = map (\<lambda>w. if sv_ino w = ino then v' else w) (sfs_vnodes s)"
    unfolding s' v'_def f_def by (rule upd_inode_vnodes [OF ok v]) simp
  have vn': "vn s' j = (if j = ino then Some v' else vn s j)" for j
    using v by (auto simp: s' vn_upd_inode v'_def f_def)
  have "fs_ok s'"
  proof (rule fs_ok_add_slot [OF ok v, where b = b and pos = "Suc (Suc i)" and v' = v'])
    show "healthy s'" using fs_okD(1) [OF ok] s' by simp
    show "slot s' v' k = ((slot s v)(Suc (Suc i) := b)) k" for k
      using fmap' vin by (intro slot_upd) (auto simp: v'_def f_def)
    show "dinode_ok (sv_i v')" using dok by (simp add: dinode_ok_def v'_def f_def)
    show "sv_ino v' = ino" using vin by (simp add: v'_def)
    show "slot s' w k = slot s w k" if "w \<in> set (sfs_vnodes s)" "sv_ino w \<noteq> ino" for w k
      by (rule fk(2) [OF that(1)])
  qed (use s' fm b us vs in \<open>auto\<close>)
  moreover have "fmap s' (sv_i w) = fmap s (sv_i w)" if "vn s j = Some w" for j w
    using fk(1) vn_in [OF that] by blast
  moreover have "meta_eq (sv_i v) (sv_i v')" "sfi_indirect (sv_i v') = sfi_indirect (sv_i v)"
      "vn_refcount v' = vn_refcount v"
    by (simp_all add: meta_eq_def v'_def f_def)
  moreover have "blk s' c = blk s c" if "unat c \<in> used s" for c using that b(3) blk' by auto
  ultimately show ?thesis
    unfolding mapped_def using s' b fmap' us hole blk' vn' by auto
qed

text \<open>
  A failed allocation keeps every file as it was; at most an empty indirect block has been added.
\<close>

definition files_kept :: "sfs_fs \<Rightarrow> sfs_vnode \<Rightarrow> u32 \<Rightarrow> sfs_fs \<Rightarrow> bool" where
  "files_kept s v ino s' \<longleftrightarrow> fs_ok s' \<and> sfs_sb s' = sfs_sb s \<and> biglock s' = biglock s \<and> curas s' = curas s \<and>
     (\<exists>v'. vn s' ino = Some v' \<and> fmap s' (sv_i v') = fmap s (sv_i v) \<and> meta_eq (sv_i v) (sv_i v') \<and>
        vn_refcount v' = vn_refcount v \<and>
        (sfi_indirect (sv_i v') = sfi_indirect (sv_i v) \<or> unat (sfi_indirect (sv_i v')) \<notin> used s)) \<and>
     (\<forall>j. j \<noteq> ino \<longrightarrow> vn s' j = vn s j \<and> (\<forall>w. vn s j = Some w \<longrightarrow> fmap s' (sv_i w) = fmap s (sv_i w))) \<and>
     used s \<subseteq> used s' \<and> (\<forall>c. unat c \<in> used s \<longrightarrow> blk s' c = blk s c)"

lemma de32_zero: "de32 (replicate 4 0) = 0"
  by (simp add: de32_def)

lemma dec_words_zero: "dec_words 128 (replicate 512 0) = replicate 128 0"
proof (rule nth_equalityI)
  fix i assume "i < length (dec_words 128 (replicate 512 0))"
  then have "i < 128" by simp
  then have "take 4 (drop (4 * i) (replicate 512 (0 :: byte))) = replicate 4 0" by simp
  with \<open>i < 128\<close> show "dec_words 128 (replicate 512 0) ! i = replicate 128 0 ! i"
    unfolding dec_words_def by (simp add: de32_zero del: take_replicate drop_replicate)
qed simp

lemma enter_new_indirect:
  assumes ok: "fs_ok s" and v: "vn s ino = Some v" and no: "sfi_indirect (sv_i v) = 0"
    and b: "b \<noteq> 0" "b < sb_nblocks (sfs_sb s)" "unat b \<notin> used s"
    and fm: "bm_ok fm" "bm_nbits fm = bm_nbits (sfs_freemap s)" "bm_used fm = insert (unat b) (used s)"
    and s': "s' = upd_inode ino (\<lambda>d. d\<lparr>sfi_indirect := b\<rparr>) (took b fm s)"
  shows "files_kept s v ino s'" "blk s' b = replicate 512 0"
    "vn s' ino = Some (v\<lparr>sv_i := (sv_i v)\<lparr>sfi_indirect := b\<rparr>, sv_dirty := True\<rparr>)"
proof -
  define v' where "v' = v\<lparr>sv_i := (sv_i v)\<lparr>sfi_indirect := b\<rparr>, sv_dirty := True\<rparr>"
  have vin: "v \<in> set (sfs_vnodes s)" "sv_ino v = ino" using vn_in [OF v] by auto
  have dok: "dinode_ok (sv_i v)" by (rule fs_ok_dinode [OF ok vin(1)])
  have blk': "blk s' = (blk s)(b := replicate 512 0)" using s' by simp
  then show "blk s' b = replicate 512 0" by simp
  have keep: "blk s' c = blk s c" if "unat c \<in> used s" "c \<noteq> 0" for c using that b(3) blk' by auto
  have fk: "fmap s' (sv_i w) = fmap s (sv_i w)" "slot s' w k = slot s w k" if "w \<in> set (sfs_vnodes s)" for w k
    using others_keep [OF ok that keep, of 0] by auto
  have fmap': "fmap s' (sv_i v') = fmap s (sv_i v)"
    using b(1) no blk' dec_words_zero by (auto simp: fmap_def v'_def fun_eq_iff)
  have us: "used s' = insert (unat b) (used s)" using s' fm(3) by simp
  have vs: "sfs_vnodes s' = map (\<lambda>w. if sv_ino w = ino then v' else w) (sfs_vnodes s)"
    unfolding s' v'_def by (rule upd_inode_vnodes [OF ok v]) simp
  have vn': "vn s' j = (if j = ino then Some v' else vn s j)" for j
    using v by (auto simp: s' vn_upd_inode v'_def)
  then show "vn s' ino = Some (v\<lparr>sv_i := (sv_i v)\<lparr>sfi_indirect := b\<rparr>, sv_dirty := True\<rparr>)" by (simp add: v'_def)
  have "fs_ok s'"
  proof (rule fs_ok_add_slot [OF ok v, where b = b and pos = 1 and v' = v'])
    show "healthy s'" using fs_okD(1) [OF ok] s' by simp
    show "slot s' v' k = ((slot s v)(1 := b)) k" for k
      using fmap' by (cases k rule: slot_cases) (auto simp: v'_def)
    show "dinode_ok (sv_i v')" using dok by (simp add: dinode_ok_def v'_def)
    show "sv_ino v' = ino" using vin by (simp add: v'_def)
    show "slot s' w k = slot s w k" if "w \<in> set (sfs_vnodes s)" "sv_ino w \<noteq> ino" for w k
      by (rule fk(2) [OF that(1)])
  qed (use s' fm b us vs in \<open>auto\<close>)
  moreover have "fmap s' (sv_i w) = fmap s (sv_i w)" if "vn s j = Some w" for j w
    using fk(1) vn_in [OF that] by blast
  moreover have "meta_eq (sv_i v) (sv_i v')" "sfi_indirect (sv_i v') = b" "vn_refcount v' = vn_refcount v"
    by (simp_all add: meta_eq_def v'_def)
  moreover have "blk s' c = blk s c" if "unat c \<in> used s" for c using that b(3) blk' by auto
  ultimately show "files_kept s v ino s'"
    unfolding files_kept_def using s' b fmap' us vn' by auto
qed

text \<open>Entering a block in the indirect block of a file that has one.\<close>

lemma bmap_indirect_alloc:
  assumes ok: "fs_ok s" and v: "vn s ino = Some v" and ib: "sfi_indirect (sv_i v) \<noteq> 0"
    and i: "15 \<le> i" "i < 143" and t: "t = s \<or> t = touch (blk s (sfi_indirect (sv_i v))) s"
  shows "(\<exists>b s'. bmap_indirect ino (sfi_indirect (sv_i v)) (i - 15) True
        (dec_words 128 (blk s (sfi_indirect (sv_i v)))) t = Ok b s' \<and> mapped s v ino i b s') \<or>
     (\<exists>s'. bmap_indirect ino (sfi_indirect (sv_i v)) (i - 15) True
        (dec_words 128 (blk s (sfi_indirect (sv_i v)))) t = Err ENOSPC s' \<and> s' = t \<and> fs_full t)"
proof -
  let ?ib = "sfi_indirect (sv_i v)" and ?ws = "dec_words 128 (blk s (sfi_indirect (sv_i v)))"
  have vin: "v \<in> set (sfs_vnodes s)" "sv_ino v = ino" using vn_in [OF v] by auto
  have h: "healthy s" by (rule fs_okD(1) [OF ok])
  have tok: "fs_ok t" using t ok fs_ok_touch [OF ok] h by auto
  have tv: "vn t ino = Some v" "blk t = blk s" "sfs_sb t = sfs_sb s" "used t = used s" "sfs_vnodes t = sfs_vnodes s"
    using t v by auto
  have ft: "fmap t (sv_i v) = fmap s (sv_i v)" by (rule fmap_eqI [OF tv(2)])
  have cell: "?ws ! (i - 15) = fmap s (sv_i v) i" using ib i by (simp add: fmap_def)
  have len: "i - 15 < length ?ws" using i by simp
  show ?thesis
  proof (cases "fmap s (sv_i v) i = 0")
    case False
    then have "bmap_indirect ino ?ib (i - 15) True ?ws t = bmap_handback (slot t v (Suc (Suc i))) t"
      using cell len ft by (simp add: bmap_indirect_def)
    also have "\<dots> = Ok (fmap s (sv_i v) i) t" using fs_ok_handback [OF tok, of v "Suc (Suc i)"] vin(1) tv(5) ft by simp
    finally have "bmap_indirect ino ?ib (i - 15) True ?ws t = Ok (fmap s (sv_i v) i) t" .
    moreover have "mapped s v ino i (fmap s (sv_i v) i) t"
      using t False mapped_same [OF ok v False, of "[]" t] mapped_same [OF ok v False, of "blk s ?ib" t] h
      by (metis length_0_conv length_blk zero_neq_numeral)
    ultimately show ?thesis by auto
  next
    case True
    consider (full) "sfs_balloc t = Err ENOSPC t" "fs_full t"
      | (got) b fm where "sfs_balloc t = Ok b (took b fm t)" "b \<noteq> 0" "b < sb_nblocks (sfs_sb t)"
          "unat b \<notin> used t" "bm_ok fm" "bm_nbits fm = bm_nbits (sfs_freemap t)" "bm_used fm = insert (unat b) (used t)"
      using balloc_took [OF tok] by blast
    then show ?thesis
    proof cases
      case full
      then show ?thesis using True cell len by (simp add: bmap_indirect_def)
    next
      case got
      let ?s' = "setblk ?ib (enc_words (?ws[i - 15 := b])) (took b fm t)"
      have m: "mapped t v ino i b ?s'"
        by (rule enter_indirect [OF tok tv(1) ib i _ got(2-7)]) (use True ft tv(2) in simp_all)
      have "?ib < sb_nblocks (sfs_sb s)" using fs_ok_slot(1) [OF ok vin(1), of 1] ib by simp
      then have "?ib < lh_blocks (sfs_device (took b fm t))" using fs_okD(3) [OF tok] tv(3) by simp
      then have w: "sfs_writeblock ?ib (enc_words (?ws[i - 15 := b])) (took b fm t) = Ok () ?s'"
        using fs_okD(1) [OF tok] by (intro writeblock_healthy) simp_all
      have "bmap_handback b ?s' = Ok b ?s'"
        using fs_okD(1,4) [OF tok] got by (intro handback_used) simp_all
      then have "bmap_indirect ino ?ib (i - 15) True ?ws t = Ok b ?s'"
        using True cell len got(1) w by (simp add: bmap_indirect_def)
      moreover have "mapped s v ino i b ?s'"
        using m tv ft t fmap_eqI [OF tv(2)] unfolding mapped_def by auto
      ultimately show ?thesis by blast
    qed
  qed
qed

lemma files_kept_refl:
  assumes "fs_ok s" "vn s ino = Some v" "t = s \<or> (\<exists>x. length x = 512 \<and> t = touch x s)"
  shows "files_kept s v ino t"
proof -
  have "fs_ok t" using assms(1,3) fs_ok_touch by auto
  moreover have "vn t = vn s" "blk t = blk s" "sfs_sb t = sfs_sb s" "used t = used s" "biglock t = biglock s"
    "curas t = curas s" using assms(3) by auto
  moreover have "fmap t = fmap s" by (rule fmap_blk [OF \<open>blk t = blk s\<close>])
  ultimately show ?thesis using assms(2) by (auto simp: files_kept_def meta_eq_def)
qed

lemma mapped_trans:
  assumes k: "files_kept s v ino t" and v': "vn t ino = Some v'" "sfi_indirect (sv_i v) = 0"
      "unat (sfi_indirect (sv_i v')) \<notin> used s"
    and m: "mapped t v' ino i b s'" and hole: "fmap s (sv_i v) i = 0"
  shows "mapped s v ino i b s'"
proof -
  have f: "fmap t (sv_i v') = fmap s (sv_i v)" "meta_eq (sv_i v) (sv_i v')" "used s \<subseteq> used t"
    "vn_refcount v' = vn_refcount v"
    using k v' by (auto simp: files_kept_def)
  have b: "unat b \<notin> used t" "blk s' b = replicate 512 0" using m hole f(1) by (auto simp: mapped_def)
  obtain v'' where v'': "vn s' ino = Some v''" "fmap s' (sv_i v'') = (fmap t (sv_i v'))(i := b)"
    "meta_eq (sv_i v') (sv_i v'')"
    "sfi_indirect (sv_i v'') = sfi_indirect (sv_i v') \<or> unat (sfi_indirect (sv_i v'')) \<notin> used t" "vn_refcount v'' = vn_refcount v'"
    using m by (auto simp: mapped_def)
  have "unat (sfi_indirect (sv_i v'')) \<notin> used s" using v''(4) v'(3) f(3) by auto
  moreover have "meta_eq (sv_i v) (sv_i v'')" using f(2) v''(3) by (simp add: meta_eq_def)
  moreover have "vn s' j = vn s j \<and> (\<forall>w. vn s j = Some w \<longrightarrow> fmap s' (sv_i w) = fmap s (sv_i w))" if "j \<noteq> ino" for j
    using k m that by (auto simp: files_kept_def mapped_def)
  moreover have "blk s' c = blk s c" if "unat c \<in> used s" for c
  proof -
    have "c \<noteq> sfi_indirect (sv_i v')" using that v'(3) by auto
    moreover have "unat c \<in> used t" using that f(3) by auto
    ultimately have "blk s' c = blk t c" using m unfolding mapped_def by blast
    then show ?thesis using k that by (auto simp: files_kept_def)
  qed
  moreover have "b \<noteq> 0" "fs_ok s'" "sfs_sb s' = sfs_sb s" "biglock s' = biglock s" "curas s' = curas s" "used s \<subseteq> used s'"
    using m k by (auto simp: mapped_def files_kept_def)
  moreover have "unat b \<notin> used s" using b f(3) by auto
  ultimately show ?thesis unfolding mapped_def using v''(1,2,5) f(1,4) hole b by auto
qed

text \<open>The cases of \<^verbatim>\<open>sfs_bmap\<close> with allocation, one lemma for each.\<close>

lemma sfs_bmap_alloc_direct:
  assumes ok: "fs_ok s" and v: "vn s ino = Some v" and i: "unat fb < 15"
  shows "(\<exists>b s'. sfs_bmap ino fb True s = Ok b s' \<and> mapped s v ino (unat fb) b s') \<or>
     (\<exists>s'. sfs_bmap ino fb True s = Err ENOSPC s' \<and> files_kept s v ino s' \<and> fs_full s')"
proof -
  let ?i = "unat fb"
  have vin: "v \<in> set (sfs_vnodes s)" "sv_ino v = ino" using vn_in [OF v] by auto
  have hold: "vfs_biglock_do_i_hold s" using fs_okD(1) [OF ok]
    by (simp add: healthy_def fs_dev_ok_def vfs_biglock_do_i_hold_def)
  have len: "length (sfi_direct (sv_i v)) = 15" using fs_ok_dinode [OF ok vin(1)] by (simp add: dinode_ok_def)
  have cell: "sfi_direct (sv_i v) ! ?i = fmap s (sv_i v) ?i" using i by (simp add: fmap_def)
  note defs = sfs_bmap_def getv_vn [OF v] sfs_consts
  consider (there) "fmap s (sv_i v) ?i \<noteq> 0" | (full) "fmap s (sv_i v) ?i = 0" "sfs_balloc s = Err ENOSPC s" "fs_full s"
      | (got) b fm where "fmap s (sv_i v) ?i = 0" "sfs_balloc s = Ok b (took b fm s)" "b \<noteq> 0" "b < sb_nblocks (sfs_sb s)"
          "unat b \<notin> used s" "bm_ok fm" "bm_nbits fm = bm_nbits (sfs_freemap s)" "bm_used fm = insert (unat b) (used s)"
      using balloc_took [OF ok] by blast
  then show ?thesis
  proof cases
    case there
    then have "sfs_bmap ino fb True s = Ok (fmap s (sv_i v) ?i) s"
      using hold i len cell fs_ok_handback [OF ok vin(1), of "Suc (Suc ?i)"] by (simp add: defs)
    then show ?thesis using mapped_same [OF ok v there, of "[]" s] by auto
  next
    case full
    then have "sfs_bmap ino fb True s = Err ENOSPC s" using hold i len cell by (simp add: defs)
    then show ?thesis using files_kept_refl [OF ok v, of s] full by auto
  next
    case got
    let ?s' = "upd_inode ino (\<lambda>d. d\<lparr>sfi_direct := (sfi_direct d)[?i := b]\<rparr>) (took b fm s)"
    have m: "mapped s v ino ?i b ?s'" by (rule enter_direct [OF ok v i got(1,3-8)]) simp
    have "bmap_handback b ?s' = Ok b ?s'" using fs_okD(1,4) [OF ok] got by (intro handback_used) simp_all
    then have "sfs_bmap ino fb True s = Ok b ?s'" using hold i len cell got(1,2) by (simp add: defs Let_def)
    then show ?thesis using m by blast
  qed
qed

lemma sfs_bmap_alloc_indirect:
  assumes ok: "fs_ok s" and v: "vn s ino = Some v" and i: "15 \<le> unat fb" "unat fb < 143"
  shows "(\<exists>b s'. sfs_bmap ino fb True s = Ok b s' \<and> mapped s v ino (unat fb) b s') \<or>
     (\<exists>s'. sfs_bmap ino fb True s = Err ENOSPC s' \<and> files_kept s v ino s' \<and> fs_full s')"
proof -
  let ?i = "unat fb" and ?ib = "sfi_indirect (sv_i v)"
  have vin: "v \<in> set (sfs_vnodes s)" "sv_ino v = ino" using vn_in [OF v] by auto
  have hold: "vfs_biglock_do_i_hold s" using fs_okD(1) [OF ok]
    by (simp add: healthy_def fs_dev_ok_def vfs_biglock_do_i_hold_def)
  note defs = sfs_bmap_def getv_vn [OF v] sfs_consts Let_def index_split [of fb ?i, simplified]
  consider (has) "?ib \<noteq> 0" | (full) "?ib = 0" "sfs_balloc s = Err ENOSPC s" "fs_full s"
      | (got) b fm where "?ib = 0" "sfs_balloc s = Ok b (took b fm s)" "b \<noteq> 0" "b < sb_nblocks (sfs_sb s)"
          "unat b \<notin> used s" "bm_ok fm" "bm_nbits fm = bm_nbits (sfs_freemap s)" "bm_used fm = insert (unat b) (used s)"
      using balloc_took [OF ok] by blast
  then show ?thesis
  proof cases
    case has
    let ?t = "touch (blk s ?ib) s"
    have "?ib < lh_blocks (sfs_device s)" using fs_ok_slot(1) [OF ok vin(1), of 1] has fs_okD(3) [OF ok] by simp
    then have "sfs_readblock ?ib s = Ok (blk s ?ib) ?t" using fs_okD(1) [OF ok] by (intro readblock_healthy)
    then have "sfs_bmap ino fb True s = bmap_indirect ino ?ib (?i - 15) True (dec_words 128 (blk s ?ib)) ?t"
      using hold i has by (simp add: defs)
    moreover have "files_kept s v ino ?t" using files_kept_refl [OF ok v] length_blk [OF fs_okD(1) [OF ok]] by blast
    ultimately show ?thesis using bmap_indirect_alloc [OF ok v has i, of ?t] by auto
  next
    case full
    then have "sfs_bmap ino fb True s = Err ENOSPC s" using hold i by (simp add: defs)
    then show ?thesis using files_kept_refl [OF ok v, of s] full by auto
  next
    case got
    let ?t = "upd_inode ino (\<lambda>d. d\<lparr>sfi_indirect := b\<rparr>) (took b fm s)"
    let ?v = "v\<lparr>sv_i := (sv_i v)\<lparr>sfi_indirect := b\<rparr>, sv_dirty := True\<rparr>"
    note n = enter_new_indirect [OF ok v got(1,3-8) refl]
    have tok: "fs_ok ?t" using n(1) by (simp add: files_kept_def)
    have hole: "fmap s (sv_i v) ?i = 0" using got(1) i by (simp add: fmap_def)
    have "sfs_bmap ino fb True s = bmap_indirect ino b (?i - 15) True (dec_words 128 (blk ?t b)) ?t"
      using hold i got(1,2) n(2) dec_words_zero by (simp add: defs)
    moreover have "mapped s v ino ?i c s'" if "mapped ?t ?v ino ?i c s'" for c s'
      by (rule mapped_trans [OF n(1) n(3) got(1) _ that hole]) (use got in simp)
    ultimately show ?thesis using bmap_indirect_alloc [OF tok n(3) _ i, of ?t] got(3) n(1) by auto
  qed
qed

lemma sfs_bmap_alloc_cases:
  assumes "fs_ok s" "vn s ino = Some v"
  shows "if unat fb < 143 then
      (\<exists>b s'. sfs_bmap ino fb True s = Ok b s' \<and> mapped s v ino (unat fb) b s') \<or>
      (\<exists>s'. sfs_bmap ino fb True s = Err ENOSPC s' \<and> files_kept s v ino s' \<and> fs_full s')
    else sfs_bmap ino fb True s = Err EFBIG s"
proof -
  have hold: "vfs_biglock_do_i_hold s" using fs_okD(1) [OF assms(1)]
    by (simp add: healthy_def fs_dev_ok_def vfs_biglock_do_i_hold_def)
  have "1 \<le> (unat fb - 15) div 128" if "143 \<le> unat fb" using that by linarith
  then have "sfs_bmap ino fb True s = Err EFBIG s" if "143 \<le> unat fb"
    using that hold by (simp add: sfs_bmap_def getv_vn [OF assms(2)] sfs_consts Let_def)
  then show ?thesis
    using sfs_bmap_alloc_direct [OF assms, of fb] sfs_bmap_alloc_indirect [OF assms, of fb]
    by (cases "unat fb < 15"; cases "unat fb < 143") simp_all
qed

text \<open>
  \<^bold>\<open>C18.\<close> On a volume in order, \<^verbatim>\<open>sfs_bmap\<close> with allocation maps the file block to the disk block
  it already has, or enters a fresh, zeroed block for it, changing the map of the file in that
  place only, the maps and contents of all other files not at all, and leaving the volume in
  order (no block shared, every mapped block marked used). When no block is left it reports
  \<^verbatim>\<open>ENOSPC\<close> and every file is as before; file blocks past the indirect block give \<^verbatim>\<open>EFBIG\<close>.
\<close>

theorem sfs_bmap_allocates:
  assumes "fs_ok s" "vn s ino = Some v"
  shows "if unat fb < SFS_NDIRECT + SFS_DBPERIDB then
      (\<exists>b s'. sfs_bmap ino fb True s = Ok b s' \<and> mapped s v ino (unat fb) b s') \<or>
      (\<exists>s'. sfs_bmap ino fb True s = Err ENOSPC s' \<and> files_kept s v ino s' \<and> fs_full s')
    else sfs_bmap ino fb True s = Err EFBIG s"
  using sfs_bmap_alloc_cases [OF assms, of fb] by (simp add: sfs_consts)

definition empty_inode :: sfs_dinode where
  "empty_inode = \<lparr>sfi_size = 0, sfi_type = SFS_TYPE_FILE, sfi_linkcount = 1, sfi_direct = replicate 15 0,
     sfi_indirect = 0, sfi_waste = replicate 440 0\<rparr>"

definition demo_vnode :: sfs_vnode where
  "demo_vnode = \<lparr>vn_refcount = 1, sv_i = empty_inode, sv_ino = 2, sv_dirty = False\<rparr>"

definition demo_vol :: sfs_fs where
  "demo_vol = (demo_fs [])\<lparr>sfs_vnodes := [demo_vnode]\<rparr>"

lemma fmap_empty: "fmap s empty_inode i = 0"
  by (simp add: fmap_def empty_inode_def)

lemma demo_vol_vn: "vn demo_vol 2 = Some demo_vnode"
  by (simp add: vn_def demo_vol_def demo_vnode_def)

lemma demo_slot: "slot s demo_vnode k = (if k = 0 then 2 else 0)"
  by (cases k rule: slot_cases) (simp_all add: demo_vnode_def fmap_empty, simp add: empty_inode_def)

lemma demo_used: "used demo_vol = {0, 1, 2}"
proof -
  have "bit (7 :: u8) n \<longleftrightarrow> n < 3" if "n < 8" for n
  proof -
    have "n = 0 \<or> n = 1 \<or> n = 2 \<or> n = 3 \<or> n = 4 \<or> n = 5 \<or> n = 6 \<or> n = 7" using that by linarith
    then show ?thesis by (elim disjE) (simp_all add: bit_numeral_rec)
  qed
  then show ?thesis by (auto simp: used_def demo_vol_def demo_fs_def bm_used_def bm_bit_def)
qed

lemma demo_vol_ok: "fs_ok demo_vol"
proof -
  have "healthy demo_vol" using demo_fs_ok(1) [of "[]"] by (simp add: demo_vol_def healthy_def fs_dev_ok_def demo_fs_ok(3))
  moreover have "bm_ok (sfs_freemap demo_vol)" by (simp add: demo_vol_def demo_fs_def bm_ok_def not_less [symmetric])
  moreover have "dinode_ok (sv_i demo_vnode)" by (simp add: demo_vnode_def empty_inode_def dinode_ok_def)
  ultimately show ?thesis
    unfolding fs_ok_def demo_used by (auto simp: demo_vol_def demo_fs_def demo_slot)
qed

theorem sfs_bmap_allocates_witness:
  "sfs_bmap 2 150 True demo_vol = Err EFBIG demo_vol \<and>
   ((\<exists>b s'. sfs_bmap 2 20 True demo_vol = Ok b s' \<and> mapped demo_vol demo_vnode 2 20 b s') \<or>
    (\<exists>s'. sfs_bmap 2 20 True demo_vol = Err ENOSPC s' \<and> fs_full s'))"
proof -
  have "unat (20 :: u32) < SFS_NDIRECT + SFS_DBPERIDB" "\<not> unat (150 :: u32) < SFS_NDIRECT + SFS_DBPERIDB"
    by (simp_all add: sfs_consts)
  then show ?thesis
    using sfs_bmap_allocates [OF demo_vol_ok demo_vol_vn, of 20] sfs_bmap_allocates [OF demo_vol_ok demo_vol_vn, of 150]
    by auto
qed

subsection \<open>Dropping blocks from a file\<close>

text \<open>The blocks in the slots \<open>D\<close> of a file.\<close>

definition owned :: "sfs_fs \<Rightarrow> sfs_vnode \<Rightarrow> nat set \<Rightarrow> nat set" where
  "owned s v D = {unat (slot s v k) | k. k \<in> D \<and> slot s v k \<noteq> 0}"

lemma owned_cong: "(\<And>k. slot s v k \<noteq> 0 \<Longrightarrow> k \<in> D \<longleftrightarrow> k \<in> E) \<Longrightarrow> owned s v D = owned s v E"
  unfolding owned_def by blast

lemma fs_ok_drop_slots:
  assumes ok: "fs_ok s" and v: "vn s ino = Some v"
    and h: "healthy s'" "sfs_sb s' = sfs_sb s" "lh_blocks (sfs_device s') = lh_blocks (sfs_device s)"
    and fm: "bm_ok (sfs_freemap s')" "bm_nbits (sfs_freemap s') = bm_nbits (sfs_freemap s)"
      "used s' = used s - owned s v D"
    and vs: "sfs_vnodes s' = map (\<lambda>w. if sv_ino w = ino then v' else w) (sfs_vnodes s)"
    and v': "sv_ino v' = ino" "dinode_ok (sv_i v')"
    and slots: "\<And>k. slot s' v' k = (if k \<in> D then 0 else slot s v k)"
    and others: "\<And>w k. w \<in> set (sfs_vnodes s) \<Longrightarrow> sv_ino w \<noteq> ino \<Longrightarrow> slot s' w k = slot s w k"
  shows "fs_ok s'"
proof -
  have vin: "v \<in> set (sfs_vnodes s)" "sv_ino v = ino" using vn_in [OF v] by auto
  define orig where "orig w = (if w = v' then v else w)" for w
  have og: "orig w \<in> set (sfs_vnodes s) \<and> sv_ino (orig w) = sv_ino w \<and> (w = v' \<or> sv_ino w \<noteq> ino)"
    if "w \<in> set (sfs_vnodes s')" for w
    using that vs vin v'(1) by (auto simp: orig_def)
  have sg: "slot s' w k = (if w = v' \<and> k \<in> D then 0 else slot s (orig w) k)" if "w \<in> set (sfs_vnodes s')" for w k
    using og [OF that] slots others by (auto simp: orig_def)
  have "dinode_ok (sv_i w)" if "w \<in> set (sfs_vnodes s')" for w
    using og [OF that] v'(2) fs_ok_dinode [OF ok] by (cases "w = v'") (auto simp: orig_def)
  moreover have "slot s' w k < sb_nblocks (sfs_sb s) \<and> unat (slot s' w k) \<in> used s'"
    if w: "w \<in> set (sfs_vnodes s')" and nz: "slot s' w k \<noteq> 0" for w k
  proof -
    have e: "slot s' w k = slot s (orig w) k" and nd: "\<not> (w = v' \<and> k \<in> D)" using sg [OF w, of k] nz by presburger+
    have "unat (slot s (orig w) k) \<notin> owned s v D"
    proof
      assume "unat (slot s (orig w) k) \<in> owned s v D"
      then obtain l where l: "l \<in> D" "slot s (orig w) k = slot s v l"
        by (auto simp: owned_def word_unat_eq_iff [symmetric])
      then have "sv_ino (orig w) = sv_ino v" "k = l"
        using fs_ok_slot_inj [OF ok _ vin(1), of "orig w" k l] og [OF w] nz e by auto
      then show False using nd l(1) og [OF w] vin(2) by auto
    qed
    then show ?thesis using fs_ok_slot [OF ok, of "orig w" k] og [OF w] nz e fm(3) by auto
  qed
  moreover have "sv_ino w = sv_ino u \<and> k = l"
    if "w \<in> set (sfs_vnodes s')" "u \<in> set (sfs_vnodes s')" "slot s' w k = slot s' u l" "slot s' w k \<noteq> 0" for w u k l
  proof -
    have "slot s' w k = slot s (orig w) k" "slot s' u l = slot s (orig u) l"
      using sg [OF that(1), of k] sg [OF that(2), of l] that(3,4) by presburger+
    then show ?thesis using fs_ok_slot_inj [OF ok, of "orig w" "orig u" k l] og [OF that(1)] og [OF that(2)] that(3,4) by auto
  qed
  moreover have "map sv_ino (sfs_vnodes s') = map sv_ino (sfs_vnodes s)" using vs v'(1) by auto
  moreover have "x \<notin> owned s v D" if "x = 0 \<or> unat (sb_nblocks (sfs_sb s)) \<le> x" for x
    using that fs_ok_slot(1) [OF ok vin(1)] by (auto simp: owned_def u32_less_iff unat_eq_0 not_le [symmetric])
  then have "{unat (sb_nblocks (sfs_sb s))..<unat (bm_nbits (sfs_freemap s))} \<subseteq> used s'" "0 \<in> used s'"
    using fs_okD(5,7) [OF ok] fm(3) by auto
  ultimately show ?thesis
    unfolding fs_ok_def using h fm(1,2) fs_okD(3,4,6) [OF ok] by (intro conjI ballI) (simp_all, metis)
qed

lemma bfree_ok:
  assumes "bm_ok (sfs_freemap s)" "b < bm_nbits (sfs_freemap s)" "unat b \<in> used s"
  obtains fm where "sfs_bfree b s = Ok () (s\<lparr>sfs_freemap := fm, sfs_freemapdirty := True\<rparr>)" "bm_ok fm"
    "bm_nbits fm = bm_nbits (sfs_freemap s)" "bm_used fm = used s - {unat b}"
  using kbm.unmark_law [OF assms(1,2)] assms(3) by (auto simp: used_def sfs_bfree_def)

text \<open>The part of the volume that freeing blocks leaves alone.\<close>

definition same_disk :: "sfs_fs \<Rightarrow> sfs_fs \<Rightarrow> bool" where
  "same_disk s s' \<longleftrightarrow> sfs_sb s' = sfs_sb s \<and> sfs_device s' = sfs_device s \<and> biglock s' = biglock s \<and>
     curas s' = curas s \<and> (bm_ok (sfs_freemap s) \<longrightarrow> bm_ok (sfs_freemap s')) \<and>
     bm_nbits (sfs_freemap s') = bm_nbits (sfs_freemap s)"

lemma same_disk_refl: "same_disk s s" and same_disk_trans: "same_disk s t \<Longrightarrow> same_disk t u \<Longrightarrow> same_disk s u"
  by (auto simp: same_disk_def)

lemma same_disk_blk: "same_disk s s' \<Longrightarrow> blk s' = blk s" "same_disk s s' \<Longrightarrow> healthy s \<Longrightarrow> healthy s'"
  by (auto simp: same_disk_def blk_def healthy_def fs_dev_ok_def fun_eq_iff)

definition zap :: "(nat \<Rightarrow> bool) \<Rightarrow> nat list \<Rightarrow> u32 list \<Rightarrow> u32 list" where
  "zap P is bs = map (\<lambda>i. if i \<in> set is \<and> P i then 0 else bs ! i) [0..<length bs]"

definition freed :: "(nat \<Rightarrow> bool) \<Rightarrow> nat list \<Rightarrow> u32 list \<Rightarrow> nat set" where
  "freed P is bs = {unat (bs ! i) | i. i \<in> set is \<and> P i \<and> bs ! i \<noteq> 0}"

text \<open>The entries \<open>is\<close> of the array are marked used and do not repeat a block.\<close>

definition entries_ok :: "nat list \<Rightarrow> u32 list \<Rightarrow> sfs_fs \<Rightarrow> bool" where
  "entries_ok is bs s \<longleftrightarrow> bm_ok (sfs_freemap s) \<and> distinct is \<and> (\<forall>i \<in> set is. i < length bs \<and>
     (bs ! i \<noteq> 0 \<longrightarrow> bs ! i < bm_nbits (sfs_freemap s) \<and> unat (bs ! i) \<in> used s) \<and>
     (\<forall>j \<in> set is. bs ! i = bs ! j \<and> bs ! i \<noteq> 0 \<longrightarrow> i = j))"

lemma entries_step:
  assumes "entries_ok (i # is) bs s"
  shows "i < length bs" "\<not> (P i \<and> bs ! i \<noteq> 0) \<Longrightarrow> entries_ok is bs s"
    "\<not> (P i \<and> bs ! i \<noteq> 0) \<Longrightarrow> zap P (i # is) bs = zap P is bs \<and> freed P (i # is) bs = freed P is bs"
    "P i \<Longrightarrow> bs ! i \<noteq> 0 \<Longrightarrow> \<exists>fm. sfs_bfree (bs ! i) s = Ok () (s\<lparr>sfs_freemap := fm, sfs_freemapdirty := True\<rparr>) \<and>
       bm_ok fm \<and> bm_nbits fm = bm_nbits (sfs_freemap s) \<and> bm_used fm = used s - {unat (bs ! i)} \<and>
       entries_ok is (bs[i := 0]) (s\<lparr>sfs_freemap := fm, sfs_freemapdirty := True\<rparr>)"
    "P i \<Longrightarrow> bs ! i \<noteq> 0 \<Longrightarrow> zap P (i # is) bs = zap P is (bs[i := 0]) \<and>
       freed P (i # is) bs = insert (unat (bs ! i)) (freed P is (bs[i := 0]))"
proof -
  show i: "i < length bs" using assms by (simp add: entries_ok_def)
  have ni: "j \<noteq> i" if "j \<in> set is" for j using assms that by (auto simp: entries_ok_def)
  show "entries_ok is bs s" if "\<not> (P i \<and> bs ! i \<noteq> 0)" using assms that by (auto simp: entries_ok_def)
  show "zap P (i # is) bs = zap P is bs \<and> freed P (i # is) bs = freed P is bs" if "\<not> (P i \<and> bs ! i \<noteq> 0)"
    using that by (auto simp: zap_def freed_def)
  show "zap P (i # is) bs = zap P is (bs[i := 0]) \<and>
       freed P (i # is) bs = insert (unat (bs ! i)) (freed P is (bs[i := 0]))" if "P i" "bs ! i \<noteq> 0"
    using that i ni by (auto simp: zap_def freed_def nth_list_update) (metis ni)
  assume p: "P i" "bs ! i \<noteq> 0"
  have pre: "bm_ok (sfs_freemap s)" "bs ! i < bm_nbits (sfs_freemap s)" "unat (bs ! i) \<in> used s"
    using assms p by (auto simp: entries_ok_def)
  from bfree_ok [OF this] obtain fm where fm: "sfs_bfree (bs ! i) s = Ok () (s\<lparr>sfs_freemap := fm, sfs_freemapdirty := True\<rparr>)"
    "bm_ok fm" "bm_nbits fm = bm_nbits (sfs_freemap s)" "bm_used fm = used s - {unat (bs ! i)}" .
  have "bs[i := 0] ! j = bs ! j" if "j \<in> set is" for j using ni [OF that] by simp
  moreover have "bs ! j \<noteq> bs ! i" if "j \<in> set is" for j using assms ni [OF that] that p by (auto simp: entries_ok_def)
  ultimately have "entries_ok is (bs[i := 0]) (s\<lparr>sfs_freemap := fm, sfs_freemapdirty := True\<rparr>)"
    using assms fm by (auto simp: entries_ok_def used_def word_unat_eq_iff [symmetric])
  then show "\<exists>fm. sfs_bfree (bs ! i) s = Ok () (s\<lparr>sfs_freemap := fm, sfs_freemapdirty := True\<rparr>) \<and>
       bm_ok fm \<and> bm_nbits fm = bm_nbits (sfs_freemap s) \<and> bm_used fm = used s - {unat (bs ! i)} \<and>
       entries_ok is (bs[i := 0]) (s\<lparr>sfs_freemap := fm, sfs_freemapdirty := True\<rparr>)" using fm by blast
qed

lemma itrunc_indirect_ok:
  assumes "entries_ok js bs s"
  shows "\<exists>s'. itrunc_indirect n js bs nz dirty s =
      Ok (zap (\<lambda>j. unat n < 15 + j) js bs, nz \<or> (\<exists>j \<in> set js. \<not> unat n < 15 + j \<and> bs ! j \<noteq> 0),
          dirty \<or> freed (\<lambda>j. unat n < 15 + j) js bs \<noteq> {}) s' \<and>
    same_disk s s' \<and> sfs_vnodes s' = sfs_vnodes s \<and> used s' = used s - freed (\<lambda>j. unat n < 15 + j) js bs"
  using assms
proof (induction js arbitrary: bs nz dirty s)
  case Nil
  then show ?case by (auto simp: zap_def freed_def map_nth same_disk_refl)
next
  case (Cons j js)
  let ?P = "\<lambda>j. unat n < 15 + j"
  note e = entries_step(1) [OF Cons.prems] entries_step(2-5) [OF Cons.prems, where P = ?P]
  show ?case
  proof (cases "?P j \<and> bs ! j \<noteq> 0")
    case False
    then have "itrunc_indirect n (j # js) bs nz dirty s = itrunc_indirect n js bs (nz \<or> bs ! j \<noteq> 0) dirty s"
      using e(1) by (auto simp: SFS_NDIRECT_def)
    then show ?thesis using Cons.IH [OF e(2) [OF False], of "nz \<or> bs ! j \<noteq> 0" dirty] e(3) [OF False] False by auto
  next
    case True
    then obtain fm where fm: "sfs_bfree (bs ! j) s = Ok () (s\<lparr>sfs_freemap := fm, sfs_freemapdirty := True\<rparr>)"
      "bm_ok fm" "bm_nbits fm = bm_nbits (sfs_freemap s)" "bm_used fm = used s - {unat (bs ! j)}"
      "entries_ok js (bs[j := 0]) (s\<lparr>sfs_freemap := fm, sfs_freemapdirty := True\<rparr>)" using e(4) by blast
    let ?s = "s\<lparr>sfs_freemap := fm, sfs_freemapdirty := True\<rparr>"
    have st: "itrunc_indirect n (j # js) bs nz dirty s = itrunc_indirect n js (bs[j := 0]) nz True ?s"
      using e(1) True fm(1) by (auto simp: SFS_NDIRECT_def)
    have "same_disk s ?s" "used ?s = used s - {unat (bs ! j)}" "j \<notin> set js"
      using fm Cons.prems by (auto simp: same_disk_def used_def entries_ok_def)
    moreover have "(\<exists>i\<in>set js. \<not> ?P i \<and> bs[j := 0] ! i \<noteq> 0) = (\<exists>i\<in>set (j # js). \<not> ?P i \<and> bs ! i \<noteq> 0)"
      using True \<open>j \<notin> set js\<close> by (auto simp: nth_list_update)
    ultimately show ?thesis
      using Cons.IH [OF fm(5), of nz True] e(5) True same_disk_trans [of s ?s] unfolding st by auto
  qed
qed

lemma map_same_ino:
  assumes "distinct (map sv_ino vs)" "find (\<lambda>v. sv_ino v = ino) vs = Some v"
  shows "map (\<lambda>w. if sv_ino w = ino then v else w) vs = vs"
proof (rule map_idI)
  fix w assume "w \<in> set vs"
  moreover have "v \<in> set vs" "sv_ino v = ino" using assms(2) by (auto simp: find_Some_iff)
  ultimately show "(if sv_ino w = ino then v else w) = w"
    using assms(1) by (metis (mono_tags, lifting) distinct_map inj_onD)
qed

lemma upd_inode_vnodes':
  assumes "distinct (map sv_ino (sfs_vnodes s))" "vn s ino = Some v" "sfs_vnodes t = sfs_vnodes s"
  shows "sfs_vnodes (upd_inode ino f t) =
    map (\<lambda>w. if sv_ino w = ino then v\<lparr>sv_i := f (sv_i v), sv_dirty := True\<rparr> else w) (sfs_vnodes s)"
proof -
  have "w = v" if "w \<in> set (sfs_vnodes s)" "sv_ino w = ino" for w
    using assms(1) that vn_in [OF assms(2)] by (metis (mono_tags, lifting) distinct_map inj_onD)
  then show ?thesis unfolding upd_inode_def updv_def using assms(3) by auto
qed

lemma itrunc_direct_ok:
  assumes "entries_ok is (sfi_direct (sv_i v)) s" "vn s ino = Some v" "distinct (map sv_ino (sfs_vnodes s))"
  shows "\<exists>s' v'. itrunc_direct ino n is s = Ok () s' \<and> same_disk s s' \<and>
    used s' = used s - freed (\<lambda>i. unat n \<le> i) is (sfi_direct (sv_i v)) \<and> vn s' ino = Some v' \<and>
    sfs_vnodes s' = map (\<lambda>w. if sv_ino w = ino then v' else w) (sfs_vnodes s) \<and>
    sv_i v' = (sv_i v)\<lparr>sfi_direct := zap (\<lambda>i. unat n \<le> i) is (sfi_direct (sv_i v))\<rparr> \<and> sv_ino v' = ino \<and>
    vn_refcount v' = vn_refcount v"
  using assms
proof (induction "is" arbitrary: v s)
  case Nil
  then have "map (\<lambda>w. if sv_ino w = ino then v else w) (sfs_vnodes s) = sfs_vnodes s"
    by (intro map_same_ino) (auto simp: vn_def)
  then show ?case using Nil vn_in [of s ino v] by (auto simp: zap_def freed_def map_nth same_disk_refl)
next
  case (Cons i js)
  let ?P = "\<lambda>i. unat n \<le> i" and ?bs = "sfi_direct (sv_i v)"
  note e = entries_step(1) [OF Cons.prems(1)] entries_step(2-5) [OF Cons.prems(1), where P = ?P]
  show ?case
  proof (cases "?P i \<and> ?bs ! i \<noteq> 0")
    case False
    then have "itrunc_direct ino n (i # js) s = itrunc_direct ino n js s"
      using e(1) by (auto simp: getv_vn [OF Cons.prems(2)])
    then show ?thesis using Cons.IH [OF e(2) [OF False] Cons.prems(2,3)] e(3) [OF False] by simp
  next
    case True
    then obtain fm where fm: "sfs_bfree (?bs ! i) s = Ok () (s\<lparr>sfs_freemap := fm, sfs_freemapdirty := True\<rparr>)"
      "bm_ok fm" "bm_nbits fm = bm_nbits (sfs_freemap s)" "bm_used fm = used s - {unat (?bs ! i)}"
      "entries_ok js (?bs[i := 0]) (s\<lparr>sfs_freemap := fm, sfs_freemapdirty := True\<rparr>)" using e(4) by blast
    let ?t = "s\<lparr>sfs_freemap := fm, sfs_freemapdirty := True\<rparr>" and ?f = "\<lambda>d :: sfs_dinode. d\<lparr>sfi_direct := (sfi_direct d)[i := 0]\<rparr>"
    let ?s = "upd_inode ino ?f ?t" and ?v = "v\<lparr>sv_i := ?f (sv_i v), sv_dirty := True\<rparr>"
    have st: "itrunc_direct ino n (i # js) s = itrunc_direct ino n js ?s"
      using e(1) True fm(1) by (auto simp: Let_def getv_vn [OF Cons.prems(2)])
    have sd: "same_disk s ?s" and us: "used ?s = used s - {unat (?bs ! i)}"
      using fm by (auto simp: same_disk_def used_def)
    have vn': "vn ?s ino = Some ?v" using Cons.prems(2) by (simp add: vn_upd_inode) (simp add: vn_def)
    have en: "entries_ok js (sfi_direct (sv_i ?v)) ?s" using fm(5) by (auto simp: entries_ok_def used_def)
    have vs: "sfs_vnodes ?s = map (\<lambda>w. if sv_ino w = ino then ?v else w) (sfs_vnodes s)"
      by (rule upd_inode_vnodes' [OF Cons.prems(3,2)]) simp
    have "distinct (map sv_ino (sfs_vnodes ?s))" using Cons.prems(3) by simp
    from Cons.IH [OF en vn' this] obtain s' v' where ih: "itrunc_direct ino n js ?s = Ok () s'" "same_disk ?s s'"
      "used s' = used ?s - freed ?P js (?bs[i := 0])" "vn s' ino = Some v'"
      "sfs_vnodes s' = map (\<lambda>w. if sv_ino w = ino then v' else w) (sfs_vnodes ?s)"
      "sv_i v' = (sv_i ?v)\<lparr>sfi_direct := zap ?P js (?bs[i := 0])\<rparr>" "sv_ino v' = ino"
      "vn_refcount v' = vn_refcount v" by auto
    have "sv_ino v = ino" using vn_in [OF Cons.prems(2)] by simp
    then have "sfs_vnodes s' = map (\<lambda>w. if sv_ino w = ino then v' else w) (sfs_vnodes s)"
      unfolding ih(5) vs by auto
    then show ?thesis unfolding st using ih same_disk_trans [OF sd ih(2)] e(5) True us by auto
  qed
qed

text \<open>
  What truncation leaves: the entries of the map of inode \<open>ino\<close> outside \<open>keep\<close> are cleared, and
  exactly their blocks, with the indirect block when it goes too, are free; everything else of
  every file is as before.
\<close>

definition gone :: "(nat \<Rightarrow> bool) \<Rightarrow> u32 \<Rightarrow> nat set" where
  "gone keep ib = {k. k = 1 \<and> ib = 0 \<or> (\<exists>i. k = Suc (Suc i) \<and> \<not> keep i)}"

definition dropped :: "sfs_fs \<Rightarrow> sfs_vnode \<Rightarrow> u32 \<Rightarrow> (nat \<Rightarrow> bool) \<Rightarrow> sfs_fs \<Rightarrow> bool" where
  "dropped s v ino keep s' \<longleftrightarrow> fs_ok s' \<and> sfs_sb s' = sfs_sb s \<and> biglock s' = biglock s \<and> curas s' = curas s \<and>
     (\<exists>v'. vn s' ino = Some v' \<and> fmap s' (sv_i v') = (\<lambda>i. if keep i then fmap s (sv_i v) i else 0) \<and>
        sfi_type (sv_i v') = sfi_type (sv_i v) \<and> sfi_linkcount (sv_i v') = sfi_linkcount (sv_i v) \<and>
        vn_refcount v' = vn_refcount v \<and> sfi_indirect (sv_i v') \<in> {sfi_indirect (sv_i v), 0} \<and>
        used s' = used s - owned s v (gone keep (sfi_indirect (sv_i v')))) \<and>
     (\<forall>j. j \<noteq> ino \<longrightarrow> vn s' j = vn s j \<and> (\<forall>w. vn s j = Some w \<longrightarrow> fmap s' (sv_i w) = fmap s (sv_i w))) \<and>
     (\<forall>c. c \<noteq> sfi_indirect (sv_i v) \<longrightarrow> blk s' c = blk s c)"

lemma owned_gone:
  "owned s v (gone keep ib) = (if sfi_indirect (sv_i v) \<noteq> 0 \<and> ib = 0 then {unat (sfi_indirect (sv_i v))} else {}) \<union>
     {unat (fmap s (sv_i v) i) | i. \<not> keep i \<and> fmap s (sv_i v) i \<noteq> 0}"
proof (intro equalityI subsetI)
  fix b assume "b \<in> owned s v (gone keep ib)"
  then obtain k where k: "b = unat (slot s v k)" "k \<in> gone keep ib" "slot s v k \<noteq> 0" by (auto simp: owned_def)
  then show "b \<in> (if sfi_indirect (sv_i v) \<noteq> 0 \<and> ib = 0 then {unat (sfi_indirect (sv_i v))} else {}) \<union>
     {unat (fmap s (sv_i v) i) | i. \<not> keep i \<and> fmap s (sv_i v) i \<noteq> 0}"
    by (cases k rule: slot_cases) (auto simp: gone_def)
next
  fix b assume "b \<in> (if sfi_indirect (sv_i v) \<noteq> 0 \<and> ib = 0 then {unat (sfi_indirect (sv_i v))} else {}) \<union>
     {unat (fmap s (sv_i v) i) | i. \<not> keep i \<and> fmap s (sv_i v) i \<noteq> 0}"
  then consider "b = unat (slot s v 1)" "slot s v 1 \<noteq> 0" "1 \<in> gone keep ib"
    | i where "b = unat (slot s v (Suc (Suc i)))" "slot s v (Suc (Suc i)) \<noteq> 0" "Suc (Suc i) \<in> gone keep ib"
    by (auto simp: gone_def split: if_splits)
  then show "b \<in> owned s v (gone keep ib)" unfolding owned_def by cases blast+
qed

lemma vn_map_upd:
  assumes "sfs_vnodes s' = map (\<lambda>w. if sv_ino w = ino then v' else w) (sfs_vnodes s)" "sv_ino v' = ino"
  shows "vn s' j = (if j = ino then map_option (\<lambda>_. v') (vn s j) else vn s j)"
proof -
  have "find (\<lambda>v. sv_ino v = j) (map (\<lambda>w. if sv_ino w = ino then v' else w) vs) =
     (if j = ino then map_option (\<lambda>_. v') (find (\<lambda>v. sv_ino v = j) vs) else find (\<lambda>v. sv_ino v = j) vs)" for vs
    using assms(2) by (induction vs) auto
  then show ?thesis by (simp add: vn_def assms(1))
qed

lemma dropped_slots:
  assumes ok: "fs_ok s" and v: "vn s ino = Some v"
    and h: "healthy s'" "sfs_sb s' = sfs_sb s" "lh_blocks (sfs_device s') = lh_blocks (sfs_device s)"
      "biglock s' = biglock s" "curas s' = curas s"
    and fm: "bm_ok (sfs_freemap s')" "bm_nbits (sfs_freemap s') = bm_nbits (sfs_freemap s)"
      "used s' = used s - owned s v D"
    and vs: "sfs_vnodes s' = map (\<lambda>w. if sv_ino w = ino then v' else w) (sfs_vnodes s)"
    and v': "sv_ino v' = ino" "dinode_ok (sv_i v')" "sfi_type (sv_i v') = sfi_type (sv_i v)"
      "sfi_linkcount (sv_i v') = sfi_linkcount (sv_i v)" "vn_refcount v' = vn_refcount v"
    and f: "fmap s' (sv_i v') = (\<lambda>i. if keep i then fmap s (sv_i v) i else 0)"
      "sfi_indirect (sv_i v') = (if 1 \<in> D then 0 else sfi_indirect (sv_i v))"
    and D: "0 \<notin> D" "\<And>i. fmap s (sv_i v) i \<noteq> 0 \<Longrightarrow> Suc (Suc i) \<in> D \<longleftrightarrow> \<not> keep i"
    and b: "\<And>c. c \<noteq> sfi_indirect (sv_i v) \<or> c = 0 \<Longrightarrow> blk s' c = blk s c"
  shows "dropped s v ino keep s'"
proof -
  have vin: "v \<in> set (sfs_vnodes s)" "sv_ino v = ino" using vn_in [OF v] by auto
  have ind: "sfi_indirect (sv_i w) \<noteq> sfi_indirect (sv_i v) \<or> sfi_indirect (sv_i v) = 0"
    if "w \<in> set (sfs_vnodes s)" "sv_ino w \<noteq> ino" for w
    using fs_ok_slot_inj(1) [OF ok that(1) vin(1), of 1 1] that vin(2) by auto
  have fk: "slot s' w k = slot s w k" "fmap s' (sv_i w) = fmap s (sv_i w)"
    if "w \<in> set (sfs_vnodes s)" "sv_ino w \<noteq> ino" for w k
    using others_keep [OF ok that(1) _ ind [OF that], of s'] b by auto
  have "slot s' v' k = (if k \<in> D then 0 else slot s v k)" for k
  proof (cases k rule: slot_cases)
    case (3 i)
    then show ?thesis using f(1) D(2) [of i] by (cases "fmap s (sv_i v) i = 0") auto
  qed (use f(2) D(1) vin v' in \<open>auto\<close>)
  then have "fs_ok s'" using fs_ok_drop_slots [OF ok v h(1-3) fm vs v'(1,2)] fk(1) by blast
  moreover have "vn s' j = (if j = ino then Some v' else vn s j)" for j using vn_map_upd [OF vs v'(1)] v by simp
  moreover have "fmap s' (sv_i w) = fmap s (sv_i w)" if "vn s j = Some w" "j \<noteq> ino" for j w
    using fk(2) [of w] vn_in [OF that(1)] that(2) by auto
  moreover have "owned s v D = owned s v (gone keep (sfi_indirect (sv_i v')))"
  proof (rule owned_cong)
    fix k assume nz: "slot s v k \<noteq> 0"
    show "k \<in> D \<longleftrightarrow> k \<in> gone keep (sfi_indirect (sv_i v'))"
    proof (cases k rule: slot_cases)
      case (3 i)
      then show ?thesis using D(2) [of i] nz by (simp add: gone_def)
    qed (use D(1) f(2) nz in \<open>simp_all add: gone_def\<close>)
  qed
  ultimately show ?thesis unfolding dropped_def using h f v'(3-5) fm(3) b by auto
qed

lemma biglock_fields [simp]:
  "blk (s\<lparr>biglock := n\<rparr>) = blk s" "vn (s\<lparr>biglock := n\<rparr>) = vn s" "used (s\<lparr>biglock := n\<rparr>) = used s"
  "fmap (s\<lparr>biglock := n\<rparr>) = fmap s" "0 < n \<Longrightarrow> healthy s \<Longrightarrow> healthy (s\<lparr>biglock := n\<rparr>)"
  by (simp_all add: blk_def fun_eq_iff vn_def used_def fmap_def healthy_def fs_dev_ok_def)

lemma slot_biglock [simp]: "slot (s\<lparr>biglock := n\<rparr>) = slot s" and owned_biglock [simp]: "owned (s\<lparr>biglock := n\<rparr>) = owned s"
  using slot_blk [of "s\<lparr>biglock := n\<rparr>" s] by (simp_all add: fun_eq_iff owned_def)

lemma fs_ok_biglock: "fs_ok s \<Longrightarrow> 0 < n \<Longrightarrow> fs_ok (s\<lparr>biglock := n\<rparr>)"
  using slot_blk [of "s\<lparr>biglock := n\<rparr>" s] unfolding fs_ok_def by simp blast

lemma dropped_size:
  assumes "dropped s v ino keep s'" "vn s' ino = Some v'"
  shows "dropped s v ino keep (upd_inode ino (\<lambda>di. di\<lparr>sfi_size := n\<rparr>) s')"
proof -
  let ?f = "\<lambda>di :: sfs_dinode. di\<lparr>sfi_size := n\<rparr>" and ?s = "upd_inode ino (\<lambda>di. di\<lparr>sfi_size := n\<rparr>) s'"
  let ?v = "v'\<lparr>sv_i := ?f (sv_i v'), sv_dirty := True\<rparr>"
  have ok: "fs_ok s'" using assms(1) by (simp add: dropped_def)
  have vin: "v' \<in> set (sfs_vnodes s')" "sv_ino v' = ino" using vn_in [OF assms(2)] by auto
  have f: "fmap ?s = fmap s'" by (rule fmap_blk) simp
  have f': "fmap x (?f d) = fmap x d" for x d by (simp add: fmap_def fun_eq_iff)
  have "dropped s' v' ino (\<lambda>_. True) ?s"
  proof (rule dropped_slots [OF ok assms(2), where D = "{}" and v' = ?v])
    show "healthy ?s" "bm_ok (sfs_freemap ?s)" using fs_okD [OF ok] by simp_all
    show "sfs_vnodes ?s = map (\<lambda>w. if sv_ino w = ino then ?v else w) (sfs_vnodes s')"
      by (rule upd_inode_vnodes [OF ok assms(2)]) simp
    show "dinode_ok (sv_i ?v)" using fs_ok_dinode [OF ok vin(1)] by (simp add: dinode_ok_def)
  qed (use vin(2) f f' in \<open>simp_all add: owned_def\<close>)
  moreover have "vn ?s ino = Some ?v" using assms(2) by (simp add: vn_upd_inode)
  ultimately show ?thesis using assms f f' unfolding dropped_def by auto
qed

subsection \<open>Truncation keeps and drops blocks\<close>

definition itrunc_keeps :: "nat \<Rightarrow> nat \<Rightarrow> bool" where
  "itrunc_keeps n i \<longleftrightarrow> (if i < 15 then i < n else i \<le> n)"

lemma itrunc_direct_phase:
  assumes ok: "fs_ok s" and v: "vn s ino = Some v"
  obtains s' v' where "itrunc_direct ino n [0..<15] s = Ok () s'" "dropped s v ino (\<lambda>i. i < 15 \<longrightarrow> i < unat n) s'"
    "blk s' = blk s" "vn s' ino = Some v'" "sfi_indirect (sv_i v') = sfi_indirect (sv_i v)"
proof -
  let ?bs = "sfi_direct (sv_i v)" and ?P = "\<lambda>i. unat n \<le> i"
  have vin: "v \<in> set (sfs_vnodes s)" "sv_ino v = ino" using vn_in [OF v] by auto
  have dok: "dinode_ok (sv_i v)" by (rule fs_ok_dinode [OF ok vin(1)])
  have sl: "?bs ! i = slot s v (Suc (Suc i))" if "i < 15" for i using that by (simp add: fmap_def)
  have "entries_ok [0..<15] ?bs s"
    unfolding entries_ok_def
  proof (intro conjI ballI impI)
    fix i assume "i \<in> set [0..<15]"
    then have i: "i < 15" by simp
    show "i < length ?bs" using i dok by (simp add: dinode_ok_def)
    show "unat (?bs ! i) \<in> used s" "?bs ! i < bm_nbits (sfs_freemap s)" if "?bs ! i \<noteq> 0"
      using fs_ok_slot [OF ok vin(1), of "Suc (Suc i)"] that sl [OF i] fs_okD(4) [OF ok] by auto
    fix j assume "j \<in> set [0..<15]" "?bs ! i = ?bs ! j \<and> ?bs ! i \<noteq> 0"
    then show "i = j" using fs_ok_slot_inj(2) [OF ok vin(1) vin(1), of "Suc (Suc i)" "Suc (Suc j)"] sl [OF i] sl [of j] by auto
  qed (use fs_okD(2) [OF ok] in simp_all)
  from itrunc_direct_ok [OF this v fs_okD(6) [OF ok]] obtain s' v' where
    r: "itrunc_direct ino n [0..<15] s = Ok () s'" "same_disk s s'" "used s' = used s - freed ?P [0..<15] ?bs"
      "vn s' ino = Some v'" "sfs_vnodes s' = map (\<lambda>w. if sv_ino w = ino then v' else w) (sfs_vnodes s)"
      "sv_i v' = (sv_i v)\<lparr>sfi_direct := zap ?P [0..<15] ?bs\<rparr>" "sv_ino v' = ino"
      "vn_refcount v' = vn_refcount v" by blast
  define D where "D = {Suc (Suc i) | i. i < 15 \<and> unat n \<le> i}"
  have ow: "owned s v D = freed ?P [0..<15] ?bs"
  proof -
    have "owned s v D = {unat (slot s v (Suc (Suc i))) | i. i < 15 \<and> unat n \<le> i \<and> slot s v (Suc (Suc i)) \<noteq> 0}"
      unfolding owned_def D_def by blast
    also have "\<dots> = freed ?P [0..<15] ?bs" 
      unfolding freed_def using sl by (intro Collect_cong iff_exI) (auto simp del: slot.simps)
    finally show ?thesis .
  qed
  have bk: "blk s' = blk s" by (rule same_disk_blk(1) [OF r(2)])
  have "fmap s' (sv_i v') = (\<lambda>i. if i < 15 \<longrightarrow> i < unat n then fmap s (sv_i v) i else 0)"
    using bk r(6) dok by (auto simp: fmap_def fun_eq_iff zap_def dinode_ok_def)
  moreover have "dinode_ok (sv_i v')" using r(6) dok by (simp add: dinode_ok_def zap_def)
  moreover have "sfi_indirect (sv_i v') = (if 1 \<in> D then 0 else sfi_indirect (sv_i v))" using r(6) by (auto simp: D_def)
  moreover have "Suc (Suc i) \<in> D \<longleftrightarrow> \<not> (i < 15 \<longrightarrow> i < unat n)" for i by (auto simp: D_def)
  ultimately have "dropped s v ino (\<lambda>i. i < 15 \<longrightarrow> i < unat n) s'"
    using dropped_slots [OF ok v same_disk_blk(2) [OF r(2) fs_okD(1) [OF ok]], of D v'] r(2,3,5-8) ow bk fs_okD(2) [OF ok]
    by (simp add: same_disk_def D_def)
  then show ?thesis using that r bk by simp
qed

text \<open>The three endings of the indirect phase: nothing freed, the buffer written back, the indirect block freed.\<close>

lemma indirect_entries_ok:
  assumes ok: "fs_ok s" and v: "vn s ino = Some v" and ib: "sfi_indirect (sv_i v) \<noteq> 0"
  shows "entries_ok [0..<128] (dec_words 128 (blk s (sfi_indirect (sv_i v)))) s"
    "j < 128 \<Longrightarrow> dec_words 128 (blk s (sfi_indirect (sv_i v))) ! j = slot s v (j + 17)"
proof -
  let ?bs = "dec_words 128 (blk s (sfi_indirect (sv_i v)))"
  have vin: "v \<in> set (sfs_vnodes s)" "sv_ino v = ino" using vn_in [OF v] by auto
  have sl: "?bs ! j = slot s v (j + 17)" if "j < 128" for j
  proof -
    have "j + 17 = Suc (Suc (15 + j))" by simp
    then show ?thesis using that ib by (simp only: slot.simps) (simp add: fmap_def)
  qed
  show "j < 128 \<Longrightarrow> ?bs ! j = slot s v (j + 17)" by (rule sl)
  show "entries_ok [0..<128] ?bs s"
    unfolding entries_ok_def
  proof (intro conjI ballI impI)
    fix i assume "i \<in> set [0..<128]"
    then have i: "i < 128" by simp
    then show "i < length ?bs" by simp
    show "unat (?bs ! i) \<in> used s" "?bs ! i < bm_nbits (sfs_freemap s)" if "?bs ! i \<noteq> 0"
      using fs_ok_slot [OF ok vin(1), of "i + 17"] that sl [OF i] fs_okD(4) [OF ok] by auto
    fix j assume "j \<in> set [0..<128]" "?bs ! i = ?bs ! j \<and> ?bs ! i \<noteq> 0"
    then show "i = j" using fs_ok_slot_inj(2) [OF ok vin(1) vin(1), of "i + 17" "j + 17"] sl [OF i] sl [of j] by auto
  qed (use fs_okD(2) [OF ok] in simp_all)
qed

lemma owned_indirect:
  assumes ok: "fs_ok s" and v: "vn s ino = Some v" and ib: "sfi_indirect (sv_i v) \<noteq> 0"
  shows "owned s v {Suc (Suc i) | i. 15 \<le> i \<and> Q i \<and> i < 143} =
    freed (\<lambda>j. Q (15 + j)) [0..<128] (dec_words 128 (blk s (sfi_indirect (sv_i v))))"
proof -
  have "{Suc (Suc i) | i. 15 \<le> i \<and> Q i \<and> i < 143} = {j + 17 | j. j < 128 \<and> Q (15 + j)}"
  proof (intro equalityI subsetI)
    fix k assume "k \<in> {Suc (Suc i) | i. 15 \<le> i \<and> Q i \<and> i < 143}"
    then obtain i where "k = Suc (Suc i)" "15 \<le> i" "Q i" "i < 143" by blast
    then have "k = (i - 15) + 17 \<and> i - 15 < 128 \<and> Q (15 + (i - 15))" by simp
    then show "k \<in> {j + 17 | j. j < 128 \<and> Q (15 + j)}" by blast
  next
    fix k assume "k \<in> {j + 17 | j. j < 128 \<and> Q (15 + j)}"
    then obtain j where "k = j + 17" "j < 128" "Q (15 + j)" by blast
    then have "k = Suc (Suc (15 + j)) \<and> 15 \<le> 15 + j \<and> Q (15 + j) \<and> 15 + j < 143" by simp
    then show "k \<in> {Suc (Suc i) | i. 15 \<le> i \<and> Q i \<and> i < 143}" by blast
  qed
  then have "owned s v {Suc (Suc i) | i. 15 \<le> i \<and> Q i \<and> i < 143} =
      {unat (slot s v (j + 17)) | j. j < 128 \<and> Q (15 + j) \<and> slot s v (j + 17) \<noteq> 0}"
    unfolding owned_def by (simp only:) blast
  also have "\<dots> = freed (\<lambda>j. Q (15 + j)) [0..<128] (dec_words 128 (blk s (sfi_indirect (sv_i v))))"
    unfolding freed_def using indirect_entries_ok(2) [OF ok v ib]
    by (intro Collect_cong iff_exI) (auto simp del: slot.simps)
  finally show ?thesis .
qed

lemma indirect_written:
  assumes ok: "fs_ok s" and v: "vn s ino = Some v" and ib: "sfi_indirect (sv_i v) \<noteq> 0"
    and t: "same_disk (touch x s) t" "length x = 512" "sfs_vnodes t = sfs_vnodes s"
      "used t = used s - freed (\<lambda>j. n < 15 + j) [0..<128] (dec_words 128 (blk s (sfi_indirect (sv_i v))))"
    and s': "s' = setblk (sfi_indirect (sv_i v))
       (enc_words (zap (\<lambda>j. n < 15 + j) [0..<128] (dec_words 128 (blk s (sfi_indirect (sv_i v)))))) t"
  shows "dropped s v ino (\<lambda>i. 15 \<le> i \<longrightarrow> i \<le> n) s'"
proof -
  let ?ib = "sfi_indirect (sv_i v)" and ?bs = "dec_words 128 (blk s (sfi_indirect (sv_i v)))"
  let ?z = "zap (\<lambda>j. n < 15 + j) [0..<128] ?bs"
  have vin: "v \<in> set (sfs_vnodes s)" "sv_ino v = ino" using vn_in [OF v] by auto
  have bk: "blk t = blk s" using same_disk_blk(1) [OF t(1)] by simp
  have h: "healthy t" using same_disk_blk(2) [OF t(1)] t(2) fs_okD(1) [OF ok] by simp
  have zl: "length ?z = 128" by (simp add: zap_def)
  define D where "D = {Suc (Suc i) | i. 15 \<le> i \<and> n < i \<and> i < 143}"
  have ow: "owned s v D = freed (\<lambda>j. n < 15 + j) [0..<128] ?bs"
    unfolding D_def by (rule owned_indirect [OF ok v ib])
  have dz: "dec_words 128 (enc_words ?z) = ?z" using dec_words_enc [OF zl, of "[]"] by simp
  have sd: "sfs_sb t = sfs_sb s" "lh_blocks (sfs_device t) = lh_blocks (sfs_device s)" "biglock t = biglock s"
    "curas t = curas s" "bm_ok (sfs_freemap t)" "bm_nbits (sfs_freemap t) = bm_nbits (sfs_freemap s)"
    using t(1) fs_okD(2) [OF ok] by (auto simp: same_disk_def)
  show ?thesis
  proof (rule dropped_slots [OF ok v, where D = D and v' = v])
    show "fmap s' (sv_i v) = (\<lambda>i. if 15 \<le> i \<longrightarrow> i \<le> n then fmap s (sv_i v) i else 0)"
      using s' ib dz bk by (auto simp: fmap_def zap_def fun_eq_iff)
    show "Suc (Suc i) \<in> D \<longleftrightarrow> \<not> (15 \<le> i \<longrightarrow> i \<le> n)" if "fmap s (sv_i v) i \<noteq> 0" for i
      using that by (auto simp: D_def fmap_def split: if_splits)
    show "sfs_vnodes s' = map (\<lambda>w. if sv_ino w = ino then v else w) (sfs_vnodes s)"
      using s' t(3) map_same_ino [OF fs_okD(6) [OF ok], of ino v] v by (simp add: vn_def)
    show "healthy s'" using s' h zl by simp
    show "dinode_ok (sv_i v)" by (rule fs_ok_dinode [OF ok vin(1)])
    show "sfi_indirect (sv_i v) = (if 1 \<in> D then 0 else sfi_indirect (sv_i v))" "0 \<notin> D" by (auto simp: D_def)
    show "blk s' c = blk s c" if "c \<noteq> ?ib \<or> c = 0" for c using that ib s' bk by auto
  qed (use s' sd vin(2) ow t(4) in simp_all)
qed

lemma indirect_freed:
  assumes ok: "fs_ok s" and v: "vn s ino = Some v" and ib: "sfi_indirect (sv_i v) \<noteq> 0"
    and t: "same_disk (touch x s) t" "length x = 512" "sfs_vnodes t = sfs_vnodes s"
      "used t = used s - freed (\<lambda>j. n < 15 + j) [0..<128] (dec_words 128 (blk s (sfi_indirect (sv_i v))))"
    and zero: "\<And>i. 15 \<le> i \<Longrightarrow> i \<le> n \<Longrightarrow> fmap s (sv_i v) i = 0"
  shows "\<exists>t'. sfs_bfree (sfi_indirect (sv_i v)) t = Ok () t' \<and>
    dropped s v ino (\<lambda>i. 15 \<le> i \<longrightarrow> i \<le> n) (upd_inode ino (\<lambda>di. di\<lparr>sfi_indirect := 0\<rparr>) t')"
proof -
  let ?ib = "sfi_indirect (sv_i v)" and ?bs = "dec_words 128 (blk s (sfi_indirect (sv_i v)))"
  have vin: "v \<in> set (sfs_vnodes s)" "sv_ino v = ino" using vn_in [OF v] by auto
  have bk: "blk t = blk s" using same_disk_blk(1) [OF t(1)] by simp
  have h: "healthy t" using same_disk_blk(2) [OF t(1)] t(2) fs_okD(1) [OF ok] by simp
  have sd: "sfs_sb t = sfs_sb s" "lh_blocks (sfs_device t) = lh_blocks (sfs_device s)" "biglock t = biglock s"
    "curas t = curas s" "bm_ok (sfs_freemap t)" "bm_nbits (sfs_freemap t) = bm_nbits (sfs_freemap s)"
    using t(1) fs_okD(2) [OF ok] by (auto simp: same_disk_def)
  define E where "E = {Suc (Suc i) | i. 15 \<le> i \<and> n < i \<and> i < 143}"
  have ow: "owned s v E = freed (\<lambda>j. n < 15 + j) [0..<128] ?bs"
    unfolding E_def by (rule owned_indirect [OF ok v ib])
  have ow1: "owned s v (insert 1 E) = insert (unat ?ib) (owned s v E)"
    using ib by (auto simp: owned_def intro: exI [where x = "Suc 0"])
  have "unat ?ib \<notin> owned s v E"
  proof
    assume "unat ?ib \<in> owned s v E"
    then obtain k where "k \<in> E" "?ib = slot s v k" by (auto simp: owned_def word_unat_eq_iff [symmetric])
    then show False using fs_ok_slot_inj(2) [OF ok vin(1) vin(1), of 1 k] ib by (auto simp: E_def)
  qed
  then have "unat ?ib \<in> used t" "?ib < bm_nbits (sfs_freemap t)"
    using fs_ok_slot [OF ok vin(1), of 1] fs_okD(4) [OF ok] ib ow t(4) sd(6) by auto
  from bfree_ok [OF sd(5) this(2,1)] obtain fm where
    fm: "sfs_bfree ?ib t = Ok () (t\<lparr>sfs_freemap := fm, sfs_freemapdirty := True\<rparr>)" "bm_ok fm"
      "bm_nbits fm = bm_nbits (sfs_freemap t)" "bm_used fm = used t - {unat ?ib}" .
  let ?t = "t\<lparr>sfs_freemap := fm, sfs_freemapdirty := True\<rparr>" and ?f = "\<lambda>di :: sfs_dinode. di\<lparr>sfi_indirect := 0\<rparr>"
  let ?v = "v\<lparr>sv_i := ?f (sv_i v), sv_dirty := True\<rparr>" and ?s = "upd_inode ino (\<lambda>di. di\<lparr>sfi_indirect := 0\<rparr>)
      (t\<lparr>sfs_freemap := fm, sfs_freemapdirty := True\<rparr>)"
  have bt: "blk ?t = blk t" "healthy ?t" using h by (simp_all add: blk_def fun_eq_iff healthy_def fs_dev_ok_def)
  have "dropped s v ino (\<lambda>i. 15 \<le> i \<longrightarrow> i \<le> n) ?s"
  proof (rule dropped_slots [OF ok v, where D = "insert 1 E" and v' = ?v])
    show "fmap ?s (sv_i ?v) = (\<lambda>i. if 15 \<le> i \<longrightarrow> i \<le> n then fmap s (sv_i v) i else 0)"
      using zero by (auto simp: fmap_def fun_eq_iff)
    show "Suc (Suc i) \<in> insert 1 E \<longleftrightarrow> \<not> (15 \<le> i \<longrightarrow> i \<le> n)" if "fmap s (sv_i v) i \<noteq> 0" for i
      using that by (auto simp: E_def fmap_def split: if_splits)
    show "sfs_vnodes ?s = map (\<lambda>w. if sv_ino w = ino then ?v else w) (sfs_vnodes s)"
      using t(3) by (intro upd_inode_vnodes [OF ok v]) simp
    show "healthy ?s" using bt by simp
    show "dinode_ok (sv_i ?v)" using fs_ok_dinode [OF ok vin(1)] by (simp add: dinode_ok_def)
    show "used ?s = used s - owned s v (insert 1 E)" using fm(4) t(4) ow ow1 by (auto simp: used_def)
    show "blk ?s c = blk s c" for c using bk bt by simp
  qed (use sd vin(2) fm in \<open>simp_all add: E_def\<close>)
  then show ?thesis using fm(1) by blast
qed

lemma indirect_untouched:
  assumes "fs_ok s" "vn s ino = Some v" "same_disk (touch x s) t" "length x = 512" "sfs_vnodes t = sfs_vnodes s"
    "used t = used s" and z: "\<And>i. 15 \<le> i \<Longrightarrow> n < i \<Longrightarrow> fmap s (sv_i v) i = 0"
  shows "dropped s v ino (\<lambda>i. 15 \<le> i \<longrightarrow> i \<le> n) t"
proof (rule dropped_slots [OF assms(1,2), where D = "{}" and v' = v])
  have vin: "v \<in> set (sfs_vnodes s)" "sv_ino v = ino" using vn_in [OF assms(2)] by auto
  have bk: "blk t = blk s" using same_disk_blk(1) [OF assms(3)] by simp
  show "healthy t" using same_disk_blk(2) [OF assms(3)] assms(4) fs_okD(1) [OF assms(1)] by simp
  show "fmap t (sv_i v) = (\<lambda>i. if 15 \<le> i \<longrightarrow> i \<le> n then fmap s (sv_i v) i else 0)"
    using z fmap_eqI [OF bk, of "sv_i v"] by auto
  show "sfs_vnodes t = map (\<lambda>w. if sv_ino w = ino then v else w) (sfs_vnodes s)"
    using assms(2,5) map_same_ino [OF fs_okD(6) [OF assms(1)], of ino v] by (simp add: vn_def)
  show "dinode_ok (sv_i v)" "sv_ino v = ino" using fs_ok_dinode [OF assms(1) vin(1)] vin by auto
  show "Suc (Suc i) \<in> {} \<longleftrightarrow> \<not> (15 \<le> i \<longrightarrow> i \<le> n)" if "fmap s (sv_i v) i \<noteq> 0" for i using that z [of i] by (auto simp: not_le [symmetric])
  show "blk t c = blk s c" for c using bk by simp
qed (use assms(3,6) fs_okD(2) [OF assms(1)] in \<open>simp_all add: same_disk_def owned_def\<close>)

text \<open>The indirect block goes when no block up to \<open>n\<close> is mapped by it.\<close>

definition noindirect :: "sfs_fs \<Rightarrow> sfs_vnode \<Rightarrow> nat \<Rightarrow> u32 \<Rightarrow> sfs_fs \<Rightarrow> bool" where
  "noindirect s v n ino s' \<longleftrightarrow> ((\<forall>i. 15 \<le> i \<and> i \<le> n \<longrightarrow> fmap s (sv_i v) i = 0) \<longrightarrow>
     (\<forall>v'. vn s' ino = Some v' \<longrightarrow> sfi_indirect (sv_i v') = 0))"

lemma itrunc_indirect_phase:
  assumes ok: "fs_ok s" and v: "vn s ino = Some v" and ib: "sfi_indirect (sv_i v) \<noteq> 0"
  shows "\<exists>s'. dropped s v ino (\<lambda>i. 15 \<le> i \<longrightarrow> i \<le> unat n) s' \<and> noindirect s v (unat n) ino s' \<and>
    (case sfs_readblock (sfi_indirect (sv_i v)) s of
       Ok data s \<Rightarrow>
         kbind (itrunc_indirect n [0..<128] (dec_words 128 data) False False s)
           (\<lambda>(idbuf, hasnonzero, iddirty) s.
              if \<not> hasnonzero then
                kbind (sfs_bfree (sfi_indirect (sv_i v)) s) (\<lambda>_ s. fin (upd_inode ino (\<lambda>di. di\<lparr>sfi_indirect := 0\<rparr>) s))
              else if iddirty then
                (case sfs_writeblock (sfi_indirect (sv_i v)) (enc_words idbuf) s of
                   Ok _ s \<Rightarrow> fin s | Err e s \<Rightarrow> fl e s | Panic \<Rightarrow> Panic | Fault \<Rightarrow> Fault | Hang \<Rightarrow> Hang)
              else fin s)
     | Err e s \<Rightarrow> fl e s | Panic \<Rightarrow> Panic | Fault \<Rightarrow> Fault | Hang \<Rightarrow> Hang) = fin s'"
proof -
  let ?ib = "sfi_indirect (sv_i v)" and ?bs = "dec_words 128 (blk s (sfi_indirect (sv_i v)))"
  let ?P = "\<lambda>j. unat n < 15 + j" and ?t = "touch (blk s (sfi_indirect (sv_i v))) s"
  have vin: "v \<in> set (sfs_vnodes s)" "sv_ino v = ino" using vn_in [OF v] by auto
  have bl: "length (blk s ?ib) = 512" using fs_okD(1) [OF ok] by simp
  have ibl: "?ib < lh_blocks (sfs_device s)" using fs_ok_slot(1) [OF ok vin(1), of 1] ib fs_okD(3) [OF ok] by simp
  then have rb: "sfs_readblock ?ib s = Ok (blk s ?ib) ?t" using fs_okD(1) [OF ok] by (intro readblock_healthy)
  note en = indirect_entries_ok(1) [OF fs_ok_touch [OF ok bl], of ino v, simplified, OF v ib]
  obtain u where u: "itrunc_indirect n [0..<128] ?bs False False ?t =
      Ok (zap ?P [0..<128] ?bs, \<exists>j\<in>set [0..<128]. \<not> ?P j \<and> ?bs ! j \<noteq> 0, freed ?P [0..<128] ?bs \<noteq> {}) u"
    "same_disk ?t u" "sfs_vnodes u = sfs_vnodes s" "used u = used s - freed ?P [0..<128] ?bs"
    using itrunc_indirect_ok [OF en, of n False False] by auto
  have fm: "fmap s (sv_i v) i = (if i < 143 then ?bs ! (i - 15) else 0)" if "15 \<le> i" for i using that ib by (simp add: fmap_def)
  show ?thesis
  proof (cases "\<exists>j\<in>set [0..<128]. \<not> ?P j \<and> ?bs ! j \<noteq> 0")
    case False
    have z: "fmap s (sv_i v) i = 0" if "15 \<le> i" "i \<le> unat n" for i
    proof (cases "i < 143")
      case True
      then have "i - 15 \<in> set [0..<128]" "\<not> ?P (i - 15)" using that by auto
      then show ?thesis using False fm [OF that(1)] by auto
    qed (use fm [OF that(1)] in simp)
    obtain t' where t': "sfs_bfree ?ib u = Ok () t'"
      "dropped s v ino (\<lambda>i. 15 \<le> i \<longrightarrow> i \<le> unat n) (upd_inode ino (\<lambda>di. di\<lparr>sfi_indirect := 0\<rparr>) t')"
      using indirect_freed [OF ok v ib u(2) bl u(3,4) z] by blast
    moreover have "noindirect s v (unat n) ino (upd_inode ino (\<lambda>di. di\<lparr>sfi_indirect := 0\<rparr>) t')"
      by (auto simp: noindirect_def vn_upd_inode)
    ultimately show ?thesis using rb u(1) False by (auto simp del: bex_simps)
  next
    case nz: True
    then obtain j where j: "j < 128" "15 + j \<le> unat n" "?bs ! j \<noteq> 0" by auto
    then have "fmap s (sv_i v) (15 + j) \<noteq> 0" using fm [of "15 + j"] by simp
    then have ni: "noindirect s v (unat n) ino s'" for s' using j(2) unfolding noindirect_def by (meson le_add1)
    show ?thesis
    proof (cases "freed ?P [0..<128] ?bs = {}")
      case True
      have "fmap s (sv_i v) i = 0" if "15 \<le> i" "unat n < i" for i
      proof (cases "i < 143")
        case i: True
        then have "i - 15 \<in> set [0..<128]" "?P (i - 15)" using that by auto
        then have "?bs ! (i - 15) = 0" using True unfolding freed_def by blast
        then show ?thesis using fm [OF that(1)] by simp
      qed (use fm [OF that(1)] in simp)
      then have "dropped s v ino (\<lambda>i. 15 \<le> i \<longrightarrow> i \<le> unat n) u"
        using indirect_untouched [OF ok v u(2) bl u(3)] u(4) True by simp
      then show ?thesis using rb u(1) nz True ni by auto
    next
      case False
      let ?d = "enc_words (zap ?P [0..<128] ?bs)"
      have "sfs_writeblock ?ib ?d u = Ok () (setblk ?ib ?d u)"
        using same_disk_blk(2) [OF u(2)] bl fs_okD(1) [OF ok] ibl u(2)
        by (intro writeblock_healthy) (auto simp: zap_def same_disk_def)
      moreover have "dropped s v ino (\<lambda>i. 15 \<le> i \<longrightarrow> i \<le> unat n) (setblk ?ib ?d u)"
        by (rule indirect_written [OF ok v ib u(2) bl u(3,4) refl])
      ultimately show ?thesis using rb u(1) nz False ni by auto
    qed
  qed
qed

lemma dropped_trans:
  assumes "dropped s v ino k1 t" "vn t ino = Some w" "dropped t w ino k2 u"
    "sfi_indirect (sv_i w) = sfi_indirect (sv_i v)"
  shows "dropped s v ino (\<lambda>i. k1 i \<and> k2 i) u"
proof -
  obtain x where x: "vn u ino = Some x" using assms(3) by (auto simp: dropped_def)
  define ib where "ib = sfi_indirect (sv_i x)"
  have w: "fmap t (sv_i w) = (\<lambda>i. if k1 i then fmap s (sv_i v) i else 0)"
      "used t = used s - owned s v (gone k1 (sfi_indirect (sv_i v)))"
    using assms(1,2,4) by (auto simp: dropped_def)
  have u: "used u = used t - owned t w (gone k2 ib)" using assms(3) x by (auto simp: dropped_def ib_def)
  have "owned s v (gone k1 (sfi_indirect (sv_i v))) \<union> owned t w (gone k2 ib) = owned s v (gone (\<lambda>i. k1 i \<and> k2 i) ib)"
    unfolding owned_gone w(1) assms(4) by auto
  then have "used u = used s - owned s v (gone (\<lambda>i. k1 i \<and> k2 i) ib)" using u w(2) by blast
  moreover have "fmap u (sv_i x) = (\<lambda>i. if k1 i \<and> k2 i then fmap s (sv_i v) i else 0)"
    using assms(3) x w(1) by (auto simp: dropped_def fun_eq_iff)
  ultimately show ?thesis using assms x unfolding dropped_def ib_def by auto
qed

lemma dropped_cong:
  assumes "dropped s v ino k t" "\<And>i. fmap s (sv_i v) i \<noteq> 0 \<Longrightarrow> k i = k' i"
  shows "dropped s v ino k' t"
proof -
  have "owned s v (gone k ib) = owned s v (gone k' ib)" for ib unfolding owned_gone using assms(2) by auto
  moreover have "(\<lambda>i. if k i then fmap s (sv_i v) i else 0) = (\<lambda>i. if k' i then fmap s (sv_i v) i else 0)"
    using assms(2) by (auto simp: fun_eq_iff)
  ultimately show ?thesis using assms(1) unfolding dropped_def by simp
qed

lemma itrunc_finish:
  assumes ok: "fs_ok s" and d: "dropped (s\<lparr>biglock := Suc (biglock s)\<rparr>) v ino k t"
  shows "\<exists>s' v'. vfs_biglock_release (upd_inode ino (\<lambda>di. di\<lparr>sfi_size := z\<rparr>) t) = Ok () s' \<and>
    dropped s v ino k s' \<and> vn s' ino = Some v' \<and> sfi_size (sv_i v') = z \<and>
    map_option (sfi_indirect \<circ> sv_i) (vn t ino) = Some (sfi_indirect (sv_i v'))"
proof -
  let ?s0 = "s\<lparr>biglock := Suc (biglock s)\<rparr>" and ?u = "upd_inode ino (\<lambda>di. di\<lparr>sfi_size := z\<rparr>) t"
  have b: "0 < biglock s" using fs_okD(1) [OF ok] by (simp add: healthy_def fs_dev_ok_def)
  obtain w where w: "vn t ino = Some w" using d by (auto simp: dropped_def)
  have du: "dropped ?s0 v ino k ?u" by (rule dropped_size [OF d w])
  then have bu: "biglock ?u = Suc (biglock s)" "fs_ok ?u" by (simp_all add: dropped_def)
  have "vfs_biglock_release ?u = Ok () (?u\<lparr>biglock := biglock s\<rparr>)"
    using bu(1) by (simp add: vfs_biglock_release_def vfs_biglock_do_i_hold_def del: upd_inode_fields)
  moreover have "dropped s v ino k (?u\<lparr>biglock := biglock s\<rparr>)"
    using du fs_ok_biglock [OF bu(2) b] unfolding dropped_def
    by (simp cong del: if_weak_cong)
  moreover have "vn (?u\<lparr>biglock := biglock s\<rparr>) ino =
      Some (w\<lparr>sv_i := (sv_i w)\<lparr>sfi_size := z\<rparr>, sv_dirty := True\<rparr>)" using w by (simp add: vn_upd_inode)
  ultimately show ?thesis using w
    by (intro exI [where x = "?u\<lparr>biglock := biglock s\<rparr>"] exI [where x = "w\<lparr>sv_i := (sv_i w)\<lparr>sfi_size := z\<rparr>, sv_dirty := True\<rparr>"])
      simp
qed

lemma sfs_itrunc_result:
  assumes ok: "fs_ok s" and v: "vn s ino = Some v" and len: "0 \<le> len" "len < 2 ^ 31"
  shows "\<exists>s' v'. sfs_itrunc ino len s = Ok () s' \<and> dropped s v ino (itrunc_keeps (nat ((len + 511) div 512))) s' \<and>
    vn s' ino = Some v' \<and> sfi_size (sv_i v') = word_of_int len \<and>
    (nat ((len + 511) div 512) < 15 \<longrightarrow> sfi_indirect (sv_i v') = 0)"
proof -
  define n :: u32 where "n = word_of_int ((len + 511) div 512)"
  have n: "unat n = nat ((len + 511) div 512)"
  proof -
    have "len < 2147483648" using len(2) by simp
    then have "(len + 511) div 512 < 4294967296" by linarith
    then show ?thesis using len(1) by (simp add: n_def unat_eq_nat_uint uint_word_of_int take_bit_int_eq_self)
  qed
  have nd: "word_of_int (cdiv (len + 512 - 1) 512) = n" using len(1) by (simp add: n_def add.commute)
  let ?s = "s\<lparr>biglock := Suc (biglock s)\<rparr>"
  have ok0: "fs_ok ?s" and v0: "vn ?s ino = Some v" using fs_ok_biglock [OF ok] v by simp_all
  obtain t w where t: "itrunc_direct ino n [0..<15] ?s = Ok () t" "dropped ?s v ino (\<lambda>i. i < 15 \<longrightarrow> i < unat n) t"
    "blk t = blk ?s" "vn t ino = Some w" "sfi_indirect (sv_i w) = sfi_indirect (sv_i v)"
    using itrunc_direct_phase [OF ok0 v0, of n] by blast
  have tok: "fs_ok t" using t(2) by (simp add: dropped_def)
  define fin where "fin = (\<lambda>s. vfs_biglock_release (upd_inode ino (\<lambda>di. di\<lparr>sfi_size := word_of_int len\<rparr>) s))"
  have "\<exists>u. sfs_itrunc ino len s = fin u \<and> dropped ?s v ino (itrunc_keeps (unat n)) u \<and>
      (unat n < 15 \<longrightarrow> map_option (sfi_indirect \<circ> sv_i) (vn u ino) = Some 0)"
  proof (cases "unat n < 142 \<and> sfi_indirect (sv_i v) \<noteq> 0")
    case True
    then have wi: "sfi_indirect (sv_i w) \<noteq> 0" using t(5) by simp
    have "sfs_itrunc ino len s =
      (case sfs_readblock (sfi_indirect (sv_i w)) t of
       Ok data s \<Rightarrow>
         kbind (itrunc_indirect n [0..<128] (dec_words 128 data) False False s)
           (\<lambda>(idbuf, hasnonzero, iddirty) s.
              if \<not> hasnonzero then
                kbind (sfs_bfree (sfi_indirect (sv_i w)) s) (\<lambda>_ s. fin (upd_inode ino (\<lambda>di. di\<lparr>sfi_indirect := 0\<rparr>) s))
              else if iddirty then
                (case sfs_writeblock (sfi_indirect (sv_i w)) (enc_words idbuf) s of
                   Ok _ s \<Rightarrow> fin s | Err e s \<Rightarrow> kbind (vfs_biglock_release s) (\<lambda>_ s. Err e s)
                 | Panic \<Rightarrow> Panic | Fault \<Rightarrow> Fault | Hang \<Rightarrow> Hang)
              else fin s)
       | Err e s \<Rightarrow> kbind (vfs_biglock_release s) (\<lambda>_ s. Err e s) | Panic \<Rightarrow> Panic | Fault \<Rightarrow> Fault | Hang \<Rightarrow> Hang)"
      using t(1) True wi unfolding fin_def sfs_itrunc_def nd sfs_consts
      by (simp add: sfs_consts Let_def vfs_biglock_acquire_def getv_vn [OF t(4)])
    with itrunc_indirect_phase [OF tok t(4) wi, of n fin
        "\<lambda>e s. kbind (vfs_biglock_release s) (\<lambda>_ s. Err e s)"] obtain u where
      u: "dropped t w ino (\<lambda>i. 15 \<le> i \<longrightarrow> i \<le> unat n) u" "noindirect t w (unat n) ino u"
        "sfs_itrunc ino len s = fin u" by metis
    have "map_option (sfi_indirect \<circ> sv_i) (vn u ino) = Some 0" if "unat n < 15"
      using u(1,2) that by (auto simp: noindirect_def dropped_def)
    then show ?thesis using u(3)
      by (intro exI [of _ u] conjI dropped_cong [OF dropped_trans [OF t(2,4) u(1) t(5)]]) (auto simp: itrunc_keeps_def)
  next
    case False
    then have "sfs_itrunc ino len s = fin t"
      using t(1,5) unfolding fin_def sfs_itrunc_def nd sfs_consts
      by (auto simp: sfs_consts Let_def vfs_biglock_acquire_def getv_vn [OF t(4)])
    moreover have "dropped ?s v ino (itrunc_keeps (unat n)) t"
      by (rule dropped_cong [OF t(2)]) (use False in \<open>auto simp: itrunc_keeps_def fmap_def split: if_splits\<close>)
    moreover have "map_option (sfi_indirect \<circ> sv_i) (vn t ino) = Some 0" if "unat n < 15" using t(4,5) False that by auto
    ultimately show ?thesis by blast
  qed
  then obtain u where u: "sfs_itrunc ino len s = fin u" "dropped ?s v ino (itrunc_keeps (unat n)) u"
    "unat n < 15 \<longrightarrow> map_option (sfi_indirect \<circ> sv_i) (vn u ino) = Some 0" by blast
  obtain s' v' where "fin u = Ok () s'" "dropped s v ino (itrunc_keeps (unat n)) s'" "vn s' ino = Some v'"
    "sfi_size (sv_i v') = word_of_int len" "map_option (sfi_indirect \<circ> sv_i) (vn u ino) = Some (sfi_indirect (sv_i v'))"
    using itrunc_finish [OF ok u(2), of "word_of_int len"] unfolding fin_def by blast
  then show ?thesis using u(1,3) n by auto
qed

text \<open>
  \<^bold>\<open>C19.\<close> Truncation of a file on a volume in order succeeds, sets the size, and clears and frees
  every block of the file past the new end of \<open>n\<close> blocks, leaving all other files alone - with
  one exception: when the end lies in the indirect range (\<open>n \<ge> 15\<close>), the first block past the
  end, block \<open>n\<close>, is kept. The loop compares \<^verbatim>\<open>blocklen < baseblock + j\<close> instead of \<open>\<le>\<close>.
\<close>

theorem sfs_itrunc_drops:
  assumes "fs_ok s" "vn s ino = Some v" "0 \<le> len" "len < 2 ^ 31"
  shows "\<exists>s' v'. sfs_itrunc ino len s = Ok () s' \<and> dropped s v ino (itrunc_keeps (nat ((len + 511) div 512))) s' \<and>
    vn s' ino = Some v' \<and> sfi_size (sv_i v') = word_of_int len"
  using sfs_itrunc_result [OF assms] by blast

theorem sfs_itrunc_drops_witness:
  "\<exists>s'. sfs_itrunc 2 7680 demo_vol = Ok () s' \<and> dropped demo_vol demo_vnode 2 (itrunc_keeps 15) s' \<and>
     itrunc_keeps 15 15 \<and> \<not> itrunc_keeps 14 14"
  using sfs_itrunc_drops [OF demo_vol_ok demo_vol_vn, of 7680] by (auto simp: itrunc_keeps_def)

end
