(* ===== verification/SfsIo.thy ===== *)
theory SfsIo
  imports SfsBlock
begin

text \<open>
  File-level I/O: \<^verbatim>\<open>sfs_partialio\<close>, \<^verbatim>\<open>sfs_blockio\<close>, \<^verbatim>\<open>sfs_io\<close> and \<^verbatim>\<open>sfs_metaio\<close> of
  \<^verbatim>\<open>kern/fs/sfs/sfs_io.c\<close>.

  A file is abstracted to the function \<open>fbyte\<close> from positions to bytes (0 in holes) and its size.
  The theory shows that reading returns the bytes of that function up to the end of the file,
  that writing replaces exactly the bytes written and extends the size, whatever the alignment
  of the request, that other files keep their contents, and that a failed write has written
  exactly the bytes it has consumed.
\<close>

subsection \<open>Model\<close>

text \<open>Calls that change one half of the pair of volume and transfer.\<close>

fun onfs :: "uio \<Rightarrow> ('a, sfs_fs) res \<Rightarrow> ('a, sfs_fs \<times> uio) res" where
  "onfs u (Ok x s) = Ok x (s, u)"
| "onfs u (Err e s) = Err e (s, u)"
| "onfs u Panic = Panic"
| "onfs u Fault = Fault"
| "onfs u Hang = Hang"

fun onuio :: "sfs_fs \<Rightarrow> ('a, uio) res \<Rightarrow> ('a, sfs_fs \<times> uio) res" where
  "onuio s (Ok x u) = Ok x (s, u)"
| "onuio s (Err e u) = Err e (s, u)"
| "onuio s Panic = Panic"
| "onuio s Fault = Fault"
| "onuio s Hang = Hang"

definition sfs_partialio :: "u32 \<Rightarrow> u32 \<Rightarrow> u32 \<Rightarrow> sfs_fs \<times> uio \<Rightarrow> (unit, sfs_fs \<times> uio) res" where
  "sfs_partialio ino skipstart len su =
     (case su of (s, u) \<Rightarrow>
        let doalloc = (uio_rw u = UIO_WRITE) in
        kassert (skipstart + len \<le> 512)
          (kassert (vfs_biglock_do_i_hold s)
            (let fileblock = word_of_int (cdiv (uio_offset u) 512) in
             kbind (onfs u (sfs_bmap ino fileblock doalloc s)) (\<lambda>diskblock (s, u).
               kbind
                 (if diskblock = 0 then kassert (uio_rw u = UIO_READ) (Ok (replicate SFS_BLOCKSIZE 0) (s, u))
                  else onfs u (sfs_readblock diskblock s))
                 (\<lambda>iobuf (s, u).
                    kbind (onuio s (uiomove (curas s) (drop (unat skipstart) iobuf) (unat len) u)) (\<lambda>ptr (s, u).
                      let iobuf = take (unat skipstart) iobuf @ ptr in
                      if uio_rw u = UIO_WRITE then onfs u (sfs_writeblock diskblock iobuf s)
                      else Ok () (s, u)))))))"

definition sfs_blockio :: "u32 \<Rightarrow> sfs_fs \<times> uio \<Rightarrow> (unit, sfs_fs \<times> uio) res" where
  "sfs_blockio ino su =
     (case su of (s, u) \<Rightarrow>
        let doalloc = (uio_rw u = UIO_WRITE);
            fileblock = word_of_int (cdiv (uio_offset u) 512)
        in kbind (onfs u (sfs_bmap ino fileblock doalloc s)) (\<lambda>diskblock (s, u).
             if diskblock = 0 then
               kassert (uio_rw u = UIO_READ) (onuio s (uiomovezeros (curas s) SFS_BLOCKSIZE u))
             else
               let saveoff = uio_offset u;
                   diskoff = uint (diskblock * 512)
               in kassert (uio_resid u \<ge> 512)
                    (let saveres = uio_resid u;
                         restore = (\<lambda>u. u\<lparr>uio_offset := uio_offset u - diskoff + saveoff,
                                          uio_resid := uio_resid u - 512 + saveres\<rparr>)
                     in case sfs_rwblock (s, u\<lparr>uio_offset := diskoff, uio_resid := 512\<rparr>) of
                          Ok _ (s, u) \<Rightarrow> Ok () (s, restore u)
                        | Err e (s, u) \<Rightarrow> Err e (s, restore u)
                        | Panic \<Rightarrow> Panic | Fault \<Rightarrow> Fault | Hang \<Rightarrow> Hang)))"

fun sfs_io_blocks :: "u32 \<Rightarrow> nat \<Rightarrow> sfs_fs \<times> uio \<Rightarrow> (unit, sfs_fs \<times> uio) res" where
  "sfs_io_blocks ino 0 su = Ok () su"
| "sfs_io_blocks ino (Suc n) su = kbind (sfs_blockio ino su) (\<lambda>_ su. sfs_io_blocks ino n su)"

text \<open>The transfer itself: leading partial block, whole blocks, trailing partial block.\<close>

definition sfs_io_tail :: "u32 \<Rightarrow> sfs_fs \<times> uio \<Rightarrow> (unit, sfs_fs \<times> uio) res" where
  "sfs_io_tail ino su =
     (if uio_resid (snd su) = 0 then Ok () su
      else kassert (cmod (uio_offset (snd su)) 512 = 0)
        (kbind (sfs_io_blocks ino (unat (uio_resid (snd su) div 512)) su) (\<lambda>_ su.
           kassert (uio_resid (snd su) < 512)
             (if uio_resid (snd su) > 0 then sfs_partialio ino 0 (uio_resid (snd su)) su else Ok () su))))"

definition sfs_io_body :: "u32 \<Rightarrow> sfs_fs \<times> uio \<Rightarrow> (unit, sfs_fs \<times> uio) res" where
  "sfs_io_body ino su =
     (let blkoff = word_of_int (cmod (uio_offset (snd su)) 512) :: u32 in
      if blkoff \<noteq> 0 then
        (let skip = blkoff;
             len = 512 - blkoff;
             len = (if len > uio_resid (snd su) then uio_resid (snd su) else len)
         in kbind (sfs_partialio ino skip len su) (\<lambda>_ su. sfs_io_tail ino su))
      else sfs_io_tail ino su)"

text \<open>The code at the label \<^verbatim>\<open>out\<close>.\<close>

definition sfs_io_out :: "u32 \<Rightarrow> u32 \<Rightarrow> u32 \<Rightarrow> errno option \<Rightarrow> sfs_fs \<times> uio \<Rightarrow> (unit, sfs_fs \<times> uio) res" where
  "sfs_io_out ino origresid extraresid result su =
     (case su of (s, u) \<Rightarrow>
        getv ino s (\<lambda>sv.
          let s = (if uio_resid u \<noteq> origresid \<and> uio_rw u = UIO_WRITE \<and> uio_offset u > uint (sfi_size (sv_i sv))
                   then upd_inode ino (\<lambda>i. i\<lparr>sfi_size := word_of_int (uio_offset u)\<rparr>) s else s);
              u = u\<lparr>uio_resid := uio_resid u + extraresid\<rparr>
          in case result of None \<Rightarrow> Ok () (s, u) | Some e \<Rightarrow> Err e (s, u)))"

definition sfs_io :: "u32 \<Rightarrow> sfs_fs \<times> uio \<Rightarrow> (unit, sfs_fs \<times> uio) res" where
  "sfs_io ino su =
     (case su of (s, u) \<Rightarrow>
        getv ino s (\<lambda>sv.
          let origresid = uio_resid u;
              sz = uint (sfi_size (sv_i sv));
              endpos = uio_offset u + uint (uio_resid u);
              run = (\<lambda>extraresid u.
                case sfs_io_body ino (s, u) of
                  Ok _ su \<Rightarrow> sfs_io_out ino origresid extraresid None su
                | Err e su \<Rightarrow> sfs_io_out ino origresid extraresid (Some e) su
                | Panic \<Rightarrow> Panic | Fault \<Rightarrow> Fault | Hang \<Rightarrow> Hang)
          in if uio_rw u = UIO_READ then
               (if uio_offset u \<ge> sz then Ok () (s, u)
                else if endpos > sz then
                  let extraresid = word_of_int (endpos - sz) in
                  kassert (uio_resid u > extraresid)
                    (run extraresid (u\<lparr>uio_resid := uio_resid u - extraresid\<rparr>))
                else run 0 u)
             else run 0 u))"

text \<open>
  \<open>data\<close> is the caller's buffer of \<^verbatim>\<open>len\<close> bytes, returned as it is after the call.
\<close>

definition sfs_metaio :: "u32 \<Rightarrow> int \<Rightarrow> byte list \<Rightarrow> uio_rw \<Rightarrow> sfs_fs \<Rightarrow> (byte list, sfs_fs) res" where
  "sfs_metaio ino actualpos data rw s =
     kassert (vfs_biglock_do_i_hold s)
       (let vnblock = word_of_int (cdiv actualpos 512);
            blockoffset = unat (word_of_int (cmod actualpos 512) :: u32);
            doalloc = (rw = UIO_WRITE)
        in kbind (sfs_bmap ino vnblock doalloc s) (\<lambda>diskblock s.
             if diskblock = 0 then kassert (rw = UIO_READ) (Ok (replicate (length data) 0) s)
             else
               kbind (sfs_readblock diskblock s) (\<lambda>metaiobuf s.
                 if blockoffset + length data > SFS_BLOCKSIZE then Fault
                 else if rw = UIO_READ then Ok (take (length data) (drop blockoffset metaiobuf)) s
                 else
                   let metaiobuf = take blockoffset metaiobuf @ data @ drop (blockoffset + length data) metaiobuf in
                   kbind (sfs_writeblock diskblock metaiobuf s) (\<lambda>_ s.
                     getv ino s (\<lambda>sv.
                       let endpos = actualpos + int (length data) in
                       if endpos > uint (sfi_size (sv_i sv))
                       then Ok data (upd_inode ino (\<lambda>i. i\<lparr>sfi_size := word_of_int endpos\<rparr>) s)
                       else Ok data s)))))"

subsection \<open>Contents of files\<close>

definition fbyte :: "sfs_fs \<Rightarrow> sfs_dinode \<Rightarrow> nat \<Rightarrow> byte" where
  "fbyte s di p = (let b = fmap s di (p div 512) in if b = 0 then 0 else blk s b ! (p mod 512))"

text \<open>The blocks of a file other than its inode.\<close>

definition fblocks :: "sfs_fs \<Rightarrow> sfs_vnode \<Rightarrow> u32 set" where
  "fblocks s v = {slot s v k | k. 1 \<le> k \<and> slot s v k \<noteq> 0}"

text \<open>
  A step on the file \<open>ino\<close> that leaves its contents as \<open>f\<close>: size, type and link count of the
  file, all other files, and all blocks in use that are not blocks of the file are as before.
\<close>

definition fstep :: "sfs_fs \<Rightarrow> sfs_vnode \<Rightarrow> u32 \<Rightarrow> (nat \<Rightarrow> byte) \<Rightarrow> sfs_fs \<Rightarrow> sfs_vnode \<Rightarrow> bool" where
  "fstep s v ino f s' v' \<longleftrightarrow> fs_ok s' \<and> sfs_sb s' = sfs_sb s \<and> biglock s' = biglock s \<and> curas s' = curas s \<and>
     vn s' ino = Some v' \<and> fbyte s' (sv_i v') = f \<and> meta_eq (sv_i v) (sv_i v') \<and> vn_refcount v' = vn_refcount v \<and>
     (\<forall>j. j \<noteq> ino \<longrightarrow> vn s' j = vn s j \<and> (\<forall>w. vn s j = Some w \<longrightarrow> fbyte s' (sv_i w) = fbyte s (sv_i w))) \<and>
     used s \<subseteq> used s' \<and> (\<forall>c \<in> fblocks s' v'. unat c \<in> used s \<longrightarrow> c \<in> fblocks s v) \<and>
     (\<forall>c. unat c \<in> used s \<and> c \<notin> fblocks s v \<longrightarrow> blk s' c = blk s c)"

lemma fblocksI: "fmap s (sv_i v) i \<noteq> 0 \<Longrightarrow> fmap s (sv_i v) i \<in> fblocks s v"
  "sfi_indirect (sv_i v) \<noteq> 0 \<Longrightarrow> sfi_indirect (sv_i v) \<in> fblocks s v"
proof -
  show "fmap s (sv_i v) i \<in> fblocks s v" if "fmap s (sv_i v) i \<noteq> 0"
  proof -
    have "fmap s (sv_i v) i = slot s v (Suc (Suc i))" by simp
    then show ?thesis unfolding fblocks_def using that by (intro CollectI exI [of _ "Suc (Suc i)"]) simp
  qed
  show "sfi_indirect (sv_i v) \<in> fblocks s v" if "sfi_indirect (sv_i v) \<noteq> 0"
    unfolding fblocks_def using that by (intro CollectI exI [of _ "Suc 0"]) simp
qed

lemma fblocksE:
  assumes "c \<in> fblocks s v"
  obtains "c = sfi_indirect (sv_i v)" "c \<noteq> 0" | i where "c = fmap s (sv_i v) i" "c \<noteq> 0"
proof -
  obtain k where k: "1 \<le> k" "c = slot s v k" "c \<noteq> 0" using assms by (auto simp: fblocks_def)
  then show ?thesis using that by (cases k rule: slot_cases) auto
qed

lemma fstep_refl: "fs_ok s \<Longrightarrow> vn s ino = Some v \<Longrightarrow> fstep s v ino (fbyte s (sv_i v)) s v"
  by (simp add: fstep_def meta_eq_def)

lemma fstep_trans:
  assumes "fstep s v ino f t w" "fstep t w ino g u x"
  shows "fstep s v ino g u x"
proof -
  have "blk u c = blk s c" if "unat c \<in> used s" "c \<notin> fblocks s v" for c
  proof -
    have "unat c \<in> used t" "c \<notin> fblocks t w" using assms(1) that by (auto simp: fstep_def)
    then show ?thesis using assms that by (simp add: fstep_def)
  qed
  moreover have "c \<in> fblocks s v" if "c \<in> fblocks u x" "unat c \<in> used s" for c
    using assms that unfolding fstep_def by blast
  moreover have "fbyte u (sv_i y) = fbyte s (sv_i y)" if "j \<noteq> ino" "vn s j = Some y" for j y
    using assms that by (simp add: fstep_def)
  ultimately show ?thesis using assms unfolding fstep_def meta_eq_def by auto
qed

lemma fbyte_eqI:
  "fmap s' di' = fmap s di \<Longrightarrow> (\<And>i. fmap s di i \<noteq> 0 \<Longrightarrow> blk s' (fmap s di i) = blk s (fmap s di i)) \<Longrightarrow>
   fbyte s' di' = fbyte s di"
  by (auto simp: fbyte_def fun_eq_iff Let_def)

lemma fmap_used:
  assumes "fs_ok s" "w \<in> set (sfs_vnodes s)" "fmap s (sv_i w) i \<noteq> 0"
  shows "unat (fmap s (sv_i w) i) \<in> used s" "fmap s (sv_i w) i < lh_blocks (sfs_device s)"
  using fs_ok_slot [OF assms(1,2), of "Suc (Suc i)"] assms(3) fs_okD(3) [OF assms(1)] by auto

lemma fmap_not_indirect:
  assumes "fs_ok s" "w \<in> set (sfs_vnodes s)" "x \<in> set (sfs_vnodes s)" "fmap s (sv_i w) i \<noteq> 0"
  shows "fmap s (sv_i w) i \<noteq> sfi_indirect (sv_i x)"
  using fs_ok_slot_inj(2) [OF assms(1-3), of "Suc (Suc i)" "Suc 0"] assms(4) by auto

text \<open>Mapping a block, whether it is allocated or was there, leaves the contents of every file.\<close>

lemma mapped_fstep:
  assumes ok: "fs_ok s" and v: "vn s ino = Some v" and m: "mapped s v ino i b s'"
  obtains v' where "fstep s v ino (fbyte s (sv_i v)) s' v'" "fmap s' (sv_i v') i = b" "b \<noteq> 0"
proof -
  have vin: "v \<in> set (sfs_vnodes s)" "sv_ino v = ino" using vn_in [OF v] by auto
  obtain v' where v': "vn s' ino = Some v'" "fmap s' (sv_i v') = (fmap s (sv_i v))(i := b)" "meta_eq (sv_i v) (sv_i v')"
    "vn_refcount v' = vn_refcount v"
    "sfi_indirect (sv_i v') = sfi_indirect (sv_i v) \<or> unat (sfi_indirect (sv_i v')) \<notin> used s"
    using m unfolding mapped_def by blast
  have keep: "blk s' c = blk s c" if "unat c \<in> used s" "c \<noteq> sfi_indirect (sv_i v)" for c
    using m that unfolding mapped_def by blast
  have fk: "blk s' (fmap s (sv_i w) j) = blk s (fmap s (sv_i w) j)"
    if "w \<in> set (sfs_vnodes s)" "fmap s (sv_i w) j \<noteq> 0" for w j
    using keep [OF fmap_used(1) [OF ok that] fmap_not_indirect [OF ok that(1) vin(1) that(2)]] .
  have old: "b = fmap s (sv_i v) i \<and> blk s' = blk s" if "fmap s (sv_i v) i \<noteq> 0" using m that by (simp add: mapped_def)
  have new: "unat b \<notin> used s \<and> blk s' b = replicate 512 0" if "fmap s (sv_i v) i = 0" using m that by (simp add: mapped_def)
  have fb: "fbyte s' (sv_i v') = fbyte s (sv_i v)"
  proof
    fix p show "fbyte s' (sv_i v') p = fbyte s (sv_i v) p"
      using v'(2) old new fk [OF vin(1), of "p div 512"] m
      by (cases "p div 512 = i"; cases "fmap s (sv_i v) i = 0") (auto simp: fbyte_def Let_def mapped_def)
  qed
  have "fbyte s' (sv_i w) = fbyte s (sv_i w)" if "j \<noteq> ino" "vn s j = Some w" for j w
  proof (rule fbyte_eqI)
    show "fmap s' (sv_i w) = fmap s (sv_i w)" using m that by (simp add: mapped_def)
    show "blk s' (fmap s (sv_i w) k) = blk s (fmap s (sv_i w) k)" if "fmap s (sv_i w) k \<noteq> 0" for k
      using fk [of w k] vn_in [OF \<open>vn s j = Some w\<close>] that by simp
  qed
  moreover have "c \<in> fblocks s v" if "c \<in> fblocks s' v'" "unat c \<in> used s" for c
    using that(1)
  proof (cases rule: fblocksE)
    case 1
    then show ?thesis using v'(5) that(2) fblocksI(2) by auto
  next
    case (2 j)
    then show ?thesis using v'(2) old new that(2) fblocksI(1) by (cases "j = i"; cases "fmap s (sv_i v) i = 0") auto
  qed
  moreover have "blk s' c = blk s c" if "unat c \<in> used s" "c \<notin> fblocks s v" for c
    using m that fblocksI(2) [of v s] unfolding mapped_def by blast
  ultimately have "fstep s v ino (fbyte s (sv_i v)) s' v'"
    using m v' fb unfolding fstep_def mapped_def by auto
  then show ?thesis using that v'(2) m by (simp add: mapped_def)
qed

lemma touch_fstep:
  assumes "fs_ok s" "vn s ino = Some v" "length x = 512"
  shows "fstep s v ino (fbyte s (sv_i v)) (touch x s) v"
proof -
  have f: "fmap (touch x s) = fmap s" by (rule fmap_blk) simp
  have "fbyte (touch x s) = fbyte s" by (simp add: fbyte_def fun_eq_iff f Let_def)
  moreover have "fblocks (touch x s) v = fblocks s v" using slot_blk [of "touch x s" s] by (simp add: fblocks_def)
  ultimately show ?thesis using assms fs_ok_touch [OF assms(1,3)] by (simp add: fstep_def meta_eq_def)
qed

lemma files_kept_fstep:
  assumes ok: "fs_ok s" and v: "vn s ino = Some v" and k: "files_kept s v ino s'"
  obtains v' where "fstep s v ino (fbyte s (sv_i v)) s' v'"
proof -
  obtain v' where v': "vn s' ino = Some v'" "fmap s' (sv_i v') = fmap s (sv_i v)" "meta_eq (sv_i v) (sv_i v')"
    "vn_refcount v' = vn_refcount v"
    "sfi_indirect (sv_i v') = sfi_indirect (sv_i v) \<or> unat (sfi_indirect (sv_i v')) \<notin> used s"
    using k unfolding files_kept_def by blast
  have keep: "blk s' c = blk s c" if "unat c \<in> used s" for c using k that unfolding files_kept_def by blast
  have fb: "fbyte s' (sv_i w') = fbyte s (sv_i w)"
    if "w \<in> set (sfs_vnodes s)" "fmap s' (sv_i w') = fmap s (sv_i w)" for w w'
    using that keep fmap_used(1) [OF ok that(1)] by (intro fbyte_eqI) auto
  have "c \<in> fblocks s v" if "c \<in> fblocks s' v'" "unat c \<in> used s" for c
    using that(1)
  proof (cases rule: fblocksE)
    case 1
    then show ?thesis using v'(5) that(2) fblocksI(2) by auto
  next
    case (2 j)
    then show ?thesis using v'(2) fblocksI(1) by auto
  qed
  moreover have "fbyte s' (sv_i w) = fbyte s (sv_i w)" if "j \<noteq> ino" "vn s j = Some w" for j w
    using fb [of w w] vn_in [OF that(2)] k that unfolding files_kept_def by auto
  ultimately have "fstep s v ino (fbyte s (sv_i v)) s' v'"
    using k v' fb [OF conjunct1 [OF vn_in [OF v]] v'(2)] keep unfolding fstep_def files_kept_def by auto
  then show ?thesis using that by blast
qed

text \<open>The block map as I/O uses it.\<close>

lemma bmap_io:
  assumes ok: "fs_ok s" and v: "vn s ino = Some v"
  shows "if 143 \<le> unat fb then sfs_bmap ino fb doalloc s = Err EFBIG s
    else (\<exists>b s' v'. sfs_bmap ino fb doalloc s = Ok b s' \<and> fstep s v ino (fbyte s (sv_i v)) s' v' \<and>
        fmap s' (sv_i v') (unat fb) = b \<and> (doalloc \<longrightarrow> b \<noteq> 0)) \<or>
      (doalloc \<and> (\<exists>s' v'. sfs_bmap ino fb doalloc s = Err ENOSPC s' \<and> fstep s v ino (fbyte s (sv_i v)) s' v' \<and> fs_full s'))"
proof (cases doalloc)
  case True
  have a: "if unat fb < 143 then
      (\<exists>b s'. sfs_bmap ino fb True s = Ok b s' \<and> mapped s v ino (unat fb) b s') \<or>
      (\<exists>s'. sfs_bmap ino fb True s = Err ENOSPC s' \<and> files_kept s v ino s' \<and> fs_full s')
    else sfs_bmap ino fb True s = Err EFBIG s" by (rule sfs_bmap_alloc_cases [OF ok v])
  show ?thesis
  proof (cases "143 \<le> unat fb")
    case False
    then consider b s' where "sfs_bmap ino fb True s = Ok b s'" "mapped s v ino (unat fb) b s'"
      | s' where "sfs_bmap ino fb True s = Err ENOSPC s'" "files_kept s v ino s'" "fs_full s'" using a by auto
    then show ?thesis
    proof cases
      case 1
      then show ?thesis using True False mapped_fstep [OF ok v 1(2)] by (metis (full_types))
    next
      case 2
      then show ?thesis using True False files_kept_fstep [OF ok v 2(2)] by (metis (full_types))
    qed
  qed (use a True in simp)
next
  case False
  have l: "if unat fb < 143 then \<exists>s'. sfs_bmap ino fb False s = Ok (fmap s (sv_i v) (unat fb)) s' \<and>
           (s' = s \<or> (\<exists>x. length x = 512 \<and> s' = touch x s))
         else sfs_bmap ino fb False s = Err EFBIG s" by (rule sfs_bmap_lookup [OF ok v])
  show ?thesis
  proof (cases "143 \<le> unat fb")
    case lt: False
    then obtain s' where s': "sfs_bmap ino fb False s = Ok (fmap s (sv_i v) (unat fb)) s'"
      "s' = s \<or> (\<exists>x. length x = 512 \<and> s' = touch x s)" using l by auto
    then have "fstep s v ino (fbyte s (sv_i v)) s' v" using fstep_refl [OF ok v] touch_fstep [OF ok v] by auto
    moreover have "fmap s' = fmap s" using s'(2) by (intro fmap_blk) auto
    ultimately show ?thesis using s'(1) lt False by auto
  qed (use l False in simp)
qed

text \<open>Overwriting a mapped block.\<close>

lemma fs_ok_cong:
  assumes ok: "fs_ok s" and "healthy s'" "sfs_sb s' = sfs_sb s" "lh_blocks (sfs_device s') = lh_blocks (sfs_device s)"
    and fm: "sfs_freemap s' = sfs_freemap s" and vs: "sfs_vnodes s' = sfs_vnodes s"
    and sl: "\<And>w k. w \<in> set (sfs_vnodes s) \<Longrightarrow> slot s' w k = slot s w k"
  shows "fs_ok s'"
proof -
  have u: "used s' = used s" by (simp add: used_def fm)
  show ?thesis
    unfolding fs_ok_def u fm vs assms(3,4)
  proof (intro conjI ballI allI impI, goal_cases)
    case (9 v k)
    then show ?case using fs_ok_slot(1) [OF ok] sl by simp
  next
    case (10 v k)
    then show ?case using fs_ok_slot(2) [OF ok] sl by simp
  next
    case (11 v w k l)
    then show ?case using fs_ok_slot_inj(1) [OF ok, of v w k l] sl by auto
  next
    case (12 v w k l)
    then show ?case using fs_ok_slot_inj(2) [OF ok, of v w k l] sl by auto
  qed (use assms(2) fs_okD [OF ok] fs_ok_dinode [OF ok] in simp_all)
qed

lemma setblk_fstep:
  assumes ok: "fs_ok s" and v: "vn s ino = Some v" and b: "b = fmap s (sv_i v) i" "b \<noteq> 0" and len: "length x = 512"
  shows "fstep s v ino (\<lambda>p. if p div 512 = i then x ! (p mod 512) else fbyte s (sv_i v) p) (setblk b x s) v"
proof -
  let ?s = "setblk b x s"
  have vin: "v \<in> set (sfs_vnodes s)" "sv_ino v = ino" using vn_in [OF v] by auto
  have ni: "sfi_indirect (sv_i w) \<noteq> b" if "w \<in> set (sfs_vnodes s)" for w
    using fmap_not_indirect [OF ok vin(1) that, of i] b by auto
  have f: "fmap ?s (sv_i w) = fmap s (sv_i w)" "slot ?s w k = slot s w k" if "w \<in> set (sfs_vnodes s)" for w k
  proof -
    have e: "blk ?s (sfi_indirect (sv_i w)) = blk s (sfi_indirect (sv_i w))" using ni [OF that] by simp
    then show "slot ?s w k = slot s w k" by (intro slot_cong) simp
    show "fmap ?s (sv_i w) = fmap s (sv_i w)" using e fmap_cong fmap_noind by blast
  qed
  have only: "w = v \<and> j = i" if "w \<in> set (sfs_vnodes s)" "fmap s (sv_i w) j = b" for w j
  proof -
    have "slot s w (Suc (Suc j)) = slot s v (Suc (Suc i))" "slot s w (Suc (Suc j)) \<noteq> 0" using that b by simp_all
    from fs_ok_slot_inj [OF ok that(1) vin(1) this] show ?thesis using vn_unique [OF ok that(1)] v vin(2) by simp
  qed
  have "fs_ok ?s" using fs_okD(1) [OF ok] len by (intro fs_ok_cong [OF ok] f(2)) simp_all
  moreover have "fbyte ?s (sv_i v) = (\<lambda>p. if p div 512 = i then x ! (p mod 512) else fbyte s (sv_i v) p)"
  proof
    fix p
    have "fmap s (sv_i v) (p div 512) \<noteq> b" if "p div 512 \<noteq> i" using only [OF vin(1), of "p div 512"] that by blast
    then show "fbyte ?s (sv_i v) p = (if p div 512 = i then x ! (p mod 512) else fbyte s (sv_i v) p)"
      using b unfolding fbyte_def f(1) [OF vin(1)] by (simp add: Let_def)
  qed
  moreover have "fbyte ?s (sv_i w) = fbyte s (sv_i w)" if "j \<noteq> ino" "vn s j = Some w" for j w
  proof (rule fbyte_eqI)
    have w: "w \<in> set (sfs_vnodes s)" "w \<noteq> v" using vn_in [OF that(2)] that vin by auto
    show "fmap ?s (sv_i w) = fmap s (sv_i w)" by (rule f(1) [OF w(1)])
    show "blk ?s (fmap s (sv_i w) k) = blk s (fmap s (sv_i w) k)" for k
    proof -
      have "fmap s (sv_i w) k \<noteq> b" using only [OF w(1)] w(2) by blast
      then show ?thesis by simp
    qed
  qed
  moreover have "fblocks ?s v = fblocks s v" by (simp add: fblocks_def f(2) [OF vin(1)])
  moreover have "b \<in> fblocks s v" using b fblocksI(1) by auto
  ultimately show ?thesis unfolding fstep_def meta_eq_def using v by (intro conjI allI ballI impI) auto
qed

subsection \<open>Transfers of one block\<close>

lemma rwblock_uio:
  assumes h: "healthy s" and b: "b < lh_blocks (sfs_device s)"
    and u: "uio_offset u = uint b * 512" "uio_resid u = 512" "uio_ok u" "uio_nofault u" "uio_space_ok (curas s) u"
  shows "\<exists>u'. sfs_rwblock (s, u) =
      Ok () (if uio_rw u = UIO_READ then touch (blk s b) s else setblk b (take 512 (concat (uio_iov u))) s, u') \<and>
    uio_after (blk s b) 512 u u'"
proof -
  let ?d = "sfs_device s"
  have dev: "dev_ok ?d" "lh_codes ?d = []" and hold: "vfs_biglock_do_i_hold s"
    using h by (simp_all add: healthy_def fs_dev_ok_def vfs_biglock_do_i_hold_def)
  have bound: "\<not> b + 1 > lh_blocks ?d"
    using b unat_u32_less [of "lh_blocks ?d"] by (simp add: u32_order unat_word_ariths)
  have io: "lhd_io (curas s) (?d, u) = lhd_io_loop (curas s) 1 b (?d, u)"
    using bound u(1,2) by (simp add: lhd_io_def Let_def)
  have d0: "?d\<lparr>lh_codes := []\<rparr> = ?d" using dev(2) by simp
  have r: "512 \<le> unat (uio_resid u)" using u(2) by simp
  show ?thesis
  proof (cases "uio_rw u = UIO_READ")
    case True
    have l: "512 \<le> length (lh_data ?d b)" using dev(1) by (simp add: dev_ok_def)
    obtain u' where u': "uiomove (curas s) (lh_data ?d b) 512 u = Ok (lh_data ?d b) u'" "uio_after (lh_data ?d b) 512 u u'"
      using uiomove_ok [OF u(5) l r u(3,4)] True by auto
    have "lhd_io (curas s) (?d, u) = Ok () (?d\<lparr>lh_codes := [], lh_buf := lh_data ?d b\<rparr>, u')"
      using io u'(1) dev(2) True by (simp add: lhd_sector_def LHD_SECTSIZE_def)
    then show ?thesis
      using u'(2) True d0 hold by (simp add: sfs_rwblock_def touch_def blk_def)
  next
    case False
    then have W: "uio_rw u = UIO_WRITE" by (cases "uio_rw u") auto
    have l: "512 \<le> length (lh_buf ?d)" "drop 512 (lh_buf ?d) = []" using dev(1) by (simp_all add: dev_ok_def)
    obtain u' where u': "uiomove (curas s) (lh_buf ?d) 512 u = Ok (take 512 (concat (uio_iov u))) u'"
      "uio_after (lh_buf ?d) 512 u u'"
      using uiomove_ok [OF u(5) l(1) r u(3,4)] W l(2) by auto
    have e: "?d\<lparr>lh_buf := x, lh_codes := [], lh_data := y\<rparr> = ?d\<lparr>lh_buf := x, lh_data := y\<rparr>" for x y
      using dev(2) by simp
    have a: "uio_after (blk s b) 512 u u'" "uio_rw u' = UIO_WRITE" using u'(2) W by (simp_all add: uio_after_def)
    have "lhd_io (curas s) (?d, u) = Ok () (?d\<lparr>lh_buf := take 512 (concat (uio_iov u)), lh_codes := [],
        lh_data := (lh_data ?d)(b := take 512 (concat (uio_iov u)))\<rparr>, u')"
      using io u'(1) dev(2) W a(2) by (simp add: lhd_sector_def LHD_SECTSIZE_def)
    then show ?thesis
      using a(1) W hold unfolding e by (simp add: sfs_rwblock_def setblk_def)
  qed
qed

text \<open>
  The outcome of transferring \<open>n\<close> bytes between the file and the region: a write puts the next
  \<open>n\<close> bytes of the region into the file, a read appends \<open>n\<close> bytes of the file to it.
\<close>

definition wr_bytes :: "(nat \<Rightarrow> byte) \<Rightarrow> nat \<Rightarrow> byte list \<Rightarrow> nat \<Rightarrow> byte" where
  "wr_bytes f pos xs p = (if pos \<le> p \<and> p < pos + length xs then xs ! (p - pos) else f p)"

definition moved :: "sfs_fs \<Rightarrow> sfs_vnode \<Rightarrow> u32 \<Rightarrow> nat \<Rightarrow> uio \<Rightarrow> sfs_fs \<Rightarrow> sfs_vnode \<Rightarrow> uio \<Rightarrow> bool" where
  "moved s v ino n u s' v' u' \<longleftrightarrow>
     fstep s v ino (if uio_rw u = UIO_WRITE
       then wr_bytes (fbyte s (sv_i v)) (nat (uio_offset u)) (take n (concat (uio_iov u))) else fbyte s (sv_i v)) s' v' \<and>
     uio_after (map (fbyte s (sv_i v)) [nat (uio_offset u)..<nat (uio_offset u) + n]) n u u'"

definition uio_good :: "sfs_fs \<Rightarrow> uio \<Rightarrow> bool" where
  "uio_good s u \<longleftrightarrow> uio_ok u \<and> uio_nofault u \<and> uio_space_ok (curas s) u \<and> 0 \<le> uio_offset u"

lemma wr_bytes_append: "wr_bytes (wr_bytes f pos xs) (pos + length xs) ys = wr_bytes f pos (xs @ ys)"
  by (auto simp: wr_bytes_def fun_eq_iff nth_append)

lemma wr_bytes_Nil [simp]: "wr_bytes f pos [] = f"
  by (auto simp: wr_bytes_def fun_eq_iff)

lemma uio_after_0: "uio_after [] 0 u u"
  by (simp add: uio_after_def)

lemma moved_0: "fs_ok s \<Longrightarrow> vn s ino = Some v \<Longrightarrow> moved s v ino 0 u s v u"
  using fstep_refl by (simp add: moved_def uio_after_0)

lemma moved_good:
  assumes "moved s v ino n u s' v' u'" "uio_good s u" "n \<le> unat (uio_resid u)"
  shows "uio_good s' u'" "unat (uio_resid u') = unat (uio_resid u) - n" "uio_rw u' = uio_rw u"
    "uio_offset u' = uio_offset u + int n" "fs_ok s'" "vn s' ino = Some v'" "sfs_sb s' = sfs_sb s"
    "sfi_size (sv_i v') = sfi_size (sv_i v)" "fs_ok s' \<Longrightarrow> biglock s' = biglock s"
proof -
  have m: "uio_after (map (fbyte s (sv_i v)) [nat (uio_offset u)..<nat (uio_offset u) + n]) n u u'"
    "curas s' = curas s" using assms(1) by (simp_all add: moved_def fstep_def)
  note a = uio_after_ok [OF m(1) conjunct1 [OF assms(2) [unfolded uio_good_def]] assms(3)]
  show "unat (uio_resid u') = unat (uio_resid u) - n" by (rule a(2))
  show o: "uio_offset u' = uio_offset u + int n" and "uio_rw u' = uio_rw u" using m(1) by (simp_all add: uio_after_def)
  show "uio_good s' u'" using assms(2) a(1) uio_after_fields [OF m(1)] m(2) o by (simp add: uio_good_def)
  show "fs_ok s'" "vn s' ino = Some v'" "sfs_sb s' = sfs_sb s" "sfi_size (sv_i v') = sfi_size (sv_i v)"
    "fs_ok s' \<Longrightarrow> biglock s' = biglock s"
    using assms(1) by (simp_all add: moved_def fstep_def meta_eq_def)
qed

lemma uio_after_trans:
  assumes "uio_after p n u u1" "uio_after q m u1 u2" "uio_rw u = UIO_READ \<Longrightarrow> r = p @ q"
    "length p = n" "length q = m"
  shows "uio_after r (n + m) u u2"
proof -
  have 1: "concat (uio_iov u2) = drop (n + m) (concat (uio_iov u))" "uio_rw u1 = uio_rw u" "uio_rw u2 = uio_rw u"
    "uio_moved u2 = uio_moved u + (n + m)" "uio_segflg u2 = uio_segflg u" "uio_space u2 = uio_space u"
    "uio_ucopy u2 = uio_ucopy u"
    using assms(1,2) by (simp_all add: uio_after_def add.commute)
  have 2: "uio_resid u2 = uio_resid u - word_of_nat (n + m)" "uio_offset u2 = uio_offset u + int (n + m)"
    using assms(1,2) by (simp_all add: uio_after_def)
  have 3: "uio_out u2 = (if uio_rw u = UIO_READ then uio_out u @ take (n + m) r else uio_out u)"
    using assms by (simp add: uio_after_def)
  show ?thesis unfolding uio_after_def using 1 2 3 by simp
qed

lemma moved_trans:
  assumes a: "moved s v ino n u s1 v1 u1" and b: "moved s1 v1 ino m u1 s2 v2 u2"
    and g: "uio_good s u" "n + m \<le> unat (uio_resid u)"
  shows "moved s v ino (n + m) u s2 v2 u2"
proof -
  let ?o = "nat (uio_offset u)" and ?c = "concat (uio_iov u)"
  have n: "n \<le> unat (uio_resid u)" using g(2) by simp
  have o: "nat (uio_offset u1) = ?o + n" using moved_good(4) [OF a g(1) n] g(1) by (simp add: uio_good_def nat_add_distrib)
  have rw: "uio_rw u1 = uio_rw u" by (rule moved_good(3) [OF a g(1) n])
  have f1: "fbyte s1 (sv_i v1) = (if uio_rw u = UIO_WRITE then wr_bytes (fbyte s (sv_i v)) ?o (take n ?c) else fbyte s (sv_i v))"
    using a by (simp add: moved_def fstep_def)
  have c1: "concat (uio_iov u1) = drop n ?c" using a by (simp add: moved_def uio_after_def)
  have len: "n + m \<le> length ?c" using g by (simp add: uio_good_def uio_ok_def)
  have fs: "fstep s v ino (if uio_rw u = UIO_WRITE then wr_bytes (fbyte s (sv_i v)) ?o (take (n + m) ?c)
      else fbyte s (sv_i v)) s2 v2"
  proof -
    have "fstep s1 v1 ino (if uio_rw u = UIO_WRITE then wr_bytes (fbyte s (sv_i v)) ?o (take (n + m) ?c)
      else fbyte s (sv_i v)) s2 v2"
      using b wr_bytes_append [of "fbyte s (sv_i v)" ?o "take n ?c" "take m (drop n ?c)"] len
      unfolding moved_def rw f1 o c1 by (simp add: take_add split: if_splits)
    then show ?thesis using fstep_trans a unfolding moved_def by blast
  qed
  have "uio_after (map (fbyte s (sv_i v)) [?o..<?o + (n + m)]) (n + m) u u2"
  proof (rule uio_after_trans)
    show "uio_after (map (fbyte s (sv_i v)) [?o..<?o + n]) n u u1" using a by (simp add: moved_def)
    show "uio_after (map (fbyte s1 (sv_i v1)) [?o + n..<?o + n + m]) m u1 u2" using b o by (simp add: moved_def)
    show "map (fbyte s (sv_i v)) [?o..<?o + (n + m)] = map (fbyte s (sv_i v)) [?o..<?o + n] @
        map (fbyte s1 (sv_i v1)) [?o + n..<?o + n + m]" if "uio_rw u = UIO_READ"
      using that f1 upt_add_eq_append [of ?o "?o + n" m] by (simp add: add.assoc)
  qed simp_all
  then show ?thesis using fs by (simp add: moved_def)
qed

definition io_result :: "(unit, sfs_fs \<times> uio) res \<Rightarrow> sfs_fs \<Rightarrow> sfs_vnode \<Rightarrow> u32 \<Rightarrow> nat \<Rightarrow> uio \<Rightarrow> bool" where
  "io_result r s v ino n u \<longleftrightarrow>
     (\<exists>s' v' u'. r = Ok () (s', u') \<and> moved s v ino n u s' v' u') \<or>
     (\<exists>e m s' v' u'. r = Err e (s', u') \<and> m < n \<and> moved s v ino m u s' v' u' \<and>
        (e = ENOSPC \<and> uio_rw u = UIO_WRITE \<and> fs_full s' \<or>
         e = EFBIG \<and> 143 * 512 < uio_offset u + int n \<and> 143 * 512 \<le> uio_offset u + int m))"

lemma nth_splice:
  "k + length xs \<le> length buf \<Longrightarrow> q < length buf \<Longrightarrow>
   (take k buf @ xs @ drop (k + length xs) buf) ! q = (if k \<le> q \<and> q < k + length xs then xs ! (q - k) else buf ! q)"
  by (auto simp: nth_append)

lemma block_bytes:
  fixes f :: "nat \<Rightarrow> byte"
  assumes "length buf = 512" "\<And>q. q < 512 \<Longrightarrow> buf ! q = f (512 * (pos div 512) + q)" "pos mod 512 + length xs \<le> 512"
  shows "(\<lambda>p. if p div 512 = pos div 512
      then (take (pos mod 512) buf @ xs @ drop (pos mod 512 + length xs) buf) ! (p mod 512) else f p) = wr_bytes f pos xs"
    (is "?l = ?r")
proof
  fix p :: nat
  let ?i = "pos div 512" and ?k = "pos mod 512"
  have pos: "pos = 512 * ?i + ?k" "p = 512 * (p div 512) + p mod 512" "p mod 512 < 512" by simp_all
  show "?l p = ?r p"
  proof (cases "p div 512 = ?i")
    case True
    let ?q = "p mod 512"
    have p: "p = 512 * ?i + ?q" using pos(2) True by simp
    have "pos \<le> p \<longleftrightarrow> ?k \<le> ?q" "p < pos + length xs \<longleftrightarrow> ?q < ?k + length xs" "p - pos = ?q - ?k"
      using p pos(1) by linarith+
    then have r: "?r p = (if ?k \<le> ?q \<and> ?q < ?k + length xs then xs ! (?q - ?k) else buf ! ?q)"
      using assms(2) [OF pos(3)] p unfolding wr_bytes_def by metis
    have "(take ?k buf @ xs @ drop (?k + length xs) buf) ! ?q =
        (if ?k \<le> ?q \<and> ?q < ?k + length xs then xs ! (?q - ?k) else buf ! ?q)"
      by (rule nth_splice) (use assms(1,3) pos(3) in simp_all)
    then show ?thesis using True r by simp
  next
    case False
    have "\<not> (pos \<le> p \<and> p < pos + length xs)"
    proof
      assume "pos \<le> p \<and> p < pos + length xs"
      then have "512 * ?i \<le> p" "p < 512 * ?i + 512" using pos(1) assms(3) by linarith+
      then show False using False by (simp add: div_nat_eqI)
    qed
    then show ?thesis using False by (auto simp: wr_bytes_def)
  qed
qed

lemma uio_after_cong: "uio_after p n u u' \<Longrightarrow> take n p = take n q \<Longrightarrow> uio_after q n u u'"
  by (simp add: uio_after_def)

text \<open>The buffer holding a file block: its bytes are those of the file.\<close>

definition blockbuf :: "sfs_fs \<Rightarrow> u32 \<Rightarrow> byte list" where
  "blockbuf s b = (if b = 0 then replicate 512 0 else blk s b)"

lemma blockbuf_fbyte:
  assumes "healthy s" "b = fmap s di (pos div 512)"
  shows "length (blockbuf s b) = 512" "q < 512 \<Longrightarrow> blockbuf s b ! q = fbyte s di (512 * (pos div 512) + q)"
    "pos mod 512 + n \<le> 512 \<Longrightarrow> take n (drop (pos mod 512) (blockbuf s b)) = map (fbyte s di) [pos..<pos + n]"
proof -
  show l: "length (blockbuf s b) = 512" using assms by (simp add: blockbuf_def)
  show q: "q < 512 \<Longrightarrow> blockbuf s b ! q = fbyte s di (512 * (pos div 512) + q)" for q
    using assms(2) by (simp add: blockbuf_def fbyte_def Let_def)
  show "take n (drop (pos mod 512) (blockbuf s b)) = map (fbyte s di) [pos..<pos + n]" if "pos mod 512 + n \<le> 512"
  proof (rule nth_equalityI)
    show "length (take n (drop (pos mod 512) (blockbuf s b))) = length (map (fbyte s di) [pos..<pos + n])"
      using l that by simp
    fix j assume "j < length (take n (drop (pos mod 512) (blockbuf s b)))"
    then have j: "j < n" by simp
    then have "pos mod 512 + j < 512" using that by simp
    from q [OF this] show "take n (drop (pos mod 512) (blockbuf s b)) ! j = map (fbyte s di) [pos..<pos + n] ! j"
      using j l that by (simp add: add.assoc [symmetric])
  qed
qed

lemma fileblock_of:
  assumes "0 \<le> off" "off < 2 ^ 40"
  shows "unat (word_of_int (cdiv off 512) :: u32) = nat off div 512"
proof -
  have "off < 1099511627776" using assms(2) by simp
  then have "off div 512 < 4294967296" "0 \<le> off div 512" using assms(1) by linarith+
  then show ?thesis using assms(1) by (simp add: unat_eq_nat_uint uint_word_of_int nat_div_distrib)
qed

lemma partialio_result:
  assumes ok: "fs_ok s" and v: "vn s ino = Some v" and g: "uio_good s u" "uio_offset u < 2 ^ 40"
    and len: "0 < len" "unat skip = nat (uio_offset u) mod 512" "unat skip + unat len \<le> 512" "len \<le> uio_resid u"
  shows "io_result (sfs_partialio ino skip len (s, u)) s v ino (unat len) u"
proof -
  let ?o = "nat (uio_offset u)" and ?W = "uio_rw u = UIO_WRITE" and ?fb = "word_of_int (cdiv (uio_offset u) 512) :: u32"
  have g': "uio_ok u" "uio_nofault u" "uio_space_ok (curas s) u" "0 \<le> uio_offset u" using g(1) by (simp_all add: uio_good_def)
  have fb: "unat ?fb = ?o div 512" by (rule fileblock_of [OF g'(4) g(2)])
  have hold: "vfs_biglock_do_i_hold s" using fs_okD(1) [OF ok] by (simp add: healthy_def fs_dev_ok_def vfs_biglock_do_i_hold_def)
  have l0: "0 < unat len" using len(1) by (simp add: u32_less_iff)
  have "unat (skip + len) = unat skip + unat len" using len(3) by (simp add: unat_word_ariths)
  then have as: "skip + len \<le> 512" using len(3) by (simp add: u32_le_iff)
  have cap: "?o div 512 < 143 \<longleftrightarrow> uio_offset u < 143 * 512" using g'(4) by linarith
  define rest where "rest = (\<lambda>diskblock (s, u). kbind
      (if diskblock = 0 then kassert (uio_rw u = UIO_READ) (Ok (replicate SFS_BLOCKSIZE 0) (s, u))
       else onfs u (sfs_readblock diskblock s))
      (\<lambda>iobuf (s, u). kbind (onuio s (uiomove (curas s) (drop (unat skip) iobuf) (unat len) u)) (\<lambda>ptr (s, u).
          let iobuf = take (unat skip) iobuf @ ptr in
          if uio_rw u = UIO_WRITE then onfs u (sfs_writeblock diskblock iobuf s) else Ok () (s, u))))"
  have eq: "sfs_partialio ino skip len (s, u) = kbind (onfs u (sfs_bmap ino ?fb ?W s)) rest"
    using as hold by (simp add: sfs_partialio_def Let_def rest_def)
  note bm = bmap_io [OF ok v, of ?fb ?W, unfolded fb]
  consider (big) "143 \<le> ?o div 512" "sfs_bmap ino ?fb ?W s = Err EFBIG s"
    | (full) s' v' where "?W" "sfs_bmap ino ?fb ?W s = Err ENOSPC s'" "fstep s v ino (fbyte s (sv_i v)) s' v'" "fs_full s'"
    | (got) b s' v' where "sfs_bmap ino ?fb ?W s = Ok b s'" "fstep s v ino (fbyte s (sv_i v)) s' v'"
        "fmap s' (sv_i v') (?o div 512) = b" "?W \<longrightarrow> b \<noteq> 0"
    using bm by (auto split: if_splits)
  then show ?thesis
  proof cases
    case big
    have "moved s v ino 0 u s v u" by (rule moved_0 [OF ok v])
    moreover have "143 * 512 \<le> uio_offset u" using big(1) cap by linarith
    moreover have "0 < int (unat len)" using l0 by (simp only: of_nat_0_less_iff)
    ultimately show ?thesis unfolding io_result_def eq big(2) using l0
      by (intro disjI2 exI [of _ EFBIG] exI [of _ 0] exI [of _ s] exI [of _ v] exI [of _ u]) simp
  next
    case full
    then have "moved s v ino 0 u s' v' u" by (simp add: moved_def uio_after_0)
    then show ?thesis unfolding io_result_def eq full(2) using l0 full(1,4)
      by (intro disjI2 exI [of _ ENOSPC] exI [of _ 0] exI [of _ s'] exI [of _ v'] exI [of _ u]) simp
  next
    case got
    have s': "fs_ok s'" "vn s' ino = Some v'" "curas s' = curas s" "fbyte s' (sv_i v') = fbyte s (sv_i v)"
      using got(2) by (simp_all add: fstep_def)
    have h: "healthy s'" by (rule fs_okD(1) [OF s'(1)])
    let ?buf = "blockbuf s' b"
    note bb = blockbuf_fbyte [OF h got(3) [symmetric]]
    define t where "t = (if b = 0 then s' else touch (blk s' b) s')"
    have bl: "b < lh_blocks (sfs_device s')" if "b \<noteq> 0"
      using fmap_used(2) [OF s'(1) conjunct1 [OF vn_in [OF s'(2)]], of "?o div 512"] got(3) that by simp
    have tf: "fstep s' v' ino (fbyte s' (sv_i v')) t v'"
      using fstep_refl [OF s'(1,2)] touch_fstep [OF s'(1,2)] h by (simp add: t_def)
    then have tt: "fs_ok t" "vn t ino = Some v'" "curas t = curas s" "fbyte t (sv_i v') = fbyte s (sv_i v)"
      using s'(3,4) by (simp_all add: fstep_def)
    have ft: "fmap t = fmap s'" by (rule fmap_blk) (simp add: t_def)
    have rd: "(if b = 0 then kassert (uio_rw u = UIO_READ) (Ok (replicate SFS_BLOCKSIZE 0) (s', u))
        else onfs u (sfs_readblock b s')) = Ok ?buf (t, u)"
      using got(4) readblock_healthy [OF h bl] by (cases "uio_rw u") (auto simp: t_def blockbuf_def SFS_BLOCKSIZE_def)
    have dl: "unat len \<le> length (drop (unat skip) ?buf)" using bb(1) len(3) by simp
    have lr: "unat len \<le> unat (uio_resid u)" using len(4) by (simp add: u32_le_iff)
    obtain u' where u': "uiomove (curas t) (drop (unat skip) ?buf) (unat len) u = Ok (if uio_rw u = UIO_READ
        then drop (unat skip) ?buf else take (unat len) (concat (uio_iov u)) @ drop (unat len) (drop (unat skip) ?buf)) u'"
        "uio_after (drop (unat skip) ?buf) (unat len) u u'"
      using uiomove_ok [OF _ dl lr g'(1,2), of "curas t"] g'(3) tt(3) by auto
    have rw: "uio_rw u' = uio_rw u" using u'(2) by (simp add: uio_after_def)
    have ua: "uio_after (map (fbyte s (sv_i v)) [?o..<?o + unat len]) (unat len) u u'"
      by (rule uio_after_cong [OF u'(2)]) (use bb(3) [of "unat len"] len(2,3) s'(4) in simp)
    show ?thesis
    proof (cases ?W)
      case False
      then have "uio_rw u = UIO_READ" by (cases "uio_rw u") auto
      then have "sfs_partialio ino skip len (s, u) = Ok () (t, u')"
        unfolding eq got(1) using rd u'(1) rw by (simp add: rest_def)
      moreover have "moved s v ino (unat len) u t v' u'"
        using False ua fstep_trans [OF got(2) tf] s'(4) by (simp add: moved_def)
      ultimately show ?thesis unfolding io_result_def by blast
    next
      case True
      let ?xs = "take (unat len) (concat (uio_iov u))"
      have xl: "length ?xs = unat len" using g'(1) lr by (simp add: uio_ok_def)
      let ?nb = "take (unat skip) ?buf @ ?xs @ drop (unat skip + unat len) ?buf"
      have nl: "length ?nb = 512" using bb(1) xl len(3) by simp
      have b0: "b \<noteq> 0" using got(4) True by simp
      have "sfs_writeblock b ?nb t = Ok () (setblk b ?nb t)"
        by (rule writeblock_healthy [OF fs_okD(1) [OF tt(1)] _ nl]) (use bl b0 in \<open>simp add: t_def\<close>)
      then have "sfs_partialio ino skip len (s, u) = Ok () (setblk b ?nb t, u')"
        unfolding eq got(1) using rd u'(1) rw True by (simp add: rest_def add.commute)
      moreover have "(\<lambda>p. if p div 512 = ?o div 512 then ?nb ! (p mod 512) else fbyte t (sv_i v') p) =
          wr_bytes (fbyte s (sv_i v)) ?o ?xs"
      proof -
        have "?buf ! q = fbyte s (sv_i v) (512 * (?o div 512) + q)" if "q < 512" for q using bb(2) [OF that] s'(4) by simp
        from block_bytes [OF bb(1) this, of ?xs, unfolded xl len(2) [symmetric]] show ?thesis
          using len(3) unfolding tt(4) by blast
      qed
      then have "fstep t v' ino (wr_bytes (fbyte s (sv_i v)) ?o ?xs) (setblk b ?nb t) v'"
        using setblk_fstep [OF tt(1,2) _ b0 nl, of "?o div 512"] got(3) ft by simp
      then have "moved s v ino (unat len) u (setblk b ?nb t) v' u'"
        using True ua fstep_trans [OF fstep_trans [OF got(2) tf]] by (simp add: moved_def)
      ultimately show ?thesis unfolding io_result_def by blast
    qed
  qed
qed

text \<open>
  \<^verbatim>\<open>sfs_blockio\<close> computes the byte address of the disk block in 32 bits; it is right on volumes of
  at most \<open>2^23\<close> blocks (4 gigabytes).
\<close>

definition small_vol :: "sfs_fs \<Rightarrow> bool" where
  "small_vol s \<longleftrightarrow> unat (sb_nblocks (sfs_sb s)) \<le> 2 ^ 23"

lemma diskoff_small:
  assumes "small_vol s" "b < sb_nblocks (sfs_sb s)"
  shows "uint (b * 512) = uint b * 512"
proof -
  have "unat b < 2 ^ 23" using assms unfolding small_vol_def u32_less_iff by linarith
  then have "int (unat b) < int (2 ^ 23)" by (simp only: of_nat_less_iff)
  then have "uint b < 8388608" by simp
  then have "uint b * 512 < 4294967296" by linarith
  then show ?thesis using uint_ge_0 [of b] by (simp add: uint_word_ariths)
qed

lemma restore_after:
  assumes a: "uio_after p 512 (u\<lparr>uio_offset := d, uio_resid := 512\<rparr>) w"
  shows "uio_after p 512 u (w\<lparr>uio_offset := uio_offset w - d + uio_offset u, uio_resid := uio_resid w - 512 + uio_resid u\<rparr>)"
  using a by (auto simp: uio_after_def)

lemma blockio_result:
  assumes ok: "fs_ok s" and v: "vn s ino = Some v" and g: "uio_good s u" "uio_offset u < 2 ^ 40"
    and al: "nat (uio_offset u) mod 512 = 0" "512 \<le> uio_resid u" and small: "small_vol s"
  shows "io_result (sfs_blockio ino (s, u)) s v ino 512 u"
proof -
  let ?o = "nat (uio_offset u)" and ?W = "uio_rw u = UIO_WRITE" and ?fb = "word_of_int (cdiv (uio_offset u) 512) :: u32"
  have g': "uio_ok u" "uio_nofault u" "uio_space_ok (curas s) u" "0 \<le> uio_offset u" using g(1) by (simp_all add: uio_good_def)
  have fb: "unat ?fb = ?o div 512" by (rule fileblock_of [OF g'(4) g(2)])
  have lr: "512 \<le> unat (uio_resid u)" using al(2) by (simp add: u32_le_iff)
  define rest where "rest = (\<lambda>(diskblock :: u32) (s, u).
     if diskblock = 0 then kassert (uio_rw u = UIO_READ) (onuio s (uiomovezeros (curas s) SFS_BLOCKSIZE u))
     else kassert (uio_resid u \<ge> 512)
       (case sfs_rwblock (s, u\<lparr>uio_offset := uint (diskblock * 512), uio_resid := 512\<rparr>) of
          Ok _ (s, w) \<Rightarrow> Ok () (s, w\<lparr>uio_offset := uio_offset w - uint (diskblock * 512) + uio_offset u,
            uio_resid := uio_resid w - 512 + uio_resid u\<rparr>)
        | Err e (s, w) \<Rightarrow> Err e (s, w\<lparr>uio_offset := uio_offset w - uint (diskblock * 512) + uio_offset u,
            uio_resid := uio_resid w - 512 + uio_resid u\<rparr>)
        | Panic \<Rightarrow> Panic | Fault \<Rightarrow> Fault | Hang \<Rightarrow> Hang))"
  have eq: "sfs_blockio ino (s, u) = kbind (onfs u (sfs_bmap ino ?fb ?W s)) rest"
    unfolding sfs_blockio_def Let_def rest_def prod.case ..
  note bm = bmap_io [OF ok v, of ?fb ?W, unfolded fb]
  consider (big) "143 \<le> ?o div 512" "sfs_bmap ino ?fb ?W s = Err EFBIG s"
    | (full) s' v' where "?W" "sfs_bmap ino ?fb ?W s = Err ENOSPC s'" "fstep s v ino (fbyte s (sv_i v)) s' v'" "fs_full s'"
    | (got) b s' v' where "sfs_bmap ino ?fb ?W s = Ok b s'" "fstep s v ino (fbyte s (sv_i v)) s' v'"
        "fmap s' (sv_i v') (?o div 512) = b" "?W \<longrightarrow> b \<noteq> 0"
    using bm by (auto split: if_splits)
  then show ?thesis
  proof cases
    case big
    have "moved s v ino 0 u s v u" by (rule moved_0 [OF ok v])
    moreover have "143 * 512 \<le> uio_offset u" using big(1) g'(4) by linarith
    ultimately show ?thesis unfolding io_result_def eq big(2)
      by (intro disjI2 exI [of _ EFBIG] exI [of _ 0] exI [of _ s] exI [of _ v] exI [of _ u]) simp
  next
    case full
    then have "moved s v ino 0 u s' v' u" by (simp add: moved_def uio_after_0)
    then show ?thesis unfolding io_result_def eq full(2) using full(1,4)
      by (intro disjI2 exI [of _ ENOSPC] exI [of _ 0] exI [of _ s'] exI [of _ v'] exI [of _ u]) simp
  next
    case got
    have s': "fs_ok s'" "vn s' ino = Some v'" "curas s' = curas s" "fbyte s' (sv_i v') = fbyte s (sv_i v)" "sfs_sb s' = sfs_sb s"
      using got(2) by (simp_all add: fstep_def)
    have h: "healthy s'" by (rule fs_okD(1) [OF s'(1)])
    have vin: "v' \<in> set (sfs_vnodes s')" using vn_in [OF s'(2)] by simp
    note bb = blockbuf_fbyte [OF h got(3) [symmetric]]
    have seg: "take 512 (blockbuf s' b) = map (fbyte s (sv_i v)) [?o..<?o + 512]"
      using bb(3) [of 512] al(1) s'(4) by simp
    show ?thesis
    proof (cases "b = 0")
      case True
      then have R: "uio_rw u = UIO_READ" using got(4) by (cases "uio_rw u") auto
      obtain u' where u': "uiomovezeros (curas s') 512 u = Ok () u'" "uio_after (replicate 512 0) 512 u u'"
        using uiomovezeros_ok [OF _ lr g'(1,2) R, of "curas s'"] g'(3) s'(3) by auto
      have "uio_after (map (fbyte s (sv_i v)) [?o..<?o + 512]) 512 u u'"
        by (rule uio_after_cong [OF u'(2)]) (use seg True in \<open>simp add: blockbuf_def\<close>)
      then have "moved s v ino 512 u s' v' u'" using R got(2) by (simp add: moved_def)
      moreover have "sfs_blockio ino (s, u) = Ok () (s', u')"
        unfolding eq got(1) using True R u'(1) by (simp add: rest_def SFS_BLOCKSIZE_def)
      ultimately show ?thesis unfolding io_result_def by blast
    next
      case False
      have bl: "b < sb_nblocks (sfs_sb s')" using fs_ok_slot(1) [OF s'(1) vin, of "Suc (Suc (?o div 512))"] got(3) False by simp
      then have off: "uint (b * 512) = uint b * 512" using diskoff_small [of s' b] small s'(5) by (simp add: small_vol_def)
      let ?u = "u\<lparr>uio_offset := uint b * 512, uio_resid := 512\<rparr>"
      have gu: "uio_ok ?u" "uio_nofault ?u" "uio_space_ok (curas s') ?u"
        using g' lr s'(3) by (simp_all add: uio_ok_def uio_nofault_def uio_space_ok_def)
      define t where "t = (if uio_rw u = UIO_READ then touch (blk s' b) s' else setblk b (take 512 (concat (uio_iov u))) s')"
      obtain w where w: "sfs_rwblock (s', ?u) = Ok () (t, w)" "uio_after (blk s' b) 512 ?u w"
        using rwblock_uio [OF h less_le_trans [OF bl fs_okD(3) [OF s'(1)]], of ?u] gu
        by (auto simp: t_def cong del: if_weak_cong)
      let ?w = "w\<lparr>uio_offset := uio_offset w - uint b * 512 + uio_offset u, uio_resid := uio_resid w - 512 + uio_resid u\<rparr>"
      have ua: "uio_after (map (fbyte s (sv_i v)) [?o..<?o + 512]) 512 u ?w"
        by (rule uio_after_cong [OF restore_after [OF w(2)]]) (use seg False in \<open>simp add: blockbuf_def\<close>)
      have r: "sfs_blockio ino (s, u) = Ok () (t, ?w)"
        unfolding eq got(1) using False al(2) w(1) by (simp add: rest_def off)
      have "moved s v ino 512 u t v' ?w"
      proof (cases ?W)
        case W: False
        then have "t = touch (blk s' b) s'" by (cases "uio_rw u") (simp_all add: t_def)
        then have "fstep s' v' ino (fbyte s' (sv_i v')) t v'" using touch_fstep [OF s'(1,2)] h by simp
        then show ?thesis using W ua fstep_trans [OF got(2)] s'(4) by (simp add: moved_def)
      next
        case True
        let ?xs = "take 512 (concat (uio_iov u))"
        have xl: "length ?xs = 512" using g'(1) lr by (simp add: uio_ok_def)
        have "(\<lambda>p. if p div 512 = ?o div 512 then ?xs ! (p mod 512) else fbyte s' (sv_i v') p) =
            wr_bytes (fbyte s (sv_i v)) ?o ?xs"
        proof -
          have e: "take 0 (blockbuf s' b) @ ?xs @ drop (0 + 512) (blockbuf s' b) = ?xs" using bb(1) by simp
          show ?thesis using block_bytes [OF bb(1,2), of ?xs, unfolded xl al(1) e] unfolding s'(4) by simp
        qed
        then have "fstep s' v' ino (wr_bytes (fbyte s (sv_i v)) ?o ?xs) t v'"
          using setblk_fstep [OF s'(1,2) got(3) [symmetric] False xl] True by (simp add: t_def)
        then show ?thesis using True ua fstep_trans [OF got(2)] by (simp add: moved_def)
      qed
      then show ?thesis using r unfolding io_result_def by blast
    qed
  qed
qed

subsection \<open>Whole transfers\<close>

lemma io_result_Ok: "fs_ok s \<Longrightarrow> vn s ino = Some v \<Longrightarrow> io_result (Ok () (s, u)) s v ino 0 u"
  unfolding io_result_def using moved_0 by blast

lemma io_result_bind:
  assumes r: "io_result r s v ino n u" and g: "uio_good s u" "n + m \<le> unat (uio_resid u)"
    and k: "\<And>s' v' u'. moved s v ino n u s' v' u' \<Longrightarrow> io_result (k (s', u')) s' v' ino m u'"
  shows "io_result (kbind r (\<lambda>_ su. k su)) s v ino (n + m) u"
proof -
  consider (ok) s' v' u' where "r = Ok () (s', u')" "moved s v ino n u s' v' u'"
    | (err) e l s' v' u' where "r = Err e (s', u')" "l < n" "moved s v ino l u s' v' u'"
        "e = ENOSPC \<and> uio_rw u = UIO_WRITE \<and> fs_full s' \<or>
         e = EFBIG \<and> 143 * 512 < uio_offset u + int n \<and> 143 * 512 \<le> uio_offset u + int l"
    using r unfolding io_result_def by blast
  then show ?thesis
  proof cases
    case err
    then show ?thesis unfolding io_result_def err(1)
      by (intro disjI2 exI [of _ e] exI [of _ l] exI [of _ s'] exI [of _ v'] exI [of _ u']) auto
  next
    case ok
    have n: "n \<le> unat (uio_resid u)" using g(2) by simp
    note mg = moved_good [OF ok(2) g(1) n]
    have tr: "moved s v ino (n + l) u s2 v2 u2" if "moved s' v' ino l u' s2 v2 u2" "l \<le> m" for l s2 v2 u2
      using moved_trans [OF ok(2) that(1) g(1)] g(2) that(2) by simp
    consider (ok2) s2 v2 u2 where "k (s', u') = Ok () (s2, u2)" "moved s' v' ino m u' s2 v2 u2"
      | (err2) e l s2 v2 u2 where "k (s', u') = Err e (s2, u2)" "l < m" "moved s' v' ino l u' s2 v2 u2"
          "e = ENOSPC \<and> uio_rw u' = UIO_WRITE \<and> fs_full s2 \<or>
           e = EFBIG \<and> 143 * 512 < uio_offset u' + int m \<and> 143 * 512 \<le> uio_offset u' + int l"
      using k [OF ok(2)] unfolding io_result_def by blast
    then show ?thesis
    proof cases
      case ok2
      then show ?thesis unfolding io_result_def ok(1) using tr [OF ok2(2)] by auto
    next
      case err2
      then show ?thesis unfolding io_result_def ok(1) using tr [OF err2(3)] mg(3,4)
        by (intro disjI2 exI [of _ e] exI [of _ "n + l"] exI [of _ s2] exI [of _ v2] exI [of _ u2]) auto
    qed
  qed
qed

lemma moved_small: "moved s v ino n u s' v' u' \<Longrightarrow> small_vol s \<Longrightarrow> small_vol s'"
  by (simp add: moved_def fstep_def small_vol_def)

lemma io_blocks_result:
  assumes "fs_ok s" "vn s ino = Some v" "uio_good s u" "uio_offset u + 512 * int n < 2 ^ 40"
    "nat (uio_offset u) mod 512 = 0" "512 * n \<le> unat (uio_resid u)" "small_vol s"
  shows "io_result (sfs_io_blocks ino n (s, u)) s v ino (512 * n) u"
  using assms
proof (induction n arbitrary: s v u)
  case 0
  then show ?case using io_result_Ok by simp
next
  case (Suc n)
  have g0: "0 \<le> uio_offset u" using Suc.prems(3) by (simp add: uio_good_def)
  have "io_result (kbind (sfs_blockio ino (s, u)) (\<lambda>_ su. sfs_io_blocks ino n su)) s v ino (512 + 512 * n) u"
  proof (rule io_result_bind [OF _ Suc.prems(3)])
    have "512 \<le> uio_resid u" using Suc.prems(6) by (simp add: u32_le_iff)
    then show "io_result (sfs_blockio ino (s, u)) s v ino 512 u"
      using Suc.prems by (intro blockio_result) simp_all
    show "512 + 512 * n \<le> unat (uio_resid u)" using Suc.prems(6) by simp
    fix s' v' u' assume m: "moved s v ino 512 u s' v' u'"
    note mg = moved_good [OF m Suc.prems(3)] moved_small [OF m Suc.prems(7)]
    have r: "512 \<le> unat (uio_resid u)" using Suc.prems(6) by simp
    show "io_result (sfs_io_blocks ino n (s', u')) s' v' ino (512 * n) u'"
    proof (rule Suc.IH)
      show "nat (uio_offset u') mod 512 = 0" using mg(4) [OF r] Suc.prems(5) g0 by (simp add: nat_add_distrib)
      show "uio_offset u' + 512 * int n < 2 ^ 40" using mg(4) [OF r] Suc.prems(4) by simp
      show "512 * n \<le> unat (uio_resid u')" using mg(2) [OF r] Suc.prems(6) by simp
    qed (use mg r in simp_all)
  qed
  then show ?case by simp
qed

lemma io_tail_result:
  assumes ok: "fs_ok s" "vn s ino = Some v" "uio_good s u" "uio_offset u + uint (uio_resid u) < 2 ^ 40"
    and al: "nat (uio_offset u) mod 512 = 0 \<or> uio_resid u = 0" and small: "small_vol s"
  shows "io_result (sfs_io_tail ino (s, u)) s v ino (unat (uio_resid u)) u"
proof (cases "uio_resid u = 0")
  case True
  then show ?thesis using io_result_Ok [OF ok(1,2)] by (simp add: sfs_io_tail_def)
next
  case False
  let ?r = "unat (uio_resid u)" and ?n = "unat (uio_resid u div 512)"
  have n: "?n = ?r div 512" by (simp add: unat_div)
  have g0: "0 \<le> uio_offset u" using ok(3) by (simp add: uio_good_def)
  have al': "nat (uio_offset u) mod 512 = 0" using al False by simp
  then have c: "cmod (uio_offset u) 512 = 0" using g0 nat_mod_distrib [of "uio_offset u" 512] by simp
  have split: "512 * ?n + ?r mod 512 = ?r" unfolding n by simp
  have "int (512 * ?n) \<le> int ?r" using split by linarith
  then have b: "uio_offset u + 512 * int ?n < 2 ^ 40" using ok(4) by simp
  have "io_result (kbind (sfs_io_blocks ino ?n (s, u)) (\<lambda>_ su. kassert (uio_resid (snd su) < 512)
      (if uio_resid (snd su) > 0 then sfs_partialio ino 0 (uio_resid (snd su)) su else Ok () su)))
      s v ino (512 * ?n + ?r mod 512) u"
  proof (rule io_result_bind [OF _ ok(3)])
    show "io_result (sfs_io_blocks ino ?n (s, u)) s v ino (512 * ?n) u"
      by (rule io_blocks_result [OF ok(1-3) b al' _ small]) (use split in linarith)
    show "512 * ?n + ?r mod 512 \<le> ?r" using split by simp
    fix s' v' u' assume m: "moved s v ino (512 * ?n) u s' v' u'"
    have le: "512 * ?n \<le> ?r" using split by linarith
    note mg = moved_good [OF m ok(3) le]
    have r: "unat (uio_resid u') = ?r mod 512" using mg(2) split by linarith
    then have lt: "uio_resid u' < 512" by (simp add: u32_less_iff)
    show "io_result (kassert (uio_resid (snd (s', u')) < 512) (if uio_resid (snd (s', u')) > 0
        then sfs_partialio ino 0 (uio_resid (snd (s', u'))) (s', u') else Ok () (s', u'))) s' v' ino (?r mod 512) u'"
    proof (cases "uio_resid u' > 0")
      case True
      have "io_result (sfs_partialio ino 0 (uio_resid u') (s', u')) s' v' ino (unat (uio_resid u')) u'"
      proof (rule partialio_result [OF mg(5,6,1)])
        show "uio_offset u' < 2 ^ 40" using mg(4) b by simp
        show "unat 0 = nat (uio_offset u') mod 512" using mg(4) al' g0 by (simp add: nat_add_distrib nat_mult_distrib)
        show "unat 0 + unat (uio_resid u') \<le> 512" using r mod_less_divisor [of 512 ?r] by simp
      qed (use True in simp_all)
      then show ?thesis using True lt r by simp
    next
      case False
      then have z: "?r mod 512 = 0" using r by (simp add: word_gt_0)
      show ?thesis using False lt io_result_Ok [OF mg(5,6), of u'] by (simp add: z)
    qed
  qed
  then show ?thesis using False c split by (simp add: sfs_io_tail_def)
qed

lemma io_body_result:
  assumes ok: "fs_ok s" "vn s ino = Some v" "uio_good s u" "uio_offset u + uint (uio_resid u) < 2 ^ 40"
    and r0: "uio_resid u \<noteq> 0" and small: "small_vol s"
  shows "io_result (sfs_io_body ino (s, u)) s v ino (unat (uio_resid u)) u"
proof -
  let ?o = "nat (uio_offset u)" and ?r = "unat (uio_resid u)"
  define kk where "kk = (word_of_int (cmod (uio_offset u) 512) :: u32)"
  have g0: "0 \<le> uio_offset u" using ok(3) by (simp add: uio_good_def)
  have k: "unat kk = ?o mod 512"
  proof -
    have "uio_offset u mod 512 < 4294967296" "0 \<le> uio_offset u mod 512" using g0 pos_mod_bound [of 512 "uio_offset u"] by simp_all
    then show ?thesis using g0 by (simp add: kk_def unat_eq_nat_uint uint_word_of_int nat_mod_distrib)
  qed
  have lim: "uio_offset u < 2 ^ 40" using ok(4) uint_ge_0 [of "uio_resid u"] by linarith
  show ?thesis
  proof (cases "kk = 0")
    case True
    then have "?o mod 512 = 0" using k by simp
    then have "io_result (sfs_io_tail ino (s, u)) s v ino ?r u" by (intro io_tail_result [OF ok _ small]) simp
    then show ?thesis using True by (simp add: sfs_io_body_def kk_def [symmetric])
  next
    case False
    define l where "l = (if 512 - kk > uio_resid u then uio_resid u else 512 - kk)"
    have "unat kk \<noteq> 0" using False unat_eq_zero [of kk] by blast
    then have kp: "0 < unat kk" "unat kk < 512" using k by simp_all
    have lk: "unat (512 - kk) = 512 - unat kk" using kp(2) by (simp add: unat_sub u32_le_iff)
    have l: "unat l = min (512 - unat kk) ?r" using lk by (simp add: l_def u32_less_iff min_def)
    have "?r \<noteq> 0" using r0 unat_eq_zero [of "uio_resid u"] by blast
    then have "0 < unat l" using kp l by simp
    then have lp: "0 < l" by (simp add: u32_less_iff)
    have lle: "l \<le> uio_resid u" using l by (simp add: u32_le_iff)
    have p: "io_result (sfs_partialio ino kk l (s, u)) s v ino (unat l) u"
      by (rule partialio_result [OF ok(1-3) lim lp k _ lle]) (use l kp in linarith)
    have lr: "unat l \<le> ?r" using l by simp
    have "io_result (kbind (sfs_partialio ino kk l (s, u)) (\<lambda>_ su. sfs_io_tail ino su)) s v ino (unat l + (?r - unat l)) u"
    proof (rule io_result_bind [OF p ok(3)])
      show "unat l + (?r - unat l) \<le> ?r" using lr by simp
      fix s' v' u' assume m: "moved s v ino (unat l) u s' v' u'"
      note mg = moved_good [OF m ok(3) lr]
      have "int (unat (uio_resid u')) = int ?r - int (unat l)" unfolding mg(2) by (rule of_nat_diff [OF lr])
      then have e: "uio_offset u' + uint (uio_resid u') = uio_offset u + uint (uio_resid u)" using mg(4) by simp
      have al: "nat (uio_offset u') mod 512 = 0 \<or> uio_resid u' = 0"
      proof (cases "512 - unat kk \<le> ?r")
        case True
        have "nat (uio_offset u') = ?o + unat l" unfolding mg(4) using g0 by (simp add: nat_add_distrib)
        moreover have "unat l = 512 - ?o mod 512" using True l k by simp
        moreover have "(?o + (512 - ?o mod 512)) mod 512 = 0"
        proof -
          have "?o + (512 - ?o mod 512) = 512 * (?o div 512) + 512"
            using mult_div_mod_eq [of 512 ?o] mod_less_divisor [of 512 ?o] by linarith
          then show ?thesis by simp
        qed
        ultimately show ?thesis by simp
      next
        case False
        then have "unat (uio_resid u') = 0" using mg(2) l by simp
        then show ?thesis using unat_eq_zero [of "uio_resid u'"] by blast
      qed
      have "io_result (sfs_io_tail ino (s', u')) s' v' ino (unat (uio_resid u')) u'"
        by (rule io_tail_result [OF mg(5,6,1) _ al moved_small [OF m small]]) (use e ok(4) in simp)
      then show "io_result (sfs_io_tail ino (s', u')) s' v' ino (?r - unat l) u'" unfolding mg(2) .
    qed
    then have "io_result (kbind (sfs_partialio ino kk l (s, u)) (\<lambda>_ su. sfs_io_tail ino su)) s v ino ?r u"
      unfolding le_add_diff_inverse [OF lr] .
    then show ?thesis using False unfolding sfs_io_body_def Let_def snd_conv kk_def [symmetric] l_def [symmetric] by simp
  qed
qed

lemma int_unat_u32: "uint (x :: u32) = int (unat x)"
  by simp

lemma uint_of_int_u32: "0 \<le> a \<Longrightarrow> a < 2 ^ 32 \<Longrightarrow> uint (word_of_int a :: u32) = a"
  unfolding uint_word_of_int by simp

text \<open>
  A step as \<open>fstep\<close> that also leaves the size of the file as \<open>z\<close>.
\<close>

definition fwrote :: "sfs_fs \<Rightarrow> sfs_vnode \<Rightarrow> u32 \<Rightarrow> (nat \<Rightarrow> byte) \<Rightarrow> u32 \<Rightarrow> sfs_fs \<Rightarrow> sfs_vnode \<Rightarrow> bool" where
  "fwrote s v ino f z s' v' \<longleftrightarrow> fs_ok s' \<and> sfs_sb s' = sfs_sb s \<and> biglock s' = biglock s \<and> curas s' = curas s \<and>
     vn s' ino = Some v' \<and> fbyte s' (sv_i v') = f \<and> sfi_size (sv_i v') = z \<and> sfi_type (sv_i v') = sfi_type (sv_i v) \<and>
     sfi_linkcount (sv_i v') = sfi_linkcount (sv_i v) \<and> vn_refcount v' = vn_refcount v \<and>
     (\<forall>j. j \<noteq> ino \<longrightarrow> vn s' j = vn s j \<and> (\<forall>w. vn s j = Some w \<longrightarrow> fbyte s' (sv_i w) = fbyte s (sv_i w))) \<and>
     used s \<subseteq> used s' \<and> (\<forall>c \<in> fblocks s' v'. unat c \<in> used s \<longrightarrow> c \<in> fblocks s v) \<and>
     (\<forall>c. unat c \<in> used s \<and> c \<notin> fblocks s v \<longrightarrow> blk s' c = blk s c)"

lemma fstep_fwrote: "fstep s v ino f s' v' \<Longrightarrow> fwrote s v ino f (sfi_size (sv_i v)) s' v'"
  by (simp add: fstep_def fwrote_def meta_eq_def)

text \<open>Changing fields of an inode that do not concern its blocks.\<close>

lemma upd_meta:
  assumes ok: "fs_ok s" and v: "vn s ino = Some v"
    and f: "\<And>d. sfi_direct (f d) = sfi_direct d" "\<And>d. sfi_indirect (f d) = sfi_indirect d" "\<And>d. sfi_waste (f d) = sfi_waste d"
  shows "fs_ok (upd_inode ino f s)" "fbyte (upd_inode ino f s) d = fbyte s d" "fbyte s (f d) = fbyte s d"
    "fblocks (upd_inode ino f s) (v\<lparr>sv_i := f (sv_i v), sv_dirty := True\<rparr>) = fblocks s v"
    "vn (upd_inode ino f s) ino = Some (v\<lparr>sv_i := f (sv_i v), sv_dirty := True\<rparr>)"
proof -
  let ?s = "upd_inode ino f s" and ?v = "v\<lparr>sv_i := f (sv_i v), sv_dirty := True\<rparr>"
  have vin: "v \<in> set (sfs_vnodes s)" "sv_ino v = ino" using vn_in [OF v] by auto
  have fb: "fmap ?s = fmap s" by (rule fmap_blk) simp
  have fm: "fmap s (f d) = fmap s d" for d by (simp add: fmap_def f fun_eq_iff)
  show "fbyte ?s d = fbyte s d" "fbyte s (f d) = fbyte s d" by (simp_all add: fbyte_def fun_eq_iff fb fm Let_def)
  have sl: "slot ?s ?v k = slot s v k" for k using fb fm f by (cases k rule: slot_cases) simp_all
  then show "fblocks ?s ?v = fblocks s v" by (simp add: fblocks_def)
  show "vn ?s ino = Some ?v" using v by (simp add: vn_upd_inode)
  show "fs_ok ?s"
  proof (rule fs_ok_drop_slots [OF ok v, where D = "{}" and v' = ?v])
    show "sfs_vnodes ?s = map (\<lambda>w. if sv_ino w = ino then ?v else w) (sfs_vnodes s)"
      by (rule upd_inode_vnodes [OF ok v]) simp
    show "dinode_ok (sv_i ?v)" using fs_ok_dinode [OF ok vin(1)] f by (simp add: dinode_ok_def)
    show "slot ?s w k = slot s w k" for w k by (rule slot_blk) simp
  qed (use fs_okD [OF ok] vin sl in \<open>simp_all add: owned_def\<close>)
qed

lemma fwrote_size:
  assumes "fstep s v ino f t w"
  shows "fwrote s v ino f z (upd_inode ino (\<lambda>i. i\<lparr>sfi_size := z\<rparr>) t) (w\<lparr>sv_i := (sv_i w)\<lparr>sfi_size := z\<rparr>, sv_dirty := True\<rparr>)"
proof -
  have t: "fs_ok t" "vn t ino = Some w" using assms by (simp_all add: fstep_def)
  note u = upd_meta [OF t, of "\<lambda>i. i\<lparr>sfi_size := z\<rparr>", simplified]
  show ?thesis using assms u by (simp add: fstep_def fwrote_def meta_eq_def vn_upd_inode)
qed

lemma fwrote_or_size:
  assumes m: "moved s v ino m u t w u'" and g: "uio_good s u" "m \<le> unat (uio_resid u)" "uio_rw u = UIO_WRITE"
    and lim: "uio_offset u + int m < 2 ^ 32"
  shows "\<exists>s' v'. sfs_io_out ino (uio_resid u) 0 res (t, u') =
      (case res of None \<Rightarrow> Ok () (s', u') | Some e \<Rightarrow> Err e (s', u')) \<and>
    fwrote s v ino (wr_bytes (fbyte s (sv_i v)) (nat (uio_offset u)) (take m (concat (uio_iov u))))
      (if 0 < m then max (sfi_size (sv_i v)) (word_of_int (uio_offset u + int m)) else sfi_size (sv_i v)) s' v' \<and>
    (fs_full t \<longrightarrow> fs_full s')"
proof -
  note mg = moved_good [OF m g(1,2)]
  have fs: "fstep s v ino (wr_bytes (fbyte s (sv_i v)) (nat (uio_offset u)) (take m (concat (uio_iov u)))) t w"
    using m g(3) by (simp add: moved_def)
  have rs: "uio_resid u' \<noteq> uio_resid u \<longleftrightarrow> 0 < m"
    using mg(2) g(2) unat_eq_zero [of "uio_resid u"] by (auto simp: word_unat_eq_iff)
  let ?z = "word_of_int (uio_offset u + int m) :: u32"
  have "0 \<le> uio_offset u" using g(1) by (simp add: uio_good_def)
  then have uz: "uint ?z = uio_offset u + int m" using lim unfolding uint_word_of_int by simp
  have out: "sfs_io_out ino (uio_resid u) 0 res (t, u') =
      (let s' = (if 0 < m \<and> uint (sfi_size (sv_i v)) < uint ?z then upd_inode ino (\<lambda>i. i\<lparr>sfi_size := ?z\<rparr>) t else t)
       in case res of None \<Rightarrow> Ok () (s', u') | Some e \<Rightarrow> Err e (s', u'))"
    using rs mg(3,4,8) g(3) uz by (cases res) (simp_all add: sfs_io_out_def getv_vn [OF mg(6)] Let_def)
  show ?thesis
  proof (cases "0 < m \<and> uint (sfi_size (sv_i v)) < uint ?z")
    case True
    then have mx: "max (sfi_size (sv_i v)) ?z = ?z" by (simp add: word_less_def max_def word_le_def)
    have s: "(if 0 < m then max (sfi_size (sv_i v)) ?z else sfi_size (sv_i v)) = ?z" using True mx by (simp only: if_True)
    have full: "fs_full (upd_inode ino (\<lambda>i. i\<lparr>sfi_size := ?z\<rparr>) t) = fs_full t" by (simp add: fs_full_def)
    show ?thesis unfolding out s Let_def if_P [OF True] using fwrote_size [OF fs, of ?z] full by blast
  next
    case False
    then have "?z \<le> sfi_size (sv_i v)" if "0 < m" using that unfolding word_le_def by linarith
    then have s: "(if 0 < m then max (sfi_size (sv_i v)) ?z else sfi_size (sv_i v)) = sfi_size (sv_i v)"
      by (cases "0 < m") (simp_all only: if_True if_False max_absorb1)
    show ?thesis unfolding out s Let_def if_not_P [OF False] using fstep_fwrote [OF fs] by blast
  qed
qed

text \<open>
  \<^bold>\<open>C30.\<close> Reading a file of at most 143 blocks on a volume in order transfers exactly the bytes of
  the file from the offset to the end of the request or of the file, whichever is first, with
  zeros for holes; nothing past the end of the file is transferred, the residual count says how
  much was not, and no file changes.
\<close>

theorem sfs_io_reads:
  assumes ok: "fs_ok s" "vn s ino = Some v" "uio_good s u" "uio_offset u + uint (uio_resid u) < 2 ^ 32"
    and r0: "uio_resid u \<noteq> 0" and small: "small_vol s" and rw: "uio_rw u = UIO_READ"
    and sz: "unat (sfi_size (sv_i v)) \<le> 143 * 512"
    and n: "n = min (unat (uio_resid u)) (unat (sfi_size (sv_i v)) - nat (uio_offset u))"
  shows "\<exists>s' v' u'. sfs_io ino (s, u) = Ok () (s', u') \<and> fstep s v ino (fbyte s (sv_i v)) s' v' \<and>
    uio_out u' = uio_out u @ map (fbyte s (sv_i v)) [nat (uio_offset u)..<nat (uio_offset u) + n] \<and>
    unat (uio_resid u') = unat (uio_resid u) - n \<and> uio_offset u' = uio_offset u + int n"
proof -
  let ?z = "uint (sfi_size (sv_i v))" and ?r = "uint (uio_resid u)"
  have g0: "0 \<le> uio_offset u" using ok(3) by (simp add: uio_good_def)
  have zz: "?z = int (unat (sfi_size (sv_i v)))" "?r = int (unat (uio_resid u))" by simp_all
  have rp: "0 < unat (uio_resid u)" using r0 unat_eq_zero [of "uio_resid u"] by blast
  show ?thesis
  proof (cases "uio_offset u \<ge> ?z")
    case True
    then have "n = 0" using n g0 zz(1) by linarith
    moreover have "sfs_io ino (s, u) = Ok () (s, u)" using True rw by (simp add: sfs_io_def getv_vn [OF ok(2)] Let_def)
    ultimately show ?thesis using fstep_refl [OF ok(1,2)] by auto
  next
    case False
    define x where "x = (if uio_offset u + ?r > ?z then word_of_int (uio_offset u + ?r - ?z) else 0 :: u32)"
    have ux: "uint x = (if uio_offset u + ?r > ?z then uio_offset u + ?r - ?z else 0)"
    proof (cases "uio_offset u + ?r > ?z")
      case True
      moreover have "uio_offset u + ?r - ?z < 2 ^ 32" using ok(4) uint_ge_0 [of "sfi_size (sv_i v)"] by linarith
      ultimately have "uint (word_of_int (uio_offset u + ?r - ?z) :: u32) = uio_offset u + ?r - ?z"
        by (intro uint_of_int_u32) simp_all
      then show ?thesis using True unfolding x_def by (simp only: if_True)
    qed (simp add: x_def)
    have "int n = (if uio_offset u + ?r > ?z then ?z - uio_offset u else ?r)"
      using n False g0 zz by (simp only: split: if_split) linarith
    then have "uint x = ?r - int n" using ux by (simp only: split: if_split) linarith
    then have "int (unat x) = int (unat (uio_resid u)) - int n" by simp
    then have xn: "unat x = unat (uio_resid u) - n" "n \<le> unat (uio_resid u)" using n by linarith+
    have np: "0 < n" using n False rp g0 zz(1) by linarith
    have xr: "x < uio_resid u" "x \<le> uio_resid u" using xn np rp by (simp_all only: u32_less_iff u32_le_iff)
    let ?u = "u\<lparr>uio_resid := uio_resid u - x\<rparr>"
    have rn: "unat (uio_resid ?u) = n" using unat_sub [OF xr(2)] xn by simp
    have gu: "uio_good s ?u" using ok(3) rn xn(2)
      by (simp add: uio_good_def uio_ok_def uio_nofault_def uio_space_ok_def)
    have le: "uio_offset u + int n \<le> 143 * 512" using n sz False zz(1) g0 by linarith
    have "uint (uio_resid ?u) = int n" using rn by (metis int_unat_u32)
    then have lim: "uio_offset ?u + uint (uio_resid ?u) < 2 ^ 40" using le by simp
    have "uio_resid ?u \<noteq> 0" using rn np unat_eq_zero [of "uio_resid ?u"] by linarith
    then have "io_result (sfs_io_body ino (s, ?u)) s v ino n ?u"
      using io_body_result [OF ok(1,2) gu lim _ small] unfolding rn by blast
    then obtain s' v' u' where b: "sfs_io_body ino (s, ?u) = Ok () (s', u')" "moved s v ino n ?u s' v' u'"
      using rw le by (auto simp: io_result_def)
    note mg = moved_good [OF b(2) gu, unfolded rn, OF order_refl]
    have "sfs_io ino (s, u) = sfs_io_out ino (uio_resid u) x None (s', u')"
      using b(1) rw False xr(1) unfolding sfs_io_def Let_def prod.case getv_vn [OF ok(2)]
      by (cases "uio_offset u + ?r > ?z") (simp_all add: x_def)
    also have "\<dots> = Ok () (s', u'\<lparr>uio_resid := uio_resid u' + x\<rparr>)"
      using mg(3) rw by (simp add: sfs_io_out_def getv_vn [OF mg(6)] Let_def)
    finally have res: "sfs_io ino (s, u) = Ok () (s', u'\<lparr>uio_resid := uio_resid u' + x\<rparr>)" .
    have "unat (uio_resid u') = 0" using mg(2) by simp
    then have "uio_resid u' + x = x" using unat_eq_zero [of "uio_resid u'"] by simp
    then show ?thesis using res b(2) mg(4) rw xn by (auto simp: moved_def uio_after_def)
  qed
qed

text \<open>
  \<^bold>\<open>C23.\<close> Writing a file on a volume in order either transfers the whole request or fails with
  \<^verbatim>\<open>ENOSPC\<close> (no free block is left) or \<^verbatim>\<open>EFBIG\<close> (the request goes past block 142) after \<open>m\<close> bytes.
  In each case exactly the bytes transferred are in the file at their positions, all other bytes
  of it and of all other files are as before, the size is the larger of the old size and the end
  of what was written, and offset and residual count have moved by \<open>m\<close>. Volume invariants hold.
\<close>

theorem sfs_io_writes:
  assumes ok: "fs_ok s" "vn s ino = Some v" "uio_good s u" "uio_offset u + uint (uio_resid u) < 2 ^ 32"
    and r0: "uio_resid u \<noteq> 0" and small: "small_vol s" and rw: "uio_rw u = UIO_WRITE"
  shows "\<exists>m s' v' u'.
    (sfs_io ino (s, u) = Ok () (s', u') \<and> m = unat (uio_resid u) \<or>
     m < unat (uio_resid u) \<and>
       (sfs_io ino (s, u) = Err ENOSPC (s', u') \<and> fs_full s' \<or>
        sfs_io ino (s, u) = Err EFBIG (s', u') \<and> 143 * 512 < uio_offset u + uint (uio_resid u))) \<and>
    fwrote s v ino (wr_bytes (fbyte s (sv_i v)) (nat (uio_offset u)) (take m (concat (uio_iov u))))
      (if 0 < m then max (sfi_size (sv_i v)) (word_of_int (uio_offset u + int m)) else sfi_size (sv_i v)) s' v' \<and>
    unat (uio_resid u') = unat (uio_resid u) - m \<and> uio_offset u' = uio_offset u + int m"
proof -
  let ?r = "unat (uio_resid u)"
  have lim: "uio_offset u + uint (uio_resid u) < 2 ^ 40" using ok(4) by simp
  have sm: "uio_offset u + int m < 2 ^ 32" if "m \<le> ?r" for m
    using ok(4) that unfolding int_unat_u32 by linarith
  have io: "sfs_io ino (s, u) = (case sfs_io_body ino (s, u) of
      Ok _ su \<Rightarrow> sfs_io_out ino (uio_resid u) 0 None su
    | Err e su \<Rightarrow> sfs_io_out ino (uio_resid u) 0 (Some e) su
    | Panic \<Rightarrow> Panic | Fault \<Rightarrow> Fault | Hang \<Rightarrow> Hang)"
    using rw by (simp add: sfs_io_def getv_vn [OF ok(2)] Let_def)
  have "io_result (sfs_io_body ino (s, u)) s v ino ?r u" by (rule io_body_result [OF ok(1-3) lim r0 small])
  then consider (ok) t w u' where "sfs_io_body ino (s, u) = Ok () (t, u')" "moved s v ino ?r u t w u'"
    | (err) e m t w u' where "sfs_io_body ino (s, u) = Err e (t, u')" "m < ?r" "moved s v ino m u t w u'"
        "e = ENOSPC \<and> fs_full t \<or> e = EFBIG \<and> 143 * 512 < uio_offset u + uint (uio_resid u)"
    unfolding io_result_def int_unat_u32 by blast
  then show ?thesis
  proof cases
    case ok': ok
    note mg = moved_good [OF ok'(2) ok(3) order_refl]
    obtain s' v' where o: "sfs_io_out ino (uio_resid u) 0 None (t, u') = Ok () (s', u')"
      "fwrote s v ino (wr_bytes (fbyte s (sv_i v)) (nat (uio_offset u)) (take ?r (concat (uio_iov u))))
        (if 0 < ?r then max (sfi_size (sv_i v)) (word_of_int (uio_offset u + int ?r)) else sfi_size (sv_i v)) s' v'"
      using fwrote_or_size [OF ok'(2) ok(3) order_refl rw sm [OF order_refl], of None] unfolding option.case by blast
    have "sfs_io ino (s, u) = Ok () (s', u')" unfolding io ok'(1) by (simp add: o(1))
    then show ?thesis using o(2) mg(2,4) by blast
  next
    case err
    then have le: "m \<le> ?r" by simp
    note mg = moved_good [OF err(3) ok(3) le]
    obtain s' v' where o: "sfs_io_out ino (uio_resid u) 0 (Some e) (t, u') = Err e (s', u')" "fs_full t \<longrightarrow> fs_full s'"
      "fwrote s v ino (wr_bytes (fbyte s (sv_i v)) (nat (uio_offset u)) (take m (concat (uio_iov u))))
        (if 0 < m then max (sfi_size (sv_i v)) (word_of_int (uio_offset u + int m)) else sfi_size (sv_i v)) s' v'"
      using fwrote_or_size [OF err(3) ok(3) le rw sm [OF le], of "Some e"] unfolding option.case by blast
    have "sfs_io ino (s, u) = Err e (s', u')" unfolding io err(1) by (simp add: o(1))
    then show ?thesis using o(2,3) mg(2,4) err(2,4) by blast
  qed
qed

definition demo_write :: uio where
  "demo_write = uio_kinit (replicate 700 7) 100 UIO_WRITE"

definition demo_read :: uio where
  "demo_read = uio_kinit (replicate 700 0) 0 UIO_READ"

lemma demo_uio_good: "uio_good demo_vol demo_write" "uio_good demo_vol demo_read" "small_vol demo_vol"
  "uio_resid demo_write = 700" "uio_resid demo_read = 700" "uio_offset demo_write = 100" "uio_offset demo_read = 0"
  "uio_rw demo_write = UIO_WRITE" "uio_rw demo_read = UIO_READ"
  by (simp_all add: demo_write_def demo_read_def uio_kinit_def uio_good_def uio_ok_def uio_nofault_def
      uio_space_ok_def small_vol_def demo_vol_def demo_fs_def)

theorem sfs_io_reads_witness:
  "\<exists>s' u'. sfs_io 2 (demo_vol, demo_read) = Ok () (s', u') \<and> unat (uio_resid u') = 700"
  using sfs_io_reads [OF demo_vol_ok demo_vol_vn demo_uio_good(2) _ _ demo_uio_good(3,9) _ refl]
  by (auto simp: demo_uio_good demo_vnode_def empty_inode_def)

theorem sfs_io_writes_witness:
  "\<exists>m s' v' u'. uio_offset u' = 100 + int m \<and>
     (sfs_io 2 (demo_vol, demo_write) = Ok () (s', u') \<or> sfs_io 2 (demo_vol, demo_write) = Err ENOSPC (s', u')) \<and>
     fwrote demo_vol demo_vnode 2 (wr_bytes (fbyte demo_vol (sv_i demo_vnode)) (nat 100) (take m (concat (uio_iov demo_write))))
       (if 0 < m then max (sfi_size (sv_i demo_vnode)) (word_of_int (100 + int m)) else sfi_size (sv_i demo_vnode)) s' v'"
proof -
  have lim: "uio_offset demo_write + uint (uio_resid demo_write) < 2 ^ 32" "uio_resid demo_write \<noteq> 0"
    "\<not> 143 * 512 < uio_offset demo_write + uint (uio_resid demo_write)" by (simp_all add: demo_uio_good)
  from sfs_io_writes [OF demo_vol_ok demo_vol_vn demo_uio_good(1) lim(1,2) demo_uio_good(3,8)] lim(3)
  show ?thesis unfolding demo_uio_good(6) by blast
qed

end
