(* ===== verification/SfsInode.thy ===== *)
theory SfsInode
  imports SfsIo
begin

text \<open>
  Inodes and vnodes: \<^verbatim>\<open>kern/fs/sfs/sfs_inode.c\<close> and the reference counts of
  \<^verbatim>\<open>kern/vfs/vnode.c\<close>.

  The volume's table \<open>sfs_vnodes\<close> holds the loaded vnodes; a vnode is named by its inode number.
  The outcomes of the allocations of \<^verbatim>\<open>sfs_loadvnode\<close> are its parameters: \<open>km\<close> says whether
  \<^verbatim>\<open>kmalloc\<close> returns memory and \<open>am\<close> whether \<^verbatim>\<open>vnodearray_add\<close> can grow the table. The spinlock of the
  reference count is held only inside single steps and the caller has the big lock.

  The theory shows that loading never creates a second vnode for an inode, that a file whose last
  reference and last link are gone gives all its blocks back, and that an inode written back by
  the last reference is read again as it was.
\<close>

subsection \<open>Reference counts\<close>

definition vnode_incref :: "u32 \<Rightarrow> sfs_fs \<Rightarrow> sfs_fs" where
  "vnode_incref ino s = updv ino (\<lambda>v. v\<lparr>vn_refcount := Suc (vn_refcount v)\<rparr>) s"

text \<open>A vnode as \<^verbatim>\<open>vnode_init\<close> and the assignments of \<^verbatim>\<open>sfs_loadvnode\<close> leave it.\<close>

definition vnode_init :: "u32 \<Rightarrow> sfs_dinode \<Rightarrow> bool \<Rightarrow> sfs_vnode" where
  "vnode_init ino di dirty = \<lparr>vn_refcount = 1, sv_i = di, sv_ino = ino, sv_dirty = dirty\<rparr>"

definition vnode_cleanup :: "sfs_vnode \<Rightarrow> sfs_fs \<Rightarrow> (unit, sfs_fs) res" where
  "vnode_cleanup v s = kassert (vn_refcount v = 1) (Ok () s)"

subsection \<open>Inodes\<close>

definition sfs_sync_inode :: "u32 \<Rightarrow> sfs_fs \<Rightarrow> (unit, sfs_fs) res" where
  "sfs_sync_inode ino s =
     getv ino s (\<lambda>sv.
       if sv_dirty sv then
         kbind (sfs_writeblock (sv_ino sv) (enc_dinode (sv_i sv)) s) (\<lambda>_ s.
           Ok () (updv ino (\<lambda>v. v\<lparr>sv_dirty := False\<rparr>) s))
       else Ok () s)"

text \<open>The end of a call that holds the big lock: release it and return the result.\<close>

definition unlocked :: "('a, sfs_fs) res \<Rightarrow> ('a, sfs_fs) res" where
  "unlocked r =
     (case r of
        Ok x s \<Rightarrow> kbind (vfs_biglock_release s) (\<lambda>_ s. Ok x s)
      | Err e s \<Rightarrow> kbind (vfs_biglock_release s) (\<lambda>_ s. Err e s)
      | Panic \<Rightarrow> Panic | Fault \<Rightarrow> Fault | Hang \<Rightarrow> Hang)"

text \<open>The search for the vnode in the table and its removal.\<close>

fun remove_from :: "u32 \<Rightarrow> sfs_vnode list \<Rightarrow> sfs_vnode list option" where
  "remove_from ino [] = None"
| "remove_from ino (v # vs) = (if sv_ino v = ino then Some vs else map_option ((#) v) (remove_from ino vs))"

definition remove_vnode :: "u32 \<Rightarrow> sfs_fs \<Rightarrow> (unit, sfs_fs) res" where
  "remove_vnode ino s =
     (case remove_from ino (sfs_vnodes s) of
        None \<Rightarrow> Panic
      | Some vs \<Rightarrow> Ok () (s\<lparr>sfs_vnodes := vs\<rparr>))"

definition sfs_reclaim :: "u32 \<Rightarrow> sfs_fs \<Rightarrow> (unit, sfs_fs) res" where
  "sfs_reclaim ino s =
     (let s = vfs_biglock_acquire s in
      unlocked
        (getv ino s (\<lambda>sv.
           if vn_refcount sv \<noteq> 1 then
             kassert (vn_refcount sv > 1) (Err EBUSY (updv ino (\<lambda>v. v\<lparr>vn_refcount := vn_refcount v - 1\<rparr>) s))
           else
             kbind (if sfi_linkcount (sv_i sv) = 0 then sfs_itrunc ino 0 s else Ok () s) (\<lambda>_ s.
               kbind (sfs_sync_inode ino s) (\<lambda>_ s.
                 getv ino s (\<lambda>sv.
                   kbind (if sfi_linkcount (sv_i sv) = 0 then sfs_bfree (sv_ino sv) s else Ok () s) (\<lambda>_ s.
                     kbind (remove_vnode ino s) (\<lambda>_ s. vnode_cleanup sv s)))))))) "

text \<open>Errors of \<^verbatim>\<open>VOP_RECLAIM\<close> other than \<^verbatim>\<open>EBUSY\<close> are only reported on the console.\<close>

definition vnode_decref :: "u32 \<Rightarrow> sfs_fs \<Rightarrow> (unit, sfs_fs) res" where
  "vnode_decref ino s =
     getv ino s (\<lambda>v.
       kassert (vn_refcount v > 0)
         (if vn_refcount v > 1 then Ok () (updv ino (\<lambda>v. v\<lparr>vn_refcount := vn_refcount v - 1\<rparr>) s)
          else (case sfs_reclaim ino s of
                  Ok _ s \<Rightarrow> Ok () s
                | Err e s \<Rightarrow> Ok () s
                | Panic \<Rightarrow> Panic | Fault \<Rightarrow> Fault | Hang \<Rightarrow> Hang)))"

text \<open>The loop over the loaded vnodes: whether the inode is among them.\<close>

fun loadvnode_search :: "u32 \<Rightarrow> sfs_vnode list \<Rightarrow> sfs_fs \<Rightarrow> (bool, sfs_fs) res" where
  "loadvnode_search ino [] s = Ok False s"
| "loadvnode_search ino (sv # svs) s =
     kbind (sfs_bused (sv_ino sv) s) (\<lambda>used s.
       if \<not> used then Panic
       else if sv_ino sv = ino then Ok True s
       else loadvnode_search ino svs s)"

definition sfs_loadvnode :: "bool \<Rightarrow> bool \<Rightarrow> u32 \<Rightarrow> u16 \<Rightarrow> sfs_fs \<Rightarrow> (u32, sfs_fs) res" where
  "sfs_loadvnode km am ino forcetype s =
     kbind (loadvnode_search ino (sfs_vnodes s) s) (\<lambda>found s.
       if found then kassert (forcetype = SFS_TYPE_INVAL) (Ok ino (vnode_incref ino s))
       else if \<not> km then Err ENOMEM s
       else
         kbind (sfs_bused ino s) (\<lambda>used s.
           if \<not> used then Panic
           else
             kbind (sfs_readblock ino s) (\<lambda>data s.
               let di = dec_dinode data in
               kassert (forcetype = SFS_TYPE_INVAL \<or> sfi_type di = SFS_TYPE_INVAL)
                 (let dirty = (forcetype \<noteq> SFS_TYPE_INVAL);
                      di = (if forcetype \<noteq> SFS_TYPE_INVAL then di\<lparr>sfi_type := forcetype\<rparr> else di)
                  in if sfi_type di \<noteq> SFS_TYPE_FILE \<and> sfi_type di \<noteq> SFS_TYPE_DIR then Panic
                     else if \<not> am then Err ENOMEM s
                     else Ok ino (s\<lparr>sfs_vnodes := sfs_vnodes s @ [vnode_init ino di dirty]\<rparr>)))))"

definition sfs_makeobj :: "bool \<Rightarrow> bool \<Rightarrow> u16 \<Rightarrow> sfs_fs \<Rightarrow> (u32, sfs_fs) res" where
  "sfs_makeobj km am type s =
     kbind (sfs_balloc s) (\<lambda>ino s.
       case sfs_loadvnode km am ino type s of
         Ok sv s \<Rightarrow> Ok sv s
       | Err e s \<Rightarrow> kbind (sfs_bfree ino s) (\<lambda>_ s. Err e s)
       | Panic \<Rightarrow> Panic | Fault \<Rightarrow> Fault | Hang \<Rightarrow> Hang)"

definition sfs_getroot :: "bool \<Rightarrow> bool \<Rightarrow> sfs_fs \<Rightarrow> (u32, sfs_fs) res" where
  "sfs_getroot km am s =
     unlocked
       (kbind (sfs_loadvnode km am SFS_ROOTDIR_INO SFS_TYPE_INVAL (vfs_biglock_acquire s)) (\<lambda>sv s.
          getv sv s (\<lambda>v. if sfi_type (sv_i v) \<noteq> SFS_TYPE_DIR then Err EINVAL s else Ok sv s)))"

subsection \<open>The table of vnodes\<close>

lemma fbyte_blk: "blk s' = blk s \<Longrightarrow> fbyte s' = fbyte s"
  using fmap_blk [of s' s] by (simp add: fbyte_def fun_eq_iff Let_def)

lemma remove_from_filter:
  assumes "distinct (map sv_ino vs)"
  shows "remove_from ino vs =
    (if \<exists>v \<in> set vs. sv_ino v = ino then Some (filter (\<lambda>v. sv_ino v \<noteq> ino) vs) else None)"
  using assms
proof (induction vs)
  case (Cons w vs)
  have "filter (\<lambda>v. sv_ino v \<noteq> ino) vs = vs" if "sv_ino w = ino"
    using Cons.prems that by (auto simp: filter_id_conv rev_image_eqI)
  then show ?case using Cons by auto
qed simp

lemma vn_filter:
  "vn (s\<lparr>sfs_vnodes := filter (\<lambda>v. sv_ino v \<noteq> ino) (sfs_vnodes s)\<rparr>) j = (if j = ino then None else vn s j)"
proof -
  have "find (\<lambda>v. sv_ino v = j) (filter (\<lambda>v. sv_ino v \<noteq> ino) vs) =
      (if j = ino then None else find (\<lambda>v. sv_ino v = j) vs)" for vs
    by (induction vs) auto
  from this [of "sfs_vnodes s"] show ?thesis by (simp add: vn_def)
qed

lemma vn_append:
  "vn (s\<lparr>sfs_vnodes := sfs_vnodes s @ [v]\<rparr>) j =
     (case vn s j of None \<Rightarrow> if j = sv_ino v then Some v else None | Some w \<Rightarrow> Some w)"
proof -
  have "find (\<lambda>v. sv_ino v = j) (vs @ [v]) =
      (case find (\<lambda>v. sv_ino v = j) vs of None \<Rightarrow> if j = sv_ino v then Some v else None | Some w \<Rightarrow> Some w)" for vs
    by (induction vs) auto
  then show ?thesis by (simp add: vn_def)
qed

lemma vn_None: "vn s j = None \<longleftrightarrow> j \<notin> sv_ino ` set (sfs_vnodes s)"
  by (auto simp: vn_def find_None_iff)

lemma vn_of_in: "fs_ok s \<Longrightarrow> v \<in> set (sfs_vnodes s) \<Longrightarrow> vn s (sv_ino v) = Some v"
proof -
  assume a: "fs_ok s" "v \<in> set (sfs_vnodes s)"
  then obtain w where w: "vn s (sv_ino v) = Some w" using vn_None [of s "sv_ino v"] by (cases "vn s (sv_ino v)") auto
  then have "w = v" using vn_in [OF w] fs_okD(6) [OF a(1)] a(2) by (metis (mono_tags, lifting) distinct_map inj_onD)
  then show ?thesis using w by simp
qed

lemma vnodes_fields [simp]:
  "blk (s\<lparr>sfs_vnodes := vs\<rparr>) = blk s" "used (s\<lparr>sfs_vnodes := vs\<rparr>) = used s"
  "healthy (s\<lparr>sfs_vnodes := vs\<rparr>) = healthy s" "fmap (s\<lparr>sfs_vnodes := vs\<rparr>) = fmap s"
  "slot (s\<lparr>sfs_vnodes := vs\<rparr>) = slot s" "fbyte (s\<lparr>sfs_vnodes := vs\<rparr>) = fbyte s"
proof -
  show b: "blk (s\<lparr>sfs_vnodes := vs\<rparr>) = blk s" by (simp add: blk_def fun_eq_iff)
  show f: "fmap (s\<lparr>sfs_vnodes := vs\<rparr>) = fmap s" by (rule fmap_blk [OF b])
  show "slot (s\<lparr>sfs_vnodes := vs\<rparr>) = slot s" using slot_blk [OF b] by (simp add: fun_eq_iff)
  show "fbyte (s\<lparr>sfs_vnodes := vs\<rparr>) = fbyte s" by (simp add: fbyte_def fun_eq_iff f b Let_def)
qed (simp_all add: used_def healthy_def fs_dev_ok_def)

text \<open>A table whose vnodes stand for vnodes of a table in order, inode by inode.\<close>

lemma fs_ok_table:
  assumes ok: "fs_ok s" and d: "distinct (map sv_ino vs)"
    and sub: "\<And>w. w \<in> set vs \<Longrightarrow> \<exists>v \<in> set (sfs_vnodes s). sv_i w = sv_i v \<and> sv_ino w = sv_ino v"
  shows "fs_ok (s\<lparr>sfs_vnodes := vs\<rparr>)"
proof -
  define o' where "o' w = (SOME v. v \<in> set (sfs_vnodes s) \<and> sv_i w = sv_i v \<and> sv_ino w = sv_ino v)" for w :: sfs_vnode
  have o': "o' w \<in> set (sfs_vnodes s)" "sv_i w = sv_i (o' w)" "sv_ino w = sv_ino (o' w)" if "w \<in> set vs" for w
    using someI_ex [OF sub [OF that, unfolded Bex_def]] unfolding o'_def by simp_all
  have sl: "slot s w k = slot s (o' w) k" if "w \<in> set vs" for w k
    using o'(2,3) [OF that] by (cases k rule: slot_cases) simp_all
  have "slot s w k < sb_nblocks (sfs_sb s) \<and> unat (slot s w k) \<in> used s" if "w \<in> set vs" "slot s w k \<noteq> 0" for w k
    using fs_ok_slot [OF ok o'(1) [OF that(1)], of k] that(2) sl [OF that(1)] by simp
  moreover have "sv_ino v = sv_ino w \<and> k = l"
    if "v \<in> set vs" "w \<in> set vs" "slot s v k = slot s w l" "slot s v k \<noteq> 0" for v w k l
    using fs_ok_slot_inj [OF ok o'(1) [OF that(1)] o'(1) [OF that(2)], of k l] that(3,4) o'(3) that(1,2)
      sl [OF that(1)] sl [OF that(2)] by simp
  moreover have "dinode_ok (sv_i w)" if "w \<in> set vs" for w using fs_ok_dinode [OF ok o'(1) [OF that]] o'(2) [OF that] by simp
  ultimately show ?thesis unfolding fs_ok_def using d fs_okD [OF ok]
    by (intro conjI ballI) (simp_all, metis)
qed

lemma fs_ok_updv:
  assumes "fs_ok s" "\<And>v. sv_i (f v) = sv_i v" "\<And>v. sv_ino (f v) = sv_ino v"
  shows "fs_ok (updv ino f s)"
  unfolding updv_def
proof (rule fs_ok_table [OF assms(1)])
  have "map sv_ino (map (\<lambda>v. if sv_ino v = ino then f v else v) (sfs_vnodes s)) = map sv_ino (sfs_vnodes s)"
    using assms(3) by auto
  then show "distinct (map sv_ino (map (\<lambda>v. if sv_ino v = ino then f v else v) (sfs_vnodes s)))"
    using fs_okD(6) [OF assms(1)] by (simp only:)
qed (use assms(2,3) in auto)

lemma updv_fields [simp]:
  "blk (updv ino f s) = blk s" "used (updv ino f s) = used s" "fbyte (updv ino f s) = fbyte s"
  "fmap (updv ino f s) = fmap s" "slot (updv ino f s) = slot s" "healthy (updv ino f s) = healthy s"
  "sfs_sb (updv ino f s) = sfs_sb s" "sfs_device (updv ino f s) = sfs_device s" "curas (updv ino f s) = curas s"
  "sfs_freemap (updv ino f s) = sfs_freemap s" "biglock (updv ino f s) = biglock s"
  by (simp_all add: updv_def)

subsection \<open>Writing an inode back\<close>

text \<open>A write to the block of an inode disturbs no file: no file uses that block for its data or its map.\<close>

lemma ino_block_apart:
  assumes ok: "fs_ok s" and v: "vn s ino = Some v" and "ino \<noteq> 0" and w: "w \<in> set (sfs_vnodes s)"
  shows "sfi_indirect (sv_i w) \<noteq> ino" "fmap s (sv_i w) i \<noteq> ino"
  using fs_ok_slot_inj(2) [OF ok w, of v 1 0] fs_ok_slot_inj(2) [OF ok w, of v "Suc (Suc i)" 0] vn_in [OF v] assms(3)
  by auto

lemma setblk_ino:
  assumes ok: "fs_ok s" and v: "vn s ino = Some v" "ino \<noteq> 0" and len: "length x = 512" and w: "w \<in> set (sfs_vnodes s)"
  shows "fmap (setblk ino x s) (sv_i w) = fmap s (sv_i w)" "slot (setblk ino x s) w k = slot s w k"
    "fbyte (setblk ino x s) (sv_i w) = fbyte s (sv_i w)"
proof -
  note n = ino_block_apart [OF ok v w]
  have e: "blk (setblk ino x s) (sfi_indirect (sv_i w)) = blk s (sfi_indirect (sv_i w))" using n(1) by simp
  then show f: "fmap (setblk ino x s) (sv_i w) = fmap s (sv_i w)" using fmap_cong fmap_noind by blast
  show "slot (setblk ino x s) w k = slot s w k" using e by (intro slot_cong) simp
  show "fbyte (setblk ino x s) (sv_i w) = fbyte s (sv_i w)" using n(2) by (simp add: fbyte_def fun_eq_iff f Let_def)
qed

lemma fs_ok_setblk_ino:
  assumes "fs_ok s" "vn s ino = Some v" "ino \<noteq> 0" "length x = 512"
  shows "fs_ok (setblk ino x s)"
  by (rule fs_ok_cong [OF assms(1)]) (use fs_okD(1) [OF assms(1)] setblk_ino(2) [OF assms] assms(4) in simp_all)

text \<open>
  The inode \<open>ino\<close> is clean afterwards, and its block on the disk holds it if it was dirty. No
  file and no other block changes.
\<close>

lemma sync_inode_ok:
  assumes ok: "fs_ok s" and v: "vn s ino = Some v" "ino \<noteq> 0"
  obtains s' where "sfs_sync_inode ino s = Ok () s'" "fs_ok s'" "sfs_sb s' = sfs_sb s" "biglock s' = biglock s"
    "curas s' = curas s" "sfs_freemap s' = sfs_freemap s" "vn s' = (vn s)(ino \<mapsto> v\<lparr>sv_dirty := False\<rparr>)"
    "\<And>w. w \<in> set (sfs_vnodes s) \<Longrightarrow> fmap s' (sv_i w) = fmap s (sv_i w) \<and> fbyte s' (sv_i w) = fbyte s (sv_i w)"
    "blk s' = (if sv_dirty v then (blk s)(ino := enc_dinode (sv_i v)) else blk s)"
proof (cases "sv_dirty v")
  case True
  let ?x = "enc_dinode (sv_i v)"
  let ?s = "updv ino (\<lambda>v. v\<lparr>sv_dirty := False\<rparr>) (setblk ino ?x s)"
  have vin: "v \<in> set (sfs_vnodes s)" "sv_ino v = ino" using vn_in [OF v(1)] by auto
  have len: "length ?x = 512" using fs_ok_dinode [OF ok vin(1)] by simp
  have "ino < lh_blocks (sfs_device s)" using fs_ok_slot(1) [OF ok vin(1), of 0] vin v(2) fs_okD(3) [OF ok] by simp
  then have w: "sfs_writeblock ino ?x s = Ok () (setblk ino ?x s)"
    using writeblock_healthy [OF fs_okD(1) [OF ok]] len by simp
  have f: "fmap ?s (sv_i w) = fmap s (sv_i w) \<and> fbyte ?s (sv_i w) = fbyte s (sv_i w)" if "w \<in> set (sfs_vnodes s)" for w
    using setblk_ino [OF ok v len that] by simp
  have vs: "vn ?s = (vn s)(ino \<mapsto> v\<lparr>sv_dirty := False\<rparr>)" using v by (simp add: vn_updv fun_eq_iff)
  have b: "blk ?s = (blk s)(ino := ?x)" by auto
  show ?thesis
  proof (rule that [of ?s])
    show "sfs_sync_inode ino s = Ok () ?s" using w True vin by (simp add: sfs_sync_inode_def getv_vn [OF v(1)])
    show "fs_ok ?s" using fs_ok_setblk_ino [OF ok v len] by (intro fs_ok_updv) simp_all
  qed (use f vs b True in simp_all)
next
  case False
  then have "v\<lparr>sv_dirty := False\<rparr> = v" by simp
  then show ?thesis using that [of s] False ok v by (simp add: sfs_sync_inode_def getv_vn [OF v(1)] fun_upd_idem)
qed

subsection \<open>Dropping a vnode\<close>

text \<open>A volume in order, whether or not the current thread has the big lock.\<close>

definition vol_ok :: "sfs_fs \<Rightarrow> bool" where
  "vol_ok s \<longleftrightarrow> fs_ok (s\<lparr>biglock := 1\<rparr>)"

lemma vol_ok_iff: "vol_ok s \<longleftrightarrow> fs_ok (s\<lparr>biglock := Suc n\<rparr>)"
  using fs_ok_biglock [of "s\<lparr>biglock := 1\<rparr>" "Suc n"] fs_ok_biglock [of "s\<lparr>biglock := Suc n\<rparr>" 1]
  by (auto simp: vol_ok_def)

lemma vol_ok_acquire: "vol_ok s \<Longrightarrow> fs_ok (vfs_biglock_acquire s)"
  using vol_ok_iff [of s "biglock s"] by (simp add: vfs_biglock_acquire_def)

lemma fs_ok_vol: "fs_ok s \<Longrightarrow> vol_ok s"
  using fs_ok_biglock [of s 1] by (simp add: vol_ok_def)

lemma vol_ok_release: "fs_ok s \<Longrightarrow> vol_ok (s\<lparr>biglock := n\<rparr>)"
  using fs_ok_biglock [of s 1] by (simp add: vol_ok_def)

lemma acquire_fields [simp]:
  "biglock (vfs_biglock_acquire s) = Suc (biglock s)" "vn (vfs_biglock_acquire s) = vn s"
  "blk (vfs_biglock_acquire s) = blk s" "used (vfs_biglock_acquire s) = used s" "fmap (vfs_biglock_acquire s) = fmap s"
  "sfs_sb (vfs_biglock_acquire s) = sfs_sb s" "curas (vfs_biglock_acquire s) = curas s"
  "sfs_vnodes (vfs_biglock_acquire s) = sfs_vnodes s" "owned (vfs_biglock_acquire s) = owned s"
  "sfs_freemap (vfs_biglock_acquire s) = sfs_freemap s"
  by (simp_all add: vfs_biglock_acquire_def)

lemma fbyte_biglock [simp]: "fbyte (s\<lparr>biglock := n\<rparr>) = fbyte s" "fbyte (vfs_biglock_acquire s) = fbyte s"
  by (simp_all add: fbyte_def fun_eq_iff Let_def)

lemma updv_biglock: "(updv ino f s)\<lparr>biglock := n\<rparr> = updv ino f (s\<lparr>biglock := n\<rparr>)"
  by (cases s) (simp add: updv_def)

lemma unlocked_simps:
  "biglock s = Suc n \<Longrightarrow> unlocked (Ok x s) = Ok x (s\<lparr>biglock := n\<rparr>)"
  "biglock s = Suc n \<Longrightarrow> unlocked (Err e s) = Err e (s\<lparr>biglock := n\<rparr>)"
  by (simp_all add: unlocked_def vfs_biglock_release_def vfs_biglock_do_i_hold_def)

text \<open>The contents of all loaded files but one are the same in two states.\<close>

definition others_same :: "u32 \<Rightarrow> sfs_fs \<Rightarrow> sfs_fs \<Rightarrow> bool" where
  "others_same ino s s' \<longleftrightarrow> (\<forall>j w. j \<noteq> ino \<and> vn s j = Some w \<longrightarrow> vn s' j = Some w \<and> fbyte s' (sv_i w) = fbyte s (sv_i w))"

lemma others_same_trans: "others_same ino s t \<Longrightarrow> others_same ino t u \<Longrightarrow> others_same ino s u"
  unfolding others_same_def by metis

lemma dropped_others:
  assumes ok: "fs_ok s" and v: "vn s ino = Some v" and d: "dropped s v ino k s'"
  shows "others_same ino s s'"
  unfolding others_same_def
proof (intro allI impI)
  fix j w assume j: "j \<noteq> ino \<and> vn s j = Some w"
  then have w: "vn s' j = Some w" "fmap s' (sv_i w) = fmap s (sv_i w)" using d by (auto simp: dropped_def)
  have "fmap s (sv_i w) i \<noteq> sfi_indirect (sv_i v) \<or> fmap s (sv_i w) i = 0" for i
    using fs_ok_slot_inj(1) [OF ok, of w v "Suc (Suc i)" 1] vn_in [OF v] vn_in [of s j w] j by auto
  then have "fmap s (sv_i w) i \<noteq> 0 \<Longrightarrow> blk s' (fmap s (sv_i w) i) = blk s (fmap s (sv_i w) i)" for i
    using d unfolding dropped_def by metis
  then have "fbyte s' (sv_i w) = fbyte s (sv_i w)" using w(2) by (auto simp: fbyte_def fun_eq_iff Let_def)
  then show "vn s' j = Some w \<and> fbyte s' (sv_i w) = fbyte s (sv_i w)" using w(1) by simp
qed

text \<open>Removing the vnode of \<open>ino\<close> from the table, with or without freeing the block of the inode.\<close>

lemma remove_vnode_ok:
  assumes ok: "fs_ok s" and v: "vn s ino = Some v"
  obtains s' where "remove_vnode ino s = Ok () s'" "fs_ok s'" "vn s' = (vn s)(ino := None)" "used s' = used s"
    "s' = s\<lparr>sfs_vnodes := filter (\<lambda>v. sv_ino v \<noteq> ino) (sfs_vnodes s)\<rparr>"
proof -
  let ?s = "s\<lparr>sfs_vnodes := filter (\<lambda>v. sv_ino v \<noteq> ino) (sfs_vnodes s)\<rparr>"
  have "\<exists>v \<in> set (sfs_vnodes s). sv_ino v = ino" using vn_in [OF v] by blast
  then have "remove_vnode ino s = Ok () ?s"
    by (simp add: remove_vnode_def remove_from_filter [OF fs_okD(6) [OF ok]])
  moreover have "fs_ok ?s"
    by (rule fs_ok_table [OF ok]) (use fs_okD(6) [OF ok] in \<open>auto simp: distinct_map_filter\<close>)
  moreover have "vn ?s = (vn s)(ino := None)" by (simp add: vn_filter fun_eq_iff)
  ultimately show ?thesis using that by simp
qed

lemma fs_ok_free_unowned:
  assumes ok: "fs_ok s" and fm: "bm_ok fm" "bm_nbits fm = bm_nbits (sfs_freemap s)" "bm_used fm = used s - {unat b}"
    and b: "b \<noteq> 0" "b < sb_nblocks (sfs_sb s)" and own: "\<And>w k. w \<in> set (sfs_vnodes s) \<Longrightarrow> slot s w k \<noteq> b"
  shows "fs_ok (s\<lparr>sfs_freemap := fm, sfs_freemapdirty := True\<rparr>)"
proof -
  let ?s = "s\<lparr>sfs_freemap := fm, sfs_freemapdirty := True\<rparr>"
  have bl: "blk ?s = blk s" by (simp add: blk_def fun_eq_iff)
  have sl: "slot ?s w k = slot s w k" for w k by (rule slot_blk [OF bl])
  have h: "healthy ?s" using fs_okD(1) [OF ok] by (simp add: healthy_def fs_dev_ok_def)
  have us: "used ?s = used s - {unat b}" using fm(3) by (simp add: used_def)
  have nb: "unat b \<noteq> 0" "unat b < unat (sb_nblocks (sfs_sb s))" using b by (auto simp: u32_less_iff unat_eq_0)
  have keep: "unat (slot s w k) \<noteq> unat b" if "w \<in> set (sfs_vnodes s)" for w k
    using own [OF that] by (simp add: word_unat_eq_iff [symmetric])
  show ?thesis
    unfolding fs_ok_def us sl using ok h fm nb keep fs_okD(5,7) [OF ok] by (auto simp: fs_ok_def)
qed

lemma free_inode_ok:
  assumes ok: "fs_ok s" and v: "vn s ino = Some v" "ino \<noteq> 0" and only: "\<And>k. 0 < k \<Longrightarrow> slot s v k = 0"
  obtains s1 s2 where "sfs_bfree ino s = Ok () s1" "remove_vnode ino s1 = Ok () s2" "fs_ok s2" "vn s2 = (vn s)(ino := None)"
    "used s2 = used s - {unat ino}" "blk s2 = blk s" "sfs_sb s2 = sfs_sb s" "biglock s2 = biglock s" "curas s2 = curas s"
proof -
  have vin: "v \<in> set (sfs_vnodes s)" "sv_ino v = ino" using vn_in [OF v(1)] by auto
  note i0 = fs_ok_slot [OF ok vin(1), of 0, simplified, unfolded vin(2), OF v(2)]
  have "ino < bm_nbits (sfs_freemap s)" using i0(1) fs_okD(4) [OF ok] by simp
  from bfree_ok [OF fs_okD(2) [OF ok] this i0(2)] obtain fm where
    fm: "sfs_bfree ino s = Ok () (s\<lparr>sfs_freemap := fm, sfs_freemapdirty := True\<rparr>)" "bm_ok fm"
      "bm_nbits fm = bm_nbits (sfs_freemap s)" "bm_used fm = used s - {unat ino}" .
  let ?vs = "filter (\<lambda>v. sv_ino v \<noteq> ino) (sfs_vnodes s)"
  obtain t where t: "fs_ok t" "vn t = (vn s)(ino := None)" "t = s\<lparr>sfs_vnodes := ?vs\<rparr>"
    using remove_vnode_ok [OF ok v(1)] by metis
  let ?s1 = "s\<lparr>sfs_freemap := fm, sfs_freemapdirty := True\<rparr>"
  let ?s2 = "t\<lparr>sfs_freemap := fm, sfs_freemapdirty := True\<rparr>"
  have "slot t w k \<noteq> ino" if "w \<in> set (sfs_vnodes t)" for w k
    using fs_ok_slot_inj(1) [OF ok _ vin(1), of w k 0] that v(2) vin(2) t(3) by auto
  then have "fs_ok ?s2" using fs_ok_free_unowned [OF t(1) fm(2)] fm(3,4) t(3) v(2) i0(1) by simp
  moreover have "remove_vnode ino ?s1 = Ok () ?s2"
    using vin fs_okD(6) [OF ok] t(3) by (auto simp: remove_vnode_def remove_from_filter)
  moreover have "vn ?s2 = (vn s)(ino := None)" using t(2) by (simp add: vn_def fun_eq_iff)
  ultimately show ?thesis using that [OF fm(1)] fm(4) t(3) by (simp add: used_def blk_def fun_eq_iff)
qed

lemma erase_ok:
  assumes ok: "fs_ok s" and v: "vn s ino = Some v" "ino \<noteq> 0" and lc: "sfi_linkcount (sv_i v) = 0"
  obtains s1 s2 v2 s3 s4 where "sfs_itrunc ino 0 s = Ok () s1" "sfs_sync_inode ino s1 = Ok () s2" "vn s2 ino = Some v2"
    "sfi_linkcount (sv_i v2) = 0" "vn_refcount v2 = vn_refcount v" "sv_ino v2 = ino"
    "sfs_bfree ino s2 = Ok () s3" "remove_vnode ino s3 = Ok () s4" "fs_ok s4" "vn s4 = (vn s)(ino := None)"
    "used s4 = used s - owned s v UNIV" "others_same ino s s4" "sfs_sb s4 = sfs_sb s" "biglock s4 = biglock s" "curas s4 = curas s"
proof -
  have vin: "v \<in> set (sfs_vnodes s)" "sv_ino v = ino" using vn_in [OF v(1)] by auto
  obtain s1 v1 where s1: "sfs_itrunc ino 0 s = Ok () s1" "dropped s v ino (itrunc_keeps 0) s1" "vn s1 ino = Some v1"
    "sfi_indirect (sv_i v1) = 0" using sfs_itrunc_result [OF ok v(1), of 0] by auto
  have k: "itrunc_keeps 0 = (\<lambda>_. False)" by (simp add: itrunc_keeps_def fun_eq_iff)
  have d: "fs_ok s1" "fmap s1 (sv_i v1) = (\<lambda>_. 0)" "sfi_linkcount (sv_i v1) = 0" "vn_refcount v1 = vn_refcount v"
    "used s1 = used s - owned s v (gone (\<lambda>_. False) 0)" "sfs_sb s1 = sfs_sb s" "biglock s1 = biglock s" "curas s1 = curas s"
    using s1(2-4) lc by (auto simp: dropped_def k)
  obtain s2 where s2: "sfs_sync_inode ino s1 = Ok () s2" "fs_ok s2" "sfs_sb s2 = sfs_sb s1" "biglock s2 = biglock s1"
    "curas s2 = curas s1" "sfs_freemap s2 = sfs_freemap s1" "vn s2 = (vn s1)(ino \<mapsto> v1\<lparr>sv_dirty := False\<rparr>)"
    "\<And>w. w \<in> set (sfs_vnodes s1) \<Longrightarrow> fmap s2 (sv_i w) = fmap s1 (sv_i w) \<and> fbyte s2 (sv_i w) = fbyte s1 (sv_i w)"
    using sync_inode_ok [OF d(1) s1(3) v(2)] by metis
  let ?v = "v1\<lparr>sv_dirty := False\<rparr>"
  have v2: "vn s2 ino = Some ?v" using s2(7) by simp
  have "slot s2 ?v k = 0" if "0 < k" for k
    using that s1(4) d(2) s2(8) [of v1] vn_in [OF s1(3)] by (cases k rule: slot_cases) simp_all
  from free_inode_ok [OF s2(2) v2 v(2) this] obtain s3 s4 where s4: "sfs_bfree ino s2 = Ok () s3"
    "remove_vnode ino s3 = Ok () s4" "fs_ok s4" "vn s4 = (vn s2)(ino := None)" "used s4 = used s2 - {unat ino}"
    "blk s4 = blk s2" "sfs_sb s4 = sfs_sb s2" "biglock s4 = biglock s2" "curas s4 = curas s2" by metis
  have "k \<in> gone (\<lambda>_. False) 0 \<union> {0}" for k by (cases k rule: slot_cases) (simp_all add: gone_def)
  then have "UNIV = gone (\<lambda>_. False) 0 \<union> {0}" by blast
  moreover have "owned s v (D \<union> {0}) = insert (unat ino) (owned s v D)" for D
    using vin v(2) by (auto simp: owned_def intro: exI [of _ 0])
  ultimately have "owned s v UNIV = insert (unat ino) (owned s v (gone (\<lambda>_. False) 0))" by metis
  moreover have "used s2 = used s1" using s2(6) by (simp add: used_def)
  ultimately have "used s4 = used s - owned s v UNIV" using s4(5) d(5) by blast
  moreover have "fbyte s4 = fbyte s2" by (rule fbyte_blk [OF s4(6)])
  then have "others_same ino s1 s4"
    using s2(7,8) s4(4) vn_in [of s1] unfolding others_same_def by auto
  then have "others_same ino s s4" using others_same_trans [OF dropped_others [OF ok v(1) s1(2)]] by blast
  moreover have "vn s4 = (vn s)(ino := None)" using s4(4) s2(7) s1(2) by (auto simp: fun_eq_iff dropped_def)
  ultimately show ?thesis
    using that [OF s1(1) s2(1) v2 _ _ _ s4(1-3)] s4(7-9) s2(3-5) d(3,4,6-8) vn_in [OF s1(3)] by simp
qed

text \<open>While there are further references only the count goes down.\<close>

lemma decref_more:
  assumes ok: "vol_ok s" and v: "vn s ino = Some v" and rc: "1 < vn_refcount v"
  obtains s' where "vnode_decref ino s = Ok () s'" "vol_ok s'" "vn s' = (vn s)(ino \<mapsto> v\<lparr>vn_refcount := vn_refcount v - 1\<rparr>)"
    "used s' = used s" "blk s' = blk s" "fbyte s' = fbyte s" "biglock s' = biglock s"
proof -
  let ?f = "\<lambda>v :: sfs_vnode. v\<lparr>vn_refcount := vn_refcount v - 1\<rparr>"
  have "vnode_decref ino s = Ok () (updv ino ?f s)" using rc by (simp add: vnode_decref_def getv_vn [OF v])
  moreover have "vol_ok (updv ino ?f s)"
    using fs_ok_updv [OF ok [unfolded vol_ok_def], of ?f ino] by (simp add: vol_ok_def updv_biglock)
  moreover have "vn (updv ino ?f s) = (vn s)(ino \<mapsto> ?f v)" using v by (simp add: vn_updv fun_eq_iff)
  ultimately show ?thesis using that by simp
qed

lemma decref_unlinked:
  assumes ok: "vol_ok s" and v: "vn s ino = Some v" "ino \<noteq> 0" and lc: "sfi_linkcount (sv_i v) = 0" and rc: "0 < vn_refcount v"
  shows "\<exists>s'. vnode_decref ino s = Ok () s' \<and> vol_ok s' \<and> biglock s' = biglock s \<and> others_same ino s s' \<and>
    (if vn_refcount v = 1 then vn s' = (vn s)(ino := None) \<and> used s' = used s - owned s v UNIV
     else vn s' = (vn s)(ino \<mapsto> v\<lparr>vn_refcount := vn_refcount v - 1\<rparr>) \<and> used s' = used s)"
proof (cases "vn_refcount v = 1")
  case True
  let ?s = "vfs_biglock_acquire s"
  have v': "vn ?s ino = Some v" using v by simp
  obtain s1 s2 v2 s3 s4 where e: "sfs_itrunc ino 0 ?s = Ok () s1" "sfs_sync_inode ino s1 = Ok () s2" "vn s2 ino = Some v2"
    "sfi_linkcount (sv_i v2) = 0" "vn_refcount v2 = vn_refcount v" "sv_ino v2 = ino"
    "sfs_bfree ino s2 = Ok () s3" "remove_vnode ino s3 = Ok () s4" "fs_ok s4" "vn s4 = (vn ?s)(ino := None)"
    "used s4 = used ?s - owned ?s v UNIV" "others_same ino ?s s4" "biglock s4 = biglock ?s"
    using erase_ok [OF vol_ok_acquire [OF ok] v' v(2) lc] by metis
  have "sfs_reclaim ino s = unlocked (Ok () s4)"
    using e(1-8) True lc by (simp add: sfs_reclaim_def getv_vn [OF v'] getv_vn [OF e(3)] vnode_cleanup_def)
  then have "vnode_decref ino s = Ok () (s4\<lparr>biglock := biglock s\<rparr>)"
    using True e(13) by (simp add: vnode_decref_def getv_vn [OF v(1)] unlocked_simps)
  then show ?thesis using True e(9-12) vol_ok_release [OF e(9)] by (simp add: others_same_def)
next
  case False
  then have "1 < vn_refcount v" using rc by simp
  from decref_more [OF ok v(1) this] obtain s' where s': "vnode_decref ino s = Ok () s'" "vol_ok s'"
    "vn s' = (vn s)(ino \<mapsto> v\<lparr>vn_refcount := vn_refcount v - 1\<rparr>)" "used s' = used s" "fbyte s' = fbyte s" "biglock s' = biglock s"
    by metis
  then show ?thesis using False by (simp add: others_same_def)
qed

text \<open>
  \<^bold>\<open>C24.\<close> When the last reference to a file without links goes away, \<^verbatim>\<open>vnode_decref\<close> erases it: its
  vnode leaves the table, and exactly the blocks of the file - the data, the indirect block and
  the inode - become free. The volume stays in order and all other loaded files keep their
  inodes and their contents. While there are further references only the count goes down.
\<close>

theorem vnode_decref_erases:
  assumes "vol_ok s" "vn s ino = Some v" "ino \<noteq> 0" "sfi_linkcount (sv_i v) = 0" "0 < vn_refcount v"
  shows "\<exists>s'. vnode_decref ino s = Ok () s' \<and> vol_ok s' \<and> biglock s' = biglock s \<and> others_same ino s s' \<and>
    (if vn_refcount v = 1 then vn s' = (vn s)(ino := None) \<and> used s' = used s - owned s v UNIV
     else vn s' = (vn s)(ino \<mapsto> v\<lparr>vn_refcount := vn_refcount v - 1\<rparr>) \<and> used s' = used s)"
  by (rule decref_unlinked [OF assms])

definition unlinked_vol :: sfs_fs where
  "unlinked_vol = upd_inode 2 (\<lambda>di. di\<lparr>sfi_linkcount := 0\<rparr>) demo_vol"

definition unlinked_vnode :: sfs_vnode where
  "unlinked_vnode = demo_vnode\<lparr>sv_i := empty_inode\<lparr>sfi_linkcount := 0\<rparr>, sv_dirty := True\<rparr>"

lemma unlinked_vol_ok: "vol_ok unlinked_vol" "vn unlinked_vol 2 = Some unlinked_vnode"
proof -
  note m = upd_meta [OF demo_vol_ok demo_vol_vn, of "\<lambda>di. di\<lparr>sfi_linkcount := 0\<rparr>", simplified]
  show "vol_ok unlinked_vol" using m(1) by (intro fs_ok_vol) (simp add: unlinked_vol_def)
  show "vn unlinked_vol 2 = Some unlinked_vnode"
    using m(5) by (simp add: unlinked_vol_def unlinked_vnode_def demo_vnode_def)
qed

theorem vnode_decref_erases_witness:
  "\<exists>s'. vnode_decref 2 unlinked_vol = Ok () s' \<and> vol_ok s' \<and> vn s' 2 = None \<and> used s' = {0, 1}"
proof -
  have "owned unlinked_vol unlinked_vnode UNIV = {2}"
  proof -
    have "slot unlinked_vol unlinked_vnode k = (if k = 0 then 2 else 0)" for k
      using fmap_empty by (cases k rule: slot_cases)
        (simp_all add: unlinked_vnode_def demo_vnode_def fmap_def empty_inode_def)
    then show ?thesis by (auto simp: owned_def)
  qed
  moreover have "used unlinked_vol = {0, 1, 2}" using demo_used by (simp add: unlinked_vol_def)
  ultimately show ?thesis
    using vnode_decref_erases [OF unlinked_vol_ok] by (auto simp: unlinked_vnode_def demo_vnode_def insert_Diff_if)
qed

subsection \<open>Loading a vnode\<close>

lemma bused_True:
  assumes "fs_ok s" "b < sb_nblocks (sfs_sb s)" "unat b \<in> used s"
  shows "sfs_bused b s = Ok True s"
  using assms kbm.isset_law [OF fs_okD(2) [OF assms(1)], of b] fs_okD(4) [OF assms(1)]
  by (auto simp: sfs_bused_def used_def)

lemma loadvnode_search_ok:
  assumes "fs_ok s" "0 < sb_nblocks (sfs_sb s)"
  shows "loadvnode_search ino (sfs_vnodes s) s = Ok (vn s ino \<noteq> None) s"
proof -
  have b: "sfs_bused (sv_ino v) s = Ok True s" if "v \<in> set (sfs_vnodes s)" for v
    using fs_ok_slot [OF assms(1) that, of 0] fs_okD(5) [OF assms(1)] assms by (cases "sv_ino v = 0") (auto intro: bused_True)
  have "loadvnode_search ino vs s = Ok (find (\<lambda>v. sv_ino v = ino) vs \<noteq> None) s" if "set vs \<subseteq> set (sfs_vnodes s)" for vs
    using that b by (induction vs) auto
  then show ?thesis by (simp add: vn_def)
qed

lemma loadvnode_loaded:
  assumes "fs_ok s" "vn s ino = Some v" "ino \<noteq> 0"
  shows "sfs_loadvnode km am ino SFS_TYPE_INVAL s = Ok ino (vnode_incref ino s)"
proof -
  have "ino < sb_nblocks (sfs_sb s)" using fs_ok_slot(1) [OF assms(1), of v 0] vn_in [OF assms(2)] assms(3) by simp
  then have "0 < sb_nblocks (sfs_sb s)" by (rule order_le_less_trans [OF word_zero_le])
  then show ?thesis using loadvnode_search_ok [OF assms(1), of ino] assms(2) by (simp add: sfs_loadvnode_def)
qed

lemma vnode_incref_ok:
  assumes "fs_ok s" "vn s ino = Some v"
  shows "fs_ok (vnode_incref ino s)" "vn (vnode_incref ino s) = (vn s)(ino \<mapsto> v\<lparr>vn_refcount := Suc (vn_refcount v)\<rparr>)"
  using assms by (auto simp: vnode_incref_def vn_updv fun_eq_iff intro: fs_ok_updv)

text \<open>The effect of loading an inode that is in use and not in the table, on every path.\<close>

lemma loadvnode_fresh:
  assumes ok: "fs_ok s" and "vn s ino = None" "ino < sb_nblocks (sfs_sb s)" "unat ino \<in> used s"
    and "sfi_type (dec_dinode (blk s ino)) = (if ty = SFS_TYPE_INVAL then ty' else SFS_TYPE_INVAL)"
    and "ty' \<in> {SFS_TYPE_FILE, SFS_TYPE_DIR}" "ty \<in> {SFS_TYPE_INVAL, ty'}"
  shows "sfs_loadvnode km am ino ty s =
    (if \<not> km then Err ENOMEM s
     else if \<not> am then Err ENOMEM (touch (blk s ino) s)
     else Ok ino ((touch (blk s ino) s)\<lparr>sfs_vnodes := sfs_vnodes s @
       [vnode_init ino ((dec_dinode (blk s ino))\<lparr>sfi_type := ty'\<rparr>) (ty \<noteq> SFS_TYPE_INVAL)]\<rparr>))"
proof -
  have "sfs_readblock ino s = Ok (blk s ino) (touch (blk s ino) s)"
    using readblock_healthy [OF fs_okD(1) [OF ok], of ino] assms(3) fs_okD(3) [OF ok] by simp
  moreover have "0 < sb_nblocks (sfs_sb s)" using assms(3) by (rule order_le_less_trans [OF word_zero_le])
  moreover have "SFS_TYPE_FILE \<noteq> SFS_TYPE_INVAL" "SFS_TYPE_DIR \<noteq> SFS_TYPE_INVAL"
    by (simp_all add: SFS_TYPE_FILE_def SFS_TYPE_DIR_def SFS_TYPE_INVAL_def)
  moreover have "vnode_init ino ((dec_dinode (blk s ino))\<lparr>sfi_type := ty'\<rparr>) d = vnode_init ino (dec_dinode (blk s ino)) d"
    if "ty = SFS_TYPE_INVAL" for d
    using assms(5) that by (simp add: vnode_init_def)
  ultimately show ?thesis
    using assms(2,5-7) loadvnode_search_ok [OF ok, of ino] bused_True [OF ok assms(3,4)]
    unfolding sfs_loadvnode_def Let_def by (cases "ty = SFS_TYPE_INVAL") (simp_all, blast+)
qed

lemma touch_vnodes: "(touch x s)\<lparr>sfs_vnodes := vs\<rparr> = touch x (s\<lparr>sfs_vnodes := vs\<rparr>)"
  by (cases s) (simp add: touch_def)

text \<open>
  A clean vnode is what the disk has in the block of the inode. \<^verbatim>\<open>sfs_loadvnode\<close> and
  \<^verbatim>\<open>sfs_sync_inode\<close> establish it, every change of the inode in memory marks the vnode dirty.
\<close>

definition coherent :: "sfs_fs \<Rightarrow> sfs_vnode \<Rightarrow> bool" where
  "coherent s v \<longleftrightarrow> (\<not> sv_dirty v \<longrightarrow> dec_dinode (blk s (sv_ino v)) = sv_i v)"

text \<open>The last reference to a file with links: the inode is written back and the vnode leaves the table.\<close>

lemma decref_linked:
  assumes ok: "vol_ok s" and v: "vn s ino = Some v" "ino \<noteq> 0" and rc: "vn_refcount v = 1" and di: "sfi_linkcount (sv_i v) \<noteq> 0"
  obtains t where "vnode_decref ino s = Ok () (t\<lparr>sfs_vnodes := filter (\<lambda>v. sv_ino v \<noteq> ino) (sfs_vnodes t), biglock := biglock s\<rparr>)"
    "fs_ok t" "biglock t = Suc (biglock s)" "sfs_sb t = sfs_sb s" "curas t = curas s"
    "vn t = (vn s)(ino \<mapsto> v\<lparr>sv_dirty := False\<rparr>)" "used t = used s"
    "\<And>w. w \<in> set (sfs_vnodes s) \<Longrightarrow> fbyte t (sv_i w) = fbyte s (sv_i w)"
    "blk t = (if sv_dirty v then (blk s)(ino := enc_dinode (sv_i v)) else blk s)"
proof -
  let ?s = "vfs_biglock_acquire s" and ?v = "v\<lparr>sv_dirty := False\<rparr>"
  have v': "vn ?s ino = Some v" using v by simp
  obtain t where t: "sfs_sync_inode ino ?s = Ok () t" "fs_ok t" "sfs_sb t = sfs_sb ?s" "biglock t = biglock ?s"
    "curas t = curas ?s" "sfs_freemap t = sfs_freemap ?s" "vn t = (vn ?s)(ino \<mapsto> ?v)"
    "\<And>w. w \<in> set (sfs_vnodes ?s) \<Longrightarrow> fmap t (sv_i w) = fmap ?s (sv_i w) \<and> fbyte t (sv_i w) = fbyte ?s (sv_i w)"
    "blk t = (if sv_dirty v then (blk ?s)(ino := enc_dinode (sv_i v)) else blk ?s)"
    using sync_inode_ok [OF vol_ok_acquire [OF ok] v' v(2)] by metis
  have tv: "vn t ino = Some ?v" using t(7) by simp
  obtain u where u: "remove_vnode ino t = Ok () u" "u = t\<lparr>sfs_vnodes := filter (\<lambda>v. sv_ino v \<noteq> ino) (sfs_vnodes t)\<rparr>"
    using remove_vnode_ok [OF t(2) tv] by metis
  have "sfs_reclaim ino s = unlocked (Ok () u)"
    using t(1) u(1) rc di by (simp add: sfs_reclaim_def getv_vn [OF v'] getv_vn [OF tv] vnode_cleanup_def)
  then have "vnode_decref ino s = Ok () (u\<lparr>biglock := biglock s\<rparr>)"
    using rc u(2) t(4) by (simp add: vnode_decref_def getv_vn [OF v(1)] unlocked_simps)
  then show ?thesis using that [of t] t u(2) by (simp add: used_def)
qed

text \<open>
  \<^bold>\<open>C25.\<close> Dropping the last reference to a file that still has links and loading the file again gives
  it back: the vnode leaves the table, the inode read from the disk is the one that was in
  memory, the file has the same bytes, all blocks stay allocated to the same files, and the
  new vnode has one reference and is clean. A second load of the same inode only counts a
  reference and creates no second vnode.
\<close>

theorem reclaim_load_roundtrip:
  assumes ok: "vol_ok s" and v: "vn s ino = Some v" "ino \<noteq> 0" and rc: "vn_refcount v = 1" and co: "coherent s v"
    and di: "sfi_linkcount (sv_i v) \<noteq> 0" "sfi_type (sv_i v) \<in> {SFS_TYPE_FILE, SFS_TYPE_DIR}"
  shows "\<exists>s1 s2. vnode_decref ino s = Ok () s1 \<and> vn s1 ino = None \<and>
    sfs_loadvnode True True ino SFS_TYPE_INVAL (vfs_biglock_acquire s1) = Ok ino s2 \<and> fs_ok s2 \<and>
    vn s2 ino = Some \<lparr>vn_refcount = 1, sv_i = sv_i v, sv_ino = ino, sv_dirty = False\<rparr> \<and>
    fbyte s2 (sv_i v) = fbyte s (sv_i v) \<and> others_same ino s s2 \<and> used s2 = used s \<and>
    sfs_loadvnode True True ino SFS_TYPE_INVAL s2 =
      Ok ino (updv ino (\<lambda>v. v\<lparr>vn_refcount := Suc (vn_refcount v)\<rparr>) s2)"
proof -
  let ?v = "v\<lparr>sv_dirty := False\<rparr>"
  have vin: "v \<in> set (sfs_vnodes s)" "sv_ino v = ino" using vn_in [OF v(1)] by auto
  obtain t where t: "vnode_decref ino s = Ok () (t\<lparr>sfs_vnodes := filter (\<lambda>v. sv_ino v \<noteq> ino) (sfs_vnodes t), biglock := biglock s\<rparr>)"
    "fs_ok t" "biglock t = Suc (biglock s)" "vn t = (vn s)(ino \<mapsto> ?v)" "used t = used s"
    "\<And>w. w \<in> set (sfs_vnodes s) \<Longrightarrow> fbyte t (sv_i w) = fbyte s (sv_i w)"
    "blk t = (if sv_dirty v then (blk s)(ino := enc_dinode (sv_i v)) else blk s)"
    using decref_linked [OF ok v rc di(1)] by metis
  have tv: "vn t ino = Some ?v" using t(4) by simp
  have dec: "dec_dinode (blk t ino) = sv_i v"
    using co t(7) vin fs_ok_dinode [OF vol_ok_acquire [OF ok], of v] by (auto simp: coherent_def dec_enc_dinode)
  obtain u where u: "fs_ok u" "vn u = (vn t)(ino := None)" "used u = used t"
    "u = t\<lparr>sfs_vnodes := filter (\<lambda>v. sv_ino v \<noteq> ino) (sfs_vnodes t)\<rparr>"
    using remove_vnode_ok [OF t(2) tv] by metis
  have d: "vnode_decref ino s = Ok () (u\<lparr>biglock := biglock s\<rparr>)" using t(1) u(4) by simp
  have a: "vfs_biglock_acquire (u\<lparr>biglock := biglock s\<rparr>) = u" using u(4) t(3) by (simp add: vfs_biglock_acquire_def)
  have bu: "blk u = blk t" "fbyte u = fbyte t" using u(4) by simp_all
  let ?n = "vnode_init ino (sv_i v) False"
  let ?s2 = "(touch (blk u ino) u)\<lparr>sfs_vnodes := sfs_vnodes u @ [?n]\<rparr>"
  have "ino < sb_nblocks (sfs_sb u)" "unat ino \<in> used u"
    using fs_ok_slot [OF t(2), of ?v 0] vn_in [OF tv] v(2) u(3,4) by auto
  then have ld: "sfs_loadvnode True True ino SFS_TYPE_INVAL u = Ok ino ?s2"
    using loadvnode_fresh [OF u(1), of ino SFS_TYPE_INVAL "sfi_type (sv_i v)" True True] u(2) di(2) dec bu by auto
  have "fs_ok (t\<lparr>sfs_vnodes := filter (\<lambda>v. sv_ino v \<noteq> ino) (sfs_vnodes t) @ [?n]\<rparr>)"
    by (rule fs_ok_table [OF t(2)])
      (use fs_okD(6) [OF t(2)] vn_in [OF tv] vin in \<open>auto simp: distinct_map_filter vnode_init_def intro: bexI [of _ ?v]\<close>)
  then have ok2: "fs_ok ?s2"
    using u(4) fs_ok_touch [of "u\<lparr>sfs_vnodes := sfs_vnodes u @ [?n]\<rparr>" "blk u ino"] length_blk [OF fs_okD(1) [OF u(1)]]
    by (simp add: touch_vnodes)
  have vs2: "vn ?s2 ino = Some ?n" "\<And>j. j \<noteq> ino \<Longrightarrow> vn ?s2 j = vn s j"
    using vn_append [of "touch (blk u ino) u" ?n] u(2) t(4) by (auto simp: vnode_init_def split: option.splits)
  have fb: "fbyte ?s2 (sv_i w) = fbyte s (sv_i w)" if "w \<in> set (sfs_vnodes s)" for w
    using fbyte_blk [of "touch (blk u ino) u" u] t(6) [of w] bu(2) that by simp
  have "others_same ino s ?s2" using vs2(2) fb vn_in [of s] by (auto simp: others_same_def)
  moreover have "used ?s2 = used s" using u(3) t(5) by simp
  moreover have "sfs_loadvnode True True ino SFS_TYPE_INVAL ?s2 = Ok ino (vnode_incref ino ?s2)"
    by (rule loadvnode_loaded [OF ok2 vs2(1) v(2)])
  ultimately show ?thesis using d ld ok2 vs2(1) fb [OF vin(1)] u(2) a
    by (intro exI [of _ "u\<lparr>biglock := biglock s\<rparr>"] exI [of _ ?s2]) (simp add: vnode_init_def vnode_incref_def)
qed

theorem reclaim_load_roundtrip_witness:
  "\<exists>s1 s2. vnode_decref 2 (upd_inode 2 id demo_vol) = Ok () s1 \<and> vn s1 2 = None \<and>
     sfs_loadvnode True True 2 SFS_TYPE_INVAL (vfs_biglock_acquire s1) = Ok 2 s2 \<and>
     vn s2 2 = Some \<lparr>vn_refcount = 1, sv_i = empty_inode, sv_ino = 2, sv_dirty = False\<rparr>"
proof -
  note m = upd_meta [OF demo_vol_ok demo_vol_vn, of id, simplified]
  show ?thesis
    using reclaim_load_roundtrip [OF fs_ok_vol [OF m(1)] m(5)]
    by (simp add: coherent_def demo_vnode_def empty_inode_def) blast
qed

subsection \<open>Creating an object\<close>

definition zero_inode :: "u16 \<Rightarrow> sfs_dinode" where
  "zero_inode ty = \<lparr>sfi_size = 0, sfi_type = ty, sfi_linkcount = 0, sfi_direct = replicate 15 0,
     sfi_indirect = 0, sfi_waste = replicate 440 0\<rparr>"

lemma dec_zero_block: "dec_dinode (replicate 512 0) = zero_inode 0"
proof -
  have w: "dec_words 15 (replicate 504 0) = replicate 15 0"
  proof (rule nth_equalityI)
    fix i assume "i < length (dec_words 15 (replicate 504 0))"
    then have "i < 15" by simp
    then have "take 4 (drop (4 * i) (replicate 504 (0 :: byte))) = replicate 4 0" by simp
    with \<open>i < 15\<close> show "dec_words 15 (replicate 504 0) ! i = replicate 15 0 ! i"
      unfolding dec_words_def by (simp add: de32_zero del: take_replicate drop_replicate)
  qed simp
  have "de16 (replicate 2 0) = 0" by (simp add: de16_def numeral_2_eq_2)
  then show ?thesis
    by (simp add: dec_dinode_def zero_inode_def de32_zero w min_def)
qed

lemma zero_inode_ok: "dinode_ok (zero_inode ty)" "fmap s (zero_inode ty) i = 0" "fbyte s (zero_inode ty) = (\<lambda>_. 0)"
  by (simp_all add: zero_inode_def dinode_ok_def fmap_def fbyte_def fun_eq_iff)

lemma took_ok:
  assumes ok: "fs_ok s" and b: "b \<noteq> 0" "b < sb_nblocks (sfs_sb s)" "unat b \<notin> used s"
    and fm: "bm_ok fm" "bm_nbits fm = bm_nbits (sfs_freemap s)" "bm_used fm = insert (unat b) (used s)"
  shows "fs_ok (took b fm s)" "\<And>w. w \<in> set (sfs_vnodes s) \<Longrightarrow> fbyte (took b fm s) (sv_i w) = fbyte s (sv_i w)"
    "\<And>w k. w \<in> set (sfs_vnodes s) \<Longrightarrow> slot (took b fm s) w k = slot s w k"
proof -
  let ?s = "took b fm s"
  have keep: "blk ?s c = blk s c" if "unat c \<in> used s" "c \<noteq> 0" for c using that b(3) by auto
  show sl: "slot ?s w k = slot s w k" if "w \<in> set (sfs_vnodes s)" for w k using others_keep(1) [OF ok that keep, of 0] by auto
  have fk: "fmap ?s (sv_i w) = fmap s (sv_i w)" if "w \<in> set (sfs_vnodes s)" for w using others_keep(2) [OF ok that keep, of 0] by auto
  show "fbyte ?s (sv_i w) = fbyte s (sv_i w)" if "w \<in> set (sfs_vnodes s)" for w
  proof -
    have "blk ?s (fmap s (sv_i w) i) = blk s (fmap s (sv_i w) i)" if "fmap s (sv_i w) i \<noteq> 0" for i
      using fs_ok_slot(2) [OF ok \<open>w \<in> set (sfs_vnodes s)\<close>, of "Suc (Suc i)"] that by (intro keep) simp_all
    then show ?thesis using fk [OF that] by (simp add: fbyte_def fun_eq_iff Let_def)
  qed
  have us: "used ?s = insert (unat b) (used s)" using fm(3) by simp
  have vs: "sfs_vnodes ?s = sfs_vnodes s" "sfs_sb ?s = sfs_sb s" by simp_all
  show "fs_ok ?s" unfolding fs_ok_def us vs
  proof (intro conjI ballI allI impI, goal_cases)
    case (9 v k)
    then show ?case using fs_ok_slot(1) [OF ok] sl by simp
  next
    case (10 v k)
    then show ?case using fs_ok_slot(2) [OF ok] sl by simp
  next
    case (11 v w k l)
    then have "slot s v k = slot s w l" "slot s v k \<noteq> 0" using sl by auto
    then show ?case by (rule fs_ok_slot_inj(1) [OF ok 11(1,2)])
  next
    case (12 v w k l)
    then have "slot s v k = slot s w l" "slot s v k \<noteq> 0" using sl by auto
    then show ?case by (rule fs_ok_slot_inj(2) [OF ok 12(1,2)])
  qed (use fs_okD [OF ok] fs_ok_dinode [OF ok] fm in auto)
qed

lemma fs_ok_new_vnode:
  assumes ok: "fs_ok s" and b: "b \<noteq> 0" "b < sb_nblocks (sfs_sb s)" "unat b \<in> used s"
    and own: "\<And>w k. w \<in> set (sfs_vnodes s) \<Longrightarrow> slot s w k \<noteq> b"
  shows "fs_ok (s\<lparr>sfs_vnodes := sfs_vnodes s @ [vnode_init b (zero_inode ty) d]\<rparr>)"
proof -
  let ?n = "vnode_init b (zero_inode ty) d"
  have sl: "slot s ?n k = (if k = 0 then b else 0)" for k
    using zero_inode_ok(2) by (cases k rule: slot_cases) (simp_all add: vnode_init_def, simp add: zero_inode_def)
  have "b \<notin> sv_ino ` set (sfs_vnodes s)" using own [where k = 0] by auto
  moreover have "sv_ino ?n = b" "dinode_ok (sv_i ?n)" using zero_inode_ok(1) by (simp_all add: vnode_init_def)
  ultimately show ?thesis
    using ok b own sl unfolding fs_ok_def
    by (intro conjI) (auto simp del: slot.simps split: if_splits, (metis+)?)
qed

text \<open>A new object: a fresh inode of size 0 without links, with one reference; no file changes.\<close>

definition created :: "sfs_fs \<Rightarrow> u32 \<Rightarrow> u16 \<Rightarrow> sfs_fs \<Rightarrow> bool" where
  "created s ino ty s' \<longleftrightarrow> fs_ok s' \<and> ino \<noteq> 0 \<and> vn s ino = None \<and> unat ino \<notin> used s \<and>
     vn s' = (vn s)(ino \<mapsto> \<lparr>vn_refcount = 1, sv_i = zero_inode ty, sv_ino = ino, sv_dirty = True\<rparr>) \<and>
     used s' = insert (unat ino) (used s) \<and> others_same ino s s' \<and> sfs_sb s' = sfs_sb s \<and> biglock s' = biglock s \<and>
     curas s' = curas s \<and> (\<forall>c. unat c \<in> used s \<longrightarrow> blk s' c = blk s c)"

lemma makeobj_cases:
  assumes ok: "fs_ok s" and ty: "ty \<in> {SFS_TYPE_FILE, SFS_TYPE_DIR}"
  shows "sfs_makeobj km am ty s = Err ENOSPC s \<and> fs_full s \<or>
    (if km \<and> am then \<exists>ino s'. sfs_makeobj km am ty s = Ok ino s' \<and> created s ino ty s'
     else \<exists>s'. sfs_makeobj km am ty s = Err ENOMEM s' \<and> fs_ok s' \<and> vn s' = vn s \<and> used s' = used s \<and>
       (\<forall>i. others_same i s s') \<and> sfs_sb s' = sfs_sb s \<and> biglock s' = biglock s \<and> curas s' = curas s)"
proof -
  consider "sfs_balloc s = Err ENOSPC s" "fs_full s"
    | (got) b fm where "sfs_balloc s = Ok b (took b fm s)" "b \<noteq> 0" "b < sb_nblocks (sfs_sb s)"
        "unat b \<notin> used s" "bm_ok fm" "bm_nbits fm = bm_nbits (sfs_freemap s)" "bm_used fm = insert (unat b) (used s)"
    using balloc_took [OF ok] by blast
  then show ?thesis
  proof cases
    case 1
    then show ?thesis by (simp add: sfs_makeobj_def)
  next
    case got
    let ?t = "took b fm s" and ?n = "vnode_init b (zero_inode ty) True"
    let ?u = "touch (blk ?t b) ?t"
    note t = took_ok [OF ok got(2-7)]
    have own: "slot ?t w k \<noteq> b" if "w \<in> set (sfs_vnodes s)" for w k
      using t(3) [OF that, of k] fs_ok_slot(2) [OF ok that, of k] got(2,4) by (cases "slot s w k = 0") auto
    have nb: "vn s b = None" using own [where k = 0] by (auto simp: vn_None)
    have len: "length (blk ?t b) = 512" by simp
    have u: "fs_ok ?u" "fbyte ?u = fbyte ?t" using fs_ok_touch [OF t(1) len] fbyte_blk [of ?u ?t] by simp_all
    have di: "(dec_dinode (blk ?t b))\<lparr>sfi_type := ty\<rparr> = zero_inode ty" by (simp add: dec_zero_block) (simp add: zero_inode_def)
    have ni: "ty \<noteq> SFS_TYPE_INVAL" using ty by (auto simp: SFS_TYPE_FILE_def SFS_TYPE_DIR_def SFS_TYPE_INVAL_def)
    have ld: "sfs_loadvnode km am b ty ?t =
      (if \<not> km then Err ENOMEM ?t else if \<not> am then Err ENOMEM ?u
       else Ok b (?u\<lparr>sfs_vnodes := sfs_vnodes s @ [?n]\<rparr>))"
      using loadvnode_fresh [OF t(1), of b ty ty km am, unfolded di] nb got ty ni dec_zero_block
      by (simp add: zero_inode_def SFS_TYPE_INVAL_def)
    show ?thesis
    proof (cases "km \<and> am")
      case True
      let ?s = "?u\<lparr>sfs_vnodes := sfs_vnodes s @ [?n]\<rparr>"
      have "fs_ok ?s" using fs_ok_new_vnode [OF u(1) got(2), of ty True] own got(3,7) slot_blk [of ?u ?t] by simp
      moreover have "vn ?s = (vn s)(b \<mapsto> ?n)"
        using vn_append [of ?u ?n] nb by (auto simp: fun_eq_iff vnode_init_def split: option.splits)
      moreover have "others_same b s ?s" using calculation(2) u(2) t(2) vn_in [of s] by (auto simp: others_same_def)
      ultimately have "created s b ty ?s"
        using got nb by (auto simp: created_def vnode_init_def)
      then show ?thesis using True ld got(1) by (auto simp: sfs_makeobj_def)
    next
      case False
      define t' where "t' = (if km then ?u else ?t)"
      have t': "fs_ok t'" "sfs_freemap t' = fm" "sfs_sb t' = sfs_sb s" "sfs_vnodes t' = sfs_vnodes s" "fbyte t' = fbyte ?t"
        "biglock t' = biglock s" "curas t' = curas s" "slot t' = slot ?t" "used t' = insert (unat b) (used s)"
        using t(1) u got(7) slot_blk [of ?u ?t] by (auto simp: t'_def fun_eq_iff)
      have "b < bm_nbits (sfs_freemap t')" "unat b \<in> used t'" using got(3,6) fs_okD(4) [OF ok] t'(2,9) by auto
      from bfree_ok [OF fs_okD(2) [OF t'(1)] this] obtain fm' where
        f: "sfs_bfree b t' = Ok () (t'\<lparr>sfs_freemap := fm', sfs_freemapdirty := True\<rparr>)" "bm_ok fm'"
          "bm_nbits fm' = bm_nbits (sfs_freemap t')" "bm_used fm' = used t' - {unat b}" .
      let ?s = "t'\<lparr>sfs_freemap := fm', sfs_freemapdirty := True\<rparr>"
      have "fs_ok ?s" using fs_ok_free_unowned [OF t'(1) f(2-4) got(2)] got(3) t'(3,4,8) own by simp
      moreover have "used ?s = used s" using f(4) t'(9) got(4) by (simp add: used_def)
      moreover have vs: "vn ?s = vn s" using t'(4) by (simp add: vn_def fun_eq_iff)
      moreover have "fbyte ?s = fbyte ?t" using t'(5) fbyte_blk [of ?s t'] by (simp add: blk_def fun_eq_iff)
      then have "\<forall>i. others_same i s ?s" using t(2) vn_in [of s] vs by (auto simp: others_same_def)
      moreover have "sfs_makeobj km am ty s = Err ENOMEM ?s"
        using False got(1) ld f(1) by (auto simp: sfs_makeobj_def t'_def)
      ultimately show ?thesis using False t' by auto
    qed
  qed
qed

end
