(* ===== verification/CString.thy ===== *)
theory CString
  imports Prelude
begin

text \<open>
  The C library functions the kernel shares with userland: \<^verbatim>\<open>common/libc/string\<close> and
  \<^verbatim>\<open>common/libc/stdlib/atoi.c\<close>.

  An object in memory is a list of bytes and a pointer into it a position; every access outside
  the object is a \<open>Fault\<close>. The copying functions work on one memory addressed from 0, so that
  source and destination may overlap, and take their word-at-a-time path under the same alignment
  test as the code (\<^verbatim>\<open>long\<close> has four bytes).

  The theory shows that \<^verbatim>\<open>strcmp\<close> orders strings as lists of unsigned characters, that \<^verbatim>\<open>memmove\<close>
  copies overlapping regions correctly on both paths, what the string builders leave in memory,
  that \<^verbatim>\<open>strtok_r\<close> enumerates the words between separators, and that \<^verbatim>\<open>atoi\<close> inverts decimal
  printing modulo 32-bit wrap-around.
\<close>

subsection \<open>Strings\<close>

function strlen_from :: "byte list \<Rightarrow> nat \<Rightarrow> nat \<Rightarrow> (nat, unit) res" where
  "strlen_from m p ret = rd m (p + ret) (\<lambda>c. if c \<noteq> 0 then strlen_from m p (Suc ret) else Ok ret ())"
  by pat_completeness auto
termination by (relation "measure (\<lambda>(m, p, ret). length m - (p + ret))") (auto simp: rd_def)

definition strlen :: "byte list \<Rightarrow> nat \<Rightarrow> (nat, unit) res" where
  "strlen m p = strlen_from m p 0"

function strcmp_from :: "byte list \<Rightarrow> nat \<Rightarrow> byte list \<Rightarrow> nat \<Rightarrow> nat \<Rightarrow> (int, unit) res" where
  "strcmp_from a p b q i =
     rd a (p + i) (\<lambda>x. rd b (q + i) (\<lambda>y.
       if x \<noteq> 0 \<and> x = y then strcmp_from a p b q (Suc i)
       else if x > y then Ok 1 ()
       else if x = y then Ok 0 ()
       else Ok (- 1) ()))"
  by pat_completeness auto
termination by (relation "measure (\<lambda>(a, p, b, q, i). length a - (p + i))") auto

definition strcmp :: "byte list \<Rightarrow> nat \<Rightarrow> byte list \<Rightarrow> nat \<Rightarrow> (int, unit) res" where
  "strcmp a p b q = strcmp_from a p b q 0"

text \<open>The destination is the state; source and destination are different objects.\<close>

function strcpy_from :: "byte list \<Rightarrow> nat \<Rightarrow> byte list \<Rightarrow> nat \<Rightarrow> nat \<Rightarrow> (unit, byte list) res" where
  "strcpy_from dest d src p i =
     rd src (p + i) (\<lambda>c.
       if c \<noteq> 0 then wr dest (d + i) c (\<lambda>dest. strcpy_from dest d src p (Suc i))
       else wr dest (d + i) 0 (\<lambda>dest. Ok () dest))"
  by pat_completeness auto
termination by (relation "measure (\<lambda>(dest, d, src, p, i). length src - (p + i))") auto

definition strcpy :: "byte list \<Rightarrow> nat \<Rightarrow> byte list \<Rightarrow> nat \<Rightarrow> (unit, byte list) res" where
  "strcpy dest d src p = strcpy_from dest d src p 0"

definition strcat :: "byte list \<Rightarrow> nat \<Rightarrow> byte list \<Rightarrow> nat \<Rightarrow> (unit, byte list) res" where
  "strcat dest d src p =
     (case strlen dest d of
        Ok offset _ \<Rightarrow> strcpy dest (d + offset) src p
      | Err e _ \<Rightarrow> Err e dest | Panic \<Rightarrow> Panic | Fault \<Rightarrow> Fault | Hang \<Rightarrow> Hang)"

function strchr :: "byte list \<Rightarrow> nat \<Rightarrow> byte \<Rightarrow> (nat option, unit) res" where
  "strchr m s ch =
     rd m s (\<lambda>c.
       if c \<noteq> 0 then (if c = ch then Ok (Some s) () else strchr m (Suc s) ch)
       else if c = ch then Ok (Some s) () else Ok None ())"
  by pat_completeness auto
termination by (relation "measure (\<lambda>(m, s, ch). length m - s)") auto

fun strrchr_down :: "byte list \<Rightarrow> nat \<Rightarrow> byte \<Rightarrow> nat \<Rightarrow> (nat option, unit) res" where
  "strrchr_down m s ch 0 = Ok None ()"
| "strrchr_down m s ch (Suc i) = rd m (s + i) (\<lambda>c. if c = ch then Ok (Some (s + i)) () else strrchr_down m s ch i)"

definition strrchr :: "byte list \<Rightarrow> nat \<Rightarrow> byte \<Rightarrow> (nat option, unit) res" where
  "strrchr m s ch = kbind (strlen m s) (\<lambda>n _. strrchr_down m s ch (n + 1))"

subsection \<open>Memory\<close>

text \<open>The assignment of one element of \<open>w\<close> bytes, \<^verbatim>\<open>*d = *s\<close>.\<close>

definition assign_from :: "nat \<Rightarrow> nat \<Rightarrow> nat \<Rightarrow> byte list \<Rightarrow> (unit, byte list) res" where
  "assign_from w d s m =
     (if s + w \<le> length m \<and> d + w \<le> length m then Ok () (take d m @ take w (drop s m) @ drop (d + w) m)
      else Fault)"

fun copy_forward :: "nat \<Rightarrow> nat \<Rightarrow> nat \<Rightarrow> nat \<Rightarrow> nat \<Rightarrow> byte list \<Rightarrow> (unit, byte list) res" where
  "copy_forward w d s i 0 m = Ok () m"
| "copy_forward w d s i (Suc r) m =
     kbind (assign_from w (d + w * i) (s + w * i) m) (\<lambda>_ m. copy_forward w d s (Suc i) r m)"

fun copy_backward :: "nat \<Rightarrow> nat \<Rightarrow> nat \<Rightarrow> nat \<Rightarrow> byte list \<Rightarrow> (unit, byte list) res" where
  "copy_backward w d s 0 m = Ok () m"
| "copy_backward w d s (Suc i) m =
     kbind (assign_from w (d + w * i) (s + w * i) m) (\<lambda>_ m. copy_backward w d s i m)"

definition memcpy :: "nat \<Rightarrow> nat \<Rightarrow> nat \<Rightarrow> byte list \<Rightarrow> (unit, byte list) res" where
  "memcpy dst src len m =
     (if dst mod 4 = 0 \<and> src mod 4 = 0 \<and> len mod 4 = 0 then copy_forward 4 dst src 0 (len div 4) m
      else copy_forward 1 dst src 0 len m)"

definition memmove :: "nat \<Rightarrow> nat \<Rightarrow> nat \<Rightarrow> byte list \<Rightarrow> (unit, byte list) res" where
  "memmove dst src len m =
     (if dst < src then memcpy dst src len m
      else if dst mod 4 = 0 \<and> src mod 4 = 0 \<and> len mod 4 = 0 then copy_backward 4 dst src (len div 4) m
      else copy_backward 1 dst src len m)"

fun fill_forward :: "byte list \<Rightarrow> nat \<Rightarrow> nat \<Rightarrow> nat \<Rightarrow> byte list \<Rightarrow> (unit, byte list) res" where
  "fill_forward x p i 0 m = Ok () m"
| "fill_forward x p i (Suc r) m =
     (if p + length x * i + length x \<le> length m
      then fill_forward x p (Suc i) r (take (p + length x * i) m @ x @ drop (p + length x * i + length x) m)
      else Fault)"

definition memset :: "nat \<Rightarrow> byte \<Rightarrow> nat \<Rightarrow> byte list \<Rightarrow> (unit, byte list) res" where
  "memset ptr ch len m = fill_forward [ch] ptr 0 len m"

definition bzero :: "nat \<Rightarrow> nat \<Rightarrow> byte list \<Rightarrow> (unit, byte list) res" where
  "bzero block len m =
     (if block mod 4 = 0 \<and> len mod 4 = 0 then fill_forward [0, 0, 0, 0] block 0 (len div 4) m
      else fill_forward [0] block 0 len m)"

subsection \<open>Tokens and numbers\<close>

definition is_sep :: "byte list \<Rightarrow> byte \<Rightarrow> (bool, unit) res" where
  "is_sep seps c = kbind (strchr seps 0 c) (\<lambda>w _. Ok (w \<noteq> None) ())"

function skip_seps :: "byte list \<Rightarrow> byte list \<Rightarrow> nat \<Rightarrow> (nat, unit) res" where
  "skip_seps m seps p =
     rd m p (\<lambda>c.
       if c = 0 then Ok p ()
       else case is_sep seps c of
          Ok b _ \<Rightarrow> (if b then skip_seps m seps (Suc p) else Ok p ())
        | Err e _ \<Rightarrow> Err e () | Panic \<Rightarrow> Panic | Fault \<Rightarrow> Fault | Hang \<Rightarrow> Hang)"
  by pat_completeness auto
termination by (relation "measure (\<lambda>(m, seps, p). length m - p)") auto

function skip_word :: "byte list \<Rightarrow> byte list \<Rightarrow> nat \<Rightarrow> (nat, unit) res" where
  "skip_word m seps p =
     rd m p (\<lambda>c.
       if c = 0 then Ok p ()
       else case is_sep seps c of
          Ok b _ \<Rightarrow> (if b then Ok p () else skip_word m seps (Suc p))
        | Err e _ \<Rightarrow> Err e () | Panic \<Rightarrow> Panic | Fault \<Rightarrow> Fault | Hang \<Rightarrow> Hang)"
  by pat_completeness auto
termination by (relation "measure (\<lambda>(m, seps, p). length m - p)") auto

text \<open>The state is the string, which is modified, and \<^verbatim>\<open>*context\<close>.\<close>

definition strtok_r :: "nat option \<Rightarrow> byte list \<Rightarrow> byte list \<times> nat option \<Rightarrow> (nat option, byte list \<times> nat option) res" where
  "strtok_r string seps st =
     (case st of (m, context) \<Rightarrow>
        let context = (if string \<noteq> None then string else context) in
        case context of
          None \<Rightarrow> Ok None (m, context)
        | Some head \<Rightarrow>
            (case skip_seps m seps head of
               Ok head _ \<Rightarrow>
                 rd m head (\<lambda>c.
                   if c = 0 then Ok None (m, None)
                   else
                     (case skip_word m seps head of
                        Ok tail _ \<Rightarrow>
                          rd m tail (\<lambda>c.
                            if c = 0 then Ok (Some head) (m, None)
                            else Ok (Some head) (m[tail := 0], Some (Suc tail)))
                      | Err e _ \<Rightarrow> Err e (m, context) | Panic \<Rightarrow> Panic | Fault \<Rightarrow> Fault | Hang \<Rightarrow> Hang))
             | Err e _ \<Rightarrow> Err e (m, context) | Panic \<Rightarrow> Panic | Fault \<Rightarrow> Fault | Hang \<Rightarrow> Hang))"

definition digits :: "byte list" where
  "digits = [48, 49, 50, 51, 52, 53, 54, 55, 56, 57, 0]"

function atoi_space :: "byte list \<Rightarrow> nat \<Rightarrow> (nat, unit) res" where
  "atoi_space m s = rd m s (\<lambda>c. if c = 32 \<or> c = 9 then atoi_space m (Suc s) else Ok s ())"
  by pat_completeness auto
termination by (relation "measure (\<lambda>(m, s). length m - s)") auto

function atoi_digits :: "byte list \<Rightarrow> nat \<Rightarrow> u32 \<Rightarrow> (u32, unit) res" where
  "atoi_digits m s val =
     rd m s (\<lambda>c.
       if c = 0 then Ok val ()
       else case strchr digits 0 c of
          Ok (Some digit) _ \<Rightarrow> atoi_digits m (Suc s) (val * 10 + word_of_nat digit)
        | Ok None _ \<Rightarrow> Ok val ()
        | Err e _ \<Rightarrow> Err e () | Panic \<Rightarrow> Panic | Fault \<Rightarrow> Fault | Hang \<Rightarrow> Hang)"
  by pat_completeness auto
termination by (relation "measure (\<lambda>(m, s, val). length m - s)") auto

text \<open>The result is the bit pattern of the \<^verbatim>\<open>int\<close>.\<close>

definition atoi :: "byte list \<Rightarrow> nat \<Rightarrow> (u32, unit) res" where
  "atoi m s =
     kbind (atoi_space m s) (\<lambda>s _.
       rd m s (\<lambda>c.
         if c = 45 then kbind (atoi_digits m (Suc s) 0) (\<lambda>val _. Ok (- val) ())
         else if c = 43 then atoi_digits m (Suc s) 0
         else atoi_digits m s 0))"

declare strlen_from.simps [simp del] strcmp_from.simps [simp del] strcpy_from.simps [simp del] strchr.simps [simp del]
  skip_seps.simps [simp del] skip_word.simps [simp del] atoi_space.simps [simp del] atoi_digits.simps [simp del]

subsection \<open>What memory holds\<close>

text \<open>At position \<open>p\<close> there is a string with the characters \<open>xs\<close>, terminated by 0.\<close>

definition holds :: "byte list \<Rightarrow> nat \<Rightarrow> byte list \<Rightarrow> bool" where
  "holds m p xs \<longleftrightarrow> p + length xs < length m \<and> (\<forall>i < length xs. m ! (p + i) = xs ! i) \<and>
     m ! (p + length xs) = 0 \<and> 0 \<notin> set xs"

lemma holds_Nil: "holds m p [] \<longleftrightarrow> p < length m \<and> m ! p = 0"
  by (auto simp: holds_def)

lemma holds_Cons: "holds m p (x # xs) \<longleftrightarrow> p < length m \<and> m ! p = x \<and> x \<noteq> 0 \<and> holds m (Suc p) xs"
proof -
  have "(\<forall>i < length (x # xs). m ! (p + i) = (x # xs) ! i) \<longleftrightarrow> m ! p = x \<and> (\<forall>i < length xs. m ! (Suc p + i) = xs ! i)"
    by (auto simp: All_less_Suc2)
  then show ?thesis by (auto simp: holds_def)
qed

lemma holds_list: "0 \<notin> set xs \<Longrightarrow> holds (ys @ xs @ 0 # zs) (length ys) xs"
  by (auto simp: holds_def nth_append)

lemma strlen_from_holds: "holds m (p + i) xs \<Longrightarrow> strlen_from m p i = Ok (i + length xs) ()"
  by (induction xs arbitrary: i) (subst strlen_from.simps, simp add: holds_Nil holds_Cons)+

lemma strlen_holds: "holds m p xs \<Longrightarrow> strlen m p = Ok (length xs) ()"
  using strlen_from_holds [of m p 0 xs] by (simp add: strlen_def)

fun cmp_bytes :: "byte list \<Rightarrow> byte list \<Rightarrow> int" where
  "cmp_bytes [] [] = 0"
| "cmp_bytes [] (y # ys) = - 1"
| "cmp_bytes (x # xs) [] = 1"
| "cmp_bytes (x # xs) (y # ys) = (if x = y then cmp_bytes xs ys else if x < y then - 1 else 1)"

lemma cmp_bytes_0 [simp]: "cmp_bytes xs ys = 0 \<longleftrightarrow> xs = ys"
  by (induction xs ys rule: cmp_bytes.induct) auto

lemma cmp_bytes_sym: "cmp_bytes ys xs = - cmp_bytes xs ys"
  by (induction xs ys rule: cmp_bytes.induct) auto

lemma strcmp_from_holds:
  "holds a (p + i) xs \<Longrightarrow> holds b (q + i) ys \<Longrightarrow> strcmp_from a p b q i = Ok (cmp_bytes xs ys) ()"
proof (induction xs ys arbitrary: i rule: cmp_bytes.induct)
  case (4 x xs y ys)
  then have "holds a (p + Suc i) xs" "holds b (q + Suc i) ys" by (simp_all add: holds_Cons)
  then have "x = y \<Longrightarrow> strcmp_from a p b q (Suc i) = Ok (cmp_bytes xs ys) ()" using 4(1) by simp
  then show ?case using 4(2,3) by (subst strcmp_from.simps) (auto simp: holds_Cons)
qed (subst strcmp_from.simps, auto simp: holds_Nil holds_Cons word_gt_0)+

text \<open>
  \<^verbatim>\<open>strcmp\<close> on two terminated strings never reads outside them and returns the sign of the
  comparison as lists of unsigned characters (a proper prefix is smaller): 0 exactly for equal
  strings, and exchanging the arguments negates the result.
\<close>

theorem strcmp_orders:
  assumes "holds a p xs" "holds b q ys"
  shows "strcmp a p b q = Ok (cmp_bytes xs ys) () \<and> (strcmp a p b q = Ok 0 () \<longleftrightarrow> xs = ys) \<and>
    strcmp b q a p = Ok (- cmp_bytes xs ys) ()"
  using strcmp_from_holds [of a p 0 xs b q ys] strcmp_from_holds [of b q 0 ys a p xs] assms cmp_bytes_sym [of ys xs]
  by (simp add: strcmp_def)

theorem strcmp_orders_witness:
  "strcmp [97, 98, 0] 0 [1, 97, 200, 0] 1 = Ok (- 1) ()"
proof -
  have "holds [97, 98, 0] 0 [97, 98]" "holds [1, 97, 200, 0] 1 [97, 200]" by (simp_all add: holds_Nil holds_Cons)
  from strcmp_orders [OF this] show ?thesis by simp
qed

lemma strcpy_from_holds:
  "holds src (p + i) xs \<Longrightarrow> d + i + length xs < length dest \<Longrightarrow>
   strcpy_from dest d src p i = Ok () (take (d + i) dest @ xs @ 0 # drop (Suc (d + i + length xs)) dest)"
proof (induction xs arbitrary: dest i)
  case Nil
  then show ?case by (subst strcpy_from.simps) (simp add: holds_Nil upd_conv_take_nth_drop)
next
  case (Cons x xs)
  then have "strcpy_from (dest[d + i := x]) d src p (Suc i) =
      Ok () (take (d + Suc i) (dest[d + i := x]) @ xs @ 0 # drop (Suc (d + Suc i + length xs)) (dest[d + i := x]))"
    by (intro Cons.IH) (simp_all add: holds_Cons)
  moreover have "take (Suc (d + i)) (dest[d + i := x]) = take (d + i) dest @ [x]"
    using Cons.prems(2) by (simp add: take_Suc_conv_app_nth)
  ultimately show ?case using Cons.prems by (subst strcpy_from.simps) (simp add: holds_Cons)
qed

lemma strcpy_holds:
  assumes "holds src p xs" "d + length xs < length dest"
  shows "strcpy dest d src p = Ok () (take d dest @ xs @ 0 # drop (Suc (d + length xs)) dest)"
  using strcpy_from_holds [of src p 0 xs d dest] assms by (simp add: strcpy_def)

lemma holds_splice:
  assumes "d + length xs < length dest" "0 \<notin> set xs"
  shows "holds (take d dest @ xs @ 0 # drop (Suc (d + length xs)) dest) d xs"
proof -
  have "length (take d dest) = d" using assms(1) by simp
  then show ?thesis using holds_list [OF assms(2), of "take d dest"] by metis
qed

text \<open>
  \<^verbatim>\<open>strcpy\<close> into a big enough buffer leaves there the source string and changes nothing else;
  \<^verbatim>\<open>strcat\<close> leaves the concatenation; \<^verbatim>\<open>strlen\<close> of the result is the sum of the lengths.
\<close>

theorem strcpy_strcat_build:
  assumes s: "holds src p xs" and t: "holds src' q ys" and n: "d + length xs + length ys < length dest"
  shows "\<exists>m m'. strcpy dest d src p = Ok () m \<and> holds m d xs \<and> length m = length dest \<and>
      (\<forall>i < length dest. i < d \<or> d + length xs < i \<longrightarrow> m ! i = dest ! i) \<and>
      strcat m d src' q = Ok () m' \<and> holds m' d (xs @ ys) \<and> length m' = length dest \<and>
      strlen m' d = Ok (length xs + length ys) () \<and> 
      (\<forall>i < length dest. i < d \<or> d + length xs + length ys < i \<longrightarrow> m' ! i = dest ! i)"
proof -
  let ?m = "take d dest @ xs @ 0 # drop (Suc (d + length xs)) dest"
  have lm: "length ?m = length dest" using n by simp
  have z: "0 \<notin> set xs" "0 \<notin> set ys" using s t by (simp_all add: holds_def)
  have m: "strcpy dest d src p = Ok () ?m" by (rule strcpy_holds [OF s]) (use n in simp)
  have h: "holds ?m d xs" by (rule holds_splice) (use n z in simp_all)
  let ?m' = "take (d + length xs) ?m @ ys @ 0 # drop (Suc (d + length xs + length ys)) ?m"
  have m': "strcat ?m d src' q = Ok () ?m'"
    unfolding strcat_def strlen_holds [OF h] res.case by (rule strcpy_holds [OF t]) (use n lm in simp)
  have e: "?m' = take d dest @ (xs @ ys) @ 0 # drop (Suc (d + length (xs @ ys))) dest"
  proof -
    have "take (d + length xs) ?m = take d dest @ xs" using n by simp
    moreover have "drop (Suc (d + length xs + length ys)) ?m = drop (Suc (d + length xs + length ys)) dest"
    proof -
      have l: "length (take d dest @ xs) = d + length xs" using n by simp
      have "drop (Suc (d + length xs + length ys)) ((take d dest @ xs) @ 0 # drop (Suc (d + length xs)) dest) =
          drop (Suc (length ys)) (0 # drop (Suc (d + length xs)) dest)"
        unfolding drop_append l by simp
      then show ?thesis by (simp add: add.commute)
    qed
    ultimately show ?thesis by (simp add: add.assoc)
  qed
  have h': "holds ?m' d (xs @ ys)" unfolding e by (rule holds_splice) (use n z in simp_all)
  have rest: "(take d dest @ zs @ 0 # drop (Suc (d + length zs)) dest) ! i = dest ! i"
    if i: "i < length dest" "i < d \<or> d + length zs < i" and l: "d + length zs < length dest" for zs i
  proof (cases "i < d")
    case True
    then show ?thesis using i(1) by (simp add: nth_append)
  next
    case False
    then obtain k where k: "i = Suc (d + length zs + k)" using i(2) less_natE by blast
    have "length (take d dest) = d" using l by simp
    then show ?thesis using i(1) unfolding k by (simp add: nth_append)
  qed
  show ?thesis
  proof (intro exI conjI)
    show "\<forall>i < length dest. i < d \<or> d + length xs < i \<longrightarrow> ?m ! i = dest ! i"
      by (intro allI impI rest) (use n in simp_all)
    show "\<forall>i < length dest. i < d \<or> d + length xs + length ys < i \<longrightarrow> ?m' ! i = dest ! i"
      unfolding e by (intro allI impI rest) (use n in auto)
    show "strlen ?m' d = Ok (length xs + length ys) ()" using strlen_holds [OF h'] by simp
    show "length ?m' = length dest" using n by simp
  qed (use m h lm m' h' in simp_all)
qed

theorem strcpy_strcat_build_witness:
  "\<exists>m m'. strcpy (replicate 8 9) 1 [97, 98, 0] 0 = Ok () m \<and> strcat m 1 [99, 0] 0 = Ok () m' \<and> holds m' 1 [97, 98, 99]"
proof -
  have "holds [97, 98, 0] 0 [97, 98]" "holds [99, 0] 0 [99]" by (simp_all add: holds_Nil holds_Cons)
  from strcpy_strcat_build [OF this, of 1 "replicate 8 9"] show ?thesis by auto
qed

subsection \<open>Copying\<close>

text \<open>The memory after the bytes \<open>lo\<close> to \<open>hi\<close> of the destination have been copied.\<close>

definition copied :: "byte list \<Rightarrow> nat \<Rightarrow> nat \<Rightarrow> nat \<Rightarrow> nat \<Rightarrow> byte list" where
  "copied m d s lo hi = map (\<lambda>k. if d + lo \<le> k \<and> k < d + hi then m ! (k - d + s) else m ! k) [0..<length m]"

lemma length_copied [simp]: "length (copied m d s lo hi) = length m"
  by (simp add: copied_def)

lemma nth_copied: "k < length m \<Longrightarrow> copied m d s lo hi ! k = (if d + lo \<le> k \<and> k < d + hi then m ! (k - d + s) else m ! k)"
  by (simp add: copied_def)

lemma copied_empty: "copied m d s lo lo = m"
  by (rule nth_equalityI) (auto simp: nth_copied)

lemma assign_from_nth:
  assumes "s + w \<le> length m" "d + w \<le> length m" "k < length m"
  shows "(take d m @ take w (drop s m) @ drop (d + w) m) ! k = (if d \<le> k \<and> k < d + w then m ! (k - d + s) else m ! k)"
  using assms by (auto simp: nth_append add.commute)

lemma assign_forward:
  assumes "s + (j + w) \<le> length m" "d + (j + w) \<le> length m" "d + w \<le> s \<or> d = s \<or> s + (j + w) \<le> d"
  shows "assign_from w (d + j) (s + j) (copied m d s 0 j) = Ok () (copied m d s 0 (j + w))"
proof -
  let ?c = "copied m d s 0 j"
  have b: "s + j + w \<le> length ?c" "d + j + w \<le> length ?c" using assms(1,2) by simp_all
  have "take (d + j) ?c @ take w (drop (s + j) ?c) @ drop (d + j + w) ?c = copied m d s 0 (j + w)"
  proof (rule nth_equalityI)
    show "length (take (d + j) ?c @ take w (drop (s + j) ?c) @ drop (d + j + w) ?c) = length (copied m d s 0 (j + w))"
      using b by simp
    fix k assume "k < length (take (d + j) ?c @ take w (drop (s + j) ?c) @ drop (d + j + w) ?c)"
    then have k: "k < length m" using b by simp
    show "(take (d + j) ?c @ take w (drop (s + j) ?c) @ drop (d + j + w) ?c) ! k = copied m d s 0 (j + w) ! k"
    proof (cases "d + j \<le> k \<and> k < d + j + w")
      case True
      then have e: "k - (d + j) + (s + j) = k - d + s" by linarith
      have "k - d + s < length m" using True assms(1) by linarith
      moreover have "\<not> (d \<le> k - d + s \<and> k - d + s < d + j) \<or> d = s" using assms(3) True by linarith
      ultimately have "?c ! (k - (d + j) + (s + j)) = m ! (k - d + s)" unfolding e by (auto simp: nth_copied)
      then show ?thesis using assign_from_nth [OF b] k True by (simp add: nth_copied)
    next
      case False
      then show ?thesis using assign_from_nth [OF b] k by (auto simp: nth_copied)
    qed
  qed
  then show ?thesis using b by (simp add: assign_from_def)
qed

lemma assign_backward:
  assumes "s + n \<le> length m" "d + n \<le> length m" "s \<le> d" "j + w \<le> n" "s + w \<le> d \<or> d = s"
  shows "assign_from w (d + j) (s + j) (copied m d s (j + w) n) = Ok () (copied m d s j n)"
proof -
  let ?c = "copied m d s (j + w) n"
  have b: "s + j + w \<le> length ?c" "d + j + w \<le> length ?c" using assms by simp_all
  have "take (d + j) ?c @ take w (drop (s + j) ?c) @ drop (d + j + w) ?c = copied m d s j n"
  proof (rule nth_equalityI)
    show "length (take (d + j) ?c @ take w (drop (s + j) ?c) @ drop (d + j + w) ?c) = length (copied m d s j n)"
      using b by simp
    fix k assume "k < length (take (d + j) ?c @ take w (drop (s + j) ?c) @ drop (d + j + w) ?c)"
    then have k: "k < length m" using b by simp
    show "(take (d + j) ?c @ take w (drop (s + j) ?c) @ drop (d + j + w) ?c) ! k = copied m d s j n ! k"
    proof (cases "d + j \<le> k \<and> k < d + j + w")
      case True
      then have e: "k - (d + j) + (s + j) = k - d + s" by linarith
      have "k - d + s < length m" using True assms by linarith
      moreover have "\<not> d + (j + w) \<le> k - d + s" using assms(3) True by linarith
      ultimately have "?c ! (k - (d + j) + (s + j)) = m ! (k - d + s)" unfolding e by (auto simp: nth_copied)
      then show ?thesis using assign_from_nth [OF b] k True assms(4) by (simp add: nth_copied)
    next
      case False
      then show ?thesis using assign_from_nth [OF b] k assms(4) by (auto simp: nth_copied)
    qed
  qed
  then show ?thesis using b by (simp add: assign_from_def)
qed

lemma copy_forward_copied:
  assumes "s + w * (i + r) \<le> length m" "d + w * (i + r) \<le> length m" "d + w \<le> s \<or> d = s \<or> s + w * (i + r) \<le> d"
  shows "copy_forward w d s i r (copied m d s 0 (w * i)) = Ok () (copied m d s 0 (w * (i + r)))"
  using assms
proof (induction r arbitrary: i)
  case (Suc r)
  have "w * i + w \<le> w * (i + Suc r)" by (simp add: algebra_simps)
  then have "assign_from w (d + w * i) (s + w * i) (copied m d s 0 (w * i)) = Ok () (copied m d s 0 (w * i + w))"
    using Suc.prems by (intro assign_forward) linarith+
  then show ?case using Suc.IH [of "Suc i"] Suc.prems by (simp add: add.commute)
qed simp

lemma copy_backward_copied:
  assumes "s + w * n \<le> length m" "d + w * n \<le> length m" "s + w \<le> d \<or> d = s" "i \<le> n"
  shows "copy_backward w d s i (copied m d s (w * i) (w * n)) = Ok () (copied m d s 0 (w * n))"
  using assms(4)
proof (induction i)
  case (Suc i)
  have "w * i + w \<le> w * n" using Suc.prems by (metis add.commute mult_Suc_right mult_le_mono2)
  then have "assign_from w (d + w * i) (s + w * i) (copied m d s (w * i + w) (w * n)) = Ok () (copied m d s (w * i) (w * n))"
    using assms by (intro assign_backward) linarith+
  then show ?case using Suc by (simp add: add.commute)
qed simp

lemma aligned_gap: "(a :: nat) mod 4 = 0 \<Longrightarrow> b mod 4 = 0 \<Longrightarrow> a < b \<Longrightarrow> a + 4 \<le> b"
  by presburger

lemma memcpy_copied:
  assumes "src + len \<le> length m" "dst + len \<le> length m" "dst \<le> src \<or> src + len \<le> dst"
  shows "memcpy dst src len m = Ok () (copied m dst src 0 len)"
proof (cases "dst mod 4 = 0 \<and> src mod 4 = 0 \<and> len mod 4 = 0")
  case True
  then have l: "4 * (len div 4) = len" by auto
  have "dst + 4 \<le> src \<or> dst = src \<or> src + len \<le> dst" using assms(3) aligned_gap [of dst src] True by linarith
  then show ?thesis using copy_forward_copied [of src 4 0 "len div 4" m dst] assms(1,2) True l copied_empty
    by (simp add: memcpy_def)
next
  case False
  have "dst + 1 \<le> src \<or> dst = src \<or> src + len \<le> dst" using assms(3) by linarith
  then show ?thesis unfolding memcpy_def if_not_P [OF False]
    using copy_forward_copied [of src 1 0 len m dst] assms(1,2) copied_empty by simp
qed

text \<open>
  \<^bold>\<open>C35.\<close> \<^verbatim>\<open>memmove\<close> copies correctly whether or not the regions overlap and in whichever order they
  lie, word by word or byte by byte: afterwards every byte of the destination is the original byte
  of the source, every other byte is unchanged, and no byte outside the two regions is accessed.
  \<^verbatim>\<open>memcpy\<close> does the same when the destination does not start inside the source.
\<close>

theorem memmove_copies:
  assumes "src + len \<le> length m" "dst + len \<le> length m"
  shows "(\<exists>m'. memmove dst src len m = Ok () m' \<and> length m' = length m \<and>
      (\<forall>i < len. m' ! (dst + i) = m ! (src + i)) \<and>
      (\<forall>k < length m. k < dst \<or> dst + len \<le> k \<longrightarrow> m' ! k = m ! k)) \<and>
    (dst \<le> src \<or> src + len \<le> dst \<longrightarrow> memcpy dst src len m = memmove dst src len m)"
proof -
  have mv: "memmove dst src len m = Ok () (copied m dst src 0 len)"
  proof (cases "dst < src")
    case True
    then show ?thesis using memcpy_copied [OF assms] by (simp add: memmove_def)
  next
    case nlt: False
    show ?thesis
    proof (cases "dst mod 4 = 0 \<and> src mod 4 = 0 \<and> len mod 4 = 0")
      case True
      then have l: "4 * (len div 4) = len" by auto
      have "src + 4 \<le> dst \<or> dst = src" using nlt aligned_gap [of src dst] True by linarith
      then show ?thesis using copy_backward_copied [of src 4 "len div 4" m dst "len div 4"] assms True nlt l copied_empty
        by (simp add: memmove_def)
    next
      case False
      have "src + 1 \<le> dst \<or> dst = src" using nlt by linarith
      then show ?thesis unfolding memmove_def if_not_P [OF nlt] if_not_P [OF False]
        using copy_backward_copied [of src 1 len m dst len] assms copied_empty by simp
    qed
  qed
  have "copied m dst src 0 len ! (dst + i) = m ! (src + i)" if "i < len" for i
    using that assms by (simp add: nth_copied add.commute)
  then show ?thesis using mv memcpy_copied [OF assms] by (auto simp: nth_copied)
qed

theorem memmove_copies_witness:
  "\<exists>m'. memmove 4 0 8 [1, 2, 3, 4, 5, 6, 7, 8, 9, 10, 11, 12] = Ok () m' \<and> m' ! (4 + 5) = 6"
proof -
  have "\<exists>m'. memmove 4 0 8 [1, 2, 3, 4, 5, 6, 7, 8, 9, 10, 11, 12] = Ok () m' \<and>
      (\<forall>i < 8. m' ! (4 + i) = [1, 2, 3, 4, 5, 6, 7, 8, 9, 10, 11, 12] ! (0 + i))"
    using memmove_copies [of 0 8 "[1, 2, 3, 4, 5, 6, 7, 8, 9, 10, 11, 12]" 4] by auto
  then obtain m' where m: "memmove 4 0 8 [1, 2, 3, 4, 5, 6, 7, 8, 9, 10, 11, 12] = Ok () m'"
    and all: "\<And>i. i < 8 \<Longrightarrow> m' ! (4 + i) = [1, 2, 3, 4, 5, 6, 7, 8, 9, 10, 11, 12] ! (0 + i)" by blast
  show ?thesis using m all [of 5] by (intro exI [of _ m']) simp
qed

subsection \<open>Searching and splitting\<close>

lemma strchr_holds:
  "holds m s xs \<Longrightarrow> strchr m s ch = Ok (if ch = 0 then Some (s + length xs)
     else if ch \<in> set xs then Some (s + length (takeWhile (\<lambda>c. c \<noteq> ch) xs)) else None) ()"
  by (induction xs arbitrary: s) (subst strchr.simps, auto simp: holds_Nil holds_Cons)+

lemma is_sep_holds: "holds seps 0 zs \<Longrightarrow> c \<noteq> 0 \<Longrightarrow> is_sep seps c = Ok (c \<in> set zs) ()"
  by (simp add: is_sep_def strchr_holds)

lemma skip_seps_holds:
  "holds seps 0 zs \<Longrightarrow> holds m p xs \<Longrightarrow> skip_seps m seps p = Ok (p + length (takeWhile (\<lambda>c. c \<in> set zs) xs)) ()"
  by (induction xs arbitrary: p) (subst skip_seps.simps, auto simp: holds_Nil holds_Cons is_sep_holds)+

lemma skip_word_holds:
  "holds seps 0 zs \<Longrightarrow> holds m p xs \<Longrightarrow> skip_word m seps p = Ok (p + length (takeWhile (\<lambda>c. c \<notin> set zs) xs)) ()"
  by (induction xs arbitrary: p) (subst skip_word.simps, auto simp: holds_Nil holds_Cons is_sep_holds)+

lemma holds_append: "holds m p (xs @ ys) \<Longrightarrow> holds m (p + length xs) ys"
proof (induction xs arbitrary: p)
  case (Cons x xs)
  then show ?case using Cons.IH [of "Suc p"] by (simp add: holds_Cons)
qed simp

lemma holds_dropWhile:
  assumes "holds m p xs"
  shows "holds m (p + (length xs - length (dropWhile P xs))) (dropWhile P xs)"
proof -
  have "length (takeWhile P xs) + length (dropWhile P xs) = length xs" by (metis length_append takeWhile_dropWhile_id)
  then have "length (takeWhile P xs) = length xs - length (dropWhile P xs)" by linarith
  then show ?thesis using holds_append [of m p "takeWhile P xs" "dropWhile P xs"] assms by simp
qed

text \<open>The maximal words without separators.\<close>

function words :: "byte set \<Rightarrow> byte list \<Rightarrow> byte list list" where
  "words S xs =
     (let ys = dropWhile (\<lambda>c. c \<in> S) xs in
      if ys = [] then [] else takeWhile (\<lambda>c. c \<notin> S) ys # words S (tl (dropWhile (\<lambda>c. c \<notin> S) ys)))"
  by pat_completeness auto
termination
proof (relation "measure (\<lambda>(S, xs). length xs)")
  fix S and xs ys :: "byte list" assume y: "ys = dropWhile (\<lambda>c. c \<in> S) xs" "ys \<noteq> []"
  have "length (dropWhile (\<lambda>c. c \<notin> S) ys) \<le> length ys" "length ys \<le> length xs"
    using y(1) length_dropWhile_le by auto
  then show "((S, tl (dropWhile (\<lambda>c. c \<notin> S) ys)), (S, xs)) \<in> measure (\<lambda>(S, xs). length xs)"
    using y(2) by (cases "dropWhile (\<lambda>c. c \<notin> S) ys"; cases ys) auto
qed simp

declare words.simps [simp del]

text \<open>The loop of a client that takes all words of a string.\<close>

fun strtok_loop :: "nat \<Rightarrow> nat option \<Rightarrow> byte list \<Rightarrow> byte list \<times> nat option \<Rightarrow> (nat list, byte list \<times> nat option) res" where
  "strtok_loop 0 string seps st = Hang"
| "strtok_loop (Suc n) string seps st =
     kbind (strtok_r string seps st) (\<lambda>word st.
       case word of None \<Rightarrow> Ok [] st
       | Some h \<Rightarrow> kbind (strtok_loop n None seps st) (\<lambda>hs st. Ok (h # hs) st))"

lemma strtok_context: "strtok_r None seps (m, Some q) = strtok_r (Some q) seps (m, c)"
  by (simp add: strtok_r_def Let_def)

lemma strtok_loop_context: "strtok_loop n None seps (m, Some q) = strtok_loop n (Some q) seps (m, c)"
  by (cases n) (simp_all add: strtok_context [of seps m q c])

lemma strtok_none: "0 < n \<Longrightarrow> strtok_loop n None seps (m, None) = Ok [] (m, None)"
  by (cases n) (simp_all add: strtok_r_def Let_def)

text \<open>One call.\<close>

lemma strtok_r_holds:
  assumes z: "holds seps 0 zs" and x: "holds m p xs"
    and ys: "ys = dropWhile (\<lambda>c. c \<in> set zs) xs" and h: "h = p + (length xs - length ys)"
    and w: "w = takeWhile (\<lambda>c. c \<notin> set zs) ys" and r: "r = dropWhile (\<lambda>c. c \<notin> set zs) ys"
  shows "strtok_r (Some p) seps (m, c) =
    (if ys = [] then Ok None (m, None) else if r = [] then Ok (Some h) (m, None)
     else Ok (Some h) (m[h + length w := 0], Some (Suc (h + length w))))"
proof -
  have l: "length (takeWhile (\<lambda>c. c \<in> set zs) xs) + length ys = length xs" "xs = takeWhile (\<lambda>c. c \<in> set zs) xs @ ys"
    using ys by (metis length_append takeWhile_dropWhile_id, simp)
  then have hd: "p + length (takeWhile (\<lambda>c. c \<in> set zs) xs) = h" using h by linarith
  have hy: "holds m h ys" using holds_dropWhile [OF x] ys h by simp
  have yw: "ys = w @ r" using w r by simp
  have hr: "holds m (h + length w) r" using holds_append [of m h w r] hy yw by simp
  have s1: "skip_seps m seps p = Ok h ()" using skip_seps_holds [OF z x] hd by simp
  have s2: "skip_word m seps h = Ok (h + length w) ()" using skip_word_holds [OF z hy] w by simp
  have c1: "h < length m" "m ! h = 0 \<longleftrightarrow> ys = []" using hy by (cases ys; simp add: holds_Nil holds_Cons)+
  have c2: "h + length w < length m" "m ! (h + length w) = 0 \<longleftrightarrow> r = []" using hr by (cases r; simp add: holds_Nil holds_Cons)+
  show ?thesis using s1 s2 c1 c2 by (simp add: strtok_r_def Let_def)
qed

lemma holds_agree: "holds m p xs \<Longrightarrow> length m' = length m \<Longrightarrow> (\<And>k. p \<le> k \<Longrightarrow> k \<le> p + length xs \<Longrightarrow> m' ! k = m ! k) \<Longrightarrow> holds m' p xs"
  by (simp add: holds_def)

lemma strtok_loop_holds:
  assumes "holds seps 0 zs" "holds m p xs" "length xs < n"
  shows "\<exists>hs m'. strtok_loop n (Some p) seps (m, c) = Ok hs (m', None) \<and> list_all2 (holds m') hs (words (set zs) xs) \<and>
    length m' = length m \<and> (\<forall>k. k < p \<longrightarrow> m' ! k = m ! k)"
  using assms(2,3)
proof (induction n arbitrary: m p xs c)
  case (Suc n)
  define ys where "ys = dropWhile (\<lambda>c. c \<in> set zs) xs"
  define h where "h = p + (length xs - length ys)"
  define w where "w = takeWhile (\<lambda>c. c \<notin> set zs) ys"
  define r where "r = dropWhile (\<lambda>c. c \<notin> set zs) ys"
  note call = strtok_r_holds [OF assms(1) Suc.prems(1) ys_def h_def w_def r_def, of c]
  have ws: "words (set zs) xs = (if ys = [] then [] else w # words (set zs) (tl r))"
    by (subst words.simps) (simp add: Let_def ys_def w_def r_def)
  have yl: "length ys \<le> length xs" using length_dropWhile_le ys_def by auto
  have yw: "ys = w @ r" using w_def r_def by simp
  have hy: "holds m h ys" using holds_dropWhile [OF Suc.prems(1)] by (simp add: h_def ys_def)
  have ph: "p \<le> h" by (simp add: h_def)
  consider (none) "ys = []" | (last) "ys \<noteq> []" "r = []" | (more) z rs where "ys \<noteq> []" "r = z # rs" by (cases r) auto
  then show ?case
  proof cases
    case none
    then show ?thesis using call ws by simp
  next
    case last
    then have "0 < n" using Suc.prems(2) yl by (cases n) auto
    moreover have "holds m h w" using hy yw last by simp
    moreover have "words (set zs) [] = []" by (subst words.simps) simp
    ultimately show ?thesis using call ws last strtok_none by simp
  next
    case more
    let ?t = "h + length w" and ?m = "m[h + length w := 0]"
    have hr: "holds m ?t (z # rs)" using holds_append [of m h w r] hy yw more by simp
    have h1: "holds ?m (Suc ?t) rs" by (rule holds_agree [of m]) (use hr in \<open>simp_all add: holds_Cons\<close>)
    have "length rs < n" using Suc.prems(2) yl yw more by simp
    from Suc.IH [OF h1 this, of None] obtain hs m' where
      ih: "strtok_loop n (Some (Suc ?t)) seps (?m, None) = Ok hs (m', None)" "list_all2 (holds m') hs (words (set zs) rs)"
        "length m' = length m" "\<forall>k. k < Suc ?t \<longrightarrow> m' ! k = ?m ! k" by auto
    have "?t < length m" using hr by (simp add: holds_Cons)
    then have "holds m' h w" using hy yw ih(3,4) unfolding holds_def by (auto simp: nth_append)
    moreover have "m' ! k = m ! k" if "k < p" for k using ih(4) that ph by simp
    ultimately show ?thesis
      using call ws more ih strtok_loop_context [of n seps ?m "Suc ?t" None] by simp
  qed
qed simp

text \<open>
  \<^bold>\<open>C39.\<close> Calling \<^verbatim>\<open>strtok_r\<close> until it returns \<^verbatim>\<open>NULL\<close> ends (after at most one call more than the
  string has characters), never leaves the string, and returns, in order, exactly the maximal
  words between separators, each terminated in place.
\<close>

theorem strtok_r_words:
  assumes "holds seps 0 zs" "holds m p xs"
  shows "\<exists>hs m'. strtok_loop (Suc (length xs)) (Some p) seps (m, c) = Ok hs (m', None) \<and>
    list_all2 (holds m') hs (words (set zs) xs) \<and> length m' = length m \<and> (\<forall>k < p. m' ! k = m ! k)"
  using strtok_loop_holds [OF assms, of "Suc (length xs)" c] by simp

theorem strtok_r_words_witness:
  "\<exists>hs m'. strtok_loop 6 (Some 0) [32, 0] ([32, 97, 98, 32, 99, 0], None) = Ok hs (m', None) \<and>
     list_all2 (holds m') hs [[97, 98], [99]]"
proof -
  have "holds [32, 0] 0 [32]" "holds [32, 97, 98, 32, 99, 0] 0 [32, 97, 98, 32, 99]" by (simp_all add: holds_Nil holds_Cons)
  moreover have "words (set [32]) [32, 97, 98, 32, 99] = [[97, 98], [99]]" by (simp add: words.simps)
  moreover have "Suc (length [32, 97, 98, 32, 99 :: byte]) = 6" by simp
  ultimately show ?thesis using strtok_r_words [of "[32, 0]" "[32]" "[32, 97, 98, 32, 99, 0]" 0 "[32, 97, 98, 32, 99]" None] by metis
qed

subsection \<open>Numbers\<close>

definition is_digit :: "byte \<Rightarrow> bool" where
  "is_digit c \<longleftrightarrow> 48 \<le> c \<and> c \<le> 57"

function decimal :: "nat \<Rightarrow> byte list" where
  "decimal n = (if n < 10 then [48 + word_of_nat n] else decimal (n div 10) @ [48 + word_of_nat (n mod 10)])"
  by pat_completeness auto
termination by (relation "measure id") auto

declare decimal.simps [simp del]

definition print_int :: "int \<Rightarrow> byte list" where
  "print_int z = (if z < 0 then 45 # decimal (nat (- z)) else decimal (nat z))"

lemma digit_cases:
  assumes "is_digit c"
  obtains k where "k < 10" "c = 48 + word_of_nat k"
proof -
  have "48 \<le> unat c" "unat c \<le> 57" using assms by (simp_all add: is_digit_def word_le_nat_alt)
  moreover from this have "c = 48 + word_of_nat (unat c - 48)" by (simp add: of_nat_diff)
  ultimately show ?thesis using that [of "unat c - 48"] by linarith
qed

lemma less_10: "k < (10 :: nat) \<Longrightarrow> k = 0 \<or> k = 1 \<or> k = 2 \<or> k = 3 \<or> k = 4 \<or> k = 5 \<or> k = 6 \<or> k = 7 \<or> k = 8 \<or> k = 9"
  by (auto simp: eval_nat_numeral less_Suc_eq)

lemma digit_code: "k < 10 \<Longrightarrow> is_digit (48 + word_of_nat k)" "k < 10 \<Longrightarrow> 48 + word_of_nat k \<noteq> (0 :: byte)"
  by (drule less_10, elim disjE, simp_all add: is_digit_def)+

lemma strchr_digits:
  shows "k < 10 \<Longrightarrow> strchr digits 0 (48 + word_of_nat k) = Ok (Some k) ()"
    and "c \<noteq> 0 \<Longrightarrow> \<not> is_digit c \<Longrightarrow> strchr digits 0 c = Ok None ()"
proof -
  have h: "holds digits 0 [48, 49, 50, 51, 52, 53, 54, 55, 56, 57]" by (simp add: digits_def holds_Nil holds_Cons)
  show "k < 10 \<Longrightarrow> strchr digits 0 (48 + word_of_nat k) = Ok (Some k) ()"
    unfolding strchr_holds [OF h] by (drule less_10, elim disjE, simp_all)
  have "is_digit x" if "x \<in> set [48, 49, 50, 51, 52, 53, 54, 55, 56, 57]" for x using that by (auto simp: is_digit_def)
  then show "c \<noteq> 0 \<Longrightarrow> \<not> is_digit c \<Longrightarrow> strchr digits 0 c = Ok None ()" unfolding strchr_holds [OF h] by auto
qed

definition dig_val :: "u32 \<Rightarrow> byte \<Rightarrow> u32" where
  "dig_val v c = v * 10 + word_of_nat (unat (c - 48))"

lemma dig_val_code: "k < 10 \<Longrightarrow> dig_val v (48 + word_of_nat k) = v * 10 + word_of_nat k"
  by (simp add: dig_val_def unat_of_nat)

lemma atoi_digits_holds:
  assumes "\<forall>c \<in> set ds. is_digit c" "rest = [] \<or> \<not> is_digit (hd rest)" "holds m s (ds @ rest)"
  shows "atoi_digits m s v = Ok (foldl dig_val v ds) ()"
  using assms
proof (induction ds arbitrary: s v)
  case Nil
  then show ?case by (subst atoi_digits.simps) (cases rest; auto simp: holds_Nil holds_Cons strchr_digits)
next
  case (Cons d ds)
  obtain k where k: "k < 10" "d = 48 + word_of_nat k" using Cons.prems(1) digit_cases by auto
  have "atoi_digits m (Suc s) (v * 10 + word_of_nat k) = Ok (foldl dig_val (v * 10 + word_of_nat k) ds) ()"
    using Cons by (simp add: holds_Cons)
  then show ?case using Cons.prems(3) k
    by (subst atoi_digits.simps) (auto simp: holds_Cons strchr_digits dig_val_code)
qed

lemma decimal_digits: "c \<in> set (decimal n) \<Longrightarrow> is_digit c"
  by (induction n rule: decimal.induct) (subst (asm) (2) decimal.simps, auto simp: digit_code split: if_splits)

lemma decimal_not_Nil: "decimal n \<noteq> []"
  by (subst decimal.simps) simp

lemma decimal_val: "foldl dig_val 0 (decimal n) = word_of_nat n"
proof (induction n rule: decimal.induct)
  case (1 n)
  show ?case
  proof (cases "n < 10")
    case False
    then have "foldl dig_val 0 (decimal n) = word_of_nat (n div 10) * 10 + word_of_nat (n mod 10)"
      using 1 by (subst decimal.simps) (simp add: dig_val_code)
    also have "\<dots> = (word_of_nat (n div 10 * 10 + n mod 10) :: u32)" by (simp only: of_nat_add of_nat_mult of_nat_numeral)
    also have "\<dots> = word_of_nat n" by (simp only: div_mult_mod_eq)
    finally show ?thesis .
  qed (subst decimal.simps, simp add: dig_val_code)
qed

lemma atoi_space_holds:
  "holds m s (replicate k 32 @ xs) \<Longrightarrow> xs = [] \<or> hd xs \<noteq> 32 \<and> hd xs \<noteq> 9 \<Longrightarrow> atoi_space m s = Ok (s + k) ()"
proof (induction k arbitrary: s)
  case 0
  then show ?case by (subst atoi_space.simps) (cases xs; auto simp: holds_Nil holds_Cons)
next
  case (Suc k)
  then show ?case by (subst atoi_space.simps) (auto simp: holds_Cons)
qed

text \<open>
  \<^verbatim>\<open>atoi\<close> on a string that consists of blanks, the decimal representation of an integer and
  anything that does not start with a digit returns that integer, reduced modulo \<open>2^32\<close>; in
  particular it inverts printing for every value of type \<^verbatim>\<open>int\<close>.
\<close>

theorem atoi_inverts_printing:
  assumes h: "holds m s (replicate k 32 @ print_int z @ rest)" and r: "rest = [] \<or> \<not> is_digit (hd rest)"
  shows "atoi m s = Ok (word_of_int z) () \<and> (- (2 ^ 31) \<le> z \<and> z < 2 ^ 31 \<longrightarrow> sint (word_of_int z :: u32) = z)"
proof -
  have hd: "is_digit (hd (decimal n))" for n by (rule decimal_digits [of _ n]) (simp add: decimal_not_Nil)
  have nd: "\<not> is_digit 45" "\<not> is_digit 43" "\<not> is_digit 32" "\<not> is_digit 9" by (simp_all add: is_digit_def)
  have "hd (print_int z @ rest) \<noteq> 32 \<and> hd (print_int z @ rest) \<noteq> 9"
    using hd nd decimal_not_Nil by (auto simp: print_int_def hd_append) metis+
  then have sp: "atoi_space m s = Ok (s + k) ()" using atoi_space_holds [OF h] by blast
  have h2: "holds m (s + k) (print_int z @ rest)" using holds_append [OF h] by simp
  have dg: "atoi_digits m p 0 = Ok (word_of_nat n) ()" if "holds m p (decimal n @ rest)" for p n
    using atoi_digits_holds [OF _ r that, of 0] decimal_digits decimal_val by auto
  have "atoi m s = Ok (word_of_int z) ()"
  proof (cases "z < 0")
    case True
    then have h3: "s + k < length m" "m ! (s + k) = 45" "holds m (Suc (s + k)) (decimal (nat (- z)) @ rest)"
      using h2 by (simp_all add: print_int_def holds_Cons)
    have "(word_of_nat (nat (- z)) :: u32) = - word_of_int z" using True by simp
    then show ?thesis using sp h3 dg [OF h3(3)] by (simp add: atoi_def)
  next
    case False
    then have h3: "holds m (s + k) (decimal (nat z) @ rest)" using h2 by (simp add: print_int_def)
    obtain x xs where x: "decimal (nat z) = x # xs" using decimal_not_Nil by (meson list.exhaust)
    then have "is_digit x" using hd [of "nat z"] by simp
    then have "x \<noteq> 45" "x \<noteq> 43" using nd by auto
    then show ?thesis using sp h3 dg [OF h3] False x by (simp add: atoi_def holds_Cons)
  qed
  moreover have "sint (word_of_int z :: u32) = z" if "- (2 ^ 31) \<le> z" "z < 2 ^ 31"
    using that by (simp add: int_word_sint)
  ultimately show ?thesis by simp
qed

theorem atoi_inverts_printing_witness:
  "atoi [32, 45, 52, 50, 97, 0] 0 = Ok (- 42) ()"
proof -
  have "print_int (- 42) = [45, 52, 50]" by (simp add: print_int_def decimal.simps)
  then have "holds [32, 45, 52, 50, 97, 0] 0 (replicate 1 32 @ print_int (- 42) @ [97])" by (simp add: holds_Nil holds_Cons)
  moreover have "\<not> is_digit (hd [97])" by (simp add: is_digit_def)
  ultimately show ?thesis using atoi_inverts_printing by fastforce
qed

end
