(* ===== verification/SfsDir.thy ===== *)
theory SfsDir
  imports SfsInode CString
begin

text \<open>
  Directories: \<^verbatim>\<open>kern/fs/sfs/sfs_dir.c\<close>. A directory is a file whose contents are slots of 64 bytes,
  each an inode number and a name of at most 59 characters; the inode number 0 marks a free slot.

  A name argument is a buffer holding a C string at position 0. Slot numbers are C \<^verbatim>\<open>int\<close>s; the
  position of a slot is computed in 32 bits (\<^verbatim>\<open>slot * sizeof(struct sfs_direntry)\<close> is unsigned).

  The theory shows that the directory implements a finite map from names to inode numbers:
  searching is lookup, linking adds a name that was not there, unlinking removes it.
\<close>

subsection \<open>Slots\<close>

definition slotpos :: "int \<Rightarrow> int" where
  "slotpos n = uint (word_of_int n * 64 :: u32)"

definition sfs_readdir :: "u32 \<Rightarrow> int \<Rightarrow> sfs_fs \<Rightarrow> (sfs_direntry, sfs_fs) res" where
  "sfs_readdir ino n s =
     kbind (sfs_metaio ino (slotpos n) (replicate 64 0) UIO_READ s) (\<lambda>data s. Ok (dec_direntry data) s)"

definition sfs_writedir :: "u32 \<Rightarrow> int \<Rightarrow> sfs_direntry \<Rightarrow> sfs_fs \<Rightarrow> (unit, sfs_fs) res" where
  "sfs_writedir ino n sd s =
     kassert (n \<ge> 0)
       (kbind (sfs_metaio ino (slotpos n) (enc_direntry sd) UIO_WRITE s) (\<lambda>_ s. Ok () s))"

definition sfs_dir_nentries :: "u32 \<Rightarrow> sfs_fs \<Rightarrow> (int, sfs_fs) res" where
  "sfs_dir_nentries ino s =
     getv ino s (\<lambda>sv.
       kassert (sfi_type (sv_i sv) = SFS_TYPE_DIR)
         (let sz = uint (sfi_size (sv_i sv)) in
          if cmod sz 64 \<noteq> 0 then Panic else Ok (cdiv sz 64) s))"

subsection \<open>Searching\<close>

text \<open>What the search stores through its pointer arguments; \<open>None\<close> where it stores nothing.\<close>

record dirsearch =
  ds_ino :: "u32 option"
  ds_slot :: "int option"
  ds_empty :: "int option"

text \<open>A library call on memory, inside an operation on the volume.\<close>

fun call :: "('a, unit) res \<Rightarrow> 's \<Rightarrow> ('a, 's) res" where
  "call (Ok x _) s = Ok x s"
| "call (Err e _) s = Err e s"
| "call Panic s = Panic"
| "call Fault s = Fault"
| "call Hang s = Hang"

fun findname_loop :: "u32 \<Rightarrow> byte list \<Rightarrow> int list \<Rightarrow> bool \<Rightarrow> dirsearch \<Rightarrow> sfs_fs \<Rightarrow> (bool \<times> dirsearch, sfs_fs) res" where
  "findname_loop ino name [] found ds s = Ok (found, ds) s"
| "findname_loop ino name (i # is) found ds s =
     kbind (sfs_readdir ino i s) (\<lambda>tsd s.
       if sfd_ino tsd = SFS_NOINO then findname_loop ino name is found (ds\<lparr>ds_empty := Some i\<rparr>) s
       else
         kbind (call (strcmp ((sfd_name tsd)[SFS_NAMELEN - 1 := 0]) 0 name 0) s) (\<lambda>r s.
           if r = 0 then
             kassert (\<not> found)
               (findname_loop ino name is True (ds\<lparr>ds_ino := Some (sfd_ino tsd), ds_slot := Some i\<rparr>) s)
           else findname_loop ino name is found ds s))"

text \<open>The result is the error number returned, if any, with the values stored.\<close>

definition sfs_dir_findname :: "u32 \<Rightarrow> byte list \<Rightarrow> sfs_fs \<Rightarrow> (errno option \<times> dirsearch, sfs_fs) res" where
  "sfs_dir_findname ino name s =
     kbind (sfs_dir_nentries ino s) (\<lambda>nentries s.
       kbind (findname_loop ino name [0..nentries - 1] False \<lparr>ds_ino = None, ds_slot = None, ds_empty = None\<rparr> s)
         (\<lambda>(found, ds) s. Ok (if found then None else Some ENOENT, ds) s))"

subsection \<open>Linking and unlinking\<close>

definition sfs_dir_link :: "u32 \<Rightarrow> byte list \<Rightarrow> u32 \<Rightarrow> sfs_fs \<Rightarrow> (int, sfs_fs) res" where
  "sfs_dir_link ino name newino s =
     kbind (sfs_dir_findname ino name s) (\<lambda>(result, ds) s.
       if result \<noteq> None \<and> result \<noteq> Some ENOENT then Err (the result) s
       else if result = None then Err EEXIST s
       else
         kbind (call (strlen name 0) s) (\<lambda>len s.
           if len + 1 > SFS_NAMELEN then Err ENAMETOOLONG s
           else
             let emptyslot = (case ds_empty ds of None \<Rightarrow> - 1 | Some e \<Rightarrow> e) in
             kbind (if emptyslot < 0 then sfs_dir_nentries ino s else Ok emptyslot s) (\<lambda>emptyslot s.
               case strcpy (replicate SFS_NAMELEN 0) 0 name 0 of
                 Ok _ nm \<Rightarrow> kbind (sfs_writedir ino emptyslot \<lparr>sfd_ino = newino, sfd_name = nm\<rparr> s) (\<lambda>_ s. Ok emptyslot s)
               | Err e _ \<Rightarrow> Err e s
               | Panic \<Rightarrow> Panic | Fault \<Rightarrow> Fault | Hang \<Rightarrow> Hang)))"

definition sfs_dir_unlink :: "u32 \<Rightarrow> int \<Rightarrow> sfs_fs \<Rightarrow> (unit, sfs_fs) res" where
  "sfs_dir_unlink ino n s = sfs_writedir ino n \<lparr>sfd_ino = SFS_NOINO, sfd_name = replicate SFS_NAMELEN 0\<rparr> s"

definition sfs_lookonce :: "bool \<Rightarrow> bool \<Rightarrow> u32 \<Rightarrow> byte list \<Rightarrow> sfs_fs \<Rightarrow> (u32 \<times> int, sfs_fs) res" where
  "sfs_lookonce km am dirino name s =
     kbind (sfs_dir_findname dirino name s) (\<lambda>(result, ds) s.
       case result of
         Some e \<Rightarrow> Err e s
       | None \<Rightarrow>
           kbind (sfs_loadvnode km am (the (ds_ino ds)) SFS_TYPE_INVAL s) (\<lambda>sv s.
             getv sv s (\<lambda>v.
               if sfi_linkcount (sv_i v) = 0 then Panic else Ok (sv, the (ds_slot ds)) s)))"

subsection \<open>Metadata I/O\<close>

text \<open>A read leaves everything but the transfer buffer of the disk driver alone.\<close>

definition quiet :: "sfs_fs \<Rightarrow> sfs_fs \<Rightarrow> bool" where
  "quiet s s' \<longleftrightarrow> s' = s \<or> (\<exists>x. length x = 512 \<and> s' = touch x s)"

lemma touch_touch: "touch x (touch y s) = touch x s"
  by (simp add: touch_def)

lemma quiet_refl [simp]: "quiet s s"
  by (simp add: quiet_def)

lemma quiet_touch: "length x = 512 \<Longrightarrow> quiet s (touch x s)"
  by (auto simp: quiet_def)

lemma quiet_trans: "quiet s t \<Longrightarrow> quiet t u \<Longrightarrow> quiet s u"
  by (auto simp: quiet_def touch_touch)

lemma quietD:
  assumes "quiet s s'"
  shows "vn s' = vn s" "blk s' = blk s" "used s' = used s" "fmap s' = fmap s" "fbyte s' = fbyte s"
    "sfs_sb s' = sfs_sb s" "biglock s' = biglock s" "curas s' = curas s" "sfs_vnodes s' = sfs_vnodes s"
    "fs_ok s \<Longrightarrow> fs_ok s'" "sfs_freemap s' = sfs_freemap s"
proof -
  show b: "blk s' = blk s" using assms by (auto simp: quiet_def)
  show "fmap s' = fmap s" "fbyte s' = fbyte s" by (rule fmap_blk [OF b], rule fbyte_blk [OF b])
qed (use assms in \<open>auto simp: quiet_def fs_ok_touch\<close>)

lemma quiet_fwrote: "quiet s s' \<Longrightarrow> fs_ok s \<Longrightarrow> vn s ino = Some v \<Longrightarrow> fstep s v ino (fbyte s (sv_i v)) s' v"
  using touch_fstep fstep_refl by (auto simp: quiet_def)

lemma metaio_pos:
  assumes "p < 2 ^ 32"
  shows "unat (word_of_int (cdiv (int p) 512) :: u32) = p div 512" "unat (word_of_int (cmod (int p) 512) :: u32) = p mod 512"
proof -
  show "unat (word_of_int (cdiv (int p) 512) :: u32) = p div 512" using fileblock_of [of "int p"] assms by simp
  have "p mod 512 < 2 ^ 32" by (rule less_trans [of _ 512]) simp_all
  then have "uint (word_of_int (int (p mod 512)) :: u32) = int (p mod 512)" by (intro uint_of_int_u32) simp_all
  then show "unat (word_of_int (cmod (int p) 512) :: u32) = p mod 512"
    by (simp add: unat_eq_nat_uint of_nat_mod nat_mod_distrib del: uint_word_of_int_eq)
qed

lemma metaio_read:
  assumes ok: "fs_ok s" and v: "vn s ino = Some v" and p: "p mod 512 + length data \<le> 512" "p < 143 * 512"
  shows "\<exists>s'. sfs_metaio ino (int p) data UIO_READ s = Ok (map (fbyte s (sv_i v)) [p..<p + length data]) s' \<and> quiet s s'"
proof -
  have hold: "vfs_biglock_do_i_hold s" using fs_okD(1) [OF ok] by (simp add: healthy_def fs_dev_ok_def vfs_biglock_do_i_hold_def)
  have vin: "v \<in> set (sfs_vnodes s)" using vn_in [OF v] by simp
  note m = metaio_pos [of p]
  let ?fb = "word_of_int (cdiv (int p) 512) :: u32" and ?b = "fmap s (sv_i v) (p div 512)"
  have fb: "unat ?fb = p div 512" "unat (word_of_int (cmod (int p) 512) :: u32) = p mod 512" using m p(2) by simp_all
  have "p div 512 < 143" using p(2) by (simp add: less_mult_imp_div_less)
  then obtain t where t: "sfs_bmap ino ?fb False s = Ok ?b t" "quiet s t"
    using sfs_bmap_lookup [OF ok v, of ?fb] unfolding fb(1) quiet_def by auto
  note q = quietD [OF t(2)]
  note bb = blockbuf_fbyte(3) [OF fs_okD(1) [OF ok], of ?b "sv_i v" p, OF refl p(1)]
  show ?thesis
  proof (cases "?b = 0")
    case True
    then have "map (fbyte s (sv_i v)) [p..<p + length data] = replicate (length data) 0"
      using bb p(1) by (simp add: blockbuf_def)
    then show ?thesis using hold t True by (simp add: sfs_metaio_def)
  next
    case False
    have "?b < lh_blocks (sfs_device s)" using fs_ok_slot(1) [OF ok vin, of "Suc (Suc (p div 512))"] False fs_okD(3) [OF ok] by simp
    moreover have "lh_blocks (sfs_device t) = lh_blocks (sfs_device s)" using t(2) by (auto simp: quiet_def)
    ultimately have rb: "sfs_readblock ?b t = Ok (blk s ?b) (touch (blk s ?b) t)"
      using readblock_healthy [OF fs_okD(1) [OF q(10) [OF ok]], of ?b] q(2) by simp
    have "quiet s (touch (blk s ?b) t)"
      using quiet_trans [OF t(2) quiet_touch] length_blk [OF fs_okD(1) [OF ok]] by blast
    then show ?thesis using hold t(1) rb False p(1) bb fb(2)
      by (auto simp: sfs_metaio_def Let_def SFS_BLOCKSIZE_def blockbuf_def)
  qed
qed

text \<open>Asking for allocation makes no difference for a block that is there.\<close>

lemma bmap_no_alloc:
  assumes ok: "fs_ok s" and v: "vn s ino = Some v" and b: "fmap s (sv_i v) (unat fb) \<noteq> 0"
  shows "sfs_bmap ino fb True s = sfs_bmap ino fb False s"
proof -
  have vin: "v \<in> set (sfs_vnodes s)" using vn_in [OF v] by simp
  show ?thesis
  proof (cases "unat fb < 15")
    case True
    then show ?thesis using b fs_ok_dinode [OF ok vin]
      by (simp add: sfs_bmap_def getv_vn [OF v] sfs_consts fmap_def rd_def)
  next
    case False
    then have i: "unat fb < 143" "sfi_indirect (sv_i v) \<noteq> 0"
      "dec_words 128 (blk s (sfi_indirect (sv_i v))) ! (unat fb - 15) \<noteq> 0"
      using b by (auto simp: fmap_def split: if_splits)
    have "sfi_indirect (sv_i v) < lh_blocks (sfs_device s)"
      using fs_ok_slot(1) [OF ok vin, of 1] i(2) fs_okD(3) [OF ok] by simp
    then have "sfs_readblock (sfi_indirect (sv_i v)) s =
        Ok (blk s (sfi_indirect (sv_i v))) (touch (blk s (sfi_indirect (sv_i v))) s)"
      by (rule readblock_healthy [OF fs_okD(1) [OF ok]])
    moreover have "unat fb - 15 < 128" using False i(1) by linarith
    ultimately show ?thesis using False i index_split [of fb "unat fb"]
      by (simp add: sfs_bmap_def getv_vn [OF v] sfs_consts Let_def bmap_indirect_def)
  qed
qed

lemma metaio_write:
  assumes ok: "fs_ok s" and v: "vn s ino = Some v" and p: "p mod 512 + length data \<le> 512" "p < 143 * 512"
  shows "(\<exists>s' v'. sfs_metaio ino (int p) data UIO_WRITE s = Ok data s' \<and>
      fwrote s v ino (wr_bytes (fbyte s (sv_i v)) p data) (max (sfi_size (sv_i v)) (word_of_nat (p + length data))) s' v') \<or>
    (\<exists>s' v'. sfs_metaio ino (int p) data UIO_WRITE s = Err ENOSPC s' \<and> fstep s v ino (fbyte s (sv_i v)) s' v' \<and>
      fs_full s' \<and> fmap s (sv_i v) (p div 512) = 0)"
proof -
  have hold: "vfs_biglock_do_i_hold s" using fs_okD(1) [OF ok] by (simp add: healthy_def fs_dev_ok_def vfs_biglock_do_i_hold_def)
  let ?fb = "word_of_int (cdiv (int p) 512) :: u32" and ?i = "p div 512" and ?e = "int p + int (length data)"
  have fb: "unat ?fb = ?i" "unat (word_of_int (cmod (int p) 512) :: u32) = p mod 512" using metaio_pos [of p] p(2) by simp_all
  have i: "\<not> 143 \<le> unat ?fb" using p(2) fb(1) by (simp add: less_mult_imp_div_less not_le)
  from bmap_io [OF ok v, of ?fb True, unfolded if_not_P [OF i]] consider
    (got) b t w where "sfs_bmap ino ?fb True s = Ok b t" "fstep s v ino (fbyte s (sv_i v)) t w" "fmap t (sv_i w) ?i = b" "b \<noteq> 0"
    | (full) t w where "sfs_bmap ino ?fb True s = Err ENOSPC t" "fstep s v ino (fbyte s (sv_i v)) t w" "fs_full t"
    using fb(1) by auto
  then show ?thesis
  proof cases
    case full
    have "fmap s (sv_i v) ?i = 0"
    proof (rule ccontr)
      assume "fmap s (sv_i v) ?i \<noteq> 0"
      then show False using full(1) bmap_no_alloc [OF ok v, of ?fb] sfs_bmap_lookup [OF ok v, of ?fb] i fb(1) by auto
    qed
    then show ?thesis using hold full by (auto simp: sfs_metaio_def)
  next
    case got
    have t: "fs_ok t" "vn t ino = Some w" "fbyte t (sv_i w) = fbyte s (sv_i v)" "sfi_size (sv_i w) = sfi_size (sv_i v)"
      using got(2) by (simp_all add: fstep_def meta_eq_def)
    let ?buf = "blk t b" and ?t = "touch (blk t b) t"
    let ?new = "take (p mod 512) ?buf @ data @ drop (p mod 512 + length data) ?buf"
    have bl: "b < lh_blocks (sfs_device t)"
      using fs_ok_slot(1) [OF t(1), of w "Suc (Suc ?i)"] vn_in [OF t(2)] got(3,4) fs_okD(3) [OF t(1)] by auto
    have len: "length ?buf = 512" "length ?new = 512" using length_blk [OF fs_okD(1) [OF t(1)]] p(1) by simp_all
    have rb: "sfs_readblock b t = Ok ?buf ?t" using readblock_healthy [OF fs_okD(1) [OF t(1)] bl] .
    have tt: "fs_ok ?t" "vn ?t ino = Some w" "fmap ?t = fmap t" "fbyte ?t = fbyte t"
      using fs_ok_touch [OF t(1) len(1)] t(2) fmap_blk [of ?t t] fbyte_blk [of ?t t] by simp_all
    have wb: "sfs_writeblock b ?new ?t = Ok () (setblk b ?new ?t)"
      by (rule writeblock_healthy [OF fs_okD(1) [OF tt(1)]]) (use bl len in simp_all)
    have f1: "fstep s v ino (fbyte s (sv_i v)) ?t w"
      using fstep_trans [OF got(2) touch_fstep [OF t(1,2) len(1), unfolded t(3)]] .
    have "fstep ?t w ino (\<lambda>q. if q div 512 = ?i then ?new ! (q mod 512) else fbyte ?t (sv_i w) q) (setblk b ?new ?t) w"
      by (rule setblk_fstep [OF tt(1,2) _ _ len(2)]) (use got(3,4) tt(3) in simp_all)
    moreover have "blockbuf t b = ?buf" using got(4) by (simp add: blockbuf_def)
    then have "(\<lambda>q. if q div 512 = ?i then ?new ! (q mod 512) else fbyte s (sv_i v) q) = wr_bytes (fbyte s (sv_i v)) p data"
      using blockbuf_fbyte(2) [OF fs_okD(1) [OF t(1)], of b "sv_i w" p] got(3) t(3)
      by (intro block_bytes [OF len(1) _ p(1)]) simp
    ultimately have f2: "fstep s v ino (wr_bytes (fbyte s (sv_i v)) p data) (setblk b ?new ?t) w"
      unfolding tt(4) t(3) using fstep_trans [OF f1] by (simp only:)
    have vs: "vn (setblk b ?new ?t) ino = Some w" using t(2) by simp
    have e: "0 \<le> ?e" "?e < 2 ^ 32" "word_of_nat (p + length data) = (word_of_int ?e :: u32)"
      using p by simp_all
    have ue: "uint (word_of_int ?e :: u32) = ?e" by (rule uint_of_int_u32 [OF e(1,2)])
    have io: "sfs_metaio ino (int p) data UIO_WRITE s =
        (if ?e > uint (sfi_size (sv_i v)) then Ok data (upd_inode ino (\<lambda>i. i\<lparr>sfi_size := word_of_int ?e\<rparr>) (setblk b ?new ?t))
         else Ok data (setblk b ?new ?t))"
      using hold got(1,4) rb wb p(1) fb(2) t(4) by (simp add: sfs_metaio_def Let_def SFS_BLOCKSIZE_def getv_vn [OF vs])
    show ?thesis
    proof (cases "?e > uint (sfi_size (sv_i v))")
      case True
      then have "max (sfi_size (sv_i v)) (word_of_int ?e) = word_of_int ?e" using ue by (simp add: max_def word_le_def)
      then show ?thesis using fwrote_size [OF f2, of "word_of_int ?e"] io True e(3) by (metis (full_types))
    next
      case False
      then have "word_of_int ?e \<le> sfi_size (sv_i v)" unfolding word_le_def ue by simp
      then have "max (sfi_size (sv_i v)) (word_of_int ?e) = sfi_size (sv_i v)" by (rule max_absorb1)
      then show ?thesis using fstep_fwrote [OF f2] io False e(3) by (metis (full_types))
    qed
  qed
qed

subsection \<open>Directories as maps\<close>

definition dentry :: "sfs_fs \<Rightarrow> sfs_dinode \<Rightarrow> nat \<Rightarrow> sfs_direntry" where
  "dentry s di i = dec_direntry (map (fbyte s di) [64 * i..<64 * i + 64])"

text \<open>The name in a slot, as the code reads it: up to the first zero byte, at most 59 bytes.\<close>

definition dname :: "sfs_direntry \<Rightarrow> byte list" where
  "dname sd = takeWhile (\<lambda>c. c \<noteq> 0) (take 59 (sfd_name sd))"

definition nents :: "sfs_dinode \<Rightarrow> nat" where
  "nents di = unat (sfi_size di) div 64"

text \<open>The entries of a directory in slot order.\<close>

definition dents :: "sfs_fs \<Rightarrow> sfs_dinode \<Rightarrow> (byte list \<times> u32) list" where
  "dents s di = map (\<lambda>i. (dname (dentry s di i), sfd_ino (dentry s di i)))
     (filter (\<lambda>i. sfd_ino (dentry s di i) \<noteq> 0) [0..<nents di])"

definition dirmap :: "sfs_fs \<Rightarrow> sfs_dinode \<Rightarrow> byte list \<rightharpoonup> u32" where
  "dirmap s di = map_of (dents s di)"

text \<open>A directory in order: whole slots within the largest file, and every name at most once.\<close>

definition dir_ok :: "sfs_fs \<Rightarrow> sfs_dinode \<Rightarrow> bool" where
  "dir_ok s di \<longleftrightarrow> sfi_type di = SFS_TYPE_DIR \<and> unat (sfi_size di) mod 64 = 0 \<and> nents di \<le> 1144 \<and>
     distinct (map fst (dents s di))"

lemma length_dentry: "length (sfd_name (dentry s di i)) = 60"
  by (simp add: dentry_def dec_direntry_def)

lemma dname_holds:
  assumes "length (sfd_name sd) = 60"
  shows "holds ((sfd_name sd)[59 := 0]) 0 (dname sd)"
proof -
  let ?m = "(sfd_name sd)[59 := 0]"
  have m: "?m = take 59 (sfd_name sd) @ [0]" using assms by (simp add: upd_conv_take_nth_drop)
  have l: "length (dname sd) \<le> 59" unfolding dname_def using length_takeWhile_le [of _ "take 59 (sfd_name sd)"] assms
    by (metis (no_types, lifting) le_trans length_take min.cobounded2 min.commute)
  have "?m ! i = dname sd ! i" if "i < length (dname sd)" for i
  proof -
    have "i < 59" using that l by simp
    then have "?m ! i = take 59 (sfd_name sd) ! i" using assms by simp
    also have "\<dots> = dname sd ! i" using that unfolding dname_def by (simp add: takeWhile_nth)
    finally show ?thesis .
  qed
  moreover have "?m ! length (dname sd) = 0"
  proof (cases "length (dname sd) < 59")
    case True
    then have "length (takeWhile (\<lambda>c. c \<noteq> 0) (take 59 (sfd_name sd))) < length (take 59 (sfd_name sd))"
      using assms by (simp add: dname_def)
    from nth_length_takeWhile [OF this] show ?thesis unfolding dname_def [symmetric] using True by simp
  next
    case False
    then have "length (dname sd) = 59" using l by simp
    then show ?thesis using assms by simp
  qed
  moreover have "0 \<notin> set (dname sd)" unfolding dname_def using set_takeWhileD by fastforce
  moreover have "length (dname sd) < length ?m" using l assms by simp
  ultimately show ?thesis by (simp add: holds_def)
qed

lemma slotpos_nat: "i < 2 ^ 26 \<Longrightarrow> slotpos (int i) = int (64 * i)"
proof -
  assume "i < 2 ^ 26"
  then have "uint (word_of_int (int i * 64) :: u32) = int i * 64" by (intro uint_of_int_u32) simp_all
  then show ?thesis by (simp add: slotpos_def wi_hom_mult [symmetric] mult.commute)
qed

lemma slot_mod: "64 * (i :: nat) mod 512 + 64 \<le> 512"
proof -
  have "64 * i mod 512 = 64 * (i mod 8)" using mult_mod_right [of 64 i 8] by simp
  moreover have "i mod 8 < 8" by simp
  ultimately show ?thesis by linarith
qed

lemma slot_within: "(i :: nat) < 1144 \<Longrightarrow> 64 * i mod 512 + 64 \<le> 512" "i < 1144 \<Longrightarrow> 64 * i < 143 * 512"
  by (rule slot_mod) simp

lemma readdir_ok:
  assumes "fs_ok s" "vn s ino = Some v" "i < 1144"
  shows "\<exists>s'. sfs_readdir ino (int i) s = Ok (dentry s (sv_i v) i) s' \<and> quiet s s'"
  using metaio_read [OF assms(1,2), of "64 * i" "replicate 64 0"] slot_within [OF assms(3)] slotpos_nat [of i] assms(3)
  by (auto simp: sfs_readdir_def dentry_def)

subsection \<open>The search is a lookup\<close>

text \<open>The slots that hold the name \<open>nm\<close>, and the free slots.\<close>

definition hits :: "sfs_fs \<Rightarrow> sfs_dinode \<Rightarrow> byte list \<Rightarrow> nat list \<Rightarrow> nat list" where
  "hits s di nm is = filter (\<lambda>i. sfd_ino (dentry s di i) \<noteq> 0 \<and> dname (dentry s di i) = nm) is"

definition frees :: "sfs_fs \<Rightarrow> sfs_dinode \<Rightarrow> nat list \<Rightarrow> nat list" where
  "frees s di is = filter (\<lambda>i. sfd_ino (dentry s di i) = 0) is"

lemma dentry_quiet: "quiet s s' \<Longrightarrow> dentry s' = dentry s"
  unfolding dentry_def fun_eq_iff by (simp add: quietD(5) [of s s'])

lemma findname_loop_ok:
  assumes "fs_ok s" "vn s ino = Some v" "holds name 0 nm" "\<forall>i \<in> set is. i < 1144"
    and "length (hits s (sv_i v) nm is) + (if found then 1 else 0) \<le> 1"
  shows "\<exists>s'. findname_loop ino name (map int is) found ds s = Ok (found \<or> hits s (sv_i v) nm is \<noteq> [],
      \<lparr>ds_ino = (if hits s (sv_i v) nm is = [] then ds_ino ds else Some (sfd_ino (dentry s (sv_i v) (hd (hits s (sv_i v) nm is))))),
       ds_slot = (if hits s (sv_i v) nm is = [] then ds_slot ds else Some (int (hd (hits s (sv_i v) nm is)))),
       ds_empty = (if frees s (sv_i v) is = [] then ds_empty ds else Some (int (last (frees s (sv_i v) is))))\<rparr>) s' \<and> quiet s s'"
  using assms
proof (induction "is" arbitrary: found ds s)
  case Nil
  then show ?case by (cases ds) (auto simp: hits_def frees_def)
next
  case (Cons i js)
  let ?E = "dentry s (sv_i v)"
  have "i < 1144" using Cons.prems(4) by simp
  with readdir_ok [OF Cons.prems(1,2)] obtain t where t: "sfs_readdir ino (int i) s = Ok (?E i) t" "quiet s t" by blast
  note q = quietD [OF t(2)]
  have ok: "fs_ok t" "vn t ino = Some v" "dentry t = dentry s"
    using q(1,10) Cons.prems(1,2) dentry_quiet [OF t(2)] by simp_all
  have same: "hits t = hits s" "frees t = frees s" using ok(3) by (simp_all add: hits_def frees_def fun_eq_iff)
  note IH = Cons.IH [OF ok(1,2) Cons.prems(3), unfolded same ok(3)]
  have js: "\<forall>i \<in> set js. i < 1144" using Cons.prems(4) by simp
  have cmp: "strcmp ((sfd_name (?E i))[59 := 0]) 0 name 0 = Ok (cmp_bytes (dname (?E i)) nm) ()"
    using strcmp_from_holds [of _ 0 0 "dname (?E i)" name 0 nm] dname_holds [OF length_dentry [of s "sv_i v" i]] Cons.prems(3)
    by (simp add: strcmp_def)
  show ?case
  proof (cases "sfd_ino (?E i) = 0")
    case True
    then have h: "hits s (sv_i v) nm (i # js) = hits s (sv_i v) nm js" "frees s (sv_i v) (i # js) = i # frees s (sv_i v) js"
      by (simp_all add: hits_def frees_def)
    have "findname_loop ino name (map int (i # js)) found ds s = findname_loop ino name (map int js) found (ds\<lparr>ds_empty := Some (int i)\<rparr>) t"
      using t(1) True by (simp add: SFS_NOINO_def)
    then show ?thesis
      using IH [OF js, of found "ds\<lparr>ds_empty := Some (int i)\<rparr>"] Cons.prems(5) h quiet_trans [OF t(2)] by auto
  next
    case False
    then have fr: "frees s (sv_i v) (i # js) = frees s (sv_i v) js" by (simp add: frees_def)
    have st: "findname_loop ino name (map int (i # js)) found ds s =
      (if dname (?E i) = nm then kassert (\<not> found)
          (findname_loop ino name (map int js) True (ds\<lparr>ds_ino := Some (sfd_ino (?E i)), ds_slot := Some (int i)\<rparr>) t)
       else findname_loop ino name (map int js) found ds t)"
      using t(1) False cmp by (simp add: SFS_NOINO_def SFS_NAMELEN_def)
    show ?thesis
    proof (cases "dname (?E i) = nm")
      case True
      then have h: "hits s (sv_i v) nm (i # js) = i # hits s (sv_i v) nm js" using False by (simp add: hits_def)
      then have "\<not> found" "hits s (sv_i v) nm js = []" using Cons.prems(5) by (auto split: if_splits)
      then show ?thesis using True st h fr quiet_trans [OF t(2)]
          IH [OF js, of True "ds\<lparr>ds_ino := Some (sfd_ino (?E i)), ds_slot := Some (int i)\<rparr>"] by auto
    next
      case nh: False
      then have h: "hits s (sv_i v) nm (i # js) = hits s (sv_i v) nm js" by (simp add: hits_def)
      then show ?thesis using nh st fr IH [OF js, of found ds] Cons.prems(5) quiet_trans [OF t(2)] by auto
    qed
  qed
qed

lemma map_int_upt: "map int [0..<n] = [0..int n - 1]"
proof (induction n)
  case (Suc n)
  have "[0..int (Suc n) - 1] = [0..int n - 1] @ [int n]" using upto_rec2 [of 0 "int n"] by simp
  then show ?case using Suc by simp
qed simp

lemma hits_unique:
  assumes "dir_ok s di" "i < nents di" "j < nents di" "sfd_ino (dentry s di i) \<noteq> 0" "sfd_ino (dentry s di j) \<noteq> 0"
    and "dname (dentry s di i) = dname (dentry s di j)"
  shows "i = j"
proof -
  let ?P = "\<lambda>i. sfd_ino (dentry s di i) \<noteq> 0"
  have "distinct (map (\<lambda>i. dname (dentry s di i)) (filter ?P [0..<nents di]))"
    using assms(1) by (simp add: dir_ok_def dents_def comp_def)
  then have "inj_on (\<lambda>i. dname (dentry s di i)) (set (filter ?P [0..<nents di]))" by (simp add: distinct_map)
  then show ?thesis by (rule inj_onD) (use assms in auto)
qed

lemma hits_cases:
  assumes "dir_ok s di"
  obtains "hits s di nm [0..<nents di] = []" "dirmap s di nm = None"
  | i where "hits s di nm [0..<nents di] = [i]" "dirmap s di nm = Some (sfd_ino (dentry s di i))" "i < nents di"
      "sfd_ino (dentry s di i) \<noteq> 0" "dname (dentry s di i) = nm"
proof (cases "hits s di nm [0..<nents di]")
  case Nil
  then have "nm \<notin> fst ` set (dents s di)" by (auto simp: hits_def dents_def filter_empty_conv)
  then show ?thesis using that(1) Nil by (simp add: dirmap_def map_of_eq_None_iff)
next
  case (Cons i js)
  have mem: "j < nents di \<and> sfd_ino (dentry s di j) \<noteq> 0 \<and> dname (dentry s di j) = nm"
    if "j \<in> set (hits s di nm [0..<nents di])" for j
    using that by (auto simp: hits_def)
  have i: "i < nents di" "sfd_ino (dentry s di i) \<noteq> 0" "dname (dentry s di i) = nm" using mem [of i] Cons by auto
  have "js = []"
  proof (rule ccontr)
    assume "js \<noteq> []"
    then obtain j where j: "j \<in> set js" by (cases js) auto
    then have "j = i" using mem [of j] i Cons hits_unique [OF assms, of j i] by auto
    moreover have "distinct (i # js)" unfolding Cons [symmetric] hits_def by simp
    ultimately show False using j by simp
  qed
  moreover have "(nm, sfd_ino (dentry s di i)) \<in> set (dents s di)" using i by (auto simp: dents_def)
  then have "dirmap s di nm = Some (sfd_ino (dentry s di i))"
    using assms by (simp add: dirmap_def dir_ok_def map_of_is_SomeI)
  ultimately show ?thesis using that(2) Cons i by simp
qed

lemma nentries_ok:
  assumes "vn s ino = Some v" "dir_ok s (sv_i v)"
  shows "sfs_dir_nentries ino s = Ok (int (nents (sv_i v))) s"
proof -
  have "int (unat (sfi_size (sv_i v)) mod 64) = uint (sfi_size (sv_i v)) mod 64"
    "int (unat (sfi_size (sv_i v)) div 64) = uint (sfi_size (sv_i v)) div 64"
    by (simp_all add: of_nat_mod of_nat_div)
  then have "uint (sfi_size (sv_i v)) mod 64 = 0" "uint (sfi_size (sv_i v)) div 64 = int (nents (sv_i v))"
    using assms(2) by (simp_all add: dir_ok_def nents_def)
  then show ?thesis using assms(2) by (simp add: sfs_dir_nentries_def getv_vn [OF assms(1)] dir_ok_def)
qed

lemma findname_ok:
  assumes ok: "fs_ok s" and v: "vn s ino = Some v" and d: "dir_ok s (sv_i v)" and nm: "holds name 0 nm"
  obtains s' ds where "sfs_dir_findname ino name s = Ok (if dirmap s (sv_i v) nm = None then Some ENOENT else None, ds) s'"
    "quiet s s'" "ds_ino ds = dirmap s (sv_i v) nm"
    "dirmap s (sv_i v) nm \<noteq> None \<Longrightarrow> \<exists>i < nents (sv_i v). ds_slot ds = Some (int i) \<and>
       Some (sfd_ino (dentry s (sv_i v) i)) = dirmap s (sv_i v) nm \<and> dname (dentry s (sv_i v) i) = nm"
    "\<And>e. ds_empty ds = Some e \<Longrightarrow> \<exists>i < nents (sv_i v). e = int i \<and> sfd_ino (dentry s (sv_i v) i) = 0"
    "ds_empty ds = None \<Longrightarrow> frees s (sv_i v) [0..<nents (sv_i v)] = []"
proof -
  let ?n = "nents (sv_i v)" and ?ds0 = "\<lparr>ds_ino = None, ds_slot = None, ds_empty = None\<rparr>"
  let ?H = "hits s (sv_i v) nm [0..<nents (sv_i v)]" and ?F = "frees s (sv_i v) [0..<nents (sv_i v)]"
  have lim: "\<forall>i \<in> set [0..<?n]. i < 1144" using d by (auto simp: dir_ok_def)
  have one: "length ?H + (if False then 1 else 0) \<le> 1" by (rule hits_cases [OF d, of nm]) simp_all
  from findname_loop_ok [OF ok v nm lim one, of ?ds0] obtain s' where
    l: "findname_loop ino name [0..int ?n - 1] False ?ds0 s = Ok (?H \<noteq> [],
      \<lparr>ds_ino = (if ?H = [] then None else Some (sfd_ino (dentry s (sv_i v) (hd ?H)))),
       ds_slot = (if ?H = [] then None else Some (int (hd ?H))), ds_empty = (if ?F = [] then None else Some (int (last ?F)))\<rparr>) s'"
      (is "_ = Ok (_, ?ds) s'") "quiet s s'" unfolding map_int_upt by auto
  have f: "sfs_dir_findname ino name s = Ok (if ?H \<noteq> [] then None else Some ENOENT, ?ds) s'"
    using l(1) nentries_ok [OF v d] by (simp add: sfs_dir_findname_def)
  have e: "\<exists>i < ?n. e = int i \<and> sfd_ino (dentry s (sv_i v) i) = 0" if "ds_empty ?ds = Some e" for e
  proof -
    have "?F \<noteq> []" "e = int (last ?F)" using that by (auto split: if_splits)
    then show ?thesis using last_in_set [of ?F] by (auto simp: frees_def)
  qed
  show ?thesis
    by (rule hits_cases [OF d, of nm]; rule that [of ?ds s']) (use f l(2) e in \<open>auto split: if_splits\<close>)
qed

subsection \<open>Changing one slot\<close>

definition ents :: "(nat \<Rightarrow> sfs_direntry) \<Rightarrow> nat list \<Rightarrow> (byte list \<times> u32) list" where
  "ents E is = map (\<lambda>i. (dname (E i), sfd_ino (E i))) (filter (\<lambda>i. sfd_ino (E i) \<noteq> 0) is)"

lemma dents_ents: "dents s di = ents (dentry s di) [0..<nents di]"
  by (simp add: dents_def ents_def)

lemma ents_append: "ents E (xs @ ys) = ents E xs @ ents E ys"
  and ents_Cons: "ents E (i # is) = (if sfd_ino (E i) \<noteq> 0 then [(dname (E i), sfd_ino (E i))] else []) @ ents E is"
  and ents_Nil [simp]: "ents E [] = []"
  by (simp_all add: ents_def)

lemma ents_other: "k \<notin> set is \<Longrightarrow> ents (E(k := sd)) is = ents E is"
  unfolding ents_def by (induction "is") auto

lemma ents_split: "k < n \<Longrightarrow> ents E [0..<n] = ents E [0..<k] @ ents E [k] @ ents E [Suc k..<n]"
proof -
  assume "k < n"
  then have "[0..<n] = [0..<k] @ [k] @ [Suc k..<n]"
    using upt_add_eq_append [of 0 k "n - k"] upt_conv_Cons [of k n] by simp
  then show ?thesis by (simp only: ents_append)
qed

text \<open>The two changes the code makes: a name that is not there goes into a free or a new slot, and the slot of a name is cleared.\<close>

lemma ents_link:
  assumes "k \<le> n" "k < n \<Longrightarrow> sfd_ino (E k) = 0" "sfd_ino sd \<noteq> 0" "distinct (map fst (ents E [0..<n]))"
    and "dname sd \<notin> fst ` set (ents E [0..<n])"
  shows "map_of (ents (E(k := sd)) [0..<max n (Suc k)]) = (map_of (ents E [0..<n]))(dname sd \<mapsto> sfd_ino sd)"
    "distinct (map fst (ents (E(k := sd)) [0..<max n (Suc k)]))"
proof -
  obtain A B where AB: "ents E [0..<n] = A @ B" "ents (E(k := sd)) [0..<max n (Suc k)] = A @ [(dname sd, sfd_ino sd)] @ B"
  proof (cases "k < n")
    case True
    then have "max n (Suc k) = n" by simp
    then show ?thesis
      using that [of "ents E [0..<k]" "ents E [Suc k..<n]"] ents_split [OF True, of E] ents_split [OF True, of "E(k := sd)"]
        assms(2,3) True
      by (simp add: ents_other ents_Cons)
  next
    case False
    then have "n = k" using assms(1) by simp
    then show ?thesis
      using that [of "ents E [0..<n]" "[]"] assms(3) by (simp add: ents_append ents_other ents_Cons)
  qed
  show "distinct (map fst (ents (E(k := sd)) [0..<max n (Suc k)]))" using AB assms(4,5) by auto
  show "map_of (ents (E(k := sd)) [0..<max n (Suc k)]) = (map_of (ents E [0..<n]))(dname sd \<mapsto> sfd_ino sd)"
  proof
    fix x
    have "map_of A (dname sd) = None" "map_of B (dname sd) = None" using assms(5) AB(1) by (auto simp: map_of_eq_None_iff)
    then show "map_of (ents (E(k := sd)) [0..<max n (Suc k)]) x = ((map_of (ents E [0..<n]))(dname sd \<mapsto> sfd_ino sd)) x"
      using AB by (auto simp: map_add_def split: option.splits)
  qed
qed

lemma ents_unlink:
  assumes "k < n" "sfd_ino (E k) \<noteq> 0" "sfd_ino sd = 0" "distinct (map fst (ents E [0..<n]))"
  shows "map_of (ents (E(k := sd)) [0..<n]) = (map_of (ents E [0..<n]))(dname (E k) := None)"
    "distinct (map fst (ents (E(k := sd)) [0..<n]))"
proof -
  let ?A = "ents E [0..<k]" and ?B = "ents E [Suc k..<n]"
  have s: "ents E [0..<n] = ?A @ [(dname (E k), sfd_ino (E k))] @ ?B" "ents (E(k := sd)) [0..<n] = ?A @ ?B"
    using ents_split [OF assms(1), of E] ents_split [OF assms(1), of "E(k := sd)"] assms(2,3)
    by (simp_all add: ents_other ents_Cons)
  show "distinct (map fst (ents (E(k := sd)) [0..<n]))" using s assms(4) by auto
  have "dname (E k) \<notin> fst ` set ?A" "dname (E k) \<notin> fst ` set ?B" using s(1) assms(4) by auto
  then have n: "map_of ?A (dname (E k)) = None" "map_of ?B (dname (E k)) = None" by (simp_all add: map_of_eq_None_iff)
  show "map_of (ents (E(k := sd)) [0..<n]) = (map_of (ents E [0..<n]))(dname (E k) := None)"
  proof
    fix x show "map_of (ents (E(k := sd)) [0..<n]) x = ((map_of (ents E [0..<n]))(dname (E k) := None)) x"
      using s n by (auto simp: map_add_def split: option.splits)
  qed
qed

lemma dentry_wr:
  assumes "fbyte s' di' = wr_bytes (fbyte s di) (64 * k) (enc_direntry sd)" "length (sfd_name sd) = 60"
  shows "dentry s' di' = (dentry s di)(k := sd)"
proof
  fix i
  have len: "length (enc_direntry sd) = 64" using assms(2) by (simp add: enc_direntry_def)
  show "dentry s' di' i = ((dentry s di)(k := sd)) i"
  proof (cases "i = k")
    case True
    have "map (fbyte s' di') [64 * k..<64 * k + 64] = enc_direntry sd"
      by (rule nth_equalityI) (use len assms(1) in \<open>simp_all add: wr_bytes_def\<close>)
    then show ?thesis using True dec_enc_direntry by (simp add: dentry_def)
  next
    case False
    have "fbyte s' di' p = fbyte s di p" if "p \<in> set [64 * i..<64 * i + 64]" for p
    proof -
      have "64 * i \<le> p" "p < 64 * i + 64" using that by auto
      then have "\<not> (64 * k \<le> p \<and> p < 64 * k + 64)" using False by linarith
      then show ?thesis using assms(1) len by (auto simp: wr_bytes_def)
    qed
    then have "map (fbyte s' di') [64 * i..<64 * i + 64] = map (fbyte s di) [64 * i..<64 * i + 64]" by (rule map_cong [OF refl])
    then have "dentry s' di' i = dentry s di i" unfolding dentry_def by (simp only:)
    then show ?thesis using False by simp
  qed
qed

lemma dentry_hole:
  assumes "fmap s di (64 * k div 512) = 0"
  shows "sfd_ino (dentry s di k) = 0"
proof -
  have "fbyte s di p = 0" if "64 * k \<le> p" "p < 64 * k + 4" for p
  proof -
    have "64 * k = 512 * (64 * k div 512) + 64 * k mod 512" by (rule mult_div_mod_eq [symmetric])
    then have "512 * (64 * k div 512) \<le> p" "p < 512 * (64 * k div 512) + 512"
      using that slot_mod [of k] by linarith+
    then have "p div 512 = 64 * k div 512" by (intro div_nat_eqI) simp_all
    then show ?thesis using assms by (simp add: fbyte_def)
  qed
  then have "map (fbyte s di) [64 * k..<64 * k + 4] = replicate 4 0" by (intro replicate_eqI) auto
  moreover have "take 4 (map (fbyte s di) [64 * k..<64 * k + 64]) = map (fbyte s di) [64 * k..<64 * k + 4]"
    by (simp add: take_map)
  ultimately show ?thesis by (simp only: dentry_def dec_direntry_def sfs_direntry.select_convs de32_zero)
qed

lemma writedir_ok:
  assumes ok: "fs_ok s" and v: "vn s ino = Some v" and d: "dir_ok s (sv_i v)"
    and k: "k \<le> nents (sv_i v)" "k < 1144" and sd: "length (sfd_name sd) = 60"
  obtains (wrote) s' v' where "sfs_writedir ino (int k) sd s = Ok () s'" "dentry s' (sv_i v') = (dentry s (sv_i v))(k := sd)"
      "nents (sv_i v') = max (nents (sv_i v)) (Suc k)" "unat (sfi_size (sv_i v')) mod 64 = 0"
      "fwrote s v ino (wr_bytes (fbyte s (sv_i v)) (64 * k) (enc_direntry sd)) (sfi_size (sv_i v')) s' v'"
  | (nospace) s' v' where "sfs_writedir ino (int k) sd s = Err ENOSPC s'" "fstep s v ino (fbyte s (sv_i v)) s' v'" "fs_full s'"
      "sfd_ino (dentry s (sv_i v) k) = 0"
proof -
  have len: "length (enc_direntry sd) = 64" using sd by (simp add: enc_direntry_def)
  have pos: "slotpos (int k) = int (64 * k)" using k(2) by (intro slotpos_nat) simp
  note w = metaio_write [OF ok v, of "64 * k" "enc_direntry sd"]
  let ?z = "max (sfi_size (sv_i v)) (word_of_nat (64 * k + 64))"
  from w slot_within [OF k(2)] consider
    (ok) s' v' where "sfs_writedir ino (int k) sd s = Ok () s'"
      "fwrote s v ino (wr_bytes (fbyte s (sv_i v)) (64 * k) (enc_direntry sd)) ?z s' v'"
    | (full) s' v' where "sfs_writedir ino (int k) sd s = Err ENOSPC s'" "fstep s v ino (fbyte s (sv_i v)) s' v'" "fs_full s'"
        "fmap s (sv_i v) (64 * k div 512) = 0"
    unfolding sfs_writedir_def pos len by auto
  then show ?thesis
  proof cases
    case ok
    then have f: "fbyte s' (sv_i v') = wr_bytes (fbyte s (sv_i v)) (64 * k) (enc_direntry sd)" "sfi_size (sv_i v') = ?z"
      by (simp_all add: fwrote_def)
    have "64 * k + 64 < 2 ^ 32" using k(2) by simp
    then have "unat (word_of_nat (64 * k + 64) :: u32) = 64 * k + 64" by (intro unat_of_nat_u32)
    then have uz: "unat ?z = max (unat (sfi_size (sv_i v))) (64 * k + 64)"
      unfolding max_def u32_le_iff by (simp split: if_split)
    have sz: "unat (sfi_size (sv_i v)) = 64 * nents (sv_i v)" using d unfolding dir_ok_def nents_def by auto
    have "max (64 * nents (sv_i v)) (64 * k + 64) = 64 * max (nents (sv_i v)) (Suc k)" by (simp add: max_def)
    then have "nents (sv_i v') = max (nents (sv_i v)) (Suc k)" "unat (sfi_size (sv_i v')) mod 64 = 0"
      unfolding nents_def [of "sv_i v'"] f(2) uz sz by simp_all
    then show ?thesis using wrote [OF ok(1) dentry_wr [OF f(1) sd]] ok(2) f(2) by simp
  next
    case full
    then show ?thesis using nospace [OF full(1-3) dentry_hole [OF full(4)]] by blast
  qed
qed

subsection \<open>Linking, unlinking and looking up refine map updates\<close>

text \<open>
  The directory \<open>ino\<close> implements the map \<open>m\<close> afterwards. Its reference count and link count,
  all other loaded files, and all blocks in use that are not blocks of the directory are as before.
\<close>

definition dir_becomes :: "sfs_fs \<Rightarrow> sfs_vnode \<Rightarrow> u32 \<Rightarrow> (byte list \<rightharpoonup> u32) \<Rightarrow> sfs_fs \<Rightarrow> sfs_vnode \<Rightarrow> bool" where
  "dir_becomes s v ino m s' v' \<longleftrightarrow> fs_ok s' \<and> vn s' ino = Some v' \<and> dir_ok s' (sv_i v') \<and> dirmap s' (sv_i v') = m \<and>
     sfi_linkcount (sv_i v') = sfi_linkcount (sv_i v) \<and> vn_refcount v' = vn_refcount v \<and> others_same ino s s' \<and>
     (\<forall>j. vn s' j = None \<longleftrightarrow> vn s j = None) \<and>
     sfs_sb s' = sfs_sb s \<and> biglock s' = biglock s \<and> curas s' = curas s \<and> used s \<subseteq> used s' \<and>
     (\<forall>c. unat c \<in> used s \<and> c \<notin> fblocks s v \<longrightarrow> blk s' c = blk s c)"

lemma dirmap_fbyte:
  assumes "fbyte s' di' = fbyte s di" "sfi_size di' = sfi_size di" "sfi_type di' = sfi_type di"
  shows "dirmap s' di' = dirmap s di" "dir_ok s' di' = dir_ok s di"
proof -
  have "dentry s' di' = dentry s di" by (simp add: dentry_def fun_eq_iff assms(1))
  then have "dents s' di' = dents s di" "nents di' = nents di" using assms(2) by (simp_all add: dents_ents nents_def)
  then show "dirmap s' di' = dirmap s di" "dir_ok s' di' = dir_ok s di" using assms by (simp_all add: dirmap_def dir_ok_def)
qed

lemma dirmap_quiet: "quiet s t \<Longrightarrow> dirmap t di = dirmap s di" "quiet s t \<Longrightarrow> dir_ok t di = dir_ok s di"
  using dirmap_fbyte [of t di s di] quietD(5) [of s t] by simp_all

lemma fwrote_becomes:
  assumes "fwrote s v ino f z s' v'" "vn s ino = Some v" "dir_ok s' (sv_i v')"
  shows "dir_becomes s v ino (dirmap s' (sv_i v')) s' v'"
proof -
  have "vn s' j = None \<longleftrightarrow> vn s j = None" for j using assms(1,2) by (cases "j = ino") (auto simp: fwrote_def)
  moreover have "others_same ino s s'" using assms(1) by (auto simp: fwrote_def others_same_def)
  ultimately show ?thesis using assms by (simp add: dir_becomes_def fwrote_def)
qed

lemma fstep_becomes:
  assumes "fstep s v ino (fbyte s (sv_i v)) s' v'" "vn s ino = Some v" "dir_ok s (sv_i v)"
  shows "dir_becomes s v ino (dirmap s (sv_i v)) s' v'"
proof -
  have "dirmap s' (sv_i v') = dirmap s (sv_i v)" "dir_ok s' (sv_i v') = dir_ok s (sv_i v)"
    using dirmap_fbyte [of s' "sv_i v'" s "sv_i v"] assms(1) by (simp_all add: fstep_def meta_eq_def)
  then show ?thesis using fwrote_becomes [OF fstep_fwrote [OF assms(1)] assms(2)] assms(3) by simp
qed

lemma quiet_becomes:
  assumes "quiet s s'" "fs_ok s" "vn s ino = Some v" "dir_ok s (sv_i v)"
  shows "dir_becomes s v ino (dirmap s (sv_i v)) s' v"
  by (rule fstep_becomes [OF quiet_fwrote [OF assms(1-3)] assms(3,4)])

lemma quiet_before:
  assumes q: "quiet s t" and b: "dir_becomes t v ino m s' v'"
  shows "dir_becomes s v ino m s' v'"
proof -
  note d = quietD [OF q]
  have "fblocks t v = fblocks s v" using slot_blk [OF d(2)] by (simp add: fblocks_def)
  then show ?thesis using b d unfolding dir_becomes_def others_same_def by simp
qed

lemma strcpy_name:
  assumes "holds name 0 nm" "length nm < 60"
  shows "strcpy (replicate 60 0) 0 name 0 = Ok () (nm @ replicate (60 - length nm) 0)"
    "dname \<lparr>sfd_ino = i, sfd_name = nm @ replicate (60 - length nm) 0\<rparr> = nm"
proof -
  have "0 # drop (Suc (length nm)) (replicate 60 (0 :: byte)) = replicate (60 - length nm) 0"
    using assms(2) by (cases "60 - length nm") (simp_all add: Suc_diff_Suc)
  then show "strcpy (replicate 60 0) 0 name 0 = Ok () (nm @ replicate (60 - length nm) 0)"
    using strcpy_holds [OF assms(1), of 0 "replicate 60 0"] assms(2) by simp
  have nz: "takeWhile (\<lambda>c. c \<noteq> 0) nm = nm" using assms(1) by (auto simp: holds_def takeWhile_eq_all_conv)
  have "take 59 (nm @ replicate (60 - length nm) (0 :: byte)) = nm @ replicate (59 - length nm) 0"
    using assms(2) by simp
  then show "dname \<lparr>sfd_ino = i, sfd_name = nm @ replicate (60 - length nm) 0\<rparr> = nm"
    using nz by (cases "59 - length nm") (simp_all add: dname_def takeWhile_append)
qed

text \<open>Past the last slot a file can have, the block map refuses.\<close>

lemma writedir_past:
  assumes "fs_ok s" "vn s ino = Some v" "length (sfd_name sd) = 60"
  shows "sfs_writedir ino 1144 sd s = Err EFBIG s"
proof -
  have hold: "vfs_biglock_do_i_hold s" using fs_okD(1) [OF assms(1)]
    by (simp add: healthy_def fs_dev_ok_def vfs_biglock_do_i_hold_def)
  have "slotpos 1144 = 73216" using slotpos_nat [of 1144] by simp
  moreover have "unat (word_of_int (cdiv 73216 512) :: u32) = 143" using fileblock_of [of 73216] by simp
  ultimately show ?thesis
    using bmap_io [OF assms(1,2), of "word_of_int (cdiv 73216 512)" True] hold
    by (simp add: sfs_writedir_def sfs_metaio_def Let_def)
qed

lemma dir_link_slot:
  assumes ok: "fs_ok s" and v: "vn s ino = Some v" and d: "dir_ok s (sv_i v)" and nm: "holds name 0 nm" "length nm < 60"
    and new: "dirmap s (sv_i v) nm = None" "newino \<noteq> 0"
    and k: "k \<le> nents (sv_i v)" "k < 1144" "k < nents (sv_i v) \<Longrightarrow> sfd_ino (dentry s (sv_i v) k) = 0"
    and sd: "sd = \<lparr>sfd_ino = newino, sfd_name = nm @ replicate (60 - length nm) 0\<rparr>"
  shows "(\<exists>s' v'. sfs_writedir ino (int k) sd s = Ok () s' \<and>
      dir_becomes s v ino ((dirmap s (sv_i v))(nm \<mapsto> newino)) s' v' \<and> sfd_ino (dentry s' (sv_i v') k) = newino) \<or>
    (\<exists>s' v'. sfs_writedir ino (int k) sd s = Err ENOSPC s' \<and> dir_becomes s v ino (dirmap s (sv_i v)) s' v' \<and> fs_full s')"
proof -
  have len: "length (sfd_name sd) = 60" using sd nm(2) by simp
  have dn: "dname sd = nm" "sfd_ino sd = newino" using strcpy_name(2) [OF nm] sd by simp_all
  show ?thesis
  proof (cases rule: writedir_ok [OF ok v d k(1,2) len])
    case ok: (1 s' v')
    have "distinct (map fst (ents (dentry s (sv_i v)) [0..<nents (sv_i v)]))" "nents (sv_i v) \<le> 1144"
      "nm \<notin> fst ` set (ents (dentry s (sv_i v)) [0..<nents (sv_i v)])"
      using d new(1) by (simp_all add: dir_ok_def dents_ents dirmap_def map_of_eq_None_iff)
    note l = ents_link [OF k(1,3) _ this(1), of sd, unfolded dn, OF _ new(2) this(3)]
    have m: "dirmap s' (sv_i v') = (dirmap s (sv_i v))(nm \<mapsto> newino)" "distinct (map fst (dents s' (sv_i v')))"
      using l unfolding dirmap_def dents_ents ok(2,3) by simp_all
    moreover have "sfi_type (sv_i v') = sfi_type (sv_i v)" using ok(5) by (simp add: fwrote_def)
    ultimately have "dir_ok s' (sv_i v')"
      using ok(3,4) d k(2) \<open>nents (sv_i v) \<le> 1144\<close> by (simp add: dir_ok_def)
    then show ?thesis using fwrote_becomes [OF ok(5) v] m(1) ok(1,2) dn(2) by auto
  next
    case full: (2 s' v')
    then show ?thesis using fstep_becomes [OF full(2) v d] by blast
  qed
qed

lemma dir_link_result:
  assumes ok: "fs_ok s" and v: "vn s ino = Some v" and d: "dir_ok s (sv_i v)" and nm: "holds name 0 nm" and ni: "newino \<noteq> 0"
  shows "\<exists>s' v'.
    (if dirmap s (sv_i v) nm \<noteq> None then
       sfs_dir_link ino name newino s = Err EEXIST s' \<and> dir_becomes s v ino (dirmap s (sv_i v)) s' v' \<and> used s' = used s
     else if 60 \<le> length nm then
       sfs_dir_link ino name newino s = Err ENAMETOOLONG s' \<and> dir_becomes s v ino (dirmap s (sv_i v)) s' v' \<and> used s' = used s
     else
       (\<exists>k. sfs_dir_link ino name newino s = Ok k s' \<and> dir_becomes s v ino ((dirmap s (sv_i v))(nm \<mapsto> newino)) s' v') \<or>
       dir_becomes s v ino (dirmap s (sv_i v)) s' v' \<and>
         (sfs_dir_link ino name newino s = Err ENOSPC s' \<and> fs_full s' \<or>
          sfs_dir_link ino name newino s = Err EFBIG s' \<and> nents (sv_i v) = 1144 \<and> used s' = used s))"
proof -
  let ?m = "dirmap s (sv_i v)"
  obtain t ds where f: "sfs_dir_findname ino name s = Ok (if ?m nm = None then Some ENOENT else None, ds) t" "quiet s t"
    "\<And>e. ds_empty ds = Some e \<Longrightarrow> \<exists>i < nents (sv_i v). e = int i \<and> sfd_ino (dentry s (sv_i v) i) = 0"
    using findname_ok [OF ok v d nm] by metis
  note q = quietD [OF f(2)]
  have t: "fs_ok t" "vn t ino = Some v" "dir_ok t (sv_i v)" "dirmap t (sv_i v) = ?m" "dentry t = dentry s"
    using q(1,10) ok v d dirmap_quiet [OF f(2)] dentry_quiet [OF f(2)] by simp_all
  have qb: "dir_becomes s v ino ?m t v" by (rule quiet_becomes [OF f(2) ok v d])
  have sl: "strlen name 0 = Ok (length nm) ()" by (rule strlen_holds [OF nm])
  consider (exists) "?m nm \<noteq> None" | (long) "?m nm = None" "60 \<le> length nm" | (add) "?m nm = None" "length nm < 60" by linarith
  then show ?thesis
  proof cases
    case exists
    then have "sfs_dir_link ino name newino s = Err EEXIST t" using f(1) by (auto simp: sfs_dir_link_def)
    then show ?thesis using exists qb q(3) by auto
  next
    case long
    then have "sfs_dir_link ino name newino s = Err ENAMETOOLONG t"
      using f(1) sl by (simp add: sfs_dir_link_def SFS_NAMELEN_def)
    then show ?thesis using long qb q(3) by auto
  next
    case add
    define k where "k = (case ds_empty ds of None \<Rightarrow> nents (sv_i v) | Some e \<Rightarrow> nat e)"
    define sd where "sd = \<lparr>sfd_ino = newino, sfd_name = nm @ replicate (60 - length nm) 0\<rparr>"
    have k: "k \<le> nents (sv_i v)" "k < nents (sv_i v) \<Longrightarrow> sfd_ino (dentry t (sv_i v) k) = 0"
      using f(3) t(5) by (cases "ds_empty ds"; force simp: k_def)+
    have link: "sfs_dir_link ino name newino s = kbind (sfs_writedir ino (int k) sd t) (\<lambda>_ s. Ok (int k) s)"
      using f(1,3) sl add strcpy_name(1) [OF nm add(2)] nentries_ok [OF t(2,3)]
      by (cases "ds_empty ds") (auto simp: sfs_dir_link_def SFS_NAMELEN_def k_def sd_def Let_def)
    show ?thesis
    proof (cases "k < 1144")
      case True
      from dir_link_slot [OF t(1-3) nm add(2) _ ni k(1) True k(2) sd_def] add(1) t(4) consider
        s' v' where "sfs_writedir ino (int k) sd t = Ok () s'" "dir_becomes t v ino (?m(nm \<mapsto> newino)) s' v'"
        | s' v' where "sfs_writedir ino (int k) sd t = Err ENOSPC s'" "dir_becomes t v ino ?m s' v'" "fs_full s'" by auto
      then show ?thesis
      proof cases
        case 1
        then show ?thesis using add link quiet_before [OF f(2) 1(2)] by auto
      next
        case 2
        then show ?thesis using add link quiet_before [OF f(2) 2(2)] by auto
      qed
    next
      case False
      then have "k = 1144" "nents (sv_i v) = 1144" using k(1) d by (auto simp: dir_ok_def)
      then have "sfs_dir_link ino name newino s = Err EFBIG t"
        using link writedir_past [OF t(1,2), of sd] add(2) by (simp add: sd_def)
      then show ?thesis using add \<open>nents (sv_i v) = 1144\<close> qb q(3) by auto
    qed
  qed
qed

text \<open>
  \<^bold>\<open>C26.\<close> \<^verbatim>\<open>sfs_dir_link\<close> implements adding a name to the map of the directory. A name that exists
  gives \<^verbatim>\<open>EEXIST\<close>, a name of 60 bytes or more \<^verbatim>\<open>ENAMETOOLONG\<close>, and neither changes the map or takes a block. Otherwise
  the directory maps the name to the new inode and every other name as before, or the call
  fails with \<^verbatim>\<open>ENOSPC\<close> or, when all 1144 slots are taken, \<^verbatim>\<open>EFBIG\<close>, and the map is as before. In
  every case names stay unique, other files keep their contents and the volume is in order.
\<close>

theorem sfs_dir_link_refines:
  assumes "fs_ok s" and "vn s ino = Some v" and "dir_ok s (sv_i v)" and "holds name 0 nm" and "newino \<noteq> 0"
  shows "\<exists>s' v'.
    (if dirmap s (sv_i v) nm \<noteq> None then
       sfs_dir_link ino name newino s = Err EEXIST s' \<and> dir_becomes s v ino (dirmap s (sv_i v)) s' v' \<and> used s' = used s
     else if 60 \<le> length nm then
       sfs_dir_link ino name newino s = Err ENAMETOOLONG s' \<and> dir_becomes s v ino (dirmap s (sv_i v)) s' v' \<and> used s' = used s
     else
       (\<exists>k. sfs_dir_link ino name newino s = Ok k s' \<and> dir_becomes s v ino ((dirmap s (sv_i v))(nm \<mapsto> newino)) s' v') \<or>
       dir_becomes s v ino (dirmap s (sv_i v)) s' v' \<and>
         (sfs_dir_link ino name newino s = Err ENOSPC s' \<and> fs_full s' \<or>
          sfs_dir_link ino name newino s = Err EFBIG s' \<and> nents (sv_i v) = 1144 \<and> used s' = used s))"
  by (rule dir_link_result [OF assms])

definition demo_dir :: sfs_vnode where
  "demo_dir = \<lparr>vn_refcount = 1, sv_i = empty_inode\<lparr>sfi_type := SFS_TYPE_DIR\<rparr>, sv_ino = 2, sv_dirty = True\<rparr>"

definition demo_dirvol :: sfs_fs where
  "demo_dirvol = upd_inode 2 (\<lambda>di. di\<lparr>sfi_type := SFS_TYPE_DIR\<rparr>) demo_vol"

lemma demo_dir_ok: "fs_ok demo_dirvol" "vn demo_dirvol 2 = Some demo_dir" "dir_ok demo_dirvol (sv_i demo_dir)"
  "dirmap demo_dirvol (sv_i demo_dir) = Map.empty" "nents (sv_i demo_dir) = 0"
proof -
  note m = upd_meta [OF demo_vol_ok demo_vol_vn, of "\<lambda>di. di\<lparr>sfi_type := SFS_TYPE_DIR\<rparr>", simplified]
  show "fs_ok demo_dirvol" using m(1) by (simp add: demo_dirvol_def)
  show "vn demo_dirvol 2 = Some demo_dir" using m(5) by (simp add: demo_dirvol_def demo_dir_def demo_vnode_def)
  show n: "nents (sv_i demo_dir) = 0" by (simp add: nents_def demo_dir_def empty_inode_def)
  then show "dir_ok demo_dirvol (sv_i demo_dir)" "dirmap demo_dirvol (sv_i demo_dir) = Map.empty"
    by (simp_all add: dir_ok_def dirmap_def dents_def, simp add: demo_dir_def empty_inode_def)
qed

theorem sfs_dir_link_refines_witness:
  "\<exists>s' v' k. sfs_dir_link 2 [97, 0] 7 demo_dirvol = Ok k s' \<and> dir_becomes demo_dirvol demo_dir 2 [[97] \<mapsto> 7] s' v' \<or>
     sfs_dir_link 2 [97, 0] 7 demo_dirvol = Err ENOSPC s' \<and> fs_full s'"
proof -
  have h: "holds [97, 0] 0 [97]" by (simp add: holds_Nil holds_Cons)
  show ?thesis
    using sfs_dir_link_refines [OF demo_dir_ok(1-3) h, of 7] unfolding demo_dir_ok(4,5) by auto
qed

lemma unlink_slot:
  assumes ok: "fs_ok t" and v: "vn t ino = Some v" and d: "dir_ok t (sv_i v)"
    and i: "i < nents (sv_i v)" "sfd_ino (dentry t (sv_i v) i) \<noteq> 0" "dname (dentry t (sv_i v) i) = nm"
  shows "\<exists>s' v'. sfs_dir_unlink ino (int i) t = Ok () s' \<and> dir_becomes t v ino ((dirmap t (sv_i v))(nm := None)) s' v'"
proof -
  let ?sd = "\<lparr>sfd_ino = 0, sfd_name = replicate 60 0\<rparr> :: sfs_direntry"
  have lt: "i < 1144" "i \<le> nents (sv_i v)" using i(1) d by (simp_all add: dir_ok_def)
  have len: "length (sfd_name ?sd) = 60" by simp
  show ?thesis
  proof (cases rule: writedir_ok [OF ok v d lt(2,1) len])
    case (1 s' v')
    have "distinct (map fst (ents (dentry t (sv_i v)) [0..<nents (sv_i v)]))" using d by (simp add: dir_ok_def dents_ents)
    note u = ents_unlink [OF i(1,2) _ this, of ?sd, unfolded i(3)]
    have n: "nents (sv_i v') = nents (sv_i v)" using 1(3) i(1) by simp
    have m: "dirmap s' (sv_i v') = (dirmap t (sv_i v))(nm := None)" "distinct (map fst (dents s' (sv_i v')))"
      using u unfolding dirmap_def dents_ents 1(2) n by simp_all
    moreover have "sfi_type (sv_i v') = sfi_type (sv_i v)" using 1(5) by (simp add: fwrote_def)
    ultimately have "dir_ok s' (sv_i v')" using n 1(4) d by (simp add: dir_ok_def)
    then show ?thesis using fwrote_becomes [OF 1(5) v] m(1) 1(1) by (auto simp: sfs_dir_unlink_def SFS_NOINO_def SFS_NAMELEN_def)
  next
    case (2 s' v')
    then show ?thesis using i(2) by simp
  qed
qed

lemma dir_unlink_result:
  assumes ok: "fs_ok s" and v: "vn s ino = Some v" and d: "dir_ok s (sv_i v)" and nm: "holds name 0 nm"
  shows "\<exists>t ds. dir_becomes s v ino (dirmap s (sv_i v)) t v \<and>
    (case dirmap s (sv_i v) nm of
       None \<Rightarrow> sfs_dir_findname ino name s = Ok (Some ENOENT, ds) t
     | Some i \<Rightarrow> sfs_dir_findname ino name s = Ok (None, ds) t \<and> ds_ino ds = Some i \<and>
         (\<exists>k s' v'. ds_slot ds = Some k \<and> sfs_dir_unlink ino k t = Ok () s' \<and>
            dir_becomes s v ino ((dirmap s (sv_i v))(nm := None)) s' v'))"
proof -
  let ?m = "dirmap s (sv_i v)"
  obtain t ds where f: "sfs_dir_findname ino name s = Ok (if ?m nm = None then Some ENOENT else None, ds) t" "quiet s t"
    "ds_ino ds = ?m nm" "?m nm \<noteq> None \<Longrightarrow> \<exists>i < nents (sv_i v). ds_slot ds = Some (int i) \<and>
       Some (sfd_ino (dentry s (sv_i v) i)) = ?m nm \<and> dname (dentry s (sv_i v) i) = nm"
    using findname_ok [OF ok v d nm] by metis
  have qb: "dir_becomes s v ino ?m t v" by (rule quiet_becomes [OF f(2) ok v d])
  show ?thesis
  proof (cases "?m nm")
    case None
    then show ?thesis using f(1) qb by auto
  next
    case (Some j)
    then obtain i where i: "i < nents (sv_i v)" "ds_slot ds = Some (int i)" "sfd_ino (dentry s (sv_i v) i) = j"
      "dname (dentry s (sv_i v) i) = nm" using f(4) by auto
    have t: "fs_ok t" "vn t ino = Some v" "dir_ok t (sv_i v)" "dentry t = dentry s" "dirmap t (sv_i v) = ?m"
      using quietD(1,10) [OF f(2)] ok v d dirmap_quiet [OF f(2)] dentry_quiet [OF f(2)] by simp_all
    have "j \<noteq> 0" using Some d unfolding dirmap_def by (auto simp: dents_def dest!: map_of_SomeD)
    then have "\<exists>s' v'. sfs_dir_unlink ino (int i) t = Ok () s' \<and> dir_becomes t v ino (?m(nm := None)) s' v'"
      using unlink_slot [OF t(1-3) i(1), of nm] i(3,4) t(4,5) by simp
    then obtain s' v' where "sfs_dir_unlink ino (int i) t = Ok () s'" "dir_becomes t v ino (?m(nm := None)) s' v'" by blast
    then have "\<exists>k s' v'. ds_slot ds = Some k \<and> sfs_dir_unlink ino k t = Ok () s' \<and> dir_becomes s v ino (?m(nm := None)) s' v'"
      using i(2) quiet_before [OF f(2)] by blast
    then show ?thesis using f(1,3) qb Some by auto
  qed
qed

text \<open>
  \<^verbatim>\<open>sfs_dir_findname\<close> is lookup in the map of the directory: it reports \<^verbatim>\<open>ENOENT\<close> exactly for the
  names that are not in it, otherwise the inode number the name is mapped to, and changes no
  file. \<^verbatim>\<open>sfs_dir_unlink\<close> of the slot it found always succeeds and removes exactly that name.
\<close>

theorem sfs_dir_unlink_refines:
  assumes "fs_ok s" and "vn s ino = Some v" and "dir_ok s (sv_i v)" and "holds name 0 nm"
  shows "\<exists>t ds. dir_becomes s v ino (dirmap s (sv_i v)) t v \<and>
    (case dirmap s (sv_i v) nm of
       None \<Rightarrow> sfs_dir_findname ino name s = Ok (Some ENOENT, ds) t
     | Some i \<Rightarrow> sfs_dir_findname ino name s = Ok (None, ds) t \<and> ds_ino ds = Some i \<and>
         (\<exists>k s' v'. ds_slot ds = Some k \<and> sfs_dir_unlink ino k t = Ok () s' \<and>
            dir_becomes s v ino ((dirmap s (sv_i v))(nm := None)) s' v'))"
  by (rule dir_unlink_result [OF assms])

text \<open>An inode number taken from a directory is not 0.\<close>

lemma dirmap_nonzero: "dirmap s di nm = Some i \<Longrightarrow> i \<noteq> 0"
  unfolding dirmap_def by (auto simp: dents_def dest!: map_of_SomeD)

lemma lookonce_result:
  assumes ok: "fs_ok s" and v: "vn s ino = Some v" and d: "dir_ok s (sv_i v)" and nm: "holds name 0 nm"
    and linked: "\<And>i. dirmap s (sv_i v) nm = Some i \<Longrightarrow>
      (case vn s i of
         Some w \<Rightarrow> sfi_linkcount (sv_i w) \<noteq> 0
       | None \<Rightarrow> i < sb_nblocks (sfs_sb s) \<and> unat i \<in> used s \<and> sfi_linkcount (dec_dinode (blk s i)) \<noteq> 0 \<and>
           sfi_type (dec_dinode (blk s i)) \<in> {SFS_TYPE_FILE, SFS_TYPE_DIR})"
  shows "\<exists>s'. blk s' = blk s \<and> used s' = used s \<and> biglock s' = biglock s \<and>
    (case dirmap s (sv_i v) nm of
       None \<Rightarrow> sfs_lookonce km am ino name s = Err ENOENT s' \<and> vn s' = vn s
     | Some i \<Rightarrow>
         (case vn s i of
            Some w \<Rightarrow> (\<exists>k. sfs_lookonce km am ino name s = Ok (i, k) s') \<and>
              vn s' = (vn s)(i \<mapsto> w\<lparr>vn_refcount := Suc (vn_refcount w)\<rparr>)
          | None \<Rightarrow>
              (if km \<and> am
               then (\<exists>k. sfs_lookonce km am ino name s = Ok (i, k) s') \<and>
                 vn s' = (vn s)(i \<mapsto> \<lparr>vn_refcount = 1, sv_i = dec_dinode (blk s i), sv_ino = i, sv_dirty = False\<rparr>)
               else sfs_lookonce km am ino name s = Err ENOMEM s' \<and> vn s' = vn s)))"
proof -
  let ?m = "dirmap s (sv_i v)"
  obtain t ds where f: "sfs_dir_findname ino name s = Ok (if ?m nm = None then Some ENOENT else None, ds) t" "quiet s t"
    "ds_ino ds = ?m nm" using findname_ok [OF ok v d nm] by metis
  note q = quietD [OF f(2)]
  show ?thesis
  proof (cases "?m nm")
    case None
    then show ?thesis using f(1) q by (auto simp: sfs_lookonce_def)
  next
    case (Some i)
    note i0 = dirmap_nonzero [OF Some]
    have tok: "fs_ok t" using q(10) ok by simp
    show ?thesis
    proof (cases "vn s i")
      case w: (Some w)
      let ?s = "vnode_incref i t" and ?w = "w\<lparr>vn_refcount := Suc (vn_refcount w)\<rparr>"
      have tw: "vn t i = Some w" using q(1) w by simp
      note inc = vnode_incref_ok [OF tok tw]
      have "sfs_loadvnode km am i SFS_TYPE_INVAL t = Ok i ?s" by (rule loadvnode_loaded [OF tok tw i0])
      moreover have "vn ?s i = Some ?w" using inc(2) by simp
      ultimately have "sfs_lookonce km am ino name s = Ok (i, the (ds_slot ds)) ?s"
        using f(1,3) Some linked [OF Some] w by (simp add: sfs_lookonce_def getv_vn)
      then show ?thesis using Some w inc(2) q by (auto simp: vnode_incref_def)
    next
      case None
      let ?di = "dec_dinode (blk s i)" and ?n = "vnode_init i (dec_dinode (blk s i)) False"
      let ?s = "(touch (blk t i) t)\<lparr>sfs_vnodes := sfs_vnodes t @ [?n]\<rparr>"
      have l: "i < sb_nblocks (sfs_sb t)" "unat i \<in> used t" "sfi_linkcount ?di \<noteq> 0" "sfi_type ?di \<in> {SFS_TYPE_FILE, SFS_TYPE_DIR}"
        using linked [OF Some] None q by simp_all
      have di: "?di\<lparr>sfi_type := sfi_type ?di\<rparr> = ?di" by simp
      have ld: "sfs_loadvnode km am i SFS_TYPE_INVAL t =
         (if \<not> km then Err ENOMEM t else if \<not> am then Err ENOMEM (touch (blk t i) t) else Ok i ?s)"
        using loadvnode_fresh [OF tok, of i SFS_TYPE_INVAL "sfi_type ?di" km am] None l q(1,2) di by simp
      have vs: "vn ?s = (vn s)(i \<mapsto> ?n)"
        using vn_append [of "touch (blk t i) t" ?n] None q(1) by (auto simp: fun_eq_iff vnode_init_def split: option.splits)
      have "sv_i ?n = ?di" by (simp add: vnode_init_def)
      then have "sfs_lookonce km am ino name s = (if \<not> km then Err ENOMEM t else if \<not> am then Err ENOMEM (touch (blk t i) t)
          else Ok (i, the (ds_slot ds)) ?s)"
        using f(1,3) Some ld l(3) vs by (simp add: sfs_lookonce_def getv_vn [of ?s i ?n])
      moreover define u where "u = (if \<not> km then t else if \<not> am then touch (blk t i) t else ?s)"
      ultimately have "sfs_lookonce km am ino name s = (if km \<and> am then Ok (i, the (ds_slot ds)) u else Err ENOMEM u)" by simp
      moreover have "blk u = blk s" "used u = used s" "biglock u = biglock s" using q by (simp_all add: u_def)
      moreover have "vn u = (if km \<and> am then (vn s)(i \<mapsto> ?n) else vn s)" using vs q(1) by (simp add: u_def)
      ultimately show ?thesis using Some None by (intro exI [of _ u]) (auto simp: vnode_init_def)
    qed
  qed
qed

text \<open>
  \<^verbatim>\<open>sfs_lookonce\<close> hands back the file the directory maps the name to: if its vnode is loaded,
  that vnode with one more reference, otherwise a new vnode with the inode read from the
  disk. \<^verbatim>\<open>ENOENT\<close> is reported exactly for names that are not in the directory, and \<^verbatim>\<open>ENOMEM\<close> only
  when memory for a new vnode is refused. No file, block or other vnode changes.
\<close>

theorem sfs_lookonce_finds:
  assumes "fs_ok s" and "vn s ino = Some v" and "dir_ok s (sv_i v)" and "holds name 0 nm"
    and "\<And>i. dirmap s (sv_i v) nm = Some i \<Longrightarrow>
      (case vn s i of
         Some w \<Rightarrow> sfi_linkcount (sv_i w) \<noteq> 0
       | None \<Rightarrow> i < sb_nblocks (sfs_sb s) \<and> unat i \<in> used s \<and> sfi_linkcount (dec_dinode (blk s i)) \<noteq> 0 \<and>
           sfi_type (dec_dinode (blk s i)) \<in> {SFS_TYPE_FILE, SFS_TYPE_DIR})"
  shows "\<exists>s'. blk s' = blk s \<and> used s' = used s \<and> biglock s' = biglock s \<and>
    (case dirmap s (sv_i v) nm of
       None \<Rightarrow> sfs_lookonce km am ino name s = Err ENOENT s' \<and> vn s' = vn s
     | Some i \<Rightarrow>
         (case vn s i of
            Some w \<Rightarrow> (\<exists>k. sfs_lookonce km am ino name s = Ok (i, k) s') \<and>
              vn s' = (vn s)(i \<mapsto> w\<lparr>vn_refcount := Suc (vn_refcount w)\<rparr>)
          | None \<Rightarrow>
              (if km \<and> am
               then (\<exists>k. sfs_lookonce km am ino name s = Ok (i, k) s') \<and>
                 vn s' = (vn s)(i \<mapsto> \<lparr>vn_refcount = 1, sv_i = dec_dinode (blk s i), sv_ino = i, sv_dirty = False\<rparr>)
               else sfs_lookonce km am ino name s = Err ENOMEM s' \<and> vn s' = vn s)))"
  by (rule lookonce_result [OF assms])

subsection \<open>A directory with an entry\<close>

definition demo_dirv :: sfs_vnode where
  "demo_dirv = \<lparr>vn_refcount = 1,
     sv_i = \<lparr>sfi_size = 64, sfi_type = SFS_TYPE_DIR, sfi_linkcount = 1, sfi_direct = 3 # replicate 14 0, sfi_indirect = 0,
       sfi_waste = replicate 440 0\<rparr>,
     sv_ino = 2, sv_dirty = False\<rparr>"

text \<open>A volume of eight blocks: the directory above, one entry in block 3, further vnodes, a free map.\<close>

definition dir_vol :: "byte \<Rightarrow> sfs_vnode list \<Rightarrow> byte \<Rightarrow> sfs_fs" where
  "dir_vol e ws fm = setblk 3 ([0, 0, 0, e] @ replicate 508 97)
     ((demo_fs [])\<lparr>sfs_vnodes := demo_dirv # ws, sfs_freemap := \<lparr>bm_nbits = 8, bm_v = [fm]\<rparr>\<rparr>)"

definition demo_dvol :: sfs_fs where
  "demo_dvol = dir_vol 2 [] 15"

lemma dir_vol_fields:
  "sfs_vnodes (dir_vol e ws fm) = demo_dirv # ws" "sb_nblocks (sfs_sb (dir_vol e ws fm)) = 8"
  "blk (dir_vol e ws fm) 3 = [0, 0, 0, e] @ replicate 508 97" "healthy (dir_vol e ws fm)" "vn (dir_vol e ws fm) 2 = Some demo_dirv"
  "bm_ok (sfs_freemap (dir_vol e ws fm))" "lh_blocks (sfs_device (dir_vol e ws fm)) = 8" "bm_nbits (sfs_freemap (dir_vol e ws fm)) = 8"
  "used (dir_vol e ws fm) = {n. n < 8 \<and> bit fm n}"
proof -
  show v: "sfs_vnodes (dir_vol e ws fm) = demo_dirv # ws" by (simp add: dir_vol_def)
  then show "vn (dir_vol e ws fm) 2 = Some demo_dirv" by (simp add: vn_def demo_dirv_def)
  show "healthy (dir_vol e ws fm)" unfolding dir_vol_def
    by (simp add: healthy_def fs_dev_ok_def demo_fs_def dev_ok_def setblk_def)
  show "used (dir_vol e ws fm) = {n. n < 8 \<and> bit fm n}" by (auto simp: used_def dir_vol_def bm_used_def bm_bit_def)
qed (simp_all add: dir_vol_def demo_fs_def bm_ok_def not_less [symmetric])

lemma dir_vol_slot: "slot s demo_dirv k = (if k = 0 then 2 else if k = 2 then 3 else 0)"
proof (cases k rule: slot_cases)
  case (3 i)
  then show ?thesis by (cases i) (auto simp: demo_dirv_def fmap_def nth_Cons split: nat.splits)
qed (simp_all add: demo_dirv_def)

lemma low_bits: "{n. n < 8 \<and> bit (15 :: u8) n} = {0, 1, 2, 3}" "{n. n < 8 \<and> bit (31 :: u8) n} = {0, 1, 2, 3, 4}"
proof -
  have n8: "{n. n < 8 \<and> P n} = {n \<in> {0, 1, 2, 3, 4, 5, 6, 7}. P n}" for P :: "nat \<Rightarrow> bool" by auto
  show "{n. n < 8 \<and> bit (15 :: u8) n} = {0, 1, 2, 3}" "{n. n < 8 \<and> bit (31 :: u8) n} = {0, 1, 2, 3, 4}"
    unfolding n8 by (auto simp: bit_numeral_rec)
qed

lemma demo_dvol_fields: "used demo_dvol = {0, 1, 2, 3}" "vn demo_dvol 2 = Some demo_dirv"
  unfolding demo_dvol_def dir_vol_fields by (rule low_bits(1), rule refl)

lemma demo_dirv_ok: "dinode_ok (sv_i demo_dirv)" by (simp add: demo_dirv_def dinode_ok_def)

lemma demo_dvol_ok: "fs_ok demo_dvol"
  using demo_dvol_fields(1) demo_dirv_ok unfolding fs_ok_def demo_dvol_def dir_vol_fields(1,2,7,8)
  by (auto simp: dir_vol_slot dir_vol_fields)

lemma dir_vol_dir:
  assumes "e \<noteq> 0"
  shows "dir_ok (dir_vol e ws fm) (sv_i demo_dirv)" "dirmap (dir_vol e ws fm) (sv_i demo_dirv) = [replicate 59 97 \<mapsto> ucast e]"
proof -
  let ?s = "dir_vol e ws fm"
  have f: "fbyte ?s (sv_i demo_dirv) p = ([0, 0, 0, e] @ replicate 508 97) ! p" if "p < 512" for p
    using that dir_vol_fields(3) by (simp add: fbyte_def fmap_def demo_dirv_def)
  have "map (fbyte ?s (sv_i demo_dirv)) [0..<64] = [0, 0, 0, e] @ replicate 60 97"
    by (rule nth_equalityI) (auto simp: f nth_Cons split: nat.splits)
  then have "dentry ?s (sv_i demo_dirv) 0 = \<lparr>sfd_ino = ucast e, sfd_name = replicate 60 97\<rparr>"
    by (simp add: dentry_def dec_direntry_def de32_def)
  moreover have "nents (sv_i demo_dirv) = 1" by (simp add: nents_def demo_dirv_def)
  moreover have "takeWhile (\<lambda>c. c \<noteq> 0) (replicate 59 (97 :: byte)) = replicate 59 97" by (simp add: takeWhile_replicate)
  moreover have "(ucast e :: u32) \<noteq> 0"
    using assms by (auto simp: bit_eq_iff bit_simps) (metis less_trans numeral_less_iff semiring_norm(76,78,80))
  ultimately have "dents ?s (sv_i demo_dirv) = [(replicate 59 97, ucast e)]" by (simp add: dents_def dname_def)
  then show "dir_ok ?s (sv_i demo_dirv)" "dirmap ?s (sv_i demo_dirv) = [replicate 59 97 \<mapsto> ucast e]"
    by (simp_all add: dir_ok_def dirmap_def nents_def) (simp_all add: demo_dirv_def)
qed

lemma demo_dvol_dir:
  "dir_ok demo_dvol (sv_i demo_dirv)" "dirmap demo_dvol (sv_i demo_dirv) = [replicate 59 97 \<mapsto> 2]"
  using dir_vol_dir [of 2 "[]" 15] by (simp_all add: demo_dvol_def)

lemma demo_name: "holds (replicate 59 97 @ [0]) 0 (replicate 59 97)"
  using holds_list [of "replicate 59 97" "[]" "[]"] by simp

theorem sfs_dir_unlink_refines_witness:
  "\<exists>t ds k s' v'. sfs_dir_findname 2 (replicate 59 97 @ [0]) demo_dvol = Ok (None, ds) t \<and> ds_slot ds = Some k \<and>
     sfs_dir_unlink 2 k t = Ok () s' \<and> dir_becomes demo_dvol demo_dirv 2 Map.empty s' v'"
proof -
  have "[replicate 59 (97 :: byte) \<mapsto> (2 :: u32)](replicate 59 97 := None) = Map.empty" by auto
  then show ?thesis
    using sfs_dir_unlink_refines [OF demo_dvol_ok demo_dvol_fields(2) demo_dvol_dir(1) demo_name]
    unfolding demo_dvol_dir(2) by (simp del: fun_upd_apply add: fun_upd_same) blast
qed

theorem sfs_lookonce_finds_witness:
  "\<exists>k s'. sfs_lookonce True True 2 (replicate 59 97 @ [0]) demo_dvol = Ok (2, k) s' \<and>
     vn s' 2 = Some (demo_dirv\<lparr>vn_refcount := 2\<rparr>)"
proof -
  have "sfi_linkcount (sv_i demo_dirv) \<noteq> 0" "Suc (vn_refcount demo_dirv) = 2" by (simp_all add: demo_dirv_def)
  then show ?thesis
    using sfs_lookonce_finds [OF demo_dvol_ok demo_dvol_fields(2) demo_dvol_dir(1) demo_name, of True True]
    unfolding demo_dvol_dir(2) by (auto simp: demo_dvol_fields(2))
qed

end
