(* ===== verification/SfsVnops.thy ===== *)
theory SfsVnops
  imports SfsDir
begin

text \<open>
  The operations on SFS vnodes: \<^verbatim>\<open>kern/fs/sfs/sfs_vnops.c\<close>. Every operation takes the big lock for
  its duration. \<open>km\<close> and \<open>am\<close> are the outcomes of the allocations of \<^verbatim>\<open>sfs_loadvnode\<close>. The
  argument of \<^verbatim>\<open>mode\<close>, which the code ignores, is left out. A string argument is a buffer holding a C
  string at position 0.

  The theory shows what creating and removing a name do to the directory and to the file, on
  success and on every failure.
\<close>

subsection \<open>Files and attributes\<close>

definition O_ACCMODE :: u32 where "O_ACCMODE = 3"
definition O_RDONLY :: u32 where "O_RDONLY = 0"
definition O_APPEND :: u32 where "O_APPEND = 32"
definition S_IFREG :: u32 where "S_IFREG = 0x1000"
definition S_IFDIR :: u32 where "S_IFDIR = 0x2000"

definition sfs_eachopen :: "u32 \<Rightarrow> u32 \<Rightarrow> sfs_fs \<Rightarrow> (unit, sfs_fs) res" where
  "sfs_eachopen v openflags s = Ok () s"

definition sfs_eachopendir :: "u32 \<Rightarrow> u32 \<Rightarrow> sfs_fs \<Rightarrow> (unit, sfs_fs) res" where
  "sfs_eachopendir v openflags s =
     (if openflags AND O_ACCMODE \<noteq> O_RDONLY then Err EISDIR s
      else if openflags AND O_APPEND \<noteq> 0 then Err EISDIR s
      else Ok () s)"

fun unlocked_io :: "(unit, sfs_fs \<times> uio) res \<Rightarrow> (unit, sfs_fs \<times> uio) res" where
  "unlocked_io (Ok x (s, u)) = onfs u (vfs_biglock_release s)"
| "unlocked_io (Err e (s, u)) = kbind (onfs u (vfs_biglock_release s)) (\<lambda>_ su. Err e su)"
| "unlocked_io Panic = Panic"
| "unlocked_io Fault = Fault"
| "unlocked_io Hang = Hang"

definition sfs_read :: "u32 \<Rightarrow> sfs_fs \<times> uio \<Rightarrow> (unit, sfs_fs \<times> uio) res" where
  "sfs_read v su =
     (case su of (s, u) \<Rightarrow>
        kassert (uio_rw u = UIO_READ) (unlocked_io (sfs_io v (vfs_biglock_acquire s, u))))"

definition sfs_write :: "u32 \<Rightarrow> sfs_fs \<times> uio \<Rightarrow> (unit, sfs_fs \<times> uio) res" where
  "sfs_write v su =
     (case su of (s, u) \<Rightarrow>
        kassert (uio_rw u = UIO_WRITE) (unlocked_io (sfs_io v (vfs_biglock_acquire s, u))))"

definition sfs_ioctl :: "u32 \<Rightarrow> sfs_fs \<Rightarrow> (unit, sfs_fs) res" where
  "sfs_ioctl v s = Err EINVAL s"

definition sfs_gettype :: "u32 \<Rightarrow> sfs_fs \<Rightarrow> (u32, sfs_fs) res" where
  "sfs_gettype v s =
     (let s = vfs_biglock_acquire s in
      getv v s (\<lambda>sv.
        if sfi_type (sv_i sv) = SFS_TYPE_FILE then unlocked (Ok S_IFREG s)
        else if sfi_type (sv_i sv) = SFS_TYPE_DIR then unlocked (Ok S_IFDIR s)
        else Panic))"

text \<open>The fields of \<^verbatim>\<open>struct stat\<close> the code sets; the others are 0.\<close>

record stat =
  st_size :: int
  st_mode :: u32
  st_nlink :: u16
  st_blocks :: u32

definition sfs_stat :: "u32 \<Rightarrow> sfs_fs \<Rightarrow> (stat, sfs_fs) res" where
  "sfs_stat v s =
     kbind (sfs_gettype v s) (\<lambda>mode s.
       getv v s (\<lambda>sv.
         Ok \<lparr>st_size = uint (sfi_size (sv_i sv)), st_mode = mode, st_nlink = sfi_linkcount (sv_i sv), st_blocks = 0\<rparr> s))"

definition sfs_isseekable :: "u32 \<Rightarrow> bool" where
  "sfs_isseekable v = True"

definition sfs_fsync :: "u32 \<Rightarrow> sfs_fs \<Rightarrow> (unit, sfs_fs) res" where
  "sfs_fsync v s = unlocked (sfs_sync_inode v (vfs_biglock_acquire s))"

definition sfs_mmap :: "u32 \<Rightarrow> sfs_fs \<Rightarrow> (unit, sfs_fs) res" where
  "sfs_mmap v s = Err ENOSYS s"

definition sfs_truncate :: "u32 \<Rightarrow> int \<Rightarrow> sfs_fs \<Rightarrow> (unit, sfs_fs) res" where
  "sfs_truncate v len s = sfs_itrunc v len s"

definition sfs_namefile :: "u32 \<Rightarrow> sfs_fs \<Rightarrow> (unit, sfs_fs) res" where
  "sfs_namefile v s = getv v s (\<lambda>sv. kassert (sv_ino sv = SFS_ROOTDIR_INO) (Ok () s))"

subsection \<open>Names\<close>

definition link_inc :: "u32 \<Rightarrow> sfs_fs \<Rightarrow> sfs_fs" where
  "link_inc v s = upd_inode v (\<lambda>di. di\<lparr>sfi_linkcount := sfi_linkcount di + 1\<rparr>) s"

definition link_dec :: "u32 \<Rightarrow> sfs_fs \<Rightarrow> sfs_fs" where
  "link_dec v s = upd_inode v (\<lambda>di. di\<lparr>sfi_linkcount := sfi_linkcount di - 1\<rparr>) s"

definition sfs_creat :: "bool \<Rightarrow> bool \<Rightarrow> u32 \<Rightarrow> byte list \<Rightarrow> bool \<Rightarrow> sfs_fs \<Rightarrow> (u32, sfs_fs) res" where
  "sfs_creat km am v name excl s =
     unlocked
       (kbind (sfs_dir_findname v name (vfs_biglock_acquire s)) (\<lambda>(result, ds) s.
          if result \<noteq> None \<and> result \<noteq> Some ENOENT then Err (the result) s
          else if result = None \<and> excl then Err EEXIST s
          else if result = None then sfs_loadvnode km am (the (ds_ino ds)) SFS_TYPE_INVAL s
          else
            kbind (sfs_makeobj km am SFS_TYPE_FILE s) (\<lambda>newguy s.
              getv newguy s (\<lambda>nv.
                case sfs_dir_link v name (sv_ino nv) s of
                  Ok _ s \<Rightarrow> Ok newguy (link_inc newguy s)
                | Err e s \<Rightarrow> kbind (vnode_decref newguy s) (\<lambda>_ s. Err e s)
                | Panic \<Rightarrow> Panic | Fault \<Rightarrow> Fault | Hang \<Rightarrow> Hang))))"

text \<open>Both vnodes are of this volume, which the code asserts.\<close>

definition sfs_link :: "u32 \<Rightarrow> byte list \<Rightarrow> u32 \<Rightarrow> sfs_fs \<Rightarrow> (unit, sfs_fs) res" where
  "sfs_link dir name file s =
     (let s = vfs_biglock_acquire s in
      unlocked
        (getv file s (\<lambda>f.
           if sfi_type (sv_i f) = SFS_TYPE_DIR then Err EINVAL s
           else kbind (sfs_dir_link dir name (sv_ino f) s) (\<lambda>_ s. Ok () (link_inc file s)))))"

definition sfs_remove :: "bool \<Rightarrow> bool \<Rightarrow> u32 \<Rightarrow> byte list \<Rightarrow> sfs_fs \<Rightarrow> (unit, sfs_fs) res" where
  "sfs_remove km am dir name s =
     unlocked
       (kbind (sfs_lookonce km am dir name (vfs_biglock_acquire s)) (\<lambda>(victim, slot) s.
          case sfs_dir_unlink dir slot s of
            Ok _ s \<Rightarrow>
              getv victim s (\<lambda>vv.
                kassert (sfi_linkcount (sv_i vv) > 0) (vnode_decref victim (link_dec victim s)))
          | Err e s \<Rightarrow> kbind (vnode_decref victim s) (\<lambda>_ s. Err e s)
          | Panic \<Rightarrow> Panic | Fault \<Rightarrow> Fault | Hang \<Rightarrow> Hang))"

text \<open>The exit \<^verbatim>\<open>puke\<close> of \<^verbatim>\<open>sfs_rename\<close>.\<close>

definition rename_puke :: "u32 \<Rightarrow> errno \<Rightarrow> sfs_fs \<Rightarrow> (unit, sfs_fs) res" where
  "rename_puke g1 e s = kbind (vnode_decref g1 s) (\<lambda>_ s. Err e s)"

definition sfs_rename :: "bool \<Rightarrow> bool \<Rightarrow> u32 \<Rightarrow> byte list \<Rightarrow> u32 \<Rightarrow> byte list \<Rightarrow> sfs_fs \<Rightarrow> (unit, sfs_fs) res" where
  "sfs_rename km am d1 n1 d2 n2 s =
     (let s = vfs_biglock_acquire s in
      unlocked
        (kassert (d1 = d2)
          (getv d1 s (\<lambda>sv.
             kassert (sv_ino sv = SFS_ROOTDIR_INO)
               (kbind (sfs_lookonce km am d1 n1 s) (\<lambda>(g1, slot1) s.
                  getv g1 s (\<lambda>gv.
                    kassert (sfi_type (sv_i gv) = SFS_TYPE_FILE)
                      (case sfs_dir_link d1 n2 (sv_ino gv) s of
                         Ok slot2 s \<Rightarrow>
                           let s = link_inc g1 s in
                           (case sfs_dir_unlink d1 slot1 s of
                              Ok _ s \<Rightarrow>
                                getv g1 s (\<lambda>gv.
                                  kassert (sfi_linkcount (sv_i gv) > 0) (vnode_decref g1 (link_dec g1 s)))
                            | Err e s \<Rightarrow>
                                (case sfs_dir_unlink d1 slot2 s of
                                   Ok _ s \<Rightarrow>
                                     rename_puke g1 e (updv g1 (\<lambda>v. v\<lparr>sv_i := (sv_i v)\<lparr>sfi_linkcount :=
                                       sfi_linkcount (sv_i v) - 1\<rparr>\<rparr>) s)
                                 | Err e2 s \<Rightarrow> Panic
                                 | Panic \<Rightarrow> Panic | Fault \<Rightarrow> Fault | Hang \<Rightarrow> Hang)
                            | Panic \<Rightarrow> Panic | Fault \<Rightarrow> Fault | Hang \<Rightarrow> Hang)
                       | Err e s \<Rightarrow> rename_puke g1 e s
                       | Panic \<Rightarrow> Panic | Fault \<Rightarrow> Fault | Hang \<Rightarrow> Hang))))))))"

text \<open>\<open>buf\<close> is the caller's buffer of \<^verbatim>\<open>buflen\<close> bytes, handed back with the name in it.\<close>

definition sfs_lookparent :: "u32 \<Rightarrow> byte list \<Rightarrow> byte list \<Rightarrow> sfs_fs \<Rightarrow> (u32 \<times> byte list, sfs_fs) res" where
  "sfs_lookparent v path buf s =
     (let s = vfs_biglock_acquire s in
      unlocked
        (getv v s (\<lambda>sv.
           if sfi_type (sv_i sv) \<noteq> SFS_TYPE_DIR then Err ENOTDIR s
           else
             kbind (call (strlen path 0) s) (\<lambda>len s.
               if len + 1 > length buf then Err ENAMETOOLONG s
               else
                 (case strcpy buf 0 path 0 of
                    Ok _ buf \<Rightarrow> Ok (v, buf) (vnode_incref v s)
                  | Err e _ \<Rightarrow> Err e s
                  | Panic \<Rightarrow> Panic | Fault \<Rightarrow> Fault | Hang \<Rightarrow> Hang)))))"

definition sfs_lookup :: "bool \<Rightarrow> bool \<Rightarrow> u32 \<Rightarrow> byte list \<Rightarrow> sfs_fs \<Rightarrow> (u32, sfs_fs) res" where
  "sfs_lookup km am v path s =
     (let s = vfs_biglock_acquire s in
      unlocked
        (getv v s (\<lambda>sv.
           if sfi_type (sv_i sv) \<noteq> SFS_TYPE_DIR then Err ENOTDIR s
           else kbind (sfs_lookonce km am v path s) (\<lambda>(final, _) s. Ok final s))))"

subsection \<open>Creating a file\<close>

lemma dirmap_acquire [simp]: "dirmap (vfs_biglock_acquire s) di = dirmap s di" "dir_ok (vfs_biglock_acquire s) di = dir_ok s di"
  "dirmap (s\<lparr>biglock := n\<rparr>) di = dirmap s di" "dir_ok (s\<lparr>biglock := n\<rparr>) di = dir_ok s di"
  using dirmap_fbyte [of "vfs_biglock_acquire s" di s di] dirmap_fbyte [of "s\<lparr>biglock := n\<rparr>" di s di] by simp_all

lemma others_same_refl: "quiet s t \<Longrightarrow> others_same i s t"
  using quietD(1,5) [of s t] by (simp add: others_same_def)

lemma others_same_acquire: "others_same i (vfs_biglock_acquire s) t = others_same i s t"
  "others_same i s (t\<lparr>biglock := n\<rparr>) = others_same i s t"
  by (simp_all add: others_same_def)

lemma link_count:
  assumes "fs_ok s" "vn s i = Some v"
  shows "fs_ok (upd_inode i (\<lambda>di. di\<lparr>sfi_linkcount := f di\<rparr>) s)" "fbyte (upd_inode i (\<lambda>di. di\<lparr>sfi_linkcount := f di\<rparr>) s) = fbyte s"
    "vn (upd_inode i (\<lambda>di. di\<lparr>sfi_linkcount := f di\<rparr>) s) =
       (vn s)(i \<mapsto> v\<lparr>sv_i := (sv_i v)\<lparr>sfi_linkcount := f (sv_i v)\<rparr>, sv_dirty := True\<rparr>)"
proof -
  note m = upd_meta [OF assms, of "\<lambda>di. di\<lparr>sfi_linkcount := f di\<rparr>", simplified]
  show "fs_ok (upd_inode i (\<lambda>di. di\<lparr>sfi_linkcount := f di\<rparr>) s)" using m(1) .
  show "fbyte (upd_inode i (\<lambda>di. di\<lparr>sfi_linkcount := f di\<rparr>) s) = fbyte s" using m(2) by blast
  show "vn (upd_inode i (\<lambda>di. di\<lparr>sfi_linkcount := f di\<rparr>) s) =
       (vn s)(i \<mapsto> v\<lparr>sv_i := (sv_i v)\<lparr>sfi_linkcount := f (sv_i v)\<rparr>, sv_dirty := True\<rparr>)"
    using assms(2) by (simp add: vn_upd_inode fun_eq_iff)
qed

text \<open>The state after creating the object, before linking it.\<close>

lemma made_dir:
  assumes "created t i ty u" "vn t dir = Some v" "dir_ok t (sv_i v)"
  shows "dir \<noteq> i" "vn u dir = Some v" "dir_ok u (sv_i v)" "dirmap u (sv_i v) = dirmap t (sv_i v)" "fs_ok u"
    "others_same dir t u"
proof -
  show i: "dir \<noteq> i" "fs_ok u" using assms by (auto simp: created_def)
  then show v: "vn u dir = Some v" using assms by (simp add: created_def)
  have "fbyte u (sv_i v) = fbyte t (sv_i v)" using assms i by (simp add: created_def others_same_def)
  then show "dir_ok u (sv_i v)" "dirmap u (sv_i v) = dirmap t (sv_i v)" using dirmap_fbyte [of u "sv_i v" t "sv_i v"] assms(3) by simp_all
  show "others_same dir t u" using assms by (auto simp: created_def others_same_def)
qed

lemma zero_owned: "i \<noteq> 0 \<Longrightarrow> owned s \<lparr>vn_refcount = r, sv_i = zero_inode ty, sv_ino = i, sv_dirty = d\<rparr> UNIV = {unat i}"
proof -
  assume "i \<noteq> 0"
  moreover have "slot s \<lparr>vn_refcount = r, sv_i = zero_inode ty, sv_ino = i, sv_dirty = d\<rparr> k = (if k = 0 then i else 0)" for k
    using zero_inode_ok(2) by (cases k rule: slot_cases) (simp_all, simp add: zero_inode_def)
  ultimately show ?thesis by (auto simp: owned_def)
qed

text \<open>
  The inode \<open>i\<close> as \<^verbatim>\<open>sfs_loadvnode\<close> would deliver it: the loaded vnode, or one made from the block on
  the disk, where the block is in use, has a valid type and fits in with the loaded files.
\<close>

definition fetch :: "sfs_fs \<Rightarrow> u32 \<Rightarrow> sfs_vnode" where
  "fetch s i = (case vn s i of Some w \<Rightarrow> w | None \<Rightarrow> vnode_init i (dec_dinode (blk s i)) False)"

definition fetchable :: "sfs_fs \<Rightarrow> u32 \<Rightarrow> bool" where
  "fetchable s i \<longleftrightarrow> i \<noteq> 0 \<and> sfi_linkcount (sv_i (fetch s i)) \<noteq> 0 \<and> 0 < vn_refcount (fetch s i) \<and>
     (vn s i = None \<longrightarrow> i < sb_nblocks (sfs_sb s) \<and> unat i \<in> used s \<and>
        sfi_type (sv_i (fetch s i)) \<in> {SFS_TYPE_FILE, SFS_TYPE_DIR} \<and>
        vol_ok (s\<lparr>sfs_vnodes := sfs_vnodes s @ [fetch s i]\<rparr>))"

lemma load_fetch:
  assumes q: "quiet (vfs_biglock_acquire s) t" and ok: "vol_ok s" and fe: "fetchable s i"
  obtains u where "sfs_loadvnode True True i SFS_TYPE_INVAL t = Ok i u" "fs_ok u" "blk u = blk s" "used u = used s"
    "biglock u = Suc (biglock s)"
    "vn u = (vn s)(i \<mapsto> (fetch s i)\<lparr>vn_refcount := (if vn s i = None then 1 else Suc (vn_refcount (fetch s i)))\<rparr>)"
    "sfs_sb u = sfs_sb s"
proof -
  note qd = quietD [OF q]
  have tok: "fs_ok t" using qd(10) vol_ok_acquire [OF ok] by simp
  have i0: "i \<noteq> 0" using fe by (simp add: fetchable_def)
  show ?thesis
  proof (cases "vn s i")
    case (Some w)
    then have w: "vn t i = Some w" "fetch s i = w" using qd(1) by (simp_all add: fetch_def)
    note inc = vnode_incref_ok [OF tok w(1)]
    show ?thesis using that [OF loadvnode_loaded [OF tok w(1) i0] inc(1)] inc(2) w Some qd by (simp add: vnode_incref_def)
  next
    case None
    let ?n = "fetch s i"
    have n: "?n = vnode_init i (dec_dinode (blk s i)) False" using None by (simp add: fetch_def)
    have f: "i < sb_nblocks (sfs_sb t)" "unat i \<in> used t" "sfi_type (dec_dinode (blk t i)) \<in> {SFS_TYPE_FILE, SFS_TYPE_DIR}"
      "vol_ok (s\<lparr>sfs_vnodes := sfs_vnodes s @ [?n]\<rparr>)"
      using fe None qd n by (simp_all add: fetchable_def vnode_init_def)
    let ?u = "(touch (blk t i) t)\<lparr>sfs_vnodes := sfs_vnodes t @ [?n]\<rparr>"
    have di: "d\<lparr>sfi_type := sfi_type d\<rparr> = d" for d :: sfs_dinode by simp
    have ld: "sfs_loadvnode True True i SFS_TYPE_INVAL t = Ok i ?u"
      using loadvnode_fresh [OF tok, of i SFS_TYPE_INVAL "sfi_type (dec_dinode (blk t i))" True True] None f(1-3) qd(1,2) n di
      by simp
    have "fs_ok (vfs_biglock_acquire (s\<lparr>sfs_vnodes := sfs_vnodes s @ [?n]\<rparr>))" by (rule vol_ok_acquire [OF f(4)])
    moreover have "vfs_biglock_acquire (s\<lparr>sfs_vnodes := vs\<rparr>) = (vfs_biglock_acquire s)\<lparr>sfs_vnodes := vs\<rparr>" for vs
      by (cases s) (simp add: vfs_biglock_acquire_def)
    ultimately have "fs_ok ((vfs_biglock_acquire s)\<lparr>sfs_vnodes := sfs_vnodes s @ [?n]\<rparr>)" by simp
    then have "fs_ok (touch (blk t i) ((vfs_biglock_acquire s)\<lparr>sfs_vnodes := sfs_vnodes s @ [?n]\<rparr>))"
      using length_blk [OF fs_okD(1) [OF tok], of i] by (intro fs_ok_touch)
    moreover have "touch (blk t i) t = touch (blk t i) (vfs_biglock_acquire s)" using q by (auto simp: quiet_def touch_touch)
    ultimately have "fs_ok ?u" using qd(9) by (simp add: touch_vnodes)
    moreover have "vn ?u = (vn s)(i \<mapsto> ?n\<lparr>vn_refcount := 1\<rparr>)"
      using vn_append [of "touch (blk t i) t" ?n] None qd(1) n by (auto simp: fun_eq_iff vnode_init_def split: option.splits)
    ultimately show ?thesis using that [OF ld] None qd by simp
  qed
qed

lemma load_fetch_nomem:
  assumes q: "quiet (vfs_biglock_acquire s) t" and ok: "vol_ok s" and fe: "fetchable s i" "vn s i = None" and m: "\<not> (km \<and> am)"
  obtains u where "sfs_loadvnode km am i SFS_TYPE_INVAL t = Err ENOMEM u" "quiet (vfs_biglock_acquire s) u"
proof -
  note qd = quietD [OF q]
  have tok: "fs_ok t" using qd(10) vol_ok_acquire [OF ok] by simp
  have f: "i < sb_nblocks (sfs_sb t)" "unat i \<in> used t" "sfi_type (dec_dinode (blk t i)) \<in> {SFS_TYPE_FILE, SFS_TYPE_DIR}"
    using fe qd by (simp_all add: fetchable_def fetch_def vnode_init_def)
  have "touch (blk t i) t = touch (blk t i) (vfs_biglock_acquire s)" using q by (auto simp: quiet_def touch_touch)
  then have "quiet (vfs_biglock_acquire s) (touch (blk t i) t)"
    using length_blk [OF fs_okD(1) [OF tok], of i] by (auto simp: quiet_def)
  then show ?thesis
    using that q m loadvnode_fresh [OF tok, of i SFS_TYPE_INVAL "sfi_type (dec_dinode (blk t i))" km am] fe(2) f qd(1)
    by (cases km) simp_all
qed

text \<open>The new file with its link.\<close>

definition new_file :: "u32 \<Rightarrow> sfs_vnode" where
  "new_file i = \<lparr>vn_refcount = 1, sv_i = (zero_inode SFS_TYPE_FILE)\<lparr>sfi_linkcount := 1\<rparr>, sv_ino = i, sv_dirty = True\<rparr>"

lemma creat_linked:
  assumes c: "created t i SFS_TYPE_FILE u" and v: "vn t dir = Some v" "dir_ok t (sv_i v)"
    and b: "dir_becomes u v dir m w v'"
  shows "fs_ok (link_inc i w)" "vn (link_inc i w) i = Some (new_file i)" "vn (link_inc i w) dir = Some v'"
    "dir_ok (link_inc i w) (sv_i v')" "dirmap (link_inc i w) (sv_i v') = m" "others_same dir t (link_inc i w)"
    "insert (unat i) (used t) \<subseteq> used (link_inc i w)" "biglock (link_inc i w) = biglock t" "dom (vn (link_inc i w)) = insert i (dom (vn t))"
proof -
  note d = made_dir [OF c v]
  let ?nv = "\<lparr>vn_refcount = 1, sv_i = zero_inode SFS_TYPE_FILE, sv_ino = i, sv_dirty = True\<rparr>"
  have "vn u i = Some ?nv" using c by (simp add: created_def)
  then have wi: "vn w i = Some ?nv" using b d(1) by (auto simp: dir_becomes_def others_same_def)
  have wok: "fs_ok w" "vn w dir = Some v'" using b by (simp_all add: dir_becomes_def)
  note l = link_count [OF wok(1) wi, of "\<lambda>di. sfi_linkcount di + 1", folded link_inc_def]
  show "fs_ok (link_inc i w)" by (rule l(1))
  show "vn (link_inc i w) i = Some (new_file i)" using l(3) by (simp add: new_file_def zero_inode_def)
  show "vn (link_inc i w) dir = Some v'" using l(3) wok(2) d(1) by simp
  have "fbyte (link_inc i w) (sv_i v') = fbyte w (sv_i v')" using l(2) by simp
  then show "dir_ok (link_inc i w) (sv_i v')" "dirmap (link_inc i w) (sv_i v') = m"
    using dirmap_fbyte [of "link_inc i w" "sv_i v'" w "sv_i v'"] b by (simp_all add: dir_becomes_def)
  have "others_same dir t w" using others_same_trans [OF d(6)] b by (simp add: dir_becomes_def)
  moreover have "others_same i w (link_inc i w)" using l(2,3) by (simp add: others_same_def)
  moreover have "vn t i = None" using c by (simp add: created_def)
  ultimately show "others_same dir t (link_inc i w)" unfolding others_same_def by (metis option.distinct(1))
  show "insert (unat i) (used t) \<subseteq> used (link_inc i w)" "biglock (link_inc i w) = biglock t"
    using c b by (auto simp: link_inc_def created_def dir_becomes_def)
  have "dom (vn w) = dom (vn u)" using b unfolding dir_becomes_def dom_def by auto
  then show "dom (vn (link_inc i w)) = insert i (dom (vn t))" using l(3) c by (auto simp: created_def)
qed

lemma creat_unlinked:
  assumes c: "created t i SFS_TYPE_FILE u" and v: "vn t dir = Some v" "dir_ok t (sv_i v)"
    and b: "dir_becomes u v dir m w v'"
  obtains w' where "vnode_decref i w = Ok () w'" "vol_ok w'" "vn w' dir = Some v'" "dir_ok w' (sv_i v')"
    "dirmap w' (sv_i v') = m" "others_same dir t w'" "used t \<subseteq> used w'" "used w' = used w - {unat i}" "biglock w' = biglock t" "dom (vn w') = dom (vn t)"
proof -
  note d = made_dir [OF c v]
  let ?nv = "\<lparr>vn_refcount = 1, sv_i = zero_inode SFS_TYPE_FILE, sv_ino = i, sv_dirty = True\<rparr>"
  have i0: "i \<noteq> 0" "vn t i = None" "unat i \<notin> used t" using c by (simp_all add: created_def)
  have "vn u i = Some ?nv" using c by (simp add: created_def)
  then have wi: "vn w i = Some ?nv" using b d(1) by (auto simp: dir_becomes_def others_same_def)
  have wok: "fs_ok w" "vn w dir = Some v'" using b by (simp_all add: dir_becomes_def)
  obtain w' where w': "vnode_decref i w = Ok () w'" "vol_ok w'" "biglock w' = biglock w" "others_same i w w'"
    "vn w' = (vn w)(i := None)" "used w' = used w - {unat i}"
    using decref_unlinked [OF fs_ok_vol [OF wok(1)] wi i0(1)] zero_owned [OF i0(1), of w 1 SFS_TYPE_FILE True]
    by (auto simp: zero_inode_def)
  have vd: "vn w' dir = Some v'" using w'(5) wok(2) d(1) by simp
  have "fbyte w' (sv_i v') = fbyte w (sv_i v')" using w'(4) wok(2) d(1) by (simp add: others_same_def)
  then have dm: "dir_ok w' (sv_i v')" "dirmap w' (sv_i v') = m"
    using dirmap_fbyte [of w' "sv_i v'" w "sv_i v'"] b by (simp_all add: dir_becomes_def)
  have "others_same dir t w" using others_same_trans [OF d(6)] b by (simp add: dir_becomes_def)
  then have os: "others_same dir t w'" using w'(4) i0(2) unfolding others_same_def by (metis option.distinct(1))
  have "used t \<subseteq> used w" "biglock w = biglock t" using c b by (auto simp: created_def dir_becomes_def)
  moreover have "dom (vn w) = insert i (dom (vn t))" using b c unfolding dir_becomes_def created_def dom_def by auto
  ultimately show ?thesis using that [OF w'(1,2) vd dm os] w'(3,5,6) i0 by (auto simp: domIff)
qed

text \<open>
  What creating a name that is not in the directory may lead to. A failure has one of five causes:
  no block is free for the inode; the memory for the vnode is not available; the name is too long;
  the directory has all its slots; or a block was free for the inode, but then none for the
  directory, which the inode's block - the only free one afterwards - shows. The directory may in
  this last case keep an indirect block it got, in all others the blocks in use are as before.
\<close>

definition creat_fails :: "sfs_fs \<Rightarrow> sfs_vnode \<Rightarrow> byte list \<Rightarrow> bool \<Rightarrow> errno \<Rightarrow> sfs_fs \<Rightarrow> bool" where
  "creat_fails s v nm mem e s' \<longleftrightarrow>
     used s' = used s \<and> (e = ENOSPC \<and> fs_full s \<or> \<not> fs_full s \<and>
       (e = ENOMEM \<and> \<not> mem \<or> e = ENAMETOOLONG \<and> 60 \<le> length nm \<or> e = EFBIG \<and> nents (sv_i v) = 1144)) \<or>
     used s \<subseteq> used s' \<and> e = ENOSPC \<and> mem \<and> length nm < 60 \<and>
       (\<exists>b < unat (sb_nblocks (sfs_sb s)). b \<notin> used s' \<and> {..<unat (sb_nblocks (sfs_sb s))} \<subseteq> insert b (used s'))"

definition creat_result :: "sfs_fs \<Rightarrow> sfs_vnode \<Rightarrow> u32 \<Rightarrow> byte list \<Rightarrow> bool \<Rightarrow> (u32, sfs_fs) res \<Rightarrow> bool" where
  "creat_result s v dir nm mem r \<longleftrightarrow> (\<exists>s' v'. vol_ok s' \<and> biglock s' = biglock s \<and> vn s' dir = Some v' \<and> dir_ok s' (sv_i v') \<and>
     others_same dir s s' \<and>
     ((\<exists>i. r = Ok i s' \<and> mem \<and> i \<noteq> 0 \<and> vn s i = None \<and> unat i \<notin> used s \<and> insert (unat i) (used s) \<subseteq> used s' \<and>
         vn s' i = Some (new_file i) \<and> dirmap s' (sv_i v') = (dirmap s (sv_i v))(nm \<mapsto> i) \<and> dom (vn s') = insert i (dom (vn s))) \<or>
      (\<exists>e. r = Err e s' \<and> dirmap s' (sv_i v') = dirmap s (sv_i v) \<and> dom (vn s') = dom (vn s) \<and> creat_fails s v nm mem e s')))"

lemma full_used: "fs_ok s \<Longrightarrow> fs_full s \<Longrightarrow> {..<unat (sb_nblocks (sfs_sb s))} \<subseteq> used s"
  using fs_okD(4) [of s] unfolding fs_full_def word_le_nat_alt by auto

lemma makeobj_full:
  assumes "fs_ok t" "fs_full t"
  shows "sfs_makeobj km am ty t = Err ENOSPC t"
proof -
  have "unat b \<in> used t" if "b < sb_nblocks (sfs_sb t)" for b
    using full_used [OF assms] that unfolding word_less_nat_alt by blast
  then have "sfs_balloc t = Err ENOSPC t" using balloc_took [OF assms(1)] by blast
  then show ?thesis by (simp add: sfs_makeobj_def)
qed

lemma creat_fails_unlinked:
  assumes c: "created t i SFS_TYPE_FILE u" and b: "dir_becomes u v dir m w v'" and t: "fs_ok t" and mem: "mem"
    and e: "e = ENOSPC \<and> fs_full w \<and> length nm < 60 \<or>
      (e = ENAMETOOLONG \<and> 60 \<le> length nm \<or> e = EFBIG \<and> nents (sv_i v) = 1144) \<and> used w = used u"
    and u: "used t \<subseteq> used w'" "used w' = used w - {unat i}"
  shows "creat_fails t v nm mem e w'"
proof -
  have i: "unat i \<notin> used t" "used u = insert (unat i) (used t)" "fs_ok u" "sfs_sb u = sfs_sb t" "i \<noteq> 0" using c by (simp_all add: created_def)
  have w: "fs_ok w" "sfs_sb w = sfs_sb t" using b i(4) by (simp_all add: dir_becomes_def)
  obtain n where n: "vn u i = Some n" using c by (simp add: created_def)
  have ib: "i < sb_nblocks (sfs_sb t)" using fs_ok_slot(1) [OF i(3), of n 0] vn_in [OF n] i(4,5) by simp
  have nf: "\<not> fs_full t" using i(1) ib full_used [OF t] unfolding word_less_nat_alt by blast
  show ?thesis
  proof (cases "e = ENOSPC \<and> fs_full w \<and> length nm < 60")
    case True
    have "{..<unat (sb_nblocks (sfs_sb t))} \<subseteq> used w" using True full_used [OF w(1)] w(2) by simp
    then have "{..<unat (sb_nblocks (sfs_sb t))} \<subseteq> insert (unat i) (used w')" "unat i \<notin> used w'" using u(2) by blast+
    moreover have "unat i < unat (sb_nblocks (sfs_sb t))" using ib by (simp add: word_less_nat_alt)
    ultimately show ?thesis using True u(1) mem unfolding creat_fails_def by blast
  next
    case False
    then have "used w' = used t" using e u(2) i(1,2) by blast
    then show ?thesis using False e nf unfolding creat_fails_def by blast
  qed
qed

lemma creat_tail:
  assumes q: "quiet (vfs_biglock_acquire s) t" and ok: "vol_ok s" and v: "vn s dir = Some v" "dir_ok s (sv_i v)"
    and nm: "holds name 0 nm" "dirmap s (sv_i v) nm = None"
  shows "creat_result s v dir nm (km \<and> am)
    (unlocked (kbind (sfs_makeobj km am SFS_TYPE_FILE t) (\<lambda>newguy s.
       getv newguy s (\<lambda>nv.
         case sfs_dir_link dir name (sv_ino nv) s of
           Ok _ s \<Rightarrow> Ok newguy (link_inc newguy s)
         | Err e s \<Rightarrow> kbind (vnode_decref newguy s) (\<lambda>_ s. Err e s)
         | Panic \<Rightarrow> Panic | Fault \<Rightarrow> Fault | Hang \<Rightarrow> Hang))))" (is "creat_result _ _ _ _ _ (unlocked ?r)")
proof -
  let ?m = "dirmap s (sv_i v)"
  note qd = quietD [OF q]
  have t: "fs_ok t" "vn t dir = Some v" "dir_ok t (sv_i v)" "dirmap t (sv_i v) = ?m" "biglock t = Suc (biglock s)"
    "vn t = vn s" "used t = used s" "sfs_sb t = sfs_sb s" "fs_full t = fs_full s"
    using qd vol_ok_acquire [OF ok] v dirmap_quiet [OF q] by (simp_all add: fs_full_def)
  have os: "others_same dir s s'" if "others_same dir t s'" for s'
    using others_same_trans [OF others_same_refl [OF q] that] by (simp add: others_same_acquire)
  have fail: "creat_result s v dir nm (km \<and> am) (unlocked ?r)"
    if "?r = Err e w" "vol_ok w" "vn w dir = Some v'" "dir_ok w (sv_i v')" "dirmap w (sv_i v') = ?m" "others_same dir t w"
      "creat_fails t v nm (km \<and> am) e w" "biglock w = biglock t" "dom (vn w) = dom (vn t)" for e w v'
  proof -
    let ?w = "w\<lparr>biglock := biglock s\<rparr>"
    have "unlocked ?r = Err e ?w" using that(1,8) t(5) by (simp add: unlocked_simps)
    moreover have "vol_ok ?w" using that(2) by (simp add: vol_ok_def)
    moreover have "others_same dir s ?w" using os [OF that(6)] by (simp add: others_same_acquire)
    moreover have "creat_fails s v nm (km \<and> am) e ?w" using that(7) t(7-9) by (simp add: creat_fails_def)
    ultimately show ?thesis unfolding creat_result_def
      using that(3-5,9) t(6) by (intro exI [of _ ?w] exI [of _ v']) auto
  qed
  have ty: "SFS_TYPE_FILE \<in> {SFS_TYPE_FILE, SFS_TYPE_DIR}" by simp
  from makeobj_cases [OF t(1) ty, of km am] consider
    (nospace) "sfs_makeobj km am SFS_TYPE_FILE t = Err ENOSPC t" "fs_full t"
    | (nomem) w where "\<not> (km \<and> am)" "sfs_makeobj km am SFS_TYPE_FILE t = Err ENOMEM w" "fs_ok w" "vn w = vn t" "used w = used t"
        "\<forall>i. others_same i t w" "biglock w = biglock t" "\<not> fs_full t"
    | (made) i u where "sfs_makeobj km am SFS_TYPE_FILE t = Ok i u" "created t i SFS_TYPE_FILE u" "km \<and> am"
    using makeobj_full [OF t(1), of km am SFS_TYPE_FILE] by (auto split: if_splits)
  then show ?thesis
  proof cases
    case nospace
    then show ?thesis using t others_same_refl [OF quiet_refl] by (intro fail [of ENOSPC t v]) (auto simp: fs_ok_vol creat_fails_def)
  next
    case nomem
    obtain j where "j \<noteq> dir" using exI [of "\<lambda>j. j \<noteq> dir" "dir + 1"] by auto
    then have "fbyte w (sv_i v) = fbyte t (sv_i v)" using nomem(6) t(2) unfolding others_same_def by metis
    then have "dir_ok w (sv_i v)" "dirmap w (sv_i v) = ?m"
      using dirmap_fbyte [of w "sv_i v" t "sv_i v"] t(3,4) by simp_all
    then show ?thesis using nomem t(2) by (intro fail [of ENOMEM w v]) (auto simp: fs_ok_vol creat_fails_def)
  next
    case made
    note d = made_dir [OF made(2) t(2,3)]
    have nv: "vn u i = Some \<lparr>vn_refcount = 1, sv_i = zero_inode SFS_TYPE_FILE, sv_ino = i, sv_dirty = True\<rparr>" "i \<noteq> 0"
      "vn t i = None" "unat i \<notin> used t"
      using made(2) by (simp_all add: created_def)
    have r: "?r = (case sfs_dir_link dir name i u of
           Ok _ s \<Rightarrow> Ok i (link_inc i s)
         | Err e s \<Rightarrow> kbind (vnode_decref i s) (\<lambda>_ s. Err e s)
         | Panic \<Rightarrow> Panic | Fault \<Rightarrow> Fault | Hang \<Rightarrow> Hang)"
      using made(1) nv(1) by (simp add: getv_vn)
    have none: "\<not> dirmap u (sv_i v) nm \<noteq> None" using nm(2) d(4) t(4) by simp
    obtain w v' where w: "(if 60 \<le> length nm then
           sfs_dir_link dir name i u = Err ENAMETOOLONG w \<and> dir_becomes u v dir (dirmap u (sv_i v)) w v' \<and> used w = used u
         else
           (\<exists>k. sfs_dir_link dir name i u = Ok k w \<and> dir_becomes u v dir ((dirmap u (sv_i v))(nm \<mapsto> i)) w v') \<or>
           dir_becomes u v dir (dirmap u (sv_i v)) w v' \<and>
             (sfs_dir_link dir name i u = Err ENOSPC w \<and> fs_full w \<or>
              sfs_dir_link dir name i u = Err EFBIG w \<and> nents (sv_i v) = 1144 \<and> used w = used u))"
      using dir_link_result [OF d(5,2,3) nm(1) nv(2), unfolded if_not_P [OF none]] by blast
    then consider (ok) k where "sfs_dir_link dir name i u = Ok k w" "dir_becomes u v dir (?m(nm \<mapsto> i)) w v'"
      | (err) e where "sfs_dir_link dir name i u = Err e w" "dir_becomes u v dir ?m w v'"
          "e = ENOSPC \<and> fs_full w \<and> length nm < 60 \<or>
           (e = ENAMETOOLONG \<and> 60 \<le> length nm \<or> e = EFBIG \<and> nents (sv_i v) = 1144) \<and> used w = used u"
      using d(4) t(4) by (auto split: if_splits)
    then show ?thesis
    proof cases
      case ok
      note l = creat_linked [OF made(2) t(2,3) ok(2)]
      let ?w = "(link_inc i w)\<lparr>biglock := biglock s\<rparr>"
      have "unlocked ?r = Ok i ?w" using r ok(1) l(8) t(5) by (simp add: unlocked_simps)
      moreover have "vol_ok ?w" by (rule vol_ok_release [OF l(1)])
      moreover have "others_same dir s ?w" using os [OF l(6)] by (simp add: others_same_acquire)
      ultimately show ?thesis unfolding creat_result_def
        using l(2-5,7,9) nv(2-4) t(6,7) made(3) by (intro exI [of _ ?w] exI [of _ v']) auto
    next
      case err
      obtain w' where w': "vnode_decref i w = Ok () w'" "vol_ok w'" "vn w' dir = Some v'" "dir_ok w' (sv_i v')"
        "dirmap w' (sv_i v') = ?m" "others_same dir t w'" "used t \<subseteq> used w'" "biglock w' = biglock t" "dom (vn w') = dom (vn t)"
        "used w' = used w - {unat i}"
        using creat_unlinked [OF made(2) t(2,3) err(2)] by metis
      have "creat_fails t v nm (km \<and> am) e w'"
        using creat_fails_unlinked [OF made(2) err(2) _ made(3) err(3) w'(7,10)] t(1) by blast
      then show ?thesis using r err w' by (intro fail [of e w' v']) auto
    qed
  qed
qed

text \<open>
  \<^bold>\<open>C27.\<close> \<^verbatim>\<open>sfs_creat\<close>. For a name the directory does not have, it either returns a new empty file with
  one link and one reference, in a block that was free, and the directory maps the name to it;
  or it fails with the directory map as before, no vnode left behind and the block of the new inode
  free again, and then the error has its cause: \<^verbatim>\<open>ENOSPC\<close> on a volume with no free block, or with
  none left but the one of the inode, \<^verbatim>\<open>ENOMEM\<close> without memory, \<^verbatim>\<open>ENAMETOOLONG\<close> for a name of 60
  bytes or more, \<^verbatim>\<open>EFBIG\<close> for a directory with 1144 slots (\<open>creat_fails\<close>). For a name that exists,
  \<^verbatim>\<open>excl\<close> gives \<^verbatim>\<open>EEXIST\<close>; otherwise a loaded file gets one more reference, and one that is not
  loaded is read from its block with one reference, or gives \<^verbatim>\<open>ENOMEM\<close> without memory. For that
  the block the directory names must hold an inode that fits the volume (\<open>fetchable\<close>). In every
  case all other loaded files keep their inodes and contents and the volume stays in order.
\<close>

theorem sfs_creat_creates:
  assumes ok: "vol_ok s" and v: "vn s dir = Some v" and d: "dir_ok s (sv_i v)" and nm: "holds name 0 nm"
    and fits: "\<And>i. dirmap s (sv_i v) nm = Some i \<Longrightarrow> vn s i = None \<Longrightarrow> fetchable s i"
  shows "case dirmap s (sv_i v) nm of
      None \<Rightarrow> creat_result s v dir nm (km \<and> am) (sfs_creat km am dir name excl s)
    | Some i \<Rightarrow> (\<exists>s'. vol_ok s' \<and> biglock s' = biglock s \<and> used s' = used s \<and> blk s' = blk s \<and>
        (if excl then sfs_creat km am dir name excl s = Err EEXIST s' \<and> vn s' = vn s
         else if vn s i = None \<and> \<not> (km \<and> am) then sfs_creat km am dir name excl s = Err ENOMEM s' \<and> vn s' = vn s
         else sfs_creat km am dir name excl s = Ok i s' \<and>
           vn s' = (vn s)(i \<mapsto> (fetch s i)\<lparr>vn_refcount := (if vn s i = None then 1 else Suc (vn_refcount (fetch s i)))\<rparr>)))"
proof -
  let ?s = "vfs_biglock_acquire s" and ?m = "dirmap s (sv_i v)"
  have ok0: "fs_ok ?s" "vn ?s dir = Some v" "dir_ok ?s (sv_i v)" using vol_ok_acquire [OF ok] v d by simp_all
  obtain t ds where f: "sfs_dir_findname dir name ?s = Ok (if ?m nm = None then Some ENOENT else None, ds) t" "quiet ?s t"
    "ds_ino ds = ?m nm" using findname_ok [OF ok0 nm] by (metis dirmap_acquire(1))
  note q = quietD [OF f(2)]
  show ?thesis
  proof (cases "?m nm")
    case None
    have c: "sfs_creat km am dir name excl s = unlocked (kbind (sfs_makeobj km am SFS_TYPE_FILE t) (\<lambda>newguy s.
       getv newguy s (\<lambda>nv.
         case sfs_dir_link dir name (sv_ino nv) s of
           Ok _ s \<Rightarrow> Ok newguy (link_inc newguy s)
         | Err e s \<Rightarrow> kbind (vnode_decref newguy s) (\<lambda>_ s. Err e s)
         | Panic \<Rightarrow> Panic | Fault \<Rightarrow> Fault | Hang \<Rightarrow> Hang)))"
      using f(1) None by (simp add: sfs_creat_def)
    show ?thesis using creat_tail [OF f(2) ok v d nm None, of km am] c None by simp
  next
    case (Some i)
    have tok: "fs_ok t" "biglock t = Suc (biglock s)" using q ok0 by simp_all
    have out: ?thesis if "sfs_creat km am dir name excl s = unlocked r" "r = (if g then Ok i u else Err e u)" "fs_ok u"
      "biglock u = Suc (biglock s)" "used u = used s" "blk u = blk s"
      "if excl then \<not> g \<and> e = EEXIST \<and> vn u = vn s
       else if vn s i = None \<and> \<not> (km \<and> am) then \<not> g \<and> e = ENOMEM \<and> vn u = vn s
       else g \<and> vn u = (vn s)(i \<mapsto> (fetch s i)\<lparr>vn_refcount := (if vn s i = None then 1 else Suc (vn_refcount (fetch s i)))\<rparr>)" for r g e u
    proof -
      have "unlocked r = (if g then Ok i (u\<lparr>biglock := biglock s\<rparr>) else Err e (u\<lparr>biglock := biglock s\<rparr>))"
        using that(2,4) by (simp add: unlocked_simps)
      then show ?thesis unfolding Some option.case using that(1,5-7) vol_ok_release [OF that(3)]
        by (intro exI [of _ "u\<lparr>biglock := biglock s\<rparr>"]) (auto split: if_splits)
    qed
    show ?thesis
    proof (cases excl)
      case True
      then show ?thesis using f(1) Some tok q by (intro out [of "Err EEXIST t" False t EEXIST]) (simp_all add: sfs_creat_def)
    next
      case False
      have c: "sfs_creat km am dir name excl s = unlocked (sfs_loadvnode km am i SFS_TYPE_INVAL t)"
        using f(1,3) Some False by (simp add: sfs_creat_def)
      consider (loaded) w where "vn s i = Some w" | (nomem) "vn s i = None" "\<not> (km \<and> am)" | (load) "vn s i = None" "km" "am" by blast
      then show ?thesis
      proof cases
        case loaded
        note inc = vnode_incref_ok [OF tok(1), of i w]
        have w: "vn t i = Some w" "fetch s i = w" using loaded q(1) by (simp_all add: fetch_def)
        show ?thesis
          using False loaded w q tok(2) inc loadvnode_loaded [OF tok(1) w(1) dirmap_nonzero [OF Some], of km am]
          by (intro out [OF c, of True "vnode_incref i t"]) (auto simp: vnode_incref_def)
      next
        case nomem
        obtain u where "sfs_loadvnode km am i SFS_TYPE_INVAL t = Err ENOMEM u" "quiet ?s u"
          using load_fetch_nomem [OF f(2) ok fits [OF Some nomem(1)] nomem] by metis
        then show ?thesis using False nomem quietD [of ?s u] ok0 by (intro out [OF c, of False u ENOMEM]) auto
      next
        case load
        obtain u where "sfs_loadvnode True True i SFS_TYPE_INVAL t = Ok i u" "fs_ok u" "blk u = blk s" "used u = used s"
          "biglock u = Suc (biglock s)" "vn u = (vn s)(i \<mapsto> (fetch s i)\<lparr>vn_refcount := (if vn s i = None then 1 else Suc (vn_refcount (fetch s i)))\<rparr>)"
          using load_fetch [OF f(2) ok fits [OF Some load(1)]] by metis
        then show ?thesis using False load by (intro out [OF c, of True u]) auto
      qed
    qed
  qed
qed

theorem sfs_creat_creates_witness:
  "creat_result demo_dirvol demo_dir 2 [97] True (sfs_creat True True 2 [97, 0] False demo_dirvol) \<and>
   (\<exists>s'. sfs_creat True True 2 (replicate 59 97 @ [0]) True demo_dvol = Err EEXIST s')"
proof -
  have h: "holds [97, 0] 0 [97]" by (simp add: holds_Nil holds_Cons)
  have a: "creat_result demo_dirvol demo_dir 2 [97] True (sfs_creat True True 2 [97, 0] False demo_dirvol)"
    using sfs_creat_creates [OF fs_ok_vol [OF demo_dir_ok(1)] demo_dir_ok(2,3) h, of True True False]
    unfolding demo_dir_ok(4) by simp
  have l: "\<And>i. dirmap demo_dvol (sv_i demo_dirv) (replicate 59 97) = Some i \<Longrightarrow> vn demo_dvol i = None \<Longrightarrow> fetchable demo_dvol i"
    unfolding demo_dvol_dir(2) using demo_dvol_fields(2) by (simp split: if_splits)
  have "\<exists>s'. sfs_creat True True 2 (replicate 59 97 @ [0]) True demo_dvol = Err EEXIST s'"
    using sfs_creat_creates [OF fs_ok_vol [OF demo_dvol_ok] demo_dvol_fields(2) demo_dvol_dir(1) demo_name l, of True True True]
    unfolding demo_dvol_dir(2) by auto
  then show ?thesis using a by blast
qed

subsection \<open>Removing a name\<close>

text \<open>Changing the directory leaves the blocks of the other files in place.\<close>

lemma becomes_slot:
  assumes b: "dir_becomes s v dir m s' v'" and ok: "fs_ok s" and v: "vn s dir = Some v" and w: "vn s i = Some w" "i \<noteq> dir"
  shows "slot s' w k = slot s w k" "blk s' i = blk s i \<or> i = 0"
proof -
  have vin: "v \<in> set (sfs_vnodes s)" "sv_ino v = dir" "w \<in> set (sfs_vnodes s)" "sv_ino w = i" using vn_in [OF v] vn_in [OF w(1)] by auto
  have apart: "slot s w l \<notin> fblocks s v" if "slot s w l \<noteq> 0" for l
  proof
    assume "slot s w l \<in> fblocks s v"
    then obtain l' where "slot s w l = slot s v l'" by (auto simp: fblocks_def)
    then show False using fs_ok_slot_inj(1) [OF ok vin(3,1)] that vin w(2) by auto
  qed
  have keep: "blk s' (slot s w l) = blk s (slot s w l)" if "slot s w l \<noteq> 0" for l
    using b apart [OF that] fs_ok_slot(2) [OF ok vin(3) that] by (simp add: dir_becomes_def)
  show "slot s' w k = slot s w k" using keep [of 1] by (intro slot_cong) auto
  show "blk s' i = blk s i \<or> i = 0" using keep [of 0] vin by auto
qed

text \<open>The volume after a name has gone: the directory, and the files other than the victim.\<close>

definition unlinked :: "sfs_fs \<Rightarrow> u32 \<Rightarrow> (byte list \<rightharpoonup> u32) \<Rightarrow> u32 \<Rightarrow> sfs_fs \<Rightarrow> bool" where
  "unlinked s dir m i s' \<longleftrightarrow> vol_ok s' \<and> biglock s' = biglock s \<and>
     (\<exists>v'. vn s' dir = Some v' \<and> dir_ok s' (sv_i v') \<and> dirmap s' (sv_i v') = m) \<and>
     (\<forall>j w. j \<noteq> dir \<and> j \<noteq> i \<and> vn s j = Some w \<longrightarrow> vn s' j = Some w \<and> fbyte s' (sv_i w) = fbyte s (sv_i w))"

lemma remove_decref:
  assumes x: "vol_ok x" "vn x dir = Some v'" "dir_ok x (sv_i v')" "dirmap x (sv_i v') = m" "biglock x = biglock s"
      "\<And>j w. j \<noteq> dir \<Longrightarrow> j \<noteq> i \<Longrightarrow> vn s j = Some w \<Longrightarrow> vn x j = Some w \<and> fbyte x (sv_i w) = fbyte s (sv_i w)"
    and w: "vn x i = Some w" "i \<noteq> 0" "i \<noteq> dir" "0 < vn_refcount w"
  obtains y where "vnode_decref i x = Ok () y" "unlinked s dir m i y"
    "if 1 < vn_refcount w then vn y i = Some (w\<lparr>vn_refcount := vn_refcount w - 1\<rparr>) \<and> fbyte y (sv_i w) = fbyte x (sv_i w)
     else vn y i = None \<and>
       (if sfi_linkcount (sv_i w) = 0 then used y = used x - owned x w UNIV
        else used y = used x \<and> (sv_dirty w \<longrightarrow> blk y i = enc_dinode (sv_i w)))"
proof -
  have un: "unlinked s dir m i y" if "vol_ok y" "biglock y = biglock x" "\<And>j. j \<noteq> i \<Longrightarrow> vn y j = vn x j"
      "\<And>j u. j \<noteq> i \<Longrightarrow> vn x j = Some u \<Longrightarrow> fbyte y (sv_i u) = fbyte x (sv_i u)" for y
  proof -
    have "fbyte y (sv_i v') = fbyte x (sv_i v')" "vn y dir = Some v'" using that(3,4) [of dir] x(2) w(3) by auto
    then have "dir_ok y (sv_i v')" "dirmap y (sv_i v') = m" using dirmap_fbyte [of y "sv_i v'" x "sv_i v'"] x(3,4) by simp_all
    moreover have "vn y j = Some u \<and> fbyte y (sv_i u) = fbyte s (sv_i u)" if "j \<noteq> dir" "j \<noteq> i" "vn s j = Some u" for j u
      using x(6) [OF that] \<open>\<And>j. j \<noteq> i \<Longrightarrow> vn y j = vn x j\<close> [OF that(2)]
        \<open>\<And>j u. j \<noteq> i \<Longrightarrow> vn x j = Some u \<Longrightarrow> fbyte y (sv_i u) = fbyte x (sv_i u)\<close> [OF that(2), of u] by simp
    moreover have "biglock y = biglock s" using that(2) x(5) by simp
    ultimately show ?thesis unfolding unlinked_def using that(1) \<open>vn y dir = Some v'\<close> by blast
  qed
  consider (more) "1 < vn_refcount w" | (erase) "vn_refcount w = 1" "sfi_linkcount (sv_i w) = 0"
    | (keep) "vn_refcount w = 1" "sfi_linkcount (sv_i w) \<noteq> 0" using w(4) by linarith
  then show ?thesis
  proof cases
    case more
    obtain y where y: "vnode_decref i x = Ok () y" "vol_ok y" "vn y = (vn x)(i \<mapsto> w\<lparr>vn_refcount := vn_refcount w - 1\<rparr>)"
      "fbyte y = fbyte x" "biglock y = biglock x" using decref_more [OF x(1) w(1) more] by metis
    have "unlinked s dir m i y" by (rule un [OF y(2,5)]) (use y(3,4) in simp_all)
    then show ?thesis by (rule that [OF y(1)]) (use more y(3,4) in simp)
  next
    case erase
    obtain y where y: "vnode_decref i x = Ok () y" "vol_ok y" "biglock y = biglock x" "others_same i x y"
      "vn y = (vn x)(i := None)" "used y = used x - owned x w UNIV"
      using decref_unlinked [OF x(1) w(1,2) erase(2)] erase(1) by auto
    have "unlinked s dir m i y" by (rule un [OF y(2,3)]) (use y(4,5) in \<open>simp_all add: others_same_def\<close>)
    then show ?thesis by (rule that [OF y(1)]) (use erase y(5,6) in simp)
  next
    case keep
    obtain t where t: "vnode_decref i x = Ok () (t\<lparr>sfs_vnodes := filter (\<lambda>v. sv_ino v \<noteq> i) (sfs_vnodes t), biglock := biglock x\<rparr>)"
      "fs_ok t" "vn t = (vn x)(i \<mapsto> w\<lparr>sv_dirty := False\<rparr>)" "used t = used x"
      "\<And>w. w \<in> set (sfs_vnodes x) \<Longrightarrow> fbyte t (sv_i w) = fbyte x (sv_i w)"
      "blk t = (if sv_dirty w then (blk x)(i := enc_dinode (sv_i w)) else blk x)"
      using decref_linked [OF x(1) w(1,2) keep] by metis
    let ?y = "t\<lparr>sfs_vnodes := filter (\<lambda>v. sv_ino v \<noteq> i) (sfs_vnodes t), biglock := biglock x\<rparr>"
    have tv: "vn t i = Some (w\<lparr>sv_dirty := False\<rparr>)" using t(3) by simp
    obtain u where u: "fs_ok u" "vn u = (vn t)(i := None)" "used u = used t"
      "u = t\<lparr>sfs_vnodes := filter (\<lambda>v. sv_ino v \<noteq> i) (sfs_vnodes t)\<rparr>"
      by (rule remove_vnode_ok [OF t(2) tv])
    have y: "?y = u\<lparr>biglock := biglock x\<rparr>" using u(4) by simp
    have yo: "vol_ok ?y" unfolding y by (rule vol_ok_release [OF u(1)])
    have yf: "vn ?y = (vn x)(i := None)" "used ?y = used x" "blk ?y = blk t" "fbyte ?y = fbyte t" "biglock ?y = biglock x"
      unfolding y using u t(3,4) by simp_all
    have "unlinked s dir m i ?y"
    proof (rule un [OF yo yf(5)])
      fix j u assume "vn x j = Some u"
      then show "fbyte ?y (sv_i u) = fbyte x (sv_i u)" using t(5) [of u] vn_in [of x j u] yf(4) by simp
    qed (use yf(1) in simp)
    then show ?thesis by (rule that [OF t(1)]) (use keep yf(1-3) t(6) in simp)
  qed
qed

text \<open>
  \<^bold>\<open>C28.\<close> \<^verbatim>\<open>sfs_remove\<close> of a name that is in the directory succeeds. The directory loses exactly that name
  and the file one link. A file that is loaded stays loaded with its references and its contents.
  A file that is not loaded leaves no vnode behind: if that was its last link all its blocks and its
  inode are free, otherwise its inode is on the disk with the lower link count and its blocks stay
  in use. The directory and all other loaded files are as they should be.
\<close>

theorem sfs_remove_removes:
  assumes ok: "vol_ok s" and v: "vn s dir = Some v" and d: "dir_ok s (sv_i v)" and nm: "holds name 0 nm"
    and i: "dirmap s (sv_i v) nm = Some i" "i \<noteq> dir" "fetchable s i"
    and w': "w' = (fetch s i)\<lparr>sv_i := (sv_i (fetch s i))\<lparr>sfi_linkcount := sfi_linkcount (sv_i (fetch s i)) - 1\<rparr>, sv_dirty := True\<rparr>"
  shows "\<exists>s'. sfs_remove True True dir name s = Ok () s' \<and> unlinked s dir ((dirmap s (sv_i v))(nm := None)) i s' \<and>
    (if vn s i \<noteq> None then vn s' i = Some w' \<and> fbyte s' (sv_i w') = fbyte s (sv_i (fetch s i))
     else vn s' i = None \<and>
       (if sfi_linkcount (sv_i w') = 0 then used s' \<inter> owned s (fetch s i) UNIV = {}
        else blk s' i = enc_dinode (sv_i w') \<and> owned s (fetch s i) UNIV \<subseteq> used s'))"
proof -
  let ?s = "vfs_biglock_acquire s" and ?m = "dirmap s (sv_i v)" and ?w = "fetch s i"
  let ?r = "if vn s i = None then 1 else Suc (vn_refcount (fetch s i))"
  have ok0: "fs_ok ?s" "vn ?s dir = Some v" "dir_ok ?s (sv_i v)" using vol_ok_acquire [OF ok] v d by simp_all
  obtain t ds where f: "sfs_dir_findname dir name ?s = Ok (None, ds) t" "quiet ?s t" "ds_ino ds = Some i"
    "\<exists>k < nents (sv_i v). ds_slot ds = Some (int k) \<and> sfd_ino (dentry ?s (sv_i v) k) = i \<and> dname (dentry ?s (sv_i v) k) = nm"
    by (rule findname_ok [OF ok0 nm]) (use i(1) in auto)
  obtain k where k: "k < nents (sv_i v)" "ds_slot ds = Some (int k)" "sfd_ino (dentry ?s (sv_i v) k) = i"
    "dname (dentry ?s (sv_i v) k) = nm" using f(4) by blast
  obtain u where u: "sfs_loadvnode True True i SFS_TYPE_INVAL t = Ok i u" "fs_ok u" "blk u = blk s" "used u = used s"
    "biglock u = Suc (biglock s)" "vn u = (vn s)(i \<mapsto> ?w\<lparr>vn_refcount := ?r\<rparr>)" using load_fetch [OF f(2) ok i(3)] by metis
  have i0: "i \<noteq> 0" "sfi_linkcount (sv_i ?w) \<noteq> 0" "0 < vn_refcount ?w" using i(3) by (simp_all add: fetchable_def)
  have fb: "fbyte u = fbyte s" "fmap u = fmap s" by (rule fbyte_blk [OF u(3)], rule fmap_blk [OF u(3)])
  have ud: "vn u dir = Some v" "dir_ok u (sv_i v)" "dirmap u (sv_i v) = ?m"
    using u(6) v d i(2) dirmap_fbyte [of u "sv_i v" s "sv_i v"] fb(1) by simp_all
  have de: "dentry u = dentry ?s" by (intro ext) (simp add: dentry_def fb(1))
  have uw: "vn u i = Some (?w\<lparr>vn_refcount := ?r\<rparr>)" using u(6) by simp
  obtain x v' where x: "sfs_dir_unlink dir (int k) u = Ok () x" "dir_becomes u v dir (?m(nm := None)) x v'"
    using unlink_slot [OF u(2) ud(1,2) k(1), of nm] k(3,4) i0(1) ud(3) de by auto
  have xf: "fs_ok x" "vn x dir = Some v'" "dir_ok x (sv_i v')" "dirmap x (sv_i v') = ?m(nm := None)" "biglock x = Suc (biglock s)"
    "others_same dir u x" "used s \<subseteq> used x" using x(2) u(4,5) by (simp_all add: dir_becomes_def)
  have "vn x i = Some (?w\<lparr>vn_refcount := ?r\<rparr>) \<and>
      fbyte x (sv_i (?w\<lparr>vn_refcount := ?r\<rparr>)) = fbyte u (sv_i (?w\<lparr>vn_refcount := ?r\<rparr>))"
    using xf(6) uw i(2) unfolding others_same_def by blast
  then have xw: "vn x i = Some (?w\<lparr>vn_refcount := ?r\<rparr>)" "fbyte x (sv_i ?w) = fbyte s (sv_i ?w)"
    using fb(1) by simp_all
  have lk: "sfs_remove True True dir name s = unlocked (vnode_decref i (link_dec i x))"
    using f(1,3) u(1) k(2) x(1) i0(2) xw(1) by (simp add: sfs_remove_def sfs_lookonce_def getv_vn [OF uw] getv_vn [OF xw(1)] word_gt_0)
  note l = link_count [OF xf(1) xw(1), of "\<lambda>di. sfi_linkcount di - 1", folded link_dec_def]
  let ?w1 = "w'\<lparr>vn_refcount := ?r\<rparr>"
  have "?w1 = ?w\<lparr>vn_refcount := ?r, sv_i := (sv_i ?w)\<lparr>sfi_linkcount := sfi_linkcount (sv_i ?w) - 1\<rparr>, sv_dirty := True\<rparr>"
    unfolding w' by (cases ?w) simp
  then have yw: "vn (link_dec i x) = (vn x)(i \<mapsto> ?w1)" using l(3) by simp
  have us: "slot u (?w\<lparr>vn_refcount := ?r\<rparr>) j = slot s ?w j" for j using fb(2) by (cases j rule: slot_cases) simp_all
  have sl: "slot (link_dec i x) ?w1 j = slot s ?w j" for j
  proof -
    have "slot (link_dec i x) ?w1 j = slot x (?w\<lparr>vn_refcount := ?r\<rparr>) j"
      using fmap_blk [of "link_dec i x" x] w' by (cases j rule: slot_cases) (simp_all add: link_dec_def fmap_def)
    also have "\<dots> = slot u (?w\<lparr>vn_refcount := ?r\<rparr>) j" by (rule becomes_slot(1) [OF x(2) u(2) ud(1) uw i(2)])
    also have "\<dots> = slot s ?w j" by (rule us)
    finally show ?thesis .
  qed
  then have own: "owned (link_dec i x) ?w1 UNIV = owned s ?w UNIV" by (simp add: owned_def)
  have ownu: "owned s ?w UNIV \<subseteq> used (link_dec i x)"
  proof
    fix b assume "b \<in> owned s ?w UNIV"
    then obtain j where j: "b = unat (slot s ?w j)" "slot s ?w j \<noteq> 0" by (auto simp: owned_def)
    then have "b \<in> used u" using fs_ok_slot(2) [OF u(2), of "?w\<lparr>vn_refcount := ?r\<rparr>" j] vn_in [OF uw] us [of j] by simp
    then show "b \<in> used (link_dec i x)" using u(4) xf(7) by (auto simp: link_dec_def)
  qed
  have yd: "vn (link_dec i x) dir = Some v'" "dir_ok (link_dec i x) (sv_i v')" "dirmap (link_dec i x) (sv_i v') = ?m(nm := None)"
    "biglock (link_dec i x) = biglock ?s"
    using yw xf(2-5) i(2) l(2) dirmap_fbyte [of "link_dec i x" "sv_i v'" x "sv_i v'"] by (simp_all add: link_dec_def)
  have yo: "vn (link_dec i x) j = Some q \<and> fbyte (link_dec i x) (sv_i q) = fbyte ?s (sv_i q)"
    if "j \<noteq> dir" "j \<noteq> i" "vn ?s j = Some q" for j q
  proof -
    have "vn u j = Some q" using that u(6) by simp
    then have "vn x j = Some q \<and> fbyte x (sv_i q) = fbyte u (sv_i q)" using xf(6) that(1) unfolding others_same_def by blast
    then show ?thesis using that(2) yw l(2) fb(1) by simp
  qed
  have ywi: "vn (link_dec i x) i = Some ?w1" using yw by simp
  have w1: "vn_refcount ?w1 = ?r" "sv_i ?w1 = sv_i w'" "sv_dirty ?w1" "0 < vn_refcount ?w1" unfolding w' by simp_all
  obtain y where y: "vnode_decref i (link_dec i x) = Ok () y" "unlinked ?s dir (?m(nm := None)) i y"
    "if 1 < vn_refcount ?w1 then vn y i = Some (?w1\<lparr>vn_refcount := vn_refcount ?w1 - 1\<rparr>) \<and>
         fbyte y (sv_i ?w1) = fbyte (link_dec i x) (sv_i ?w1)
     else vn y i = None \<and>
       (if sfi_linkcount (sv_i ?w1) = 0 then used y = used (link_dec i x) - owned (link_dec i x) ?w1 UNIV
        else used y = used (link_dec i x) \<and> (sv_dirty ?w1 \<longrightarrow> blk y i = enc_dinode (sv_i ?w1)))"
    by (rule remove_decref [OF fs_ok_vol [OF l(1)] yd yo ywi i0(1) i(2) w1(4)])
  have by': "biglock y = Suc (biglock s)" using y(2) by (simp add: unlinked_def)
  let ?y = "y\<lparr>biglock := biglock s\<rparr>"
  have res: "sfs_remove True True dir name s = Ok () ?y" using lk y(1) by' by (simp add: unlocked_simps)
  have un: "unlinked s dir (?m(nm := None)) i ?y" using y(2) by (simp add: unlinked_def vol_ok_def)
  have wd: "fbyte z (sv_i w') = fbyte z (sv_i ?w)" for z using w' by (simp add: fbyte_def fmap_def fun_eq_iff)
  show ?thesis
  proof (cases "vn s i = None")
    case True
    then have r: "\<not> 1 < vn_refcount ?w1" using w1(1) by simp
    show ?thesis using y(3) [unfolded if_not_P [OF r] w1(2) own] res un True w1(3) ownu
      by (intro exI [of _ ?y]) (auto split: if_splits)
  next
    case False
    then have r: "1 < vn_refcount ?w1" "vn_refcount ?w1 - 1 = vn_refcount ?w" using w1(1) i0(3) by simp_all
    have "?w1\<lparr>vn_refcount := vn_refcount ?w\<rparr> = w'" unfolding w' by simp
    then show ?thesis using y(3) [unfolded if_P [OF r(1)] w1(2) r(2)] res un False wd l(2) xw(2)
      by (intro exI [of _ ?y]) simp
  qed
qed

lemma remove_demo_ok: "fs_ok (dir_vol 4 [new_file 4] 31)" "vn (dir_vol 4 [new_file 4] 31) 4 = Some (new_file 4)"
proof -
  let ?s = "dir_vol 4 [new_file 4] 31"
  have sl: "slot s (new_file 4) k = (if k = 0 then 4 else 0)" for s k
    by (cases k rule: slot_cases) (simp_all add: new_file_def zero_inode_def fmap_def)
  have "used ?s = {0, 1, 2, 3, 4}" unfolding dir_vol_fields by (rule low_bits(2))
  moreover have "dinode_ok (sv_i (new_file 4))" by (simp add: new_file_def dinode_ok_def zero_inode_def)
  moreover have "sv_ino (new_file 4) = 4" "sv_ino demo_dirv = 2" by (simp_all add: new_file_def demo_dirv_def)
  ultimately show "fs_ok ?s" "vn ?s 4 = Some (new_file 4)"
    using demo_dirv_ok unfolding fs_ok_def vn_def dir_vol_fields(1,2,7,8)
    by (auto simp: dir_vol_slot sl dir_vol_fields(4,6) split: if_splits)
qed

theorem sfs_remove_removes_witness:
  "\<exists>s'. sfs_remove True True 2 (replicate 59 97 @ [0]) (dir_vol 4 [new_file 4] 31) = Ok () s' \<and>
     unlinked (dir_vol 4 [new_file 4] 31) 2 Map.empty 4 s' \<and> vn s' 4 \<noteq> None"
proof -
  let ?s = "dir_vol 4 [new_file 4] 31"
  have fe: "fetch ?s 4 = new_file 4" using remove_demo_ok(2) by (simp add: fetch_def)
  have "fetchable ?s 4" using fe remove_demo_ok(2) by (simp add: fetchable_def new_file_def)
  moreover have d: "dirmap ?s (sv_i demo_dirv) = [replicate 59 97 \<mapsto> 4]" using dir_vol_dir(2) [of 4 "[new_file 4]" 31] by simp
  moreover have "dir_ok ?s (sv_i demo_dirv)" by (rule dir_vol_dir(1)) simp
  moreover have "[replicate 59 (97 :: byte) \<mapsto> (4 :: u32)](replicate 59 97 := None) = Map.empty" by auto
  ultimately show ?thesis
    using sfs_remove_removes [OF fs_ok_vol [OF remove_demo_ok(1)] dir_vol_fields(5) _ demo_name _ _ _ refl, of 4] remove_demo_ok(2)
    by (auto simp del: fun_upd_apply simp: fun_upd_same)
qed

end
