(* ===== verification/SfsFsops.thy ===== *)
theory SfsFsops
  imports SfsVnops
begin

text \<open>
  The operations on a whole volume, \<^verbatim>\<open>kern/fs/sfs/sfs_fsops.c\<close>: writing back everything that is
  dirty, unmounting and mounting.

  The state of a mounted volume is the \<open>sfs_fs\<close> record of the other file system theories. While a
  volume is being created or destroyed its pointers to the device and to the free map can be
  null; \<open>sfs_obj\<close> adds the two flags that say whether they are. Before mounting and after
  unmounting there is no object: then only the device, the lock depth and the current address
  space of the record have a meaning, and its other fields stand for the memory \<^verbatim>\<open>kmalloc\<close> will
  return. The outcomes of the memory allocations are parameters.

  The theory shows that \<^verbatim>\<open>sfs_sync\<close> brings the disk up to date without touching any file, and that
  a volume that has been synced and unmounted comes back from \<^verbatim>\<open>sfs_domount\<close> as it was.
\<close>

subsection \<open>The free map on the disk\<close>

fun sfs_freemapio_from :: "uio_rw \<Rightarrow> nat \<Rightarrow> nat \<Rightarrow> sfs_fs \<Rightarrow> (unit, sfs_fs) res" where
  "sfs_freemapio_from rw 0 j s = Ok () s"
| "sfs_freemapio_from rw (Suc n) j s =
     (let freemapdata = bitmap_getdata (sfs_freemap s) in
      if j * 512 + 512 > length freemapdata then Fault
      else if rw = UIO_READ then
        kbind (sfs_readblock (SFS_FREEMAP_START + word_of_nat j) s) (\<lambda>d s.
          sfs_freemapio_from rw n (Suc j)
            (s\<lparr>sfs_freemap := (sfs_freemap s)\<lparr>bm_v := take (j * 512) freemapdata @ d @ drop (j * 512 + 512) freemapdata\<rparr>\<rparr>))
      else
        kbind (sfs_writeblock (SFS_FREEMAP_START + word_of_nat j) (take 512 (drop (j * 512) freemapdata)) s) (\<lambda>_ s.
          sfs_freemapio_from rw n (Suc j) s))"

definition sfs_freemapio :: "uio_rw \<Rightarrow> sfs_fs \<Rightarrow> (unit, sfs_fs) res" where
  "sfs_freemapio rw s = sfs_freemapio_from rw (unat (SFS_FREEMAPBLOCKS (sb_nblocks (sfs_sb s)))) 0 s"

subsection \<open>Writing back\<close>

text \<open>The result of \<^verbatim>\<open>VOP_FSYNC\<close> is not looked at.\<close>

fun sfs_sync_vnodes_from :: "nat \<Rightarrow> nat \<Rightarrow> sfs_fs \<Rightarrow> (unit, sfs_fs) res" where
  "sfs_sync_vnodes_from 0 i s = Ok () s"
| "sfs_sync_vnodes_from (Suc n) i s =
     rd (sfs_vnodes s) i (\<lambda>v.
       case sfs_fsync (sv_ino v) s of
         Ok _ s \<Rightarrow> sfs_sync_vnodes_from n (Suc i) s
       | Err _ s \<Rightarrow> sfs_sync_vnodes_from n (Suc i) s
       | Panic \<Rightarrow> Panic | Fault \<Rightarrow> Fault | Hang \<Rightarrow> Hang)"

definition sfs_sync_vnodes :: "sfs_fs \<Rightarrow> (unit, sfs_fs) res" where
  "sfs_sync_vnodes s = sfs_sync_vnodes_from (length (sfs_vnodes s)) 0 s"

definition sfs_sync_freemap :: "sfs_fs \<Rightarrow> (unit, sfs_fs) res" where
  "sfs_sync_freemap s =
     (if sfs_freemapdirty s then
        kbind (sfs_freemapio UIO_WRITE s) (\<lambda>_ s. Ok () (s\<lparr>sfs_freemapdirty := False\<rparr>))
      else Ok () s)"

definition sfs_sync_superblock :: "sfs_fs \<Rightarrow> (unit, sfs_fs) res" where
  "sfs_sync_superblock s =
     (if sfs_superdirty s then
        kbind (sfs_writeblock SFS_SUPER_BLOCK (enc_superblock (sfs_sb s)) s) (\<lambda>_ s. Ok () (s\<lparr>sfs_superdirty := False\<rparr>))
      else Ok () s)"

definition sfs_sync :: "sfs_fs \<Rightarrow> (unit, sfs_fs) res" where
  "sfs_sync s =
     unlocked
       (kbind (sfs_sync_vnodes (vfs_biglock_acquire s)) (\<lambda>_ s.
        kbind (sfs_sync_freemap s) (\<lambda>_ s. sfs_sync_superblock s)))"

definition sfs_getvolname :: "sfs_fs \<Rightarrow> (byte list, sfs_fs) res" where
  "sfs_getvolname s =
     (let s = vfs_biglock_acquire s; ret = sb_volname (sfs_sb s) in
      kbind (vfs_biglock_release s) (\<lambda>_ s. Ok ret s))"

subsection \<open>Mounting and unmounting\<close>

record sfs_obj =
  ob_fs :: sfs_fs
  ob_device :: bool
  ob_freemap :: bool

text \<open>
  Destroying the vnode table requires it to be empty (\<^verbatim>\<open>array_cleanup\<close>). What remains is the
  state around the object.
\<close>

definition sfs_fs_destroy :: "sfs_obj \<Rightarrow> (unit, sfs_fs) res" where
  "sfs_fs_destroy ob =
     kassert (sfs_vnodes (ob_fs ob) = []) (kassert (\<not> ob_device ob) (Ok () (ob_fs ob)))"

definition sfs_unmount :: "sfs_fs \<Rightarrow> (unit, sfs_fs) res" where
  "sfs_unmount s =
     (let s = vfs_biglock_acquire s in
      unlocked
        (if length (sfs_vnodes s) > 0 then Err EBUSY s
         else
           kassert (\<not> sfs_superdirty s)
             (kassert (\<not> sfs_freemapdirty s)
               (sfs_fs_destroy \<lparr>ob_fs = s, ob_device = False, ob_freemap = True\<rparr>))))"

text \<open>\<open>km\<close>: the object is allocated; \<open>am\<close>: the vnode table is.\<close>

definition sfs_fs_create :: "bool \<Rightarrow> bool \<Rightarrow> sfs_fs \<Rightarrow> sfs_obj option" where
  "sfs_fs_create km am s =
     (if \<not> km then None
      else if \<not> am then None
      else Some \<lparr>ob_fs = s\<lparr>sfs_superdirty := False, sfs_vnodes := [], sfs_freemapdirty := False\<rparr>,
                 ob_device = False, ob_freemap = False\<rparr>)"

text \<open>The cleanup before every error return of \<^verbatim>\<open>sfs_domount\<close> once the object exists.\<close>

definition domount_fail :: "errno \<Rightarrow> sfs_obj \<Rightarrow> (unit, sfs_fs) res" where
  "domount_fail e ob =
     unlocked (kbind (sfs_fs_destroy (ob\<lparr>ob_device := False\<rparr>)) (\<lambda>_ s. Err e s))"

definition domount_freemap :: "bool \<Rightarrow> bool \<Rightarrow> sfs_obj \<Rightarrow> (unit, sfs_fs) res" where
  "domount_freemap b1 b2 ob =
     (case bitmap_create b1 b2 (SFS_FREEMAPBITS (sb_nblocks (sfs_sb (ob_fs ob)))) of
        Ok None _ \<Rightarrow> domount_fail ENOMEM ob
      | Ok (Some fm) _ \<Rightarrow>
          (case sfs_freemapio UIO_READ ((ob_fs ob)\<lparr>sfs_freemap := fm\<rparr>) of
             Ok _ s \<Rightarrow> unlocked (Ok () s)
           | Err e s \<Rightarrow> domount_fail e (ob\<lparr>ob_fs := s, ob_freemap := True\<rparr>)
           | Panic \<Rightarrow> Panic | Fault \<Rightarrow> Fault | Hang \<Rightarrow> Hang)
      | Err e _ \<Rightarrow> domount_fail e ob
      | Panic \<Rightarrow> Panic | Fault \<Rightarrow> Fault | Hang \<Rightarrow> Hang)"

definition sfs_domount :: "bool \<Rightarrow> bool \<Rightarrow> bool \<Rightarrow> bool \<Rightarrow> nat \<Rightarrow> sfs_fs \<Rightarrow> (unit, sfs_fs) res" where
  "sfs_domount km am b1 b2 d_blocksize s =
     (let s = vfs_biglock_acquire s in
      if d_blocksize \<noteq> SFS_BLOCKSIZE then unlocked (Err ENXIO s)
      else
        (case sfs_fs_create km am s of
           None \<Rightarrow> unlocked (Err ENOMEM s)
         | Some ob \<Rightarrow>
             let ob = ob\<lparr>ob_device := True\<rparr> in
             (case sfs_readblock SFS_SUPER_BLOCK (ob_fs ob) of
                Ok d s \<Rightarrow>
                  let sb = dec_superblock d in
                  if sb_magic sb \<noteq> SFS_MAGIC then domount_fail EINVAL (ob\<lparr>ob_fs := s\<lparr>sfs_sb := sb\<rparr>\<rparr>)
                  else domount_freemap b1 b2
                    (ob\<lparr>ob_fs := s\<lparr>sfs_sb := sb\<lparr>sb_volname := (sb_volname sb)[SFS_VOLNAME_SIZE - 1 := 0]\<rparr>\<rparr>\<rparr>)
              | Err e s \<Rightarrow> domount_fail e (ob\<lparr>ob_fs := s\<rparr>)
              | Panic \<Rightarrow> Panic | Fault \<Rightarrow> Fault | Hang \<Rightarrow> Hang)))"

subsection \<open>Sectors of the free map\<close>

text \<open>The part of the disk from block \<open>2 + j\<close> on that holds \<open>n\<close> sectors of the free map.\<close>

definition fmdisk :: "sfs_fs \<Rightarrow> nat \<Rightarrow> nat \<Rightarrow> byte list" where
  "fmdisk s j n = concat (map (\<lambda>i. blk s (2 + word_of_nat i)) [j..<j + n])"

lemma fmdisk_Suc: "fmdisk s j (Suc n) = blk s (2 + word_of_nat j) @ fmdisk s (Suc j) n"
  using upt_conv_Cons [of j "j + Suc n"] by (simp add: fmdisk_def del: upt_Suc)

lemma fmdisk_0 [simp]: "fmdisk s j 0 = []"
  by (simp add: fmdisk_def)

lemma length_fmdisk: "healthy s \<Longrightarrow> length (fmdisk s j n) = n * 512"
  by (induction n arbitrary: j) (simp_all add: fmdisk_Suc)

lemma fmdisk_cong: "(\<And>i. j \<le> i \<Longrightarrow> i < j + n \<Longrightarrow> blk s' (2 + word_of_nat i) = blk s (2 + word_of_nat i)) \<Longrightarrow> fmdisk s' j n = fmdisk s j n"
  unfolding fmdisk_def by (rule arg_cong [where f = concat], rule map_cong) auto

lemma unat_sector: "Suc (Suc i) < 2 ^ 32 \<Longrightarrow> unat (2 + word_of_nat i :: u32) = Suc (Suc i)"
  using unat_add_small [of 2 "word_of_nat i"] by (simp add: unat_of_nat_u32)

lemma sector_eq: "Suc (Suc i) < 2 ^ 32 \<Longrightarrow> Suc (Suc j) < 2 ^ 32 \<Longrightarrow> (2 + word_of_nat i :: u32) = 2 + word_of_nat j \<longleftrightarrow> i = j"
  by (simp only: u32_eq_iff unat_sector) simp

lemma take_chunk: "take 512 (drop (j * 512) v) @ take (n * 512) (drop (Suc j * 512) v) = take (Suc n * 512) (drop (j * 512) v)"
  by (simp add: take_add)

lemma freemapio_write:
  assumes "healthy s" "(j + n) * 512 \<le> length (bm_v (sfs_freemap s))" "2 + j + n \<le> unat (lh_blocks (sfs_device s))"
  shows "\<exists>s'. sfs_freemapio_from UIO_WRITE n j s = Ok () s' \<and> healthy s' \<and> s' = s\<lparr>sfs_device := sfs_device s'\<rparr> \<and>
    lh_blocks (sfs_device s') = lh_blocks (sfs_device s) \<and>
    fmdisk s' j n = take (n * 512) (drop (j * 512) (bm_v (sfs_freemap s))) \<and>
    (\<forall>b. unat b < 2 + j \<or> 2 + j + n \<le> unat b \<longrightarrow> blk s' b = blk s b)"
  using assms
proof (induction n arbitrary: j s)
  case 0
  then show ?case by simp
next
  case (Suc n)
  let ?b = "2 + word_of_nat j :: u32" and ?v = "bm_v (sfs_freemap s)"
  let ?x = "take 512 (drop (j * 512) ?v)"
  have lt: "2 + j + Suc n < 2 ^ 32" using Suc.prems(3) unat_u32_less [of "lh_blocks (sfs_device s)"] by linarith
  have ub: "unat ?b = 2 + j" using unat_sector [of j] lt by simp
  have len: "length ?x = 512" "j * 512 + 512 \<le> length ?v" using Suc.prems(2) by simp_all
  have "?b < lh_blocks (sfs_device s)" using Suc.prems(3) ub by (simp add: u32_less_iff)
  then have w: "sfs_writeblock ?b ?x s = Ok () (setblk ?b ?x s)" using writeblock_healthy [OF Suc.prems(1)] len(1) by simp
  have h: "healthy (setblk ?b ?x s)" using Suc.prems(1) len(1) by simp
  obtain t where t: "sfs_freemapio_from UIO_WRITE n (Suc j) (setblk ?b ?x s) = Ok () t" "healthy t"
      "t = (setblk ?b ?x s)\<lparr>sfs_device := sfs_device t\<rparr>" "lh_blocks (sfs_device t) = lh_blocks (sfs_device s)"
      "fmdisk t (Suc j) n = take (n * 512) (drop (Suc j * 512) ?v)"
      "\<forall>b. unat b < 2 + Suc j \<or> 2 + Suc j + n \<le> unat b \<longrightarrow> blk t b = blk (setblk ?b ?x s) b"
    using Suc.IH [OF h, of "Suc j"] Suc.prems(2,3) by auto
  have f: "sfs_freemapio_from UIO_WRITE (Suc n) j s = Ok () t"
    using t(1) w len(2) by (simp add: bitmap_getdata_def SFS_FREEMAP_START_def Let_def)
  have "blk t ?b = ?x" using t(6) [rule_format, of ?b] ub by simp
  then have d: "fmdisk t j (Suc n) = take (Suc n * 512) (drop (j * 512) ?v)"
    unfolding fmdisk_Suc t(5) by (simp only: take_chunk)
  have o: "blk t b = blk s b" if "unat b < 2 + j \<or> 2 + j + Suc n \<le> unat b" for b
    using t(6) [rule_format, of b] that ub by (auto simp: fun_upd_def)
  have "t = s\<lparr>sfs_device := sfs_device t\<rparr>" using t(3) by (simp add: setblk_def)
  then show ?case using f t(2,4) d o by (intro exI [of _ t] conjI) blast+
qed

lemma freemapio_read:
  assumes "healthy s" "(j + n) * 512 \<le> length (bm_v (sfs_freemap s))" "2 + j + n \<le> unat (lh_blocks (sfs_device s))"
  shows "\<exists>s'. sfs_freemapio_from UIO_READ n j s = Ok () s' \<and> healthy s' \<and> blk s' = blk s \<and>
    lh_blocks (sfs_device s') = lh_blocks (sfs_device s) \<and>
    s' = s\<lparr>sfs_device := sfs_device s', sfs_freemap := (sfs_freemap s)\<lparr>bm_v :=
      take (j * 512) (bm_v (sfs_freemap s)) @ fmdisk s j n @ drop ((j + n) * 512) (bm_v (sfs_freemap s))\<rparr>\<rparr>"
  using assms
proof (induction n arbitrary: j s)
  case 0
  then show ?case by (intro exI [of _ s]) simp
next
  case (Suc n)
  let ?b = "2 + word_of_nat j :: u32" and ?v = "bm_v (sfs_freemap s)"
  let ?x = "blk s ?b"
  let ?v' = "take (j * 512) ?v @ ?x @ drop (j * 512 + 512) ?v"
  let ?s = "(touch ?x s)\<lparr>sfs_freemap := (sfs_freemap s)\<lparr>bm_v := ?v'\<rparr>\<rparr>"
  have lt: "2 + j + Suc n < 2 ^ 32" using Suc.prems(3) unat_u32_less [of "lh_blocks (sfs_device s)"] by linarith
  have ub: "unat ?b = 2 + j" using unat_sector [of j] lt by simp
  have len: "length ?x = 512" "j * 512 + 512 \<le> length ?v" using Suc.prems(1,2) by simp_all
  have "?b < lh_blocks (sfs_device s)" using Suc.prems(3) ub by (simp add: u32_less_iff)
  then have r: "sfs_readblock ?b s = Ok ?x (touch ?x s)" by (rule readblock_healthy [OF Suc.prems(1)])
  have h: "healthy ?s" using Suc.prems(1) len(1) touch_fields(10) [of ?x s] by (simp add: healthy_def fs_dev_ok_def)
  have b: "blk ?s = blk s" by (simp add: blk_def touch_def fun_eq_iff)
  have l': "length ?v' = length ?v" using len by simp
  obtain t where t: "sfs_freemapio_from UIO_READ n (Suc j) ?s = Ok () t" "healthy t" "blk t = blk s"
      "lh_blocks (sfs_device t) = lh_blocks (sfs_device s)"
      "t = ?s\<lparr>sfs_device := sfs_device t, sfs_freemap := (sfs_freemap s)\<lparr>bm_v :=
         take (Suc j * 512) ?v' @ fmdisk ?s (Suc j) n @ drop ((Suc j + n) * 512) ?v'\<rparr>\<rparr>"
    using Suc.IH [OF h, of "Suc j"] Suc.prems(2,3) l' b by auto
  have f: "sfs_freemapio_from UIO_READ (Suc n) j s = Ok () t"
    using t(1) r len(2) by (simp add: bitmap_getdata_def SFS_FREEMAP_START_def Let_def)
  have "fmdisk ?s (Suc j) n = fmdisk s (Suc j) n" using b by (intro fmdisk_cong) simp
  moreover have "take (Suc j * 512) ?v' = take (j * 512) ?v @ ?x" using len by simp
  moreover have "drop ((Suc j + n) * 512) ?v' = drop ((j + Suc n) * 512) ?v" using len by (simp add: algebra_simps)
  ultimately have "t = s\<lparr>sfs_device := sfs_device t, sfs_freemap := (sfs_freemap s)\<lparr>bm_v :=
      take (j * 512) ?v @ fmdisk s j (Suc n) @ drop ((j + Suc n) * 512) ?v\<rparr>\<rparr>"
    using t(5) by (simp add: fmdisk_Suc touch_def)
  then show ?case using f t(2,3,4) by (intro exI [of _ t] conjI) blast+
qed

subsection \<open>Syncing the vnodes\<close>

abbreviation clean :: "sfs_vnode \<Rightarrow> sfs_vnode" where
  "clean v \<equiv> v\<lparr>sv_dirty := False\<rparr>"

lemma sync_inode_table:
  assumes ok: "fs_ok s" and i: "i < length (sfs_vnodes s)" "v = sfs_vnodes s ! i" "sv_ino v \<noteq> 0"
    and r: "sfs_sync_inode (sv_ino v) s = Ok () s'"
  shows "sfs_vnodes s' = (sfs_vnodes s)[i := clean v]" "sfs_superdirty s' = sfs_superdirty s"
    "sfs_freemapdirty s' = sfs_freemapdirty s" "lh_blocks (sfs_device s') = lh_blocks (sfs_device s)"
proof -
  let ?vs = "sfs_vnodes s"
  have vn: "vn s (sv_ino v) = Some v" unfolding vn_def using fs_okD(6) [OF ok] i
    by (auto simp: find_Some_iff distinct_conv_nth intro!: exI [of _ i])
  have other: "j < length ?vs \<Longrightarrow> sv_ino (?vs ! j) = sv_ino v \<longleftrightarrow> j = i" for j
    using fs_okD(6) [OF ok] i by (auto simp: distinct_conv_nth)
  have m: "map (\<lambda>u. if sv_ino u = sv_ino v then clean u else u) ?vs = ?vs[i := clean v]"
    using i other by (auto intro!: nth_equalityI simp: nth_list_update)
  have "(sfs_vnodes s' = ?vs[i := clean v]) \<and> sfs_superdirty s' = sfs_superdirty s \<and>
      sfs_freemapdirty s' = sfs_freemapdirty s \<and> lh_blocks (sfs_device s') = lh_blocks (sfs_device s)"
  proof (cases "sv_dirty v")
    case True
    have vin: "v \<in> set ?vs" using i by simp
    have "sv_ino v < lh_blocks (sfs_device s)" using fs_ok_slot(1) [OF ok vin, of 0] i(3) fs_okD(3) [OF ok] by simp
    then have "sfs_writeblock (sv_ino v) (enc_dinode (sv_i v)) s = Ok () (setblk (sv_ino v) (enc_dinode (sv_i v)) s)"
      using writeblock_healthy [OF fs_okD(1) [OF ok]] fs_ok_dinode [OF ok vin] by simp
    then have "s' = updv (sv_ino v) (\<lambda>v. clean v) (setblk (sv_ino v) (enc_dinode (sv_i v)) s)"
      using r True by (simp add: sfs_sync_inode_def getv_vn [OF vn])
    then show ?thesis using m by (simp add: updv_def)
  next
    case False
    then have "clean v = v" by simp
    then have "?vs[i := clean v] = ?vs" unfolding i(2) by simp
    then show ?thesis using r False by (simp add: sfs_sync_inode_def getv_vn [OF vn])
  qed
  then show "sfs_vnodes s' = ?vs[i := clean v]" "sfs_superdirty s' = sfs_superdirty s"
    "sfs_freemapdirty s' = sfs_freemapdirty s" "lh_blocks (sfs_device s') = lh_blocks (sfs_device s)" by auto
qed

text \<open>One file of the table, and then all of them from the \<open>i\<close>-th on.\<close>

lemma fsync_nth:
  assumes ok: "fs_ok s" and i: "i < length (sfs_vnodes s)" "v = sfs_vnodes s ! i" "sv_ino v \<noteq> 0"
  obtains s' where "sfs_fsync (sv_ino v) s = Ok () s'" "fs_ok s'" "sfs_sb s' = sfs_sb s" "biglock s' = biglock s"
    "curas s' = curas s" "sfs_freemap s' = sfs_freemap s" "sfs_vnodes s' = (sfs_vnodes s)[i := clean v]"
    "sfs_superdirty s' = sfs_superdirty s" "sfs_freemapdirty s' = sfs_freemapdirty s"
    "\<forall>w \<in> set (sfs_vnodes s). fmap s' (sv_i w) = fmap s (sv_i w) \<and> fbyte s' (sv_i w) = fbyte s (sv_i w)"
    "blk s' = (if sv_dirty v then (blk s)(sv_ino v := enc_dinode (sv_i v)) else blk s)"
proof -
  let ?s = "vfs_biglock_acquire s"
  have ok': "fs_ok ?s" by (rule vol_ok_acquire [OF fs_ok_vol [OF ok]])
  have vn: "vn ?s (sv_ino v) = Some v" unfolding vn_def using fs_okD(6) [OF ok] i
    by (auto simp: find_Some_iff distinct_conv_nth intro!: exI [of _ i])
  obtain t where t: "sfs_sync_inode (sv_ino v) ?s = Ok () t" "fs_ok t" "sfs_sb t = sfs_sb s" "biglock t = Suc (biglock s)"
    "curas t = curas s" "sfs_freemap t = sfs_freemap s"
    "\<And>w. w \<in> set (sfs_vnodes s) \<Longrightarrow> fmap t (sv_i w) = fmap s (sv_i w) \<and> fbyte t (sv_i w) = fbyte s (sv_i w)"
    "blk t = (if sv_dirty v then (blk s)(sv_ino v := enc_dinode (sv_i v)) else blk s)"
    by (rule sync_inode_ok [OF ok' vn i(3)]) simp
  have T: "sfs_vnodes t = (sfs_vnodes s)[i := clean v]" "sfs_superdirty t = sfs_superdirty s"
    "sfs_freemapdirty t = sfs_freemapdirty s"
    using sync_inode_table [OF ok' _ _ i(3) t(1), of i] i(1,2) by (simp_all add: vfs_biglock_acquire_def)
  have p: "biglock s > 0" using fs_okD(1) [OF ok] by (simp add: healthy_def fs_dev_ok_def)
  show ?thesis
  proof (rule that [of "t\<lparr>biglock := biglock s\<rparr>"])
    show "sfs_fsync (sv_ino v) s = Ok () (t\<lparr>biglock := biglock s\<rparr>)"
      using t(1,4) by (simp add: sfs_fsync_def unlocked_simps)
    show "fs_ok (t\<lparr>biglock := biglock s\<rparr>)" using fs_ok_biglock [OF t(2) p] .
  qed (use t T in simp_all)
qed

definition synced :: "sfs_vnode list \<Rightarrow> sfs_fs \<Rightarrow> sfs_fs \<Rightarrow> bool" where
  "synced vs s s' \<longleftrightarrow> fs_ok s' \<and> sfs_sb s' = sfs_sb s \<and> biglock s' = biglock s \<and> curas s' = curas s \<and>
     sfs_freemap s' = sfs_freemap s \<and> sfs_superdirty s' = sfs_superdirty s \<and> sfs_freemapdirty s' = sfs_freemapdirty s \<and>
     (\<forall>w \<in> set (sfs_vnodes s). fmap s' (sv_i w) = fmap s (sv_i w) \<and> fbyte s' (sv_i w) = fbyte s (sv_i w)) \<and>
     (\<forall>b. b \<notin> sv_ino ` set vs \<longrightarrow> blk s' b = blk s b) \<and>
     (\<forall>v \<in> set vs. blk s' (sv_ino v) = (if sv_dirty v then enc_dinode (sv_i v) else blk s (sv_ino v)))"

lemma sync_vnodes_from_ok:
  assumes "fs_ok s" "i + n = length (sfs_vnodes s)" "\<forall>v \<in> set (sfs_vnodes s). sv_ino v \<noteq> 0"
  shows "\<exists>s'. sfs_sync_vnodes_from n i s = Ok () s' \<and>
    sfs_vnodes s' = take i (sfs_vnodes s) @ map clean (drop i (sfs_vnodes s)) \<and> synced (drop i (sfs_vnodes s)) s s'"
  using assms
proof (induction n arbitrary: i s)
  case 0
  then show ?case by (simp add: synced_def)
next
  case (Suc n)
  let ?vs = "sfs_vnodes s"
  define v where "v = ?vs ! i"
  have i: "i < length ?vs" "sv_ino v \<noteq> 0" using Suc.prems(2,3) by (simp_all add: v_def)
  from fsync_nth [OF Suc.prems(1) i(1) v_def i(2)] obtain t where
    t: "sfs_fsync (sv_ino v) s = Ok () t" "fs_ok t" "sfs_sb t = sfs_sb s" "biglock t = biglock s"
    "curas t = curas s" "sfs_freemap t = sfs_freemap s" "sfs_vnodes t = ?vs[i := clean v]"
    "sfs_superdirty t = sfs_superdirty s" "sfs_freemapdirty t = sfs_freemapdirty s"
    "\<forall>w \<in> set ?vs. fmap t (sv_i w) = fmap s (sv_i w) \<and> fbyte t (sv_i w) = fbyte s (sv_i w)"
    "blk t = (if sv_dirty v then (blk s)(sv_ino v := enc_dinode (sv_i v)) else blk s)" .
  have nz: "\<forall>w \<in> set (sfs_vnodes t). sv_ino w \<noteq> 0"
    using Suc.prems(3) i t(7) set_update_subset_insert [of ?vs i "clean v"] by auto
  have dr: "drop i ?vs = v # drop (Suc i) ?vs" using i(1) by (simp add: v_def Cons_nth_drop_Suc)
  have dt: "drop (Suc i) (sfs_vnodes t) = drop (Suc i) ?vs" "take (Suc i) (sfs_vnodes t) = take i ?vs @ [clean v]"
    using t(7) i(1) by (simp_all add: take_Suc_conv_app_nth)
  obtain u where u: "sfs_sync_vnodes_from n (Suc i) t = Ok () u"
    "sfs_vnodes u = take (Suc i) (sfs_vnodes t) @ map clean (drop (Suc i) (sfs_vnodes t))" "synced (drop (Suc i) ?vs) t u"
    using Suc.IH [OF t(2), of "Suc i"] Suc.prems(2) t(7) nz dt(1) by auto
  have f: "sfs_sync_vnodes_from (Suc n) i s = Ok () u" using u(1) t(1) i(1) by (simp add: v_def)
  have V: "sfs_vnodes u = take i ?vs @ map clean (drop i ?vs)" using u(2) dt dr by simp
  have vd: "sv_ino v \<notin> sv_ino ` set (drop (Suc i) ?vs)"
  proof -
    have "distinct (map sv_ino (drop i ?vs))" using fs_okD(6) [OF Suc.prems(1)] distinct_drop drop_map by metis
    then show ?thesis unfolding dr by simp
  qed
  have inv: "\<exists>w' \<in> set (sfs_vnodes t). sv_i w' = sv_i w" if w: "w \<in> set ?vs" for w
  proof (cases "w = v")
    case True
    have "clean v \<in> set (sfs_vnodes t)" using t(7) i(1) by (simp add: set_update_memI)
    then show ?thesis using True by (intro bexI [of _ "clean v"]) simp_all
  next
    case False
    obtain k where k: "k < length ?vs" "w = ?vs ! k" using w by (metis in_set_conv_nth)
    then have "k \<noteq> i" using False by (auto simp: v_def)
    then have "sfs_vnodes t ! k = w" using t(7) k by simp
    then show ?thesis using k(1) t(7) by (metis length_list_update nth_mem)
  qed
  have fm: "fmap u (sv_i w) = fmap s (sv_i w) \<and> fbyte u (sv_i w) = fbyte s (sv_i w)" if w: "w \<in> set ?vs" for w
    using inv [OF w] u(3) bspec [OF t(10) w] unfolding synced_def by metis
  have ob: "blk u b = blk s b" if "b \<notin> sv_ino ` set (drop i ?vs)" for b
    using u(3) t(11) that unfolding synced_def dr by auto
  have mb: "blk u (sv_ino w) = (if sv_dirty w then enc_dinode (sv_i w) else blk s (sv_ino w))" if "w \<in> set (drop i ?vs)" for w
  proof (cases "w \<in> set (drop (Suc i) ?vs)")
    case True
    then have "sv_ino w \<noteq> sv_ino v" using vd by (metis image_eqI)
    then show ?thesis using True u(3) t(11) unfolding synced_def by auto
  next
    case False
    then have "w = v" using that unfolding dr by simp
    moreover have "blk u (sv_ino v) = blk t (sv_ino v)" using u(3) vd unfolding synced_def by blast
    ultimately show ?thesis using t(11) by simp
  qed
  have "synced (drop i ?vs) s u"
    unfolding synced_def using u(3) t(3-6,8,9) fm ob mb by (simp add: synced_def)
  then show ?case using f V by blast
qed

subsection \<open>Syncing a volume\<close>

text \<open>
  The superblock as mounting reads it from a block. The administrative data of a volume are in
  order when the free map has the size the superblock gives it, the reserved blocks belong to no
  file, and whatever is not marked dirty is on the disk as it is in memory.
\<close>

definition load_sb :: "byte list \<Rightarrow> sfs_superblock" where
  "load_sb d = (dec_superblock d)\<lparr>sb_volname := (sb_volname (dec_superblock d))[31 := 0]\<rparr>"

definition fmblocks :: "sfs_fs \<Rightarrow> nat" where
  "fmblocks s = unat (SFS_FREEMAPBLOCKS (sb_nblocks (sfs_sb s)))"

definition reserved :: "sfs_fs \<Rightarrow> u32 \<Rightarrow> bool" where
  "reserved s b \<longleftrightarrow> b = 0 \<or> 2 \<le> unat b \<and> unat b < 2 + fmblocks s"

definition meta_ok :: "sfs_fs \<Rightarrow> bool" where
  "meta_ok s \<longleftrightarrow> sb_ok (sfs_sb s) \<and> sb_magic (sfs_sb s) = SFS_MAGIC \<and> sb_volname (sfs_sb s) ! 31 = 0 \<and>
     unat (sb_nblocks (sfs_sb s)) + 4096 + 8 \<le> 2 ^ 32 \<and> 2 + fmblocks s \<le> unat (sb_nblocks (sfs_sb s)) \<and>
     bm_nbits (sfs_freemap s) = SFS_FREEMAPBITS (sb_nblocks (sfs_sb s)) \<and>
     (\<forall>v \<in> set (sfs_vnodes s). \<forall>k. slot s v k \<noteq> 0 \<longrightarrow> \<not> reserved s (slot s v k))"

definition meta_synced :: "sfs_fs \<Rightarrow> bool" where
  "meta_synced s \<longleftrightarrow>
     (\<not> sfs_superdirty s \<longrightarrow> load_sb (blk s 0) = sfs_sb s) \<and>
     (\<not> sfs_freemapdirty s \<longrightarrow> fmdisk s 0 (fmblocks s) = bm_v (sfs_freemap s))"

lemma freemap_bits:
  assumes "unat n + 4096 + 8 \<le> 2 ^ 32"
  shows "unat (SFS_FREEMAPBITS n) = 4096 * unat (SFS_FREEMAPBLOCKS n)" "unat (SFS_FREEMAPBITS n) + 8 \<le> 2 ^ 32"
    "unat n \<le> unat (SFS_FREEMAPBITS n)"
proof -
  let ?q = "(unat n + 4095) div 4096"
  have le: "?q * 4096 \<le> unat n + 4095" by simp
  have a: "unat (n + SFS_BITSPERBLOCK - 1) = unat n + 4095"
    using assms by (simp add: SFS_BITSPERBLOCK_def unat_word_ariths)
  then have "unat ((n + SFS_BITSPERBLOCK - 1) div SFS_BITSPERBLOCK) = ?q" by (simp add: unat_div SFS_BITSPERBLOCK_def)
  then have b: "unat (SFS_FREEMAPBITS n) = ?q * 4096"
    using unat_mult_small [of "(n + SFS_BITSPERBLOCK - 1) div SFS_BITSPERBLOCK" SFS_BITSPERBLOCK] le assms
    by (simp add: SFS_FREEMAPBITS_def SFS_BITSPERBLOCK_def)
  then have "unat (SFS_FREEMAPBLOCKS n) = ?q" by (simp add: SFS_FREEMAPBLOCKS_def unat_div SFS_BITSPERBLOCK_def)
  then show "unat (SFS_FREEMAPBITS n) = 4096 * unat (SFS_FREEMAPBLOCKS n)" using b by simp
  show "unat (SFS_FREEMAPBITS n) + 8 \<le> 2 ^ 32" "unat n \<le> unat (SFS_FREEMAPBITS n)" using b le assms by linarith+
qed

lemma meta_freemap:
  assumes "meta_ok s" "bm_ok (sfs_freemap s)"
  shows "length (bm_v (sfs_freemap s)) = fmblocks s * 512"
  using assms freemap_bits(1) [of "sb_nblocks (sfs_sb s)"] by (simp add: meta_ok_def bm_ok_def fmblocks_def)

lemma load_enc_sb: "sb_ok sb \<Longrightarrow> sb_volname sb ! 31 = 0 \<Longrightarrow> load_sb (enc_superblock sb) = sb"
  using list_update_id [of "sb_volname sb" 31] by (simp add: load_sb_def dec_enc_superblock)

text \<open>Changing reserved blocks leaves every file as it is.\<close>

lemma reserved_change:
  assumes ok: "fs_ok s" and m: "meta_ok s" and b: "\<And>b. \<not> reserved s b \<Longrightarrow> blk s' b = blk s b" and w: "w \<in> set (sfs_vnodes s)"
  shows "fmap s' (sv_i w) = fmap s (sv_i w)" "slot s' w k = slot s w k" "fbyte s' (sv_i w) = fbyte s (sv_i w)"
proof -
  have nr: "slot s w k \<noteq> 0 \<Longrightarrow> blk s' (slot s w k) = blk s (slot s w k)" for k
    using m w b unfolding meta_ok_def by blast
  have e: "sfi_indirect (sv_i w) = 0 \<or> blk s' (sfi_indirect (sv_i w)) = blk s (sfi_indirect (sv_i w))"
    using nr [of 1] by auto
  then show f: "fmap s' (sv_i w) = fmap s (sv_i w)" using fmap_cong fmap_noind by blast
  show "slot s' w k = slot s w k" using e by (intro slot_cong) simp
  have "fmap s (sv_i w) i \<noteq> 0 \<Longrightarrow> blk s' (fmap s (sv_i w) i) = blk s (fmap s (sv_i w) i)" for i
    using nr [of "Suc (Suc i)"] by simp
  then show "fbyte s' (sv_i w) = fbyte s (sv_i w)" by (auto simp: fbyte_def fun_eq_iff f Let_def)
qed

text \<open>The administrative part of a sync.\<close>

lemma sync_freemap_ok:
  assumes ok: "fs_ok s" and m: "meta_ok s" "meta_synced s"
  obtains d t where "sfs_sync_freemap s = Ok () t" "t = s\<lparr>sfs_device := d, sfs_freemapdirty := False\<rparr>"
    "healthy t" "lh_blocks d = lh_blocks (sfs_device s)" "fmdisk t 0 (fmblocks s) = bm_v (sfs_freemap s)"
    "\<forall>b. unat b < 2 \<or> 2 + fmblocks s \<le> unat b \<longrightarrow> blk t b = blk s b"
proof (cases "sfs_freemapdirty s")
  case True
  have h: "healthy s" by (rule fs_okD(1) [OF ok])
  have len: "length (bm_v (sfs_freemap s)) = fmblocks s * 512" by (rule meta_freemap [OF m(1) fs_okD(2) [OF ok]])
  have "2 + 0 + fmblocks s \<le> unat (lh_blocks (sfs_device s))"
    using m(1) fs_okD(3) [OF ok] by (simp add: meta_ok_def u32_le_iff)
  then obtain t where t: "sfs_freemapio_from UIO_WRITE (fmblocks s) 0 s = Ok () t" "healthy t" "t = s\<lparr>sfs_device := sfs_device t\<rparr>"
    "lh_blocks (sfs_device t) = lh_blocks (sfs_device s)"
    "fmdisk t 0 (fmblocks s) = take (fmblocks s * 512) (drop (0 * 512) (bm_v (sfs_freemap s)))"
    "\<forall>b. unat b < 2 + 0 \<or> 2 + 0 + fmblocks s \<le> unat b \<longrightarrow> blk t b = blk s b"
    using freemapio_write [OF h, of 0 "fmblocks s"] len by (metis add_0 order_refl)
  let ?s = "s\<lparr>sfs_device := sfs_device t, sfs_freemapdirty := False\<rparr>"
  have e: "t\<lparr>sfs_freemapdirty := False\<rparr> = ?s" using t(3) by (metis sfs_fs.update_convs(3,6) sfs_fs.surjective)
  have bl: "blk ?s = blk t" by (simp add: blk_def fun_eq_iff)
  show ?thesis
  proof (rule that [of ?s "sfs_device t"])
    show "sfs_sync_freemap s = Ok () ?s" using t(1) True e
      by (simp add: sfs_sync_freemap_def sfs_freemapio_def fmblocks_def)
    show "healthy ?s" using t(2) h by (simp add: healthy_def fs_dev_ok_def)
    show "fmdisk ?s 0 (fmblocks s) = bm_v (sfs_freemap s)"
      using t(5) len fmdisk_cong [of 0 "fmblocks s" ?s t] bl by simp
  qed (use t(4,6) bl in simp_all)
next
  case False
  then have e: "s\<lparr>sfs_device := sfs_device s, sfs_freemapdirty := False\<rparr> = s" by simp
  show ?thesis
    by (rule that [of s "sfs_device s"]) (use False e m(2) fs_okD(1) [OF ok] in \<open>simp_all add: sfs_sync_freemap_def meta_synced_def\<close>)
qed

lemma sync_superblock_ok:
  assumes h: "healthy s" "0 < lh_blocks (sfs_device s)" and sb: "sb_ok (sfs_sb s)" "sb_volname (sfs_sb s) ! 31 = 0"
    and m: "\<not> sfs_superdirty s \<longrightarrow> load_sb (blk s 0) = sfs_sb s"
  obtains d t where "sfs_sync_superblock s = Ok () t" "t = s\<lparr>sfs_device := d, sfs_superdirty := False\<rparr>"
    "healthy t" "lh_blocks d = lh_blocks (sfs_device s)" "load_sb (blk t 0) = sfs_sb s" "\<forall>b. b \<noteq> 0 \<longrightarrow> blk t b = blk s b"
proof (cases "sfs_superdirty s")
  case True
  let ?t = "setblk 0 (enc_superblock (sfs_sb s)) s"
  let ?s = "s\<lparr>sfs_device := sfs_device ?t, sfs_superdirty := False\<rparr>"
  have w: "sfs_writeblock 0 (enc_superblock (sfs_sb s)) s = Ok () ?t" using writeblock_healthy [OF h] sb(1) by simp
  have bl: "blk ?s = blk ?t" unfolding blk_def [abs_def] by simp
  show ?thesis
  proof (rule that [of ?s "sfs_device ?t"])
    show "sfs_sync_superblock s = Ok () ?s" using w True by (simp add: sfs_sync_superblock_def SFS_SUPER_BLOCK_def setblk_def)
    show "healthy ?s" using setblk_fields(10) [OF _ h(1), of "enc_superblock (sfs_sb s)" 0] sb(1) h(1)
      by (simp add: healthy_def fs_dev_ok_def)
    show "load_sb (blk ?s 0) = sfs_sb s" unfolding bl using load_enc_sb [OF sb] by simp
  qed (use bl in simp_all)
next
  case False
  then have e: "s\<lparr>sfs_device := sfs_device s, sfs_superdirty := False\<rparr> = s" by simp
  show ?thesis
    by (rule that [of s "sfs_device s"]) (use False e m h(1) in \<open>simp_all add: sfs_sync_superblock_def\<close>)
qed

definition clean_vol :: "sfs_fs \<Rightarrow> bool" where
  "clean_vol s \<longleftrightarrow> \<not> sfs_superdirty s \<and> \<not> sfs_freemapdirty s \<and> (\<forall>v \<in> set (sfs_vnodes s). \<not> sv_dirty v)"

definition sync_result :: "sfs_fs \<Rightarrow> sfs_fs \<Rightarrow> bool" where
  "sync_result s s' \<longleftrightarrow> vol_ok s' \<and> meta_ok s' \<and> clean_vol s' \<and> sfs_sb s' = sfs_sb s \<and> sfs_freemap s' = sfs_freemap s \<and>
     sfs_vnodes s' = map clean (sfs_vnodes s) \<and> biglock s' = biglock s \<and> curas s' = curas s \<and>
     load_sb (blk s' 0) = sfs_sb s \<and> fmdisk s' 0 (fmblocks s) = bm_v (sfs_freemap s) \<and>
     (\<forall>v \<in> set (sfs_vnodes s). coherent s v \<longrightarrow> dec_dinode (blk s' (sv_ino v)) = sv_i v) \<and>
     (\<forall>v \<in> set (sfs_vnodes s). fmap s' (sv_i v) = fmap s (sv_i v) \<and> fbyte s' (sv_i v) = fbyte s (sv_i v)) \<and>
     (\<forall>b. \<not> reserved s b \<and> b \<notin> sv_ino ` set (sfs_vnodes s) \<longrightarrow> blk s' b = blk s b)"

lemma slot_clean: "slot s (clean v) k = slot s v k"
  by (cases k rule: slot_cases) simp_all

lemma meta_small: "meta_ok s \<Longrightarrow> 2 + fmblocks s < 2 ^ 32"
  using unat_u32_less [of "sb_nblocks (sfs_sb s)"] unfolding meta_ok_def by linarith

lemma reserved_sector: "meta_ok s \<Longrightarrow> i < fmblocks s \<Longrightarrow> reserved s (2 + word_of_nat i) \<and> 2 + word_of_nat i \<noteq> (0 :: u32)"
  using unat_sector [of i] meta_small [of s] by (auto simp: reserved_def u32_eq_iff)

lemma reserved_not_ino:
  assumes "meta_ok s" "\<forall>v \<in> set (sfs_vnodes s). sv_ino v \<noteq> 0" "reserved s b"
  shows "b \<notin> sv_ino ` set (sfs_vnodes s)"
proof
  assume "b \<in> sv_ino ` set (sfs_vnodes s)"
  then obtain v where v: "v \<in> set (sfs_vnodes s)" "slot s v 0 = b" by auto
  then have "slot s v 0 \<noteq> 0" using assms(2) by auto
  then show False using assms(1,3) v unfolding meta_ok_def by metis
qed

text \<open>Writing the vnodes back keeps the administrative data in order.\<close>

lemma sync_vnodes_meta:
  assumes t: "synced (sfs_vnodes s) s t" "sfs_vnodes t = map clean (sfs_vnodes s)"
    and m: "meta_ok s" "meta_synced s" and nz: "\<forall>v \<in> set (sfs_vnodes s). sv_ino v \<noteq> 0"
  shows "meta_ok t" "meta_synced t" "fmblocks t = fmblocks s" "reserved t = reserved s"
proof -
  have tf: "sfs_sb t = sfs_sb s" "sfs_freemap t = sfs_freemap s" "sfs_superdirty t = sfs_superdirty s" "sfs_freemapdirty t = sfs_freemapdirty s"
    using t(1) by (simp_all add: synced_def)
  have "fmap t (sv_i w) = fmap s (sv_i w)" if "w \<in> set (sfs_vnodes s)" for w
    using t(1) that by (simp add: synced_def)
  then have sl: "slot t v k = slot s v k" if "v \<in> set (sfs_vnodes s)" for v k
    using that by (cases k rule: slot_cases) simp_all
  show f: "fmblocks t = fmblocks s" and r: "reserved t = reserved s" by (simp_all add: fmblocks_def reserved_def fun_eq_iff tf)
  show "meta_ok t" using m(1) sl unfolding meta_ok_def tf(1,2) f r t(2) by (simp add: slot_clean)
  have b: "blk t b = blk s b" if "reserved s b" for b
    using t(1) reserved_not_ino [OF m(1) nz that] unfolding synced_def by blast
  have "fmdisk t 0 (fmblocks s) = fmdisk s 0 (fmblocks s)"
    by (rule fmdisk_cong, rule b) (use reserved_sector [OF m(1)] in simp)
  moreover have "reserved s 0" by (simp add: reserved_def)
  ultimately show "meta_synced t" using m(2) b [of 0] by (simp add: meta_synced_def tf f)
qed

text \<open>Writing the free map and the superblock changes reserved blocks only.\<close>

lemma sync_meta_ok:
  assumes ok: "fs_ok t" and m: "meta_ok t" "meta_synced t"
  obtains u w e where "sfs_sync_freemap t = Ok () u" "sfs_sync_superblock u = Ok () w"
    "w = t\<lparr>sfs_device := e, sfs_freemapdirty := False, sfs_superdirty := False\<rparr>" "fs_ok w"
    "load_sb (blk w 0) = sfs_sb t" "fmdisk w 0 (fmblocks t) = bm_v (sfs_freemap t)"
    "\<forall>b. \<not> reserved t b \<longrightarrow> blk w b = blk t b"
proof -
  from sync_freemap_ok [OF ok m] obtain d u where
    u: "sfs_sync_freemap t = Ok () u" "u = t\<lparr>sfs_device := d, sfs_freemapdirty := False\<rparr>" "healthy u"
      "lh_blocks d = lh_blocks (sfs_device t)" "fmdisk u 0 (fmblocks t) = bm_v (sfs_freemap t)"
      "\<forall>b. unat b < 2 \<or> 2 + fmblocks t \<le> unat b \<longrightarrow> blk u b = blk t b" .
  have "0 < lh_blocks (sfs_device u)"
    using m(1) fs_okD(3) [OF ok] u(2,4) by (auto simp: meta_ok_def u32_order)
  moreover have "\<not> sfs_superdirty u \<longrightarrow> load_sb (blk u 0) = sfs_sb u" "sb_ok (sfs_sb u)" "sb_volname (sfs_sb u) ! 31 = 0"
    using m u(2,6) by (simp_all add: meta_synced_def meta_ok_def)
  ultimately obtain e w where
    w: "sfs_sync_superblock u = Ok () w" "w = u\<lparr>sfs_device := e, sfs_superdirty := False\<rparr>" "healthy w"
      "lh_blocks e = lh_blocks (sfs_device u)" "load_sb (blk w 0) = sfs_sb u" "\<forall>b. b \<noteq> 0 \<longrightarrow> blk w b = blk u b"
    using sync_superblock_ok [OF u(3)] by metis
  have wt: "w = t\<lparr>sfs_device := e, sfs_freemapdirty := False, sfs_superdirty := False\<rparr>" using w(2) u(2) by simp
  have nres: "blk w b = blk t b" if "\<not> reserved t b" for b
    using that w(6) u(6) by (auto simp: reserved_def)
  have "slot w v k = slot t v k" if "v \<in> set (sfs_vnodes t)" for v k
    using reserved_change(2) [OF ok m(1) nres that] by blast
  then have okw: "fs_ok w" by (intro fs_ok_cong [OF ok]) (use w(3,4) u(2,4) wt in \<open>simp_all add: used_def\<close>)
  have "fmdisk w 0 (fmblocks t) = fmdisk u 0 (fmblocks t)"
    by (rule fmdisk_cong) (use reserved_sector [OF m(1)] w(6) in simp)
  then show ?thesis using that [OF u(1) w(1) wt okw] w(5) u(2,5) nres by simp
qed

lemma sync_ok:
  assumes ok: "vol_ok s" and m: "meta_ok s" "meta_synced s" and nz: "\<forall>v \<in> set (sfs_vnodes s). sv_ino v \<noteq> 0"
  obtains s' where "sfs_sync s = Ok () s'" "sync_result s s'"
proof -
  let ?s = "vfs_biglock_acquire s" and ?vs = "sfs_vnodes s"
  have ok0: "fs_ok ?s" by (rule vol_ok_acquire [OF ok])
  have m0: "meta_ok ?s" "meta_synced ?s" "\<forall>v \<in> set (sfs_vnodes ?s). sv_ino v \<noteq> 0" "reserved ?s = reserved s" "fmblocks ?s = fmblocks s"
    using m nz by (simp_all add: meta_ok_def meta_synced_def fmdisk_def reserved_def fmblocks_def fun_eq_iff vfs_biglock_acquire_def)
  obtain t where t: "sfs_sync_vnodes ?s = Ok () t" "sfs_vnodes t = map clean ?vs" "synced (sfs_vnodes ?s) ?s t"
    using sync_vnodes_from_ok [OF ok0 _ m0(3), of 0] by (auto simp: sfs_sync_vnodes_def)
  have okt: "fs_ok t" and tf: "sfs_sb t = sfs_sb s" "biglock t = Suc (biglock s)" "curas t = curas s" "sfs_freemap t = sfs_freemap s"
    using t(3) by (auto simp: synced_def)
  have t2: "sfs_vnodes t = map clean (sfs_vnodes ?s)" using t(2) by simp
  note mt = sync_vnodes_meta [OF t(3) t2 m0(1-3)]
  from sync_meta_ok [OF okt mt(1,2)] obtain u w e where
    w: "sfs_sync_freemap t = Ok () u" "sfs_sync_superblock u = Ok () w"
      "w = t\<lparr>sfs_device := e, sfs_freemapdirty := False, sfs_superdirty := False\<rparr>" "fs_ok w"
      "load_sb (blk w 0) = sfs_sb t" "fmdisk w 0 (fmblocks t) = bm_v (sfs_freemap t)"
      "\<forall>b. \<not> reserved t b \<longrightarrow> blk w b = blk t b" .
  let ?w = "w\<lparr>biglock := biglock s\<rparr>"
  have run: "sfs_sync s = Ok () ?w" using t(1) w(1-3) tf by (simp add: sfs_sync_def unlocked_simps)
  have f: "fmap w (sv_i v) = fmap s (sv_i v)" "fbyte w (sv_i v) = fbyte s (sv_i v)" "slot w (clean v) k = slot s v k"
    if "v \<in> set ?vs" for v k
  proof -
    have cv: "clean v \<in> set (sfs_vnodes t)" using t(2) that by simp
    have "\<And>b. \<not> reserved t b \<Longrightarrow> blk w b = blk t b" using w(7) by blast
    from reserved_change [OF okt mt(1) this cv] show "fmap w (sv_i v) = fmap s (sv_i v)" "fbyte w (sv_i v) = fbyte s (sv_i v)"
      using t(3) that by (simp_all add: synced_def)
    then show "slot w (clean v) k = slot s v k" by (cases k rule: slot_cases) simp_all
  qed
  have di: "dec_dinode (blk w (sv_ino v)) = sv_i v" if "v \<in> set ?vs" "coherent s v" for v
  proof -
    have "\<not> reserved t (sv_ino v)" using reserved_not_ino [OF m(1) nz, of "sv_ino v"] that(1) mt(4) m0(4) by auto
    then show ?thesis using w(7) t(3) that fs_ok_dinode [OF ok0, of v] by (auto simp: synced_def coherent_def dec_enc_dinode)
  qed
  have "blk w b = blk s b" if "\<not> reserved s b" "b \<notin> sv_ino ` set ?vs" for b
    using w(7) t(3) that mt(4) m0(4) by (simp add: synced_def)
  moreover have "meta_ok ?w"
    using m(1) f(3) t(2) tf w(3) unfolding meta_ok_def reserved_def fmblocks_def by simp
  moreover have "clean_vol ?w" using w(3) t(2) by (auto simp: clean_vol_def)
  ultimately have "sync_result s ?w"
    unfolding sync_result_def using vol_ok_release [OF w(4)] w(3,5,6) t(2) tf mt(3) m0(5) di f(1,2)
    by (simp add: fmdisk_def)
  then show ?thesis using that run by blast
qed

subsection \<open>Mounting\<close>

text \<open>What mounting makes of a disk: the superblock and the free map are the ones the disk holds.\<close>

lemma domount_ok:
  assumes h: "healthy (vfs_biglock_acquire g)" and sb: "load_sb (blk g 0) = sb" "sb_magic sb = SFS_MAGIC"
    and n: "unat (sb_nblocks sb) + 4096 + 8 \<le> 2 ^ 32"
      "2 + unat (SFS_FREEMAPBLOCKS (sb_nblocks sb)) \<le> unat (lh_blocks (sfs_device g))"
  obtains s where "sfs_domount True True True True 512 g = Ok () s" "sfs_sb s = sb" "blk s = blk g"
    "bm_nbits (sfs_freemap s) = SFS_FREEMAPBITS (sb_nblocks sb)"
    "bm_v (sfs_freemap s) = fmdisk g 0 (unat (SFS_FREEMAPBLOCKS (sb_nblocks sb)))"
    "sfs_vnodes s = []" "clean_vol s" "biglock s = biglock g" "curas s = curas g" "healthy (vfs_biglock_acquire s)"
    "lh_blocks (sfs_device s) = lh_blocks (sfs_device g)"
proof -
  let ?n = "unat (SFS_FREEMAPBLOCKS (sb_nblocks sb))"
  let ?a = "(vfs_biglock_acquire g)\<lparr>sfs_superdirty := False, sfs_vnodes := [], sfs_freemapdirty := False\<rparr>"
  have ha: "healthy ?a" using h by (simp add: healthy_def fs_dev_ok_def)
  have ba: "blk ?a = blk g" by (simp add: blk_def fun_eq_iff vfs_biglock_acquire_def)
  have da: "sfs_device ?a = sfs_device g" by (simp add: vfs_biglock_acquire_def)
  have "0 < lh_blocks (sfs_device g)" using n(2) by (simp add: u32_less_iff)
  then have rd: "sfs_readblock 0 ?a = Ok (blk g 0) (touch (blk g 0) ?a)" using readblock_healthy [OF ha, of 0] ba da by simp
  obtain fm where fm: "bitmap_create True True (SFS_FREEMAPBITS (sb_nblocks sb)) = Ok (Some fm) ()" "bm_ok fm"
    "bm_nbits fm = SFS_FREEMAPBITS (sb_nblocks sb)"
    using bitmap_create_ok [OF freemap_bits(2) [OF n(1)]] by auto
  have len: "length (bm_v fm) = ?n * 512"
    using fm(2,3) freemap_bits(1) [OF n(1)] by (simp add: bm_ok_def)
  let ?b = "(touch (blk g 0) ?a)\<lparr>sfs_sb := sb, sfs_freemap := fm\<rparr>"
  have hb: "healthy ?b" using touch_fields(10) [OF _ ha, of "blk g 0"] length_blk [OF ha] ba
    by (simp add: healthy_def fs_dev_ok_def)
  have bb: "blk ?b = blk g" using ba by (simp add: blk_def fun_eq_iff touch_def)
  have lb: "lh_blocks (sfs_device ?b) = lh_blocks (sfs_device g)" using da by (simp add: touch_def)
  from freemapio_read [OF hb, of 0 ?n] obtain t where
    t: "sfs_freemapio_from UIO_READ ?n 0 ?b = Ok () t" "healthy t" "blk t = blk ?b"
      "lh_blocks (sfs_device t) = lh_blocks (sfs_device ?b)"
      "t = ?b\<lparr>sfs_device := sfs_device t, sfs_freemap := fm\<lparr>bm_v := fmdisk ?b 0 ?n\<rparr>\<rparr>"
    using len n(2) lb by (auto simp: Let_def)
  have fd: "fmdisk ?b 0 ?n = fmdisk g 0 ?n" by (rule fmdisk_cong) (simp add: bb)
  have io: "sfs_freemapio UIO_READ ?b = Ok () t" using t(1) by (simp add: sfs_freemapio_def)
  have tf: "sfs_sb t = sb" "sfs_freemap t = fm\<lparr>bm_v := fmdisk ?b 0 ?n\<rparr>" "biglock t = Suc (biglock g)" "curas t = curas g"
    "sfs_vnodes t = []" "sfs_superdirty t = False" "sfs_freemapdirty t = False"
    by (subst t(5), simp add: vfs_biglock_acquire_def touch_def)+
  let ?d = "dec_superblock (blk g 0)"
  have mg: "sb_magic ?d = SFS_MAGIC" "?d\<lparr>sb_volname := (sb_volname ?d)[SFS_VOLNAME_SIZE - 1 := 0]\<rparr> = sb"
    using sb by (auto simp: load_sb_def SFS_VOLNAME_SIZE_def)
  have run: "sfs_domount True True True True 512 g = unlocked (Ok () t)"
    unfolding sfs_domount_def sfs_fs_create_def domount_freemap_def Let_def
    using rd mg fm(1) io by (simp add: SFS_BLOCKSIZE_def SFS_SUPER_BLOCK_def)
  show ?thesis
  proof (rule that [of "t\<lparr>biglock := biglock g\<rparr>"])
    show "sfs_domount True True True True 512 g = Ok () (t\<lparr>biglock := biglock g\<rparr>)"
      using run tf(3) by (simp add: unlocked_simps)
    show "healthy (vfs_biglock_acquire (t\<lparr>biglock := biglock g\<rparr>))"
      using t(2) tf(3) by (simp add: healthy_def fs_dev_ok_def vfs_biglock_acquire_def)
    show "blk (t\<lparr>biglock := biglock g\<rparr>) = blk g" using t(3) bb by simp
  qed (use tf fd fm(3) t(4) lb in \<open>simp_all add: clean_vol_def\<close>)
qed

lemma domount_bad_magic:
  assumes "healthy (vfs_biglock_acquire g)" "0 < lh_blocks (sfs_device g)" "sb_magic (dec_superblock (blk g 0)) \<noteq> SFS_MAGIC"
  shows "\<exists>g'. sfs_domount True True b1 b2 512 g = Err EINVAL g' \<and> blk g' = blk g \<and> biglock g' = biglock g"
proof -
  let ?a = "(vfs_biglock_acquire g)\<lparr>sfs_superdirty := False, sfs_vnodes := [], sfs_freemapdirty := False\<rparr>"
  have ha: "healthy ?a" using assms(1) by (simp add: healthy_def fs_dev_ok_def)
  have ba: "blk ?a = blk g" "sfs_device ?a = sfs_device g" by (simp_all add: blk_def fun_eq_iff vfs_biglock_acquire_def)
  have rd: "sfs_readblock 0 ?a = Ok (blk g 0) (touch (blk g 0) ?a)" using readblock_healthy [OF ha, of 0] ba assms(2) by simp
  let ?t = "(touch (blk g 0) ?a)\<lparr>sfs_sb := dec_superblock (blk g 0)\<rparr>"
  have "sfs_domount True True b1 b2 512 g = unlocked (Err EINVAL ?t)"
    unfolding sfs_domount_def sfs_fs_create_def Let_def domount_fail_def sfs_fs_destroy_def
    using rd assms(3) by (simp add: SFS_BLOCKSIZE_def SFS_SUPER_BLOCK_def)
  moreover have "biglock ?t = Suc (biglock g)" by simp
  ultimately have "sfs_domount True True b1 b2 512 g = Err EINVAL (?t\<lparr>biglock := biglock g\<rparr>)"
    by (simp only: unlocked_simps)
  moreover have "blk (?t\<lparr>biglock := biglock g\<rparr>) = blk g" using ba by (simp add: blk_def fun_eq_iff touch_def)
  moreover have "biglock (?t\<lparr>biglock := biglock g\<rparr>) = biglock g" by simp
  ultimately show ?thesis by blast
qed

lemma unmount_ok:
  "sfs_vnodes s = [] \<Longrightarrow> clean_vol s \<Longrightarrow> sfs_unmount s = Ok () s"
  "sfs_vnodes s \<noteq> [] \<Longrightarrow> sfs_unmount s = Err EBUSY s"
  by (simp_all add: sfs_unmount_def sfs_fs_destroy_def unlocked_simps clean_vol_def Let_def vfs_biglock_acquire_def)

definition remounted :: "sfs_fs \<Rightarrow> sfs_fs \<Rightarrow> bool" where
  "remounted s s3 \<longleftrightarrow> sfs_sb s3 = sfs_sb s \<and> sfs_freemap s3 = sfs_freemap s \<and> sfs_vnodes s3 = [] \<and> clean_vol s3 \<and>
     vol_ok s3 \<and> meta_ok s3 \<and> meta_synced s3 \<and> (\<forall>b. \<not> reserved s b \<longrightarrow> blk s3 b = blk s b)"

lemma mount_synced:
  assumes m: "meta_ok s" and r: "sync_result s s1" and e: "sfs_vnodes s = []"
  obtains s3 where "sfs_domount True True True True 512 (g\<lparr>sfs_device := sfs_device s1\<rparr>) = Ok () s3" "remounted s s3"
    "biglock s3 = biglock g"
proof -
  have v1: "sfs_vnodes s1 = []" "clean_vol s1" "vol_ok s1" "sfs_sb s1 = sfs_sb s" "sfs_freemap s1 = sfs_freemap s"
    "load_sb (blk s1 0) = sfs_sb s" "fmdisk s1 0 (fmblocks s) = bm_v (sfs_freemap s)" "\<forall>b. \<not> reserved s b \<longrightarrow> blk s1 b = blk s b"
    using r e by (simp_all add: sync_result_def)
  let ?g = "g\<lparr>sfs_device := sfs_device s1\<rparr>"
  have ok1: "fs_ok (s1\<lparr>biglock := 1\<rparr>)" using v1(3) by (simp add: vol_ok_def)
  have h: "healthy (vfs_biglock_acquire ?g)"
    using fs_okD(1) [OF ok1] by (simp add: healthy_def fs_dev_ok_def vfs_biglock_acquire_def)
  have bg: "blk ?g = blk s1" by (simp add: blk_def fun_eq_iff)
  have lb: "2 + unat (SFS_FREEMAPBLOCKS (sb_nblocks (sfs_sb s))) \<le> unat (lh_blocks (sfs_device ?g))"
    using m fs_okD(3) [OF ok1] v1(4) by (simp add: meta_ok_def fmblocks_def u32_le_iff)
  from domount_ok [OF h, unfolded bg, OF v1(6) _ _ lb] m obtain s3 where
    s3: "sfs_domount True True True True 512 ?g = Ok () s3" "sfs_sb s3 = sfs_sb s" "blk s3 = blk s1"
      "bm_nbits (sfs_freemap s3) = SFS_FREEMAPBITS (sb_nblocks (sfs_sb s))"
      "bm_v (sfs_freemap s3) = fmdisk ?g 0 (unat (SFS_FREEMAPBLOCKS (sb_nblocks (sfs_sb s))))"
      "sfs_vnodes s3 = []" "clean_vol s3" "biglock s3 = biglock ?g" "healthy (vfs_biglock_acquire s3)"
      "lh_blocks (sfs_device s3) = lh_blocks (sfs_device ?g)"
    unfolding meta_ok_def by metis
  have fd: "fmdisk t 0 (fmblocks s) = bm_v (sfs_freemap s)" if "blk t = blk s1" for t
    using v1(7) fmdisk_cong [of 0 "fmblocks s" t s1] that by simp
  have fm: "sfs_freemap s3 = sfs_freemap s"
    using s3(4,5) fd [OF bg] m by (simp add: meta_ok_def fmblocks_def)
  have ms: "meta_ok s3" "meta_synced s3"
    using m s3(2,3,6) fm v1(6) fd [OF s3(3)] by (simp_all add: meta_ok_def meta_synced_def fmblocks_def)
  have "fs_ok (s3\<lparr>biglock := 1\<rparr>)"
    using ok1 s3(2,6,9,10) fm v1(1,4,5) by (simp add: fs_ok_def used_def healthy_def fs_dev_ok_def vfs_biglock_acquire_def)
  then show ?thesis using that [OF s3(1)] s3 fm ms v1(8) by (simp add: vol_ok_def remounted_def)
qed

text \<open>
  On a volume in order \<^verbatim>\<open>sfs_sync\<close> succeeds and brings the disk up to date: the superblock
  and the free map on the disk are the ones in memory, every inode that was dirty or agreed with
  the disk is on the disk as it is in memory, nothing is dirty any more, and no file's contents or
  block map, no data block and no other part of the volume in memory changes.
\<close>

theorem sfs_sync_writes_back:
  assumes "vol_ok s" "meta_ok s" "meta_synced s" "\<forall>v \<in> set (sfs_vnodes s). sv_ino v \<noteq> 0"
  shows "\<exists>s'. sfs_sync s = Ok () s' \<and> sync_result s s'"
  using sync_ok [OF assms] by blast

text \<open>
  \<^bold>\<open>C29.\<close> A volume without open files survives being unmounted: syncing, unmounting and mounting the
  disk again, into memory with any earlier contents, all succeed, and the mounted volume has the
  same superblock and free map, is clean and in order, and every block outside the administrative
  area is as it was. Unmounting with open files reports \<^verbatim>\<open>EBUSY\<close> and changes nothing, and mounting a
  disk without the magic number reports \<^verbatim>\<open>EINVAL\<close> and leaves it alone.
\<close>

theorem sync_unmount_mount_roundtrip:
  assumes ok: "vol_ok s" and m: "meta_ok s" "meta_synced s"
  shows "(if sfs_vnodes s = [] then
      \<exists>s1 s2. sfs_sync s = Ok () s1 \<and> sfs_unmount s1 = Ok () s2 \<and>
        (\<forall>g. \<exists>s3. sfs_domount True True True True 512 (g\<lparr>sfs_device := sfs_device s2\<rparr>) = Ok () s3 \<and>
           remounted s s3 \<and> biglock s3 = biglock g)
    else sfs_unmount s = Err EBUSY s) \<and>
    (healthy (vfs_biglock_acquire g) \<and> 0 < lh_blocks (sfs_device g) \<and> sb_magic (dec_superblock (blk g 0)) \<noteq> SFS_MAGIC \<longrightarrow>
      (\<exists>g'. sfs_domount True True True True 512 g = Err EINVAL g' \<and> blk g' = blk g \<and> biglock g' = biglock g))"
proof (rule conjI)
  show "if sfs_vnodes s = [] then
      \<exists>s1 s2. sfs_sync s = Ok () s1 \<and> sfs_unmount s1 = Ok () s2 \<and>
        (\<forall>g. \<exists>s3. sfs_domount True True True True 512 (g\<lparr>sfs_device := sfs_device s2\<rparr>) = Ok () s3 \<and>
           remounted s s3 \<and> biglock s3 = biglock g)
    else sfs_unmount s = Err EBUSY s"
  proof (cases "sfs_vnodes s = []")
    case True
    then obtain s1 where s1: "sfs_sync s = Ok () s1" "sync_result s s1" using sync_ok [OF ok m] by auto
    have "sfs_unmount s1 = Ok () s1" by (rule unmount_ok(1)) (use s1(2) True in \<open>simp_all add: sync_result_def\<close>)
    then show ?thesis using True s1(1) mount_synced [OF m(1) s1(2) True] by (metis (full_types))
  next
    case False
    then show ?thesis using unmount_ok(2) by simp
  qed
qed (use domount_bad_magic in blast)


text \<open>A volume of ten blocks with one file, whose inode is block 3.\<close>

definition demo_sb :: sfs_superblock where
  "demo_sb = \<lparr>sb_magic = SFS_MAGIC, sb_nblocks = 10, sb_volname = replicate 32 0, sb_reserved = replicate 472 0\<rparr>"

definition demo_freemap :: bitmap where
  "demo_freemap = \<lparr>bm_nbits = 4096, bm_v = [15, 252] @ replicate 510 255\<rparr>"

definition demo_mvol :: "sfs_vnode list \<Rightarrow> sfs_fs" where
  "demo_mvol vs = (demo_fs [])\<lparr>sfs_sb := demo_sb, sfs_superdirty := True,
     sfs_device := (sfs_device (demo_fs []))\<lparr>lh_blocks := 10\<rparr>, sfs_freemap := demo_freemap, sfs_freemapdirty := True, sfs_vnodes := vs\<rparr>"

definition demo_file :: sfs_vnode where
  "demo_file = \<lparr>vn_refcount = 1, sv_i = empty_inode, sv_ino = 3, sv_dirty = True\<rparr>"

lemma demo_freemap_used: "bm_used demo_freemap = {0, 1, 2, 3} \<union> {10..<4096}"
proof -
  have eight: "n = 0 \<or> n = 1 \<or> n = 2 \<or> n = 3 \<or> n = 4 \<or> n = 5 \<or> n = 6 \<or> n = 7" if "n < 8" for n :: nat using that by linarith
  have b: "bit (15 :: u8) n \<longleftrightarrow> n < 4" "bit (252 :: u8) n \<longleftrightarrow> 2 \<le> n" "bit (255 :: u8) n" if "n < 8" for n
    using eight [OF that] by (elim disjE; simp add: bit_numeral_rec)+
  have "bm_bit demo_freemap i \<longleftrightarrow> i < 4 \<or> 10 \<le> i" if "i < 4096" for i
  proof -
    have m: "i mod 8 < 8" "i = i div 8 * 8 + i mod 8" by simp_all
    consider "i div 8 = 0" | "i div 8 = 1" | "2 \<le> i div 8" by linarith
    then show ?thesis
    proof cases
      case 3
      then have "bm_v demo_freemap ! (i div 8) = 255" using that by (simp add: demo_freemap_def nth_Cons')
      moreover have "10 \<le> i" using 3 by linarith
      ultimately show ?thesis using b(3) [OF m(1)] by (simp add: bm_bit_def)
    next
      case 2
      then have "2 \<le> i mod 8 \<longleftrightarrow> 10 \<le> i" "\<not> i < 4" using m by linarith+
      then show ?thesis using 2 b(2) [OF m(1)] by (simp add: bm_bit_def demo_freemap_def)
    qed (use m b(1) [OF m(1)] in \<open>simp add: bm_bit_def demo_freemap_def\<close>)
  qed
  moreover have "bm_nbits demo_freemap = 4096" by (simp add: demo_freemap_def)
  ultimately show ?thesis by (auto simp: bm_used_def)
qed

lemma demo_file_slot: "slot s demo_file k = (if k = 0 then 3 else 0)"
  by (cases k rule: slot_cases) (simp_all add: demo_file_def fmap_empty, simp add: empty_inode_def)

lemma demo_mvol_ok:
  assumes "vs = [] \<or> vs = [demo_file]"
  shows "vol_ok (demo_mvol vs)" "meta_ok (demo_mvol vs)" "meta_synced (demo_mvol vs)"
proof -
  have h: "healthy ((demo_mvol vs)\<lparr>biglock := 1\<rparr>)"
    using demo_fs_ok(1) [of "[]"] by (simp add: demo_mvol_def healthy_def fs_dev_ok_def demo_fs_ok(3) dev_ok_def)
  have bo: "bm_ok demo_freemap" by (simp add: demo_freemap_def bm_ok_def not_less [symmetric])
  have us: "used ((demo_mvol vs)\<lparr>biglock := 1\<rparr>) = {0, 1, 2, 3} \<union> {10..<4096}"
    using demo_freemap_used by (simp add: used_def demo_mvol_def)
  have di: "dinode_ok (sv_i demo_file)" by (simp add: demo_file_def empty_inode_def dinode_ok_def)
  have nb: "sb_nblocks (sfs_sb (demo_mvol vs)) = 10" by (simp add: demo_mvol_def demo_sb_def)
  show "vol_ok (demo_mvol vs)"
    unfolding vol_ok_def fs_ok_def us using h bo di nb assms
    by (auto simp: demo_mvol_def demo_fs_def demo_file_slot demo_freemap_def split: if_splits)
  have "fmblocks (demo_mvol vs) = 1" by (simp add: fmblocks_def nb SFS_FREEMAPBLOCKS_def SFS_FREEMAPBITS_def SFS_BITSPERBLOCK_def)
  then show "meta_ok (demo_mvol vs)" using assms
    by (auto simp: meta_ok_def nb reserved_def demo_mvol_def demo_sb_def sb_ok_def demo_freemap_def demo_file_slot
        SFS_FREEMAPBITS_def SFS_BITSPERBLOCK_def split: if_splits)
  show "meta_synced (demo_mvol vs)" by (simp add: meta_synced_def demo_mvol_def)
qed

theorem sfs_sync_writes_back_witness:
  "\<exists>s'. sfs_sync (demo_mvol [demo_file]) = Ok () s' \<and> sync_result (demo_mvol [demo_file]) s'"
  by (rule sfs_sync_writes_back [OF demo_mvol_ok]) (simp_all add: demo_mvol_def demo_file_def)

theorem sync_unmount_mount_roundtrip_witness:
  "(\<exists>s1 s2. sfs_sync (demo_mvol []) = Ok () s1 \<and> sfs_unmount s1 = Ok () s2 \<and>
     (\<exists>s3. sfs_domount True True True True 512 ((demo_fs [])\<lparr>sfs_device := sfs_device s2\<rparr>) = Ok () s3 \<and>
        remounted (demo_mvol []) s3)) \<and>
   sfs_unmount (demo_mvol [demo_file]) = Err EBUSY (demo_mvol [demo_file])"
proof -
  have "sfs_vnodes (demo_mvol []) = []" "sfs_vnodes (demo_mvol [demo_file]) \<noteq> []" by (simp_all add: demo_mvol_def)
  then show ?thesis
    using sync_unmount_mount_roundtrip [OF demo_mvol_ok, of "[]"] sync_unmount_mount_roundtrip [OF demo_mvol_ok, of "[demo_file]"]
    by (simp only: if_True if_False simp_thms) meson
qed

end
