(* ===== verification/Physmem.thy ===== *)
theory Physmem
  imports Prelude
begin

unbundle bit_operations_syntax

text \<open>
  Physical memory: the boot-time allocator of \<^verbatim>\<open>kern/arch/mips/vm/ram.c\<close> and the kernel page
  allocation \<^verbatim>\<open>kern/arch/mips/vm/dumbvm.c\<close> builds on it.

  The state has the two marks of \<^verbatim>\<open>ram.c\<close> and what \<^verbatim>\<open>dumbvm_can_sleep\<close> looks at: whether the CPU
  structure exists yet, how many spinlocks the CPU holds and whether it is in an interrupt
  handler. The spinlock around \<^verbatim>\<open>ram_stealmem\<close> is held inside a single step.

  The interface \<open>page_source\<close> is what the users of \<^verbatim>\<open>alloc_kpages\<close> rely on: a region is page-aligned
  and disjoint from everything handed out before. The theory shows that the allocator provides it
  for requests of fewer than \<open>2 ^ 19\<close> pages (two gigabytes), and that for the biggest ones the sum
  wraps and the allocator hands out memory it has handed out before.
\<close>

definition PAGE_SIZE :: u32 where "PAGE_SIZE = 4096"
definition PAGE_FRAME :: u32 where "PAGE_FRAME = 0xfffff000"
definition MIPS_KSEG0 :: u32 where "MIPS_KSEG0 = 0x80000000"

definition PADDR_TO_KVADDR :: "u32 \<Rightarrow> u32" where
  "PADDR_TO_KVADDR paddr = paddr + MIPS_KSEG0"

record kmem =
  firstpaddr :: u32
  lastpaddr :: u32
  curcpu_exists :: bool
  c_spinlocks :: nat
  t_in_interrupt :: bool

definition ram_bootstrap :: "u32 \<Rightarrow> u32 \<Rightarrow> kmem \<Rightarrow> kmem" where
  "ram_bootstrap mainbus_ramsize firstfree m =
     (let ramsize = mainbus_ramsize;
          ramsize = (if ramsize > 512 * 1024 * 1024 then 512 * 1024 * 1024 else ramsize)
      in m\<lparr>lastpaddr := ramsize, firstpaddr := firstfree - MIPS_KSEG0\<rparr>)"

definition ram_stealmem :: "u32 \<Rightarrow> kmem \<Rightarrow> u32 \<times> kmem" where
  "ram_stealmem npages m =
     (let size = npages * PAGE_SIZE in
      if firstpaddr m + size > lastpaddr m then (0, m)
      else (firstpaddr m, m\<lparr>firstpaddr := firstpaddr m + size\<rparr>))"

definition ram_getsize :: "kmem \<Rightarrow> u32" where
  "ram_getsize m = lastpaddr m"

definition ram_getfirstfree :: "kmem \<Rightarrow> u32 \<times> kmem" where
  "ram_getfirstfree m = (firstpaddr m, m\<lparr>firstpaddr := 0, lastpaddr := 0\<rparr>)"

definition dumbvm_can_sleep :: "kmem \<Rightarrow> bool" where
  "dumbvm_can_sleep m \<longleftrightarrow> (curcpu_exists m \<longrightarrow> c_spinlocks m = 0 \<and> \<not> t_in_interrupt m)"

definition getppages :: "u32 \<Rightarrow> kmem \<Rightarrow> u32 \<times> kmem" where
  "getppages npages m = ram_stealmem npages m"

definition alloc_kpages :: "u32 \<Rightarrow> kmem \<Rightarrow> (u32, kmem) res" where
  "alloc_kpages npages m =
     kassert (dumbvm_can_sleep m)
       (case getppages npages m of (pa, m) \<Rightarrow>
          if pa = 0 then Ok 0 m else Ok (PADDR_TO_KVADDR pa) m)"

definition free_kpages :: "u32 \<Rightarrow> kmem \<Rightarrow> kmem" where
  "free_kpages addr m = m"

text \<open>The page of an address and the offset in it.\<close>

lemma page_frame: "PAGE_FRAME = NOT (mask 12)"
  by (simp add: PAGE_FRAME_def mask_eq_exp_minus_1)

lemma unat_take12: "unat (take_bit 12 x :: u32) = unat x mod 4096"
  unfolding unsigned_take_bit_eq by (simp add: take_bit_eq_mod)

lemma pageaddr_unat: "unat (x AND PAGE_FRAME) = unat x - unat x mod 4096"
proof -
  have "x AND PAGE_FRAME = push_bit 12 (drop_bit 12 x)"
    unfolding page_frame by (rule bit_eqI) (auto simp: bit_simps)
  then have "x AND PAGE_FRAME = x - take_bit 12 x" using bits_ident [of 12 x] by (simp add: algebra_simps)
  moreover have "take_bit 12 x \<le> x" by (simp add: u32_le_iff unat_take12)
  ultimately show ?thesis by (simp add: unat_diff_small unat_take12)
qed

lemma blocktype_unat: "unat (x AND NOT PAGE_FRAME) = unat x mod 4096"
  unfolding page_frame by (simp add: take_bit_eq_mask [symmetric] unat_take12)

subsection \<open>The page source interface\<close>

text \<open>The numbers of the pages a region covers.\<close>

definition pages :: "u32 \<Rightarrow> nat \<Rightarrow> nat set" where
  "pages va n = {unat va div 4096..<unat va div 4096 + n}"

text \<open>One allocation after another.\<close>

fun alloc_all :: "(u32 \<Rightarrow> 's \<Rightarrow> (u32, 's) res) \<Rightarrow> u32 list \<Rightarrow> 's \<Rightarrow> ((u32 \<times> nat) list, 's) res" where
  "alloc_all alloc [] s = Ok [] s"
| "alloc_all alloc (n # ns) s =
     kbind (alloc n s) (\<lambda>va s. kbind (alloc_all alloc ns s) (\<lambda>rs s.
       Ok (if va = 0 then rs else (va, unat n) # rs) s))"

definition apart :: "u32 \<times> nat \<Rightarrow> u32 \<times> nat \<Rightarrow> bool" where
  "apart r q \<longleftrightarrow> pages (fst r) (snd r) \<inter> pages (fst q) (snd q) = {}"

locale page_source =
  fixes ok :: "'s \<Rightarrow> bool"
    and taken :: "'s \<Rightarrow> nat set"
    and alloc :: "u32 \<Rightarrow> 's \<Rightarrow> (u32, 's) res"
  assumes alloc_law: "ok s \<Longrightarrow> unat n < 2 ^ 19 \<Longrightarrow>
    \<exists>va s'. alloc n s = Ok va s' \<and> ok s' \<and>
      (va = 0 \<and> s' = s \<or>
       va \<noteq> 0 \<and> unat va mod 4096 = 0 \<and> unat va + 4096 * unat n \<le> 2 ^ 32 \<and>
       pages va (unat n) \<inter> taken s = {} \<and> taken s' = taken s \<union> pages va (unat n))"
begin

lemma alloc_all_disjoint:
  assumes "ok s" "\<forall>n \<in> set ns. unat n < 2 ^ 19"
  shows "\<exists>rs s'. alloc_all alloc ns s = Ok rs s' \<and> ok s' \<and> taken s \<subseteq> taken s' \<and> sorted_wrt apart rs \<and>
    (\<forall>r \<in> set rs. pages (fst r) (snd r) \<inter> taken s = {} \<and> pages (fst r) (snd r) \<subseteq> taken s' \<and> unat (fst r) mod 4096 = 0)"
  using assms
proof (induction ns arbitrary: s)
  case Nil
  then show ?case by simp
next
  case (Cons n ns)
  then obtain va t where t: "alloc n s = Ok va t" "ok t" and c: "va = 0 \<and> t = s \<or>
       va \<noteq> 0 \<and> unat va mod 4096 = 0 \<and> pages va (unat n) \<inter> taken s = {} \<and> taken t = taken s \<union> pages va (unat n)"
    using alloc_law [of s n] by auto
  then obtain rs u where u: "alloc_all alloc ns t = Ok rs u" "ok u" "taken t \<subseteq> taken u" "sorted_wrt apart rs"
    and r: "\<forall>r \<in> set rs. pages (fst r) (snd r) \<inter> taken t = {} \<and> pages (fst r) (snd r) \<subseteq> taken u \<and> unat (fst r) mod 4096 = 0"
    using Cons.IH [OF t(2)] Cons.prems(2) by (metis list.set_intros(2))
  show ?case
  proof (cases "va = 0")
    case True
    then have "t = s" using c by blast
    then show ?thesis using t u r True by auto
  next
    case False
    then have v: "unat va mod 4096 = 0" "pages va (unat n) \<inter> taken s = {}" "taken t = taken s \<union> pages va (unat n)" using c by auto
    have "apart (va, unat n) q" if "q \<in> set rs" for q using bspec [OF r that] v(3) unfolding apart_def fst_conv snd_conv by blast
    then have "sorted_wrt apart ((va, unat n) # rs)" using u(4) by simp
    moreover have "pages (fst q) (snd q) \<inter> taken s = {} \<and> pages (fst q) (snd q) \<subseteq> taken u \<and> unat (fst q) mod 4096 = 0"
      if "q \<in> set ((va, unat n) # rs)" for q
      using that r v u(3) by auto
    moreover have "taken s \<subseteq> taken u" using u(3) v(3) by blast
    ultimately show ?thesis using t(1) u(1,2) False by (intro exI [of _ "(va, unat n) # rs"] exI [of _ u]) simp
  qed
qed

end

text \<open>
  The memory below the mark is taken. The mark is page-aligned and not above the end of memory,
  which is at most 512 megabytes.
\<close>

definition vm_ok :: "kmem \<Rightarrow> bool" where
  "vm_ok m \<longleftrightarrow> dumbvm_can_sleep m \<and> 0 < firstpaddr m \<and> firstpaddr m \<le> lastpaddr m \<and>
     unat (firstpaddr m) mod 4096 = 0 \<and> unat (lastpaddr m) \<le> 2 ^ 29"

definition taken :: "kmem \<Rightarrow> nat set" where
  "taken m = {p. p < 2 ^ 19 + unat (firstpaddr m) div 4096}"

lemma stealmem_result:
  assumes "vm_ok m" "unat n < 2 ^ 19"
  shows "if unat (firstpaddr m) + 4096 * unat n > unat (lastpaddr m) then ram_stealmem n m = (0, m)
    else \<exists>f. ram_stealmem n m = (firstpaddr m, m\<lparr>firstpaddr := f\<rparr>) \<and> unat f = unat (firstpaddr m) + 4096 * unat n"
proof -
  have s: "unat (n * PAGE_SIZE) = 4096 * unat n"
    using assms(2) unat_mult_small [of n PAGE_SIZE] by (simp add: PAGE_SIZE_def)
  have "unat (firstpaddr m) \<le> 2 ^ 29" using assms(1) by (simp add: vm_ok_def u32_le_iff)
  then have "unat (firstpaddr m + n * PAGE_SIZE) = unat (firstpaddr m) + 4096 * unat n"
    using unat_add_small [of "firstpaddr m" "n * PAGE_SIZE"] s assms(2) by simp
  then show ?thesis by (auto simp: ram_stealmem_def Let_def u32_less_iff)
qed

lemma alloc_kpages_result:
  assumes ok: "vm_ok m" and n: "unat n < 2 ^ 19"
  shows "if unat (firstpaddr m) + 4096 * unat n > unat (lastpaddr m) then alloc_kpages n m = Ok 0 m
    else \<exists>va f. alloc_kpages n m = Ok va (m\<lparr>firstpaddr := f\<rparr>) \<and> unat va = 2 ^ 31 + unat (firstpaddr m) \<and>
      unat f = unat (firstpaddr m) + 4096 * unat n \<and> vm_ok (m\<lparr>firstpaddr := f\<rparr>)"
proof -
  have m: "dumbvm_can_sleep m" "0 < firstpaddr m" "unat (firstpaddr m) mod 4096 = 0" "unat (lastpaddr m) \<le> 2 ^ 29"
    "unat (firstpaddr m) \<le> unat (lastpaddr m)"
    using ok by (simp_all add: vm_ok_def u32_le_iff)
  show ?thesis
  proof (cases "unat (firstpaddr m) + 4096 * unat n > unat (lastpaddr m)")
    case True
    then show ?thesis using stealmem_result [OF assms] m(1) by (simp add: alloc_kpages_def getppages_def)
  next
    case False
    then obtain f where f: "ram_stealmem n m = (firstpaddr m, m\<lparr>firstpaddr := f\<rparr>)" "unat f = unat (firstpaddr m) + 4096 * unat n"
      using stealmem_result [OF assms] by auto
    have "unat (PADDR_TO_KVADDR (firstpaddr m)) = 2 ^ 31 + unat (firstpaddr m)"
      using unat_add_small [of "firstpaddr m" MIPS_KSEG0] m(4,5) by (simp add: PADDR_TO_KVADDR_def MIPS_KSEG0_def)
    moreover have "vm_ok (m\<lparr>firstpaddr := f\<rparr>)"
      using ok f(2) False m by (simp add: vm_ok_def dumbvm_can_sleep_def u32_order)
    ultimately show ?thesis using f m(1,2) False by (auto simp: alloc_kpages_def getppages_def)
  qed
qed

interpretation dvm: page_source vm_ok taken alloc_kpages
proof
  fix m n assume ok: "vm_ok m" and n: "unat (n :: u32) < 2 ^ 19"
  have fm: "unat (firstpaddr m) mod 4096 = 0" "unat (lastpaddr m) \<le> 2 ^ 29" using ok by (simp_all add: vm_ok_def)
  show "\<exists>va s'. alloc_kpages n m = Ok va s' \<and> vm_ok s' \<and>
      (va = 0 \<and> s' = m \<or>
       va \<noteq> 0 \<and> unat va mod 4096 = 0 \<and> unat va + 4096 * unat n \<le> 2 ^ 32 \<and>
       pages va (unat n) \<inter> taken m = {} \<and> taken s' = taken m \<union> pages va (unat n))"
  proof (cases "unat (firstpaddr m) + 4096 * unat n > unat (lastpaddr m)")
    case True
    then show ?thesis using alloc_kpages_result [OF ok n] ok by simp
  next
    case False
    then obtain va f where r: "alloc_kpages n m = Ok va (m\<lparr>firstpaddr := f\<rparr>)" "unat va = 2 ^ 31 + unat (firstpaddr m)"
      "unat f = unat (firstpaddr m) + 4096 * unat n" "vm_ok (m\<lparr>firstpaddr := f\<rparr>)"
      using alloc_kpages_result [OF ok n] by auto
    obtain q where q: "unat (firstpaddr m) = 4096 * q" using fm(1) by (metis mod_0_imp_dvd dvdE)
    have "unat va = 4096 * (2 ^ 19 + q)" using r(2) q by simp
    then have v: "unat va div 4096 = 2 ^ 19 + unat (firstpaddr m) div 4096" "unat va mod 4096 = 0" using q by simp_all
    have "unat f div 4096 = unat (firstpaddr m) div 4096 + unat n" using r(3) by simp
    then have "taken (m\<lparr>firstpaddr := f\<rparr>) = taken m \<union> pages va (unat n)" "pages va (unat n) \<inter> taken m = {}"
      by (auto simp: taken_def pages_def v(1))
    moreover have "va \<noteq> 0" using r(2) by auto
    moreover have "unat va + 4096 * unat n \<le> 2 ^ 32" using r(2) False fm(2) by simp
    ultimately show ?thesis using r(1,4) v(2) by (intro exI [of _ va] exI [of _ "m\<lparr>firstpaddr := f\<rparr>"]) simp
  qed
qed

text \<open>
  Kernel page allocation never hands out a page twice: for any sequence of requests of fewer
  than \<open>2 ^ 19\<close> pages each, every region returned is page-aligned, disjoint from all memory in use at the
  start and from every other region returned, and nothing panics.
\<close>

theorem alloc_kpages_disjoint:
  assumes "vm_ok m" "\<forall>n \<in> set ns. unat n < 2 ^ 19"
  shows "\<exists>rs m'. alloc_all alloc_kpages ns m = Ok rs m' \<and> vm_ok m' \<and> sorted_wrt apart rs \<and>
    (\<forall>r \<in> set rs. pages (fst r) (snd r) \<inter> taken m = {} \<and> unat (fst r) mod 4096 = 0)"
  using dvm.alloc_all_disjoint [OF assms] by blast

definition demo_kmem :: kmem where
  "demo_kmem = \<lparr>firstpaddr = 0x20000, lastpaddr = 0x100000, curcpu_exists = True, c_spinlocks = 0, t_in_interrupt = False\<rparr>"

lemma demo_kmem_ok: "vm_ok demo_kmem"
  by (simp add: demo_kmem_def vm_ok_def dumbvm_can_sleep_def)

theorem alloc_kpages_disjoint_witness:
  "\<exists>rs m'. alloc_all alloc_kpages [1, 3, 1000, 2] demo_kmem = Ok rs m' \<and> vm_ok m' \<and> sorted_wrt apart rs"
  using alloc_kpages_disjoint [OF demo_kmem_ok, of "[1, 3, 1000, 2]"] by auto

text \<open>
  The check against the end of memory is made after the sum has wrapped: a request for almost
  four gigabytes returns the current mark and moves the mark down, into memory that is in use.
\<close>

lemma ram_stealmem_wraps:
  assumes "vm_ok m" "unat n < 2 ^ 20" "unat (firstpaddr m) + 4096 * unat n \<ge> 2 ^ 32"
  shows "\<exists>f. ram_stealmem n m = (firstpaddr m, m\<lparr>firstpaddr := f\<rparr>) \<and> f < firstpaddr m"
proof -
  have s: "unat (n * PAGE_SIZE) = 4096 * unat n"
    using assms(2) unat_mult_small [of n PAGE_SIZE] by (simp add: PAGE_SIZE_def)
  have f: "unat (firstpaddr m) < 2 ^ 32" by (rule unat_u32_less)
  have "unat (firstpaddr m + n * PAGE_SIZE) = (unat (firstpaddr m) + 4096 * unat n) mod 2 ^ 32"
    using s by (simp add: unat_word_ariths)
  also have "\<dots> = unat (firstpaddr m) + 4096 * unat n - 2 ^ 32"
    using assms(2,3) f by (simp add: mod_if)
  also have "\<dots> < unat (firstpaddr m)" using assms(2,3) by simp
  finally have "unat (firstpaddr m + n * PAGE_SIZE) < unat (firstpaddr m)" .
  moreover have "unat (firstpaddr m) \<le> unat (lastpaddr m)" using assms(1) by (simp add: vm_ok_def u32_le_iff)
  ultimately show ?thesis
    by (intro exI [of _ "firstpaddr m + n * PAGE_SIZE"]) (simp add: ram_stealmem_def Let_def u32_less_iff)
qed

end
