(* ===== verification/Kmalloc.thy ===== *)
theory Kmalloc
  imports Physmem
begin

text \<open>
  The kernel heap, \<^verbatim>\<open>kern/vm/kmalloc.c\<close>, in the configuration the file selects (no debugging mode).

  A subpage of the heap is described by a \<^verbatim>\<open>struct pageref\<close>; these live in whole pages of their own,
  each with a bitmap of the entries in use. A pointer is its address; \<open>kh_prs\<close> gives the pageref at
  an address and \<open>kh_words\<close> the contents of memory by word, in which the free blocks of a page form a
  linked list through their first words. Loops along a list of pagerefs take as fuel one more
  than the number of pagerefs there can be: a list that is longer is circular and the loop in the
  code does not end. One thread runs; the heap's spinlock and the number of spinlocks held are part
  of the state because \<^verbatim>\<open>alloc_kpages\<close> must be called without spinlocks.
\<close>

subsection \<open>Data\<close>

definition sizes :: "u32 list" where
  "sizes = [16, 32, 64, 128, 256, 512, 1024, 2048]"

definition NSIZES :: nat where "NSIZES = 8"
definition LARGEST_SUBPAGE_SIZE :: u32 where "LARGEST_SUBPAGE_SIZE = 2048"
definition INVALID_OFFSET :: u16 where "INVALID_OFFSET = 0xffff"
definition NPAGEREFS_PER_PAGE :: nat where "NPAGEREFS_PER_PAGE = 256"
definition INUSE_WORDS :: nat where "INUSE_WORDS = 8"
definition NUM_PAGEREFPAGES :: nat where "NUM_PAGEREFPAGES = 16"
definition TOTAL_PAGEREFS :: nat where "TOTAL_PAGEREFS = NUM_PAGEREFPAGES * NPAGEREFS_PER_PAGE"

record pageref =
  next_samesize :: u32
  next_all :: u32
  pageaddr_and_blocktype :: u32
  freelist_offset :: u16
  nfree :: u16

definition PR_PAGEADDR :: "pageref \<Rightarrow> u32" where
  "PR_PAGEADDR pr = pageaddr_and_blocktype pr AND PAGE_FRAME"

definition PR_BLOCKTYPE :: "pageref \<Rightarrow> u32" where
  "PR_BLOCKTYPE pr = pageaddr_and_blocktype pr AND NOT PAGE_FRAME"

definition MKPAB :: "u32 \<Rightarrow> u32 \<Rightarrow> u32" where
  "MKPAB pa b = (pa AND PAGE_FRAME) OR (b AND NOT PAGE_FRAME)"

record kheap_root =
  kr_page :: u32
  pagerefs_inuse :: "u32 list"
  numinuse :: u32

record kheap =
  kh_vm :: kmem
  kh_words :: "u32 \<Rightarrow> u32"
  kh_prs :: "u32 \<Rightarrow> pageref"
  kheaproots :: "kheap_root list"
  sizebases :: "u32 list"
  allbase :: u32
  kmalloc_spinlock :: bool

definition upd_pr :: "u32 \<Rightarrow> (pageref \<Rightarrow> pageref) \<Rightarrow> kheap \<Rightarrow> kheap" where
  "upd_pr p f h = h\<lparr>kh_prs := (kh_prs h)(p := f (kh_prs h p))\<rparr>"

definition poke :: "u32 \<Rightarrow> u32 \<Rightarrow> kheap \<Rightarrow> kheap" where
  "poke a x h = h\<lparr>kh_words := (kh_words h)(a := x)\<rparr>"

definition upd_root :: "nat \<Rightarrow> (kheap_root \<Rightarrow> kheap_root) \<Rightarrow> kheap \<Rightarrow> kheap" where
  "upd_root w f h = h\<lparr>kheaproots := (kheaproots h)[w := f (kheaproots h ! w)]\<rparr>"

text \<open>Acquiring a spinlock the CPU holds already panics.\<close>

definition klock :: "kheap \<Rightarrow> (unit, kheap) res" where
  "klock h =
     (if kmalloc_spinlock h then Panic
      else Ok () (h\<lparr>kmalloc_spinlock := True, kh_vm := (kh_vm h)\<lparr>c_spinlocks := Suc (c_spinlocks (kh_vm h))\<rparr>\<rparr>))"

definition kunlock :: "kheap \<Rightarrow> (unit, kheap) res" where
  "kunlock h =
     kassert (kmalloc_spinlock h) (kassert (c_spinlocks (kh_vm h) > 0)
       (Ok () (h\<lparr>kmalloc_spinlock := False, kh_vm := (kh_vm h)\<lparr>c_spinlocks := c_spinlocks (kh_vm h) - 1\<rparr>\<rparr>)))"

definition kh_alloc_kpages :: "u32 \<Rightarrow> kheap \<Rightarrow> (u32, kheap) res" where
  "kh_alloc_kpages n h =
     (case alloc_kpages n (kh_vm h) of
        Ok va m \<Rightarrow> Ok va (h\<lparr>kh_vm := m\<rparr>)
      | Err e m \<Rightarrow> Err e (h\<lparr>kh_vm := m\<rparr>)
      | Panic \<Rightarrow> Panic | Fault \<Rightarrow> Fault | Hang \<Rightarrow> Hang)"

definition kh_free_kpages :: "u32 \<Rightarrow> kheap \<Rightarrow> kheap" where
  "kh_free_kpages va h = h\<lparr>kh_vm := free_kpages va (kh_vm h)\<rparr>"

fun fill_deadbeef :: "u32 \<Rightarrow> nat \<Rightarrow> kheap \<Rightarrow> kheap" where
  "fill_deadbeef ptr 0 h = h"
| "fill_deadbeef ptr (Suc n) h = fill_deadbeef (ptr + 4) n (poke ptr 0xdeadbeef h)"

subsection \<open>Pagerefs\<close>

definition allocpagerefpage :: "nat \<Rightarrow> kheap \<Rightarrow> (unit, kheap) res" where
  "allocpagerefpage w h =
     kassert (kr_page (kheaproots h ! w) = 0)
       (kbind (kunlock h) (\<lambda>_ h.
        kbind (kh_alloc_kpages 1 h) (\<lambda>va h.
        kbind (klock h) (\<lambda>_ h.
          if va = 0 then Ok () h
          else
            kassert (va mod PAGE_SIZE = 0)
              (if kr_page (kheaproots h ! w) \<noteq> 0 then
                 kbind (kunlock h) (\<lambda>_ h.
                 kbind (klock (kh_free_kpages va h)) (\<lambda>_ h.
                   kassert (kr_page (kheaproots h ! w) \<noteq> 0) (Ok () h)))
               else Ok () (upd_root w (\<lambda>r. r\<lparr>kr_page := va\<rparr>) h))))))"

text \<open>The scan of one word of the bitmap: the first clear bit from \<open>j\<close> on.\<close>

function inuse_scan :: "u32 \<Rightarrow> nat \<Rightarrow> nat option" where
  "inuse_scan word j =
     (if j < 32 then (if word AND push_bit j 1 = 0 then Some j else inuse_scan word (Suc j)) else None)"
  by pat_completeness auto
termination by (relation "measure (\<lambda>(word, j). 32 - j)") auto

fun inuse_words :: "u32 list \<Rightarrow> nat \<Rightarrow> (nat \<times> nat) option option" where
  "inuse_words [] i = Some None"
| "inuse_words (x # xs) i =
     (if x = 0xffffffff then inuse_words xs (Suc i)
      else (case inuse_scan x 0 of Some j \<Rightarrow> Some (Some (i, j)) | None \<Rightarrow> None))"

text \<open>
  Taking the entry \<open>32 * i + j\<close> of a root; \<open>inuse_words\<close> is the double loop that finds it (its value
  \<open>None\<close> is the failed assertion).
\<close>

definition allocpageref_take :: "nat \<Rightarrow> nat \<Rightarrow> nat \<Rightarrow> kheap \<Rightarrow> (u32, kheap) res" where
  "allocpageref_take w i j h =
     (let h = upd_root w (\<lambda>r. r\<lparr>pagerefs_inuse := (pagerefs_inuse r)[i := pagerefs_inuse r ! i OR push_bit j 1],
            numinuse := numinuse r + 1\<rparr>) h
      in kbind (if kr_page (kheaproots h ! w) = 0 then allocpagerefpage w h else Ok () h) (\<lambda>_ h.
           if kr_page (kheaproots h ! w) = 0 then Ok 0 h
           else Ok (kr_page (kheaproots h ! w) + 16 * word_of_nat (i * 32 + j)) h))"

fun allocpageref_from :: "nat list \<Rightarrow> kheap \<Rightarrow> (u32, kheap) res" where
  "allocpageref_from [] h = Ok 0 h"
| "allocpageref_from (w # ws) h =
     rd (kheaproots h) w (\<lambda>root.
       if numinuse root \<ge> 256 then allocpageref_from ws h
       else
         (case inuse_words (pagerefs_inuse root) 0 of
            None \<Rightarrow> Panic
          | Some None \<Rightarrow> allocpageref_from ws h
          | Some (Some (i, j)) \<Rightarrow> allocpageref_take w i j h))"

definition allocpageref :: "kheap \<Rightarrow> (u32, kheap) res" where
  "allocpageref h = allocpageref_from [0..<NUM_PAGEREFPAGES] h"

text \<open>
  The index of a pageref on a page: the difference of the addresses, a signed number, over the size
  of a pageref, which is 16.
\<close>

definition pr_index :: "u32 \<Rightarrow> u32 \<Rightarrow> u32" where
  "pr_index p page = signed_drop_bit 4 (p - page)"

fun freepageref_from :: "nat list \<Rightarrow> u32 \<Rightarrow> kheap \<Rightarrow> (unit, kheap) res" where
  "freepageref_from [] p h = Panic"
| "freepageref_from (w # ws) p h =
     rd (kheaproots h) w (\<lambda>root.
       let page = kr_page root in
       if page = 0 then kassert (numinuse root = 0) (freepageref_from ws p h)
       else
         let j = unat (pr_index p page) in
         if j < NPAGEREFS_PER_PAGE then
           rd (pagerefs_inuse root) (j div 32) (\<lambda>x.
             kassert (x AND push_bit (j mod 32) 1 \<noteq> 0)
               (kassert (numinuse root > 0)
                 (Ok () (upd_root w (\<lambda>r. r\<lparr>pagerefs_inuse := (pagerefs_inuse r)[j div 32 := x AND NOT (push_bit (j mod 32) 1)],
                    numinuse := numinuse r - 1\<rparr>) h))))
         else freepageref_from ws p h)"

definition freepageref :: "u32 \<Rightarrow> kheap \<Rightarrow> (unit, kheap) res" where
  "freepageref p h = freepageref_from [0..<NUM_PAGEREFPAGES] p h"

subsection \<open>The lists of pagerefs\<close>

text \<open>
  \<^verbatim>\<open>guy\<close> points at the head of a list or at the link field of a pageref: \<open>None\<close> is the head.
\<close>

definition get_samesize :: "nat \<Rightarrow> u32 option \<Rightarrow> kheap \<Rightarrow> u32" where
  "get_samesize blktype guy h = (case guy of None \<Rightarrow> sizebases h ! blktype | Some p \<Rightarrow> next_samesize (kh_prs h p))"

definition set_samesize :: "nat \<Rightarrow> u32 option \<Rightarrow> u32 \<Rightarrow> kheap \<Rightarrow> kheap" where
  "set_samesize blktype guy x h =
     (case guy of
        None \<Rightarrow> h\<lparr>sizebases := (sizebases h)[blktype := x]\<rparr>
      | Some p \<Rightarrow> upd_pr p (\<lambda>r. r\<lparr>next_samesize := x\<rparr>) h)"

fun remove_samesize :: "nat \<Rightarrow> nat \<Rightarrow> u32 option \<Rightarrow> u32 \<Rightarrow> kheap \<Rightarrow> (unit, kheap) res" where
  "remove_samesize 0 blktype guy pr h = Hang"
| "remove_samesize (Suc n) blktype guy pr h =
     (let g = get_samesize blktype guy h in
      if g = 0 then Ok () h
      else if g = pr then Ok () (set_samesize blktype guy (next_samesize (kh_prs h pr)) h)
      else remove_samesize n blktype (Some g) pr h)"

definition get_all :: "u32 option \<Rightarrow> kheap \<Rightarrow> u32" where
  "get_all guy h = (case guy of None \<Rightarrow> allbase h | Some p \<Rightarrow> next_all (kh_prs h p))"

definition set_all :: "u32 option \<Rightarrow> u32 \<Rightarrow> kheap \<Rightarrow> kheap" where
  "set_all guy x h =
     (case guy of None \<Rightarrow> h\<lparr>allbase := x\<rparr> | Some p \<Rightarrow> upd_pr p (\<lambda>r. r\<lparr>next_all := x\<rparr>) h)"

fun remove_all :: "nat \<Rightarrow> u32 option \<Rightarrow> u32 \<Rightarrow> kheap \<Rightarrow> (unit, kheap) res" where
  "remove_all 0 guy pr h = Hang"
| "remove_all (Suc n) guy pr h =
     (let g = get_all guy h in
      if g = 0 then Ok () h
      else if g = pr then Ok () (set_all guy (next_all (kh_prs h pr)) h)
      else remove_all n (Some g) pr h)"

definition remove_lists :: "u32 \<Rightarrow> nat \<Rightarrow> kheap \<Rightarrow> (unit, kheap) res" where
  "remove_lists pr blktype h =
     kassert (blktype < NSIZES)
       (kbind (remove_samesize (Suc TOTAL_PAGEREFS) blktype None pr h) (\<lambda>_ h.
          remove_all (Suc TOTAL_PAGEREFS) None pr h))"

subsection \<open>Allocation\<close>

fun blocktype_from :: "u32 list \<Rightarrow> nat \<Rightarrow> u32 \<Rightarrow> nat option" where
  "blocktype_from [] i clientsz = None"
| "blocktype_from (s # ss) i clientsz = (if clientsz \<le> s then Some i else blocktype_from ss (Suc i) clientsz)"

definition blocktype :: "u32 \<Rightarrow> nat option" where
  "blocktype clientsz = blocktype_from sizes 0 clientsz"

text \<open>The search for a page with a free block.\<close>

fun find_page :: "nat \<Rightarrow> nat \<Rightarrow> u32 \<Rightarrow> kheap \<Rightarrow> (u32, kheap) res" where
  "find_page 0 blktype pr h = Hang"
| "find_page (Suc n) blktype pr h =
     (if pr = 0 then Ok 0 h
      else
        kassert (PR_BLOCKTYPE (kh_prs h pr) = word_of_nat blktype)
          (if nfree (kh_prs h pr) > 0 then Ok pr h
           else find_page n blktype (next_samesize (kh_prs h pr)) h))"

text \<open>The part at the label \<^verbatim>\<open>doalloc\<close>.\<close>

definition doalloc :: "u32 \<Rightarrow> kheap \<Rightarrow> (u32, kheap) res" where
  "doalloc pr h =
     kassert (ucast (freelist_offset (kh_prs h pr)) < PAGE_SIZE)
       (let prpage = PR_PAGEADDR (kh_prs h pr);
            fla = prpage + ucast (freelist_offset (kh_prs h pr));
            retptr = fla;
            fl = kh_words h fla;
            h = upd_pr pr (\<lambda>r. r\<lparr>nfree := nfree r - 1\<rparr>) h
        in kbind
             (if fl \<noteq> 0 then
                kassert (nfree (kh_prs h pr) > 0)
                  (kassert (fl - prpage < PAGE_SIZE)
                    (Ok () (upd_pr pr (\<lambda>r. r\<lparr>freelist_offset := ucast (fl - prpage)\<rparr>) h)))
              else
                kassert (nfree (kh_prs h pr) = 0)
                  (Ok () (upd_pr pr (\<lambda>r. r\<lparr>freelist_offset := INVALID_OFFSET\<rparr>) h)))
             (\<lambda>_ h. kbind (kunlock h) (\<lambda>_ h. Ok retptr h)))"

text \<open>The loop that links the blocks \<open>i\<close>, \<open>i + 1\<close>, \dots of a fresh page; its result is the last block.\<close>

fun init_freelist :: "nat \<Rightarrow> nat \<Rightarrow> u32 \<Rightarrow> u32 \<Rightarrow> u32 \<Rightarrow> kheap \<Rightarrow> (u32, kheap) res" where
  "init_freelist 0 i fla sz fl h = Ok fl h"
| "init_freelist (Suc n) i fla sz fl h =
     (let fl = fla + word_of_nat i * sz; nx = fla + (word_of_nat i - 1) * sz in
      kassert (fl \<noteq> nx) (init_freelist n (Suc i) fla sz fl (poke fl nx h)))"

definition new_page :: "nat \<Rightarrow> u32 \<Rightarrow> u32 \<Rightarrow> kheap \<Rightarrow> (u32, kheap) res" where
  "new_page blktype prpage pr h =
     (let sz = sizes ! blktype;
          h = upd_pr pr (\<lambda>r. r\<lparr>pageaddr_and_blocktype := MKPAB prpage (word_of_nat blktype), nfree := ucast (PAGE_SIZE div sz)\<rparr>) h;
          nf = nfree (kh_prs h pr);
          h = poke prpage 0 h
      in kbind (init_freelist (unat nf - 1) 1 prpage sz prpage h) (\<lambda>fl h.
           let h = upd_pr pr (\<lambda>r. r\<lparr>freelist_offset := ucast (fl - prpage)\<rparr>) h in
           kassert (ucast (freelist_offset (kh_prs h pr)) = (ucast nf - 1) * sz)
             (let h = upd_pr pr (\<lambda>r. r\<lparr>next_samesize := sizebases h ! blktype\<rparr>) h;
                  h = h\<lparr>sizebases := (sizebases h)[blktype := pr]\<rparr>;
                  h = upd_pr pr (\<lambda>r. r\<lparr>next_all := allbase h\<rparr>) h;
                  h = h\<lparr>allbase := pr\<rparr>
              in doalloc pr h)))"

definition subpage_kmalloc :: "u32 \<Rightarrow> kheap \<Rightarrow> (u32, kheap) res" where
  "subpage_kmalloc sz h =
     (case blocktype sz of
        None \<Rightarrow> Panic
      | Some blktype \<Rightarrow>
          kbind (klock h) (\<lambda>_ h.
          kbind (find_page (Suc TOTAL_PAGEREFS) blktype (sizebases h ! blktype) h) (\<lambda>pr h.
            if pr \<noteq> 0 then doalloc pr h
            else
              kbind (kunlock h) (\<lambda>_ h.
              kbind (kh_alloc_kpages 1 h) (\<lambda>prpage h.
                if prpage = 0 then Ok 0 h
                else
                  kassert (prpage mod PAGE_SIZE = 0)
                    (kbind (klock h) (\<lambda>_ h.
                     kbind (allocpageref h) (\<lambda>pr h.
                       if pr = 0 then kbind (kunlock h) (\<lambda>_ h. Ok 0 (kh_free_kpages prpage h))
                       else new_page blktype prpage pr h))))))))"

subsection \<open>Freeing\<close>

text \<open>The search for the page a pointer is on.\<close>

fun find_owner :: "nat \<Rightarrow> u32 \<Rightarrow> u32 \<Rightarrow> kheap \<Rightarrow> (u32, kheap) res" where
  "find_owner 0 ptraddr pr h = Hang"
| "find_owner (Suc n) ptraddr pr h =
     (if pr = 0 then Ok 0 h
      else
        let prpage = PR_PAGEADDR (kh_prs h pr) in
        kassert (unat (PR_BLOCKTYPE (kh_prs h pr)) < NSIZES)
          (if ptraddr \<ge> prpage \<and> ptraddr < prpage + PAGE_SIZE then Ok pr h
           else find_owner n ptraddr (next_all (kh_prs h pr)) h))"

text \<open>What happens on the page found. The result says whether the pointer was a block of the heap.\<close>

definition free_on :: "u32 \<Rightarrow> u32 \<Rightarrow> kheap \<Rightarrow> (bool, kheap) res" where
  "free_on ptraddr pr h =
     (let prpage = PR_PAGEADDR (kh_prs h pr);
          blktype = unat (PR_BLOCKTYPE (kh_prs h pr));
          sz = sizes ! blktype;
          offset = ptraddr - prpage
      in if offset \<ge> PAGE_SIZE \<or> offset mod sz \<noteq> 0 then Panic
         else
           let h = fill_deadbeef ptraddr (unat (sz div 4)) h;
               fla = prpage + offset
           in kbind
                (if freelist_offset (kh_prs h pr) = INVALID_OFFSET then Ok () (poke fla 0 h)
                 else
                   let nx = prpage + ucast (freelist_offset (kh_prs h pr)) in
                   kassert (fla \<noteq> nx) (Ok () (poke fla nx h)))
                (\<lambda>_ h.
                  let h = upd_pr pr (\<lambda>r. r\<lparr>freelist_offset := ucast offset, nfree := nfree r + 1\<rparr>) h in
                  kassert (ucast (nfree (kh_prs h pr)) \<le> PAGE_SIZE div sz)
                    (if ucast (nfree (kh_prs h pr)) = PAGE_SIZE div sz then
                       kbind (remove_lists pr blktype h) (\<lambda>_ h.
                       kbind (freepageref pr h) (\<lambda>_ h.
                       kbind (kunlock h) (\<lambda>_ h. Ok True (kh_free_kpages prpage h))))
                     else kbind (kunlock h) (\<lambda>_ h. Ok True h))))"

definition subpage_kfree :: "u32 \<Rightarrow> kheap \<Rightarrow> (bool, kheap) res" where
  "subpage_kfree ptraddr h =
     kbind (klock h) (\<lambda>_ h.
     kbind (find_owner (Suc TOTAL_PAGEREFS) ptraddr (allbase h) h) (\<lambda>pr h.
       if pr = 0 then kbind (kunlock h) (\<lambda>_ h. Ok False h)
       else free_on ptraddr pr h))"

subsection \<open>The interface\<close>

definition kmalloc :: "u32 \<Rightarrow> kheap \<Rightarrow> (u32, kheap) res" where
  "kmalloc sz h =
     (let checksz = sz in
      if checksz \<ge> LARGEST_SUBPAGE_SIZE then
        let npages = (sz + PAGE_SIZE - 1) div PAGE_SIZE in
        kbind (kh_alloc_kpages npages h) (\<lambda>address h.
          if address = 0 then Ok 0 h
          else kassert (address mod PAGE_SIZE = 0) (Ok address h))
      else subpage_kmalloc sz h)"

definition kfree :: "u32 \<Rightarrow> kheap \<Rightarrow> (unit, kheap) res" where
  "kfree ptr h =
     (if ptr = 0 then Ok () h
      else
        kbind (subpage_kfree ptr h) (\<lambda>found h.
          if found then Ok () h
          else kassert (ptr mod PAGE_SIZE = 0) (Ok () (kh_free_kpages ptr h))))"

declare inuse_scan.simps [simp del]

subsection \<open>Sizes and page addresses\<close>

definition bsz :: "nat \<Rightarrow> nat" where "bsz t = 16 * 2 ^ t"
definition nblk :: "nat \<Rightarrow> nat" where "nblk t = 2 ^ (8 - t)"

lemma less_8_cases: "t < 8 \<Longrightarrow> t = 0 \<or> t = 1 \<or> t = 2 \<or> t = 3 \<or> t = 4 \<or> t = 5 \<or> t = 6 \<or> t = (7 :: nat)"
  by linarith

lemma sizes_nth:
  assumes "t < 8"
  shows "unat (sizes ! t) = bsz t" "unat (PAGE_SIZE div sizes ! t) = nblk t" "bsz t * nblk t = 4096" "0 < bsz t" "0 < nblk t"
    "nblk t \<le> 256" "bsz t \<le> 2048" "16 dvd bsz t"
  using less_8_cases [OF assms] by (elim disjE; simp add: sizes_def bsz_def nblk_def PAGE_SIZE_def)+

lemma length_sizes [simp]: "length sizes = 8"
  by (simp add: sizes_def)

lemma blocktype_from_Some:
  "blocktype_from ss i c = Some t \<Longrightarrow> i \<le> t \<and> t < i + length ss \<and> c \<le> ss ! (t - i) \<and> (\<forall>k < t - i. ss ! k < c)"
proof (induction ss arbitrary: i)
  case (Cons s ss)
  show ?case
  proof (cases "c \<le> s")
    case False
    then have h: "Suc i \<le> t \<and> t < Suc i + length ss \<and> c \<le> ss ! (t - Suc i) \<and> (\<forall>k < t - Suc i. ss ! k < c)"
      using Cons.IH [of "Suc i"] Cons.prems by simp
    then have "t - i = Suc (t - Suc i)" by (metis Suc_diff_Suc Suc_le_lessD)
    then show ?thesis using h False by (auto simp: less_Suc_eq_0_disj)
  qed (use Cons.prems in auto)
qed simp

lemma blocktype_from_None: "blocktype_from ss i c = None \<Longrightarrow> s \<in> set ss \<Longrightarrow> \<not> c \<le> s"
  by (induction ss arbitrary: i) (auto split: if_splits)

lemma blocktype_ok:
  assumes "unat sz \<le> 2048"
  obtains t where "blocktype sz = Some t" "t < 8" "unat sz \<le> bsz t" "t = 0 \<or> bsz (t - 1) < unat sz"
proof -
  have "sz \<le> 2048" using assms by (simp add: u32_le_iff)
  moreover have "2048 \<in> set sizes" by (simp add: sizes_def)
  ultimately obtain t where t: "blocktype sz = Some t"
    using blocktype_from_None [of sizes 0 sz 2048] unfolding blocktype_def by blast
  note b = blocktype_from_Some [OF t [unfolded blocktype_def]]
  have t8: "t < 8" using b by simp
  moreover have "unat sz \<le> bsz t" using b sizes_nth(1) [OF t8] by (simp add: u32_le_iff)
  moreover have "t = 0 \<or> bsz (t - 1) < unat sz"
    using b sizes_nth(1) [of "t - 1"] t8 by (cases t) (auto simp: u32_less_iff)
  ultimately show ?thesis using that t by blast
qed

lemma pageaddr_aligned: "unat (PR_PAGEADDR pr) mod 4096 = 0"
  by (simp add: PR_PAGEADDR_def pageaddr_unat minus_mod_eq_mult_div)

lemma mkpab:
  assumes "unat pa mod 4096 = 0" "unat b < 4096"
  shows "MKPAB pa b AND PAGE_FRAME = pa" "MKPAB pa b AND NOT PAGE_FRAME = b"
proof -
  have a: "pa AND PAGE_FRAME = pa" using pageaddr_unat [of pa] assms(1) by (simp add: u32_eq_iff)
  have n: "pa AND NOT PAGE_FRAME = 0" using blocktype_unat [of pa] assms(1) by (simp add: u32_eq_iff)
  have b: "b AND NOT PAGE_FRAME = b" using blocktype_unat [of b] assms(2) by (simp add: u32_eq_iff)
  have z: "b AND PAGE_FRAME = 0" using pageaddr_unat [of b] assms(2) by (simp add: u32_eq_iff)
  show "MKPAB pa b AND PAGE_FRAME = pa" unfolding MKPAB_def a b by (simp add: bit.conj_disj_distrib2 a z)
  show "MKPAB pa b AND NOT PAGE_FRAME = b" unfolding MKPAB_def a b by (simp add: bit.conj_disj_distrib2 n b)
qed

subsection \<open>Linked lists\<close>

fun chain :: "(u32 \<Rightarrow> u32) \<Rightarrow> u32 \<Rightarrow> u32 list \<Rightarrow> bool" where
  "chain nx a [] \<longleftrightarrow> a = 0"
| "chain nx a (x # xs) \<longleftrightarrow> a = x \<and> x \<noteq> 0 \<and> chain nx (nx x) xs"

lemma chain_cong: "(\<And>x. x \<in> set xs \<Longrightarrow> nx' x = nx x) \<Longrightarrow> chain nx' a xs = chain nx a xs"
  by (induction xs arbitrary: a) simp_all

lemma chain_nonzero: "chain nx a xs \<Longrightarrow> 0 \<notin> set xs"
  by (induction xs arbitrary: a) auto

lemma chain_0: "chain nx 0 xs \<longleftrightarrow> xs = []"
  by (cases xs) auto

subsection \<open>Bits in use\<close>

lemma and_bit_eq_0: "j < 32 \<Longrightarrow> (x :: u32) AND push_bit j 1 = 0 \<longleftrightarrow> \<not> bit x j"
  by (simp add: and_exp_eq_0_iff_not_bit)

lemma inuse_scan_result:
  "j \<le> 32 \<Longrightarrow> case inuse_scan x j of Some k \<Rightarrow> k < 32 \<and> \<not> bit x k | None \<Rightarrow> \<forall>k < 32. j \<le> k \<longrightarrow> bit x k"
proof (induction x j rule: inuse_scan.induct)
  case (1 x j)
  show ?case
  proof (cases "j < 32 \<and> bit x j")
    case True
    then have e: "inuse_scan x j = inuse_scan x (Suc j)" by (subst inuse_scan.simps) (simp add: and_exp_eq_0_iff_not_bit)
    have "case inuse_scan x (Suc j) of Some k \<Rightarrow> k < 32 \<and> \<not> bit x k | None \<Rightarrow> \<forall>k < 32. Suc j \<le> k \<longrightarrow> bit x k"
      using "1.IH" True by (simp add: and_exp_eq_0_iff_not_bit)
    then show ?thesis unfolding e using True by (auto split: option.splits simp: Suc_le_eq order_le_less)
  next
    case False
    then show ?thesis using "1.prems" by (subst inuse_scan.simps) (auto simp: and_exp_eq_0_iff_not_bit)
  qed
qed

lemma word_full: "(x :: u32) = 0xffffffff \<longleftrightarrow> (\<forall>k < 32. bit x k)"
proof -
  have "(0xffffffff :: u32) = - 1" by simp
  then show ?thesis by (auto simp: bit_eq_iff)
qed

lemma inuse_words_result:
  "case inuse_words xs i of
     None \<Rightarrow> False
   | Some None \<Rightarrow> \<forall>x \<in> set xs. \<forall>k < 32. bit x k
   | Some (Some (m, j)) \<Rightarrow> i \<le> m \<and> m < i + length xs \<and> j < 32 \<and> \<not> bit (xs ! (m - i)) j"
proof (induction xs arbitrary: i)
  case (Cons x xs)
  show ?case
  proof (cases "x = 0xffffffff")
    case True
    then show ?thesis using Cons [of "Suc i"] word_full [of x]
      by (auto split: option.splits simp: Suc_diff_le nth_Cons' Suc_le_eq)
  next
    case False
    then show ?thesis using inuse_scan_result [of 0 x] word_full [of x] by (auto split: option.splits)
  qed
qed simp

definition root_bits :: "kheap_root \<Rightarrow> nat set" where
  "root_bits r = {j. j < 256 \<and> bit (pagerefs_inuse r ! (j div 32)) (j mod 32)}"

definition root_ok :: "kheap_root \<Rightarrow> bool" where
  "root_ok r \<longleftrightarrow> length (pagerefs_inuse r) = 8 \<and> unat (numinuse r) = card (root_bits r) \<and> unat (kr_page r) mod 4096 = 0"

lemma root_bits_bound: "root_bits r \<subseteq> {..<256}" "finite (root_bits r)"
proof -
  show "root_bits r \<subseteq> {..<256}" by (auto simp: root_bits_def)
  then show "finite (root_bits r)" using finite_subset by blast
qed

lemma div_mod_32: "j < 32 \<Longrightarrow> (i * 32 + j) div 32 = i \<and> (i * 32 + j) mod 32 = (j :: nat)"
  by simp

abbreviation root_take :: "nat \<Rightarrow> nat \<Rightarrow> kheap_root \<Rightarrow> kheap_root" where
  "root_take i j r \<equiv> r\<lparr>pagerefs_inuse := (pagerefs_inuse r)[i := pagerefs_inuse r ! i OR push_bit j 1], numinuse := numinuse r + 1\<rparr>"

abbreviation root_drop :: "nat \<Rightarrow> kheap_root \<Rightarrow> kheap_root" where
  "root_drop j r \<equiv> r\<lparr>pagerefs_inuse := (pagerefs_inuse r)[j div 32 := pagerefs_inuse r ! (j div 32) AND NOT (push_bit (j mod 32) 1)],
      numinuse := numinuse r - 1\<rparr>"

lemma root_set:
  assumes ok: "root_ok r" and i: "i < 8" "j < 32" "\<not> bit (pagerefs_inuse r ! i) j"
  shows "root_bits (root_take i j r) = insert (i * 32 + j) (root_bits r)" "root_ok (root_take i j r)" "i * 32 + j \<notin> root_bits r"
proof -
  let ?r = "root_take i j r"
  have l: "length (pagerefs_inuse r) = 8" using ok by (simp add: root_ok_def)
  have "k = i * 32 + j \<longleftrightarrow> k div 32 = i \<and> k mod 32 = j" for k using div_mod_32 [OF i(2), of i] by (metis div_mult_mod_eq)
  then have b: "bit (pagerefs_inuse ?r ! (k div 32)) (k mod 32) \<longleftrightarrow> bit (pagerefs_inuse r ! (k div 32)) (k mod 32) \<or> k = i * 32 + j" if "k < 256" for k
    using i l that by (auto simp: nth_list_update bit_simps)
  have "i * 32 + j < 256" using i by simp
  then show e: "root_bits ?r = insert (i * 32 + j) (root_bits r)" using b by (auto simp: root_bits_def)
  show n: "i * 32 + j \<notin> root_bits r" using i(3) div_mod_32 [OF i(2), of i] by (simp add: root_bits_def)
  have "card (root_bits ?r) \<le> 256" using card_mono [OF _ root_bits_bound(1) [of ?r]] by simp
  then have "unat (numinuse r) < 256" using ok e n root_bits_bound(2) [of r] by (simp add: root_ok_def)
  then have "unat (numinuse r + 1) = Suc (unat (numinuse r))" by (rule unat_Suc_le) simp
  then show "root_ok ?r" using ok e n root_bits_bound(2) [of r] by (simp add: root_ok_def)
qed

lemma root_clear:
  assumes ok: "root_ok r" and j: "j \<in> root_bits r"
  shows "root_bits (root_drop j r) = root_bits r - {j}" "root_ok (root_drop j r)" "0 < numinuse r"
proof -
  let ?r = "root_drop j r"
  have l: "length (pagerefs_inuse r) = 8" "j < 256" using ok j by (simp_all add: root_ok_def root_bits_def)
  have "k = j \<longleftrightarrow> k div 32 = j div 32 \<and> k mod 32 = j mod 32" for k by (metis div_mult_mod_eq)
  then have b: "bit (pagerefs_inuse ?r ! (k div 32)) (k mod 32) \<longleftrightarrow> bit (pagerefs_inuse r ! (k div 32)) (k mod 32) \<and> k \<noteq> j" if "k < 256" for k
    using l that by (auto simp: nth_list_update bit_simps)
  then show e: "root_bits ?r = root_bits r - {j}" by (auto simp: root_bits_def)
  have "card (root_bits r) > 0" using j root_bits_bound(2) card_gt_0_iff by blast
  then show p: "0 < numinuse r" using ok by (simp add: root_ok_def u32_less_iff)
  then have "unat (numinuse r - 1) = unat (numinuse r) - 1" by (subst unat_diff_small) (simp_all add: u32_order)
  then show "root_ok ?r" using ok e j by (simp add: root_ok_def)
qed

subsection \<open>The lock\<close>

text \<open>The state with the heap's lock held.\<close>

definition lk :: "kheap \<Rightarrow> kheap" where
  "lk h = h\<lparr>kmalloc_spinlock := True, kh_vm := (kh_vm h)\<lparr>c_spinlocks := Suc (c_spinlocks (kh_vm h))\<rparr>\<rparr>"

lemma lk_fields [simp]:
  "kh_words (lk h) = kh_words h" "kh_prs (lk h) = kh_prs h" "kheaproots (lk h) = kheaproots h"
  "sizebases (lk h) = sizebases h" "allbase (lk h) = allbase h"
  by (simp_all add: lk_def)

lemma lk_updates [simp]:
  "upd_pr p f (lk h) = lk (upd_pr p f h)" "poke a x (lk h) = lk (poke a x h)" "upd_root w g (lk h) = lk (upd_root w g h)"
  "(lk h)\<lparr>sizebases := ss\<rparr> = lk (h\<lparr>sizebases := ss\<rparr>)" "(lk h)\<lparr>allbase := a\<rparr> = lk (h\<lparr>allbase := a\<rparr>)"
  by (simp_all add: lk_def upd_pr_def poke_def upd_root_def)

lemma klock_lk: "\<not> kmalloc_spinlock h \<Longrightarrow> klock h = Ok () (lk h)"
  by (simp add: klock_def lk_def)

lemma kunlock_lk: "\<not> kmalloc_spinlock h \<Longrightarrow> kunlock (lk h) = Ok () h"
  by (cases h) (simp add: kunlock_def lk_def)

lemma upd_pr_fields [simp]:
  "kh_vm (upd_pr p f h) = kh_vm h" "kh_words (upd_pr p f h) = kh_words h" "kheaproots (upd_pr p f h) = kheaproots h"
  "sizebases (upd_pr p f h) = sizebases h" "allbase (upd_pr p f h) = allbase h" "kmalloc_spinlock (upd_pr p f h) = kmalloc_spinlock h"
  "kh_prs (upd_pr p f h) = (kh_prs h)(p := f (kh_prs h p))"
  by (simp_all add: upd_pr_def)

lemma poke_fields [simp]:
  "kh_vm (poke a x h) = kh_vm h" "kh_words (poke a x h) = (kh_words h)(a := x)" "kheaproots (poke a x h) = kheaproots h"
  "sizebases (poke a x h) = sizebases h" "allbase (poke a x h) = allbase h" "kmalloc_spinlock (poke a x h) = kmalloc_spinlock h"
  "kh_prs (poke a x h) = kh_prs h"
  by (simp_all add: poke_def)

lemma upd_root_fields [simp]:
  "kh_vm (upd_root w f h) = kh_vm h" "kh_words (upd_root w f h) = kh_words h" "kh_prs (upd_root w f h) = kh_prs h"
  "sizebases (upd_root w f h) = sizebases h" "allbase (upd_root w f h) = allbase h" "kmalloc_spinlock (upd_root w f h) = kmalloc_spinlock h"
  "kheaproots (upd_root w f h) = (kheaproots h)[w := f (kheaproots h ! w)]"
  by (simp_all add: upd_root_def)

subsection \<open>The pages of pagerefs\<close>

definition pno :: "u32 \<Rightarrow> nat" where
  "pno a = unat a div 4096"

definition exhausted :: "kmem \<Rightarrow> bool" where
  "exhausted m \<longleftrightarrow> unat (firstpaddr m) + 4096 > unat (lastpaddr m)"

text \<open>
  The pages are allocated from the first root on. A root without a page has no entry in use,
  unless the attempt to give it one has failed; then no page is left at all.
\<close>

definition roots_ok :: "kheap \<Rightarrow> bool" where
  "roots_ok h \<longleftrightarrow> length (kheaproots h) = 16 \<and>
     (\<forall>w < 16. root_ok (kheaproots h ! w) \<and>
        (kr_page (kheaproots h ! w) = 0 \<longrightarrow> numinuse (kheaproots h ! w) = 0 \<or> exhausted (kh_vm h)) \<and>
        (kr_page (kheaproots h ! w) \<noteq> 0 \<longrightarrow> pno (kr_page (kheaproots h ! w)) \<in> taken (kh_vm h) \<and>
           (\<forall>v < w. kr_page (kheaproots h ! v) \<noteq> 0 \<and> kr_page (kheaproots h ! v) \<noteq> kr_page (kheaproots h ! w))))"

definition pr_used :: "kheap \<Rightarrow> u32 \<Rightarrow> bool" where
  "pr_used h p \<longleftrightarrow> (\<exists>w < 16. \<exists>j \<in> root_bits (kheaproots h ! w). kr_page (kheaproots h ! w) \<noteq> 0 \<and>
     p = kr_page (kheaproots h ! w) + 16 * word_of_nat j)"

definition rootpages :: "kheap \<Rightarrow> nat set" where
  "rootpages h = {pno (kr_page (kheaproots h ! w)) | w. w < 16 \<and> kr_page (kheaproots h ! w) \<noteq> 0}"

lemma aligned_room: "unat (a :: u32) mod 4096 = 0 \<Longrightarrow> unat a + 4096 \<le> 2 ^ 32"
proof -
  assume "unat a mod 4096 = 0"
  then obtain q where q: "unat a = 4096 * q" by (metis mod_0_imp_dvd dvdE)
  then have "q < 2 ^ 20" using unat_u32_less [of a] by simp
  then show ?thesis using q by simp
qed

lemma unat_offset:
  assumes "unat (a :: u32) mod 4096 = 0" "x < 4096"
  shows "unat (a + word_of_nat x) = unat a + x" "pno (a + word_of_nat x) = pno a"
proof -
  show "unat (a + word_of_nat x) = unat a + x"
    using aligned_room [OF assms(1)] assms(2) by (subst unat_add_small) (simp_all add: unat_of_nat_u32)
  moreover obtain q where "unat a = 4096 * q" using assms(1) by (metis mod_0_imp_dvd dvdE)
  ultimately show "pno (a + word_of_nat x) = pno a" using assms(2) by (simp add: pno_def)
qed

lemma aligned_eq: "unat (a :: u32) mod 4096 = 0 \<Longrightarrow> unat b mod 4096 = 0 \<Longrightarrow> pno a = pno b \<Longrightarrow> a = b"
  unfolding pno_def u32_eq_iff by (metis div_mult_mod_eq)

lemma pr_offset: "16 * word_of_nat j = (word_of_nat (16 * j) :: u32)"
  by simp

lemma unat_less_bits: "unat (x :: u32) < 2 ^ n \<longleftrightarrow> (\<forall>k. bit x k \<longrightarrow> k < n)"
proof
  assume "unat x < 2 ^ n"
  then have "take_bit n x = x" by (simp add: word_unat_eq_iff unsigned_take_bit_eq take_bit_nat_eq_self)
  then show "\<forall>k. bit x k \<longrightarrow> k < n" by (metis bit_take_bit_iff)
next
  assume "\<forall>k. bit x k \<longrightarrow> k < n"
  then have "take_bit n x = x" by (auto simp: bit_eq_iff bit_simps)
  then have "unat x = take_bit n (unat x)" by (metis unsigned_take_bit_eq)
  then show "unat x < 2 ^ n" by (metis take_bit_nat_less_exp)
qed

lemma pr_index_same:
  assumes "j < 256"
  shows "unat (pr_index (page + 16 * word_of_nat j) page) = j"
proof -
  have s: "signed_drop_bit 4 (push_bit 4 x) = x" if "\<And>k. bit x k \<Longrightarrow> k < 8" for x :: u32
    by (rule bit_word_eqI) (use that [of 27] that in \<open>auto simp: bit_simps dest: that\<close>)
  have b: "bit (word_of_nat j :: u32) k \<Longrightarrow> k < 8" for k
    using unat_less_bits [of "word_of_nat j" 8] assms by (simp add: unat_of_nat_u32 del: bit_of_nat_iff_bit)
  have "16 * word_of_nat j = push_bit 4 (word_of_nat j :: u32)" by (simp add: push_bit_eq_mult)
  moreover have "signed_drop_bit 4 (push_bit 4 (word_of_nat j :: u32)) = word_of_nat j"
    by (rule s [OF b])
  ultimately have "pr_index (page + 16 * word_of_nat j) page = word_of_nat j" by (simp add: pr_index_def)
  then show ?thesis using assms by (simp add: unat_of_nat_u32)
qed

lemma pr_index_big:
  assumes "unat (p - page) \<ge> 4096"
  shows "unat (pr_index p page) \<ge> 256"
proof -
  let ?d = "p - page"
  obtain m where m: "bit ?d m" "12 \<le> m" using unat_less_bits [of ?d 12] assms by auto
  then have "m < 32" using bit_imp_le_length [of ?d m] by simp
  then have "m - 4 < 28" using m(2) by linarith
  then have "bit (signed_drop_bit 4 ?d) (m - 4)" using m by (simp add: bit_signed_drop_bit_iff)
  moreover have "\<not> m - 4 < 8" using m by simp
  ultimately show ?thesis using unat_less_bits [of "signed_drop_bit 4 ?d" 8] by (auto simp: pr_index_def)
qed

lemma pr_index_other:
  assumes a: "unat (page :: u32) mod 4096 = 0" "unat page' mod 4096 = 0" "page' \<noteq> page" and j: "j < 256"
  shows "unat (pr_index (page' + 16 * word_of_nat j) page) \<ge> 256"
proof (rule pr_index_big, rule ccontr)
  let ?p = "page' + 16 * word_of_nat j"
  assume "\<not> 4096 \<le> unat (?p - page)"
  then have d: "unat (?p - page) < 4096" by simp
  have "?p = page + word_of_nat (unat (?p - page))" by simp
  then have "pno ?p = pno page" using unat_offset(2) [OF a(1) d] by simp
  moreover have "pno ?p = pno page'" using unat_offset(2) [OF a(2), of "16 * j"] j by simp
  ultimately show False using aligned_eq [OF a(1,2)] a(3) by simp
qed

subsection \<open>Getting pages\<close>

lemma vm_ok_stays: "vm_ok m \<Longrightarrow> exhausted m \<or> unat (firstpaddr m) + 4096 \<le> unat (lastpaddr m)"
  by (auto simp: exhausted_def)

lemma kalloc_cases:
  assumes ok: "vm_ok (kh_vm h)" and n: "unat n < 2 ^ 19"
  obtains (none) "kh_alloc_kpages n h = Ok 0 h" "unat (firstpaddr (kh_vm h)) + 4096 * unat n > unat (lastpaddr (kh_vm h))"
  | (some) va m where "kh_alloc_kpages n h = Ok va (h\<lparr>kh_vm := m\<rparr>)" "vm_ok m" "va \<noteq> 0" "unat va mod 4096 = 0"
      "unat va + 4096 * unat n \<le> 2 ^ 32" "pages va (unat n) \<inter> taken (kh_vm h) = {}" "taken m = taken (kh_vm h) \<union> pages va (unat n)"
      "unat (firstpaddr (kh_vm h)) + 4096 * unat n \<le> unat (lastpaddr (kh_vm h))"
proof (cases "unat (firstpaddr (kh_vm h)) + 4096 * unat n > unat (lastpaddr (kh_vm h))")
  case True
  then have "alloc_kpages n (kh_vm h) = Ok 0 (kh_vm h)" using alloc_kpages_result [OF assms] by simp
  then show ?thesis using none True by (simp add: kh_alloc_kpages_def)
next
  case False
  then obtain va f where "alloc_kpages n (kh_vm h) = Ok va ((kh_vm h)\<lparr>firstpaddr := f\<rparr>)" "unat va = 2 ^ 31 + unat (firstpaddr (kh_vm h))"
    using alloc_kpages_result [OF assms] by auto
  moreover obtain va' m where "alloc_kpages n (kh_vm h) = Ok va' m" "vm_ok m"
      "va' = 0 \<and> m = kh_vm h \<or>
       va' \<noteq> 0 \<and> unat va' mod 4096 = 0 \<and> unat va' + 4096 * unat n \<le> 2 ^ 32 \<and>
       pages va' (unat n) \<inter> taken (kh_vm h) = {} \<and> taken m = taken (kh_vm h) \<union> pages va' (unat n)"
    using dvm.alloc_law [OF assms] by (elim exE conjE) (rule that)
  moreover have "va \<noteq> 0" using calculation(2) by auto
  ultimately show ?thesis using some [of va m] False by (simp add: kh_alloc_kpages_def)
qed

lemma pages_1: "pages va 1 = {pno va}"
  by (auto simp: pages_def pno_def)

text \<open>Properties of the entries in use.\<close>

lemma roots_okD:
  assumes "roots_ok h" "w < 16"
  shows "root_ok (kheaproots h ! w)" "unat (kr_page (kheaproots h ! w)) mod 4096 = 0"
    "kr_page (kheaproots h ! w) \<noteq> 0 \<Longrightarrow> pno (kr_page (kheaproots h ! w)) \<in> taken (kh_vm h)"
    "kr_page (kheaproots h ! w) = 0 \<Longrightarrow> numinuse (kheaproots h ! w) = 0 \<or> exhausted (kh_vm h)"
  using assms unfolding roots_ok_def root_ok_def by blast+

lemma roots_distinct:
  assumes "roots_ok h" "w < 16" "v < 16" "kr_page (kheaproots h ! w) \<noteq> 0" "kr_page (kheaproots h ! w) = kr_page (kheaproots h ! v)"
  shows "w = v"
  using assms unfolding roots_ok_def by (metis linorder_neqE_nat)

lemma entry_addr:
  assumes "roots_ok h" "w < 16" "j < 256"
  shows "unat (kr_page (kheaproots h ! w) + 16 * word_of_nat j) = unat (kr_page (kheaproots h ! w)) + 16 * j"
    "pno (kr_page (kheaproots h ! w) + 16 * word_of_nat j) = pno (kr_page (kheaproots h ! w))"
  using unat_offset [OF roots_okD(2) [OF assms(1,2)], of "16 * j"] assms(3) by simp_all

lemma pr_used_iff:
  assumes ok: "roots_ok h" and w: "w < 16" "j < 256" "kr_page (kheaproots h ! w) \<noteq> 0"
  shows "pr_used h (kr_page (kheaproots h ! w) + 16 * word_of_nat j) \<longleftrightarrow> j \<in> root_bits (kheaproots h ! w)"
proof
  assume "pr_used h (kr_page (kheaproots h ! w) + 16 * word_of_nat j)"
  then obtain v k where v: "v < 16" "k \<in> root_bits (kheaproots h ! v)" "kr_page (kheaproots h ! v) \<noteq> 0"
    "kr_page (kheaproots h ! w) + 16 * word_of_nat j = kr_page (kheaproots h ! v) + 16 * word_of_nat k"
    unfolding pr_used_def by (elim exE bexE conjE) (rule that)
  have k: "k < 256" using v(2) root_bits_bound(1) by auto
  have "pno (kr_page (kheaproots h ! w)) = pno (kr_page (kheaproots h ! v))"
    using entry_addr(2) [OF ok w(1,2)] entry_addr(2) [OF ok v(1) k] v(4) by simp
  then have e: "kr_page (kheaproots h ! w) = kr_page (kheaproots h ! v)"
    by (rule aligned_eq [OF roots_okD(2) [OF ok w(1)] roots_okD(2) [OF ok v(1)]])
  then have "unat (kr_page (kheaproots h ! w)) + 16 * j = unat (kr_page (kheaproots h ! w)) + 16 * k"
    using entry_addr(1) [OF ok w(1,2)] entry_addr(1) [OF ok v(1) k] v(4) by metis
  then have "j = k" by simp
  then show "j \<in> root_bits (kheaproots h ! w)" using v(2) roots_distinct [OF ok w(1) v(1) w(3) e] by simp
next
  assume "j \<in> root_bits (kheaproots h ! w)"
  then show "pr_used h (kr_page (kheaproots h ! w) + 16 * word_of_nat j)"
    unfolding pr_used_def using w(1,3) by (intro exI [of _ w] conjI bexI [of _ j]) simp_all
qed

lemma pr_used_page:
  assumes "roots_ok h" "pr_used h p"
  shows "pno p \<in> rootpages h" "p \<noteq> 0" "pno p \<in> taken (kh_vm h)"
proof -
  obtain w j where w: "w < 16" "j \<in> root_bits (kheaproots h ! w)" "kr_page (kheaproots h ! w) \<noteq> 0"
    "p = kr_page (kheaproots h ! w) + 16 * word_of_nat j" using assms(2) by (auto simp: pr_used_def)
  have j: "j < 256" using w(2) root_bits_bound(1) by auto
  have e: "pno p = pno (kr_page (kheaproots h ! w))" using entry_addr(2) [OF assms(1) w(1) j] w(4) by simp
  then show "pno p \<in> rootpages h" using w unfolding rootpages_def by blast
  show "pno p \<in> taken (kh_vm h)" using e roots_okD(3) [OF assms(1) w(1,3)] by simp
  have "unat (kr_page (kheaproots h ! w)) > 0" using w(3) by (simp add: unat_gt_0)
  then have "unat p > 0" using entry_addr(1) [OF assms(1) w(1) j] w(4) by simp
  then show "p \<noteq> 0" by auto
qed

text \<open>What \<^verbatim>\<open>allocpageref\<close> achieves.\<close>

definition pr_new :: "kheap \<Rightarrow> u32 \<Rightarrow> kheap \<Rightarrow> bool" where
  "pr_new h p h' \<longleftrightarrow> h' = h\<lparr>kh_vm := kh_vm h', kheaproots := kheaproots h'\<rparr> \<and> vm_ok (kh_vm h') \<and> roots_ok h' \<and>
     taken (kh_vm h) \<subseteq> taken (kh_vm h') \<and> rootpages h' \<subseteq> rootpages h \<union> (taken (kh_vm h') - taken (kh_vm h)) \<and>
     (\<forall>q. pr_used h q \<longrightarrow> pr_used h' q) \<and> (p \<noteq> 0 \<longrightarrow> pr_used h' p \<and> \<not> pr_used h p) \<and>
     (p = 0 \<longrightarrow> exhausted (kh_vm h') \<or> (\<forall>w < 16. numinuse (kheaproots h ! w) \<ge> 256))"

lemma allocpagerefpage_cases:
  assumes ok: "vm_ok (kh_vm h)" and h: "\<not> kmalloc_spinlock h" "w < length (kheaproots h)" "kr_page (kheaproots h ! w) = 0"
  obtains (none) "allocpagerefpage w (lk h) = Ok () (lk h)" "exhausted (kh_vm h)"
  | (some) va m where "allocpagerefpage w (lk h) = Ok () (lk (upd_root w (\<lambda>r. r\<lparr>kr_page := va\<rparr>) (h\<lparr>kh_vm := m\<rparr>)))"
      "vm_ok m" "va \<noteq> 0" "unat va mod 4096 = 0" "pno va \<notin> taken (kh_vm h)" "taken m = insert (pno va) (taken (kh_vm h))"
      "\<not> exhausted (kh_vm h)"
proof -
  have one: "unat (1 :: u32) < 2 ^ 19" by simp
  show ?thesis
  proof (rule kalloc_cases [OF ok one])
    assume a: "kh_alloc_kpages 1 h = Ok 0 h" "unat (lastpaddr (kh_vm h)) < unat (firstpaddr (kh_vm h)) + 4096 * unat (1 :: u32)"
    have "allocpagerefpage w (lk h) = Ok () (lk h)" using h a(1) by (simp add: allocpagerefpage_def kunlock_lk klock_lk)
    then show ?thesis using none a(2) by (simp add: exhausted_def)
  next
    fix va m assume a: "kh_alloc_kpages 1 h = Ok va (h\<lparr>kh_vm := m\<rparr>)" "vm_ok m" "va \<noteq> 0" "unat va mod 4096 = 0"
      "unat va + 4096 * unat (1 :: u32) \<le> 2 ^ 32" "pages va (unat (1 :: u32)) \<inter> taken (kh_vm h) = {}"
      "taken m = taken (kh_vm h) \<union> pages va (unat (1 :: u32))" "unat (firstpaddr (kh_vm h)) + 4096 * unat (1 :: u32) \<le> unat (lastpaddr (kh_vm h))"
    have "va mod PAGE_SIZE = 0" using a(4) by (simp add: PAGE_SIZE_def u32_eq_iff unat_mod)
    then have "allocpagerefpage w (lk h) = Ok () (lk (upd_root w (\<lambda>r. r\<lparr>kr_page := va\<rparr>) (h\<lparr>kh_vm := m\<rparr>)))"
      using h a(1,3) by (simp add: allocpagerefpage_def kunlock_lk klock_lk)
    then show ?thesis by (rule some) (use a in \<open>simp_all add: pages_1 exhausted_def del: One_nat_def\<close>)
  qed
qed

lemma roots_ok_upd:
  assumes ok: "roots_ok h" and w: "w < 16" and r: "root_ok r" "kr_page r = kr_page (kheaproots h ! w)"
    "kr_page r = 0 \<Longrightarrow> numinuse r = 0 \<or> exhausted (kh_vm h)"
    and h': "kheaproots h' = (kheaproots h)[w := r]" "kh_vm h' = kh_vm h"
  shows "roots_ok h'" "rootpages h' = rootpages h"
proof -
  have l: "length (kheaproots h) = 16" using ok by (simp add: roots_ok_def)
  have p: "kr_page (kheaproots h' ! v) = kr_page (kheaproots h ! v)" if "v < 16" for v
    using r(2) h'(1) l that by (cases "v = w") simp_all
  have o: "v \<noteq> w \<Longrightarrow> kheaproots h' ! v = kheaproots h ! v" and s: "kheaproots h' ! w = r" for v
    using h'(1) l w by (simp_all add: nth_list_update)
  show "rootpages h' = rootpages h" unfolding rootpages_def using p by (metis (no_types, lifting))
  have ro: "root_ok (kheaproots h' ! v)" if "v < 16" for v
    using roots_okD(1) [OF ok that] o [of v] s r(1) by (cases "v = w") simp_all
  have z: "kr_page (kheaproots h' ! v) = 0 \<Longrightarrow> numinuse (kheaproots h' ! v) = 0 \<or> exhausted (kh_vm h')" if "v < 16" for v
    using roots_okD(4) [OF ok that] o [of v] s r(3) h'(2) by (cases "v = w") simp_all
  have q: "pno (kr_page (kheaproots h' ! v)) \<in> taken (kh_vm h') \<and>
      (\<forall>u < v. kr_page (kheaproots h' ! u) \<noteq> 0 \<and> kr_page (kheaproots h' ! u) \<noteq> kr_page (kheaproots h' ! v))"
    if "v < 16" "kr_page (kheaproots h' ! v) \<noteq> 0" for v
  proof -
    have "kr_page (kheaproots h ! v) \<noteq> 0" using that p by simp
    then have "pno (kr_page (kheaproots h ! v)) \<in> taken (kh_vm h)"
      "\<forall>u < v. kr_page (kheaproots h ! u) \<noteq> 0 \<and> kr_page (kheaproots h ! u) \<noteq> kr_page (kheaproots h ! v)"
      using ok that(1) unfolding roots_ok_def by blast+
    then show ?thesis using p that(1) h'(2) by simp
  qed
  show "roots_ok h'" unfolding roots_ok_def using ro z q h'(1) l by simp
qed

lemma pr_used_mono:
  assumes "\<And>v. v < 16 \<Longrightarrow> kr_page (kheaproots h ! v) \<noteq> 0 \<Longrightarrow>
      kr_page (kheaproots h' ! v) = kr_page (kheaproots h ! v) \<and> root_bits (kheaproots h ! v) \<subseteq> root_bits (kheaproots h' ! v)"
    and "pr_used h q"
  shows "pr_used h' q"
proof -
  obtain v k where v: "v < 16" "k \<in> root_bits (kheaproots h ! v)" "kr_page (kheaproots h ! v) \<noteq> 0"
    "q = kr_page (kheaproots h ! v) + 16 * word_of_nat k"
    using assms(2) unfolding pr_used_def by (elim exE bexE conjE) (rule that)
  then show ?thesis unfolding pr_used_def using assms(1) [OF v(1,3)]
    by (intro exI [of _ v] conjI bexI [of _ k]) auto
qed

lemma pr_index_entry: "i < 8 \<Longrightarrow> j < 32 \<Longrightarrow> i * 32 + j < (256 :: nat)"
  by simp

lemma allocpageref_take_paged:
  assumes ok: "roots_ok h" "vm_ok (kh_vm h)" and w: "w < 16" "i < 8" "j < 32" "\<not> bit (pagerefs_inuse (kheaproots h ! w) ! i) j"
    and pg: "kr_page (kheaproots h ! w) \<noteq> 0"
  shows "\<exists>p h'. allocpageref_take w i j (lk h) = Ok p (lk h') \<and> pr_new h p h'"
proof -
  let ?r = "kheaproots h ! w" and ?n = "i * 32 + j"
  have l: "length (kheaproots h) = 16" using ok(1) by (simp add: roots_ok_def)
  note rs = root_set [OF roots_okD(1) [OF ok(1) w(1)] w(2-4)]
  define h' where "h' = upd_root w (root_take i j) h"
  have R: "kheaproots h' = (kheaproots h)[w := root_take i j ?r]" "kh_vm h' = kh_vm h" by (simp_all add: h'_def)
  note ok' = roots_ok_upd [OF ok(1) w(1) rs(2) _ _ R]
  have ok1: "roots_ok h'" "rootpages h' = rootpages h" using ok' pg by simp_all
  have run: "allocpageref_take w i j (lk h) = Ok (kr_page ?r + 16 * word_of_nat ?n) (lk h')"
    using pg l w(1) by (simp add: allocpageref_take_def h'_def)
  have sub: "kr_page (kheaproots h' ! v) = kr_page (kheaproots h ! v) \<and> root_bits (kheaproots h ! v) \<subseteq> root_bits (kheaproots h' ! v)"
    if "v < 16" for v using R(1) l that rs(1) by (cases "v = w") auto
  have pg': "kr_page (kheaproots h' ! w) = kr_page ?r" "root_bits (kheaproots h' ! w) = insert ?n (root_bits ?r)"
    using R(1) l w(1) rs(1) by simp_all
  have "pr_used h' (kr_page ?r + 16 * word_of_nat ?n)"
    using pr_used_iff [OF ok1(1) w(1) pr_index_entry [OF w(2,3)]] pg pg' by simp
  moreover have "\<not> pr_used h (kr_page ?r + 16 * word_of_nat ?n)"
    using pr_used_iff [OF ok(1) w(1) pr_index_entry [OF w(2,3)]] pg rs(3) by simp
  moreover have "pr_used h' q" if "pr_used h q" for q by (rule pr_used_mono [OF _ that]) (rule sub)
  moreover have "h' = h\<lparr>kh_vm := kh_vm h', kheaproots := kheaproots h'\<rparr>" by (simp add: h'_def upd_root_def)
  moreover have "kr_page ?r + 16 * word_of_nat ?n \<noteq> 0" using pr_used_page(2) [OF ok1(1) calculation(1)] .
  ultimately have "pr_new h (kr_page ?r + 16 * word_of_nat ?n) h'" unfolding pr_new_def using ok(2) ok1 R(2) by simp
  then show ?thesis using run by blast
qed

text \<open>The first entry of a root that has no page yet: all roots before it have pages, unless memory is exhausted.\<close>

lemma roots_ok_page:
  assumes ok: "roots_ok h" and w: "w < 16" "kr_page (kheaproots h ! w) = 0" "\<forall>v < w. numinuse (kheaproots h ! v) \<noteq> 0"
    and ne: "\<not> exhausted (kh_vm h)" and va: "va \<noteq> 0" "unat va mod 4096 = 0" "pno va \<notin> taken (kh_vm h)"
    and m: "taken m = insert (pno va) (taken (kh_vm h))"
    and r: "root_ok r" "kr_page r = va" and h': "kheaproots h' = (kheaproots h)[w := r]" "kh_vm h' = m"
  shows "roots_ok h'" "rootpages h' = insert (pno va) (rootpages h)"
proof -
  have l: "length (kheaproots h) = 16" using ok by (simp add: roots_ok_def)
  have s: "kheaproots h' ! w = r" and o: "v \<noteq> w \<Longrightarrow> kheaproots h' ! v = kheaproots h ! v" for v
    using h'(1) l w(1) by simp_all
  have before: "kr_page (kheaproots h ! v) \<noteq> 0" if "v < w" for v
    using roots_okD(4) [OF ok, of v] that w(1,3) ne by auto
  have after: "kr_page (kheaproots h ! v) = 0" if "w < v" "v < 16" for v
    using ok that w(2) unfolding roots_ok_def by blast
  have fresh: "kr_page (kheaproots h ! v) \<noteq> va" if "v < 16" for v
    using roots_okD(3) [OF ok that] va(1,3) by auto
  show "rootpages h' = insert (pno va) (rootpages h)"
  proof (rule set_eqI)
    fix x
    have "x \<in> rootpages h' \<longleftrightarrow> (\<exists>v < 16. kr_page (kheaproots h' ! v) \<noteq> 0 \<and> x = pno (kr_page (kheaproots h' ! v)))"
      by (auto simp: rootpages_def)
    also have "\<dots> \<longleftrightarrow> x = pno va \<or> (\<exists>v < 16. kr_page (kheaproots h ! v) \<noteq> 0 \<and> x = pno (kr_page (kheaproots h ! v)))"
      using s o r(2) va(1) w(1,2) by metis
    also have "\<dots> \<longleftrightarrow> x \<in> insert (pno va) (rootpages h)" by (auto simp: rootpages_def)
    finally show "x \<in> rootpages h' \<longleftrightarrow> x \<in> insert (pno va) (rootpages h)" .
  qed
  have ro: "root_ok (kheaproots h' ! v)" if "v < 16" for v
    using roots_okD(1) [OF ok that] o [of v] s r(1) by (cases "v = w") simp_all
  have z: "numinuse (kheaproots h' ! v) = 0" if "v < 16" "kr_page (kheaproots h' ! v) = 0" for v
    using roots_okD(4) [OF ok that(1)] that o [of v] s r(2) va(1) ne by (cases "v = w") auto
  have q: "pno (kr_page (kheaproots h' ! v)) \<in> taken m" if "v < 16" "kr_page (kheaproots h' ! v) \<noteq> 0" for v
    using roots_okD(3) [OF ok that(1)] that(2) o [of v] s r(2) m by (cases "v = w") auto
  have d: "kr_page (kheaproots h' ! u) \<noteq> 0 \<and> kr_page (kheaproots h' ! u) \<noteq> kr_page (kheaproots h' ! v)"
    if v: "v < 16" "kr_page (kheaproots h' ! v) \<noteq> 0" "u < v" for u v
  proof (cases "v = w")
    case True
    then show ?thesis using before [of u] fresh [of u] o [of u] s r(2) v by simp
  next
    case False
    then have nz: "kr_page (kheaproots h ! v) \<noteq> 0" using v(2) o by simp
    then have "v < w" using after [of v] v(1) False by (metis linorder_neqE_nat)
    then have "u \<noteq> w" "kheaproots h' ! u = kheaproots h ! u" "kheaproots h' ! v = kheaproots h ! v" using v(3) o False by auto
    then show ?thesis using ok v nz unfolding roots_ok_def by metis
  qed
  show "roots_ok h'" unfolding roots_ok_def h'(2) using ro z q d h'(1) l by simp
qed

lemma allocpageref_take_unpaged:
  assumes ok: "roots_ok h" "vm_ok (kh_vm h)" "\<not> kmalloc_spinlock h"
    and w: "w < 16" "i < 8" "j < 32" "\<not> bit (pagerefs_inuse (kheaproots h ! w) ! i) j"
    and pg: "kr_page (kheaproots h ! w) = 0" and before: "\<forall>v < w. numinuse (kheaproots h ! v) \<noteq> 0"
  shows "\<exists>p h'. allocpageref_take w i j (lk h) = Ok p (lk h') \<and> pr_new h p h'"
proof -
  let ?r = "kheaproots h ! w" and ?n = "i * 32 + j"
  have l: "length (kheaproots h) = 16" using ok(1) by (simp add: roots_ok_def)
  note rs = root_set [OF roots_okD(1) [OF ok(1) w(1)] w(2-4)]
  define g where "g = upd_root w (root_take i j) h"
  have R: "kheaproots g = (kheaproots h)[w := root_take i j ?r]" "kh_vm g = kh_vm h" "\<not> kmalloc_spinlock g" using ok(3) by (simp_all add: g_def)
  have gw: "kr_page (kheaproots g ! w) = 0" "w < length (kheaproots g)" using R(1) l w(1) pg by simp_all
  have take: "allocpageref_take w i j (lk h) = kbind (allocpagerefpage w (lk g)) (\<lambda>_ h.
      if kr_page (kheaproots h ! w) = 0 then Ok 0 h else Ok (kr_page (kheaproots h ! w) + 16 * word_of_nat ?n) h)"
    using gw(1) by (simp add: allocpageref_take_def g_def)
  have sub: "kr_page (kheaproots g ! v) = kr_page (kheaproots h ! v) \<and> root_bits (kheaproots h ! v) \<subseteq> root_bits (kheaproots g ! v)"
    if "v < 16" for v using R(1) l that rs(1) by (cases "v = w") auto
  have mono: "pr_used g q" if "pr_used h q" for q by (rule pr_used_mono [OF _ that]) (rule sub)
  show ?thesis
  proof (rule allocpagerefpage_cases [of g w])
    show "vm_ok (kh_vm g)" "\<not> kmalloc_spinlock g" "w < length (kheaproots g)" "kr_page (kheaproots g ! w) = 0"
      using ok(2) R gw by simp_all
  next
    assume a: "allocpagerefpage w (lk g) = Ok () (lk g)" "exhausted (kh_vm g)"
    have "exhausted (kh_vm h)" using a(2) R(2) by simp
    note ok' = roots_ok_upd [OF ok(1) w(1) rs(2) _ _ R(1,2), simplified, OF disjI2 [OF this]]
    have "g = h\<lparr>kh_vm := kh_vm g, kheaproots := kheaproots g\<rparr>" by (simp add: g_def upd_root_def)
    then have "pr_new h 0 g" unfolding pr_new_def using ok(2) ok' R(2) mono a(2) by simp
    moreover have "allocpageref_take w i j (lk h) = Ok 0 (lk g)" using take a(1) gw by simp
    ultimately show ?thesis by blast
  next
    fix va m assume a: "allocpagerefpage w (lk g) = Ok () (lk (upd_root w (\<lambda>r. r\<lparr>kr_page := va\<rparr>) (g\<lparr>kh_vm := m\<rparr>)))"
      "vm_ok m" "va \<noteq> 0" "unat va mod 4096 = 0" "pno va \<notin> taken (kh_vm g)" "taken m = insert (pno va) (taken (kh_vm g))" "\<not> exhausted (kh_vm g)"
    define h' where "h' = upd_root w (\<lambda>r. r\<lparr>kr_page := va\<rparr>) (g\<lparr>kh_vm := m\<rparr>)"
    let ?r' = "(root_take i j ?r)\<lparr>kr_page := va\<rparr>"
    have R': "kheaproots h' = (kheaproots h)[w := ?r']" "kh_vm h' = m" using R(1) l w(1) by (simp_all add: h'_def)
    have rb: "root_bits ?r' = insert ?n (root_bits ?r)" using rs(1) by (simp add: root_bits_def)
    have "root_ok ?r'" using rs(2) a(4) by (simp add: root_ok_def root_bits_def)
    note ok' = roots_ok_page [OF ok(1) w(1) pg before, of va m, OF _ a(3,4) _ _ this _ R', simplified]
    have ok1: "roots_ok h'" "rootpages h' = insert (pno va) (rootpages h)" using ok' a R(2) by simp_all
    have W: "kheaproots h' ! w = ?r'" using R'(1) l w(1) by simp
    have run: "allocpageref_take w i j (lk h) = Ok (va + 16 * word_of_nat ?n) (lk h')"
      using take a(1,3) W by (simp add: h'_def [symmetric])
    have used: "pr_used h' (va + 16 * word_of_nat ?n)"
      using pr_used_iff [OF ok1(1) w(1) pr_index_entry [OF w(2,3)]] W a(3) rb by simp
    have "pno (va + 16 * word_of_nat ?n) = pno va"
      using entry_addr(2) [OF ok1(1) w(1) pr_index_entry [OF w(2,3)]] W by simp
    then have unused: "\<not> pr_used h (va + 16 * word_of_nat ?n)" using pr_used_page(3) [OF ok(1)] a(5) R(2) by metis
    have "kheaproots h' ! v = kheaproots h ! v" if "v \<noteq> w" for v using R'(1) that by simp
    then have m': "pr_used h' q" if "pr_used h q" for q by (intro pr_used_mono [OF _ that]) (use pg in \<open>metis order_refl\<close>)
    have "h' = h\<lparr>kh_vm := kh_vm h', kheaproots := kheaproots h'\<rparr>" by (simp add: h'_def g_def upd_root_def)
    moreover have "rootpages h' \<subseteq> rootpages h \<union> (taken (kh_vm h') - taken (kh_vm h))" using ok1(2) a(5,6) R(2) R'(2) by auto
    ultimately have "pr_new h (va + 16 * word_of_nat ?n) h'"
      unfolding pr_new_def using a(2,6) R(2) R'(2) ok1(1) used unused m' pr_used_page(2) [OF ok1(1) used] by auto
    then show ?thesis using run by blast
  qed
qed

lemma root_full:
  assumes "root_ok r" "\<forall>x \<in> set (pagerefs_inuse r). \<forall>k < 32. bit x k"
  shows "unat (numinuse r) = 256"
proof -
  have "bit (pagerefs_inuse r ! (j div 32)) (j mod 32)" if "j < 256" for j
    using assms that by (simp add: root_ok_def)
  then have "root_bits r = {..<256}" by (auto simp: root_bits_def)
  then show ?thesis using assms(1) by (simp add: root_ok_def)
qed

lemma allocpageref_from_ok:
  assumes ok: "roots_ok h" "vm_ok (kh_vm h)" "\<not> kmalloc_spinlock h" and "n \<le> 16" "\<forall>v < 16 - n. numinuse (kheaproots h ! v) \<ge> 256"
  shows "\<exists>p h'. allocpageref_from [16 - n..<16] (lk h) = Ok p (lk h') \<and> pr_new h p h'"
  using assms(4,5)
proof (induction n)
  case 0
  then have "pr_new h 0 h" using ok by (simp add: pr_new_def)
  then show ?case by auto
next
  case (Suc n)
  let ?w = "16 - Suc n"
  have w: "?w < 16" "Suc ?w = 16 - n" using Suc.prems(1) by auto
  have ups: "[?w..<16] = ?w # [16 - n..<16]" using upt_conv_Cons [OF w(1)] w(2) by simp
  have l: "?w < length (kheaproots h)" "length (pagerefs_inuse (kheaproots h ! ?w)) = 8"
    using ok(1) w(1) roots_okD(1) [OF ok(1) w(1)] by (simp_all add: roots_ok_def root_ok_def)
  show ?case
  proof (cases "numinuse (kheaproots h ! ?w) \<ge> 256")
    case True
    then have "\<forall>v < 16 - n. numinuse (kheaproots h ! v) \<ge> 256"
      using Suc.prems(2) unfolding w(2) [symmetric] by (simp add: less_Suc_eq)
    then have "\<exists>p h'. allocpageref_from [16 - n..<16] (lk h) = Ok p (lk h') \<and> pr_new h p h'" using Suc.IH Suc.prems(1) by simp
    then show ?thesis unfolding ups using l(1) True by simp
  next
    case False
    then have "unat (numinuse (kheaproots h ! ?w)) \<noteq> 256" by (auto simp: u32_le_iff)
    then have nf: "\<not> (\<forall>x \<in> set (pagerefs_inuse (kheaproots h ! ?w)). \<forall>k < 32. bit x k)"
      using root_full [OF roots_okD(1) [OF ok(1) w(1)]] by blast
    then obtain i j where ij: "inuse_words (pagerefs_inuse (kheaproots h ! ?w)) 0 = Some (Some (i, j))"
      using inuse_words_result [of "pagerefs_inuse (kheaproots h ! ?w)" 0] by (auto split: option.splits)
    then have b: "i < 8" "j < 32" "\<not> bit (pagerefs_inuse (kheaproots h ! ?w) ! i) j"
      using inuse_words_result [of "pagerefs_inuse (kheaproots h ! ?w)" 0] l(2) by simp_all
    have run: "allocpageref_from [?w..<16] (lk h) = allocpageref_take ?w i j (lk h)"
      unfolding ups using l(1) False ij by simp
    have "numinuse (kheaproots h ! v) \<noteq> 0" if "v < ?w" for v
    proof
      assume "numinuse (kheaproots h ! v) = 0"
      moreover have "256 \<le> numinuse (kheaproots h ! v)" using Suc.prems(2) that by blast
      ultimately show False by (simp add: u32_le_iff)
    qed
    then show ?thesis
      unfolding run using allocpageref_take_paged [OF ok(1,2) w(1) b] allocpageref_take_unpaged [OF ok w(1) b] by blast
  qed
qed

lemma allocpageref_ok:
  assumes "roots_ok h" "vm_ok (kh_vm h)" "\<not> kmalloc_spinlock h"
  obtains p h' where "allocpageref (lk h) = Ok p (lk h')" "pr_new h p h'"
  using allocpageref_from_ok [OF assms, of 16] that by (auto simp: allocpageref_def NUM_PAGEREFPAGES_def)

text \<open>Giving an entry back: the pages of all roots before the one of the entry are there.\<close>

lemma freepageref_from_ok:
  assumes ok: "roots_ok h" and w: "w < 16" "j \<in> root_bits (kheaproots h ! w)" "kr_page (kheaproots h ! w) \<noteq> 0" and "v \<le> w"
  shows "freepageref_from [v..<16] (kr_page (kheaproots h ! w) + 16 * word_of_nat j) (lk h) = Ok () (lk (upd_root w (root_drop j) h))"
  using assms(5)
proof (induction "w - v" arbitrary: v)
  case 0
  then have v: "v = w" by simp
  let ?r = "kheaproots h ! w"
  have j: "j < 256" "bit (pagerefs_inuse ?r ! (j div 32)) (j mod 32)" using w(2) by (simp_all add: root_bits_def)
  have l: "w < length (kheaproots h)" "length (pagerefs_inuse ?r) = 8"
    using ok w(1) roots_okD(1) [OF ok w(1)] by (simp_all add: roots_ok_def root_ok_def)
  have ups: "[v..<16] = w # [Suc w..<16]" using v w(1) upt_conv_Cons by simp
  show ?case unfolding ups
    using l w(3) j root_clear(3) [OF roots_okD(1) [OF ok w(1)] w(2)]
    by (simp add: Let_def pr_index_same NPAGEREFS_PER_PAGE_def and_exp_eq_0_iff_not_bit) (simp add: upd_root_def)
next
  case (Suc n)
  then have v: "v < w" by simp
  have ups: "[v..<16] = v # [Suc v..<16]" using v w(1) upt_conv_Cons by simp
  have l: "v < length (kheaproots h)" using ok v w(1) by (simp add: roots_ok_def)
  have nz: "kr_page (kheaproots h ! v) \<noteq> 0" "kr_page (kheaproots h ! w) \<noteq> kr_page (kheaproots h ! v)"
    using ok v w(1,3) unfolding roots_ok_def by metis+
  have j: "j < 256" using w(2) root_bits_bound(1) by auto
  have v16: "v < 16" using v w(1) by simp
  have "unat (pr_index (kr_page (kheaproots h ! w) + 16 * word_of_nat j) (kr_page (kheaproots h ! v))) \<ge> 256"
    by (rule pr_index_other [OF roots_okD(2) [OF ok v16] roots_okD(2) [OF ok w(1)] nz(2) j])
  then show ?case unfolding ups using Suc.hyps(1) [of "Suc v"] Suc.hyps(2) v l nz(1)
    by (simp add: Let_def NPAGEREFS_PER_PAGE_def)
qed

lemma freepageref_ok:
  assumes ok: "roots_ok h" and p: "pr_used h p"
  obtains h' where "freepageref p (lk h) = Ok () (lk h')" "h' = h\<lparr>kheaproots := kheaproots h'\<rparr>" "roots_ok h'"
    "rootpages h' = rootpages h" "\<forall>q. q \<noteq> p \<longrightarrow> pr_used h' q = pr_used h q"
proof -
  obtain w j where w: "w < 16" "j \<in> root_bits (kheaproots h ! w)" "kr_page (kheaproots h ! w) \<noteq> 0"
    "p = kr_page (kheaproots h ! w) + 16 * word_of_nat j"
    using p unfolding pr_used_def by (elim exE bexE conjE) (rule that)
  define h' where "h' = upd_root w (root_drop j) h"
  have l: "length (kheaproots h) = 16" using ok by (simp add: roots_ok_def)
  note rc = root_clear [OF roots_okD(1) [OF ok w(1)] w(2)]
  have R: "kheaproots h' = (kheaproots h)[w := root_drop j (kheaproots h ! w)]" "kh_vm h' = kh_vm h" by (simp_all add: h'_def)
  have ok': "roots_ok h'" "rootpages h' = rootpages h" using roots_ok_upd [OF ok w(1) rc(2) _ _ R] w(3) by simp_all
  have pg: "kr_page (kheaproots h' ! v) = kr_page (kheaproots h ! v)" if "v < 16" for v using R(1) l that by (cases "v = w") simp_all
  have rb: "root_bits (kheaproots h' ! v) = (if v = w then root_bits (kheaproots h ! v) - {j} else root_bits (kheaproots h ! v))" if "v < 16" for v
    using R(1) l that rc(1) by simp
  have "pr_used h' q = pr_used h q" if "q \<noteq> p" for q
  proof -
    have "pr_used h' q \<longleftrightarrow> (\<exists>v < 16. \<exists>k \<in> root_bits (kheaproots h' ! v). kr_page (kheaproots h ! v) \<noteq> 0 \<and> q = kr_page (kheaproots h ! v) + 16 * word_of_nat k)"
      unfolding pr_used_def using pg by (metis (no_types, lifting))
    also have "\<dots> \<longleftrightarrow> pr_used h q" unfolding pr_used_def using rb that w(4) by (metis (no_types, lifting) DiffD1 DiffI singletonD)
    finally show ?thesis .
  qed
  moreover have "freepageref p (lk h) = Ok () (lk h')"
    unfolding freepageref_def w(4) h'_def NUM_PAGEREFPAGES_def by (rule freepageref_from_ok [OF ok w(1-3)]) simp
  moreover have "h' = h\<lparr>kheaproots := kheaproots h'\<rparr>" by (simp add: h'_def upd_root_def)
  ultimately show ?thesis using that [of h'] ok' by blast
qed

end
