(* ===== verification/Kheap.thy ===== *)
theory Kheap
  imports Kmalloc
begin

text \<open>
  Correctness of the kernel heap of theory \<open>Kmalloc\<close> (\<^verbatim>\<open>kern/vm/kmalloc.c\<close>).

  The specification is a set of live blocks, each an address and a size: \<^verbatim>\<open>kmalloc\<close> adds a block
  disjoint from all others, \<^verbatim>\<open>kfree\<close> removes one, and neither touches the contents of any other
  block. The representation relation describes the two kinds of lists of pagerefs, the free list
  inside every page, the pages of pagerefs and the regions of whole pages. The interface
  \<open>allocator\<close> states the contract for its users.
\<close>

subsection \<open>One page\<close>

definition baddr :: "u32 \<Rightarrow> nat \<Rightarrow> nat \<Rightarrow> u32" where
  "baddr a t k = a + word_of_nat (k * bsz t)"

definition fhead :: "pageref \<Rightarrow> u32" where
  "fhead r = (if freelist_offset r = INVALID_OFFSET then 0 else PR_PAGEADDR r + ucast (freelist_offset r))"

text \<open>A pageref and the blocks of its page that are free, in the order of the free list.\<close>

definition page_rep :: "pageref \<Rightarrow> (u32 \<Rightarrow> u32) \<Rightarrow> nat list \<Rightarrow> bool" where
  "page_rep r W ks \<longleftrightarrow> unat (PR_BLOCKTYPE r) < 8 \<and> PR_PAGEADDR r \<noteq> 0 \<and> distinct ks \<and>
     (\<forall>k \<in> set ks. k < nblk (unat (PR_BLOCKTYPE r))) \<and> unat (nfree r) = length ks \<and>
     chain W (fhead r) (map (baddr (PR_PAGEADDR r) (unat (PR_BLOCKTYPE r))) ks)"

lemma block_bound:
  assumes "t < 8" "k < nblk t"
  shows "k * bsz t + bsz t \<le> 4096"
proof -
  have "Suc k * bsz t \<le> nblk t * bsz t" using assms(2) by (intro mult_right_mono) simp_all
  then show ?thesis using sizes_nth(3) [OF assms(1)] by (simp add: mult.commute)
qed

lemma baddr_unat:
  assumes "unat a mod 4096 = 0" "t < 8" "k < nblk t"
  shows "unat (baddr a t k) = unat a + k * bsz t" "pno (baddr a t k) = pno a"
proof -
  have "k * bsz t < 4096" using block_bound [OF assms(2,3)] sizes_nth(4) [OF assms(2)] by linarith
  then show "unat (baddr a t k) = unat a + k * bsz t" "pno (baddr a t k) = pno a"
    unfolding baddr_def by (rule unat_offset [OF assms(1)])+
qed

lemma baddr_inj:
  assumes "unat a mod 4096 = 0" "t < 8" "k < nblk t" "l < nblk t" "baddr a t k = baddr a t l"
  shows "k = l"
proof -
  have "k * bsz t = l * bsz t" using baddr_unat(1) [OF assms(1,2)] assms(3-5) by (metis add_left_cancel)
  then show ?thesis using sizes_nth(4) [OF assms(2)] by simp
qed

lemma baddr_nonzero: "unat a mod 4096 = 0 \<Longrightarrow> a \<noteq> 0 \<Longrightarrow> t < 8 \<Longrightarrow> k < nblk t \<Longrightarrow> baddr a t k \<noteq> 0"
  using baddr_unat(1) [of a t k] by (metis add_is_0 unat_0 unat_eq_zero)

text \<open>The bytes of a block.\<close>

definition inblk :: "u32 \<Rightarrow> nat \<Rightarrow> u32 \<Rightarrow> bool" where
  "inblk a n x \<longleftrightarrow> unat a \<le> unat x \<and> unat x < unat a + n"

lemma inblk_page:
  assumes a: "unat a mod 4096 = 0" and t: "t < 8" "k < nblk t" and x: "inblk (baddr a t k) (bsz t) x"
  shows "pno x = pno a"
proof -
  have "unat a \<le> unat x" "unat x < unat a + 4096"
    using x baddr_unat(1) [OF a t] block_bound [OF t] by (auto simp: inblk_def)
  moreover obtain q where "unat a = 4096 * q" using a by (metis mod_0_imp_dvd dvdE)
  ultimately have "unat x div 4096 = q" by (intro div_nat_eqI) simp_all
  then show ?thesis using \<open>unat a = 4096 * q\<close> by (simp add: pno_def)
qed

lemma div_eq_block: "k * b \<le> m \<Longrightarrow> m < k * b + b \<Longrightarrow> m div b = (k :: nat)"
  by (intro div_nat_eqI) (simp_all add: mult.commute)

lemma inblk_apart:
  assumes a: "unat a mod 4096 = 0" and t: "t < 8" "k < nblk t" "l < nblk t" "k \<noteq> l" and x: "inblk (baddr a t k) (bsz t) x"
  shows "\<not> inblk (baddr a t l) (bsz t) x"
proof
  assume y: "inblk (baddr a t l) (bsz t) x"
  let ?o = "unat x - unat a"
  have "?o div bsz t = k" "?o div bsz t = l"
    using x y baddr_unat(1) [OF a t(1,2)] baddr_unat(1) [OF a t(1,3)]
    unfolding inblk_def by (auto intro!: div_eq_block)
  then show False using t(4) by simp
qed

lemma inblk_start: "0 < n \<Longrightarrow> inblk a n a"
  by (simp add: inblk_def)

text \<open>Writing outside the free blocks of a page leaves its free list alone.\<close>

lemma page_rep_cong:
  assumes "page_rep r W ks" "\<And>k. k \<in> set ks \<Longrightarrow> W' (baddr (PR_PAGEADDR r) (unat (PR_BLOCKTYPE r)) k) = W (baddr (PR_PAGEADDR r) (unat (PR_BLOCKTYPE r)) k)"
  shows "page_rep r W' ks"
  using assms chain_cong [of "map (baddr (PR_PAGEADDR r) (unat (PR_BLOCKTYPE r))) ks" W' W] by (auto simp: page_rep_def)

lemma page_repD:
  assumes "page_rep r W ks"
  shows "unat (PR_BLOCKTYPE r) < 8" "PR_PAGEADDR r \<noteq> 0" "distinct ks" "unat (nfree r) = length ks"
    "k \<in> set ks \<Longrightarrow> k < nblk (unat (PR_BLOCKTYPE r))"
  using assms by (auto simp: page_rep_def)

subsection \<open>Taking a block from a page\<close>

lemma ucast_u16_unat: "unat (ucast (x :: u16) :: u32) = unat x"
  using unsigned_less [of x, where 'a = nat] by (simp add: unsigned_ucast_eq take_bit_nat_eq_self)

lemma page_rep_head:
  assumes "page_rep r W (k # ks)"
  shows "PR_PAGEADDR r + ucast (freelist_offset r) = baddr (PR_PAGEADDR r) (unat (PR_BLOCKTYPE r)) k"
    "unat (freelist_offset r) = k * bsz (unat (PR_BLOCKTYPE r))" "freelist_offset r \<noteq> INVALID_OFFSET"
    "W (baddr (PR_PAGEADDR r) (unat (PR_BLOCKTYPE r)) k) = (case ks of [] \<Rightarrow> 0 | l # _ \<Rightarrow> baddr (PR_PAGEADDR r) (unat (PR_BLOCKTYPE r)) l)"
proof -
  let ?a = "PR_PAGEADDR r" and ?t = "unat (PR_BLOCKTYPE r)"
  have a: "unat ?a mod 4096 = 0" by (rule pageaddr_aligned)
  have t: "?t < 8" "k < nblk ?t" using page_repD(1,5) [OF assms] by auto
  have f: "fhead r = baddr ?a ?t k" "baddr ?a ?t k \<noteq> 0" "chain W (W (baddr ?a ?t k)) (map (baddr ?a ?t) ks)"
    using assms by (auto simp: page_rep_def)
  show n: "freelist_offset r \<noteq> INVALID_OFFSET" using f(1,2) by (auto simp: fhead_def)
  show h: "?a + ucast (freelist_offset r) = baddr ?a ?t k" using f(1) n by (simp add: fhead_def)
  show "W (baddr ?a ?t k) = (case ks of [] \<Rightarrow> 0 | l # _ \<Rightarrow> baddr ?a ?t l)" using f(3) by (cases ks) simp_all
  have "(ucast (freelist_offset r) :: u32) = word_of_nat (k * bsz ?t)" using h unfolding baddr_def by (metis add_left_cancel)
  moreover have "k * bsz ?t < 2 ^ 32" using block_bound [OF t] by simp
  ultimately have "unat (ucast (freelist_offset r) :: u32) = k * bsz ?t" using unat_of_nat_u32 by metis
  then show "unat (freelist_offset r) = k * bsz ?t" by (simp add: ucast_u16_unat)
qed

lemma pageref_updates [simp]:
  "PR_PAGEADDR (r\<lparr>nfree := n\<rparr>) = PR_PAGEADDR r" "PR_PAGEADDR (r\<lparr>freelist_offset := f\<rparr>) = PR_PAGEADDR r"
  "PR_PAGEADDR (r\<lparr>next_all := a\<rparr>) = PR_PAGEADDR r" "PR_PAGEADDR (r\<lparr>next_samesize := a\<rparr>) = PR_PAGEADDR r"
  "PR_BLOCKTYPE (r\<lparr>nfree := n\<rparr>) = PR_BLOCKTYPE r" "PR_BLOCKTYPE (r\<lparr>freelist_offset := f\<rparr>) = PR_BLOCKTYPE r"
  "PR_BLOCKTYPE (r\<lparr>next_all := a\<rparr>) = PR_BLOCKTYPE r" "PR_BLOCKTYPE (r\<lparr>next_samesize := a\<rparr>) = PR_BLOCKTYPE r"
  by (simp_all add: PR_PAGEADDR_def PR_BLOCKTYPE_def)

text \<open>The pageref after the first free block has been taken.\<close>

definition taken_first :: "nat list \<Rightarrow> pageref \<Rightarrow> pageref" where
  "taken_first ks r = r\<lparr>nfree := nfree r - 1, freelist_offset :=
     (case ks of [] \<Rightarrow> INVALID_OFFSET | l # _ \<Rightarrow> word_of_nat (l * bsz (unat (PR_BLOCKTYPE r))))\<rparr>"

lemma taken_first_fields [simp]:
  "PR_PAGEADDR (taken_first ks r) = PR_PAGEADDR r" "PR_BLOCKTYPE (taken_first ks r) = PR_BLOCKTYPE r"
  "next_all (taken_first ks r) = next_all r" "next_samesize (taken_first ks r) = next_samesize r"
  by (simp_all add: taken_first_def)

lemma unat_u16_small: "n < 65536 \<Longrightarrow> unat (word_of_nat n :: u16) = n"
  by (simp add: unat_of_nat take_bit_nat_eq_self)

lemma fhead_block:
  assumes "t < 8" "l < nblk t" "freelist_offset r = word_of_nat (l * bsz t)"
  shows "fhead r = baddr (PR_PAGEADDR r) t l" "ucast (freelist_offset r) = (word_of_nat (l * bsz t) :: u32)"
proof -
  have "l * bsz t < 4096" using block_bound [OF assms(1,2)] sizes_nth(4) [OF assms(1)] by linarith
  then have u: "unat (freelist_offset r) = l * bsz t" "l * bsz t < 4096" unfolding assms(3) by (simp_all add: unat_u16_small del: of_nat_mult)
  then have "freelist_offset r \<noteq> INVALID_OFFSET" by (auto simp: INVALID_OFFSET_def)
  moreover show c: "ucast (freelist_offset r) = (word_of_nat (l * bsz t) :: u32)"
    using u unfolding u32_eq_iff ucast_u16_unat by (subst unat_of_nat_u32) simp_all
  ultimately show "fhead r = baddr (PR_PAGEADDR r) t l" unfolding fhead_def baddr_def c by simp
qed

lemma taken_first_rep:
  assumes p: "page_rep r W (k # ks)"
  shows "page_rep (taken_first ks r) W ks"
proof -
  let ?t = "unat (PR_BLOCKTYPE r)" and ?r = "taken_first ks r"
  have t: "?t < 8" by (rule page_repD(1) [OF p])
  have "unat (nfree r) = Suc (length ks)" using p by (simp add: page_rep_def)
  then have "nfree r \<noteq> 0" by auto
  then have n: "unat (nfree ?r) = length ks" using \<open>unat (nfree r) = Suc (length ks)\<close> unat_minus_one [of "nfree r"]
    by (simp add: taken_first_def)
  have c: "chain W (fhead ?r) (map (baddr (PR_PAGEADDR r) ?t) ks)"
  proof (cases ks)
    case Nil
    then show ?thesis by (simp add: fhead_def taken_first_def)
  next
    case (Cons l ls)
    then have "l < nblk ?t" using page_repD(5) [OF p, of l] by simp
    then have "fhead ?r = baddr (PR_PAGEADDR r) ?t l" using fhead_block(1) [OF t, of l ?r] Cons by (simp add: taken_first_def)
    moreover have "chain W (W (baddr (PR_PAGEADDR r) ?t k)) (map (baddr (PR_PAGEADDR r) ?t) ks)" using p by (simp add: page_rep_def)
    ultimately show ?thesis using Cons by simp
  qed
  show ?thesis using p n c by (simp add: page_rep_def)
qed

lemma doalloc_ok:
  assumes p: "page_rep (kh_prs h p) (kh_words h) (k # ks)" and lk: "\<not> kmalloc_spinlock h"
  shows "doalloc p (lk h) = Ok (baddr (PR_PAGEADDR (kh_prs h p)) (unat (PR_BLOCKTYPE (kh_prs h p))) k) (upd_pr p (taken_first ks) h)"
proof -
  let ?r = "kh_prs h p"
  let ?a = "PR_PAGEADDR ?r" and ?t = "unat (PR_BLOCKTYPE ?r)"
  note hd = page_rep_head [OF p]
  have t: "?t < 8" "k < nblk ?t" using page_repD(1,5) [OF p] by auto
  have "k * bsz ?t < 4096" using block_bound [OF t] sizes_nth(4) [OF t(1)] by linarith
  then have off: "(ucast (freelist_offset ?r) :: u32) < PAGE_SIZE"
    using hd(2) by (simp add: u32_less_iff ucast_u16_unat PAGE_SIZE_def)
  have n: "unat (nfree (taken_first ks ?r)) = length ks" by (rule page_repD(4) [OF taken_first_rep [OF p]])
  then have n': "unat (nfree ?r - 1) = length ks" by (simp add: taken_first_def)
  show ?thesis
  proof (cases ks)
    case Nil
    then have "nfree ?r - 1 = 0" "kh_words h (baddr ?a ?t k) = 0" using n' hd(4) by (simp_all add: word_unat_eq_iff)
    then show ?thesis unfolding doalloc_def Let_def using off hd(1) lk Nil
      by (simp add: kunlock_lk) (simp add: upd_pr_def taken_first_def)
  next
    case (Cons l ls)
    have l: "l < nblk ?t" using page_repD(5) [OF p, of l] Cons by simp
    have w: "kh_words h (baddr ?a ?t k) = baddr ?a ?t l" "baddr ?a ?t l \<noteq> 0"
      using hd(4) Cons baddr_nonzero [OF pageaddr_aligned page_repD(2) [OF p] t(1) l] by simp_all
    have lb: "l * bsz ?t < 4096" using block_bound [OF t(1) l] sizes_nth(4) [OF t(1)] by linarith
    have d: "baddr ?a ?t l - ?a = word_of_nat (l * bsz ?t)" unfolding baddr_def by simp
    then have lt: "baddr ?a ?t l - ?a < PAGE_SIZE" unfolding d u32_less_iff
      using lb by (subst unat_of_nat_u32) (simp_all add: PAGE_SIZE_def)
    have "ucast (baddr ?a ?t l - ?a) = (word_of_nat (l * bsz ?t) :: u16)"
      unfolding d word_unat_eq_iff using lb by (simp add: unsigned_ucast_eq unat_of_nat_u32 unat_u16_small take_bit_nat_eq_self del: of_nat_mult)
    moreover have "nfree ?r - 1 > 0" using n' Cons by (simp add: word_less_nat_alt)
    ultimately show ?thesis unfolding doalloc_def Let_def using off hd(1) lk Cons w lt
      by (simp add: kunlock_lk) (simp add: upd_pr_def taken_first_def)
  qed
qed

subsection \<open>A fresh page\<close>

lemma sizes_word: "t < 8 \<Longrightarrow> sizes ! t = word_of_nat (bsz t)"
  using sizes_nth(1,7) [of t] by (simp add: u32_eq_iff unat_of_nat_u32)

lemma baddr_step: "t < 8 \<Longrightarrow> a + word_of_nat i * sizes ! t = baddr a t i"
  by (simp add: sizes_word baddr_def)

lemma in_not_eq: "y \<notin> A \<Longrightarrow> x \<in> A \<Longrightarrow> x \<noteq> y"
  by blast

lemma init_freelist_ok:
  assumes a: "unat a mod 4096 = 0" "a \<noteq> 0" and t: "t < 8" and i: "0 < i" "i + m \<le> nblk t" and fl: "fl = baddr a t (i - 1)"
    and c: "chain (kh_words h) fl (map (baddr a t) (rev [0..<i]))"
  shows "\<exists>W. init_freelist m i a (sizes ! t) fl (lk h) = Ok (baddr a t (i + m - 1)) (lk (h\<lparr>kh_words := W\<rparr>)) \<and>
    chain W (baddr a t (i + m - 1)) (map (baddr a t) (rev [0..<i + m])) \<and> (\<forall>x. pno x \<noteq> pno a \<longrightarrow> W x = kh_words h x)"
  using i fl c
proof (induction m arbitrary: i fl h)
  case 0
  then show ?case by (intro exI [of _ "kh_words h"]) simp
next
  case (Suc m)
  let ?fl = "baddr a t i"
  have il: "i < nblk t" "i - 1 < nblk t" using Suc.prems(2) by auto
  have one: "word_of_nat i - 1 = (word_of_nat (i - 1) :: u32)" using Suc.prems(1) by simp
  have nx: "a + (word_of_nat i - 1) * sizes ! t = fl" unfolding one using baddr_step [OF t, of a "i - 1"] Suc.prems(3) by simp
  have ne: "?fl \<noteq> fl"
  proof
    assume "?fl = fl"
    then have "i = i - 1" unfolding Suc.prems(3) by (rule baddr_inj [OF a(1) t il])
    then show False using Suc.prems(1) by linarith
  qed
  have nz: "?fl \<noteq> 0" by (rule baddr_nonzero [OF a t il(1)])
  have notin: "?fl \<notin> set (map (baddr a t) (rev [0..<i]))" 
  proof
    assume "?fl \<in> set (map (baddr a t) (rev [0..<i]))"
    then obtain l where "l < i" "?fl = baddr a t l" by auto
    then show False using baddr_inj [OF a(1) t il(1), of l] il(1) by simp
  qed
  have "chain ((kh_words h)(?fl := fl)) fl (map (baddr a t) (rev [0..<i])) = chain (kh_words h) fl (map (baddr a t) (rev [0..<i]))"
    by (rule chain_cong, rule fun_upd_other, rule in_not_eq [OF notin])
  then have "chain ((kh_words h)(?fl := fl)) fl (map (baddr a t) (rev [0..<i]))" using Suc.prems(4) by (rule iffD2)
  then have c': "chain (kh_words (poke ?fl fl h)) ?fl (map (baddr a t) (rev [0..<Suc i]))" using nz by simp
  have pre: "0 < Suc i" "Suc i + m \<le> nblk t" "?fl = baddr a t (Suc i - 1)" using Suc.prems(2) by simp_all
  from Suc.IH [OF pre c'] obtain W where W: "init_freelist m (Suc i) a (sizes ! t) ?fl (lk (poke ?fl fl h)) = Ok (baddr a t (Suc i + m - 1)) (lk ((poke ?fl fl h)\<lparr>kh_words := W\<rparr>))"
      "chain W (baddr a t (Suc i + m - 1)) (map (baddr a t) (rev [0..<Suc i + m]))"
      "\<forall>x. pno x \<noteq> pno a \<longrightarrow> W x = kh_words (poke ?fl fl h) x"
    by (elim exE conjE) (rule that)
  have "init_freelist (Suc m) i a (sizes ! t) fl (lk h) = init_freelist m (Suc i) a (sizes ! t) ?fl (lk (poke ?fl fl h))"
    unfolding init_freelist.simps Let_def baddr_step [OF t] nx using ne by (simp only: kassert_True not_False_eq_True lk_updates)
  moreover have "(poke ?fl fl h)\<lparr>kh_words := W\<rparr> = h\<lparr>kh_words := W\<rparr>" by (simp add: poke_def)
  moreover have "\<forall>x. pno x \<noteq> pno a \<longrightarrow> W x = kh_words h x" using W(3) baddr_unat(2) [OF a(1) t il(1)] by auto
  moreover have e: "Suc i + m = i + Suc m" by simp
  ultimately have "init_freelist (Suc m) i a (sizes ! t) fl (lk h) = Ok (baddr a t (i + Suc m - 1)) (lk (h\<lparr>kh_words := W\<rparr>))"
    "chain W (baddr a t (i + Suc m - 1)) (map (baddr a t) (rev [0..<i + Suc m]))" "\<forall>x. pno x \<noteq> pno a \<longrightarrow> W x = kh_words h x"
    using W(1,2) unfolding e by simp_all
  then show ?case by blast
qed

definition fresh_pr :: "kheap \<Rightarrow> nat \<Rightarrow> u32 \<Rightarrow> pageref" where
  "fresh_pr h t a = \<lparr>next_samesize = sizebases h ! t, next_all = allbase h, pageaddr_and_blocktype = MKPAB a (word_of_nat t),
     freelist_offset = word_of_nat ((nblk t - 1) * bsz t), nfree = word_of_nat (nblk t)\<rparr>"

lemma fresh_pr_page:
  assumes "unat a mod 4096 = 0" "t < 8"
  shows "PR_PAGEADDR (fresh_pr h t a) = a" "unat (PR_BLOCKTYPE (fresh_pr h t a)) = t"
  using mkpab [OF assms(1), of "word_of_nat t"] assms(2) by (simp_all add: PR_PAGEADDR_def PR_BLOCKTYPE_def fresh_pr_def unat_of_nat_u32)

lemma fresh_pr_rep:
  assumes a: "unat a mod 4096 = 0" "a \<noteq> 0" and t: "t < 8" and c: "chain W (baddr a t (nblk t - 1)) (map (baddr a t) (rev [0..<nblk t]))"
  shows "page_rep (fresh_pr h t a) W (rev [0..<nblk t])"
proof -
  have n: "nblk t - 1 < nblk t" "nblk t < 65536" using sizes_nth(5,6) [OF t] by auto
  have "fhead (fresh_pr h t a) = baddr a t (nblk t - 1)"
    using fhead_block(1) [OF t n(1), of "fresh_pr h t a"] fresh_pr_page [OF a(1) t] by (simp add: fresh_pr_def)
  then show ?thesis using a t c n(2) fresh_pr_page [OF a(1) t, of h]
    by (simp add: page_rep_def) (simp add: fresh_pr_def unat_u16_small)
qed

lemma new_page_ok:
  assumes a: "unat a mod 4096 = 0" "a \<noteq> 0" and t: "t < 8" and lk: "\<not> kmalloc_spinlock h"
  obtains W where "new_page t a p (lk h) = Ok (baddr a t (nblk t - 1))
      (h\<lparr>kh_words := W, kh_prs := (kh_prs h)(p := taken_first (rev [0..<nblk t - 1]) (fresh_pr h t a)),
         sizebases := (sizebases h)[t := p], allbase := p\<rparr>)"
    "page_rep (fresh_pr h t a) W (rev [0..<nblk t])" "\<forall>x. pno x \<noteq> pno a \<longrightarrow> W x = kh_words h x"
proof -
  let ?n = "nblk t" and ?r = "fresh_pr h t a"
  have n: "0 < ?n" "?n \<le> 256" "Suc (?n - 1) = ?n" using sizes_nth(5,6) [OF t] by auto
  have nf: "ucast (PAGE_SIZE div sizes ! t) = (word_of_nat ?n :: u16)"
    unfolding word_unat_eq_iff using n(2) sizes_nth(2) [OF t] by (simp add: unsigned_ucast_eq unat_u16_small take_bit_nat_eq_self)
  define g where "g = upd_pr p (\<lambda>r. r\<lparr>pageaddr_and_blocktype := MKPAB a (word_of_nat t), nfree := word_of_nat ?n\<rparr>) h"
  have b0: "baddr a t 0 = a" by (simp add: baddr_def)
  have "chain (kh_words (poke a 0 g)) a (map (baddr a t) (rev [0..<1]))" using b0 a(2) by simp
  then obtain W where W: "init_freelist (?n - 1) 1 a (sizes ! t) a (lk (poke a 0 g)) = Ok (baddr a t (?n - 1)) (lk ((poke a 0 g)\<lparr>kh_words := W\<rparr>))"
      "chain W (baddr a t (?n - 1)) (map (baddr a t) (rev [0..<?n]))" "\<forall>x. pno x \<noteq> pno a \<longrightarrow> W x = kh_words (poke a 0 g) x"
    using init_freelist_ok [OF a t, of 1 "?n - 1" a "poke a 0 g"] b0 n by auto
  have rep: "page_rep ?r W (rev [0..<?n])" by (rule fresh_pr_rep [OF a t W(2)])
  have lb: "(?n - 1) * bsz t < 4096" using block_bound [OF t, of "?n - 1"] n sizes_nth(4) [OF t] by linarith
  have d: "baddr a t (?n - 1) - a = word_of_nat ((?n - 1) * bsz t)" unfolding baddr_def by simp
  have fo: "ucast (baddr a t (?n - 1) - a) = (word_of_nat ((?n - 1) * bsz t) :: u16)"
    unfolding d word_unat_eq_iff using lb by (simp add: unsigned_ucast_eq unat_of_nat_u32 unat_u16_small take_bit_nat_eq_self del: of_nat_mult)
  have fo': "ucast (word_of_nat ((?n - 1) * bsz t) :: u16) = (word_of_nat ((?n - 1) * bsz t) :: u32)"
    unfolding u32_eq_iff ucast_u16_unat using lb by (simp add: unat_of_nat_u32 unat_u16_small del: of_nat_mult)
  have "(ucast (word_of_nat ?n :: u16) :: u32) = word_of_nat ?n"
    unfolding u32_eq_iff ucast_u16_unat using n(2) by (simp add: unat_of_nat_u32 unat_u16_small)
  then have "(ucast (word_of_nat ?n :: u16) - 1) * sizes ! t = (word_of_nat ((?n - 1) * bsz t) :: u32)"
    using n(1) by (simp add: sizes_word [OF t])
  then have as: "ucast (word_of_nat ((?n - 1) * bsz t) :: u16) = (ucast (word_of_nat ?n :: u16) - 1) * sizes ! t" using fo' by simp
  define h1 where "h1 = h\<lparr>kh_words := W, kh_prs := (kh_prs h)(p := ?r), sizebases := (sizebases h)[t := p], allbase := p\<rparr>"
  have un: "unat (word_of_nat ?n :: u16) = ?n" using n(2) by (simp add: unat_u16_small)
  define h2 where "h2 = upd_pr p (\<lambda>r. r\<lparr>freelist_offset := word_of_nat ((?n - 1) * bsz t)\<rparr>) ((poke a 0 g)\<lparr>kh_words := W\<rparr>)"
  define h3 where "h3 = (upd_pr p (\<lambda>r. r\<lparr>next_samesize := sizebases h ! t\<rparr>) h2)\<lparr>sizebases := (sizebases h)[t := p]\<rparr>"
  have "(upd_pr p (\<lambda>r. r\<lparr>next_all := allbase h\<rparr>) h3)\<lparr>allbase := p\<rparr> = h1"
    unfolding h3_def h2_def g_def h1_def by (cases h; cases "kh_prs h p") (simp add: upd_pr_def poke_def fresh_pr_def)
  moreover have "sizebases h2 = sizebases h" "allbase h3 = allbase h" "freelist_offset (kh_prs h2 p) = word_of_nat ((?n - 1) * bsz t)"
    by (simp_all add: h3_def h2_def g_def del: of_nat_mult)
  moreover have gs: "sizebases g = sizebases h" "allbase g = allbase h" by (simp_all add: g_def)
  moreover have "nfree (kh_prs g p) = word_of_nat ?n" by (simp add: g_def)
  ultimately have "new_page t a p (lk h) = doalloc p (lk h1)"
    unfolding new_page_def Let_def nf
    using W(1) as un by (simp add: g_def [symmetric] fo h2_def [symmetric] h3_def [symmetric] gs del: of_nat_mult One_nat_def)
  moreover have "rev [0..<?n] = (?n - 1) # rev [0..<?n - 1]" using n(3) by (metis rev.simps(2) rev_append upt_Suc_append append_Cons append_Nil le0 rev_singleton_conv)
  then have "doalloc p (lk h1) = Ok (baddr a t (?n - 1)) (upd_pr p (taken_first (rev [0..<?n - 1])) h1)"
    using doalloc_ok [of h1 p "?n - 1" "rev [0..<?n - 1]"] rep lk fresh_pr_page [OF a(1) t, of h] by (simp add: h1_def)
  ultimately show ?thesis using that [of W] rep W(3) by (simp add: h1_def upd_pr_def g_def)
qed

subsection \<open>Giving a block back to its page\<close>

lemma poke_words: "poke a x (h\<lparr>kh_words := V\<rparr>) = h\<lparr>kh_words := V(a := x)\<rparr>"
  by (simp add: poke_def)

lemma fill_deadbeef_ok:
  assumes "unat ptr + 4 * n \<le> 2 ^ 32"
  shows "\<exists>W. fill_deadbeef ptr n (lk h) = lk (h\<lparr>kh_words := W\<rparr>) \<and> (\<forall>x. \<not> inblk ptr (4 * n) x \<longrightarrow> W x = kh_words h x)"
  using assms
proof (induction n arbitrary: ptr h)
  case 0
  show ?case by (intro exI [of _ "kh_words h"]) simp
next
  case (Suc n)
  show ?case
  proof (cases n)
    case 0
    then have "fill_deadbeef ptr (Suc n) (lk h) = lk (poke ptr 0xdeadbeef h)" by simp
    also have "poke ptr 0xdeadbeef h = h\<lparr>kh_words := (kh_words h)(ptr := 0xdeadbeef)\<rparr>" by (simp add: poke_def)
    finally have "fill_deadbeef ptr (Suc n) (lk h) = lk (h\<lparr>kh_words := (kh_words h)(ptr := 0xdeadbeef)\<rparr>)" .
    moreover have "((kh_words h)(ptr := 0xdeadbeef)) x = kh_words h x" if "\<not> inblk ptr (4 * Suc n) x" for x
      using that by (auto simp: inblk_def)
    ultimately show ?thesis by blast
  next
    case (Suc m)
    have u: "unat (ptr + 4) = unat ptr + 4" using Suc.prems Suc by (subst unat_add_small) simp_all
    then have "unat (ptr + 4) + 4 * n \<le> 2 ^ 32" using Suc.prems by simp
    from Suc.IH [OF this, of "poke ptr 0xdeadbeef h"] obtain W where
      W: "fill_deadbeef (ptr + 4) n (lk (poke ptr 0xdeadbeef h)) = lk ((poke ptr 0xdeadbeef h)\<lparr>kh_words := W\<rparr>)"
        "\<forall>x. \<not> inblk (ptr + 4) (4 * n) x \<longrightarrow> W x = kh_words (poke ptr 0xdeadbeef h) x" by blast
    have "W x = kh_words h x" if "\<not> inblk ptr (4 * Suc n) x" for x
    proof -
      have "\<not> inblk (ptr + 4) (4 * n) x" "x \<noteq> ptr" using that u by (auto simp: inblk_def)
      then show ?thesis using W(2) by simp
    qed
    moreover have "(poke ptr 0xdeadbeef h)\<lparr>kh_words := W\<rparr> = h\<lparr>kh_words := W\<rparr>" by (simp add: poke_def)
    moreover have "fill_deadbeef ptr (Suc n) (lk h) = fill_deadbeef (ptr + 4) n (lk (poke ptr 0xdeadbeef h))" by simp
    ultimately have "fill_deadbeef ptr (Suc n) (lk h) = lk (h\<lparr>kh_words := W\<rparr>)" using W(1) by metis
    then show ?thesis using \<open>\<And>x. \<not> inblk ptr (4 * Suc n) x \<Longrightarrow> W x = kh_words h x\<close> by blast
  qed
qed

definition given_back :: "nat \<Rightarrow> pageref \<Rightarrow> pageref" where
  "given_back k r = r\<lparr>freelist_offset := word_of_nat (k * bsz (unat (PR_BLOCKTYPE r))), nfree := nfree r + 1\<rparr>"

lemma given_back_fields [simp]:
  "PR_PAGEADDR (given_back k r) = PR_PAGEADDR r" "PR_BLOCKTYPE (given_back k r) = PR_BLOCKTYPE r"
  "next_all (given_back k r) = next_all r" "next_samesize (given_back k r) = next_samesize r"
  by (simp_all add: given_back_def)

lemma given_back_rep:
  assumes p: "page_rep r W ks" and k: "k \<notin> set ks" "k < nblk (unat (PR_BLOCKTYPE r))" and len: "length ks < nblk (unat (PR_BLOCKTYPE r))"
    and W': "W' (baddr (PR_PAGEADDR r) (unat (PR_BLOCKTYPE r)) k) = fhead r"
      "\<And>l. l \<in> set ks \<Longrightarrow> W' (baddr (PR_PAGEADDR r) (unat (PR_BLOCKTYPE r)) l) = W (baddr (PR_PAGEADDR r) (unat (PR_BLOCKTYPE r)) l)"
  shows "page_rep (given_back k r) W' (k # ks)"
proof -
  let ?t = "unat (PR_BLOCKTYPE r)" and ?a = "PR_PAGEADDR r"
  have t: "?t < 8" by (rule page_repD(1) [OF p])
  have "unat (nfree r) < 65535" using len sizes_nth(6) [OF t] page_repD(4) [OF p] by simp
  then have n: "unat (nfree (given_back k r)) = Suc (length ks)"
    using page_repD(4) [OF p] by (simp add: given_back_def unat_word_ariths)
  have "fhead (given_back k r) = baddr ?a ?t k"
    using fhead_block(1) [OF t k(2), of "given_back k r"] by (simp add: given_back_def)
  moreover have "chain W' (fhead r) (map (baddr ?a ?t) ks)"
    using p W'(2) chain_cong [of "map (baddr ?a ?t) ks" W' W] by (auto simp: page_rep_def)
  moreover have "baddr ?a ?t k \<noteq> 0" by (rule baddr_nonzero [OF pageaddr_aligned page_repD(2) [OF p] t k(2)])
  ultimately show ?thesis using p k n W'(1) by (simp add: page_rep_def)
qed

lemma free_on_ok:
  assumes p: "page_rep (kh_prs h p) (kh_words h) ks" and a: "a = PR_PAGEADDR (kh_prs h p)" and tt: "t = unat (PR_BLOCKTYPE (kh_prs h p))"
    and k: "k \<notin> set ks" "k < nblk t" and len: "length ks < nblk t" and lk: "\<not> kmalloc_spinlock h"
  obtains W where "free_on (baddr a t k) p (lk h) =
      (if Suc (length ks) = nblk t then
         kbind (remove_lists p t (lk (upd_pr p (given_back k) (h\<lparr>kh_words := W\<rparr>)))) (\<lambda>_ h.
         kbind (freepageref p h) (\<lambda>_ h. kbind (kunlock h) (\<lambda>_ h. Ok True (kh_free_kpages a h))))
       else Ok True (upd_pr p (given_back k) (h\<lparr>kh_words := W\<rparr>)))"
    "page_rep (given_back k (kh_prs h p)) W (k # ks)" "\<forall>x. \<not> inblk (baddr a t k) (bsz t) x \<longrightarrow> W x = kh_words h x"
proof -
  let ?r = "kh_prs h p" and ?b = "baddr a t k"
  have al: "unat a mod 4096 = 0" unfolding a by (rule pageaddr_aligned)
  have t: "t < 8" using page_repD(1) [OF p] tt by simp
  have kb: "k * bsz t < 4096" using block_bound [OF t k(2)] sizes_nth(4) [OF t] by linarith
  have off: "?b - a = word_of_nat (k * bsz t)" unfolding baddr_def by simp
  have uo: "unat (?b - a) = k * bsz t" unfolding off using kb by (intro unat_of_nat_u32) simp
  have o1: "\<not> (?b - a \<ge> PAGE_SIZE)" using uo kb by (simp add: u32_le_iff PAGE_SIZE_def)
  have o2: "(?b - a) mod sizes ! t = 0" using uo sizes_nth(1) [OF t] by (simp add: u32_eq_iff unat_mod)
  have sz4: "4 * unat (sizes ! t div 4) = bsz t" using sizes_nth(1,8) [OF t] by (simp add: unat_div bsz_def)
  have room: "unat ?b + 4 * unat (sizes ! t div 4) \<le> 2 ^ 32"
    unfolding sz4 using baddr_unat(1) [OF al t k(2)] block_bound [OF t k(2)] aligned_room [OF al] by linarith
  from fill_deadbeef_ok [OF room, of h] obtain V where
    V: "fill_deadbeef ?b (unat (sizes ! t div 4)) (lk h) = lk (h\<lparr>kh_words := V\<rparr>)" "\<forall>x. \<not> inblk ?b (bsz t) x \<longrightarrow> V x = kh_words h x"
    unfolding sz4 by blast
  define W where "W = V(?b := fhead ?r)"
  have other: "W x = kh_words h x" if "\<not> inblk ?b (bsz t) x" for x
    using that V(2) inblk_start [OF sizes_nth(4) [OF t]] by (auto simp: W_def)
  have bl: "\<not> inblk ?b (bsz t) (baddr a t l)" if "l \<in> set ks" for l
  proof -
    have l: "l < nblk t" "k \<noteq> l" using page_repD(5) [OF p that] that k(1) tt by auto
    have "inblk (baddr a t l) (bsz t) (baddr a t l)" by (rule inblk_start [OF sizes_nth(4) [OF t]])
    then show ?thesis using inblk_apart [OF al t k(2) l] by blast
  qed
  have rep: "page_rep (given_back k ?r) W (k # ks)"
    by (rule given_back_rep [OF p]) (use k len tt a other [OF bl] in \<open>simp_all add: W_def\<close>)
  have nz: "fhead ?r \<noteq> ?b"
  proof (cases ks)
    case Nil
    then have "fhead ?r = 0" using p by (simp add: page_rep_def)
    then show ?thesis using baddr_nonzero [OF al _ t k(2)] page_repD(2) [OF p] a by auto
  next
    case (Cons l ls)
    then have "fhead ?r = baddr a t l" using p a tt by (simp add: page_rep_def)
    then show ?thesis using bl [of l] inblk_start [OF sizes_nth(4) [OF t], of ?b] Cons by auto
  qed
  let ?h1 = "upd_pr p (given_back k) (h\<lparr>kh_words := W\<rparr>)"
  have link: "(if freelist_offset ?r = INVALID_OFFSET then Ok () (poke ?b 0 (lk (h\<lparr>kh_words := V\<rparr>)))
       else kassert (?b \<noteq> a + ucast (freelist_offset ?r)) (Ok () (poke ?b (a + ucast (freelist_offset ?r)) (lk (h\<lparr>kh_words := V\<rparr>))))) =
      Ok () (lk (h\<lparr>kh_words := W\<rparr>))"
    using nz a by (auto simp: fhead_def W_def poke_words)
  have fo: "ucast (?b - a) = (word_of_nat (k * bsz t) :: u16)"
    unfolding off word_unat_eq_iff using kb by (simp add: unsigned_ucast_eq unat_of_nat_u32 unat_u16_small take_bit_nat_eq_self del: of_nat_mult)
  have upd: "upd_pr p (\<lambda>r. r\<lparr>freelist_offset := word_of_nat (k * bsz t), nfree := nfree r + 1\<rparr>) (h\<lparr>kh_words := W\<rparr>) = ?h1"
    by (simp add: upd_pr_def given_back_def tt)
  have nf: "unat (nfree (given_back k ?r)) = Suc (length ks)" using page_repD(4) [OF rep] by simp
  have cmp: "ucast (nfree (given_back k ?r)) \<le> PAGE_SIZE div sizes ! t"
    "ucast (nfree (given_back k ?r)) = PAGE_SIZE div sizes ! t \<longleftrightarrow> Suc (length ks) = nblk t"
    using nf len sizes_nth(2) [OF t] by (simp_all add: u32_le_iff u32_eq_iff ucast_u16_unat)
  have gb: "nfree (given_back k ?r) = nfree ?r + 1" by (simp add: given_back_def)
  have fla: "a + (?b - a) = ?b" and pr: "kh_prs (h\<lparr>kh_words := V\<rparr>) = kh_prs h" by simp_all
  have "free_on ?b p (lk h) =
      (if Suc (length ks) = nblk t then
         kbind (remove_lists p t (lk ?h1)) (\<lambda>_ h. kbind (freepageref p h) (\<lambda>_ h. kbind (kunlock h) (\<lambda>_ h. Ok True (kh_free_kpages a h))))
       else Ok True ?h1)"
    unfolding free_on_def Let_def lk_fields a [symmetric] tt [symmetric] V(1) fla pr link
    using o1 o2 cmp [unfolded gb] lk by (simp add: fo upd kunlock_lk del: of_nat_mult)
  then show ?thesis using that [OF _ rep] other by blast
qed

subsection \<open>Walking the lists\<close>

lemma find_page_ok:
  assumes "chain (\<lambda>p. next_samesize (kh_prs h p)) start xs" "\<forall>q \<in> set xs. unat (PR_BLOCKTYPE (kh_prs h q)) = t" "length xs < n"
  shows "\<exists>p. find_page n t start (lk h) = Ok p (lk h) \<and>
    (p = 0 \<and> (\<forall>q \<in> set xs. nfree (kh_prs h q) = 0) \<or> p \<in> set xs \<and> nfree (kh_prs h p) > 0)"
  using assms
proof (induction xs arbitrary: start n)
  case Nil
  then show ?case by (cases n) auto
next
  case (Cons x xs)
  then obtain m where n: "n = Suc m" by (cases n) auto
  have x: "start = x" "x \<noteq> 0" "chain (\<lambda>p. next_samesize (kh_prs h p)) (next_samesize (kh_prs h x)) xs" using Cons.prems(1) by auto
  have "unat (PR_BLOCKTYPE (kh_prs h x)) = t" using Cons.prems(2) by simp
  then have b: "PR_BLOCKTYPE (kh_prs h x) = word_of_nat t" using unat_of_nat_u32 [of t] unat_u32_less [of "PR_BLOCKTYPE (kh_prs h x)"]
    by (simp add: u32_eq_iff)
  show ?case
  proof (cases "nfree (kh_prs h x) > 0")
    case True
    then show ?thesis using x b n by simp
  next
    case False
    then have z: "nfree (kh_prs h x) = 0" by (simp add: word_neq_0_conv [symmetric])
    have "\<exists>p. find_page m t (next_samesize (kh_prs h x)) (lk h) = Ok p (lk h) \<and>
      (p = 0 \<and> (\<forall>q \<in> set xs. nfree (kh_prs h q) = 0) \<or> p \<in> set xs \<and> nfree (kh_prs h p) > 0)"
      by (rule Cons.IH [OF x(3)]) (use Cons.prems(2,3) n in auto)
    then show ?thesis using x b n z by auto
  qed
qed

lemma on_page:
  assumes a: "unat (a :: u32) mod 4096 = 0" "pno a < 2 ^ 20 - 1"
  shows "a \<le> x \<and> x < a + PAGE_SIZE \<longleftrightarrow> pno x = pno a"
proof -
  obtain q where q: "unat a = 4096 * q" using a(1) by (metis mod_0_imp_dvd dvdE)
  then have "q < 2 ^ 20 - 1" using a(2) by (simp add: pno_def)
  then have s: "unat (a + PAGE_SIZE) = 4096 * q + 4096" using q by (subst unat_add_small) (simp_all add: PAGE_SIZE_def)
  have "4096 * q \<le> unat x \<and> unat x < 4096 * q + 4096 \<longleftrightarrow> unat x div 4096 = q" by auto
  then show ?thesis using s q by (simp add: u32_order pno_def)
qed

lemma find_owner_ok:
  assumes "chain (\<lambda>p. next_all (kh_prs h p)) start xs" "length xs < n"
    "\<forall>q \<in> set xs. unat (PR_BLOCKTYPE (kh_prs h q)) < 8 \<and> pno (PR_PAGEADDR (kh_prs h q)) < 2 ^ 20 - 1"
  shows "\<exists>p. find_owner n x start (lk h) = Ok p (lk h) \<and>
    (p = 0 \<and> (\<forall>q \<in> set xs. pno x \<noteq> pno (PR_PAGEADDR (kh_prs h q))) \<or> p \<in> set xs \<and> pno x = pno (PR_PAGEADDR (kh_prs h p)))"
  using assms
proof (induction xs arbitrary: start n)
  case Nil
  then show ?case by (cases n) auto
next
  case (Cons y ys)
  then obtain m where n: "n = Suc m" by (cases n) auto
  have y: "start = y" "y \<noteq> 0" "chain (\<lambda>p. next_all (kh_prs h p)) (next_all (kh_prs h y)) ys" using Cons.prems(1) by auto
  have b: "unat (PR_BLOCKTYPE (kh_prs h y)) < NSIZES" "pno (PR_PAGEADDR (kh_prs h y)) < 2 ^ 20 - 1"
    using Cons.prems(3) by (auto simp: NSIZES_def)
  note op = on_page [OF pageaddr_aligned b(2), of x]
  show ?case
  proof (cases "pno x = pno (PR_PAGEADDR (kh_prs h y))")
    case True
    then show ?thesis using y b n op by (simp add: Let_def)
  next
    case False
    have "\<exists>p. find_owner m x (next_all (kh_prs h y)) (lk h) = Ok p (lk h) \<and>
      (p = 0 \<and> (\<forall>q \<in> set ys. pno x \<noteq> pno (PR_PAGEADDR (kh_prs h q))) \<or> p \<in> set ys \<and> pno x = pno (PR_PAGEADDR (kh_prs h p)))"
      by (rule Cons.IH [OF y(3)]) (use Cons.prems(2,3) n in auto)
    moreover have "find_owner n x start (lk h) = find_owner m x (next_all (kh_prs h y)) (lk h)"
      using y(1,2) b n op False by (simp add: Let_def) blast
    ultimately show ?thesis using False by auto
  qed
qed

text \<open>Two states that differ only in the links of one kind of list.\<close>

definition relinked_samesize :: "kheap \<Rightarrow> kheap \<Rightarrow> bool" where
  "relinked_samesize h h' \<longleftrightarrow> h' = h\<lparr>kh_prs := kh_prs h', sizebases := sizebases h'\<rparr> \<and>
     (\<forall>q. (kh_prs h' q)\<lparr>next_samesize := 0\<rparr> = (kh_prs h q)\<lparr>next_samesize := 0\<rparr>)"

definition relinked_all :: "kheap \<Rightarrow> kheap \<Rightarrow> bool" where
  "relinked_all h h' \<longleftrightarrow> h' = h\<lparr>kh_prs := kh_prs h', allbase := allbase h'\<rparr> \<and>
     (\<forall>q. (kh_prs h' q)\<lparr>next_all := 0\<rparr> = (kh_prs h q)\<lparr>next_all := 0\<rparr>)"

lemma remove_samesize_ok:
  assumes "chain (\<lambda>p. next_samesize (kh_prs h p)) (get_samesize t guy h) xs" "distinct xs" "pr \<in> set xs" "length xs < n"
    "\<forall>g. guy = Some g \<longrightarrow> g \<notin> set xs" "t < length (sizebases h)"
  shows "\<exists>h'. remove_samesize n t guy pr (lk h) = Ok () (lk h') \<and> relinked_samesize h h' \<and>
    chain (\<lambda>p. next_samesize (kh_prs h' p)) (get_samesize t guy h') (remove1 pr xs) \<and>
    (\<forall>q. q \<notin> set xs \<and> guy \<noteq> Some q \<longrightarrow> kh_prs h' q = kh_prs h q) \<and>
    length (sizebases h') = length (sizebases h) \<and> (\<forall>s. s \<noteq> t \<or> guy \<noteq> None \<longrightarrow> sizebases h' ! s = sizebases h ! s)"
  using assms
proof (induction xs arbitrary: guy n)
  case Nil
  then show ?case by simp
next
  case (Cons x xs)
  then obtain m where n: "n = Suc m" by (cases n) auto
  have x: "get_samesize t guy h = x" "x \<noteq> 0" "chain (\<lambda>p. next_samesize (kh_prs h p)) (next_samesize (kh_prs h x)) xs" using Cons.prems(1) by auto
  have gl: "get_samesize t guy (lk h) = get_samesize t guy h" by (simp add: get_samesize_def split: option.split)
  show ?case
  proof (cases "x = pr")
    case True
    define h' where "h' = set_samesize t guy (next_samesize (kh_prs h pr)) h"
    have sl: "set_samesize t guy (next_samesize (kh_prs h pr)) (lk h) = lk h'" by (simp add: h'_def set_samesize_def split: option.split)
    have run: "remove_samesize n t guy pr (lk h) = Ok () (lk h')" unfolding n remove_samesize.simps Let_def gl x(1) using True x(2) sl by simp
    have "get_samesize t guy h' = next_samesize (kh_prs h pr)"
      using Cons.prems(6) by (simp add: h'_def get_samesize_def set_samesize_def split: option.split)
    moreover have "next_samesize (kh_prs h' q) = next_samesize (kh_prs h q)" if "q \<in> set xs" for q
      using Cons.prems(5) that by (auto simp: h'_def set_samesize_def split: option.split)
    ultimately have "chain (\<lambda>p. next_samesize (kh_prs h' p)) (get_samesize t guy h') (remove1 pr (x # xs))"
      using x(3) True chain_cong [of xs "\<lambda>p. next_samesize (kh_prs h' p)" "\<lambda>p. next_samesize (kh_prs h p)"] by simp
    moreover have "relinked_samesize h h'" by (auto simp: h'_def relinked_samesize_def set_samesize_def upd_pr_def split: option.split)
    moreover have "\<forall>q. q \<notin> set (x # xs) \<and> guy \<noteq> Some q \<longrightarrow> kh_prs h' q = kh_prs h q"
      "length (sizebases h') = length (sizebases h)" "\<forall>s. s \<noteq> t \<or> guy \<noteq> None \<longrightarrow> sizebases h' ! s = sizebases h ! s"
      by (auto simp: h'_def set_samesize_def split: option.split)
    ultimately show ?thesis using run by blast
  next
    case False
    have pre: "chain (\<lambda>p. next_samesize (kh_prs h p)) (get_samesize t (Some x) h) xs" "distinct xs" "pr \<in> set xs" "length xs < m"
      "\<forall>g. Some x = Some g \<longrightarrow> g \<notin> set xs" using x(3) Cons.prems(2,3,4) False n by (auto simp: get_samesize_def)
    from Cons.IH [OF pre Cons.prems(6)] obtain h' where
      h': "remove_samesize m t (Some x) pr (lk h) = Ok () (lk h')" "relinked_samesize h h'"
        "chain (\<lambda>p. next_samesize (kh_prs h' p)) (get_samesize t (Some x) h') (remove1 pr xs)"
        "\<forall>q. q \<notin> set xs \<and> Some x \<noteq> Some q \<longrightarrow> kh_prs h' q = kh_prs h q"
        "length (sizebases h') = length (sizebases h)" "\<forall>s. s \<noteq> t \<or> Some x \<noteq> None \<longrightarrow> sizebases h' ! s = sizebases h ! s" by blast
    have run: "remove_samesize n t guy pr (lk h) = Ok () (lk h')" unfolding n remove_samesize.simps Let_def gl x(1) using False x(2) h'(1) by simp
    have "get_samesize t guy h' = x"
    proof (cases guy)
      case None
      then show ?thesis using x(1) h'(6) by (simp add: get_samesize_def)
    next
      case (Some g)
      then have "g \<notin> set xs" "g \<noteq> x" using Cons.prems(5) by auto
      then show ?thesis using x(1) h'(4) Some by (simp add: get_samesize_def)
    qed
    then have "chain (\<lambda>p. next_samesize (kh_prs h' p)) (get_samesize t guy h') (remove1 pr (x # xs))"
      using h'(3) x(2) False by (simp add: get_samesize_def)
    then show ?thesis using run h' by (intro exI [of _ h']) auto
  qed
qed

lemma remove_all_ok:
  assumes "chain (\<lambda>p. next_all (kh_prs h p)) (get_all guy h) xs" "distinct xs" "pr \<in> set xs" "length xs < n"
    "\<forall>g. guy = Some g \<longrightarrow> g \<notin> set xs"
  shows "\<exists>h'. remove_all n guy pr (lk h) = Ok () (lk h') \<and> relinked_all h h' \<and>
    chain (\<lambda>p. next_all (kh_prs h' p)) (get_all guy h') (remove1 pr xs) \<and>
    (\<forall>q. q \<notin> set xs \<and> guy \<noteq> Some q \<longrightarrow> kh_prs h' q = kh_prs h q) \<and>
    (guy \<noteq> None \<longrightarrow> allbase h' = allbase h)"
  using assms
proof (induction xs arbitrary: guy n)
  case Nil
  then show ?case by simp
next
  case (Cons x xs)
  then obtain m where n: "n = Suc m" by (cases n) auto
  have x: "get_all guy h = x" "x \<noteq> 0" "chain (\<lambda>p. next_all (kh_prs h p)) (next_all (kh_prs h x)) xs" using Cons.prems(1) by auto
  have gl: "get_all guy (lk h) = get_all guy h" by (simp add: get_all_def split: option.split)
  show ?case
  proof (cases "x = pr")
    case True
    define h' where "h' = set_all guy (next_all (kh_prs h pr)) h"
    have sl: "set_all guy (next_all (kh_prs h pr)) (lk h) = lk h'" by (simp add: h'_def set_all_def split: option.split)
    have run: "remove_all n guy pr (lk h) = Ok () (lk h')" unfolding n remove_all.simps Let_def gl x(1) using True x(2) sl by simp
    have "get_all guy h' = next_all (kh_prs h pr)"
      by (simp add: h'_def get_all_def set_all_def split: option.split)
    moreover have "next_all (kh_prs h' q) = next_all (kh_prs h q)" if "q \<in> set xs" for q
      using Cons.prems(5) that by (auto simp: h'_def set_all_def split: option.split)
    ultimately have "chain (\<lambda>p. next_all (kh_prs h' p)) (get_all guy h') (remove1 pr (x # xs))"
      using x(3) True chain_cong [of xs "\<lambda>p. next_all (kh_prs h' p)" "\<lambda>p. next_all (kh_prs h p)"] by simp
    moreover have "relinked_all h h'" by (auto simp: h'_def relinked_all_def set_all_def upd_pr_def split: option.split)
    moreover have "\<forall>q. q \<notin> set (x # xs) \<and> guy \<noteq> Some q \<longrightarrow> kh_prs h' q = kh_prs h q"
      "guy \<noteq> None \<longrightarrow> allbase h' = allbase h"
      by (auto simp: h'_def set_all_def split: option.split)
    ultimately show ?thesis using run by blast
  next
    case False
    have pre: "chain (\<lambda>p. next_all (kh_prs h p)) (get_all (Some x) h) xs" "distinct xs" "pr \<in> set xs" "length xs < m"
      "\<forall>g. Some x = Some g \<longrightarrow> g \<notin> set xs" using x(3) Cons.prems(2,3,4) False n by (auto simp: get_all_def)
    from Cons.IH [OF pre] obtain h' where
      h': "remove_all m (Some x) pr (lk h) = Ok () (lk h')" "relinked_all h h'"
        "chain (\<lambda>p. next_all (kh_prs h' p)) (get_all (Some x) h') (remove1 pr xs)"
        "\<forall>q. q \<notin> set xs \<and> Some x \<noteq> Some q \<longrightarrow> kh_prs h' q = kh_prs h q"
        "Some x \<noteq> None \<longrightarrow> allbase h' = allbase h" by blast
    have run: "remove_all n guy pr (lk h) = Ok () (lk h')" unfolding n remove_all.simps Let_def gl x(1) using False x(2) h'(1) by simp
    have "get_all guy h' = x"
    proof (cases guy)
      case None
      then show ?thesis using x(1) h'(5) by (simp add: get_all_def)
    next
      case (Some g)
      then have "g \<notin> set xs" "g \<noteq> x" using Cons.prems(5) by auto
      then show ?thesis using x(1) h'(4) Some by (simp add: get_all_def)
    qed
    then have "chain (\<lambda>p. next_all (kh_prs h' p)) (get_all guy h') (remove1 pr (x # xs))"
      using h'(3) x(2) False by (simp add: get_all_def)
    then show ?thesis using run h' by (intro exI [of _ h']) auto
  qed
qed

subsection \<open>The whole heap\<close>

abbreviation pg :: "kheap \<Rightarrow> u32 \<Rightarrow> u32" where
  "pg h p \<equiv> PR_PAGEADDR (kh_prs h p)"

abbreviation bt :: "kheap \<Rightarrow> u32 \<Rightarrow> nat" where
  "bt h p \<equiv> unat (PR_BLOCKTYPE (kh_prs h p))"

definition heappages :: "kheap \<Rightarrow> u32 list \<Rightarrow> nat set" where
  "heappages h prs = (\<lambda>p. pno (pg h p)) ` set prs"

text \<open>Regions of whole pages inside the pages \<open>T\<close>, away from the pages \<open>F\<close> and from each other.\<close>

definition region_ok :: "nat set \<Rightarrow> nat set \<Rightarrow> u32 \<Rightarrow> nat \<Rightarrow> bool" where
  "region_ok T F a n \<longleftrightarrow> 0 < n \<and> a \<noteq> 0 \<and> unat a mod 4096 = 0 \<and> unat a + 4096 * n \<le> 2 ^ 32 \<and> pages a n \<subseteq> T \<and> pages a n \<inter> F = {}"

definition big_ok :: "(u32 \<times> nat) set \<Rightarrow> nat set \<Rightarrow> nat set \<Rightarrow> bool" where
  "big_ok big T F \<longleftrightarrow> (\<forall>a n. (a, n) \<in> big \<longrightarrow> region_ok T F a n) \<and> (\<forall>r \<in> big. \<forall>q \<in> big. r \<noteq> q \<longrightarrow> apart r q)"

definition heap_rep :: "kheap \<Rightarrow> u32 list \<Rightarrow> (u32 \<Rightarrow> nat list) \<Rightarrow> (u32 \<times> nat) set \<Rightarrow> bool" where
  "heap_rep h prs ks big \<longleftrightarrow> roots_ok h \<and> vm_ok (kh_vm h) \<and> \<not> kmalloc_spinlock h \<and> length (sizebases h) = 8 \<and> distinct prs \<and>
     chain (\<lambda>p. next_all (kh_prs h p)) (allbase h) prs \<and>
     (\<forall>t < 8. chain (\<lambda>p. next_samesize (kh_prs h p)) (sizebases h ! t) (filter (\<lambda>p. bt h p = t) prs)) \<and>
     (\<forall>p \<in> set prs. pr_used h p \<and> page_rep (kh_prs h p) (kh_words h) (ks p) \<and> length (ks p) < nblk (bt h p)) \<and>
     inj_on (pg h) (set prs) \<and> heappages h prs \<inter> rootpages h = {} \<and> heappages h prs \<subseteq> taken (kh_vm h) \<and>
     big_ok big (taken (kh_vm h)) (heappages h prs \<union> rootpages h)"

text \<open>The live blocks: the blocks of the pages that are not on a free list, and the big regions.\<close>

definition live :: "kheap \<Rightarrow> u32 list \<Rightarrow> (u32 \<Rightarrow> nat list) \<Rightarrow> (u32 \<times> nat) set \<Rightarrow> (u32 \<times> nat) set" where
  "live h prs ks big =
     (\<lambda>(p, k). (baddr (pg h p) (bt h p) k, bsz (bt h p))) ` {(p, k). p \<in> set prs \<and> k < nblk (bt h p) \<and> k \<notin> set (ks p)} \<union>
     (\<lambda>(a, n). (a, 4096 * n)) ` big"

lemma heap_repD:
  assumes "heap_rep h prs ks big"
  shows "roots_ok h" "vm_ok (kh_vm h)" "\<not> kmalloc_spinlock h" "length (sizebases h) = 8" "distinct prs"
    "chain (\<lambda>p. next_all (kh_prs h p)) (allbase h) prs"
    "t < 8 \<Longrightarrow> chain (\<lambda>p. next_samesize (kh_prs h p)) (sizebases h ! t) (filter (\<lambda>p. bt h p = t) prs)"
    "inj_on (pg h) (set prs)" "heappages h prs \<inter> rootpages h = {}" "heappages h prs \<subseteq> taken (kh_vm h)"
    "big_ok big (taken (kh_vm h)) (heappages h prs \<union> rootpages h)"
  using assms unfolding heap_rep_def by blast+

lemma heap_rep_page:
  assumes "heap_rep h prs ks big" "p \<in> set prs"
  shows "pr_used h p" "page_rep (kh_prs h p) (kh_words h) (ks p)" "length (ks p) < nblk (bt h p)" "bt h p < 8"
    "pno (pg h p) \<in> taken (kh_vm h)"
proof -
  show a: "pr_used h p" "page_rep (kh_prs h p) (kh_words h) (ks p)" "length (ks p) < nblk (bt h p)"
    using assms unfolding heap_rep_def by blast+
  show "bt h p < 8" by (rule page_repD(1) [OF a(2)])
  show "pno (pg h p) \<in> taken (kh_vm h)" using heap_repD(10) [OF assms(1)] assms(2) by (auto simp: heappages_def)
qed

lemma taken_bound: "vm_ok m \<Longrightarrow> x \<in> taken m \<Longrightarrow> x < 2 ^ 20 - 1"
proof -
  assume "vm_ok m" "x \<in> taken m"
  then have "unat (firstpaddr m) \<le> 2 ^ 29" "x < 2 ^ 19 + unat (firstpaddr m) div 4096" by (simp_all add: vm_ok_def taken_def u32_le_iff)
  then show ?thesis by simp
qed

lemma page_unique:
  assumes "heap_rep h prs ks big" "p \<in> set prs" "q \<in> set prs" "pno (pg h p) = pno (pg h q)"
  shows "p = q"
  using aligned_eq [OF pageaddr_aligned pageaddr_aligned assms(4)] inj_onD [OF heap_repD(8) [OF assms(1)]] assms(2,3) by blast

lemma length_prs:
  assumes "heap_rep h prs ks big"
  shows "length prs < Suc TOTAL_PAGEREFS"
proof -
  let ?f = "\<lambda>(w, j). kr_page (kheaproots h ! w) + 16 * word_of_nat j"
  have "p \<in> ?f ` ({..<16} \<times> {..<256})" if p: "p \<in> set prs" for p
  proof -
    obtain w j where "w < 16" "j \<in> root_bits (kheaproots h ! w)" "p = kr_page (kheaproots h ! w) + 16 * word_of_nat j"
      using heap_rep_page(1) [OF assms p] unfolding pr_used_def by blast
    then show ?thesis using root_bits_bound(1) by (intro image_eqI [of _ _ "(w, j)"]) auto
  qed
  then have "card (set prs) \<le> card ({..<16 :: nat} \<times> {..<256 :: nat})" by (intro surj_card_le [where f = ?f]) auto
  then show ?thesis using distinct_card [OF heap_repD(5) [OF assms]]
    by (simp add: TOTAL_PAGEREFS_def NUM_PAGEREFPAGES_def NPAGEREFS_PER_PAGE_def card_cartesian_product)
qed

text \<open>The bytes of the live blocks are on pages that are taken, and different blocks do not overlap.\<close>

lemma inblk_pages:
  assumes "unat a mod 4096 = 0" "inblk a (4096 * n) x"
  shows "pno x \<in> pages a n"
proof -
  obtain q where q: "unat a = 4096 * q" using assms(1) by (metis mod_0_imp_dvd dvdE)
  then have "4096 * q \<le> unat x" "unat x < 4096 * (q + n)" using assms(2) by (simp_all add: inblk_def)
  then have "q \<le> unat x div 4096" "unat x div 4096 < q + n" by (simp_all add: less_mult_imp_div_less less_eq_div_iff_mult_less_eq mult.commute)
  then show ?thesis using q by (simp add: pages_def pno_def)
qed

lemma live_cases:
  assumes "(a, n) \<in> live h prs ks big"
  obtains (small) p k where "p \<in> set prs" "k < nblk (bt h p)" "k \<notin> set (ks p)" "a = baddr (pg h p) (bt h p) k" "n = bsz (bt h p)"
  | (big) m where "(a, m) \<in> big" "n = 4096 * m"
  using assms by (auto simp: live_def)

lemma live_page:
  assumes h: "heap_rep h prs ks big" and l: "(a, n) \<in> live h prs ks big" and x: "inblk a n x"
  shows "pno x \<in> taken (kh_vm h)"
  using l
proof (cases rule: live_cases)
  case (small p k)
  have "pno x = pno (pg h p)" using inblk_page [OF pageaddr_aligned heap_rep_page(4) [OF h small(1)] small(2)] x small(4,5) by simp
  then show ?thesis using heap_rep_page(5) [OF h small(1)] by simp
next
  case (big m)
  then have "unat a mod 4096 = 0" "pages a m \<subseteq> taken (kh_vm h)" using heap_repD(11) [OF h] by (auto simp: big_ok_def region_ok_def)
  then show ?thesis using inblk_pages [of a m x] x big(2) by auto
qed

lemma live_disjoint:
  assumes h: "heap_rep h prs ks big" and l: "(a, n) \<in> live h prs ks big" "(b, m) \<in> live h prs ks big" "(a, n) \<noteq> (b, m)"
  shows "\<not> (inblk a n x \<and> inblk b m x)"
proof
  assume x: "inblk a n x \<and> inblk b m x"
  have sp: "pno x = pno (pg h p)" if "p \<in> set prs" "k < nblk (bt h p)" "inblk (baddr (pg h p) (bt h p) k) (bsz (bt h p)) x" for p k
    using inblk_page [OF pageaddr_aligned heap_rep_page(4) [OF h that(1)] that(2,3)] .
  have bp: "pno x \<in> pages c j \<and> pages c j \<inter> heappages h prs = {}" if "(c, j) \<in> big" "inblk c (4096 * j) x" for c j
    using heap_repD(11) [OF h] that inblk_pages [of c j x] by (auto simp: big_ok_def region_ok_def)
  have nb: False if "p \<in> set prs" "k < nblk (bt h p)" "inblk (baddr (pg h p) (bt h p) k) (bsz (bt h p)) x" "(c, j) \<in> big" "inblk c (4096 * j) x" for p k c j
  proof -
    have "pno x \<in> heappages h prs" using sp [OF that(1-3)] that(1) by (auto simp: heappages_def)
    then show False using bp [OF that(4,5)] by blast
  qed
  from l(1) show False
  proof (cases rule: live_cases)
    case (small p k)
    note S = small
    from l(2) show False
    proof (cases rule: live_cases)
      case (small q j)
      have "p = q" using page_unique [OF h S(1) small(1)] sp [OF S(1,2)] sp [OF small(1,2)] x S(4,5) small(4,5) by simp
      moreover have "k \<noteq> j" using calculation l(3) S(4,5) small(4,5) by auto
      ultimately show False
        using inblk_apart [OF pageaddr_aligned heap_rep_page(4) [OF h S(1)] S(2), of j] small(2,4,5) S(4,5) x by auto
    next
      case (big j)
      then show False using nb [OF S(1,2), of b j] x S(4,5) by simp
    qed
  next
    case (big i)
    note S = big
    from l(2) show False
    proof (cases rule: live_cases)
      case (small q j)
      then show False using nb [OF small(1,2), of a i] x S by simp
    next
      case (big j)
      have "(a, i) \<noteq> (b, j)" using l(3) S big by auto
      then have "apart (a, i) (b, j)" using heap_repD(11) [OF h] S(1) big(1) unfolding big_ok_def by blast
      then show False using bp [OF S(1)] bp [OF big(1)] x S(2) big(2) by (auto simp: apart_def)
    qed
  qed
qed

subsection \<open>Preservation\<close>

lemma big_ok_mono:
  assumes "big_ok big T F" "T \<subseteq> T'" "F' \<subseteq> F \<union> (- T)"
  shows "big_ok big T' F'"
proof -
  have "region_ok T' F' a n" if "region_ok T F a n" for a n
    using that assms(2,3) unfolding region_ok_def by blast
  then show ?thesis using assms(1) unfolding big_ok_def by blast
qed

text \<open>More pages are taken, and the pages of pagerefs may grow into them.\<close>

lemma heap_rep_more:
  assumes h: "heap_rep h prs ks big" and h': "h' = h\<lparr>kh_vm := kh_vm h', kheaproots := kheaproots h'\<rparr>"
    and ok: "roots_ok h'" "vm_ok (kh_vm h')" and T: "taken (kh_vm h) \<subseteq> taken (kh_vm h')"
    and R: "rootpages h' \<subseteq> rootpages h \<union> (taken (kh_vm h') - taken (kh_vm h))" and U: "\<forall>q. pr_used h q \<longrightarrow> pr_used h' q"
  shows "heap_rep h' prs ks big" "live h' prs ks big = live h prs ks big"
proof -
  obtain m rs where "h' = h\<lparr>kh_vm := m, kheaproots := rs\<rparr>" by (rule that [OF h'])
  then have e: "kh_prs h' = kh_prs h" "kh_words h' = kh_words h" "sizebases h' = sizebases h" "allbase h' = allbase h" "kmalloc_spinlock h' = kmalloc_spinlock h"
    by simp_all
  show "live h' prs ks big = live h prs ks big" by (simp add: live_def e)
  have hp: "heappages h' prs = heappages h prs" by (simp add: heappages_def e)
  have "heappages h prs \<inter> rootpages h' = {}" using heap_repD(9,10) [OF h] R by blast
  moreover have "big_ok big (taken (kh_vm h')) (heappages h prs \<union> rootpages h')"
    by (rule big_ok_mono [OF heap_repD(11) [OF h] T]) (use R in blast)
  moreover have "heappages h prs \<subseteq> taken (kh_vm h')" using heap_repD(10) [OF h] T by blast
  moreover have "\<forall>p \<in> set prs. pr_used h' p \<and> page_rep (kh_prs h p) (kh_words h) (ks p) \<and> length (ks p) < nblk (bt h p)"
    using heap_rep_page(1-3) [OF h] U by blast
  ultimately show "heap_rep h' prs ks big"
    unfolding heap_rep_def e hp using heap_repD(3-8) [OF h] ok by (intro conjI allI impI) assumption+
qed

text \<open>One page changes: blocks of it move between its free list and its users.\<close>

lemma heap_rep_one:
  assumes h: "heap_rep h prs ks big" and p: "p \<in> set prs"
    and h': "h' = h\<lparr>kh_words := W, kh_prs := (kh_prs h)(p := r)\<rparr>"
    and r: "PR_PAGEADDR r = pg h p" "PR_BLOCKTYPE r = PR_BLOCKTYPE (kh_prs h p)" "next_all r = next_all (kh_prs h p)" "next_samesize r = next_samesize (kh_prs h p)"
    and rep: "page_rep r W ks'" "length ks' < nblk (bt h p)" and W: "\<And>x. pno x \<noteq> pno (pg h p) \<Longrightarrow> W x = kh_words h x"
  shows "heap_rep h' prs (ks(p := ks')) big"
proof -
  have e: "kh_vm h' = kh_vm h" "kheaproots h' = kheaproots h" "sizebases h' = sizebases h" "allbase h' = allbase h" "kmalloc_spinlock h' = kmalloc_spinlock h"
    "kh_words h' = W" by (simp_all add: h')
  have P: "PR_PAGEADDR (kh_prs h' q) = pg h q" "PR_BLOCKTYPE (kh_prs h' q) = PR_BLOCKTYPE (kh_prs h q)"
    "next_all (kh_prs h' q) = next_all (kh_prs h q)" "next_samesize (kh_prs h' q) = next_samesize (kh_prs h q)" for q
    using r by (simp_all add: h')
  have ru: "roots_ok h' = roots_ok h" "rootpages h' = rootpages h" "\<And>q. pr_used h' q = pr_used h q"
    by (simp_all add: roots_ok_def rootpages_def pr_used_def e)
  have hp: "heappages h' prs = heappages h prs" by (simp add: heappages_def P)
  have pages: "pr_used h q \<and> page_rep (kh_prs h' q) W ((ks(p := ks')) q) \<and> length ((ks(p := ks')) q) < nblk (bt h q)" if q: "q \<in> set prs" for q
  proof (cases "q = p")
    case True
    then show ?thesis using rep heap_rep_page(1) [OF h p] by (simp add: h')
  next
    case False
    note hq = heap_rep_page [OF h q]
    have "pno (pg h q) \<noteq> pno (pg h p)" using page_unique [OF h q p] False by blast
    then have "W (baddr (pg h q) (bt h q) k) = kh_words h (baddr (pg h q) (bt h q) k)" if "k \<in> set (ks q)" for k
      using W baddr_unat(2) [OF pageaddr_aligned hq(4) page_repD(5) [OF hq(2) that]] by simp
    then have "page_rep (kh_prs h q) W (ks q)" by (rule page_rep_cong [OF hq(2)])
    then show ?thesis using False hq(1,3) by (simp add: h')
  qed
  show ?thesis
    unfolding heap_rep_def e ru hp P using pages h unfolding heap_rep_def by blast
qed

lemma live_take:
  assumes h: "heap_rep h prs ks big" and p: "p \<in> set prs" and k: "ks p = k # ks'"
    and h': "\<And>q. PR_PAGEADDR (kh_prs h' q) = pg h q" "\<And>q. PR_BLOCKTYPE (kh_prs h' q) = PR_BLOCKTYPE (kh_prs h q)"
  shows "live h' prs (ks(p := ks')) big = insert (baddr (pg h p) (bt h p) k, bsz (bt h p)) (live h prs ks big)"
    "(baddr (pg h p) (bt h p) k, bsz (bt h p)) \<notin> live h prs ks big"
proof -
  note hp = heap_rep_page [OF h p]
  have kb: "k < nblk (bt h p)" "k \<notin> set ks'" using page_repD(3,5) [OF hp(2)] k by auto
  show "live h' prs (ks(p := ks')) big = insert (baddr (pg h p) (bt h p) k, bsz (bt h p)) (live h prs ks big)"
  proof -
    have "{(q, j). q \<in> set prs \<and> j < nblk (bt h q) \<and> j \<notin> set ((ks(p := ks')) q)} =
        insert (p, k) {(q, j). q \<in> set prs \<and> j < nblk (bt h q) \<and> j \<notin> set (ks q)}"
      using p k kb by (auto split: if_splits)
    then show ?thesis unfolding live_def h' by simp
  qed
  show "(baddr (pg h p) (bt h p) k, bsz (bt h p)) \<notin> live h prs ks big"
  proof
    assume "(baddr (pg h p) (bt h p) k, bsz (bt h p)) \<in> live h prs ks big"
    then show False
    proof (cases rule: live_cases)
      case (small q j)
      note hq = heap_rep_page [OF h small(1)]
      have "pno (pg h p) = pno (pg h q)" using baddr_unat(2) [OF pageaddr_aligned [of "kh_prs h p"] hp(4) kb(1)]
          baddr_unat(2) [OF pageaddr_aligned [of "kh_prs h q"] hq(4) small(2)] small(4) by simp
      then have "p = q" by (rule page_unique [OF h p small(1)])
      then have "k = j" using baddr_inj [OF pageaddr_aligned hp(4) kb(1), of j "kh_prs h p"] small(2,4) by simp
      then show False using small(3) k \<open>p = q\<close> by simp
    next
      case (big m)
      then have "pages (baddr (pg h p) (bt h p) k) m \<inter> heappages h prs = {}" "0 < m"
        using heap_repD(11) [OF h] by (auto simp: big_ok_def region_ok_def)
      moreover have "pno (pg h p) \<in> pages (baddr (pg h p) (bt h p) k) m"
        using baddr_unat(2) [OF pageaddr_aligned [of "kh_prs h p"] hp(4) kb(1)] \<open>0 < m\<close> by (simp add: pages_def pno_def)
      ultimately show False using p by (auto simp: heappages_def)
    qed
  qed
qed

subsection \<open>Allocation\<close>

text \<open>The heap \<open>h\<close> has exactly the live blocks \<open>L\<close>.\<close>

definition heap :: "kheap \<Rightarrow> (u32 \<times> nat) set \<Rightarrow> bool" where
  "heap h L \<longleftrightarrow> (\<exists>prs ks big. heap_rep h prs ks big \<and> L = live h prs ks big)"

text \<open>The contents of the blocks \<open>L\<close> are the same in both states.\<close>

definition kept :: "(u32 \<times> nat) set \<Rightarrow> kheap \<Rightarrow> kheap \<Rightarrow> bool" where
  "kept L h h' \<longleftrightarrow> (\<forall>(a, n) \<in> L. \<forall>x. inblk a n x \<longrightarrow> kh_words h' x = kh_words h x)"

text \<open>Why an allocation may fail: too few free pages, or every pageref in use.\<close>

definition refused :: "nat \<Rightarrow> kheap \<Rightarrow> kheap \<Rightarrow> bool" where
  "refused n h h' \<longleftrightarrow> unat (lastpaddr (kh_vm h')) < unat (firstpaddr (kh_vm h')) + 4096 * max 1 ((n + 4095) div 4096) \<or>
     (\<forall>w < 16. numinuse (kheaproots h ! w) \<ge> 256)"

lemma exhausted_refused: "exhausted (kh_vm h') \<Longrightarrow> refused n h h'"
proof -
  assume "exhausted (kh_vm h')"
  moreover have "4096 * 1 \<le> 4096 * max 1 ((n + 4095) div 4096)" by (intro mult_left_mono) simp_all
  ultimately show ?thesis unfolding exhausted_def refused_def by linarith
qed

definition alloc_result :: "kheap \<Rightarrow> (u32 \<times> nat) set \<Rightarrow> nat \<Rightarrow> u32 \<Rightarrow> kheap \<Rightarrow> bool" where
  "alloc_result h L n p h' \<longleftrightarrow> kept L h h' \<and>
     (p = 0 \<and> heap h' L \<and> refused n h h' \<or>
      p \<noteq> 0 \<and> 16 dvd unat p \<and> (\<exists>m \<ge> n. unat p + m \<le> 2 ^ 32 \<and> (p, m) \<notin> L \<and> heap h' (insert (p, m) L)))"

lemma take_block:
  assumes h: "heap_rep h prs ks big" and p: "p \<in> set prs" and k: "ks p = k # ks'" and n: "n \<le> bsz (bt h p)"
  shows "\<exists>q h'. doalloc p (lk h) = Ok q h' \<and> q \<noteq> 0 \<and> alloc_result h (live h prs ks big) n q h'"
proof -
  note hp = heap_rep_page [OF h p]
  let ?q = "baddr (pg h p) (bt h p) k" and ?h = "upd_pr p (taken_first ks') h"
  have rep: "page_rep (kh_prs h p) (kh_words h) (k # ks')" using hp(2) k by simp
  have kb: "k < nblk (bt h p)" using page_repD(5) [OF rep] by simp
  have h': "?h = h\<lparr>kh_words := kh_words h, kh_prs := (kh_prs h)(p := taken_first ks' (kh_prs h p))\<rparr>" by (simp add: upd_pr_def)
  have rep': "heap_rep ?h prs (ks(p := ks')) big"
    by (rule heap_rep_one [OF h p h' _ _ _ _ taken_first_rep [OF rep]]) (use hp(3) k in simp_all)
  have P: "PR_PAGEADDR (kh_prs ?h q) = pg h q" "PR_BLOCKTYPE (kh_prs ?h q) = PR_BLOCKTYPE (kh_prs h q)" for q by simp_all
  note lt = live_take [where h' = ?h, OF h p k P]
  have u: "unat ?q = unat (pg h p) + k * bsz (bt h p)" by (rule baddr_unat(1) [OF pageaddr_aligned hp(4) kb])
  obtain q where "unat (pg h p) = 4096 * q" using pageaddr_aligned [of "kh_prs h p"] by (metis mod_0_imp_dvd dvdE)
  then have "16 dvd unat (pg h p)" by (intro dvdI [of _ _ "256 * q"]) simp
  then have al: "16 dvd unat ?q" using u sizes_nth(8) [OF hp(4)] by simp
  have "unat ?q + bsz (bt h p) \<le> 2 ^ 32"
    using u block_bound [OF hp(4) kb] aligned_room [OF pageaddr_aligned [of "kh_prs h p"]] by linarith
  moreover have "?q \<noteq> 0" by (rule baddr_nonzero [OF pageaddr_aligned page_repD(2) [OF rep] hp(4) kb])
  moreover have "heap ?h (insert (?q, bsz (bt h p)) (live h prs ks big))" using rep' lt(1) unfolding heap_def by metis
  ultimately have "alloc_result h (live h prs ks big) n ?q ?h"
    unfolding alloc_result_def using al lt(2) n by (auto simp: kept_def)
  then show ?thesis using doalloc_ok [OF rep heap_repD(3) [OF h]] \<open>?q \<noteq> 0\<close> by blast
qed

lemma kept_same: "kh_words h' = kh_words h \<Longrightarrow> kept L h h'"
  by (simp add: kept_def)

text \<open>A fresh page joins the heap; its first block is handed out.\<close>

lemma heap_rep_push:
  assumes h: "heap_rep h prs ks big" and p: "pr_used h p" "p \<notin> set prs" and a: "unat a mod 4096 = 0" "a \<noteq> 0" and t: "t < 8"
    and fresh: "pno a \<in> taken (kh_vm h)" "pno a \<notin> heappages h prs" "pno a \<notin> rootpages h" "\<forall>b n. (b, n) \<in> big \<longrightarrow> pno a \<notin> pages b n"
    and rep: "page_rep (fresh_pr h t a) W (rev [0..<nblk t])" and W: "\<forall>x. pno x \<noteq> pno a \<longrightarrow> W x = kh_words h x"
    and h': "h' = h\<lparr>kh_words := W, kh_prs := (kh_prs h)(p := taken_first (rev [0..<nblk t - 1]) (fresh_pr h t a)),
      sizebases := (sizebases h)[t := p], allbase := p\<rparr>"
  shows "heap_rep h' (p # prs) (ks(p := rev [0..<nblk t - 1])) big"
    "live h' (p # prs) (ks(p := rev [0..<nblk t - 1])) big = insert (baddr a t (nblk t - 1), bsz t) (live h prs ks big)"
proof -
  let ?r = "taken_first (rev [0..<nblk t - 1]) (fresh_pr h t a)" and ?ks = "ks(p := rev [0..<nblk t - 1])"
  have n: "Suc (nblk t - 1) = nblk t" using sizes_nth(5) [OF t] by simp
  have "rev [0..<Suc (nblk t - 1)] = (nblk t - 1) # rev [0..<nblk t - 1]" by simp
  then have rv: "rev [0..<nblk t] = (nblk t - 1) # rev [0..<nblk t - 1]" unfolding n .
  have rep': "page_rep ?r W (rev [0..<nblk t - 1])" by (rule taken_first_rep [OF rep [unfolded rv]])
  have rp: "PR_PAGEADDR ?r = a" "unat (PR_BLOCKTYPE ?r) = t" "next_all ?r = allbase h" "next_samesize ?r = sizebases h ! t"
    using fresh_pr_page [OF a(1) t, of h] by simp_all (simp_all add: fresh_pr_def)
  have e: "kh_vm h' = kh_vm h" "kheaproots h' = kheaproots h" "kmalloc_spinlock h' = kmalloc_spinlock h" "kh_words h' = W"
    "allbase h' = p" "sizebases h' = (sizebases h)[t := p]" "kh_prs h' p = ?r" by (simp_all add: h')
  have o: "kh_prs h' q = kh_prs h q" if "q \<in> set prs" for q using that p(2) by (auto simp: h')
  have ru: "roots_ok h' = roots_ok h" "rootpages h' = rootpages h" "\<And>q. pr_used h' q = pr_used h q"
    by (simp_all add: roots_ok_def rootpages_def pr_used_def e)
  have hp: "heappages h' (p # prs) = insert (pno a) (heappages h prs)" using o rp(1) e(7) by (simp add: heappages_def)
  have pz: "p \<noteq> 0" by (rule pr_used_page(2) [OF heap_repD(1) [OF h] p(1)])
  have c1: "chain (\<lambda>q. next_all (kh_prs h' q)) (allbase h') (p # prs)"
    using heap_repD(6) [OF h] o rp(3) e pz chain_cong [of prs "\<lambda>q. next_all (kh_prs h' q)" "\<lambda>q. next_all (kh_prs h q)"] by simp
  have fl: "filter (\<lambda>q. bt h' q = s) prs = filter (\<lambda>q. bt h q = s) prs" for s using o by (intro filter_cong) simp_all
  have c2: "chain (\<lambda>q. next_samesize (kh_prs h' q)) (sizebases h' ! s) (filter (\<lambda>q. bt h' q = s) (p # prs))" if s: "s < 8" for s
  proof -
    have "chain (\<lambda>q. next_samesize (kh_prs h' q)) (sizebases h ! s) (filter (\<lambda>q. bt h q = s) prs)"
      using heap_repD(7) [OF h s] o
        chain_cong [of "filter (\<lambda>q. bt h q = s) prs" "\<lambda>q. next_samesize (kh_prs h' q)" "\<lambda>q. next_samesize (kh_prs h q)"] by simp
    then show ?thesis using rp(2,4) e pz heap_repD(4) [OF h] s fl [of s] by (cases "s = t") simp_all
  qed
  have pages: "pr_used h' q \<and> page_rep (kh_prs h' q) (kh_words h') (?ks q) \<and> length (?ks q) < nblk (bt h' q)" if q: "q \<in> set (p # prs)" for q
  proof (cases "q = p")
    case True
    then show ?thesis using rep' p(1) rp(2) e(4,7) ru(3) sizes_nth(5) [OF t] by simp
  next
    case False
    then have q': "q \<in> set prs" using q by simp
    note hq = heap_rep_page [OF h q']
    have "pno (pg h q) \<in> heappages h prs" using q' by (simp add: heappages_def)
    then have "pno (pg h q) \<noteq> pno a" using fresh(2) by metis
    then have "W (baddr (pg h q) (bt h q) k) = kh_words h (baddr (pg h q) (bt h q) k)" if "k \<in> set (ks q)" for k
      using W baddr_unat(2) [OF pageaddr_aligned hq(4) page_repD(5) [OF hq(2) that]] by simp
    then have "page_rep (kh_prs h q) W (ks q)" by (rule page_rep_cong [OF hq(2)])
    then show ?thesis using False hq(1,3) o [OF q'] e(4) ru(3) by simp
  qed
  have inj: "inj_on (pg h') (set (p # prs))"
  proof -
    have "a \<notin> pg h ` set prs" using fresh(2) by (auto simp: heappages_def)
    moreover have "pg h' ` set prs = pg h ` set prs" "inj_on (pg h') (set prs) = inj_on (pg h) (set prs)"
      using o by (auto intro!: inj_on_cong)
    ultimately show ?thesis using heap_repD(8) [OF h] p(2) rp(1) e(7) by simp
  qed
  have bg: "big_ok big (taken (kh_vm h)) (insert (pno a) (heappages h prs) \<union> rootpages h)"
    using heap_repD(11) [OF h] fresh(4) unfolding big_ok_def region_ok_def by simp
  show "heap_rep h' (p # prs) ?ks big"
    unfolding heap_rep_def
    using heap_repD(1-4,5,9,10) [OF h] p(2) c1 c2 pages inj bg fresh(1,3) by (simp add: e(1,3,6) ru(1,2) hp)
  have "{(q, j). q \<in> set (p # prs) \<and> j < nblk (bt h' q) \<and> j \<notin> set (?ks q)} =
      insert (p, nblk t - 1) {(q, j). q \<in> set prs \<and> j < nblk (bt h q) \<and> j \<notin> set (ks q)}" (is "?A = insert _ ?B")
    using o p(2) rp(2) e(7) n by (auto split: if_splits)
  moreover have "(\<lambda>(q, k). (baddr (pg h' q) (bt h' q) k, bsz (bt h' q))) ` ?B = (\<lambda>(q, k). (baddr (pg h q) (bt h q) k, bsz (bt h q))) ` ?B"
    using o by (intro image_cong) auto
  ultimately show "live h' (p # prs) ?ks big = insert (baddr a t (nblk t - 1), bsz t) (live h prs ks big)"
    unfolding live_def using rp(1,2) e(7) by simp
qed

text \<open>The slow path: a page from the VM system and a pageref for it.\<close>

lemma kept_pages:
  assumes "heap_rep h prs ks big" "\<And>x. pno x \<in> taken (kh_vm h) \<Longrightarrow> kh_words h' x = kh_words h x"
  shows "kept (live h prs ks big) h h'"
  unfolding kept_def using live_page [OF assms(1)] assms(2) by blast

lemma heap_rep_vm:
  assumes h: "heap_rep h prs ks big" and m: "vm_ok m" "taken (kh_vm h) \<subseteq> taken m" and ne: "\<not> exhausted (kh_vm h)"
  shows "heap_rep (h\<lparr>kh_vm := m\<rparr>) prs ks big" "live (h\<lparr>kh_vm := m\<rparr>) prs ks big = live h prs ks big"
proof -
  let ?h = "h\<lparr>kh_vm := m\<rparr>"
  have r: "roots_ok ?h" using heap_repD(1) [OF h] ne m(2) unfolding roots_ok_def by auto
  have e: "?h = h\<lparr>kh_vm := kh_vm ?h, kheaproots := kheaproots ?h\<rparr>" by simp
  have "rootpages ?h \<subseteq> rootpages h \<union> (taken (kh_vm ?h) - taken (kh_vm h))" "\<forall>q. pr_used h q \<longrightarrow> pr_used ?h q"
    "vm_ok (kh_vm ?h)" "taken (kh_vm h) \<subseteq> taken (kh_vm ?h)"
    using m by (auto simp: rootpages_def pr_used_def)
  from heap_rep_more [OF h e r this(3,4,1,2)]
  show "heap_rep ?h prs ks big" "live ?h prs ks big = live h prs ks big" by blast+
qed

lemma alloc_result_page:
  assumes h: "heap_rep h prs ks big" and ne: "\<not> exhausted (kh_vm h)" and t: "t < 8" and n: "n \<le> bsz t"
    and va: "va \<noteq> 0" "unat va mod 4096 = 0" "pno va \<notin> taken (kh_vm h)" and m: "vm_ok m" "taken m = insert (pno va) (taken (kh_vm h))"
    and p: "pr_new (h\<lparr>kh_vm := m\<rparr>) p h2"
  shows "\<exists>q h'. (if p = 0 then kbind (kunlock (lk h2)) (\<lambda>_ h. Ok 0 (kh_free_kpages va h)) else new_page t va p (lk h2)) = Ok q h' \<and>
    alloc_result h (live h prs ks big) n q h'"
proof -
  let ?h1 = "h\<lparr>kh_vm := m\<rparr>" and ?L = "live h prs ks big"
  have "taken (kh_vm h) \<subseteq> taken m" using m(2) by blast
  note h1 = heap_rep_vm [OF h m(1) this ne]
  have pn: "h2 = ?h1\<lparr>kh_vm := kh_vm h2, kheaproots := kheaproots h2\<rparr>" "vm_ok (kh_vm h2)" "roots_ok h2" "taken m \<subseteq> taken (kh_vm h2)"
    "rootpages h2 \<subseteq> rootpages ?h1 \<union> (taken (kh_vm h2) - taken m)" "\<forall>q. pr_used ?h1 q \<longrightarrow> pr_used h2 q" "p \<noteq> 0 \<longrightarrow> pr_used h2 p \<and> \<not> pr_used ?h1 p"
    using p unfolding pr_new_def by simp_all
  obtain vm rs where h2e: "h2 = ?h1\<lparr>kh_vm := vm, kheaproots := rs\<rparr>" by (rule that [OF pn(1)])
  have h2: "heap_rep h2 prs ks big" "live h2 prs ks big = ?L"
    using heap_rep_more [OF h1(1) pn(1,3,2) _ _ pn(6)] pn(4,5) h1(2) by simp_all
  have w2: "kh_words h2 = kh_words h" "kh_prs h2 = kh_prs h" "\<not> kmalloc_spinlock h2" using h2e heap_repD(3) [OF h] by simp_all
  show ?thesis
  proof (cases "p = 0")
    case True
    have "kh_free_kpages va h2 = h2" by (simp add: kh_free_kpages_def free_kpages_def)
    then have "kbind (kunlock (lk h2)) (\<lambda>_ h. Ok 0 (kh_free_kpages va h)) = Ok 0 h2" using w2(3) by (simp add: kunlock_lk)
    moreover have "heap h2 ?L" using h2 unfolding heap_def by metis
    moreover have "exhausted (kh_vm h2) \<or> (\<forall>w < 16. numinuse (kheaproots h ! w) \<ge> 256)" using p True unfolding pr_new_def by simp
    then have "refused n h h2" using exhausted_refused [of h2 n h] by (auto simp: refused_def)
    then have "alloc_result h ?L n 0 h2" using calculation(2) kept_same [OF w2(1)] by (simp add: alloc_result_def)
    ultimately show ?thesis using True by (intro exI [of _ 0] exI [of _ h2]) simp
  next
    case False
    have np: "p \<notin> set prs" using pn(7) False heap_rep_page(1) [OF h1(1)] by blast
    have pv: "pno va \<notin> rootpages h2" using pn(5) m(2) va(3) roots_okD(3) [OF heap_repD(1) [OF h]] by (auto simp: rootpages_def)
    have ph: "pno va \<notin> heappages h2 prs" using heap_repD(10) [OF h] va(3) w2(2) by (auto simp: heappages_def)
    have pb: "\<forall>b k. (b, k) \<in> big \<longrightarrow> pno va \<notin> pages b k" using heap_repD(11) [OF h] va(3) unfolding big_ok_def region_ok_def by blast
    have pt: "pno va \<in> taken (kh_vm h2)" using pn(4) m(2) by blast
    obtain W where W: "new_page t va p (lk h2) = Ok (baddr va t (nblk t - 1))
      (h2\<lparr>kh_words := W, kh_prs := (kh_prs h2)(p := taken_first (rev [0..<nblk t - 1]) (fresh_pr h2 t va)), sizebases := (sizebases h2)[t := p], allbase := p\<rparr>)"
      "page_rep (fresh_pr h2 t va) W (rev [0..<nblk t])" "\<forall>x. pno x \<noteq> pno va \<longrightarrow> W x = kh_words h2 x"
      by (rule new_page_ok [OF va(2,1) t w2(3)])
    define h' where "h' = h2\<lparr>kh_words := W, kh_prs := (kh_prs h2)(p := taken_first (rev [0..<nblk t - 1]) (fresh_pr h2 t va)), sizebases := (sizebases h2)[t := p], allbase := p\<rparr>"
    have "pr_used h2 p" using pn(7) False by blast
    note push = heap_rep_push [OF h2(1) this np va(2,1) t pt ph pv pb W(2,3) h'_def]
    let ?q = "baddr va t (nblk t - 1)"
    have nb: "nblk t - 1 < nblk t" using sizes_nth(5) [OF t] by simp
    note bu = baddr_unat [OF va(2) t nb]
    have "heap h' (insert (?q, bsz t) ?L)" using push h2(2) unfolding heap_def by metis
    moreover have "(?q, bsz t) \<notin> ?L" using live_page [OF h, of ?q "bsz t" ?q] inblk_start [OF sizes_nth(4) [OF t]] bu(2) va(3) by auto
    moreover have "?q \<noteq> 0" by (rule baddr_nonzero [OF va(2,1) t nb])
    moreover have "unat ?q + bsz t \<le> 2 ^ 32" using bu(1) block_bound [OF t nb] aligned_room [OF va(2)] by linarith
    moreover obtain s where "unat va = 4096 * s" using va(2) by (metis mod_0_imp_dvd dvdE)
    then have "16 dvd unat va" by (intro dvdI [of _ _ "256 * s"]) simp
    then have "16 dvd unat ?q" using bu(1) sizes_nth(8) [OF t] by simp
    moreover have "kh_words h' x = kh_words h x" if "pno x \<in> taken (kh_vm h)" for x
    proof -
      have "pno x \<noteq> pno va" using that va(3) by auto
      then show ?thesis using W(3) w2(1) by (simp add: h'_def)
    qed
    then have "kept ?L h h'" by (rule kept_pages [OF h])
    ultimately have "alloc_result h ?L n ?q h'" unfolding alloc_result_def using n by blast
    then show ?thesis using W(1) False unfolding h'_def by auto
  qed
qed

lemma subpage_kmalloc_ok:
  assumes h: "heap_rep h prs ks big" and sz: "unat sz \<le> 2048"
  shows "\<exists>p h'. subpage_kmalloc sz h = Ok p h' \<and> alloc_result h (live h prs ks big) (unat sz) p h'"
proof -
  let ?L = "live h prs ks big"
  obtain t where t: "blocktype sz = Some t" "t < 8" "unat sz \<le> bsz t" by (rule blocktype_ok [OF sz])
  let ?xs = "filter (\<lambda>p. bt h p = t) prs"
  have "length ?xs < Suc TOTAL_PAGEREFS" using length_prs [OF h] length_filter_le [of "\<lambda>p. bt h p = t" prs] by linarith
  from find_page_ok [OF heap_repD(7) [OF h t(2)] _ this] obtain p where
    p: "find_page (Suc TOTAL_PAGEREFS) t (sizebases h ! t) (lk h) = Ok p (lk h)"
      "p = 0 \<and> (\<forall>q \<in> set ?xs. nfree (kh_prs h q) = 0) \<or> p \<in> set ?xs \<and> nfree (kh_prs h p) > 0" by auto
  have run: "subpage_kmalloc sz h = (if p \<noteq> 0 then doalloc p (lk h)
      else kbind (kh_alloc_kpages 1 h) (\<lambda>prpage h.
        if prpage = 0 then Ok 0 h
        else kassert (prpage mod PAGE_SIZE = 0) (kbind (klock h) (\<lambda>_ h. kbind (allocpageref h) (\<lambda>pr h.
          if pr = 0 then kbind (kunlock h) (\<lambda>_ h. Ok 0 (kh_free_kpages prpage h)) else new_page t prpage pr h)))))"
    using p(1) heap_repD(3) [OF h] by (simp add: subpage_kmalloc_def t(1) klock_lk kunlock_lk del: find_page.simps)
  show ?thesis
  proof (cases "p = 0")
    case False
    then have pp: "p \<in> set prs" "bt h p = t" "nfree (kh_prs h p) > 0" using p(2) by auto
    then have "ks p \<noteq> []" using page_repD(4) [OF heap_rep_page(2) [OF h pp(1)]] by (auto simp: word_less_nat_alt)
    then obtain k ks' where "ks p = k # ks'" by (cases "ks p") auto
    from take_block [OF h pp(1) this, of "unat sz"] show ?thesis using run False t(3) pp(2) by auto
  next
    case True
    have one: "unat (1 :: u32) < 2 ^ 19" by simp
    show ?thesis
    proof (rule kalloc_cases [OF heap_repD(2) [OF h] one])
      assume "kh_alloc_kpages 1 h = Ok 0 h" "unat (lastpaddr (kh_vm h)) < unat (firstpaddr (kh_vm h)) + 4096 * unat (1 :: u32)"
      moreover have "heap h ?L" using h unfolding heap_def by blast
      moreover have "refused (unat sz) h h" using calculation(2) exhausted_refused [of h "unat sz" h] by (simp add: exhausted_def)
      ultimately show ?thesis using run True by (simp add: alloc_result_def kept_same)
    next
      fix va m assume a: "kh_alloc_kpages 1 h = Ok va (h\<lparr>kh_vm := m\<rparr>)" "vm_ok m" "va \<noteq> 0" "unat va mod 4096 = 0"
        "pages va (unat (1 :: u32)) \<inter> taken (kh_vm h) = {}" "taken m = taken (kh_vm h) \<union> pages va (unat (1 :: u32))"
        "unat (firstpaddr (kh_vm h)) + 4096 * unat (1 :: u32) \<le> unat (lastpaddr (kh_vm h))"
      have ne: "\<not> exhausted (kh_vm h)" using a(7) by (simp add: exhausted_def)
      have tm: "pno va \<notin> taken (kh_vm h)" "taken m = insert (pno va) (taken (kh_vm h))" "taken (kh_vm h) \<subseteq> taken m"
        using a(5,6) by (auto simp: pages_1 simp del: One_nat_def)
      note h1 = heap_rep_vm(1) [OF h a(2) tm(3) ne]
      obtain q h2 where q: "allocpageref (lk (h\<lparr>kh_vm := m\<rparr>)) = Ok q (lk h2)" "pr_new (h\<lparr>kh_vm := m\<rparr>) q h2"
        by (rule allocpageref_ok [OF heap_repD(1-3) [OF h1]])
      have "va mod PAGE_SIZE = 0" using a(4) by (simp add: PAGE_SIZE_def u32_eq_iff unat_mod)
      then have "subpage_kmalloc sz h = (if q = 0 then kbind (kunlock (lk h2)) (\<lambda>_ h. Ok 0 (kh_free_kpages va h)) else new_page t va q (lk h2))"
        using run True a(1,3) q(1) heap_repD(3) [OF h1] by (simp add: klock_lk)
      then show ?thesis using alloc_result_page [OF h ne t(2,3) a(3,4) tm(1) a(2) tm(2) q(2)] by simp
    qed
  qed
qed

lemma live_big: "live h prs ks (insert (a, n) big) = insert (a, 4096 * n) (live h prs ks big)"
  by (simp add: live_def)

lemma big_ok_insert:
  assumes "big_ok big T F" "region_ok T F a n" "\<And>r. r \<in> big \<Longrightarrow> apart (a, n) r \<and> apart r (a, n)"
  shows "big_ok (insert (a, n) big) T F"
  using assms unfolding big_ok_def by blast

text \<open>Whole pages.\<close>

lemma kmalloc_big_ok:
  assumes h: "heap_rep h prs ks big" and sz: "2048 \<le> unat sz" "unat sz < 2 ^ 31 - 4096"
  shows "\<exists>p h'. kmalloc sz h = Ok p h' \<and> alloc_result h (live h prs ks big) (unat sz) p h'"
proof -
  let ?np = "(sz + PAGE_SIZE - 1) div PAGE_SIZE" and ?L = "live h prs ks big"
  have "unat (sz + PAGE_SIZE - 1) = unat sz + 4095" using sz by (simp add: PAGE_SIZE_def unat_word_ariths)
  then have np: "unat ?np = (unat sz + 4095) div 4096" by (simp add: PAGE_SIZE_def unat_div)
  then have n: "unat ?np < 2 ^ 19" "0 < unat ?np" "unat sz \<le> 4096 * unat ?np" using sz by auto
  have L: "LARGEST_SUBPAGE_SIZE \<le> sz" using sz(1) by (simp add: LARGEST_SUBPAGE_SIZE_def u32_le_iff)
  show ?thesis
  proof (rule kalloc_cases [OF heap_repD(2) [OF h] n(1)])
    assume none: "kh_alloc_kpages ?np h = Ok 0 h" "unat (lastpaddr (kh_vm h)) < unat (firstpaddr (kh_vm h)) + 4096 * unat ?np"
    have "refused (unat sz) h h" using none(2) np n(2) by (simp add: refused_def)
    moreover from none(1) have "kmalloc sz h = Ok 0 h" using L by (simp add: kmalloc_def Let_def)
    moreover have "heap h ?L" using h unfolding heap_def by blast
    moreover have "alloc_result h ?L (unat sz) 0 h" using calculation(1,3) by (simp add: alloc_result_def kept_same)
    ultimately show ?thesis by blast
  next
    fix va m assume a: "kh_alloc_kpages ?np h = Ok va (h\<lparr>kh_vm := m\<rparr>)" "vm_ok m" "va \<noteq> 0" "unat va mod 4096 = 0"
      "unat va + 4096 * unat ?np \<le> 2 ^ 32" "pages va (unat ?np) \<inter> taken (kh_vm h) = {}" "taken m = taken (kh_vm h) \<union> pages va (unat ?np)"
      "unat (firstpaddr (kh_vm h)) + 4096 * unat ?np \<le> unat (lastpaddr (kh_vm h))"
    let ?h = "h\<lparr>kh_vm := m\<rparr>" and ?n = "unat ?np"
    have ne: "\<not> exhausted (kh_vm h)" using a(8) n(2) by (auto simp: exhausted_def)
    have tm: "taken (kh_vm h) \<subseteq> taken m" using a(7) by blast
    note h1 = heap_rep_vm [OF h a(2) tm ne]
    have "va mod PAGE_SIZE = 0" using a(4) by (simp add: PAGE_SIZE_def u32_eq_iff unat_mod)
    then have run: "kmalloc sz h = Ok va ?h" using L a(1,3) by (simp add: kmalloc_def Let_def)
    have eq: "heappages ?h prs = heappages h prs" "rootpages ?h = rootpages h" by (simp_all add: heappages_def rootpages_def)
    have "rootpages h \<subseteq> taken (kh_vm h)" using roots_okD(3) [OF heap_repD(1) [OF h]] unfolding rootpages_def by blast
    then have "pages va ?n \<inter> (heappages h prs \<union> rootpages h) = {}" using a(6) heap_repD(10) [OF h] by blast
    then have reg: "region_ok (taken m) (heappages ?h prs \<union> rootpages ?h) va ?n"
      unfolding region_ok_def eq using a(3,4,5,7) n(2) by blast
    have ap: "apart (va, ?n) r \<and> apart r (va, ?n)" if "r \<in> big" for r
    proof -
      have "pages (fst r) (snd r) \<subseteq> taken (kh_vm h)" using heap_repD(11) [OF h] that unfolding big_ok_def region_ok_def by (metis prod.collapse)
      then show ?thesis using a(6) unfolding apart_def fst_conv snd_conv by blast
    qed
    have "big_ok big (taken m) (heappages ?h prs \<union> rootpages ?h)" using heap_repD(11) [OF h1(1)] by simp
    then have "big_ok (insert (va, ?n) big) (taken m) (heappages ?h prs \<union> rootpages ?h)" using reg ap by (rule big_ok_insert)
    then have "heap_rep ?h prs ks (insert (va, ?n) big)" using h1(1) unfolding heap_rep_def by simp
    then have "heap ?h (insert (va, 4096 * ?n) ?L)" using live_big [of ?h prs ks va ?n big] h1(2) unfolding heap_def by metis
    moreover have "(va, 4096 * ?n) \<notin> ?L"
    proof
      assume "(va, 4096 * ?n) \<in> ?L"
      moreover have "inblk va (4096 * ?n) va" using n(2) by (simp add: inblk_def)
      ultimately have "pno va \<in> taken (kh_vm h)" by (rule live_page [OF h])
      moreover have "pno va \<in> pages va ?n" using n(2) by (simp add: pages_def pno_def)
      ultimately show False using a(6) by blast
    qed
    moreover obtain q where "unat va = 4096 * q" using a(4) by (metis mod_0_imp_dvd dvdE)
    then have "16 dvd unat va" by (intro dvdI [of _ _ "256 * q"]) simp
    ultimately have "alloc_result h ?L (unat sz) va ?h"
      unfolding alloc_result_def using a(3,5) n(3) by (auto simp: kept_same)
    then show ?thesis using run by blast
  qed
qed

lemma kmalloc_ok:
  assumes "heap h L" "unat sz < 2 ^ 31 - 4096"
  shows "\<exists>p h'. kmalloc sz h = Ok p h' \<and> alloc_result h L (unat sz) p h'"
proof -
  obtain prs ks big where h: "heap_rep h prs ks big" "L = live h prs ks big" using assms(1) by (auto simp: heap_def)
  show ?thesis
  proof (cases "unat sz < 2048")
    case True
    then have "\<not> LARGEST_SUBPAGE_SIZE \<le> sz" by (simp add: LARGEST_SUBPAGE_SIZE_def u32_le_iff)
    then have "kmalloc sz h = subpage_kmalloc sz h" by (simp add: kmalloc_def Let_def)
    then show ?thesis using subpage_kmalloc_ok [OF h(1), of sz] True h(2) by simp
  next
    case False
    then show ?thesis using kmalloc_big_ok [OF h(1), of sz] assms(2) h(2) by simp
  qed
qed

end
