(* ===== verification/KheapFree.thy ===== *)
theory KheapFree
  imports Kheap
begin

text \<open>
  Correctness of \<^verbatim>\<open>kfree\<close> (\<^verbatim>\<open>kern/vm/kmalloc.c\<close>) on the heaps of theory \<open>Kheap\<close>, and the interface
  \<open>allocator\<close> of the kernel heap: what its users may rely on for every sequence of calls.
\<close>

subsection \<open>A page leaves the heap\<close>

lemma relinkedD:
  assumes "relinked_samesize h h'"
  shows "kh_words h' = kh_words h" "kh_vm h' = kh_vm h" "kheaproots h' = kheaproots h" "allbase h' = allbase h" "kmalloc_spinlock h' = kmalloc_spinlock h"
    "PR_PAGEADDR (kh_prs h' q) = pg h q" "PR_BLOCKTYPE (kh_prs h' q) = PR_BLOCKTYPE (kh_prs h q)" "next_all (kh_prs h' q) = next_all (kh_prs h q)"
    "freelist_offset (kh_prs h' q) = freelist_offset (kh_prs h q)" "nfree (kh_prs h' q) = nfree (kh_prs h q)"
proof -
  obtain P S where "h' = h\<lparr>kh_prs := P, sizebases := S\<rparr>" using assms unfolding relinked_samesize_def by metis
  then show "kh_words h' = kh_words h" "kh_vm h' = kh_vm h" "kheaproots h' = kheaproots h" "allbase h' = allbase h" "kmalloc_spinlock h' = kmalloc_spinlock h"
    by simp_all
  have e: "(kh_prs h' q)\<lparr>next_samesize := 0\<rparr> = (kh_prs h q)\<lparr>next_samesize := 0\<rparr>" using assms unfolding relinked_samesize_def by blast
  show "PR_PAGEADDR (kh_prs h' q) = pg h q" "PR_BLOCKTYPE (kh_prs h' q) = PR_BLOCKTYPE (kh_prs h q)" "next_all (kh_prs h' q) = next_all (kh_prs h q)"
    "freelist_offset (kh_prs h' q) = freelist_offset (kh_prs h q)" "nfree (kh_prs h' q) = nfree (kh_prs h q)"
    using arg_cong [OF e, of PR_PAGEADDR] arg_cong [OF e, of PR_BLOCKTYPE] arg_cong [OF e, of next_all]
      arg_cong [OF e, of freelist_offset] arg_cong [OF e, of nfree] by simp_all
qed

lemma relinked_allD:
  assumes "relinked_all h h'"
  shows "kh_words h' = kh_words h" "kh_vm h' = kh_vm h" "kheaproots h' = kheaproots h" "sizebases h' = sizebases h" "kmalloc_spinlock h' = kmalloc_spinlock h"
    "PR_PAGEADDR (kh_prs h' q) = pg h q" "PR_BLOCKTYPE (kh_prs h' q) = PR_BLOCKTYPE (kh_prs h q)" "next_samesize (kh_prs h' q) = next_samesize (kh_prs h q)"
    "freelist_offset (kh_prs h' q) = freelist_offset (kh_prs h q)" "nfree (kh_prs h' q) = nfree (kh_prs h q)"
proof -
  obtain P b where "h' = h\<lparr>kh_prs := P, allbase := b\<rparr>" using assms unfolding relinked_all_def by metis
  then show "kh_words h' = kh_words h" "kh_vm h' = kh_vm h" "kheaproots h' = kheaproots h" "sizebases h' = sizebases h" "kmalloc_spinlock h' = kmalloc_spinlock h"
    by simp_all
  have e: "(kh_prs h' q)\<lparr>next_all := 0\<rparr> = (kh_prs h q)\<lparr>next_all := 0\<rparr>" using assms unfolding relinked_all_def by blast
  show "PR_PAGEADDR (kh_prs h' q) = pg h q" "PR_BLOCKTYPE (kh_prs h' q) = PR_BLOCKTYPE (kh_prs h q)" "next_samesize (kh_prs h' q) = next_samesize (kh_prs h q)"
    "freelist_offset (kh_prs h' q) = freelist_offset (kh_prs h q)" "nfree (kh_prs h' q) = nfree (kh_prs h q)"
    using arg_cong [OF e, of PR_PAGEADDR] arg_cong [OF e, of PR_BLOCKTYPE] arg_cong [OF e, of next_samesize]
      arg_cong [OF e, of freelist_offset] arg_cong [OF e, of nfree] by simp_all
qed

lemma page_rep_relink:
  assumes "PR_PAGEADDR r' = PR_PAGEADDR r" "PR_BLOCKTYPE r' = PR_BLOCKTYPE r" "freelist_offset r' = freelist_offset r" "nfree r' = nfree r"
  shows "page_rep r' W ks = page_rep r W ks"
  using assms by (simp add: page_rep_def fhead_def)

text \<open>Both lists lose the pageref.\<close>

lemma remove_lists_ok:
  assumes all: "chain (\<lambda>q. next_all (kh_prs h q)) (allbase h) prs" and d: "distinct prs" and len: "length prs < Suc TOTAL_PAGEREFS"
    and same: "\<And>s. s < 8 \<Longrightarrow> chain (\<lambda>q. next_samesize (kh_prs h q)) (sizebases h ! s) (filter (\<lambda>q. bt h q = s) prs)"
    and p: "p \<in> set prs" and t: "t = bt h p" "t < 8" and sb: "length (sizebases h) = 8"
  obtains h' where "remove_lists p t (lk h) = Ok () (lk h')" "chain (\<lambda>q. next_all (kh_prs h' q)) (allbase h') (remove1 p prs)"
    "\<forall>s < 8. chain (\<lambda>q. next_samesize (kh_prs h' q)) (sizebases h' ! s) (filter (\<lambda>q. bt h q = s) (remove1 p prs))"
    "length (sizebases h') = 8" "kh_words h' = kh_words h" "kh_vm h' = kh_vm h" "kheaproots h' = kheaproots h" "kmalloc_spinlock h' = kmalloc_spinlock h"
    "\<forall>q. PR_PAGEADDR (kh_prs h' q) = pg h q \<and> PR_BLOCKTYPE (kh_prs h' q) = PR_BLOCKTYPE (kh_prs h q) \<and>
       freelist_offset (kh_prs h' q) = freelist_offset (kh_prs h q) \<and> nfree (kh_prs h' q) = nfree (kh_prs h q)"
proof -
  let ?xs = "filter (\<lambda>q. bt h q = t) prs"
  have len': "length ?xs < Suc TOTAL_PAGEREFS" using len length_filter_le [of "\<lambda>q. bt h q = t" prs] by linarith
  have c0: "chain (\<lambda>q. next_samesize (kh_prs h q)) (get_samesize t None h) ?xs" using same [OF t(2)] by (simp add: get_samesize_def)
  have px: "p \<in> set ?xs" "distinct ?xs" "t < length (sizebases h)" using p t d sb by simp_all
  have none: "\<forall>g. None = Some g \<longrightarrow> g \<notin> set ?xs" "\<forall>g. None = Some g \<longrightarrow> g \<notin> set prs" by simp_all
  obtain g where g: "remove_samesize (Suc TOTAL_PAGEREFS) t None p (lk h) = Ok () (lk g)" "relinked_samesize h g"
    "chain (\<lambda>q. next_samesize (kh_prs g q)) (get_samesize t None g) (remove1 p ?xs)"
    "\<forall>q. q \<notin> set ?xs \<and> None \<noteq> Some q \<longrightarrow> kh_prs g q = kh_prs h q" "length (sizebases g) = length (sizebases h)"
    "\<forall>s. s \<noteq> t \<or> None \<noteq> (None :: u32 option) \<longrightarrow> sizebases g ! s = sizebases h ! s"
    using remove_samesize_ok [OF c0 px(2,1) len' none(1) px(3)] by blast
  note G = relinkedD [OF g(2)]
  have call: "chain (\<lambda>q. next_all (kh_prs g q)) (get_all None g) prs"
    using all G(4,8) chain_cong [of prs "\<lambda>q. next_all (kh_prs g q)" "\<lambda>q. next_all (kh_prs h q)"] by (simp add: get_all_def)
  obtain h' where h': "remove_all (Suc TOTAL_PAGEREFS) None p (lk g) = Ok () (lk h')" "relinked_all g h'"
    "chain (\<lambda>q. next_all (kh_prs h' q)) (get_all None h') (remove1 p prs)"
    using remove_all_ok [OF call d p len none(2)] by blast
  note H = relinked_allD [OF h'(2)]
  have sc: "chain (\<lambda>q. next_samesize (kh_prs h' q)) (sizebases h' ! s) (filter (\<lambda>q. bt h q = s) (remove1 p prs))" if s: "s < 8" for s
  proof -
    have "chain (\<lambda>q. next_samesize (kh_prs g q)) (sizebases g ! s) (filter (\<lambda>q. bt h q = s) (remove1 p prs))"
    proof (cases "s = t")
      case True
      then show ?thesis using g(3) by (simp add: get_samesize_def filter_remove1)
    next
      case False
      then have f: "filter (\<lambda>q. bt h q = s) (remove1 p prs) = filter (\<lambda>q. bt h q = s) prs"
        using t(1) by (metis (mono_tags, lifting) filter_remove1 mem_Collect_eq remove1_idem set_filter)
      have "kh_prs g q = kh_prs h q" if "q \<in> set (filter (\<lambda>q. bt h q = s) prs)" for q using g(4) that False by auto
      then show ?thesis unfolding f using same [OF s] g(6) False
          chain_cong [of "filter (\<lambda>q. bt h q = s) prs" "\<lambda>q. next_samesize (kh_prs g q)" "\<lambda>q. next_samesize (kh_prs h q)"] by auto
    qed
    then show ?thesis unfolding H(4)
      using H(8) chain_cong [of "filter (\<lambda>q. bt h q = s) (remove1 p prs)" "\<lambda>q. next_samesize (kh_prs h' q)" "\<lambda>q. next_samesize (kh_prs g q)"] by auto
  qed
  have run: "remove_lists p t (lk h) = Ok () (lk h')" unfolding remove_lists_def using t(2) g(1) h'(1)
    by (simp add: NSIZES_def del: remove_samesize.simps remove_all.simps)
  show ?thesis by (rule that [OF run]) (use h'(3) sc g(5) sb G H in \<open>simp_all add: get_all_def\<close>)
qed

lemma small_not_big:
  assumes h: "heap_rep h prs ks big" and p: "p \<in> set prs" and k: "k < nblk (bt h p)"
  shows "(baddr (pg h p) (bt h p) k, c) \<notin> (\<lambda>(a, n). (a, 4096 * n)) ` big"
proof
  assume "(baddr (pg h p) (bt h p) k, c) \<in> (\<lambda>(a, n). (a, 4096 * n)) ` big"
  then obtain m where m: "(baddr (pg h p) (bt h p) k, m) \<in> big" by auto
  then have "pages (baddr (pg h p) (bt h p) k) m \<inter> heappages h prs = {}" "0 < m"
    using heap_repD(11) [OF h] unfolding big_ok_def region_ok_def by blast+
  moreover have "pno (pg h p) \<in> pages (baddr (pg h p) (bt h p) k) m"
    using baddr_unat(2) [OF pageaddr_aligned [of "kh_prs h p"] heap_rep_page(4) [OF h p] k] \<open>0 < m\<close> by (simp add: pages_def pno_def)
  ultimately show False using p by (auto simp: heappages_def)
qed

text \<open>The last block of a page comes back: the page leaves the heap.\<close>

lemma live_pop:
  assumes h: "heap_rep h prs ks big" and p: "p \<in> set prs" and k: "k < nblk (bt h p)" "k \<notin> set (ks p)" and full: "Suc (length (ks p)) = nblk (bt h p)"
    and h': "\<And>q. PR_PAGEADDR (kh_prs h' q) = pg h q" "\<And>q. PR_BLOCKTYPE (kh_prs h' q) = PR_BLOCKTYPE (kh_prs h q)"
  shows "live h' (remove1 p prs) ks big = live h prs ks big - {(baddr (pg h p) (bt h p) k, bsz (bt h p))}"
proof -
  note hp = heap_rep_page [OF h p]
  let ?f = "\<lambda>(q, j). (baddr (pg h q) (bt h q) j, bsz (bt h q))"
  let ?I = "{(q, j). q \<in> set prs \<and> j < nblk (bt h q) \<and> j \<notin> set (ks q)}"
  let ?J = "{(q, j). q \<in> set (remove1 p prs) \<and> j < nblk (bt h q) \<and> j \<notin> set (ks q)}"
  let ?B = "(\<lambda>(a, n). (a, 4096 * n)) ` big"
  have "insert k (set (ks p)) \<subseteq> {..<nblk (bt h p)}" using page_repD(5) [OF hp(2)] k(1) by auto
  moreover have "card (insert k (set (ks p))) = nblk (bt h p)" using k(2) full distinct_card [OF page_repD(3) [OF hp(2)]] by simp
  ultimately have only: "insert k (set (ks p)) = {..<nblk (bt h p)}" by (simp add: card_subset_eq)
  have J: "?I = insert (p, k) ?J" using p k only heap_repD(5) [OF h] by (auto simp: set_remove1_eq)
  have "?f (p, k) \<notin> ?f ` ?J"
  proof
    assume "?f (p, k) \<in> ?f ` ?J"
    then obtain q j where q: "q \<in> set prs" "q \<noteq> p" "j < nblk (bt h q)" "baddr (pg h p) (bt h p) k = baddr (pg h q) (bt h q) j"
      using heap_repD(5) [OF h] by (auto simp: set_remove1_eq)
    have "pno (pg h p) = pno (pg h q)"
      using baddr_unat(2) [OF pageaddr_aligned [of "kh_prs h p"] hp(4) k(1)]
        baddr_unat(2) [OF pageaddr_aligned [of "kh_prs h q"] heap_rep_page(4) [OF h q(1)] q(3)] q(4) by simp
    then show False using page_unique [OF h p q(1)] q(2) by simp
  qed
  moreover have "?f (p, k) \<notin> ?B" using small_not_big [OF h p k(1)] by simp
  ultimately have "?f ` ?J \<union> ?B = (?f ` ?I \<union> ?B) - {?f (p, k)}" unfolding J by blast
  then show ?thesis unfolding live_def h' by simp
qed

lemma heap_rep_pop:
  assumes h: "heap_rep h prs ks big" and p: "p \<in> set prs" and t: "t = bt h p"
    and h1: "h1 = upd_pr p (given_back k) (h\<lparr>kh_words := W\<rparr>)" and W: "\<And>x. pno x \<noteq> pno (pg h p) \<Longrightarrow> W x = kh_words h x"
  obtains h2 h3 where "remove_lists p t (lk h1) = Ok () (lk h2)" "freepageref p (lk h2) = Ok () (lk h3)" "\<not> kmalloc_spinlock h3"
    "heap_rep h3 (remove1 p prs) ks big" "kh_words h3 = W" "\<forall>q. PR_PAGEADDR (kh_prs h3 q) = pg h q \<and> PR_BLOCKTYPE (kh_prs h3 q) = PR_BLOCKTYPE (kh_prs h q)"
proof -
  have P1: "PR_PAGEADDR (kh_prs h1 q) = pg h q" "PR_BLOCKTYPE (kh_prs h1 q) = PR_BLOCKTYPE (kh_prs h q)"
    "next_all (kh_prs h1 q) = next_all (kh_prs h q)" "next_samesize (kh_prs h1 q) = next_samesize (kh_prs h q)"
    "q \<noteq> p \<longrightarrow> kh_prs h1 q = kh_prs h q" for q by (simp_all add: h1)
  have e1: "kh_vm h1 = kh_vm h" "kheaproots h1 = kheaproots h" "kh_words h1 = W" "sizebases h1 = sizebases h" "allbase h1 = allbase h"
    "kmalloc_spinlock h1 = kmalloc_spinlock h" by (simp_all add: h1)
  have b1: "bt h1 p = bt h p" using P1(2) by simp
  have c1: "chain (\<lambda>q. next_all (kh_prs h1 q)) (allbase h1) prs" unfolding P1(3) e1(5) by (rule heap_repD(6) [OF h])
  have c2: "chain (\<lambda>q. next_samesize (kh_prs h1 q)) (sizebases h1 ! s) (filter (\<lambda>q. bt h1 q = s) prs)" if "s < 8" for s
    unfolding P1(2,4) e1(4) by (rule heap_repD(7) [OF h that])
  have t8: "t < 8" using t heap_rep_page(4) [OF h p] by simp
  have tt: "t = bt h1 p" using t b1 by simp
  have l8: "length (sizebases h1) = 8" using e1(4) heap_repD(4) [OF h] by simp
  obtain h2 where h2: "remove_lists p t (lk h1) = Ok () (lk h2)" "chain (\<lambda>q. next_all (kh_prs h2 q)) (allbase h2) (remove1 p prs)"
    "\<forall>s < 8. chain (\<lambda>q. next_samesize (kh_prs h2 q)) (sizebases h2 ! s) (filter (\<lambda>q. bt h1 q = s) (remove1 p prs))"
    "length (sizebases h2) = 8" "kh_words h2 = kh_words h1" "kh_vm h2 = kh_vm h1" "kheaproots h2 = kheaproots h1" "kmalloc_spinlock h2 = kmalloc_spinlock h1"
    "\<forall>q. PR_PAGEADDR (kh_prs h2 q) = pg h1 q \<and> PR_BLOCKTYPE (kh_prs h2 q) = PR_BLOCKTYPE (kh_prs h1 q) \<and>
       freelist_offset (kh_prs h2 q) = freelist_offset (kh_prs h1 q) \<and> nfree (kh_prs h2 q) = nfree (kh_prs h1 q)"
    by (rule remove_lists_ok [OF c1 heap_repD(5) [OF h] length_prs [OF h] c2 p tt t8 l8])
  have ru: "roots_ok h2 = roots_ok h" "rootpages h2 = rootpages h" "\<And>q. pr_used h2 q = pr_used h q"
    using h2(6,7) e1(1,2) by (simp_all add: roots_ok_def rootpages_def pr_used_def)
  have r2: "roots_ok h2" "pr_used h2 p" using ru heap_repD(1) [OF h] heap_rep_page(1) [OF h p] by simp_all
  obtain h3 where h3: "freepageref p (lk h2) = Ok () (lk h3)" "h3 = h2\<lparr>kheaproots := kheaproots h3\<rparr>" "roots_ok h3" "rootpages h3 = rootpages h2"
    "\<forall>q. q \<noteq> p \<longrightarrow> pr_used h3 q = pr_used h2 q" by (rule freepageref_ok [OF r2])
  obtain R where R: "h3 = h2\<lparr>kheaproots := R\<rparr>" by (rule that [OF h3(2)])
  have e3: "kh_vm h3 = kh_vm h" "kh_words h3 = W" "sizebases h3 = sizebases h2" "allbase h3 = allbase h2" "kh_prs h3 = kh_prs h2"
    "\<not> kmalloc_spinlock h3" using R h2(5,6,8) e1(1,3,6) heap_repD(3) [OF h] by simp_all
  have P3: "PR_PAGEADDR (kh_prs h3 q) = pg h q" "PR_BLOCKTYPE (kh_prs h3 q) = PR_BLOCKTYPE (kh_prs h q)" for q
    using h2(9) P1(1,2) e3(5) by simp_all
  have sub: "set (remove1 p prs) = set prs - {p}" using heap_repD(5) [OF h] by (simp add: set_remove1_eq)
  have hp: "heappages h3 (remove1 p prs) \<subseteq> heappages h prs" unfolding heappages_def P3 sub by blast
  have pages: "pr_used h3 q \<and> page_rep (kh_prs h3 q) (kh_words h3) (ks q) \<and> length (ks q) < nblk (bt h3 q)" if q: "q \<in> set (remove1 p prs)" for q
  proof -
    have q': "q \<in> set prs" "q \<noteq> p" using q sub by auto
    note hq = heap_rep_page [OF h q'(1)]
    have "pno (pg h q) \<noteq> pno (pg h p)" using page_unique [OF h q'(1) p] q'(2) by blast
    then have "W (baddr (pg h q) (bt h q) j) = kh_words h (baddr (pg h q) (bt h q) j)" if "j \<in> set (ks q)" for j
      using W baddr_unat(2) [OF pageaddr_aligned hq(4) page_repD(5) [OF hq(2) that]] by simp
    then have "page_rep (kh_prs h q) W (ks q)" by (rule page_rep_cong [OF hq(2)])
    moreover have "freelist_offset (kh_prs h3 q) = freelist_offset (kh_prs h q)" "nfree (kh_prs h3 q) = nfree (kh_prs h q)"
      using h2(9) P1(5) q'(2) e3(5) by simp_all
    ultimately show ?thesis using hq(1,3) h3(5) ru(3) q'(2) P3 e3(2) page_rep_relink [of "kh_prs h3 q" "kh_prs h q"] by simp
  qed
  have big: "big_ok big (taken (kh_vm h)) (heappages h3 (remove1 p prs) \<union> rootpages h)"
    by (rule big_ok_mono [OF heap_repD(11) [OF h]]) (use hp in auto)
  have inj: "inj_on (pg h3) (set (remove1 p prs))" unfolding P3 sub by (rule inj_on_subset [OF heap_repD(8) [OF h]]) simp
  have rp: "rootpages h3 = rootpages h" using h3(4) ru(2) by simp
  have s3: "\<forall>s < 8. chain (\<lambda>q. next_samesize (kh_prs h3 q)) (sizebases h3 ! s) (filter (\<lambda>q. bt h3 q = s) (remove1 p prs))"
  proof -
    have "bt h3 q = bt h1 q" for q using P3(2) P1(2) by simp
    then show ?thesis using h2(3) by (simp only: e3(3,5))
  qed
  have a3: "chain (\<lambda>q. next_all (kh_prs h3 q)) (allbase h3) (remove1 p prs)" using h2(2) unfolding e3(4,5) .
  have "heap_rep h3 (remove1 p prs) ks big"
    unfolding heap_rep_def e3(1) rp
    using h3(3) heap_repD(2,5,9,10) [OF h] e3(3,6) h2(4) a3 s3 pages inj hp big by (intro conjI) auto
  then show ?thesis using that [OF h2(1) h3(1) e3(6)] e3(2) P3 by blast
qed

subsection \<open>Giving a block back\<close>

lemma find_owner_small:
  assumes h: "heap_rep h prs ks big" and p: "p \<in> set prs" and k: "k < nblk (bt h p)"
  shows "find_owner (Suc TOTAL_PAGEREFS) (baddr (pg h p) (bt h p) k) (allbase h) (lk h) = Ok p (lk h)" "p \<noteq> 0"
proof -
  have "bt h q < 8 \<and> pno (pg h q) < 2 ^ 20 - 1" if "q \<in> set prs" for q
    using heap_rep_page(4,5) [OF h that] taken_bound [OF heap_repD(2) [OF h]] by blast
  then have all: "\<forall>q \<in> set prs. bt h q < 8 \<and> pno (pg h q) < 2 ^ 20 - 1" by blast
  obtain q where q: "find_owner (Suc TOTAL_PAGEREFS) (baddr (pg h p) (bt h p) k) (allbase h) (lk h) = Ok q (lk h)"
    "q = 0 \<and> (\<forall>r \<in> set prs. pno (baddr (pg h p) (bt h p) k) \<noteq> pno (pg h r)) \<or> q \<in> set prs \<and> pno (baddr (pg h p) (bt h p) k) = pno (pg h q)"
    using find_owner_ok [OF heap_repD(6) [OF h] length_prs [OF h] all] by blast
  have b: "pno (baddr (pg h p) (bt h p) k) = pno (pg h p)" by (rule baddr_unat(2) [OF pageaddr_aligned heap_rep_page(4) [OF h p] k])
  then have "q = p" using q(2) p page_unique [OF h _ p] by metis
  then show "find_owner (Suc TOTAL_PAGEREFS) (baddr (pg h p) (bt h p) k) (allbase h) (lk h) = Ok p (lk h)" using q(1) by simp
  show "p \<noteq> 0" using chain_nonzero [OF heap_repD(6) [OF h]] p by blast
qed

lemma find_owner_big:
  assumes h: "heap_rep h prs ks big" and a: "(a, n) \<in> big"
  shows "find_owner (Suc TOTAL_PAGEREFS) a (allbase h) (lk h) = Ok 0 (lk h)"
proof -
  have all: "\<forall>q \<in> set prs. bt h q < 8 \<and> pno (pg h q) < 2 ^ 20 - 1"
    using heap_rep_page(4,5) [OF h] taken_bound [OF heap_repD(2) [OF h]] by blast
  obtain q where q: "find_owner (Suc TOTAL_PAGEREFS) a (allbase h) (lk h) = Ok q (lk h)"
    "q = 0 \<or> q \<in> set prs \<and> pno a = pno (pg h q)"
    using find_owner_ok [OF heap_repD(6) [OF h] length_prs [OF h] all] by blast
  have r: "0 < n" "pages a n \<inter> heappages h prs = {}" using heap_repD(11) [OF h] a unfolding big_ok_def region_ok_def by blast+
  then have "pno a \<in> pages a n" by (simp add: pages_def pno_def)
  then have "pno a \<noteq> pno (pg h q)" if "q \<in> set prs" for q using r(2) that by (auto simp: heappages_def)
  then show ?thesis using q by blast
qed

text \<open>What a successful release leaves: the heap without the block, all other blocks as they were.\<close>

definition freed :: "kheap \<Rightarrow> (u32 \<times> nat) set \<Rightarrow> u32 \<times> nat \<Rightarrow> kheap \<Rightarrow> bool" where
  "freed h L b h' \<longleftrightarrow> heap h' (L - {b}) \<and> kept (L - {b}) h h'"

lemma kept_outside:
  assumes h: "heap_rep h prs ks big" and b: "(a, n) \<in> live h prs ks big" and W: "\<forall>x. \<not> inblk a n x \<longrightarrow> kh_words h' x = kh_words h x"
  shows "kept (live h prs ks big - {(a, n)}) h h'"
proof -
  have "kh_words h' x = kh_words h x" if "(c, m) \<in> live h prs ks big" "(c, m) \<noteq> (a, n)" "inblk c m x" for c m x
    using live_disjoint [OF h that(1) b that(2), of x] that(3) W by blast
  then show ?thesis unfolding kept_def by blast
qed

lemma subpage_kfree_ok:
  assumes h: "heap_rep h prs ks big" and p: "p \<in> set prs" and k: "k < nblk (bt h p)" "k \<notin> set (ks p)"
  shows "\<exists>h'. subpage_kfree (baddr (pg h p) (bt h p) k) h = Ok True h' \<and>
    freed h (live h prs ks big) (baddr (pg h p) (bt h p) k, bsz (bt h p)) h'"
proof -
  let ?t = "bt h p" and ?a = "pg h p"
  let ?b = "baddr ?a ?t k" and ?L = "live h prs ks big"
  note hp = heap_rep_page [OF h p]
  obtain W where W: "free_on ?b p (lk h) =
      (if Suc (length (ks p)) = nblk ?t then
         kbind (remove_lists p ?t (lk (upd_pr p (given_back k) (h\<lparr>kh_words := W\<rparr>)))) (\<lambda>_ h.
         kbind (freepageref p h) (\<lambda>_ h. kbind (kunlock h) (\<lambda>_ h. Ok True (kh_free_kpages ?a h))))
       else Ok True (upd_pr p (given_back k) (h\<lparr>kh_words := W\<rparr>)))"
    "page_rep (given_back k (kh_prs h p)) W (k # ks p)" "\<forall>x. \<not> inblk ?b (bsz ?t) x \<longrightarrow> W x = kh_words h x"
    by (rule free_on_ok [OF hp(2) refl refl k(2,1) hp(3) heap_repD(3) [OF h]])
  have run: "subpage_kfree ?b h = free_on ?b p (lk h)"
    unfolding subpage_kfree_def klock_lk [OF heap_repD(3) [OF h]] using find_owner_small [OF h p k(1)] by (simp del: find_owner.simps)
  have Wp: "W x = kh_words h x" if "pno x \<noteq> pno ?a" for x
    using W(3) inblk_page [OF pageaddr_aligned hp(4) k(1), where x = x] that by blast
  have b: "(?b, bsz ?t) \<in> ?L" unfolding live_def using p k by (intro UnI1 image_eqI [of _ _ "(p, k)"]) auto
  show ?thesis
  proof (cases "Suc (length (ks p)) = nblk ?t")
    case True
    obtain h2 h3 where H: "remove_lists p ?t (lk (upd_pr p (given_back k) (h\<lparr>kh_words := W\<rparr>))) = Ok () (lk h2)"
      "freepageref p (lk h2) = Ok () (lk h3)" "\<not> kmalloc_spinlock h3" "heap_rep h3 (remove1 p prs) ks big" "kh_words h3 = W"
      "\<forall>q. PR_PAGEADDR (kh_prs h3 q) = pg h q \<and> PR_BLOCKTYPE (kh_prs h3 q) = PR_BLOCKTYPE (kh_prs h q)"
      by (rule heap_rep_pop [OF h p refl refl Wp])
    have "subpage_kfree ?b h = Ok True h3"
      unfolding run W(1) using True H(1,2) kunlock_lk [OF H(3)] by (simp add: kh_free_kpages_def free_kpages_def)
    moreover have "live h3 (remove1 p prs) ks big = ?L - {(?b, bsz ?t)}"
      by (rule live_pop [OF h p k True]) (use H(6) in blast)+
    then have "heap h3 (?L - {(?b, bsz ?t)})" unfolding heap_def using H(4) by metis
    moreover have "kept (?L - {(?b, bsz ?t)}) h h3" by (rule kept_outside [OF h b]) (use W(3) H(5) in simp)
    ultimately show ?thesis unfolding freed_def by blast
  next
    case False
    let ?h = "upd_pr p (given_back k) (h\<lparr>kh_words := W\<rparr>)"
    have e: "?h = h\<lparr>kh_words := W, kh_prs := (kh_prs h)(p := given_back k (kh_prs h p))\<rparr>" by (simp add: upd_pr_def)
    have len: "length (k # ks p) < nblk ?t" using False hp(3) by simp
    have r: "heap_rep ?h prs (ks(p := k # ks p)) big"
      by (rule heap_rep_one [OF h p e _ _ _ _ W(2) len Wp]) simp_all
    have P: "PR_PAGEADDR (kh_prs ?h q) = pg h q" "PR_BLOCKTYPE (kh_prs ?h q) = PR_BLOCKTYPE (kh_prs h q)" for q by simp_all
    have kk: "(ks(p := k # ks p)) p = k # ks p" by simp
    note lt = live_take [where h' = h, OF r p kk P(1) [symmetric] P(2) [symmetric]]
    have "?L = insert (?b, bsz ?t) (live ?h prs (ks(p := k # ks p)) big)" using lt(1) unfolding P fun_upd_upd fun_upd_triv .
    moreover have "(?b, bsz ?t) \<notin> live ?h prs (ks(p := k # ks p)) big" using lt(2) unfolding P .
    ultimately have "live ?h prs (ks(p := k # ks p)) big = ?L - {(?b, bsz ?t)}" by blast
    then have "heap ?h (?L - {(?b, bsz ?t)})" unfolding heap_def using r by metis
    moreover have "kept (?L - {(?b, bsz ?t)}) h ?h" by (rule kept_outside [OF h b]) (use W(3) in simp)
    moreover have "subpage_kfree ?b h = Ok True ?h" unfolding run W(1) using False by simp
    ultimately show ?thesis unfolding freed_def by blast
  qed
qed

lemma live_unbig:
  assumes h: "heap_rep h prs ks big" and a: "(a, n) \<in> big"
  shows "heap_rep h prs ks (big - {(a, n)})" "live h prs ks (big - {(a, n)}) = live h prs ks big - {(a, 4096 * n)}"
proof -
  have "big_ok (big - {(a, n)}) (taken (kh_vm h)) (heappages h prs \<union> rootpages h)"
    using heap_repD(11) [OF h] unfolding big_ok_def by blast
  then show "heap_rep h prs ks (big - {(a, n)})" using h unfolding heap_rep_def by blast
  have "(a, 4096 * n) \<noteq> (baddr (pg h p) (bt h p) k, bsz (bt h p))" if "p \<in> set prs" "k < nblk (bt h p)" for p k
  proof
    assume "(a, 4096 * n) = (baddr (pg h p) (bt h p) k, bsz (bt h p))"
    then have "(baddr (pg h p) (bt h p) k, 4096 * n) \<in> (\<lambda>(a, n). (a, 4096 * n)) ` big" using a by (intro image_eqI [of _ _ "(a, n)"]) auto
    then show False using small_not_big [OF h that] by blast
  qed
  then show "live h prs ks (big - {(a, n)}) = live h prs ks big - {(a, 4096 * n)}" unfolding live_def by auto
qed

lemma kfree_ok:
  assumes "heap h L" "(p, n) \<in> L"
  shows "\<exists>h'. kfree p h = Ok () h' \<and> freed h L (p, n) h'"
proof -
  obtain prs ks big where h: "heap_rep h prs ks big" "L = live h prs ks big" using assms(1) by (auto simp: heap_def)
  have "(p, n) \<in> live h prs ks big" using assms(2) h(2) by simp
  then show ?thesis
  proof (cases rule: live_cases)
    case (small q k)
    have "p \<noteq> 0" using baddr_nonzero [OF pageaddr_aligned page_repD(2) [OF heap_rep_page(2) [OF h(1) small(1)]] heap_rep_page(4) [OF h(1) small(1)] small(2)] small(4) by simp
    then show ?thesis using subpage_kfree_ok [OF h(1) small(1-3)] small(4,5) h(2) by (auto simp: kfree_def)
  next
    case (big m)
    note r = heap_repD(11) [OF h(1)]
    have p: "p \<noteq> 0" "unat p mod 4096 = 0" using r big unfolding big_ok_def region_ok_def by blast+
    have "subpage_kfree p h = Ok False h"
      unfolding subpage_kfree_def klock_lk [OF heap_repD(3) [OF h(1)]] using find_owner_big [OF h(1) big(1)] kunlock_lk [OF heap_repD(3) [OF h(1)]] by (simp del: find_owner.simps)
    moreover have "p mod PAGE_SIZE = 0" using p(2) by (simp add: PAGE_SIZE_def u32_eq_iff unat_mod)
    ultimately have "kfree p h = Ok () h" using p(1) by (simp add: kfree_def kh_free_kpages_def free_kpages_def)
    moreover have "freed h L (p, n) h" unfolding freed_def heap_def using live_unbig [OF h(1) big(1)] h(2) big(2) by (auto simp: kept_same)
    ultimately show ?thesis by blast
  qed
qed

lemma kfree_null: "kfree 0 h = Ok () h"
  by (simp add: kfree_def)

subsection \<open>The owner of a block writes to it\<close>

lemma heap_poke:
  assumes "heap h L" "(a, n) \<in> L" "inblk a n x"
  shows "heap (poke x v h) L" "kept (L - {(a, n)}) h (poke x v h)"
proof -
  obtain prs ks big where h: "heap_rep h prs ks big" "L = live h prs ks big" using assms(1) by (auto simp: heap_def)
  have l: "(a, n) \<in> live h prs ks big" using assms(2) h(2) by simp
  have other: "x \<noteq> baddr (pg h p) (bt h p) k" if p: "p \<in> set prs" "k \<in> set (ks p)" for p k
  proof
    note hp = heap_rep_page [OF h(1) p(1)]
    have k: "k < nblk (bt h p)" by (rule page_repD(5) [OF hp(2) p(2)])
    assume x: "x = baddr (pg h p) (bt h p) k"
    have px: "pno x = pno (pg h p)" unfolding x by (rule baddr_unat(2) [OF pageaddr_aligned hp(4) k])
    from l show False
    proof (cases rule: live_cases)
      case (small q j)
      have in_x: "inblk (baddr (pg h q) (bt h q) j) (bsz (bt h q)) x" using assms(3) unfolding small(4,5) .
      then have xq: "pno x = pno (pg h q)" by (rule inblk_page [OF pageaddr_aligned heap_rep_page(4) [OF h(1) small(1)] small(2)])
      have qp: "q = p" by (rule page_unique [OF h(1) small(1) p(1) trans [OF xq [symmetric] px]])
      have "inblk (baddr (pg h p) (bt h p) k) (bsz (bt h p)) x" unfolding x by (rule inblk_start [OF sizes_nth(4) [OF hp(4)]])
      moreover have "j < nblk (bt h p)" "k \<noteq> j" using small(2,3) p(2) unfolding qp by blast+
      ultimately have "\<not> inblk (baddr (pg h p) (bt h p) j) (bsz (bt h p)) x"
        using inblk_apart [OF pageaddr_aligned hp(4) k, where l = j and x = x] by blast
      then show False using in_x unfolding qp by blast
    next
      case (big m)
      have reg: "unat a mod 4096 = 0" "pages a m \<inter> heappages h prs = {}"
        using heap_repD(11) [OF h(1)] big(1) unfolding big_ok_def region_ok_def by blast+
      have "pno x \<in> pages a m" by (rule inblk_pages [OF reg(1)]) (use assms(3) big(2) in simp)
      moreover have "pno x \<in> heappages h prs" unfolding px heappages_def using p(1) by (rule imageI)
      ultimately show False using reg(2) by blast
    qed
  qed
  have "page_rep (kh_prs h p) ((kh_words h)(x := v)) (ks p)" if p: "p \<in> set prs" for p
    by (rule page_rep_cong [OF heap_rep_page(2) [OF h(1) p]]) (use other [OF p] in \<open>simp only: fun_upd_def, metis\<close>)
  then have pages: "\<forall>p \<in> set prs. pr_used h p \<and> page_rep (kh_prs h p) ((kh_words h)(x := v)) (ks p) \<and> length (ks p) < nblk (bt h p)"
    using heap_rep_page(1,3) [OF h(1)] by blast
  have e: "kh_prs (poke x v h) = kh_prs h" "kh_words (poke x v h) = (kh_words h)(x := v)" "kh_vm (poke x v h) = kh_vm h"
    "sizebases (poke x v h) = sizebases h" "allbase (poke x v h) = allbase h" "kmalloc_spinlock (poke x v h) = kmalloc_spinlock h"
    "roots_ok (poke x v h) = roots_ok h" "rootpages (poke x v h) = rootpages h" "pr_used (poke x v h) = pr_used h"
    "heappages (poke x v h) prs = heappages h prs"
    by (simp_all add: poke_def heappages_def roots_ok_def rootpages_def pr_used_def [abs_def])
  have "heap_rep (poke x v h) prs ks big"
    unfolding heap_rep_def e using heap_repD [OF h(1)] pages by (intro conjI) blast+
  moreover have "live (poke x v h) prs ks big = L" unfolding h(2) live_def e ..
  ultimately show "heap (poke x v h) L" unfolding heap_def by metis
  show "kept (L - {(a, n)}) h (poke x v h)" unfolding h(2)
    by (rule kept_outside [OF h(1) l]) (use assms(3) in \<open>auto simp: poke_def\<close>)
qed

lemma heap_disjoint:
  assumes "heap h L" "(a, n) \<in> L" "(b, m) \<in> L" "(a, n) \<noteq> (b, m)"
  shows "\<not> (inblk a n x \<and> inblk b m x)"
proof -
  obtain prs ks big where h: "heap_rep h prs ks big" "L = live h prs ks big" using assms(1) by (auto simp: heap_def)
  show ?thesis by (rule live_disjoint [OF h(1) assms(2-4) [unfolded h(2)]])
qed

lemma heap_nonempty:
  assumes "heap h L" "(a, n) \<in> L"
  shows "0 < n" "a \<noteq> 0" "unat a + n \<le> 2 ^ 32"
proof -
  obtain prs ks big where h: "heap_rep h prs ks big" "L = live h prs ks big" using assms(1) by (auto simp: heap_def)
  have "(a, n) \<in> live h prs ks big" using assms(2) h(2) by simp
  then have "0 < n \<and> a \<noteq> 0 \<and> unat a + n \<le> 2 ^ 32"
  proof (cases rule: live_cases)
    case (small p k)
    note hp = heap_rep_page [OF h(1) small(1)]
    have "unat a + n \<le> 2 ^ 32"
      using small(4,5) baddr_unat(1) [OF pageaddr_aligned hp(4) small(2)] block_bound [OF hp(4) small(2)]
        aligned_room [OF pageaddr_aligned [of "kh_prs h p"]] by simp
    then show ?thesis using small(4,5) sizes_nth(4) [OF hp(4)] baddr_nonzero [OF pageaddr_aligned page_repD(2) [OF hp(2)] hp(4) small(2)] by simp
  next
    case (big m)
    then show ?thesis using heap_repD(11) [OF h(1)] by (auto simp: big_ok_def region_ok_def)
  qed
  then show "0 < n" "a \<noteq> 0" "unat a + n \<le> 2 ^ 32" by simp_all
qed

subsection \<open>The interface of the heap\<close>

text \<open>
  A user of the heap keeps the blocks it was given, each with the size it asked for and the words it
  has written there. It frees and writes only blocks it holds.
\<close>

datatype heap_call = Call_malloc u32 | Call_free nat | Call_write nat nat u32

type_synonym held = "(u32 \<times> nat \<times> (nat \<rightharpoonup> u32)) list"

definition waddr :: "u32 \<Rightarrow> nat \<Rightarrow> u32" where
  "waddr p j = p + word_of_nat (4 * j)"

fun call1 :: "(u32 \<Rightarrow> 'h \<Rightarrow> (u32, 'h) res) \<Rightarrow> (u32 \<Rightarrow> 'h \<Rightarrow> (unit, 'h) res) \<Rightarrow> (u32 \<Rightarrow> u32 \<Rightarrow> 'h \<Rightarrow> 'h) \<Rightarrow>
    heap_call \<Rightarrow> held \<Rightarrow> 'h \<Rightarrow> (held, 'h) res" where
  "call1 malloc free store (Call_malloc sz) bs h =
     kbind (malloc sz h) (\<lambda>p h. Ok (if p = 0 then bs else (p, unat sz, Map.empty) # bs) h)"
| "call1 malloc free store (Call_free i) bs h =
     (if i < length bs then kbind (free (fst (bs ! i)) h) (\<lambda>_ h. Ok (filter (\<lambda>b. fst b \<noteq> fst (bs ! i)) bs) h) else Ok bs h)"
| "call1 malloc free store (Call_write i j v) bs h =
     (if i < length bs then
        case bs ! i of (p, n, c) \<Rightarrow>
          if 4 * j + 4 \<le> n then Ok (bs[i := (p, n, c(j \<mapsto> v))]) (store (waddr p j) v h) else Ok bs h
      else Ok bs h)"

fun calls :: "(u32 \<Rightarrow> 'h \<Rightarrow> (u32, 'h) res) \<Rightarrow> (u32 \<Rightarrow> 'h \<Rightarrow> (unit, 'h) res) \<Rightarrow> (u32 \<Rightarrow> u32 \<Rightarrow> 'h \<Rightarrow> 'h) \<Rightarrow>
    heap_call list \<Rightarrow> held \<Rightarrow> 'h \<Rightarrow> (held, 'h) res" where
  "calls malloc free store [] bs h = Ok bs h"
| "calls malloc free store (c # cs) bs h = kbind (call1 malloc free store c bs h) (calls malloc free store cs)"

fun small_calls :: "heap_call list \<Rightarrow> bool" where
  "small_calls [] = True"
| "small_calls (c # cs) = ((case c of Call_malloc sz \<Rightarrow> unat sz < 2 ^ 31 - 4096 | _ \<Rightarrow> True) \<and> small_calls cs)"

locale allocator =
  fixes inv :: "'h \<Rightarrow> (u32 \<times> nat) set \<Rightarrow> bool"
    and malloc :: "u32 \<Rightarrow> 'h \<Rightarrow> (u32, 'h) res"
    and free :: "u32 \<Rightarrow> 'h \<Rightarrow> (unit, 'h) res"
    and load :: "'h \<Rightarrow> u32 \<Rightarrow> u32"
    and store :: "u32 \<Rightarrow> u32 \<Rightarrow> 'h \<Rightarrow> 'h"
  assumes malloc_law: "inv h L \<Longrightarrow> unat sz < 2 ^ 31 - 4096 \<Longrightarrow>
      \<exists>p h'. malloc sz h = Ok p h' \<and> (\<forall>a n x. (a, n) \<in> L \<longrightarrow> inblk a n x \<longrightarrow> load h' x = load h x) \<and>
        (p = 0 \<and> inv h' L \<or> p \<noteq> 0 \<and> (\<exists>m \<ge> unat sz. (p, m) \<notin> L \<and> inv h' (insert (p, m) L)))"
    and free_law: "inv h L \<Longrightarrow> (p, n) \<in> L \<Longrightarrow>
      \<exists>h'. free p h = Ok () h' \<and> inv h' (L - {(p, n)}) \<and>
        (\<forall>a m x. (a, m) \<in> L - {(p, n)} \<longrightarrow> inblk a m x \<longrightarrow> load h' x = load h x)"
    and store_law: "inv h L \<Longrightarrow> (a, n) \<in> L \<Longrightarrow> inblk a n x \<Longrightarrow> inv (store x v h) L"
    and load_store: "load (store x v h) y = (if y = x then v else load h y)"
    and disjoint_law: "inv h L \<Longrightarrow> (a, n) \<in> L \<Longrightarrow> (b, m) \<in> L \<Longrightarrow> (a, n) \<noteq> (b, m) \<Longrightarrow> \<not> (inblk a n x \<and> inblk b m x)"
    and size_law: "inv h L \<Longrightarrow> (a, n) \<in> L \<Longrightarrow> 0 < n \<and> unat a + n \<le> 2 ^ 32"
begin

definition holds :: "held \<Rightarrow> 'h \<Rightarrow> (u32 \<times> nat) set \<Rightarrow> bool" where
  "holds bs h L \<longleftrightarrow> inv h L \<and> distinct (map fst bs) \<and> fst ` L = fst ` set bs \<and>
     (\<forall>p n c. (p, n, c) \<in> set bs \<longrightarrow> (\<exists>m \<ge> n. (p, m) \<in> L) \<and> (\<forall>j v. c j = Some v \<longrightarrow> 4 * j + 4 \<le> n \<and> load h (waddr p j) = v))"

lemma one_size: "inv h L \<Longrightarrow> (p, n) \<in> L \<Longrightarrow> (p, m) \<in> L \<Longrightarrow> n = m"
  using disjoint_law [of h L p n p m p] size_law [of h L p n] size_law [of h L p m] inblk_start by blast

lemma word_inside:
  assumes "inv h L" "(p, m) \<in> L" "4 * j + 4 \<le> n" "n \<le> m"
  shows "inblk p m (waddr p j)" "unat (waddr p j) = unat p + 4 * j"
proof -
  have b: "unat p + m \<le> 2 ^ 32" using size_law [OF assms(1,2)] by simp
  then have u: "unat (word_of_nat (4 * j) :: u32) = 4 * j" using assms(3,4) by (intro unat_of_nat_u32) simp
  show s: "unat (waddr p j) = unat p + 4 * j" unfolding waddr_def
    using unat_add_small [of p "word_of_nat (4 * j)"] u b assms(3,4) by simp
  show "inblk p m (waddr p j)" unfolding inblk_def s using assms(3,4) by simp
qed

lemma holdsD:
  assumes "holds bs h L"
  shows "inv h L" "distinct (map fst bs)" "fst ` L = fst ` set bs"
  using assms unfolding holds_def by simp_all

lemma holdsE:
  assumes "holds bs h L" "(p, n, c) \<in> set bs"
  obtains m where "n \<le> m" "(p, m) \<in> L" "\<forall>j v. c j = Some v \<longrightarrow> 4 * j + 4 \<le> n" "\<forall>j v. c j = Some v \<longrightarrow> load h (waddr p j) = v"
proof -
  have "(\<exists>m \<ge> n. (p, m) \<in> L) \<and> (\<forall>j v. c j = Some v \<longrightarrow> 4 * j + 4 \<le> n \<and> load h (waddr p j) = v)"
    using assms unfolding holds_def by simp
  then show thesis using that by auto
qed

lemma block_keep:
  assumes H: "holds bs h L" and b: "(p, n, c) \<in> set bs" and p: "p \<in> fst ` L'" "inv h' L'" and sub: "\<forall>m. (p, m) \<in> L' \<longrightarrow> (p, m) \<in> L"
    and same: "\<forall>m x. (p, m) \<in> L' \<longrightarrow> inblk p m x \<longrightarrow> load h' x = load h x"
  shows "(\<exists>m \<ge> n. (p, m) \<in> L') \<and> (\<forall>j v. c j = Some v \<longrightarrow> 4 * j + 4 \<le> n \<and> load h' (waddr p j) = v)"
proof -
  obtain m where m: "n \<le> m" "(p, m) \<in> L" "\<forall>j v. c j = Some v \<longrightarrow> 4 * j + 4 \<le> n" "\<forall>j v. c j = Some v \<longrightarrow> load h (waddr p j) = v"
    by (rule holdsE [OF H b])
  obtain k where k: "(p, k) \<in> L'" using p(1) by auto
  then have "k = m" using one_size [OF holdsD(1) [OF H] _ m(2)] sub by simp
  then have m': "(p, m) \<in> L'" using k by simp
  have "4 * j + 4 \<le> n \<and> load h' (waddr p j) = v" if c: "c j = Some v" for j v
  proof -
    have j: "4 * j + 4 \<le> n" using m(3) c by simp
    have "inblk p m (waddr p j)" by (rule word_inside(1) [OF holdsD(1) [OF H] m(2) j m(1)])
    then have "load h' (waddr p j) = load h (waddr p j)" using same m' by simp
    then show ?thesis using j m(4) c by simp
  qed
  then show ?thesis using m(1) m' by auto
qed

lemma call1_malloc:
  assumes H: "holds bs h L" and sz: "unat sz < 2 ^ 31 - 4096"
  shows "\<exists>bs' h' L'. call1 malloc free store (Call_malloc sz) bs h = Ok bs' h' \<and> holds bs' h' L'"
proof -
  note D = holdsD [OF H]
  obtain p h' where p: "malloc sz h = Ok p h'" "\<forall>a n x. (a, n) \<in> L \<longrightarrow> inblk a n x \<longrightarrow> load h' x = load h x"
    "p = 0 \<and> inv h' L \<or> p \<noteq> 0 \<and> (\<exists>m \<ge> unat sz. (p, m) \<notin> L \<and> inv h' (insert (p, m) L))"
    using malloc_law [OF D(1) sz] by (elim exE conjE) (rule that)
  show ?thesis
  proof (cases "p = 0")
    case True
    then have i: "inv h' L" using p(3) by simp
    have "(\<exists>m \<ge> n. (q, m) \<in> L) \<and> (\<forall>j v. c j = Some v \<longrightarrow> 4 * j + 4 \<le> n \<and> load h' (waddr q j) = v)" if b: "(q, n, c) \<in> set bs" for q n c
      by (rule block_keep [OF H b _ i]) (use p(2) D(3) b in force)+
    then have "holds bs h' L" unfolding holds_def using i D(2,3) by simp
    then show ?thesis using p(1) True by (intro exI [of _ bs] exI [of _ h'] exI [of _ L]) simp
  next
    case False
    then obtain m where m: "unat sz \<le> m" "(p, m) \<notin> L" "inv h' (insert (p, m) L)" using p(3) by auto
    let ?L = "insert (p, m) L" and ?bs = "(p, unat sz, Map.empty) # bs"
    have new: "p \<notin> fst ` L"
    proof
      assume "p \<in> fst ` L"
      then obtain k where "(p, k) \<in> L" by auto
      then show False using one_size [OF m(3), of p m k] m(2) by simp
    qed
    have "(\<exists>k \<ge> n. (q, k) \<in> ?L) \<and> (\<forall>j v. c j = Some v \<longrightarrow> 4 * j + 4 \<le> n \<and> load h' (waddr q j) = v)" if b: "(q, n, c) \<in> set bs" for q n c
    proof -
      have q: "q \<in> fst ` L" unfolding D(3) using b by force
      then have "q \<noteq> p" using new by auto
      then show ?thesis by (intro block_keep [OF H b _ m(3)]) (use p(2) q in auto)
    qed
    then have "holds ?bs h' ?L" unfolding holds_def using m(1,3) new D(2,3) by auto
    then show ?thesis using p(1) False by (intro exI [of _ ?bs] exI [of _ h'] exI [of _ ?L]) simp
  qed
qed

lemma call1_free:
  assumes H: "holds bs h L"
  shows "\<exists>bs' h' L'. call1 malloc free store (Call_free i) bs h = Ok bs' h' \<and> holds bs' h' L'"
proof (cases "i < length bs")
  case True
  let ?p = "fst (bs ! i)"
  note D = holdsD [OF H]
  have "?p \<in> fst ` L" unfolding D(3) using nth_mem [OF True] by (rule imageI)
  then obtain m where m: "(?p, m) \<in> L" by auto
  let ?L = "L - {(?p, m)}" and ?bs = "filter (\<lambda>b. fst b \<noteq> ?p) bs"
  obtain h' where h': "free ?p h = Ok () h'" "inv h' ?L" "\<forall>a k x. (a, k) \<in> ?L \<longrightarrow> inblk a k x \<longrightarrow> load h' x = load h x"
    using free_law [OF D(1) m] by (elim exE conjE) (rule that)
  have "fst ` ?L = fst ` L - {?p}"
  proof
    have "b = m" if "(?p, b) \<in> L" for b using one_size [OF D(1) m that] by simp
    then show "fst ` ?L \<subseteq> fst ` L - {?p}" by auto
  qed auto
  also have "\<dots> = fst ` set ?bs" unfolding D(3) by auto
  finally have f: "fst ` ?L = fst ` set ?bs" .
  have "(\<exists>m \<ge> n. (q, m) \<in> ?L) \<and> (\<forall>j v. c j = Some v \<longrightarrow> 4 * j + 4 \<le> n \<and> load h' (waddr q j) = v)" if b: "(q, n, c) \<in> set ?bs" for q n c
  proof -
    have "q \<in> fst ` ?L" unfolding f using b by (intro image_eqI [of _ _ "(q, n, c)"]) simp_all
    moreover have "(q, n, c) \<in> set bs" using b by simp
    ultimately show ?thesis by (intro block_keep [OF H _ _ h'(2)]) (use h'(3) in auto)
  qed
  moreover have "distinct (map fst ?bs)" using D(2) by (simp add: distinct_map_filter)
  ultimately have "holds ?bs h' ?L" unfolding holds_def using h'(2) f by (intro conjI allI impI) blast+
  then show ?thesis using h'(1) True by (intro exI [of _ ?bs] exI [of _ h'] exI [of _ ?L]) simp
next
  case False
  then show ?thesis using H by auto
qed

lemma call1_write:
  assumes H: "holds bs h L"
  shows "\<exists>bs' h' L'. call1 malloc free store (Call_write i j v) bs h = Ok bs' h' \<and> holds bs' h' L'"
proof (cases "i < length bs \<and> 4 * j + 4 \<le> fst (snd (bs ! i))")
  case True
  obtain p n c where b: "bs ! i = (p, n, c)" by (cases "bs ! i")
  note D = holdsD [OF H]
  have i: "i < length bs" "4 * j + 4 \<le> n" using True b by simp_all
  then have bi: "(p, n, c) \<in> set bs" using nth_mem [OF i(1)] b by simp
  obtain m where m: "n \<le> m" "(p, m) \<in> L" "\<forall>j v. c j = Some v \<longrightarrow> 4 * j + 4 \<le> n" "\<forall>j v. c j = Some v \<longrightarrow> load h (waddr p j) = v"
    by (rule holdsE [OF H bi])
  let ?x = "waddr p j" and ?bs = "bs[i := (p, n, c(j \<mapsto> v))]"
  let ?h = "store ?x v h"
  have x: "inblk p m ?x" by (rule word_inside(1) [OF D(1) m(2) i(2) m(1)])
  have I: "inv ?h L" by (rule store_law [OF D(1) m(2) x])
  have keys: "map fst ?bs = map fst bs" using b i(1) by (metis fst_conv list_update_id map_update)
  then have f: "fst ` L = fst ` set ?bs" using D(3) by (metis list.set_map)
  have own: "4 * k + 4 \<le> n \<and> load ?h (waddr p k) = w" if "(c(j \<mapsto> v)) k = Some w" for k w
  proof (cases "k = j")
    case False
    then have k: "c k = Some w" "4 * k + 4 \<le> n" using that m(3) by auto
    have "unat (waddr p k) \<noteq> unat ?x" using word_inside(2) [OF D(1) m(2) k(2) m(1)] word_inside(2) [OF D(1) m(2) i(2) m(1)] False by simp
    then show ?thesis using k m(4) by (auto simp: load_store)
  qed (use that i(2) in \<open>simp add: load_store\<close>)
  have "(\<exists>m \<ge> n'. (q, m) \<in> L) \<and> (\<forall>j v. c' j = Some v \<longrightarrow> 4 * j + 4 \<le> n' \<and> load ?h (waddr q j) = v)" if e: "(q, n', c') \<in> set ?bs" for q n' c'
  proof (cases "(q, n', c') = (p, n, c(j \<mapsto> v))")
    case True
    then show ?thesis using m(1,2) own by auto
  next
    case False
    obtain l where l: "l < length bs" "?bs ! l = (q, n', c')" using e by (auto simp: in_set_conv_nth)
    have li1: "l \<noteq> i" using l(2) False i(1) by auto
    then have li: "l \<noteq> i" "bs ! l = (q, n', c')" using l(2) by simp_all
    have qp: "q \<noteq> p" using nth_eq_iff_index_eq [OF D(2), of l i] l(1) li i(1) b by simp
    have qb: "(q, n', c') \<in> set bs" using li(2) l(1) nth_mem by metis
    have "load ?h y = load h y" if "(q, k) \<in> L" "inblk q k y" for k y
      using disjoint_law [OF D(1) that(1) m(2), of ?x] that x qp by (auto simp: load_store)
    moreover have "q \<in> fst ` L" unfolding D(3) using qb by force
    ultimately show ?thesis by (intro block_keep [OF H qb _ I]) auto
  qed
  then have "holds ?bs ?h L" unfolding holds_def using I f D(2) keys by simp
  then show ?thesis using i b by (intro exI [of _ ?bs] exI [of _ ?h] exI [of _ L]) simp
next
  case False
  then show ?thesis using H by (cases "bs ! i") auto
qed

theorem calls_ok:
  assumes "holds bs h L" "small_calls cs"
  shows "\<exists>bs' h' L'. calls malloc free store cs bs h = Ok bs' h' \<and> holds bs' h' L'"
  using assms
proof (induction cs arbitrary: bs h L)
  case Nil
  then show ?case by auto
next
  case (Cons c cs)
  have "\<exists>bs' h' L'. call1 malloc free store c bs h = Ok bs' h' \<and> holds bs' h' L'"
    using call1_malloc [OF Cons.prems(1)] call1_free [OF Cons.prems(1)] call1_write [OF Cons.prems(1)] Cons.prems(2) by (cases c) auto
  then obtain bs' h' L' where s: "call1 malloc free store c bs h = Ok bs' h'" "holds bs' h' L'" by (elim exE conjE) (rule that)
  have "small_calls cs" using Cons.prems(2) by simp
  from Cons.IH [OF s(2) this] show ?case using s(1) by simp
qed

lemma holds_disjoint:
  assumes H: "holds bs h L" and b: "(p, n, c) \<in> set bs" "(q, k, d) \<in> set bs" "p \<noteq> q"
  shows "\<not> (inblk p n x \<and> inblk q k x)"
proof -
  obtain m where m: "n \<le> m" "(p, m) \<in> L" by (rule holdsE [OF H b(1)])
  obtain l where l: "k \<le> l" "(q, l) \<in> L" by (rule holdsE [OF H b(2)])
  show ?thesis using disjoint_law [OF holdsD(1) [OF H] m(2) l(2), of x] b(3) m(1) l(1) by (auto simp: inblk_def)
qed

end

interpretation kh: allocator heap kmalloc kfree kh_words poke
proof
  show "\<exists>p h'. kmalloc sz h = Ok p h' \<and> (\<forall>a n x. (a, n) \<in> L \<longrightarrow> inblk a n x \<longrightarrow> kh_words h' x = kh_words h x) \<and>
      (p = 0 \<and> heap h' L \<or> p \<noteq> 0 \<and> (\<exists>m \<ge> unat sz. (p, m) \<notin> L \<and> heap h' (insert (p, m) L)))"
    if h: "heap h L" "unat sz < 2 ^ 31 - 4096" for h L sz
    using kmalloc_ok [OF h] unfolding alloc_result_def kept_def by (elim exE conjE) (intro exI conjI, assumption, blast, blast)
  show "\<exists>h'. kfree p h = Ok () h' \<and> heap h' (L - {(p, n)}) \<and>
      (\<forall>a m x. (a, m) \<in> L - {(p, n)} \<longrightarrow> inblk a m x \<longrightarrow> kh_words h' x = kh_words h x)"
    if h: "heap h L" "(p, n) \<in> L" for h L p n
    using kfree_ok [OF h] unfolding freed_def kept_def by (elim exE conjE) (intro exI conjI, assumption, assumption, blast)
  show "heap (poke x v h) L" if "heap h L" "(a, n) \<in> L" "inblk a n x" for h L a n x v using that by (rule heap_poke(1))
  show "kh_words (poke x v h) y = (if y = x then v else kh_words h y)" for x v h y by (simp add: poke_def)
  show "\<not> (inblk a n x \<and> inblk b m x)" if "heap h L" "(a, n) \<in> L" "(b, m) \<in> L" "(a, n) \<noteq> (b, m)" for h L a n b m x
    using that by (rule heap_disjoint)
  show "0 < n \<and> unat a + n \<le> 2 ^ 32" if "heap h L" "(a, n) \<in> L" for h L a n using heap_nonempty [OF that] by simp
qed

subsection \<open>The heap at start-up\<close>

text \<open>The statically initialised variables of \<^verbatim>\<open>kmalloc.c\<close>.\<close>

definition kheap_start :: "kmem \<Rightarrow> kheap" where
  "kheap_start m =
     \<lparr>kh_vm = m, kh_words = (\<lambda>_. 0),
      kh_prs = (\<lambda>_. \<lparr>next_samesize = 0, next_all = 0, pageaddr_and_blocktype = 0, freelist_offset = 0, nfree = 0\<rparr>),
      kheaproots = replicate NUM_PAGEREFPAGES \<lparr>kr_page = 0, pagerefs_inuse = replicate INUSE_WORDS 0, numinuse = 0\<rparr>,
      sizebases = replicate NSIZES 0, allbase = 0, kmalloc_spinlock = False\<rparr>"

lemma kheap_start_ok:
  assumes "vm_ok m"
  shows "heap (kheap_start m) {}"
proof -
  let ?h = "kheap_start m" and ?r = "\<lparr>kr_page = 0, pagerefs_inuse = replicate INUSE_WORDS 0, numinuse = 0\<rparr>"
  have n: "kheaproots ?h ! w = ?r" if "w < 16" for w using that by (simp add: kheap_start_def NUM_PAGEREFPAGES_def)
  have b: "root_bits ?r = {}" by (auto simp: root_bits_def INUSE_WORDS_def)
  have "root_ok ?r" using b by (simp add: root_ok_def INUSE_WORDS_def)
  then have "roots_ok ?h" unfolding roots_ok_def using n by (simp add: kheap_start_def NUM_PAGEREFPAGES_def)
  then have "heap_rep ?h [] (\<lambda>_. []) {}"
    unfolding heap_rep_def using assms by (simp add: kheap_start_def NSIZES_def heappages_def big_ok_def)
  moreover have "live ?h [] (\<lambda>_. []) {} = {}" by (simp add: live_def)
  ultimately show ?thesis unfolding heap_def by metis
qed

subsection \<open>Properties\<close>

text \<open>
  \<^bold>\<open>C20.\<close> \<^verbatim>\<open>kmalloc\<close> of up to 2 GB minus a page never panics, never trips an assertion and always returns.
  It returns a pointer, aligned to 16 bytes, to a block of at least the size asked for that overlaps no
  block in use and is in use from then on; or a null pointer with the same blocks in use, and this only if
  there are too few free pages or every pageref is taken. The contents of all blocks in use stay as they were.
\<close>

theorem kmalloc_allocates:
  assumes "heap h L" "unat sz < 2 ^ 31 - 4096"
  shows "\<exists>p h'. kmalloc sz h = Ok p h' \<and> kept L h h' \<and>
    (p = 0 \<and> heap h' L \<and> refused (unat sz) h h' \<or>
     p \<noteq> 0 \<and> 16 dvd unat p \<and> (\<exists>m \<ge> unat sz. unat p + m \<le> 2 ^ 32 \<and> heap h' (insert (p, m) L) \<and>
       (\<forall>(b, k) \<in> L. \<forall>x. \<not> (inblk p m x \<and> inblk b k x))))"
proof -
  obtain p h' where p: "kmalloc sz h = Ok p h'" "alloc_result h L (unat sz) p h'" using kmalloc_ok [OF assms] by blast
  have "\<not> (inblk p m x \<and> inblk b k x)" if "heap h' (insert (p, m) L)" "(p, m) \<notin> L" "(b, k) \<in> L" for m b k x
    using heap_disjoint [OF that(1), of p m b k x] that(2,3) by blast
  then show ?thesis using p unfolding alloc_result_def by (intro exI [of _ p] exI [of _ h']) blast
qed

theorem kmalloc_allocates_witness:
  "heap (kheap_start demo_kmem) {} \<and> unat (100 :: u32) < 2 ^ 31 - 4096 \<and>
   (\<exists>p h'. kmalloc 100 (kheap_start demo_kmem) = Ok p h' \<and> (p = 0 \<and> heap h' {} \<or> p \<noteq> 0 \<and> 16 dvd unat p \<and> (\<exists>m \<ge> 100. heap h' {(p, m)})))"
  using kmalloc_allocates [OF kheap_start_ok [OF demo_kmem_ok], of 100] kheap_start_ok [OF demo_kmem_ok] by auto

text \<open>
  \<^bold>\<open>C21.\<close> \<^verbatim>\<open>kfree\<close> of a block in use, small or of whole pages, never panics and always returns; it takes exactly
  that block out of use, whether the block's page stays in the heap or goes back to the system, and the contents
  of all other blocks stay as they were. Freeing a null pointer does nothing.
\<close>

theorem kfree_releases:
  assumes "heap h L" "(p, n) \<in> L"
  shows "(\<exists>h'. kfree p h = Ok () h' \<and> heap h' (L - {(p, n)}) \<and> kept (L - {(p, n)}) h h') \<and> kfree 0 h = Ok () h"
  using kfree_ok [OF assms] unfolding freed_def by (simp add: kfree_null)

theorem kfree_releases_witness:
  "\<exists>p n h h'. kmalloc 5000 (kheap_start demo_kmem) = Ok p h \<and> p \<noteq> 0 \<and> heap h {(p, n)} \<and> kfree p h = Ok () h' \<and> heap h' {}"
proof -
  obtain p h where p: "kmalloc 5000 (kheap_start demo_kmem) = Ok p h" "alloc_result (kheap_start demo_kmem) {} 5000 p h"
    using kmalloc_ok [OF kheap_start_ok [OF demo_kmem_ok], of 5000] by auto
  have "\<exists>h. kmalloc 5000 (kheap_start demo_kmem) = Ok 0x80020000 h"
    by (simp add: kmalloc_def kheap_start_def demo_kmem_def kh_alloc_kpages_def alloc_kpages_def getppages_def ram_stealmem_def
        dumbvm_can_sleep_def LARGEST_SUBPAGE_SIZE_def PAGE_SIZE_def PADDR_TO_KVADDR_def MIPS_KSEG0_def)
  then have "p \<noteq> 0" using p(1) by auto
  then obtain n where n: "heap h {(p, n)}" using p(2) by (auto simp: alloc_result_def)
  then show ?thesis using kfree_releases [OF n, of p n] p(1) \<open>p \<noteq> 0\<close> by auto
qed

text \<open>
  \<^bold>\<open>C22.\<close> Any sequence of \<^verbatim>\<open>kmalloc\<close>, \<^verbatim>\<open>kfree\<close> and writes into blocks that are held, started on the heap as it is
  at boot, runs to its end without a panic. At the end the blocks in use are exactly the blocks held; they do not overlap,
  and every word written to one of them still has the value it was given last.
\<close>

theorem heap_calls_safe:
  assumes "vm_ok m" "small_calls cs"
  shows "\<exists>bs h L. calls kmalloc kfree poke cs [] (kheap_start m) = Ok bs h \<and> heap h L \<and> fst ` L = fst ` set bs \<and> distinct (map fst bs) \<and>
    (\<forall>(p, n, c) \<in> set bs. (\<exists>k \<ge> n. (p, k) \<in> L) \<and> (\<forall>j v. c j = Some v \<longrightarrow> kh_words h (waddr p j) = v)) \<and>
    (\<forall>(p, n, c) \<in> set bs. \<forall>(q, k, d) \<in> set bs. p \<noteq> q \<longrightarrow> (\<forall>x. \<not> (inblk p n x \<and> inblk q k x)))"
proof -
  have "kh.holds [] (kheap_start m) {}" using kheap_start_ok [OF assms(1)] by (simp add: kh.holds_def)
  from kh.calls_ok [OF this assms(2)] obtain bs h L where
    r: "calls kmalloc kfree poke cs [] (kheap_start m) = Ok bs h" "kh.holds bs h L" by (elim exE conjE) (rule that)
  note D = kh.holdsD [OF r(2)]
  have "(\<exists>k \<ge> n. (p, k) \<in> L) \<and> (\<forall>j v. c j = Some v \<longrightarrow> kh_words h (waddr p j) = v)" if "(p, n, c) \<in> set bs" for p n c
    by (rule kh.holdsE [OF r(2) that]) blast
  then have blocks: "\<forall>(p, n, c) \<in> set bs. (\<exists>k \<ge> n. (p, k) \<in> L) \<and> (\<forall>j v. c j = Some v \<longrightarrow> kh_words h (waddr p j) = v)" by blast
  have "\<forall>x. \<not> (inblk p n x \<and> inblk q k x)" if "(p, n, c) \<in> set bs" "(q, k, d) \<in> set bs" "p \<noteq> q" for p n c q k d
    using kh.holds_disjoint [OF r(2) that] by blast
  then have "\<forall>(p, n, c) \<in> set bs. \<forall>(q, k, d) \<in> set bs. p \<noteq> q \<longrightarrow> (\<forall>x. \<not> (inblk p n x \<and> inblk q k x))" by blast
  with blocks r(1) D show ?thesis by (intro exI [of _ bs] exI [of _ h] exI [of _ L] conjI)
qed

theorem heap_calls_safe_witness:
  "\<exists>bs h. calls kmalloc kfree poke [Call_malloc 24, Call_malloc 5000, Call_write 0 3 7, Call_free 1, Call_malloc 24] [] (kheap_start demo_kmem) = Ok bs h \<and>
     distinct (map fst bs)"
  using heap_calls_safe [OF demo_kmem_ok, of "[Call_malloc 24, Call_malloc 5000, Call_write 0 3 7, Call_free 1, Call_malloc 24]"] by auto

end
