(* ===== verification/Dumbvm.thy ===== *)
theory Dumbvm
  imports Physmem
begin

unbundle bit_operations_syntax

text \<open>
  The simple virtual memory system \<^verbatim>\<open>kern/arch/mips/vm/dumbvm.c\<close>: address spaces of two regions and a
  stack, page faults that fill the TLB, and the TLB faults of \<^verbatim>\<open>mips_trap\<close> in
  \<^verbatim>\<open>kern/arch/mips/locore/trap.c\<close> as the kernel takes them when it touches user memory.

  The state has the physical memory, the TLB of the CPU, the address space structures by address, the
  address space of the current process (none before there is a process, zero if it has none), whether the thread has
  a \<^verbatim>\<open>tm_badfaultfunc\<close>, and the kernel buffer of a transfer. Interrupts are off around the accesses to the
  TLB, so that each of these loops is one step; the level is the same before and after.
  The result of \<^verbatim>\<open>kmalloc\<close> is a parameter, the address of a new block or zero.
\<close>

definition USERSPACETOP :: u32 where "USERSPACETOP = MIPS_KSEG0"
definition USERSTACK :: u32 where "USERSTACK = USERSPACETOP"
definition DUMBVM_STACKPAGES :: u32 where "DUMBVM_STACKPAGES = 18"
definition VM_FAULT_READ :: int where "VM_FAULT_READ = 0"
definition VM_FAULT_WRITE :: int where "VM_FAULT_WRITE = 1"
definition VM_FAULT_READONLY :: int where "VM_FAULT_READONLY = 2"
definition TLBHI_VPAGE :: u32 where "TLBHI_VPAGE = 0xfffff000"
definition TLBLO_PPAGE :: u32 where "TLBLO_PPAGE = 0xfffff000"
definition TLBLO_DIRTY :: u32 where "TLBLO_DIRTY = 0x400"
definition TLBLO_VALID :: u32 where "TLBLO_VALID = 0x200"
definition TLBHI_INVALID :: "nat \<Rightarrow> u32" where "TLBHI_INVALID entryno = push_bit 12 (0x80000 + word_of_nat entryno)"
definition TLBLO_INVALID :: u32 where "TLBLO_INVALID = 0"
definition NUM_TLB :: nat where "NUM_TLB = 64"

record addrspace =
  as_vbase1 :: u32
  as_pbase1 :: u32
  as_npages1 :: u32
  as_vbase2 :: u32
  as_pbase2 :: u32
  as_npages2 :: u32
  as_stackpbase :: u32

record vmsys =
  vs_mem :: kmem
  vs_ram :: "u32 \<Rightarrow> u8"
  vs_tlb :: "(u32 \<times> u32) list"
  vs_as :: "u32 \<rightharpoonup> addrspace"
  vs_proc :: "u32 option"
  tm_badfaultfunc :: bool
  vs_kbuf :: "u8 list"

definition tlb_read :: "nat \<Rightarrow> vmsys \<Rightarrow> u32 \<times> u32" where
  "tlb_read i s = vs_tlb s ! i"

definition tlb_write :: "u32 \<Rightarrow> u32 \<Rightarrow> nat \<Rightarrow> vmsys \<Rightarrow> vmsys" where
  "tlb_write ehi elo i s = s\<lparr>vs_tlb := (vs_tlb s)[i := (ehi, elo)]\<rparr>"

subsection \<open>Page faults\<close>

definition as_asserts :: "addrspace \<Rightarrow> bool" where
  "as_asserts as \<longleftrightarrow>
     as_vbase1 as \<noteq> 0 \<and> as_pbase1 as \<noteq> 0 \<and> as_npages1 as \<noteq> 0 \<and>
     as_vbase2 as \<noteq> 0 \<and> as_pbase2 as \<noteq> 0 \<and> as_npages2 as \<noteq> 0 \<and> as_stackpbase as \<noteq> 0 \<and>
     as_vbase1 as AND PAGE_FRAME = as_vbase1 as \<and> as_pbase1 as AND PAGE_FRAME = as_pbase1 as \<and>
     as_vbase2 as AND PAGE_FRAME = as_vbase2 as \<and> as_pbase2 as AND PAGE_FRAME = as_pbase2 as \<and>
     as_stackpbase as AND PAGE_FRAME = as_stackpbase as"

definition as_paddr :: "addrspace \<Rightarrow> u32 \<Rightarrow> u32 option" where
  "as_paddr as faultaddress =
     (let vbase1 = as_vbase1 as;
          vtop1 = vbase1 + as_npages1 as * PAGE_SIZE;
          vbase2 = as_vbase2 as;
          vtop2 = vbase2 + as_npages2 as * PAGE_SIZE;
          stackbase = USERSTACK - DUMBVM_STACKPAGES * PAGE_SIZE;
          stacktop = USERSTACK
      in if faultaddress \<ge> vbase1 \<and> faultaddress < vtop1 then Some ((faultaddress - vbase1) + as_pbase1 as)
         else if faultaddress \<ge> vbase2 \<and> faultaddress < vtop2 then Some ((faultaddress - vbase2) + as_pbase2 as)
         else if faultaddress \<ge> stackbase \<and> faultaddress < stacktop then Some ((faultaddress - stackbase) + as_stackpbase as)
         else None)"

fun tlb_fill :: "nat list \<Rightarrow> u32 \<Rightarrow> u32 \<Rightarrow> vmsys \<Rightarrow> (unit, vmsys) res" where
  "tlb_fill [] faultaddress paddr s = Err EFAULT s"
| "tlb_fill (i # is) faultaddress paddr s =
     (case tlb_read i s of (ehi, elo) \<Rightarrow>
        if elo AND TLBLO_VALID \<noteq> 0 then tlb_fill is faultaddress paddr s
        else Ok () (tlb_write faultaddress (paddr OR TLBLO_DIRTY OR TLBLO_VALID) i s))"

definition vm_fault :: "int \<Rightarrow> u32 \<Rightarrow> vmsys \<Rightarrow> (unit, vmsys) res" where
  "vm_fault faulttype faultaddress s =
     (let faultaddress = faultaddress AND PAGE_FRAME in
      if faulttype = VM_FAULT_READONLY then Panic
      else if faulttype \<noteq> VM_FAULT_READ \<and> faulttype \<noteq> VM_FAULT_WRITE then Err EINVAL s
      else case vs_proc s of
        None \<Rightarrow> Err EFAULT s
      | Some asp \<Rightarrow>
          if asp = 0 then Err EFAULT s
          else case vs_as s asp of
            None \<Rightarrow> Fault
          | Some as \<Rightarrow> kassert (as_asserts as)
              (case as_paddr as faultaddress of
                 None \<Rightarrow> Err EFAULT s
               | Some paddr \<Rightarrow> kassert (paddr AND PAGE_FRAME = paddr)
                   (tlb_fill [0..<NUM_TLB] faultaddress paddr s)))"

subsection \<open>Address spaces\<close>

definition as_create :: "u32 \<Rightarrow> vmsys \<Rightarrow> (u32, vmsys) res" where
  "as_create km s =
     (if km = 0 then Ok 0 s
      else Ok km (s\<lparr>vs_as := (vs_as s)(km \<mapsto>
        \<lparr>as_vbase1 = 0, as_pbase1 = 0, as_npages1 = 0, as_vbase2 = 0, as_pbase2 = 0, as_npages2 = 0, as_stackpbase = 0\<rparr>)\<rparr>))"

definition as_destroy :: "u32 \<Rightarrow> vmsys \<Rightarrow> (unit, vmsys) res" where
  "as_destroy asp s =
     kassert (dumbvm_can_sleep (vs_mem s))
       (if vs_as s asp = None then Fault else Ok () (s\<lparr>vs_as := (vs_as s)(asp := None)\<rparr>))"

fun tlb_flush :: "nat list \<Rightarrow> vmsys \<Rightarrow> vmsys" where
  "tlb_flush [] s = s"
| "tlb_flush (i # is) s = tlb_flush is (tlb_write (TLBHI_INVALID i) TLBLO_INVALID i s)"

definition as_activate :: "vmsys \<Rightarrow> vmsys" where
  "as_activate s =
     (case vs_proc s of
        None \<Rightarrow> s
      | Some asp \<Rightarrow> if asp = 0 then s else tlb_flush [0..<NUM_TLB] s)"

definition as_deactivate :: "vmsys \<Rightarrow> vmsys" where
  "as_deactivate s = s"

definition as_define_region :: "u32 \<Rightarrow> u32 \<Rightarrow> u32 \<Rightarrow> vmsys \<Rightarrow> (unit, vmsys) res" where
  "as_define_region asp vaddr sz s =
     kassert (dumbvm_can_sleep (vs_mem s))
       (let sz = sz + (vaddr AND NOT PAGE_FRAME);
            vaddr = vaddr AND PAGE_FRAME;
            sz = (sz + PAGE_SIZE - 1) AND PAGE_FRAME;
            npages = sz div PAGE_SIZE
        in case vs_as s asp of
             None \<Rightarrow> Fault
           | Some as \<Rightarrow>
               if as_vbase1 as = 0 then Ok () (s\<lparr>vs_as := (vs_as s)(asp \<mapsto> as\<lparr>as_vbase1 := vaddr, as_npages1 := npages\<rparr>)\<rparr>)
               else if as_vbase2 as = 0 then Ok () (s\<lparr>vs_as := (vs_as s)(asp \<mapsto> as\<lparr>as_vbase2 := vaddr, as_npages2 := npages\<rparr>)\<rparr>)
               else Err ENOSYS s)"

text \<open>\<^verbatim>\<open>bzero\<close> and \<^verbatim>\<open>memmove\<close> on physical memory, reached through \<^verbatim>\<open>kseg0\<close>.\<close>

definition ram_zero :: "u32 \<Rightarrow> u32 \<Rightarrow> (u32 \<Rightarrow> u8) \<Rightarrow> (u32 \<Rightarrow> u8)" where
  "ram_zero a len r = (\<lambda>x. if x - a < len then 0 else r x)"

definition ram_move :: "u32 \<Rightarrow> u32 \<Rightarrow> u32 \<Rightarrow> (u32 \<Rightarrow> u8) \<Rightarrow> (u32 \<Rightarrow> u8)" where
  "ram_move dst src len r = (\<lambda>x. if x - dst < len then r (src + (x - dst)) else r x)"

definition as_zero_region :: "u32 \<Rightarrow> u32 \<Rightarrow> vmsys \<Rightarrow> vmsys" where
  "as_zero_region paddr npages s = s\<lparr>vs_ram := ram_zero paddr (npages * PAGE_SIZE) (vs_ram s)\<rparr>"

definition put_as :: "u32 \<Rightarrow> addrspace \<Rightarrow> vmsys \<Rightarrow> vmsys" where
  "put_as asp as s = s\<lparr>vs_as := (vs_as s)(asp \<mapsto> as)\<rparr>"

definition as_prepare_load :: "u32 \<Rightarrow> vmsys \<Rightarrow> (unit, vmsys) res" where
  "as_prepare_load asp s =
     (case vs_as s asp of
        None \<Rightarrow> Fault
      | Some as \<Rightarrow>
          kassert (as_pbase1 as = 0) (kassert (as_pbase2 as = 0) (kassert (as_stackpbase as = 0)
          (kassert (dumbvm_can_sleep (vs_mem s))
            (case getppages (as_npages1 as) (vs_mem s) of (p1, m1) \<Rightarrow>
             let as = as\<lparr>as_pbase1 := p1\<rparr>; s = put_as asp as (s\<lparr>vs_mem := m1\<rparr>) in
             if p1 = 0 then Err ENOMEM s
             else case getppages (as_npages2 as) (vs_mem s) of (p2, m2) \<Rightarrow>
             let as = as\<lparr>as_pbase2 := p2\<rparr>; s = put_as asp as (s\<lparr>vs_mem := m2\<rparr>) in
             if p2 = 0 then Err ENOMEM s
             else case getppages DUMBVM_STACKPAGES (vs_mem s) of (p3, m3) \<Rightarrow>
             let as = as\<lparr>as_stackpbase := p3\<rparr>; s = put_as asp as (s\<lparr>vs_mem := m3\<rparr>) in
             if p3 = 0 then Err ENOMEM s
             else Ok () (as_zero_region p3 DUMBVM_STACKPAGES
                    (as_zero_region p2 (as_npages2 as) (as_zero_region p1 (as_npages1 as) s))))))))"

definition as_complete_load :: "u32 \<Rightarrow> vmsys \<Rightarrow> (unit, vmsys) res" where
  "as_complete_load asp s = kassert (dumbvm_can_sleep (vs_mem s)) (Ok () s)"

definition as_define_stack :: "u32 \<Rightarrow> vmsys \<Rightarrow> (u32, vmsys) res" where
  "as_define_stack asp s =
     (case vs_as s asp of None \<Rightarrow> Fault | Some as \<Rightarrow> kassert (as_stackpbase as \<noteq> 0) (Ok USERSTACK s))"

definition as_copy :: "u32 \<Rightarrow> u32 \<Rightarrow> vmsys \<Rightarrow> (u32, vmsys) res" where
  "as_copy km oldp s =
     kassert (dumbvm_can_sleep (vs_mem s))
       (kbind (as_create km s) (\<lambda>newp s.
          if newp = 0 then Err ENOMEM s
          else case (vs_as s oldp, vs_as s newp) of
            (Some old, Some new) \<Rightarrow>
              let new = new\<lparr>as_vbase1 := as_vbase1 old, as_npages1 := as_npages1 old,
                            as_vbase2 := as_vbase2 old, as_npages2 := as_npages2 old\<rparr>;
                  s = put_as newp new s
              in (case as_prepare_load newp s of
                    Err e s \<Rightarrow> kbind (as_destroy newp s) (\<lambda>_ s. Err ENOMEM s)
                  | Ok _ s \<Rightarrow>
                      (case vs_as s newp of
                         None \<Rightarrow> Fault
                       | Some new \<Rightarrow>
                           kassert (as_pbase1 new \<noteq> 0) (kassert (as_pbase2 new \<noteq> 0) (kassert (as_stackpbase new \<noteq> 0)
                             (let r = ram_move (as_pbase1 new) (as_pbase1 old) (as_npages1 old * PAGE_SIZE) (vs_ram s);
                                  r = ram_move (as_pbase2 new) (as_pbase2 old) (as_npages2 old * PAGE_SIZE) r;
                                  r = ram_move (as_stackpbase new) (as_stackpbase old) (DUMBVM_STACKPAGES * PAGE_SIZE) r
                              in Ok newp (s\<lparr>vs_ram := r\<rparr>)))))
                  | Panic \<Rightarrow> Panic | Fault \<Rightarrow> Fault | Hang \<Rightarrow> Hang)
          | _ \<Rightarrow> Fault))"

subsection \<open>Access to user memory from the kernel\<close>

text \<open>
  The address translation of the processor for an address in user space: the physical address, or the
  fault it takes. An entry matches if it is for the page of the address; without a valid
  matching entry the access takes a TLB miss, and a write to a page without the dirty bit a modification fault.
\<close>

fun tlb_lookup :: "(u32 \<times> u32) list \<Rightarrow> u32 \<Rightarrow> u32 option" where
  "tlb_lookup [] va = None"
| "tlb_lookup ((ehi, elo) # es) va = (if ehi AND TLBHI_VPAGE = va AND TLBHI_VPAGE then Some elo else tlb_lookup es va)"

definition mmu :: "bool \<Rightarrow> u32 \<Rightarrow> vmsys \<Rightarrow> u32 + int" where
  "mmu writing va s =
     (let miss = Inr (if writing then VM_FAULT_WRITE else VM_FAULT_READ) in
      case tlb_lookup (vs_tlb s) va of
        None \<Rightarrow> miss
      | Some elo \<Rightarrow>
          if elo AND TLBLO_VALID = 0 then miss
          else if writing \<and> elo AND TLBLO_DIRTY = 0 then Inr VM_FAULT_READONLY
          else Inl ((elo AND TLBLO_PPAGE) OR (va AND NOT PAGE_FRAME)))"

text \<open>\<^verbatim>\<open>mips_trap\<close> for a TLB fault in kernel mode: retry the access, or go on in \<^verbatim>\<open>tm_badfaultfunc\<close>.\<close>

definition kern_tlb_trap :: "int \<Rightarrow> u32 \<Rightarrow> vmsys \<Rightarrow> (bool, vmsys) res" where
  "kern_tlb_trap code va s =
     (case vm_fault code va s of
        Ok _ s \<Rightarrow> Ok True s
      | Err e s \<Rightarrow> if tm_badfaultfunc s then Ok False s else Panic
      | Panic \<Rightarrow> Panic | Fault \<Rightarrow> Fault | Hang \<Rightarrow> Hang)"

fun user_access :: "nat \<Rightarrow> bool \<Rightarrow> u32 \<Rightarrow> vmsys \<Rightarrow> (u32 option, vmsys) res" where
  "user_access 0 writing va s = Hang"
| "user_access (Suc n) writing va s =
     (case mmu writing va s of
        Inl pa \<Rightarrow> Ok (Some pa) s
      | Inr code \<Rightarrow> kbind (kern_tlb_trap code va s) (\<lambda>again s. if again then user_access n writing va s else Ok None s))"

definition user_load :: "u32 \<Rightarrow> vmsys \<Rightarrow> (u8 option, vmsys) res" where
  "user_load va s = kbind (user_access 2 False va s) (\<lambda>pa s. Ok (map_option (vs_ram s) pa) s)"

definition user_store :: "u32 \<Rightarrow> u8 \<Rightarrow> vmsys \<Rightarrow> (bool, vmsys) res" where
  "user_store va b s =
     kbind (user_access 2 True va s) (\<lambda>pa s.
       case pa of None \<Rightarrow> Ok False s | Some pa \<Rightarrow> Ok True (s\<lparr>vs_ram := (vs_ram s)(pa := b)\<rparr>))"

subsection \<open>Well-formed address spaces\<close>

text \<open>The regions of an address space: virtual base, physical base, number of pages.\<close>

definition STACKBASE :: u32 where
  "STACKBASE = USERSTACK - DUMBVM_STACKPAGES * PAGE_SIZE"

definition as_regs :: "addrspace \<Rightarrow> (u32 \<times> u32 \<times> u32) list" where
  "as_regs a = [(as_vbase1 a, as_pbase1 a, as_npages1 a), (as_vbase2 a, as_pbase2 a, as_npages2 a),
     (STACKBASE, as_stackpbase a, DUMBVM_STACKPAGES)]"

fun inreg :: "u32 \<Rightarrow> u32 \<times> u32 \<times> u32 \<Rightarrow> bool" where
  "inreg x (v, p, n) \<longleftrightarrow> unat v \<le> unat x \<and> unat x < unat v + 4096 * unat n"

fun pset :: "u32 \<times> u32 \<times> u32 \<Rightarrow> nat set" where
  "pset (v, p, n) = (if p = 0 then {} else {unat p ..< unat p + 4096 * unat n})"

fun reg_ok :: "kmem \<Rightarrow> u32 \<times> u32 \<times> u32 \<Rightarrow> bool" where
  "reg_ok m (v, p, n) \<longleftrightarrow> unat v mod 4096 = 0 \<and> unat n < 2 ^ 19 \<and> unat v + 4096 * unat n \<le> 2 ^ 31 \<and>
     (p \<noteq> 0 \<longrightarrow> unat p mod 4096 = 0 \<and> unat p + 4096 * unat n \<le> unat (firstpaddr m))"

definition as_phys :: "addrspace \<Rightarrow> nat set" where
  "as_phys a = (\<Union>r \<in> set (as_regs a). pset r)"

definition as_wf :: "kmem \<Rightarrow> addrspace \<Rightarrow> bool" where
  "as_wf m a \<longleftrightarrow> (\<forall>r \<in> set (as_regs a). reg_ok m r) \<and> sorted_wrt (\<lambda>r q. pset r \<inter> pset q = {}) (as_regs a)"

text \<open>Where an address of user space is in physical memory.\<close>

definition as_vtop :: "addrspace \<Rightarrow> u32 \<Rightarrow> u32 option" where
  "as_vtop a va = map_option (\<lambda>pa. pa + (va AND NOT PAGE_FRAME)) (as_paddr a (va AND PAGE_FRAME))"

lemma stackbase_unat: "unat STACKBASE = 2 ^ 31 - 73728"
  by (simp add: STACKBASE_def USERSTACK_def USERSPACETOP_def MIPS_KSEG0_def DUMBVM_STACKPAGES_def PAGE_SIZE_def)

lemma stack_reg_ok: "reg_ok m (STACKBASE, p, DUMBVM_STACKPAGES) \<longleftrightarrow>
    (p \<noteq> 0 \<longrightarrow> unat p mod 4096 = 0 \<and> unat p + 73728 \<le> unat (firstpaddr m))"
  by (simp add: stackbase_unat DUMBVM_STACKPAGES_def)

lemma region_test:
  assumes "reg_ok m (v, p, n)"
  shows "x \<ge> v \<and> x < v + n * PAGE_SIZE \<longleftrightarrow> inreg x (v, p, n)"
proof -
  have n: "unat n < 2 ^ 19" "unat v + 4096 * unat n \<le> 2 ^ 31" using assms by simp_all
  have "unat (n * PAGE_SIZE) = 4096 * unat n"
    using n(1) unat_mult_small [of n PAGE_SIZE] by (simp add: PAGE_SIZE_def)
  then have "unat (v + n * PAGE_SIZE) = unat v + 4096 * unat n"
    using n(2) unat_add_small [of v "n * PAGE_SIZE"] by simp
  then show ?thesis by (simp add: u32_order)
qed

lemma as_paddr_find:
  assumes "as_wf m a"
  shows "as_paddr a x = (case find (inreg x) (as_regs a) of None \<Rightarrow> None | Some (v, p, n) \<Rightarrow> Some (x - v + p))"
proof -
  have ok: "reg_ok m (as_vbase1 a, as_pbase1 a, as_npages1 a)" "reg_ok m (as_vbase2 a, as_pbase2 a, as_npages2 a)"
    "reg_ok m (STACKBASE, as_stackpbase a, DUMBVM_STACKPAGES)"
    using assms by (simp_all add: as_wf_def as_regs_def del: reg_ok.simps)
  have st: "STACKBASE + DUMBVM_STACKPAGES * PAGE_SIZE = USERSTACK" by (simp add: STACKBASE_def)
  show ?thesis
    unfolding as_paddr_def Let_def region_test [OF ok(1)] region_test [OF ok(2)] STACKBASE_def [symmetric]
      region_test [OF ok(3), unfolded st] as_regs_def
    by (simp del: inreg.simps)
qed

lemma find_reg:
  assumes "find P xs = Some x"
  shows "x \<in> set xs" "P x"
  using assms by (auto simp: find_Some_iff)

lemma as_regs_pbase:
  assumes "as_asserts a" "(v, p, n) \<in> set (as_regs a)"
  shows "p \<noteq> 0"
  using assms by (auto simp: as_asserts_def as_regs_def)

lemma as_paddr_Some:
  assumes wf: "as_wf m a" and vm: "vm_ok m" and as: "as_asserts a" and x: "unat x mod 4096 = 0" and pa: "as_paddr a x = Some pa"
  shows "unat pa mod 4096 = 0" "{unat pa ..< unat pa + 4096} \<subseteq> as_phys a" "unat pa + 4096 \<le> unat (firstpaddr m)" "unat x + 4096 \<le> 2 ^ 31"
proof -
  obtain v p n where f: "find (inreg x) (as_regs a) = Some (v, p, n)" "pa = x - v + p"
    using pa unfolding as_paddr_find [OF wf] by (auto split: option.splits)
  note r = find_reg [OF f(1)]
  have p0: "p \<noteq> 0" by (rule as_regs_pbase [OF as r(1)])
  have "reg_ok m (v, p, n)" using wf r(1) unfolding as_wf_def by blast
  then have ok: "unat v mod 4096 = 0" "unat v + 4096 * unat n \<le> 2 ^ 31" "unat p mod 4096 = 0" "unat p + 4096 * unat n \<le> unat (firstpaddr m)"
    using p0 by auto
  have i: "unat v \<le> unat x" "unat x < unat v + 4096 * unat n" using r(2) by simp_all
  obtain i j k where q: "unat v = 4096 * i" "unat p = 4096 * j" "unat x = 4096 * k" using ok(1,3) x by (metis mod_0_imp_dvd dvdE)
  have u: "unat (x - v) = 4096 * (k - i)" using unat_diff_small [of v x] i(1) q by (simp add: u32_le_iff diff_mult_distrib2)
  have kb: "i \<le> k" "k < i + unat n" using i q by simp_all
  have "unat (x - v) + unat p < 2 ^ 32" using u q(2) kb ok(4) unat_u32_less [of "firstpaddr m"] by linarith
  then have pu: "unat pa = 4096 * (k - i + j)" using f(2) u q(2) by (simp add: unat_add_small distrib_left)
  then show "unat pa mod 4096 = 0" by simp
  have sub: "unat p \<le> unat pa" "unat pa + 4096 \<le> unat p + 4096 * unat n" using pu q(2) kb by auto
  then have "{unat pa ..< unat pa + 4096} \<subseteq> pset (v, p, n)" using p0 by auto
  then show "{unat pa ..< unat pa + 4096} \<subseteq> as_phys a" unfolding as_phys_def using r(1) by blast
  show "unat pa + 4096 \<le> unat (firstpaddr m)" using sub(2) ok(4) by linarith
  show "unat x + 4096 \<le> 2 ^ 31" using ok(2) q kb by simp
qed

lemma frame_aligned: "unat (x AND PAGE_FRAME) mod 4096 = 0"
  by (simp add: pageaddr_unat minus_mod_eq_mult_div)

lemma frame_idem: "unat x mod 4096 = 0 \<Longrightarrow> x AND PAGE_FRAME = x"
  by (simp add: u32_eq_iff pageaddr_unat)

lemma frame_unat: "unat (x AND PAGE_FRAME) + unat x mod 4096 = unat x"
  by (simp add: pageaddr_unat)

lemma as_vtop_unat:
  assumes "as_wf m a" "vm_ok m" "as_asserts a" "as_paddr a (va AND PAGE_FRAME) = Some pa"
  shows "unat (pa + (va AND NOT PAGE_FRAME)) = unat pa + unat va mod 4096" "pa OR (va AND NOT PAGE_FRAME) = pa + (va AND NOT PAGE_FRAME)"
    "unat (pa + (va AND NOT PAGE_FRAME)) \<in> as_phys a"
proof -
  note p = as_paddr_Some [OF assms(1-3) frame_aligned assms(4)]
  have b: "unat va mod 4096 < 4096" by simp
  have "unat pa + unat va mod 4096 < 2 ^ 32" using p(3) b unat_u32_less [of "firstpaddr m"] by linarith
  then show u: "unat (pa + (va AND NOT PAGE_FRAME)) = unat pa + unat va mod 4096" by (simp add: unat_add_small blocktype_unat)
  have "(pa AND PAGE_FRAME) AND (va AND NOT PAGE_FRAME) = 0" by (rule bit_eqI) (simp add: bit_and_iff bit_not_iff)
  then have "pa AND (va AND NOT PAGE_FRAME) = 0" unfolding frame_idem [OF p(1)] .
  then show "pa OR (va AND NOT PAGE_FRAME) = pa + (va AND NOT PAGE_FRAME)" by (simp only: disjunctive_add_eq_or)
  show "unat (pa + (va AND NOT PAGE_FRAME)) \<in> as_phys a" using p(2) b unfolding u by (auto simp: subset_iff)
qed

subsection \<open>The TLB\<close>

definition tlb_valid :: "u32 \<times> u32 \<Rightarrow> bool" where
  "tlb_valid e \<longleftrightarrow> snd e AND TLBLO_VALID \<noteq> 0"

definition tlb_tag :: "u32 \<times> u32 \<Rightarrow> u32" where
  "tlb_tag e = fst e AND TLBHI_VPAGE"

definition entry_ok :: "addrspace \<Rightarrow> u32 \<times> u32 \<Rightarrow> bool" where
  "entry_ok a e \<longleftrightarrow>
     (if tlb_valid e then as_asserts a \<and> fst e AND PAGE_FRAME = fst e \<and>
        (\<exists>pa. as_paddr a (fst e) = Some pa \<and> snd e = pa OR TLBLO_DIRTY OR TLBLO_VALID)
      else USERSPACETOP \<le> tlb_tag e)"

text \<open>No two entries are for the same page, and the valid entries are translations of the current address space.\<close>

definition tlb_ok :: "vmsys \<Rightarrow> bool" where
  "tlb_ok s \<longleftrightarrow> length (vs_tlb s) = NUM_TLB \<and>
     (\<forall>p a. vs_proc s = Some p \<longrightarrow> vs_as s p = Some a \<longrightarrow> distinct (map tlb_tag (vs_tlb s)) \<and> (\<forall>e \<in> set (vs_tlb s). entry_ok a e))"

definition vm_wf :: "vmsys \<Rightarrow> bool" where
  "vm_wf s \<longleftrightarrow> vm_ok (vs_mem s) \<and> tlb_ok s \<and> vs_as s 0 = None \<and> (\<forall>p a. vs_as s p = Some a \<longrightarrow> as_wf (vs_mem s) a) \<and>
     (\<forall>p q a b. vs_as s p = Some a \<longrightarrow> vs_as s q = Some b \<longrightarrow> p \<noteq> q \<longrightarrow> as_phys a \<inter> as_phys b = {}) \<and>
     (\<forall>p. vs_proc s = Some p \<longrightarrow> p \<noteq> 0 \<longrightarrow> vs_as s p \<noteq> None)"

definition tlb_full :: "vmsys \<Rightarrow> bool" where
  "tlb_full s \<longleftrightarrow> (\<forall>e \<in> set (vs_tlb s). tlb_valid e)"

lemma vpage [simp]: "TLBHI_VPAGE = PAGE_FRAME" "TLBLO_PPAGE = PAGE_FRAME"
  by (simp_all add: TLBHI_VPAGE_def TLBLO_PPAGE_def PAGE_FRAME_def)

lemma elo_bits:
  assumes "unat pa mod 4096 = 0"
  shows "(pa OR TLBLO_DIRTY OR TLBLO_VALID) AND TLBLO_VALID \<noteq> 0" "(pa OR TLBLO_DIRTY OR TLBLO_VALID) AND TLBLO_DIRTY \<noteq> 0"
    "(pa OR TLBLO_DIRTY OR TLBLO_VALID) AND PAGE_FRAME = pa"
proof -
  show "(pa OR TLBLO_DIRTY OR TLBLO_VALID) AND TLBLO_VALID \<noteq> 0" "(pa OR TLBLO_DIRTY OR TLBLO_VALID) AND TLBLO_DIRTY \<noteq> 0"
    unfolding bit.conj_disj_distrib2 or_eq_0_iff by (simp_all add: TLBLO_DIRTY_def TLBLO_VALID_def)
  have "TLBLO_DIRTY AND PAGE_FRAME = 0" "TLBLO_VALID AND PAGE_FRAME = 0" by (simp_all add: TLBLO_DIRTY_def TLBLO_VALID_def PAGE_FRAME_def)
  then show "(pa OR TLBLO_DIRTY OR TLBLO_VALID) AND PAGE_FRAME = pa"
    using frame_idem [OF assms] unfolding bit.conj_disj_distrib2 by simp
qed

lemma tlb_lookup_None: "tlb_lookup es va = None \<longleftrightarrow> va AND PAGE_FRAME \<notin> tlb_tag ` set es"
proof (induction es)
  case (Cons e es)
  then show ?case by (cases e) (simp add: tlb_tag_def eq_commute)
qed simp

lemma tlb_lookup_Some: "tlb_lookup es va = Some elo \<Longrightarrow> \<exists>ehi. (ehi, elo) \<in> set es \<and> tlb_tag (ehi, elo) = va AND PAGE_FRAME"
  by (induction es) (auto simp: tlb_tag_def split: if_splits)

lemma tlb_lookup_distinct:
  "distinct (map tlb_tag es) \<Longrightarrow> e \<in> set es \<Longrightarrow> tlb_tag e = va AND PAGE_FRAME \<Longrightarrow> tlb_lookup es va = Some (snd e)"
proof (induction es)
  case (Cons x es)
  have "tlb_tag x \<noteq> va AND PAGE_FRAME" if "e \<in> set es"
  proof
    assume "tlb_tag x = va AND PAGE_FRAME"
    then have "tlb_tag x \<in> tlb_tag ` set es" using that Cons.prems(3) by (metis imageI)
    then show False using Cons.prems(1) by simp
  qed
  then show ?case using Cons by (cases x) (auto simp: tlb_tag_def)
qed simp

lemma tlb_fill_result:
  assumes "\<forall>i \<in> set is. i < length (vs_tlb s)"
  shows "(\<forall>i \<in> set is. tlb_valid (vs_tlb s ! i)) \<and> tlb_fill is fa pa s = Err EFAULT s \<or>
    (\<exists>i \<in> set is. \<not> tlb_valid (vs_tlb s ! i) \<and> tlb_fill is fa pa s = Ok () (tlb_write fa (pa OR TLBLO_DIRTY OR TLBLO_VALID) i s))"
  using assms by (induction "is") (auto simp: tlb_read_def tlb_valid_def split: prod.splits)

text \<open>The current process has an address space that is set up.\<close>

definition running :: "vmsys \<Rightarrow> u32 \<Rightarrow> addrspace \<Rightarrow> bool" where
  "running s p a \<longleftrightarrow> vm_wf s \<and> vs_proc s = Some p \<and> vs_as s p = Some a \<and> as_asserts a"

lemma runningD:
  assumes "running s p a"
  shows "vm_ok (vs_mem s)" "as_wf (vs_mem s) a" "vs_proc s = Some p" "vs_as s p = Some a" "as_asserts a" "vm_wf s" "p \<noteq> 0"
    "length (vs_tlb s) = NUM_TLB" "distinct (map tlb_tag (vs_tlb s))" "e \<in> set (vs_tlb s) \<Longrightarrow> entry_ok a e"
  using assms by (auto simp: running_def vm_wf_def tlb_ok_def)

lemma running_tlb:
  assumes "running s p a" "length tlb = NUM_TLB" "distinct (map tlb_tag tlb)" "\<forall>e \<in> set tlb. entry_ok a e"
  shows "running (s\<lparr>vs_tlb := tlb\<rparr>) p a"
  using assms unfolding running_def vm_wf_def tlb_ok_def by auto

lemma running_ram:
  assumes "running s p a"
  shows "running (s\<lparr>vs_ram := r\<rparr>) p a"
  using assms unfolding running_def vm_wf_def tlb_ok_def by simp

definition tlb_has :: "vmsys \<Rightarrow> u32 \<Rightarrow> bool" where
  "tlb_has s va \<longleftrightarrow> va AND PAGE_FRAME \<in> tlb_tag ` set (vs_tlb s)"

text \<open>The pages of user space one TLB has, another one has too.\<close>

definition tlb_grows :: "vmsys \<Rightarrow> vmsys \<Rightarrow> bool" where
  "tlb_grows s s' \<longleftrightarrow> (\<forall>va. va < USERSPACETOP \<longrightarrow> tlb_has s va \<longrightarrow> tlb_has s' va)"

lemma tlb_grows_refl [simp]: "tlb_grows s s"
  by (simp add: tlb_grows_def)

lemma tlb_grows_trans: "tlb_grows s t \<Longrightarrow> tlb_grows t u \<Longrightarrow> tlb_grows s u"
  by (simp add: tlb_grows_def)

lemma hit:
  assumes R: "running s p a" and va: "va < USERSPACETOP" and h: "tlb_has s va"
  shows "\<exists>pa. mmu w va s = Inl pa \<and> as_vtop a va = Some pa"
proof -
  note D = runningD [OF R]
  obtain e where e: "e \<in> set (vs_tlb s)" "tlb_tag e = va AND PAGE_FRAME" using h by (auto simp: tlb_has_def)
  have l: "tlb_lookup (vs_tlb s) va = Some (snd e)" by (rule tlb_lookup_distinct [OF D(9) e])
  have "\<not> USERSPACETOP \<le> tlb_tag e" using va frame_unat [of va] unfolding e(2) by (simp add: u32_order)
  then have "tlb_valid e" "fst e AND PAGE_FRAME = fst e" "\<exists>pa. as_paddr a (fst e) = Some pa \<and> snd e = pa OR TLBLO_DIRTY OR TLBLO_VALID"
    using D(10) [OF e(1)] unfolding entry_ok_def by (simp_all split: if_splits)
  then obtain pa where pa: "as_paddr a (va AND PAGE_FRAME) = Some pa" "snd e = pa OR TLBLO_DIRTY OR TLBLO_VALID" using e(2) by (auto simp: tlb_tag_def)
  note al = as_paddr_Some(1) [OF D(2,1,5) frame_aligned pa(1)]
  have "mmu w va s = Inl (pa + (va AND NOT PAGE_FRAME))"
    unfolding mmu_def Let_def l option.case pa(2) vpage elo_bits(3) [OF al] as_vtop_unat(2) [OF D(2,1,5) pa(1)]
    using elo_bits(1,2) [OF al] by simp
  then show ?thesis using pa(1) by (simp add: as_vtop_def)
qed

lemma miss:
  assumes "\<not> tlb_has s va"
  shows "mmu w va s = Inr (if w then VM_FAULT_WRITE else VM_FAULT_READ)"
  using assms tlb_lookup_None [of "vs_tlb s" va] by (simp add: mmu_def tlb_has_def)

text \<open>
  An access of the kernel to user memory, faults included: it reaches the byte the address space maps, or
  it ends in \<^verbatim>\<open>tm_badfaultfunc\<close> because the address is not mapped or the TLB is full.
\<close>

lemma tlb_insert_ok:
  assumes R: "running s p a" and pa: "as_paddr a (va AND PAGE_FRAME) = Some pa" and i: "i < NUM_TLB" "\<not> tlb_valid (vs_tlb s ! i)" and m: "\<not> tlb_has s va"
  shows "running (tlb_write (va AND PAGE_FRAME) (pa OR TLBLO_DIRTY OR TLBLO_VALID) i s) p a"
    "tlb_has (tlb_write (va AND PAGE_FRAME) (pa OR TLBLO_DIRTY OR TLBLO_VALID) i s) va"
    "tlb_grows s (tlb_write (va AND PAGE_FRAME) (pa OR TLBLO_DIRTY OR TLBLO_VALID) i s)"
proof -
  note D = runningD [OF R]
  let ?e = "(va AND PAGE_FRAME, pa OR TLBLO_DIRTY OR TLBLO_VALID)"
  let ?tlb = "(vs_tlb s)[i := ?e]"
  have al: "unat pa mod 4096 = 0" by (rule as_paddr_Some(1) [OF D(2,1,5) frame_aligned pa])
  have tag: "tlb_tag ?e = va AND PAGE_FRAME" by (simp add: tlb_tag_def)
  have "entry_ok a ?e" using elo_bits(1) [OF al] D(5) pa by (simp add: entry_ok_def tlb_valid_def)
  then have ok: "\<forall>e \<in> set ?tlb. entry_ok a e" using D(10) set_update_subset_insert [of "vs_tlb s" i ?e] by blast
  have "va AND PAGE_FRAME \<notin> set (map tlb_tag (vs_tlb s))" using m unfolding tlb_has_def by simp
  then have "distinct ((map tlb_tag (vs_tlb s))[i := va AND PAGE_FRAME])" by (intro distinct_list_update [OF D(9)]) (auto dest: in_set_takeD in_set_dropD)
  then have d: "distinct (map tlb_tag ?tlb)" by (simp add: map_update tag)
  show "running (tlb_write (va AND PAGE_FRAME) (pa OR TLBLO_DIRTY OR TLBLO_VALID) i s) p a"
    unfolding tlb_write_def by (rule running_tlb [OF R _ d ok]) (simp add: D(8))
  have "?e \<in> set ?tlb" using i D(8) by (simp add: set_update_memI)
  then show "tlb_has (tlb_write (va AND PAGE_FRAME) (pa OR TLBLO_DIRTY OR TLBLO_VALID) i s) va"
    unfolding tlb_has_def tlb_write_def using tag by force
  have li: "i < length (vs_tlb s)" using i(1) D(8) by simp
  have high: "USERSPACETOP \<le> tlb_tag (vs_tlb s ! i)" using D(10) [OF nth_mem [OF li]] i(2) by (simp add: entry_ok_def)
  have stays: "e \<in> set ?tlb" if x: "x < USERSPACETOP" "e \<in> set (vs_tlb s)" "tlb_tag e = x AND PAGE_FRAME" for x e
  proof -
    obtain j where j: "j < length (vs_tlb s)" "vs_tlb s ! j = e" using x(2) by (auto simp: in_set_conv_nth)
    have "\<not> USERSPACETOP \<le> tlb_tag e" using x(1) frame_unat [of x] unfolding x(3) by (simp add: u32_order)
    then have "j \<noteq> i" using high j(2) by auto
    then have "?tlb ! j = e" "j < length ?tlb" using j by simp_all
    then show ?thesis using nth_mem by blast
  qed
  show "tlb_grows s (tlb_write (va AND PAGE_FRAME) (pa OR TLBLO_DIRTY OR TLBLO_VALID) i s)"
    unfolding tlb_grows_def
  proof (intro allI impI)
    fix x assume x: "x < USERSPACETOP" "tlb_has s x"
    then obtain e where e: "e \<in> set (vs_tlb s)" "tlb_tag e = x AND PAGE_FRAME" by (auto simp: tlb_has_def)
    have "x AND PAGE_FRAME \<in> tlb_tag ` set ?tlb" unfolding e(2) [symmetric] by (rule imageI) (rule stays [OF x(1) e])
    then show "tlb_has (tlb_write (va AND PAGE_FRAME) (pa OR TLBLO_DIRTY OR TLBLO_VALID) i s) x" by (simp add: tlb_has_def tlb_write_def)
  qed
qed

lemma vm_fault_result:
  assumes R: "running s p a" and ft: "ft = VM_FAULT_READ \<or> ft = VM_FAULT_WRITE" and m: "\<not> tlb_has s va"
  shows "vm_fault ft va s = Err EFAULT s \<and> (as_vtop a va = None \<or> tlb_full s) \<or>
    (\<exists>tlb. vm_fault ft va s = Ok () (s\<lparr>vs_tlb := tlb\<rparr>) \<and> as_vtop a va \<noteq> None \<and> \<not> tlb_full s \<and>
      running (s\<lparr>vs_tlb := tlb\<rparr>) p a \<and> tlb_has (s\<lparr>vs_tlb := tlb\<rparr>) va \<and> tlb_grows s (s\<lparr>vs_tlb := tlb\<rparr>))"
proof -
  note D = runningD [OF R]
  have ft': "ft \<noteq> VM_FAULT_READONLY" "\<not> (ft \<noteq> VM_FAULT_READ \<and> ft \<noteq> VM_FAULT_WRITE)"
    using ft by (auto simp: VM_FAULT_READ_def VM_FAULT_WRITE_def VM_FAULT_READONLY_def)
  show ?thesis
  proof (cases "as_paddr a (va AND PAGE_FRAME)")
    case None
    then have "vm_fault ft va s = Err EFAULT s" using ft' D(3-5,7) by (simp add: vm_fault_def Let_def)
    then show ?thesis using None by (simp add: as_vtop_def)
  next
    case (Some pa)
    have al: "pa AND PAGE_FRAME = pa" by (rule frame_idem [OF as_paddr_Some(1) [OF D(2,1,5) frame_aligned Some]])
    then have run: "vm_fault ft va s = tlb_fill [0..<NUM_TLB] (va AND PAGE_FRAME) pa s"
      using ft' D(3-5,7) Some by (auto simp: vm_fault_def Let_def)
    have "\<forall>i \<in> set [0..<NUM_TLB]. i < length (vs_tlb s)" using D(8) by simp
    from tlb_fill_result [OF this, of "va AND PAGE_FRAME" pa] show ?thesis
    proof
      assume f: "(\<forall>i \<in> set [0..<NUM_TLB]. tlb_valid (vs_tlb s ! i)) \<and> tlb_fill [0..<NUM_TLB] (va AND PAGE_FRAME) pa s = Err EFAULT s"
      then have "tlb_full s" unfolding tlb_full_def using D(8) by (metis atLeast0LessThan in_set_conv_nth lessThan_iff set_upt)
      then show ?thesis using f run by simp
    next
      assume "\<exists>i \<in> set [0..<NUM_TLB]. \<not> tlb_valid (vs_tlb s ! i) \<and>
        tlb_fill [0..<NUM_TLB] (va AND PAGE_FRAME) pa s = Ok () (tlb_write (va AND PAGE_FRAME) (pa OR TLBLO_DIRTY OR TLBLO_VALID) i s)"
      then obtain i where i: "i < NUM_TLB" "\<not> tlb_valid (vs_tlb s ! i)"
        "tlb_fill [0..<NUM_TLB] (va AND PAGE_FRAME) pa s = Ok () (tlb_write (va AND PAGE_FRAME) (pa OR TLBLO_DIRTY OR TLBLO_VALID) i s)" by auto
      have "\<not> tlb_full s" unfolding tlb_full_def using i(1,2) D(8) nth_mem [of i "vs_tlb s"] by auto
      then show ?thesis using run i(3) tlb_insert_ok [OF R Some i(1,2) m] Some unfolding tlb_write_def by (auto simp: as_vtop_def)
    qed
  qed
qed

lemma user_access_result:
  assumes R: "running s p a" and va: "va < USERSPACETOP" and tm: "tm_badfaultfunc s"
  shows "user_access 2 w va s = Ok None s \<and> (as_vtop a va = None \<or> tlb_full s) \<and> \<not> tlb_has s va \<or>
    (\<exists>tlb. user_access 2 w va s = Ok (as_vtop a va) (s\<lparr>vs_tlb := tlb\<rparr>) \<and> as_vtop a va \<noteq> None \<and>
      running (s\<lparr>vs_tlb := tlb\<rparr>) p a \<and> tlb_has (s\<lparr>vs_tlb := tlb\<rparr>) va \<and> tlb_grows s (s\<lparr>vs_tlb := tlb\<rparr>))"
proof (cases "tlb_has s va")
  case True
  from hit [OF R va True] obtain pa where "mmu w va s = Inl pa" "as_vtop a va = Some pa" by blast
  then show ?thesis using R True by (intro disjI2 exI [of _ "vs_tlb s"]) (simp add: numeral_2_eq_2)
next
  case False
  let ?ft = "if w then VM_FAULT_WRITE else VM_FAULT_READ"
  have ft: "?ft = VM_FAULT_READ \<or> ?ft = VM_FAULT_WRITE" by simp
  note mi = miss [OF False, of w]
  from vm_fault_result [OF R ft False] show ?thesis
  proof
    assume f: "vm_fault ?ft va s = Err EFAULT s \<and> (as_vtop a va = None \<or> tlb_full s)"
    then have "user_access 2 w va s = Ok None s"
      using mi tm by (simp add: numeral_2_eq_2 kern_tlb_trap_def)
    then show ?thesis using f False by simp
  next
    assume "\<exists>tlb. vm_fault ?ft va s = Ok () (s\<lparr>vs_tlb := tlb\<rparr>) \<and> as_vtop a va \<noteq> None \<and> \<not> tlb_full s \<and>
      running (s\<lparr>vs_tlb := tlb\<rparr>) p a \<and> tlb_has (s\<lparr>vs_tlb := tlb\<rparr>) va \<and> tlb_grows s (s\<lparr>vs_tlb := tlb\<rparr>)"
    then obtain tlb where f: "vm_fault ?ft va s = Ok () (s\<lparr>vs_tlb := tlb\<rparr>)" "as_vtop a va \<noteq> None"
      "running (s\<lparr>vs_tlb := tlb\<rparr>) p a" "tlb_has (s\<lparr>vs_tlb := tlb\<rparr>) va" "tlb_grows s (s\<lparr>vs_tlb := tlb\<rparr>)" by (elim exE conjE) (rule that)
    from hit [OF f(3) va f(4)] obtain pa where "mmu w va (s\<lparr>vs_tlb := tlb\<rparr>) = Inl pa" "as_vtop a va = Some pa" by blast
    then have "user_access 2 w va s = Ok (as_vtop a va) (s\<lparr>vs_tlb := tlb\<rparr>)"
      using mi f(1) by (simp add: numeral_2_eq_2 kern_tlb_trap_def)
    then show ?thesis using f(2-5) by blast
  qed
qed

lemma vtop_phys:
  assumes "running s p a" "as_vtop a va = Some pa"
  shows "unat pa \<in> as_phys a"
proof -
  obtain q where q: "as_paddr a (va AND PAGE_FRAME) = Some q" "pa = q + (va AND NOT PAGE_FRAME)" using assms(2) by (auto simp: as_vtop_def)
  show ?thesis unfolding q(2) by (rule as_vtop_unat(3) [OF runningD(2,1,5) [OF assms(1)] q(1)])
qed

lemma user_load_result:
  assumes R: "running s p a" and va: "va < USERSPACETOP" and tm: "tm_badfaultfunc s"
  obtains (bad) "user_load va s = Ok None s" "as_vtop a va = None \<or> tlb_full s" "\<not> tlb_has s va"
  | (good) tlb pa where "user_load va s = Ok (Some (vs_ram s pa)) (s\<lparr>vs_tlb := tlb\<rparr>)" "as_vtop a va = Some pa"
      "running (s\<lparr>vs_tlb := tlb\<rparr>) p a" "tlb_has (s\<lparr>vs_tlb := tlb\<rparr>) va" "tlb_grows s (s\<lparr>vs_tlb := tlb\<rparr>)"
proof -
  from user_access_result [OF R va tm, of False] show thesis
    by (elim disjE exE conjE) (use bad good in \<open>auto simp: user_load_def\<close>)
qed

lemma user_store_result:
  assumes R: "running s p a" and va: "va < USERSPACETOP" and tm: "tm_badfaultfunc s"
  obtains (bad) "user_store va b s = Ok False s" "as_vtop a va = None \<or> tlb_full s" "\<not> tlb_has s va"
  | (good) tlb pa where "user_store va b s = Ok True (s\<lparr>vs_tlb := tlb, vs_ram := (vs_ram s)(pa := b)\<rparr>)" "as_vtop a va = Some pa"
      "running (s\<lparr>vs_tlb := tlb, vs_ram := (vs_ram s)(pa := b)\<rparr>) p a" "tlb_has (s\<lparr>vs_tlb := tlb\<rparr>) va" "tlb_grows s (s\<lparr>vs_tlb := tlb\<rparr>)"
proof -
  from user_access_result [OF R va tm, of True] show thesis
  proof (elim disjE exE conjE)
    fix tlb assume a: "user_access 2 True va s = Ok (as_vtop a va) (s\<lparr>vs_tlb := tlb\<rparr>)" "as_vtop a va \<noteq> None"
      "running (s\<lparr>vs_tlb := tlb\<rparr>) p a" "tlb_has (s\<lparr>vs_tlb := tlb\<rparr>) va" "tlb_grows s (s\<lparr>vs_tlb := tlb\<rparr>)"
    then obtain pa where pa: "as_vtop a va = Some pa" by blast
    have "running (s\<lparr>vs_tlb := tlb, vs_ram := (vs_ram s)(pa := b)\<rparr>) p a" using running_ram [OF a(3), of "(vs_ram s)(pa := b)"] by simp
    then show thesis using good [where tlb = tlb and pa = pa] a pa by (simp add: user_store_def)
  qed (use bad in \<open>simp_all add: user_store_def\<close>)
qed

lemma user_load_hit:
  assumes "running s p a" "va < USERSPACETOP" "tlb_has s va" "as_vtop a va = Some pa"
  shows "user_load va s = Ok (Some (vs_ram s pa)) s"
  using hit [OF assms(1-3), of False] assms(4) by (auto simp: user_load_def numeral_2_eq_2)

subsection \<open>Operations on address spaces\<close>

lemma getppages_cases:
  assumes "vm_ok m" "unat n < 2 ^ 19"
  obtains (none) "getppages n m = (0, m)" "unat (lastpaddr m) < unat (firstpaddr m) + 4096 * unat n"
  | (some) m' where "getppages n m = (firstpaddr m, m')" "firstpaddr m \<noteq> 0" "vm_ok m'" "unat (firstpaddr m') = unat (firstpaddr m) + 4096 * unat n"
      "unat (firstpaddr m) mod 4096 = 0" "lastpaddr m' = lastpaddr m" "m' = m\<lparr>firstpaddr := firstpaddr m'\<rparr>"
proof -
  have m: "unat (firstpaddr m) mod 4096 = 0" "firstpaddr m \<noteq> 0" "unat (lastpaddr m) \<le> 2 ^ 29" "dumbvm_can_sleep m"
    using assms(1) by (auto simp: vm_ok_def)
  show thesis
  proof (cases "unat (firstpaddr m) + 4096 * unat n > unat (lastpaddr m)")
    case True
    then show thesis using none True stealmem_result [OF assms] by (simp add: getppages_def)
  next
    case False
    then obtain f where f: "ram_stealmem n m = (firstpaddr m, m\<lparr>firstpaddr := f\<rparr>)" "unat f = unat (firstpaddr m) + 4096 * unat n"
      using stealmem_result [OF assms] by auto
    moreover have "vm_ok (m\<lparr>firstpaddr := f\<rparr>)"
      using assms(1) f(2) False m by (simp add: vm_ok_def dumbvm_can_sleep_def u32_order)
    ultimately show thesis using some [of "m\<lparr>firstpaddr := f\<rparr>"] m(1,2) by (simp add: getppages_def)
  qed
qed

lemma ram_range:
  assumes "unat a + 4096 * unat n \<le> 2 ^ 30"
  shows "x - a < n * PAGE_SIZE \<longleftrightarrow> unat x \<in> {unat a ..< unat a + 4096 * unat n}"
proof -
  have n: "unat (n * PAGE_SIZE) = 4096 * unat n"
    using assms unat_mult_small [of n PAGE_SIZE] by (simp add: PAGE_SIZE_def)
  show ?thesis
  proof (cases "a \<le> x")
    case True
    then show ?thesis using n unat_diff_small [OF True] by (auto simp: u32_order)
  next
    case False
    then have l: "unat x < unat a" by (simp add: u32_order)
    then have "unat (x - a) = 2 ^ 32 - (unat a - unat x)" using unat_u32_less [of a] unat_sub_if_size [of x a] by (simp add: word_size)
    then have "\<not> unat (x - a) < 4096 * unat n" using assms l by simp
    then show ?thesis using n l by (simp add: u32_order)
  qed
qed

lemma as_phys_bound: "as_wf m a \<Longrightarrow> as_phys a \<subseteq> {..<unat (firstpaddr m)}"
  unfolding as_wf_def as_phys_def by (fastforce split: if_splits)

lemma as_wf_mono: "as_wf m a \<Longrightarrow> unat (firstpaddr m) \<le> unat (firstpaddr m') \<Longrightarrow> as_wf m' a"
  unfolding as_wf_def by fastforce

definition same_map :: "addrspace \<Rightarrow> addrspace \<Rightarrow> bool" where
  "same_map a b \<longleftrightarrow> as_vbase1 a = as_vbase1 b \<and> as_npages1 a = as_npages1 b \<and> as_vbase2 a = as_vbase2 b \<and> as_npages2 a = as_npages2 b"

definition unloaded :: "addrspace \<Rightarrow> bool" where
  "unloaded a \<longleftrightarrow> as_pbase1 a = 0 \<and> as_pbase2 a = 0 \<and> as_stackpbase a = 0"

definition loaded :: "addrspace \<Rightarrow> bool" where
  "loaded a \<longleftrightarrow> as_pbase1 a \<noteq> 0 \<and> as_pbase2 a \<noteq> 0 \<and> as_stackpbase a \<noteq> 0"

lemma as_wf_regs:
  "as_wf m a \<longleftrightarrow> reg_ok m (as_vbase1 a, as_pbase1 a, as_npages1 a) \<and> reg_ok m (as_vbase2 a, as_pbase2 a, as_npages2 a) \<and>
     reg_ok m (STACKBASE, as_stackpbase a, DUMBVM_STACKPAGES) \<and>
     pset (as_vbase1 a, as_pbase1 a, as_npages1 a) \<inter> pset (as_vbase2 a, as_pbase2 a, as_npages2 a) = {} \<and>
     pset (as_vbase1 a, as_pbase1 a, as_npages1 a) \<inter> pset (STACKBASE, as_stackpbase a, DUMBVM_STACKPAGES) = {} \<and>
     pset (as_vbase2 a, as_pbase2 a, as_npages2 a) \<inter> pset (STACKBASE, as_stackpbase a, DUMBVM_STACKPAGES) = {}"
  by (simp add: as_wf_def as_regs_def conj_ac del: reg_ok.simps pset.simps)

lemma as_phys_regs:
  "as_phys a = pset (as_vbase1 a, as_pbase1 a, as_npages1 a) \<union> pset (as_vbase2 a, as_pbase2 a, as_npages2 a) \<union>
     pset (STACKBASE, as_stackpbase a, DUMBVM_STACKPAGES)"
  by (simp add: as_phys_def as_regs_def Un_assoc del: pset.simps)

text \<open>What \<^verbatim>\<open>as_prepare_load\<close> does to the structure and to the page allocator.\<close>

text \<open>The pages that \<^verbatim>\<open>as_prepare_load\<close> has taken when it fails, by the first region that does not fit.\<close>

definition lost_pages :: "kmem \<Rightarrow> addrspace \<Rightarrow> nat" where
  "lost_pages m a =
     (let free = unat (lastpaddr m) - unat (firstpaddr m); n1 = unat (as_npages1 a); n2 = unat (as_npages2 a) in
      if free < 4096 * n1 then 0 else if free < 4096 * (n1 + n2) then n1 else n1 + n2)"

lemma prepare_result:
  assumes vm: "vm_ok (vs_mem s)" and a: "vs_as s q = Some a" "unloaded a" "as_wf (vs_mem s) a"
  obtains (fail) a' m' where "as_prepare_load q s = Err ENOMEM (put_as q a' (s\<lparr>vs_mem := m'\<rparr>))" "vm_ok m'"
      "unat (firstpaddr (vs_mem s)) \<le> unat (firstpaddr m')" "as_wf m' a'" "same_map a' a" "\<not> as_asserts a'"
      "as_phys a' \<subseteq> {unat (firstpaddr (vs_mem s)) ..< unat (firstpaddr m')}"
      "unat (lastpaddr (vs_mem s)) < unat (firstpaddr (vs_mem s)) + 4096 * (unat (as_npages1 a) + unat (as_npages2 a) + 18)"
      "m' = (vs_mem s)\<lparr>firstpaddr := firstpaddr m'\<rparr>" "unat (firstpaddr m') = unat (firstpaddr (vs_mem s)) + 4096 * lost_pages (vs_mem s) a"
  | (got) a' m' where "as_prepare_load q s =
        Ok () (put_as q a' (s\<lparr>vs_mem := m', vs_ram := (\<lambda>x. if unat x \<in> as_phys a' then 0 else vs_ram s x)\<rparr>))" "vm_ok m'"
      "unat (firstpaddr (vs_mem s)) \<le> unat (firstpaddr m')" "as_wf m' a'" "same_map a' a" "loaded a'"
      "as_phys a' \<subseteq> {unat (firstpaddr (vs_mem s)) ..< unat (firstpaddr m')}"
      "m' = (vs_mem s)\<lparr>firstpaddr := firstpaddr m'\<rparr>"
      "unat (firstpaddr m') = unat (firstpaddr (vs_mem s)) + 4096 * (unat (as_npages1 a) + unat (as_npages2 a) + 18)"
proof -
  let ?m = "vs_mem s"
  have fl: "unat (firstpaddr ?m) \<le> unat (lastpaddr ?m)" using vm by (simp add: vm_ok_def u32_le_iff)
  have u: "as_pbase1 a = 0" "as_pbase2 a = 0" "as_stackpbase a = 0" using a(2) by (simp_all add: unloaded_def)
  have ok: "unat (as_vbase1 a) mod 4096 = 0" "unat (as_npages1 a) < 2 ^ 19" "unat (as_vbase1 a) + 4096 * unat (as_npages1 a) \<le> 2 ^ 31"
    "unat (as_vbase2 a) mod 4096 = 0" "unat (as_npages2 a) < 2 ^ 19" "unat (as_vbase2 a) + 4096 * unat (as_npages2 a) \<le> 2 ^ 31"
    using a(3) by (simp_all add: as_wf_regs)
  have sl: "dumbvm_can_sleep ?m" using vm by (simp add: vm_ok_def)
  note run = as_prepare_load_def [of q s, unfolded a(1) option.case u, simplified sl, simplified]
  show thesis
  proof (rule getppages_cases [OF vm ok(2)])
    assume g: "getppages (as_npages1 a) ?m = (0, ?m)" and last: "unat (lastpaddr ?m) < unat (firstpaddr ?m) + 4096 * unat (as_npages1 a)"
    have "as_prepare_load q s = Err ENOMEM (put_as q (a\<lparr>as_pbase1 := 0\<rparr>) (s\<lparr>vs_mem := ?m\<rparr>))" using run g u by (simp add: Let_def)
    then show thesis by (rule fail) (use vm a(3) u last fl in \<open>auto simp: same_map_def as_asserts_def as_phys_regs as_wf_regs lost_pages_def Let_def\<close>)
  next
    fix m1 assume g1: "getppages (as_npages1 a) ?m = (firstpaddr ?m, m1)" "firstpaddr ?m \<noteq> 0" "vm_ok m1"
      "unat (firstpaddr m1) = unat (firstpaddr ?m) + 4096 * unat (as_npages1 a)" "unat (firstpaddr ?m) mod 4096 = 0" "lastpaddr m1 = lastpaddr ?m"
      "m1 = ?m\<lparr>firstpaddr := firstpaddr m1\<rparr>"
    have f1: "\<not> unat (lastpaddr ?m) - unat (firstpaddr ?m) < 4096 * unat (as_npages1 a)" using g1(3,4,6) by (auto simp: vm_ok_def u32_le_iff)
    let ?a1 = "a\<lparr>as_pbase1 := firstpaddr ?m, as_pbase2 := 0\<rparr>"
    show thesis
    proof (rule getppages_cases [OF g1(3) ok(5)])
      assume g: "getppages (as_npages2 a) m1 = (0, m1)" and last: "unat (lastpaddr m1) < unat (firstpaddr m1) + 4096 * unat (as_npages2 a)"
      have "as_prepare_load q s = Err ENOMEM (put_as q ?a1 (s\<lparr>vs_mem := m1\<rparr>))"
        using run g g1(1,2) u by (simp add: Let_def put_as_def)
      then show thesis by (rule fail) (use g1(2-6) g1(7) ok u last f1 in \<open>auto simp: same_map_def as_asserts_def as_phys_regs as_wf_regs stackbase_unat DUMBVM_STACKPAGES_def lost_pages_def Let_def\<close>)
    next
      fix m2 assume g2: "getppages (as_npages2 a) m1 = (firstpaddr m1, m2)" "firstpaddr m1 \<noteq> 0" "vm_ok m2"
        "unat (firstpaddr m2) = unat (firstpaddr m1) + 4096 * unat (as_npages2 a)" "unat (firstpaddr m1) mod 4096 = 0" "lastpaddr m2 = lastpaddr m1"
        "m2 = m1\<lparr>firstpaddr := firstpaddr m2\<rparr>"
      have f2: "\<not> unat (lastpaddr ?m) - unat (firstpaddr ?m) < 4096 * (unat (as_npages1 a) + unat (as_npages2 a))"
        using g1(4,6) g2(3,4,6) by (auto simp: vm_ok_def u32_le_iff)
      have m2: "m2 = ?m\<lparr>firstpaddr := firstpaddr m2\<rparr>" by (subst g2(7), subst g1(7)) simp
      let ?a2 = "a\<lparr>as_pbase1 := firstpaddr ?m, as_pbase2 := firstpaddr m1, as_stackpbase := 0\<rparr>"
      have st: "unat DUMBVM_STACKPAGES < 2 ^ 19" by (simp add: DUMBVM_STACKPAGES_def)
      show thesis
      proof (rule getppages_cases [OF g2(3) st])
        assume g: "getppages DUMBVM_STACKPAGES m2 = (0, m2)" and last: "unat (lastpaddr m2) < unat (firstpaddr m2) + 4096 * unat DUMBVM_STACKPAGES"
        have "as_prepare_load q s = Err ENOMEM (put_as q ?a2 (s\<lparr>vs_mem := m2\<rparr>))"
          using run g g1(1,2) g2(1,2) u by (simp add: Let_def put_as_def)
        then show thesis by (rule fail) (use g1(2-6) g2(2-6) m2 ok u last f1 f2 in \<open>auto simp: same_map_def as_asserts_def as_phys_regs as_wf_regs stackbase_unat DUMBVM_STACKPAGES_def lost_pages_def Let_def\<close>)
      next
        fix m3 assume g3: "getppages DUMBVM_STACKPAGES m2 = (firstpaddr m2, m3)" "firstpaddr m2 \<noteq> 0" "vm_ok m3"
          "unat (firstpaddr m3) = unat (firstpaddr m2) + 4096 * unat DUMBVM_STACKPAGES" "unat (firstpaddr m2) mod 4096 = 0"
          "m3 = m2\<lparr>firstpaddr := firstpaddr m3\<rparr>"
        have m3: "m3 = ?m\<lparr>firstpaddr := firstpaddr m3\<rparr>" by (subst g3(6), subst m2) simp
        let ?a3 = "a\<lparr>as_pbase1 := firstpaddr ?m, as_pbase2 := firstpaddr m1, as_stackpbase := firstpaddr m2\<rparr>"
        have top: "unat (firstpaddr m3) \<le> 2 ^ 29" using g3(3) by (simp add: vm_ok_def u32_le_iff)
        have w: "unat (firstpaddr ?m) + 4096 * unat (as_npages1 a) \<le> 2 ^ 30" "unat (firstpaddr m1) + 4096 * unat (as_npages2 a) \<le> 2 ^ 30"
          "unat (firstpaddr m2) + 4096 * unat DUMBVM_STACKPAGES \<le> 2 ^ 30" using g1(4) g2(4) g3(4) top by simp_all
        have ram: "ram_zero (firstpaddr m2) (DUMBVM_STACKPAGES * PAGE_SIZE) (ram_zero (firstpaddr m1) (as_npages2 a * PAGE_SIZE)
            (ram_zero (firstpaddr ?m) (as_npages1 a * PAGE_SIZE) (vs_ram s))) = (\<lambda>x. if unat x \<in> as_phys ?a3 then 0 else vs_ram s x)"
          unfolding ram_zero_def ram_range [OF w(1)] ram_range [OF w(2)] ram_range [OF w(3)] as_phys_regs
          by (rule ext) (use g1(2) g2(2) g3(2) in simp)
        have "as_prepare_load q s = Ok () (put_as q ?a3 (s\<lparr>vs_mem := m3, vs_ram := (\<lambda>x. if unat x \<in> as_phys ?a3 then 0 else vs_ram s x)\<rparr>))"
          using run g3 g1(1,2) g2(1,2) u unfolding ram [symmetric] by (simp add: Let_def put_as_def as_zero_region_def)
        then show thesis by (rule got) (use g1(2-6) g2(2-6) g3(2-5) m3 ok u in \<open>auto simp: same_map_def loaded_def as_phys_regs as_wf_regs stackbase_unat DUMBVM_STACKPAGES_def\<close>)
      qed
    qed
  qed
qed

lemma unloaded_facts: "unloaded a \<Longrightarrow> \<not> as_asserts a" "unloaded a \<Longrightarrow> as_phys a = {}"
  by (auto simp: unloaded_def as_asserts_def as_phys_regs)

lemma entry_ok_invalid: "\<not> as_asserts a \<Longrightarrow> entry_ok a e \<Longrightarrow> entry_ok b e"
  by (auto simp: entry_ok_def split: if_splits)

lemma vm_wfD:
  assumes "vm_wf s"
  shows "vm_ok (vs_mem s)" "tlb_ok s" "vs_as s 0 = None" "vs_as s p = Some a \<Longrightarrow> as_wf (vs_mem s) a"
    "vs_as s p = Some a \<Longrightarrow> vs_as s q = Some b \<Longrightarrow> p \<noteq> q \<Longrightarrow> as_phys a \<inter> as_phys b = {}"
    "vs_proc s = Some p \<Longrightarrow> p \<noteq> 0 \<Longrightarrow> vs_as s p \<noteq> None"
  using assms unfolding vm_wf_def by blast+

lemma apart_new: "A \<subseteq> {m ..< n} \<Longrightarrow> B \<subseteq> {..<m :: nat} \<Longrightarrow> A \<inter> B = {}"
  by (force simp: subset_iff disjoint_iff)

text \<open>A structure without memory is replaced by one whose memory is new.\<close>

lemma vm_wf_put:
  assumes wf: "vm_wf s" and q: "q \<noteq> 0" "\<forall>a. vs_as s q = Some a \<longrightarrow> unloaded a"
    and m: "vm_ok m" "unat (firstpaddr (vs_mem s)) \<le> unat (firstpaddr m)"
    and a: "as_wf m a" "as_phys a \<subseteq> {unat (firstpaddr (vs_mem s)) ..< unat (firstpaddr m)}"
  shows "vm_wf (put_as q a (s\<lparr>vs_mem := m, vs_ram := r\<rparr>))"
proof -
  note D = vm_wfD [OF wf]
  let ?s = "put_as q a (s\<lparr>vs_mem := m, vs_ram := r\<rparr>)"
  have e: "vs_as ?s = (vs_as s)(q \<mapsto> a)" "vs_tlb ?s = vs_tlb s" "vs_proc ?s = vs_proc s" "vs_mem ?s = m" by (simp_all add: put_as_def)
  have new: "as_phys a \<inter> as_phys b = {}" if "vs_as s p = Some b" for p b by (rule apart_new [OF a(2) as_phys_bound [OF D(4) [OF that]]])
  have "tlb_ok ?s"
    unfolding tlb_ok_def e
  proof (rule conjI, use D(2) in \<open>simp add: tlb_ok_def\<close>, intro allI impI)
    fix p b assume p: "vs_proc s = Some p" "((vs_as s)(q \<mapsto> a)) p = Some b"
    show "distinct (map tlb_tag (vs_tlb s)) \<and> (\<forall>e \<in> set (vs_tlb s). entry_ok b e)"
    proof (cases "p = q")
      case True
      then obtain c where c: "vs_as s q = Some c" using D(6) [OF p(1)] q(1) by auto
      then have "\<not> as_asserts c" using q(2) unloaded_facts(1) by blast
      then show ?thesis using D(2) p(1) c True entry_ok_invalid unfolding tlb_ok_def by blast
    next
      case False
      then show ?thesis using D(2) p unfolding tlb_ok_def by simp
    qed
  qed
  moreover have "as_wf m b" if "vs_as s p = Some b" for p b by (rule as_wf_mono [OF D(4) [OF that] m(2)])
  moreover have "as_phys c \<inter> as_phys b = {}"
    if "((vs_as s)(q \<mapsto> a)) p = Some c" "((vs_as s)(q \<mapsto> a)) p' = Some b" "p \<noteq> p'" for p p' b c
    using that D(5) [of p c p' b] new [of p c] new [of p' b] by (auto simp: Int_commute split: if_splits)
  moreover have "((vs_as s)(q \<mapsto> a)) p \<noteq> None" if "vs_proc s = Some p" "p \<noteq> 0" for p using D(6) [OF that] by auto
  ultimately show ?thesis unfolding vm_wf_def e using m(1) D(3) q(1) a(1) by (intro conjI) (simp, simp, simp, simp, blast, blast)
qed

lemma as_create_wf:
  assumes "vm_wf s" "km \<noteq> 0" "vs_as s km = None"
  shows "\<exists>a. as_create km s = Ok km (put_as km a s) \<and> unloaded a \<and> as_wf (vs_mem s) a \<and> vm_wf (put_as km a s)"
proof -
  let ?a = "\<lparr>as_vbase1 = 0, as_pbase1 = 0, as_npages1 = 0, as_vbase2 = 0, as_pbase2 = 0, as_npages2 = 0, as_stackpbase = 0\<rparr>"
  have a: "unloaded ?a" "as_wf (vs_mem s) ?a" "as_phys ?a = {}"
    by (simp_all add: unloaded_def as_wf_regs stackbase_unat DUMBVM_STACKPAGES_def as_phys_regs)
  have "vm_wf (put_as km ?a (s\<lparr>vs_mem := vs_mem s, vs_ram := vs_ram s\<rparr>))"
    by (rule vm_wf_put) (use assms vm_wfD(1) [OF assms(1)] a in auto)
  then show ?thesis using assms(2) a by (intro exI [of _ ?a]) (simp add: as_create_def put_as_def)
qed

definition put_region :: "u32 \<Rightarrow> u32 \<Rightarrow> addrspace \<Rightarrow> addrspace option" where
  "put_region va n a =
     (if as_vbase1 a = 0 then Some (a\<lparr>as_vbase1 := va, as_npages1 := n\<rparr>)
      else if as_vbase2 a = 0 then Some (a\<lparr>as_vbase2 := va, as_npages2 := n\<rparr>) else None)"

lemma unat_roundup: "unat x < 2 ^ 31 + 4096 \<Longrightarrow> unat (x + PAGE_SIZE - 1) = unat x + 4095"
  by (simp add: PAGE_SIZE_def unat_word_ariths)

text \<open>The region is rounded outwards to whole pages.\<close>

lemma region_rounding:
  assumes "4096 \<le> unat va" "unat va + unat sz \<le> 2 ^ 31"
  defines "n \<equiv> ((sz + (va AND NOT PAGE_FRAME)) + PAGE_SIZE - 1 AND PAGE_FRAME) div PAGE_SIZE"
  shows "unat (va AND PAGE_FRAME) = 4096 * (unat va div 4096)"
    "unat (va AND PAGE_FRAME) + 4096 * unat n = 4096 * ((unat va + unat sz + 4095) div 4096)" "unat n < 2 ^ 19"
    "unat (va AND PAGE_FRAME) + 4096 * unat n \<le> 2 ^ 31"
proof -
  show v: "unat (va AND PAGE_FRAME) = 4096 * (unat va div 4096)" by (simp add: pageaddr_unat minus_mod_eq_mult_div)
  define k where "k = unat va div 4096"
  define o' where "o' = unat va mod 4096"
  have k: "unat va = 4096 * k + o'" "o' < 4096" "o' = unat va mod 4096" by (simp_all add: k_def o'_def)
  have s: "unat (sz + (va AND NOT PAGE_FRAME)) = unat sz + o'"
  proof -
    have b: "unat (va AND NOT PAGE_FRAME) = o'" unfolding blocktype_unat o'_def ..
    have "unat sz + unat (va AND NOT PAGE_FRAME) < 2 ^ 32" unfolding b using assms(2) k(2) by simp
    then show ?thesis using unat_add_small b by metis
  qed
  have u: "unat ((sz + (va AND NOT PAGE_FRAME)) + PAGE_SIZE - 1) = unat sz + o' + 4095"
    unfolding s [symmetric] by (rule unat_roundup) (use s assms(2) k(2) in linarith)
  have n: "unat n = (unat sz + o' + 4095) div 4096"
    unfolding n_def unat_div pageaddr_unat u by (simp add: PAGE_SIZE_def minus_mod_eq_mult_div)
  have "(unat va + unat sz + 4095) div 4096 = k + (unat sz + o' + 4095) div 4096"
  proof -
    have "unat va + unat sz + 4095 = (unat sz + o' + 4095) + 4096 * k" using k(1) by simp
    then show ?thesis by simp
  qed
  then show e: "unat (va AND PAGE_FRAME) + 4096 * unat n = 4096 * ((unat va + unat sz + 4095) div 4096)"
    unfolding v n k_def [symmetric] by simp
  have "unat va + unat sz + 4095 < Suc (2 ^ 19) * 4096" using assms(2) by simp
  then have "(unat va + unat sz + 4095) div 4096 < Suc (2 ^ 19)" by (rule less_mult_imp_div_less)
  then show top: "unat (va AND PAGE_FRAME) + 4096 * unat n \<le> 2 ^ 31" unfolding e by simp
  have "1 \<le> unat va div 4096" using div_le_mono [OF assms(1), of 4096] by simp
  then show "unat n < 2 ^ 19" using top unfolding v by simp
qed

lemma as_define_region_result:
  assumes "vm_ok (vs_mem s)" "vs_as s q = Some a"
  defines "n \<equiv> \<lambda>va sz. ((sz + (va AND NOT PAGE_FRAME)) + PAGE_SIZE - 1 AND PAGE_FRAME) div PAGE_SIZE"
  shows "as_define_region q va sz s = (case put_region (va AND PAGE_FRAME) (n va sz) a of Some b \<Rightarrow> Ok () (put_as q b s) | None \<Rightarrow> Err ENOSYS s)"
  using assms(1,2) by (simp add: as_define_region_def put_region_def vm_ok_def n_def put_as_def Let_def)

lemma as_define_region_wf:
  assumes wf: "vm_wf s" and a: "vs_as s q = Some a" "unloaded a" and va: "4096 \<le> unat va" "unat va + unat sz \<le> 2 ^ 31"
    and b: "put_region (va AND PAGE_FRAME) (((sz + (va AND NOT PAGE_FRAME)) + PAGE_SIZE - 1 AND PAGE_FRAME) div PAGE_SIZE) a = Some b"
  shows "vm_wf (put_as q b s)"
proof -
  note R = region_rounding [OF va]
  note D = vm_wfD [OF wf]
  have z: "as_pbase1 b = 0" "as_pbase2 b = 0" "as_stackpbase b = 0" using a(2) b by (auto simp: put_region_def unloaded_def split: if_splits)
  let ?n = "((sz + (va AND NOT PAGE_FRAME)) + PAGE_SIZE - 1 AND PAGE_FRAME) div PAGE_SIZE"
  have new: "reg_ok (vs_mem s) (va AND PAGE_FRAME, 0, ?n)" using R(3,4) frame_aligned by simp
  have old: "reg_ok (vs_mem s) (as_vbase1 a, 0, as_npages1 a)" "reg_ok (vs_mem s) (as_vbase2 a, 0, as_npages2 a)"
    "reg_ok (vs_mem s) (STACKBASE, 0, DUMBVM_STACKPAGES)"
    using D(4) [OF a(1)] a(2) unfolding as_wf_regs unloaded_def by metis+
  have "as_wf (vs_mem s) b"
  proof (cases "as_vbase1 a = 0")
    case True
    then have "b = a\<lparr>as_vbase1 := va AND PAGE_FRAME, as_npages1 := ?n\<rparr>" using b by (simp add: put_region_def)
    then show ?thesis unfolding as_wf_regs z using new old by (simp del: reg_ok.simps add: pset.simps)
  next
    case False
    then have "b = a\<lparr>as_vbase2 := va AND PAGE_FRAME, as_npages2 := ?n\<rparr>" using b by (simp add: put_region_def split: if_splits)
    then show ?thesis unfolding as_wf_regs z using new old by (simp del: reg_ok.simps add: pset.simps)
  qed
  moreover have "as_phys b = {}" using z by (simp add: as_phys_regs)
  moreover have "q \<noteq> 0" using a(1) D(3) by auto
  ultimately have "vm_wf (put_as q b (s\<lparr>vs_mem := vs_mem s, vs_ram := vs_ram s\<rparr>))"
    by (intro vm_wf_put [OF wf]) (use a D(1) in auto)
  then show ?thesis by simp
qed

lemma tlb_flush_tlb:
  "tlb_flush is s = s\<lparr>vs_tlb := fold (\<lambda>i t. t[i := (TLBHI_INVALID i, TLBLO_INVALID)]) is (vs_tlb s)\<rparr>"
  by (induction "is" arbitrary: s) (simp_all add: tlb_write_def)

lemma fold_update_nth:
  "j < length t \<Longrightarrow> fold (\<lambda>i t. t[i := f i]) is t ! j = (if j \<in> set is then f j else t ! j)"
  by (induction "is" arbitrary: t) (auto simp: nth_list_update)

lemma fold_update_length: "length (fold (\<lambda>i t. t[i := f i]) is t) = length t"
  by (induction "is" arbitrary: t) simp_all

lemma flushed:
  assumes "length (vs_tlb s) = NUM_TLB"
  shows "tlb_flush [0..<NUM_TLB] s = s\<lparr>vs_tlb := map (\<lambda>i. (TLBHI_INVALID i, TLBLO_INVALID)) [0..<NUM_TLB]\<rparr>"
proof -
  have "fold (\<lambda>i t. t[i := (TLBHI_INVALID i, TLBLO_INVALID)]) [0..<NUM_TLB] (vs_tlb s) = map (\<lambda>i. (TLBHI_INVALID i, TLBLO_INVALID)) [0..<NUM_TLB]"
    by (rule nth_equalityI) (simp_all add: fold_update_length fold_update_nth assms)
  then show ?thesis by (simp only: tlb_flush_tlb)
qed

lemma invalid_tag:
  assumes "i < 64"
  shows "unat (TLBHI_INVALID i) = 4096 * (2 ^ 19 + i)" "tlb_tag (TLBHI_INVALID i, x) = TLBHI_INVALID i"
proof -
  have "unat (0x80000 + word_of_nat i :: u32) = 2 ^ 19 + i"
    using assms unat_add_small [of "0x80000" "word_of_nat i"] unat_of_nat_u32 [of i] by simp
  then have "unat (2 ^ 12 * (0x80000 + word_of_nat i) :: u32) = 4096 * (2 ^ 19 + i)"
    using assms unat_mult_small [of "2 ^ 12" "0x80000 + word_of_nat i"] by simp
  then show u: "unat (TLBHI_INVALID i) = 4096 * (2 ^ 19 + i)" by (simp add: TLBHI_INVALID_def push_bit_eq_mult mult.commute)
  show "tlb_tag (TLBHI_INVALID i, x) = TLBHI_INVALID i"
    unfolding tlb_tag_def fst_conv vpage by (rule frame_idem) (simp add: u)
qed

lemma invalid_inj: "inj_on (\<lambda>i. tlb_tag (TLBHI_INVALID i, TLBLO_INVALID)) {0..<NUM_TLB}"
proof (rule inj_onI)
  fix i j :: nat assume "i \<in> {0..<NUM_TLB}" "j \<in> {0..<NUM_TLB}" and e: "tlb_tag (TLBHI_INVALID i, TLBLO_INVALID) = tlb_tag (TLBHI_INVALID j, TLBLO_INVALID)"
  then have ij: "i < 64" "j < 64" by (auto simp: NUM_TLB_def)
  have "unat (TLBHI_INVALID i) = unat (TLBHI_INVALID j)" using e unfolding invalid_tag(2) [OF ij(1)] invalid_tag(2) [OF ij(2)] by (rule arg_cong)
  then show "i = j" unfolding invalid_tag(1) [OF ij(1)] invalid_tag(1) [OF ij(2)] by simp
qed

lemma invalid_entry:
  assumes "i < NUM_TLB"
  shows "entry_ok a (TLBHI_INVALID i, TLBLO_INVALID)"
proof -
  have i: "i < 64" using assms by (simp add: NUM_TLB_def)
  have "\<not> tlb_valid (TLBHI_INVALID i, TLBLO_INVALID)" by (simp add: tlb_valid_def TLBLO_INVALID_def)
  moreover have "USERSPACETOP \<le> tlb_tag (TLBHI_INVALID i, TLBLO_INVALID)"
    unfolding invalid_tag(2) [OF i] u32_le_iff invalid_tag(1) [OF i] by (simp add: USERSPACETOP_def MIPS_KSEG0_def)
  ultimately show ?thesis by (simp add: entry_ok_def)
qed

lemma flushed_ok:
  shows "distinct (map tlb_tag (map (\<lambda>i. (TLBHI_INVALID i, TLBLO_INVALID)) [0..<NUM_TLB]))"
    "\<forall>e \<in> set (map (\<lambda>i. (TLBHI_INVALID i, TLBLO_INVALID)) [0..<NUM_TLB]). entry_ok a e"
proof -
  show "distinct (map tlb_tag (map (\<lambda>i. (TLBHI_INVALID i, TLBLO_INVALID)) [0..<NUM_TLB]))"
    using invalid_inj by (simp only: map_map distinct_map comp_def distinct_upt set_upt simp_thms)
  show "\<forall>e \<in> set (map (\<lambda>i. (TLBHI_INVALID i, TLBLO_INVALID)) [0..<NUM_TLB]). entry_ok a e"
    unfolding set_map set_upt ball_simps using invalid_entry by (simp only: atLeastLessThan_iff Ball_def simp_thms) blast
qed

lemma as_activate_wf:
  assumes wf: "vm_wf s" and p: "p = 0 \<or> vs_as s p \<noteq> None"
  shows "vm_wf (as_activate (s\<lparr>vs_proc := Some p\<rparr>))"
proof (cases "p = 0")
  case True
  then have "as_activate (s\<lparr>vs_proc := Some p\<rparr>) = s\<lparr>vs_proc := Some 0\<rparr>" by (simp add: as_activate_def)
  then show ?thesis using wf unfolding vm_wf_def tlb_ok_def by simp
next
  case False
  have len: "length (vs_tlb (s\<lparr>vs_proc := Some p\<rparr>)) = NUM_TLB" using vm_wfD(2) [OF wf] by (simp add: tlb_ok_def)
  have "as_activate (s\<lparr>vs_proc := Some p\<rparr>) = s\<lparr>vs_proc := Some p, vs_tlb := map (\<lambda>i. (TLBHI_INVALID i, TLBLO_INVALID)) [0..<NUM_TLB]\<rparr>"
    unfolding as_activate_def flushed [OF len] using False by simp
  moreover have "tlb_ok (s\<lparr>vs_proc := Some p, vs_tlb := map (\<lambda>i. (TLBHI_INVALID i, TLBLO_INVALID)) [0..<NUM_TLB]\<rparr>)"
    unfolding tlb_ok_def using flushed_ok by simp
  ultimately show ?thesis using wf p False unfolding vm_wf_def by simp
qed

lemma as_destroy_wf:
  assumes wf: "vm_wf s" and q: "vs_as s q \<noteq> None" "vs_proc s \<noteq> Some q"
  shows "as_destroy q s = Ok () (s\<lparr>vs_as := (vs_as s)(q := None)\<rparr>)" "vm_wf (s\<lparr>vs_as := (vs_as s)(q := None)\<rparr>)"
proof -
  show "as_destroy q s = Ok () (s\<lparr>vs_as := (vs_as s)(q := None)\<rparr>)"
    using vm_wfD(1) [OF wf] q(1) by (simp add: as_destroy_def vm_ok_def)
  note D = vm_wfD [OF wf]
  have "tlb_ok (s\<lparr>vs_as := (vs_as s)(q := None)\<rparr>)" using D(2) q(2) unfolding tlb_ok_def by simp
  then show "vm_wf (s\<lparr>vs_as := (vs_as s)(q := None)\<rparr>)"
    unfolding vm_wf_def using D(1,3-6) q(2) by (auto split: if_splits)
qed

subsection \<open>Copying an address space\<close>

text \<open>What the process sees at an address.\<close>

definition uview :: "vmsys \<Rightarrow> addrspace \<Rightarrow> u32 \<Rightarrow> u8 option" where
  "uview s a va = map_option (vs_ram s) (as_vtop a va)"

lemma ram_move_eq:
  assumes "unat d + 4096 * unat n \<le> 2 ^ 30"
  shows "ram_move d c (n * PAGE_SIZE) r x = (if unat x \<in> {unat d ..< unat d + 4096 * unat n} then r (c + (x - d)) else r x)"
  unfolding ram_move_def ram_range [OF assms] ..

text \<open>The regions of the copy are found like those of the original, at the same offset.\<close>

definition copied :: "addrspace \<Rightarrow> addrspace \<Rightarrow> u32 \<Rightarrow> u32" where
  "copied a b x =
     (if unat x \<in> pset (as_vbase1 b, as_pbase1 b, as_npages1 b) then as_pbase1 a + (x - as_pbase1 b)
      else if unat x \<in> pset (as_vbase2 b, as_pbase2 b, as_npages2 b) then as_pbase2 a + (x - as_pbase2 b)
      else as_stackpbase a + (x - as_stackpbase b))"

lemma find_same:
  assumes "same_map b a"
  shows "(find (inreg x) (as_regs a) = None \<and> find (inreg x) (as_regs b) = None) \<or>
    (\<exists>v n pa pb. find (inreg x) (as_regs a) = Some (v, pa, n) \<and> find (inreg x) (as_regs b) = Some (v, pb, n) \<and>
      ((pa, pb, v, n) = (as_pbase1 a, as_pbase1 b, as_vbase1 b, as_npages1 b) \<or> (pa, pb, v, n) = (as_pbase2 a, as_pbase2 b, as_vbase2 b, as_npages2 b) \<or>
       (pa, pb, v, n) = (as_stackpbase a, as_stackpbase b, STACKBASE, DUMBVM_STACKPAGES)))"
  using assms by (auto simp: as_regs_def same_map_def)

lemma region_byte:
  assumes a: "as_wf m a" "as_asserts a" and f: "find (inreg (va AND PAGE_FRAME)) (as_regs a) = Some (v, p, n)"
  shows "unat ((va AND PAGE_FRAME) - v + p + (va AND NOT PAGE_FRAME)) \<in> pset (v, p, n)"
proof -
  let ?x = "va AND PAGE_FRAME" and ?o = "va AND NOT PAGE_FRAME"
  have p: "p \<noteq> 0" by (rule as_regs_pbase [OF a(2) find_reg(1) [OF f]])
  have "reg_ok m (v, p, n)" using a(1) find_reg(1) [OF f] unfolding as_wf_def by blast
  then have q: "unat v mod 4096 = 0" "unat ?x mod 4096 = 0" "unat p + 4096 * unat n \<le> unat (firstpaddr m)" using p frame_aligned by auto
  have i: "unat v \<le> unat ?x" "unat ?x < unat v + 4096 * unat n" using find_reg(2) [OF f] by simp_all
  obtain i' k where k: "unat v = 4096 * i'" "unat ?x = 4096 * k" using q by (metis mod_0_imp_dvd dvdE)
  have d: "unat (?x - v) = unat ?x - unat v" using i(1) by (simp add: unat_diff_small u32_le_iff)
  have "i' \<le> k" "k < i' + unat n" using i k by simp_all
  then have "4096 * (k - i') + 4096 \<le> 4096 * unat n" by simp
  then have s: "unat ?x - unat v + 4096 \<le> 4096 * unat n" using k by (simp add: diff_mult_distrib2)
  have o4: "unat ?o < 4096" by (simp add: blocktype_unat)
  have "unat (?x - v + p) = unat ?x - unat v + unat p" using d s q(3) unat_u32_less [of "firstpaddr m"] by (subst unat_add_small) simp_all
  moreover have "unat (?x - v + p + ?o) = unat (?x - v + p) + unat ?o" using calculation s q(3) o4 unat_u32_less [of "firstpaddr m"] by (intro unat_add_small) simp
  ultimately show ?thesis using p s o4 by simp
qed

lemma frame_split: "(va AND PAGE_FRAME) + (va AND NOT PAGE_FRAME) = va"
proof -
  have "unat (va AND PAGE_FRAME) + unat (va AND NOT PAGE_FRAME) = unat va" using frame_unat [of va] by (simp add: blocktype_unat)
  then show ?thesis using unat_u32_less [of va] by (simp add: u32_eq_iff unat_add_small)
qed

text \<open>Different addresses are in different places.\<close>

lemma vtop_inj:
  assumes a: "as_wf m a" "as_asserts a" and x: "as_vtop a x = Some pa" "as_vtop a y = Some pa"
  shows "x = y"
proof -
  have reg: "\<exists>v p n. (v, p, n) \<in> set (as_regs a) \<and> unat pa \<in> pset (v, p, n) \<and> z = pa - p + v" if z: "as_vtop a z = Some pa" for z
  proof -
    obtain v p n where f: "find (inreg (z AND PAGE_FRAME)) (as_regs a) = Some (v, p, n)" "pa = (z AND PAGE_FRAME) - v + p + (z AND NOT PAGE_FRAME)"
      using z unfolding as_vtop_def as_paddr_find [OF a(1)] by (auto split: option.splits)
    have "z = pa - p + v" unfolding f(2) using frame_split [of z] by (simp add: algebra_simps)
    then show ?thesis using find_reg(1) [OF f(1)] region_byte [OF a f(1), folded f(2)] by (intro exI conjI)
  qed
  obtain v p n where 1: "(v, p, n) \<in> set (as_regs a)" "unat pa \<in> pset (v, p, n)" "x = pa - p + v" using reg [OF x(1)] by blast
  obtain v' p' n' where 2: "(v', p', n') \<in> set (as_regs a)" "unat pa \<in> pset (v', p', n')" "y = pa - p' + v'" using reg [OF x(2)] by blast
  have "(v, p, n) = (v', p', n')"
    using a(1) 1(1,2) 2(1,2) unfolding as_wf_regs as_regs_def by (auto simp del: reg_ok.simps pset.simps)
  then show ?thesis using 1(3) 2(3) by simp
qed

lemma copied_vtop:
  assumes a: "as_wf m a" "vm_ok m" "as_asserts a" and b: "as_wf m b" "as_asserts b" and same: "same_map b a"
  shows "as_vtop b va = None \<and> as_vtop a va = None \<or> (\<exists>x. as_vtop b va = Some x \<and> as_vtop a va = Some (copied a b x) \<and> unat x \<in> as_phys b)"
proof -
  let ?x = "va AND PAGE_FRAME" and ?o = "va AND NOT PAGE_FRAME"
  from find_same [OF same, of ?x] show ?thesis
  proof
    assume "find (inreg ?x) (as_regs a) = None \<and> find (inreg ?x) (as_regs b) = None"
    then show ?thesis by (simp add: as_vtop_def as_paddr_find [OF a(1)] as_paddr_find [OF b(1)])
  next
    assume "\<exists>v n pa pb. find (inreg ?x) (as_regs a) = Some (v, pa, n) \<and> find (inreg ?x) (as_regs b) = Some (v, pb, n) \<and>
      ((pa, pb, v, n) = (as_pbase1 a, as_pbase1 b, as_vbase1 b, as_npages1 b) \<or> (pa, pb, v, n) = (as_pbase2 a, as_pbase2 b, as_vbase2 b, as_npages2 b) \<or>
       (pa, pb, v, n) = (as_stackpbase a, as_stackpbase b, STACKBASE, DUMBVM_STACKPAGES))"
    then obtain v n pa pb where f: "find (inreg ?x) (as_regs a) = Some (v, pa, n)" "find (inreg ?x) (as_regs b) = Some (v, pb, n)"
      and c: "(pa, pb, v, n) = (as_pbase1 a, as_pbase1 b, as_vbase1 b, as_npages1 b) \<or> (pa, pb, v, n) = (as_pbase2 a, as_pbase2 b, as_vbase2 b, as_npages2 b) \<or>
       (pa, pb, v, n) = (as_stackpbase a, as_stackpbase b, STACKBASE, DUMBVM_STACKPAGES)" by (elim exE conjE) (rule that)
    have A: "as_paddr a ?x = Some (?x - v + pa)" and B: "as_paddr b ?x = Some (?x - v + pb)"
      using f by (simp_all add: as_paddr_find [OF a(1)] as_paddr_find [OF b(1)])
    let ?y = "?x - v + pb + ?o"
    have ph: "unat ?y \<in> as_phys b" by (rule as_vtop_unat(3) [OF b(1) a(2) b(2) B])
    have "unat ?y \<in> pset (v, pb, n)" by (rule region_byte [OF b f(2)])
    then have "copied a b ?y = pa + (?y - pb)"
      using c b(1) unfolding as_wf_regs copied_def by (elim disjE) auto
    then have "as_vtop a va = Some (copied a b ?y)" by (simp add: as_vtop_def A algebra_simps)
    moreover have "as_vtop b va = Some ?y" by (simp add: as_vtop_def B)
    ultimately show ?thesis using ph by blast
  qed
qed

lemma move_source:
  assumes "unat x \<in> pset (v, pb, n)" "reg_ok m (v, pa, n)" "pa \<noteq> 0"
  shows "unat (pa + (x - pb)) \<in> pset (v, pa, n)"
proof -
  have x: "unat pb \<le> unat x" "unat x < unat pb + 4096 * unat n" using assms(1) by (auto split: if_splits)
  have d: "unat (x - pb) = unat x - unat pb" using x(1) by (simp add: unat_diff_small u32_le_iff)
  have "unat pa + 4096 * unat n \<le> unat (firstpaddr m)" using assms(2,3) by simp
  then have "unat (pa + (x - pb)) = unat pa + (unat x - unat pb)" using d x unat_u32_less [of "firstpaddr m"] by (subst unat_add_small) simp_all
  then show ?thesis using x assms(3) by auto
qed

lemma moves_copy:
  assumes a: "as_wf m a" "as_asserts a" and b: "as_wf m' b" "vm_ok m'" "loaded b" and same: "same_map b a"
    and new: "as_phys b \<subseteq> {unat (firstpaddr m) ..< unat (firstpaddr m')}" and r: "r = (\<lambda>x. if unat x \<in> as_phys b then 0 else f x)"
  shows "ram_move (as_stackpbase b) (as_stackpbase a) (DUMBVM_STACKPAGES * PAGE_SIZE)
      (ram_move (as_pbase2 b) (as_pbase2 a) (as_npages2 a * PAGE_SIZE) (ram_move (as_pbase1 b) (as_pbase1 a) (as_npages1 a * PAGE_SIZE) r)) =
    (\<lambda>x. if unat x \<in> as_phys b then f (copied a b x) else f x)"
proof
  fix x
  let ?r1 = "(as_vbase1 b, as_pbase1 b, as_npages1 b)" and ?r2 = "(as_vbase2 b, as_pbase2 b, as_npages2 b)" and ?r3 = "(STACKBASE, as_stackpbase b, DUMBVM_STACKPAGES)"
  have sm: "as_npages1 a = as_npages1 b" "as_npages2 a = as_npages2 b" "as_vbase1 a = as_vbase1 b" "as_vbase2 a = as_vbase2 b"
    using same by (simp_all add: same_map_def)
  have nz: "as_pbase1 b \<noteq> 0" "as_pbase2 b \<noteq> 0" "as_stackpbase b \<noteq> 0" using b(3) by (simp_all add: loaded_def)
  have nza: "as_pbase1 a \<noteq> 0" "as_pbase2 a \<noteq> 0" "as_stackpbase a \<noteq> 0" using a(2) by (simp_all add: as_asserts_def)
  have B: "reg_ok m' ?r1" "reg_ok m' ?r2" "reg_ok m' ?r3" "pset ?r1 \<inter> pset ?r2 = {}" "pset ?r1 \<inter> pset ?r3 = {}" "pset ?r2 \<inter> pset ?r3 = {}"
    using b(1) unfolding as_wf_regs by blast+
  have A: "reg_ok m (as_vbase1 b, as_pbase1 a, as_npages1 b)" "reg_ok m (as_vbase2 b, as_pbase2 a, as_npages2 b)" "reg_ok m (STACKBASE, as_stackpbase a, DUMBVM_STACKPAGES)"
    using a(1) unfolding as_wf_regs sm by blast+
  have top: "unat (firstpaddr m') \<le> 2 ^ 29" using b(2) by (simp add: vm_ok_def u32_le_iff)
  have w: "unat (as_pbase1 b) + 4096 * unat (as_npages1 b) \<le> 2 ^ 30" "unat (as_pbase2 b) + 4096 * unat (as_npages2 b) \<le> 2 ^ 30"
    "unat (as_stackpbase b) + 4096 * unat DUMBVM_STACKPAGES \<le> 2 ^ 30"
    using B(1-3) nz top by simp_all
  have P: "pset ?r1 = {unat (as_pbase1 b) ..< unat (as_pbase1 b) + 4096 * unat (as_npages1 b)}"
    "pset ?r2 = {unat (as_pbase2 b) ..< unat (as_pbase2 b) + 4096 * unat (as_npages2 b)}"
    "pset ?r3 = {unat (as_stackpbase b) ..< unat (as_stackpbase b) + 4096 * unat DUMBVM_STACKPAGES}" using nz by simp_all
  have old: "unat y \<notin> as_phys b" if "unat y \<in> as_phys a" for y using apart_new [OF new as_phys_bound [OF a(1)]] that by blast
  have pa: "as_phys a = pset (as_vbase1 b, as_pbase1 a, as_npages1 b) \<union> pset (as_vbase2 b, as_pbase2 a, as_npages2 b) \<union>
     pset (STACKBASE, as_stackpbase a, DUMBVM_STACKPAGES)" unfolding as_phys_regs sm ..
  have s1: "unat (as_pbase1 a + (x - as_pbase1 b)) \<notin> as_phys b" if "unat x \<in> pset ?r1"
    using old move_source [OF that A(1) nza(1)] unfolding pa by blast
  have s2: "unat (as_pbase2 a + (x - as_pbase2 b)) \<notin> as_phys b" if "unat x \<in> pset ?r2"
    using old move_source [OF that A(2) nza(2)] unfolding pa by blast
  have s3: "unat (as_stackpbase a + (x - as_stackpbase b)) \<notin> as_phys b" if "unat x \<in> pset ?r3"
    using old move_source [OF that A(3) nza(3)] unfolding pa by blast
  note mv = ram_move_eq [OF w(1)] ram_move_eq [OF w(2)] ram_move_eq [OF w(3)]
  show "ram_move (as_stackpbase b) (as_stackpbase a) (DUMBVM_STACKPAGES * PAGE_SIZE)
      (ram_move (as_pbase2 b) (as_pbase2 a) (as_npages2 a * PAGE_SIZE) (ram_move (as_pbase1 b) (as_pbase1 a) (as_npages1 a * PAGE_SIZE) r)) x =
    (if unat x \<in> as_phys b then f (copied a b x) else f x)"
  proof (cases "unat x \<in> as_phys b")
    case False
    then have "unat x \<notin> pset ?r1" "unat x \<notin> pset ?r2" "unat x \<notin> pset ?r3" unfolding as_phys_regs by blast+
    then show ?thesis using False unfolding sm mv P [symmetric] r by (simp del: pset.simps)
  next
    case True
    then consider "unat x \<in> pset ?r1" | "unat x \<in> pset ?r2" | "unat x \<in> pset ?r3" unfolding as_phys_regs by blast
    then show ?thesis
    proof cases
      case 1
      then have "unat x \<notin> pset ?r2" "unat x \<notin> pset ?r3" using B(4,5) by blast+
      then show ?thesis using True 1 s1 unfolding sm mv P [symmetric] r copied_def by (simp del: pset.simps)
    next
      case 2
      then have n: "unat x \<notin> pset ?r1" "unat x \<notin> pset ?r3" using B(4,6) by blast+
      have "unat (as_pbase2 a + (x - as_pbase2 b)) \<notin> pset ?r1" using s2 [OF 2] unfolding as_phys_regs by blast
      then show ?thesis using True 2 n s2 unfolding sm mv P [symmetric] r copied_def by (simp del: pset.simps)
    next
      case 3
      then have n: "unat x \<notin> pset ?r1" "unat x \<notin> pset ?r2" using B(5,6) by blast+
      have "unat (as_stackpbase a + (x - as_stackpbase b)) \<notin> pset ?r1" "unat (as_stackpbase a + (x - as_stackpbase b)) \<notin> pset ?r2"
        using s3 [OF 3] unfolding as_phys_regs by blast+
      then show ?thesis using True 3 n s3 unfolding sm mv P [symmetric] r copied_def by (simp del: pset.simps)
    qed
  qed
qed

end
