(* ===== verification/UserMem.thy ===== *)
theory UserMem
  imports Dumbvm
begin

unbundle bit_operations_syntax

text \<open>
  Address spaces and user memory: correctness of \<^verbatim>\<open>as_copy\<close>, the invariant of the virtual memory system over
  all its operations, and the transfers between kernel and user memory of \<^verbatim>\<open>kern/vm/copyinout.c\<close> on top of
  the page faults of theory \<open>Dumbvm\<close>.
\<close>

subsection \<open>Copying an address space\<close>

lemma as_copy_result:
  assumes wf: "vm_wf s" and a: "vs_as s p = Some a" "as_asserts a" and q: "q \<noteq> 0" "vs_as s q = None"
  obtains (fail) m where "as_copy q p s = Err ENOMEM (s\<lparr>vs_mem := m\<rparr>)" "vm_wf (s\<lparr>vs_mem := m\<rparr>)"
      "unat (lastpaddr (vs_mem s)) < unat (firstpaddr (vs_mem s)) + 4096 * (unat (as_npages1 a) + unat (as_npages2 a) + 18)"
      "m = (vs_mem s)\<lparr>firstpaddr := firstpaddr m\<rparr>" "unat (firstpaddr m) = unat (firstpaddr (vs_mem s)) + 4096 * lost_pages (vs_mem s) a"
  | (done') m b where "as_copy q p s = Ok q (put_as q b (s\<lparr>vs_mem := m, vs_ram := (\<lambda>x. if unat x \<in> as_phys b then vs_ram s (copied a b x) else vs_ram s x)\<rparr>))"
      "vm_wf (put_as q b (s\<lparr>vs_mem := m, vs_ram := (\<lambda>x. if unat x \<in> as_phys b then vs_ram s (copied a b x) else vs_ram s x)\<rparr>))"
      "same_map b a" "as_asserts b" "as_wf m b" "vm_ok m" "as_wf m a" "as_phys b \<subseteq> {unat (firstpaddr (vs_mem s)) ..< unat (firstpaddr m)}"
      "m = (vs_mem s)\<lparr>firstpaddr := firstpaddr m\<rparr>"
      "unat (firstpaddr m) = unat (firstpaddr (vs_mem s)) + 4096 * (unat (as_npages1 a) + unat (as_npages2 a) + 18)"
proof -
  note D = vm_wfD [OF wf]
  have pq: "p \<noteq> q" using a(1) q(2) by auto
  have sl: "dumbvm_can_sleep (vs_mem s)" using D(1) by (simp add: vm_ok_def)
  obtain z where z: "as_create q s = Ok q (put_as q z s)" "unloaded z" "as_wf (vs_mem s) z" using as_create_wf [OF wf q] by blast
  define c where "c = z\<lparr>as_vbase1 := as_vbase1 a, as_npages1 := as_npages1 a, as_vbase2 := as_vbase2 a, as_npages2 := as_npages2 a\<rparr>"
  have c: "unloaded c" "same_map c a" using z(2) by (simp_all add: c_def unloaded_def same_map_def)
  have cw: "as_wf (vs_mem s) c"
    using D(4) [OF a(1)] z(2,3) unfolding as_wf_regs by (auto simp: c_def unloaded_def)
  have put2: "put_as q c (put_as q z s) = put_as q c s" by (simp add: put_as_def)
  define t where "t = put_as q c s"
  have T: "vs_mem t = vs_mem s" "vs_as t q = Some c" "vs_ram t = vs_ram s" "t = put_as q c s" by (simp_all add: t_def put_as_def)
  have run: "as_copy q p s = (case as_prepare_load q t of
       Err e s \<Rightarrow> kbind (as_destroy q s) (\<lambda>_ s. Err ENOMEM s)
     | Ok _ s \<Rightarrow> (case vs_as s q of None \<Rightarrow> Fault
         | Some new \<Rightarrow> kassert (as_pbase1 new \<noteq> 0) (kassert (as_pbase2 new \<noteq> 0) (kassert (as_stackpbase new \<noteq> 0)
             (Ok q (s\<lparr>vs_ram := ram_move (as_stackpbase new) (as_stackpbase a) (DUMBVM_STACKPAGES * PAGE_SIZE)
                (ram_move (as_pbase2 new) (as_pbase2 a) (as_npages2 a * PAGE_SIZE)
                  (ram_move (as_pbase1 new) (as_pbase1 a) (as_npages1 a * PAGE_SIZE) (vs_ram s)))\<rparr>)))))
     | Panic \<Rightarrow> Panic | Fault \<Rightarrow> Fault | Hang \<Rightarrow> Hang)"
  proof -
    have 1: "vs_as (put_as q z s) p = Some a" "vs_as (put_as q z s) q = Some z" using a(1) pq by (simp_all add: put_as_def)
    show ?thesis unfolding as_copy_def z(1) kbind.simps 1 using sl q(1)
      unfolding Let_def by (simp add: put2 [unfolded c_def] t_def c_def)
  qed
  have vt: "vm_ok (vs_mem t)" "as_wf (vs_mem t) c" using D(1) cw T(1) by simp_all
  have undo: "(put_as q b (t\<lparr>vs_mem := m\<rparr>))\<lparr>vs_as := (vs_as (put_as q b (t\<lparr>vs_mem := m\<rparr>)))(q := None)\<rparr> = s\<lparr>vs_mem := m\<rparr>" for b m
    using q(2) by (simp add: t_def put_as_def fun_upd_idem_iff)
  show thesis
  proof (rule prepare_result [OF vt(1) T(2) c(1) vt(2)])
    fix b m assume f: "as_prepare_load q t = Err ENOMEM (put_as q b (t\<lparr>vs_mem := m\<rparr>))" "vm_ok m" "unat (firstpaddr (vs_mem t)) \<le> unat (firstpaddr m)"
      "unat (lastpaddr (vs_mem t)) < unat (firstpaddr (vs_mem t)) + 4096 * (unat (as_npages1 c) + unat (as_npages2 c) + 18)"
      "m = (vs_mem t)\<lparr>firstpaddr := firstpaddr m\<rparr>" "unat (firstpaddr m) = unat (firstpaddr (vs_mem t)) + 4096 * lost_pages (vs_mem t) c"
    have "dumbvm_can_sleep m" using f(2) by (simp add: vm_ok_def)
    then have "as_destroy q (put_as q b (t\<lparr>vs_mem := m\<rparr>)) = Ok () (s\<lparr>vs_mem := m\<rparr>)"
      using undo [of b m] by (simp add: as_destroy_def put_as_def)
    then have r: "as_copy q p s = Err ENOMEM (s\<lparr>vs_mem := m\<rparr>)" unfolding run f(1) by simp
    have "as_wf m d" if "vs_as s x = Some d" for x d by (rule as_wf_mono [OF D(4) [OF that]]) (use f(3) T(1) in simp)
    then have "vm_wf (s\<lparr>vs_mem := m\<rparr>)" using wf f(2) unfolding vm_wf_def tlb_ok_def by simp
    then show thesis by (rule fail [OF r]) (use f(4,6) f(5) [unfolded T(1)] c(2) T(1) in \<open>simp_all add: same_map_def lost_pages_def Let_def\<close>)
  next
    fix b m assume g: "as_prepare_load q t = Ok () (put_as q b (t\<lparr>vs_mem := m, vs_ram := (\<lambda>x. if unat x \<in> as_phys b then 0 else vs_ram t x)\<rparr>))"
      "vm_ok m" "unat (firstpaddr (vs_mem t)) \<le> unat (firstpaddr m)" "as_wf m b" "same_map b c" "loaded b"
      "as_phys b \<subseteq> {unat (firstpaddr (vs_mem t)) ..< unat (firstpaddr m)}" "m = (vs_mem t)\<lparr>firstpaddr := firstpaddr m\<rparr>"
      "unat (firstpaddr m) = unat (firstpaddr (vs_mem t)) + 4096 * (unat (as_npages1 c) + unat (as_npages2 c) + 18)"
    have sm: "same_map b a" using g(5) c(2) by (simp add: same_map_def)
    let ?r = "\<lambda>x. if unat x \<in> as_phys b then vs_ram s (copied a b x) else vs_ram s x"
    have new: "as_phys b \<subseteq> {unat (firstpaddr (vs_mem s)) ..< unat (firstpaddr m)}" using g(7) T(1) by simp
    note mv = moves_copy [OF D(4) [OF a(1)] a(2) g(4,2,6) sm new refl, of "vs_ram s"]
    have ld: "as_pbase1 b \<noteq> 0" "as_pbase2 b \<noteq> 0" "as_stackpbase b \<noteq> 0" using g(6) by (simp_all add: loaded_def)
    have e: "put_as q b (t\<lparr>vs_mem := m, vs_ram := (\<lambda>x. if unat x \<in> as_phys b then 0 else vs_ram t x)\<rparr>) =
        put_as q b (s\<lparr>vs_mem := m, vs_ram := (\<lambda>x. if unat x \<in> as_phys b then 0 else vs_ram s x)\<rparr>)" unfolding T(3) by (simp add: t_def put_as_def)
    have pe: "vs_as (put_as q b (s\<lparr>vs_mem := m, vs_ram := f\<rparr>)) q = Some b" "vs_ram (put_as q b (s\<lparr>vs_mem := m, vs_ram := f\<rparr>)) = f"
      "(put_as q b (s\<lparr>vs_mem := m, vs_ram := f\<rparr>))\<lparr>vs_ram := f'\<rparr> = put_as q b (s\<lparr>vs_mem := m, vs_ram := f'\<rparr>)" for f f' by (simp_all add: put_as_def)
    have A: "as_copy q p s = Ok q (put_as q b (s\<lparr>vs_mem := m, vs_ram := ?r\<rparr>))"
      unfolding run g(1) e res.case pe option.case mv using ld by simp
    have B: "vm_wf (put_as q b (s\<lparr>vs_mem := m, vs_ram := ?r\<rparr>))"
      by (rule vm_wf_put [OF wf q(1) _ g(2) _ g(4) new]) (use q(2) g(3) T(1) in auto)
    have C: "as_wf m a" by (rule as_wf_mono [OF D(4) [OF a(1)]]) (use g(3) T(1) in simp)
    have E: "as_asserts b"
    proof -
      have "unat (as_pbase1 b) mod 4096 = 0" "unat (as_pbase2 b) mod 4096 = 0" "unat (as_stackpbase b) mod 4096 = 0"
        using g(4) ld unfolding as_wf_regs by simp_all
      then show ?thesis using a(2) sm ld frame_idem unfolding as_asserts_def same_map_def by simp
    qed
    have M: "m = (vs_mem s)\<lparr>firstpaddr := firstpaddr m\<rparr>" using g(8) unfolding T(1) .
    have N: "unat (firstpaddr m) = unat (firstpaddr (vs_mem s)) + 4096 * (unat (as_npages1 a) + unat (as_npages2 a) + 18)"
      using g(9) c(2) T(1) by (simp add: same_map_def)
    show thesis by (rule done' [OF A B sm E g(4,2) C new M N])
  qed
qed

subsection \<open>The operations as steps\<close>

text \<open>
  The operations on address spaces with their conditions of use: a new structure is at a new address, regions are
  defined before the memory is allocated and lie in user space, the structure of the current process is not destroyed,
  a switch to another process activates its address space, and the processor faults on addresses the TLB does not have.
\<close>

inductive vm_step :: "vmsys \<Rightarrow> vmsys \<Rightarrow> bool" where
  step_create: "km \<noteq> 0 \<Longrightarrow> vs_as s km = None \<Longrightarrow> as_create km s = Ok q s' \<Longrightarrow> vm_step s s'"
| step_define: "vs_as s q = Some a \<Longrightarrow> unloaded a \<Longrightarrow> 4096 \<le> unat va \<Longrightarrow> unat va + unat sz \<le> 2 ^ 31 \<Longrightarrow>
    as_define_region q va sz s = Ok () s' \<Longrightarrow> vm_step s s'"
| step_prepare: "vs_as s q = Some a \<Longrightarrow> unloaded a \<Longrightarrow> as_prepare_load q s = Ok () s' \<or> as_prepare_load q s = Err e s' \<Longrightarrow> vm_step s s'"
| step_copy: "km \<noteq> 0 \<Longrightarrow> vs_as s km = None \<Longrightarrow> vs_as s p = Some a \<Longrightarrow> as_asserts a \<Longrightarrow>
    as_copy km p s = Ok q s' \<or> as_copy km p s = Err e s' \<Longrightarrow> vm_step s s'"
| step_destroy: "vs_proc s \<noteq> Some q \<Longrightarrow> as_destroy q s = Ok () s' \<Longrightarrow> vm_step s s'"
| step_switch: "p = 0 \<or> vs_as s p \<noteq> None \<Longrightarrow> vm_step s (as_activate (s\<lparr>vs_proc := Some p\<rparr>))"
| step_fault: "vs_proc s = Some p \<Longrightarrow> vs_as s p = Some a \<Longrightarrow> as_asserts a \<Longrightarrow> ft = VM_FAULT_READ \<or> ft = VM_FAULT_WRITE \<Longrightarrow>
    \<not> tlb_has s va \<Longrightarrow> vm_fault ft va s = Ok () s' \<Longrightarrow> vm_step s s'"
| step_load: "tm_badfaultfunc s \<Longrightarrow> vs_proc s = Some p \<Longrightarrow> vs_as s p = Some a \<Longrightarrow> as_asserts a \<Longrightarrow> va < USERSPACETOP \<Longrightarrow>
    user_load va s = Ok b s' \<Longrightarrow> vm_step s s'"
| step_store: "tm_badfaultfunc s \<Longrightarrow> vs_proc s = Some p \<Longrightarrow> vs_as s p = Some a \<Longrightarrow> as_asserts a \<Longrightarrow> va < USERSPACETOP \<Longrightarrow>
    user_store va x s = Ok ok s' \<Longrightarrow> vm_step s s'"

lemma prepare_wf:
  assumes wf: "vm_wf s" and q: "vs_as s q = Some a" "unloaded a"
    and r: "as_prepare_load q s = Ok () s' \<or> as_prepare_load q s = Err e s'"
  shows "vm_wf s'"
proof -
  note D = vm_wfD [OF wf]
  have q0: "q \<noteq> 0" using q(1) D(3) by auto
  have un: "\<forall>c. vs_as s q = Some c \<longrightarrow> unloaded c" using q by simp
  show ?thesis
  proof (rule prepare_result [OF D(1) q D(4) [OF q(1)]])
    fix b m assume f: "as_prepare_load q s = Err ENOMEM (put_as q b (s\<lparr>vs_mem := m\<rparr>))" "vm_ok m" "unat (firstpaddr (vs_mem s)) \<le> unat (firstpaddr m)"
      "as_wf m b" "as_phys b \<subseteq> {unat (firstpaddr (vs_mem s)) ..< unat (firstpaddr m)}"
    have "vm_wf (put_as q b (s\<lparr>vs_mem := m, vs_ram := vs_ram s\<rparr>))" by (rule vm_wf_put [OF wf q0 un f(2-5)])
    then show ?thesis using r f(1) by simp
  next
    fix b m assume f: "as_prepare_load q s = Ok () (put_as q b (s\<lparr>vs_mem := m, vs_ram := (\<lambda>x. if unat x \<in> as_phys b then 0 else vs_ram s x)\<rparr>))"
      "vm_ok m" "unat (firstpaddr (vs_mem s)) \<le> unat (firstpaddr m)" "as_wf m b" "as_phys b \<subseteq> {unat (firstpaddr (vs_mem s)) ..< unat (firstpaddr m)}"
    have "vm_wf (put_as q b (s\<lparr>vs_mem := m, vs_ram := (\<lambda>x. if unat x \<in> as_phys b then 0 else vs_ram s x)\<rparr>))" by (rule vm_wf_put [OF wf q0 un f(2-5)])
    then show ?thesis using r f(1) by simp
  qed
qed

lemma vm_step_wf:
  assumes "vm_step s s'" "vm_wf s"
  shows "vm_wf s'"
  using assms
proof (induction rule: vm_step.induct)
  case (step_create km s q s')
  then show ?case using as_create_wf [of s km] by auto
next
  case (step_define s q a va sz s')
  let ?n = "((sz + (va AND NOT PAGE_FRAME)) + PAGE_SIZE - 1 AND PAGE_FRAME) div PAGE_SIZE"
  have "as_define_region q va sz s = (case put_region (va AND PAGE_FRAME) ?n a of Some b \<Rightarrow> Ok () (put_as q b s) | None \<Rightarrow> Err ENOSYS s)"
    by (rule as_define_region_result [OF vm_wfD(1) [OF step_define.prems] step_define.hyps(1)])
  then obtain b where b: "put_region (va AND PAGE_FRAME) ?n a = Some b" "s' = put_as q b s"
    using step_define.hyps(5) by (auto split: option.splits)
  show ?case unfolding b(2) by (rule as_define_region_wf [OF step_define.prems step_define.hyps(1-4) b(1)])
next
  case (step_prepare s q a s' e)
  then show ?case using prepare_wf by blast
next
  case (step_copy km s p a q s' e)
  show ?case
    by (rule as_copy_result [OF step_copy.prems step_copy.hyps(3,4,1,2)]) (use step_copy.hyps(5) in auto)
next
  case (step_destroy s q s')
  then have "vs_as s q \<noteq> None" by (auto simp: as_destroy_def kassert_def split: if_splits)
  then show ?case using as_destroy_wf [of s q] step_destroy by simp
next
  case (step_switch p s)
  then show ?case by (intro as_activate_wf)
next
  case (step_fault s p a ft va s')
  have R: "running s p a" using step_fault by (simp add: running_def)
  from vm_fault_result [OF R step_fault.hyps(4,5)] show ?case using step_fault.hyps(6) by (auto simp: running_def)
next
  case (step_load s p a va b s')
  have R: "running s p a" using step_load by (simp add: running_def)
  show ?case by (rule user_load_result [OF R step_load.hyps(5,1)]) (use step_load.hyps(6) step_load.prems in \<open>auto simp: running_def\<close>)
next
  case (step_store s p a va x ok s')
  have R: "running s p a" using step_store by (simp add: running_def)
  show ?case by (rule user_store_result [OF R step_store.hyps(5,1), where b = x]) (use step_store.hyps(6) step_store.prems in \<open>auto simp: running_def\<close>)
qed

lemma vm_steps_wf: "vm_step\<^sup>*\<^sup>* s s' \<Longrightarrow> vm_wf s \<Longrightarrow> vm_wf s'"
  by (induction rule: rtranclp_induct) (auto intro: vm_step_wf)

lemma tlb_hit_sound:
  assumes wf: "vm_wf s" and p: "vs_proc s = Some p" "vs_as s p = Some a" and va: "va < USERSPACETOP" and hit: "mmu w va s = Inl pa"
  shows "as_asserts a \<and> as_vtop a va = Some pa"
proof -
  have has: "tlb_has s va" using miss [of s va w] hit by (cases "tlb_has s va") auto
  then obtain e where e: "e \<in> set (vs_tlb s)" "tlb_tag e = va AND PAGE_FRAME" by (auto simp: tlb_has_def)
  have "\<not> USERSPACETOP \<le> tlb_tag e" using va frame_unat [of va] unfolding e(2) by (simp add: u32_order)
  moreover have "entry_ok a e" using vm_wfD(2) [OF wf] p e(1) unfolding tlb_ok_def by blast
  ultimately have as: "as_asserts a" unfolding entry_ok_def by (simp split: if_splits)
  then have "running s p a" using wf p by (simp add: running_def)
  from Dumbvm.hit [OF this va has, of w] show ?thesis using hit as by simp
qed

subsection \<open>A system with one process\<close>

definition demo_as :: addrspace where
  "demo_as = \<lparr>as_vbase1 = 0x400000, as_pbase1 = 0x20000, as_npages1 = 2, as_vbase2 = 0x10000000, as_pbase2 = 0x22000, as_npages2 = 1,
     as_stackpbase = 0x23000\<rparr>"

definition demo_vm :: vmsys where
  "demo_vm = \<lparr>vs_mem = demo_kmem\<lparr>firstpaddr := 0x40000\<rparr>, vs_ram = (\<lambda>_. 7), vs_tlb = map (\<lambda>i. (TLBHI_INVALID i, TLBLO_INVALID)) [0..<NUM_TLB],
     vs_as = [0x80010000 \<mapsto> demo_as], vs_proc = Some 0x80010000, tm_badfaultfunc = False, vs_kbuf = [1, 2, 0, 4]\<rparr>"

lemma demo_asserts: "as_asserts demo_as"
  by (simp add: as_asserts_def demo_as_def PAGE_FRAME_def)

lemma demo_as_wf: "as_wf (demo_kmem\<lparr>firstpaddr := 0x40000\<rparr>) demo_as"
  by (simp add: as_wf_regs demo_as_def stackbase_unat DUMBVM_STACKPAGES_def)

lemma demo_vm_fields [simp]:
  "vs_mem demo_vm = demo_kmem\<lparr>firstpaddr := 0x40000\<rparr>" "vs_tlb demo_vm = map (\<lambda>i. (TLBHI_INVALID i, TLBLO_INVALID)) [0..<NUM_TLB]"
  "vs_as demo_vm = [0x80010000 \<mapsto> demo_as]" "vs_proc demo_vm = Some 0x80010000" "vs_kbuf demo_vm = [1, 2, 0, 4]"
  by (simp_all add: demo_vm_def)

lemma demo_vm_wf: "vm_wf demo_vm"
proof -
  have "vm_ok (vs_mem demo_vm)" by (simp add: demo_kmem_def vm_ok_def dumbvm_can_sleep_def)
  moreover have "tlb_ok demo_vm" unfolding tlb_ok_def demo_vm_fields using flushed_ok by (simp only: length_map length_upt diff_zero) blast
  ultimately show ?thesis unfolding vm_wf_def using demo_as_wf by (simp del: map_map split: if_splits)
qed

subsection \<open>Properties\<close>

text \<open>
  \<^bold>\<open>C31.\<close> The virtual memory system stays well-formed under all its operations: creating, defining, loading, copying
  and destroying address spaces, switching between processes, page faults and accesses. In every state reached, whatever
  the TLB translates for an address in user space is the translation of the current address space, and
  the byte belongs to no other address space.
\<close>

theorem vm_stays_wellformed:
  assumes "vm_wf s" "vm_step\<^sup>*\<^sup>* s s'"
  shows "vm_wf s' \<and> (\<forall>p a w va pa. vs_proc s' = Some p \<longrightarrow> vs_as s' p = Some a \<longrightarrow> va < USERSPACETOP \<longrightarrow> mmu w va s' = Inl pa \<longrightarrow>
    as_vtop a va = Some pa \<and> unat pa \<in> as_phys a \<and> (\<forall>q b. q \<noteq> p \<longrightarrow> vs_as s' q = Some b \<longrightarrow> unat pa \<notin> as_phys b))"
proof -
  have wf: "vm_wf s'" by (rule vm_steps_wf [OF assms(2,1)])
  have "as_vtop a va = Some pa \<and> unat pa \<in> as_phys a \<and> (\<forall>q b. q \<noteq> p \<longrightarrow> vs_as s' q = Some b \<longrightarrow> unat pa \<notin> as_phys b)"
    if h: "vs_proc s' = Some p" "vs_as s' p = Some a" "va < USERSPACETOP" "mmu w va s' = Inl pa" for p a w va pa
  proof -
    have t: "as_asserts a" "as_vtop a va = Some pa" using tlb_hit_sound [OF wf h] by simp_all
    have "running s' p a" using wf h t by (simp add: running_def)
    then have "unat pa \<in> as_phys a" using t(2) by (rule vtop_phys)
    then show ?thesis using t(2) vm_wfD(5) [OF wf h(2)] by blast
  qed
  then show ?thesis using wf by blast
qed

lemma demo_step: "vm_step demo_vm (as_activate (demo_vm\<lparr>vs_proc := Some 0x80010000\<rparr>))"
  by (rule step_switch) simp

theorem vm_stays_wellformed_witness:
  "vm_wf demo_vm \<and> vm_step\<^sup>*\<^sup>* demo_vm (as_activate (demo_vm\<lparr>vs_proc := Some 0x80010000\<rparr>)) \<and>
   vm_wf (as_activate (demo_vm\<lparr>vs_proc := Some 0x80010000\<rparr>))"
  using vm_stays_wellformed [OF demo_vm_wf, of "as_activate (demo_vm\<lparr>vs_proc := Some 0x80010000\<rparr>)"] demo_vm_wf demo_step
    r_into_rtranclp [of vm_step, OF demo_step] by blast

text \<open>
  \<^bold>\<open>C32.\<close> \<^verbatim>\<open>as_copy\<close> of an address space that is set up, in all cases. When \<^verbatim>\<open>kmalloc\<close> has no block for the structure
  (\<open>q = 0\<close>), it fails with \<^verbatim>\<open>ENOMEM\<close> and nothing has changed. When the free memory is smaller than the regions and
  the stack, it fails with \<^verbatim>\<open>ENOMEM\<close>; all address spaces, the TLB and the contents of memory are as before, but
  the pages of the regions before the first one that does not fit have been taken from the allocator and are lost, because this
  virtual memory system never gives pages back. Otherwise it succeeds: the new address space shows the same byte at every
  address, in exactly the pages taken from the free memory, so that neither the original nor anything else in memory changes.
\<close>

theorem as_copy_forks:
  assumes "vm_wf s" "vs_as s p = Some a" "as_asserts a" "vs_as s q = None"
    and need: "need = 4096 * (unat (as_npages1 a) + unat (as_npages2 a) + 18)"
    and free: "free = unat (lastpaddr (vs_mem s)) - unat (firstpaddr (vs_mem s))"
  shows "(q = 0 \<longrightarrow> as_copy q p s = Err ENOMEM s) \<and>
    (q \<noteq> 0 \<and> free < need \<longrightarrow>
      (\<exists>f. as_copy q p s = Err ENOMEM (s\<lparr>vs_mem := (vs_mem s)\<lparr>firstpaddr := f\<rparr>\<rparr>) \<and> vm_wf (s\<lparr>vs_mem := (vs_mem s)\<lparr>firstpaddr := f\<rparr>\<rparr>) \<and>
         unat f = unat (firstpaddr (vs_mem s)) + 4096 * lost_pages (vs_mem s) a)) \<and>
    (q \<noteq> 0 \<and> need \<le> free \<longrightarrow>
      (\<exists>b f s'. as_copy q p s = Ok q s' \<and> vm_wf s' \<and> vs_as s' = (vs_as s)(q \<mapsto> b) \<and> as_asserts b \<and> (\<forall>va. uview s' b va = uview s a va) \<and>
         vs_mem s' = (vs_mem s)\<lparr>firstpaddr := f\<rparr> \<and> unat f = unat (firstpaddr (vs_mem s)) + need \<and> vs_tlb s' = vs_tlb s \<and>
         as_phys b \<subseteq> {unat (firstpaddr (vs_mem s)) ..< unat f} \<and> (\<forall>x. unat x \<notin> as_phys b \<longrightarrow> vs_ram s' x = vs_ram s x)))"
proof (cases "q = 0")
  case True
  have "dumbvm_can_sleep (vs_mem s)" using vm_wfD(1) [OF assms(1)] by (simp add: vm_ok_def)
  then show ?thesis using True by (simp add: as_copy_def as_create_def)
next
  case q: False
  have fl: "unat (firstpaddr (vs_mem s)) \<le> unat (lastpaddr (vs_mem s))" using vm_wfD(1) [OF assms(1)] by (simp add: vm_ok_def u32_le_iff)
  show ?thesis
  proof (rule as_copy_result [OF assms(1-3) q assms(4)])
    fix m assume c: "as_copy q p s = Err ENOMEM (s\<lparr>vs_mem := m\<rparr>)" "vm_wf (s\<lparr>vs_mem := m\<rparr>)"
      "unat (lastpaddr (vs_mem s)) < unat (firstpaddr (vs_mem s)) + 4096 * (unat (as_npages1 a) + unat (as_npages2 a) + 18)"
      "m = (vs_mem s)\<lparr>firstpaddr := firstpaddr m\<rparr>" "unat (firstpaddr m) = unat (firstpaddr (vs_mem s)) + 4096 * lost_pages (vs_mem s) a"
    then have lt: "free < need" using fl unfolding need free by linarith
    obtain f where f: "m = (vs_mem s)\<lparr>firstpaddr := f\<rparr>" "unat f = unat (firstpaddr (vs_mem s)) + 4096 * lost_pages (vs_mem s) a"
      using c(4,5) by blast
    show ?thesis using q lt f(2) c(1,2) unfolding f(1) by (intro conjI impI exI [of _ f]) simp_all
  next
    fix m b
    let ?r = "\<lambda>x. if unat x \<in> as_phys b then vs_ram s (copied a b x) else vs_ram s x"
    let ?s = "put_as q b (s\<lparr>vs_mem := m, vs_ram := ?r\<rparr>)"
    assume c: "as_copy q p s = Ok q ?s" "vm_wf ?s" "same_map b a" "as_asserts b" "as_wf m b" "vm_ok m" "as_wf m a"
      "as_phys b \<subseteq> {unat (firstpaddr (vs_mem s)) ..< unat (firstpaddr m)}" "m = (vs_mem s)\<lparr>firstpaddr := firstpaddr m\<rparr>"
      "unat (firstpaddr m) = unat (firstpaddr (vs_mem s)) + 4096 * (unat (as_npages1 a) + unat (as_npages2 a) + 18)"
    have e: "vs_as ?s = (vs_as s)(q \<mapsto> b)" "vs_ram ?s = ?r" "vs_mem ?s = m" "vs_tlb ?s = vs_tlb s" by (simp_all add: put_as_def)
    obtain f where f: "m = (vs_mem s)\<lparr>firstpaddr := f\<rparr>" "firstpaddr m = f" using c(9) by blast
    then have "lastpaddr m = lastpaddr (vs_mem s)" by simp
    then have "unat (firstpaddr m) \<le> unat (lastpaddr (vs_mem s))" using c(6) by (simp add: vm_ok_def u32_le_iff)
    then have le: "need \<le> free" using c(10) unfolding need free by linarith
    have "uview ?s b va = uview s a va" for va
      using copied_vtop [OF c(7,6) assms(3) c(5,4,3), of va] unfolding uview_def e by auto
    moreover have "?r x = vs_ram s x" if "unat x \<notin> as_phys b" for x using that by simp
    ultimately have "\<exists>b f s'. as_copy q p s = Ok q s' \<and> vm_wf s' \<and> vs_as s' = (vs_as s)(q \<mapsto> b) \<and> as_asserts b \<and> (\<forall>va. uview s' b va = uview s a va) \<and>
         vs_mem s' = (vs_mem s)\<lparr>firstpaddr := f\<rparr> \<and> unat f = unat (firstpaddr (vs_mem s)) + need \<and> vs_tlb s' = vs_tlb s \<and>
         as_phys b \<subseteq> {unat (firstpaddr (vs_mem s)) ..< unat f} \<and> (\<forall>x. unat x \<notin> as_phys b \<longrightarrow> vs_ram s' x = vs_ram s x)"
      using c(1,2,4,8,10) e f by (intro exI [of _ b] exI [of _ f] exI [of _ ?s]) (simp add: need)
    then show ?thesis using le q by auto
  qed
qed

theorem as_copy_forks_witness:
  "\<exists>b s'. as_copy 0x80020000 0x80010000 demo_vm = Ok 0x80020000 s' \<and> vm_wf s' \<and> vs_as s' = [0x80010000 \<mapsto> demo_as, 0x80020000 \<mapsto> b] \<and> uview s' b = uview demo_vm demo_as"
proof -
  have pre: "vs_as demo_vm 0x80010000 = Some demo_as" "vs_as demo_vm 0x80020000 = None" by simp_all
  have "4096 * (unat (as_npages1 demo_as) + unat (as_npages2 demo_as) + 18) \<le> unat (lastpaddr (vs_mem demo_vm)) - unat (firstpaddr (vs_mem demo_vm))"
    by (simp add: demo_kmem_def demo_as_def)
  moreover have "(0x80020000 :: u32) \<noteq> 0" by simp
  ultimately obtain b s' where "as_copy 0x80020000 0x80010000 demo_vm = Ok 0x80020000 s'" "vm_wf s'"
      "vs_as s' = (vs_as demo_vm)(0x80020000 \<mapsto> b)" "\<forall>va. uview s' b va = uview demo_vm demo_as va"
    using as_copy_forks [OF demo_vm_wf pre(1) demo_asserts pre(2) refl refl] by blast
  then show ?thesis by (intro exI [of _ b] exI [of _ s']) (simp add: fun_eq_iff)
qed

end
