(* ===== verification/Copyinout.thy ===== *)
theory Copyinout
  imports UserMem
begin

unbundle bit_operations_syntax

text \<open>
  Transfers between kernel and user memory, \<^verbatim>\<open>kern/vm/copyinout.c\<close>. The kernel side of a transfer is the buffer
  \<open>vs_kbuf\<close>; the user side is reached through the TLB and page faults of theory \<open>Dumbvm\<close>. A fault that cannot be
  handled continues in \<^verbatim>\<open>copyfail\<close>, which jumps back to the \<^verbatim>\<open>setjmp\<close>; here the loops return a value that says so.
  \<^verbatim>\<open>memcpy\<close> copies forward; its word-wise path moves the same bytes in the same order of pages.
\<close>

subsection \<open>The transfers\<close>

definition copycheck :: "u32 \<Rightarrow> u32 \<Rightarrow> vmsys \<Rightarrow> (u32, vmsys) res" where
  "copycheck userptr len s =
     (let bot = userptr; top = bot + len - 1 in
      if top < bot then Err EFAULT s
      else if bot \<ge> USERSPACETOP then Err EFAULT s
      else if top \<ge> USERSPACETOP then Ok (USERSPACETOP - bot) s
      else Ok len s)"

text \<open>One byte of either side: a load gives none and a store false if the access ended in \<^verbatim>\<open>copyfail\<close>.\<close>

definition uload :: "u32 \<Rightarrow> nat \<Rightarrow> vmsys \<Rightarrow> (u8 option, vmsys) res" where
  "uload u i s = user_load (u + word_of_nat i) s"

definition ustore :: "u32 \<Rightarrow> nat \<Rightarrow> u8 \<Rightarrow> vmsys \<Rightarrow> (bool, vmsys) res" where
  "ustore u i b s = user_store (u + word_of_nat i) b s"

definition kload :: "nat \<Rightarrow> vmsys \<Rightarrow> (u8 option, vmsys) res" where
  "kload i s = rd (vs_kbuf s) i (\<lambda>b. Ok (Some b) s)"

definition kstore :: "nat \<Rightarrow> u8 \<Rightarrow> vmsys \<Rightarrow> (bool, vmsys) res" where
  "kstore i b s = wr (vs_kbuf s) i b (\<lambda>bs. Ok True (s\<lparr>vs_kbuf := bs\<rparr>))"

fun copy_bytes :: "(nat \<Rightarrow> vmsys \<Rightarrow> (u8 option, vmsys) res) \<Rightarrow> (nat \<Rightarrow> u8 \<Rightarrow> vmsys \<Rightarrow> (bool, vmsys) res) \<Rightarrow>
    nat \<Rightarrow> nat \<Rightarrow> vmsys \<Rightarrow> (bool, vmsys) res" where
  "copy_bytes ld st i 0 s = Ok True s"
| "copy_bytes ld st i (Suc n) s =
     kbind (ld i s) (\<lambda>b s. case b of
       None \<Rightarrow> Ok False s
     | Some b \<Rightarrow> kbind (st i b s) (\<lambda>ok s. if ok then copy_bytes ld st (Suc i) n s else Ok False s))"

definition copyin :: "u32 \<Rightarrow> u32 \<Rightarrow> vmsys \<Rightarrow> (unit, vmsys) res" where
  "copyin usersrc len s =
     kbind (copycheck usersrc len s) (\<lambda>stoplen s.
       if stoplen \<noteq> len then Err EFAULT s
       else kbind (copy_bytes (uload usersrc) kstore 0 (unat len) (s\<lparr>tm_badfaultfunc := True\<rparr>)) (\<lambda>ok s.
         if ok then Ok () (s\<lparr>tm_badfaultfunc := False\<rparr>) else Err EFAULT (s\<lparr>tm_badfaultfunc := False\<rparr>)))"

definition copyout :: "u32 \<Rightarrow> u32 \<Rightarrow> vmsys \<Rightarrow> (unit, vmsys) res" where
  "copyout userdest len s =
     kbind (copycheck userdest len s) (\<lambda>stoplen s.
       if stoplen \<noteq> len then Err EFAULT s
       else kbind (copy_bytes kload (ustore userdest) 0 (unat len) (s\<lparr>tm_badfaultfunc := True\<rparr>)) (\<lambda>ok s.
         if ok then Ok () (s\<lparr>tm_badfaultfunc := False\<rparr>) else Err EFAULT (s\<lparr>tm_badfaultfunc := False\<rparr>)))"

datatype copyend = Jumped | Found nat | Ranout

fun copystr_loop :: "(nat \<Rightarrow> vmsys \<Rightarrow> (u8 option, vmsys) res) \<Rightarrow> (nat \<Rightarrow> u8 \<Rightarrow> vmsys \<Rightarrow> (bool, vmsys) res) \<Rightarrow>
    nat \<Rightarrow> nat \<Rightarrow> vmsys \<Rightarrow> (copyend, vmsys) res" where
  "copystr_loop ld st i 0 s = Ok Ranout s"
| "copystr_loop ld st i (Suc n) s =
     kbind (ld i s) (\<lambda>b s. case b of
       None \<Rightarrow> Ok Jumped s
     | Some b \<Rightarrow> kbind (st i b s) (\<lambda>ok s.
         if \<not> ok then Ok Jumped s
         else kbind (ld i s) (\<lambda>b s. case b of
           None \<Rightarrow> Ok Jumped s
         | Some b \<Rightarrow> if b = 0 then Ok (Found (i + 1)) s else copystr_loop ld st (Suc i) n s)))"

definition copystr :: "(nat \<Rightarrow> vmsys \<Rightarrow> (u8 option, vmsys) res) \<Rightarrow> (nat \<Rightarrow> u8 \<Rightarrow> vmsys \<Rightarrow> (bool, vmsys) res) \<Rightarrow>
    u32 \<Rightarrow> u32 \<Rightarrow> vmsys \<Rightarrow> (nat, vmsys) res" where
  "copystr ld st maxlen stoplen s =
     kbind (copystr_loop ld st 0 (min (unat maxlen) (unat stoplen)) s) (\<lambda>r s. case r of
       Jumped \<Rightarrow> Err EFAULT s
     | Found got \<Rightarrow> Ok got s
     | Ranout \<Rightarrow> if stoplen < maxlen then Err EFAULT s else Err ENAMETOOLONG s)"

text \<open>\<^verbatim>\<open>tm_badfaultfunc\<close> is reset whatever the outcome.\<close>

fun reset_badfault :: "('a, vmsys) res \<Rightarrow> ('a, vmsys) res" where
  "reset_badfault (Ok x s) = Ok x (s\<lparr>tm_badfaultfunc := False\<rparr>)"
| "reset_badfault (Err e s) = Err e (s\<lparr>tm_badfaultfunc := False\<rparr>)"
| "reset_badfault Panic = Panic"
| "reset_badfault Fault = Fault"
| "reset_badfault Hang = Hang"

definition copyinstr :: "u32 \<Rightarrow> u32 \<Rightarrow> vmsys \<Rightarrow> (nat, vmsys) res" where
  "copyinstr usersrc len s =
     kbind (copycheck usersrc len s) (\<lambda>stoplen s.
       reset_badfault (copystr (uload usersrc) kstore len stoplen (s\<lparr>tm_badfaultfunc := True\<rparr>)))"

definition copyoutstr :: "u32 \<Rightarrow> u32 \<Rightarrow> vmsys \<Rightarrow> (nat, vmsys) res" where
  "copyoutstr userdest len s =
     kbind (copycheck userdest len s) (\<lambda>stoplen s.
       reset_badfault (copystr kload (ustore userdest) len stoplen (s\<lparr>tm_badfaultfunc := True\<rparr>)))"

subsection \<open>The check of the range\<close>

lemma copycheck_cases:
  shows "copycheck u len s =
    (if len = 0 \<and> u \<noteq> 0 \<or> 2 ^ 32 < unat u + unat len \<or> unat u \<ge> 2 ^ 31 then Err EFAULT s
     else if len = 0 then Ok (USERSPACETOP - u) s
     else if unat u + unat len > 2 ^ 31 then Ok (USERSPACETOP - u) s else Ok len s)"
proof -
  have top: "unat USERSPACETOP = 2 ^ 31" by (simp add: USERSPACETOP_def MIPS_KSEG0_def)
  show ?thesis
  proof (cases "len = 0")
    case True
    show ?thesis
    proof (cases "u = 0")
      case z: True
      show ?thesis unfolding True z copycheck_def Let_def by (simp add: u32_order top unsigned_minus_1_eq_mask mask_eq_exp_minus_1)
    next
      case False
      then have "unat (u - 1) < unat u" using unat_diff_small [of 1 u] by (simp add: u32_le_iff unat_gt_0 Suc_le_eq)
      then show ?thesis using True False by (simp add: copycheck_def Let_def u32_less_iff)
    qed
  next
    case False
    then have l: "0 < unat len" by (simp add: unat_gt_0)
    have one: "unat (len - 1) = unat len - 1" using unat_diff_small [of 1 len] l by (simp add: u32_le_iff)
    have e: "u + len - 1 = u + (len - 1)" by simp
    show ?thesis
    proof (cases "2 ^ 32 < unat u + unat len")
      case True
      then have "unat (u + (len - 1)) = unat u + (unat len - 1) - 2 ^ 32"
        using one l unat_u32_less [of u] unat_u32_less [of len] unat_word_ariths(1) [of u "len - 1"] by (simp add: mod_if)
      then have "unat (u + (len - 1)) < unat u" using unat_u32_less [of len] True l by simp
      then show ?thesis using True False unfolding copycheck_def Let_def e by (simp add: u32_less_iff)
    next
      case nw: False
      then have "unat (u + (len - 1)) = unat u + (unat len - 1)" using one l by (subst unat_add_small) simp_all
      then show ?thesis using nw False l unfolding copycheck_def Let_def e by (auto simp: u32_order top)
    qed
  qed
qed

subsection \<open>Transfers byte by byte\<close>

lemma uview_updates [simp]:
  "uview (s\<lparr>vs_tlb := t\<rparr>) a = uview s a" "uview (s\<lparr>vs_kbuf := k\<rparr>) a = uview s a" "uview (s\<lparr>tm_badfaultfunc := f\<rparr>) a = uview s a"
  by (simp_all add: uview_def fun_eq_iff)

lemma running_updates [simp]:
  "running (s\<lparr>vs_kbuf := k\<rparr>) p a = running s p a" "running (s\<lparr>tm_badfaultfunc := f\<rparr>) p a = running s p a"
  by (simp_all add: running_def vm_wf_def tlb_ok_def)

lemma running_cong:
  "vs_mem s = vs_mem t \<Longrightarrow> vs_tlb s = vs_tlb t \<Longrightarrow> vs_as s = vs_as t \<Longrightarrow> vs_proc s = vs_proc t \<Longrightarrow> running s p a = running t p a"
  by (simp add: running_def vm_wf_def tlb_ok_def)

lemma tlb_updates [simp]:
  "tlb_has (s\<lparr>vs_kbuf := k\<rparr>) = tlb_has s" "tlb_has (s\<lparr>tm_badfaultfunc := f\<rparr>) = tlb_has s" "tlb_has (s\<lparr>vs_ram := r\<rparr>) = tlb_has s"
  "tlb_full (s\<lparr>vs_kbuf := k\<rparr>) = tlb_full s" "tlb_full (s\<lparr>tm_badfaultfunc := f\<rparr>) = tlb_full s" "tlb_full (s\<lparr>vs_ram := r\<rparr>) = tlb_full s"
  by (simp_all add: tlb_has_def tlb_full_def fun_eq_iff)

lemma user_address:
  assumes "unat u + n \<le> 2 ^ 31" "i < n"
  shows "unat (u + word_of_nat i) = unat u + i" "u + word_of_nat i < USERSPACETOP"
proof -
  have i: "unat (word_of_nat i :: u32) = i" using assms by (intro unat_of_nat_u32) simp
  then show "unat (u + word_of_nat i) = unat u + i" using assms by (subst unat_add_small) simp_all
  then show "u + word_of_nat i < USERSPACETOP" using assms by (simp add: u32_less_iff USERSPACETOP_def MIPS_KSEG0_def)
qed

lemma range_Suc: "(\<exists>j. i \<le> j \<and> j < i + Suc n \<and> P j) \<longleftrightarrow> P i \<or> (\<exists>j. Suc i \<le> j \<and> j < Suc i + n \<and> P j)"
proof -
  have "(i \<le> j \<and> j < i + Suc n \<and> P j) = (j = i \<and> P j \<or> Suc i \<le> j \<and> j < Suc i + n \<and> P j)" for j by auto
  then have "(\<exists>j. i \<le> j \<and> j < i + Suc n \<and> P j) = (\<exists>j. j = i \<and> P j \<or> Suc i \<le> j \<and> j < Suc i + n \<and> P j)" by simp
  then show ?thesis unfolding ex_disj_distrib by simp
qed

text \<open>What one transferred byte does to the state: the TLB and the buffer, or the TLB and the memory.\<close>

lemma uload_cases:
  assumes R: "running s p a" and tm: "tm_badfaultfunc s" and u: "unat u + n \<le> 2 ^ 31" "i < n"
  obtains (bad) "uload u i s = Ok None s" "uview s a (u + word_of_nat i) = None \<or> tlb_full s" "\<not> tlb_has s (u + word_of_nat i)"
  | (good) tlb b where "uload u i s = Ok (Some b) (s\<lparr>vs_tlb := tlb\<rparr>)" "uview s a (u + word_of_nat i) = Some b"
      "running (s\<lparr>vs_tlb := tlb\<rparr>) p a" "tlb_has (s\<lparr>vs_tlb := tlb\<rparr>) (u + word_of_nat i)" "tlb_grows s (s\<lparr>vs_tlb := tlb\<rparr>)"
proof -
  show thesis
    by (rule user_load_result [OF R user_address(2) [OF u] tm])
      (use bad good in \<open>simp_all add: uload_def uview_def\<close>)
qed

lemma copyin_loop:
  assumes "running s p a" "tm_badfaultfunc s" "unat u + (i + n) \<le> 2 ^ 31" "i + n \<le> length (vs_kbuf s)"
  shows "\<exists>ok tlb k. copy_bytes (uload u) kstore i n s = Ok ok (s\<lparr>vs_tlb := tlb, vs_kbuf := k\<rparr>) \<and>
    running (s\<lparr>vs_tlb := tlb\<rparr>) p a \<and> length k = length (vs_kbuf s) \<and> tlb_grows s (s\<lparr>vs_tlb := tlb\<rparr>) \<and>
    (\<forall>j. j < i \<or> i + n \<le> j \<longrightarrow> k ! j = vs_kbuf s ! j) \<and>
    (if ok then \<forall>j. i \<le> j \<and> j < i + n \<longrightarrow> uview s a (u + word_of_nat j) = Some (k ! j)
     else \<exists>j. i \<le> j \<and> j < i + n \<and> (uview s a (u + word_of_nat j) = None \<or> tlb_full (s\<lparr>vs_tlb := tlb\<rparr>)) \<and> \<not> tlb_has s (u + word_of_nat j))"
  using assms
proof (induction n arbitrary: i s)
  case 0
  then show ?case by (intro exI [of _ True] exI [of _ "vs_tlb s"] exI [of _ "vs_kbuf s"]) auto
next
  case (Suc n)
  have ii: "i < i + Suc n" by simp
  show ?case
  proof (rule uload_cases [OF Suc.prems(1-3) ii])
    assume b: "uload u i s = Ok None s" "uview s a (u + word_of_nat i) = None \<or> tlb_full s" "\<not> tlb_has s (u + word_of_nat i)"
    show ?thesis
      by (intro exI [of _ False] exI [of _ "vs_tlb s"] exI [of _ "vs_kbuf s"]) (use b Suc.prems(1) in auto)
  next
    fix tlb b assume g: "uload u i s = Ok (Some b) (s\<lparr>vs_tlb := tlb\<rparr>)" "uview s a (u + word_of_nat i) = Some b"
      "running (s\<lparr>vs_tlb := tlb\<rparr>) p a" "tlb_grows s (s\<lparr>vs_tlb := tlb\<rparr>)"
    let ?t = "s\<lparr>vs_tlb := tlb, vs_kbuf := (vs_kbuf s)[i := b]\<rparr>"
    have il: "i < length (vs_kbuf s)" using Suc.prems(4) by simp
    have run: "copy_bytes (uload u) kstore i (Suc n) s = copy_bytes (uload u) kstore (Suc i) n ?t"
      using g(1) il by (simp add: kstore_def)
    have t: "running ?t p a" "tm_badfaultfunc ?t" "unat u + (Suc i + n) \<le> 2 ^ 31" "Suc i + n \<le> length (vs_kbuf ?t)"
      using g(3) Suc.prems(2-4) by simp_all
    from Suc.IH [OF t] obtain ok tlb' k where h: "copy_bytes (uload u) kstore (Suc i) n ?t = Ok ok (?t\<lparr>vs_tlb := tlb', vs_kbuf := k\<rparr>)"
      "running (?t\<lparr>vs_tlb := tlb'\<rparr>) p a" "length k = length (vs_kbuf ?t)" "tlb_grows ?t (?t\<lparr>vs_tlb := tlb'\<rparr>)"
      "\<forall>j. j < Suc i \<or> Suc i + n \<le> j \<longrightarrow> k ! j = vs_kbuf ?t ! j"
      "if ok then \<forall>j. Suc i \<le> j \<and> j < Suc i + n \<longrightarrow> uview ?t a (u + word_of_nat j) = Some (k ! j)
       else \<exists>j. Suc i \<le> j \<and> j < Suc i + n \<and> (uview ?t a (u + word_of_nat j) = None \<or> tlb_full (?t\<lparr>vs_tlb := tlb'\<rparr>)) \<and> \<not> tlb_has ?t (u + word_of_nat j)"
      by (elim exE conjE) (rule that)
    have ki: "k ! i = b" using h(5) il by simp
    have st: "?t\<lparr>vs_tlb := tlb', vs_kbuf := k\<rparr> = s\<lparr>vs_tlb := tlb', vs_kbuf := k\<rparr>" by simp
    have gr: "tlb_grows s (s\<lparr>vs_tlb := tlb'\<rparr>)"
      using g(4) h(4) unfolding tlb_grows_def by (simp add: tlb_has_def)
    have kj: "k ! j = vs_kbuf s ! j" if "j < i \<or> i + Suc n \<le> j" for j using h(5) that by auto
    have last: "if ok then \<forall>j. i \<le> j \<and> j < i + Suc n \<longrightarrow> uview s a (u + word_of_nat j) = Some (k ! j)
       else \<exists>j. i \<le> j \<and> j < i + Suc n \<and> (uview s a (u + word_of_nat j) = None \<or> tlb_full (s\<lparr>vs_tlb := tlb'\<rparr>)) \<and> \<not> tlb_has s (u + word_of_nat j)"
    proof (cases ok)
      case True
      have "uview s a (u + word_of_nat j) = Some (k ! j)" if "i \<le> j" "j < i + Suc n" for j
        using h(6) True g(2) ki that by (cases "j = i") auto
      then show ?thesis using True by simp
    next
      case False
      then obtain j where j: "Suc i \<le> j" "j < Suc i + n" "uview s a (u + word_of_nat j) = None \<or> tlb_full (s\<lparr>vs_tlb := tlb'\<rparr>)"
        "\<not> tlb_has (s\<lparr>vs_tlb := tlb\<rparr>) (u + word_of_nat j)" using h(6) by (auto simp: tlb_full_def)
      moreover have "u + word_of_nat j < USERSPACETOP" by (rule user_address(2) [OF Suc.prems(3)]) (use j(2) in simp)
      ultimately have "\<not> tlb_has s (u + word_of_nat j)" using g(4) unfolding tlb_grows_def by blast
      then show ?thesis using False j by (auto intro!: exI [of _ j])
    qed
    have rr: "running (s\<lparr>vs_tlb := tlb'\<rparr>) p a" using h(2) running_cong [of "s\<lparr>vs_tlb := tlb'\<rparr>" "?t\<lparr>vs_tlb := tlb'\<rparr>" p a] by simp
    show ?thesis unfolding run h(1) st using rr h(3) gr kj last by (intro exI [of _ ok] exI [of _ tlb'] exI [of _ k]) simp
  qed
qed

text \<open>The bytes of the buffer arrive at the places the addresses are mapped to, and nowhere else.\<close>

definition at :: "addrspace \<Rightarrow> u32 \<Rightarrow> nat \<Rightarrow> nat \<Rightarrow> u32 set" where
  "at a u i n = {pa. \<exists>j. i \<le> j \<and> j < i + n \<and> as_vtop a (u + word_of_nat j) = Some pa}"

lemma at_Suc: "at a u i (Suc n) = (case as_vtop a (u + word_of_nat i) of None \<Rightarrow> {} | Some pa \<Rightarrow> {pa}) \<union> at a u (Suc i) n"
  unfolding at_def range_Suc by (auto split: option.splits)

lemma ustore_cases:
  assumes R: "running s p a" and tm: "tm_badfaultfunc s" and u: "unat u + n \<le> 2 ^ 31" "i < n"
  obtains (bad) "ustore u i b s = Ok False s" "as_vtop a (u + word_of_nat i) = None \<or> tlb_full s"
  | (good) tlb pa where "ustore u i b s = Ok True (s\<lparr>vs_tlb := tlb, vs_ram := (vs_ram s)(pa := b)\<rparr>)" "as_vtop a (u + word_of_nat i) = Some pa"
      "running (s\<lparr>vs_tlb := tlb, vs_ram := (vs_ram s)(pa := b)\<rparr>) p a" "tlb_has (s\<lparr>vs_tlb := tlb\<rparr>) (u + word_of_nat i)" "tlb_grows s (s\<lparr>vs_tlb := tlb\<rparr>)"
  by (rule user_store_result [OF R user_address(2) [OF u] tm, where b = b]) (simp_all add: ustore_def bad good)

lemma copyout_loop:
  assumes "running s p a" "tm_badfaultfunc s" "unat u + (i + n) \<le> 2 ^ 31" "i + n \<le> length (vs_kbuf s)"
  shows "\<exists>ok tlb r. copy_bytes kload (ustore u) i n s = Ok ok (s\<lparr>vs_tlb := tlb, vs_ram := r\<rparr>) \<and>
    running (s\<lparr>vs_tlb := tlb, vs_ram := r\<rparr>) p a \<and> tlb_grows s (s\<lparr>vs_tlb := tlb\<rparr>) \<and> (\<forall>x. x \<notin> at a u i n \<longrightarrow> r x = vs_ram s x) \<and>
    (if ok then \<forall>j. i \<le> j \<and> j < i + n \<longrightarrow> map_option r (as_vtop a (u + word_of_nat j)) = Some (vs_kbuf s ! j) \<and> tlb_has (s\<lparr>vs_tlb := tlb\<rparr>) (u + word_of_nat j)
     else tlb_full (s\<lparr>vs_tlb := tlb\<rparr>) \<or> (\<exists>j. i \<le> j \<and> j < i + n \<and> as_vtop a (u + word_of_nat j) = None))"
  using assms
proof (induction n arbitrary: i s)
  case 0
  then show ?case by (intro exI [of _ True] exI [of _ "vs_tlb s"] exI [of _ "vs_ram s"]) auto
next
  case (Suc n)
  have ii: "i < i + Suc n" by simp
  have il: "i < length (vs_kbuf s)" using Suc.prems(4) by simp
  let ?b = "vs_kbuf s ! i" and ?x = "\<lambda>j. u + word_of_nat j"
  have ld: "kload i s = Ok (Some ?b) s" using il by (simp add: kload_def)
  show ?case
  proof (rule ustore_cases [OF Suc.prems(1-3) ii, where b = ?b])
    assume b: "ustore u i ?b s = Ok False s" "as_vtop a (?x i) = None \<or> tlb_full s"
    show ?thesis
      by (intro exI [of _ False] exI [of _ "vs_tlb s"] exI [of _ "vs_ram s"]) (use b ld Suc.prems(1) in auto)
  next
    fix tlb pa assume g: "ustore u i ?b s = Ok True (s\<lparr>vs_tlb := tlb, vs_ram := (vs_ram s)(pa := ?b)\<rparr>)" "as_vtop a (?x i) = Some pa"
      "running (s\<lparr>vs_tlb := tlb, vs_ram := (vs_ram s)(pa := ?b)\<rparr>) p a" "tlb_has (s\<lparr>vs_tlb := tlb\<rparr>) (?x i)" "tlb_grows s (s\<lparr>vs_tlb := tlb\<rparr>)"
    let ?t = "s\<lparr>vs_tlb := tlb, vs_ram := (vs_ram s)(pa := ?b)\<rparr>"
    have run: "copy_bytes kload (ustore u) i (Suc n) s = copy_bytes kload (ustore u) (Suc i) n ?t" using g(1) ld by simp
    have t: "tm_badfaultfunc ?t" "unat u + (Suc i + n) \<le> 2 ^ 31" "Suc i + n \<le> length (vs_kbuf ?t)" using Suc.prems(2-4) by simp_all
    from Suc.IH [OF g(3) t] obtain ok tlb' r where h: "copy_bytes kload (ustore u) (Suc i) n ?t = Ok ok (?t\<lparr>vs_tlb := tlb', vs_ram := r\<rparr>)"
      "running (?t\<lparr>vs_tlb := tlb', vs_ram := r\<rparr>) p a" "tlb_grows ?t (?t\<lparr>vs_tlb := tlb'\<rparr>)" "\<forall>x. x \<notin> at a u (Suc i) n \<longrightarrow> r x = vs_ram ?t x"
      "if ok then \<forall>j. Suc i \<le> j \<and> j < Suc i + n \<longrightarrow> map_option r (as_vtop a (?x j)) = Some (vs_kbuf ?t ! j) \<and> tlb_has (?t\<lparr>vs_tlb := tlb'\<rparr>) (?x j)
       else tlb_full (?t\<lparr>vs_tlb := tlb'\<rparr>) \<or> (\<exists>j. Suc i \<le> j \<and> j < Suc i + n \<and> as_vtop a (?x j) = None)" by (elim exE conjE) (rule that)
    have st: "?t\<lparr>vs_tlb := tlb', vs_ram := r\<rparr> = s\<lparr>vs_tlb := tlb', vs_ram := r\<rparr>" by simp
    have tl: "tlb_has (?t\<lparr>vs_tlb := tlb'\<rparr>) = tlb_has (s\<lparr>vs_tlb := tlb'\<rparr>)" "tlb_full (?t\<lparr>vs_tlb := tlb'\<rparr>) = tlb_full (s\<lparr>vs_tlb := tlb'\<rparr>)" "tlb_has ?t = tlb_has (s\<lparr>vs_tlb := tlb\<rparr>)"
      by (simp_all add: tlb_has_def tlb_full_def fun_eq_iff)
    have gr: "tlb_grows s (s\<lparr>vs_tlb := tlb'\<rparr>)" using g(5) h(3) unfolding tlb_grows_def tl by blast
    have hi: "tlb_has (s\<lparr>vs_tlb := tlb'\<rparr>) (?x i)" using g(4) h(3) user_address(2) [OF Suc.prems(3) ii] unfolding tlb_grows_def tl by blast
    have "pa \<notin> at a u (Suc i) n"
    proof
      assume "pa \<in> at a u (Suc i) n"
      then obtain j where j: "Suc i \<le> j" "j < Suc i + n" "as_vtop a (?x j) = Some pa" by (auto simp: at_def)
      have "?x i = ?x j" by (rule vtop_inj [OF runningD(2,5) [OF Suc.prems(1)] g(2) j(3)])
      then show False using user_address(1) [OF Suc.prems(3) ii] user_address(1) [OF Suc.prems(3), of j] j(1,2) by simp
    qed
    then have rp: "r pa = ?b" using h(4) by simp
    have out: "r x = vs_ram s x" if "x \<notin> at a u i (Suc n)" for x using h(4) that g(2) unfolding at_Suc by auto
    have last: "if ok then \<forall>j. i \<le> j \<and> j < i + Suc n \<longrightarrow> map_option r (as_vtop a (?x j)) = Some (vs_kbuf s ! j) \<and> tlb_has (s\<lparr>vs_tlb := tlb'\<rparr>) (?x j)
       else tlb_full (s\<lparr>vs_tlb := tlb'\<rparr>) \<or> (\<exists>j. i \<le> j \<and> j < i + Suc n \<and> as_vtop a (?x j) = None)"
    proof (cases ok)
      case True
      have "map_option r (as_vtop a (?x j)) = Some (vs_kbuf s ! j) \<and> tlb_has (s\<lparr>vs_tlb := tlb'\<rparr>) (?x j)" if "i \<le> j" "j < i + Suc n" for j
      proof (cases "j = i")
        case True
        then show ?thesis using g(2) rp hi by simp
      next
        case False
        then show ?thesis using h(5) \<open>ok\<close> that unfolding tl by simp
      qed
      then show ?thesis using True by simp
    next
      case False
      then have "tlb_full (s\<lparr>vs_tlb := tlb'\<rparr>) \<or> (\<exists>j. Suc i \<le> j \<and> j < Suc i + n \<and> as_vtop a (?x j) = None)" using h(5) unfolding tl by simp
      then show ?thesis using False unfolding range_Suc by (simp, blast)
    qed
    show ?thesis unfolding run h(1) st using h(2) [unfolded st] gr out last by (intro exI [of _ ok] exI [of _ tlb'] exI [of _ r]) simp
  qed
qed

subsection \<open>Block transfers\<close>

definition in_user :: "u32 \<Rightarrow> u32 \<Rightarrow> bool" where
  "in_user u len \<longleftrightarrow> 0 < unat len \<and> unat u + unat len \<le> 2 ^ 31"

lemma copycheck_whole:
  "(in_user u len \<longrightarrow> copycheck u len s = Ok len s) \<and>
   (\<not> in_user u len \<longrightarrow> copycheck u len s = Err EFAULT s \<or> (\<exists>stop. copycheck u len s = Ok stop s \<and> stop \<noteq> len))"
proof -
  have top: "unat USERSPACETOP = 2 ^ 31" by (simp add: USERSPACETOP_def MIPS_KSEG0_def)
  have st: "unat (USERSPACETOP - u) = 2 ^ 31 - unat u" if "\<not> 2 ^ 31 \<le> unat u"
    using unat_diff_small [of u USERSPACETOP] that top by (simp add: u32_le_iff)
  have ne: "USERSPACETOP - u \<noteq> len" if "\<not> 2 ^ 31 \<le> unat u" "unat u + unat len > 2 ^ 31 \<or> len = 0"
    using st [OF that(1)] that by auto
  have l0: "0 < unat len \<longleftrightarrow> len \<noteq> 0" by (simp add: unat_gt_0)
  have pos: "len \<noteq> 0 \<Longrightarrow> 1 \<le> unat len" using l0 by linarith
  show ?thesis
  proof (cases "len \<noteq> 0 \<and> unat u + unat len \<le> 2 ^ 31")
    case True
    then have "\<not> 2 ^ 31 \<le> unat u" "\<not> 2 ^ 32 < unat u + unat len" using pos by auto
    then show ?thesis unfolding copycheck_cases in_user_def l0 using True by simp
  next
    case False
    then show ?thesis unfolding copycheck_cases in_user_def l0 using ne by auto
  qed
qed

lemma copyin_result:
  assumes R: "running s p a" and k: "unat len \<le> length (vs_kbuf s)"
  shows "\<exists>s'. vs_ram s' = vs_ram s \<and> running s' p a \<and> length (vs_kbuf s') = length (vs_kbuf s) \<and> vs_as s' = vs_as s \<and>
    (copyin u len s = Ok () s' \<and> in_user u len \<and> \<not> tm_badfaultfunc s' \<and> (\<forall>j < unat len. uview s a (u + word_of_nat j) = Some (vs_kbuf s' ! j)) \<and>
       (\<forall>j \<ge> unat len. vs_kbuf s' ! j = vs_kbuf s ! j) \<or>
     copyin u len s = Err EFAULT s' \<and>
       (\<not> in_user u len \<and> s' = s \<or> \<not> tm_badfaultfunc s' \<and> (\<exists>j < unat len. (uview s a (u + word_of_nat j) = None \<or> tlb_full s') \<and> \<not> tlb_has s (u + word_of_nat j))))"
proof (cases "in_user u len")
  case False
  then have "copyin u len s = Err EFAULT s" using copycheck_whole [of u len s] by (auto simp: copyin_def)
  then show ?thesis using False R by (intro exI [of _ s]) simp
next
  case True
  let ?s = "s\<lparr>tm_badfaultfunc := True\<rparr>"
  have pre: "running ?s p a" "tm_badfaultfunc ?s" "unat u + (0 + unat len) \<le> 2 ^ 31" "0 + unat len \<le> length (vs_kbuf ?s)"
    using R k True by (simp_all add: in_user_def)
  from copyin_loop [OF pre] obtain ok tlb kb where l: "copy_bytes (uload u) kstore 0 (unat len) ?s = Ok ok (?s\<lparr>vs_tlb := tlb, vs_kbuf := kb\<rparr>)"
    "running (?s\<lparr>vs_tlb := tlb\<rparr>) p a" "length kb = length (vs_kbuf ?s)" "\<forall>j. j < 0 \<or> 0 + unat len \<le> j \<longrightarrow> kb ! j = vs_kbuf ?s ! j"
    "if ok then \<forall>j. 0 \<le> j \<and> j < 0 + unat len \<longrightarrow> uview ?s a (u + word_of_nat j) = Some (kb ! j)
     else \<exists>j. 0 \<le> j \<and> j < 0 + unat len \<and> (uview ?s a (u + word_of_nat j) = None \<or> tlb_full (?s\<lparr>vs_tlb := tlb\<rparr>)) \<and> \<not> tlb_has ?s (u + word_of_nat j)"
    by (elim exE conjE) (rule that)
  let ?t = "?s\<lparr>vs_tlb := tlb, vs_kbuf := kb, tm_badfaultfunc := False\<rparr>"
  have run: "copyin u len s = (if ok then Ok () ?t else Err EFAULT ?t)"
    using copycheck_whole [of u len s] True l(1) by (simp add: copyin_def)
  have rt: "running ?t p a" using l(2) running_updates(1) [where s = "?s\<lparr>vs_tlb := tlb\<rparr>" and k = kb and p = p and a = a]
      running_updates(2) [where s = "?s\<lparr>vs_tlb := tlb, vs_kbuf := kb\<rparr>" and f = False and p = p and a = a] by simp
  have tf: "tlb_full ?t = tlb_full (?s\<lparr>vs_tlb := tlb\<rparr>)" by (simp add: tlb_full_def)
  show ?thesis
  proof (cases ok)
    case ok: True
    then show ?thesis using run rt l(3-5) True by (intro exI [of _ ?t]) simp
  next
    case False
    then obtain j where "j < unat len" "uview s a (u + word_of_nat j) = None \<or> tlb_full ?t" "\<not> tlb_has s (u + word_of_nat j)"
      using l(5) unfolding tf by auto
    then show ?thesis using run rt l(3) False by (intro exI [of _ ?t]) auto
  qed
qed

lemma copyout_result:
  assumes R: "running s p a" and k: "unat len \<le> length (vs_kbuf s)"
  shows "\<exists>s'. vs_kbuf s' = vs_kbuf s \<and> running s' p a \<and> vs_as s' = vs_as s \<and> (\<forall>x. x \<notin> at a u 0 (unat len) \<longrightarrow> vs_ram s' x = vs_ram s x) \<and>
    (copyout u len s = Ok () s' \<and> in_user u len \<and> \<not> tm_badfaultfunc s' \<and>
       (\<forall>j < unat len. uview s' a (u + word_of_nat j) = Some (vs_kbuf s ! j) \<and> tlb_has s' (u + word_of_nat j)) \<or>
     copyout u len s = Err EFAULT s' \<and>
       (\<not> in_user u len \<and> s' = s \<or> \<not> tm_badfaultfunc s' \<and> (tlb_full s' \<or> (\<exists>j < unat len. as_vtop a (u + word_of_nat j) = None))))"
proof (cases "in_user u len")
  case False
  then have "copyout u len s = Err EFAULT s" using copycheck_whole [of u len s] by (auto simp: copyout_def)
  then show ?thesis using False R by (intro exI [of _ s]) simp
next
  case True
  let ?s = "s\<lparr>tm_badfaultfunc := True\<rparr>"
  have pre: "running ?s p a" "tm_badfaultfunc ?s" "unat u + (0 + unat len) \<le> 2 ^ 31" "0 + unat len \<le> length (vs_kbuf ?s)"
    using R k True by (simp_all add: in_user_def)
  from copyout_loop [OF pre] obtain ok tlb r where l: "copy_bytes kload (ustore u) 0 (unat len) ?s = Ok ok (?s\<lparr>vs_tlb := tlb, vs_ram := r\<rparr>)"
    "running (?s\<lparr>vs_tlb := tlb, vs_ram := r\<rparr>) p a" "\<forall>x. x \<notin> at a u 0 (unat len) \<longrightarrow> r x = vs_ram ?s x"
    "if ok then \<forall>j. 0 \<le> j \<and> j < 0 + unat len \<longrightarrow> map_option r (as_vtop a (u + word_of_nat j)) = Some (vs_kbuf ?s ! j) \<and> tlb_has (?s\<lparr>vs_tlb := tlb\<rparr>) (u + word_of_nat j)
     else tlb_full (?s\<lparr>vs_tlb := tlb\<rparr>) \<or> (\<exists>j. 0 \<le> j \<and> j < 0 + unat len \<and> as_vtop a (u + word_of_nat j) = None)"
    by (elim exE conjE) (rule that)
  let ?t = "?s\<lparr>vs_tlb := tlb, vs_ram := r, tm_badfaultfunc := False\<rparr>"
  have run: "copyout u len s = (if ok then Ok () ?t else Err EFAULT ?t)"
    using copycheck_whole [of u len s] True l(1) by (simp add: copyout_def)
  have rt: "running ?t p a" using l(2) running_updates(2) [where s = "?s\<lparr>vs_tlb := tlb, vs_ram := r\<rparr>" and f = False and p = p and a = a] by simp
  have tf: "tlb_full (?s\<lparr>vs_tlb := tlb\<rparr>) = tlb_full ?t" "tlb_has (?s\<lparr>vs_tlb := tlb\<rparr>) = tlb_has ?t" by (simp_all add: tlb_full_def tlb_has_def fun_eq_iff)
  show ?thesis
  proof (cases ok)
    case ok: True
    then show ?thesis using run rt l(3) l(4) [unfolded tf] True by (intro exI [of _ ?t]) (simp add: uview_def)
  next
    case False
    then show ?thesis using run rt l(3) l(4) [unfolded tf] by (intro exI [of _ ?t]) auto
  qed
qed

subsection \<open>Strings from user space\<close>

text \<open>How the loop over the bytes \<open>i\<close> to \<open>i + n\<close> of a string ends.\<close>

fun strend :: "(nat \<Rightarrow> u8 option) \<Rightarrow> u8 list \<Rightarrow> bool \<Rightarrow> nat \<Rightarrow> nat \<Rightarrow> copyend \<Rightarrow> bool" where
  "strend V k full i n (Found g) \<longleftrightarrow> i < g \<and> g \<le> i + n \<and> k ! (g - 1) = 0 \<and> (\<forall>j. i \<le> j \<and> j < g \<longrightarrow> V j = Some (k ! j) \<and> (j < g - 1 \<longrightarrow> k ! j \<noteq> 0))"
| "strend V k full i n Ranout \<longleftrightarrow> (\<forall>j. i \<le> j \<and> j < i + n \<longrightarrow> V j = Some (k ! j) \<and> k ! j \<noteq> 0)"
| "strend V k full i n Jumped \<longleftrightarrow> (\<exists>j. i \<le> j \<and> j < i + n \<and> (V j = None \<or> full) \<and> (\<forall>l. i \<le> l \<and> l < j \<longrightarrow> (\<exists>b. V l = Some b \<and> b \<noteq> 0)))"

lemma strend_Suc:
  assumes "V i = Some (k ! i)" "k ! i \<noteq> 0" "strend V k full (Suc i) n e"
  shows "strend V k full i (Suc n) e"
proof (cases e)
  case Jumped
  then obtain j where j: "Suc i \<le> j" "j < Suc i + n" "V j = None \<or> full" "\<forall>l. Suc i \<le> l \<and> l < j \<longrightarrow> (\<exists>b. V l = Some b \<and> b \<noteq> 0)"
    using assms(3) by auto
  have "\<exists>b. V l = Some b \<and> b \<noteq> 0" if "i \<le> l" "l < j" for l using assms(1,2) j(4) that by (cases "l = i") auto
  then show ?thesis using j(1-3) Jumped by (auto intro!: exI [of _ j])
next
  case (Found g)
  have "V j = Some (k ! j) \<and> (j < g - 1 \<longrightarrow> k ! j \<noteq> 0)" if "i \<le> j" "j < g" for j
    using assms that Found by (cases "j = i") simp_all
  then show ?thesis using assms(3) Found by simp
next
  case Ranout
  have "V j = Some (k ! j) \<and> k ! j \<noteq> 0" if "i \<le> j" "j < i + Suc n" for j
    using assms that Ranout by (cases "j = i") simp_all
  then show ?thesis using Ranout by simp
qed

lemma copyinstr_loop:
  assumes "running s p a" "tm_badfaultfunc s" "unat u + (i + n) \<le> 2 ^ 31" "i + n \<le> length (vs_kbuf s)"
  shows "\<exists>e tlb k. copystr_loop (uload u) kstore i n s = Ok e (s\<lparr>vs_tlb := tlb, vs_kbuf := k\<rparr>) \<and>
    running (s\<lparr>vs_tlb := tlb\<rparr>) p a \<and> length k = length (vs_kbuf s) \<and> (\<forall>j < i. k ! j = vs_kbuf s ! j) \<and>
    strend (\<lambda>j. uview s a (u + word_of_nat j)) k (tlb_full (s\<lparr>vs_tlb := tlb\<rparr>)) i n e"
  using assms
proof (induction n arbitrary: i s)
  case 0
  then show ?case by (intro exI [of _ Ranout] exI [of _ "vs_tlb s"] exI [of _ "vs_kbuf s"]) auto
next
  case (Suc n)
  have ii: "i < i + Suc n" by simp
  have il: "i < length (vs_kbuf s)" using Suc.prems(4) by simp
  show ?case
  proof (rule uload_cases [OF Suc.prems(1-3) ii])
    assume b: "uload u i s = Ok None s" "uview s a (u + word_of_nat i) = None \<or> tlb_full s"
    show ?thesis
      by (intro exI [of _ Jumped] exI [of _ "vs_tlb s"] exI [of _ "vs_kbuf s"]) (use b Suc.prems(1) in auto)
  next
    fix tlb1 b assume g1: "uload u i s = Ok (Some b) (s\<lparr>vs_tlb := tlb1\<rparr>)" "uview s a (u + word_of_nat i) = Some b"
      "running (s\<lparr>vs_tlb := tlb1\<rparr>) p a" "tlb_has (s\<lparr>vs_tlb := tlb1\<rparr>) (u + word_of_nat i)"
    let ?t1 = "s\<lparr>vs_tlb := tlb1, vs_kbuf := (vs_kbuf s)[i := b]\<rparr>"
    have t1: "running ?t1 p a" "tm_badfaultfunc ?t1" using g1(3) Suc.prems(2) by simp_all
    show ?thesis
    proof (rule uload_cases [OF t1 Suc.prems(3) ii])
      assume "\<not> tlb_has ?t1 (u + word_of_nat i)"
      then show ?thesis using g1(4) by simp
    next
      fix tlb b' assume g2: "uload u i ?t1 = Ok (Some b') (?t1\<lparr>vs_tlb := tlb\<rparr>)" "uview ?t1 a (u + word_of_nat i) = Some b'"
        "running (?t1\<lparr>vs_tlb := tlb\<rparr>) p a"
      have bb: "b' = b" using g1(2) g2(2) by simp
      let ?t = "s\<lparr>vs_tlb := tlb, vs_kbuf := (vs_kbuf s)[i := b]\<rparr>"
      have te: "?t1\<lparr>vs_tlb := tlb\<rparr> = ?t" by simp
      have st: "kstore i b (s\<lparr>vs_tlb := tlb1\<rparr>) = Ok True ?t1" using il by (simp add: kstore_def)
      have run: "copystr_loop (uload u) kstore i (Suc n) s = (if b = 0 then Ok (Found (i + 1)) ?t else copystr_loop (uload u) kstore (Suc i) n ?t)"
        unfolding copystr_loop.simps g1(1) kbind.simps option.case st g2(1) te bb simp_thms if_False ..
      have r: "running ?t p a" using g2(3) unfolding te .
      have r': "running (s\<lparr>vs_tlb := tlb\<rparr>) p a" by (rule running_cong [THEN iffD1, OF _ _ _ _ r]) simp_all
      show ?thesis
      proof (cases "b = 0")
        case True
        have "uview s a (u + word_of_nat j) = Some ((vs_kbuf s)[i := b] ! j) \<and> (j < i + 1 - 1 \<longrightarrow> (vs_kbuf s)[i := b] ! j \<noteq> 0)" if "i \<le> j \<and> j < i + 1" for j
        proof -
          have "j = i" using that by simp
          then show ?thesis using g1(2) il by simp
        qed
        then have "strend (\<lambda>j. uview s a (u + word_of_nat j)) ((vs_kbuf s)[i := b]) (tlb_full (s\<lparr>vs_tlb := tlb\<rparr>)) i (Suc n) (Found (i + 1))"
          unfolding strend.simps using True il by (intro conjI allI impI) simp_all
        then show ?thesis unfolding run using True r'
          by (intro exI [of _ "Found (i + 1)"] exI [of _ tlb] exI [of _ "(vs_kbuf s)[i := b]"]) (simp del: strend.simps)
      next
        case False
        have t: "tm_badfaultfunc ?t" "unat u + (Suc i + n) \<le> 2 ^ 31" "Suc i + n \<le> length (vs_kbuf ?t)" using Suc.prems(2-4) by simp_all
        from Suc.IH [OF r t] obtain e tlb' k where h: "copystr_loop (uload u) kstore (Suc i) n ?t = Ok e (?t\<lparr>vs_tlb := tlb', vs_kbuf := k\<rparr>)"
          "running (?t\<lparr>vs_tlb := tlb'\<rparr>) p a" "length k = length (vs_kbuf ?t)" "\<forall>j < Suc i. k ! j = vs_kbuf ?t ! j"
          and e: "strend (\<lambda>j. uview ?t a (u + word_of_nat j)) k (tlb_full (?t\<lparr>vs_tlb := tlb'\<rparr>)) (Suc i) n e"
          by (elim exE conjE) (rule that)
        have ki: "k ! i = b" "uview s a (u + word_of_nat i) = Some (k ! i)" using h(4) il g1(2) by simp_all
        have low: "\<forall>j < i. k ! j = vs_kbuf s ! j" using h(4) by simp
        have rr: "running (s\<lparr>vs_tlb := tlb'\<rparr>) p a" using h(2) running_cong [of "s\<lparr>vs_tlb := tlb'\<rparr>" "?t\<lparr>vs_tlb := tlb'\<rparr>" p a] by simp
        have tf: "tlb_full (?t\<lparr>vs_tlb := tlb'\<rparr>) = tlb_full (s\<lparr>vs_tlb := tlb'\<rparr>)" by (simp add: tlb_full_def)
        have "uview ?t a = uview s a" by simp
        then have e': "strend (\<lambda>j. uview s a (u + word_of_nat j)) k (tlb_full (s\<lparr>vs_tlb := tlb'\<rparr>)) (Suc i) n e" using e unfolding tf by simp
        have "strend (\<lambda>j. uview s a (u + word_of_nat j)) k (tlb_full (s\<lparr>vs_tlb := tlb'\<rparr>)) i (Suc n) e"
          by (rule strend_Suc [OF ki(2) _ e']) (use ki(1) False in simp)
        then show ?thesis unfolding run using False h(1,3) rr low
          by (intro exI [of _ e] exI [of _ tlb'] exI [of _ k]) (simp del: strend.simps)
      qed
    qed
  qed
qed

text \<open>
  What there is to read \<open>j\<close> bytes past \<open>u\<close>, and the three things that can be said of a string of at most
  \<open>len\<close> bytes there: it ends with a zero after \<open>g\<close> bytes, it is longer, or it cannot be read that far.
\<close>

definition ubyte :: "vmsys \<Rightarrow> addrspace \<Rightarrow> u32 \<Rightarrow> nat \<Rightarrow> u8 option" where
  "ubyte s a u j = (if unat u + j < 2 ^ 31 then uview s a (u + word_of_nat j) else None)"

definition nonzero :: "(nat \<Rightarrow> u8 option) \<Rightarrow> nat \<Rightarrow> bool" where
  "nonzero V n \<longleftrightarrow> (\<forall>l < n. \<exists>b. V l = Some b \<and> b \<noteq> 0)"

definition bad_range :: "u32 \<Rightarrow> u32 \<Rightarrow> bool" where
  "bad_range u len \<longleftrightarrow> len = 0 \<and> u \<noteq> 0 \<or> 2 ^ 32 < unat u + unat len \<or> 2 ^ 31 \<le> unat u"

definition str_ends :: "(nat \<Rightarrow> u8 option) \<Rightarrow> u32 \<Rightarrow> u32 \<Rightarrow> nat \<Rightarrow> bool" where
  "str_ends V u len g \<longleftrightarrow> \<not> bad_range u len \<and> 0 < g \<and> g \<le> unat len \<and> nonzero V (g - 1) \<and> V (g - 1) = Some 0"

definition str_long :: "(nat \<Rightarrow> u8 option) \<Rightarrow> u32 \<Rightarrow> u32 \<Rightarrow> bool" where
  "str_long V u len \<longleftrightarrow> \<not> bad_range u len \<and> nonzero V (unat len)"

definition str_bad :: "(nat \<Rightarrow> u8 option) \<Rightarrow> u32 \<Rightarrow> u32 \<Rightarrow> bool" where
  "str_bad V u len \<longleftrightarrow> bad_range u len \<or> (\<exists>j < unat len. nonzero V j \<and> V j = None)"

lemma str_exclusive:
  "str_ends V u len g \<Longrightarrow> str_ends V u len g' \<Longrightarrow> g = g'" "str_ends V u len g \<Longrightarrow> \<not> str_long V u len"
  "str_ends V u len g \<Longrightarrow> \<not> str_bad V u len" "str_long V u len \<Longrightarrow> \<not> str_bad V u len"
proof -
  have z: "\<not> nonzero V n" if "V j = Some 0 \<or> V j = None" "j < n" for j n using that by (auto simp: nonzero_def)
  show "g = g'" if "str_ends V u len g" "str_ends V u len g'"
  proof (rule ccontr)
    assume "g \<noteq> g'"
    then have "g - 1 < g' - 1 \<or> g' - 1 < g - 1" using that unfolding str_ends_def by arith
    then show False using that z [of "g - 1" "g' - 1"] z [of "g' - 1" "g - 1"] unfolding str_ends_def by blast
  qed
  show "\<not> str_long V u len" if "str_ends V u len g"
  proof -
    have "g - 1 < unat len" using that unfolding str_ends_def by linarith
    then show ?thesis using that z [of "g - 1" "unat len"] unfolding str_ends_def str_long_def by blast
  qed
  show "\<not> str_bad V u len" if st: "str_ends V u len g"
  proof
    assume "str_bad V u len"
    then obtain j where j: "nonzero V j" "V j = None" using st unfolding str_ends_def str_bad_def by blast
    then have "j \<noteq> g - 1" using st unfolding str_ends_def by auto
    then have "g - 1 < j \<or> j < g - 1" by arith
    then show False using st j z [of "g - 1" j] z [of j "g - 1"] unfolding str_ends_def by blast
  qed
  show "\<not> str_bad V u len" if "str_long V u len" using that z [of _ "unat len"] unfolding str_long_def str_bad_def by blast
qed

lemma copyinstr_result:
  assumes R: "running s p a" and k: "unat len \<le> length (vs_kbuf s)"
  shows "\<exists>s'. vs_ram s' = vs_ram s \<and> running s' p a \<and> vs_as s' = vs_as s \<and>
    ((\<exists>g. copyinstr u len s = Ok g s' \<and> str_ends (ubyte s a u) u len g \<and> (\<forall>j < g. ubyte s a u j = Some (vs_kbuf s' ! j))) \<or>
     copyinstr u len s = Err ENAMETOOLONG s' \<and> str_long (ubyte s a u) u len \<or>
     copyinstr u len s = Err EFAULT s' \<and> (str_bad (ubyte s a u) u len \<or> tlb_full s' \<and> (\<exists>j < unat len. nonzero (ubyte s a u) j)))"
proof (cases "bad_range u len")
  case True
  then have "copyinstr u len s = Err EFAULT s" unfolding bad_range_def by (simp add: copyinstr_def copycheck_cases)
  then show ?thesis using True R by (intro exI [of _ s]) (simp add: str_bad_def)
next
  case nb: False
  then have False': "\<not> (len = 0 \<and> u \<noteq> 0 \<or> 2 ^ 32 < unat u + unat len \<or> 2 ^ 31 \<le> unat u)" unfolding bad_range_def .
  define stop where "stop = (if len = 0 \<or> 2 ^ 31 < unat u + unat len then USERSPACETOP - u else len)"
  have ck: "copycheck u len s = Ok stop s" using False' by (simp add: copycheck_cases stop_def)
  have us: "unat (USERSPACETOP - u) = 2 ^ 31 - unat u"
    using unat_diff_small [of u USERSPACETOP] False' by (simp add: u32_le_iff USERSPACETOP_def MIPS_KSEG0_def)
  let ?n = "min (unat len) (unat stop)" and ?s = "s\<lparr>tm_badfaultfunc := True\<rparr>" and ?V = "ubyte s a u"
  have n: "unat u + ?n \<le> 2 ^ 31" "?n \<le> unat len" using us False' by (auto simp: stop_def)
  have long: "stop < len \<longleftrightarrow> 2 ^ 31 < unat u + unat len" using us False' by (auto simp: stop_def u32_less_iff)
  have nl: "?n = (if stop < len then 2 ^ 31 - unat u else unat len)" using us False' by (auto simp: stop_def u32_less_iff min_def)
  have V: "uview s a (u + word_of_nat j) = ?V j" if "j < ?n" for j
  proof -
    have "unat u + j < 2 ^ 31" using n(1) that by linarith
    then show ?thesis by (simp add: ubyte_def)
  qed
  have pre: "running ?s p a" "tm_badfaultfunc ?s" "unat u + (0 + ?n) \<le> 2 ^ 31" "0 + ?n \<le> length (vs_kbuf ?s)" using R k n by simp_all
  from copyinstr_loop [OF pre] obtain e tlb kb where l: "copystr_loop (uload u) kstore 0 ?n ?s = Ok e (?s\<lparr>vs_tlb := tlb, vs_kbuf := kb\<rparr>)"
    "running (?s\<lparr>vs_tlb := tlb\<rparr>) p a"
    and e: "strend (\<lambda>j. uview ?s a (u + word_of_nat j)) kb (tlb_full (?s\<lparr>vs_tlb := tlb\<rparr>)) 0 ?n e"
    by (elim exE conjE) (rule that)
  let ?t = "?s\<lparr>vs_tlb := tlb, vs_kbuf := kb, tm_badfaultfunc := False\<rparr>"
  have run: "copyinstr u len s = (case e of Jumped \<Rightarrow> Err EFAULT ?t | Found g \<Rightarrow> Ok g ?t | Ranout \<Rightarrow> if stop < len then Err EFAULT ?t else Err ENAMETOOLONG ?t)"
    unfolding copyinstr_def ck kbind.simps copystr_def l(1) by (cases e) simp_all
  have rt: "running ?t p a" using l(2) running_cong [of ?t "?s\<lparr>vs_tlb := tlb\<rparr>" p a] by simp
  have tf: "tlb_full (?s\<lparr>vs_tlb := tlb\<rparr>) = tlb_full ?t" by (simp add: tlb_full_def)
  have keep: "vs_ram ?t = vs_ram s \<and> running ?t p a \<and> vs_as ?t = vs_as s" "vs_kbuf ?t = kb" using rt by simp_all
  show ?thesis
  proof (cases e)
    case Jumped
    obtain j where jn: "j < 0 + ?n" and j23: "uview s a (u + word_of_nat j) = None \<or> tlb_full ?t" "\<forall>l. 0 \<le> l \<and> l < j \<longrightarrow> (\<exists>b. uview s a (u + word_of_nat l) = Some b \<and> b \<noteq> 0)"
      using e unfolding Jumped tf strend.simps uview_updates by (elim exE conjE) (rule that)
    from jn have jn': "j < ?n" by simp
    note j = jn' j23
    have nz: "nonzero ?V j" unfolding nonzero_def
    proof (intro allI impI)
      fix l assume "l < j"
      then show "\<exists>b. ?V l = Some b \<and> b \<noteq> 0" using j(1,3) V [of l] by (metis le0 less_trans)
    qed
    have jl: "j < unat len" using j(1) by simp
    have "str_bad ?V u len \<or> tlb_full ?t \<and> (\<exists>j < unat len. nonzero ?V j)"
      using j(2) V [OF j(1)] nz jl unfolding str_bad_def by (elim disjE) (metis, blast)
    moreover have "copyinstr u len s = Err EFAULT ?t" using run Jumped by simp
    ultimately show ?thesis using keep(1) by blast
  next
    case (Found g)
    have g: "0 < g" "g \<le> ?n" "kb ! (g - 1) = 0" "\<forall>j. 0 \<le> j \<and> j < g \<longrightarrow> uview s a (u + word_of_nat j) = Some (kb ! j) \<and> (j < g - 1 \<longrightarrow> kb ! j \<noteq> 0)"
      using e unfolding Found strend.simps uview_updates by simp_all
    have v: "?V j = Some (kb ! j)" if "j < g" for j using g(2,4) V [of j] that by simp
    have "nonzero ?V (g - 1)" unfolding nonzero_def
    proof (intro allI impI)
      fix l assume l: "l < g - 1"
      then show "\<exists>b. ?V l = Some b \<and> b \<noteq> 0" using v [of l] g(4) by (intro exI [of _ "kb ! l"]) simp
    qed
    then have "str_ends ?V u len g" using nb g(1-3) v [of "g - 1"] n(2) unfolding str_ends_def by simp
    moreover have "copyinstr u len s = Ok g ?t" using run Found by simp
    moreover have "\<forall>j < g. ?V j = Some (vs_kbuf ?t ! j)" using v by simp
    ultimately show ?thesis using keep(1) by blast
  next
    case Ranout
    have r: "\<forall>j. 0 \<le> j \<and> j < 0 + ?n \<longrightarrow> uview s a (u + word_of_nat j) = Some (kb ! j) \<and> kb ! j \<noteq> 0"
      using e unfolding Ranout strend.simps uview_updates .
    have all: "nonzero ?V ?n" unfolding nonzero_def
    proof (intro allI impI)
      fix l assume l: "l < ?n"
      then show "\<exists>b. ?V l = Some b \<and> b \<noteq> 0" using V [OF l] r by (intro exI [of _ "kb ! l"]) simp
    qed
    show ?thesis
    proof (cases "stop < len")
      case True
      have e: "?n = 2 ^ 31 - unat u" "2 ^ 31 < unat u + unat len" using nl long True by simp_all
      have "unat u < 2 ^ 31" using False' by linarith
      then have "unat u + ?n = 2 ^ 31" "?n < unat len" using e by linarith+
      then have "?V ?n = None" "?n < unat len" by (simp_all only: ubyte_def less_irrefl if_False)
      then have "str_bad ?V u len" using all unfolding str_bad_def by blast
      moreover have "copyinstr u len s = Err EFAULT ?t" using run Ranout True by simp
      ultimately show ?thesis using keep(1) by blast
    next
      case False
      then have "str_long ?V u len" using all nl nb unfolding str_long_def by simp
      moreover have "copyinstr u len s = Err ENAMETOOLONG ?t" using run Ranout False by simp
      ultimately show ?thesis using keep(1) by blast
    qed
  qed
qed

subsection \<open>Properties\<close>

lemma at_phys: "running s p a \<Longrightarrow> x \<in> at a u i n \<Longrightarrow> unat x \<in> as_phys a"
  using vtop_phys by (auto simp: at_def)

lemma uview_other:
  assumes R: "running s p a" and q: "q \<noteq> p" "vs_as s q = Some b" "as_asserts b" and r: "\<forall>x. x \<notin> at a u i n \<longrightarrow> vs_ram t x = vs_ram s x"
  shows "uview t b va = uview s b va"
proof (cases "as_vtop b va")
  case None
  then show ?thesis by (simp add: uview_def)
next
  case (Some pa)
  note D = runningD [OF R]
  obtain y where y: "as_paddr b (va AND PAGE_FRAME) = Some y" "pa = y + (va AND NOT PAGE_FRAME)" using Some by (auto simp: as_vtop_def)
  have "unat pa \<in> as_phys b" unfolding y(2) by (rule as_vtop_unat(3) [OF vm_wfD(4) [OF D(6) q(2)] D(1) q(3) y(1)])
  moreover have "as_phys a \<inter> as_phys b = {}" using vm_wfD(5) [OF D(6) D(4) q(2)] q(1) by blast
  ultimately have "pa \<notin> at a u i n" using at_phys [OF R] by blast
  then show ?thesis using Some r by (simp add: uview_def)
qed

text \<open>
  \<^bold>\<open>C33.\<close> \<^verbatim>\<open>copyout\<close> to any address of any length, page faults included, does not panic, and changes no byte of
  memory but those the addresses of the range are mapped to; the other processes see the same bytes as before. If it succeeds, the process sees the bytes
  of the buffer there, and \<^verbatim>\<open>copyin\<close> from the same address succeeds and brings the same bytes back. If it fails, it is with
  \<^verbatim>\<open>EFAULT\<close>, because the range is empty or not within user space, an address is not mapped, or the TLB is full.
\<close>

theorem copyout_copyin_roundtrip:
  assumes "running s p a" "unat len \<le> length (vs_kbuf s)" "unat len \<le> length d"
  shows "\<exists>s1. running s1 p a \<and> (\<forall>x. (\<forall>j < unat len. as_vtop a (u + word_of_nat j) \<noteq> Some x) \<longrightarrow> vs_ram s1 x = vs_ram s x) \<and>
    (\<forall>x. unat x \<notin> as_phys a \<longrightarrow> vs_ram s1 x = vs_ram s x) \<and>
    (\<forall>q b va. q \<noteq> p \<longrightarrow> vs_as s q = Some b \<longrightarrow> as_asserts b \<longrightarrow> uview s1 b va = uview s b va) \<and>
    (copyout u len s = Err EFAULT s1 \<and> (\<not> in_user u len \<or> tlb_full s1 \<or> (\<exists>j < unat len. as_vtop a (u + word_of_nat j) = None)) \<or>
     copyout u len s = Ok () s1 \<and> in_user u len \<and> (\<forall>j < unat len. uview s1 a (u + word_of_nat j) = Some (vs_kbuf s ! j)) \<and>
       (\<exists>s2. copyin u len (s1\<lparr>vs_kbuf := d\<rparr>) = Ok () s2 \<and> take (unat len) (vs_kbuf s2) = take (unat len) (vs_kbuf s)))"
proof -
  from copyout_result [OF assms(1,2), of u] obtain s1 where s1: "vs_kbuf s1 = vs_kbuf s" "running s1 p a" "vs_as s1 = vs_as s"
    "\<forall>x. x \<notin> at a u 0 (unat len) \<longrightarrow> vs_ram s1 x = vs_ram s x"
    and c: "copyout u len s = Ok () s1 \<and> in_user u len \<and> \<not> tm_badfaultfunc s1 \<and>
       (\<forall>j < unat len. uview s1 a (u + word_of_nat j) = Some (vs_kbuf s ! j) \<and> tlb_has s1 (u + word_of_nat j)) \<or>
     copyout u len s = Err EFAULT s1 \<and>
       (\<not> in_user u len \<and> s1 = s \<or> \<not> tm_badfaultfunc s1 \<and> (tlb_full s1 \<or> (\<exists>j < unat len. as_vtop a (u + word_of_nat j) = None)))"
    by (elim exE conjE) (rule that)
  have frame: "\<forall>x. (\<forall>j < unat len. as_vtop a (u + word_of_nat j) \<noteq> Some x) \<longrightarrow> vs_ram s1 x = vs_ram s x"
    using s1(4) unfolding at_def by auto
  have out: "\<forall>x. unat x \<notin> as_phys a \<longrightarrow> vs_ram s1 x = vs_ram s x" using s1(4) at_phys [OF assms(1)] by blast
  have other: "\<forall>q b va. q \<noteq> p \<longrightarrow> vs_as s q = Some b \<longrightarrow> as_asserts b \<longrightarrow> uview s1 b va = uview s b va"
    using uview_other [OF assms(1) _ _ _ s1(4)] by blast
  have ret: "\<exists>s2. copyin u len (s1\<lparr>vs_kbuf := d\<rparr>) = Ok () s2 \<and> take (unat len) (vs_kbuf s2) = take (unat len) (vs_kbuf s)"
    if w: "in_user u len" "\<forall>j < unat len. uview s1 a (u + word_of_nat j) = Some (vs_kbuf s ! j) \<and> tlb_has s1 (u + word_of_nat j)"
  proof -
    let ?s = "s1\<lparr>vs_kbuf := d\<rparr>"
    have pre: "running ?s p a" "unat len \<le> length (vs_kbuf ?s)" using s1(2) assms(3) by simp_all
    from copyin_result [OF pre, of u] obtain s2 where s2: "length (vs_kbuf s2) = length d"
      and cc: "copyin u len ?s = Ok () s2 \<and> (\<forall>j < unat len. uview ?s a (u + word_of_nat j) = Some (vs_kbuf s2 ! j)) \<or>
        copyin u len ?s = Err EFAULT s2 \<and> (\<not> in_user u len \<or> (\<exists>j < unat len. \<not> tlb_has ?s (u + word_of_nat j)))" by auto
    then have ok: "copyin u len ?s = Ok () s2" "\<forall>j < unat len. Some (vs_kbuf s ! j) = Some (vs_kbuf s2 ! j)" using w by auto
    have "take (unat len) (vs_kbuf s2) = take (unat len) (vs_kbuf s)"
      by (rule nth_equalityI) (use ok(2) assms(2,3) s2 in auto)
    then show ?thesis using ok(1) by blast
  qed
  have fin: "copyout u len s = Err EFAULT s1 \<and> (\<not> in_user u len \<or> tlb_full s1 \<or> (\<exists>j < unat len. as_vtop a (u + word_of_nat j) = None)) \<or>
     copyout u len s = Ok () s1 \<and> in_user u len \<and> (\<forall>j < unat len. uview s1 a (u + word_of_nat j) = Some (vs_kbuf s ! j)) \<and>
       (\<exists>s2. copyin u len (s1\<lparr>vs_kbuf := d\<rparr>) = Ok () s2 \<and> take (unat len) (vs_kbuf s2) = take (unat len) (vs_kbuf s))"
    using c ret by blast
  show ?thesis by (rule exI [of _ s1], intro conjI) (use s1(2) frame out other fin in blast)+
qed

lemma demo_running: "running demo_vm 0x80010000 demo_as"
  using demo_vm_wf demo_asserts by (simp add: running_def)

theorem copyout_copyin_roundtrip_witness:
  "running demo_vm 0x80010000 demo_as \<and> (\<exists>s1. running s1 0x80010000 demo_as \<and> (copyout 0x400ffe 4 demo_vm = Err EFAULT s1 \<or> copyout 0x400ffe 4 demo_vm = Ok () s1))"
  using copyout_copyin_roundtrip [OF demo_running, of 4 "[0, 0, 0, 0]" "0x400ffe"] demo_running by auto

lemma three_outcomes:
  assumes "(\<exists>g. r = Ok g t \<and> E g) \<or> r = Err ENAMETOOLONG t \<and> L \<or> r = Err EFAULT t \<and> B"
    "\<And>g g'. E g \<Longrightarrow> E g' \<Longrightarrow> g = g'" "\<And>g. E g \<Longrightarrow> \<not> L" "\<And>g. E g \<Longrightarrow> \<not> B" "L \<Longrightarrow> \<not> B"
  shows "(\<forall>g. r = Ok g t \<longleftrightarrow> E g) \<and> (r = Err ENAMETOOLONG t \<longleftrightarrow> L) \<and> (r = Err EFAULT t \<longleftrightarrow> B)"
  using assms(1)
proof (elim disjE exE conjE)
  fix g assume g: "r = Ok g t" "E g"
  then have "E g' \<longleftrightarrow> g' = g" for g' using assms(2) by blast
  then show ?thesis using g assms(3,4) by auto
qed (use assms(3-5) in auto)

text \<open>
  \<^bold>\<open>C34.\<close> \<^verbatim>\<open>copyinstr\<close> of a string from any address neither panics nor changes memory. If it succeeds, the buffer
  has the bytes of the process from there up to and including the first zero, and their number is returned;
  \<^verbatim>\<open>ENAMETOOLONG\<close> means that all bytes allowed are mapped and none is zero; \<^verbatim>\<open>EFAULT\<close> means that the range wraps around, is empty or starts outside user
  space, or that the string runs without a zero into an address that is not mapped or into the end of user space, or that the TLB is full.
  Unless the TLB is full, the three outcomes occur exactly in these cases; in particular, what lies beyond the
  terminating zero does not matter.
\<close>

theorem copyinstr_reads:
  assumes "running s p a" "unat len \<le> length (vs_kbuf s)"
  shows "\<exists>s'. vs_ram s' = vs_ram s \<and> running s' p a \<and>
    ((\<exists>g. copyinstr u len s = Ok g s' \<and> str_ends (ubyte s a u) u len g \<and> (\<forall>j < g. ubyte s a u j = Some (vs_kbuf s' ! j))) \<or>
     copyinstr u len s = Err ENAMETOOLONG s' \<and> str_long (ubyte s a u) u len \<or>
     copyinstr u len s = Err EFAULT s' \<and> (str_bad (ubyte s a u) u len \<or> tlb_full s' \<and> (\<exists>j < unat len. nonzero (ubyte s a u) j))) \<and>
    (\<not> tlb_full s' \<longrightarrow>
      (\<forall>g. copyinstr u len s = Ok g s' \<longleftrightarrow> str_ends (ubyte s a u) u len g) \<and>
      (copyinstr u len s = Err ENAMETOOLONG s' \<longleftrightarrow> str_long (ubyte s a u) u len) \<and>
      (copyinstr u len s = Err EFAULT s' \<longleftrightarrow> str_bad (ubyte s a u) u len))"
proof -
  let ?V = "ubyte s a u"
  obtain s' where s': "vs_ram s' = vs_ram s" "running s' p a"
    and c: "(\<exists>g. copyinstr u len s = Ok g s' \<and> str_ends ?V u len g \<and> (\<forall>j < g. ?V j = Some (vs_kbuf s' ! j))) \<or>
     copyinstr u len s = Err ENAMETOOLONG s' \<and> str_long ?V u len \<or>
     copyinstr u len s = Err EFAULT s' \<and> (str_bad ?V u len \<or> tlb_full s' \<and> (\<exists>j < unat len. nonzero ?V j))"
    using copyinstr_result [OF assms, of u] by (elim exE conjE) (rule that)
  have x: "(\<forall>g. copyinstr u len s = Ok g s' \<longleftrightarrow> str_ends ?V u len g) \<and> (copyinstr u len s = Err ENAMETOOLONG s' \<longleftrightarrow> str_long ?V u len) \<and>
      (copyinstr u len s = Err EFAULT s' \<longleftrightarrow> str_bad ?V u len)" if nf: "\<not> tlb_full s'"
    by (rule three_outcomes [OF _ str_exclusive]) (use c nf in blast)
  have "\<not> tlb_full s' \<longrightarrow> (\<forall>g. copyinstr u len s = Ok g s' \<longleftrightarrow> str_ends ?V u len g) \<and> (copyinstr u len s = Err ENAMETOOLONG s' \<longleftrightarrow> str_long ?V u len) \<and>
      (copyinstr u len s = Err EFAULT s' \<longleftrightarrow> str_bad ?V u len)" using x by (rule impI)
  with s' c show ?thesis by (intro exI conjI)
qed

text \<open>The first region of the demonstration process is full of non-zero bytes, so that a string there is too long.\<close>

theorem copyinstr_reads_witness:
  "\<exists>s'. vs_ram s' = vs_ram demo_vm \<and> running s' 0x80010000 demo_as \<and>
     (copyinstr 0x400ffe 4 demo_vm = Err ENAMETOOLONG s' \<or> copyinstr 0x400ffe 4 demo_vm = Err EFAULT s' \<and> tlb_full s')"
proof -
  have v: "ubyte demo_vm demo_as 0x400ffe j = Some 7" if "j < 4" for j
  proof -
    have "j = 0 \<or> j = 1 \<or> j = 2 \<or> j = 3" using that by arith
    then show ?thesis
      by (elim disjE) (simp_all add: ubyte_def uview_def as_vtop_def as_paddr_def demo_as_def demo_vm_def PAGE_FRAME_def PAGE_SIZE_def)
  qed
  have nb: "\<not> bad_range 0x400ffe 4" by (simp add: bad_range_def)
  have long: "str_long (ubyte demo_vm demo_as 0x400ffe) 0x400ffe 4" unfolding str_long_def nonzero_def using v nb by simp
  have len: "unat (4 :: u32) \<le> length (vs_kbuf demo_vm)" by simp
  show ?thesis using copyinstr_reads [OF demo_running len, of "0x400ffe"] str_exclusive(2,4) [of "ubyte demo_vm demo_as 0x400ffe" "0x400ffe" 4] long
    by meson
qed

end
