(* ===== verification/Vfs.thy ===== *)
theory Vfs
  imports Prelude
begin

text \<open>
  The device table of the VFS layer, \<^verbatim>\<open>kern/vfs/vfslist.c\<close>: which names the kernel knows, and what
  is mounted on the device of each. A path such as \<^verbatim>\<open>lhd0:file\<close> begins with a name of this table.

  The table is written against the operation tables of file systems and vnodes
  (\<^verbatim>\<open>struct fs_ops\<close>, \<^verbatim>\<open>struct vnode_ops\<close>): calls such as \<^verbatim>\<open>FSOP_SYNC\<close> go through a pointer
  in the object. The record \<open>vfsops\<close> holds these functions, for file systems of a type \<open>'f\<close>, vnodes
  of a type \<open>'v\<close> and the part of the kernel's state they work on of a type \<open>'w\<close>. Strings are the
  bytes before the terminating NUL. The state holds the depth of the recursive big lock as the
  running thread sees it.

  The theorems: the names of the table stay different and its entries well formed under
  every sequence of calls, and the search through the table is a lookup in a map from names to
  what they stand for; mounting, unmounting and attaching swap change one entry and nothing
  else, with every error path.
\<close>

subsection \<open>The table and the operations it calls\<close>

type_synonym cstr = "byte list"

text \<open>The field \<^verbatim>\<open>kd_fs\<close>: \<^verbatim>\<open>NULL\<close>, \<^verbatim>\<open>SWAP_FS\<close> or a file system. Devices are numbered.\<close>

datatype 'f mounted = NoFs | SwapFs | Fs 'f

record ('v, 'f) knowndev =
  kd_name :: cstr
  kd_rawname :: "cstr option"
  kd_device :: "nat option"
  kd_vnode :: 'v
  kd_fs :: "'f mounted"

record ('v, 'f, 'w) vfsops =
  fsop_sync :: "'f \<Rightarrow> 'w \<Rightarrow> (unit, 'w) res"
  fsop_getvolname :: "'f \<Rightarrow> 'w \<Rightarrow> cstr option"
  fsop_getroot :: "'f \<Rightarrow> 'w \<Rightarrow> ('v, 'w) res"
  fsop_unmount :: "'f \<Rightarrow> 'w \<Rightarrow> (unit, 'w) res"
  vn_fs :: "'v \<Rightarrow> 'f option"
  vop_incref :: "'v \<Rightarrow> 'w \<Rightarrow> (unit, 'w) res"
  vop_decref :: "'v \<Rightarrow> 'w \<Rightarrow> (unit, 'w) res"
  vop_gettype :: "'v \<Rightarrow> 'w \<Rightarrow> (u32, 'w) res"
  vop_eachopen :: "'v \<Rightarrow> u32 \<Rightarrow> 'w \<Rightarrow> (unit, 'w) res"
  vop_truncate :: "'v \<Rightarrow> int \<Rightarrow> 'w \<Rightarrow> (unit, 'w) res"
  vop_creat :: "'v \<Rightarrow> cstr \<Rightarrow> bool \<Rightarrow> u32 \<Rightarrow> 'w \<Rightarrow> ('v, 'w) res"
  vop_remove :: "'v \<Rightarrow> cstr \<Rightarrow> 'w \<Rightarrow> (unit, 'w) res"
  vop_rename :: "'v \<Rightarrow> cstr \<Rightarrow> 'v \<Rightarrow> cstr \<Rightarrow> 'w \<Rightarrow> (unit, 'w) res"
  vop_link :: "'v \<Rightarrow> cstr \<Rightarrow> 'v \<Rightarrow> 'w \<Rightarrow> (unit, 'w) res"
  vop_lookup :: "'v \<Rightarrow> cstr \<Rightarrow> 'w \<Rightarrow> ('v, 'w) res"
  vop_lookparent :: "'v \<Rightarrow> cstr \<Rightarrow> nat \<Rightarrow> 'w \<Rightarrow> ('v \<times> cstr, 'w) res"
  dev_create_vnode :: "nat option \<Rightarrow> 'w \<Rightarrow> ('v, 'w) res"
  dev_uncreate_vnode :: "'v \<Rightarrow> 'w \<Rightarrow> (unit, 'w) res"

text \<open>
  The state: the table (\<^verbatim>\<open>knowndevarray\<close>, an instance of the arrays of \<open>Karray\<close>), the depth of the
  big lock, the start of paths that begin with a slash (\<^verbatim>\<open>bootfs_vnode\<close>), the current directory of the
  current process (\<^verbatim>\<open>p_cwd\<close>), the numbers of the devices, and the state of file systems and vnodes.
\<close>

record ('v, 'f, 'w) vfs =
  knowndevs :: "('v, 'f) knowndev list"
  vfs_biglock_depth :: nat
  bootfs_vnode :: "'v option"
  p_cwd :: "'v option"
  d_devnumber :: "nat \<Rightarrow> nat"
  world :: 'w

text \<open>A call of an operation, which changes only the state behind it.\<close>

fun on_world :: "('w \<Rightarrow> ('a, 'w) res) \<Rightarrow> ('v, 'f, 'w) vfs \<Rightarrow> ('a, ('v, 'f, 'w) vfs) res" where
  "on_world f s =
     (case f (world s) of
        Ok x w \<Rightarrow> Ok x (s\<lparr>world := w\<rparr>)
      | Err e w \<Rightarrow> Err e (s\<lparr>world := w\<rparr>)
      | Panic \<Rightarrow> Panic | Fault \<Rightarrow> Fault | Hang \<Rightarrow> Hang)"

text \<open>The result of a call as a value: \<^verbatim>\<open>result = ...\<close>, followed by a test of \<^verbatim>\<open>result\<close>.\<close>

fun result_of :: "(unit, 's) res \<Rightarrow> (errno option, 's) res" where
  "result_of (Ok x s) = Ok None s"
| "result_of (Err e s) = Ok (Some e) s"
| "result_of Panic = Panic"
| "result_of Fault = Fault"
| "result_of Hang = Hang"

subsection \<open>The big lock\<close>

definition biglock_acquire :: "('v, 'f, 'w) vfs \<Rightarrow> ('v, 'f, 'w) vfs" where
  "biglock_acquire s = s\<lparr>vfs_biglock_depth := Suc (vfs_biglock_depth s)\<rparr>"

definition biglock_do_i_hold :: "('v, 'f, 'w) vfs \<Rightarrow> bool" where
  "biglock_do_i_hold s \<longleftrightarrow> vfs_biglock_depth s > 0"

definition biglock_release :: "('v, 'f, 'w) vfs \<Rightarrow> (unit, ('v, 'f, 'w) vfs) res" where
  "biglock_release s =
     kassert (biglock_do_i_hold s) (Ok () (s\<lparr>vfs_biglock_depth := vfs_biglock_depth s - 1\<rparr>))"

text \<open>A function that holds the lock from its beginning to each of its exits.\<close>

definition locked ::
  "(('v, 'f, 'w) vfs \<Rightarrow> ('a, ('v, 'f, 'w) vfs) res) \<Rightarrow> ('v, 'f, 'w) vfs \<Rightarrow> ('a, ('v, 'f, 'w) vfs) res" where
  "locked f s =
     (case f (biglock_acquire s) of
        Ok x s \<Rightarrow> kbind (biglock_release s) (\<lambda>_ s. Ok x s)
      | Err e s \<Rightarrow> kbind (biglock_release s) (\<lambda>_ s. Err e s)
      | Panic \<Rightarrow> Panic | Fault \<Rightarrow> Fault | Hang \<Rightarrow> Hang)"

subsection \<open>Searching the table\<close>

fun vfs_sync_loop ::
  "('v, 'f, 'w) vfsops \<Rightarrow> ('v, 'f) knowndev list \<Rightarrow> ('v, 'f, 'w) vfs \<Rightarrow> (unit, ('v, 'f, 'w) vfs) res" where
  "vfs_sync_loop ops [] s = Ok () s"
| "vfs_sync_loop ops (dev # devs) s =
     (case kd_fs dev of
        Fs f \<Rightarrow> kbind (result_of (on_world (fsop_sync ops f) s)) (\<lambda>_ s. vfs_sync_loop ops devs s)
      | _ \<Rightarrow> vfs_sync_loop ops devs s)"

definition vfs_sync :: "('v, 'f, 'w) vfsops \<Rightarrow> ('v, 'f, 'w) vfs \<Rightarrow> (unit, ('v, 'f, 'w) vfs) res" where
  "vfs_sync ops s = locked (\<lambda>s. vfs_sync_loop ops (knowndevs s) s) s"

text \<open>Handing back a vnode the layer keeps: the caller gets a reference of its own.\<close>

definition handback :: "('v, 'f, 'w) vfsops \<Rightarrow> 'v \<Rightarrow> ('v, 'f, 'w) vfs \<Rightarrow> ('v, ('v, 'f, 'w) vfs) res" where
  "handback ops v s = kbind (on_world (vop_incref ops v) s) (\<lambda>_ s. Ok v s)"

fun getroot_loop ::
  "('v, 'f, 'w) vfsops \<Rightarrow> cstr \<Rightarrow> ('v, 'f) knowndev list \<Rightarrow> ('v, 'f, 'w) vfs \<Rightarrow> ('v, ('v, 'f, 'w) vfs) res" where
  "getroot_loop ops devname [] s = Err ENODEV s"
| "getroot_loop ops devname (kd # kds) s =
     (let rest =
        (if kd_name kd = devname then
           kassert (kd_fs kd = NoFs) (kassert (kd_rawname kd = None) (kassert (kd_device kd \<noteq> None)
             (handback ops (kd_vnode kd) s)))
         else if kd_rawname kd = Some devname then kassert (kd_device kd \<noteq> None) (handback ops (kd_vnode kd) s)
         else getroot_loop ops devname kds s)
      in case kd_fs kd of
           Fs f \<Rightarrow>
             if kd_name kd = devname \<or> fsop_getvolname ops f (world s) = Some devname
             then on_world (fsop_getroot ops f) s
             else rest
         | _ \<Rightarrow> if kd_rawname kd \<noteq> None \<and> kd_name kd = devname then Err ENXIO s else rest)"

definition vfs_getroot :: "('v, 'f, 'w) vfsops \<Rightarrow> cstr \<Rightarrow> ('v, 'f, 'w) vfs \<Rightarrow> ('v, ('v, 'f, 'w) vfs) res" where
  "vfs_getroot ops devname s = kassert (biglock_do_i_hold s) (getroot_loop ops devname (knowndevs s) s)"

definition vfs_getdevname :: "'f \<Rightarrow> ('v, 'f, 'w) vfs \<Rightarrow> (cstr option, ('v, 'f, 'w) vfs) res" where
  "vfs_getdevname fs s =
     kassert (biglock_do_i_hold s) (Ok (map_option kd_name (find (\<lambda>kd. kd_fs kd = Fs fs) (knowndevs s))) s)"

subsection \<open>Adding devices and file systems\<close>

text \<open>The suffix is the string \<^verbatim>\<open>raw\<close>.\<close>

definition mkrawname :: "bool \<Rightarrow> cstr \<Rightarrow> cstr option" where
  "mkrawname km name = (if \<not> km then None else Some (name @ [114, 97, 119]))"

definition samestring :: "cstr option \<Rightarrow> cstr option \<Rightarrow> bool" where
  "samestring a b = (if a = None \<or> b = None then False else a = b)"

definition samestring3 :: "cstr option \<Rightarrow> cstr option \<Rightarrow> cstr option \<Rightarrow> cstr option \<Rightarrow> bool" where
  "samestring3 a b c d \<longleftrightarrow> samestring a b \<or> samestring a c \<or> samestring a d"

fun badnames_loop ::
  "('v, 'f, 'w) vfsops \<Rightarrow> cstr option \<Rightarrow> cstr option \<Rightarrow> cstr option \<Rightarrow> ('v, 'f) knowndev list \<Rightarrow> 'w \<Rightarrow> bool" where
  "badnames_loop ops n1 n2 n3 [] w = False"
| "badnames_loop ops n1 n2 n3 (kd # kds) w =
     (if (case kd_fs kd of Fs f \<Rightarrow> samestring3 (fsop_getvolname ops f w) n1 n2 n3 | _ \<Rightarrow> False) then True
      else if samestring3 (kd_rawname kd) n1 n2 n3 \<or> samestring3 (Some (kd_name kd)) n1 n2 n3 then True
      else badnames_loop ops n1 n2 n3 kds w)"

definition badnames ::
  "('v, 'f, 'w) vfsops \<Rightarrow> cstr option \<Rightarrow> cstr option \<Rightarrow> cstr option \<Rightarrow> ('v, 'f, 'w) vfs \<Rightarrow> (bool, ('v, 'f, 'w) vfs) res" where
  "badnames ops n1 n2 n3 s =
     kassert (biglock_do_i_hold s) (Ok (badnames_loop ops n1 n2 n3 (knowndevs s) (world s)) s)"

text \<open>
  Whether the five allocations of \<^verbatim>\<open>vfs_doadd\<close> succeed is the parameter \<open>mem\<close>: the name, the raw name,
  the vnode, the entry and the place in the array. Strings and the entry are freed again
  on the way out of a failure; the vnode goes back through \<^verbatim>\<open>dev_uncreate_vnode\<close>.
\<close>

definition doadd_fail ::
  "('v, 'f, 'w) vfsops \<Rightarrow> 'v \<Rightarrow> errno \<Rightarrow> ('v, 'f, 'w) vfs \<Rightarrow> (unit, ('v, 'f, 'w) vfs) res" where
  "doadd_fail ops vnode e s = kbind (on_world (dev_uncreate_vnode ops vnode) s) (\<lambda>_ s. Err e s)"

definition doadd_enter ::
  "('v, 'f, 'w) vfsops \<Rightarrow> (nat \<Rightarrow> bool) \<Rightarrow> ('v, 'f) knowndev \<Rightarrow> ('v, 'f, 'w) vfs \<Rightarrow> (unit, ('v, 'f, 'w) vfs) res" where
  "doadd_enter ops mem kd s =
     (let volname = (case kd_fs kd of Fs f \<Rightarrow> fsop_getvolname ops f (world s) | _ \<Rightarrow> None) in
      kbind (badnames ops (Some (kd_name kd)) (kd_rawname kd) volname s) (\<lambda>bad s.
        if bad then doadd_fail ops (kd_vnode kd) EEXIST s
        else if \<not> mem 4 then doadd_fail ops (kd_vnode kd) ENOMEM s
        else
          let index = length (knowndevs s) in
          Ok () (s\<lparr>knowndevs := knowndevs s @ [kd],
                   d_devnumber := (case kd_device kd of None \<Rightarrow> d_devnumber s
                                   | Some d \<Rightarrow> (d_devnumber s)(d := index + 1))\<rparr>)))"

definition vfs_doadd ::
  "('v, 'f, 'w) vfsops \<Rightarrow> (nat \<Rightarrow> bool) \<Rightarrow> cstr \<Rightarrow> bool \<Rightarrow> nat option \<Rightarrow> 'f option \<Rightarrow>
   ('v, 'f, 'w) vfs \<Rightarrow> (unit, ('v, 'f, 'w) vfs) res" where
  "vfs_doadd ops mem dname mountable dev fs s =
     locked (\<lambda>s.
       if \<not> mem 0 then Err ENOMEM s
       else
         let rawname = (if mountable then mkrawname (mem 1) dname else None) in
         if mountable \<and> rawname = None then Err ENOMEM s
         else if \<not> mem 2 then Err ENOMEM s
         else
           kbind (on_world (dev_create_vnode ops dev) s) (\<lambda>vnode s.
             if \<not> mem 3 then doadd_fail ops vnode ENOMEM s
             else
               doadd_enter ops mem
                 \<lparr>kd_name = dname, kd_rawname = rawname, kd_device = dev, kd_vnode = vnode,
                  kd_fs = (case fs of None \<Rightarrow> NoFs | Some f \<Rightarrow> Fs f)\<rparr> s)) s"

definition vfs_adddev ::
  "('v, 'f, 'w) vfsops \<Rightarrow> (nat \<Rightarrow> bool) \<Rightarrow> cstr \<Rightarrow> nat \<Rightarrow> bool \<Rightarrow> ('v, 'f, 'w) vfs \<Rightarrow> (unit, ('v, 'f, 'w) vfs) res" where
  "vfs_adddev ops mem devname dev mountable s = vfs_doadd ops mem devname mountable (Some dev) None s"

definition vfs_addfs ::
  "('v, 'f, 'w) vfsops \<Rightarrow> (nat \<Rightarrow> bool) \<Rightarrow> cstr \<Rightarrow> 'f \<Rightarrow> ('v, 'f, 'w) vfs \<Rightarrow> (unit, ('v, 'f, 'w) vfs) res" where
  "vfs_addfs ops mem devname fs s = vfs_doadd ops mem devname False None (Some fs) s"

subsection \<open>Mounting and swap\<close>

text \<open>The position of the first mountable device of the name.\<close>

fun findmount_loop :: "cstr \<Rightarrow> ('v, 'f) knowndev list \<Rightarrow> nat \<Rightarrow> nat option" where
  "findmount_loop devname [] i = None"
| "findmount_loop devname (dev # devs) i =
     (if kd_rawname dev = None then findmount_loop devname devs (Suc i)
      else if devname = kd_name dev then Some i
      else findmount_loop devname devs (Suc i))"

definition findmount :: "cstr \<Rightarrow> ('v, 'f, 'w) vfs \<Rightarrow> (nat, ('v, 'f, 'w) vfs) res" where
  "findmount devname s =
     kassert (biglock_do_i_hold s)
       (case findmount_loop devname (knowndevs s) 0 of Some i \<Rightarrow> Ok i s | None \<Rightarrow> Err ENODEV s)"

text \<open>The assignment \<^verbatim>\<open>kd->kd_fs = m\<close> to entry \<open>i\<close>.\<close>

definition set_fs :: "nat \<Rightarrow> 'f mounted \<Rightarrow> ('v, 'f, 'w) vfs \<Rightarrow> ('v, 'f, 'w) vfs" where
  "set_fs i m s = s\<lparr>knowndevs := (knowndevs s)[i := (knowndevs s ! i)\<lparr>kd_fs := m\<rparr>]\<rparr>"

definition vfs_mount ::
  "cstr \<Rightarrow> (nat \<Rightarrow> 'w \<Rightarrow> ('f, 'w) res) \<Rightarrow> ('v, 'f, 'w) vfs \<Rightarrow> (unit, ('v, 'f, 'w) vfs) res" where
  "vfs_mount devname mountfunc s =
     locked (\<lambda>s.
       kbind (findmount devname s) (\<lambda>i s.
         let kd = knowndevs s ! i in
         if kd_fs kd \<noteq> NoFs then Err EBUSY s
         else
           kassert (kd_rawname kd \<noteq> None) (kassert (kd_device kd \<noteq> None)
             (kbind (on_world (mountfunc (the (kd_device kd))) s) (\<lambda>fs s. Ok () (set_fs i (Fs fs) s)))))) s"

text \<open>The name without a trailing colon; \<open>km\<close> is whether the copy could be allocated.\<close>

definition swapname :: "bool \<Rightarrow> cstr \<Rightarrow> cstr option" where
  "swapname km devname =
     (if devname \<noteq> [] \<and> last devname = 58 then (if \<not> km then None else Some (butlast devname)) else Some devname)"

definition vfs_swapon ::
  "('v, 'f, 'w) vfsops \<Rightarrow> bool \<Rightarrow> cstr \<Rightarrow> ('v, 'f, 'w) vfs \<Rightarrow> ('v, ('v, 'f, 'w) vfs) res" where
  "vfs_swapon ops km devname s =
     (case swapname km devname of
        None \<Rightarrow> Err ENOMEM s
      | Some devname \<Rightarrow>
          locked (\<lambda>s.
            kbind (findmount devname s) (\<lambda>i s.
              let kd = knowndevs s ! i in
              if kd_fs kd \<noteq> NoFs then Err EBUSY s
              else
                kassert (kd_rawname kd \<noteq> None) (kassert (kd_device kd \<noteq> None)
                  (handback ops (kd_vnode kd) (set_fs i SwapFs s))))) s)"

definition vfs_unmount :: "('v, 'f, 'w) vfsops \<Rightarrow> cstr \<Rightarrow> ('v, 'f, 'w) vfs \<Rightarrow> (unit, ('v, 'f, 'w) vfs) res" where
  "vfs_unmount ops devname s =
     locked (\<lambda>s.
       kbind (findmount devname s) (\<lambda>i s.
         let kd = knowndevs s ! i in
         case kd_fs kd of
           Fs f \<Rightarrow>
             kassert (kd_rawname kd \<noteq> None) (kassert (kd_device kd \<noteq> None)
               (kbind (on_world (fsop_sync ops f) s) (\<lambda>_ s.
                  kbind (on_world (fsop_unmount ops f) s) (\<lambda>_ s. Ok () (set_fs i NoFs s)))))
         | _ \<Rightarrow> Err EINVAL s)) s"

definition vfs_swapoff :: "cstr \<Rightarrow> ('v, 'f, 'w) vfs \<Rightarrow> (unit, ('v, 'f, 'w) vfs) res" where
  "vfs_swapoff devname s =
     locked (\<lambda>s.
       kbind (findmount devname s) (\<lambda>i s.
         if kd_fs (knowndevs s ! i) \<noteq> SwapFs then Err EINVAL s else Ok () (set_fs i NoFs s))) s"

text \<open>One round of the loop of \<^verbatim>\<open>vfs_unmountall\<close>: a second attempt at the sync, and a failure of either call leaves the file system mounted.\<close>

definition unmount_one :: "('v, 'f, 'w) vfsops \<Rightarrow> nat \<Rightarrow> ('v, 'f, 'w) vfs \<Rightarrow> (unit, ('v, 'f, 'w) vfs) res" where
  "unmount_one ops i s =
     (let dev = knowndevs s ! i in
      if kd_rawname dev = None then Ok () s
      else
        case kd_fs dev of
          NoFs \<Rightarrow> Ok () s
        | SwapFs \<Rightarrow> Ok () (set_fs i NoFs s)
        | Fs f \<Rightarrow>
            kbind (result_of (on_world (fsop_sync ops f) s)) (\<lambda>result s.
              kbind (if result \<noteq> None then result_of (on_world (fsop_sync ops f) s) else Ok None s) (\<lambda>result s.
                if result \<noteq> None then Ok () s
                else
                  kbind (result_of (on_world (fsop_unmount ops f) s)) (\<lambda>result s.
                    if result \<noteq> None then Ok () s else Ok () (set_fs i NoFs s)))))"

fun unmountall_loop :: "('v, 'f, 'w) vfsops \<Rightarrow> nat list \<Rightarrow> ('v, 'f, 'w) vfs \<Rightarrow> (unit, ('v, 'f, 'w) vfs) res" where
  "unmountall_loop ops [] s = Ok () s"
| "unmountall_loop ops (i # is) s = kbind (unmount_one ops i s) (\<lambda>_ s. unmountall_loop ops is s)"

definition vfs_unmountall :: "('v, 'f, 'w) vfsops \<Rightarrow> ('v, 'f, 'w) vfs \<Rightarrow> (unit, ('v, 'f, 'w) vfs) res" where
  "vfs_unmountall ops s = locked (\<lambda>s. unmountall_loop ops [0..<length (knowndevs s)] s) s"


subsection \<open>What the names of the table stand for\<close>

text \<open>
  The abstract view: the table is a map from names to the root of a file system, to a device that
  waits for a file system, or to the vnode of a device. Where two entries share a name the
  earlier one counts.
\<close>

datatype ('v, 'f) target = Root 'f | Unmounted | Dev 'v

definition entry_names :: "('v, 'f, 'w) vfsops \<Rightarrow> 'w \<Rightarrow> ('v, 'f) knowndev \<Rightarrow> (cstr \<times> ('v, 'f) target) list" where
  "entry_names ops w kd =
     (case kd_fs kd of
        Fs f \<Rightarrow> (kd_name kd, Root f) # (case fsop_getvolname ops f w of Some vol \<Rightarrow> [(vol, Root f)] | None \<Rightarrow> [])
      | _ \<Rightarrow> [(kd_name kd, if kd_rawname kd = None then Dev (kd_vnode kd) else Unmounted)]) @
     (case kd_rawname kd of Some raw \<Rightarrow> [(raw, Dev (kd_vnode kd))] | None \<Rightarrow> [])"

definition names :: "('v, 'f, 'w) vfsops \<Rightarrow> 'w \<Rightarrow> ('v, 'f) knowndev list \<Rightarrow> cstr \<rightharpoonup> ('v, 'f) target" where
  "names ops w kds = map_of (concat (map (entry_names ops w) kds))"

text \<open>An entry as \<^verbatim>\<open>vfs_doadd\<close> and the calls that mount make it: the assertions of the code on its fields.\<close>

definition kd_ok :: "('v, 'f) knowndev \<Rightarrow> bool" where
  "kd_ok kd \<longleftrightarrow>
     (case kd_rawname kd of
        Some raw \<Rightarrow> raw = kd_name kd @ [114, 97, 119] \<and> kd_device kd \<noteq> None
      | None \<Rightarrow> kd_fs kd \<noteq> SwapFs \<and> (kd_device kd = None \<longrightarrow> kd_fs kd \<noteq> NoFs))"

definition dev_names :: "('v, 'f) knowndev \<Rightarrow> cstr list" where
  "dev_names kd = kd_name kd # (case kd_rawname kd of Some raw \<Rightarrow> [raw] | None \<Rightarrow> [])"

text \<open>The table: well formed entries, all names of devices different, and device \<open>i\<close> numbered \<open>i + 1\<close>.\<close>

definition table_ok :: "('v, 'f, 'w) vfs \<Rightarrow> bool" where
  "table_ok s \<longleftrightarrow>
     list_all kd_ok (knowndevs s) \<and>
     distinct (concat (map dev_names (knowndevs s))) \<and>
     (\<forall>i d. i < length (knowndevs s) \<and> kd_device (knowndevs s ! i) = Some d \<longrightarrow> d_devnumber s d = i + 1)"

definition resolve ::
  "('v, 'f, 'w) vfsops \<Rightarrow> ('v, 'f) target option \<Rightarrow> ('v, 'f, 'w) vfs \<Rightarrow> ('v, ('v, 'f, 'w) vfs) res" where
  "resolve ops t s =
     (case t of
        None \<Rightarrow> Err ENODEV s
      | Some (Root f) \<Rightarrow> on_world (fsop_getroot ops f) s
      | Some Unmounted \<Rightarrow> Err ENXIO s
      | Some (Dev v) \<Rightarrow> handback ops v s)"

lemma names_Nil [simp]: "names ops w [] = Map.empty"
  by (simp add: names_def)

lemma names_Cons: "names ops w (kd # kds) = names ops w kds ++ map_of (entry_names ops w kd)"
  by (simp add: names_def)

lemma getroot_loop_resolves:
  assumes "list_all kd_ok kds"
  shows "getroot_loop ops devname kds s = resolve ops (names ops (world s) kds devname) s"
  using assms
proof (induction kds)
  case Nil
  then show ?case by (simp add: resolve_def)
next
  case (Cons kd kds)
  have ih: "getroot_loop ops devname kds s = resolve ops (names ops (world s) kds devname) s" and kd: "kd_ok kd"
    using Cons by simp_all
  show ?case
  proof (cases "kd_fs kd")
    case NoFs
    then show ?thesis using kd ih
      by (simp add: names_Cons entry_names_def map_add_def resolve_def kd_ok_def split: option.splits)
  next
    case SwapFs
    then show ?thesis using kd ih
      by (simp add: names_Cons entry_names_def map_add_def resolve_def kd_ok_def split: option.splits)
  next
    case (Fs f)
    then show ?thesis using kd ih
      by (simp add: names_Cons entry_names_def map_add_def resolve_def kd_ok_def split: option.splits)
  qed
qed


text \<open>
  \<^bold>\<open>C11.\<close> \<^verbatim>\<open>vfs_getroot\<close> is a lookup in the map the table stands for. A name or volume name of a
  device with a file system gives the root of the file system, the name of a mountable device without one is
  \<^verbatim>\<open>ENXIO\<close>, the name of any other device and the raw name of a mountable one give the device
  itself with one more reference, and a name that is not in the table is \<^verbatim>\<open>ENODEV\<close>. No
  assertion of the function fails, the rest of the state is untouched.
\<close>

theorem vfs_getroot_resolves:
  assumes "table_ok s" and "biglock_do_i_hold s"
  shows "vfs_getroot ops devname s = resolve ops (names ops (world s) (knowndevs s) devname) s"
  using assms getroot_loop_resolves [of "knowndevs s" ops devname s] by (simp add: vfs_getroot_def table_ok_def)

subsection \<open>Every call keeps the table in order\<close>

text \<open>A property of the state in which a call returns, with a result or with an error.\<close>

fun keeps :: "('s \<Rightarrow> bool) \<Rightarrow> ('a, 's) res \<Rightarrow> bool" where
  "keeps I (Ok x s) = I s"
| "keeps I (Err e s) = I s"
| "keeps I Panic = True"
| "keeps I Fault = True"
| "keeps I Hang = True"

lemma keeps_kassert [simp]: "keeps I r \<Longrightarrow> keeps I (kassert b r)"
  by (simp add: kassert_def)

lemma keeps_kbind: "keeps J r \<Longrightarrow> (\<And>x s. J s \<Longrightarrow> keeps I (f x s)) \<Longrightarrow> (\<And>s. J s \<Longrightarrow> I s) \<Longrightarrow> keeps I (kbind r f)"
  by (cases r) auto

lemma keeps_seq: "keeps I r \<Longrightarrow> (\<And>x s. I s \<Longrightarrow> keeps I (f x s)) \<Longrightarrow> keeps I (kbind r f)"
  by (rule keeps_kbind)

lemma keeps_result_of [simp]: "keeps I (result_of r) = keeps I r"
  by (cases r) auto

lemma keeps_on_world: "(\<And>w. I (s\<lparr>world := w\<rparr>)) \<Longrightarrow> keeps I (on_world f s)"
  by (cases "f (world s)") simp_all

text \<open>The invariant, for a thread that holds the lock to depth \<open>n\<close>, over the table \<open>kds\<close>.\<close>

definition tab_at :: "nat \<Rightarrow> ('v, 'f, 'w) vfs \<Rightarrow> bool" where
  "tab_at n s \<longleftrightarrow> table_ok s \<and> vfs_biglock_depth s = n"

lemma table_ok_fields [simp]:
  "table_ok (s\<lparr>world := w\<rparr>) = table_ok s" "table_ok (s\<lparr>vfs_biglock_depth := n\<rparr>) = table_ok s"
  "table_ok (s\<lparr>p_cwd := c\<rparr>) = table_ok s" "table_ok (s\<lparr>bootfs_vnode := c\<rparr>) = table_ok s"
  by (simp_all add: table_ok_def)

lemma tab_at_world [simp]: "tab_at n (s\<lparr>world := w\<rparr>) = tab_at n s"
  by (simp add: tab_at_def)

lemma locked_keeps:
  assumes "tab_at n s" and "\<And>t. tab_at (Suc n) t \<Longrightarrow> t = biglock_acquire s \<Longrightarrow> keeps (tab_at (Suc n)) (f t)"
  shows "keeps (tab_at n) (locked f s)"
proof -
  have "keeps (tab_at (Suc n)) (f (biglock_acquire s))"
    using assms by (simp add: tab_at_def biglock_acquire_def)
  then show ?thesis
    by (cases "f (biglock_acquire s)") (simp_all add: locked_def biglock_release_def tab_at_def biglock_do_i_hold_def)
qed

lemma findmount_loop_Some:
  "findmount_loop devname kds k = Some i \<Longrightarrow>
     k \<le> i \<and> i - k < length kds \<and> kd_name (kds ! (i - k)) = devname \<and> kd_rawname (kds ! (i - k)) \<noteq> None"
proof (induction kds arbitrary: k)
  case (Cons kd kds)
  show ?case
  proof (cases "kd_rawname kd \<noteq> None \<and> devname = kd_name kd")
    case False
    then have "findmount_loop devname kds (Suc k) = Some i" using Cons.prems by (simp split: if_splits)
    from Cons.IH [OF this] have "Suc k \<le> i" "i - Suc k < length kds" "kd_name (kds ! (i - Suc k)) = devname"
      "kd_rawname (kds ! (i - Suc k)) \<noteq> None" by auto
    moreover from this have "i - k = Suc (i - Suc k)" by simp
    ultimately show ?thesis by (metis Suc_leD Suc_less_eq length_Cons nth_Cons_Suc)
  qed (use Cons.prems in auto)
qed simp

lemma findmount_loop_None:
  "findmount_loop devname kds k = None \<longleftrightarrow> (\<forall>kd \<in> set kds. kd_name kd = devname \<longrightarrow> kd_rawname kd = None)"
  by (induction kds arbitrary: k) auto

lemma findmount_cases:
  assumes "biglock_do_i_hold s"
  obtains (found) i where "findmount devname s = Ok i s" "i < length (knowndevs s)"
      "kd_name (knowndevs s ! i) = devname" "kd_rawname (knowndevs s ! i) \<noteq> None"
  | (absent) "findmount devname s = Err ENODEV s" "\<forall>kd \<in> set (knowndevs s). kd_name kd = devname \<longrightarrow> kd_rawname kd = None"
proof (cases "findmount_loop devname (knowndevs s) 0")
  case None
  then show ?thesis using assms absent findmount_loop_None [of devname "knowndevs s" 0] by (simp add: findmount_def)
next
  case (Some i)
  then show ?thesis using assms found [of i] findmount_loop_Some [OF Some] by (simp add: findmount_def)
qed

lemma dev_names_fs [simp]: "dev_names (kd\<lparr>kd_fs := m\<rparr>) = dev_names kd"
  by (simp add: dev_names_def)

lemma table_set_fs:
  assumes "table_ok s" "i < length (knowndevs s)" "kd_rawname (knowndevs s ! i) \<noteq> None"
  shows "table_ok (set_fs i m s)"
proof -
  let ?k = "knowndevs s"
  have "kd_ok (?k ! i)" using assms by (simp add: table_ok_def list_all_length)
  then have "kd_ok ((?k ! i)\<lparr>kd_fs := m\<rparr>)" using assms(3) by (auto simp: kd_ok_def)
  then have "list_all kd_ok (?k[i := (?k ! i)\<lparr>kd_fs := m\<rparr>])"
    using assms by (auto simp: table_ok_def list_all_length nth_list_update)
  moreover have "map dev_names (?k[i := (?k ! i)\<lparr>kd_fs := m\<rparr>]) = map dev_names ?k"
    using assms(2) by (simp add: map_update list_update_same_conv)
  moreover have "kd_device (?k[i := (?k ! i)\<lparr>kd_fs := m\<rparr>] ! j) = kd_device (?k ! j)" if "j < length ?k" for j
    using that assms(2) by (simp add: nth_list_update)
  ultimately show ?thesis using assms(1) by (simp add: table_ok_def set_fs_def) metis
qed


lemma tab_set_fs:
  "tab_at n s \<Longrightarrow> i < length (knowndevs s) \<Longrightarrow> kd_rawname (knowndevs s ! i) \<noteq> None \<Longrightarrow> tab_at n (set_fs i m s)"
  using table_set_fs [of s i m] by (simp add: tab_at_def) (simp add: set_fs_def)

lemma keeps_handback: "tab_at n s \<Longrightarrow> keeps (tab_at n) (handback ops v s)"
  unfolding handback_def by (rule keeps_seq [OF keeps_on_world]) simp_all

text \<open>An entry that stays mountable while the operations of a file system run.\<close>

definition tab_entry :: "nat \<Rightarrow> nat \<Rightarrow> ('v, 'f, 'w) vfs \<Rightarrow> bool" where
  "tab_entry n i s \<longleftrightarrow> tab_at n s \<and> i < length (knowndevs s) \<and> kd_rawname (knowndevs s ! i) \<noteq> None"

lemma tab_entry_world [simp]: "tab_entry n i (s\<lparr>world := w\<rparr>) = tab_entry n i s"
  by (simp add: tab_entry_def)

lemma tab_entry_at: "tab_entry n i s \<Longrightarrow> tab_at n s"
  by (simp add: tab_entry_def)

lemma tab_entry_set_fs: "tab_entry n i s \<Longrightarrow> tab_at n (set_fs i m s)"
  by (simp add: tab_entry_def tab_set_fs)

text \<open>The calls that first look for a mountable device.\<close>

lemma keeps_findmount:
  assumes "tab_at (Suc n) s"
    and "\<And>i. tab_entry (Suc n) i s \<Longrightarrow> keeps (tab_at (Suc n)) (f i s)"
  shows "keeps (tab_at (Suc n)) (kbind (findmount devname s) f)"
proof -
  have "biglock_do_i_hold s" using assms(1) by (simp add: tab_at_def biglock_do_i_hold_def)
  then show ?thesis using assms by (cases rule: findmount_cases [where devname = devname]) (auto simp: tab_entry_def)
qed

lemma keeps_entry_world:
  "tab_entry n i s \<Longrightarrow> (\<And>x s. tab_entry n i s \<Longrightarrow> keeps (tab_at n) (g x s)) \<Longrightarrow>
     keeps (tab_at n) (kbind (on_world f s) g)"
  by (rule keeps_kbind [where J = "tab_entry n i", OF keeps_on_world]) (simp_all add: tab_entry_at)

lemma keeps_entry_result:
  "tab_entry n i s \<Longrightarrow> (\<And>x s. tab_entry n i s \<Longrightarrow> keeps (tab_at n) (g x s)) \<Longrightarrow>
     keeps (tab_at n) (kbind (result_of (on_world f s)) g)"
  by (rule keeps_kbind [where J = "tab_entry n i"]) (simp_all add: tab_entry_at keeps_on_world del: on_world.simps)

lemma vfs_mount_keeps: "tab_at n s \<Longrightarrow> keeps (tab_at n) (vfs_mount devname mountfunc s)"
  unfolding vfs_mount_def Let_def
  by (auto intro!: locked_keeps keeps_findmount keeps_entry_world tab_entry_set_fs keeps_kassert
      simp: tab_entry_at simp del: on_world.simps)

lemma vfs_unmount_keeps: "tab_at n s \<Longrightarrow> keeps (tab_at n) (vfs_unmount ops devname s)"
  unfolding vfs_unmount_def Let_def
  by (auto intro!: locked_keeps keeps_findmount keeps_entry_world tab_entry_set_fs keeps_kassert
      simp: tab_entry_at simp del: on_world.simps split: mounted.splits)

lemma vfs_swapoff_keeps: "tab_at n s \<Longrightarrow> keeps (tab_at n) (vfs_swapoff devname s)"
  unfolding vfs_swapoff_def by (auto intro!: locked_keeps keeps_findmount tab_entry_set_fs simp: tab_entry_at)

lemma vfs_swapon_keeps: "tab_at n s \<Longrightarrow> keeps (tab_at n) (vfs_swapon ops km devname s)"
  unfolding vfs_swapon_def Let_def
  by (auto intro!: locked_keeps keeps_findmount keeps_handback tab_entry_set_fs keeps_kassert simp: tab_entry_at split: option.splits)


lemma unmount_one_keeps:
  fixes s :: "('v, 'f, 'w) vfs" and ops :: "('v, 'f, 'w) vfsops"
  assumes "tab_at n s" "i < length (knowndevs s)"
  shows "keeps (tab_at n) (unmount_one ops i s)"
proof (cases "kd_rawname (knowndevs s ! i) = None")
  case False
  then have e: "tab_entry n i s" using assms by (simp add: tab_entry_def)
  have un: "keeps (tab_at n) (if r \<noteq> None then Ok () t else kbind (result_of (on_world (fsop_unmount ops f) t)) (\<lambda>result t.
      if result \<noteq> None then Ok () t else Ok () (set_fs i NoFs t)))" if "tab_entry n i t" for f and t :: "('v, 'f, 'w) vfs" and r :: "errno option"
    using keeps_entry_result [OF that, of "\<lambda>result t. if result \<noteq> None then Ok () t else Ok () (set_fs i NoFs t)"] that
    by (simp add: tab_entry_at tab_entry_set_fs del: on_world.simps)
  have sy: "keeps (tab_entry n i) (result_of (on_world (fsop_sync ops f) t))" if "tab_entry n i t" for f and t :: "('v, 'f, 'w) vfs"
    using that by (simp add: keeps_on_world del: on_world.simps)
  show ?thesis
  proof (cases "kd_fs (knowndevs s ! i)")
    case (Fs f)
    have "keeps (tab_at n) (kbind (if r \<noteq> None then result_of (on_world (fsop_sync ops f) t) else Ok None t) (\<lambda>result s.
        if result \<noteq> None then Ok () s else kbind (result_of (on_world (fsop_unmount ops f) s)) (\<lambda>result s.
          if result \<noteq> None then Ok () s else Ok () (set_fs i NoFs s))))" if "tab_entry n i t" for t :: "('v, 'f, 'w) vfs" and r :: "errno option"
      by (rule keeps_kbind [where J = "tab_entry n i", OF _ un])
        (use that sy in \<open>simp_all add: tab_entry_at del: on_world.simps keeps_result_of\<close>)
    then show ?thesis using Fs assms(1) unfolding unmount_one_def Let_def
      by (simp add: keeps_entry_result [OF e] del: on_world.simps)
  qed (use e False in \<open>auto simp: unmount_one_def tab_entry_at tab_entry_set_fs\<close>)
qed (use assms in \<open>simp add: unmount_one_def\<close>)

lemma unmount_one_length: "keeps (\<lambda>t. length (knowndevs t) = length (knowndevs s)) (unmount_one ops i s)"
  unfolding unmount_one_def Let_def
  by (auto simp: set_fs_def split: mounted.split intro!: keeps_seq keeps_on_world simp del: on_world.simps)

lemma keeps_conj: "keeps I r \<Longrightarrow> keeps J r \<Longrightarrow> keeps (\<lambda>s. I s \<and> J s) r"
  by (cases r) simp_all

lemma unmountall_loop_keeps:
  "tab_at n s \<Longrightarrow> \<forall>i \<in> set is. i < length (knowndevs s) \<Longrightarrow> keeps (tab_at n) (unmountall_loop ops is s)"
proof (induction "is" arbitrary: s)
  case (Cons i "is")
  have "keeps (\<lambda>t. tab_at n t \<and> length (knowndevs t) = length (knowndevs s)) (unmount_one ops i s)"
    using unmount_one_keeps [OF Cons.prems(1)] Cons.prems(2) unmount_one_length [of s ops i] by (intro keeps_conj) auto
  then show ?case unfolding unmountall_loop.simps
    by (rule keeps_kbind) (use Cons.IH Cons.prems(2) in auto)
qed simp

lemma vfs_unmountall_keeps: "tab_at n s \<Longrightarrow> keeps (tab_at n) (vfs_unmountall ops s)"
  unfolding vfs_unmountall_def by (auto intro!: locked_keeps unmountall_loop_keeps)

lemma vfs_sync_loop_keeps: "tab_at n s \<Longrightarrow> keeps (tab_at n) (vfs_sync_loop ops kds s)"
  by (induction kds arbitrary: s)
    (auto intro!: keeps_seq keeps_on_world split: mounted.split simp del: on_world.simps)

lemma vfs_sync_keeps: "tab_at n s \<Longrightarrow> keeps (tab_at n) (vfs_sync ops s)"
  unfolding vfs_sync_def by (auto intro!: locked_keeps vfs_sync_loop_keeps)

text \<open>Names that pass \<^verbatim>\<open>badnames\<close> are new.\<close>

lemma badnames_new:
  "\<not> badnames_loop ops n1 n2 n3 kds w \<Longrightarrow> kd \<in> set kds \<Longrightarrow> nm \<in> set (dev_names kd) \<Longrightarrow>
     Some nm \<noteq> n1 \<and> Some nm \<noteq> n2 \<and> Some nm \<noteq> n3"
  by (induction kds) (auto simp: dev_names_def samestring3_def samestring_def split: if_splits option.splits)

text \<open>A driver adds a device of its own, which is not in the table yet.\<close>

definition new_device :: "nat option \<Rightarrow> ('v, 'f, 'w) vfs \<Rightarrow> bool" where
  "new_device dev s \<longleftrightarrow> (\<forall>kd \<in> set (knowndevs s). dev \<noteq> None \<longrightarrow> kd_device kd \<noteq> dev)"

lemma table_add:
  assumes "table_ok s" and "kd_ok kd" and "new_device (kd_device kd) s"
    and "\<not> badnames_loop ops (Some (kd_name kd)) (kd_rawname kd) n3 (knowndevs s) w"
  shows "table_ok (s\<lparr>knowndevs := knowndevs s @ [kd],
    d_devnumber := (case kd_device kd of None \<Rightarrow> d_devnumber s | Some d \<Rightarrow> (d_devnumber s)(d := length (knowndevs s) + 1))\<rparr>)"
proof -
  have "set (dev_names kd) \<inter> set (concat (map dev_names (knowndevs s))) = {}"
    using badnames_new [OF assms(4)] by (fastforce simp: dev_names_def [of kd] split: option.splits)
  moreover have "distinct (dev_names kd)" using assms(2) by (auto simp: dev_names_def kd_ok_def split: option.splits)
  moreover have "kd_device (knowndevs s ! i) \<noteq> Some d" if "i < length (knowndevs s)" "kd_device kd = Some d" for i d
    using assms(3) that by (auto simp: new_device_def)
  ultimately show ?thesis using assms(1,2)
    by (auto simp: table_ok_def nth_append Int_commute less_Suc_eq split: option.splits)
qed


lemma doadd_fail_keeps: "tab_at n s \<Longrightarrow> keeps (tab_at n) (doadd_fail ops v e s)"
  unfolding doadd_fail_def by (rule keeps_seq [OF keeps_on_world]) simp_all

lemma doadd_enter_keeps:
  assumes "tab_at (Suc n) s" "new_device (kd_device kd) s" "kd_ok kd"
  shows "keeps (tab_at (Suc n)) (doadd_enter ops mem kd s)"
  using assms table_add [of s kd ops _ "world s"] doadd_fail_keeps [OF assms(1)]
  by (simp add: doadd_enter_def badnames_def Let_def biglock_do_i_hold_def tab_at_def)

lemma vfs_doadd_keeps:
  assumes s: "tab_at n s" and new: "new_device dev s"
    and ok: "dev \<noteq> None \<and> fs = None \<or> dev = None \<and> fs \<noteq> None \<and> \<not> mountable"
  shows "keeps (tab_at n) (vfs_doadd ops mem dname mountable dev fs s)"
proof -
  let ?raw = "if mountable then mkrawname (mem 1) dname else None"
  let ?kd = "\<lambda>v. \<lparr>kd_name = dname, kd_rawname = ?raw, kd_device = dev, kd_vnode = v,
                  kd_fs = (case fs of None \<Rightarrow> NoFs | Some f \<Rightarrow> Fs f)\<rparr>"
  let ?inv = "\<lambda>u. tab_at (Suc n) u \<and> new_device dev u"
  have kd: "kd_ok (?kd v)" if "\<not> (mountable \<and> ?raw = None)" for v
    using ok that by (auto simp: kd_ok_def mkrawname_def split: option.splits)
  have "keeps (tab_at (Suc n)) (kbind (on_world (dev_create_vnode ops dev) t) (\<lambda>v s.
      if \<not> mem 3 then doadd_fail ops v ENOMEM s else doadd_enter ops mem (?kd v) s))"
    if "?inv t" "\<not> (mountable \<and> ?raw = None)" for t
    by (rule keeps_kbind [where J = ?inv, OF keeps_on_world])
      (use that kd in \<open>auto simp: new_device_def intro!: doadd_fail_keeps doadd_enter_keeps\<close>)
  then show ?thesis unfolding vfs_doadd_def Let_def
    by (intro locked_keeps [OF s]) (use new in \<open>simp add: new_device_def biglock_acquire_def del: on_world.simps\<close>)
qed


text \<open>
  The histories of the table: it begins empty (\<^verbatim>\<open>vfs_bootstrap\<close>, whose further calls add the null
  device and the semaphore file system), the calls of this file come in any order, each with any result of its allocations and of the file systems' operations, and other parts of
  the kernel change the rest of the state in between.
\<close>

definition returns :: "('a, 's) res \<Rightarrow> 's \<Rightarrow> bool" where
  "returns r t \<longleftrightarrow> (\<exists>x. r = Ok x t) \<or> (\<exists>e. r = Err e t)"

definition vfs_bootstrap :: "'w \<Rightarrow> ('v, 'f, 'w) vfs" where
  "vfs_bootstrap w = \<lparr>knowndevs = [], vfs_biglock_depth = 0, bootfs_vnode = None, p_cwd = None,
     d_devnumber = (\<lambda>_. 0), world = w\<rparr>"

inductive vfs_history :: "('v, 'f, 'w) vfsops \<Rightarrow> ('v, 'f, 'w) vfs \<Rightarrow> bool" for ops where
  boot: "vfs_history ops (vfs_bootstrap w)"
| adddev: "vfs_history ops s \<Longrightarrow> new_device (Some dev) s \<Longrightarrow> returns (vfs_adddev ops mem devname dev mountable s) t \<Longrightarrow> vfs_history ops t"
| addfs: "vfs_history ops s \<Longrightarrow> returns (vfs_addfs ops mem devname fs s) t \<Longrightarrow> vfs_history ops t"
| mount: "vfs_history ops s \<Longrightarrow> returns (vfs_mount devname mountfunc s) t \<Longrightarrow> vfs_history ops t"
| unmount: "vfs_history ops s \<Longrightarrow> returns (vfs_unmount ops devname s) t \<Longrightarrow> vfs_history ops t"
| swapon: "vfs_history ops s \<Longrightarrow> returns (vfs_swapon ops km devname s) t \<Longrightarrow> vfs_history ops t"
| swapoff: "vfs_history ops s \<Longrightarrow> returns (vfs_swapoff devname s) t \<Longrightarrow> vfs_history ops t"
| unmountall: "vfs_history ops s \<Longrightarrow> returns (vfs_unmountall ops s) t \<Longrightarrow> vfs_history ops t"
| sync: "vfs_history ops s \<Longrightarrow> returns (vfs_sync ops s) t \<Longrightarrow> vfs_history ops t"
| other: "vfs_history ops s \<Longrightarrow> vfs_history ops (s\<lparr>world := w, p_cwd := c, bootfs_vnode := b\<rparr>)"

lemma keeps_returns: "keeps I r \<Longrightarrow> returns r t \<Longrightarrow> I t"
  by (auto simp: returns_def)

lemma vfs_history_tab: "vfs_history ops s \<Longrightarrow> tab_at 0 s"
proof (induction rule: vfs_history.induct)
  case (boot w)
  show ?case by (simp add: vfs_bootstrap_def tab_at_def table_ok_def)
next
  case (adddev s dev mem devname mountable t)
  show ?case by (rule keeps_returns [OF vfs_doadd_keeps adddev(3) [unfolded vfs_adddev_def]])
      (use adddev in simp_all)
next
  case (addfs s mem devname fs t)
  show ?case by (rule keeps_returns [OF vfs_doadd_keeps addfs(2) [unfolded vfs_addfs_def]])
      (use addfs in \<open>simp_all add: new_device_def\<close>)
next
  case (other s w c b)
  then show ?case by (simp add: tab_at_def)
next
  case mount
  show ?case by (rule keeps_returns [OF vfs_mount_keeps mount(2)]) (rule mount(3))
next
  case unmount
  show ?case by (rule keeps_returns [OF vfs_unmount_keeps unmount(2)]) (rule unmount(3))
next
  case swapon
  show ?case by (rule keeps_returns [OF vfs_swapon_keeps swapon(2)]) (rule swapon(3))
next
  case swapoff
  show ?case by (rule keeps_returns [OF vfs_swapoff_keeps swapoff(2)]) (rule swapoff(3))
next
  case unmountall
  show ?case by (rule keeps_returns [OF vfs_unmountall_keeps unmountall(2)]) (rule unmountall(3))
next
  case sync
  show ?case by (rule keeps_returns [OF vfs_sync_keeps sync(2)]) (rule sync(3))
qed

text \<open>
  \<^bold>\<open>C10.\<close> After any history of calls the device table is in order: all device names and raw names are
  different, a mountable entry has its device and the raw name that belongs to its name, swap is attached only to
  mountable devices, an entry without device is a file system, and the device numbers are those of the
  positions. The big lock is not held between calls.
\<close>

theorem vfs_table_stays_ok: "vfs_history ops s \<Longrightarrow> table_ok s \<and> vfs_biglock_depth s = 0"
  using vfs_history_tab [of ops s] by (simp add: tab_at_def)


subsection \<open>Mounting and unmounting\<close>

lemma locked_Ok: "f (biglock_acquire s) = Ok x t \<Longrightarrow> vfs_biglock_depth t = Suc (vfs_biglock_depth s) \<Longrightarrow>
    locked f s = Ok x (t\<lparr>vfs_biglock_depth := vfs_biglock_depth s\<rparr>)"
  and locked_Err: "f (biglock_acquire s) = Err e t \<Longrightarrow> vfs_biglock_depth t = Suc (vfs_biglock_depth s) \<Longrightarrow>
    locked f s = Err e (t\<lparr>vfs_biglock_depth := vfs_biglock_depth s\<rparr>)"
  by (simp_all add: locked_def biglock_release_def biglock_do_i_hold_def)

lemma acquire_vfs [simp]:
  "knowndevs (biglock_acquire s) = knowndevs s" "world (biglock_acquire s) = world s"
  "vfs_biglock_depth (biglock_acquire s) = Suc (vfs_biglock_depth s)" "biglock_do_i_hold (biglock_acquire s)"
  "table_ok (biglock_acquire s) = table_ok s"
  by (simp_all add: biglock_acquire_def biglock_do_i_hold_def)

lemma set_fs_fields [simp]:
  "length (knowndevs (set_fs i m s)) = length (knowndevs s)" "world (set_fs i m s) = world s"
  "vfs_biglock_depth (set_fs i m s) = vfs_biglock_depth s"
  "i < length (knowndevs s) \<Longrightarrow> knowndevs (set_fs i m s) ! i = (knowndevs s ! i)\<lparr>kd_fs := m\<rparr>"
  by (simp_all add: set_fs_def)

lemma distinct_names: "distinct (concat (map dev_names kds)) \<Longrightarrow> distinct (map kd_name kds)"
  by (induction kds) (auto simp: dev_names_def)

lemma findmount_entry:
  assumes "table_ok s" "biglock_do_i_hold s" "i < length (knowndevs s)" "kd_rawname (knowndevs s ! i) \<noteq> None"
  shows "findmount (kd_name (knowndevs s ! i)) s = Ok i s"
  using assms(2)
proof (cases rule: findmount_cases [where devname = "kd_name (knowndevs s ! i)"])
  case (found j)
  have "distinct (map kd_name (knowndevs s))" using assms(1) by (simp add: table_ok_def distinct_names)
  then have "j = i" using found(2,3) assms(3) by (metis distinct_conv_nth length_map nth_map)
  then show ?thesis using found(1) by simp
next
  case absent
  then show ?thesis using assms(3,4) by auto
qed

text \<open>No file system of the entries \<open>kds\<close> calls its volume by the name of the device.\<close>

definition no_volume :: "('v, 'f, 'w) vfsops \<Rightarrow> 'w \<Rightarrow> cstr \<Rightarrow> ('v, 'f) knowndev list \<Rightarrow> bool" where
  "no_volume ops w devname kds \<longleftrightarrow>
     list_all (\<lambda>kd. case kd_fs kd of Fs f \<Rightarrow> fsop_getvolname ops f w \<noteq> Some devname | _ \<Rightarrow> True) kds"

lemma names_entry:
  assumes "distinct (concat (map dev_names kds))" "no_volume ops w (kd_name (kds ! i)) (take i kds)" "i < length kds"
  shows "names ops w kds (kd_name (kds ! i)) =
    Some (case kd_fs (kds ! i) of Fs f \<Rightarrow> Root f | _ \<Rightarrow> if kd_rawname (kds ! i) = None then Dev (kd_vnode (kds ! i)) else Unmounted)"
  using assms
proof (induction kds arbitrary: i)
  case (Cons kd kds)
  show ?case
  proof (cases i)
    case 0
    then show ?thesis by (simp add: names_Cons entry_names_def split: mounted.split)
  next
    case (Suc j)
    have "kd_name (kds ! j) \<in> set (concat (map dev_names kds))"
      using Cons.prems(3) Suc by (auto simp: dev_names_def intro!: bexI [of _ "kds ! j"])
    then have "kd_name (kds ! j) \<notin> set (dev_names kd)" using Cons.prems(1) by auto
    then have "map_of (entry_names ops w kd) (kd_name (kds ! j)) = None"
      using Cons.prems(2) Suc
      by (auto simp: entry_names_def dev_names_def no_volume_def split: mounted.split option.split)
    moreover have "(kd # kds) ! i = kds ! j" using Suc by simp
    moreover have "no_volume ops w (kd_name (kds ! j)) (take j kds)" using Cons.prems(2) Suc by (simp add: no_volume_def)
    ultimately show ?thesis using Cons.IH [of j] Cons.prems Suc by (simp only: names_Cons map_add_def) simp
  qed
qed simp


lemma set_fs_commute:
  "(set_fs i m s)\<lparr>world := w\<rparr> = set_fs i m (s\<lparr>world := w\<rparr>)"
  "(set_fs i m s)\<lparr>vfs_biglock_depth := n\<rparr> = set_fs i m (s\<lparr>vfs_biglock_depth := n\<rparr>)"
  "biglock_acquire (set_fs i m s) = set_fs i m (biglock_acquire s)"
  by (simp_all add: set_fs_def biglock_acquire_def)

lemma set_fs_back:
  "i < length (knowndevs s) \<Longrightarrow> kd_fs (knowndevs s ! i) = m \<Longrightarrow> set_fs i m (set_fs i m' s) = s"
  by (cases s) (auto simp: set_fs_def list_update_same_conv)

text \<open>
  What \<^verbatim>\<open>vfs_unmount\<close> does with the file system \<open>f\<close>: first sync, then unmount, and only after both the
  entry is cleared; \<open>s1\<close> is the state with, \<open>s\<close> the state without the file system.
\<close>

definition unmount_outcome ::
  "('v, 'f, 'w) vfsops \<Rightarrow> 'f \<Rightarrow> ('v, 'f, 'w) vfs \<Rightarrow> ('v, 'f, 'w) vfs \<Rightarrow> (unit, ('v, 'f, 'w) vfs) res" where
  "unmount_outcome ops f s1 s =
     (case fsop_sync ops f (world s1) of
        Ok _ w \<Rightarrow>
          (case fsop_unmount ops f w of
             Ok _ w \<Rightarrow> Ok () (s\<lparr>world := w\<rparr>)
           | Err e w \<Rightarrow> Err e (s1\<lparr>world := w\<rparr>)
           | Panic \<Rightarrow> Panic | Fault \<Rightarrow> Fault | Hang \<Rightarrow> Hang)
      | Err e w \<Rightarrow> Err e (s1\<lparr>world := w\<rparr>)
      | Panic \<Rightarrow> Panic | Fault \<Rightarrow> Fault | Hang \<Rightarrow> Hang)"

text \<open>A mountable device that has no file system.\<close>

definition mountable_at :: "('v, 'f, 'w) vfs \<Rightarrow> nat \<Rightarrow> bool" where
  "mountable_at s i \<longleftrightarrow> table_ok s \<and> i < length (knowndevs s) \<and> kd_rawname (knowndevs s ! i) \<noteq> None \<and> kd_fs (knowndevs s ! i) = NoFs"

lemma mountable_device: "mountable_at s i \<Longrightarrow> kd_device (knowndevs s ! i) \<noteq> None"
  by (auto simp: mountable_at_def table_ok_def list_all_length kd_ok_def split: option.splits)

lemma findmount_mounted:
  assumes "mountable_at s i"
  shows "findmount (kd_name (knowndevs s ! i)) (biglock_acquire s) = Ok i (biglock_acquire s)"
    and "findmount (kd_name (knowndevs s ! i)) (set_fs i m (biglock_acquire s)) = Ok i (set_fs i m (biglock_acquire s))"
  using assms findmount_entry [of "biglock_acquire s" i] findmount_entry [of "set_fs i m (biglock_acquire s)" i]
    table_set_fs [of "biglock_acquire s" i m]
  by (simp_all add: mountable_at_def biglock_do_i_hold_def)

lemma vfs_mount_entry:
  assumes "mountable_at s i" and "mountfunc (the (kd_device (knowndevs s ! i))) (world s) = Ok f w"
  shows "vfs_mount (kd_name (knowndevs s ! i)) mountfunc s = Ok () (set_fs i (Fs f) (s\<lparr>world := w\<rparr>))"
  using assms mountable_device [OF assms(1)] findmount_mounted(1) [OF assms(1)]
  by (simp add: vfs_mount_def mountable_at_def locked_Ok [where t = "set_fs i (Fs f) (biglock_acquire s\<lparr>world := w\<rparr>)"]
      set_fs_commute) (simp add: biglock_acquire_def)

lemma vfs_mount_busy:
  assumes "mountable_at s i"
  shows "vfs_mount (kd_name (knowndevs s ! i)) mountfunc (set_fs i (Fs f) s) = Err EBUSY (set_fs i (Fs f) s)"
  using assms findmount_mounted(2) [OF assms, of "Fs f"]
  by (simp add: vfs_mount_def mountable_at_def set_fs_commute(3)
      locked_Err [where t = "set_fs i (Fs f) (biglock_acquire s)"]) (simp add: set_fs_commute(2) biglock_acquire_def)

lemma vfs_unmount_entry:
  assumes "mountable_at s i"
  shows "vfs_unmount ops (kd_name (knowndevs s ! i)) (set_fs i (Fs f) s) = unmount_outcome ops f (set_fs i (Fs f) s) s"
proof -
  let ?t = "set_fs i (Fs f) (biglock_acquire s)"
  have fm: "findmount (kd_name (knowndevs s ! i)) ?t = Ok i ?t" by (rule findmount_mounted(2) [OF assms])
  have undo: "set_fs i NoFs (set_fs i (Fs f) t) = t" if "knowndevs t = knowndevs s" for t :: "('a, 'b, 'c) vfs"
    using assms that by (intro set_fs_back) (simp_all add: mountable_at_def)
  have i: "i < length (knowndevs (biglock_acquire s))" "\<exists>y. kd_rawname (knowndevs s ! i) = Some y" "\<exists>y. kd_device (knowndevs s ! i) = Some y"
    using assms mountable_device [OF assms] by (auto simp: mountable_at_def)
  show ?thesis
    using fm i unfolding vfs_unmount_def locked_def unmount_outcome_def set_fs_commute(3)
    by (auto simp: set_fs_commute(1) undo biglock_release_def biglock_do_i_hold_def Let_def set_fs_commute(2)
        biglock_acquire_def split: res.split)
qed


lemma getroot_entry:
  assumes "table_ok s" "i < length (knowndevs s)" "no_volume ops (world s) (kd_name (knowndevs s ! i)) (take i (knowndevs s))"
  shows "vfs_getroot ops (kd_name (knowndevs s ! i)) (biglock_acquire s) =
    resolve ops (Some (case kd_fs (knowndevs s ! i) of Fs f \<Rightarrow> Root f
      | _ \<Rightarrow> if kd_rawname (knowndevs s ! i) = None then Dev (kd_vnode (knowndevs s ! i)) else Unmounted)) (biglock_acquire s)"
proof -
  have "distinct (concat (map dev_names (knowndevs s)))" "list_all kd_ok (knowndevs s)"
    using assms(1) by (simp_all add: table_ok_def)
  then show ?thesis
    using names_entry [of "knowndevs s" ops "world s" i] assms(2,3) getroot_loop_resolves [of "knowndevs s" ops _ "biglock_acquire s"]
    by (simp add: vfs_getroot_def)
qed

text \<open>
  \<^bold>\<open>C12.\<close> The life of a mountable device. Before the mount its name is \<^verbatim>\<open>ENXIO\<close>. \<^verbatim>\<open>vfs_mount\<close> calls the
  mount function on the device and enters the file system; when it fails, as \<open>badmount\<close> does, the table stays as it is. Then
  the name gives the root of the file system, a second mount is \<^verbatim>\<open>EBUSY\<close>, and
  \<^verbatim>\<open>vfs_unmount\<close> syncs the file system before it unmounts it: after both the table is as before
  the mount, and when either fails its error is returned and the file system stays in the
  table. \<open>w'\<close> is what the file systems have become in between. That no earlier volume carries the name of the device is a
  hypothesis, because \<^verbatim>\<open>vfs_mount\<close> does not compare the name of the new volume with the names of the table.
\<close>

theorem vfs_mount_cycle:
  assumes s: "mountable_at s i" and n: "n = kd_name (knowndevs s ! i)" and d: "d = the (kd_device (knowndevs s ! i))"
    and m: "mountfunc d (world s) = Ok f w" "badmount d (world s) = Err e w2"
    and v: "no_volume ops (world s) n (take i (knowndevs s))" "no_volume ops w' n (take i (knowndevs s))"
    and s1: "s1 = set_fs i (Fs f) (s\<lparr>world := w'\<rparr>)"
  shows "vfs_getroot ops n (biglock_acquire s) = Err ENXIO (biglock_acquire s) \<and>
    vfs_mount n badmount s = Err e (s\<lparr>world := w2\<rparr>) \<and>
    vfs_mount n mountfunc s = Ok () (set_fs i (Fs f) (s\<lparr>world := w\<rparr>)) \<and>
    vfs_getroot ops n (biglock_acquire s1) = on_world (fsop_getroot ops f) (biglock_acquire s1) \<and>
    vfs_mount n mountfunc s1 = Err EBUSY s1 \<and>
    vfs_unmount ops n s1 = unmount_outcome ops f s1 s"
proof -
  have i: "i < length (knowndevs s)" "kd_rawname (knowndevs s ! i) \<noteq> None" "kd_fs (knowndevs s ! i) = NoFs" "table_ok s"
    using s by (simp_all add: mountable_at_def)
  have s': "mountable_at (s\<lparr>world := w'\<rparr>) i" using s by (simp add: mountable_at_def)
  have k: "kd_name (knowndevs s1 ! i) = n" "kd_fs (knowndevs s1 ! i) = Fs f" "take i (knowndevs s1) = take i (knowndevs s)"
    "i < length (knowndevs s1)" "world s1 = w'"
    using i n s1 by (simp_all add: set_fs_def)
  have t1: "table_ok s1" using table_set_fs [of "s\<lparr>world := w'\<rparr>" i "Fs f"] i s1 by simp
  have "vfs_mount n badmount s = Err e (s\<lparr>world := w2\<rparr>)"
    using i n d m(2) findmount_mounted(1) [OF s] mountable_device [OF s]
    by (simp add: vfs_mount_def locked_def biglock_release_def biglock_do_i_hold_def) (simp add: biglock_acquire_def)
  moreover have "unmount_outcome ops f s1 (s\<lparr>world := w'\<rparr>) = unmount_outcome ops f s1 s"
    by (simp add: unmount_outcome_def split: res.split)
  ultimately show ?thesis
    using getroot_entry [OF i(4,1)] getroot_entry [OF t1 k(4), of ops] vfs_mount_entry [OF s, of mountfunc f w] vfs_mount_busy [OF s', of mountfunc f]
      vfs_unmount_entry [OF s', of ops f] i(2,3) k m d n s1 v by (simp add: resolve_def)
qed

end
