(* ===== verification/VfsPath.thy ===== *)
theory VfsPath
  imports Vfs SfsVnops
begin

text \<open>
  Path names: \<^verbatim>\<open>kern/vfs/vfslookup.c\<close> (from a path to a vnode), \<^verbatim>\<open>kern/vfs/vfscwd.c\<close> (the current
  directory) and the calls on files of \<^verbatim>\<open>kern/vfs/vfspath.c\<close>. A path is \<^verbatim>\<open>device:path\<close>,
  \<^verbatim>\<open>/path\<close> from the boot file system, \<^verbatim>\<open>:path\<close> from the root of the current file system, or relative
  to the current directory.

  The interface to vnodes is the locale \<open>vnode_provider\<close>: which vnodes have how many references, and
  what each operation does to the counts. Inside it the calls of the three files are shown to
  keep the count of every vnode equal to the number of its owners: the entries of the device table, the boot
  file system, the current directory and the callers that hold the vnode open.
\<close>

subsection \<open>The current directory\<close>

text \<open>The lock of the process structure is held over the read and the write of \<^verbatim>\<open>p_cwd\<close> only.\<close>

definition vfs_getcurdir :: "('v, 'f, 'w) vfsops \<Rightarrow> ('v, 'f, 'w) vfs \<Rightarrow> ('v, ('v, 'f, 'w) vfs) res" where
  "vfs_getcurdir ops s = (case p_cwd s of Some v \<Rightarrow> handback ops v s | None \<Rightarrow> Err ENOENT s)"

definition drop_old :: "('v, 'f, 'w) vfsops \<Rightarrow> 'v option \<Rightarrow> ('v, 'f, 'w) vfs \<Rightarrow> (unit, ('v, 'f, 'w) vfs) res" where
  "drop_old ops old s = (case old of Some v \<Rightarrow> on_world (vop_decref ops v) s | None \<Rightarrow> Ok () s)"

definition vfs_setcurdir :: "('v, 'f, 'w) vfsops \<Rightarrow> 'v \<Rightarrow> ('v, 'f, 'w) vfs \<Rightarrow> (unit, ('v, 'f, 'w) vfs) res" where
  "vfs_setcurdir ops dir s =
     kbind (on_world (vop_gettype ops dir) s) (\<lambda>vtype s.
       if vtype \<noteq> S_IFDIR then Err ENOTDIR s
       else
         kbind (on_world (vop_incref ops dir) s) (\<lambda>_ s.
           let old = p_cwd s in drop_old ops old (s\<lparr>p_cwd := Some dir\<rparr>)))"

definition vfs_clearcurdir :: "('v, 'f, 'w) vfsops \<Rightarrow> ('v, 'f, 'w) vfs \<Rightarrow> (unit, ('v, 'f, 'w) vfs) res" where
  "vfs_clearcurdir ops s = (let old = p_cwd s in drop_old ops old (s\<lparr>p_cwd := None\<rparr>))"

text \<open>A call followed, whatever its result, by \<^verbatim>\<open>VOP_DECREF\<close>; the result is then returned.\<close>

definition then_decref ::
  "('a, ('v, 'f, 'w) vfs) res \<Rightarrow> ('v, 'f, 'w) vfsops \<Rightarrow> 'v \<Rightarrow> ('a, ('v, 'f, 'w) vfs) res" where
  "then_decref r ops v =
     (case r of
        Ok x s \<Rightarrow> kbind (on_world (vop_decref ops v) s) (\<lambda>_ s. Ok x s)
      | Err e s \<Rightarrow> kbind (on_world (vop_decref ops v) s) (\<lambda>_ s. Err e s)
      | Panic \<Rightarrow> Panic | Fault \<Rightarrow> Fault | Hang \<Rightarrow> Hang)"

subsection \<open>From paths to vnodes\<close>

text \<open>The positions \<^verbatim>\<open>colon\<close> and \<^verbatim>\<open>slash\<close> of the loop: whichever of the two characters comes first.\<close>

fun first_mark :: "cstr \<Rightarrow> nat \<Rightarrow> nat option \<times> nat option" where
  "first_mark [] i = (None, None)"
| "first_mark (c # cs) i =
     (if c = 58 then (Some i, None) else if c = 47 then (None, Some i) else first_mark cs (Suc i))"

definition skip_slashes :: "cstr \<Rightarrow> cstr" where
  "skip_slashes p = dropWhile (\<lambda>c. c = 47) p"

definition getdevice ::
  "('v, 'f, 'w) vfsops \<Rightarrow> cstr \<Rightarrow> ('v, 'f, 'w) vfs \<Rightarrow> (cstr \<times> 'v, ('v, 'f, 'w) vfs) res" where
  "getdevice ops path s =
     kassert (biglock_do_i_hold s)
       (if path = [] then Err EINVAL s
        else
          case first_mark path 0 of (colon, slash) \<Rightarrow>
            if colon = None \<and> slash \<noteq> Some 0 then kbind (vfs_getcurdir ops s) (\<lambda>vn s. Ok (path, vn) s)
            else if colon \<noteq> None \<and> the colon > 0 then
              kbind (vfs_getroot ops (take (the colon) path) s) (\<lambda>vn s.
                Ok (skip_slashes (drop (the colon + 1) path), vn) s)
            else
              kassert (colon = Some 0 \<or> slash = Some 0)
                (kbind
                   (if path ! 0 = 47 then
                      (case bootfs_vnode s of None \<Rightarrow> Err ENOENT s | Some v \<Rightarrow> handback ops v s)
                    else
                      kassert (path ! 0 = 58)
                        (kbind (vfs_getcurdir ops s) (\<lambda>vn s.
                           kassert (vn_fs ops vn \<noteq> None)
                             (then_decref (on_world (fsop_getroot ops (the (vn_fs ops vn))) s) ops vn))))
                   (\<lambda>startvn s. Ok (skip_slashes (tl path), startvn) s)))"

definition vfs_lookparent ::
  "('v, 'f, 'w) vfsops \<Rightarrow> cstr \<Rightarrow> nat \<Rightarrow> ('v, 'f, 'w) vfs \<Rightarrow> ('v \<times> cstr, ('v, 'f, 'w) vfs) res" where
  "vfs_lookparent ops path buflen s =
     locked (\<lambda>s.
       kbind (getdevice ops path s) (\<lambda>(path, startvn) s.
         then_decref
           (if length path = 0 then Err EINVAL s else on_world (vop_lookparent ops startvn path buflen) s) ops startvn)) s"

definition vfs_lookup :: "('v, 'f, 'w) vfsops \<Rightarrow> cstr \<Rightarrow> ('v, 'f, 'w) vfs \<Rightarrow> ('v, ('v, 'f, 'w) vfs) res" where
  "vfs_lookup ops path s =
     locked (\<lambda>s.
       kbind (getdevice ops path s) (\<lambda>(path, startvn) s.
         if length path = 0 then Ok startvn s
         else then_decref (on_world (vop_lookup ops startvn path) s) ops startvn)) s"

definition vfs_chdir :: "('v, 'f, 'w) vfsops \<Rightarrow> cstr \<Rightarrow> ('v, 'f, 'w) vfs \<Rightarrow> (unit, ('v, 'f, 'w) vfs) res" where
  "vfs_chdir ops path s =
     kbind (vfs_lookup ops path s) (\<lambda>vn s. then_decref (vfs_setcurdir ops vn s) ops vn)"

subsection \<open>The boot file system\<close>

definition change_bootfs :: "('v, 'f, 'w) vfsops \<Rightarrow> 'v option \<Rightarrow> ('v, 'f, 'w) vfs \<Rightarrow> (unit, ('v, 'f, 'w) vfs) res" where
  "change_bootfs ops newvn s = (let oldvn = bootfs_vnode s in drop_old ops oldvn (s\<lparr>bootfs_vnode := newvn\<rparr>))"

text \<open>
  The buffer has \<^verbatim>\<open>NAME_MAX + 1\<close> = 256 bytes and \<^verbatim>\<open>snprintf\<close> is told one less, so that 254 characters of
  the name and, later, the colon fit. \<^verbatim>\<open>strchr\<close> gives the rest of the name from the colon on.
\<close>

definition setbootfs_path :: "cstr \<Rightarrow> cstr option" where
  "setbootfs_path fsname =
     (let tmp = take 254 fsname; s = dropWhile (\<lambda>c. c \<noteq> 58) tmp in
      if s \<noteq> [] then (if length s > 0 then None else Some tmp) else Some (tmp @ [58]))"

definition vfs_setbootfs :: "('v, 'f, 'w) vfsops \<Rightarrow> cstr \<Rightarrow> ('v, 'f, 'w) vfs \<Rightarrow> (unit, ('v, 'f, 'w) vfs) res" where
  "vfs_setbootfs ops fsname s =
     locked (\<lambda>s.
       case setbootfs_path fsname of
         None \<Rightarrow> Err EINVAL s
       | Some tmp \<Rightarrow>
           kbind (vfs_chdir ops tmp s) (\<lambda>_ s.
             kbind (vfs_getcurdir ops s) (\<lambda>newguy s. change_bootfs ops (Some newguy) s))) s"

definition vfs_clearbootfs :: "('v, 'f, 'w) vfsops \<Rightarrow> ('v, 'f, 'w) vfs \<Rightarrow> (unit, ('v, 'f, 'w) vfs) res" where
  "vfs_clearbootfs ops s = locked (change_bootfs ops None) s"

subsection \<open>Calls on files\<close>

definition O_CREAT :: u32 where "O_CREAT = 4"
definition O_EXCL :: u32 where "O_EXCL = 8"
definition O_TRUNC :: u32 where "O_TRUNC = 16"

text \<open>The buffer for the last component, \<^verbatim>\<open>NAME_MAX + 1\<close> bytes.\<close>

definition NAME_BUF :: nat where "NAME_BUF = 256"

definition vfs_open ::
  "('v, 'f, 'w) vfsops \<Rightarrow> cstr \<Rightarrow> u32 \<Rightarrow> u32 \<Rightarrow> ('v, 'f, 'w) vfs \<Rightarrow> ('v, ('v, 'f, 'w) vfs) res" where
  "vfs_open ops path openflags mode s =
     (let how = openflags AND O_ACCMODE in
      if how \<noteq> 0 \<and> how \<noteq> 1 \<and> how \<noteq> 2 then Err EINVAL s
      else
        let canwrite = (how \<noteq> O_RDONLY) in
        kbind
          (if openflags AND O_CREAT \<noteq> 0 then
             kbind (vfs_lookparent ops path NAME_BUF s) (\<lambda>(dir, name) s.
               then_decref (on_world (vop_creat ops dir name (openflags AND O_EXCL \<noteq> 0) mode) s) ops dir)
           else vfs_lookup ops path s)
          (\<lambda>vn s.
            kbind (result_of (on_world (vop_eachopen ops vn openflags) s)) (\<lambda>result s.
              if result \<noteq> None then then_decref (Err (the result) s) ops vn
              else if openflags AND O_TRUNC \<noteq> 0 then
                kbind (if \<not> canwrite then Ok (Some EINVAL) s else result_of (on_world (vop_truncate ops vn 0) s)) (\<lambda>result s.
                  if result \<noteq> None then then_decref (Err (the result) s) ops vn else Ok vn s)
              else Ok vn s)))"

definition vfs_close :: "('v, 'f, 'w) vfsops \<Rightarrow> 'v \<Rightarrow> ('v, 'f, 'w) vfs \<Rightarrow> (unit, ('v, 'f, 'w) vfs) res" where
  "vfs_close ops vnode s = on_world (vop_decref ops vnode) s"

definition vfs_remove :: "('v, 'f, 'w) vfsops \<Rightarrow> cstr \<Rightarrow> ('v, 'f, 'w) vfs \<Rightarrow> (unit, ('v, 'f, 'w) vfs) res" where
  "vfs_remove ops path s =
     kbind (vfs_lookparent ops path NAME_BUF s) (\<lambda>(dir, name) s.
       then_decref (on_world (vop_remove ops dir name) s) ops dir)"

definition vfs_rename :: "('v, 'f, 'w) vfsops \<Rightarrow> cstr \<Rightarrow> cstr \<Rightarrow> ('v, 'f, 'w) vfs \<Rightarrow> (unit, ('v, 'f, 'w) vfs) res" where
  "vfs_rename ops oldpath newpath s =
     kbind (vfs_lookparent ops oldpath NAME_BUF s) (\<lambda>(olddir, oldname) s.
       then_decref
         (kbind (vfs_lookparent ops newpath NAME_BUF s) (\<lambda>(newdir, newname) s.
            then_decref
              (if vn_fs ops olddir = None \<or> vn_fs ops newdir = None \<or> vn_fs ops olddir \<noteq> vn_fs ops newdir then Err EXDEV s
               else on_world (vop_rename ops olddir oldname newdir newname) s) ops newdir))
         ops olddir)"

definition vfs_link :: "('v, 'f, 'w) vfsops \<Rightarrow> cstr \<Rightarrow> cstr \<Rightarrow> ('v, 'f, 'w) vfs \<Rightarrow> (unit, ('v, 'f, 'w) vfs) res" where
  "vfs_link ops oldpath newpath s =
     kbind (vfs_lookup ops oldpath s) (\<lambda>oldfile s.
       then_decref
         (kbind (vfs_lookparent ops newpath NAME_BUF s) (\<lambda>(newdir, newname) s.
            then_decref
              (if vn_fs ops oldfile = None \<or> vn_fs ops newdir = None \<or> vn_fs ops oldfile \<noteq> vn_fs ops newdir then Err EXDEV s
               else on_world (vop_link ops newdir newname oldfile) s) ops newdir))
         ops oldfile)"


subsection \<open>How a path is read\<close>

lemma first_mark_split:
  "58 \<notin> set d \<Longrightarrow> 47 \<notin> set d \<Longrightarrow>
     first_mark (d @ r) i = (case r of [] \<Rightarrow> (None, None)
       | c # _ \<Rightarrow> if c = 58 then (Some (i + length d), None) else if c = 47 then (None, Some (i + length d)) else first_mark r (i + length d))"
  by (induction d arbitrary: i) (auto split: list.split)

lemma skip_slashes_replicate: "p = [] \<or> hd p \<noteq> 47 \<Longrightarrow> skip_slashes (replicate n 47 @ p) = p"
  by (induction n) (cases p, auto simp: skip_slashes_def)

text \<open>
  \<^bold>\<open>C13.\<close> The four forms of a path, for a name \<open>d\<close> without colon and slash, \<open>n\<close> further slashes, and a rest
  \<open>p\<close> that does not begin with one. \<^verbatim>\<open>d:///p\<close> is \<open>p\<close> from the root of the
  device or volume \<open>d\<close>, \<^verbatim>\<open>///p\<close> is \<open>p\<close> from the boot file system, \<^verbatim>\<open>:///p\<close> is \<open>p\<close> from the root of the file
  system of the current directory, and any other path is relative to the current directory as it
  stands, also when a later component contains a colon. The empty path is \<^verbatim>\<open>EINVAL\<close>. On every
  form the start of the search is handed back with a reference, and the reference to the current directory taken for
  \<^verbatim>\<open>:///p\<close> is given up again.
\<close>

theorem getdevice_parses:
  assumes hold: "biglock_do_i_hold s" and d: "58 \<notin> set d" "47 \<notin> set d" "d \<noteq> []" and p: "p = [] \<or> hd p \<noteq> 47"
  shows "getdevice ops [] s = Err EINVAL s \<and>
    getdevice ops (d @ 58 # replicate n 47 @ p) s = kbind (vfs_getroot ops d s) (\<lambda>v s. Ok (p, v) s) \<and>
    getdevice ops (47 # replicate n 47 @ p) s =
      (case bootfs_vnode s of None \<Rightarrow> Err ENOENT s | Some b \<Rightarrow> kbind (handback ops b s) (\<lambda>v s. Ok (p, v) s)) \<and>
    getdevice ops (58 # replicate n 47 @ p) s =
      kbind (kbind (vfs_getcurdir ops s) (\<lambda>c s. kassert (vn_fs ops c \<noteq> None)
        (then_decref (on_world (fsop_getroot ops (the (vn_fs ops c))) s) ops c))) (\<lambda>v s. Ok (p, v) s) \<and>
    getdevice ops d s = kbind (vfs_getcurdir ops s) (\<lambda>v s. Ok (d, v) s) \<and>
    getdevice ops (d @ 47 # p) s = kbind (vfs_getcurdir ops s) (\<lambda>v s. Ok (d @ 47 # p, v) s)"
proof -
  have fm: "first_mark (d @ 58 # r) 0 = (Some (length d), None)" "first_mark (d @ 47 # r) 0 = (None, Some (length d))"
    "first_mark d 0 = (None, None)" for r
    using first_mark_split [OF d(1,2), of "58 # r" 0] first_mark_split [OF d(1,2), of "47 # r" 0]
      first_mark_split [OF d(1,2), of "[]" 0] by simp_all
  show ?thesis using hold d(3) by (simp add: getdevice_def fm skip_slashes_replicate [OF p] split: option.split)
qed


text \<open>A name with a colon anywhere in its first 254 characters, also at the end, is refused.\<close>

lemma setbootfs_colon: "58 \<in> set (take 254 fsname) \<Longrightarrow> setbootfs_path fsname = None"
  by (auto simp: setbootfs_path_def Let_def dropWhile_eq_Nil_conv)

subsection \<open>Who owns the references\<close>

text \<open>The call returns, with a value and state that satisfy \<open>P\<close> or with an error and state that satisfy \<open>Q\<close>.\<close>

definition ends :: "('a, 's) res \<Rightarrow> ('a \<Rightarrow> 's \<Rightarrow> bool) \<Rightarrow> (errno \<Rightarrow> 's \<Rightarrow> bool) \<Rightarrow> bool" where
  "ends r P Q \<longleftrightarrow> (case r of Ok x t \<Rightarrow> P x t | Err e t \<Rightarrow> Q e t | _ \<Rightarrow> False)"

text \<open>The references \<open>H\<close> and one more, for a vnode if there is one.\<close>

fun add_ref :: "('v \<Rightarrow> nat) \<Rightarrow> 'v option \<Rightarrow> 'v \<Rightarrow> nat" where
  "add_ref H None = H"
| "add_ref H (Some v) = H(v := Suc (H v))"

text \<open>
  The owners of references to a vnode: entries of the device table, the boot file system, the
  current directory, and \<open>H v\<close> callers that got the vnode handed back and have not closed it yet.
\<close>

definition owners :: "('v, 'f, 'w) vfs \<Rightarrow> ('v \<Rightarrow> nat) \<Rightarrow> 'v \<Rightarrow> nat" where
  "owners s H v = count_list (map kd_vnode (knowndevs s)) v + (if bootfs_vnode s = Some v then 1 else 0) +
     (if p_cwd s = Some v then 1 else 0) + H v"

text \<open>
  An operation that hands back a vnode: on success its count is one higher, otherwise
  all counts are as they were. \<open>perm\<close> are the vnodes that exist as long as the system (those of devices);
  \<open>live w f\<close> says that \<open>f\<close> is a mounted file system.
\<close>

definition gives :: "('w \<Rightarrow> bool) \<Rightarrow> ('w \<Rightarrow> 'f \<Rightarrow> bool) \<Rightarrow> ('w \<Rightarrow> 'v \<Rightarrow> nat) \<Rightarrow> ('v \<Rightarrow> bool) \<Rightarrow> ('a \<Rightarrow> 'v) \<Rightarrow> 'w \<Rightarrow> ('a, 'w) res \<Rightarrow> bool" where
  "gives okw live refs perm pick w r \<longleftrightarrow>
     ends r (\<lambda>x t. okw t \<and> live t = live w \<and> refs t = add_ref (refs w) (Some (pick x)) \<and> (perm (pick x) \<longrightarrow> 0 < refs w (pick x)))
       (\<lambda>e t. okw t \<and> live t = live w \<and> refs t = refs w)"

locale vnode_provider =
  fixes ops :: "('v, 'f, 'w) vfsops" and okw :: "'w \<Rightarrow> bool" and live :: "'w \<Rightarrow> 'f \<Rightarrow> bool"
    and refs :: "'w \<Rightarrow> 'v \<Rightarrow> nat" and perm :: "'v \<Rightarrow> bool"
  assumes incref_law: "okw w \<Longrightarrow> 0 < refs w v \<Longrightarrow>
      \<exists>t. vop_incref ops v w = Ok () t \<and> okw t \<and> live t = live w \<and> refs t = add_ref (refs w) (Some v)"
    and decref_law: "okw w \<Longrightarrow> 0 < refs w v \<Longrightarrow> (perm v \<Longrightarrow> 1 < refs w v) \<Longrightarrow>
      \<exists>t. vop_decref ops v w = Ok () t \<and> okw t \<and> live t = live w \<and> refs w = add_ref (refs t) (Some v)"
    and getroot_law: "okw w \<Longrightarrow> live w f \<Longrightarrow> gives okw live refs perm id w (fsop_getroot ops f w)"
    and lookup_law: "okw w \<Longrightarrow> 0 < refs w v \<Longrightarrow> 0 \<notin> set p \<Longrightarrow> gives okw live refs perm id w (vop_lookup ops v p w)"
    and lookparent_law: "okw w \<Longrightarrow> 0 < refs w v \<Longrightarrow> 0 \<notin> set p \<Longrightarrow> gives okw live refs perm fst w (vop_lookparent ops v p n w)"
    and gettype_law: "okw w \<Longrightarrow> 0 < refs w v \<Longrightarrow>
      ends (vop_gettype ops v w) (\<lambda>ty t. okw t \<and> live t = live w \<and> refs t = refs w \<and> (ty = S_IFDIR \<longrightarrow> vn_fs ops v \<noteq> None))
        (\<lambda>e t. okw t \<and> live t = live w \<and> refs t = refs w)"
    and eachopen_law: "okw w \<Longrightarrow> 0 < refs w v \<Longrightarrow>
      ends (vop_eachopen ops v flags w) (\<lambda>_ t. okw t \<and> live t = live w \<and> refs t = refs w) (\<lambda>e t. okw t \<and> live t = live w \<and> refs t = refs w)"
    and vn_fs_law: "okw w \<Longrightarrow> 0 < refs w v \<Longrightarrow> vn_fs ops v = Some f \<Longrightarrow> live w f"

text \<open>
  The accounts are in order at lock depth \<open>n\<close>: every count is the number of owners, mounted file systems
  are live, the current directory is on a file system, and the device vnodes in use are those of the
  table.
\<close>

definition accounted :: "('v, 'f, 'w) vfsops \<Rightarrow> ('w \<Rightarrow> bool) \<Rightarrow> ('w \<Rightarrow> 'f \<Rightarrow> bool) \<Rightarrow> ('w \<Rightarrow> 'v \<Rightarrow> nat) \<Rightarrow> ('v \<Rightarrow> bool) \<Rightarrow>
    nat \<Rightarrow> ('v, 'f, 'w) vfs \<Rightarrow> ('v \<Rightarrow> nat) \<Rightarrow> bool" where
  "accounted ops okw live refs perm n s H \<longleftrightarrow>
     okw (world s) \<and> table_ok s \<and> vfs_biglock_depth s = n \<and> refs (world s) = owners s H \<and>
     (\<forall>kd \<in> set (knowndevs s). \<forall>f. kd_fs kd = Fs f \<longrightarrow> live (world s) f) \<and>
     (\<forall>v. p_cwd s = Some v \<longrightarrow> vn_fs ops v \<noteq> None) \<and>
     (\<forall>v. perm v \<and> 0 < refs (world s) v \<longrightarrow> v \<in> kd_vnode ` set (knowndevs s))"

lemma ends_kbind:
  "ends r P' Q \<Longrightarrow> (\<And>x t. P' x t \<Longrightarrow> ends (f x t) P Q) \<Longrightarrow> ends (kbind r f) P Q"
  by (cases r) (simp_all add: ends_def)

lemma ends_mono: "ends r P' Q' \<Longrightarrow> (\<And>x t. P' x t \<Longrightarrow> P x t) \<Longrightarrow> (\<And>e t. Q' e t \<Longrightarrow> Q e t) \<Longrightarrow> ends r P Q"
  by (cases r) (simp_all add: ends_def)

lemma ends_simps [simp]: "ends (Ok x t) P Q = P x t" "ends (Err e t) P Q = Q e t"
  by (simp_all add: ends_def)

lemma ends_kassert: "b \<Longrightarrow> ends r P Q \<Longrightarrow> ends (kassert b r) P Q"
  by simp

lemma ends_on_world: "ends (f (world s)) (\<lambda>x w. P x (s\<lparr>world := w\<rparr>)) (\<lambda>e w. Q e (s\<lparr>world := w\<rparr>)) \<Longrightarrow> ends (on_world f s) P Q"
  by (cases "f (world s)") (simp_all add: ends_def)

lemma ends_result_of: "ends r (\<lambda>_. P) (\<lambda>_. P) \<Longrightarrow> ends (result_of r) (\<lambda>_. P) Q"
  by (cases r) (simp_all add: ends_def)

lemma owners_world [simp]: "owners (s\<lparr>world := w\<rparr>) H = owners s H" "owners (s\<lparr>vfs_biglock_depth := n\<rparr>) H = owners s H"
  by (simp_all add: owners_def fun_eq_iff)

lemma owners_add: "owners s (add_ref H m) = add_ref (owners s H) m"
  by (cases m) (auto simp: owners_def fun_eq_iff)

lemma owners_cwd: "add_ref (owners (s\<lparr>p_cwd := c\<rparr>) H) (p_cwd s) = add_ref (owners s H) c"
  by (cases "p_cwd s"; cases c) (auto simp: owners_def fun_eq_iff)

lemma owners_bootfs: "add_ref (owners (s\<lparr>bootfs_vnode := b\<rparr>) H) (bootfs_vnode s) = add_ref (owners s H) b"
  by (cases "bootfs_vnode s"; cases b) (auto simp: owners_def fun_eq_iff)

lemma add_ref_inj: "add_ref H (Some v) = add_ref H' (Some v) \<Longrightarrow> H = H'"
  by (auto simp: fun_eq_iff split: if_splits)


lemma set_skip_slashes: "0 \<notin> set p \<Longrightarrow> 0 \<notin> set (skip_slashes p)"
  unfolding skip_slashes_def by (meson set_dropWhileD)

lemma first_mark_cases:
  "first_mark p i = (a, b) \<Longrightarrow> (case a of None \<Rightarrow> True | Some j \<Rightarrow> i \<le> j \<and> j - i < length p \<and> p ! (j - i) = 58) \<and>
     (case b of None \<Rightarrow> True | Some j \<Rightarrow> i \<le> j \<and> j - i < length p \<and> p ! (j - i) = 47)"
proof (induction p arbitrary: i)
  case (Cons c p)
  show ?case
  proof (cases "c = 58 \<or> c = 47")
    case False
    then have "first_mark p (Suc i) = (a, b)" using Cons.prems by simp
    from Cons.IH [OF this] show ?thesis by (auto simp: nth_Cons split: option.splits nat.splits) (auto simp: Suc_diff_le less_Suc_eq_le diff_Suc split: nat.splits)
  qed (use Cons.prems in auto)
qed auto

context vnode_provider
begin

abbreviation acc :: "nat \<Rightarrow> ('v, 'f, 'w) vfs \<Rightarrow> ('v \<Rightarrow> nat) \<Rightarrow> bool" where
  "acc \<equiv> accounted ops okw live refs perm"

abbreviation handed :: "nat \<Rightarrow> ('v \<Rightarrow> nat) \<Rightarrow> ('v, ('v, 'f, 'w) vfs) res \<Rightarrow> bool" where
  "handed n H r \<equiv> ends r (\<lambda>v t. acc n t (add_ref H (Some v))) (\<lambda>e t. acc n t H)"

abbreviation settled :: "nat \<Rightarrow> ('v \<Rightarrow> nat) \<Rightarrow> ('a, ('v, 'f, 'w) vfs) res \<Rightarrow> bool" where
  "settled n H r \<equiv> ends r (\<lambda>_ t. acc n t H) (\<lambda>e t. acc n t H)"

text \<open>A step of the world that moves the counts as the owners move.\<close>

lemma acc_world:
  assumes "acc n s H" "okw w" "live w = live (world s)" "refs w = owners s H'"
    "\<And>v. perm v \<Longrightarrow> 0 < refs w v \<Longrightarrow> 0 < refs (world s) v"
  shows "acc n (s\<lparr>world := w\<rparr>) H'"
  using assms by (simp add: accounted_def)

lemma acc_refs: "acc n s H \<Longrightarrow> refs (world s) v = owners s H v" "acc n s H \<Longrightarrow> okw (world s)"
  by (simp_all add: accounted_def)

lemma acc_gives:
  assumes "acc n s H" "gives okw live refs perm pick (world s) (f (world s))"
  shows "ends (on_world f s) (\<lambda>x t. acc n t (add_ref H (Some (pick x)))) (\<lambda>e t. acc n t H)"
proof (rule ends_on_world, rule ends_mono [OF assms(2) [unfolded gives_def]])
  note r = acc_refs(1) [OF assms(1)]
  fix x t
  assume t: "okw t \<and> live t = live (world s) \<and> refs t = add_ref (refs (world s)) (Some (pick x)) \<and> (perm (pick x) \<longrightarrow> 0 < refs (world s) (pick x))"
  then have "refs t = owners s (add_ref H (Some (pick x)))" using owners_add [of s H "Some (pick x)"] by (simp add: fun_eq_iff r)
  moreover have "0 < refs (world s) v" if "perm v" "0 < refs t v" for v using t that by (cases "v = pick x") simp_all
  ultimately show "acc n (s\<lparr>world := t\<rparr>) (add_ref H (Some (pick x)))" using acc_world [OF assms(1)] t by blast
next
  fix e t assume t: "okw t \<and> live t = live (world s) \<and> refs t = refs (world s)"
  then show "acc n (s\<lparr>world := t\<rparr>) H" using acc_refs(1) [OF assms(1)] by (intro acc_world [OF assms(1)]) (auto simp: fun_eq_iff)
qed

lemma acc_keeps:
  assumes "acc n s H"
    and "ends (f (world s)) (\<lambda>x t. okw t \<and> live t = live (world s) \<and> refs t = refs (world s) \<and> R x) (\<lambda>e t. okw t \<and> live t = live (world s) \<and> refs t = refs (world s))"
  shows "ends (on_world f s) (\<lambda>x t. acc n t H \<and> R x \<and> owners t H = owners s H) (\<lambda>e t. acc n t H)"
proof -
  have "acc n (s\<lparr>world := t\<rparr>) H" if "okw t" "live t = live (world s)" "refs t = refs (world s)" for t
    using that acc_refs(1) [OF assms(1)] by (intro acc_world [OF assms(1)]) (auto simp: fun_eq_iff)
  then show ?thesis by (intro ends_on_world ends_mono [OF assms(2)]) simp_all
qed

lemma acc_incref:
  assumes "acc n s H" "0 < owners s H v"
  shows "\<exists>t. on_world (vop_incref ops v) s = Ok () t \<and> acc n t (add_ref H (Some v)) \<and> p_cwd t = p_cwd s"
proof -
  have r: "0 < refs (world s) v" using assms acc_refs(1) [OF assms(1)] by simp
  obtain w where w: "vop_incref ops v (world s) = Ok () w" "okw w" "live w = live (world s)" "refs w = add_ref (refs (world s)) (Some v)"
    using incref_law [OF acc_refs(2) [OF assms(1)] r] by metis
  have "gives okw live refs perm (\<lambda>_. v) (world s) (vop_incref ops v (world s))" using w r by (simp add: gives_def)
  from acc_gives [where f = "vop_incref ops v", OF assms(1) this] show ?thesis using w(1) by simp
qed

lemma acc_decref:
  assumes "acc n s (add_ref H (Some v))"
  shows "\<exists>t. on_world (vop_decref ops v) s = Ok () t \<and> acc n t H"
proof -
  have o: "owners s (add_ref H (Some v)) v = Suc (owners s H v)" by (simp add: owners_add del: add_ref.simps) simp
  have r: "refs (world s) v = Suc (owners s H v)" using acc_refs(1) [OF assms] o by simp
  have "1 < refs (world s) v" if "perm v"
  proof -
    have "v \<in> kd_vnode ` set (knowndevs s)" using assms that r by (auto simp: accounted_def)
    then have "count_list (map kd_vnode (knowndevs s)) v \<noteq> 0" by (simp add: count_list_0_iff)
    then show ?thesis using r by (simp add: owners_def)
  qed
  then obtain w where w: "vop_decref ops v (world s) = Ok () w" "okw w" "live w = live (world s)" "refs (world s) = add_ref (refs w) (Some v)"
    using decref_law [OF acc_refs(2) [OF assms], of v] r by auto
  have "add_ref (refs w) (Some v) = add_ref (owners s H) (Some v)"
    using w(4) acc_refs(1) [OF assms] owners_add [of s H "Some v"] by (simp add: fun_eq_iff)
  then have "refs w = owners s H" by (rule add_ref_inj)
  moreover have "0 < refs (world s) u" if "0 < refs w u" for u using w(4) that by simp
  ultimately have "acc n (s\<lparr>world := w\<rparr>) H" using w(2,3) by (intro acc_world [OF assms]) auto
  then show ?thesis using w(1) by simp
qed

lemma handback_handed: "acc n s H \<Longrightarrow> 0 < owners s H v \<Longrightarrow> ends (handback ops v s) (\<lambda>x t. x = v \<and> acc n t (add_ref H (Some v)) \<and> p_cwd t = p_cwd s) (\<lambda>e t. acc n t H)"
  using acc_incref [of n s H v] by (auto simp: handback_def simp del: on_world.simps)

lemma then_decref_settles:
  assumes "ends r (\<lambda>x t. acc n t (add_ref (G x) (Some v))) (\<lambda>e t. acc n t (add_ref H (Some v)))"
  shows "ends (then_decref r ops v) (\<lambda>x t. acc n t (G x)) (\<lambda>e t. acc n t H)"
proof (cases r)
  case (Ok x t)
  then have "acc n t (add_ref (G x) (Some v))" using assms by simp
  from acc_decref [OF this] show ?thesis using Ok by (auto simp: then_decref_def simp del: on_world.simps)
next
  case (Err e t)
  then have "acc n t (add_ref H (Some v))" using assms by simp
  from acc_decref [OF this] show ?thesis using Err by (auto simp: then_decref_def simp del: on_world.simps)
qed (use assms in \<open>simp_all add: ends_def\<close>)

lemma drop_old_settles: "acc n s (add_ref H old) \<Longrightarrow> ends (drop_old ops old s) (\<lambda>_ t. acc n t H) (\<lambda>_ _. False)"
  using acc_decref [of n s H] by (cases old) (fastforce simp: drop_old_def simp del: on_world.simps add_ref.simps(2))+

lemma getcurdir_handed: "acc n s H \<Longrightarrow> ends (vfs_getcurdir ops s) (\<lambda>v t. acc n t (add_ref H (Some v)) \<and> p_cwd t = Some v) (\<lambda>e t. acc n t H)"
proof (cases "p_cwd s")
  case (Some v)
  assume a: "acc n s H"
  have "0 < owners s H v" using Some by (simp add: owners_def)
  from handback_handed [OF a this] show ?thesis using Some by (auto simp: vfs_getcurdir_def elim!: ends_mono)
qed (simp add: vfs_getcurdir_def)

lemma getroot_handed:
  assumes "acc n s H" "0 < n"
  shows "handed n H (vfs_getroot ops devname s)"
proof -
  have ok: "table_ok s" "biglock_do_i_hold s" using assms by (simp_all add: accounted_def biglock_do_i_hold_def)
  let ?t = "names ops (world s) (knowndevs s) devname"
  have "handed n H (resolve ops ?t s)"
  proof (cases ?t)
    case (Some t)
    then obtain kd where kd: "kd \<in> set (knowndevs s)" "(devname, t) \<in> set (entry_names ops (world s) kd)"
      using map_of_SomeD [of "concat (map (entry_names ops (world s)) (knowndevs s))" devname t] by (auto simp: names_def)
    show ?thesis
    proof (cases t)
      case (Root f)
      then have "kd_fs kd = Fs f" using kd(2) by (auto simp: entry_names_def split: mounted.splits option.splits if_splits)
      then have "live (world s) f" using assms(1) kd(1) by (auto simp: accounted_def)
      then show ?thesis using acc_gives [where f = "fsop_getroot ops f", OF assms(1) getroot_law [OF acc_refs(2) [OF assms(1)]]] Some Root
        by (simp add: resolve_def del: on_world.simps)
    next
      case Unmounted
      then show ?thesis using Some assms(1) by (simp add: resolve_def)
    next
      case (Dev v)
      then have "kd_vnode kd = v" using kd(2) by (auto simp: entry_names_def split: mounted.splits option.splits if_splits)
      then have "count_list (map kd_vnode (knowndevs s)) v \<noteq> 0" using kd(1) by (auto simp: count_list_0_iff)
      then have "0 < owners s H v" by (simp add: owners_def)
      from handback_handed [OF assms(1) this] show ?thesis using Some Dev by (auto simp: resolve_def elim!: ends_mono)
    qed
  qed (use assms(1) in \<open>simp add: resolve_def\<close>)
  then show ?thesis using vfs_getroot_resolves [OF ok, of ops devname] by simp
qed

lemma acc_curfs:
  assumes "acc n s H" "p_cwd s = Some v"
  shows "vn_fs ops v \<noteq> None" "live (world s) (the (vn_fs ops v))"
proof -
  show f: "vn_fs ops v \<noteq> None" using assms by (simp add: accounted_def)
  have "0 < refs (world s) v" using acc_refs(1) [OF assms(1)] assms(2) by (simp add: owners_def)
  then show "live (world s) (the (vn_fs ops v))" using f vn_fs_law [OF acc_refs(2) [OF assms(1)]] by auto
qed

lemma currentroot_handed:
  assumes "acc n s H"
  shows "handed n H (kbind (vfs_getcurdir ops s) (\<lambda>c s. kassert (vn_fs ops c \<noteq> None)
    (then_decref (on_world (fsop_getroot ops (the (vn_fs ops c))) s) ops c)))"
proof (rule ends_kbind [OF getcurdir_handed [OF assms]])
  fix c t assume t: "acc n t (add_ref H (Some c)) \<and> p_cwd t = Some c"
  then have a: "acc n t (add_ref H (Some c))" and c: "p_cwd t = Some c" by simp_all
  have "handed n (add_ref H (Some c)) (on_world (fsop_getroot ops (the (vn_fs ops c))) t)"
    using acc_gives [where f = "fsop_getroot ops (the (vn_fs ops c))", OF a getroot_law [OF acc_refs(2) [OF a] acc_curfs(2) [OF a c]]] by (simp del: on_world.simps)
  moreover have "add_ref (add_ref H (Some c)) (Some x) = add_ref (add_ref H (Some x)) (Some c)" for x by auto
  ultimately show "handed n H (kassert (vn_fs ops c \<noteq> None) (then_decref (on_world (fsop_getroot ops (the (vn_fs ops c))) t) ops c))"
    using acc_curfs(1) [OF a c] then_decref_settles [of _ n "\<lambda>x. add_ref H (Some x)" c H]
    by (simp only: kassert_True) simp
qed

lemma getdevice_handed:
  assumes "acc n s H" "0 < n" "0 \<notin> set path"
  shows "ends (getdevice ops path s) (\<lambda>x t. acc n t (add_ref H (Some (snd x))) \<and> 0 \<notin> set (fst x)) (\<lambda>e t. acc n t H)"
proof -
  have hold: "biglock_do_i_hold s" using assms by (simp add: accounted_def biglock_do_i_hold_def)
  have sub: "ends (kbind r (\<lambda>v s. Ok (p, v) s)) (\<lambda>x t. acc n t (add_ref H (Some (snd x))) \<and> 0 \<notin> set (fst x)) (\<lambda>e t. acc n t H)"
    if "handed n H r" "0 \<notin> set p" for r p using that by (intro ends_kbind [OF that(1)]) simp
  obtain colon slash where m: "first_mark path 0 = (colon, slash)" by fastforce
  have tl: "0 \<notin> set (skip_slashes (tl path))" "0 \<notin> set (skip_slashes (drop k path))" for k
    using assms(3) by (auto intro!: set_skip_slashes dest: in_set_dropD list.set_sel(2) [rotated]) (metis list.sel(2) list.set_sel(2))
  consider (empty) "path = []" | (rel) "path \<noteq> []" "colon = None" "slash \<noteq> Some 0" | (dev) k where "path \<noteq> []" "colon = Some k" "0 < k"
    | (boot) "path \<noteq> []" "colon = None" "slash = Some 0" "path ! 0 = 47" | (cur) "path \<noteq> []" "colon = Some 0" "path ! 0 = 58"
    using first_mark_cases [OF m] by (cases colon; cases slash) auto
  then show ?thesis
  proof cases
    case empty
    then show ?thesis using hold assms(1) by (simp add: getdevice_def)
  next
    case rel
    have "handed n H (vfs_getcurdir ops s)" by (rule ends_mono [OF getcurdir_handed [OF assms(1)]]) simp_all
    then show ?thesis using rel hold m sub [OF _ assms(3)] by (simp add: getdevice_def)
  next
    case (dev k)
    then show ?thesis using hold m sub [OF getroot_handed [OF assms(1,2)] tl(2)] by (simp add: getdevice_def)
  next
    case boot
    have "handed n H (case bootfs_vnode s of None \<Rightarrow> Err ENOENT s | Some v \<Rightarrow> handback ops v s)"
    proof (cases "bootfs_vnode s")
      case (Some v)
      then have "0 < owners s H v" by (simp add: owners_def)
      from handback_handed [OF assms(1) this] show ?thesis using Some by (auto elim!: ends_mono)
    qed (simp add: assms(1))
    then show ?thesis using boot hold m sub [OF _ tl(1)] by (simp add: getdevice_def)
  next
    case cur
    then show ?thesis using hold m sub [OF currentroot_handed [OF assms(1)] tl(1)] by (simp add: getdevice_def)
  qed
qed

lemma acc_acquire: "acc n s H \<Longrightarrow> acc (Suc n) (biglock_acquire s) H"
  by (simp add: accounted_def biglock_acquire_def)

lemma locked_ends:
  assumes "acc n s H" and "ends (f (biglock_acquire s)) (\<lambda>x t. acc (Suc n) t (G x)) (\<lambda>e t. acc (Suc n) t H')"
  shows "ends (locked f s) (\<lambda>x t. acc n t (G x)) (\<lambda>e t. acc n t H')"
proof -
  have "acc n (t\<lparr>vfs_biglock_depth := n\<rparr>) K" if "acc (Suc n) t K" for t K using that by (simp add: accounted_def)
  moreover have "vfs_biglock_depth t = Suc n" if "acc (Suc n) t K" for t K using that by (simp add: accounted_def)
  ultimately show ?thesis using assms(2)
    by (cases "f (biglock_acquire s)") (auto simp: locked_def biglock_release_def biglock_do_i_hold_def ends_def)
qed

lemma add_ref_commute: "add_ref (add_ref H (Some x)) (Some y) = add_ref (add_ref H (Some y)) (Some x)"
  by (auto simp: fun_eq_iff)

lemma owners_held: "0 < owners s (add_ref H (Some v)) v"
  by (simp add: owners_def)

lemma vfs_lookup_handed:
  assumes "acc n s H" "0 \<notin> set path"
  shows "handed n H (vfs_lookup ops path s)"
  unfolding vfs_lookup_def case_prod_beta
proof (rule locked_ends [OF assms(1)], rule ends_kbind [OF getdevice_handed [OF acc_acquire [OF assms(1)] _ assms(2)]])
  fix x :: "cstr \<times> 'v" and t assume x: "acc (Suc n) t (add_ref H (Some (snd x))) \<and> 0 \<notin> set (fst x)"
  obtain p v where [simp]: "x = (p, v)" by fastforce
  have a: "acc (Suc n) t (add_ref H (Some v))" and p: "0 \<notin> set p" using x by simp_all
  have "handed (Suc n) (add_ref H (Some v)) (on_world (vop_lookup ops v p) t)"
    using acc_gives [where f = "vop_lookup ops v p", OF a lookup_law [OF acc_refs(2) [OF a] _ p]] acc_refs(1) [OF a]
    by (simp add: owners_held del: on_world.simps add_ref.simps)
  then have "handed (Suc n) H (then_decref (on_world (vop_lookup ops v p) t) ops v)"
    by (intro then_decref_settles) (simp only: add_ref_commute [of H _ v])
  then show "handed (Suc n) H (if length (fst x) = 0 then Ok (snd x) t
      else then_decref (on_world (vop_lookup ops (snd x) (fst x)) t) ops (snd x))" using a by (simp del: on_world.simps add_ref.simps)
qed simp

lemma vfs_lookparent_handed:
  assumes "acc n s H" "0 \<notin> set path"
  shows "ends (vfs_lookparent ops path len s) (\<lambda>x t. acc n t (add_ref H (Some (fst x)))) (\<lambda>e t. acc n t H)"
  unfolding vfs_lookparent_def case_prod_beta
proof (rule locked_ends [OF assms(1)], rule ends_kbind [OF getdevice_handed [OF acc_acquire [OF assms(1)] _ assms(2)]])
  fix x :: "cstr \<times> 'v" and t assume x: "acc (Suc n) t (add_ref H (Some (snd x))) \<and> 0 \<notin> set (fst x)"
  obtain p v where [simp]: "x = (p, v)" by fastforce
  have a: "acc (Suc n) t (add_ref H (Some v))" and p: "0 \<notin> set p" using x by simp_all
  have "ends (on_world (vop_lookparent ops v p len) t) (\<lambda>x t. acc (Suc n) t (add_ref (add_ref H (Some (fst x))) (Some v)))
      (\<lambda>e t. acc (Suc n) t (add_ref H (Some v)))"
    using acc_gives [where f = "vop_lookparent ops v p len", OF a lookparent_law [OF acc_refs(2) [OF a] _ p]] acc_refs(1) [OF a]
    by (simp add: owners_held add_ref_commute [of H _ v] del: on_world.simps add_ref.simps)
  then show "ends (then_decref (if length (fst x) = 0 then Err EINVAL t else on_world (vop_lookparent ops (snd x) (fst x) len) t) ops (snd x))
      (\<lambda>x t. acc (Suc n) t (add_ref H (Some (fst x)))) (\<lambda>e t. acc (Suc n) t H)"
    using a by (intro then_decref_settles) (simp del: on_world.simps add_ref.simps)
qed simp

lemma acc_cwd:
  assumes "acc n s (add_ref H c)" "\<And>v. c = Some v \<Longrightarrow> vn_fs ops v \<noteq> None"
  shows "acc n (s\<lparr>p_cwd := c\<rparr>) (add_ref H (p_cwd s))"
proof -
  have "owners (s\<lparr>p_cwd := c\<rparr>) (add_ref H (p_cwd s)) = owners s (add_ref H c)"
    using owners_cwd [where s = s and c = c and H = H] by (simp add: owners_add)
  then show ?thesis using assms by (auto simp: accounted_def)
qed

lemma acc_bootfs:
  assumes "acc n s (add_ref H b)"
  shows "acc n (s\<lparr>bootfs_vnode := b\<rparr>) (add_ref H (bootfs_vnode s))"
proof -
  have "owners (s\<lparr>bootfs_vnode := b\<rparr>) (add_ref H (bootfs_vnode s)) = owners s (add_ref H b)"
    using owners_bootfs [where s = s and b = b and H = H] by (simp add: owners_add)
  then show ?thesis using assms by (auto simp: accounted_def)
qed

lemma vfs_setcurdir_settled:
  assumes "acc n s H" "0 < owners s H dir"
  shows "settled n H (vfs_setcurdir ops dir s)"
proof -
  have r: "0 < refs (world s) dir" using assms acc_refs(1) [OF assms(1)] by simp
  have set: "settled n H (kbind (on_world (vop_incref ops dir) t) (\<lambda>_ s. drop_old ops (p_cwd s) (s\<lparr>p_cwd := Some dir\<rparr>)))"
    if a: "acc n t H" "owners t H = owners s H" and d: "vn_fs ops dir \<noteq> None" for t
  proof -
    obtain u where u: "on_world (vop_incref ops dir) t = Ok () u" "acc n u (add_ref H (Some dir))"
      using acc_incref [OF a(1), of dir] a(2) assms(2) by auto
    have "acc n (u\<lparr>p_cwd := Some dir\<rparr>) (add_ref H (p_cwd u))" using d by (intro acc_cwd [OF u(2)]) simp
    from drop_old_settles [OF this] show ?thesis using u(1) by (auto simp del: on_world.simps elim!: ends_mono)
  qed
  show ?thesis unfolding vfs_setcurdir_def Let_def
    by (rule ends_kbind [OF acc_keeps [where f = "vop_gettype ops dir", OF assms(1) gettype_law [OF acc_refs(2) [OF assms(1)] r]]])
      (auto intro: set simp del: on_world.simps)
qed

lemma vfs_chdir_settled:
  assumes "acc n s H" "0 \<notin> set path"
  shows "settled n H (vfs_chdir ops path s)"
  unfolding vfs_chdir_def
proof (rule ends_kbind [OF vfs_lookup_handed [OF assms]])
  fix v t assume a: "acc n t (add_ref H (Some v))"
  have "settled n (add_ref H (Some v)) (vfs_setcurdir ops v t)" by (rule vfs_setcurdir_settled [OF a owners_held])
  then show "settled n H (then_decref (vfs_setcurdir ops v t) ops v)" by (rule then_decref_settles)
qed

lemma vfs_clearcurdir_settled: "acc n s H \<Longrightarrow> settled n H (vfs_clearcurdir ops s)"
  using acc_cwd [of n s H None] drop_old_settles [of n "s\<lparr>p_cwd := None\<rparr>" H "p_cwd s"]
  by (auto simp: vfs_clearcurdir_def elim!: ends_mono)

lemma change_bootfs_settled: "acc n s (add_ref H b) \<Longrightarrow> settled n H (change_bootfs ops b s)"
  using acc_bootfs [of n s H b] drop_old_settles [of n "s\<lparr>bootfs_vnode := b\<rparr>" H "bootfs_vnode s"]
  by (auto simp: change_bootfs_def elim!: ends_mono)

lemma vfs_clearbootfs_settled: "acc n s H \<Longrightarrow> settled n H (vfs_clearbootfs ops s)"
  unfolding vfs_clearbootfs_def
  by (rule locked_ends, assumption, rule change_bootfs_settled) (simp add: acc_acquire)

lemma vfs_setbootfs_settled:
  assumes "acc n s H" "0 \<notin> set fsname"
  shows "settled n H (vfs_setbootfs ops fsname s)"
  unfolding vfs_setbootfs_def
proof (rule locked_ends [OF assms(1)], cases "setbootfs_path fsname")
  case None
  then show "ends (case setbootfs_path fsname of None \<Rightarrow> Err EINVAL (biglock_acquire s) | Some tmp \<Rightarrow>
      kbind (vfs_chdir ops tmp (biglock_acquire s)) (\<lambda>_ s. kbind (vfs_getcurdir ops s) (\<lambda>newguy s. change_bootfs ops (Some newguy) s)))
      (\<lambda>x t. acc (Suc n) t H) (\<lambda>e t. acc (Suc n) t H)" using acc_acquire [OF assms(1)] by simp
next
  case (Some tmp)
  then have "tmp = take 254 fsname @ [58]" by (simp add: setbootfs_path_def Let_def split: if_splits)
  then have tmp: "0 \<notin> set tmp" using assms(2) by (auto dest: in_set_takeD)
  have "settled (Suc n) H (kbind (vfs_getcurdir ops t) (\<lambda>newguy s. change_bootfs ops (Some newguy) s))" if "acc (Suc n) t H" for t
    by (rule ends_kbind [OF getcurdir_handed [OF that]]) (rule change_bootfs_settled, simp)
  then show "ends (case setbootfs_path fsname of None \<Rightarrow> Err EINVAL (biglock_acquire s) | Some tmp \<Rightarrow>
      kbind (vfs_chdir ops tmp (biglock_acquire s)) (\<lambda>_ s. kbind (vfs_getcurdir ops s) (\<lambda>newguy s. change_bootfs ops (Some newguy) s)))
      (\<lambda>x t. acc (Suc n) t H) (\<lambda>e t. acc (Suc n) t H)"
    unfolding Some option.case by (rule ends_kbind [OF vfs_chdir_settled [OF acc_acquire [OF assms(1)] tmp]])
qed

text \<open>Opening a file that exists, without truncating it.\<close>

lemma vfs_open_handed:
  assumes "acc n s H" "0 \<notin> set path" "flags AND O_CREAT = 0" "flags AND O_TRUNC = 0"
  shows "handed n H (vfs_open ops path flags mode s)"
proof -
  have "handed n H (kbind (result_of (on_world (vop_eachopen ops v flags) t)) (\<lambda>result s.
      if result \<noteq> None then then_decref (Err (the result) s) ops v else Ok v s))" if a: "acc n t (add_ref H (Some v))" for v t
  proof (rule ends_kbind [OF ends_result_of])
    show "settled n (add_ref H (Some v)) (on_world (vop_eachopen ops v flags) t)"
      by (rule ends_mono [OF acc_keeps [where R = "\<lambda>_. True" and f = "vop_eachopen ops v flags", OF a]])
        (use eachopen_law [OF acc_refs(2) [OF a], of v flags] acc_refs(1) [OF a] in \<open>simp_all add: owners_held del: add_ref.simps\<close>)
    fix x :: "errno option" and u assume u: "acc n u (add_ref H (Some v))"
    then show "handed n H (if x \<noteq> None then then_decref (Err (the x) u) ops v else Ok v u)"
      using then_decref_settles [of "Err (the x) u" n "\<lambda>x. add_ref H (Some x)" v H] by simp
  qed
  then have "handed n H (kbind (vfs_lookup ops path s) (\<lambda>v t. kbind (result_of (on_world (vop_eachopen ops v flags) t)) (\<lambda>result s.
      if result \<noteq> None then then_decref (Err (the result) s) ops v else Ok v s)))"
    by (rule ends_kbind [OF vfs_lookup_handed [OF assms(1,2)]])
  then show ?thesis using assms by (simp add: vfs_open_def Let_def del: on_world.simps add_ref.simps cong: if_cong)
qed

lemma vfs_close_settled: "acc n s (add_ref H (Some v)) \<Longrightarrow> settled n H (vfs_close ops v s)"
  using acc_decref [of n s H v] by (auto simp: vfs_close_def simp del: on_world.simps)

end

end
