(* ===== verification/VfsSfs.thy ===== *)
theory VfsSfs
  imports VfsPath SfsFsops
begin

text \<open>
  The VFS layer over its file systems: the operation tables of devices (\<^verbatim>\<open>kern/vfs/device.c\<close>,
  \<^verbatim>\<open>kern/vfs/vfsfail.c\<close>) and of SFS (\<^verbatim>\<open>sfs_fileops\<close>, \<^verbatim>\<open>sfs_dirops\<close> and \<^verbatim>\<open>sfs_fsops\<close>), for any
  number of mounted volumes, and the proof that they satisfy the contract \<open>vnode_provider\<close> of path lookup.

  For that the volumes are sound as a whole: the files on the disk that are not loaded own their
  blocks as well, and every directory names files of the volume.
\<close>

subsection \<open>A volume that is sound as a whole\<close>

text \<open>The volume with all inodes of \<open>I\<close> loaded.\<close>

definition whole :: "u32 list \<Rightarrow> sfs_fs \<Rightarrow> sfs_fs" where
  "whole I s = s\<lparr>sfs_vnodes := map (fetch s) I\<rparr>"

definition file_sound :: "u32 list \<Rightarrow> sfs_fs \<Rightarrow> sfs_dinode \<Rightarrow> bool" where
  "file_sound I s di \<longleftrightarrow> sfi_linkcount di \<noteq> 0 \<and> sfi_type di \<in> {SFS_TYPE_FILE, SFS_TYPE_DIR} \<and>
     (sfi_type di = SFS_TYPE_DIR \<longrightarrow> dir_ok s di \<and> ran (dirmap s di) \<subseteq> set I)"

definition sound_vol :: "u32 list \<Rightarrow> sfs_fs \<Rightarrow> bool" where
  "sound_vol I s \<longleftrightarrow> vol_ok (whole I s) \<and> 0 \<notin> set I \<and> SFS_ROOTDIR_INO \<in> set I \<and>
     distinct (map sv_ino (sfs_vnodes s)) \<and> sv_ino ` set (sfs_vnodes s) \<subseteq> set I \<and>
     (\<forall>v \<in> set (sfs_vnodes s). 0 < vn_refcount v \<and> coherent s v) \<and>
     (\<forall>i \<in> set I. file_sound I s (sv_i (fetch s i))) \<and> sfi_type (sv_i (fetch s SFS_ROOTDIR_INO)) = SFS_TYPE_DIR"

lemma fetch_ino: "sv_ino (fetch s i) = i"
  using vn_in [of s i] by (auto simp: fetch_def vnode_init_def split: option.split)

lemma fetch_cong: "vn t = vn s \<Longrightarrow> blk t = blk s \<Longrightarrow> fetch t = fetch s"
  by (simp add: fetch_def fun_eq_iff split: option.split)

lemma fetch_loaded: "distinct (map sv_ino (sfs_vnodes s)) \<Longrightarrow> v \<in> set (sfs_vnodes s) \<Longrightarrow> vn s (sv_ino v) = Some v"
proof -
  assume d: "distinct (map sv_ino (sfs_vnodes s))" and v: "v \<in> set (sfs_vnodes s)"
  then obtain w where w: "vn s (sv_ino v) = Some w" by (cases "vn s (sv_ino v)") (auto simp: vn_None)
  then have "w \<in> set (sfs_vnodes s)" "sv_ino w = sv_ino v" using vn_in [OF w] by auto
  then show ?thesis using d v w by (auto simp: distinct_map inj_on_def)
qed

lemma sound_table:
  assumes "sound_vol I s" "distinct (map sv_ino vs)" "\<And>w. w \<in> set vs \<Longrightarrow> \<exists>i \<in> set I. sv_i w = sv_i (fetch s i) \<and> sv_ino w = i"
  shows "vol_ok (s\<lparr>sfs_vnodes := vs\<rparr>)"
proof -
  have "fs_ok ((whole I s)\<lparr>biglock := 1\<rparr>)" using assms(1) by (simp add: sound_vol_def vol_ok_def)
  from fs_ok_table [OF this assms(2)] have "fs_ok ((whole I s)\<lparr>biglock := 1\<rparr>\<lparr>sfs_vnodes := vs\<rparr>)"
    using assms(3) fetch_ino [of s] by (fastforce simp: whole_def)
  then show ?thesis by (cases s) (simp add: vol_ok_def whole_def)
qed

lemma sound_ok: "sound_vol I s \<Longrightarrow> vol_ok s"
  using sound_table [of I s "sfs_vnodes s"] fetch_loaded [of s] by (fastforce simp: sound_vol_def fetch_def)

lemma sound_fetchable:
  assumes "sound_vol I s" "i \<in> set I"
  shows "fetchable s i"
proof -
  have f: "file_sound I s (sv_i (fetch s i))" "i \<noteq> 0" using assms by (auto simp: sound_vol_def)
  have "0 < vn_refcount (fetch s i)"
    using assms(1) vn_in [of s i] by (auto simp: fetch_def sound_vol_def vnode_init_def split: option.split)
  moreover have "i < sb_nblocks (sfs_sb s) \<and> unat i \<in> used s"
  proof -
    have "fs_ok ((whole I s)\<lparr>biglock := 1\<rparr>)" using assms(1) by (simp add: sound_vol_def vol_ok_def)
    from fs_ok_slot [OF this, of "fetch s i" 0] show ?thesis using assms(2) f(2) by (simp add: whole_def fetch_ino)
  qed
  moreover have "vol_ok (s\<lparr>sfs_vnodes := sfs_vnodes s @ [fetch s i]\<rparr>)" if "vn s i = None"
  proof (rule sound_table [OF assms(1)])
    show "distinct (map sv_ino (sfs_vnodes s @ [fetch s i]))" using that assms(1) by (simp add: sound_vol_def fetch_ino vn_None)
    fix w assume w: "w \<in> set (sfs_vnodes s @ [fetch s i])"
    show "\<exists>j \<in> set I. sv_i w = sv_i (fetch s j) \<and> sv_ino w = j"
    proof (cases "w \<in> set (sfs_vnodes s)")
      case True
      then have "vn s (sv_ino w) = Some w" "sv_ino w \<in> set I" using assms(1) fetch_loaded by (auto simp: sound_vol_def)
      then show ?thesis by (auto simp: fetch_def)
    qed (use w assms(2) fetch_ino in auto)
  qed
  ultimately show ?thesis using f by (simp add: fetchable_def file_sound_def)
qed

text \<open>
  Soundness is kept by every step that leaves the files, the blocks in use and the superblock as they
  are and only loads vnodes, drops them or changes their counts.
\<close>

lemma sound_step:
  assumes s: "sound_vol I s" and ok: "vol_ok t" and sb: "sfs_sb t = sfs_sb s" and us: "used t = used s"
    and di: "\<And>i. i \<in> set I \<Longrightarrow> sv_i (fetch t i) = sv_i (fetch s i)"
    and fm: "\<And>i. i \<in> set I \<Longrightarrow> fmap t (sv_i (fetch s i)) = fmap s (sv_i (fetch s i))"
    and fb: "\<And>i. i \<in> set I \<Longrightarrow> fbyte t (sv_i (fetch s i)) = fbyte s (sv_i (fetch s i))"
    and vs: "\<And>v. v \<in> set (sfs_vnodes t) \<Longrightarrow> sv_ino v \<in> set I \<and> 0 < vn_refcount v \<and> coherent t v"
  shows "sound_vol I t"
proof -
  have sok: "fs_ok ((whole I s)\<lparr>biglock := 1\<rparr>)" using s by (simp add: sound_vol_def vol_ok_def)
  have tok: "fs_ok (t\<lparr>biglock := 1\<rparr>)" using ok by (simp add: vol_ok_def)
  have sl: "slot t (fetch t i) k = slot s (fetch s i) k" if "i \<in> set I" for i k
    using di [OF that] fm [OF that] by (cases k rule: slot_cases) (simp_all add: fetch_ino)
  have dist: "distinct I" using fs_okD(6) [OF sok] by (simp add: whole_def fetch_ino comp_def)
  have dio: "dinode_ok (sv_i (fetch s i))" if "i \<in> set I" for i using fs_ok_dinode [OF sok] that by (simp add: whole_def)
  have slu: "slot s (fetch s i) k < sb_nblocks (sfs_sb s) \<and> unat (slot s (fetch s i) k) \<in> used s" if "i \<in> set I" "slot s (fetch s i) k \<noteq> 0" for i k
    using fs_ok_slot [OF sok, of "fetch s i" k] that by (simp add: whole_def)
  have inj: "i = j \<and> k = l" if "i \<in> set I" "j \<in> set I" "slot s (fetch s i) k = slot s (fetch s j) l" "slot s (fetch s i) k \<noteq> 0" for i j k l
    using fs_ok_slot_inj [OF sok, of "fetch s i" "fetch s j" k l] that by (simp add: whole_def fetch_ino)
  have wok: "vol_ok (whole I t)"
    unfolding vol_ok_def fs_ok_def
  proof (intro conjI ballI allI impI, goal_cases)
    case (8 v)
    then show ?case using di dio by (auto simp: whole_def)
  next
    case (9 v k)
    then show ?case using sl slu sb us by (auto simp: whole_def)
  next
    case (10 v k)
    then show ?case using sl slu sb us by (auto simp: whole_def)
  next
    case (11 v w k l)
    then show ?case using sl inj by (auto simp: whole_def fetch_ino)
  next
    case (12 v w k l)
    then show ?case using sl inj by (auto simp: whole_def fetch_ino)
  qed (use fs_okD [OF tok] dist tok in \<open>simp_all add: whole_def fetch_ino comp_def fs_ok_def healthy_def fs_dev_ok_def\<close>)
  have f: "file_sound I t (sv_i (fetch t i))" if "i \<in> set I" for i
    using s that dirmap_fbyte [of t "sv_i (fetch t i)" s "sv_i (fetch s i)"] di [OF that] fb [OF that]
    by (simp add: sound_vol_def file_sound_def)
  have "distinct (map sv_ino (sfs_vnodes t))" using fs_okD(6) [OF tok] by simp
  then show ?thesis using wok f vs s di [of SFS_ROOTDIR_INO] by (auto simp: sound_vol_def)
qed

lemma sound_loaded:
  assumes s: "sound_vol I s" and ok: "vol_ok t" and sb: "sfs_sb t = sfs_sb s" and us: "used t = used s" and b: "blk t = blk s"
    and v: "vn t = (vn s)(i \<mapsto> w)" and i: "i \<in> set I" and w: "sv_i w = sv_i (fetch s i)" "0 < vn_refcount w" "coherent s w"
  shows "sound_vol I t"
proof (rule sound_step [OF s ok sb us])
  show "sv_i (fetch t j) = sv_i (fetch s j)" for j using v w(1) b by (cases "j = i") (simp_all add: fetch_def split: option.split)
  show "fmap t (sv_i (fetch s j)) = fmap s (sv_i (fetch s j))" "fbyte t (sv_i (fetch s j)) = fbyte s (sv_i (fetch s j))" for j
    using fmap_blk [OF b] fbyte_blk [OF b] by simp_all
  fix x assume x: "x \<in> set (sfs_vnodes t)"
  have t: "fs_ok (t\<lparr>biglock := 1\<rparr>)" using ok by (simp add: vol_ok_def)
  then have "vn t (sv_ino x) = Some x" using vn_of_in [OF t, of x] x by simp
  then have "x = w \<and> sv_ino x = i \<or> x \<in> set (sfs_vnodes s)" using v vn_in [of s "sv_ino x" x] by (auto split: if_splits)
  then show "sv_ino x \<in> set I \<and> 0 < vn_refcount x \<and> coherent t x"
    using s i w(2,3) b by (auto simp: sound_vol_def coherent_def)
qed

text \<open>The references to the inode \<open>i\<close> of a volume; 0 when it is not loaded.\<close>

definition vrefs :: "sfs_fs \<Rightarrow> u32 \<Rightarrow> nat" where
  "vrefs s i = (case vn s i of None \<Rightarrow> 0 | Some v \<Rightarrow> vn_refcount v)"

lemma vrefs_upd: "vn t = (vn s)(i \<mapsto> w) \<Longrightarrow> vrefs t = (vrefs s)(i := vn_refcount w)"
  and vrefs_del: "vn t = (vn s)(i := None) \<Longrightarrow> vrefs t = (vrefs s)(i := 0)"
  by (auto simp: vrefs_def fun_eq_iff)

lemma sound_vn:
  assumes "sound_vol I s" "0 < vrefs s i"
  obtains v where "vn s i = Some v" "vrefs s i = vn_refcount v" "i \<in> set I" "i \<noteq> 0" "coherent s v" "fetch s i = v" "sv_ino v = i"
    "file_sound I s (sv_i v)" "v \<in> set (sfs_vnodes s)"
proof -
  obtain v where v: "vn s i = Some v" using assms(2) by (auto simp: vrefs_def split: option.splits)
  moreover from this have "v \<in> set (sfs_vnodes s)" "sv_ino v = i" using vn_in by auto
  ultimately show ?thesis using that [of v] assms(1) by (fastforce simp: vrefs_def fetch_def sound_vol_def)
qed

lemma sound_incref:
  assumes "sound_vol I s" "0 < vrefs s i"
  shows "sound_vol I (vnode_incref i s)" "vrefs (vnode_incref i s) = (vrefs s)(i := Suc (vrefs s i))"
proof -
  obtain v where v: "vn s i = Some v" "vrefs s i = vn_refcount v" "i \<in> set I" "coherent s v" "fetch s i = v"
    by (rule sound_vn [OF assms])
  let ?w = "v\<lparr>vn_refcount := Suc (vn_refcount v)\<rparr>"
  have vt: "vn (vnode_incref i s) = (vn s)(i \<mapsto> ?w)" using v(1) by (simp add: vnode_incref_def vn_updv fun_eq_iff)
  have "vol_ok (vnode_incref i s)"
    using vnode_incref_ok(1) [of "s\<lparr>biglock := 1\<rparr>" i v] sound_ok [OF assms(1)] v(1)
    by (simp add: vol_ok_def vnode_incref_def updv_biglock)
  then show "sound_vol I (vnode_incref i s)"
    by (rule sound_loaded [OF assms(1) _ _ _ _ vt v(3)]) (use v in \<open>simp_all add: vnode_incref_def coherent_def\<close>)
  show "vrefs (vnode_incref i s) = (vrefs s)(i := Suc (vrefs s i))" using vrefs_upd [OF vt] v(2) by simp
qed

lemma sound_decref_more:
  assumes "sound_vol I s" "1 < vrefs s i"
  shows "\<exists>t. vnode_decref i s = Ok () t \<and> sound_vol I t \<and> vrefs t = (vrefs s)(i := vrefs s i - 1)"
proof -
  have p: "0 < vrefs s i" using assms(2) by simp
  obtain v where v: "vn s i = Some v" "vrefs s i = vn_refcount v" "i \<in> set I" "coherent s v" "fetch s i = v"
    by (rule sound_vn [OF assms(1) p])
  let ?f = "\<lambda>v :: sfs_vnode. v\<lparr>vn_refcount := vn_refcount v - 1\<rparr>"
  obtain t where t: "vnode_decref i s = Ok () t" "vol_ok t" "vn t = (vn s)(i \<mapsto> ?f v)" "used t = used s" "blk t = blk s"
    using decref_more [OF sound_ok [OF assms(1)] v(1)] assms(2) v(2) by metis
  have "t = updv i ?f s" using t(1) v(1,2) assms(2) by (simp add: vnode_decref_def getv_vn [OF v(1)])
  then have "sound_vol I t"
    by (intro sound_loaded [OF assms(1) t(2) _ t(4,5,3) v(3)]) (use v assms(2) in \<open>simp_all add: coherent_def\<close>)
  then show ?thesis using t(1) vrefs_upd [OF t(3)] v(2) by auto
qed

text \<open>Writing the block of an inode disturbs no file of the volume, loaded or not.\<close>

lemma whole_setblk:
  assumes s: "sound_vol I s" and i: "i \<in> set I" and len: "length x = 512" and b: "blk t = (blk s)(i := x)" and j: "j \<in> set I"
  shows "fmap t (sv_i (fetch s j)) = fmap s (sv_i (fetch s j))" "fbyte t (sv_i (fetch s j)) = fbyte s (sv_i (fetch s j))"
proof -
  let ?W = "(whole I s)\<lparr>biglock := 1\<rparr>"
  have W: "fs_ok ?W" using s by (simp add: sound_vol_def vol_ok_def)
  have bW: "blk ?W = blk s" by (simp add: whole_def)
  have "fetch s i \<in> set (sfs_vnodes ?W)" "fetch s j \<in> set (sfs_vnodes ?W)" using i j by (simp_all add: whole_def)
  moreover from this have v: "vn ?W i = Some (fetch s i)" using vn_of_in [OF W] fetch_ino by metis
  ultimately have e: "fmap (setblk i x ?W) (sv_i (fetch s j)) = fmap ?W (sv_i (fetch s j))"
    "fbyte (setblk i x ?W) (sv_i (fetch s j)) = fbyte ?W (sv_i (fetch s j))"
    using setblk_ino [OF W v _ len, of "fetch s j"] i s by (auto simp: sound_vol_def)
  have bt: "blk t = blk (setblk i x ?W)" using b bW by auto
  show "fmap t (sv_i (fetch s j)) = fmap s (sv_i (fetch s j))" using e(1) fmap_blk [OF bt] fmap_blk [OF bW] by simp
  show "fbyte t (sv_i (fetch s j)) = fbyte s (sv_i (fetch s j))" using e(2) fbyte_blk [OF bt] fbyte_blk [OF bW] by simp
qed

lemma sound_decref_last:
  assumes s: "sound_vol I s" and one: "vrefs s i = 1"
  shows "\<exists>t. vnode_decref i s = Ok () t \<and> sound_vol I t \<and> vrefs t = (vrefs s)(i := 0)"
proof -
  have p: "0 < vrefs s i" using one by simp
  obtain v where v: "vn s i = Some v" "vrefs s i = vn_refcount v" "i \<in> set I" "i \<noteq> 0" "coherent s v" "fetch s i = v" "sv_ino v = i"
    "file_sound I s (sv_i v)" "v \<in> set (sfs_vnodes s)"
    by (rule sound_vn [OF s p])
  have rc: "vn_refcount v = 1" "sfi_linkcount (sv_i v) \<noteq> 0" using v one by (simp_all add: file_sound_def)
  obtain t where t: "vnode_decref i s = Ok () (t\<lparr>sfs_vnodes := filter (\<lambda>v. sv_ino v \<noteq> i) (sfs_vnodes t), biglock := biglock s\<rparr>)"
    "fs_ok t" "biglock t = Suc (biglock s)" "sfs_sb t = sfs_sb s" "curas t = curas s"
    "vn t = (vn s)(i \<mapsto> v\<lparr>sv_dirty := False\<rparr>)" "used t = used s"
    "blk t = (if sv_dirty v then (blk s)(i := enc_dinode (sv_i v)) else blk s)"
    by (rule decref_linked [OF sound_ok [OF s] v(1,4) rc])
  have "vn t i = Some (v\<lparr>sv_dirty := False\<rparr>)" using t(6) by simp
  then obtain u where u: "fs_ok u" "vn u = (vn t)(i := None)" "u = t\<lparr>sfs_vnodes := filter (\<lambda>v. sv_ino v \<noteq> i) (sfs_vnodes t)\<rparr>"
    by (rule remove_vnode_ok [OF t(2)])
  let ?t = "u\<lparr>biglock := biglock s\<rparr>"
  have d: "vnode_decref i s = Ok () ?t" using t(1) u(3) by simp
  have vt: "vn ?t = (vn s)(i := None)" using u(2) t(6) by simp
  have dino: "dinode_ok (sv_i v)" using fs_ok_dinode [of "s\<lparr>biglock := 1\<rparr>" v] sound_ok [OF s] v(9) by (simp add: vol_ok_def)
  have dec: "dec_dinode (blk t i) = sv_i v"
    using t(8) v(5,7) dino by (auto simp: coherent_def dec_enc_dinode)
  have bt: "blk ?t = blk t" using u(3) by simp
  have bj: "blk t j = blk s j" if "j \<noteq> i" for j using t(8) that by simp
  have fm: "fmap ?t (sv_i (fetch s j)) = fmap s (sv_i (fetch s j)) \<and> fbyte ?t (sv_i (fetch s j)) = fbyte s (sv_i (fetch s j))"
    if "j \<in> set I" for j
  proof (cases "sv_dirty v")
    case True
    then have "blk ?t = (blk s)(i := enc_dinode (sv_i v))" using t(8) bt by simp
    from whole_setblk [OF s v(3) _ this that] show ?thesis using dino by simp
  next
    case False
    then have "blk ?t = blk s" using t(8) bt by simp
    from fmap_blk [OF this] fbyte_blk [OF this] show ?thesis by simp
  qed
  have "sound_vol I ?t"
  proof (rule sound_step [OF s vol_ok_release [OF u(1)]])
    show "sfs_sb ?t = sfs_sb s" "used ?t = used s" unfolding u(3) used_def using t(4,7) [unfolded used_def] by simp_all
    show "sv_i (fetch ?t j) = sv_i (fetch s j)" for j
    proof (cases "j = i")
      case True
      then have "sv_i (fetch ?t j) = dec_dinode (blk t i)" using vt bt by (simp add: fetch_def vnode_init_def)
      then show ?thesis using True v(6) dec by simp
    next
      case False
      then show ?thesis using vt bj [OF False] bt by (simp add: fetch_def split: option.split)
    qed
    fix x assume x: "x \<in> set (sfs_vnodes ?t)"
    then have "vn u (sv_ino x) = Some x" using vn_of_in [OF u(1), of x] by simp
    moreover have "vn u (sv_ino x) = (if sv_ino x = i then None else vn s (sv_ino x))" using u(2) t(6) by simp
    ultimately have e: "vn s (sv_ino x) = Some x" "sv_ino x \<noteq> i" by (simp_all split: if_splits)
    have "x \<in> set (sfs_vnodes s)" using vn_in [OF e(1)] by simp
    then have "sv_ino x \<in> set I" "0 < vn_refcount x" "coherent s x" using s unfolding sound_vol_def by blast+
    then show "sv_ino x \<in> set I \<and> 0 < vn_refcount x \<and> coherent ?t x" using bj [OF e(2)] bt by (simp add: coherent_def)
  qed (use fm in simp_all)
  then show ?thesis using d vrefs_del [OF vt] by blast
qed

lemma sound_decref:
  assumes "sound_vol I s" "0 < vrefs s i"
  shows "\<exists>t. vnode_decref i s = Ok () t \<and> sound_vol I t \<and> vrefs t = (vrefs s)(i := vrefs s i - 1)"
  using assms sound_decref_more [of I s i] sound_decref_last [of I s i] by (cases "vrefs s i = 1") auto


subsection \<open>The operations of SFS on a sound volume\<close>

lemma sound_biglock [simp]: "sound_vol I (s\<lparr>biglock := n\<rparr>) = sound_vol I s"
proof -
  have f: "fetch (s\<lparr>biglock := n\<rparr>) = fetch s" by (rule fetch_cong) simp_all
  have w: "vol_ok (whole I (s\<lparr>biglock := n\<rparr>)) = vol_ok (whole I s)" unfolding whole_def f by (cases s) (simp add: vol_ok_def)
  show ?thesis by (simp add: sound_vol_def w f coherent_def file_sound_def)
qed

lemma sound_acquire [simp]: "sound_vol I (vfs_biglock_acquire s) = sound_vol I s"
  by (simp add: vfs_biglock_acquire_def)

lemma vrefs_biglock [simp]: "vrefs (s\<lparr>biglock := n\<rparr>) = vrefs s" "vrefs (vfs_biglock_acquire s) = vrefs s"
  by (simp_all add: vrefs_def fun_eq_iff)

lemma sound_quiet:
  assumes s: "sound_vol I s" and q: "quiet (vfs_biglock_acquire s) t"
  shows "sound_vol I t" "vrefs t = vrefs s"
proof -
  note d = quietD [OF q, simplified]
  have ok: "vol_ok t" using d(10) vol_ok_acquire [OF sound_ok [OF s]] by (intro fs_ok_vol) simp
  show "sound_vol I t"
    by (rule sound_step [OF s ok d(6,3)]) (use d(2,4,5,9) fetch_cong [OF d(1,2)] s in \<open>auto simp: sound_vol_def coherent_def\<close>)
  show "vrefs t = vrefs s" using d(1) by (simp add: vrefs_def fun_eq_iff)
qed

text \<open>The outcome of handing out an inode of a sound volume, at lock depth \<open>n\<close>.\<close>

definition hands :: "u32 list \<Rightarrow> sfs_fs \<Rightarrow> nat \<Rightarrow> ('a \<Rightarrow> u32) \<Rightarrow> ('a, sfs_fs) res \<Rightarrow> bool" where
  "hands I s n pick r \<longleftrightarrow>
     ends r (\<lambda>x t. sound_vol I t \<and> biglock t = n \<and> vrefs t = add_ref (vrefs s) (Some (pick x)))
       (\<lambda>e t. sound_vol I t \<and> biglock t = n \<and> vrefs t = vrefs s)"

lemma hands_unlocked: "hands I s (Suc (biglock s)) pick r \<Longrightarrow> hands I s (biglock s) pick (unlocked r)"
  by (cases r) (auto simp: hands_def unlocked_simps unlocked_def ends_def vfs_biglock_release_def vfs_biglock_do_i_hold_def)

lemma sound_load:
  assumes s: "sound_vol I s" and i: "i \<in> set I" and q: "quiet (vfs_biglock_acquire s) t"
  shows "ends (sfs_loadvnode km am i SFS_TYPE_INVAL t)
    (\<lambda>x u. x = i \<and> sound_vol I u \<and> biglock u = Suc (biglock s) \<and> vrefs u = add_ref (vrefs s) (Some i) \<and>
       (\<exists>v. vn u i = Some v \<and> sv_i v = sv_i (fetch s i)))
    (\<lambda>e u. sound_vol I u \<and> biglock u = Suc (biglock s) \<and> vrefs u = vrefs s)"
proof -
  note fe = sound_fetchable [OF s i]
  note d = quietD [OF q, simplified]
  have i0: "i \<noteq> 0" using fe by (simp add: fetchable_def)
  have tok: "fs_ok t" using d(10) vol_ok_acquire [OF sound_ok [OF s]] by simp
  obtain u where u: "sfs_loadvnode True True i SFS_TYPE_INVAL t = Ok i u" "fs_ok u" "blk u = blk s" "used u = used s"
    "biglock u = Suc (biglock s)"
    "vn u = (vn s)(i \<mapsto> (fetch s i)\<lparr>vn_refcount := (if vn s i = None then 1 else Suc (vn_refcount (fetch s i)))\<rparr>)" "sfs_sb u = sfs_sb s"
    by (rule load_fetch [OF q sound_ok [OF s] fe])
  let ?w = "(fetch s i)\<lparr>vn_refcount := (if vn s i = None then 1 else Suc (vn_refcount (fetch s i)))\<rparr>"
  have "coherent s (fetch s i)"
    using s vn_in [of s i] by (auto simp: fetch_def coherent_def vnode_init_def sound_vol_def split: option.split)
  then have su: "sound_vol I u"
    by (intro sound_loaded [OF s fs_ok_vol [OF u(2)] u(7,4,3,6) i]) (simp_all add: coherent_def)
  have ru: "vrefs u = add_ref (vrefs s) (Some i)"
    using vrefs_upd [OF u(6)] by (auto simp: vrefs_def fetch_def fun_eq_iff split: option.splits)
  have yes: ?thesis if "sfs_loadvnode km am i SFS_TYPE_INVAL t = Ok i u" using that su ru u(5,6) by simp
  show ?thesis
  proof (cases "vn s i")
    case (Some v)
    then have "vn t i = Some v" using d(1) by simp
    note loadvnode_loaded [OF tok this i0]
    then show ?thesis using u(1) by (intro yes) (metis)
  next
    case None
    let ?di = "dec_dinode (blk t i)"
    have l: "i < sb_nblocks (sfs_sb t)" "unat i \<in> used t" "sfi_type ?di \<in> {SFS_TYPE_FILE, SFS_TYPE_DIR}"
      using fe None d by (simp_all add: fetchable_def fetch_def vnode_init_def)
    have "sfs_loadvnode km am i SFS_TYPE_INVAL t = (if \<not> km then Err ENOMEM t else if \<not> am then Err ENOMEM (touch (blk t i) t)
        else sfs_loadvnode True True i SFS_TYPE_INVAL t)"
      using loadvnode_fresh [OF tok, of i SFS_TYPE_INVAL "sfi_type ?di"] None l d(1) by simp
    moreover have "quiet (vfs_biglock_acquire s) (touch (blk t i) t)"
      using q length_blk [OF fs_okD(1) [OF tok], of i] by (intro quiet_trans [OF q] quiet_touch) simp
    ultimately show ?thesis
      using yes u(1) sound_quiet [OF s q] sound_quiet [OF s, of "touch (blk t i) t"] d(7) by simp
  qed
qed


lemma sound_getroot:
  assumes s: "sound_vol I s"
  shows "hands I s (biglock s) id (sfs_getroot km am s)"
proof -
  have "SFS_ROOTDIR_INO \<in> set I" "sfi_type (sv_i (fetch s SFS_ROOTDIR_INO)) = SFS_TYPE_DIR" using s by (simp_all add: sound_vol_def)
  then show ?thesis unfolding sfs_getroot_def
    by (intro hands_unlocked) (auto simp: hands_def getv_vn intro!: ends_kbind [OF sound_load [OF s _ quiet_refl]] simp del: add_ref.simps)
qed

lemma holds_cstr: "0 \<notin> set p \<Longrightarrow> holds (p @ [0]) 0 p"
  by (simp add: CString.holds_def nth_append)

lemma sound_lookup:
  assumes s: "sound_vol I s" and r: "0 < vrefs s i" and p: "0 \<notin> set p"
  shows "hands I s (biglock s) id (sfs_lookup km am i (p @ [0]) s)"
proof -
  let ?s = "vfs_biglock_acquire s"
  obtain v where v: "vn s i = Some v" "i \<in> set I" "fetch s i = v" "file_sound I s (sv_i v)" by (rule sound_vn [OF s r])
  have vs: "vn ?s i = Some v" using v(1) by simp
  have nodir: "hands I s (Suc (biglock s)) id (Err ENOTDIR ?s :: (u32, sfs_fs) res)" using s by (simp add: hands_def)
  have "hands I s (Suc (biglock s)) id (kbind (sfs_lookonce km am i (p @ [0]) ?s) (\<lambda>(final, _) s. Ok final s))"
    if "sfi_type (sv_i v) = SFS_TYPE_DIR"
  proof -
    have d: "dir_ok ?s (sv_i v)" "ran (dirmap s (sv_i v)) \<subseteq> set I" using v(4) that by (simp_all add: file_sound_def)
    obtain t ds where f: "sfs_dir_findname i (p @ [0]) ?s = Ok (if dirmap s (sv_i v) p = None then Some ENOENT else None, ds) t"
      "quiet ?s t" "ds_ino ds = dirmap s (sv_i v) p"
      using findname_ok [OF vol_ok_acquire [OF sound_ok [OF s]] vs d(1) holds_cstr [OF p]] by (metis dirmap_acquire(1))
    show ?thesis
    proof (cases "dirmap s (sv_i v) p")
      case None
      then show ?thesis using f(1) sound_quiet [OF s f(2)] quietD(7) [OF f(2)] by (simp add: sfs_lookonce_def hands_def)
    next
      case (Some j)
      then have j: "j \<in> set I" using d(2) by (auto simp: ran_def)
      have lc: "sfi_linkcount (sv_i (fetch s j)) \<noteq> 0" using s j by (simp add: sound_vol_def file_sound_def)
      have l: "ends (kbind (sfs_loadvnode km am j SFS_TYPE_INVAL t) (\<lambda>sv u. getv sv u (\<lambda>v.
            if sfi_linkcount (sv_i v) = 0 then Panic else Ok (sv, the (ds_slot ds)) u)))
          (\<lambda>x u. fst x = j \<and> sound_vol I u \<and> biglock u = Suc (biglock s) \<and> vrefs u = add_ref (vrefs s) (Some j))
          (\<lambda>e u. sound_vol I u \<and> biglock u = Suc (biglock s) \<and> vrefs u = vrefs s)"
        by (rule ends_kbind [OF sound_load [OF s j f(2)]]) (use lc in \<open>auto simp: getv_vn\<close>)
      have e: "sfs_lookonce km am i (p @ [0]) ?s = kbind (sfs_loadvnode km am j SFS_TYPE_INVAL t) (\<lambda>sv u. getv sv u (\<lambda>v.
            if sfi_linkcount (sv_i v) = 0 then Panic else Ok (sv, the (ds_slot ds)) u))"
        using f(1,3) Some by (simp add: sfs_lookonce_def)
      show ?thesis unfolding hands_def e by (rule ends_kbind [OF l]) auto
    qed
  qed
  then show ?thesis using nodir unfolding sfs_lookup_def Let_def getv_vn [OF vs] by (intro hands_unlocked) simp
qed

lemma sound_lookparent:
  assumes s: "sound_vol I s" and r: "0 < vrefs s i" and p: "0 \<notin> set p"
  shows "hands I s (biglock s) fst (sfs_lookparent i (p @ [0]) (replicate n 0) s)"
proof -
  let ?s = "vfs_biglock_acquire s"
  obtain v where v: "vn s i = Some v" by (rule sound_vn [OF s r])
  have vs: "vn ?s i = Some v" using v by simp
  have len: "strlen (p @ [0]) 0 = Ok (length p) ()" using strlen_holds [OF holds_cstr [OF p]] by simp
  have inc: "hands I s (Suc (biglock s)) fst (Ok (i, b) (vnode_incref i ?s))" for b :: "byte list"
    using sound_incref [of I ?s i] s r by (simp add: hands_def vnode_incref_def)
  have "hands I s (Suc (biglock s)) fst
     (if length p + 1 > length (replicate n (0 :: byte)) then Err ENAMETOOLONG ?s
      else (case strcpy (replicate n 0) 0 (p @ [0]) 0 of
              Ok _ buf \<Rightarrow> Ok (i, buf) (vnode_incref i ?s)
            | Err e _ \<Rightarrow> Err e ?s
            | Panic \<Rightarrow> Panic | Fault \<Rightarrow> Fault | Hang \<Rightarrow> Hang))"
    using inc s strcpy_holds [OF holds_cstr [OF p], of 0 "replicate n 0"] by (simp add: hands_def)
  moreover have "hands I s (Suc (biglock s)) fst (Err ENOTDIR ?s :: (u32 \<times> byte list, sfs_fs) res)" using s by (simp add: hands_def)
  ultimately show ?thesis unfolding sfs_lookparent_def Let_def getv_vn [OF vs] by (intro hands_unlocked) (simp add: len)
qed

lemma sound_gettype:
  assumes s: "sound_vol I s" and r: "0 < vrefs s i"
  shows "\<exists>ty. sfs_gettype i s = Ok ty s"
proof -
  obtain v where v: "vn s i = Some v" "file_sound I s (sv_i v)" by (rule sound_vn [OF s r])
  have "vn (vfs_biglock_acquire s) i = Some v" using v(1) by simp
  note g = getv_vn [OF this]
  have "unlocked (Ok x (vfs_biglock_acquire s)) = Ok x s" for x :: u32
    by (simp add: unlocked_simps(1) [where n = "biglock s"]) (simp add: vfs_biglock_acquire_def)
  then show ?thesis using v(2) by (auto simp: sfs_gettype_def Let_def g file_sound_def)
qed


subsection \<open>The operation tables\<close>

text \<open>
  A device, with its fields as the machine has them; \<open>devop_eachopen\<close> is the driver's open function. A
  vnode is one of a device or one of a mounted volume, named by its inode.
\<close>

record device =
  d_blocks :: u32
  d_blocksize :: u32
  devop_eachopen :: "u32 \<Rightarrow> errno option"

datatype kvnode = DevVn nat | SfsVn nat u32

text \<open>
  The state behind the operations: the mounted volumes, the device vnodes with their reference count (0
  for none; a natural number for the \<^verbatim>\<open>int\<close> of the code, as in \<open>SfsDisk\<close>) and the device each belongs to, and the devices.
\<close>

record kworld =
  vols :: "nat \<Rightarrow> sfs_fs option"
  devcount :: "nat \<Rightarrow> nat"
  vn_data :: "nat \<Rightarrow> nat option"
  devvnodes :: nat
  devices :: "nat \<Rightarrow> device"

text \<open>A call on a volume. The tables of operations differ between files and directories; a vnode gets its table when it is loaded.\<close>

definition on_vol :: "nat \<Rightarrow> (sfs_fs \<Rightarrow> ('a, sfs_fs) res) \<Rightarrow> kworld \<Rightarrow> ('a, kworld) res" where
  "on_vol f g w =
     (case vols w f of
        None \<Rightarrow> Fault
      | Some s \<Rightarrow>
          (case g s of
             Ok x t \<Rightarrow> Ok x (w\<lparr>vols := (vols w)(f \<mapsto> t)\<rparr>)
           | Err e t \<Rightarrow> Err e (w\<lparr>vols := (vols w)(f \<mapsto> t)\<rparr>)
           | Panic \<Rightarrow> Panic | Fault \<Rightarrow> Fault | Hang \<Rightarrow> Hang))"

definition has_dirops :: "nat \<Rightarrow> u32 \<Rightarrow> kworld \<Rightarrow> bool" where
  "has_dirops f i w =
     (case vols w f of None \<Rightarrow> False | Some s \<Rightarrow>
        (case vn s i of None \<Rightarrow> False | Some v \<Rightarrow> sfi_type (sv_i v) = SFS_TYPE_DIR))"

definition dirop :: "nat \<Rightarrow> u32 \<Rightarrow> (sfs_fs \<Rightarrow> ('a, sfs_fs) res) \<Rightarrow> kworld \<Rightarrow> ('a, kworld) res" where
  "dirop f i g w = (if has_dirops f i w then on_vol f g w else Err ENOTDIR w)"

fun kfs :: "kvnode \<Rightarrow> nat option" where
  "kfs (DevVn k) = None"
| "kfs (SfsVn f i) = Some f"

definition volname :: "nat \<Rightarrow> kworld \<Rightarrow> cstr option" where
  "volname f w =
     (case vols w f of None \<Rightarrow> None | Some s \<Rightarrow>
        (case sfs_getvolname s of Ok b _ \<Rightarrow> Some (takeWhile (\<lambda>c. c \<noteq> 0) b) | _ \<Rightarrow> None))"

text \<open>A successful unmount destroys the file system object.\<close>

definition unmount_vol :: "nat \<Rightarrow> kworld \<Rightarrow> (unit, kworld) res" where
  "unmount_vol f w = kbind (on_vol f sfs_unmount w) (\<lambda>_ w. Ok () (w\<lparr>vols := (vols w)(f := None)\<rparr>))"

fun kincref :: "kvnode \<Rightarrow> kworld \<Rightarrow> (unit, kworld) res" where
  "kincref (DevVn k) w = Ok () (w\<lparr>devcount := (devcount w)(k := Suc (devcount w k))\<rparr>)"
| "kincref (SfsVn f i) w = on_vol f (\<lambda>s. Ok () (vnode_incref i s)) w"

text \<open>\<^verbatim>\<open>dev_reclaim\<close> does nothing, so that the count of a device vnode stays 1 when the last reference is dropped.\<close>

fun kdecref :: "kvnode \<Rightarrow> kworld \<Rightarrow> (unit, kworld) res" where
  "kdecref (DevVn k) w =
     kassert (devcount w k > 0)
       (if devcount w k > 1 then Ok () (w\<lparr>devcount := (devcount w)(k := devcount w k - 1)\<rparr>) else Ok () w)"
| "kdecref (SfsVn f i) w = on_vol f (vnode_decref i) w"

definition S_IFCHR :: u32 where "S_IFCHR = 0x6000"
definition S_IFBLK :: u32 where "S_IFBLK = 0x7000"

definition dev_of :: "nat \<Rightarrow> kworld \<Rightarrow> device" where
  "dev_of k w = devices w (the (vn_data w k))"

fun kgettype :: "kvnode \<Rightarrow> kworld \<Rightarrow> (u32, kworld) res" where
  "kgettype (DevVn k) w = Ok (if d_blocks (dev_of k w) > 0 then S_IFBLK else S_IFCHR) w"
| "kgettype (SfsVn f i) w = on_vol f (sfs_gettype i) w"

fun keachopen :: "kvnode \<Rightarrow> u32 \<Rightarrow> kworld \<Rightarrow> (unit, kworld) res" where
  "keachopen (DevVn k) flags w =
     (if flags AND (O_CREAT OR O_TRUNC OR O_EXCL OR O_APPEND) \<noteq> 0 then Err EINVAL w
      else (case devop_eachopen (dev_of k w) flags of None \<Rightarrow> Ok () w | Some e \<Rightarrow> Err e w))"
| "keachopen (SfsVn f i) flags w = on_vol f (if has_dirops f i w then sfs_eachopendir i flags else sfs_eachopen i flags) w"

fun ktruncate :: "kvnode \<Rightarrow> int \<Rightarrow> kworld \<Rightarrow> (unit, kworld) res" where
  "ktruncate (DevVn k) len w =
     (if d_blocks (dev_of k w) > 0 \<and> uint (d_blocks (dev_of k w) * d_blocksize (dev_of k w)) = len then Ok () w else Err EINVAL w)"
| "ktruncate (SfsVn f i) len w = (if has_dirops f i w then Err EISDIR w else on_vol f (sfs_truncate i len) w)"

fun kcreat :: "bool \<Rightarrow> bool \<Rightarrow> kvnode \<Rightarrow> cstr \<Rightarrow> bool \<Rightarrow> u32 \<Rightarrow> kworld \<Rightarrow> (kvnode, kworld) res" where
  "kcreat km am (DevVn k) name excl mode w = Err ENOTDIR w"
| "kcreat km am (SfsVn f i) name excl mode w =
     kbind (dirop f i (sfs_creat km am i (name @ [0]) excl) w) (\<lambda>j w. Ok (SfsVn f j) w)"

fun kremove :: "bool \<Rightarrow> bool \<Rightarrow> kvnode \<Rightarrow> cstr \<Rightarrow> kworld \<Rightarrow> (unit, kworld) res" where
  "kremove km am (DevVn k) name w = Err ENOTDIR w"
| "kremove km am (SfsVn f i) name w = dirop f i (sfs_remove km am i (name @ [0])) w"

fun krename :: "bool \<Rightarrow> bool \<Rightarrow> kvnode \<Rightarrow> cstr \<Rightarrow> kvnode \<Rightarrow> cstr \<Rightarrow> kworld \<Rightarrow> (unit, kworld) res" where
  "krename km am (SfsVn f i) n1 (SfsVn g j) n2 w =
     (if has_dirops f i w then kassert (f = g) (on_vol f (sfs_rename km am i (n1 @ [0]) j (n2 @ [0])) w) else Err ENOTDIR w)"
| "krename km am (SfsVn f i) n1 (DevVn k) n2 w = (if has_dirops f i w then Panic else Err ENOTDIR w)"
| "krename km am (DevVn k) n1 v n2 w = Err ENOTDIR w"

fun klink :: "kvnode \<Rightarrow> cstr \<Rightarrow> kvnode \<Rightarrow> kworld \<Rightarrow> (unit, kworld) res" where
  "klink (SfsVn f i) name (SfsVn g j) w =
     (if has_dirops f i w then kassert (f = g) (on_vol f (sfs_link i (name @ [0]) j) w) else Err ENOTDIR w)"
| "klink (SfsVn f i) name (DevVn k) w = (if has_dirops f i w then Panic else Err ENOTDIR w)"
| "klink (DevVn k) name v w = Err ENOTDIR w"

fun klookup :: "bool \<Rightarrow> bool \<Rightarrow> kvnode \<Rightarrow> cstr \<Rightarrow> kworld \<Rightarrow> (kvnode, kworld) res" where
  "klookup km am (DevVn k) path w =
     (if length path > 0 then Err ENOENT w else kbind (kincref (DevVn k) w) (\<lambda>_ w. Ok (DevVn k) w))"
| "klookup km am (SfsVn f i) path w = kbind (dirop f i (sfs_lookup km am i (path @ [0])) w) (\<lambda>j w. Ok (SfsVn f j) w)"

text \<open>The buffer for the name is the caller's, of \<open>n\<close> bytes.\<close>

fun klookparent :: "kvnode \<Rightarrow> cstr \<Rightarrow> nat \<Rightarrow> kworld \<Rightarrow> (kvnode \<times> cstr, kworld) res" where
  "klookparent (DevVn k) path n w = Err ENOTDIR w"
| "klookparent (SfsVn f i) path n w =
     kbind (dirop f i (sfs_lookparent i (path @ [0]) (replicate n 0)) w) (\<lambda>(j, buf) w.
       Ok (SfsVn f j, takeWhile (\<lambda>c. c \<noteq> 0) buf) w)"

definition kdev_create_vnode :: "nat option \<Rightarrow> kworld \<Rightarrow> (kvnode, kworld) res" where
  "kdev_create_vnode dev w =
     (let k = devvnodes w in
      Ok (DevVn k) (w\<lparr>devvnodes := Suc k, devcount := (devcount w)(k := 1), vn_data := (vn_data w)(k := dev)\<rparr>))"

fun kdev_uncreate_vnode :: "kvnode \<Rightarrow> kworld \<Rightarrow> (unit, kworld) res" where
  "kdev_uncreate_vnode (DevVn k) w =
     kassert (devcount w k = 1) (Ok () (w\<lparr>devcount := (devcount w)(k := 0), vn_data := (vn_data w)(k := None)\<rparr>))"
| "kdev_uncreate_vnode (SfsVn f i) w = Panic"

definition kops :: "bool \<Rightarrow> bool \<Rightarrow> (kvnode, nat, kworld) vfsops" where
  "kops km am =
     \<lparr>fsop_sync = (\<lambda>f. on_vol f sfs_sync), fsop_getvolname = volname,
      fsop_getroot = (\<lambda>f w. kbind (on_vol f (sfs_getroot km am) w) (\<lambda>i w. Ok (SfsVn f i) w)),
      fsop_unmount = unmount_vol, vn_fs = kfs, vop_incref = kincref, vop_decref = kdecref, vop_gettype = kgettype,
      vop_eachopen = keachopen, vop_truncate = ktruncate, vop_creat = kcreat km am, vop_remove = kremove km am,
      vop_rename = krename km am, vop_link = klink, vop_lookup = klookup km am, vop_lookparent = klookparent,
      dev_create_vnode = kdev_create_vnode, dev_uncreate_vnode = kdev_uncreate_vnode\<rparr>"

subsection \<open>The contract of the vnodes\<close>

definition kok :: "kworld \<Rightarrow> bool" where
  "kok w \<longleftrightarrow> (\<forall>f s. vols w f = Some s \<longrightarrow> (\<exists>I. sound_vol I s))"

definition klive :: "kworld \<Rightarrow> nat \<Rightarrow> bool" where
  "klive w f \<longleftrightarrow> vols w f \<noteq> None"

fun krefs :: "kworld \<Rightarrow> kvnode \<Rightarrow> nat" where
  "krefs w (DevVn k) = devcount w k"
| "krefs w (SfsVn f i) = (case vols w f of None \<Rightarrow> 0 | Some s \<Rightarrow> vrefs s i)"

fun kperm :: "kvnode \<Rightarrow> bool" where
  "kperm (DevVn k) = True"
| "kperm (SfsVn f i) = False"


lemma kok_upd: "kok w \<Longrightarrow> sound_vol I t \<Longrightarrow> kok (w\<lparr>vols := (vols w)(f \<mapsto> t)\<rparr>)"
  by (auto simp: kok_def)

lemma klive_upd: "vols w f = Some s \<Longrightarrow> klive (w\<lparr>vols := (vols w)(f \<mapsto> t)\<rparr>) = klive w"
  by (auto simp: klive_def fun_eq_iff)

lemma krefs_upd: "vols w f = Some s \<Longrightarrow> vrefs t = add_ref (vrefs s) (Some i) \<Longrightarrow>
    krefs (w\<lparr>vols := (vols w)(f \<mapsto> t)\<rparr>) = add_ref (krefs w) (Some (SfsVn f i))"
  and krefs_same: "vols w f = Some s \<Longrightarrow> vrefs t = vrefs s \<Longrightarrow> krefs (w\<lparr>vols := (vols w)(f \<mapsto> t)\<rparr>) = krefs w"
proof -
  assume s: "vols w f = Some s"
  let ?w = "w\<lparr>vols := (vols w)(f \<mapsto> t)\<rparr>"
  show "krefs ?w = krefs w" if "vrefs t = vrefs s"
  proof
    show "krefs ?w v = krefs w v" for v using s that by (cases v) simp_all
  qed
  show "krefs ?w = add_ref (krefs w) (Some (SfsVn f i))" if "vrefs t = add_ref (vrefs s) (Some i)"
  proof
    show "krefs ?w v = add_ref (krefs w) (Some (SfsVn f i)) v" for v using s that by (cases v) auto
  qed
qed

lemma hands_gives:
  assumes w: "kok w" "vols w f = Some s" and h: "hands I s n pick (g s)"
  shows "gives kok klive krefs kperm (\<lambda>x. SfsVn f (pick x)) w (on_vol f g w)"
proof (cases "g s")
  case (Ok x t)
  then have "sound_vol I t" "vrefs t = add_ref (vrefs s) (Some (pick x))" using h by (simp_all add: hands_def)
  then show ?thesis
    using Ok w kok_upd [OF w(1)] klive_upd [OF w(2)] krefs_upd [OF w(2)] by (simp add: gives_def on_vol_def del: add_ref.simps)
next
  case (Err e t)
  then have "sound_vol I t" "vrefs t = vrefs s" using h by (simp_all add: hands_def)
  then show ?thesis
    using Err w kok_upd [OF w(1)] klive_upd [OF w(2)] krefs_same [OF w(2)] by (simp add: gives_def on_vol_def)
qed (use h in \<open>simp_all add: hands_def ends_def\<close>)

lemma gives_map: "gives kok klive krefs kperm (\<lambda>x. pick (k x)) w r \<Longrightarrow> gives kok klive krefs kperm pick w (kbind r (\<lambda>x w. Ok (k x) w))"
  by (cases r) (simp_all add: gives_def ends_def)

lemma gives_Err: "kok w \<Longrightarrow> gives kok klive krefs kperm pick w (Err e w)"
  by (simp add: gives_def)

lemma krefs_vol:
  assumes "kok w" "0 < krefs w (SfsVn f i)"
  obtains s I where "vols w f = Some s" "sound_vol I s" "0 < vrefs s i"
proof -
  obtain s where s: "vols w f = Some s" "0 < vrefs s i" using assms(2) by (auto split: option.splits)
  then obtain I where "sound_vol I s" using assms(1) unfolding kok_def by blast
  then show thesis using that s by blast
qed

lemma kincref_gives:
  assumes "kok w" "0 < krefs w v"
  shows "\<exists>t. kincref v w = Ok () t \<and> kok t \<and> klive t = klive w \<and> krefs t = add_ref (krefs w) (Some v)"
proof (cases v)
  case (DevVn k)
  let ?t = "w\<lparr>devcount := (devcount w)(k := Suc (devcount w k))\<rparr>"
  have "krefs ?t u = add_ref (krefs w) (Some v) u" for u using DevVn by (cases u) simp_all
  then have "krefs ?t = add_ref (krefs w) (Some v)" by (rule ext)
  then show ?thesis using DevVn assms(1) by (auto simp: kok_def klive_def fun_eq_iff)
next
  case (SfsVn f i)
  then obtain s I where s: "vols w f = Some s" "sound_vol I s" "0 < vrefs s i" using krefs_vol assms by metis
  note t = sound_incref [OF s(2,3)]
  then show ?thesis using SfsVn s(1) kok_upd [OF assms(1) t(1)] klive_upd [OF s(1)] krefs_upd [OF s(1), of "vnode_incref i s" i]
    by (simp add: on_vol_def)
qed

lemma kdecref_takes:
  assumes "kok w" "0 < krefs w v" "kperm v \<Longrightarrow> 1 < krefs w v"
  shows "\<exists>t. kdecref v w = Ok () t \<and> kok t \<and> klive t = klive w \<and> krefs w = add_ref (krefs t) (Some v)"
proof (cases v)
  case (DevVn k)
  let ?t = "w\<lparr>devcount := (devcount w)(k := devcount w k - 1)\<rparr>"
  have "1 < devcount w k" using assms(3) DevVn by simp
  then have "krefs w u = add_ref (krefs ?t) (Some v) u" for u using DevVn by (cases u) auto
  then have "krefs w = add_ref (krefs ?t) (Some v)" by (rule ext)
  then show ?thesis using DevVn assms(1) \<open>1 < devcount w k\<close> by (auto simp: kok_def klive_def fun_eq_iff)
next
  case (SfsVn f i)
  then obtain s I where s: "vols w f = Some s" "sound_vol I s" "0 < vrefs s i" using krefs_vol assms(1,2) by metis
  obtain t where t: "vnode_decref i s = Ok () t" "sound_vol I t" "vrefs t = (vrefs s)(i := vrefs s i - 1)"
    using sound_decref [OF s(2,3)] by blast
  let ?t = "w\<lparr>vols := (vols w)(f \<mapsto> t)\<rparr>"
  have "krefs w u = add_ref (krefs ?t) (Some v) u" for u using SfsVn s(1,3) t(3) by (cases u) auto
  then have "krefs w = add_ref (krefs ?t) (Some v)" by (rule ext)
  then show ?thesis using SfsVn s(1) t(1) kok_upd [OF assms(1) t(2)] klive_upd [OF s(1)] by (auto simp: on_vol_def)
qed

lemma klookup_gives:
  assumes "kok w" "0 < krefs w v" "0 \<notin> set p"
  shows "gives kok klive krefs kperm id w (klookup km am v p w)"
proof (cases v)
  case (DevVn k)
  then show ?thesis using kincref_gives [OF assms(1,2)] assms(1,2) by (auto simp: gives_def simp del: add_ref.simps kincref.simps)
next
  case (SfsVn f i)
  then obtain s I where s: "vols w f = Some s" "sound_vol I s" "0 < vrefs s i" using krefs_vol assms(1,2) by metis
  have "gives kok klive krefs kperm (\<lambda>x. SfsVn f (id x)) w (on_vol f (sfs_lookup km am i (p @ [0])) w)"
    by (rule hands_gives [where g = "sfs_lookup km am i (p @ [0])", OF assms(1) s(1) sound_lookup [OF s(2,3) assms(3)]])
  then show ?thesis using SfsVn gives_Err [OF assms(1)] by (auto simp: dirop_def intro!: gives_map)
qed

lemma klookparent_gives:
  assumes "kok w" "0 < krefs w v" "0 \<notin> set p"
  shows "gives kok klive krefs kperm fst w (klookparent v p n w)"
proof (cases v)
  case (SfsVn f i)
  then obtain s I where s: "vols w f = Some s" "sound_vol I s" "0 < vrefs s i" using krefs_vol assms(1,2) by metis
  have "gives kok klive krefs kperm (\<lambda>x. SfsVn f (fst x)) w (on_vol f (sfs_lookparent i (p @ [0]) (replicate n 0)) w)"
    by (rule hands_gives [where g = "sfs_lookparent i (p @ [0]) (replicate n 0)", OF assms(1) s(1) sound_lookparent [OF s(2,3) assms(3)]])
  then have "gives kok klive krefs kperm (\<lambda>x. SfsVn f (fst x)) w (dirop f i (sfs_lookparent i (p @ [0]) (replicate n 0)) w)"
    by (simp add: dirop_def gives_Err [OF assms(1)])
  then show ?thesis using SfsVn
      gives_map [where k = "\<lambda>x. (SfsVn f (fst x), takeWhile (\<lambda>c. c \<noteq> 0) (snd x))" and pick = fst] by (simp add: case_prod_beta')
qed (use gives_Err [OF assms(1)] in simp)


lemma kgetroot_gives:
  assumes "kok w" "klive w f"
  shows "gives kok klive krefs kperm id w (kbind (on_vol f (sfs_getroot km am) w) (\<lambda>i w. Ok (SfsVn f i) w))"
proof -
  obtain s where s: "vols w f = Some s" using assms(2) by (auto simp: klive_def)
  then obtain I where "sound_vol I s" using assms(1) unfolding kok_def by blast
  from hands_gives [where g = "sfs_getroot km am", OF assms(1) s sound_getroot [OF this]] show ?thesis
    by (intro gives_map) simp
qed

lemma kgettype_ends:
  assumes "kok w" "0 < krefs w v"
  shows "ends (kgettype v w) (\<lambda>ty t. kok t \<and> klive t = klive w \<and> krefs t = krefs w \<and> (ty = S_IFDIR \<longrightarrow> kfs v \<noteq> None)) Q"
proof (cases v)
  case (DevVn k)
  then show ?thesis using assms(1) by (simp add: S_IFDIR_def S_IFCHR_def S_IFBLK_def)
next
  case (SfsVn f i)
  then obtain s I where s: "vols w f = Some s" "sound_vol I s" "0 < vrefs s i" using krefs_vol assms by metis
  obtain ty where ty: "sfs_gettype i s = Ok ty s" using sound_gettype [OF s(2,3)] by blast
  have "w\<lparr>vols := (vols w)(f \<mapsto> s)\<rparr> = w" using s(1) by (simp add: fun_upd_idem)
  then show ?thesis using SfsVn s(1) ty assms(1) by (simp add: on_vol_def)
qed

lemma keachopen_ends:
  assumes "kok w" "0 < krefs w v"
  shows "ends (keachopen v flags w) (\<lambda>_ t. kok t \<and> klive t = klive w \<and> krefs t = krefs w) (\<lambda>e t. kok t \<and> klive t = klive w \<and> krefs t = krefs w)"
proof (cases v)
  case (DevVn k)
  then show ?thesis using assms(1) by (simp split: option.split)
next
  case (SfsVn f i)
  then obtain s I where s: "vols w f = Some s" "sound_vol I s" "0 < vrefs s i" using krefs_vol assms by metis
  have "w\<lparr>vols := (vols w)(f \<mapsto> s)\<rparr> = w" using s(1) by (simp add: fun_upd_idem)
  then show ?thesis using SfsVn s(1) assms(1) by (simp add: on_vol_def sfs_eachopen_def sfs_eachopendir_def)
qed

interpretation kv: vnode_provider "kops km am" kok klive krefs kperm for km am
proof (unfold_locales, goal_cases)
  case (1 w v)
  then show ?case using kincref_gives by (simp add: kops_def)
next
  case (2 w v)
  then show ?case using kdecref_takes by (simp add: kops_def)
next
  case (3 w f)
  then show ?case using kgetroot_gives by (simp add: kops_def)
next
  case (4 w v p)
  then show ?case using klookup_gives by (simp add: kops_def)
next
  case (5 w v p n)
  then show ?case using klookparent_gives by (simp add: kops_def)
next
  case (6 w v)
  then show ?case using kgettype_ends [OF 6] by (simp add: kops_def)
next
  case (7 w v flags)
  then show ?case using keachopen_ends [OF 7] by (simp add: kops_def)
next
  case (8 w v f)
  then show ?case by (cases v) (auto simp: kops_def klive_def split: option.splits)
qed


subsection \<open>Calls by path\<close>

text \<open>
  Histories of calls by path: \<open>H\<close> counts the vnodes that callers have been handed and have not closed.
  Whether memory is there for a new vnode (\<open>km\<close>, \<open>am\<close>) may differ from call to call. Paths are
  strings, without NUL.
\<close>

type_synonym kvfs = "(kvnode, nat, kworld) vfs"

definition balanced :: "nat \<Rightarrow> kvfs \<Rightarrow> (kvnode \<Rightarrow> nat) \<Rightarrow> bool" where
  "balanced = accounted (kops True True) kok klive krefs kperm"

text \<open>The flags of an open that neither creates nor truncates.\<close>

definition plain :: "u32 \<Rightarrow> bool" where
  "plain flags \<longleftrightarrow> flags AND O_CREAT = 0 \<and> flags AND O_TRUNC = 0"

inductive path_history :: "kvfs \<Rightarrow> (kvnode \<Rightarrow> nat) \<Rightarrow> bool" where
  start: "balanced 0 s H \<Longrightarrow> path_history s H"
| lookup: "path_history s H \<Longrightarrow> 0 \<notin> set p \<Longrightarrow> vfs_lookup (kops km am) p s = Ok v t \<Longrightarrow> path_history t (add_ref H (Some v))"
| lookup_err: "path_history s H \<Longrightarrow> 0 \<notin> set p \<Longrightarrow> vfs_lookup (kops km am) p s = Err e t \<Longrightarrow> path_history t H"
| lookparent: "path_history s H \<Longrightarrow> 0 \<notin> set p \<Longrightarrow> vfs_lookparent (kops km am) p n s = Ok (v, nm) t \<Longrightarrow> path_history t (add_ref H (Some v))"
| lookparent_err: "path_history s H \<Longrightarrow> 0 \<notin> set p \<Longrightarrow> vfs_lookparent (kops km am) p n s = Err e t \<Longrightarrow> path_history t H"
| opened: "path_history s H \<Longrightarrow> 0 \<notin> set p \<Longrightarrow> plain fl \<Longrightarrow> vfs_open (kops km am) p fl mode s = Ok v t \<Longrightarrow> path_history t (add_ref H (Some v))"
| open_err: "path_history s H \<Longrightarrow> 0 \<notin> set p \<Longrightarrow> plain fl \<Longrightarrow> vfs_open (kops km am) p fl mode s = Err e t \<Longrightarrow> path_history t H"
| closed: "path_history s (add_ref H (Some v)) \<Longrightarrow> vfs_close (kops km am) v s = Ok () t \<Longrightarrow> path_history t H"
| chdir: "path_history s H \<Longrightarrow> 0 \<notin> set p \<Longrightarrow> returns (vfs_chdir (kops km am) p s) t \<Longrightarrow> path_history t H"
| clearcurdir: "path_history s H \<Longrightarrow> returns (vfs_clearcurdir (kops km am) s) t \<Longrightarrow> path_history t H"
| setbootfs: "path_history s H \<Longrightarrow> 0 \<notin> set p \<Longrightarrow> returns (vfs_setbootfs (kops km am) p s) t \<Longrightarrow> path_history t H"
| clearbootfs: "path_history s H \<Longrightarrow> returns (vfs_clearbootfs (kops km am) s) t \<Longrightarrow> path_history t H"

lemma accounted_kops: "accounted (kops km am) kok klive krefs kperm = balanced"
  by (simp add: balanced_def fun_eq_iff accounted_def kops_def)

lemmas kv_calls =
  kv.vfs_lookup_handed [unfolded accounted_kops] kv.vfs_lookparent_handed [unfolded accounted_kops]
  kv.vfs_chdir_settled [unfolded accounted_kops] kv.vfs_clearcurdir_settled [unfolded accounted_kops]
  kv.vfs_setbootfs_settled [unfolded accounted_kops] kv.vfs_clearbootfs_settled [unfolded accounted_kops]
  kv.vfs_close_settled [unfolded accounted_kops]

lemma kv_open: "balanced n s H \<Longrightarrow> 0 \<notin> set p \<Longrightarrow> plain fl \<Longrightarrow>
    ends (vfs_open (kops km am) p fl mode s) (\<lambda>v t. balanced n t (add_ref H (Some v))) (\<lambda>e t. balanced n t H)"
  using kv.vfs_open_handed [of km am n s H p fl mode] by (simp add: plain_def accounted_kops)

lemma ends_returns: "ends r (\<lambda>_. P) (\<lambda>_. P) \<Longrightarrow> returns r t \<Longrightarrow> P t"
  by (auto simp: returns_def)

lemma path_history_balanced: "path_history s H \<Longrightarrow> balanced 0 s H"
proof (induction rule: path_history.induct)
  case (lookup s H p km am v t)
  then show ?case using kv_calls(1) [OF lookup.IH lookup.hyps(2), of km am] by (simp del: add_ref.simps)
next
  case (lookup_err s H p km am e t)
  then show ?case using kv_calls(1) [OF lookup_err.IH lookup_err.hyps(2), of km am] by simp
next
  case (lookparent s H p km am n v nm t)
  then show ?case using kv_calls(2) [OF lookparent.IH lookparent.hyps(2), of km am n] by (simp del: add_ref.simps)
next
  case (lookparent_err s H p km am n e t)
  then show ?case using kv_calls(2) [OF lookparent_err.IH lookparent_err.hyps(2), of km am n] by simp
next
  case (opened s H p fl km am mode v t)
  then show ?case using kv_open [OF opened.IH opened.hyps(2,3), of km am mode] by (simp del: add_ref.simps)
next
  case (open_err s H p fl km am mode e t)
  then show ?case using kv_open [OF open_err.IH open_err.hyps(2,3), of km am mode] by simp
next
  case (closed s H v km am t)
  then show ?case using kv_calls(7) [OF closed.IH, of km am] by simp
next
  case (chdir s H p km am t)
  show ?case by (rule ends_returns [OF kv_calls(3) [OF chdir.IH chdir.hyps(2)] chdir.hyps(3)])
next
  case (clearcurdir s H km am t)
  show ?case by (rule ends_returns [OF kv_calls(4) [OF clearcurdir.IH] clearcurdir.hyps(2)])
next
  case (setbootfs s H p km am t)
  show ?case by (rule ends_returns [OF kv_calls(5) [OF setbootfs.IH setbootfs.hyps(2)] setbootfs.hyps(3)])
next
  case (clearbootfs s H km am t)
  show ?case by (rule ends_returns [OF kv_calls(6) [OF clearbootfs.IH] clearbootfs.hyps(2)])
qed

text \<open>
  \<^bold>\<open>C9.\<close> No reference is lost and none is dropped twice. After any history of lookups, opens that neither create
  nor truncate, closes, changes of the current directory and of the boot file system, over any number of SFS
  volumes and devices, the reference count of every vnode is the number of its owners: entries of the
  device table, the boot file system, the current directory and the callers that still hold the
  vnode. The volumes stay sound, the big lock is free again, and each further call of these kinds returns, with a
  result or an error: no assertion fails, whether memory is short or not. Opens with \<^verbatim>\<open>O_CREAT\<close> or
  \<^verbatim>\<open>O_TRUNC\<close> and the calls that change directories are outside this theorem. The counts are natural numbers here and
  \<^verbatim>\<open>int\<close> in the code; as they equal the number of owners, the two agree as long as no vnode has
  \<open>2 ^ 31\<close> owners at the same time.
\<close>

theorem path_calls_balanced:
  assumes "path_history s H"
  shows "(\<forall>v. krefs (world s) v = owners s H v) \<and> kok (world s) \<and> vfs_biglock_depth s = 0 \<and>
    (0 \<notin> set p \<longrightarrow> (\<exists>t. returns (vfs_lookup (kops km am) p s) t) \<and> (\<exists>t. returns (vfs_lookparent (kops km am) p n s) t) \<and>
       (plain fl \<longrightarrow> (\<exists>t. returns (vfs_open (kops km am) p fl mode s) t)) \<and>
       (\<exists>t. returns (vfs_chdir (kops km am) p s) t) \<and> (\<exists>t. returns (vfs_setbootfs (kops km am) p s) t)) \<and>
    (0 < H v \<longrightarrow> (\<exists>t. returns (vfs_close (kops km am) v s) t)) \<and>
    (\<exists>t. returns (vfs_clearcurdir (kops km am) s) t) \<and> (\<exists>t. returns (vfs_clearbootfs (kops km am) s) t)"
proof -
  note b = path_history_balanced [OF assms]
  have r: "\<exists>t. returns r t" if "ends r P Q" for r :: "('a, kvfs) res" and P Q
    using that by (cases r) (auto simp: ends_def returns_def)
  have "\<exists>t. returns (vfs_close (kops km am) v s) t" if "0 < H v"
  proof -
    have "H = add_ref (H(v := H v - 1)) (Some v)" using that by (auto simp: fun_eq_iff)
    then have "balanced 0 s (add_ref (H(v := H v - 1)) (Some v))" using b by simp
    from r [OF kv_calls(7) [OF this]] show ?thesis .
  qed
  moreover have "krefs (world s) = owners s H" "kok (world s)" "vfs_biglock_depth s = 0" using b by (simp_all add: balanced_def accounted_def)
  ultimately show ?thesis
    using r [OF kv_calls(1) [OF b]] r [OF kv_calls(2) [OF b]] r [OF kv_calls(3) [OF b]] r [OF kv_calls(5) [OF b]]
      r [OF kv_calls(4) [OF b]] r [OF kv_calls(6) [OF b]] r [OF kv_open [OF b]] by simp
qed


subsection \<open>A small system\<close>

text \<open>
  One disk \<^verbatim>\<open>lhd0\<close> with a mounted volume whose root directory is empty. It is the boot file system and
  the current directory.
\<close>

definition root_vnode :: sfs_vnode where
  "root_vnode = \<lparr>vn_refcount = 2, sv_i = empty_inode\<lparr>sfi_type := SFS_TYPE_DIR\<rparr>, sv_ino = 1, sv_dirty = True\<rparr>"

definition root_vol :: sfs_fs where
  "root_vol = (demo_fs [])\<lparr>sfs_vnodes := [root_vnode]\<rparr>"

definition lhd0 :: cstr where
  "lhd0 = [108, 104, 100, 48]"

definition lhd0_dev :: "nat mounted \<Rightarrow> (kvnode, nat) knowndev" where
  "lhd0_dev m = \<lparr>kd_name = lhd0, kd_rawname = Some (lhd0 @ [114, 97, 119]), kd_device = Some 0, kd_vnode = DevVn 0, kd_fs = m\<rparr>"

definition demo_world :: "(nat \<Rightarrow> sfs_fs option) \<Rightarrow> kworld" where
  "demo_world vs = \<lparr>vols = vs, devcount = (\<lambda>_. 0)(0 := 1), vn_data = [0 \<mapsto> 0], devvnodes = 1,
     devices = (\<lambda>_. \<lparr>d_blocks = 8, d_blocksize = 512, devop_eachopen = (\<lambda>_. None)\<rparr>)\<rparr>"

definition demo_kernel :: kvfs where
  "demo_kernel = \<lparr>knowndevs = [lhd0_dev (Fs 0)], vfs_biglock_depth = 0, bootfs_vnode = Some (SfsVn 0 1),
     p_cwd = Some (SfsVn 0 1), d_devnumber = (\<lambda>_. 1), world = demo_world [0 \<mapsto> root_vol]\<rparr>"

lemma root_vol_vn: "vn root_vol i = (if i = 1 then Some root_vnode else None)"
  by (auto simp: vn_def root_vol_def root_vnode_def)

lemma root_vol_ok: "vol_ok root_vol"
proof -
  have sl: "slot s root_vnode k = (if k = 0 then 1 else 0)" for s k
    by (cases k rule: slot_cases) (simp_all add: root_vnode_def fmap_def empty_inode_def)
  have u: "used (root_vol\<lparr>biglock := 1\<rparr>) = {0, 1, 2}" using demo_used by (simp add: used_def demo_vol_def root_vol_def)
  have "healthy (root_vol\<lparr>biglock := 1\<rparr>)" using demo_fs_ok(1) [of "[]"] by (simp add: root_vol_def healthy_def fs_dev_ok_def demo_fs_ok(3))
  moreover have "bm_ok (sfs_freemap root_vol)" by (simp add: root_vol_def demo_fs_def bm_ok_def not_less [symmetric])
  moreover have "dinode_ok (sv_i root_vnode)" by (simp add: root_vnode_def empty_inode_def dinode_ok_def)
  ultimately show ?thesis
    unfolding vol_ok_def fs_ok_def u by (auto simp: root_vol_def demo_fs_def sl)
qed

lemma root_vol_sound: "sound_vol [1] root_vol"
proof -
  let ?di = "sv_i root_vnode"
  have f: "fetch root_vol 1 = root_vnode" by (simp add: fetch_def root_vol_vn)
  then have w: "whole [1] root_vol = root_vol" by (simp add: whole_def root_vol_def)
  have n: "nents ?di = 0" by (simp add: nents_def root_vnode_def empty_inode_def)
  then have "dents root_vol ?di = []" by (simp add: dents_def)
  then have d: "dir_ok root_vol ?di" "dirmap root_vol ?di = Map.empty"
    using n by (simp_all add: dir_ok_def dirmap_def) (simp_all add: root_vnode_def empty_inode_def)
  have "file_sound [1] root_vol ?di" using d by (simp add: file_sound_def) (simp add: root_vnode_def empty_inode_def)
  then show ?thesis using root_vol_ok f w d(1)
    by (simp add: sound_vol_def SFS_ROOTDIR_INO_def dir_ok_def) (simp add: root_vol_def root_vnode_def coherent_def)
qed

lemma demo_kernel_balanced: "balanced 0 demo_kernel (\<lambda>_. 0)"
proof -
  have "krefs (world demo_kernel) v = owners demo_kernel (\<lambda>_. 0) v" for v
    by (cases v) (auto simp: demo_kernel_def demo_world_def owners_def lhd0_dev_def vrefs_def root_vol_vn root_vnode_def)
  moreover have "kok (world demo_kernel)" using root_vol_sound by (auto simp: kok_def demo_kernel_def demo_world_def)
  moreover have "table_ok demo_kernel"
    by (simp add: table_ok_def demo_kernel_def lhd0_dev_def kd_ok_def dev_names_def)
  moreover have "v = DevVn 0" if "kperm v" "0 < krefs (world demo_kernel) v" for v
    using that by (cases v) (auto simp: demo_kernel_def demo_world_def split: if_splits)
  ultimately show ?thesis unfolding balanced_def accounted_def
    by (auto simp: demo_kernel_def lhd0_dev_def klive_def demo_world_def kops_def)
qed

theorem path_calls_balanced_witness:
  "path_history demo_kernel (\<lambda>_. 0) \<and> krefs (world demo_kernel) (SfsVn 0 1) = 2 \<and>
   (\<exists>t. returns (vfs_lookup (kops True True) (lhd0 @ [58]) demo_kernel) t) \<and>
   (\<exists>t. returns (vfs_open (kops True True) (lhd0 @ [58]) 0 0 demo_kernel) t)"
proof -
  have h: "path_history demo_kernel (\<lambda>_. 0)" by (rule path_history.start [OF demo_kernel_balanced])
  have "owners demo_kernel (\<lambda>_. 0) (SfsVn 0 1) = 2" by (simp add: owners_def demo_kernel_def lhd0_dev_def)
  moreover have "0 \<notin> set (lhd0 @ [58])" by (simp add: lhd0_def)
  moreover have "plain 0" by (simp add: plain_def)
  ultimately show ?thesis using h path_calls_balanced [OF h, of "lhd0 @ [58]" True True 0 0 0] by (simp del: krefs.simps)
qed


text \<open>The theorems on the device table at this system: before the disk is added, while it is mounted, and before it is mounted.\<close>

theorem vfs_table_stays_ok_witness:
  "\<exists>t. vfs_adddev (kops True True) (\<lambda>_. True) lhd0 0 True (vfs_bootstrap (demo_world Map.empty)) = Ok () t \<and>
     table_ok t \<and> knowndevs t = [(lhd0_dev NoFs)\<lparr>kd_vnode := DevVn 1\<rparr>]"
proof -
  let ?s = "vfs_bootstrap (demo_world Map.empty) :: kvfs"
  let ?r = "vfs_adddev (kops True True) (\<lambda>_. True) lhd0 0 True ?s"
  have "\<exists>t. ?r = Ok () t \<and> knowndevs t = [(lhd0_dev NoFs)\<lparr>kd_vnode := DevVn 1\<rparr>]"
    by (simp add: vfs_adddev_def vfs_doadd_def locked_def vfs_bootstrap_def biglock_acquire_def mkrawname_def kops_def
        kdev_create_vnode_def demo_world_def doadd_enter_def badnames_def biglock_do_i_hold_def biglock_release_def lhd0_dev_def)
  then obtain t where t: "?r = Ok () t" "knowndevs t = [(lhd0_dev NoFs)\<lparr>kd_vnode := DevVn 1\<rparr>]" by blast
  have "vfs_history (kops True True) t"
  proof (rule vfs_history.adddev)
    show "vfs_history (kops True True) ?s" by (rule vfs_history.boot)
    show "new_device (Some 0) ?s" by (simp add: new_device_def vfs_bootstrap_def)
    show "returns ?r t" using t(1) by (simp add: returns_def)
  qed
  from vfs_table_stays_ok [OF this] show ?thesis using t by blast
qed

theorem vfs_getroot_resolves_witness:
  "vfs_getroot (kops True True) (lhd0 @ [114, 97, 119]) (biglock_acquire demo_kernel) =
     handback (kops True True) (DevVn 0) (biglock_acquire demo_kernel)"
proof -
  have ok: "table_ok (biglock_acquire demo_kernel)" using demo_kernel_balanced by (simp add: balanced_def accounted_def)
  have "names (kops True True) (world demo_kernel) (knowndevs demo_kernel) (lhd0 @ [114, 97, 119]) = Some (Dev (DevVn 0))"
    by (simp add: names_def entry_names_def demo_kernel_def lhd0_dev_def lhd0_def kops_def volname_def demo_world_def
        sfs_getvolname_def root_vol_def demo_fs_def vfs_biglock_release_def vfs_biglock_do_i_hold_def vfs_biglock_acquire_def)
  then show ?thesis using vfs_getroot_resolves [OF ok, of "kops True True" "lhd0 @ [114, 97, 119]"] by (simp add: resolve_def)
qed

definition idle_kernel :: kvfs where
  "idle_kernel = \<lparr>knowndevs = [lhd0_dev NoFs], vfs_biglock_depth = 0, bootfs_vnode = None,
     p_cwd = None, d_devnumber = (\<lambda>_. 1), world = demo_world Map.empty\<rparr>"

theorem vfs_mount_cycle_witness:
  "\<exists>s1. vfs_mount lhd0 (\<lambda>d w. Ok 0 (w\<lparr>vols := [d \<mapsto> root_vol]\<rparr>)) idle_kernel = Ok () s1 \<and>
     vfs_getroot (kops True True) lhd0 (biglock_acquire s1) = on_world (fsop_getroot (kops True True) 0) (biglock_acquire s1) \<and>
     vfs_mount lhd0 (\<lambda>d w. Ok 0 (w\<lparr>vols := [d \<mapsto> root_vol]\<rparr>)) s1 = Err EBUSY s1 \<and>
     vfs_unmount (kops True True) lhd0 s1 = unmount_outcome (kops True True) 0 s1 idle_kernel"
proof -
  let ?m = "\<lambda>d w. Ok (0 :: nat) (w\<lparr>vols := [d \<mapsto> root_vol]\<rparr>)" and ?b = "\<lambda>(d :: nat) (w :: kworld). Err EINVAL w :: (nat, kworld) res"
  have s: "mountable_at idle_kernel 0"
    by (simp add: mountable_at_def table_ok_def idle_kernel_def lhd0_dev_def kd_ok_def dev_names_def)
  have n: "lhd0 = kd_name (knowndevs idle_kernel ! 0)" "0 = the (kd_device (knowndevs idle_kernel ! 0))"
    by (simp_all add: idle_kernel_def lhd0_dev_def)
  show ?thesis
    using vfs_mount_cycle [OF s n, of ?m 0 "(world idle_kernel)\<lparr>vols := [0 \<mapsto> root_vol]\<rparr>" ?b EINVAL "world idle_kernel" "kops True True"
        "(world idle_kernel)\<lparr>vols := [0 \<mapsto> root_vol]\<rparr>"]
    by (auto simp: no_volume_def simp del: on_world.simps)
qed

theorem getdevice_parses_witness:
  "getdevice (kops True True) (lhd0 @ 58 # replicate 2 47 @ [97]) (biglock_acquire demo_kernel) =
     kbind (vfs_getroot (kops True True) lhd0 (biglock_acquire demo_kernel)) (\<lambda>v s. Ok ([97], v) s)"
  using getdevice_parses [of "biglock_acquire demo_kernel" lhd0 "[97]" "kops True True" 2] by (simp add: lhd0_def)

end
