(* ===== verification/Semfs.thy ===== *)
theory Semfs
  imports VfsPath Synch
begin

text \<open>
  The semaphore file system, \<^verbatim>\<open>kern/fs/semfs\<close>: one directory whose files are semaphores. Reading
  from a file is P, writing to it is V, each by as many units as bytes. A semaphore lives as long as
  it has a name in the directory or a vnode in use.

  A vnode is named by the number of its semaphore, \<open>SEMFS_ROOTDIR\<close> for the directory. The
  operations on the directory and on the tables are functions on the state \<open>semfs\<close>, one call after the
  other; reading and writing run under the lock of the semaphore from their first to their last step, because
  \<^verbatim>\<open>cv_wait\<close> of this kernel is empty and does not give the lock up. The debugging output is left out.

  The theorems: the tables stay consistent, so that no semaphore is lost and none is used after it is
  gone; directory, counts and references are those of an abstract file system, and every call ends - with success, with
  one particular error, in an endless loop or in a fault - as the state determines; the operations
  satisfy the contract of vnodes on which path lookup rests; P returns exactly when there are units enough.
\<close>

subsection \<open>Objects\<close>

definition SEMFS_ROOTDIR :: u32 where "SEMFS_ROOTDIR = 0xffffffff"

record semfs_sem =
  sems_count :: u32
  sems_hasvnode :: bool
  sems_linked :: bool

record semfs_direntry =
  semd_name :: cstr
  semd_semnum :: u32

text \<open>The reference count, an \<^verbatim>\<open>int\<close> in the code, is a natural number: it is the number of holders of the vnode.\<close>

record semfs_vnode =
  sem_refcount :: nat
  semv_semnum :: u32

text \<open>The three arrays; empty slots of the semaphore table and of the directory are \<^verbatim>\<open>NULL\<close>.\<close>

record semfs =
  semfs_vnodes :: "semfs_vnode list"
  semfs_sems :: "semfs_sem option list"
  semfs_dents :: "semfs_direntry option list"

text \<open>
  Whether the allocations of a call succeed is the parameter \<open>mem\<close>, by number: 0 the semaphore with its lock and
  condition variable, 1 a new slot of the semaphore table, 2 the directory entry with its name, 3 a new
  slot of the directory, 4 the vnode, 5 its place in the table of vnodes.
\<close>

definition semfs_sem_create :: "(nat \<Rightarrow> bool) \<Rightarrow> semfs_sem option" where
  "semfs_sem_create mem =
     (if \<not> mem 0 then None else Some \<lparr>sems_count = 0, sems_hasvnode = False, sems_linked = False\<rparr>)"

fun first_empty :: "'a option list \<Rightarrow> nat \<Rightarrow> nat option" where
  "first_empty [] i = None"
| "first_empty (x # xs) i = (if x = None then Some i else first_empty xs (Suc i))"

definition semfs_sem_insert :: "(nat \<Rightarrow> bool) \<Rightarrow> semfs_sem \<Rightarrow> semfs \<Rightarrow> (u32, semfs) res" where
  "semfs_sem_insert mem sem s =
     (let num = length (semfs_sems s) in
      if num = unat SEMFS_ROOTDIR then Err ENOSPC s
      else
        case first_empty (semfs_sems s) 0 of
          Some i \<Rightarrow> Ok (word_of_nat i) (s\<lparr>semfs_sems := (semfs_sems s)[i := Some sem]\<rparr>)
        | None \<Rightarrow>
            if \<not> mem 1 then Err ENOMEM s
            else Ok (word_of_nat num) (s\<lparr>semfs_sems := semfs_sems s @ [Some sem]\<rparr>))"

definition semfs_direntry_create :: "(nat \<Rightarrow> bool) \<Rightarrow> cstr \<Rightarrow> u32 \<Rightarrow> semfs_direntry option" where
  "semfs_direntry_create mem name semnum = (if \<not> mem 2 then None else Some \<lparr>semd_name = name, semd_semnum = semnum\<rparr>)"

subsection \<open>Vnodes\<close>

definition semfs_vnode_create :: "(nat \<Rightarrow> bool) \<Rightarrow> u32 \<Rightarrow> semfs_vnode option" where
  "semfs_vnode_create mem semnum = (if \<not> mem 4 then None else Some \<lparr>sem_refcount = 1, semv_semnum = semnum\<rparr>)"

text \<open>The slot of a semaphore in its table; \<^verbatim>\<open>array_get\<close> and \<^verbatim>\<open>array_set\<close> assert that it exists.\<close>

definition getsem :: "u32 \<Rightarrow> semfs \<Rightarrow> (semfs_sem option \<Rightarrow> ('a, semfs) res) \<Rightarrow> ('a, semfs) res" where
  "getsem n s k = kassert (unat n < length (semfs_sems s)) (k (semfs_sems s ! unat n))"

definition setsem :: "u32 \<Rightarrow> semfs_sem option \<Rightarrow> semfs \<Rightarrow> semfs" where
  "setsem n x s = s\<lparr>semfs_sems := (semfs_sems s)[unat n := x]\<rparr>"

definition sem_upd :: "u32 \<Rightarrow> (semfs_vnode \<Rightarrow> semfs_vnode) \<Rightarrow> semfs \<Rightarrow> semfs" where
  "sem_upd n f s = s\<lparr>semfs_vnodes := map (\<lambda>v. if semv_semnum v = n then f v else v) (semfs_vnodes s)\<rparr>"

definition semvn :: "semfs \<Rightarrow> u32 \<Rightarrow> semfs_vnode option" where
  "semvn s n = find (\<lambda>v. semv_semnum v = n) (semfs_vnodes s)"

definition sem_incref :: "u32 \<Rightarrow> semfs \<Rightarrow> semfs" where
  "sem_incref n s = sem_upd n (\<lambda>v. v\<lparr>sem_refcount := Suc (sem_refcount v)\<rparr>) s"

definition semfs_getvnode :: "(nat \<Rightarrow> bool) \<Rightarrow> u32 \<Rightarrow> semfs \<Rightarrow> (u32, semfs) res" where
  "semfs_getvnode mem semnum s =
     (if semvn s semnum \<noteq> None then Ok semnum (sem_incref semnum s)
      else
        case semfs_vnode_create mem semnum of
          None \<Rightarrow> Err ENOMEM s
        | Some semv \<Rightarrow>
            if \<not> mem 5 then kassert (sem_refcount semv = 1) (Err ENOMEM s)
            else
              let s = s\<lparr>semfs_vnodes := semfs_vnodes s @ [semv]\<rparr> in
              if semnum \<noteq> SEMFS_ROOTDIR then
                getsem semnum s (\<lambda>x.
                  case x of
                    None \<Rightarrow> Panic
                  | Some sem \<Rightarrow>
                      kassert (\<not> sems_hasvnode sem) (Ok semnum (setsem semnum (Some (sem\<lparr>sems_hasvnode := True\<rparr>)) s)))
              else Ok semnum s)"

definition semfs_reclaim :: "u32 \<Rightarrow> semfs \<Rightarrow> (unit, semfs) res" where
  "semfs_reclaim n s =
     (case semvn s n of
        None \<Rightarrow> Fault
      | Some semv \<Rightarrow>
          if sem_refcount semv > 1 then Err EBUSY (sem_upd n (\<lambda>v. v\<lparr>sem_refcount := sem_refcount v - 1\<rparr>) s)
          else
            let s = s\<lparr>semfs_vnodes := filter (\<lambda>v. semv_semnum v \<noteq> n) (semfs_vnodes s)\<rparr> in
            if n \<noteq> SEMFS_ROOTDIR then
              getsem n s (\<lambda>x.
                case x of
                  None \<Rightarrow> Fault
                | Some sem \<Rightarrow>
                    kassert (sems_hasvnode sem)
                      (let sem = sem\<lparr>sems_hasvnode := False\<rparr>;
                           s = setsem n (if \<not> sems_linked sem then None else Some sem) s
                       in kassert (sem_refcount semv = 1) (Ok () s)))
            else kassert (sem_refcount semv = 1) (Ok () s))"

text \<open>\<^verbatim>\<open>vnode_decref\<close> of \<^verbatim>\<open>kern/vfs/vnode.c\<close> on a vnode of semfs.\<close>

definition sem_decref :: "u32 \<Rightarrow> semfs \<Rightarrow> (unit, semfs) res" where
  "sem_decref n s =
     (case semvn s n of
        None \<Rightarrow> Fault
      | Some v \<Rightarrow>
          kassert (sem_refcount v > 0)
            (if sem_refcount v > 1 then Ok () (sem_upd n (\<lambda>v. v\<lparr>sem_refcount := sem_refcount v - 1\<rparr>) s)
             else kbind (result_of (semfs_reclaim n s)) (\<lambda>_ s. Ok () s)))"

subsection \<open>The directory\<close>

text \<open>The strings \<^verbatim>\<open>.\<close> and \<^verbatim>\<open>..\<close>.\<close>

definition dots :: "cstr \<Rightarrow> bool" where
  "dots name \<longleftrightarrow> name = [46] \<or> name = [46, 46]"

text \<open>The loop over the entries: the position of the name.\<close>

fun dent_index :: "cstr \<Rightarrow> semfs_direntry option list \<Rightarrow> nat \<Rightarrow> nat option" where
  "dent_index name [] i = None"
| "dent_index name (d # ds) i =
     (case d of
        None \<Rightarrow> dent_index name ds (Suc i)
      | Some dent \<Rightarrow> if semd_name dent = name then Some i else dent_index name ds (Suc i))"

text \<open>
  The end of \<^verbatim>\<open>semfs_creat\<close> once the semaphore is in its table. \<open>Ok None\<close> is a return value of 0 with no
  vnode handed back: when \<^verbatim>\<open>semfs_direntry_create\<close> fails, \<^verbatim>\<open>result\<close> still is the 0 of
  \<^verbatim>\<open>semfs_sem_insert\<close>.
\<close>

definition creat_enter :: "(nat \<Rightarrow> bool) \<Rightarrow> cstr \<Rightarrow> u32 \<Rightarrow> semfs \<Rightarrow> (u32 option, semfs) res" where
  "creat_enter mem name semnum s =
     (case semfs_direntry_create mem name semnum of
        None \<Rightarrow> Ok None (setsem semnum None s)
      | Some dent \<Rightarrow>
          case (case first_empty (semfs_dents s) 0 of
                  Some pos \<Rightarrow> Some (pos, s\<lparr>semfs_dents := (semfs_dents s)[pos := Some dent]\<rparr>)
                | None \<Rightarrow>
                    if \<not> mem 3 then None
                    else Some (length (semfs_dents s), s\<lparr>semfs_dents := semfs_dents s @ [Some dent]\<rparr>)) of
            None \<Rightarrow> Err ENOMEM (setsem semnum None s)
          | Some (pos, s) \<Rightarrow>
              (case semfs_getvnode mem semnum s of
                 Ok v s \<Rightarrow>
                   getsem semnum s (\<lambda>x. case x of None \<Rightarrow> Fault
                     | Some sem \<Rightarrow> Ok (Some v) (setsem semnum (Some (sem\<lparr>sems_linked := True\<rparr>)) s))
               | Err e s \<Rightarrow> Err e (setsem semnum None (s\<lparr>semfs_dents := (semfs_dents s)[pos := None]\<rparr>))
               | Panic \<Rightarrow> Panic | Fault \<Rightarrow> Fault | Hang \<Rightarrow> Hang))"

definition semfs_creat :: "(nat \<Rightarrow> bool) \<Rightarrow> cstr \<Rightarrow> bool \<Rightarrow> semfs \<Rightarrow> (u32 option, semfs) res" where
  "semfs_creat mem name excl s =
     (if dots name then Err EEXIST s
      else
        case dent_index name (semfs_dents s) 0 of
          Some i \<Rightarrow>
            if excl then Err EEXIST s
            else kbind (semfs_getvnode mem (semd_semnum (the (semfs_dents s ! i))) s) (\<lambda>v s. Ok (Some v) s)
        | None \<Rightarrow>
            (case semfs_sem_create mem of
               None \<Rightarrow> Err ENOMEM s
             | Some sem \<Rightarrow> kbind (semfs_sem_insert mem sem s) (\<lambda>semnum s. creat_enter mem name semnum s)))"

definition semfs_remove :: "cstr \<Rightarrow> semfs \<Rightarrow> (unit, semfs) res" where
  "semfs_remove name s =
     (if dots name then Err EINVAL s
      else
        case dent_index name (semfs_dents s) 0 of
          None \<Rightarrow> Err ENOENT s
        | Some i \<Rightarrow>
            let n = semd_semnum (the (semfs_dents s ! i)) in
            getsem n s (\<lambda>x.
              case x of
                None \<Rightarrow> Fault
              | Some sem \<Rightarrow>
                  kassert (sems_linked sem)
                    (let sem = sem\<lparr>sems_linked := False\<rparr>;
                         s = setsem n (if \<not> sems_hasvnode sem then None else Some sem) s
                     in Ok () (s\<lparr>semfs_dents := (semfs_dents s)[i := None]\<rparr>))))"

definition semfs_lookup :: "(nat \<Rightarrow> bool) \<Rightarrow> u32 \<Rightarrow> cstr \<Rightarrow> semfs \<Rightarrow> (u32, semfs) res" where
  "semfs_lookup mem dirvn path s =
     (if dots path then Ok dirvn (sem_incref dirvn s)
      else
        case dent_index path (semfs_dents s) 0 of
          None \<Rightarrow> Err ENOENT s
        | Some i \<Rightarrow> semfs_getvnode mem (semd_semnum (the (semfs_dents s ! i))) s)"

definition semfs_lookparent :: "u32 \<Rightarrow> cstr \<Rightarrow> nat \<Rightarrow> semfs \<Rightarrow> (u32 \<times> cstr, semfs) res" where
  "semfs_lookparent dirvn path bufmax s =
     (if length path + 1 > bufmax then Err ENAMETOOLONG s else Ok (dirvn, path) (sem_incref dirvn s))"

definition semfs_getroot :: "(nat \<Rightarrow> bool) \<Rightarrow> semfs \<Rightarrow> (u32, semfs) res" where
  "semfs_getroot mem s = semfs_getvnode mem SEMFS_ROOTDIR s"

definition semfs_eachopen :: "u32 \<Rightarrow> u32 \<Rightarrow> semfs \<Rightarrow> (unit, semfs) res" where
  "semfs_eachopen n openflags s =
     (if n = SEMFS_ROOTDIR \<and> openflags AND O_ACCMODE \<noteq> O_RDONLY then Err EISDIR s
      else if n = SEMFS_ROOTDIR \<and> openflags AND O_APPEND \<noteq> 0 then Err EISDIR s
      else Ok () s)"

definition semfs_gettype :: "u32 \<Rightarrow> semfs \<Rightarrow> (u32, semfs) res" where
  "semfs_gettype n s = Ok (if n = SEMFS_ROOTDIR then S_IFDIR else S_IFREG) s"

text \<open>
  Truncation sets the count of a semaphore. The lock and the condition variable of the semaphore are
  parameters; truncation and writing wake its sleepers first, which with the condition variables of
  \<open>Synch\<close> changes nothing.
\<close>

definition semfs_wakeup :: "cv \<Rightarrow> klock \<Rightarrow> semfs_sem \<Rightarrow> u32 \<Rightarrow> (unit, klock) res" where
  "semfs_wakeup cv lk sem newcount =
     (if sems_count sem > 0 \<or> newcount = 0 then Ok () lk
      else if newcount = 1 then cv_signal cv lk
      else cv_broadcast cv lk)"

definition semfs_truncate :: "cv \<Rightarrow> klock \<Rightarrow> u32 \<Rightarrow> int \<Rightarrow> semfs \<Rightarrow> (unit, semfs) res" where
  "semfs_truncate cv lk n len s =
     (if len < 0 then Err EINVAL s
      else if len > uint (- 1 :: u32) then Err EFBIG s
      else
        getsem n s (\<lambda>x. case x of None \<Rightarrow> Fault
          | Some sem \<Rightarrow>
              (case semfs_wakeup cv lk sem (word_of_int len) of
                 Ok _ lk \<Rightarrow> Ok () (setsem n (Some (sem\<lparr>sems_count := word_of_int len\<rparr>)) s)
               | _ \<Rightarrow> Panic)))"

definition semfs_create :: semfs where
  "semfs_create = \<lparr>semfs_vnodes = [], semfs_sems = [], semfs_dents = []\<rparr>"

text \<open>
  The destructor takes every slot of the two arrays for an object; on an empty slot it reads through
  \<^verbatim>\<open>NULL\<close>.
\<close>

definition semfs_destroy :: "semfs \<Rightarrow> (unit, semfs) res" where
  "semfs_destroy s =
     (if None \<in> set (semfs_sems s) then Fault
      else if None \<in> set (semfs_dents s) then Fault
      else Ok () (s\<lparr>semfs_sems := [], semfs_dents := []\<rparr>))"

definition semfs_unmount :: "semfs \<Rightarrow> (unit, semfs) res" where
  "semfs_unmount s = (if length (semfs_vnodes s) > 0 then Err EBUSY s else semfs_destroy s)"

text \<open>
  The directory is read by position: the offset of the transfer, converted to \<^verbatim>\<open>unsigned\<close>, is the index of
  the slot. The value is the name handed to \<^verbatim>\<open>uiomove\<close>, nothing at the end.
\<close>

definition semfs_getdirentry :: "int \<Rightarrow> semfs \<Rightarrow> (cstr option, semfs) res" where
  "semfs_getdirentry offset s =
     kassert (offset \<ge> 0)
       (let pos = unat (word_of_int offset :: u32) in
        if pos \<ge> length (semfs_dents s) then Ok None s
        else case semfs_dents s ! pos of None \<Rightarrow> Fault | Some dent \<Rightarrow> Ok (Some (semd_name dent)) s)"

definition semfs_isseekable :: "u32 \<Rightarrow> bool" where
  "semfs_isseekable n \<longleftrightarrow> n = SEMFS_ROOTDIR"

definition semfs_semstat :: "u32 \<Rightarrow> semfs \<Rightarrow> (stat, semfs) res" where
  "semfs_semstat n s =
     getsem n s (\<lambda>x. case x of None \<Rightarrow> Fault
       | Some sem \<Rightarrow> Ok \<lparr>st_size = uint (sems_count sem), st_mode = S_IFREG OR 0x1b6,
           st_nlink = (if sems_linked sem then 1 else 0), st_blocks = 0\<rparr> s)"

definition semfs_dirstat :: "semfs \<Rightarrow> (stat, semfs) res" where
  "semfs_dirstat s =
     Ok \<lparr>st_size = int (length (semfs_dents s)), st_mode = S_IFDIR OR 1777, st_nlink = 2, st_blocks = 0\<rparr> s"

subsection \<open>P and V\<close>

text \<open>
  The loop of \<^verbatim>\<open>semfs_read\<close>, on the semaphore and the transfer, with the lock held; \<open>None\<close> says
  that it has not ended within the given number of rounds. No data are moved.
\<close>

definition semfs_consume :: "semfs_sem \<Rightarrow> uio \<Rightarrow> semfs_sem \<times> uio" where
  "semfs_consume sem u =
     (if sems_count sem > 0 then
        let consume = (if uio_resid u > sems_count sem then sems_count sem else uio_resid u) in
        (sem\<lparr>sems_count := sems_count sem - consume\<rparr>,
         u\<lparr>uio_offset := uio_offset u + uint consume, uio_resid := uio_resid u - consume\<rparr>)
      else (sem, u))"

fun semfs_read :: "nat \<Rightarrow> cv \<Rightarrow> klock \<Rightarrow> semfs_sem \<Rightarrow> uio \<Rightarrow> (semfs_sem \<times> uio) option" where
  "semfs_read 0 cv lk sem u = None"
| "semfs_read (Suc rounds) cv lk sem u =
     (if \<not> uio_resid u > 0 then Some (sem, u)
      else
        let (sem, u) = semfs_consume sem u in
        if uio_resid u = 0 then Some (sem, u)
        else if sems_count sem = 0 then
          (case cv_wait cv lk of Ok _ lk \<Rightarrow> semfs_read rounds cv lk sem u | _ \<Rightarrow> None)
        else semfs_read rounds cv lk sem u)"

text \<open>The loop of \<^verbatim>\<open>semfs_write\<close> ends after one round, which leaves nothing to transfer.\<close>

definition semfs_write :: "cv \<Rightarrow> klock \<Rightarrow> semfs_sem \<Rightarrow> uio \<Rightarrow> (unit, semfs_sem \<times> uio) res" where
  "semfs_write cv lk sem u =
     (if \<not> uio_resid u > 0 then Ok () (sem, u)
      else
        let newcount = sems_count sem + uio_resid u in
        if newcount < sems_count sem then Err EFBIG (sem, u)
        else
          case semfs_wakeup cv lk sem newcount of
            Ok _ lk \<Rightarrow> Ok () (sem\<lparr>sems_count := newcount\<rparr>, u\<lparr>uio_offset := uio_offset u + uint (uio_resid u), uio_resid := 0\<rparr>)
          | _ \<Rightarrow> Panic)"

subsection \<open>The tables as maps\<close>

definition cell :: "'a option list \<Rightarrow> nat \<rightharpoonup> 'a" where
  "cell xs i = (if i < length xs then xs ! i else None)"

lemma cell_in: "cell xs i = Some x \<Longrightarrow> i < length xs"
  by (simp add: cell_def split: if_splits)

lemma cell_nth: "cell xs i = Some x \<Longrightarrow> xs ! i = Some x"
  by (simp add: cell_def split: if_splits)

lemma cell_update: "i < length xs \<Longrightarrow> cell (xs[i := x]) = (cell xs)(i := x)"
  by (auto simp: cell_def fun_eq_iff)

lemma cell_append: "cell (xs @ [x]) = (cell xs)(length xs := x)"
  by (auto simp: cell_def fun_eq_iff nth_append)

lemma cell_Nil [simp]: "cell [] = Map.empty"
  by (simp add: cell_def fun_eq_iff)

lemma first_empty_None: "first_empty xs k = None \<longleftrightarrow> None \<notin> set xs"
  by (induction xs k rule: first_empty.induct) auto

lemma first_empty_Some: "first_empty xs k = Some i \<Longrightarrow> k \<le> i \<and> i - k < length xs \<and> xs ! (i - k) = None"
proof (induction xs arbitrary: k)
  case (Cons x xs)
  show ?case
  proof (cases "x = None")
    case False
    then have "first_empty xs (Suc k) = Some i" using Cons.prems by auto
    from Cons.IH [OF this] show ?thesis by (auto simp: nth_Cons' Suc_diff_Suc)
  qed (use Cons in auto)
qed simp

text \<open>Where a new element goes: an empty slot, which it fills, or the end.\<close>

lemma first_empty_slot: "first_empty xs 0 = Some i \<Longrightarrow> i < length xs \<and> cell xs i = None"
  using first_empty_Some [of xs 0 i] by (simp add: cell_def)

lemma dent_index_Some:
  "dent_index name ds k = Some i \<Longrightarrow> k \<le> i \<and> (\<exists>a. cell ds (i - k) = Some a \<and> semd_name a = name)"
proof (induction ds arbitrary: k)
  case (Cons d ds)
  show ?case
  proof (cases "d \<noteq> None \<and> semd_name (the d) = name")
    case False
    then have "dent_index name ds (Suc k) = Some i" using Cons.prems by (auto split: option.splits if_splits)
    from Cons.IH [OF this] show ?thesis by (auto simp: cell_def nth_Cons' Suc_diff_Suc split: if_splits)
  qed (use Cons in \<open>auto simp: cell_def\<close>)
qed simp

lemma all_nat_cases: "(\<forall>i. Q i) \<longleftrightarrow> Q 0 \<and> (\<forall>i. Q (Suc i))"
  by (metis nat.exhaust)

lemma dent_index_None: "dent_index name ds k = None \<longleftrightarrow> (\<forall>i a. cell ds i = Some a \<longrightarrow> semd_name a \<noteq> name)"
proof (induction ds arbitrary: k)
  case (Cons d ds)
  have "(\<forall>i a. cell (d # ds) i = Some a \<longrightarrow> semd_name a \<noteq> name) \<longleftrightarrow>
        (\<forall>a. d = Some a \<longrightarrow> semd_name a \<noteq> name) \<and> (\<forall>i a. cell ds i = Some a \<longrightarrow> semd_name a \<noteq> name)"
    by (subst all_nat_cases) (simp add: cell_def)
  then show ?case using Cons.IH by (auto split: option.splits)
qed simp

text \<open>
  The invariant, on the maps from slots to entries, from numbers to semaphores and from numbers to vnodes: no two
  entries have the same name or the same semaphore; entries refer to semaphores; a semaphore
  knows whether it is in the directory and whether it has a vnode, and has one of the two; a vnode in
  use is that of the directory or of a semaphore.
\<close>

definition tables_ok :: "(nat \<rightharpoonup> semfs_direntry) \<Rightarrow> (u32 \<rightharpoonup> semfs_sem) \<Rightarrow> (u32 \<rightharpoonup> semfs_vnode) \<Rightarrow> bool" where
  "tables_ok D S V \<longleftrightarrow>
     (\<forall>i j a b. D i = Some a \<longrightarrow> D j = Some b \<longrightarrow> semd_name a = semd_name b \<or> semd_semnum a = semd_semnum b \<longrightarrow> i = j) \<and>
     (\<forall>i a. D i = Some a \<longrightarrow> \<not> dots (semd_name a) \<and> S (semd_semnum a) \<noteq> None) \<and>
     (\<forall>n x. S n = Some x \<longrightarrow> n \<noteq> SEMFS_ROOTDIR \<and> (sems_linked x \<longleftrightarrow> (\<exists>i a. D i = Some a \<and> semd_semnum a = n)) \<and>
        (sems_hasvnode x \<longleftrightarrow> V n \<noteq> None) \<and> (sems_linked x \<or> sems_hasvnode x)) \<and>
     (\<forall>n v. V n = Some v \<longrightarrow> 0 < sem_refcount v \<and> (n = SEMFS_ROOTDIR \<or> S n \<noteq> None))"

definition semat :: "semfs \<Rightarrow> u32 \<rightharpoonup> semfs_sem" where
  "semat s n = cell (semfs_sems s) (unat n)"

definition semfs_ok :: "semfs \<Rightarrow> bool" where
  "semfs_ok s \<longleftrightarrow> tables_ok (cell (semfs_dents s)) (semat s) (semvn s) \<and> distinct (map semv_semnum (semfs_vnodes s)) \<and>
     length (semfs_sems s) \<le> unat SEMFS_ROOTDIR"


lemma tables_okD:
  assumes "tables_ok D S V"
  shows "D i = Some a \<Longrightarrow> D j = Some b \<Longrightarrow> semd_name a = semd_name b \<or> semd_semnum a = semd_semnum b \<Longrightarrow> i = j"
    "D i = Some a \<Longrightarrow> \<not> dots (semd_name a)" "D i = Some a \<Longrightarrow> \<exists>x. S (semd_semnum a) = Some x \<and> sems_linked x"
    "S n = Some x \<Longrightarrow> n \<noteq> SEMFS_ROOTDIR" "S n = Some x \<Longrightarrow> sems_hasvnode x \<longleftrightarrow> V n \<noteq> None"
    "S n = Some x \<Longrightarrow> sems_linked x \<longleftrightarrow> (\<exists>i a. D i = Some a \<and> semd_semnum a = n)"
    "S n = Some x \<Longrightarrow> sems_linked x \<or> sems_hasvnode x"
    "V n = Some v \<Longrightarrow> 0 < sem_refcount v" "V n = Some v \<Longrightarrow> n = SEMFS_ROOTDIR \<or> S n \<noteq> None"
  using assms unfolding tables_ok_def by blast+

lemma tables_okI:
  assumes "\<And>i j a b. D i = Some a \<Longrightarrow> D j = Some b \<Longrightarrow> semd_name a = semd_name b \<or> semd_semnum a = semd_semnum b \<Longrightarrow> i = j"
    "\<And>i a. D i = Some a \<Longrightarrow> \<not> dots (semd_name a) \<and> S (semd_semnum a) \<noteq> None"
    "\<And>n x. S n = Some x \<Longrightarrow> n \<noteq> SEMFS_ROOTDIR \<and> (sems_linked x \<longleftrightarrow> (\<exists>i a. D i = Some a \<and> semd_semnum a = n)) \<and>
        (sems_hasvnode x \<longleftrightarrow> V n \<noteq> None) \<and> (sems_linked x \<or> sems_hasvnode x)"
    "\<And>n v. V n = Some v \<Longrightarrow> 0 < sem_refcount v \<and> (n = SEMFS_ROOTDIR \<or> S n \<noteq> None)"
  shows "tables_ok D S V"
  unfolding tables_ok_def using assms by blast

lemma tables_ok_recount:
  assumes "tables_ok D S V" "V n \<noteq> None \<or> n = SEMFS_ROOTDIR" "0 < sem_refcount w"
  shows "tables_ok D S (V(n \<mapsto> w))"
proof (rule tables_okI, goal_cases)
  case (3 m x)
  then show ?case using tables_okD(4-7) [OF assms(1), of m x] assms(2) by auto
next
  case (4 m v)
  then show ?case using tables_okD(8) [OF assms(1), of m v] tables_okD(9) [OF assms(1), of m] assms(2,3) by (auto split: if_splits)
next
  case (2 i a)
  then show ?case using tables_okD(2,3) [OF assms(1), of i a] by auto
qed (use tables_okD(1) [OF assms(1)] in blast)

lemma tables_ok_newvnode:
  assumes "tables_ok D S V" "S n = Some x" "0 < sem_refcount w"
  shows "tables_ok D (S(n \<mapsto> x\<lparr>sems_hasvnode := True\<rparr>)) (V(n \<mapsto> w))"
proof (rule tables_okI, goal_cases)
  case (2 i a)
  then show ?case using tables_okD(2,3) [OF assms(1), of i a] by auto
next
  case (3 m y)
  show ?case
  proof (cases "m = n")
    case True
    then have "y = x\<lparr>sems_hasvnode := True\<rparr>" using 3 by simp
    then show ?thesis using True tables_okD(4,6) [OF assms(1,2)] by simp
  qed (use 3 tables_okD(4-7) [OF assms(1), of m y] in simp)
next
  case (4 m v)
  then show ?case using tables_okD(8,9) [OF assms(1), of m v] assms(3) by (auto split: if_splits)
qed (use tables_okD(1) [OF assms(1)] in metis)

lemma tables_ok_dropvnode:
  assumes "tables_ok D S V" "S n = Some x"
  shows "tables_ok D (S(n := if sems_linked x then Some (x\<lparr>sems_hasvnode := False\<rparr>) else None)) (V(n := None))"
proof (rule tables_okI, goal_cases)
  case (2 i a)
  then show ?case using tables_okD(2,3) [OF assms(1), of i a] assms(2) by auto
next
  case (3 m y)
  show ?case
  proof (cases "m = n")
    case True
    then have "y = x\<lparr>sems_hasvnode := False\<rparr>" "sems_linked x" using 3 by (simp_all split: if_splits)
    then show ?thesis using True tables_okD(4,6) [OF assms(1,2)] by simp
  qed (use 3 tables_okD(4-7) [OF assms(1), of m y] in simp)
next
  case (4 m v)
  then show ?case using tables_okD(8,9) [OF assms(1), of m v] by (auto split: if_splits)
qed (use tables_okD(1) [OF assms(1)] in metis)

lemma tables_ok_droproot:
  assumes "tables_ok D S V"
  shows "tables_ok D S (V(SEMFS_ROOTDIR := None))"
proof (rule tables_okI, goal_cases)
  case (3 m x)
  then show ?case using tables_okD(4-7) [OF assms, of m x] by auto
next
  case (4 m v)
  then show ?case using tables_okD(8,9) [OF assms, of m v] by (auto split: if_splits)
next
  case (2 i a)
  then show ?case using tables_okD(2,3) [OF assms, of i a] by auto
qed (use tables_okD(1) [OF assms] in blast)

lemma tables_ok_unlink:
  assumes "tables_ok D S V" "D i = Some a" "S (semd_semnum a) = Some x"
  shows "tables_ok (D(i := None)) (S(semd_semnum a := if sems_hasvnode x then Some (x\<lparr>sems_linked := False\<rparr>) else None)) V"
proof (rule tables_okI, goal_cases)
  case (1 j k b c)
  then show ?case using tables_okD(1) [OF assms(1)] by (auto split: if_splits)
next
  case (2 j b)
  then have b: "D j = Some b" "j \<noteq> i" by (auto split: if_splits)
  then have "semd_semnum b \<noteq> semd_semnum a" using tables_okD(1) [OF assms(1) b(1) assms(2)] by blast
  then show ?case using tables_okD(2,3) [OF assms(1) b(1)] by auto
next
  case (3 m y)
  show ?case
  proof (cases "m = semd_semnum a")
    case True
    then have "\<not> (\<exists>j b. (D(i := None)) j = Some b \<and> semd_semnum b = m)"
      using tables_okD(1) [OF assms(1) _ assms(2)] by (auto split: if_splits)
    then show ?thesis using 3 True tables_okD(4,5) [OF assms(1,3)] by (auto split: if_splits)
  next
    case False
    have "(\<exists>j b. (D(i := None)) j = Some b \<and> semd_semnum b = m) \<longleftrightarrow> (\<exists>j b. D j = Some b \<and> semd_semnum b = m)"
      using False assms(2) by (metis fun_upd_apply option.distinct(1) option.inject)
    then show ?thesis using 3 False tables_okD(4-7) [OF assms(1), of m y] by simp
  qed
next
  case (4 m v)
  then show ?case using tables_okD(8,9) [OF assms(1) 4] tables_okD(5) [OF assms(1,3)] by auto
qed

lemma tables_ok_enter:
  assumes "tables_ok D S V" "D i = None" "\<And>j b. D j = Some b \<Longrightarrow> semd_name b \<noteq> semd_name a" "\<not> dots (semd_name a)"
    "S (semd_semnum a) = None" "semd_semnum a \<noteq> SEMFS_ROOTDIR" "0 < sem_refcount w" "sems_linked x" "sems_hasvnode x"
  shows "tables_ok (D(i \<mapsto> a)) (S(semd_semnum a \<mapsto> x)) (V(semd_semnum a \<mapsto> w))"
proof -
  have new: "semd_semnum b \<noteq> semd_semnum a" if "D j = Some b" for j b using tables_okD(3) [OF assms(1) that] assms(5) by auto
  show ?thesis
  proof (rule tables_okI, goal_cases)
    case (1 j k b c)
    then show ?case using tables_okD(1) [OF assms(1)] new assms(3) by (auto split: if_splits) metis+
  next
    case (2 j b)
    then show ?case using tables_okD(2,3) [OF assms(1), of j b] assms(4) by (auto split: if_splits)
  next
    case (3 m y)
    then show ?case
    proof (cases "m = semd_semnum a")
      case False
      have "(\<exists>j b. (D(i \<mapsto> a)) j = Some b \<and> semd_semnum b = m) \<longleftrightarrow> (\<exists>j b. D j = Some b \<and> semd_semnum b = m)"
        using False assms(2) by (metis fun_upd_apply option.distinct(1) option.inject)
      then show ?thesis using 3 False tables_okD(4-7) [OF assms(1), of m y] by simp
    qed (use 3 assms(6,8,9) in auto)
  next
    case (4 m v)
    then show ?case using tables_okD(8,9) [OF assms(1), of m v] assms(7) by (auto split: if_splits)
  qed
qed


subsection \<open>What the operations do to the maps\<close>

lemma semvn_upd:
  assumes "\<And>v. semv_semnum (f v) = semv_semnum v"
  shows "semvn (sem_upd n f s) = (semvn s)(n := map_option f (semvn s n))"
proof
  fix m
  have "find (\<lambda>v. semv_semnum v = m) (map (\<lambda>v. if semv_semnum v = n then f v else v) vs) =
        (if m = n then map_option f (find (\<lambda>v. semv_semnum v = n) vs) else find (\<lambda>v. semv_semnum v = m) vs)" for vs
    using assms by (induction vs) auto
  then show "semvn (sem_upd n f s) m = ((semvn s)(n := map_option f (semvn s n))) m"
    by (simp add: semvn_def sem_upd_def)
qed

lemma semvn_drop: "semvn (s\<lparr>semfs_vnodes := filter (\<lambda>v. semv_semnum v \<noteq> n) (semfs_vnodes s)\<rparr>) = (semvn s)(n := None)"
proof
  fix m
  have "find (\<lambda>v. semv_semnum v = m) (filter (\<lambda>v. semv_semnum v \<noteq> n) vs) =
        (if m = n then None else find (\<lambda>v. semv_semnum v = m) vs)" for vs
    by (induction vs) auto
  from this [of "semfs_vnodes s"]
  show "semvn (s\<lparr>semfs_vnodes := filter (\<lambda>v. semv_semnum v \<noteq> n) (semfs_vnodes s)\<rparr>) m = ((semvn s)(n := None)) m"
    by (cases "m = n") (simp_all add: semvn_def)
qed

lemma semvn_add: "semvn s (semv_semnum v) = None \<Longrightarrow> semvn (s\<lparr>semfs_vnodes := semfs_vnodes s @ [v]\<rparr>) = (semvn s)(semv_semnum v \<mapsto> v)"
proof
  fix m
  assume new: "semvn s (semv_semnum v) = None"
  have "find (\<lambda>v. semv_semnum v = m) (vs @ [v]) = (if m = semv_semnum v then Some v else find (\<lambda>v. semv_semnum v = m) vs)"
    if "find (\<lambda>w. semv_semnum w = semv_semnum v) vs = None" for vs
    using that by (induction vs) (auto split: if_splits)
  then show "semvn (s\<lparr>semfs_vnodes := semfs_vnodes s @ [v]\<rparr>) m = ((semvn s)(semv_semnum v \<mapsto> v)) m"
    using new by (simp add: semvn_def)
qed

lemma semvn_None: "semvn s n = None \<longleftrightarrow> n \<notin> semv_semnum ` set (semfs_vnodes s)"
  by (auto simp: semvn_def find_None_iff)

lemma semvn_cong [simp]: "semvn (s\<lparr>semfs_sems := x\<rparr>) = semvn s" "semvn (s\<lparr>semfs_dents := d\<rparr>) = semvn s" "semvn (setsem n y s) = semvn s"
  by (simp_all add: semvn_def fun_eq_iff setsem_def)

lemma semat_cong [simp]: "semat (s\<lparr>semfs_vnodes := v\<rparr>) = semat s" "semat (s\<lparr>semfs_dents := d\<rparr>) = semat s" "semat (sem_upd n f s) = semat s"
  by (simp_all add: semat_def fun_eq_iff sem_upd_def)

lemma semat_setsem: "unat n < length (semfs_sems s) \<Longrightarrow> semat (setsem n x s) = (semat s)(n := x)"
  by (auto simp: semat_def setsem_def fun_eq_iff cell_update word_unat_eq_iff)

lemma semat_in: "semat s n = Some x \<Longrightarrow> unat n < length (semfs_sems s)"
  unfolding semat_def by (rule cell_in)

lemma getsem_at: "semat s n = Some x \<Longrightarrow> getsem n s k = k (Some x)"
  using semat_in [of s n x] cell_nth [of "semfs_sems s" "unat n" x] by (simp add: getsem_def semat_def)

lemma setsem_same [simp]: "semfs_dents (setsem n x s) = semfs_dents s" "semfs_vnodes (setsem n x s) = semfs_vnodes s"
    "length (semfs_sems (setsem n x s)) = length (semfs_sems s)"
  by (simp_all add: setsem_def)

lemma sem_upd_same [simp]: "semfs_dents (sem_upd n f s) = semfs_dents s" "semfs_sems (sem_upd n f s) = semfs_sems s"
  by (simp_all add: sem_upd_def)

lemma sem_upd_distinct:
  "(\<And>v. semv_semnum (f v) = semv_semnum v) \<Longrightarrow> map semv_semnum (semfs_vnodes (sem_upd n f s)) = map semv_semnum (semfs_vnodes s)"
  by (simp add: sem_upd_def comp_def if_distrib [of semv_semnum] cong: if_cong)

subsection \<open>The abstract file system\<close>

text \<open>
  A directory from names to semaphores, the counts of the semaphores that exist, and the number of references to
  each vnode.
\<close>

record semdir =
  sd_dir :: "cstr \<rightharpoonup> u32"
  sd_count :: "u32 \<rightharpoonup> u32"
  sd_refs :: "u32 \<Rightarrow> nat"

definition dirof :: "semfs \<Rightarrow> cstr \<rightharpoonup> u32" where
  "dirof s name = map_option (\<lambda>i. semd_semnum (the (semfs_dents s ! i))) (dent_index name (semfs_dents s) 0)"

definition refsof :: "semfs \<Rightarrow> u32 \<Rightarrow> nat" where
  "refsof s n = (case semvn s n of None \<Rightarrow> 0 | Some v \<Rightarrow> sem_refcount v)"

definition semabs :: "semfs \<Rightarrow> semdir" where
  "semabs s = \<lparr>sd_dir = dirof s, sd_count = (\<lambda>n. map_option sems_count (semat s n)), sd_refs = refsof s\<rparr>"

definition spec_open :: "u32 \<Rightarrow> semdir \<Rightarrow> semdir" where
  "spec_open n a = a\<lparr>sd_refs := (sd_refs a)(n := Suc (sd_refs a n))\<rparr>"

definition spec_creat :: "cstr \<Rightarrow> u32 \<Rightarrow> semdir \<Rightarrow> semdir" where
  "spec_creat name n a =
     spec_open n (if sd_dir a name = None then a\<lparr>sd_dir := (sd_dir a)(name \<mapsto> n), sd_count := (sd_count a)(n \<mapsto> 0)\<rparr> else a)"

definition spec_remove :: "cstr \<Rightarrow> semdir \<Rightarrow> semdir" where
  "spec_remove name a =
     (let n = the (sd_dir a name) in
      a\<lparr>sd_dir := (sd_dir a)(name := None), sd_count := (sd_count a)(n := if sd_refs a n = 0 then None else sd_count a n)\<rparr>)"

definition spec_close :: "u32 \<Rightarrow> semdir \<Rightarrow> semdir" where
  "spec_close n a =
     a\<lparr>sd_refs := (sd_refs a)(n := sd_refs a n - 1),
       sd_count := (sd_count a)(n := if sd_refs a n = 1 \<and> n \<notin> ran (sd_dir a) then None else sd_count a n)\<rparr>"

lemma dirof_iff:
  assumes "tables_ok (cell (semfs_dents s)) S V"
  shows "dirof s name = Some n \<longleftrightarrow> (\<exists>i a. cell (semfs_dents s) i = Some a \<and> semd_name a = name \<and> semd_semnum a = n)"
proof (cases "dent_index name (semfs_dents s) 0")
  case None
  then show ?thesis using dent_index_None [of name "semfs_dents s" 0] by (auto simp: dirof_def)
next
  case (Some i)
  then obtain a where a: "cell (semfs_dents s) i = Some a" "semd_name a = name" using dent_index_Some [OF Some] by auto
  then have "dirof s name = Some (semd_semnum a)" using Some cell_nth [OF a(1)] by (simp add: dirof_def)
  then show ?thesis using a tables_okD(1) [OF assms a(1)] by fastforce
qed

lemma dirof_ran:
  assumes "tables_ok (cell (semfs_dents s)) S V" "S n = Some x"
  shows "n \<in> ran (dirof s) \<longleftrightarrow> sems_linked x"
  using dirof_iff [OF assms(1)] tables_okD(6) [OF assms] by (auto simp: ran_def)

lemma dirof_cong [simp]: "dirof (s\<lparr>semfs_sems := x\<rparr>) = dirof s" "dirof (s\<lparr>semfs_vnodes := v\<rparr>) = dirof s" "dirof (setsem n y s) = dirof s"
    "dirof (sem_upd n f s) = dirof s"
  by (simp_all add: dirof_def fun_eq_iff)

lemma semfs_okD:
  assumes "semfs_ok s"
  shows "tables_ok (cell (semfs_dents s)) (semat s) (semvn s)" "distinct (map semv_semnum (semfs_vnodes s))"
    "length (semfs_sems s) \<le> unat SEMFS_ROOTDIR"
  using assms by (simp_all add: semfs_ok_def)

lemma refsof_pos: "tables_ok D S (semvn s) \<Longrightarrow> 0 < refsof s n \<longleftrightarrow> semvn s n \<noteq> None"
  by (auto simp: refsof_def split: option.splits dest: tables_okD(8))


lemma semabs_eqI:
  "dirof t = sd_dir a \<Longrightarrow> (\<And>n. map_option sems_count (semat t n) = sd_count a n) \<Longrightarrow> (\<And>n. refsof t n = sd_refs a n) \<Longrightarrow> semabs t = a"
  by (cases a) (auto simp: semabs_def fun_eq_iff)

lemma semabs_sel [simp]: "sd_dir (semabs s) = dirof s" "sd_count (semabs s) n = map_option sems_count (semat s n)" "sd_refs (semabs s) = refsof s"
  by (simp_all add: semabs_def)

lemma ROOTDIR_out: "semfs_ok s \<Longrightarrow> semat s SEMFS_ROOTDIR = None"
  using tables_okD(4) [OF semfs_okD(1), of s SEMFS_ROOTDIR] by (cases "semat s SEMFS_ROOTDIR") auto

lemma sem_incref_ok:
  assumes "semfs_ok s" "semvn s n \<noteq> None"
  shows "semfs_ok (sem_incref n s) \<and> semabs (sem_incref n s) = spec_open n (semabs s)"
proof -
  obtain v where v: "semvn s n = Some v" using assms(2) by auto
  let ?w = "v\<lparr>sem_refcount := Suc (sem_refcount v)\<rparr>"
  have t: "semvn (sem_incref n s) = (semvn s)(n \<mapsto> ?w)" unfolding sem_incref_def by (subst semvn_upd) (simp_all add: v)
  have ok: "tables_ok (cell (semfs_dents s)) (semat s) ((semvn s)(n \<mapsto> ?w))"
    by (rule tables_ok_recount [OF semfs_okD(1) [OF assms(1)]]) (simp_all add: v)
  have "map semv_semnum (semfs_vnodes (sem_incref n s)) = map semv_semnum (semfs_vnodes s)"
    by (simp add: sem_incref_def sem_upd_distinct)
  then have "semfs_ok (sem_incref n s)" using ok t semfs_okD(2,3) [OF assms(1)] by (simp add: semfs_ok_def sem_incref_def)
  moreover have "semabs (sem_incref n s) = spec_open n (semabs s)"
    by (rule semabs_eqI) (auto simp: spec_open_def sem_incref_def [of n s] refsof_def t [unfolded sem_incref_def] v)
  ultimately show ?thesis ..
qed

text \<open>\<^verbatim>\<open>semfs_getvnode\<close> for a number that has no vnode yet.\<close>

lemma semfs_getvnode_new:
  assumes "semvn s n = None" "n = SEMFS_ROOTDIR \<or> semat s n = Some x \<and> \<not> sems_hasvnode x"
  shows "semfs_getvnode mem n s =
    (if \<not> mem 4 \<or> \<not> mem 5 then Err ENOMEM s
     else Ok n (let t = s\<lparr>semfs_vnodes := semfs_vnodes s @ [\<lparr>sem_refcount = Suc 0, semv_semnum = n\<rparr>]\<rparr> in
                if n = SEMFS_ROOTDIR then t else setsem n (Some (x\<lparr>sems_hasvnode := True\<rparr>)) t))"
proof -
  let ?t = "s\<lparr>semfs_vnodes := semfs_vnodes s @ [\<lparr>sem_refcount = Suc 0, semv_semnum = n\<rparr>]\<rparr>"
  have "getsem n ?t k = k (Some x)" if "n \<noteq> SEMFS_ROOTDIR" for k :: "semfs_sem option \<Rightarrow> (u32, semfs) res"
    using assms(2) that by (intro getsem_at) simp
  then show ?thesis using assms by (cases "n = SEMFS_ROOTDIR") (simp_all add: semfs_getvnode_def semfs_vnode_create_def Let_def)
qed

lemma semfs_getvnode_ok:
  assumes ok: "semfs_ok s" and n: "n = SEMFS_ROOTDIR \<or> semat s n \<noteq> None"
  shows "ends (semfs_getvnode mem n s) (\<lambda>m t. m = n \<and> semfs_ok t \<and> semabs t = spec_open n (semabs s)) (\<lambda>e t. t = s)"
proof (cases "semvn s n")
  case (Some v)
  then show ?thesis using sem_incref_ok [OF ok, of n] by (simp add: semfs_getvnode_def)
next
  case None
  note T = semfs_okD [OF ok]
  let ?v = "\<lparr>sem_refcount = Suc 0, semv_semnum = n\<rparr>"
  let ?t = "s\<lparr>semfs_vnodes := semfs_vnodes s @ [?v]\<rparr>"
  have vt: "semvn ?t = (semvn s)(n \<mapsto> ?v)" using semvn_add [of s ?v] None by simp
  have d: "distinct (map semv_semnum (semfs_vnodes ?t))" using T(2) None by (simp add: semvn_None)
  show ?thesis
  proof (cases "n = SEMFS_ROOTDIR")
    case True
    have "tables_ok (cell (semfs_dents s)) (semat s) ((semvn s)(n \<mapsto> ?v))" by (rule tables_ok_recount [OF T(1)]) (simp_all add: True)
    then have "semfs_ok ?t" using vt d T(3) by (simp add: semfs_ok_def)
    moreover have "semabs ?t = spec_open n (semabs s)"
      by (rule semabs_eqI) (auto simp: spec_open_def refsof_def vt None)
    ultimately show ?thesis using True semfs_getvnode_new [OF None, of undefined mem] by simp
  next
    case False
    then obtain x where x: "semat s n = Some x" using n by auto
    then have h: "\<not> sems_hasvnode x" using tables_okD(5) [OF T(1) x] None by simp
    let ?u = "setsem n (Some (x\<lparr>sems_hasvnode := True\<rparr>)) ?t"
    have st: "semat ?u = (semat s)(n \<mapsto> x\<lparr>sems_hasvnode := True\<rparr>)" using semat_in [OF x] by (simp add: semat_setsem)
    have "tables_ok (cell (semfs_dents s)) ((semat s)(n \<mapsto> x\<lparr>sems_hasvnode := True\<rparr>)) ((semvn s)(n \<mapsto> ?v))"
      by (rule tables_ok_newvnode [OF T(1) x]) simp
    then have "semfs_ok ?u" using vt st d T(3) by (simp add: semfs_ok_def)
    moreover have "semabs ?u = spec_open n (semabs s)"
      by (rule semabs_eqI) (auto simp: spec_open_def refsof_def vt st None x)
    ultimately show ?thesis using False by (simp add: semfs_getvnode_new [OF None, of x] x h)
  qed
qed


lemma dirof_map_eq:
  assumes "tables_ok (cell (semfs_dents t)) S V"
    "\<And>name n. (\<exists>i a. cell (semfs_dents t) i = Some a \<and> semd_name a = name \<and> semd_semnum a = n) \<longleftrightarrow> f name = Some n"
  shows "dirof t = f"
proof
  fix name
  show "dirof t name = f name" using dirof_iff [OF assms(1)] assms(2) by (metis not_None_eq)
qed

lemma semfs_remove_ok:
  assumes ok: "semfs_ok s"
  shows "ends (semfs_remove name s) (\<lambda>_ t. semfs_ok t \<and> dirof s name \<noteq> None \<and> semabs t = spec_remove name (semabs s))
    (\<lambda>e t. t = s \<and> e = (if dots name then EINVAL else ENOENT) \<and> dirof s name = None)"
proof (cases "dent_index name (semfs_dents s) 0")
  case None
  then show ?thesis by (simp add: semfs_remove_def dirof_def)
next
  case (Some i)
  note T = semfs_okD [OF ok]
  obtain a where a: "cell (semfs_dents s) i = Some a" "semd_name a = name" using dent_index_Some [OF Some] by auto
  let ?n = "semd_semnum a"
  obtain x where x: "semat s ?n = Some x" "sems_linked x" using tables_okD(3) [OF T(1) a(1)] by auto
  let ?y = "if sems_hasvnode x then Some (x\<lparr>sems_linked := False\<rparr>) else None"
  let ?t = "(setsem ?n ?y s)\<lparr>semfs_dents := (semfs_dents s)[i := None]\<rparr>"
  have run: "semfs_remove name s = Ok () ?t"
    using Some x a tables_okD(2) [OF T(1) a(1)] cell_nth [OF a(1)] by (simp add: semfs_remove_def getsem_at [OF x(1)])
  have st: "semat ?t = (semat s)(?n := ?y)" using semat_in [OF x(1)] by (simp add: semat_setsem)
  have dt: "cell (semfs_dents ?t) = (cell (semfs_dents s))(i := None)" using cell_in [OF a(1)] by (simp add: cell_update)
  have tk: "tables_ok (cell (semfs_dents ?t)) (semat ?t) (semvn ?t)"
    using tables_ok_unlink [OF T(1) a(1) x(1)] by (simp only: st dt semvn_cong)
  have d: "dirof s name = Some ?n" using dirof_iff [OF T(1)] a by blast
  have "dirof ?t = (dirof s)(name := None)"
  proof (rule dirof_map_eq [OF tk])
    fix nm m
    show "(\<exists>j b. cell (semfs_dents ?t) j = Some b \<and> semd_name b = nm \<and> semd_semnum b = m) \<longleftrightarrow> ((dirof s)(name := None)) nm = Some m"
    proof (cases "nm = name")
      case True
      have "j = i" if "cell (semfs_dents s) j = Some b" "semd_name b = name" for j b using tables_okD(1) [OF T(1) that(1) a(1)] that(2) a(2) by simp
      then have "\<not> (\<exists>j b. cell (semfs_dents ?t) j = Some b \<and> semd_name b = name)" unfolding dt by (metis fun_upd_apply option.distinct(1))
      then show ?thesis using True by auto
    next
      case False
      then have "(\<exists>j b. cell (semfs_dents ?t) j = Some b \<and> semd_name b = nm \<and> semd_semnum b = m) \<longleftrightarrow>
          (\<exists>j b. cell (semfs_dents s) j = Some b \<and> semd_name b = nm \<and> semd_semnum b = m)"
        using a unfolding dt by (metis fun_upd_apply option.distinct(1) option.inject)
      then show ?thesis using False dirof_iff [OF T(1), of nm m] by simp
    qed
  qed
  moreover have "refsof s ?n = 0 \<longleftrightarrow> \<not> sems_hasvnode x" using tables_okD(5) [OF T(1) x(1)] refsof_pos [OF T(1), of ?n] by auto
  ultimately have "semabs ?t = spec_remove name (semabs s)"
    by (intro semabs_eqI) (simp_all add: spec_remove_def Let_def d semat_setsem [OF semat_in [OF x(1)]] x(1) refsof_def)
  moreover have "semfs_ok ?t" using tk T(2,3) by (simp add: semfs_ok_def)
  ultimately show ?thesis using run d by simp
qed

lemma semfs_reclaim_run:
  assumes ok: "semfs_ok s" and v: "semvn s n = Some v" "sem_refcount v = 1"
  shows "\<exists>t. semfs_reclaim n s = Ok () t \<and> semfs_ok t \<and> semabs t = spec_close n (semabs s)"
proof -
  note T = semfs_okD [OF ok]
  let ?s = "s\<lparr>semfs_vnodes := filter (\<lambda>v. semv_semnum v \<noteq> n) (semfs_vnodes s)\<rparr>"
  have d: "distinct (map semv_semnum (semfs_vnodes ?s))" using T(2) by (simp add: distinct_map_filter)
  show ?thesis
  proof (cases "n = SEMFS_ROOTDIR")
    case True
    have "tables_ok (cell (semfs_dents s)) (semat s) ((semvn s)(n := None))" unfolding True by (rule tables_ok_droproot [OF T(1)])
    then have "semfs_ok ?s" using T(3) d by (simp add: semfs_ok_def semvn_drop)
    moreover have "semabs ?s = spec_close n (semabs s)"
      by (rule semabs_eqI) (auto simp: spec_close_def refsof_def semvn_drop v [unfolded True] True ROOTDIR_out [OF ok])
    moreover have "semfs_reclaim n s = Ok () ?s" using v True by (simp add: semfs_reclaim_def)
    ultimately show ?thesis by blast
  next
    case False
    then obtain x where x: "semat s n = Some x" using tables_okD(9) [OF T(1) v(1)] by auto
    have h: "sems_hasvnode x" using tables_okD(5) [OF T(1) x] v(1) by simp
    let ?y = "if sems_linked x then Some (x\<lparr>sems_hasvnode := False\<rparr>) else None"
    let ?t = "setsem n ?y ?s"
    have st: "semat ?t = (semat s)(n := ?y)" using semat_in [OF x] by (simp add: semat_setsem)
    have g: "getsem n ?s k = k (Some x)" for k :: "semfs_sem option \<Rightarrow> (unit, semfs) res" by (rule getsem_at) (simp add: x)
    have "tables_ok (cell (semfs_dents s)) ((semat s)(n := ?y)) ((semvn s)(n := None))" by (rule tables_ok_dropvnode [OF T(1) x])
    then have "semfs_ok ?t" using T(3) d by (simp add: semfs_ok_def semvn_drop st)
    moreover have "semabs ?t = spec_close n (semabs s)"
      by (rule semabs_eqI) (simp_all add: spec_close_def st x refsof_def semvn_drop v dirof_ran [OF T(1) x])
    moreover have "semfs_reclaim n s = Ok () ?t" using v False h by (simp add: semfs_reclaim_def Let_def g)
    ultimately show ?thesis by blast
  qed
qed

lemma sem_decref_ok:
  assumes ok: "semfs_ok s" and n: "0 < refsof s n"
  shows "\<exists>t. sem_decref n s = Ok () t \<and> semfs_ok t \<and> semabs t = spec_close n (semabs s)"
proof -
  note T = semfs_okD [OF ok]
  obtain v where v: "semvn s n = Some v" "refsof s n = sem_refcount v" using n by (auto simp: refsof_def split: option.splits)
  show ?thesis
  proof (cases "sem_refcount v = 1")
    case True
    then show ?thesis using semfs_reclaim_run [OF ok v(1) True] v(1) by (auto simp: sem_decref_def)
  next
    case False
    let ?f = "\<lambda>v :: semfs_vnode. v\<lparr>sem_refcount := sem_refcount v - 1\<rparr>"
    let ?t = "sem_upd n ?f s"
    have vt: "semvn ?t = (semvn s)(n \<mapsto> ?f v)" using semvn_upd [of ?f n s] v(1) by simp
    have "tables_ok (cell (semfs_dents s)) (semat s) ((semvn s)(n \<mapsto> ?f v))"
      by (rule tables_ok_recount [OF T(1)]) (use v n False in simp_all)
    then have "semfs_ok ?t" using vt T(2,3) by (simp add: semfs_ok_def sem_upd_distinct)
    moreover have "semabs ?t = spec_close n (semabs s)"
      by (rule semabs_eqI) (use v n False vt in \<open>auto simp: spec_close_def refsof_def\<close>)
    moreover have "sem_decref n s = Ok () ?t" using v n False by (simp add: sem_decref_def)
    ultimately show ?thesis by blast
  qed
qed


text \<open>
  Why a call cannot be served. A vnode has to be made only for a semaphore that nobody uses; a new semaphore
  needs a number below \<open>SEMFS_ROOTDIR\<close>, and memory where its table has no empty slot; likewise its entry.
\<close>

definition vnode_error :: "(nat \<Rightarrow> bool) \<Rightarrow> u32 \<Rightarrow> semfs \<Rightarrow> errno option" where
  "vnode_error mem n s = (if refsof s n = 0 \<and> \<not> (mem 4 \<and> mem 5) then Some ENOMEM else None)"

definition insert_error :: "(nat \<Rightarrow> bool) \<Rightarrow> semfs \<Rightarrow> errno option" where
  "insert_error mem s =
     (if length (semfs_sems s) = unat SEMFS_ROOTDIR then Some ENOSPC
      else if None \<notin> set (semfs_sems s) \<and> \<not> mem 1 then Some ENOMEM
      else None)"

definition enter_error :: "(nat \<Rightarrow> bool) \<Rightarrow> semfs \<Rightarrow> errno option" where
  "enter_error mem s =
     (if mem 2 \<and> (None \<notin> set (semfs_dents s) \<and> \<not> mem 3 \<or> \<not> mem 4 \<or> \<not> mem 5) then Some ENOMEM else None)"

definition creat_error :: "(nat \<Rightarrow> bool) \<Rightarrow> cstr \<Rightarrow> bool \<Rightarrow> semfs \<Rightarrow> errno option" where
  "creat_error mem name excl s =
     (if dots name then Some EEXIST
      else
        case dirof s name of
          Some n \<Rightarrow> if excl then Some EEXIST else vnode_error mem n s
        | None \<Rightarrow>
            if \<not> mem 0 then Some ENOMEM
            else (case insert_error mem s of Some e \<Rightarrow> Some e | None \<Rightarrow> enter_error mem s))"

lemma semfs_getvnode_error:
  assumes ok: "semfs_ok s" and n: "n = SEMFS_ROOTDIR \<or> semat s n \<noteq> None"
  shows "ends (semfs_getvnode mem n s) (\<lambda>m t. m = n \<and> semfs_ok t \<and> semabs t = spec_open n (semabs s) \<and> vnode_error mem n s = None)
    (\<lambda>e t. t = s \<and> vnode_error mem n s = Some e)"
proof (cases "semvn s n")
  case (Some v)
  then have "0 < refsof s n" using refsof_pos [OF semfs_okD(1) [OF ok]] by simp
  then show ?thesis using Some sem_incref_ok [OF ok, of n] by (simp add: semfs_getvnode_def vnode_error_def)
next
  case None
  then have r: "refsof s n = 0" by (simp add: refsof_def)
  obtain x where "n = SEMFS_ROOTDIR \<or> semat s n = Some x \<and> \<not> sems_hasvnode x"
    using n tables_okD(5) [OF semfs_okD(1) [OF ok]] None by blast
  note g = semfs_getvnode_new [OF None this, of mem]
  show ?thesis
  proof (cases "\<not> mem 4 \<or> \<not> mem 5")
    case True
    then show ?thesis using g r by (simp add: vnode_error_def)
  next
    case False
    then have "vnode_error mem n s = None" by (simp add: vnode_error_def)
    moreover obtain t where "semfs_getvnode mem n s = Ok n t" using g False by simp
    ultimately show ?thesis using semfs_getvnode_ok [OF ok n, of mem] by simp
  qed
qed

text \<open>A new semaphore gets a number that no semaphore has, and neither the old ones nor their order change.\<close>

lemma semfs_sem_insert_run:
  assumes ok: "semfs_ok s"
  shows "ends (semfs_sem_insert mem x s)
    (\<lambda>n t. semat s n = None \<and> n \<noteq> SEMFS_ROOTDIR \<and> unat n < length (semfs_sems t) \<and> length (semfs_sems t) \<le> unat SEMFS_ROOTDIR \<and>
       semat t = (semat s)(n \<mapsto> x) \<and> semfs_dents t = semfs_dents s \<and> semfs_vnodes t = semfs_vnodes s \<and> insert_error mem s = None)
    (\<lambda>e t. t = s \<and> insert_error mem s = Some e)"
proof -
  note len = semfs_okD(3) [OF ok]
  have root: "unat SEMFS_ROOTDIR = 2 ^ 32 - 1" by (simp add: SEMFS_ROOTDIR_def)
  have at: "semat (s\<lparr>semfs_sems := ys\<rparr>) = (semat s)(word_of_nat i \<mapsto> x)" if "cell ys = (cell (semfs_sems s))(i \<mapsto> x)" "i < 2 ^ 32" for ys i
    using that unat_of_nat_u32 [OF that(2)] by (auto simp: semat_def fun_eq_iff u32_eq_iff)
  show ?thesis
  proof (cases "length (semfs_sems s) = unat SEMFS_ROOTDIR")
    case False
    then have less: "length (semfs_sems s) < unat SEMFS_ROOTDIR" using len by simp
    show ?thesis
    proof (cases "first_empty (semfs_sems s) 0")
      case None
      let ?n = "length (semfs_sems s)"
      have n: "?n < 2 ^ 32" "unat (word_of_nat ?n :: u32) = ?n" using less root unat_of_nat_u32 [of ?n] by auto
      then have "semat s (word_of_nat ?n) = None" "(word_of_nat ?n :: u32) \<noteq> SEMFS_ROOTDIR"
        using less by (auto simp: semat_def cell_def)
      moreover have "None \<notin> set (semfs_sems s)" using None by (simp add: first_empty_None)
      ultimately show ?thesis using None False less at [OF cell_append n(1)] n(2) by (simp add: semfs_sem_insert_def insert_error_def)
    next
      case (Some i)
      note i = first_empty_slot [OF Some]
      have n: "i < 2 ^ 32" "unat (word_of_nat i :: u32) = i" using i less root unat_of_nat_u32 [of i] by auto
      then have "semat s (word_of_nat i) = None" "(word_of_nat i :: u32) \<noteq> SEMFS_ROOTDIR" using i less by (auto simp: semat_def)
      moreover have "None \<in> set (semfs_sems s)" using Some first_empty_None [of "semfs_sems s" 0] by simp
      ultimately show ?thesis using Some False less i at [OF cell_update n(1)] n(2) by (simp add: semfs_sem_insert_def insert_error_def)
    qed
  qed (simp add: semfs_sem_insert_def insert_error_def)
qed

text \<open>The entry goes into an empty slot or to the end.\<close>

lemma enter_slot:
  fixes ds :: "semfs_direntry option list"
  assumes "(case first_empty ds 0 of Some pos \<Rightarrow> Some (pos, s\<lparr>semfs_dents := ds[pos := Some a]\<rparr>)
            | None \<Rightarrow> if \<not> m then None else Some (length ds, s\<lparr>semfs_dents := ds @ [Some a]\<rparr>)) = Some (i, t)"
  obtains es where "t = s\<lparr>semfs_dents := es\<rparr>" "cell es = (cell ds)(i \<mapsto> a)" "cell ds i = None" "i < length es"
proof (cases "first_empty ds 0")
  case None
  then have "t = s\<lparr>semfs_dents := ds @ [Some a]\<rparr>" "i = length ds" using assms by (auto split: if_splits)
  then show thesis using that [of "ds @ [Some a]"] by (simp add: cell_append cell_def)
next
  case (Some p)
  then have "t = s\<lparr>semfs_dents := ds[i := Some a]\<rparr>" "p = i" using assms by auto
  then show thesis using that [of "ds[i := Some a]"] first_empty_slot [OF Some] by (simp add: cell_update)
qed


lemma same_maps:
  assumes ok: "semfs_ok s" and "cell (semfs_dents t) = cell (semfs_dents s)" "semat t = semat s" "semfs_vnodes t = semfs_vnodes s"
    "length (semfs_sems t) \<le> unat SEMFS_ROOTDIR"
  shows "semfs_ok t \<and> semabs t = semabs s"
proof -
  note T = semfs_okD [OF ok]
  have v: "semvn t = semvn s" using assms(4) by (simp add: semvn_def fun_eq_iff)
  have tk: "tables_ok (cell (semfs_dents t)) (semat t) (semvn t)" using T(1) assms(2,3) v by simp
  have "dirof t = dirof s"
  proof (rule dirof_map_eq [OF tk])
    show "(\<exists>i a. cell (semfs_dents t) i = Some a \<and> semd_name a = nm \<and> semd_semnum a = n) \<longleftrightarrow> dirof s nm = Some n" for nm n
      using dirof_iff [OF T(1), of nm n] assms(2) by simp
  qed
  then have "semabs t = semabs s" by (intro semabs_eqI) (simp_all add: assms(3) refsof_def v)
  then show ?thesis using tk T(2) assms(4,5) by (simp add: semfs_ok_def)
qed

text \<open>The state after a successful creation: semaphore, entry and vnode are there and know of each other.\<close>

lemma entered_ok:
  assumes ok: "semfs_ok s" and new: "semat s n = None" "n \<noteq> SEMFS_ROOTDIR" "dirof s name = None" "\<not> dots name" "cell (semfs_dents s) i = None"
    and t: "cell (semfs_dents t) = (cell (semfs_dents s))(i \<mapsto> \<lparr>semd_name = name, semd_semnum = n\<rparr>)"
      "semat t = (semat s)(n \<mapsto> \<lparr>sems_count = 0, sems_hasvnode = True, sems_linked = True\<rparr>)"
      "semfs_vnodes t = semfs_vnodes s @ [\<lparr>sem_refcount = Suc 0, semv_semnum = n\<rparr>]" "length (semfs_sems t) \<le> unat SEMFS_ROOTDIR"
  shows "semfs_ok t \<and> semabs t = spec_creat name n (semabs s)"
proof -
  note T = semfs_okD [OF ok]
  let ?a = "\<lparr>semd_name = name, semd_semnum = n\<rparr>" and ?v = "\<lparr>sem_refcount = Suc 0, semv_semnum = n\<rparr>"
  have none: "semvn s n = None" using tables_okD(9) [OF T(1), of n] new(1,2) by (cases "semvn s n") auto
  have vt: "semvn t = (semvn s)(n \<mapsto> ?v)" using semvn_add [of s ?v] none t(3) by (simp add: semvn_def fun_eq_iff)
  have nm: "semd_name b \<noteq> name" if "cell (semfs_dents s) j = Some b" for j b using dirof_iff [OF T(1), of name] that new(3) by force
  have tk: "tables_ok (cell (semfs_dents t)) (semat t) (semvn t)"
    unfolding t(1,2) vt by (rule tables_ok_enter [OF T(1) new(5), of ?a, simplified]) (use nm new in auto)
  have "dirof t = (dirof s)(name \<mapsto> n)"
  proof (rule dirof_map_eq [OF tk])
    fix m k
    show "(\<exists>j b. cell (semfs_dents t) j = Some b \<and> semd_name b = m \<and> semd_semnum b = k) \<longleftrightarrow> ((dirof s)(name \<mapsto> n)) m = Some k"
    proof (cases "m = name")
      case True
      then show ?thesis using nm unfolding t(1) by (auto split: if_splits)
    next
      case False
      then have "(\<exists>j b. cell (semfs_dents t) j = Some b \<and> semd_name b = m \<and> semd_semnum b = k) \<longleftrightarrow>
          (\<exists>j b. cell (semfs_dents s) j = Some b \<and> semd_name b = m \<and> semd_semnum b = k)"
        using new(5) unfolding t(1) by (metis fun_upd_apply option.distinct(1) option.inject semfs_direntry.select_convs(1))
      then show ?thesis using False dirof_iff [OF T(1), of m k] by simp
    qed
  qed
  then have "semabs t = spec_creat name n (semabs s)"
    by (intro semabs_eqI) (auto simp: spec_creat_def spec_open_def new(3) t(2) refsof_def vt none)
  moreover have "distinct (map semv_semnum (semfs_vnodes t))" using T(2) none t(3) by (simp add: semvn_None)
  ultimately show ?thesis using tk t(4) by (simp add: semfs_ok_def)
qed

lemma creat_enter_ok:
  assumes ok: "semfs_ok s" and new: "semat s n = None" "n \<noteq> SEMFS_ROOTDIR" "dirof s name = None" "\<not> dots name"
    and u: "semat u = (semat s)(n \<mapsto> \<lparr>sems_count = 0, sems_hasvnode = False, sems_linked = False\<rparr>)" "semfs_dents u = semfs_dents s"
      "semfs_vnodes u = semfs_vnodes s" "unat n < length (semfs_sems u)" "length (semfs_sems u) \<le> unat SEMFS_ROOTDIR"
  shows "ends (creat_enter mem name n u)
    (\<lambda>r t. semfs_ok t \<and> enter_error mem s = None \<and>
       (case r of None \<Rightarrow> semabs t = semabs s \<and> \<not> mem 2 | Some m \<Rightarrow> m = n \<and> semabs t = spec_creat name n (semabs s) \<and> mem 2))
    (\<lambda>e t. semfs_ok t \<and> semabs t = semabs s \<and> enter_error mem s = Some e)"
proof -
  note T = semfs_okD [OF ok]
  let ?a = "\<lparr>semd_name = name, semd_semnum = n\<rparr>" and ?x = "\<lparr>sems_count = 0, sems_hasvnode = False, sems_linked = False\<rparr>"
  let ?put = "case first_empty (semfs_dents u) 0 of Some pos \<Rightarrow> Some (pos, u\<lparr>semfs_dents := (semfs_dents u)[pos := Some ?a]\<rparr>)
                | None \<Rightarrow> if \<not> mem 3 then None else Some (length (semfs_dents u), u\<lparr>semfs_dents := semfs_dents u @ [Some ?a]\<rparr>)"
  have fail: "semfs_ok (setsem n None w) \<and> semabs (setsem n None w) = semabs s"
    if "cell (semfs_dents w) = cell (semfs_dents s)" "semfs_vnodes w = semfs_vnodes u" "semfs_sems w = semfs_sems u" for w
  proof (rule same_maps [OF ok])
    have "semat w = semat u" using that(3) by (simp add: semat_def fun_eq_iff)
    then show "semat (setsem n None w) = semat s" using u(1,4) that(3) new(1) by (simp add: semat_setsem fun_upd_idem)
  qed (use that u(3,5) in simp_all)
  show ?thesis
  proof (cases "mem 2")
    case False
    then show ?thesis using fail [of u] u(2) by (simp add: creat_enter_def semfs_direntry_create_def enter_error_def)
  next
    case m: True
    show ?thesis
    proof (cases ?put)
      case None
      then have "None \<notin> set (semfs_dents s)" "\<not> mem 3" using u(2) first_empty_None [of "semfs_dents s" 0] by (auto split: option.splits if_splits)
      then show ?thesis using None m fail [of u] u(2) by (simp add: creat_enter_def semfs_direntry_create_def enter_error_def)
    next
      case (Some p)
      then obtain i w where p: "p = (i, w)" "?put = Some (i, w)" by (cases p) auto
      obtain es where es: "w = u\<lparr>semfs_dents := es\<rparr>" "cell es = (cell (semfs_dents s))(i \<mapsto> ?a)" "cell (semfs_dents s) i = None" "i < length es"
        using enter_slot [OF p(2)] u(2) by metis
      have room: "None \<in> set (semfs_dents s) \<or> mem 3"
        using p(2) first_empty_None [of "semfs_dents s" 0] u(2) by (auto split: option.splits if_splits)
      have none: "semvn w n = None" using tables_okD(9) [OF T(1), of n] new(1,2) u(3) es(1) by (cases "semvn s n") (auto simp: semvn_def)
      have at: "semat w n = Some ?x" using u(1) es(1) by simp
      have run: "creat_enter mem name n u =
          (case semfs_getvnode mem n w of
             Ok v s \<Rightarrow> getsem n s (\<lambda>x. case x of None \<Rightarrow> Fault
                | Some sem \<Rightarrow> Ok (Some v) (setsem n (Some (sem\<lparr>sems_linked := True\<rparr>)) s))
           | Err e s \<Rightarrow> Err e (setsem n None (s\<lparr>semfs_dents := (semfs_dents s)[i := None]\<rparr>))
           | Panic \<Rightarrow> Panic | Fault \<Rightarrow> Fault | Hang \<Rightarrow> Hang)"
        unfolding creat_enter_def semfs_direntry_create_def using m p(2) by simp
      have gv: "semfs_getvnode mem n w = (if \<not> mem 4 \<or> \<not> mem 5 then Err ENOMEM w
          else Ok n (setsem n (Some (?x\<lparr>sems_hasvnode := True\<rparr>)) (w\<lparr>semfs_vnodes := semfs_vnodes w @ [\<lparr>sem_refcount = Suc 0, semv_semnum = n\<rparr>]\<rparr>)))"
        using semfs_getvnode_new [OF none, of ?x mem] at new(2) by (simp add: Let_def)
      show ?thesis
      proof (cases "\<not> mem 4 \<or> \<not> mem 5")
        case True
        have "cell (semfs_dents (w\<lparr>semfs_dents := (semfs_dents w)[i := None]\<rparr>)) = cell (semfs_dents s)"
          using es by (simp add: cell_update fun_upd_idem)
        from fail [OF this] show ?thesis using True m run gv es(1) by (simp add: enter_error_def)
      next
        case False
        let ?w = "setsem n (Some (?x\<lparr>sems_hasvnode := True\<rparr>)) (w\<lparr>semfs_vnodes := semfs_vnodes w @ [\<lparr>sem_refcount = Suc 0, semv_semnum = n\<rparr>]\<rparr>)"
        let ?t = "setsem n (Some (?x\<lparr>sems_hasvnode := True, sems_linked := True\<rparr>)) ?w"
        have in_w: "unat n < length (semfs_sems w)" using u(4) es(1) by simp
        have sw: "semat ?w = (semat u)(n \<mapsto> ?x\<lparr>sems_hasvnode := True\<rparr>)" using in_w es(1) by (simp add: semat_setsem)
        have st: "semat ?t = (semat s)(n \<mapsto> ?x\<lparr>sems_hasvnode := True, sems_linked := True\<rparr>)"
          using in_w sw u(1) by (simp add: semat_setsem)
        have "semfs_ok ?t \<and> semabs ?t = spec_creat name n (semabs s)"
          by (rule entered_ok [OF ok new es(3)]) (use es u st in simp_all)
        moreover have "getsem n ?w k = k (Some (?x\<lparr>sems_hasvnode := True\<rparr>))" for k :: "semfs_sem option \<Rightarrow> (u32 option, semfs) res"
          by (rule getsem_at) (subst sw, simp)
        ultimately show ?thesis using False m room run gv by (simp add: enter_error_def)
      qed
    qed
  qed
qed


lemma dirof_entry:
  assumes ok: "semfs_ok s" and i: "dent_index name (semfs_dents s) 0 = Some i"
  obtains n where "dirof s name = Some n" "semd_semnum (the (semfs_dents s ! i)) = n" "semat s n \<noteq> None" "n \<noteq> SEMFS_ROOTDIR"
proof -
  note T = semfs_okD(1) [OF ok]
  obtain a where a: "cell (semfs_dents s) i = Some a" "semd_name a = name" using dent_index_Some [OF i] by auto
  have "dirof s name = Some (semd_semnum a)" using dirof_iff [OF T] a by blast
  moreover obtain x where "semat s (semd_semnum a) = Some x" using tables_okD(3) [OF T a(1)] by auto
  ultimately show thesis using that [of "semd_semnum a"] cell_nth [OF a(1)] tables_okD(4) [OF T] by auto
qed

lemma creat_new_ok:
  assumes ok: "semfs_ok s" and new: "dirof s name = None" "\<not> dots name"
  shows "ends (kbind (semfs_sem_insert mem \<lparr>sems_count = 0, sems_hasvnode = False, sems_linked = False\<rparr> s) (creat_enter mem name))
    (\<lambda>r t. semfs_ok t \<and> insert_error mem s = None \<and> enter_error mem s = None \<and>
       (case r of None \<Rightarrow> semabs t = semabs s \<and> \<not> mem 2
        | Some n \<Rightarrow> semabs t = spec_creat name n (semabs s) \<and> n \<noteq> SEMFS_ROOTDIR \<and> semat s n = None \<and> mem 2))
    (\<lambda>e t. semfs_ok t \<and> semabs t = semabs s \<and> (case insert_error mem s of Some e \<Rightarrow> Some e | None \<Rightarrow> enter_error mem s) = Some e)"
    (is "ends (kbind (semfs_sem_insert mem ?x s) _) ?P ?Q")
proof (rule ends_kbind)
  let ?P' = "\<lambda>n t. semat s n = None \<and> n \<noteq> SEMFS_ROOTDIR \<and> unat n < length (semfs_sems t) \<and> length (semfs_sems t) \<le> unat SEMFS_ROOTDIR \<and>
    semat t = (semat s)(n \<mapsto> ?x) \<and> semfs_dents t = semfs_dents s \<and> semfs_vnodes t = semfs_vnodes s \<and> insert_error mem s = None"
  show "ends (semfs_sem_insert mem ?x s) ?P' ?Q"
    by (rule ends_mono [OF semfs_sem_insert_run [OF ok]]) (simp_all add: ok)
  fix n t
  assume t: "?P' n t"
  then have "ends (creat_enter mem name n t)
      (\<lambda>r t. semfs_ok t \<and> enter_error mem s = None \<and>
         (case r of None \<Rightarrow> semabs t = semabs s \<and> \<not> mem 2 | Some m \<Rightarrow> m = n \<and> semabs t = spec_creat name n (semabs s) \<and> mem 2))
      (\<lambda>e t. semfs_ok t \<and> semabs t = semabs s \<and> enter_error mem s = Some e)"
    by (intro creat_enter_ok [OF ok _ _ new]) simp_all
  then show "ends (creat_enter mem name n t) ?P ?Q" by (rule ends_mono) (use t in \<open>auto split: option.splits\<close>)
qed

lemma semfs_creat_ok:
  assumes ok: "semfs_ok s"
  shows "ends (semfs_creat mem name excl s)
    (\<lambda>r t. semfs_ok t \<and> creat_error mem name excl s = None \<and>
       (case r of
          None \<Rightarrow> semabs t = semabs s \<and> dirof s name = None \<and> \<not> mem 2
        | Some n \<Rightarrow> semabs t = spec_creat name n (semabs s) \<and> n \<noteq> SEMFS_ROOTDIR \<and>
            (if dirof s name = None then semat s n = None \<and> mem 2 else dirof s name = Some n)))
    (\<lambda>e t. semfs_ok t \<and> semabs t = semabs s \<and> creat_error mem name excl s = Some e)"
proof (cases "dots name")
  case dn: False
  show ?thesis
  proof (cases "dent_index name (semfs_dents s) 0")
    case None
    then have new: "dirof s name = None" by (simp add: dirof_def)
    show ?thesis
    proof (cases "mem 0")
      case True
      have run: "semfs_creat mem name excl s = kbind (semfs_sem_insert mem \<lparr>sems_count = 0, sems_hasvnode = False, sems_linked = False\<rparr> s) (creat_enter mem name)"
        using None dn True by (simp add: semfs_creat_def semfs_sem_create_def)
      show ?thesis unfolding run
        by (rule ends_mono [OF creat_new_ok [OF ok new dn]]) (use dn new True in \<open>auto simp: creat_error_def split: option.splits\<close>)
    qed (use None dn ok new in \<open>simp add: semfs_creat_def semfs_sem_create_def creat_error_def\<close>)
  next
    case (Some i)
    obtain n where n: "dirof s name = Some n" "semd_semnum (the (semfs_dents s ! i)) = n" "semat s n \<noteq> None" "n \<noteq> SEMFS_ROOTDIR"
      using dirof_entry [OF ok Some] .
    have "ends (kbind (semfs_getvnode mem n s) (\<lambda>v s. Ok (Some v) s))
      (\<lambda>r t. semfs_ok t \<and> r = Some n \<and> semabs t = spec_open n (semabs s) \<and> vnode_error mem n s = None)
      (\<lambda>e t. semfs_ok t \<and> semabs t = semabs s \<and> vnode_error mem n s = Some e)"
      by (rule ends_kbind [OF ends_mono [OF semfs_getvnode_error [OF ok]]]) (use n(3) ok in auto)
    then show ?thesis using Some dn n ok
      by (auto simp: semfs_creat_def spec_creat_def creat_error_def elim!: ends_mono)
  qed
qed (use ok in \<open>simp add: semfs_creat_def creat_error_def\<close>)

definition lookup_error :: "(nat \<Rightarrow> bool) \<Rightarrow> cstr \<Rightarrow> semfs \<Rightarrow> errno option" where
  "lookup_error mem path s =
     (if dots path then None else case dirof s path of None \<Rightarrow> Some ENOENT | Some n \<Rightarrow> vnode_error mem n s)"

lemma semfs_lookup_ok:
  assumes ok: "semfs_ok s" and v: "0 < refsof s v"
  shows "ends (semfs_lookup mem v path s)
    (\<lambda>n t. semfs_ok t \<and> semabs t = spec_open n (semabs s) \<and> (if dots path then n = v else dirof s path = Some n) \<and> lookup_error mem path s = None)
    (\<lambda>e t. t = s \<and> lookup_error mem path s = Some e)"
proof (cases "dots path \<or> dent_index path (semfs_dents s) 0 = None")
  case True
  then show ?thesis using sem_incref_ok [OF ok, of v] v refsof_pos [OF semfs_okD(1) [OF ok], of v]
    by (auto simp: semfs_lookup_def lookup_error_def dirof_def)
next
  case False
  then obtain i where i: "dent_index path (semfs_dents s) 0 = Some i" by auto
  obtain n where n: "dirof s path = Some n" "semd_semnum (the (semfs_dents s ! i)) = n" "semat s n \<noteq> None"
    using dirof_entry [OF ok i] by metis
  have "ends (semfs_getvnode mem n s)
      (\<lambda>m t. semfs_ok t \<and> semabs t = spec_open m (semabs s) \<and> dirof s path = Some m \<and> lookup_error mem path s = None)
      (\<lambda>e t. t = s \<and> lookup_error mem path s = Some e)"
    by (rule ends_mono [OF semfs_getvnode_error [OF ok]]) (use n False in \<open>auto simp: lookup_error_def\<close>)
  then show ?thesis using False i n(2) by (simp add: semfs_lookup_def)
qed

lemma semfs_wakeup_idle: "semfs_wakeup cv lk sem m = Ok () lk"
  by (simp add: semfs_wakeup_def cv_signal_def cv_broadcast_def)

text \<open>Changing the count of a semaphore.\<close>

lemma semfs_count_ok:
  assumes ok: "semfs_ok s" and x: "semat s n = Some x"
  shows "semfs_ok (setsem n (Some (x\<lparr>sems_count := c\<rparr>)) s) \<and>
    semabs (setsem n (Some (x\<lparr>sems_count := c\<rparr>)) s) = (semabs s)\<lparr>sd_count := (sd_count (semabs s))(n \<mapsto> c)\<rparr>"
proof -
  note T = semfs_okD [OF ok]
  let ?y = "x\<lparr>sems_count := c\<rparr>"
  have st: "semat (setsem n (Some ?y) s) = (semat s)(n \<mapsto> ?y)" using semat_in [OF x] by (simp add: semat_setsem)
  have "tables_ok (cell (semfs_dents s)) ((semat s)(n \<mapsto> ?y)) (semvn s)"
  proof (rule tables_okI, goal_cases)
    case (2 i a)
    then show ?case using tables_okD(2,3) [OF T(1) 2] by auto
  next
    case (3 m z)
    show ?case
    proof (cases "m = n")
      case True
      then have "z = ?y" using 3 by simp
      then show ?thesis using True tables_okD(4-7) [OF T(1) x] by simp
    qed (use 3 tables_okD(4-7) [OF T(1), of m z] in simp)
  next
    case (4 m w)
    then show ?case using tables_okD(8,9) [OF T(1) 4] by auto
  qed (use tables_okD(1) [OF T(1)] in blast)
  then have "semfs_ok (setsem n (Some ?y) s)" using T(2,3) by (simp add: semfs_ok_def st)
  moreover have "semabs (setsem n (Some ?y) s) = (semabs s)\<lparr>sd_count := (sd_count (semabs s))(n \<mapsto> c)\<rparr>"
    by (rule semabs_eqI) (simp_all add: st refsof_def)
  ultimately show ?thesis ..
qed

lemma semat_held:
  assumes "semfs_ok s" "0 < refsof s n" "n \<noteq> SEMFS_ROOTDIR"
  obtains x where "semat s n = Some x"
proof -
  obtain v where "semvn s n = Some v" using assms(2) by (auto simp: refsof_def split: option.splits)
  then show thesis using that tables_okD(9) [OF semfs_okD(1) [OF assms(1)]] assms(3) by blast
qed

lemma semfs_truncate_ok:
  assumes ok: "semfs_ok s" and n: "0 < refsof s n" "n \<noteq> SEMFS_ROOTDIR"
  shows "if len < 0 then semfs_truncate cv lk n len s = Err EINVAL s
    else if 2 ^ 32 \<le> len then semfs_truncate cv lk n len s = Err EFBIG s
    else \<exists>t. semfs_truncate cv lk n len s = Ok () t \<and> semfs_ok t \<and>
      semabs t = (semabs s)\<lparr>sd_count := (sd_count (semabs s))(n \<mapsto> word_of_int len)\<rparr>"
proof -
  obtain x where x: "semat s n = Some x" using semat_held [OF ok n] .
  have "uint (- 1 :: u32) = 2 ^ 32 - 1" by (simp add: unsigned_minus_1_eq_mask mask_eq_exp_minus_1)
  then show ?thesis using semfs_count_ok [OF ok x]
    by (auto simp: semfs_truncate_def getsem_at [OF x] semfs_wakeup_idle)
qed


subsection \<open>When P and V return\<close>

lemma semfs_read_enough:
  assumes "uio_resid u \<le> sems_count sem"
  shows "semfs_read (Suc k) cv lk sem u =
    Some (sem\<lparr>sems_count := sems_count sem - uio_resid u\<rparr>, u\<lparr>uio_offset := uio_offset u + uint (uio_resid u), uio_resid := 0\<rparr>)"
proof (cases "uio_resid u = 0")
  case False
  then have "0 < uio_resid u" "0 < sems_count sem" using assms by (simp_all add: u32_order u32_eq_iff)
  moreover have "\<not> sems_count sem < uio_resid u" using assms by simp
  ultimately show ?thesis by (simp add: semfs_consume_def Let_def)
qed simp

lemma semfs_read_dry: "sems_count sem = 0 \<Longrightarrow> uio_resid u \<noteq> 0 \<Longrightarrow> semfs_read k cv lk sem u = None"
  by (induction k arbitrary: lk) (simp_all add: semfs_consume_def cv_wait_def word_gt_0)

lemma semfs_read_short:
  assumes "sems_count sem < uio_resid u"
  shows "semfs_read k cv lk sem u = None"
proof (cases k)
  case (Suc j)
  show ?thesis
  proof (cases "sems_count sem = 0")
    case True
    then show ?thesis using assms by (intro semfs_read_dry) auto
  next
    case False
    let ?u = "u\<lparr>uio_offset := uio_offset u + uint (sems_count sem), uio_resid := uio_resid u - sems_count sem\<rparr>"
    have c: "semfs_consume sem u = (sem\<lparr>sems_count := 0\<rparr>, ?u)" using False assms by (simp add: semfs_consume_def word_gt_0 Let_def)
    have "uio_resid ?u \<noteq> 0" using assms by auto
    moreover from this have "semfs_read j cv lk (sem\<lparr>sems_count := 0\<rparr>) ?u = None" by (intro semfs_read_dry) simp_all
    moreover have "0 < uio_resid u" using assms by (simp add: u32_order)
    ultimately show ?thesis using Suc c by (simp add: cv_wait_def)
  qed
qed simp

lemma semfs_write_run:
  "semfs_write cv lk sem u =
     (if 2 ^ 32 \<le> unat (sems_count sem) + unat (uio_resid u) then Err EFBIG (sem, u)
      else Ok () (sem\<lparr>sems_count := sems_count sem + uio_resid u\<rparr>, u\<lparr>uio_offset := uio_offset u + uint (uio_resid u), uio_resid := 0\<rparr>))"
proof -
  let ?c = "sems_count sem" and ?n = "uio_resid u"
  show ?thesis
  proof (cases "2 ^ 32 \<le> unat ?c + unat ?n")
    case True
    have "unat (?c + ?n) = unat ?c + unat ?n - 2 ^ 32"
      using True unat_u32_less [of ?c] unat_u32_less [of ?n] by (simp add: unat_word_ariths mod_if)
    then have "?c + ?n < ?c" "?n \<noteq> 0" using True unat_u32_less [of ?c] unat_u32_less [of ?n] by (auto simp: u32_order u32_eq_iff)
    then show ?thesis using True by (simp add: semfs_write_def word_gt_0 Let_def)
  next
    case False
    then have "unat (?c + ?n) = unat ?c + unat ?n" by (intro unat_add_small) simp
    then have "\<not> ?c + ?n < ?c" by (simp add: u32_order)
    then show ?thesis using False by (cases "?n = 0") (simp_all add: semfs_write_def semfs_wakeup_idle word_gt_0 Let_def)
  qed
qed

subsection \<open>Any sequence of calls\<close>

text \<open>
  The calls that come in through the vnodes of semfs (\<^verbatim>\<open>semfs_dirops\<close>, \<^verbatim>\<open>semfs_semops\<close>) and through the file system,
  and what their callers guarantee: they hold a reference to the vnode they call on, the operations of semaphores come with
  vnodes of semaphores (\<^verbatim>\<open>semfs_semops\<close>), and the offset at which the directory is read is not negative.
\<close>

datatype semreq =
    SemCreat "nat \<Rightarrow> bool" cstr bool
  | SemRemove cstr
  | SemLookup "nat \<Rightarrow> bool" u32 cstr
  | SemLookparent u32 cstr nat
  | SemGetroot "nat \<Rightarrow> bool"
  | SemEachopen u32 u32
  | SemTruncate cv klock u32 int
  | SemDecref u32
  | SemRead nat cv klock u32 uio
  | SemWrite cv klock u32 uio
  | SemGetdirentry int
  | SemUnmount

fun legal :: "semreq \<Rightarrow> semdir \<Rightarrow> bool" where
  "legal (SemLookup mem v path) a = (0 < sd_refs a v)"
| "legal (SemLookparent v path n) a = (0 < sd_refs a v)"
| "legal (SemEachopen v flags) a = (0 < sd_refs a v)"
| "legal (SemTruncate cv lk v len) a = (0 < sd_refs a v \<and> v \<noteq> SEMFS_ROOTDIR)"
| "legal (SemDecref v) a = (0 < sd_refs a v)"
| "legal (SemRead rounds cv lk v u) a = (0 < sd_refs a v \<and> v \<noteq> SEMFS_ROOTDIR \<and> 0 < rounds)"
| "legal (SemWrite cv lk v u) a = (0 < sd_refs a v \<and> v \<noteq> SEMFS_ROOTDIR)"
| "legal (SemGetdirentry offset) a = (0 \<le> offset)"
| "legal _ a = True"

text \<open>
  The call, with what it hands back: nothing, a vnode, or the name found by reading the directory. Reading and
  writing fetch the semaphore of the vnode and work on it; a read that has not ended after the given number
  of rounds of its loop counts as hanging.
\<close>

datatype semret = Nothing | Vnode u32 | Name "cstr option"

fun semcall :: "semreq \<Rightarrow> semfs \<Rightarrow> (semret, semfs) res" where
  "semcall (SemCreat mem name excl) s =
     kbind (semfs_creat mem name excl s) (\<lambda>r s. Ok (case r of None \<Rightarrow> Nothing | Some n \<Rightarrow> Vnode n) s)"
| "semcall (SemRemove name) s = kbind (semfs_remove name s) (\<lambda>_ s. Ok Nothing s)"
| "semcall (SemLookup mem v path) s = kbind (semfs_lookup mem v path s) (\<lambda>n s. Ok (Vnode n) s)"
| "semcall (SemLookparent v path n) s = kbind (semfs_lookparent v path n s) (\<lambda>(d, _) s. Ok (Vnode d) s)"
| "semcall (SemGetroot mem) s = kbind (semfs_getroot mem s) (\<lambda>n s. Ok (Vnode n) s)"
| "semcall (SemEachopen v flags) s = kbind (semfs_eachopen v flags s) (\<lambda>_ s. Ok Nothing s)"
| "semcall (SemTruncate cv lk v len) s = kbind (semfs_truncate cv lk v len s) (\<lambda>_ s. Ok Nothing s)"
| "semcall (SemDecref v) s = kbind (sem_decref v s) (\<lambda>_ s. Ok Nothing s)"
| "semcall (SemRead rounds cv lk v u) s =
     getsem v s (\<lambda>x. case x of None \<Rightarrow> Fault
       | Some sem \<Rightarrow> (case semfs_read rounds cv lk sem u of None \<Rightarrow> Hang | Some (sem, u) \<Rightarrow> Ok Nothing (setsem v (Some sem) s)))"
| "semcall (SemWrite cv lk v u) s =
     getsem v s (\<lambda>x. case x of None \<Rightarrow> Fault
       | Some sem \<Rightarrow>
           (case semfs_write cv lk sem u of
              Ok _ (sem, u) \<Rightarrow> Ok Nothing (setsem v (Some sem) s)
            | Err e (sem, u) \<Rightarrow> Err e (setsem v (Some sem) s)
            | Panic \<Rightarrow> Panic | Fault \<Rightarrow> Fault | Hang \<Rightarrow> Hang))"
| "semcall (SemGetdirentry offset) s = kbind (semfs_getdirentry offset s) (\<lambda>nm s. Ok (Name nm) s)"
| "semcall SemUnmount s = kbind (semfs_unmount s) (\<lambda>_ s. Ok Nothing s)"

text \<open>
  How each call ends, as a function of the state: whether it succeeds, fails and with which error, spins for ever, or
  runs through a \<^verbatim>\<open>NULL\<close> pointer. The last happens in the directory and in the destructor, which take
  the empty slots that removals leave for objects.
\<close>

datatype semend = Succeeds | Fails errno | Hangs | Faults

fun failing :: "errno option \<Rightarrow> semend" where
  "failing None = Succeeds"
| "failing (Some e) = Fails e"

fun outcome :: "semreq \<Rightarrow> semfs \<Rightarrow> semend" where
  "outcome (SemCreat mem name excl) s = failing (creat_error mem name excl s)"
| "outcome (SemRemove name) s = (if dots name then Fails EINVAL else if dirof s name = None then Fails ENOENT else Succeeds)"
| "outcome (SemLookup mem v path) s = failing (lookup_error mem path s)"
| "outcome (SemLookparent v path n) s = (if n \<le> length path then Fails ENAMETOOLONG else Succeeds)"
| "outcome (SemGetroot mem) s = failing (vnode_error mem SEMFS_ROOTDIR s)"
| "outcome (SemEachopen v flags) s =
     (if v = SEMFS_ROOTDIR \<and> (flags AND O_ACCMODE \<noteq> O_RDONLY \<or> flags AND O_APPEND \<noteq> 0) then Fails EISDIR else Succeeds)"
| "outcome (SemTruncate cv lk v len) s = (if len < 0 then Fails EINVAL else if 2 ^ 32 \<le> len then Fails EFBIG else Succeeds)"
| "outcome (SemDecref v) s = Succeeds"
| "outcome (SemRead rounds cv lk v u) s = (if the (sd_count (semabs s) v) < uio_resid u then Hangs else Succeeds)"
| "outcome (SemWrite cv lk v u) s =
     (if 2 ^ 32 \<le> unat (the (sd_count (semabs s) v)) + unat (uio_resid u) then Fails EFBIG else Succeeds)"
| "outcome (SemGetdirentry offset) s =
     (let pos = unat (word_of_int offset :: u32) in
      if pos < length (semfs_dents s) \<and> semfs_dents s ! pos = None then Faults else Succeeds)"
| "outcome SemUnmount s =
     (if semfs_vnodes s \<noteq> [] then Fails EBUSY
      else if None \<in> set (semfs_sems s) \<or> None \<in> set (semfs_dents s) then Faults
      else Succeeds)"

text \<open>What a call that succeeds does to the abstract file system, given what it hands back.\<close>

fun semspec :: "semreq \<Rightarrow> semret \<Rightarrow> semdir \<Rightarrow> semdir" where
  "semspec (SemCreat mem name excl) r a = (case r of Vnode n \<Rightarrow> spec_creat name n a | _ \<Rightarrow> a)"
| "semspec (SemRemove name) r a = spec_remove name a"
| "semspec (SemTruncate cv lk v len) r a = a\<lparr>sd_count := (sd_count a)(v \<mapsto> word_of_int len)\<rparr>"
| "semspec (SemDecref v) r a = spec_close v a"
| "semspec (SemRead rounds cv lk v u) r a = a\<lparr>sd_count := (sd_count a)(v \<mapsto> the (sd_count a v) - uio_resid u)\<rparr>"
| "semspec (SemWrite cv lk v u) r a = a\<lparr>sd_count := (sd_count a)(v \<mapsto> the (sd_count a v) + uio_resid u)\<rparr>"
| "semspec SemUnmount r a = semabs semfs_create"
| "semspec _ r a = (case r of Vnode n \<Rightarrow> spec_open n a | _ \<Rightarrow> a)"

text \<open>
  What is handed back: the vnode the directory names, a new one for a new name, nothing for a new name
  only when the memory for the entry is missing, and the name in the slot that the offset selects.
\<close>

fun semgives :: "semreq \<Rightarrow> semret \<Rightarrow> semfs \<Rightarrow> bool" where
  "semgives (SemCreat mem name excl) r s =
     (case dirof s name of
        Some n \<Rightarrow> r = Vnode n
      | None \<Rightarrow> if \<not> mem 2 then r = Nothing else \<exists>n. r = Vnode n \<and> n \<noteq> SEMFS_ROOTDIR \<and> semat s n = None)"
| "semgives (SemLookup mem v path) r s = (if dots path then r = Vnode v else map_option Vnode (dirof s path) = Some r)"
| "semgives (SemLookparent v path n) r s = (r = Vnode v)"
| "semgives (SemGetroot mem) r s = (r = Vnode SEMFS_ROOTDIR)"
| "semgives (SemGetdirentry offset) r s =
     (let pos = unat (word_of_int offset :: u32) in
      if pos < length (semfs_dents s) then \<exists>nm. r = Name (Some nm) \<and> nm = semd_name (the (semfs_dents s ! pos)) \<and> dirof s nm \<noteq> None
      else r = Name None)"
| "semgives _ r s = (r = Nothing)"

definition meets :: "semreq \<Rightarrow> semfs \<Rightarrow> (semret, semfs) res \<Rightarrow> bool" where
  "meets c s x \<longleftrightarrow>
     (case outcome c s of
        Succeeds \<Rightarrow> \<exists>r t. x = Ok r t \<and> semfs_ok t \<and> semabs t = semspec c r (semabs s) \<and> semgives c r s
      | Fails e \<Rightarrow> \<exists>t. x = Err e t \<and> semfs_ok t \<and> semabs t = semabs s
      | Hangs \<Rightarrow> x = Hang
      | Faults \<Rightarrow> x = Fault)"

lemma meets_ends:
  assumes "ends x (\<lambda>r t. semfs_ok t \<and> e = None \<and> P r t) (\<lambda>d t. semfs_ok t \<and> semabs t = semabs s \<and> e = Some d)"
    "outcome c s = failing e" "\<And>r t. P r t \<Longrightarrow> semabs t = semspec c (f r) (semabs s) \<and> semgives c (f r) s"
  shows "meets c s (kbind x (\<lambda>r s. Ok (f r) s))"
  using assms by (cases x) (auto simp: meets_def ends_def)

lemma dots_dir: "semfs_ok s \<Longrightarrow> dots name \<Longrightarrow> dirof s name = None"
  using dirof_iff [OF semfs_okD(1)] tables_okD(2) [OF semfs_okD(1)] by (metis not_None_eq)

lemma semcall_creat: "semfs_ok s \<Longrightarrow> meets (SemCreat mem name excl) s (semcall (SemCreat mem name excl) s)"
  unfolding semcall.simps
  by (rule meets_ends [OF semfs_creat_ok [of s mem name excl]]) (auto split: option.splits if_splits)

lemma semcall_remove: "semfs_ok s \<Longrightarrow> meets (SemRemove name) s (semcall (SemRemove name) s)"
  using semfs_remove_ok [of s name] dots_dir [of s name]
  by (cases "semfs_remove name s") (auto simp: meets_def ends_def)

lemma semcall_lookup:
  assumes "semfs_ok s" "0 < refsof s v"
  shows "meets (SemLookup mem v path) s (semcall (SemLookup mem v path) s)"
  using semfs_lookup_ok [OF assms, of mem path] assms(1)
  by (cases "semfs_lookup mem v path s") (auto simp: meets_def ends_def split: if_splits)

lemma semcall_getroot: "semfs_ok s \<Longrightarrow> meets (SemGetroot mem) s (semcall (SemGetroot mem) s)"
  using semfs_getvnode_error [of s SEMFS_ROOTDIR mem]
  by (cases "semfs_getvnode mem SEMFS_ROOTDIR s") (auto simp: meets_def ends_def semfs_getroot_def)

lemma semcall_read:
  assumes ok: "semfs_ok s" and v: "0 < refsof s v" "v \<noteq> SEMFS_ROOTDIR" and k: "0 < rounds"
  shows "meets (SemRead rounds cv lk v u) s (semcall (SemRead rounds cv lk v u) s)"
proof -
  obtain x where x: "semat s v = Some x" using semat_held [OF ok v] .
  obtain k' where k': "rounds = Suc k'" using k by (cases rounds) auto
  show ?thesis
  proof (cases "sems_count x < uio_resid u")
    case True
    then show ?thesis using x semfs_read_short [OF True] by (simp add: meets_def getsem_at)
  next
    case False
    then have "semfs_read rounds cv lk x u = Some (x\<lparr>sems_count := sems_count x - uio_resid u\<rparr>,
        u\<lparr>uio_offset := uio_offset u + uint (uio_resid u), uio_resid := 0\<rparr>)"
      unfolding k' by (intro semfs_read_enough) simp
    then show ?thesis using False x semfs_count_ok [OF ok x] by (simp add: meets_def getsem_at)
  qed
qed

lemma semcall_write:
  assumes ok: "semfs_ok s" and v: "0 < refsof s v" "v \<noteq> SEMFS_ROOTDIR"
  shows "meets (SemWrite cv lk v u) s (semcall (SemWrite cv lk v u) s)"
proof -
  obtain x where x: "semat s v = Some x" using semat_held [OF ok v] .
  have same: "setsem v (Some x) s = s" using x semat_in [OF x] by (simp add: setsem_def semat_def cell_def list_update_same_conv)
  show ?thesis
    using semfs_write_run [of cv lk x u] x same ok semfs_count_ok [OF ok x] by (simp add: meets_def getsem_at split: if_splits)
qed

lemma semcall_getdirentry:
  assumes ok: "semfs_ok s" and o: "0 \<le> offset"
  shows "meets (SemGetdirentry offset) s (semcall (SemGetdirentry offset) s)"
proof -
  let ?pos = "unat (word_of_int offset :: u32)"
  consider "length (semfs_dents s) \<le> ?pos" | "?pos < length (semfs_dents s)" "semfs_dents s ! ?pos = None"
    | d where "?pos < length (semfs_dents s)" "semfs_dents s ! ?pos = Some d" by (cases "semfs_dents s ! ?pos") fastforce+
  then show ?thesis
  proof cases
    case 3
    then have "cell (semfs_dents s) ?pos = Some d" by (simp add: cell_def)
    then have "dirof s (semd_name d) = Some (semd_semnum d)" using dirof_iff [OF semfs_okD(1) [OF ok]] by blast
    then show ?thesis using 3 o ok by (simp add: meets_def semfs_getdirentry_def Let_def)
  qed (use o ok in \<open>simp_all add: meets_def semfs_getdirentry_def Let_def\<close>)
qed

lemma semfs_create_ok: "semfs_ok semfs_create"
  by (simp add: semfs_ok_def tables_ok_def semfs_create_def semvn_def semat_def)

lemma semcall_unmount: "semfs_ok s \<Longrightarrow> meets SemUnmount s (semcall SemUnmount s)"
  using semfs_create_ok by (cases s) (auto simp: meets_def semfs_unmount_def semfs_destroy_def semfs_create_def)

lemma semcall_ok:
  assumes ok: "semfs_ok s" and l: "legal c (semabs s)"
  shows "meets c s (semcall c s)"
proof (cases c)
  case (SemLookparent v path n)
  then have "semvn s v \<noteq> None" using l refsof_pos [OF semfs_okD(1) [OF ok], of v] by simp
  from sem_incref_ok [OF ok this] show ?thesis using ok by (simp add: SemLookparent semfs_lookparent_def meets_def)
next
  case (SemTruncate cv lk v len)
  then show ?thesis using semfs_truncate_ok [OF ok, of v len cv lk] l ok by (auto simp: meets_def split: if_splits)
next
  case (SemDecref v)
  then show ?thesis using sem_decref_ok [OF ok, of v] l by (auto simp: meets_def)
next
  case (SemEachopen v flags)
  then show ?thesis using ok by (simp add: meets_def semfs_eachopen_def)
qed (use ok l semcall_creat semcall_remove semcall_lookup semcall_getroot semcall_read semcall_write semcall_getdirentry semcall_unmount
    in \<open>simp_all del: semcall.simps\<close>)

inductive sem_history :: "semfs \<Rightarrow> bool" where
  sem_start: "sem_history semfs_create"
| sem_ok: "sem_history s \<Longrightarrow> legal c (semabs s) \<Longrightarrow> semcall c s = Ok r t \<Longrightarrow> sem_history t"
| sem_err: "sem_history s \<Longrightarrow> legal c (semabs s) \<Longrightarrow> semcall c s = Err e t \<Longrightarrow> sem_history t"

lemma meets_ok: "meets c s x \<Longrightarrow> x = Ok r t \<or> x = Err e t \<Longrightarrow> semfs_ok t"
  by (auto simp: meets_def split: semend.splits)

lemma sem_history_ok: "sem_history s \<Longrightarrow> semfs_ok s"
  by (induction rule: sem_history.induct) (use semfs_create_ok semcall_ok meets_ok in blast)+


text \<open>
  \<^bold>\<open>C15.\<close> The tables of the semaphore file system agree with each other after any sequence of calls. A
  semaphore is in its table exactly as long as it has a name or a reference to its vnode, different names stand for
  different semaphores, and \<^verbatim>\<open>.\<close> and \<^verbatim>\<open>..\<close> are never entered.
\<close>

theorem semfs_semaphores_live:
  assumes "sem_history s"
  shows "(n \<in> dom (sd_count (semabs s)) \<longleftrightarrow> n \<in> ran (sd_dir (semabs s)) \<or> 0 < sd_refs (semabs s) n \<and> n \<noteq> SEMFS_ROOTDIR) \<and>
    inj_on (sd_dir (semabs s)) (dom (sd_dir (semabs s))) \<and> sd_dir (semabs s) [46] = None \<and> sd_dir (semabs s) [46, 46] = None"
proof -
  note T = semfs_okD(1) [OF sem_history_ok [OF assms]]
  note d = dirof_iff [OF T]
  have p: "0 < refsof s n \<longleftrightarrow> semvn s n \<noteq> None" by (rule refsof_pos [OF T])
  have "semat s n \<noteq> None \<longleftrightarrow> n \<in> ran (dirof s) \<or> 0 < refsof s n \<and> n \<noteq> SEMFS_ROOTDIR"
  proof (cases "semat s n")
    case None
    have "n \<notin> ran (dirof s)"
    proof
      assume "n \<in> ran (dirof s)"
      then obtain name where "dirof s name = Some n" by (auto simp: ran_def)
      then obtain i a where a: "cell (semfs_dents s) i = Some a" "semd_semnum a = n" using d by blast
      then show False using tables_okD(3) [OF T a(1)] None by simp
    qed
    then show ?thesis using None p tables_okD(9) [OF T, of n] by auto
  next
    case (Some x)
    then show ?thesis using p dirof_ran [OF T Some] tables_okD(4,5,7) [OF T Some] by auto
  qed
  moreover have "inj_on (dirof s) (dom (dirof s))"
  proof (rule inj_onI)
    fix u v assume u: "u \<in> dom (dirof s)" "dirof s u = dirof s v"
    then obtain m where "dirof s u = Some m" by blast
    then obtain i a j b where "cell (semfs_dents s) i = Some a" "semd_name a = u" "semd_semnum a = m"
      "cell (semfs_dents s) j = Some b" "semd_name b = v" "semd_semnum b = m" using d u(2) by metis
    then show "u = v" using tables_okD(1) [OF T, of i a j b] by auto
  qed
  moreover have "dirof s nm = None" if "dots nm" for nm
    using that d [of nm] tables_okD(2) [OF T] by (cases "dirof s nm") auto
  ultimately show ?thesis by (auto simp: dots_def dom_def)
qed


subsection \<open>The vnodes of semfs behind path lookup\<close>

text \<open>
  The tables \<^verbatim>\<open>semfs_dirops\<close>, \<^verbatim>\<open>semfs_semops\<close> and \<^verbatim>\<open>semfs_fsops\<close>. What a semaphore does not support fails
  with the errors of \<^verbatim>\<open>kern/vfs/vfsfail.c\<close>. There is one file system and no device. A creation that
  returns 0 without a vnode ends in the assertion of \<^verbatim>\<open>vfs_open\<close> that there is one.
\<close>

definition isroot :: "u32 \<Rightarrow> errno \<Rightarrow> (semfs \<Rightarrow> ('a, semfs) res) \<Rightarrow> semfs \<Rightarrow> ('a, semfs) res" where
  "isroot v e f s = (if v = SEMFS_ROOTDIR then f s else Err e s)"

definition semfs_ops :: "(nat \<Rightarrow> bool) \<Rightarrow> cv \<Rightarrow> klock \<Rightarrow> (u32, unit, semfs) vfsops" where
  "semfs_ops mem cv lk =
     \<lparr>fsop_sync = (\<lambda>_ s. Ok () s), fsop_getvolname = (\<lambda>_ s. Some [115, 101, 109]), fsop_getroot = (\<lambda>_. semfs_getroot mem),
      fsop_unmount = (\<lambda>_. semfs_unmount), vn_fs = (\<lambda>_. Some ()), vop_incref = (\<lambda>v s. Ok () (sem_incref v s)), vop_decref = sem_decref,
      vop_gettype = semfs_gettype, vop_eachopen = semfs_eachopen,
      vop_truncate = (\<lambda>v len s. if v = SEMFS_ROOTDIR then Err EISDIR s else semfs_truncate cv lk v len s),
      vop_creat = (\<lambda>v name excl mode. isroot v ENOTDIR (\<lambda>s. kbind (semfs_creat mem name excl s) (\<lambda>r s. case r of None \<Rightarrow> Panic | Some n \<Rightarrow> Ok n s))),
      vop_remove = (\<lambda>v name. isroot v ENOTDIR (semfs_remove name)),
      vop_rename = (\<lambda>v n1 w n2. isroot v ENOTDIR (Err ENOSYS)), vop_link = (\<lambda>v name w. isroot v ENOTDIR (Err ENOSYS)),
      vop_lookup = (\<lambda>v path. isroot v ENOTDIR (semfs_lookup mem v path)),
      vop_lookparent = (\<lambda>v path n. isroot v ENOTDIR (semfs_lookparent v path n)),
      dev_create_vnode = (\<lambda>_ s. Err ENOMEM s), dev_uncreate_vnode = (\<lambda>_ s. Panic)\<rparr>"

lemma refsof_open: "semabs t = spec_open n (semabs s) \<Longrightarrow> refsof t = add_ref (refsof s) (Some n)"
  by (auto simp: spec_open_def dest: arg_cong [of _ _ sd_refs])

lemma sem_gives:
  assumes "semfs_ok s" "ends r (\<lambda>x t. semfs_ok t \<and> semabs t = spec_open (pick x) (semabs s)) (\<lambda>e t. semfs_ok t \<and> semabs t = semabs s)"
  shows "gives semfs_ok (\<lambda>_ _. True) refsof (\<lambda>_. False) pick s r"
  unfolding gives_def
  by (rule ends_mono [OF assms(2)]) (auto dest: arg_cong [of _ _ sd_refs] simp: spec_open_def)

interpretation sv: vnode_provider "semfs_ops mem cv lk" semfs_ok "\<lambda>_ _. True" refsof "\<lambda>_. False" for mem cv lk
proof (unfold_locales, goal_cases)
  case (1 w v)
  then have "semvn w v \<noteq> None" using refsof_pos [OF semfs_okD(1)] by blast
  from sem_incref_ok [OF 1(1) this] show ?case using refsof_open by (simp add: semfs_ops_def del: add_ref.simps)
next
  case (2 w v)
  obtain t where t: "sem_decref v w = Ok () t" "semfs_ok t" "semabs t = spec_close v (semabs w)" using sem_decref_ok [OF 2(1,2)] by blast
  have "refsof t = (refsof w)(v := refsof w v - 1)" using t(3) by (auto simp: spec_close_def dest: arg_cong [of _ _ sd_refs])
  then show ?case using t(1,2) 2(2) by (auto simp: semfs_ops_def)
next
  case (3 w f)
  have "ends (semfs_getvnode mem SEMFS_ROOTDIR w) (\<lambda>x t. semfs_ok t \<and> semabs t = spec_open (id x) (semabs w)) (\<lambda>e t. semfs_ok t \<and> semabs t = semabs w)"
    by (rule ends_mono [OF semfs_getvnode_ok [OF 3(1)]]) (auto simp: 3(1))
  from sem_gives [where pick = id, OF 3(1) this] show ?case by (simp add: semfs_ops_def semfs_getroot_def)
next
  case (4 w v p)
  have "ends (isroot v ENOTDIR (semfs_lookup mem v p) w) (\<lambda>x t. semfs_ok t \<and> semabs t = spec_open (id x) (semabs w)) (\<lambda>e t. semfs_ok t \<and> semabs t = semabs w)"
    unfolding isroot_def using semfs_lookup_ok [OF 4(1,2), of mem p] 4(1) by (auto elim!: ends_mono)
  from sem_gives [where pick = id, OF 4(1) this] show ?case by (simp add: semfs_ops_def)
next
  case (5 w v p n)
  then have "semvn w v \<noteq> None" using refsof_pos [OF semfs_okD(1)] by blast
  from sem_incref_ok [OF 5(1) this] have "ends (isroot v ENOTDIR (semfs_lookparent v p n) w)
      (\<lambda>x t. semfs_ok t \<and> semabs t = spec_open (fst x) (semabs w)) (\<lambda>e t. semfs_ok t \<and> semabs t = semabs w)"
    using 5(1) by (cases "v = SEMFS_ROOTDIR") (simp_all add: isroot_def semfs_lookparent_def)
  from sem_gives [where pick = fst, OF 5(1) this] show ?case by (simp add: semfs_ops_def)
next
  case (6 w v)
  then show ?case by (simp add: semfs_ops_def semfs_gettype_def)
next
  case (7 w v flags)
  then show ?case by (simp add: semfs_ops_def semfs_eachopen_def)
qed simp


subsection \<open>P and V\<close>

text \<open>
  \<^bold>\<open>C16.\<close> P and V on a semaphore file. Reading \<open>n\<close> bytes returns if and only if the count is at least \<open>n\<close>, and
  then takes exactly \<open>n\<close> units; otherwise the loop never ends, because waiting on
  the condition variable returns at once and keeps the lock, so that nobody can add units. Writing \<open>n\<close> bytes adds
  \<open>n\<close> units, or fails with \<^verbatim>\<open>EFBIG\<close> and changes nothing when the count would not fit into 32 bits. What
  one V has added, a P of the same size takes again.
\<close>

theorem semfs_P_V:
  "(\<exists>k r. semfs_read k cv lk sem u = Some r) = (uio_resid u \<le> sems_count sem) \<and>
   (if unat (sems_count sem) + unat (uio_resid u) < 2 ^ 32 then
      (let sem' = sem\<lparr>sems_count := sems_count sem + uio_resid u\<rparr> in
       semfs_write cv lk sem u = Ok () (sem', u\<lparr>uio_offset := uio_offset u + uint (uio_resid u), uio_resid := 0\<rparr>) \<and>
       unat (sems_count sem') = unat (sems_count sem) + unat (uio_resid u) \<and>
       semfs_read (Suc k) cv lk sem' u = Some (sem, u\<lparr>uio_offset := uio_offset u + uint (uio_resid u), uio_resid := 0\<rparr>))
    else semfs_write cv lk sem u = Err EFBIG (sem, u))"
proof -
  let ?c = "sems_count sem" and ?n = "uio_resid u"
  have ends: "(\<exists>k r. semfs_read k cv lk sem u = Some r) = (?n \<le> ?c)"
    using semfs_read_enough [of u sem] semfs_read_short [of sem u] by (metis linorder_not_less option.distinct(1))
  show ?thesis
  proof (cases "unat ?c + unat ?n < 2 ^ 32")
    case True
    then have s: "unat (?c + ?n) = unat ?c + unat ?n" by (rule unat_add_small)
    then have "?n \<le> ?c + ?n" by (simp add: u32_order)
    then show ?thesis using True s ends semfs_write_run [of cv lk sem u] semfs_read_enough [of u "sem\<lparr>sems_count := ?c + ?n\<rparr>"]
      by (simp add: Let_def)
  qed (use ends semfs_write_run [of cv lk sem u] in simp)
qed


subsection \<open>A semaphore named a\<close>

definition sem_demo :: semfs where
  "sem_demo = \<lparr>semfs_vnodes = [\<lparr>sem_refcount = 1, semv_semnum = SEMFS_ROOTDIR\<rparr>, \<lparr>sem_refcount = 1, semv_semnum = 0\<rparr>],
     semfs_sems = [Some \<lparr>sems_count = 0, sems_hasvnode = True, sems_linked = True\<rparr>],
     semfs_dents = [Some \<lparr>semd_name = [97], semd_semnum = 0\<rparr>]\<rparr>"

lemma sem_demo_history: "sem_history sem_demo"
proof -
  let ?s = "semfs_create\<lparr>semfs_vnodes := [\<lparr>sem_refcount = 1, semv_semnum = SEMFS_ROOTDIR\<rparr>]\<rparr>"
  have "semcall (SemGetroot (\<lambda>_. True)) semfs_create = Ok (Vnode SEMFS_ROOTDIR) ?s"
    by (simp add: semfs_getroot_def semfs_getvnode_def semvn_def semfs_create_def semfs_vnode_create_def)
  from sem_ok [OF sem_start _ this] have s: "sem_history ?s" by simp
  have "semcall (SemCreat (\<lambda>_. True) [97] False) ?s = Ok (Vnode 0) sem_demo"
    by (simp add: semfs_create_def semfs_creat_def dots_def semfs_sem_create_def semfs_sem_insert_def creat_enter_def
        semfs_direntry_create_def semfs_getvnode_def semvn_def semfs_vnode_create_def getsem_def setsem_def sem_demo_def SEMFS_ROOTDIR_def)
  from sem_ok [OF s _ this] show ?thesis by simp
qed

text \<open>After the name is removed and the last reference dropped, the slots stay behind empty, and unmounting faults.\<close>

lemma semfs_unmount_faults:
  "kbind (semcall (SemRemove [97]) sem_demo) (\<lambda>_ s. kbind (semcall (SemDecref 0) s) (\<lambda>_ s. kbind (semcall (SemDecref SEMFS_ROOTDIR) s)
     (\<lambda>_ s. semcall SemUnmount s))) = Fault"
  by code_simp

definition sem_demo_lock :: klock where
  "sem_demo_lock = \<lparr>lk_name = [], lk_wchan = [], lk_spinlock = spinlock_init, lk_thread = Some 1\<rparr>"


theorem semfs_semaphores_live_witness:
  "(0 \<in> dom (sd_count (semabs sem_demo)) \<longleftrightarrow>
      0 \<in> ran (sd_dir (semabs sem_demo)) \<or> 0 < sd_refs (semabs sem_demo) 0 \<and> 0 \<noteq> SEMFS_ROOTDIR) \<and>
   sd_dir (semabs sem_demo) [46] = None"
  using semfs_semaphores_live [OF sem_demo_history, of 0] by blast

end
