(* ===== verification/Spec2Isabelle.thy ===== *)
theory Spec2Isabelle
  imports Karray Kbitmap Threadlist Synch Hangman Sched SfsFsops KheapFree Copyinout CString VfsSfs Semfs
begin

text \<open>
  Verification of OS/161, an instructional operating system: the kernel under
  \<^verbatim>\<open>src/os161/os161-base-2.0.3/kern\<close> and the library code it shares with user programs under
  \<^verbatim>\<open>src/os161/os161-base-2.0.3/common\<close>. All paths below are relative to
  \<^verbatim>\<open>src/os161/os161-base-2.0.3\<close>.

  \<^bold>\<open>The program.\<close> The kernel runs on a 32-bit big-endian multiprocessor. At the bottom are data
  structures (resizeable arrays, bitmaps, intrusive thread lists), interrupt levels and
  spinlocks. On these stand the scheduler with its run queues and wait channels, and on the wait
  channels semaphores, sleep locks and the deadlock detector. The file system SFS stands on the disk
  driver: blocks with retries, a free map (a bitmap), block maps of inodes, byte-granular I/O driven
  by transfer descriptors, a table of loaded inodes with reference counts, directories, and the
  operations the VFS layer calls. The VFS layer keeps the table of devices and mounted file systems
  and turns path names into vnodes. One big lock protects the file system.

  \<^bold>\<open>Theories and sources.\<close>
  \<^item> \<open>Prelude\<close>: error numbers, the result type \<open>res\<close> (value and new state, error and new state,
    panic, invalid memory access, non-termination), C division, word lemmas.
  \<^item> \<open>Karray\<close>: \<^verbatim>\<open>kern/lib/array.c\<close>. \<open>Kbitmap\<close>: \<^verbatim>\<open>kern/lib/bitmap.c\<close>.
    \<open>Threadlist\<close>: \<^verbatim>\<open>kern/thread/threadlist.c\<close> on an explicit heap of list nodes.
  \<^item> \<open>Spinlock\<close>: \<^verbatim>\<open>kern/thread/spl.c\<close>, \<^verbatim>\<open>kern/thread/spinlock.c\<close>, as functions on the machine state and
    as a step relation over single memory accesses of many CPUs.
  \<^item> \<open>Synch\<close>: \<^verbatim>\<open>kern/thread/synch.c\<close>; P, V, lock_acquire and lock_release as interleaved step relations
    over any number of threads. \<open>Hangman\<close>: \<^verbatim>\<open>kern/thread/hangman.c\<close>.
  \<^item> \<open>Sched\<close>: \<^verbatim>\<open>kern/thread/thread.c\<close> and \<^verbatim>\<open>kern/thread/clock.c\<close>: creation, switching, sleeping, waking,
    migration and interprocessor interrupts on one record of all CPUs and threads.
  \<^item> \<open>Uio\<close>: \<^verbatim>\<open>kern/lib/uio.c\<close>. \<open>SfsDisk\<close>: \<^verbatim>\<open>kern/dev/lamebus/lhd.c\<close>, \<^verbatim>\<open>kern/include/kern/sfs.h\<close>,
    \<^verbatim>\<open>kern/include/sfs.h\<close> and the block I/O of \<^verbatim>\<open>kern/fs/sfs/sfs_io.c\<close>.
  \<^item> \<open>SfsBlock\<close>: \<^verbatim>\<open>kern/fs/sfs/sfs_balloc.c\<close>, \<^verbatim>\<open>sfs_bmap.c\<close>. \<open>SfsIo\<close>: the file I/O of \<^verbatim>\<open>sfs_io.c\<close>.
    \<open>SfsInode\<close>: \<^verbatim>\<open>sfs_inode.c\<close> and \<^verbatim>\<open>kern/vfs/vnode.c\<close>. \<open>SfsDir\<close>: \<^verbatim>\<open>sfs_dir.c\<close>. \<open>SfsVnops\<close>: \<^verbatim>\<open>sfs_vnops.c\<close>.
    \<open>SfsFsops\<close>: \<^verbatim>\<open>sfs_fsops.c\<close> (sync, mount, unmount).
  \<^item> \<open>Vfs\<close>: the device table, \<^verbatim>\<open>kern/vfs/vfslist.c\<close>. \<open>VfsPath\<close>: path names, \<^verbatim>\<open>kern/vfs/vfslookup.c\<close>, \<^verbatim>\<open>vfscwd.c\<close> and
    \<^verbatim>\<open>vfspath.c\<close>. \<open>VfsSfs\<close>: the operation tables of devices (\<^verbatim>\<open>kern/vfs/device.c\<close>, \<^verbatim>\<open>vfsfail.c\<close>) and of SFS, with
    any number of mounted volumes. \<open>Semfs\<close>: the semaphore file system, \<^verbatim>\<open>kern/fs/semfs\<close>.
  \<^item> \<open>Physmem\<close>: \<^verbatim>\<open>kern/arch/mips/vm/ram.c\<close> and the page allocation of \<^verbatim>\<open>dumbvm.c\<close>. \<open>Kmalloc\<close>: \<^verbatim>\<open>kern/vm/kmalloc.c\<close>,
    with the lemmas on pagerefs. \<open>Kheap\<close>, \<open>KheapFree\<close>: its correctness.
  \<^item> \<open>Dumbvm\<close>: address spaces and page faults of \<^verbatim>\<open>kern/arch/mips/vm/dumbvm.c\<close>, the TLB, and the TLB faults of \<^verbatim>\<open>mips_trap\<close>
    taken in kernel mode. \<open>UserMem\<close>: their correctness. \<open>Copyinout\<close>: \<^verbatim>\<open>kern/vm/copyinout.c\<close>.
  \<^item> \<open>CString\<close>: the string functions and \<^verbatim>\<open>atoi\<close> of \<^verbatim>\<open>common/libc\<close>.

  \<^bold>\<open>State and operations.\<close> A C structure is a record with the names of its fields; an operation is a
  function from the state to \<open>res\<close>, with one branch per return, assertion and panic of the code.
  Integers that sizes, positions, block and page numbers, counts of semaphores and bit patterns are computed from keep their
  width as words; offsets (\<^verbatim>\<open>off_t\<close>) are integers, cut where the code
  stores them in 32 bits. Four kinds of counters are natural numbers or integers instead: the reference counts of vnodes (\<^verbatim>\<open>int\<close> in the
  code; they equal the number of owners, so the model agrees with the code below \<open>2 ^ 31\<close> simultaneous owners), the depth of the
  big lock, \<^verbatim>\<open>c_spinlocks\<close> and \<^verbatim>\<open>t_iplhigh_count\<close> (nesting depths on one thread or CPU). Memory allocation is a parameter that succeeds or fails. The file system's
  state \<open>sfs_fs\<close> holds the superblock, the free map, the loaded vnodes, the disk and the depth of the
  big lock; a vnode is named by its inode number.

  \<^bold>\<open>What is shown.\<close> The containers implement sequences and sets within their memory. Spinlocks,
  semaphores and locks exclude and do not lose wake-ups in every interleaving (a thread that acquires a lock it owns
  sleeps for ever, which is stated), interrupt levels are
  restored, the deadlock detector reports exactly the cycles, yielding is round-robin.
  For SFS the invariant \<open>fs_ok\<close> says that the blocks of loaded files are in range, marked in use
  and owned by one file each. Every operation keeps it, and: block maps allocate and truncate
  exactly the blocks they should, up to one off-by-one that is stated; reading and
  writing implement byte sequences; directories implement finite maps from names to inodes;
  creating and removing names, dropping the last reference and loading inodes have exactly
  the effects on the files, the free map and the disk they should, on success and on failure.
  Syncing makes the disk agree with memory, and mounting a synced volume gives it back.
  The device table keeps its names apart and is a map from names to file systems and
  devices; mounting and unmounting change one entry; the forms of a path are read as they should. Over devices and SFS volumes
  the reference count of every vnode is the number of its owners after any history of calls by
  path that do not create or truncate files, for volumes that are sound as a whole (\<open>sound_vol\<close>: also the files that are not loaded own their blocks).
  The semaphore file system implements a directory of counts whose semaphores live as long as they have a name or a
  reference, with each error tied to its cause; reading a semaphore returns exactly when it has the units asked for.
  Kernel pages are handed out once; the kernel heap implements a set of disjoint blocks that keep
  their contents, and never panics on calls of users that free and write only what they hold.
  Address spaces lie in disjoint memory and the TLB holds only translations of the current one,
  so processes are isolated; copying an address space copies what the process sees; transfers to and from
  user memory move exactly the bytes they should and survive every bad address.
  Some theorems state defects of the code; they are listed as findings with the manifest.

  \<^bold>\<open>Interfaces.\<close> Six contracts are locales, interpreted on the model's definitions in the theory of
  the provider: \<open>vector\<close> (arrays as sequences), \<open>slot_allocator\<close> (bitmaps as allocators of
  indices, on which the block allocation of SFS rests), \<open>thread_deque\<close> (thread lists as
  double-ended queues, on which the run queues and wait channels rest), \<open>page_source\<close> (kernel pages,
  on which the heap rests), \<open>allocator\<close> (the heap, for its users) and \<open>vnode_provider\<close> (vnodes with
  reference counts, on which path lookup rests, interpreted on the tables of devices and SFS and on those of the semaphore file system).

  \<^bold>\<open>Bounds.\<close> Loops that the code bounds by data are structural or have a measure; retry loops have the
  code's own limit (ten retries of a block transfer). The walks over the lists of pagerefs
  have the number of pagerefs that exist as fuel, and the theorems on the heap show that this is enough. No
  other model runs on fuel chosen here except where a theorem says how much is enough.

  \<^bold>\<open>Not modelled.\<close> Device registers and bus (\<^verbatim>\<open>kern/dev\<close> apart from \<^verbatim>\<open>lhd_io\<close>), trap entry and context
  switch in assembly: they act on hardware that has no source here. System calls and program loading have no
  model; calls of several threads on the semaphore file system are not interleaved; of the VFS layer \<^verbatim>\<open>vfs_getcwd\<close>, the calls SFS does not support (symbolic links, further directories) and the
  data transfer of devices are left out. User programs and test programs are clients of the system
  calls. The tools \<^verbatim>\<open>mksfs\<close>, \<^verbatim>\<open>dumpsfs\<close> and \<^verbatim>\<open>sfsck\<close> work on disk images on the host.
\<close>

end
